(* ===== verification/Plumb_Prelude.thy ===== *)
theory Plumb_Prelude
  imports Main "HOL-Library.Monad_Syntax" "HOL-Library.Char_ord"
begin

text \<open>
  The prelude of the development: what the components use of Go itself.

  A Go \<open>string\<close> or \<open>[]byte\<close> is a list of bytes, which is what \<^typ>\<open>string\<close> is here.
  Indexing a slice out of range panics; \<open>aget\<close> and \<open>aset\<close> return \<open>None\<close> for the panic, so
  that a function that indexes has an \<open>option\<close> result and a theorem that it returns
  \<open>Some\<close> says that it never panics. The functions of the package \<open>strings\<close> that the
  components call (\<open>HasPrefix\<close>, \<open>HasSuffix\<close>, \<open>TrimSuffix\<close>, \<open>CutSuffix\<close>, \<open>Contains\<close>,
  \<open>Split\<close>, \<open>SplitAfter\<close>, \<open>Join\<close>, \<open>Cut\<close>, \<open>Index\<close>) and the decimal conversions of \<open>strconv\<close>
  are defined as the Go documentation states them, at the arguments the components use.
\<close>

named_theorems go_simps \<open>rewrite rules for Go's string and slice operations\<close>
named_theorems go_defs \<open>definitions of the short operations of the components\<close>

section \<open>Slices\<close>

definition aget :: "'a list \<Rightarrow> int \<Rightarrow> 'a option" where
  "aget xs i = (if 0 \<le> i \<and> i < int (length xs) then Some (xs ! nat i) else None)"

definition aset :: "'a list \<Rightarrow> int \<Rightarrow> 'a \<Rightarrow> 'a list option" where
  "aset xs i x = (if 0 \<le> i \<and> i < int (length xs) then Some (xs[nat i := x]) else None)"

lemma aget_Some_iff:
  "aget xs i = Some x \<longleftrightarrow> 0 \<le> i \<and> i < int (length xs) \<and> xs ! nat i = x"
  by (auto simp: aget_def)

lemma aget_in_range [go_simps]:
  "0 \<le> i \<Longrightarrow> i < int (length xs) \<Longrightarrow> aget xs i = Some (xs ! nat i)"
  by (simp add: aget_def)

lemma aset_in_range [go_simps]:
  "0 \<le> i \<Longrightarrow> i < int (length xs) \<Longrightarrow> aset xs i x = Some (xs[nat i := x])"
  by (simp add: aset_def)

lemma aget_update [go_simps]:
  "aset xs i x = Some ys \<Longrightarrow> aget ys j = (if j = i then Some x else aget xs j)"
  by (auto simp: aset_def aget_def nth_list_update split: if_splits)

lemma aset_length [go_simps]: "aset xs i x = Some ys \<Longrightarrow> length ys = length xs"
  by (auto simp: aset_def split: if_splits)

lemma aget_nat [simp]: "aget xs (int i) = (if i < length xs then Some (xs ! i) else None)"
  by (simp add: aget_def)

section \<open>Strings\<close>

definition has_prefix :: "string \<Rightarrow> string \<Rightarrow> bool" where
  "has_prefix s p = (take (length p) s = p)"

definition has_suffix :: "string \<Rightarrow> string \<Rightarrow> bool" where
  "has_suffix s p = (length p \<le> length s \<and> drop (length s - length p) s = p)"

definition trim_suffix :: "string \<Rightarrow> string \<Rightarrow> string" where
  "trim_suffix s p = (if has_suffix s p then take (length s - length p) s else s)"

definition cut_suffix :: "string \<Rightarrow> string \<Rightarrow> string \<times> bool" where
  "cut_suffix s p =
     (if has_suffix s p then (take (length s - length p) s, True) else (s, False))"

fun contains :: "string \<Rightarrow> string \<Rightarrow> bool" where
  "contains [] sub = (sub = [])"
| "contains (c # cs) sub = (has_prefix (c # cs) sub \<or> contains cs sub)"

text \<open>\<open>strings.Split\<close> and \<open>strings.SplitAfter\<close> with a one-byte separator.\<close>

fun split_on :: "char \<Rightarrow> string \<Rightarrow> string list" where
  "split_on c [] = [[]]"
| "split_on c (x # xs) =
     (if x = c then [] # split_on c xs
      else (case split_on c xs of [] \<Rightarrow> [[x]] | w # ws \<Rightarrow> (x # w) # ws))"

fun split_after :: "char \<Rightarrow> string \<Rightarrow> string list" where
  "split_after c [] = [[]]"
| "split_after c (x # xs) =
     (if x = c then [x] # split_after c xs
      else (case split_after c xs of [] \<Rightarrow> [[x]] | w # ws \<Rightarrow> (x # w) # ws))"

fun join_with :: "string \<Rightarrow> string list \<Rightarrow> string" where
  "join_with sep [] = []"
| "join_with sep [w] = w"
| "join_with sep (w # ws) = w @ sep @ join_with sep ws"

text \<open>\<open>strings.Cut\<close> with a one-byte separator: before, after and whether it was found.\<close>

fun cut_at :: "char \<Rightarrow> string \<Rightarrow> string \<times> string \<times> bool" where
  "cut_at c [] = ([], [], False)"
| "cut_at c (x # xs) =
     (if x = c then ([], xs, True)
      else (case cut_at c xs of (b, a, f) \<Rightarrow> (x # b, a, f)))"

text \<open>A byte range of a character test.\<close>

abbreviation char_in :: "char \<Rightarrow> char \<Rightarrow> char \<Rightarrow> bool" where
  "char_in lo hi c \<equiv> lo \<le> c \<and> c \<le> hi"

text \<open>
  \<open>strings.TrimSpace\<close>: the white space of Unicode, as its UTF-8 bytes, off both ends.
\<close>

definition unicode_spaces :: "string list" where
  "unicode_spaces =
     map (\<lambda>c. [c]) [CHR 0x09, CHR 0x0A, CHR 0x0B, CHR 0x0C, CHR 0x0D, CHR 0x20] @
     [[CHR 0xC2, CHR 0x85], [CHR 0xC2, CHR 0xA0], [CHR 0xE1, CHR 0x9A, CHR 0x80]] @
     map (\<lambda>c. [CHR 0xE2, CHR 0x80, c])
       [CHR 0x80, CHR 0x81, CHR 0x82, CHR 0x83, CHR 0x84, CHR 0x85, CHR 0x86, CHR 0x87, CHR 0x88,
        CHR 0x89, CHR 0x8A, CHR 0xA8, CHR 0xA9, CHR 0xAF] @
     [[CHR 0xE2, CHR 0x81, CHR 0x9F], [CHR 0xE3, CHR 0x80, CHR 0x80]]"

function strip_front :: "string list \<Rightarrow> string \<Rightarrow> string" where
  "strip_front ws s =
     (case find (\<lambda>w. w \<noteq> [] \<and> has_prefix s w) ws of
        None \<Rightarrow> s
      | Some w \<Rightarrow> strip_front ws (drop (length w) s))"
  by pat_completeness auto
termination
proof (relation "measure (\<lambda>(ws, s). length s)", simp)
  fix ws s w
  assume "find (\<lambda>w. w \<noteq> [] \<and> has_prefix s w) ws = Some w"
  then have "w \<noteq> []" "has_prefix s w" by (auto simp: find_Some_iff)
  then have "s \<noteq> []" by (auto simp: has_prefix_def)
  with \<open>w \<noteq> []\<close> show "((ws, drop (length w) s), ws, s) \<in> measure (\<lambda>(ws, s). length s)"
    by simp
qed

declare strip_front.simps [simp del]

definition trim_space :: "string \<Rightarrow> string" where
  "trim_space s = rev (strip_front (map rev unicode_spaces) (rev (strip_front unicode_spaces s)))"

lemma has_prefix_append [go_simps]: "has_prefix (p @ s) p"
  by (simp add: has_prefix_def)

lemma has_prefix_iff: "has_prefix s p \<longleftrightarrow> (\<exists>r. s = p @ r)"
  by (metis append_eq_conv_conj has_prefix_def)

lemma has_suffix_iff: "has_suffix s p \<longleftrightarrow> (\<exists>r. s = r @ p)"
proof
  assume "has_suffix s p"
  then have "s = take (length s - length p) s @ p"
    by (metis append_take_drop_id has_suffix_def)
  then show "\<exists>r. s = r @ p" ..
qed (auto simp: has_suffix_def)

lemma has_suffix_single [go_simps]: "has_suffix s [c] \<longleftrightarrow> s \<noteq> [] \<and> last s = c"
  by (auto simp: has_suffix_iff) (metis append_butlast_last_id)

lemma cut_suffix_single [go_simps]:
  "cut_suffix s [c] = (if s \<noteq> [] \<and> last s = c then (butlast s, True) else (s, False))"
  by (simp add: cut_suffix_def has_suffix_single butlast_conv_take)

lemma trim_suffix_append [go_simps]: "trim_suffix (s @ p) p = s"
  by (simp add: trim_suffix_def has_suffix_def)

lemma contains_iff: "contains s sub \<longleftrightarrow> (\<exists>a b. s = a @ sub @ b)"
proof (induction s)
  case (Cons c cs)
  have "has_prefix (c # cs) sub \<or> (\<exists>a b. cs = a @ sub @ b) \<longleftrightarrow> (\<exists>a b. c # cs = a @ sub @ b)"
    (is "?l \<longleftrightarrow> ?r")
  proof
    assume ?l
    then show ?r
      by (metis append_Cons append_Nil has_prefix_iff)
  next
    assume ?r
    then obtain a b where "c # cs = a @ sub @ b" by blast
    then show ?l by (cases a) (auto simp: has_prefix_iff)
  qed
  with Cons.IH show ?case by simp
qed auto

lemma contains_single: "contains s [c] \<longleftrightarrow> c \<in> set s"
  by (induction s) (auto simp: has_prefix_def)

lemma split_on_nonempty [simp]: "split_on c s \<noteq> []"
  by (induction s) (auto split: list.splits)

lemma split_after_nonempty [simp]: "split_after c s \<noteq> []"
  by (induction s) (auto split: list.splits)

lemma join_with_Cons: "ws \<noteq> [] \<Longrightarrow> join_with sep (w # ws) = w @ sep @ join_with sep ws"
  by (cases ws) auto

lemma join_split [go_simps]: "join_with [c] (split_on c s) = s"
proof (induction s)
  case (Cons x xs)
  then show ?case
    by (cases "split_on c xs") (auto simp: join_with_Cons, metis join_with.simps(2) join_with_Cons append_Cons)
qed simp

lemma split_on_fresh: "c \<notin> set w \<Longrightarrow> split_on c w = [w]"
  by (induction w) auto

lemma split_on_append_sep: "c \<notin> set w \<Longrightarrow> split_on c (w @ c # s) = w # split_on c s"
  by (induction w) auto

lemma split_join [go_simps]:
  "ws \<noteq> [] \<Longrightarrow> \<forall>w \<in> set ws. c \<notin> set w \<Longrightarrow> split_on c (join_with [c] ws) = ws"
  by (induction ws rule: induct_list012) (auto simp: split_on_fresh split_on_append_sep)

lemma split_on_no_sep: "w \<in> set (split_on c s) \<Longrightarrow> c \<notin> set w"
  by (induction s arbitrary: w) (auto split: list.splits if_splits)

lemma concat_split_after [go_simps]: "concat (split_after c s) = s"
  by (induction s) (auto split: list.splits)

text \<open>Every piece of \<open>split_after\<close> but the last is a terminated line.\<close>

lemma split_after_butlast:
  "w \<in> set (butlast (split_after c s)) \<Longrightarrow> \<exists>t. w = t @ [c] \<and> c \<notin> set t"
proof (induction s arbitrary: w)
  case (Cons x xs)
  show ?case
  proof (cases "x = c")
    case True
    with Cons show ?thesis by (auto split: if_splits)
  next
    case False
    obtain u us where us: "split_after c xs = u # us"
      by (meson split_after_nonempty neq_Nil_conv)
    show ?thesis
    proof (cases "us = []")
      case True
      with False us Cons.prems show ?thesis by simp
    next
      case ne: False
      with False us Cons.prems have "w = x # u \<or> w \<in> set (butlast us)" by auto
      moreover have "\<And>v. v = u \<or> v \<in> set (butlast us) \<Longrightarrow> \<exists>t. v = t @ [c] \<and> c \<notin> set t"
        using Cons.IH us ne by auto
      ultimately show ?thesis using False
        by (metis append_Cons set_ConsD)
    qed
  qed
qed simp

lemma split_after_last: "c \<notin> set (last (split_after c s))"
proof (induction s)
  case (Cons x xs)
  then show ?case by (cases "split_after c xs") auto
qed simp

lemma cut_at_found: "cut_at c s = (b, a, True) \<Longrightarrow> s = b @ c # a \<and> c \<notin> set b"
  by (induction s arbitrary: b) (auto split: prod.splits if_splits)

lemma cut_at_not_found: "cut_at c s = (b, a, False) \<Longrightarrow> b = s \<and> a = [] \<and> c \<notin> set s"
  by (induction s arbitrary: b) (auto split: prod.splits if_splits)

section \<open>Decimal numbers\<close>

definition digit_char :: "nat \<Rightarrow> char" where
  "digit_char d = char_of (48 + d)"

definition is_digit :: "char \<Rightarrow> bool" where
  "is_digit c = (48 \<le> (of_char c :: nat) \<and> (of_char c :: nat) \<le> 57)"

definition digit_val :: "char \<Rightarrow> nat" where
  "digit_val c = of_char c - 48"

fun itoa :: "nat \<Rightarrow> string" where
  "itoa n = (if n < 10 then [digit_char n] else itoa (n div 10) @ [digit_char (n mod 10)])"

declare itoa.simps [simp del]

text \<open>
  \<open>strconv.Atoi\<close> on a string of decimal digits. Above the range of a 64-bit \<open>int\<close> it
  returns the greatest \<open>int\<close> and an error.
\<close>

definition max_int :: int where
  "max_int = 9223372036854775807"

definition digits_val :: "string \<Rightarrow> int" where
  "digits_val s = foldl (\<lambda>n c. 10 * n + int (digit_val c)) 0 s"

definition atoi_digits :: "string \<Rightarrow> int" where
  "atoi_digits s = min (digits_val s) max_int"

lemma digit_char_roundtrip [go_simps]: "d < 10 \<Longrightarrow> digit_val (digit_char d) = d"
  by (simp add: digit_val_def digit_char_def)

lemma is_digit_digit_char [go_simps]: "d < 10 \<Longrightarrow> is_digit (digit_char d)"
  by (simp add: is_digit_def digit_char_def)

lemma itoa_digits: "\<forall>c \<in> set (itoa n). is_digit c"
proof (induction n rule: itoa.induct)
  case (1 n)
  then show ?case
    by (subst itoa.simps) (auto simp: is_digit_digit_char)
qed

lemma itoa_nonempty [simp]: "itoa n \<noteq> []"
  by (subst itoa.simps) simp

lemma digits_val_itoa [go_simps]: "digits_val (itoa n) = int n"
proof (induction n rule: itoa.induct)
  case (1 n)
  show ?case
  proof (cases "n < 10")
    case True
    then show ?thesis
      by (subst itoa.simps) (simp add: digits_val_def digit_char_roundtrip)
  next
    case False
    with 1 have "digits_val (itoa (n div 10)) = int (n div 10)" by simp
    moreover have "10 * int (n div 10) + int (n mod 10) = int n" by presburger
    ultimately show ?thesis using False
      by (subst itoa.simps) (simp add: digits_val_def digit_char_roundtrip)
  qed
qed

lemma atoi_itoa [go_simps]: "int n \<le> max_int \<Longrightarrow> atoi_digits (itoa n) = int n"
  by (simp add: atoi_digits_def digits_val_itoa)

end
