(* ===== verification/Plumb_Paths.thy ===== *)
theory Plumb_Paths
  imports Plumb_Prelude
begin

text \<open>
  The conversion between paths and file URIs (\<open>internal/paths/uri.go\<close>). Which file a path
  names is decided by the file system, links and case folding included; the components take
  the identity key of \<open>paths.CanonicalKey\<close> as the parameter \<open>key\<close>.
\<close>

definition replace_char :: "char \<Rightarrow> char \<Rightarrow> string \<Rightarrow> string" where
  "replace_char a b s = map (\<lambda>c. if c = a then b else c) s"

definition backslash :: char where
  "backslash = CHR 0x5C"

definition isDriveLetter :: "char \<Rightarrow> bool" where
  "isDriveLetter b = (char_in CHR ''a'' CHR ''z'' b \<or> char_in CHR ''A'' CHR ''Z'' b)"

definition file_scheme :: string where
  "file_scheme = ''file://''"

definition pathToURI :: "string \<Rightarrow> bool \<Rightarrow> string" where
  "pathToURI path windows =
     (let p = (if windows then replace_char backslash CHR ''/'' path else path);
          q = (if has_prefix p ''/'' then p else CHR ''/'' # p)
      in file_scheme @ q)"

definition uriToPath :: "string \<Rightarrow> bool \<Rightarrow> string" where
  "uriToPath uri windows =
     (if \<not> has_prefix uri file_scheme then uri
      else
        (let p = drop (length file_scheme) uri in
         if \<not> windows then p
         else
           (let q = (if 3 \<le> length p \<and> p ! 0 = CHR ''/'' \<and> isDriveLetter (p ! 1) \<and> p ! 2 = CHR '':''
                     then drop 1 p else p)
            in replace_char CHR ''/'' backslash q)))"

lemma uriToPath_unix: "has_prefix p ''/'' \<Longrightarrow> uriToPath (pathToURI p False) False = p"
  by (simp add: uriToPath_def pathToURI_def file_scheme_def has_prefix_def)

text \<open>A Windows path with a drive letter comes back with backslashes.\<close>

lemma uriToPath_windows:
  assumes "isDriveLetter d" "CHR ''/'' \<notin> set rest"
  shows "uriToPath (pathToURI (d # CHR '':'' # rest) True) True = d # CHR '':'' # rest"
proof -
  have "d \<noteq> CHR ''/''" "d \<noteq> backslash"
    using assms(1) by (auto simp: isDriveLetter_def backslash_def less_eq_char_def)
  moreover have "replace_char CHR ''/'' backslash (replace_char backslash CHR ''/'' rest) = rest"
    using assms(2) by (induction rest) (auto simp: backslash_def replace_char_def)
  moreover have "CHR '':'' \<noteq> backslash" by (simp add: backslash_def)
  ultimately show ?thesis using assms(1)
    by (simp add: uriToPath_def pathToURI_def file_scheme_def has_prefix_def Let_def )
      (simp add: replace_char_def)
qed

end
