(* ===== verification/Plumb_Filepath.thy ===== *)
theory Plumb_Filepath
  imports Plumb_Paths "HOL-Library.Sublist"
begin

text \<open>
  What the components use of Go's \<open>path/filepath\<close> on Unix: \<open>Clean\<close>, \<open>Join\<close>, \<open>IsAbs\<close>, \<open>Rel\<close>
  on byte strings, and \<open>EvalSymlinks\<close> over a file system of directories, files and symbolic
  links. \<open>namei\<close> is the walk of the kernel: the components of a path from the left, a link
  replaced by its target where it stands, \<open>..\<close> applied to where the walk has arrived, and an
  end after a number of links (40 in Linux, 255 in \<open>EvalSymlinks\<close>). Names are compared
  byte by byte.
\<close>

section \<open>Lexical operations\<close>

definition IsAbs :: "string \<Rightarrow> bool" where
  "IsAbs s = has_prefix s ''/''"

definition clean_comp :: "bool \<Rightarrow> string \<Rightarrow> string list \<Rightarrow> string list" where
  "clean_comp rooted c acc =
     (if c = [] \<or> c = ''.'' then acc
      else if c = ''..'' then
        (if acc \<noteq> [] \<and> hd acc \<noteq> ''..'' then tl acc else if rooted then acc else c # acc)
      else c # acc)"

definition clean_comps :: "bool \<Rightarrow> string list \<Rightarrow> string list" where
  "clean_comps rooted cs = rev (fold (clean_comp rooted) cs [])"

definition show_path :: "string list \<Rightarrow> string" where
  "show_path cs = CHR ''/'' # join_with ''/'' cs"

definition Clean :: "string \<Rightarrow> string" where
  "Clean s =
     (let cs = clean_comps (IsAbs s) (split_on (CHR ''/'') s) in
      if IsAbs s then show_path cs else if cs = [] then ''.'' else join_with ''/'' cs)"

text \<open>\<open>filepath.Join\<close> of two elements ignores the empty ones.\<close>

definition Join :: "string \<Rightarrow> string \<Rightarrow> string" where
  "Join a b =
     (if a \<noteq> [] then Clean (a @ ''/'' @ b) else if b \<noteq> [] then Clean b else [])"

text \<open>\<open>filepath.Base\<close> and \<open>filepath.Dir\<close>.\<close>

definition path_base :: "string \<Rightarrow> string" where
  "path_base s =
     (if s = [] then ''.''
      else (case filter (\<lambda>c. c \<noteq> []) (split_on (CHR ''/'') s) of [] \<Rightarrow> ''/'' | cs \<Rightarrow> last cs))"

definition path_dir :: "string \<Rightarrow> string" where
  "path_dir s = Clean (rev (dropWhile (\<lambda>c. c \<noteq> CHR ''/'') (rev s)))"

definition elements :: "string \<Rightarrow> string list" where
  "elements s = filter (\<lambda>c. c \<noteq> []) (split_on (CHR ''/'') s)"

fun rel_elements :: "string list \<Rightarrow> string list \<Rightarrow> string list option" where
  "rel_elements [] ts = Some ts"
| "rel_elements (b # bs) (t # ts) =
     (if b = t then rel_elements bs ts
      else if b = ''..'' then None
      else Some (replicate (Suc (length bs)) ''..'' @ t # ts))"
| "rel_elements (b # bs) [] =
     (if b = ''..'' then None else Some (replicate (Suc (length bs)) ''..''))"

definition Rel :: "string \<Rightarrow> string \<Rightarrow> string option" where
  "Rel basepath targpath =
     (let b = Clean basepath; t = Clean targpath in
      if b = t then Some ''.''
      else
        (let b = (if b = ''.'' then [] else b) in
         if IsAbs b \<noteq> IsAbs t then None
         else map_option (join_with ''/'') (rel_elements (elements b) (elements t))))"

section \<open>Resolving a path\<close>

datatype node = Dir | File | Link string

type_synonym file_system = "string list \<Rightarrow> node option"

text \<open>
  Where a walk ends: at a place, at a name its directory does not have (with what of the
  path is left, the name first), at a file used as a directory, or out of links.
\<close>

datatype walk = Found "string list" | Absent "string list" "string list" | Not_dir | Too_many_links

function namei :: "file_system \<Rightarrow> nat \<Rightarrow> string list \<Rightarrow> string list \<Rightarrow> walk" where
  "namei fs n d [] = Found d"
| "namei fs n d (c # cs) =
     (if c = [] \<or> c = ''.'' then namei fs n d cs
      else if c = ''..'' then namei fs n (butlast d) cs
      else
        (case fs (d @ [c]) of
           None \<Rightarrow> Absent d (c # cs)
         | Some Dir \<Rightarrow> namei fs n (d @ [c]) cs
         | Some File \<Rightarrow> if cs = [] then Found (d @ [c]) else Not_dir
         | Some (Link l) \<Rightarrow>
             if n = 0 then Too_many_links
             else namei fs (n - 1) (if IsAbs l then [] else d) (split_on (CHR ''/'') l @ cs)))"
  by pat_completeness auto
termination by (relation "measures [\<lambda>(fs, n, d, cs). n, \<lambda>(fs, n, d, cs). length cs]") auto

definition max_links :: nat where
  "max_links = 255"

definition kernel_links :: nat where
  "kernel_links = 40"

definition EvalSymlinks :: "file_system \<Rightarrow> string \<Rightarrow> string option" where
  "EvalSymlinks fs s =
     (case namei fs max_links [] (split_on (CHR ''/'') s) of
        Found q \<Rightarrow> Some (show_path q)
      | _ \<Rightarrow> None)"


section \<open>Plain components\<close>

definition plain :: "string \<Rightarrow> bool" where
  "plain c = (c \<noteq> [] \<and> c \<noteq> ''.'' \<and> c \<noteq> ''..'' \<and> CHR ''/'' \<notin> set c)"

abbreviation plains :: "string list \<Rightarrow> bool" where
  "plains \<equiv> list_all plain"

lemma plainD: "plain c \<Longrightarrow> c \<noteq> []" "plain c \<Longrightarrow> c \<noteq> ''.''" "plain c \<Longrightarrow> c \<noteq> ''..''" "plain c \<Longrightarrow> CHR ''/'' \<notin> set c"
  by (auto simp: plain_def)

lemma clean_comp_plain: "plain c \<Longrightarrow> clean_comp b c acc = c # acc"
  by (simp add: clean_comp_def plain_def)

lemma fold_clean_plain: "plains cs \<Longrightarrow> fold (clean_comp b) cs acc = rev cs @ acc"
  by (induction cs arbitrary: acc) (auto simp: clean_comp_plain)

lemma clean_comps_plain [simp]: "plains cs \<Longrightarrow> clean_comps b cs = cs"
  by (simp add: clean_comps_def fold_clean_plain)

lemma clean_comps_skip [simp]: "clean_comps b ([] # cs) = clean_comps b cs"
  by (simp add: clean_comps_def clean_comp_def)

lemma split_join_plain: "plains cs \<Longrightarrow> cs \<noteq> [] \<Longrightarrow> split_on (CHR ''/'') (join_with ''/'' cs) = cs"
  by (rule split_join) (auto simp: list_all_iff plain_def)

lemma split_show: "plains cs \<Longrightarrow> split_on (CHR ''/'') (show_path cs) = [] # (if cs = [] then [[]] else cs)"
  by (simp add: show_path_def split_join_plain)

lemma clean_comps_show [simp]: "plains cs \<Longrightarrow> clean_comps b (split_on (CHR ''/'') (show_path cs)) = cs"
  by (simp add: split_show)

lemma IsAbs_show [simp]: "IsAbs (show_path cs)"
  by (simp add: IsAbs_def show_path_def has_prefix_def)

lemma Clean_show [simp]: "plains cs \<Longrightarrow> Clean (show_path cs) = show_path cs"
  by (simp add: Clean_def)

lemma elements_show [simp]: "plains cs \<Longrightarrow> elements (show_path cs) = cs"
  by (auto simp: elements_def split_show list_all_iff plain_def filter_id_conv)

lemma show_path_inject: "plains cs \<Longrightarrow> plains ds \<Longrightarrow> show_path cs = show_path ds \<longleftrightarrow> cs = ds"
  by (metis elements_show)

lemma IsAbs_split: "IsAbs s \<Longrightarrow> \<exists>cs. split_on (CHR ''/'') s = [] # cs"
  by (cases s) (auto simp: IsAbs_def has_prefix_def)

text \<open>Cleaning a rooted path leaves plain components only.\<close>

lemma clean_comp_rooted: "CHR ''/'' \<notin> set c \<Longrightarrow> plains acc \<Longrightarrow> plains (clean_comp True c acc)"
  by (cases acc) (auto simp: clean_comp_def plain_def)

lemma fold_clean_rooted: "(\<And>c. c \<in> set cs \<Longrightarrow> CHR ''/'' \<notin> set c) \<Longrightarrow> plains acc \<Longrightarrow> plains (fold (clean_comp True) cs acc)"
proof (induction cs arbitrary: acc)
  case (Cons c cs)
  show ?case using Cons.IH [OF _ clean_comp_rooted [OF Cons.prems(1) Cons.prems(2)]] Cons.prems(1) by simp
qed simp

lemma plains_clean: "plains (clean_comps True (split_on (CHR ''/'') s))"
proof -
  have "plains (fold (clean_comp True) (split_on (CHR ''/'') s) [])"
    by (rule fold_clean_rooted) (auto dest: split_on_no_sep)
  then show ?thesis by (simp add: clean_comps_def)
qed

lemma Clean_abs: "IsAbs s \<Longrightarrow> Clean s = show_path (clean_comps True (split_on (CHR ''/'') s))"
  by (simp add: Clean_def)

lemma IsAbs_Clean: "IsAbs s \<Longrightarrow> IsAbs (Clean s)"
  by (simp add: Clean_abs)

section \<open>Facts about walks\<close>

definition wf_fs :: "file_system \<Rightarrow> bool" where
  "wf_fs fs = (fs [] = Some Dir \<and> (\<forall>d c. fs (d @ [c]) \<noteq> None \<longrightarrow> fs d = Some Dir \<and> plain c))"

lemma wf_fs_root: "wf_fs fs \<Longrightarrow> fs [] = Some Dir"
  by (simp add: wf_fs_def)

lemma wf_fs_parent: "wf_fs fs \<Longrightarrow> fs (d @ [c]) \<noteq> None \<Longrightarrow> fs d = Some Dir"
  by (simp add: wf_fs_def)

lemma wf_fs_plain: "wf_fs fs \<Longrightarrow> fs (d @ [c]) \<noteq> None \<Longrightarrow> plain c"
  by (simp add: wf_fs_def)

lemma wf_fs_butlast: "wf_fs fs \<Longrightarrow> fs d = Some Dir \<Longrightarrow> fs (butlast d) = Some Dir"
  by (cases d rule: rev_cases) (auto dest: wf_fs_parent)

lemma wf_fs_plains: "wf_fs fs \<Longrightarrow> fs d \<noteq> None \<Longrightarrow> plains d"
proof (induction d rule: rev_induct)
  case (snoc c d)
  then show ?case by (auto dest: wf_fs_parent wf_fs_plain)
qed simp

text \<open>A file system given by a list of its entries.\<close>

lemma wf_fs_map_of:
  assumes "list_all (\<lambda>(q, x). if q = [] then x = Dir else map_of es (butlast q) = Some Dir \<and> plain (last q)) es"
    and "map_of es [] = Some Dir"
  shows "wf_fs (map_of es)"
proof -
  have "map_of es d = Some Dir \<and> plain c" if some: "map_of es (d @ [c]) \<noteq> None" for d c
  proof -
    from some obtain x where "(d @ [c], x) \<in> set es" by (auto dest: map_of_SomeD)
    with assms(1) show ?thesis by (force simp: list_all_iff)
  qed
  with assms(2) show ?thesis by (simp add: wf_fs_def)
qed

definition real :: "file_system \<Rightarrow> string list \<Rightarrow> bool" where
  "real fs q = (fs q = Some Dir \<or> fs q = Some File)"

text \<open>Walks from a directory arrive at directories and files, and stop at directories.\<close>

lemma namei_Found_real:
  "wf_fs fs \<Longrightarrow> fs d = Some Dir \<Longrightarrow> namei fs n d cs = Found q \<Longrightarrow> real fs q"
proof (induction fs n d cs rule: namei.induct)
  case (2 fs n d c cs)
  consider "c = [] \<or> c = ''.''" | "c = ''..''" | "c \<noteq> []" "c \<noteq> ''.''" "c \<noteq> ''..''" by blast
  then show ?case
  proof cases
    case 1
    with 2 show ?thesis by auto
  next
    case c: 2
    with "2.IH"(2) "2.prems" show ?thesis by (simp add: wf_fs_butlast)
  next
    case c: 3
    show ?thesis
    proof (cases "fs (d @ [c])")
      case None
      with c "2.prems" show ?thesis by simp
    next
      case (Some x)
      show ?thesis
      proof (cases x)
        case Dir
        with c Some "2.IH"(3) "2.prems" show ?thesis by simp
      next
        case File
        with c Some "2.prems" show ?thesis by (auto simp: real_def split: if_splits)
      next
        case (Link l)
        with c Some "2.IH"(4) [of x l] "2.prems" wf_fs_root [of fs] show ?thesis
          by (auto split: if_splits)
      qed
    qed
  qed
qed (simp add: real_def)

lemma namei_plain:
  "plain c \<Longrightarrow> namei fs n d (c # cs) =
     (case fs (d @ [c]) of
        None \<Rightarrow> Absent d (c # cs)
      | Some Dir \<Rightarrow> namei fs n (d @ [c]) cs
      | Some File \<Rightarrow> if cs = [] then Found (d @ [c]) else Not_dir
      | Some (Link l) \<Rightarrow>
          if n = 0 then Too_many_links
          else namei fs (n - 1) (if IsAbs l then [] else d) (split_on (CHR ''/'') l @ cs))"
  by (simp add: plain_def split: option.splits)

declare namei.simps(2) [simp del]

lemma namei_skip [simp]: "namei fs n d ([] # cs) = namei fs n d cs"
  by (simp add: namei.simps(2))

text \<open>More links change a walk only where it ran out of them.\<close>

lemma namei_more_links:
  "namei fs n d cs \<noteq> Too_many_links \<Longrightarrow> n \<le> m \<Longrightarrow> namei fs m d cs = namei fs n d cs"
proof (induction fs n d cs arbitrary: m rule: namei.induct)
  case (2 fs n d c cs)
  consider "c = [] \<or> c = ''.''" | "c = ''..''" | "c \<noteq> []" "c \<noteq> ''.''" "c \<noteq> ''..''" by blast
  then show ?case
  proof cases
    case 1
    with "2.IH"(1) [of m] "2.prems" show ?thesis by (simp add: namei.simps(2))
  next
    case c: 2
    with "2.IH"(2) [of m] "2.prems" show ?thesis by (simp add: namei.simps(2))
  next
    case c: 3
    show ?thesis
    proof (cases "fs (d @ [c])")
      case (Some x)
      show ?thesis
      proof (cases x)
        case Dir
        with c Some "2.IH"(3) [of Dir m] "2.prems" show ?thesis by (simp add: namei.simps(2))
      next
        case (Link l)
        then have "n \<noteq> 0" using c Some "2.prems" by (auto simp: namei.simps(2) split: if_splits)
        with c Some Link "2.IH"(4) [of x l "m - 1"] "2.prems" show ?thesis
          by (simp add: namei.simps(2))
      qed (use c Some in \<open>simp_all add: namei.simps(2)\<close>)
    qed (use c in \<open>simp add: namei.simps(2)\<close>)
  qed
qed simp

text \<open>A walk goes on from where its first part arrived.\<close>

definition goes_on :: "file_system \<Rightarrow> nat \<Rightarrow> walk \<Rightarrow> (string list \<Rightarrow> walk) \<Rightarrow> bool" where
  "goes_on fs n w g =
     (case w of
        Found q \<Rightarrow> fs q = Some Dir \<longrightarrow> (\<exists>k \<le> n. \<forall>bs. g bs = namei fs k q bs)
      | Absent e r \<Rightarrow> \<forall>bs. g bs = Absent e (r @ bs)
      | Not_dir \<Rightarrow> \<forall>bs. g bs = Not_dir
      | Too_many_links \<Rightarrow> \<forall>bs. g bs = Too_many_links)"

lemma goes_on_more: "goes_on fs n w g \<Longrightarrow> n \<le> m \<Longrightarrow> goes_on fs m w g"
  unfolding goes_on_def by (cases w) (auto intro: le_trans)

lemma namei_append:
  "wf_fs fs \<Longrightarrow> fs d = Some Dir \<Longrightarrow> goes_on fs n (namei fs n d as) (\<lambda>bs. namei fs n d (as @ bs))"
proof (induction fs n d as rule: namei.induct)
  case (1 fs n d)
  then show ?case by (auto simp: goes_on_def)
next
  case (2 fs n d c cs)
  consider "c = [] \<or> c = ''.''" | "c = ''..''" | "c \<noteq> []" "c \<noteq> ''.''" "c \<noteq> ''..''" by blast
  then show ?case
  proof cases
    case 1
    with "2.IH"(1) "2.prems" show ?thesis by (simp add: namei.simps(2))
  next
    case c: 2
    with "2.IH"(2) "2.prems" show ?thesis by (simp add: namei.simps(2) wf_fs_butlast)
  next
    case c: 3
    show ?thesis
    proof (cases "fs (d @ [c])")
      case None
      with c show ?thesis by (simp add: namei.simps(2) goes_on_def)
    next
      case (Some x)
      show ?thesis
      proof (cases x)
        case Dir
        with c Some "2.IH"(3) "2.prems" show ?thesis by (simp add: namei.simps(2))
      next
        case File
        with c Some show ?thesis by (simp add: namei.simps(2) goes_on_def)
      next
        case (Link l)
        show ?thesis
        proof (cases "n = 0")
          case True
          with c Some Link show ?thesis by (simp add: namei.simps(2) goes_on_def)
        next
          case False
          let ?d = "if IsAbs l then [] else d" let ?cs = "split_on (CHR ''/'') l @ cs"
          have "fs ?d = Some Dir" using "2.prems" by (simp add: wf_fs_root)
          with "2.IH"(4) [of x l] c Some Link False "2.prems"
          have "goes_on fs (n - 1) (namei fs (n - 1) ?d ?cs) (\<lambda>bs. namei fs (n - 1) ?d (?cs @ bs))" by simp
          then have "goes_on fs n (namei fs (n - 1) ?d ?cs) (\<lambda>bs. namei fs (n - 1) ?d (?cs @ bs))"
            by (rule goes_on_more) simp
          with c Some Link False show ?thesis by (simp add: namei.simps(2))
        qed
      qed
    qed
  qed
qed

text \<open>A real place is where its own spelling leads.\<close>

lemma namei_real_dir:
  "wf_fs fs \<Longrightarrow> fs (d @ as) = Some Dir \<Longrightarrow> namei fs n d (as @ bs) = namei fs n (d @ as) bs"
proof (induction as arbitrary: bs rule: rev_induct)
  case (snoc c as)
  have "fs (d @ as) = Some Dir" "plain c"
    using wf_fs_parent [of fs "d @ as" c] wf_fs_plain [of fs "d @ as" c] snoc.prems by simp_all
  then show ?case using snoc.IH [of "c # bs"] snoc.prems by (simp add: namei_plain)
qed simp

lemma namei_real: "wf_fs fs \<Longrightarrow> real fs q \<Longrightarrow> namei fs n [] q = Found q"
proof (cases q rule: rev_cases)
  case (snoc d c)
  assume "wf_fs fs" "real fs q"
  with snoc have "fs d = Some Dir" "plain c"
    by (auto simp: real_def dest: wf_fs_parent wf_fs_plain)
  with \<open>wf_fs fs\<close> \<open>real fs q\<close> snoc show ?thesis
    using namei_real_dir [of fs "[]" d n "[c]"] by (auto simp: namei_plain real_def)
qed simp

lemma EvalSymlinks_Some:
  "EvalSymlinks fs s = Some r \<longleftrightarrow> (\<exists>q. namei fs max_links [] (split_on (CHR ''/'') s) = Found q \<and> r = show_path q)"
  by (auto simp: EvalSymlinks_def split: walk.splits)

lemma EvalSymlinks_show:
  "plains cs \<Longrightarrow> EvalSymlinks fs (show_path cs) =
     (case namei fs max_links [] cs of Found q \<Rightarrow> Some (show_path q) | _ \<Rightarrow> None)"
  by (simp add: EvalSymlinks_def split_show)

lemma kernel_less: "kernel_links \<le> max_links"
  by (simp add: kernel_links_def max_links_def)

lemma EvalSymlinks_kernel:
  assumes "namei fs kernel_links [] (split_on (CHR ''/'') s) = Found q"
  shows "EvalSymlinks fs s = Some (show_path q)"
  using namei_more_links [OF _ kernel_less, of fs "[]" "split_on (CHR ''/'') s"] assms
  by (simp add: EvalSymlinks_def)

end
