(* ===== verification/Plumb_Boundary.thy ===== *)
theory Plumb_Boundary
  imports Plumb_Filepath
begin

text \<open>
  The boundary of a connection (\<open>internal/paths/canonical.go\<close>, \<open>internal/tools/boundary.go\<close>,
  \<open>pathpolicy.go\<close>, \<open>write_deps.go\<close>): the canonical spelling of a path, the roots a connection
  may read or write under, and the check every path of a call goes through. The file system is
  the one of the moment of the check. A boundary error is its constructor; what its text
  says of the provenance of the pin is left out.
\<close>

section \<open>Canonical spellings\<close>

text \<open>
  The walk of \<open>canonicalMissing\<close> to the nearest ancestor that resolves: the components of
  \<open>dir\<close> from the last one, and the tail below it.
\<close>

fun canonical_above :: "file_system \<Rightarrow> string list \<Rightarrow> string list \<Rightarrow> string option" where
  "canonical_above fs [] tail = None"
| "canonical_above fs (c # up) tail =
     (case EvalSymlinks fs (show_path (rev up)) of
        None \<Rightarrow> canonical_above fs up (c # tail)
      | Some resolved \<Rightarrow> Some (foldl Join resolved (c # tail)))"

definition canonicalMissing :: "file_system \<Rightarrow> string \<Rightarrow> string" where
  "canonicalMissing fs p =
     (let clean = Clean p in
      case canonical_above fs (rev (elements clean)) [] of None \<Rightarrow> clean | Some q \<Rightarrow> q)"

definition Canonical :: "file_system \<Rightarrow> string \<Rightarrow> string" where
  "Canonical fs p =
     (if p = [] then []
      else if \<not> IsAbs p then Clean p
      else (case EvalSymlinks fs p of Some q \<Rightarrow> q | None \<Rightarrow> canonicalMissing fs p))"

definition relWithin :: "string \<Rightarrow> string \<Rightarrow> string option" where
  "relWithin base path =
     (case Rel base path of
        None \<Rightarrow> None
      | Some rel \<Rightarrow> if rel = ''..'' \<or> has_prefix rel ''../'' then None else Some rel)"

definition WorkspaceRel :: "file_system \<Rightarrow> string \<Rightarrow> string \<Rightarrow> string option" where
  "WorkspaceRel fs workspace absPath =
     (if workspace = [] \<or> absPath = [] then None
      else (case relWithin workspace absPath of
              Some rel \<Rightarrow> Some rel
            | None \<Rightarrow> relWithin (Canonical fs workspace) (Canonical fs absPath)))"

section \<open>Paths of a call\<close>

definition cleanToolPath :: "string \<Rightarrow> string" where
  "cleanToolPath path = uriToPath path False"

definition canonicalRoot :: "file_system \<Rightarrow> string \<Rightarrow> string" where
  "canonicalRoot fs path = Canonical fs (cleanToolPath path)"

definition hasParentTraversal :: "string \<Rightarrow> bool" where
  "hasParentTraversal path =
     (let p = cleanToolPath path in IsAbs p \<and> ''..'' \<in> set (split_on (CHR ''/'') p))"

definition withinRoot :: "string \<Rightarrow> string \<Rightarrow> bool" where
  "withinRoot root path =
     (case Rel root path of
        None \<Rightarrow> False
      | Some rel \<Rightarrow> rel = ''.'' \<or> (rel \<noteq> ''..'' \<and> \<not> has_prefix rel ''../''))"

definition PathWithinWorkspace :: "file_system \<Rightarrow> string \<Rightarrow> string \<Rightarrow> bool" where
  "PathWithinWorkspace fs workspace path =
     (if workspace = [] \<or> path = [] then True
      else if hasParentTraversal path then False
      else withinRoot (canonicalRoot fs workspace) (canonicalRoot fs path))"

datatype access = AccessNone | AccessRead | AccessReadWrite

record allowed_root =
  ar_path :: string
  ar_access :: access
  ar_label :: string

record path_policy =
  pp_primary :: string
  pp_roots :: "allowed_root list"

datatype boundary_error =
    Parent_traversal string string
  | Read_only_root string string string
  | Outside_workspace string string
  | Contested_relative string

fun access_rank :: "access \<Rightarrow> nat" where
  "access_rank AccessNone = 0"
| "access_rank AccessRead = 1"
| "access_rank AccessReadWrite = 2"

instantiation access :: linorder
begin

definition less_eq_access :: "access \<Rightarrow> access \<Rightarrow> bool" where
  "less_eq_access a b = (access_rank a \<le> access_rank b)"

definition less_access :: "access \<Rightarrow> access \<Rightarrow> bool" where
  "less_access a b = (access_rank a < access_rank b)"

instance
proof
  fix a b c :: access
  show "a < b \<longleftrightarrow> a \<le> b \<and> \<not> b \<le> a" by (auto simp: less_eq_access_def less_access_def)
  show "a \<le> a" by (simp add: less_eq_access_def)
  show "a \<le> b \<Longrightarrow> b \<le> c \<Longrightarrow> a \<le> c" by (simp add: less_eq_access_def)
  show "a \<le> b \<Longrightarrow> b \<le> a \<Longrightarrow> a = b" by (cases a; cases b) (simp_all add: less_eq_access_def)
  show "a \<le> b \<or> b \<le> a" by (auto simp: less_eq_access_def)
qed

end

definition no_root :: allowed_root where
  "no_root = \<lparr>ar_path = [], ar_access = AccessNone, ar_label = []\<rparr>"

fun add_root :: "file_system \<Rightarrow> allowed_root list \<Rightarrow> allowed_root list" where
  "add_root fs [] = []"
| "add_root fs (r # rs) =
     (if ar_path r = [] \<or> ar_access r = AccessNone then add_root fs rs
      else
        (let p = canonicalRoot fs (ar_path r) in
         if \<not> IsAbs p then add_root fs rs
         else \<lparr>ar_path = p, ar_access = ar_access r, ar_label = ar_label r\<rparr> # add_root fs rs))"

definition NewPathPolicy :: "file_system \<Rightarrow> string \<Rightarrow> allowed_root list \<Rightarrow> path_policy" where
  "NewPathPolicy fs primary roots = \<lparr>pp_primary = canonicalRoot fs primary, pp_roots = add_root fs roots\<rparr>"

text \<open>The loop of \<open>match\<close>; \<open>best\<close> is \<open>None\<close> while \<open>bestLen\<close> is \<open>-1\<close>.\<close>

fun match_loop :: "string \<Rightarrow> allowed_root list \<Rightarrow> allowed_root option \<Rightarrow> allowed_root option" where
  "match_loop cand [] best = best"
| "match_loop cand (r # rs) best =
     (if (case best of None \<Rightarrow> True | Some b \<Rightarrow> length (ar_path b) < length (ar_path r)) \<and> withinRoot (ar_path r) cand
      then match_loop cand rs (Some r)
      else match_loop cand rs best)"

definition policy_match :: "file_system \<Rightarrow> path_policy option \<Rightarrow> string \<Rightarrow> allowed_root option" where
  "policy_match fs p path =
     (case p of
        None \<Rightarrow> None
      | Some pol \<Rightarrow>
          if path = [] then None
          else if hasParentTraversal path then None
          else match_loop (canonicalRoot fs path) (pp_roots pol) None)"

definition requireCanonicalPath :: "string \<Rightarrow> boundary_error option" where
  "requireCanonicalPath path =
     (if \<not> hasParentTraversal path then None
      else (let p = cleanToolPath path in Some (Parent_traversal p (Clean p))))"

definition Check :: "file_system \<Rightarrow> path_policy option \<Rightarrow> string \<Rightarrow> access \<Rightarrow> boundary_error + allowed_root" where
  "Check fs p path want =
     (case p of
        None \<Rightarrow> Inr no_root
      | Some pol \<Rightarrow>
          if path = [] then Inr no_root
          else (case requireCanonicalPath path of
                  Some e \<Rightarrow> Inl e
                | None \<Rightarrow>
                    (case policy_match fs p path of
                       Some r \<Rightarrow>
                         if want \<le> ar_access r then Inr r
                         else Inl (Read_only_root (pp_primary pol) (cleanToolPath path) (ar_label r))
                     | None \<Rightarrow> Inl (Outside_workspace (pp_primary pol) (cleanToolPath path)))))"

definition OutsideWorkspaceLabel :: "file_system \<Rightarrow> path_policy option \<Rightarrow> string \<Rightarrow> string" where
  "OutsideWorkspaceLabel fs p path =
     (if p = None then []
      else if hasParentTraversal path then ''unresolved path''
      else (case policy_match fs p path of
              None \<Rightarrow> []
            | Some r \<Rightarrow> if ar_label r = ''workspace'' then [] else ar_label r))"

text \<open>\<open>resolvePath\<close>: the root of the workspace is empty when no workspace is pinned.\<close>

definition resolvePath :: "string \<Rightarrow> bool \<Rightarrow> string \<Rightarrow> boundary_error + string" where
  "resolvePath base contested path =
     (let p = uriToPath path False in
      if \<not> IsAbs p \<and> p \<noteq> [] \<and> contested then Inl (Contested_relative p)
      else if IsAbs p then Inr p
      else if base = [] then Inr (Clean p)
      else Inr (Join base p))"

text \<open>
  The path a write tool goes on with: resolved against the workspace, and admitted for
  writing. Both the check and the file operation take the resolved path.
\<close>

definition admit_write :: "file_system \<Rightarrow> path_policy option \<Rightarrow> string \<Rightarrow> bool \<Rightarrow> string \<Rightarrow> boundary_error + string" where
  "admit_write fs pol base contested path =
     (case resolvePath base contested path of
        Inl e \<Rightarrow> Inl e
      | Inr p \<Rightarrow> (case Check fs pol p AccessReadWrite of Inl e \<Rightarrow> Inl e | Inr _ \<Rightarrow> Inr p))"

end
