(* ===== verification/Plumb_Boundary_Correct.thy ===== *)
theory Plumb_Boundary_Correct
  imports Plumb_Boundary
begin

text \<open>
  What the boundary check is worth: a canonical spelling names the place the kernel goes to,
  containment of spellings is containment of places, and the root a path is admitted under
  contains every place the path can be read or written at.
\<close>

section \<open>Containment\<close>

lemma rel_elements_prefix: "rel_elements bs (bs @ ts) = Some ts"
  by (induction bs) auto

lemma rel_elements_up: "''..'' \<notin> set bs \<Longrightarrow> \<not> prefix bs ts \<Longrightarrow> \<exists>us. rel_elements bs ts = Some (''..'' # us)"
  by (induction bs ts rule: rel_elements.induct) auto

lemma join_up: "join_with ''/'' (''..'' # us) = ''..'' \<or> has_prefix (join_with ''/'' (''..'' # us)) ''../''"
  by (cases us) (auto simp: has_prefix_def)

lemma join_down:
  assumes "plain c"
  shows "join_with ''/'' (c # us) \<noteq> ''..'' \<and> \<not> has_prefix (join_with ''/'' (c # us)) ''../''"
proof -
  obtain r where r: "join_with ''/'' (c # us) = c @ r" "r = [] \<or> hd r = CHR ''/''"
    by (cases us) auto
  have "c @ r \<noteq> ''..''" and "\<not> has_prefix (c @ r) ''../''"
    using assms r(2) by (cases c; cases "tl c"; cases "tl (tl c)"; cases r; auto simp: plain_def has_prefix_def)+
  with r(1) show ?thesis by simp
qed

lemma withinRoot_iff:
  assumes "plains r" "plains q"
  shows "withinRoot (show_path r) (show_path q) \<longleftrightarrow> prefix r q"
proof (cases "r = q")
  case True
  then show ?thesis using assms by (simp add: withinRoot_def Rel_def)
next
  case False
  then have ne: "show_path r \<noteq> show_path q" using assms by (simp add: show_path_inject)
  have dot: "show_path r \<noteq> ''.''" by (simp add: show_path_def)
  have rel: "Rel (show_path r) (show_path q) = map_option (join_with ''/'') (rel_elements r q)"
    using assms ne dot by (simp add: Rel_def Let_def)
  show ?thesis
  proof (cases "prefix r q")
    case True
    then obtain us where q: "q = r @ us" by (auto simp: prefix_def)
    with False obtain c vs where us: "us = c # vs" by (cases us) auto
    with q assms(2) have "plain c" by simp
    moreover have "Rel (show_path r) (show_path q) = Some (join_with ''/'' (c # vs))"
      unfolding rel unfolding q us rel_elements_prefix by simp
    ultimately show ?thesis using True join_down [of c vs] by (simp add: withinRoot_def)
  next
    case up: False
    have "''..'' \<notin> set r" using assms(1) by (auto simp: list_all_iff plain_def)
    from rel_elements_up [OF this up] obtain us where "rel_elements r q = Some (''..'' # us)" ..
    then show ?thesis using up join_up [of us]
      unfolding withinRoot_def rel by (cases us) (auto simp: has_prefix_def)
  qed
qed

lemma withinRoot_relative:
  assumes "IsAbs r" "\<not> IsAbs (Clean p)"
  shows "\<not> withinRoot r p"
proof -
  have "Clean r \<noteq> ''.''" "IsAbs (Clean r)" using assms(1) by (auto simp: Clean_abs show_path_def IsAbs_def has_prefix_def)
  with assms(2) have "Rel r p = None" by (auto simp: Rel_def Let_def)
  then show ?thesis by (simp add: withinRoot_def)
qed

section \<open>Canonical spellings\<close>

lemma split_on_append: "split_on c (s @ c # t) = split_on c s @ split_on c t"
proof (induction s)
  case (Cons x s)
  then show ?case by (cases "split_on c s") auto
qed simp

lemma Join_show: "plains q \<Longrightarrow> plain c \<Longrightarrow> Join (show_path q) c = show_path (q @ [c])"
proof -
  assume a: "plains q" "plain c"
  have abs: "IsAbs (show_path q @ ''/'' @ c)" by (simp add: IsAbs_def show_path_def has_prefix_def)
  have "split_on (CHR ''/'') (show_path q @ ''/'' @ c) = split_on (CHR ''/'') (show_path q) @ [c]"
    using a(2) by (simp add: split_on_append split_on_fresh plainD)
  moreover have "clean_comps True (split_on (CHR ''/'') (show_path q) @ [c]) = q @ [c]"
    using a by (cases "q = []") (simp_all add: split_show clean_comps_def fold_clean_plain clean_comp_plain clean_comp_def [of _ "[]"])
  ultimately have "Clean (show_path q @ ''/'' @ c) = show_path (q @ [c])" by (simp only: Clean_abs [OF abs])
  then show ?thesis by (simp add: Join_def show_path_def)
qed

lemma foldl_Join: "plains q \<Longrightarrow> plains cs \<Longrightarrow> foldl Join (show_path q) cs = show_path (q @ cs)"
  by (induction cs arbitrary: q) (auto simp: Join_show)

definition not_found :: "walk \<Rightarrow> bool" where
  "not_found w = (\<forall>q. w \<noteq> Found q)"

lemma canonical_above_Some:
  assumes "wf_fs fs" "plains (rev up)" "plains tail" "canonical_above fs up tail = Some r"
  shows "\<exists>pre t suf res. rev up @ tail = pre @ t # suf \<and> namei fs max_links [] pre = Found res \<and>
    r = show_path (res @ t # suf) \<and> plains (res @ t # suf) \<and>
    (length tail < length suf \<longrightarrow> not_found (namei fs max_links [] (pre @ [t])))"
  using assms(2-)
proof (induction up arbitrary: tail)
  case (Cons c up)
  have pl: "plains (rev up)" "plain c" "plains (c # tail)" using Cons.prems by auto
  show ?case
  proof (cases "not_found (namei fs max_links [] (rev up))")
    case False
    then obtain res where Found: "namei fs max_links [] (rev up) = Found res" by (auto simp: not_found_def)
    have "plains res" using namei_Found_real [OF assms(1) wf_fs_root [OF assms(1)] Found] wf_fs_plains [OF assms(1)]
      by (auto simp: real_def)
    with pl have "foldl Join (show_path res) (c # tail) = show_path (res @ c # tail)" by (intro foldl_Join)
    with \<open>plains res\<close> Found Cons.prems pl have "r = show_path (res @ c # tail) \<and> plains (res @ c # tail)"
      by (simp add: EvalSymlinks_show del: foldl_Cons)
    with Found show ?thesis by (intro exI [of _ "rev up"] exI [of _ c] exI [of _ tail] exI [of _ res]) simp
  next
    case nf: True
    then have "EvalSymlinks fs (show_path (rev up)) = None"
      using pl by (auto simp: EvalSymlinks_show not_found_def split: walk.split)
    with Cons.prems have "canonical_above fs up (c # tail) = Some r" by simp
    from Cons.IH [OF pl(1,3) this] obtain pre t suf res where r: "rev up @ c # tail = pre @ t # suf"
      "namei fs max_links [] pre = Found res" "r = show_path (res @ t # suf)" "plains (res @ t # suf)"
      "length (c # tail) < length suf \<longrightarrow> not_found (namei fs max_links [] (pre @ [t]))" by blast
    have "not_found (namei fs max_links [] (pre @ [t]))" if less: "length tail < length suf"
    proof (cases "length suf = length (c # tail)")
      case True
      with r(1) have "rev up = pre @ [t]" by (simp add: append_eq_append_conv [of "rev up" "pre @ [t]" "c # tail" suf, simplified])
      with nf show ?thesis by simp
    qed (use less r(5) in auto)
    with r show ?thesis by (intro exI [of _ pre] exI [of _ t] exI [of _ suf] exI [of _ res]) simp
  qed
qed simp

lemma canonical_above_None: "wf_fs fs \<Longrightarrow> plains (rev up) \<Longrightarrow> canonical_above fs up tail = None \<Longrightarrow> up = []"
proof (induction up arbitrary: tail)
  case (Cons c up)
  then have "up = []" by (auto split: option.splits)
  with Cons show ?case by (simp add: EvalSymlinks_show)
qed simp

text \<open>
  The canonical spelling of an absolute path: where the path leads, or the nearest ancestor
  that leads somewhere with the rest of the path below it.
\<close>

lemma Canonical_cases:
  assumes "wf_fs fs" "IsAbs p"
  defines "cs \<equiv> clean_comps True (split_on (CHR ''/'') p)"
  obtains (resolved) q where "namei fs max_links [] (split_on (CHR ''/'') p) = Found q" "real fs q" "plains q"
      "Canonical fs p = show_path q"
    | (root) "cs = []" "Canonical fs p = show_path []"
    | (missing) pre t suf res where "cs = pre @ t # suf" "namei fs max_links [] pre = Found res"
      "Canonical fs p = show_path (res @ t # suf)" "plains (res @ t # suf)"
      "suf \<noteq> [] \<longrightarrow> not_found (namei fs max_links [] (pre @ [t]))"
proof -
  have p: "p \<noteq> []" using assms(2) by (auto simp: IsAbs_def has_prefix_def)
  show thesis
  proof (cases "EvalSymlinks fs p")
    case (Some r)
    then obtain q where q: "namei fs max_links [] (split_on (CHR ''/'') p) = Found q" "r = show_path q"
      by (auto simp: EvalSymlinks_Some)
    from namei_Found_real [OF assms(1) wf_fs_root [OF assms(1)] q(1)] have "real fs q" .
    then have "plains q" using wf_fs_plains [OF assms(1)] by (auto simp: real_def)
    with q \<open>real fs q\<close> Some p assms(2) show thesis by (intro resolved [of q]) (simp_all add: Canonical_def)
  next
    case None
    have cs: "plains cs" unfolding cs_def by (rule plains_clean)
    have "Clean p = show_path cs" unfolding cs_def by (rule Clean_abs [OF assms(2)])
    then have can: "Canonical fs p = (case canonical_above fs (rev cs) [] of None \<Rightarrow> show_path cs | Some q \<Rightarrow> q)"
      using None p assms(2) cs by (simp add: Canonical_def canonicalMissing_def)
    show thesis
    proof (cases "canonical_above fs (rev cs) []")
      case none: None
      with canonical_above_None [OF assms(1) _ none] cs have "cs = []" by simp
      with can none show thesis by (intro root) auto
    next
      case (Some r)
      from canonical_above_Some [OF assms(1) _ _ Some] cs obtain pre t suf res where
        "cs = pre @ t # suf" "namei fs max_links [] pre = Found res" "r = show_path (res @ t # suf)"
        "plains (res @ t # suf)" "0 < length suf \<longrightarrow> not_found (namei fs max_links [] (pre @ [t]))" by auto
      with can Some show thesis by (intro missing [of pre t suf res]) auto
    qed
  qed
qed

lemma Canonical_abs: "wf_fs fs \<Longrightarrow> IsAbs p \<Longrightarrow> \<exists>q. plains q \<and> Canonical fs p = show_path q"
proof (erule (1) Canonical_cases)
  assume "Canonical fs p = show_path []"
  then show ?thesis by (intro exI [of _ "[]"]) simp
qed blast+

lemma Canonical_kernel:
  assumes "IsAbs p" "namei fs kernel_links [] (split_on (CHR ''/'') p) = Found q"
  shows "Canonical fs p = show_path q"
proof -
  have "p \<noteq> []" using assms(1) by (auto simp: IsAbs_def has_prefix_def)
  with EvalSymlinks_kernel [OF assms(2)] assms(1) show ?thesis by (simp add: Canonical_def)
qed

lemma relative_Clean:
  assumes "\<not> IsAbs p"
  shows "\<not> IsAbs (Clean p)"
proof -
  let ?cs = "clean_comps False (split_on (CHR ''/'') p)"
  have step: "list_all (\<lambda>c. c \<noteq> [] \<and> CHR ''/'' \<notin> set c) (clean_comp False c acc)"
    if "CHR ''/'' \<notin> set c" "list_all (\<lambda>c. c \<noteq> [] \<and> CHR ''/'' \<notin> set c) acc" for c acc
    using that by (cases acc) (auto simp: clean_comp_def)
  have "list_all (\<lambda>c. c \<noteq> [] \<and> CHR ''/'' \<notin> set c) (fold (clean_comp False) cs acc)"
    if "\<forall>c \<in> set cs. CHR ''/'' \<notin> set c" "list_all (\<lambda>c. c \<noteq> [] \<and> CHR ''/'' \<notin> set c) acc" for cs acc
    using that by (induction cs arbitrary: acc) (auto simp: step)
  from this [of "split_on (CHR ''/'') p" "[]"]
  have cs: "list_all (\<lambda>c. c \<noteq> [] \<and> CHR ''/'' \<notin> set c) ?cs"
    by (auto simp: clean_comps_def dest: split_on_no_sep)
  show ?thesis
  proof (cases ?cs)
    case Nil
    with assms show ?thesis by (simp add: Clean_def Let_def) (simp add: IsAbs_def has_prefix_def)
  next
    case (Cons c ds)
    with cs obtain x xs where c: "c = x # xs" "x \<noteq> CHR ''/''" by (cases c) auto
    have "Clean p = join_with ''/'' (c # ds)" using assms Cons by (simp add: Clean_def)
    with c show ?thesis by (cases ds) (simp_all add: IsAbs_def has_prefix_def)
  qed
qed

lemma Canonical_IsAbs: "wf_fs fs \<Longrightarrow> IsAbs (Canonical fs p) \<longleftrightarrow> IsAbs p"
proof (cases "IsAbs p")
  case False
  then have "Canonical fs p = (if p = [] then [] else Clean p)" by (simp add: Canonical_def)
  with False relative_Clean [OF False] show ?thesis by (simp add: IsAbs_def has_prefix_def)
qed (metis Canonical_abs IsAbs_show)

section \<open>Entries\<close>

text \<open>
  The entry of a directory that a path without links and dots names, when the missing
  directories above it are made first: where a file is created or replaced.
\<close>

fun entry :: "file_system \<Rightarrow> nat \<Rightarrow> string list \<Rightarrow> string list \<Rightarrow> string list option" where
  "entry fs n d [] = None"
| "entry fs n d [c] = (if fs d = Some Dir then Some (d @ [c]) else None)"
| "entry fs n d (c # c' # cs) =
     (if fs d \<noteq> Some Dir then None
      else if fs (d @ [c]) = None then Some (d @ c # c' # cs)
      else (case namei fs n d [c] of Found e \<Rightarrow> entry fs n e (c' # cs) | _ \<Rightarrow> None))"

lemma entry_through:
  "wf_fs fs \<Longrightarrow> fs (d @ as) = Some Dir \<Longrightarrow> entry fs n d (as @ b # bs) = entry fs n (d @ as) (b # bs)"
proof (induction as arbitrary: d)
  case (Cons a as)
  have "fs (d @ [a]) = Some Dir"
  proof (cases as rule: rev_cases)
    case (snoc as' x)
    have "fs (d @ [a] @ ys) \<noteq> None \<Longrightarrow> ys \<noteq> [] \<Longrightarrow> fs (d @ [a]) = Some Dir" for ys
    proof (induction ys rule: rev_induct)
      case (snoc y ys)
      then show ?case using wf_fs_parent [OF Cons.prems(1), of "d @ [a] @ ys" y] by (cases ys) auto
    qed simp
    with Cons.prems(2) snoc show ?thesis by (metis append.assoc append_Cons append_Nil option.distinct(1) snoc_eq_iff_butlast)
  qed (use Cons in simp)
  moreover from this have "fs d = Some Dir" "plain a"
    using wf_fs_parent [OF Cons.prems(1), of d a] wf_fs_plain [OF Cons.prems(1), of d a] by auto
  ultimately show ?case using Cons.IH [of "d @ [a]"] Cons.prems by (cases as) (simp_all add: namei_plain)
qed simp

text \<open>The entry a canonical spelling names is the one it spells.\<close>

lemma entry_plain_none: "plains cs \<Longrightarrow> fs d = Some Dir \<Longrightarrow> fs (d @ [c]) = None \<Longrightarrow> entry fs n d (c # cs) = Some (d @ c # cs)"
  by (cases cs) auto

lemma fs_below_file: "wf_fs fs \<Longrightarrow> fs d \<noteq> Some Dir \<Longrightarrow> entry fs n d (c # cs) = None"
  by (cases cs) auto

lemma entry_below_file:
  assumes "wf_fs fs" "fs q = Some File" "q \<noteq> []"
  shows "entry fs n [] (q @ t # suf) = None"
proof -
  obtain d c where q: "q = d @ [c]" using assms(3) by (cases q rule: rev_cases) auto
  have d: "fs d = Some Dir" "plain c" using assms(1,2) q by (auto dest: wf_fs_parent wf_fs_plain)
  have "entry fs n [] (d @ c # t # suf) = entry fs n d (c # t # suf)"
    using entry_through [OF assms(1), of "[]" d] d(1) by simp
  also have "\<dots> = entry fs n (d @ [c]) (t # suf)"
    using d assms(2) q by (simp add: namei_plain)
  also have "\<dots> = None" using assms(1,2) q by (simp add: fs_below_file)
  finally show ?thesis using q by simp
qed

lemma Canonical_entry:
  assumes wf: "wf_fs fs" and abs: "IsAbs p"
    and links: "namei fs max_links [] (clean_comps True (split_on (CHR ''/'') p)) \<noteq> Too_many_links"
    and entry: "entry fs kernel_links [] (elements (Canonical fs p)) = Some q"
  shows "Canonical fs p = show_path q \<and> plains q"
  using wf abs
proof (cases rule: Canonical_cases)
  case (resolved q0)
  then have e: "entry fs kernel_links [] q0 = Some q" using entry by simp
  then obtain d c where q0: "q0 = d @ [c]" by (cases q0 rule: rev_cases) auto
  then have "fs d = Some Dir" using resolved(2) wf by (auto simp: real_def dest: wf_fs_parent)
  with e q0 entry_through [OF wf, of "[]" d kernel_links c "[]"] have "q = q0" by simp
  with resolved show ?thesis by simp
next
  case root
  then show ?thesis using entry by simp
next
  case (missing pre t suf res)
  have res: "real fs res" using namei_Found_real [OF wf wf_fs_root [OF wf] missing(2)] .
  have e: "entry fs kernel_links [] (res @ t # suf) = Some q" using entry missing by simp
  have dir: "fs res = Some Dir"
  proof (rule ccontr)
    assume "fs res \<noteq> Some Dir"
    with res have "fs res = Some File" "res \<noteq> []" using wf_fs_root [OF wf] by (auto simp: real_def)
    from entry_below_file [OF wf this] e show False by simp
  qed
  then have e': "entry fs kernel_links res (t # suf) = Some q"
    using e entry_through [OF wf, of "[]" res] by simp
  have "q = res @ t # suf"
  proof (cases "suf = [] \<or> fs (res @ [t]) = None")
    case True
    with e' dir show ?thesis by (cases suf) auto
  next
    case False
    then obtain s suf' where suf: "suf = s # suf'" "fs (res @ [t]) \<noteq> None" by (cases suf) auto
    from namei_append [OF wf wf_fs_root [OF wf], of max_links pre] missing(2) dir
    obtain k where k: "k \<le> max_links" "\<And>bs. namei fs max_links [] (pre @ bs) = namei fs k res bs"
      by (auto simp: goes_on_def)
    have nf: "not_found (namei fs k res [t])" using missing(5) suf k(2) [of "[t]"] by simp
    have "namei fs k res [t] \<noteq> Too_many_links"
    proof
      assume "namei fs k res [t] = Too_many_links"
      then have "namei fs max_links [] (pre @ [t]) = Too_many_links" using k(2) by simp
      with namei_append [OF wf wf_fs_root [OF wf], of max_links "pre @ [t]"]
      have "namei fs max_links [] ((pre @ [t]) @ suf) = Too_many_links" by (simp add: goes_on_def)
      with missing(1) links show False by simp
    qed
    then have "not_found (namei fs kernel_links res [t])"
    proof (cases "k \<le> kernel_links")
      case True
      with namei_more_links [OF \<open>namei fs k res [t] \<noteq> Too_many_links\<close> True] nf show ?thesis by simp
    next
      case False
      show ?thesis
        unfolding not_found_def
      proof (intro allI notI)
        fix e assume "namei fs kernel_links res [t] = Found e"
        with namei_more_links [of fs kernel_links res "[t]" k] False nf show False by (simp add: not_found_def)
      qed
    qed
    with e' suf dir show ?thesis by (auto simp: not_found_def split: walk.splits)
  qed
  with missing show ?thesis by simp
qed

end
