(* ===== verification/Plumb_Boundary_Claims.thy ===== *)
theory Plumb_Boundary_Claims
  imports Plumb_Boundary_Correct
begin

text \<open>
  The boundary of a connection: what the kernel reads, and what a writer replaces, under a
  path the policy admits.
\<close>

section \<open>The roots of a policy\<close>

definition canonical_root :: "file_system \<Rightarrow> allowed_root \<Rightarrow> allowed_root" where
  "canonical_root fs a = a\<lparr>ar_path := canonicalRoot fs (ar_path a)\<rparr>"

lemma add_root_set:
  "r \<in> set (add_root fs roots) \<longleftrightarrow>
     (\<exists>a \<in> set roots. ar_path a \<noteq> [] \<and> ar_access a \<noteq> AccessNone \<and> IsAbs (canonicalRoot fs (ar_path a)) \<and>
        r = canonical_root fs a)"
  by (induction roots) (auto simp: Let_def canonical_root_def)

lemma policy_roots:
  assumes "wf_fs fs" "r \<in> set (pp_roots (NewPathPolicy fs primary roots))"
  obtains a c where "a \<in> set roots" "r = canonical_root fs a" "ar_access a \<noteq> AccessNone"
    "plains c" "ar_path r = show_path c" "canonicalRoot fs (ar_path a) = show_path c"
proof -
  from assms(2) obtain a where a: "a \<in> set roots" "r = canonical_root fs a" "ar_access a \<noteq> AccessNone"
    "IsAbs (canonicalRoot fs (ar_path a))"
    by (auto simp: NewPathPolicy_def add_root_set)
  then have "IsAbs (cleanToolPath (ar_path a))" using Canonical_IsAbs [OF assms(1)] by (simp add: canonicalRoot_def)
  from Canonical_abs [OF assms(1) this] obtain c where "plains c" "canonicalRoot fs (ar_path a) = show_path c"
    by (auto simp: canonicalRoot_def)
  with a show thesis by (intro that [of a c]) (simp_all add: canonical_root_def)
qed

text \<open>The loop keeps the first of the longest roots that contain the candidate.\<close>

lemma match_loop_Some:
  assumes "match_loop cand rs best = Some r" "\<And>b. best = Some b \<Longrightarrow> withinRoot (ar_path b) cand"
  shows "(r \<in> set rs \<or> best = Some r) \<and> withinRoot (ar_path r) cand \<and>
    (\<forall>b. b \<in> set rs \<and> withinRoot (ar_path b) cand \<or> best = Some b \<longrightarrow> length (ar_path b) \<le> length (ar_path r))"
  using assms
proof (induction rs arbitrary: best)
  case (Cons x rs)
  show ?case
  proof (cases "(case best of None \<Rightarrow> True | Some b \<Rightarrow> length (ar_path b) < length (ar_path x)) \<and> withinRoot (ar_path x) cand")
    case True
    with Cons.prems Cons.IH [of "Some x"] show ?thesis by (cases best) auto
  next
    case False
    with Cons.prems Cons.IH [of best] show ?thesis by (cases best) (auto simp: not_less intro: le_trans)
  qed
qed auto

lemma match_loop_None:
  "match_loop cand rs best = None \<longleftrightarrow> best = None \<and> (\<forall>r \<in> set rs. \<not> withinRoot (ar_path r) cand)"
  by (induction rs arbitrary: best) (auto split: option.splits)

lemma hasParentTraversal_uri: "hasParentTraversal path \<longleftrightarrow> IsAbs (cleanToolPath path) \<and> ''..'' \<in> set (split_on (CHR ''/'') (cleanToolPath path))"
  by (simp add: hasParentTraversal_def Let_def)

lemma Check_Inr:
  assumes "path \<noteq> []" "Check fs (Some pol) path want = Inr r"
  shows "\<not> hasParentTraversal path \<and> match_loop (canonicalRoot fs path) (pp_roots pol) None = Some r \<and> want \<le> ar_access r"
  using assms by (auto simp: Check_def requireCanonicalPath_def policy_match_def Let_def split: option.splits if_splits)

lemma Check_admitted:
  assumes fs: "wf_fs fs0" "wf_fs fs" and ne: "path \<noteq> []"
    and ok: "Check fs (Some (NewPathPolicy fs0 primary roots)) path want = Inr r"
  obtains a c q where "a \<in> set roots" "ar_access a \<noteq> AccessNone" "want \<le> ar_access a"
    "IsAbs (cleanToolPath path)" "plains q" "canonicalRoot fs path = show_path q"
    "plains c" "canonicalRoot fs0 (ar_path a) = show_path c" "prefix c q"
proof -
  let ?pol = "NewPathPolicy fs0 primary roots"
  from Check_Inr [OF ne ok] have m: "match_loop (canonicalRoot fs path) (pp_roots ?pol) None = Some r" "want \<le> ar_access r"
    by auto
  with match_loop_Some [OF m(1)] have r: "r \<in> set (pp_roots ?pol)" "withinRoot (ar_path r) (canonicalRoot fs path)" by auto
  from policy_roots [OF fs(1) r(1)] obtain a c where a: "a \<in> set roots" "r = canonical_root fs0 a" "ar_access a \<noteq> AccessNone"
    "plains c" "ar_path r = show_path c" "canonicalRoot fs0 (ar_path a) = show_path c" .
  have abs: "IsAbs (cleanToolPath path)"
  proof (rule ccontr)
    assume rel: "\<not> IsAbs (cleanToolPath path)"
    then have "\<not> IsAbs (Clean (canonicalRoot fs path))"
      using relative_Clean [OF rel] relative_Clean [of "Clean (cleanToolPath path)"] relative_Clean [of "[]"]
      by (auto simp: canonicalRoot_def Canonical_def IsAbs_def has_prefix_def)
    with withinRoot_relative [of "ar_path r"] r(2) a(5) show False by simp
  qed
  from Canonical_abs [OF fs(2) abs] obtain q where q: "plains q" "canonicalRoot fs path = show_path q"
    by (auto simp: canonicalRoot_def)
  with r(2) a have "prefix c q" by (simp add: withinRoot_iff)
  with a q abs m(2) show thesis by (intro that [of a q c]) (simp_all add: canonical_root_def)
qed

definition grants :: "file_system \<Rightarrow> allowed_root list \<Rightarrow> access \<Rightarrow> string list \<Rightarrow> bool" where
  "grants fs roots want q =
     (\<exists>a \<in> set roots. want \<le> ar_access a \<and> ar_access a \<noteq> AccessNone \<and>
        prefix (elements (canonicalRoot fs (ar_path a))) q)"

section \<open>What is read\<close>

text \<open>
  C8. The boundary is sound: when the policy admits a path, whatever the kernel goes to under
  that path, through any links, lies below a configured root that grants the access.
\<close>

theorem boundary_contains:
  assumes "wf_fs fs0" "wf_fs fs" "path \<noteq> []"
    and "Check fs (Some (NewPathPolicy fs0 primary roots)) path want = Inr r"
    and "namei fs kernel_links [] (split_on (CHR ''/'') (cleanToolPath path)) = Found q"
  shows "grants fs0 roots want q"
proof (rule Check_admitted [OF assms(1-4)])
  fix a q' c
  assume a: "a \<in> set roots" "ar_access a \<noteq> AccessNone" "want \<le> ar_access a" "IsAbs (cleanToolPath path)"
    "plains q'" "canonicalRoot fs path = show_path q'" "plains c" "canonicalRoot fs0 (ar_path a) = show_path c" "prefix c q'"
  have "plains q"
    using namei_Found_real [OF assms(2) wf_fs_root [OF assms(2)] assms(5)] wf_fs_plains [OF assms(2)] by (auto simp: real_def)
  moreover have "show_path q = show_path q'" using Canonical_kernel [OF a(4) assms(5)] a(6) by (simp add: canonicalRoot_def)
  ultimately have "q = q'" using a(5) by (simp add: show_path_inject)
  with a show "grants fs0 roots want q" by (auto simp: grants_def)
qed

section \<open>What is written\<close>

lemma Clean_nonempty: "Clean s \<noteq> []"
proof (cases "IsAbs s")
  case False
  let ?cs = "clean_comps False (split_on (CHR ''/'') s)"
  have step: "[] \<notin> set (clean_comp False c acc)" if "[] \<notin> set acc" for c acc
    using that by (cases acc) (auto simp: clean_comp_def)
  have "[] \<notin> set (fold (clean_comp False) cs acc)" if "[] \<notin> set acc" for cs acc
    using that by (induction cs arbitrary: acc) (auto simp: step)
  from this [of "[]" "split_on (CHR ''/'') s"] have "[] \<notin> set ?cs" by (simp add: clean_comps_def)
  then have "?cs \<noteq> [] \<Longrightarrow> join_with ''/'' ?cs \<noteq> []" by (cases ?cs; cases "tl ?cs") auto
  with False show ?thesis by (auto simp: Clean_def Let_def)
qed (simp add: Clean_abs show_path_def)

lemma resolvePath_nonempty: "resolvePath base contested path = Inr p \<Longrightarrow> p \<noteq> []"
  using Clean_nonempty by (auto simp: resolvePath_def Let_def Join_def IsAbs_def has_prefix_def split: if_splits)

lemma cleanToolPath_abs: "IsAbs (cleanToolPath p) \<Longrightarrow> IsAbs p \<or> has_prefix p file_scheme"
  by (auto simp: cleanToolPath_def uriToPath_def split: if_splits)

text \<open>
  A write stays inside: when a path is resolved and admitted for writing, the entry that an
  atomic writer replaces under the canonical spelling, missing directories made first, lies
  below a configured root that grants writing, provided the path runs through no more links
  than \<open>EvalSymlinks\<close> follows.
\<close>

theorem write_stays_inside:
  assumes "wf_fs fs0" "wf_fs fs"
    and "admit_write fs (Some (NewPathPolicy fs0 primary roots)) base contested path = Inr p"
    and "namei fs max_links [] (clean_comps True (split_on (CHR ''/'') (cleanToolPath p))) \<noteq> Too_many_links"
    and "entry fs kernel_links [] (elements (canonicalRoot fs p)) = Some q"
  shows "grants fs0 roots AccessReadWrite q"
proof -
  from assms(3) obtain r where r: "resolvePath base contested path = Inr p"
    "Check fs (Some (NewPathPolicy fs0 primary roots)) p AccessReadWrite = Inr r"
    by (auto simp: admit_write_def split: sum.splits)
  show ?thesis
  proof (rule Check_admitted [OF assms(1,2) resolvePath_nonempty [OF r(1)] r(2)])
    fix a q' c
    assume a: "a \<in> set roots" "ar_access a \<noteq> AccessNone" "AccessReadWrite \<le> ar_access a" "IsAbs (cleanToolPath p)"
      "plains q'" "canonicalRoot fs p = show_path q'" "plains c" "canonicalRoot fs0 (ar_path a) = show_path c" "prefix c q'"
    from Canonical_entry [OF assms(2) a(4) assms(4)] assms(5)
    have "canonicalRoot fs p = show_path q" "plains q" by (simp_all add: canonicalRoot_def)
    with a have "q = q'" by (simp add: show_path_inject)
    with a show ?thesis by (auto simp: grants_def)
  qed
qed


section \<open>Which root decides\<close>

definition usable :: "allowed_root \<Rightarrow> bool" where
  "usable a = (ar_path a \<noteq> [] \<and> ar_access a \<noteq> AccessNone \<and> IsAbs (cleanToolPath (ar_path a)))"

definition contains_place :: "file_system \<Rightarrow> string list \<Rightarrow> allowed_root \<Rightarrow> bool" where
  "contains_place fs q a = (usable a \<and> prefix (elements (canonicalRoot fs (ar_path a))) q)"

definition deepest :: "file_system \<Rightarrow> allowed_root list \<Rightarrow> string list \<Rightarrow> allowed_root \<Rightarrow> bool" where
  "deepest fs roots q a =
     (a \<in> set roots \<and> contains_place fs q a \<and>
      (\<forall>b \<in> set roots. contains_place fs q b \<longrightarrow>
         length (elements (canonicalRoot fs (ar_path b))) \<le> length (elements (canonicalRoot fs (ar_path a)))))"

definition unambiguous :: "file_system \<Rightarrow> allowed_root list \<Rightarrow> bool" where
  "unambiguous fs roots =
     (\<forall>a \<in> set roots. \<forall>b \<in> set roots.
        usable a \<and> usable b \<and> canonicalRoot fs (ar_path a) = canonicalRoot fs (ar_path b) \<longrightarrow> ar_access a = ar_access b)"

lemma length_show_mono: "plains a \<Longrightarrow> plains b \<Longrightarrow> prefix a q \<Longrightarrow> prefix b q \<Longrightarrow>
  length (show_path a) \<le> length (show_path b) \<longleftrightarrow> length a \<le> length b"
proof -
  have len: "length (join_with ''/'' (xs @ y # ys)) > length (join_with ''/'' xs)" if "plains (xs @ y # ys)" for xs ys :: "string list" and y
    using that
  proof (induction xs)
    case Nil
    then show ?case by (cases ys) (auto simp: plain_def)
  next
    case (Cons x xs)
    then show ?case by (cases xs) (auto simp: join_with_Cons)
  qed
  have strict: "length (show_path xs) < length (show_path ys)" if "plains ys" "strict_prefix xs ys" for xs ys
  proof -
    from that obtain z zs where "ys = xs @ z # zs" by (auto elim: strict_prefixE')
    with len that(1) show ?thesis by (simp add: show_path_def)
  qed
  assume a: "plains a" "plains b" "prefix a q" "prefix b q"
  then consider "a = b" | "strict_prefix a b" | "strict_prefix b a" using prefix_same_cases by (auto simp: strict_prefix_def)
  then show ?thesis
  proof cases
    case 2
    with strict a prefix_length_less [OF 2] show ?thesis by fastforce
  next
    case 3
    with strict [OF a(1) 3] prefix_length_less [OF 3] show ?thesis by simp
  qed simp
qed

text \<open>What the policy keeps of the configured roots.\<close>

lemma cleanToolPath_IsAbs: "IsAbs path \<Longrightarrow> cleanToolPath path = path"
  by (cases path) (auto simp: IsAbs_def has_prefix_def cleanToolPath_def uriToPath_def file_scheme_def)

lemma usable_root: "wf_fs fs \<Longrightarrow> usable a \<Longrightarrow> \<exists>c. plains c \<and> canonicalRoot fs (ar_path a) = show_path c"
  using Canonical_abs [of fs] by (auto simp: usable_def canonicalRoot_def)

lemma pp_roots_usable:
  "wf_fs fs \<Longrightarrow> r \<in> set (pp_roots (NewPathPolicy fs primary roots)) \<longleftrightarrow> (\<exists>a \<in> set roots. usable a \<and> r = canonical_root fs a)"
  using Canonical_IsAbs [of fs] by (auto simp: NewPathPolicy_def add_root_set usable_def canonicalRoot_def)

lemma within_contains:
  "wf_fs fs \<Longrightarrow> plains q \<Longrightarrow> usable a \<Longrightarrow> withinRoot (canonicalRoot fs (ar_path a)) (show_path q) \<longleftrightarrow> contains_place fs q a"
  using usable_root [of fs a] by (auto simp: contains_place_def withinRoot_iff)

lemma contains_length:
  assumes "wf_fs fs" "contains_place fs q a" "contains_place fs q b"
  shows "length (canonicalRoot fs (ar_path a)) \<le> length (canonicalRoot fs (ar_path b)) \<longleftrightarrow>
    length (elements (canonicalRoot fs (ar_path a))) \<le> length (elements (canonicalRoot fs (ar_path b)))"
  using usable_root [OF assms(1), of a] usable_root [OF assms(1), of b] assms(2,3) length_show_mono [of _ _ q]
  by (auto simp: contains_place_def)

lemma match_deepest:
  assumes "wf_fs fs" "plains q" "match_loop (show_path q) (pp_roots (NewPathPolicy fs primary roots)) None = Some r"
  shows "\<exists>a. deepest fs roots q a \<and> r = canonical_root fs a"
proof -
  note ms = match_loop_Some [OF assms(3)]
  then obtain a where a: "a \<in> set roots" "usable a" "r = canonical_root fs a"
    using pp_roots_usable [OF assms(1)] by auto
  with ms within_contains [OF assms(1,2)] have ca: "contains_place fs q a" by (auto simp: canonical_root_def)
  have "length (elements (canonicalRoot fs (ar_path b))) \<le> length (elements (canonicalRoot fs (ar_path a)))"
    if b: "b \<in> set roots" "contains_place fs q b" for b
  proof -
    have ub: "usable b" using b(2) by (simp add: contains_place_def)
    then have "canonical_root fs b \<in> set (pp_roots (NewPathPolicy fs primary roots))"
      using b(1) pp_roots_usable [OF assms(1)] by auto
    with ms within_contains [OF assms(1,2) ub] b(2) a(3)
    have "length (canonicalRoot fs (ar_path b)) \<le> length (canonicalRoot fs (ar_path a))"
      by (force simp: canonical_root_def)
    with contains_length [OF assms(1) b(2) ca] show ?thesis by simp
  qed
  with a ca show ?thesis by (auto simp: deepest_def)
qed

lemma match_none:
  assumes "wf_fs fs" "plains q" "deepest fs roots q a"
  shows "match_loop (show_path q) (pp_roots (NewPathPolicy fs primary roots)) None \<noteq> None"
proof -
  have a: "a \<in> set roots" "usable a" "contains_place fs q a" using assms(3) by (auto simp: deepest_def contains_place_def)
  then have "canonical_root fs a \<in> set (pp_roots (NewPathPolicy fs primary roots))"
    using pp_roots_usable [OF assms(1)] by auto
  moreover have "withinRoot (ar_path (canonical_root fs a)) (show_path q)"
    using a within_contains [OF assms(1,2) a(2)] by (simp add: canonical_root_def)
  ultimately show ?thesis by (auto simp: match_loop_None)
qed

lemma deepest_same:
  assumes "wf_fs fs" "unambiguous fs roots" "deepest fs roots q a" "deepest fs roots q b"
  shows "ar_access a = ar_access b"
proof -
  have u: "usable a" "usable b" "a \<in> set roots" "b \<in> set roots" using assms(3,4) by (auto simp: deepest_def contains_place_def)
  have "length (elements (canonicalRoot fs (ar_path a))) = length (elements (canonicalRoot fs (ar_path b)))"
    using assms(3,4) by (auto simp: deepest_def intro: antisym)
  moreover have "prefix (elements (canonicalRoot fs (ar_path a))) q" "prefix (elements (canonicalRoot fs (ar_path b))) q"
    using assms(3,4) by (auto simp: deepest_def contains_place_def)
  ultimately have same: "elements (canonicalRoot fs (ar_path a)) = elements (canonicalRoot fs (ar_path b))"
    by (metis prefix_length_prefix prefix_order.antisym order_refl)
  obtain c d where "plains c" "canonicalRoot fs (ar_path a) = show_path c"
      "plains d" "canonicalRoot fs (ar_path b) = show_path d"
    using usable_root [OF assms(1) u(1)] usable_root [OF assms(1) u(2)] by blast
  with same have "canonicalRoot fs (ar_path a) = canonicalRoot fs (ar_path b)" by simp
  with u assms(2) show ?thesis unfolding unambiguous_def by blast
qed

text \<open>
  The deepest root decides: an absolute path without \<open>..\<close> that the kernel resolves is
  admitted exactly when the deepest of the configured roots around the place it names grants
  the access.
\<close>

theorem deepest_root_decides:
  assumes "wf_fs fs0" "wf_fs fs" "IsAbs path" "''..'' \<notin> set (split_on (CHR ''/'') path)"
    and "namei fs kernel_links [] (split_on (CHR ''/'') path) = Found q" "unambiguous fs0 roots"
  shows "(\<exists>r. Check fs (Some (NewPathPolicy fs0 primary roots)) path want = Inr r) \<longleftrightarrow>
    (\<exists>a. deepest fs0 roots q a \<and> want \<le> ar_access a)"
proof -
  let ?m = "match_loop (show_path q) (pp_roots (NewPathPolicy fs0 primary roots)) None"
  have q: "plains q"
    using namei_Found_real [OF assms(2) wf_fs_root [OF assms(2)] assms(5)] wf_fs_plains [OF assms(2)] by (auto simp: real_def)
  have "path \<noteq> []" using assms(3) by (auto simp: IsAbs_def has_prefix_def)
  moreover have "\<not> hasParentTraversal path" using assms(3,4) by (simp add: hasParentTraversal_uri cleanToolPath_IsAbs)
  moreover have "canonicalRoot fs path = show_path q"
    using Canonical_kernel [OF assms(3,5)] assms(3) by (simp add: canonicalRoot_def cleanToolPath_IsAbs)
  ultimately have chk: "(\<exists>r. Check fs (Some (NewPathPolicy fs0 primary roots)) path want = Inr r) \<longleftrightarrow>
      (\<exists>r. ?m = Some r \<and> want \<le> ar_access r)"
    by (auto simp: Check_def requireCanonicalPath_def policy_match_def split: option.splits)
  show ?thesis
  proof (rule iffI)
    assume "\<exists>r. Check fs (Some (NewPathPolicy fs0 primary roots)) path want = Inr r"
    then show "\<exists>a. deepest fs0 roots q a \<and> want \<le> ar_access a"
      using chk match_deepest [OF assms(1) q] by (fastforce simp: canonical_root_def)
  next
    assume "\<exists>a. deepest fs0 roots q a \<and> want \<le> ar_access a"
    then obtain a where a: "deepest fs0 roots q a" "want \<le> ar_access a" by blast
    with match_none [OF assms(1) q] obtain r where r: "?m = Some r" by blast
    with match_deepest [OF assms(1) q] obtain b where b: "deepest fs0 roots q b" "r = canonical_root fs0 b" by blast
    with deepest_same [OF assms(1,6) a(1) b(1)] a(2) r chk
    show "\<exists>r. Check fs (Some (NewPathPolicy fs0 primary roots)) path want = Inr r"
      by (auto simp: canonical_root_def)
  qed
qed

section \<open>An example\<close>

text \<open>A workspace \<open>/w\<close>, reached as \<open>/t\<close> too, with a vendored module that may only be read, and links in and out.\<close>

definition demo_entries :: "(string list \<times> node) list" where
  "demo_entries =
     [([], Dir), ([''w''], Dir), ([''w'', ''f''], File), ([''w'', ''out''], Link ''/o''), ([''w'', ''d''], Link ''.''),
      ([''w'', ''v''], Dir), ([''w'', ''v'', ''m''], File),
      ([''o''], Dir), ([''o'', ''in''], Link ''/w/f''), ([''t''], Link ''w'')]"

definition demo_files :: file_system where
  "demo_files = map_of demo_entries"

definition demo_roots :: "allowed_root list" where
  "demo_roots =
     [\<lparr>ar_path = ''/t'', ar_access = AccessReadWrite, ar_label = ''workspace''\<rparr>,
      \<lparr>ar_path = ''/w/v'', ar_access = AccessRead, ar_label = ''vendor''\<rparr>,
      \<lparr>ar_path = ''shared'', ar_access = AccessReadWrite, ar_label = ''configured''\<rparr>]"

lemma demo_wf: "wf_fs demo_files"
  unfolding demo_files_def by (rule wf_fs_map_of) (simp_all add: demo_entries_def plain_def)

lemmas demo_defs = demo_files_def demo_entries_def demo_roots_def

theorem boundary_contains_witness: "grants demo_files demo_roots AccessReadWrite [''w'', ''f'']"
  by (rule boundary_contains [OF demo_wf demo_wf, of "''file:///t/./f''" "''/t''" demo_roots AccessReadWrite
        "\<lparr>ar_path = ''/w'', ar_access = AccessReadWrite, ar_label = ''workspace''\<rparr>"]) code_simp+

theorem write_stays_inside_witness: "grants demo_files demo_roots AccessReadWrite [''w'', ''new'', ''g'']"
  by (rule write_stays_inside [OF demo_wf demo_wf, of "''/t''" demo_roots "''/t''" False "''new/../new/g''" "''/t/new/g''"]) code_simp+

theorem deepest_root_decides_witness:
  "(\<exists>r. Check demo_files (Some (NewPathPolicy demo_files ''/w'' demo_roots)) ''/t/v/m'' AccessReadWrite = Inr r) \<longleftrightarrow>
   (\<exists>a. deepest demo_files demo_roots [''w'', ''v'', ''m''] a \<and> AccessReadWrite \<le> ar_access a)"
  by (rule deepest_root_decides [OF demo_wf demo_wf]) code_simp+

text \<open>
  The check rules on where a path leads. What removes or renames the entry itself, link or not,
  acts on the entry the path names, which may lie outside: \<open>delete_file\<close> of a link outside the
  workspace to a file inside is admitted, and removes the link.
\<close>

theorem entry_outside_admitted:
  "admit_write demo_files (Some (NewPathPolicy demo_files ''/w'' demo_roots)) ''/w'' False ''/o/in'' = Inr ''/o/in'' \<and>
   entry demo_files kernel_links [] (elements ''/o/in'') = Some [''o'', ''in''] \<and>
   \<not> grants demo_files demo_roots AccessRead [''o'', ''in'']"
  by code_simp

text \<open>A path inside two roots is not allowed at the highest access of the two.\<close>

theorem access_not_additive:
  "withinRoot (canonicalRoot demo_files ''/t'') (canonicalRoot demo_files ''/w/v/m'') \<and>
   Check demo_files (Some (NewPathPolicy demo_files ''/w'' demo_roots)) ''/w/v/m'' AccessReadWrite =
     Inl (Read_only_root ''/w'' ''/w/v/m'' ''vendor'')"
  by code_simp

text \<open>
  Where a path runs through more links than \<open>EvalSymlinks\<close> follows, the canonical spelling keeps
  the next link unresolved: the path is admitted, and what is written under its canonical
  spelling goes through that link.
\<close>

lemma namei_dots:
  "namei demo_files n [''w''] (replicate k ''d'' @ cs) =
     (if k \<le> n then namei demo_files (n - k) [''w''] cs else Too_many_links)"
proof (induction k arbitrary: n)
  case (Suc k)
  have "demo_files [''w'', ''d''] = Some (Link ''.'')" by (simp add: demo_defs)
  with Suc [of "n - 1"] show ?case
    by (auto simp: namei.simps(2) IsAbs_def has_prefix_def)
qed simp

definition dotted :: "string list \<Rightarrow> string list" where
  "dotted cs = ''w'' # replicate max_links ''d'' @ cs"

lemma dotted_plain: "plains cs \<Longrightarrow> plains (dotted cs)"
  by (auto simp: dotted_def plain_def list_all_iff max_links_def)

lemma namei_dotted: "namei demo_files max_links [] (dotted cs) = namei demo_files 0 [''w''] cs"
proof -
  have "demo_files [''w''] = Some Dir" by (simp add: demo_defs)
  then show ?thesis by (simp add: dotted_def namei_plain plain_def namei_dots)
qed

lemma Canonical_dotted: "Canonical demo_files (show_path (dotted [''out'', ''x''])) = ''/w/out/x''"
proof -
  have pl: "plains (dotted [''out'', ''x''])" "plains (dotted [''out''])" "plains (dotted [])"
    by (auto intro!: dotted_plain simp: plain_def)
  have "demo_files [''w'', ''out''] = Some (Link ''/o'')" by (simp add: demo_defs)
  then have "EvalSymlinks demo_files (show_path (dotted (''out'' # cs))) = None" if "plains cs" for cs
    using that by (simp add: EvalSymlinks_show dotted_plain plain_def namei_dotted namei_plain)
  from this [of "[]"] this [of "[''x'']"]
  have none: "EvalSymlinks demo_files (show_path (dotted [''out''])) = None"
    "EvalSymlinks demo_files (show_path (dotted [''out'', ''x''])) = None" by (auto simp: plain_def)
  have some: "EvalSymlinks demo_files (show_path (dotted [])) = Some (show_path [''w''])"
    using pl(3) by (simp add: EvalSymlinks_show namei_dotted)
  have rev: "rev (dotted [''out'', ''x'']) = ''x'' # ''out'' # rev (dotted [])" "rev (''out'' # rev (dotted [])) = rev (''out'' # rev (dotted []))"
    by (simp_all add: dotted_def)
  have up: "rev (''out'' # rev (dotted [])) \<noteq> []" "rev (rev (dotted [])) = dotted []" by simp_all
  have d1: "dotted [] @ [''out''] = dotted [''out'']" by (simp add: dotted_def)
  have "canonical_above demo_files (rev (dotted [''out'', ''x''])) [] = Some (foldl Join (show_path [''w'']) [''out'', ''x''])"
    unfolding rev using none(1) some d1 by simp
  also have "foldl Join (show_path [''w'']) [''out'', ''x''] = show_path [''w'', ''out'', ''x'']"
    by (subst foldl_Join) (simp_all add: plain_def)
  finally have "canonicalMissing demo_files (show_path (dotted [''out'', ''x''])) = show_path [''w'', ''out'', ''x'']"
    using pl(1) by (simp add: canonicalMissing_def)
  with none(2) show ?thesis by (simp add: Canonical_def) (simp add: show_path_def)
qed

theorem too_many_links_escape:
  "\<exists>p. admit_write demo_files (Some (NewPathPolicy demo_files ''/w'' demo_roots)) ''/w'' False p = Inr p \<and>
     entry demo_files kernel_links [] (elements (canonicalRoot demo_files p)) = Some [''o'', ''x''] \<and>
     \<not> grants demo_files demo_roots AccessRead [''o'', ''x'']"
proof (intro exI conjI)
  let ?p = "show_path (dotted [''out'', ''x''])" and ?pol = "NewPathPolicy demo_files ''/w'' demo_roots"
  have abs: "IsAbs ?p" by simp
  have can: "canonicalRoot demo_files ?p = ''/w/out/x''"
    using Canonical_dotted by (simp add: canonicalRoot_def cleanToolPath_IsAbs)
  have pl: "plains (dotted [''out'', ''x''])" by (auto intro!: dotted_plain simp: plain_def)
  then have "''..'' \<notin> set (split_on (CHR ''/'') ?p)"
    by (auto simp: split_show list_all_iff plain_def)
  then have nt: "\<not> hasParentTraversal ?p" by (simp add: hasParentTraversal_uri cleanToolPath_IsAbs)
  have m: "\<exists>r. match_loop ''/w/out/x'' (pp_roots ?pol) None = Some r \<and> AccessReadWrite \<le> ar_access r"
    by (intro exI [of _ "\<lparr>ar_path = ''/w'', ar_access = AccessReadWrite, ar_label = ''workspace''\<rparr>"]) code_simp
  have ne: "?p \<noteq> []" by (simp add: show_path_def)
  from m obtain r where "Check demo_files (Some ?pol) ?p AccessReadWrite = Inr r"
    using nt can ne by (auto simp: Check_def requireCanonicalPath_def policy_match_def)
  moreover have "resolvePath ''/w'' False ?p = Inr ?p"
    using cleanToolPath_IsAbs [OF abs] by (simp add: resolvePath_def cleanToolPath_def)
  ultimately show "admit_write demo_files (Some ?pol) ''/w'' False ?p = Inr ?p" by (simp add: admit_write_def)
  show "entry demo_files kernel_links [] (elements (canonicalRoot demo_files ?p)) = Some [''o'', ''x'']"
    unfolding can by code_simp
  show "\<not> grants demo_files demo_roots AccessRead [''o'', ''x'']" by code_simp
qed

end
