(* ===== verification/Plumb_Substrings.thy ===== *)
theory Plumb_Substrings
  imports Plumb_Prelude
begin

text \<open>
  Searching and replacing in Go strings: \<open>strings.Cut\<close>, \<open>Index\<close>, \<open>Count\<close>, \<open>Replace\<close> with a
  count of one and \<open>ReplaceAll\<close>, at a search text that is not empty. All of them walk the
  text from the left and go on after a match, so matches that overlap count once.
\<close>

fun cut_str :: "string \<Rightarrow> string \<Rightarrow> (string \<times> string) option" where
  "cut_str sub [] = (if sub = [] then Some ([], []) else None)"
| "cut_str sub (c # cs) =
     (if has_prefix (c # cs) sub then Some ([], drop (length sub) (c # cs))
      else map_option (\<lambda>(b, a). (c # b, a)) (cut_str sub cs))"

lemma cut_str_Some: "cut_str sub s = Some (b, a) \<Longrightarrow> s = b @ sub @ a"
proof (induction s arbitrary: b)
  case (Cons c cs)
  then show ?case
    by (auto simp: has_prefix_def split: if_splits) (metis append_take_drop_id)+
qed (simp split: if_splits)

lemma cut_str_None: "cut_str sub s = None \<longleftrightarrow> \<not> contains s sub"
  by (induction s) auto

lemma cut_str_first:
  "cut_str sub s = Some (b, a) \<Longrightarrow> s = b' @ sub @ a' \<Longrightarrow> length b \<le> length b'"
proof (induction s arbitrary: b b')
  case (Cons c cs)
  show ?case
  proof (cases "has_prefix (c # cs) sub")
    case False
    with Cons.prems(1) obtain b1 where b1: "cut_str sub cs = Some (b1, a)" "b = c # b1" by auto
    from False Cons.prems(2) obtain b2 where "b' = c # b2" "cs = b2 @ sub @ a'"
      by (cases b') (auto simp: has_prefix_iff)
    with Cons.IH [OF b1(1)] b1(2) show ?thesis by simp
  next
    case True
    with Cons.prems(1) have "b = []" by simp
    then show ?thesis by simp
  qed
qed simp

lemma cut_str_unique:
  assumes "s = b @ sub @ a" "\<And>b' a'. s = b' @ sub @ a' \<Longrightarrow> length b \<le> length b'"
  shows "cut_str sub s = Some (b, a)"
proof (cases "cut_str sub s")
  case None
  with assms(1) show ?thesis by (simp add: cut_str_None contains_iff) blast
next
  case (Some x)
  obtain b0 a0 where x: "x = (b0, a0)" by fastforce
  from Some x have s: "s = b0 @ sub @ a0" by (simp add: cut_str_Some)
  with assms(2) have "length b \<le> length b0" .
  moreover have "length b0 \<le> length b" using cut_str_first [of sub s b0 a0 b a] Some x assms(1) by simp
  ultimately have "length b = length b0" by simp
  with s assms(1) Some x show ?thesis by (auto simp: append_eq_append_conv)
qed

text \<open>\<open>strings.Index\<close>; the byte offset of the first match.\<close>

definition str_index :: "string \<Rightarrow> string \<Rightarrow> nat option" where
  "str_index s sub = map_option (\<lambda>(b, a). length b) (cut_str sub s)"

lemma cut_str_shorter: "cut_str sub s = Some (b, a) \<Longrightarrow> sub \<noteq> [] \<Longrightarrow> length a < length s"
  by (auto dest!: cut_str_Some)

function str_count :: "string \<Rightarrow> string \<Rightarrow> nat" where
  "str_count s sub =
     (if sub = [] then Suc (length s)
      else case cut_str sub s of None \<Rightarrow> 0 | Some (b, a) \<Rightarrow> Suc (str_count a sub))"
  by pat_completeness auto
termination
  by (relation "measure (\<lambda>(s, sub). length s)") (auto dest: cut_str_shorter)

declare str_count.simps [simp del]

lemma str_count_0: "sub \<noteq> [] \<Longrightarrow> str_count s sub = 0 \<longleftrightarrow> \<not> contains s sub"
  by (subst str_count.simps) (auto simp: cut_str_None [symmetric] split: option.splits)

lemma str_count_1:
  assumes "sub \<noteq> []"
  shows "str_count s sub = 1 \<longleftrightarrow> (\<exists>b a. cut_str sub s = Some (b, a) \<and> \<not> contains a sub)"
  using assms by (subst str_count.simps) (auto simp: str_count_0 split: option.splits)

definition replace_first :: "string \<Rightarrow> string \<Rightarrow> string \<Rightarrow> string" where
  "replace_first s old new = (case cut_str old s of None \<Rightarrow> s | Some (b, a) \<Rightarrow> b @ new @ a)"

function replace_all :: "string \<Rightarrow> string \<Rightarrow> string \<Rightarrow> string" where
  "replace_all s old new =
     (if old = [] then s
      else case cut_str old s of None \<Rightarrow> s | Some (b, a) \<Rightarrow> b @ new @ replace_all a old new)"
  by pat_completeness auto
termination
  by (relation "measure (\<lambda>(s, old, new). length s)") (auto dest: cut_str_shorter)

declare replace_all.simps [simp del]

lemma replace_all_id: "\<not> contains s old \<Longrightarrow> replace_all s old new = s"
  by (subst replace_all.simps) (simp add: cut_str_None [symmetric])

text \<open>
  A text split at its matches: \<open>ReplaceAll\<close> joins the pieces with the replacement, and no
  match lies within a piece.
\<close>

lemma replace_all_pieces:
  "old \<noteq> [] \<Longrightarrow> \<exists>ws. ws \<noteq> [] \<and> s = join_with old ws \<and> replace_all s old new = join_with new ws \<and>
     length ws = Suc (str_count s old) \<and> list_all (\<lambda>w. \<not> contains w old) ws"
proof (induction s old new rule: replace_all.induct)
  case (1 s old new)
  show ?case
  proof (cases "cut_str old s")
    case None
    with 1(2) show ?thesis
      by (intro exI [of _ "[s]"])
        (simp add: replace_all_id cut_str_None [symmetric] str_count_0)
  next
    case (Some x)
    obtain b a where x: "x = (b, a)" by fastforce
    from 1(1) [OF 1(2) Some x [symmetric] 1(2)] obtain ws where
      ws: "ws \<noteq> []" "a = join_with old ws" "replace_all a old new = join_with new ws"
        "length ws = Suc (str_count a old)" "list_all (\<lambda>w. \<not> contains w old) ws"
      by blast
    have s: "s = b @ old @ a" using Some x by (simp add: cut_str_Some)
    have b: "\<not> contains b old"
    proof
      assume "contains b old"
      then obtain u v where "b = u @ old @ v" by (auto simp: contains_iff)
      with s cut_str_first [of old s b a u "v @ old @ a"] Some x 1(2) show False by simp
    qed
    have "replace_all s old new = b @ new @ replace_all a old new"
      using Some x 1(2) by (subst replace_all.simps) simp
    moreover have "str_count s old = Suc (str_count a old)"
      using Some x 1(2) by (subst str_count.simps) simp
    ultimately show ?thesis
      using ws s b by (intro exI [of _ "b # ws"]) (simp add: join_with_Cons)
  qed
qed

end
