(* ===== verification/Plumb_Glob.thy ===== *)
theory Plumb_Glob
  imports Plumb_Filepath Plumb_Substrings
begin

text \<open>
  Glob patterns (\<open>internal/ignore/ignore.go\<close>, \<open>exclude.go\<close>): Go's \<open>filepath.Match\<close>, as its
  documentation states it, the extension by \<open>**\<close>, and the guard on the patterns that exclude
  files from the index. A pattern that does not parse matches nothing.
\<close>

section \<open>The first rune of a byte string\<close>

abbreviation byte :: "char \<Rightarrow> nat" where
  "byte \<equiv> of_char"

definition byte_at :: "string \<Rightarrow> nat \<Rightarrow> nat" where
  "byte_at s i = (if i < length s then byte (s ! i) else 0)"

definition bad_rune :: nat where
  "bad_rune = 65533"

text \<open>\<open>utf8.DecodeRuneInString\<close>: the code point and its width; an invalid byte is one bad rune.\<close>

definition decode_rune :: "string \<Rightarrow> nat \<times> nat" where
  "decode_rune s =
     (let a = byte_at s 0; b = byte_at s 1; c = byte_at s 2; d = byte_at s 3;
          cont = (\<lambda>x. 128 \<le> x \<and> x \<le> 191) in
      if s = [] then (bad_rune, 0)
      else if a < 128 then (a, 1)
      else if 194 \<le> a \<and> a \<le> 223 \<and> cont b then ((a - 192) * 64 + (b - 128), 2)
      else if 224 \<le> a \<and> a \<le> 239 \<and> cont b \<and> (a = 224 \<longrightarrow> 160 \<le> b) \<and> (a = 237 \<longrightarrow> b \<le> 159) \<and> cont c
      then ((a - 224) * 4096 + (b - 128) * 64 + (c - 128), 3)
      else if 240 \<le> a \<and> a \<le> 244 \<and> cont b \<and> (a = 240 \<longrightarrow> 144 \<le> b) \<and> (a = 244 \<longrightarrow> b \<le> 143) \<and> cont c \<and> cont d
      then ((a - 240) * 262144 + (b - 128) * 4096 + (c - 128) * 64 + (d - 128), 4)
      else (bad_rune, 1))"

section \<open>Match\<close>

datatype glob_term = Star | Any_rune | Lit char | Class bool "(nat \<times> nat) list"

definition get_esc :: "string \<Rightarrow> (nat \<times> string) option" where
  "get_esc chunk =
     (if chunk = [] \<or> hd chunk = CHR ''-'' \<or> hd chunk = CHR '']'' then None
      else
        (let chunk = (if hd chunk = backslash then tl chunk else chunk) in
         if chunk = [] then None
         else
           (let (r, n) = decode_rune chunk; rest = drop n chunk in
            if r = bad_rune \<and> n = 1 then None
            else if rest = [] then None
            else Some (r, rest))))"

lemma decode_width: "s \<noteq> [] \<Longrightarrow> 1 \<le> snd (decode_rune s)"
  by (auto simp: decode_rune_def Let_def)

lemma get_esc_shorter: "get_esc chunk = Some (r, rest) \<Longrightarrow> length rest < length chunk"
proof -
  assume a: "get_esc chunk = Some (r, rest)"
  define c where "c = (if hd chunk = backslash then tl chunk else chunk)"
  from a have "chunk \<noteq> []" "c \<noteq> []" "rest = drop (snd (decode_rune c)) c"
    by (auto simp: get_esc_def c_def Let_def split: if_splits prod.splits)
  moreover have "length c \<le> length chunk" by (simp add: c_def)
  ultimately show ?thesis using decode_width [of c] by (cases c) auto
qed

function parse_ranges :: "bool \<Rightarrow> string \<Rightarrow> ((nat \<times> nat) list \<times> string) option" where
  "parse_ranges first chunk =
     (if \<not> first \<and> chunk \<noteq> [] \<and> hd chunk = CHR '']'' then Some ([], tl chunk)
      else
        (case get_esc chunk of
           None \<Rightarrow> None
         | Some (lo, c1) \<Rightarrow>
             if hd c1 = CHR ''-'' then
               (case get_esc (tl c1) of
                  None \<Rightarrow> None
                | Some (hi, c2) \<Rightarrow> map_option (\<lambda>(rs, rest). ((lo, hi) # rs, rest)) (parse_ranges False c2))
             else map_option (\<lambda>(rs, rest). ((lo, lo) # rs, rest)) (parse_ranges False c1)))"
  by pat_completeness auto
termination
  by (relation "measure (\<lambda>(first, chunk). length chunk)") (auto dest!: get_esc_shorter)

declare parse_ranges.simps [simp del]

lemma parse_ranges_shorter: "parse_ranges first chunk = Some (rs, rest) \<Longrightarrow> length rest < length chunk"
proof (induction first chunk arbitrary: rs rest rule: parse_ranges.induct)
  case (1 first chunk)
  show ?case
  proof (cases "\<not> first \<and> chunk \<noteq> [] \<and> hd chunk = CHR '']''")
    case True
    with "1.prems" show ?thesis by (auto simp: parse_ranges.simps)
  next
    case False
    with "1.prems" obtain lo c1 where esc: "get_esc chunk = Some (lo, c1)"
      by (subst (asm) parse_ranges.simps) (auto split: option.splits)
    from get_esc_shorter [OF esc] have l1: "length c1 < length chunk" .
    show ?thesis
    proof (cases "hd c1 = CHR ''-''")
      case True
      with False esc "1.prems" obtain hi c2 rs' where c2: "get_esc (tl c1) = Some (hi, c2)" "parse_ranges False c2 = Some (rs', rest)"
        by (subst (asm) parse_ranges.simps) (auto split: option.splits)
      from "1.IH"(1) [OF False esc refl True c2(1) refl c2(2)] get_esc_shorter [OF c2(1)] l1 show ?thesis by simp
    next
      case no: False
      with False esc "1.prems" obtain rs' where "parse_ranges False c1 = Some (rs', rest)"
        by (subst (asm) parse_ranges.simps) (auto split: option.splits)
      from "1.IH"(2) [OF False esc refl no this] l1 show ?thesis by simp
    qed
  qed
qed

function parse_glob :: "string \<Rightarrow> glob_term list option" where
  "parse_glob [] = Some []"
| "parse_glob (c # cs) =
     (if c = CHR ''*'' then map_option ((#) Star) (parse_glob cs)
      else if c = CHR ''?'' then map_option ((#) Any_rune) (parse_glob cs)
      else if c = CHR ''['' then
        (let neg = cs \<noteq> [] \<and> hd cs = CHR 0x5E in
         case parse_ranges True (if neg then tl cs else cs) of
           None \<Rightarrow> None
         | Some (rs, rest) \<Rightarrow> map_option ((#) (Class neg rs)) (parse_glob rest))
      else if c = backslash then
        (case cs of [] \<Rightarrow> None | d # ds \<Rightarrow> map_option ((#) (Lit d)) (parse_glob ds))
      else map_option ((#) (Lit c)) (parse_glob cs))"
  by pat_completeness auto
termination
  by (relation "measure length") (auto dest!: parse_ranges_shorter split: if_splits)

fun glob_match :: "glob_term list \<Rightarrow> string \<Rightarrow> bool" where
  "glob_match [] s = (s = [])"
| "glob_match (Star # ts) [] = glob_match ts []"
| "glob_match (Star # ts) (c # cs) = (glob_match ts (c # cs) \<or> (c \<noteq> CHR ''/'' \<and> glob_match (Star # ts) cs))"
| "glob_match (Any_rune # ts) s =
     (s \<noteq> [] \<and> hd s \<noteq> CHR ''/'' \<and> glob_match ts (drop (snd (decode_rune s)) s))"
| "glob_match (Lit c # ts) s = (s \<noteq> [] \<and> hd s = c \<and> glob_match ts (tl s))"
| "glob_match (Class neg rs # ts) s =
     (s \<noteq> [] \<and> (let (r, n) = decode_rune s in
        (\<exists>(lo, hi) \<in> set rs. lo \<le> r \<and> r \<le> hi) \<noteq> neg \<and> glob_match ts (drop n s)))"

definition Match :: "string \<Rightarrow> string \<Rightarrow> bool" where
  "Match pat name = (case parse_glob pat of None \<Rightarrow> False | Some ts \<Rightarrow> glob_match ts name)"

section \<open>Double stars\<close>

text \<open>What is left of a name after each of its separators.\<close>

fun after_slashes :: "string \<Rightarrow> string list" where
  "after_slashes [] = []"
| "after_slashes (c # cs) = (if c = CHR ''/'' then cs # after_slashes cs else after_slashes cs)"

function DoubleStarMatch :: "string \<Rightarrow> string \<Rightarrow> bool" where
  "DoubleStarMatch pat name =
     (if \<not> contains pat ''**'' then Match pat name
      else
        (case cut_str ''**/'' pat of
           None \<Rightarrow> has_prefix name (trim_suffix pat ''**'')
         | Some (left, right) \<Rightarrow>
             if left = [] then list_ex (DoubleStarMatch right) (name # after_slashes name)
             else
               (let leftGlob = trim_suffix left ''/'' in
                if \<not> has_prefix name (leftGlob @ ''/'') then
                  (if \<not> Match leftGlob (hd (split_on (CHR ''/'') name)) then False
                   else (case after_slashes name of
                           [] \<Rightarrow> False
                         | rest # _ \<Rightarrow> DoubleStarMatch (''**/'' @ right) rest))
                else DoubleStarMatch (''**/'' @ right) (drop (length leftGlob + 1) name))))"
  by pat_completeness auto
termination
  by (relation "measure (\<lambda>(pat, name). length pat)") (auto dest!: cut_str_Some)

declare DoubleStarMatch.simps [simp del]

section \<open>Patterns that exclude files from the index\<close>

definition MatchExcludePattern :: "string \<Rightarrow> string \<Rightarrow> bool" where
  "MatchExcludePattern pattern rel =
     (if rel = [] \<or> rel = ''.'' then False
      else DoubleStarMatch pattern rel \<or>
        (CHR ''/'' \<notin> set pattern \<and> DoubleStarMatch pattern (path_base rel)))"

definition excludeProbePaths :: "string list" where
  "excludeProbePaths = [''a'', ''a/b'', ''a/b/c/d.go'', ''main.go'']"

definition excludeWildcardChars :: string where
  "excludeWildcardChars = ''*?/''"

function strip_root :: "string \<Rightarrow> string" where
  "strip_root p =
     (if has_prefix p ''./'' then strip_root (drop 2 p)
      else if has_prefix p ''/'' then strip_root (drop 1 p)
      else
        (let p = trim_suffix p ''/'' in if p = ''.'' then [] else p))"
  by pat_completeness auto
termination
  by (relation "measure length") (auto simp: has_prefix_iff)

declare strip_root.simps [simp del]

definition normaliseExcludePattern :: "string \<Rightarrow> string" where
  "normaliseExcludePattern pattern = strip_root (trim_space pattern)"

datatype exclude_refusal = Is_empty | Matches_everything | Wildcards_alone

definition ExcludePatternRefusal :: "string \<Rightarrow> exclude_refusal option" where
  "ExcludePatternRefusal pattern =
     (let p = normaliseExcludePattern pattern in
      if p = [] then Some Is_empty
      else if list_all (MatchExcludePattern p) excludeProbePaths then Some Matches_everything
      else if list_all (\<lambda>c. c \<in> set excludeWildcardChars) p then Some Wildcards_alone
      else None)"

definition matchesExcludePattern :: "string list \<Rightarrow> string \<Rightarrow> bool" where
  "matchesExcludePattern patterns rel = list_ex (\<lambda>p. MatchExcludePattern p rel) patterns"

definition sanitizeExcludePatterns :: "string list \<Rightarrow> string list" where
  "sanitizeExcludePatterns patterns =
     filter (\<lambda>p. p \<noteq> [] \<and> ExcludePatternRefusal p = None) (map trim_space patterns)"

end
