(* ===== verification/Plumb_Braces.thy ===== *)
theory Plumb_Braces
  imports Plumb_Glob
begin

text \<open>
  Brace alternation in the globs of the search tools (\<open>internal/tools/glob_braces.go\<close>) and the
  matcher over it (\<open>doubleStarMatchFile\<close> in \<open>internal/tools/search_in_files_scan.go\<close>), with the
  pruning of directories by the literal prefix of a glob (\<open>internal/tools/walk.go\<close>). A pattern is
  the list of its bytes; positions in it are numbers.
\<close>

section \<open>Expansion\<close>

datatype brace_error = Too_many_groups nat | Too_deep string | Too_many_alternatives string

definition maxBraceExpansions :: nat where
  "maxBraceExpansions = 256"

definition maxBraceDepth :: nat where
  "maxBraceDepth = 10"

definition maxBraceGroups :: nat where
  "maxBraceGroups = 32"

fun countBraceGroups :: "string \<Rightarrow> nat" where
  "countBraceGroups [] = 0"
| "countBraceGroups (c # s) =
     (if c = CHR 0x5C then countBraceGroups (drop 1 s)
      else if c = CHR ''{'' then Suc (countBraceGroups s)
      else countBraceGroups s)"

text \<open>
  The loop of \<open>findBraceGroup\<close> at the position \<open>i\<close>, with what is left of the pattern; \<open>start\<close> is
  the position of the first open brace, once there is one.
\<close>

fun find_group :: "nat \<Rightarrow> nat option \<Rightarrow> nat \<Rightarrow> string \<Rightarrow> (nat \<times> nat) option" where
  "find_group i start depth [] = None"
| "find_group i start depth (c # s) =
     (if c = CHR 0x5C then find_group (i + 2) start depth (drop 1 s)
      else if c = CHR ''{'' then
        find_group (i + 1) (if start = None then Some i else start) (depth + 1) s
      else if c = CHR ''}'' then
        (case start of
           None \<Rightarrow> find_group (i + 1) start depth s
         | Some b \<Rightarrow> if depth - 1 = 0 then Some (b, i) else find_group (i + 1) start (depth - 1) s)
      else find_group (i + 1) start depth s)"

definition findBraceGroup :: "string \<Rightarrow> (nat \<times> nat) option" where
  "findBraceGroup pattern = find_group 0 None 0 pattern"

text \<open>The loop of \<open>splitTopLevelCommas\<close>; \<open>part\<close> is the text since the last comma.\<close>

fun split_commas :: "int \<Rightarrow> string \<Rightarrow> string \<Rightarrow> string list" where
  "split_commas depth part [] = [part]"
| "split_commas depth part (c # s) =
     (if c = CHR 0x5C then split_commas depth (part @ c # take 1 s) (drop 1 s)
      else if c = CHR '','' \<and> depth = 0 then part # split_commas depth [] s
      else split_commas
             (if c = CHR ''{'' then depth + 1 else if c = CHR ''}'' then depth - 1 else depth)
             (part @ [c]) s)"

definition splitTopLevelCommas :: "string \<Rightarrow> string list" where
  "splitTopLevelCommas inner = split_commas 0 [] inner"

text \<open>
  The two inner loops: every head with every tail, refused when the limit is reached; and the loop
  over the alternatives, which ends at the first error of an expansion.
\<close>

fun add_alternatives :: "string \<Rightarrow> string list \<Rightarrow> string list \<Rightarrow> brace_error + string list" where
  "add_alternatives pattern out [] = Inr out"
| "add_alternatives pattern out (x # xs) =
     (if maxBraceExpansions \<le> length out then Inl (Too_many_alternatives pattern)
      else add_alternatives pattern (out @ [x]) xs)"

fun each_alternative :: "string \<Rightarrow> string list \<Rightarrow> (string \<Rightarrow> brace_error + string list) \<Rightarrow>
    string list \<Rightarrow> string list \<Rightarrow> brace_error + string list" where
  "each_alternative pattern tails expand out [] = Inr out"
| "each_alternative pattern tails expand out (alt # alts) =
     (case expand alt of
        Inl e \<Rightarrow> Inl e
      | Inr heads \<Rightarrow>
          (case add_alternatives pattern out [h @ t. h \<leftarrow> heads, t \<leftarrow> tails] of
             Inl e \<Rightarrow> Inl e
           | Inr out' \<Rightarrow> each_alternative pattern tails expand out' alts))"

lemma each_alternative_cong [fundef_cong]:
  assumes "pattern = pattern'" "tails = tails'" "out = out'" "alts = alts'"
    "\<And>alt. alt \<in> set alts' \<Longrightarrow> expand alt = expand' alt"
  shows "each_alternative pattern tails expand out alts = each_alternative pattern' tails' expand' out' alts'"
  unfolding assms(1-4) using assms(5) by (induction alts' arbitrary: out') (auto split: sum.splits)

lemma find_group_bounds:
  "find_group i start depth s = Some (b, e) \<Longrightarrow>
     i \<le> e \<and> e < i + length s \<and> (start = None \<longrightarrow> i \<le> b \<and> b < e) \<and> (\<forall>x. start = Some x \<longrightarrow> b = x)"
proof (induction i start depth s rule: find_group.induct)
  case (2 i start depth c s)
  consider "c = CHR 0x5C" | "c = CHR ''{''" | "c = CHR ''}''" | "c \<notin> {CHR 0x5C, CHR ''{'', CHR ''}''}" by blast
  then show ?case
  proof cases
    case 1
    with 2 have "i + 2 \<le> e \<and> e < i + 2 + length (drop 1 s) \<and> (start = None \<longrightarrow> i + 2 \<le> b \<and> b < e) \<and>
        (\<forall>x. start = Some x \<longrightarrow> b = x)" by simp
    then show ?thesis by auto
  qed (use 2 in \<open>auto split: option.splits if_splits\<close>)
qed simp

lemma findBraceGroup_bounds: "findBraceGroup s = Some (b, e) \<Longrightarrow> b < e \<and> e < length s"
  unfolding findBraceGroup_def using find_group_bounds by fastforce

lemma split_commas_shorter: "p \<in> set (split_commas d part s) \<Longrightarrow> length p \<le> length part + length s"
  by (induction d part s rule: split_commas.induct) (fastforce split: if_splits)+

lemma splitTopLevelCommas_shorter: "p \<in> set (splitTopLevelCommas s) \<Longrightarrow> length p \<le> length s"
  unfolding splitTopLevelCommas_def using split_commas_shorter by fastforce

function expandBracesDepth :: "string \<Rightarrow> nat \<Rightarrow> brace_error + string list" where
  "expandBracesDepth pattern depth =
     (if maxBraceDepth < depth then Inl (Too_deep pattern)
      else
        (case findBraceGroup pattern of
           None \<Rightarrow> Inr [pattern]
         | Some (start, end) \<Rightarrow>
             (let prefix = take start pattern;
                  inner = take (end - (start + 1)) (drop (start + 1) pattern);
                  suffix = drop (end + 1) pattern;
                  alts = splitTopLevelCommas inner in
              if length alts < 2 then
                (case expandBracesDepth suffix depth of
                   Inl e \<Rightarrow> Inl e
                 | Inr rest \<Rightarrow> Inr (map (\<lambda>r. prefix @ ''{'' @ inner @ ''}'' @ r) rest))
              else
                (case expandBracesDepth suffix depth of
                   Inl e \<Rightarrow> Inl e
                 | Inr tails \<Rightarrow>
                     each_alternative pattern tails (\<lambda>alt. expandBracesDepth (prefix @ alt) (depth + 1)) []
                       alts))))"
  by pat_completeness auto
termination
  by (relation "measure (\<lambda>(pattern, depth). length pattern)")
     (auto dest!: findBraceGroup_bounds splitTopLevelCommas_shorter)

declare expandBracesDepth.simps [simp del]

definition expandBraces :: "string \<Rightarrow> brace_error + string list" where
  "expandBraces pattern =
     (if list_all (\<lambda>c. c \<noteq> CHR ''{'' \<and> c \<noteq> CHR ''}'') pattern then Inr [pattern]
      else if maxBraceGroups < countBraceGroups pattern then Inl (Too_many_groups (countBraceGroups pattern))
      else expandBracesDepth pattern 0)"

section \<open>Matching\<close>

text \<open>The results of the matchers: \<open>None\<close> is an error of a pattern.\<close>

definition last_component :: "string \<Rightarrow> string" where
  "last_component path = last (split_on (CHR ''/'') path)"

definition doubleStarMatchOne :: "string \<Rightarrow> string \<Rightarrow> bool option" where
  "doubleStarMatchOne glob path =
     (if parse_glob glob = None then None
      else if Match glob (last_component path) then Some True
      else Some (DoubleStarMatch glob path))"

fun match_alternatives :: "string list \<Rightarrow> string \<Rightarrow> bool option" where
  "match_alternatives [] path = Some False"
| "match_alternatives (alt # alts) path =
     (case doubleStarMatchOne alt path of
        None \<Rightarrow> None
      | Some True \<Rightarrow> Some True
      | Some False \<Rightarrow> match_alternatives alts path)"

definition doubleStarMatchFile :: "string \<Rightarrow> string \<Rightarrow> bool option" where
  "doubleStarMatchFile glob path =
     (case expandBraces glob of Inl e \<Rightarrow> None | Inr alts \<Rightarrow> match_alternatives alts path)"

section \<open>Pruning a walk by the literal prefix of a glob\<close>

definition glob_meta :: "char \<Rightarrow> bool" where
  "glob_meta c = (c \<in> set ''*?[{}'')"

definition globLiteralPrefix :: "string \<Rightarrow> string" where
  "globLiteralPrefix glob =
     (if glob = [] then []
      else join_with ''/'' (takeWhile (list_all (\<lambda>c. \<not> glob_meta c)) (split_on (CHR ''/'') glob)))"

definition dirCompatibleWithPrefix :: "string \<Rightarrow> string \<Rightarrow> bool" where
  "dirCompatibleWithPrefix rel pre =
     (rel = [] \<or> rel = ''.'' \<or> rel = pre \<or>
      has_prefix (rel @ ''/'') (pre @ ''/'') \<or> has_prefix (pre @ ''/'') (rel @ ''/''))"

end
