(* ===== verification/Plumb_Glob_Correct.thy ===== *)
theory Plumb_Glob_Correct
  imports Plumb_Glob
begin

text \<open>
  The matcher of \<open>**\<close> patterns against a meaning by components: \<open>**\<close> stands for any number of
  components, every other component of the pattern for one that it matches.
\<close>

section \<open>The meaning of a pattern\<close>

fun seg_match :: "string list \<Rightarrow> string list \<Rightarrow> bool" where
  "seg_match [] ns = (ns = [])"
| "seg_match (p # ps) [] = (p = ''**'' \<and> ps \<noteq> [] \<and> seg_match ps [])"
| "seg_match (p # ps) (n # ns) =
     (if p = ''**'' then ps = [] \<or> seg_match ps (n # ns) \<or> seg_match (p # ps) ns
      else Match p n \<and> seg_match ps ns)"

definition simple :: "string \<Rightarrow> bool" where
  "simple p = (p \<noteq> [] \<and> CHR ''/'' \<notin> set p \<and> CHR ''['' \<notin> set p \<and> backslash \<notin> set p \<and> \<not> contains p ''**'')"

definition literal :: "string \<Rightarrow> bool" where
  "literal p = (simple p \<and> CHR ''*'' \<notin> set p \<and> CHR ''?'' \<notin> set p)"

text \<open>
  The patterns the matcher reads by components: what stands before a \<open>**\<close>, back to the one
  before it, is literal, or one component if the pattern goes on after the \<open>**\<close>.
\<close>

fun readable :: "string list \<Rightarrow> string list \<Rightarrow> bool" where
  "readable seg [] = True"
| "readable seg (p # ps) =
     (if p = ''**'' then (list_all literal seg \<or> (length seg = 1 \<and> ps \<noteq> [])) \<and> readable [] ps
      else simple p \<and> readable (seg @ [p]) ps)"

section \<open>Simple components\<close>

definition term_of :: "char \<Rightarrow> glob_term" where
  "term_of c = (if c = CHR ''*'' then Star else if c = CHR ''?'' then Any_rune else Lit c)"

lemma parse_simple: "CHR ''['' \<notin> set p \<Longrightarrow> backslash \<notin> set p \<Longrightarrow> parse_glob p = Some (map term_of p)"
  by (induction p) (auto simp: term_of_def)

definition matches :: "string \<Rightarrow> string \<Rightarrow> bool" where
  "matches p n = glob_match (map term_of p) n"

lemma Match_matches: "CHR ''['' \<notin> set p \<Longrightarrow> backslash \<notin> set p \<Longrightarrow> Match p n = matches p n"
  by (simp add: Match_def parse_simple matches_def)

lemma matches_Nil [simp]: "matches [] n \<longleftrightarrow> n = []"
  by (simp add: matches_def)

lemma matches_star [simp]:
  "matches (CHR ''*'' # p) [] = matches p []"
  "matches (CHR ''*'' # p) (c # cs) = (matches p (c # cs) \<or> (c \<noteq> CHR ''/'' \<and> matches (CHR ''*'' # p) cs))"
  by (simp_all add: matches_def term_of_def)

lemma matches_any [simp]:
  "matches (CHR ''?'' # p) s = (s \<noteq> [] \<and> hd s \<noteq> CHR ''/'' \<and> matches p (drop (snd (decode_rune s)) s))"
  by (simp add: matches_def term_of_def)

lemma matches_lit: "c \<noteq> CHR ''*'' \<Longrightarrow> c \<noteq> CHR ''?'' \<Longrightarrow> matches (c # p) s = (s \<noteq> [] \<and> hd s = c \<and> matches p (tl s))"
  by (simp add: matches_def term_of_def)

text \<open>The first rune of a text does not reach over a separator.\<close>

lemma decode_cont:
  "1 < snd (decode_rune s) \<Longrightarrow> 128 \<le> byte_at s 1"
  "2 < snd (decode_rune s) \<Longrightarrow> 128 \<le> byte_at s 2"
  "3 < snd (decode_rune s) \<Longrightarrow> 128 \<le> byte_at s 3"
  "snd (decode_rune s) \<le> 4"
  by (simp_all add: decode_rune_def Let_def split: if_splits)

lemma byte_at_128: "128 \<le> byte_at s i \<Longrightarrow> i < length s \<and> s ! i \<noteq> CHR ''/''"
  by (auto simp: byte_at_def split: if_splits)

lemma decode_no_slash:
  assumes "i < snd (decode_rune s)" "0 < i"
  shows "i < length s \<and> s ! i \<noteq> CHR ''/''"
proof -
  have "i = 1 \<or> i = 2 \<or> i = 3" using decode_cont(4) [of s] assms by linarith
  then have "128 \<le> byte_at s i" using decode_cont(1-3) [of s] assms(1) by auto
  then show ?thesis by (rule byte_at_128)
qed

lemma decode_width_le: "snd (decode_rune s) \<le> length s"
proof (cases "snd (decode_rune s) \<le> 1")
  case True
  then show ?thesis by (cases s) (auto simp: decode_rune_def Let_def)
next
  case False
  then have "snd (decode_rune s) - 1 < length s" using decode_no_slash [of "snd (decode_rune s) - 1" s] by simp
  then show ?thesis by simp
qed

lemma decode_prefix:
  assumes "a \<noteq> []"
  shows "decode_rune (a @ CHR ''/'' # b) = decode_rune a"
proof -
  let ?s = "a @ CHR ''/'' # b"
  have z: "byte_at ?s i = byte_at a i" if "i < length a" for i using that by (simp add: byte_at_def nth_append)
  have sl: "byte_at ?s (length a) = 47" "byte_at a (length a) = 0" by (simp_all add: byte_at_def)
  from assms have "length a \<noteq> 0" by simp
  then consider "length a = 1" | "length a = 2" | "length a = 3" | "4 \<le> length a" by linarith
  then show ?thesis
  proof cases
    case 1
    then show ?thesis using assms z [of 0] sl by (simp add: decode_rune_def Let_def)
  next
    case 2
    then show ?thesis using assms z [of 0] z [of 1] sl by (simp add: decode_rune_def Let_def)
  next
    case 3
    then show ?thesis using assms z [of 0] z [of 1] z [of 2] sl by (simp add: decode_rune_def Let_def)
  next
    case 4
    then show ?thesis using assms z [of 0] z [of 1] z [of 2] z [of 3] by (simp add: decode_rune_def Let_def)
  qed
qed

text \<open>A slash-free component of the pattern matches up to the separator.\<close>

lemma take_rune_no_slash: "s \<noteq> [] \<Longrightarrow> hd s \<noteq> CHR ''/'' \<Longrightarrow> CHR ''/'' \<notin> set (take (snd (decode_rune s)) s)"
  using decode_no_slash [of _ s] by (auto simp: in_set_conv_nth hd_conv_nth)

lemma matches_slash:
  "CHR ''/'' \<notin> set p \<Longrightarrow>
   matches (p @ CHR ''/'' # q) s \<longleftrightarrow> (\<exists>a b. s = a @ CHR ''/'' # b \<and> CHR ''/'' \<notin> set a \<and> matches p a \<and> matches q b)"
proof (induction p arbitrary: s)
  case Nil
  then show ?case by (cases s) (auto simp: matches_lit)
next
  case (Cons c p)
  then have IH: "matches (p @ CHR ''/'' # q) s \<longleftrightarrow> (\<exists>a b. s = a @ CHR ''/'' # b \<and> CHR ''/'' \<notin> set a \<and> matches p a \<and> matches q b)" for s
    by simp
  consider "c = CHR ''*''" | "c = CHR ''?''" | "c \<noteq> CHR ''*''" "c \<noteq> CHR ''?''" by blast
  then show ?case
  proof cases
    case 1
    show ?thesis unfolding 1
    proof (induction s)
      case Nil
      then show ?case using IH [of "[]"] by simp
    next
      case s: (Cons x s)
      show ?case (is "_ = ?r")
      proof
        assume "matches ((CHR ''*'' # p) @ CHR ''/'' # q) (x # s)"
        then consider "matches (p @ CHR ''/'' # q) (x # s)" | "x \<noteq> CHR ''/''" "matches ((CHR ''*'' # p) @ CHR ''/'' # q) s" by auto
        then show ?r
        proof cases
          case 1
          then obtain a b where a: "x # s = a @ CHR ''/'' # b" "CHR ''/'' \<notin> set a" "matches p a" "matches q b" using IH by blast
          then have "matches (CHR ''*'' # p) a" by (cases a) auto
          with a show ?r by blast
        next
          case 2
          then obtain a b where "s = a @ CHR ''/'' # b" "CHR ''/'' \<notin> set a" "matches (CHR ''*'' # p) a" "matches q b" using s by blast
          with 2(1) show ?r by (intro exI [of _ "x # a"] exI [of _ b]) auto
        qed
      next
        assume ?r
        then obtain a b where a: "x # s = a @ CHR ''/'' # b" "CHR ''/'' \<notin> set a" "matches (CHR ''*'' # p) a" "matches q b" by blast
        show "matches ((CHR ''*'' # p) @ CHR ''/'' # q) (x # s)"
        proof (cases "matches p a")
          case True
          with a IH [of "x # s"] have "matches (p @ CHR ''/'' # q) (x # s)" by blast
          then show ?thesis by simp
        next
          case False
          with a(3) obtain a' where a': "a = x # a'" using a(1) by (cases a) auto
          with a False have "x \<noteq> CHR ''/''" "matches (CHR ''*'' # p) a'" by auto
          with a a' s have "matches ((CHR ''*'' # p) @ CHR ''/'' # q) s" by auto
          with \<open>x \<noteq> CHR ''/''\<close> show ?thesis by simp
        qed
      qed
    qed
  next
    case 2
    let ?w = "snd (decode_rune s)"
    show ?thesis
    proof
      assume "matches ((c # p) @ CHR ''/'' # q) s"
      with 2 have s: "s \<noteq> []" "hd s \<noteq> CHR ''/''" "matches (p @ CHR ''/'' # q) (drop ?w s)" by auto
      then obtain a b where a: "drop ?w s = a @ CHR ''/'' # b" "CHR ''/'' \<notin> set a" "matches p a" "matches q b" using IH by blast
      let ?a = "take ?w s @ a"
      have sa: "s = ?a @ CHR ''/'' # b" using a(1) by (metis append.assoc append_take_drop_id)
      have ne: "take ?w s \<noteq> []" using s(1) decode_width [of s] by auto
      then have "decode_rune ?a = decode_rune s" using decode_prefix [of ?a b] sa by simp
      then have "drop (snd (decode_rune ?a)) ?a = a" using decode_width_le [of s] by simp
      moreover have "hd ?a = hd s" using ne sa by (metis hd_append2 append_is_Nil_conv)
      ultimately have "matches (c # p) ?a" using 2 ne s(2) a(3) by simp
      moreover have "CHR ''/'' \<notin> set ?a" using take_rune_no_slash [OF s(1,2)] a(2) by simp
      ultimately show "\<exists>a b. s = a @ CHR ''/'' # b \<and> CHR ''/'' \<notin> set a \<and> matches (c # p) a \<and> matches q b"
        using sa a(4) by blast
    next
      assume "\<exists>a b. s = a @ CHR ''/'' # b \<and> CHR ''/'' \<notin> set a \<and> matches (c # p) a \<and> matches q b"
      then obtain a b where a: "s = a @ CHR ''/'' # b" "CHR ''/'' \<notin> set a" "matches (c # p) a" "matches q b" by blast
      with 2 have a3: "a \<noteq> []" "hd a \<noteq> CHR ''/''" "matches p (drop (snd (decode_rune a)) a)" by auto
      have w: "?w = snd (decode_rune a)" using decode_prefix [OF a3(1)] a(1) by simp
      have "drop ?w s = drop ?w a @ CHR ''/'' # b" using w a(1) decode_width_le [of a] by simp
      moreover have "CHR ''/'' \<notin> set (drop ?w a)" using a(2) by (auto dest: in_set_dropD)
      moreover have "matches p (drop ?w a)" using a3(3) w by simp
      ultimately have "matches (p @ CHR ''/'' # q) (drop ?w s)" using IH [of "drop ?w s"] a(4) by blast
      then show "matches ((c # p) @ CHR ''/'' # q) s" using 2 a3 a(1) by simp
    qed
  next
    case 3
    show ?thesis
    proof (cases s)
      case Nil
      then show ?thesis using 3 by (simp add: matches_lit)
    next
      case s: (Cons x s')
      have "(\<exists>a b. x # s' = a @ CHR ''/'' # b \<and> CHR ''/'' \<notin> set a \<and> matches (c # p) a \<and> matches q b) \<longleftrightarrow>
          x = c \<and> (\<exists>a b. s' = a @ CHR ''/'' # b \<and> CHR ''/'' \<notin> set a \<and> matches p a \<and> matches q b)" (is "?l = ?r")
      proof
        assume ?l
        then obtain a b where a: "x # s' = a @ CHR ''/'' # b" "CHR ''/'' \<notin> set a" "matches (c # p) a" "matches q b" by blast
        with 3 show ?r by (cases a) (auto simp: matches_lit)
      next
        assume ?r
        then obtain a b where "x = c" "s' = a @ CHR ''/'' # b" "CHR ''/'' \<notin> set a" "matches p a" "matches q b" by blast
        with 3 Cons.prems show ?l by (intro exI [of _ "c # a"] exI [of _ b]) (simp add: matches_lit)
      qed
      moreover have "matches ((c # p) @ CHR ''/'' # q) s \<longleftrightarrow> x = c \<and> matches (p @ CHR ''/'' # q) s'"
        using s 3 by (simp add: matches_lit)
      ultimately show ?thesis unfolding s IH [of s'] by blast
    qed
  qed
qed

lemma matches_no_slash: "CHR ''/'' \<notin> set p \<Longrightarrow> matches p s \<Longrightarrow> CHR ''/'' \<notin> set s"
proof (induction p arbitrary: s)
  case (Cons c p)
  consider "c = CHR ''*''" | "c = CHR ''?''" | "c \<noteq> CHR ''*''" "c \<noteq> CHR ''?''" by blast
  then show ?case
  proof cases
    case 1
    with Cons.prems show ?thesis
    proof (induction s)
      case s: (Cons x s)
      then show ?case using Cons.IH [of "x # s"] by auto
    qed simp
  next
    case 2
    with Cons have "s \<noteq> []" "hd s \<noteq> CHR ''/''" "CHR ''/'' \<notin> set (drop (snd (decode_rune s)) s)" by auto
    with take_rune_no_slash [of s] show ?thesis by (metis Un_iff append_take_drop_id set_append)
  next
    case 3
    with Cons show ?thesis by (cases s) (auto simp: matches_lit)
  qed
qed simp

abbreviation names :: "string list \<Rightarrow> bool" where
  "names ns \<equiv> list_all (\<lambda>n. CHR ''/'' \<notin> set n) ns"

lemma join_Cons_slash: "ns \<noteq> [] \<Longrightarrow> join_with ''/'' (n # ns) = n @ CHR ''/'' # join_with ''/'' ns"
  by (simp add: join_with_Cons)

lemma slash_split_unique:
  "n @ CHR ''/'' # r = a @ CHR ''/'' # b \<Longrightarrow> CHR ''/'' \<notin> set n \<Longrightarrow> CHR ''/'' \<notin> set a \<Longrightarrow> n = a \<and> r = b"
proof (induction n arbitrary: a)
  case Nil
  then show ?case by (cases a) auto
next
  case (Cons x n)
  then show ?case by (cases a) auto
qed

lemma matches_join:
  "names ps \<Longrightarrow> ps \<noteq> [] \<Longrightarrow> names ns \<Longrightarrow> ns \<noteq> [] \<Longrightarrow>
   matches (join_with ''/'' ps) (join_with ''/'' ns) \<longleftrightarrow> list_all2 matches ps ns"
proof (induction ps arbitrary: ns)
  case (Cons p ps)
  obtain n ns' where ns: "ns = n # ns'" using Cons.prems by (cases ns) auto
  show ?case
  proof (cases "ps = []"; cases "ns' = []")
    assume "ps = []" "ns' \<noteq> []"
    with ns Cons.prems matches_no_slash [of p "join_with ''/'' ns"] show ?thesis by (auto simp: join_Cons_slash)
  next
    assume "ps \<noteq> []" "ns' = []"
    with ns Cons.prems show ?thesis by (auto simp: join_Cons_slash matches_slash)
  next
    assume ne: "ps \<noteq> []" "ns' \<noteq> []"
    have "matches (p @ CHR ''/'' # join_with ''/'' ps) (n @ CHR ''/'' # join_with ''/'' ns') \<longleftrightarrow>
        matches p n \<and> matches (join_with ''/'' ps) (join_with ''/'' ns')"
      using Cons.prems ns by (auto simp: matches_slash dest: slash_split_unique)
    with ne ns Cons show ?thesis by (simp add: join_Cons_slash)
  qed (use ns in simp)
qed simp

section \<open>Cutting a pattern at its first \<open>**\<close>\<close>

definition lead :: "string list \<Rightarrow> string" where
  "lead ps = concat (map (\<lambda>p. p @ ''/'') ps)"

lemma lead_simps [simp]: "lead [] = []" "lead (p # ps) = p @ CHR ''/'' # lead ps"
  by (simp_all add: lead_def)

lemma join_append: "qs \<noteq> [] \<Longrightarrow> join_with ''/'' (ps @ qs) = lead ps @ join_with ''/'' qs"
  by (induction ps) (auto simp: join_Cons_slash)

lemma lead_join: "ps \<noteq> [] \<Longrightarrow> lead ps = join_with ''/'' ps @ ''/''"
proof (induction ps)
  case (Cons p ps)
  then show ?case by (cases "ps = []") (simp_all add: join_Cons_slash)
qed simp

lemma has_prefix_stars: "has_prefix (c # cs) ''**'' \<longleftrightarrow> c = CHR ''*'' \<and> cs \<noteq> [] \<and> hd cs = CHR ''*''"
  by (cases cs) (auto simp: has_prefix_def)

lemma contains_stars_slash: "contains (a @ CHR ''/'' # b) ''**'' \<longleftrightarrow> contains a ''**'' \<or> contains b ''**''"
proof (induction a)
  case (Cons c a)
  have "has_prefix (c # a @ CHR ''/'' # b) ''**'' \<longleftrightarrow> has_prefix (c # a) ''**''"
    by (cases a) (auto simp: has_prefix_stars)
  with Cons show ?case by auto
qed (simp add: has_prefix_stars)

lemma no_stars_join: "list_all simple ps \<Longrightarrow> \<not> contains (join_with ''/'' ps) ''**''"
proof (induction ps)
  case (Cons p ps)
  then show ?case by (cases "ps = []") (auto simp: simple_def join_Cons_slash contains_stars_slash)
qed simp

lemma cut_stars_component:
  "\<not> contains n ''**'' \<Longrightarrow> cut_str ''**/'' (n @ CHR ''/'' # r) = map_option (\<lambda>(b, a). (n @ CHR ''/'' # b, a)) (cut_str ''**/'' r)"
proof (induction n)
  case Nil
  show ?case by (cases "cut_str ''**/'' r") (auto simp: has_prefix_def)
next
  case (Cons c n)
  have "\<not> has_prefix (c # n @ CHR ''/'' # r) ''**/''"
    using Cons.prems by (cases n) (auto simp: has_prefix_def)
  with Cons show ?case by (cases "cut_str ''**/'' r") auto
qed

lemma cut_stars:
  "list_all simple ps \<Longrightarrow> cut_str ''**/'' (lead ps @ r) = map_option (\<lambda>(b, a). (lead ps @ b, a)) (cut_str ''**/'' r)"
proof (induction ps)
  case (Cons p ps)
  then have "\<not> contains p ''**''" by (simp add: simple_def)
  with Cons show ?case by (cases "cut_str ''**/'' r") (auto simp: cut_stars_component)
qed (cases "cut_str ''**/'' r", auto)

section \<open>Splitting a name\<close>

lemma after_slashes_no: "CHR ''/'' \<notin> set n \<Longrightarrow> after_slashes n = []"
  by (induction n) auto

lemma after_slashes_first: "CHR ''/'' \<notin> set n \<Longrightarrow> after_slashes (n @ CHR ''/'' # r) = r # after_slashes r"
  by (induction n) auto

lemma ex_suffix:
  "names ns \<Longrightarrow> ns \<noteq> [] \<Longrightarrow>
   list_ex P (join_with ''/'' ns # after_slashes (join_with ''/'' ns)) \<longleftrightarrow> (\<exists>k < length ns. P (join_with ''/'' (drop k ns)))"
proof (induction ns)
  case (Cons n ns)
  have "(\<exists>k < length (n # ns). P (join_with ''/'' (drop k (n # ns)))) \<longleftrightarrow>
      P (join_with ''/'' (n # ns)) \<or> (\<exists>k < length ns. P (join_with ''/'' (drop k ns)))"
    by (auto simp: less_Suc_eq_0_disj)
  with Cons show ?case by (cases "ns = []") (auto simp: after_slashes_no join_Cons_slash after_slashes_first)
qed simp

lemma has_prefix_lead:
  "names ps \<Longrightarrow> names ns \<Longrightarrow> ns \<noteq> [] \<Longrightarrow> has_prefix (join_with ''/'' ns) (lead ps) \<longleftrightarrow> (\<exists>ms. ms \<noteq> [] \<and> ns = ps @ ms)"
proof (induction ps arbitrary: ns)
  case (Cons p ps)
  obtain n ns' where ns: "ns = n # ns'" using Cons.prems by (cases ns) auto
  show ?case
  proof (cases "ns' = []")
    case True
    with ns Cons.prems have "\<not> has_prefix (join_with ''/'' ns) (lead (p # ps))" by (auto simp: has_prefix_iff)
    with ns True show ?thesis by auto
  next
    case False
    have "has_prefix (n @ CHR ''/'' # join_with ''/'' ns') (p @ CHR ''/'' # lead ps) \<longleftrightarrow>
        n = p \<and> has_prefix (join_with ''/'' ns') (lead ps)"
      using Cons.prems ns by (auto simp: has_prefix_iff dest: slash_split_unique)
    with ns False Cons show ?thesis by (auto simp: join_Cons_slash)
  qed
qed (auto simp: has_prefix_def)

section \<open>The matcher reads components\<close>

lemma seg_match_Nil [simp]: "seg_match ps [] \<longleftrightarrow> ps = []"
  by (induction ps) auto

lemma seg_match_stars: "ps \<noteq> [] \<Longrightarrow> seg_match (''**'' # ps) ns \<longleftrightarrow> (\<exists>k < length ns. seg_match ps (drop k ns))"
proof (induction ns)
  case (Cons n ns)
  then show ?case by (simp only: seg_match.simps) (auto simp: less_Suc_eq_0_disj)
qed simp

lemma simple_not_stars: "simple p \<Longrightarrow> p \<noteq> ''**''"
  by (auto simp: simple_def has_prefix_def)

lemma seg_match_simple: "list_all simple ps \<Longrightarrow> seg_match ps ns \<longleftrightarrow> list_all2 matches ps ns"
proof (induction ps arbitrary: ns)
  case (Cons p ps)
  then have "p \<noteq> ''**''" "Match p n = matches p n" for n
    by (auto simp: simple_not_stars) (simp_all add: simple_def Match_matches)
  with Cons show ?case by (cases ns) auto
qed simp

lemma matches_literal: "CHR ''*'' \<notin> set p \<Longrightarrow> CHR ''?'' \<notin> set p \<Longrightarrow> matches p n \<longleftrightarrow> n = p"
proof (induction p arbitrary: n)
  case (Cons c p)
  then have "c \<noteq> CHR ''*''" "c \<noteq> CHR ''?''" by auto
  then have "matches (c # p) n \<longleftrightarrow> n \<noteq> [] \<and> hd n = c \<and> matches p (tl n)" by (rule matches_lit)
  also have "matches p (tl n) \<longleftrightarrow> tl n = p" using Cons by simp
  finally show ?case by (cases n) auto
qed simp

lemma matches_self: "simple p \<Longrightarrow> matches p p"
proof -
  have "CHR ''/'' \<notin> set p \<Longrightarrow> matches p p" for p
  proof (induction p)
    case (Cons c p)
    have star: "matches p s \<Longrightarrow> matches (CHR ''*'' # p) s" for s by (cases s) auto
    consider "c = CHR ''*''" | "c = CHR ''?''" | "c \<noteq> CHR ''*''" "c \<noteq> CHR ''?''" by blast
    then show ?case
    proof cases
      case 1
      with Cons star [of p] show ?thesis by simp
    next
      case 2
      then have "decode_rune (c # p) = (63, 1)" by (simp add: decode_rune_def byte_at_def Let_def)
      with 2 Cons show ?thesis by simp
    qed (use Cons in \<open>simp add: matches_lit\<close>)
  qed simp
  then show "simple p \<Longrightarrow> matches p p" by (simp add: simple_def)
qed

lemma seg_match_append:
  "list_all simple ps \<Longrightarrow> seg_match (ps @ qs) ns \<longleftrightarrow> (\<exists>as bs. ns = as @ bs \<and> list_all2 matches ps as \<and> seg_match qs bs)"
proof (induction ps arbitrary: ns)
  case (Cons p ps)
  then have p: "p \<noteq> ''**''" "Match p n = matches p n" for n
    by (auto simp: simple_not_stars) (simp_all add: simple_def Match_matches)
  show ?case
  proof (cases ns)
    case (Cons n ns')
    have "(\<exists>as bs. n # ns' = as @ bs \<and> list_all2 matches (p # ps) as \<and> seg_match qs bs) \<longleftrightarrow>
        matches p n \<and> (\<exists>as bs. ns' = as @ bs \<and> list_all2 matches ps as \<and> seg_match qs bs)" (is "?l = ?r")
    proof
      assume ?l
      then obtain as bs where as: "n # ns' = as @ bs" "list_all2 matches (p # ps) as" "seg_match qs bs" by blast
      then obtain as' where "as = n # as'" by (cases as) auto
      with as show ?r by auto
    next
      assume ?r
      then obtain as bs where "matches p n" "ns' = as @ bs" "list_all2 matches ps as" "seg_match qs bs" by blast
      then show ?l by (intro exI [of _ "n # as"] exI [of _ bs]) simp
    qed
    moreover have "seg_match (p # ps @ qs) (n # ns') \<longleftrightarrow> matches p n \<and> seg_match (ps @ qs) ns'" using p by simp
    ultimately show ?thesis using Cons.IH [of ns'] Cons.prems \<open>ns = n # ns'\<close> by simp
  qed (use p in auto)
qed simp

lemma literal_simple: "list_all literal ps \<Longrightarrow> list_all simple ps"
  by (auto simp: list_all_iff literal_def)

lemma simple_names: "list_all simple ps \<Longrightarrow> names ps"
  by (auto simp: list_all_iff simple_def)

lemma simple_join_chars: "list_all simple ps \<Longrightarrow> CHR ''['' \<notin> set (join_with ''/'' ps) \<and> backslash \<notin> set (join_with ''/'' ps)"
proof (induction ps)
  case (Cons p ps)
  then show ?case by (cases "ps = []") (auto simp: simple_def join_Cons_slash backslash_def)
qed simp

lemma literal_match: "list_all literal ps \<Longrightarrow> list_all2 matches ps ns \<longleftrightarrow> ns = ps"
proof (induction ps arbitrary: ns)
  case (Cons p ps)
  then show ?case by (cases ns) (auto simp: literal_def matches_literal)
qed simp

lemma readable_split:
  "readable seg (ps @ ''**'' # qs) \<Longrightarrow> ''**'' \<notin> set ps \<Longrightarrow>
   list_all simple ps \<and> (list_all literal (seg @ ps) \<or> (length (seg @ ps) = 1 \<and> qs \<noteq> [])) \<and> readable [] qs"
  by (induction ps arbitrary: seg) force+

lemma readable_no_stars: "readable seg ps \<Longrightarrow> ''**'' \<notin> set ps \<Longrightarrow> list_all simple ps"
  by (induction seg ps rule: readable.induct) auto

lemma names_readable: "readable seg ps \<Longrightarrow> names ps"
  by (induction seg ps rule: readable.induct) (auto simp: simple_def split: if_splits)

lemma stars_in_join: "contains (lead ps @ CHR ''*'' # CHR ''*'' # r) ''**''"
  unfolding contains_iff by (intro exI [of _ "lead ps"] exI [of _ r]) simp

text \<open>A pattern of literal components before a last \<open>**\<close>.\<close>

lemma match_trailing:
  assumes "list_all literal ps" "names ns" "ns \<noteq> []"
  shows "DoubleStarMatch (lead ps @ ''**'') (join_with ''/'' ns) \<longleftrightarrow> seg_match (ps @ [''**'']) ns"
proof -
  have "cut_str ''**/'' (lead ps @ ''**'') = None"
    using cut_stars [OF literal_simple [OF assms(1)], of "''**''"] by (simp add: has_prefix_def)
  then have "DoubleStarMatch (lead ps @ ''**'') (join_with ''/'' ns) = has_prefix (join_with ''/'' ns) (lead ps)"
    using stars_in_join [of ps "[]"] by (subst DoubleStarMatch.simps) (simp add: trim_suffix_append)
  also have "\<dots> \<longleftrightarrow> (\<exists>ms. ms \<noteq> [] \<and> ns = ps @ ms)"
    using has_prefix_lead [OF simple_names [OF literal_simple [OF assms(1)]] assms(2,3)] .
  also have "\<dots> \<longleftrightarrow> seg_match (ps @ [''**'']) ns"
  proof -
    have "seg_match [''**''] ms \<longleftrightarrow> ms \<noteq> []" for ms by (cases ms) auto
    with seg_match_append [OF literal_simple [OF assms(1)]] literal_match [OF assms(1)] show ?thesis by auto
  qed
  finally show ?thesis .
qed

text \<open>A pattern that goes on after its first \<open>**\<close>.\<close>

lemma match_stars_first:
  assumes "qs \<noteq> []" "names ns" "ns \<noteq> []"
    and IH: "\<And>ms. names ms \<Longrightarrow> ms \<noteq> [] \<Longrightarrow> DoubleStarMatch (join_with ''/'' qs) (join_with ''/'' ms) = seg_match qs ms"
  shows "DoubleStarMatch (''**/'' @ join_with ''/'' qs) (join_with ''/'' ns) \<longleftrightarrow> seg_match (''**'' # qs) ns"
proof -
  have "DoubleStarMatch (''**/'' @ join_with ''/'' qs) (join_with ''/'' ns) \<longleftrightarrow>
      list_ex (DoubleStarMatch (join_with ''/'' qs)) (join_with ''/'' ns # after_slashes (join_with ''/'' ns))"
    by (subst DoubleStarMatch.simps) (simp add: has_prefix_def)
  also have "\<dots> \<longleftrightarrow> (\<exists>k < length ns. DoubleStarMatch (join_with ''/'' qs) (join_with ''/'' (drop k ns)))"
    by (rule ex_suffix [OF assms(2,3)])
  also have "\<dots> \<longleftrightarrow> (\<exists>k < length ns. seg_match qs (drop k ns))"
  proof -
    have "DoubleStarMatch (join_with ''/'' qs) (join_with ''/'' (drop k ns)) = seg_match qs (drop k ns)" if "k < length ns" for k
      using IH [of "drop k ns"] assms(2) that by (auto simp: list_all_iff dest: in_set_dropD)
    then show ?thesis by blast
  qed
  also have "\<dots> \<longleftrightarrow> seg_match (''**'' # qs) ns" using seg_match_stars [OF assms(1)] by simp
  finally show ?thesis .
qed

lemma match_after_lead:
  assumes "list_all simple ps" "ps \<noteq> []" "list_all literal ps \<or> length ps = 1" "qs \<noteq> []" "names ns" "ns \<noteq> []"
    and IH: "\<And>ms. names ms \<Longrightarrow> ms \<noteq> [] \<Longrightarrow>
      DoubleStarMatch (''**/'' @ join_with ''/'' qs) (join_with ''/'' ms) = seg_match (''**'' # qs) ms"
  shows "DoubleStarMatch (lead ps @ ''**/'' @ join_with ''/'' qs) (join_with ''/'' ns) \<longleftrightarrow> seg_match (ps @ ''**'' # qs) ns"
proof -
  let ?name = "join_with ''/'' ns" and ?D = "DoubleStarMatch (''**/'' @ join_with ''/'' qs)"
  obtain n ns' where ns: "ns = n # ns'" using assms(6) by (cases ns) auto
  have hd: "hd (split_on (CHR ''/'') ?name) = n"
    using split_join [of ns "CHR ''/''"] assms(5) ns by (simp add: list_all_iff)
  have cut: "cut_str ''**/'' (lead ps @ ''**/'' @ join_with ''/'' qs) = Some (lead ps, join_with ''/'' qs)"
    using cut_stars [OF assms(1), of "''**/'' @ join_with ''/'' qs"] by (simp add: has_prefix_def)
  have lead: "lead ps \<noteq> []" "trim_suffix (lead ps) ''/'' = join_with ''/'' ps"
    using assms(2) by (simp_all add: lead_join trim_suffix_append)
  have step: "DoubleStarMatch (lead ps @ ''**/'' @ join_with ''/'' qs) ?name =
      (if \<not> has_prefix ?name (lead ps) then
         if \<not> Match (join_with ''/'' ps) n then False
         else (case after_slashes ?name of [] \<Rightarrow> False | rest # _ \<Rightarrow> ?D rest)
       else ?D (drop (length (lead ps)) ?name))"
  proof -
    have c: "contains (lead ps @ ''**/'' @ join_with ''/'' qs) ''**''"
      using stars_in_join [of ps "CHR ''/'' # join_with ''/'' qs"] by simp
    have l: "join_with ''/'' ps @ ''/'' = lead ps" "length (join_with ''/'' ps) + 1 = length (lead ps)"
      using lead_join [OF assms(2)] by simp_all
    show ?thesis
      by (subst DoubleStarMatch.simps)
        (simp only: c cut lead l hd not_True_eq_False if_False option.case prod.case Let_def)
  qed
  have seg: "seg_match (ps @ ''**'' # qs) ns \<longleftrightarrow> (\<exists>as bs. ns = as @ bs \<and> list_all2 matches ps as \<and> seg_match (''**'' # qs) bs)"
    by (rule seg_match_append [OF assms(1)])
  have pre: "has_prefix ?name (lead ps) \<longleftrightarrow> (\<exists>ms. ms \<noteq> [] \<and> ns = ps @ ms)"
    by (rule has_prefix_lead [OF simple_names [OF assms(1)] assms(5,6)])
  have hit: "?D (drop (length (lead ps)) ?name) \<longleftrightarrow> seg_match (''**'' # qs) ms" if "ms \<noteq> []" "ns = ps @ ms" for ms
    using that assms(5) IH [of ms] by (simp add: join_append)
  show ?thesis
  proof (cases "list_all literal ps")
    case True
    have "\<not> Match (join_with ''/'' ps) n" if no: "\<not> has_prefix ?name (lead ps)" "after_slashes ?name \<noteq> []"
    proof -
      have lit: "CHR ''['' \<notin> set (join_with ''/'' ps)" "backslash \<notin> set (join_with ''/'' ps)"
        using simple_join_chars [OF assms(1)] by auto
      have "list_all2 matches ps [n] \<longleftrightarrow> [n] = ps" by (rule literal_match [OF True])
      moreover have "matches (join_with ''/'' ps) n \<longleftrightarrow> list_all2 matches ps [n]"
        using matches_join [of ps "[n]"] simple_names [OF assms(1)] assms(2,5) ns by simp
      moreover have "ps \<noteq> [n]"
      proof
        assume "ps = [n]"
        with pre no ns have "ns' = []" by auto
        with ns no(2) assms(5) show False by (simp add: after_slashes_no)
      qed
      ultimately show ?thesis using lit by (simp add: Match_matches)
    qed
    then have "DoubleStarMatch (lead ps @ ''**/'' @ join_with ''/'' qs) ?name \<longleftrightarrow>
        has_prefix ?name (lead ps) \<and> ?D (drop (length (lead ps)) ?name)"
      using step by (auto split: list.splits)
    also have "\<dots> \<longleftrightarrow> (\<exists>ms. ns = ps @ ms \<and> seg_match (''**'' # qs) ms)"
      using pre hit assms(4) by (auto simp del: seg_match.simps)
    also have "\<dots> \<longleftrightarrow> seg_match (ps @ ''**'' # qs) ns" using seg literal_match [OF True] by auto
    finally show ?thesis .
  next
    case False
    with assms(3) obtain p where p: "ps = [p]" by (cases ps) auto
    then have sp: "simple p" using assms(1) by simp
    have Mp: "Match p n = matches p n" using sp by (simp add: simple_def Match_matches)
    have segp: "seg_match (ps @ ''**'' # qs) ns \<longleftrightarrow> matches p n \<and> seg_match (''**'' # qs) ns'"
      using p ns sp Mp simple_not_stars [OF sp] by simp
    show ?thesis
    proof (cases "ns' = []")
      case True
      with ns assms(5) have "after_slashes ?name = []" "\<not> has_prefix ?name (lead ps)"
        using pre p by (auto simp: after_slashes_no)
      with step segp True show ?thesis by simp
    next
      case ne: False
      then have "after_slashes ?name = join_with ''/'' ns' # after_slashes (join_with ''/'' ns')"
        using ns assms(5) by (simp add: join_Cons_slash after_slashes_first)
      moreover have "?D (join_with ''/'' ns') \<longleftrightarrow> seg_match (''**'' # qs) ns'" using IH [of ns'] ne ns assms(5) by simp
      moreover have "has_prefix ?name (lead ps) \<longleftrightarrow> n = p" using pre p ns ne by auto
      moreover have "n = p \<Longrightarrow> ?D (drop (length (lead ps)) ?name) \<longleftrightarrow> seg_match (''**'' # qs) ns'"
        using hit [of ns'] ne ns p by simp
      ultimately show ?thesis using step segp p Mp matches_self [OF sp] by auto
    qed
  qed
qed



section \<open>Patterns it cannot read\<close>

text \<open>
  A wildcard before a last \<open>**\<close> is compared literally, and a wildcard in a path of several
  components before a \<open>**\<close> is put to the first component alone: such patterns match nothing
  they mean.
\<close>

theorem wildcard_before_stars_lost:
  "\<not> DoubleStarMatch ''build-*/**'' ''build-x/out.o'' \<and> seg_match [''build-*'', ''**''] [''build-x'', ''out.o''] \<and>
   \<not> DoubleStarMatch ''pkg/*/**/x.go'' ''pkg/a/b/x.go'' \<and>
     seg_match [''pkg'', ''*'', ''**'', ''x.go''] [''pkg'', ''a'', ''b'', ''x.go'']"
  by code_simp

text \<open>
  The guard judges a pattern without its leading \<open>./\<close> or \<open>/\<close> and its trailing \<open>/\<close>, but the
  pattern in force keeps them: the accepted pattern \<open>third_party/\<close> excludes no path at all.
\<close>

lemma matches_ends_slash: "matches (p @ ''/'') s \<Longrightarrow> CHR ''/'' \<notin> set p \<Longrightarrow> last s = CHR ''/''"
  using matches_slash [of p "[]" s] by auto

theorem accepted_pattern_inert:
  assumes "plains ns" "ns \<noteq> []"
  shows "ExcludePatternRefusal ''third_party/'' = None \<and> \<not> MatchExcludePattern ''third_party/'' (join_with ''/'' ns)"
proof
  show "ExcludePatternRefusal ''third_party/'' = None" by code_simp
  let ?p = "''third_party'' @ ''/''" and ?s = "join_with ''/'' ns"
  have "?s \<noteq> [] \<and> last ?s \<noteq> CHR ''/''"
    using assms
  proof (induction ns)
    case (Cons n ns)
    then have "n \<noteq> []" "CHR ''/'' \<notin> set n" by (auto simp: plain_def)
    then have "n \<noteq> []" "last n \<noteq> CHR ''/''" by (auto, metis last_in_set)
    with Cons show ?case by (cases "ns = []") (auto simp: join_Cons_slash)
  qed simp
  moreover have "DoubleStarMatch ?p ?s = matches ?p ?s"
    by (subst DoubleStarMatch.simps) (simp add: Match_matches has_prefix_def backslash_def)
  ultimately have "\<not> DoubleStarMatch ?p ?s" using matches_ends_slash [of "''third_party''" ?s] by auto
  then show "\<not> MatchExcludePattern ''third_party/'' ?s" by (simp add: MatchExcludePattern_def)
qed

end
