(* ===== verification/Plumb_Braces_Correct.thy ===== *)
theory Plumb_Braces_Correct
  imports Plumb_Braces Plumb_Glob_Correct
begin

text \<open>
  The expansion of braces against a meaning by structure: a pattern is a sequence of characters,
  escaped characters and groups of at least two alternatives, and denotes the product of what its
  pieces denote. Then what pruning by the literal prefix keeps of a walk.
\<close>

section \<open>Patterns as trees\<close>

datatype piece = Char char | Escaped char | Group "piece list list"

fun show_piece :: "piece \<Rightarrow> string" where
  "show_piece (Char c) = [c]"
| "show_piece (Escaped c) = [CHR 0x5C, c]"
| "show_piece (Group alts) = ''{'' @ join_with '','' (map (\<lambda>ps. concat (map show_piece ps)) alts) @ ''}''"

definition show_pieces :: "piece list \<Rightarrow> string" where
  "show_pieces ps = concat (map show_piece ps)"

text \<open>What a shell expands a pattern to: the product of its pieces, the first varying slowest.\<close>

fun piece_language :: "piece \<Rightarrow> string list" where
  "piece_language (Char c) = [[c]]"
| "piece_language (Escaped c) = [[CHR 0x5C, c]]"
| "piece_language (Group alts) =
     concat (map (\<lambda>ps. foldr (\<lambda>xs ys. [x @ y. x \<leftarrow> xs, y \<leftarrow> ys]) (map piece_language ps) [[]]) alts)"

definition product :: "string list \<Rightarrow> string list \<Rightarrow> string list" where
  "product xs ys = [x @ y. x \<leftarrow> xs, y \<leftarrow> ys]"

fun language :: "piece list \<Rightarrow> string list" where
  "language [] = [[]]"
| "language (p # ps) = product (piece_language p) (language ps)"

fun piece_nest :: "piece \<Rightarrow> nat" where
  "piece_nest (Char c) = 0"
| "piece_nest (Escaped c) = 0"
| "piece_nest (Group alts) = Suc (Max (insert 0 (set (map (\<lambda>ps. Max (insert 0 (set (map piece_nest ps)))) alts))))"

definition nest :: "piece list \<Rightarrow> nat" where
  "nest ps = Max (insert 0 (set (map piece_nest ps)))"

fun piece_groups :: "piece \<Rightarrow> nat" where
  "piece_groups (Char c) = 0"
| "piece_groups (Escaped c) = 0"
| "piece_groups (Group alts) = Suc (sum_list (map (\<lambda>ps. sum_list (map piece_groups ps)) alts))"

definition groups :: "piece list \<Rightarrow> nat" where
  "groups ps = sum_list (map piece_groups ps)"

text \<open>No brace or backslash stands for itself unescaped, nor does a comma inside a group.\<close>

fun piece_ok :: "bool \<Rightarrow> piece \<Rightarrow> bool" where
  "piece_ok inside (Char c) = (c \<notin> set ''{}'' \<and> c \<noteq> CHR 0x5C \<and> (inside \<longrightarrow> c \<noteq> CHR '',''))"
| "piece_ok inside (Escaped c) = True"
| "piece_ok inside (Group alts) = (2 \<le> length alts \<and> list_all (list_all (piece_ok True)) alts)"

lemma foldr_language: "foldr (\<lambda>xs ys. [x @ y. x \<leftarrow> xs, y \<leftarrow> ys]) (map piece_language ps) [[]] = language ps"
  by (induction ps) (auto simp: product_def)

lemma language_Group: "piece_language (Group alts) = concat (map language alts)"
  by (simp add: foldr_language)

lemma show_Group: "show_piece (Group alts) = ''{'' @ join_with '','' (map show_pieces alts) @ ''}''"
  by (simp add: show_pieces_def [abs_def])

lemma nest_Group: "piece_nest (Group alts) = Suc (Max (insert 0 (nest ` set alts)))"
  by (simp add: nest_def [abs_def])

lemma groups_Group: "piece_groups (Group alts) = Suc (sum_list (map groups alts))"
  by (simp add: groups_def [abs_def])

declare piece_language.simps(3) [simp del] show_piece.simps(3) [simp del] piece_nest.simps(3) [simp del]
  piece_groups.simps(3) [simp del]

lemma show_pieces_simps [simp]:
  "show_pieces [] = []" "show_pieces (p # ps) = show_piece p @ show_pieces ps"
  "show_pieces (ps @ qs) = show_pieces ps @ show_pieces qs"
  by (simp_all add: show_pieces_def)

lemma groups_simps [simp]:
  "groups [] = 0" "groups (p # ps) = piece_groups p + groups ps" "groups (ps @ qs) = groups ps + groups qs"
  by (simp_all add: groups_def)

lemma nest_simps [simp]:
  "nest [] = 0" "nest (p # ps) = max (piece_nest p) (nest ps)" "nest (ps @ qs) = max (nest ps) (nest qs)"
proof -
  show c: "nest (p # ps) = max (piece_nest p) (nest ps)" for p ps
    by (cases ps) (auto simp: nest_def max.left_commute)
  show "nest [] = 0" by (simp add: nest_def)
  then show "nest (ps @ qs) = max (nest ps) (nest qs)" by (induction ps) (auto simp: c max.assoc)
qed

lemma product_simps [simp]:
  "product [] ys = []" "product (x # xs) ys = map ((@) x) ys @ product xs ys"
  "product (xs @ xs') ys = product xs ys @ product xs' ys"
  by (simp_all add: product_def)

lemma map_append_Nil [simp]: "map ((@) []) ys = ys"
  by (induction ys) simp_all

lemma product_map: "product (map ((@) x) xs) ys = map ((@) x) (product xs ys)"
  by (induction xs) simp_all

lemma product_assoc: "product (product xs ys) zs = product xs (product ys zs)"
  by (induction xs) (simp_all add: product_map)

lemma product_Nil [simp]: "product [[]] ys = ys" "product xs [[]] = xs"
proof -
  show "product [[]] ys = ys" by (induction ys) simp_all
  show "product xs [[]] = xs" by (induction xs) simp_all
qed

lemma product_concat: "product (concat xss) ys = concat (map (\<lambda>xs. product xs ys) xss)"
  by (induction xss) simp_all

lemma language_append [simp]: "language (ps @ qs) = product (language ps) (language qs)"
  by (induction ps) (simp_all add: product_assoc)

lemma length_product [simp]: "length (product xs ys) = length xs * length ys"
  by (induction xs) simp_all

lemma language_ne: "list_all (piece_ok inside) ps \<Longrightarrow> language ps \<noteq> []"
proof -
  have one: "piece_ok inside p \<Longrightarrow> piece_language p \<noteq> []" for inside p
  proof (induction p arbitrary: inside)
    case (Group alts)
    then obtain ps rest where alts: "alts = ps # rest" by (cases alts) auto
    have "language ps \<noteq> []"
    proof -
      have "list_all (piece_ok True) qs \<Longrightarrow> set qs \<subseteq> set ps \<Longrightarrow> language qs \<noteq> []" for qs
      proof (induction qs)
        case (Cons q qs)
        with Group.IH [of ps q True] alts have "piece_language q \<noteq> []" by auto
        with Cons have "length (language (q # qs)) \<noteq> 0" by simp
        then show ?case by (metis list.size(3))
      qed simp
      with Group.prems alts show ?thesis by simp
    qed
    with alts show ?case by (simp add: language_Group)
  qed simp_all
  have "list_all (piece_ok inside) ps \<Longrightarrow> length (language ps) \<noteq> 0"
    by (induction ps) (use one in auto)
  then show "list_all (piece_ok inside) ps \<Longrightarrow> language ps \<noteq> []" by auto
qed

section \<open>Scanning a pattern\<close>

text \<open>Text that the scan for the end of a group passes over, and text it passes over before one.\<close>

definition passes :: "string \<Rightarrow> bool" where
  "passes s = (\<forall>i b d rest. find_group i (Some b) (Suc d) (s @ rest) = find_group (i + length s) (Some b) (Suc d) rest)"

lemma passes_Nil [intro, simp]: "passes []"
  by (simp add: passes_def)

lemma passes_append [intro]: "passes s \<Longrightarrow> passes t \<Longrightarrow> passes (s @ t)"
  by (simp add: passes_def add.assoc)

lemma passes_char: "c \<notin> set ''{}'' \<Longrightarrow> c \<noteq> CHR 0x5C \<Longrightarrow> passes [c]"
  by (simp add: passes_def)

lemma passes_escaped: "passes [CHR 0x5C, c]"
  by (simp add: passes_def)

lemma passes_join: "\<forall>s \<in> set ss. passes s \<Longrightarrow> passes (join_with '','' ss)"
proof (induction "'',''" ss rule: join_with.induct)
  case (3 w v ws)
  have "passes '',''" by (rule passes_char) simp_all
  with 3 have "passes (w @ '','' @ join_with '','' (v # ws))" by (intro passes_append) simp_all
  then show ?case by simp
qed simp_all

lemma passes_group: "passes s \<Longrightarrow> passes (''{'' @ s @ ''}'')"
  by (simp add: passes_def)

lemma passes_concat: "\<forall>p \<in> set ps. passes (show_piece p) \<Longrightarrow> passes (show_pieces ps)"
  by (induction ps) auto

lemma passes_piece: "piece_ok inside p \<Longrightarrow> passes (show_piece p)"
proof (induction p arbitrary: inside)
  case (Group alts)
  have "passes (show_pieces ps)" if "ps \<in> set alts" for ps
    by (rule passes_concat) (use Group.IH [OF that, of _ True] Group.prems that in \<open>auto simp: list_all_iff\<close>)
  then have "passes (join_with '','' (map show_pieces alts))" by (intro passes_join) simp
  then show ?case by (simp only: show_Group passes_group)
qed (simp_all add: passes_char passes_escaped)

lemma passes_pieces: "list_all (piece_ok inside) ps \<Longrightarrow> passes (show_pieces ps)"
  by (rule passes_concat) (auto simp: list_all_iff dest: passes_piece)

fun no_group :: "piece \<Rightarrow> bool" where
  "no_group (Group alts) = False"
| "no_group _ = True"

lemma find_group_literal:
  "list_all no_group ps \<Longrightarrow> list_all (piece_ok inside) ps \<Longrightarrow>
     find_group i None 0 (show_pieces ps @ rest) = find_group (i + length (show_pieces ps)) None 0 rest"
proof (induction ps arbitrary: i)
  case (Cons p ps)
  then show ?case by (cases p) auto
qed simp

lemma find_group_first:
  assumes "list_all no_group ps" "list_all (piece_ok False) ps" "piece_ok False (Group alts)"
  shows "findBraceGroup (show_pieces ps @ show_piece (Group alts) @ rest) =
    Some (length (show_pieces ps), length (show_pieces ps) + 1 + length (join_with '','' (map show_pieces alts)))"
proof -
  have "passes (join_with '','' (map show_pieces alts))"
    by (rule passes_join) (use assms(3) in \<open>auto simp: list_all_iff intro!: passes_pieces [where inside = True]\<close>)
  with find_group_literal [OF assms(1,2), of 0 "show_piece (Group alts) @ rest"] show ?thesis
    by (simp add: findBraceGroup_def show_Group passes_def)
qed

lemma find_group_none: "list_all no_group ps \<Longrightarrow> list_all (piece_ok False) ps \<Longrightarrow> findBraceGroup (show_pieces ps) = None"
  using find_group_literal [of ps False 0 "[]"] by (simp add: findBraceGroup_def)

text \<open>Text that the split at commas keeps together, from a depth of braces on.\<close>

definition keeps :: "int \<Rightarrow> string \<Rightarrow> bool" where
  "keeps d0 s = (\<forall>d part rest. d0 \<le> d \<longrightarrow> split_commas d part (s @ rest) = split_commas d (part @ s) rest)"

lemma keeps_Nil [simp]: "keeps d0 []"
  by (simp add: keeps_def)

lemma keeps_append: "keeps d0 s \<Longrightarrow> keeps d0 t \<Longrightarrow> keeps d0 (s @ t)"
  by (simp add: keeps_def)

lemma keeps_mono: "keeps d0 s \<Longrightarrow> d0 \<le> d1 \<Longrightarrow> keeps d1 s"
  by (simp add: keeps_def)

lemma keeps_join: "\<forall>s \<in> set ss. keeps 1 s \<Longrightarrow> keeps 1 (join_with '','' ss)"
proof (induction "'',''" ss rule: join_with.induct)
  case (3 w v ws)
  have "keeps 1 '',''" by (simp add: keeps_def)
  with 3 have "keeps 1 (w @ '','' @ join_with '','' (v # ws))" by (intro keeps_append) simp_all
  then show ?case by simp
qed simp_all

lemma keeps_group: "keeps 1 s \<Longrightarrow> keeps 0 (''{'' @ s @ ''}'')"
  by (simp add: keeps_def)

lemma keeps_concat: "\<forall>p \<in> set ps. keeps d (show_piece p) \<Longrightarrow> keeps d (show_pieces ps)"
  by (induction ps) (auto intro: keeps_append)

lemma keeps_piece: "piece_ok True p \<Longrightarrow> keeps 0 (show_piece p)"
proof (induction p)
  case (Group alts)
  have "keeps 1 (show_pieces ps)" if "ps \<in> set alts" for ps
    by (rule keeps_concat) (use Group.IH [OF that] Group.prems that in \<open>auto simp: list_all_iff intro: keeps_mono [of 0]\<close>)
  then have "keeps 1 (join_with '','' (map show_pieces alts))" by (intro keeps_join) simp
  then show ?case by (simp only: show_Group keeps_group)
qed (simp_all add: keeps_def)

lemma split_joined:
  "\<forall>s \<in> set ss. keeps 0 s \<Longrightarrow> ss \<noteq> [] \<Longrightarrow>
     split_commas 0 part (join_with '','' ss) = (part @ hd ss) # tl ss"
proof (induction "'',''" ss arbitrary: part rule: join_with.induct)
  case (2 w)
  then have "split_commas 0 part (w @ []) = split_commas 0 (part @ w) []" unfolding keeps_def by (simp del: append_Nil2)
  then show ?case by simp
next
  case (3 w v ws)
  then have "split_commas 0 part (w @ '','' @ join_with '','' (v # ws)) =
      split_commas 0 (part @ w) ('','' @ join_with '','' (v # ws))" by (simp add: keeps_def del: append_Cons append_Nil)
  with 3 show ?case by simp
qed simp

lemma split_alternatives:
  assumes "piece_ok False (Group alts)"
  shows "splitTopLevelCommas (join_with '','' (map show_pieces alts)) = map show_pieces alts"
proof -
  have "\<forall>s \<in> set (map show_pieces alts). keeps 0 s"
    using assms by (auto simp: list_all_iff intro!: keeps_concat keeps_piece)
  with assms split_joined [of "map show_pieces alts" "[]"] show ?thesis
    by (cases alts) (auto simp: splitTopLevelCommas_def)
qed

text \<open>The number of groups that a text adds to the count.\<close>

definition adds_groups :: "nat \<Rightarrow> string \<Rightarrow> bool" where
  "adds_groups n s = (\<forall>rest. countBraceGroups (s @ rest) = n + countBraceGroups rest)"

lemma adds_groups_append: "adds_groups n s \<Longrightarrow> adds_groups m t \<Longrightarrow> adds_groups (n + m) (s @ t)"
  by (simp add: adds_groups_def)

lemma adds_groups_join:
  "\<forall>x \<in> set xs. adds_groups (f x) (g x) \<Longrightarrow> adds_groups (sum_list (map f xs)) (join_with '','' (map g xs))"
proof (induction xs)
  case (Cons x xs)
  show ?case
  proof (cases xs)
    case Nil
    with Cons.prems show ?thesis by simp
  next
    case (Cons y ys)
    have "adds_groups 0 '',''" by (simp add: adds_groups_def)
    with Cons.prems Cons.IH have "adds_groups (f x + (0 + sum_list (map f xs))) (g x @ '','' @ join_with '','' (map g xs))"
      by (intro adds_groups_append) simp_all
    with Cons show ?thesis by simp
  qed
qed (simp add: adds_groups_def)

lemma adds_groups_concat:
  "\<forall>p \<in> set ps. adds_groups (piece_groups p) (show_piece p) \<Longrightarrow> adds_groups (groups ps) (show_pieces ps)"
  by (induction ps) (auto intro: adds_groups_append simp: adds_groups_def [of 0 "[]"])

lemma adds_groups_piece: "piece_ok inside p \<Longrightarrow> adds_groups (piece_groups p) (show_piece p)"
proof (induction p arbitrary: inside)
  case (Group alts)
  have "adds_groups (groups ps) (show_pieces ps)" if "ps \<in> set alts" for ps
    by (rule adds_groups_concat) (use Group.IH [OF that, of _ True] Group.prems that in \<open>auto simp: list_all_iff\<close>)
  then have "adds_groups (sum_list (map groups alts)) (join_with '','' (map show_pieces alts))"
    by (intro adds_groups_join) simp
  then show ?case unfolding show_Group groups_Group by (simp add: adds_groups_def)
qed (simp_all add: adds_groups_def)

lemma count_pieces: "list_all (piece_ok inside) ps \<Longrightarrow> countBraceGroups (show_pieces ps) = groups ps"
  using adds_groups_concat [of ps] adds_groups_piece [of inside]
  by (auto simp: list_all_iff adds_groups_def dest: spec [of _ "[]"])

section \<open>The expansion\<close>

text \<open>An answer that is the list given when a condition holds, and an error otherwise.\<close>

definition answers :: "brace_error + string list \<Rightarrow> bool \<Rightarrow> string list \<Rightarrow> bool" where
  "answers r good l = (case r of Inl e \<Rightarrow> \<not> good | Inr l' \<Rightarrow> good \<and> l' = l)"

lemma answers_simps [simp]:
  "answers (Inl e) good l = (\<not> good)" "answers (Inr l') good l = (good \<and> l' = l)"
  by (simp_all add: answers_def)

lemma add_alternatives_answers:
  "length out \<le> maxBraceExpansions \<Longrightarrow>
     answers (add_alternatives pat out xs) (length (out @ xs) \<le> maxBraceExpansions) (out @ xs)"
proof (induction xs arbitrary: out)
  case (Cons x xs)
  with Cons.IH [of "out @ [x]"] show ?case by (cases "length out = maxBraceExpansions") simp_all
qed simp

lemma each_alternative_answers:
  assumes "tails \<noteq> []"
  shows "length out \<le> maxBraceExpansions \<Longrightarrow>
    \<forall>x \<in> set xs. answers (expand (show x)) (good x \<and> length (lang x) \<le> maxBraceExpansions) (lang x) \<Longrightarrow>
    answers (each_alternative pat tails expand out (map show xs))
      ((\<forall>x \<in> set xs. good x) \<and> length (out @ concat (map (\<lambda>x. product (lang x) tails) xs)) \<le> maxBraceExpansions)
      (out @ concat (map (\<lambda>x. product (lang x) tails) xs))"
proof (induction xs arbitrary: out)
  case (Cons x xs)
  let ?all = "out @ concat (map (\<lambda>x. product (lang x) tails) (x # xs))"
  have one: "answers (expand (show x)) (good x \<and> length (lang x) \<le> maxBraceExpansions) (lang x)"
    using Cons.prems(2) by simp
  show ?case
  proof (cases "expand (show x)")
    case (Inl e)
    have "length (lang x) \<le> length (lang x) * length tails" using assms by (cases tails) simp_all
    also have "\<dots> \<le> length ?all" by simp
    finally have "length (lang x) \<le> length ?all" .
    with one Inl show ?thesis by auto
  next
    case (Inr heads)
    with one have x: "good x" "heads = lang x" by simp_all
    have "[h @ t. h \<leftarrow> heads, t \<leftarrow> tails] = product (lang x) tails" by (simp add: product_def x)
    with add_alternatives_answers [OF Cons.prems(1), of pat "product (lang x) tails"]
    have add: "answers (add_alternatives pat out [h @ t. h \<leftarrow> heads, t \<leftarrow> tails])
        (length (out @ product (lang x) tails) \<le> maxBraceExpansions) (out @ product (lang x) tails)" by simp
    show ?thesis
    proof (cases "add_alternatives pat out [h @ t. h \<leftarrow> heads, t \<leftarrow> tails]")
      case l: (Inl e)
      with add Inr show ?thesis by simp
    next
      case r: (Inr out')
      with add have out': "length (out @ product (lang x) tails) \<le> maxBraceExpansions"
        "out' = out @ product (lang x) tails" by (simp_all only: answers_simps)
      have "each_alternative pat tails expand out (map show (x # xs)) = each_alternative pat tails expand out' (map show xs)"
        by (simp add: Inr r)
      moreover have "\<forall>y \<in> set xs. answers (expand (show y)) (good y \<and> length (lang y) \<le> maxBraceExpansions) (lang y)"
        using Cons.prems(2) by simp
      ultimately show ?thesis using Cons.IH [OF out'(1)] out'(2) x(1) by simp
    qed
  qed
qed simp

lemma take_first_group: "list_all no_group ps \<or> (\<exists>us alts vs. ps = us @ Group alts # vs \<and> list_all no_group us)"
proof (induction ps)
  case (Cons p ps)
  show ?case
  proof (cases "no_group p")
    case True
    from Cons show ?thesis
    proof (elim disjE exE conjE)
      fix us alts vs
      assume "ps = us @ Group alts # vs" "list_all no_group us"
      with True have "p # ps = (p # us) @ Group alts # vs" "list_all no_group (p # us)" by simp_all
      then show ?thesis by blast
    qed (use True in simp)
  next
    case False
    then obtain alts where "p = Group alts" by (cases p) auto
    then show ?thesis by (intro disjI2 exI [of _ "[]"] exI [of _ alts] exI [of _ ps]) simp
  qed
qed simp

lemma literal_language: "list_all no_group ps \<Longrightarrow> language ps = [show_pieces ps] \<and> nest ps = 0 \<and> groups ps = 0"
proof (induction ps)
  case (Cons p ps)
  then show ?case by (cases p) simp_all
qed simp

lemma piece_ok_mono: "piece_ok True p \<Longrightarrow> piece_ok False p"
  by (cases p) auto

lemma join_length: "w \<in> set ws \<Longrightarrow> length w \<le> length (join_with sep ws)"
  by (induction sep ws rule: join_with.induct) auto

lemma nest_group_le:
  assumes "alts \<noteq> []"
  shows "d + piece_nest (Group alts) \<le> m \<longleftrightarrow> (\<forall>a \<in> set alts. Suc (d + nest a) \<le> m)"
proof
  assume m: "d + piece_nest (Group alts) \<le> m"
  show "\<forall>a \<in> set alts. Suc (d + nest a) \<le> m"
  proof
    fix a
    assume "a \<in> set alts"
    then have "nest a \<le> Max (insert 0 (nest ` set alts))" by simp
    with m show "Suc (d + nest a) \<le> m" unfolding nest_Group by linarith
  qed
next
  assume r: "\<forall>a \<in> set alts. Suc (d + nest a) \<le> m"
  with assms have "Suc d \<le> m" by (cases alts) auto
  moreover from r have "Max (insert 0 (nest ` set alts)) \<le> m - Suc d" by (auto intro!: Max.boundedI)
  ultimately show "d + piece_nest (Group alts) \<le> m" unfolding nest_Group by linarith
qed

lemma language_distributes:
  assumes "list_all no_group us"
  shows "language (us @ Group alts # vs) =
    concat (map (\<lambda>a. product (product (language us) (language a)) (language vs)) alts)"
proof -
  have one: "product [x] (concat yss) = concat (map (product [x]) yss)" for x :: string and yss
    by (induction yss) simp_all
  have us: "language us = [show_pieces us]" using literal_language [OF assms] by simp
  have "language (us @ Group alts # vs) = product (product (language us) (concat (map language alts))) (language vs)"
    by (simp only: language_append language.simps language_Group product_assoc)
  also have "\<dots> = product (concat (map (product (language us)) (map language alts))) (language vs)"
    by (simp only: us one)
  finally show ?thesis by (simp add: product_concat comp_def)
qed

lemma expand_answers:
  "list_all (piece_ok False) ps \<Longrightarrow>
     answers (expandBracesDepth (show_pieces ps) d)
       (d + nest ps \<le> maxBraceDepth \<and> length (language ps) \<le> maxBraceExpansions) (language ps)"
proof (induction "length (show_pieces ps)" arbitrary: ps d rule: less_induct)
  case less
  show ?case
  proof (cases "maxBraceDepth < d")
    case True
    then show ?thesis by (subst expandBracesDepth.simps) simp
  next
    case shallow: False
    from take_first_group [of ps] consider "list_all no_group ps" | us alts vs where "ps = us @ Group alts # vs" "list_all no_group us"
      by blast
    then show ?thesis
    proof cases
      case 1
      with less.prems shallow find_group_none [OF 1] literal_language [OF 1] show ?thesis
        by (subst expandBracesDepth.simps) (simp add: maxBraceExpansions_def)
    next
      case 2
      let ?alts = "map show_pieces alts"
      let ?inner = "join_with '','' ?alts"
      have ok: "list_all (piece_ok False) us" "piece_ok False (Group alts)" "list_all (piece_ok False) vs"
        using less.prems 2(1) by simp_all
      have sp: "show_pieces ps = show_pieces us @ ''{'' @ ?inner @ ''}'' @ show_pieces vs"
        by (simp add: 2(1) show_Group)
      have grp: "findBraceGroup (show_pieces ps) = Some (length (show_pieces us), length (show_pieces us) + 1 + length ?inner)"
        using find_group_first [OF 2(2) ok(1,2), of "show_pieces vs"] by (simp add: 2(1))
      have two: "\<not> length ?alts < 2" "alts \<noteq> []" using ok(2) by auto
      have cut: "take (length (show_pieces us)) (show_pieces ps) = show_pieces us"
        "take (length (show_pieces us) + 1 + length ?inner - (length (show_pieces us) + 1))
           (drop (length (show_pieces us) + 1) (show_pieces ps)) = ?inner"
        "drop (length (show_pieces us) + 1 + length ?inner + 1) (show_pieces ps) = show_pieces vs"
        by (simp_all add: sp)
      have step: "expandBracesDepth (show_pieces ps) d =
          (case expandBracesDepth (show_pieces vs) d of
             Inl e \<Rightarrow> Inl e
           | Inr tails \<Rightarrow> each_alternative (show_pieces ps) tails
               (\<lambda>alt. expandBracesDepth (show_pieces us @ alt) (d + 1)) [] ?alts)"
        using shallow two by (subst expandBracesDepth.simps)
          (simp only: grp Let_def cut split_alternatives [OF ok(2)] if_False option.case prod.case)
      have tails: "answers (expandBracesDepth (show_pieces vs) d)
          (d + nest vs \<le> maxBraceDepth \<and> length (language vs) \<le> maxBraceExpansions) (language vs)"
        by (rule less.hyps) (simp_all add: sp ok)
      have heads: "answers (expandBracesDepth (show_pieces us @ show_pieces a) (d + 1))
          (Suc (d + nest a) \<le> maxBraceDepth \<and> length (product (language us) (language a)) \<le> maxBraceExpansions)
          (product (language us) (language a))" if "a \<in> set alts" for a
      proof -
        have "list_all (piece_ok False) (us @ a)"
          using ok(1,2) that by (auto simp: list_all_iff intro: piece_ok_mono)
        moreover have "length (show_pieces (us @ a)) < length (show_pieces ps)"
          using join_length [of "show_pieces a" ?alts "'',''"] that by (simp add: sp)
        ultimately show ?thesis using less.hyps [of "us @ a" "d + 1"] literal_language [OF 2(2)] by simp
      qed
      show ?thesis
      proof (cases "expandBracesDepth (show_pieces vs) d")
        case (Inl e)
        with tails have "\<not> (d + nest vs \<le> maxBraceDepth \<and> length (language vs) \<le> maxBraceExpansions)" by simp
        moreover have "d + nest vs \<le> d + nest ps" by (simp add: 2(1))
        moreover have "length (language vs) \<le> length (language ps)"
        proof -
          have "product (language us) (piece_language (Group alts)) \<noteq> []"
            using language_ne [of False "us @ [Group alts]"] ok by simp
          then have "1 \<le> length (product (language us) (piece_language (Group alts)))"
            by (cases "product (language us) (piece_language (Group alts))") simp_all
          then have "1 * length (language vs) \<le> length (product (product (language us) (piece_language (Group alts))) (language vs))"
            unfolding length_product [of "product _ _"] by (rule mult_le_mono1)
          then show ?thesis by (simp add: 2(1) product_assoc [symmetric] del: length_product)
        qed
        ultimately have "\<not> (d + nest ps \<le> maxBraceDepth \<and> length (language ps) \<le> maxBraceExpansions)"
          by linarith
        with step Inl show ?thesis by simp
      next
        case (Inr tls)
        with tails have tls: "tls = language vs" "d + nest vs \<le> maxBraceDepth" by simp_all
        have ne: "tls \<noteq> []" using language_ne [OF ok(3)] tls(1) by simp
        have "answers (each_alternative (show_pieces ps) tls
               (\<lambda>alt. expandBracesDepth (show_pieces us @ alt) (d + 1)) [] ?alts)
            ((\<forall>a \<in> set alts. Suc (d + nest a) \<le> maxBraceDepth) \<and> length (language ps) \<le> maxBraceExpansions) (language ps)"
          using each_alternative_answers [OF ne, of "[]" alts "\<lambda>alt. expandBracesDepth (show_pieces us @ alt) (d + 1)"
            show_pieces "\<lambda>a. Suc (d + nest a) \<le> maxBraceDepth" "\<lambda>a. product (language us) (language a)"] heads
            language_distributes [OF 2(2), of alts vs]
          by (simp add: 2(1) tls)
        moreover have "d + nest ps \<le> maxBraceDepth \<longleftrightarrow> (\<forall>a \<in> set alts. Suc (d + nest a) \<le> maxBraceDepth)"
          using nest_group_le [OF two(2), of d maxBraceDepth] tls(2) shallow literal_language [OF 2(2)] by (auto simp: 2(1))
        ultimately show ?thesis by (simp add: step Inr)
      qed
    qed
  qed
qed

text \<open>
  C10. A pattern in which every brace is escaped or belongs to a balanced group of two or more
  alternatives is expanded to exactly the list of patterns a shell makes of it, in the shell's
  order, when it has at most 32 groups, nests them at most 10 deep and denotes at most 256
  patterns; otherwise it is refused, and never shortened. Escaped braces and commas stay as they
  are, and so do commas outside of groups. Groups of one alternative and unbalanced braces are not
  covered: what is done to the groups inside and after them is not what a shell does.
\<close>

theorem braces_expand_like_shell:
  assumes "list_all (piece_ok False) ps"
  shows "(groups ps \<le> 32 \<and> nest ps \<le> 10 \<and> length (language ps) \<le> 256 \<longrightarrow>
      expandBraces (show_pieces ps) = Inr (language ps)) \<and>
    (\<not> (groups ps \<le> 32 \<and> nest ps \<le> 10 \<and> length (language ps) \<le> 256) \<longrightarrow>
      (\<exists>e. expandBraces (show_pieces ps) = Inl e))"
proof -
  have "list_all no_group ps" if "list_all (\<lambda>c. c \<noteq> CHR ''{'' \<and> c \<noteq> CHR ''}'') (show_pieces ps)"
    using that
  proof (induction ps)
    case (Cons p ps)
    then show ?case by (cases p) (simp_all add: show_Group)
  qed simp
  then have plain: "language ps = [show_pieces ps] \<and> nest ps = 0 \<and> groups ps = 0"
    if "list_all (\<lambda>c. c \<noteq> CHR ''{'' \<and> c \<noteq> CHR ''}'') (show_pieces ps)"
    using that literal_language by blast
  have "answers (expandBraces (show_pieces ps))
      (groups ps \<le> 32 \<and> nest ps \<le> 10 \<and> length (language ps) \<le> 256) (language ps)"
    using expand_answers [OF assms, of 0] plain
    by (auto simp: expandBraces_def count_pieces [OF assms] maxBraceGroups_def maxBraceDepth_def maxBraceExpansions_def
        answers_def split: sum.splits)
  then show ?thesis by (cases "expandBraces (show_pieces ps)") auto
qed

definition demo_pieces :: "piece list" where
  "demo_pieces =
     [Char CHR ''x'', Char CHR '','', Escaped CHR ''{'',
      Group [[Char CHR ''a''], [Char CHR ''b'', Group [[Char CHR ''c''], []]]], Group [[Char CHR ''d''], [Escaped CHR '','']]]"

theorem braces_expand_like_shell_witness:
  "show_pieces demo_pieces = ''x,'' @ [CHR 0x5C] @ ''{{a,b{c,}}{d,'' @ [CHR 0x5C] @ '',}'' \<and>
   expandBraces (show_pieces demo_pieces) = Inr (language demo_pieces) \<and>
   language demo_pieces = map ((@) (''x,'' @ [CHR 0x5C] @ ''{''))
     [''ad'', ''a'' @ [CHR 0x5C] @ '','', ''bcd'', ''bc'' @ [CHR 0x5C] @ '','', ''bd'', ''b'' @ [CHR 0x5C] @ '','']"
proof (intro conjI)
  have "list_all (piece_ok False) demo_pieces" by code_simp
  moreover have "groups demo_pieces \<le> 32 \<and> nest demo_pieces \<le> 10 \<and> length (language demo_pieces) \<le> 256" by code_simp
  ultimately show "expandBraces (show_pieces demo_pieces) = Inr (language demo_pieces)"
    using braces_expand_like_shell by blast
qed code_simp+

text \<open>
  A group without a comma keeps what is in it as it is, alternations too, and an open brace that is
  not closed keeps the groups after it; a shell expands both.
\<close>

theorem inner_group_kept:
  "expandBraces ''{x{a,b}}'' = Inr [''{x{a,b}}''] \<and> expandBraces ''{a{b,c}'' = Inr [''{a{b,c}''] \<and>
   expandBraces ''x{a,b}'' = Inr [''xa'', ''xb'']"
  by code_simp

end
