(* ===== verification/Plumb_Keyed_Store.thy ===== *)
theory Plumb_Keyed_Store
  imports Plumb_Prelude "HOL-Library.AList" "HOL-Library.Word"
begin

text \<open>
  The interface of the session's stores. Each of them keeps one record per file under an
  identity key, so that two spellings of a file meet; a store may forget (a bounded one
  evicts), but it never answers with a record of another file or an outdated one.

  A Go map is an association list with distinct keys; the order of the list stands for the
  order of an iteration over the map.
\<close>

section \<open>The contract\<close>

text \<open>The value of the last operation on \<open>q\<close>, under any of its spellings.\<close>

definition last_for :: "('p \<Rightarrow> 'p \<Rightarrow> bool) \<Rightarrow> ('p \<times> 'v) list \<Rightarrow> 'p \<Rightarrow> 'v option" where
  "last_for same ops q =
     (let hits = filter (\<lambda>(p, v). same q p) ops in if hits = [] then None else Some (snd (last hits)))"

lemma last_for_Nil [simp]: "last_for same [] q = None"
  by (simp add: last_for_def)

lemma last_for_snoc:
  "last_for same (ops @ [(p, v)]) q = (if same q p then Some v else last_for same ops q)"
  by (simp add: last_for_def Let_def)

locale lossy_store =
  fixes same :: "'p \<Rightarrow> 'p \<Rightarrow> bool"
    and find_in :: "'s \<Rightarrow> 'p \<Rightarrow> 'v option"
    and put :: "'p \<Rightarrow> 'v \<Rightarrow> 's \<Rightarrow> 's"
    and ok :: "'s \<Rightarrow> bool"
  assumes same_equiv: "equivp same"
    and ok_put: "ok s \<Longrightarrow> ok (put p v s)"
    and find_same: "ok s \<Longrightarrow> same p q \<Longrightarrow> find_in s p = find_in s q"
    and find_put: "ok s \<Longrightarrow> find_in (put p v s) p = Some v"
    and find_put_other: "ok s \<Longrightarrow> \<not> same q p \<Longrightarrow> find_in (put p v s) q \<in> {None, find_in s q}"
begin

definition put_many :: "('p \<times> 'v) list \<Rightarrow> 's \<Rightarrow> 's" where
  "put_many ops s = foldl (\<lambda>s (p, v). put p v s) s ops"

abbreviation last_put :: "('p \<times> 'v) list \<Rightarrow> 'p \<Rightarrow> 'v option" where
  "last_put \<equiv> last_for same"

lemma ok_put_many: "ok s \<Longrightarrow> ok (put_many ops s)"
  by (induction ops arbitrary: s) (auto simp: put_many_def ok_put)

lemma put_many_snoc: "put_many (ops @ [(p, v)]) s = put p v (put_many ops s)"
  by (simp add: put_many_def)

lemma last_put_snoc: "last_put (ops @ [(p, v)]) q = (if same q p then Some v else last_put ops q)"
  by (rule last_for_snoc)

lemma find_put_any:
  assumes "ok s"
  shows "find_in (put p v s) q = Some w \<Longrightarrow> (if same q p then w = v else find_in s q = Some w)"
proof (cases "same q p")
  case True
  assume "find_in (put p v s) q = Some w"
  moreover have "find_in (put p v s) q = find_in (put p v s) p"
    using find_same [OF ok_put [OF assms] True] by simp
  ultimately show ?thesis using True find_put [OF assms, of p v] by simp
next
  case False
  assume "find_in (put p v s) q = Some w"
  with False find_put_other [OF assms False, of v] show ?thesis by auto
qed

text \<open>Whatever was put before, a lookup answers with the last value put for that file, or forgets.\<close>

lemma find_put_many:
  assumes "ok s" "\<And>q. find_in s q = None" "find_in (put_many ops s) q = Some w"
  shows "last_put ops q = Some w"
  using assms(3)
proof (induction ops arbitrary: w rule: rev_induct)
  case Nil
  with assms(2) show ?case by (simp add: put_many_def)
next
  case (snoc op ops)
  obtain p v where op: "op = (p, v)" by fastforce
  with snoc.prems have "find_in (put p v (put_many ops s)) q = Some w" by (simp add: put_many_snoc)
  from find_put_any [OF ok_put_many [OF assms(1)] this] snoc.IH show ?case
    by (auto simp: op last_put_snoc split: if_splits)
qed

end

text \<open>A store that never forgets.\<close>

locale exact_store = lossy_store +
  assumes find_put_keep: "ok s \<Longrightarrow> \<not> same q p \<Longrightarrow> find_in (put p v s) q = find_in s q"
begin

lemma find_put_many_exact:
  assumes "ok s" "\<And>q. find_in s q = None"
  shows "find_in (put_many ops s) q = last_put ops q"
proof (induction ops rule: rev_induct)
  case Nil
  with assms(2) show ?case by (simp add: put_many_def)
next
  case (snoc op ops)
  obtain p v where op: "op = (p, v)" by fastforce
  note ok = ok_put_many [OF assms(1), of ops]
  show ?case
  proof (cases "same q p")
    case True
    with find_same [OF ok_put [OF ok] True] find_put [OF ok] show ?thesis
      by (simp add: op put_many_snoc last_put_snoc)
  next
    case False
    with find_put_keep [OF ok False] snoc show ?thesis
      by (simp add: op put_many_snoc last_put_snoc)
  qed
qed

end

section \<open>Association lists\<close>

lemma map_of_update [simp]: "map_of (AList.update k v m) = (map_of m)(k \<mapsto> v)"
  by (simp add: update_conv')

lemma map_of_delete_key [simp]: "map_of (AList.delete k m) = (map_of m)(k := None)"
  by (simp add: delete_conv')

lemma map_of_filter_keys:
  "distinct (map fst m) \<Longrightarrow> map_of (filter (\<lambda>(k, v). P k v) m) k =
     (case map_of m k of Some v \<Rightarrow> if P k v then Some v else None | None \<Rightarrow> None)"
  by (induction m) (auto simp: map_of_eq_None_iff split: option.splits)

lemma distinct_filter_keys: "distinct (map fst m) \<Longrightarrow> distinct (map fst (filter P m))"
  by (induction m) auto

lemma length_update:
  "length (AList.update k v m) = (if k \<in> fst ` set m then length m else Suc (length m))"
  by (induction m) auto

lemma length_delete:
  "distinct (map fst m) \<Longrightarrow> length (AList.delete k m) = (if k \<in> fst ` set m then length m - 1 else length m)"
proof (induction m)
  case (Cons x m)
  then show ?case by (cases x) (auto simp: AList.delete_eq filter_id_conv dest: length_pos_if_in_set)
qed (simp add: AList.delete_eq)

text \<open>
  The key whose measure is least, the first of them in the order of the list, as a loop
  with a strict comparison finds it.
\<close>

fun least_key :: "('v \<Rightarrow> 'm::linorder) \<Rightarrow> ('k \<times> 'v) list \<Rightarrow> ('k \<times> 'm) option \<Rightarrow> 'k option" where
  "least_key f [] best = map_option fst best"
| "least_key f ((k, v) # m) best =
     (case best of
        None \<Rightarrow> least_key f m (Some (k, f v))
      | Some (_, b) \<Rightarrow> least_key f m (if f v < b then Some (k, f v) else best))"

lemma least_key_Some:
  "least_key f m (Some (k0, b)) = Some k \<Longrightarrow>
     \<exists>c. (k = k0 \<and> c = b \<or> (\<exists>v. (k, v) \<in> set m \<and> c = f v)) \<and> c \<le> b \<and> (\<forall>(j, v) \<in> set m. c \<le> f v)"
proof (induction m arbitrary: k0 b)
  case (Cons x m)
  obtain j v where x: "x = (j, v)" by fastforce
  show ?case
  proof (cases "f v < b")
    case True
    with Cons.prems x have "least_key f m (Some (j, f v)) = Some k" by simp
    from Cons.IH [OF this] obtain c where
      "k = j \<and> c = f v \<or> (\<exists>w. (k, w) \<in> set m \<and> c = f w)" "c \<le> f v" "\<forall>(j, v) \<in> set m. c \<le> f v"
      by blast
    with True x show ?thesis by (intro exI [of _ c]) auto
  next
    case False
    with Cons.prems x have "least_key f m (Some (k0, b)) = Some k" by simp
    from Cons.IH [OF this] obtain c where
      "k = k0 \<and> c = b \<or> (\<exists>w. (k, w) \<in> set m \<and> c = f w)" "c \<le> b" "\<forall>(j, v) \<in> set m. c \<le> f v"
      by blast
    with False x show ?thesis by (intro exI [of _ c]) auto
  qed
qed simp

lemma least_key_ne: "least_key f m (Some x) \<noteq> None"
  by (induction m arbitrary: x) (auto split: prod.splits)

lemma least_key_None: "least_key f m None = None \<longleftrightarrow> m = []"
proof (cases m)
  case (Cons x m')
  obtain k v where "x = (k, v)" by fastforce
  with Cons least_key_ne [of f m' "(k, f v)"] show ?thesis by simp
qed simp

lemma least_key_least:
  assumes "least_key f m None = Some k"
  shows "\<exists>v. (k, v) \<in> set m \<and> (\<forall>(j, w) \<in> set m. f v \<le> f w)"
proof (cases m)
  case (Cons x m')
  obtain j v where x: "x = (j, v)" by fastforce
  with assms Cons have "least_key f m' (Some (j, f v)) = Some k" by simp
  from least_key_Some [OF this] obtain c where
    c: "k = j \<and> c = f v \<or> (\<exists>w. (k, w) \<in> set m' \<and> c = f w)" "c \<le> f v" "\<forall>(j, v) \<in> set m'. c \<le> f v"
    by blast
  with Cons x show ?thesis by auto
qed (use assms in simp)

end
