(* ===== verification/Plumb_Cache.thy ===== *)
theory Plumb_Cache
  imports Plumb_Keyed_Store
begin

text \<open>
  The session cache of language-server results (\<open>internal/cache/cache.go\<close>): sixteen shards,
  a time to live per entry, and a budget per shard with eviction of expired and then of the
  least recently used entries.

  A shard's map is an association list in the order an iteration visits it. Times are
  nanoseconds; the hash of a key is computed in 32-bit words. The background goroutine is its
  action \<open>evictExpired\<close>, run at any time.
\<close>

definition numShards :: nat where
  "numShards = 16"

record 'v cache_entry =
  c_value :: 'v
  c_expires :: int
  c_access :: int

type_synonym 'v shard = "(string \<times> 'v cache_entry) list"

record 'v cache =
  shards :: "'v shard list"
  maxSize :: int
  shardBudget :: int
  hits :: int
  misses :: int

definition MaxInt64 :: int where
  "MaxInt64 = 9223372036854775807"

definition hour :: int where
  "hour = 3600 * 1000000000"

fun key_hash :: "32 word \<Rightarrow> string \<Rightarrow> 32 word" where
  "key_hash h [] = h"
| "key_hash h (c # cs) = key_hash (h * 31 + of_nat (of_char c)) cs"

definition shardIndex :: "string \<Rightarrow> nat" where
  "shardIndex key = unat (key_hash 0 key mod 16)"

definition New :: "int \<Rightarrow> 'v cache" where
  "New maxSz =
     \<lparr>shards = replicate numShards [], maxSize = maxSz,
      shardBudget = (if 0 < maxSz then max 1 ((maxSz + int numShards - 1) div int numShards) else 0),
      hits = 0, misses = 0\<rparr>"

definition shard_of :: "'v cache \<Rightarrow> string \<Rightarrow> 'v shard" where
  "shard_of c k = shards c ! shardIndex k"

definition put_shard :: "string \<Rightarrow> 'v shard \<Rightarrow> 'v cache \<Rightarrow> 'v cache" where
  "put_shard k s c = c\<lparr>shards := (shards c)[shardIndex k := s]\<rparr>"

definition Get :: "string \<Rightarrow> int \<Rightarrow> 'v cache \<Rightarrow> 'v option \<times> 'v cache" where
  "Get k now c =
     (case map_of (shard_of c k) k of
        None \<Rightarrow> (None, c\<lparr>misses := misses c + 1\<rparr>)
      | Some e \<Rightarrow>
          (if c_expires e < now then (None, c\<lparr>misses := misses c + 1\<rparr>)
           else (Some (c_value e),
                 (put_shard k (AList.update k (e\<lparr>c_access := now\<rparr>) (shard_of c k)) c)\<lparr>hits := hits c + 1\<rparr>)))"

fun oldest_loop :: "string \<Rightarrow> 'v shard \<Rightarrow> string \<Rightarrow> int \<Rightarrow> string" where
  "oldest_loop skip [] k a = k"
| "oldest_loop skip ((j, e) # m) k a =
     (if j = skip then oldest_loop skip m k a
      else if c_access e < a then oldest_loop skip m j (c_access e)
      else oldest_loop skip m k a)"

definition oldestKeyLocked :: "string \<Rightarrow> 'v shard \<Rightarrow> string" where
  "oldestKeyLocked skip m = oldest_loop skip m [] MaxInt64"

definition drop_expired :: "int \<Rightarrow> 'v shard \<Rightarrow> 'v shard" where
  "drop_expired now m = filter (\<lambda>(k, e). \<not> c_expires e < now) m"

text \<open>
  The loop of step 2. The key found is in the shard unless it is empty, so a round deletes an
  entry; a round that deletes nothing would repeat for ever, which is the guard.
\<close>

function evict_loop :: "int \<Rightarrow> bool \<Rightarrow> string \<Rightarrow> 'v shard \<Rightarrow> 'v shard" where
  "evict_loop budget present key m =
     (if (\<not> present \<and> budget \<le> int (length m)) \<or> (present \<and> budget < int (length m)) then
        (let k = oldestKeyLocked key m in
         if k = [] then m
         else if length (AList.delete k m) < length m then evict_loop budget present key (AList.delete k m)
         else m)
      else m)"
  by pat_completeness auto
termination
  by (relation "measure (\<lambda>(b, p, k, m). length m)") auto

declare evict_loop.simps [simp del]

definition enforceBudgetLocked :: "int \<Rightarrow> string \<Rightarrow> int \<Rightarrow> 'v shard \<Rightarrow> 'v shard" where
  "enforceBudgetLocked budget key now m =
     (let present = key \<in> fst ` set m in
      if (\<not> present \<and> int (length m) < budget) \<or> (present \<and> int (length m) \<le> budget) then m
      else evict_loop budget present key (drop_expired now m))"

definition SetEntry :: "string \<Rightarrow> 'v \<Rightarrow> int \<Rightarrow> int \<Rightarrow> 'v cache \<Rightarrow> 'v cache" where
  "SetEntry k v ttl now c =
     (let t = (if ttl \<le> 0 then hour else ttl);
          m = (if 0 < shardBudget c then enforceBudgetLocked (shardBudget c) k now (shard_of c k)
               else shard_of c k)
      in put_shard k (AList.update k \<lparr>c_value = v, c_expires = now + t, c_access = now\<rparr> m) c)"

definition Delete :: "string \<Rightarrow> 'v cache \<Rightarrow> 'v cache" where
  "Delete k c = put_shard k (AList.delete k (shard_of c k)) c"

definition InvalidateByPath :: "string \<Rightarrow> 'v cache \<Rightarrow> nat \<times> 'v cache" where
  "InvalidateByPath uri c =
     (sum_list (map (\<lambda>m. length (filter (\<lambda>(k, e). contains k uri) m)) (shards c)),
      c\<lparr>shards := map (filter (\<lambda>(k, e). \<not> contains k uri)) (shards c)\<rparr>)"

definition Clear :: "'v cache \<Rightarrow> 'v cache" where
  "Clear c = c\<lparr>shards := map (\<lambda>_. []) (shards c)\<rparr>"

definition evictExpired :: "int \<Rightarrow> 'v cache \<Rightarrow> 'v cache" where
  "evictExpired now c = c\<lparr>shards := map (drop_expired now) (shards c)\<rparr>"

definition Stats :: "int \<Rightarrow> 'v cache \<Rightarrow> nat \<times> int \<times> int \<times> int \<times> int" where
  "Stats now c =
     (sum_list (map (\<lambda>m. length (filter (\<lambda>(k, e). now < c_expires e) m)) (shards c)),
      maxSize c, shardBudget c, hits c, misses c)"

text \<open>What the cache holds for a key, expired or not.\<close>

definition lookup :: "'v cache \<Rightarrow> string \<Rightarrow> 'v cache_entry option" where
  "lookup c k = map_of (shard_of c k) k"

end
