(* ===== verification/Plumb_Cache_Correct.thy ===== *)
theory Plumb_Cache_Correct
  imports Plumb_Cache
begin

text \<open>
  The cache as a lossy store: it may forget a result, but what it returns for a key is the
  last result stored there. Its shards stay within their budget, an eviction picks the least
  recently used entry, and an invalidated file leaves no entry behind.
\<close>

definition cache_wf :: "'v cache \<Rightarrow> bool" where
  "cache_wf c = (length (shards c) = numShards \<and> (\<forall>m \<in> set (shards c). distinct (map fst m)))"

lemma shardIndex_less: "shardIndex k < numShards"
proof -
  have "key_hash 0 k mod 16 < (16 :: 32 word)" by (rule word_mod_less_divisor) simp
  then show ?thesis by (simp add: shardIndex_def numShards_def word_less_nat_alt)
qed

lemma shard_of_wf: "cache_wf c \<Longrightarrow> distinct (map fst (shard_of c k))"
  by (auto simp: cache_wf_def shard_of_def shardIndex_less)

lemma put_shard_simps [simp]:
  "length (shards (put_shard k s c)) = length (shards c)"
  "shardBudget (put_shard k s c) = shardBudget c" "hits (put_shard k s c) = hits c"
  "misses (put_shard k s c) = misses c"
  by (simp_all add: put_shard_def)

lemma shard_of_put:
  "cache_wf c \<Longrightarrow> shard_of (put_shard k s c) j = (if shardIndex j = shardIndex k then s else shard_of c j)"
  by (simp add: cache_wf_def shard_of_def put_shard_def shardIndex_less)

lemma cache_wf_put: "cache_wf c \<Longrightarrow> distinct (map fst s) \<Longrightarrow> cache_wf (put_shard k s c)"
  by (auto simp: cache_wf_def put_shard_def dest!: set_update_subset_insert [THEN subsetD])

section \<open>Eviction\<close>

definition least_of :: "string \<Rightarrow> 'v shard \<Rightarrow> int \<Rightarrow> bool" where
  "least_of skip m a = (\<forall>(j, f) \<in> set m. j \<noteq> skip \<longrightarrow> a \<le> c_access f)"

lemma least_of_Cons:
  "least_of skip ((j, e) # m) a \<longleftrightarrow> (j \<noteq> skip \<longrightarrow> a \<le> c_access e) \<and> least_of skip m a"
  by (simp add: least_of_def)

lemma oldest_loop_cases:
  "oldest_loop skip m k0 a0 = k \<Longrightarrow>
     (k = k0 \<and> least_of skip m a0) \<or>
     (\<exists>e. (k, e) \<in> set m \<and> k \<noteq> skip \<and> c_access e < a0 \<and> least_of skip m (c_access e))"
proof (induction m arbitrary: k0 a0)
  case (Cons x m)
  obtain j e where x: "x = (j, e)" by fastforce
  show ?case
  proof (cases "j = skip \<or> \<not> c_access e < a0")
    case True
    with Cons.prems x have "oldest_loop skip m k0 a0 = k" by (auto split: if_splits)
    from Cons.IH [OF this] show ?thesis
    proof
      assume "k = k0 \<and> least_of skip m a0"
      with True x show ?thesis by (auto simp: least_of_Cons)
    next
      assume "\<exists>f. (k, f) \<in> set m \<and> k \<noteq> skip \<and> c_access f < a0 \<and> least_of skip m (c_access f)"
      then obtain f where "(k, f) \<in> set m" "k \<noteq> skip" "c_access f < a0" "least_of skip m (c_access f)"
        by blast
      moreover from this True have "least_of skip (x # m) (c_access f)" by (auto simp: x least_of_Cons)
      ultimately show ?thesis by auto
    qed
  next
    case False
    with Cons.prems x have "oldest_loop skip m j (c_access e) = k" by auto
    from Cons.IH [OF this] show ?thesis
    proof
      assume "k = j \<and> least_of skip m (c_access e)"
      with False x show ?thesis by (auto simp: least_of_Cons)
    next
      assume "\<exists>f. (k, f) \<in> set m \<and> k \<noteq> skip \<and> c_access f < c_access e \<and> least_of skip m (c_access f)"
      then obtain f where f: "(k, f) \<in> set m" "k \<noteq> skip" "c_access f < c_access e" "least_of skip m (c_access f)"
        by blast
      then have "least_of skip (x # m) (c_access f)" by (auto simp: x least_of_Cons)
      with f False show ?thesis by auto
    qed
  qed
qed (simp add: least_of_def)

lemma drop_expired_wf: "distinct (map fst m) \<Longrightarrow> distinct (map fst (drop_expired now m))"
  unfolding drop_expired_def by (rule distinct_filter_keys)

lemma evict_loop_inv:
  assumes "P m" "\<And>m k. P m \<Longrightarrow> P (AList.delete k m)"
  shows "P (evict_loop b p key m)"
  using assms(1)
proof (induction m rule: length_induct)
  case (1 m)
  have IH: "length (AList.delete (oldestKeyLocked key m) m) < length m \<Longrightarrow>
      P (evict_loop b p key (AList.delete (oldestKeyLocked key m) m))"
    using 1(1) assms(2) [OF 1(2)] by blast
  show ?case
    by (cases p) (use IH 1(2) in \<open>subst evict_loop.simps, simp add: Let_def\<close>)+
qed

lemma evict_loop_wf: "distinct (map fst m) \<Longrightarrow> distinct (map fst (evict_loop b p k m))"
  by (rule evict_loop_inv) (simp_all add: distinct_delete)

lemma evict_loop_sub: "map_of (evict_loop b p k m) j \<in> {None, map_of m j}"
  by (rule evict_loop_inv) auto

lemma enforce_wf: "distinct (map fst m) \<Longrightarrow> distinct (map fst (enforceBudgetLocked b k now m))"
  by (simp add: enforceBudgetLocked_def Let_def evict_loop_wf drop_expired_wf)

lemma enforce_sub:
  assumes "distinct (map fst m)"
  shows "map_of (enforceBudgetLocked b k now m) j \<in> {None, map_of m j}"
proof -
  have "map_of (drop_expired now m) j \<in> {None, map_of m j}"
    unfolding drop_expired_def map_of_filter_keys [OF assms] by (auto split: option.splits)
  with evict_loop_sub [of b "k \<in> fst ` set m" k "drop_expired now m" j] show ?thesis
    by (auto simp: enforceBudgetLocked_def Let_def)
qed

section \<open>The operations\<close>

definition budgeted :: "string \<Rightarrow> int \<Rightarrow> 'v cache \<Rightarrow> 'v shard" where
  "budgeted k now c =
     (if 0 < shardBudget c then enforceBudgetLocked (shardBudget c) k now (shard_of c k) else shard_of c k)"

lemma SetEntry_eq:
  "SetEntry k v ttl now c =
     put_shard k (AList.update k \<lparr>c_value = v, c_expires = now + (if ttl \<le> 0 then hour else ttl), c_access = now\<rparr>
       (budgeted k now c)) c"
  by (simp add: SetEntry_def budgeted_def Let_def)

lemma budgeted_wf: "cache_wf c \<Longrightarrow> distinct (map fst (budgeted k now c))"
  by (simp add: budgeted_def enforce_wf shard_of_wf)

lemma budgeted_sub: "cache_wf c \<Longrightarrow> map_of (budgeted k now c) j \<in> {None, map_of (shard_of c k) j}"
  using enforce_sub [OF shard_of_wf [of c k], of "shardBudget c" k now j] by (simp add: budgeted_def)

text \<open>What the cache promises of a key: its value and the time it expires.\<close>

definition holds_for :: "'v cache \<Rightarrow> string \<Rightarrow> ('v \<times> int) option" where
  "holds_for c k = map_option (\<lambda>e. (c_value e, c_expires e)) (lookup c k)"

definition put_entry :: "int \<Rightarrow> string \<Rightarrow> 'v \<times> int \<Rightarrow> 'v cache \<Rightarrow> 'v cache" where
  "put_entry now k w c =
     put_shard k (AList.update k \<lparr>c_value = fst w, c_expires = snd w, c_access = now\<rparr> (budgeted k now c)) c"

lemma SetEntry_put_entry:
  "SetEntry k v ttl now = put_entry now k (v, now + (if ttl \<le> 0 then hour else ttl))"
  by (simp add: fun_eq_iff SetEntry_eq put_entry_def)

interpretation cached: lossy_store "(=)" holds_for "put_entry now" cache_wf
  for now
proof (unfold_locales, goal_cases)
  case 1
  show ?case by (rule identity_equivp)
next
  case (2 s p v)
  then show ?case by (simp add: put_entry_def cache_wf_put distinct_update budgeted_wf)
next
  case (3 s p q)
  then show ?case by simp
next
  case (4 s p v)
  then show ?case by (simp add: holds_for_def lookup_def put_entry_def shard_of_put)
next
  case (5 s q p v)
  have "lookup (put_entry now p v s) q \<in> {None, lookup s q}"
  proof (cases "shardIndex q = shardIndex p")
    case True
    then have "shard_of s q = shard_of s p" by (simp add: shard_of_def)
    with True 5 budgeted_sub [of s p now q] show ?thesis
      by (simp add: lookup_def put_entry_def shard_of_put)
  next
    case False
    with 5 show ?thesis by (simp add: lookup_def put_entry_def shard_of_put)
  qed
  then show ?case by (auto simp: holds_for_def)
qed

lemma SetEntry_wf: "cache_wf c \<Longrightarrow> cache_wf (SetEntry k v ttl now c)"
  unfolding SetEntry_put_entry by (rule cached.ok_put)

lemma lookup_hits [simp]: "lookup (c\<lparr>hits := h\<rparr>) = lookup c" "lookup (c\<lparr>misses := h\<rparr>) = lookup c"
  by (simp_all add: lookup_def shard_of_def fun_eq_iff)

lemma cache_wf_hits [simp]: "cache_wf (c\<lparr>hits := h\<rparr>) = cache_wf c" "cache_wf (c\<lparr>misses := h\<rparr>) = cache_wf c"
  by (simp_all add: cache_wf_def)

lemma Get_wf: "cache_wf c \<Longrightarrow> cache_wf (snd (Get k now c))"
  by (auto simp: Get_def cache_wf_put distinct_update shard_of_wf split: option.splits)

lemma lookup_put:
  "cache_wf c \<Longrightarrow> lookup (put_shard k s c) j = (if shardIndex j = shardIndex k then map_of s j else lookup c j)"
  by (simp add: lookup_def shard_of_put)

lemma lookup_shard: "shardIndex j = shardIndex k \<Longrightarrow> map_of (shard_of c k) j = lookup c j"
  by (simp add: lookup_def shard_of_def)

lemma lookup_Get:
  assumes "cache_wf c"
  shows "lookup (snd (Get k now c)) j =
    (case lookup c k of
       Some e \<Rightarrow> if j = k \<and> \<not> c_expires e < now then Some (e\<lparr>c_access := now\<rparr>) else lookup c j
     | None \<Rightarrow> lookup c j)"
  unfolding Get_def lookup_shard [OF refl, of c k]
  using assms by (auto simp: lookup_put lookup_shard split: option.split)

lemma holds_for_Get: "cache_wf c \<Longrightarrow> holds_for (snd (Get k now c)) j = holds_for c j"
  by (auto simp: holds_for_def lookup_Get split: option.splits)

lemma shard_of_map:
  "cache_wf c \<Longrightarrow> shard_of (c\<lparr>shards := map f (shards c)\<rparr>) k = f (shard_of c k)"
  by (simp add: shard_of_def cache_wf_def shardIndex_less)

lemma lookup_Delete: "cache_wf c \<Longrightarrow> lookup (Delete k c) j = (if j = k then None else lookup c j)"
  by (auto simp: Delete_def lookup_put lookup_shard)

lemma lookup_filter:
  "cache_wf c \<Longrightarrow> lookup (c\<lparr>shards := map (filter (\<lambda>(k, e). P k e)) (shards c)\<rparr>) k =
     (case lookup c k of None \<Rightarrow> None | Some e \<Rightarrow> if P k e then Some e else None)"
  by (simp add: lookup_def shard_of_map map_of_filter_keys shard_of_wf split: option.split)

lemma lookup_evict:
  assumes "cache_wf c"
  shows "lookup (evictExpired now c) k =
    (case lookup c k of None \<Rightarrow> None | Some e \<Rightarrow> if c_expires e < now then None else Some e)"
proof -
  have "evictExpired now c = c\<lparr>shards := map (filter (\<lambda>(k, e). \<not> c_expires e < now)) (shards c)\<rparr>"
    by (simp add: evictExpired_def drop_expired_def [abs_def])
  with lookup_filter [OF assms, of "\<lambda>k e. \<not> c_expires e < now" k] show ?thesis
    by (auto split: option.splits)
qed

lemma lookup_Invalidate:
  "cache_wf c \<Longrightarrow> lookup (snd (InvalidateByPath uri c)) k = (if contains k uri then None else lookup c k)"
  by (simp add: InvalidateByPath_def lookup_filter split: option.split)

lemma cache_wf_map:
  "cache_wf c \<Longrightarrow> (\<And>m. distinct (map fst m) \<Longrightarrow> distinct (map fst (f m))) \<Longrightarrow>
     cache_wf (c\<lparr>shards := map f (shards c)\<rparr>)"
  by (auto simp: cache_wf_def)

section \<open>Every sequence of operations\<close>

datatype 'v cache_op =
    Op_get string int
  | Op_set string 'v int int
  | Op_delete string
  | Op_invalidate string
  | Op_clear
  | Op_evict int

fun cache_step :: "'v cache_op \<Rightarrow> 'v cache \<Rightarrow> 'v cache" where
  "cache_step (Op_get k now) c = snd (Get k now c)"
| "cache_step (Op_set k v ttl now) c = SetEntry k v ttl now c"
| "cache_step (Op_delete k) c = Delete k c"
| "cache_step (Op_invalidate uri) c = snd (InvalidateByPath uri c)"
| "cache_step Op_clear c = Clear c"
| "cache_step (Op_evict now) c = evictExpired now c"

definition cache_run :: "'v cache_op list \<Rightarrow> 'v cache \<Rightarrow> 'v cache" where
  "cache_run ops c = foldl (\<lambda>c op. cache_step op c) c ops"

text \<open>What an unlimited cache that never forgets would hold for a key.\<close>

fun ideal_step :: "string \<Rightarrow> 'v cache_op \<Rightarrow> ('v \<times> int) option \<Rightarrow> ('v \<times> int) option" where
  "ideal_step k (Op_set j v ttl now) h =
     (if j = k then Some (v, now + (if ttl \<le> 0 then hour else ttl)) else h)"
| "ideal_step k (Op_delete j) h = (if j = k then None else h)"
| "ideal_step k (Op_invalidate uri) h = (if contains k uri then None else h)"
| "ideal_step k Op_clear h = None"
| "ideal_step k (Op_get j now) h = h"
| "ideal_step k (Op_evict now) h = h"

definition ideal :: "'v cache_op list \<Rightarrow> string \<Rightarrow> ('v \<times> int) option" where
  "ideal ops k = foldl (\<lambda>h op. ideal_step k op h) None ops"

lemma cache_step_wf: "cache_wf c \<Longrightarrow> cache_wf (cache_step op c)"
  by (cases op) (simp_all add: Get_wf SetEntry_wf Delete_def cache_wf_put distinct_delete shard_of_wf
      InvalidateByPath_def Clear_def evictExpired_def cache_wf_map distinct_filter_keys drop_expired_wf)

lemma cache_step_ideal:
  assumes "cache_wf c" "holds_for c k \<in> {None, h}"
  shows "holds_for (cache_step op c) k \<in> {None, ideal_step k op h}"
proof (cases op)
  case (Op_set j v ttl now)
  from cached.find_put_any [OF assms(1), of now j "(v, now + (if ttl \<le> 0 then hour else ttl))" k]
    assms(2) show ?thesis
    by (cases "holds_for (put_entry now j (v, now + (if ttl \<le> 0 then hour else ttl)) c) k")
      (auto simp: Op_set SetEntry_put_entry split: if_splits)
next
  case (Op_invalidate uri)
  with assms show ?thesis
    by (auto simp: lookup_Invalidate holds_for_def)
next
  case (Op_evict now)
  with assms show ?thesis
    by (auto simp: lookup_evict holds_for_def split: option.splits)
next
  case Op_clear
  with assms(1) show ?thesis by (simp add: Clear_def holds_for_def lookup_def shard_of_map)
qed (use assms in \<open>auto simp: holds_for_Get holds_for_def [of "Delete _ _"] holds_for_def [of c] lookup_Delete\<close>)

lemma cache_wf_New: "cache_wf (New n)"
  by (simp add: cache_wf_def New_def)

lemma holds_for_New [simp]: "holds_for (New n) k = None"
  by (simp add: holds_for_def lookup_def shard_of_def New_def shardIndex_less)

lemma cache_run_ideal:
  "cache_wf (cache_run ops (New n)) \<and> holds_for (cache_run ops (New n)) k \<in> {None, ideal ops k}"
proof (induction ops rule: rev_induct)
  case Nil
  show ?case by (simp add: cache_run_def cache_wf_New)
next
  case (snoc op ops)
  have "cache_run (ops @ [op]) (New n) = cache_step op (cache_run ops (New n))"
    "ideal (ops @ [op]) k = ideal_step k op (ideal ops k)"
    by (simp_all add: cache_run_def ideal_def)
  with snoc cache_step_wf cache_step_ideal show ?case by metis
qed

text \<open>Whatever operations ran on a cache, in whatever order and however tight its budget, a hit
  returns the value of the last Set of that very key, with nothing since that deletes, clears or
  invalidates it, and within its time to live. Eviction, by the background cleanup or by the
  budget, can lose an entry and never bring back an old one.\<close>

theorem cache_never_stale:
  assumes "fst (Get k now (cache_run ops (New n))) = Some v"
  shows "\<exists>x. ideal ops k = Some (v, x) \<and> now \<le> x"
proof -
  from assms obtain e where e: "lookup (cache_run ops (New n)) k = Some e" "c_value e = v" "now \<le> c_expires e"
    by (auto simp: Get_def lookup_def split: option.splits if_splits)
  with cache_run_ideal [of ops n k] have "ideal ops k = Some (v, c_expires e)" by (auto simp: holds_for_def)
  with e(3) show ?thesis by blast
qed

theorem cache_never_stale_witness:
  "\<exists>x. ideal [Op_set ''A'' (1 :: nat) 10 5, Op_set ''A'' 2 10 6] ''A'' = Some (2, x) \<and> 9 \<le> x"
proof -
  have "fst (Get ''A'' 9 (cache_run [Op_set ''A'' (1 :: nat) 10 5, Op_set ''A'' 2 10 6] (New 1))) = Some 2"
    by code_simp
  then show ?thesis by (rule cache_never_stale)
qed

section \<open>The budget\<close>

definition within_budget :: "int \<Rightarrow> 'v shard \<Rightarrow> bool" where
  "within_budget b m =
     (int (length m) \<le> b \<and> (\<forall>(k, e) \<in> set m. k \<noteq> [] \<and> c_access e < MaxInt64))"

definition cache_bounded :: "'v cache \<Rightarrow> bool" where
  "cache_bounded c =
     (cache_wf c \<and> 0 < shardBudget c \<and> (\<forall>m \<in> set (shards c). within_budget (shardBudget c) m))"

lemma set_delete: "set (AList.delete k m) \<subseteq> set m"
  by (auto simp: AList.delete_eq)

lemma set_update: "set (AList.update k v m) \<subseteq> insert (k, v) (set m)"
  by (induction m) auto

lemma evict_loop_makes_room:
  assumes "\<forall>(j, e) \<in> set m. j \<noteq> [] \<and> c_access e < MaxInt64" "key \<notin> fst ` set m" "0 < b" "distinct (map fst m)"
  shows "int (length (evict_loop b False key m)) < b \<and> set (evict_loop b False key m) \<subseteq> set m"
  using assms
proof (induction m rule: length_induct)
  case (1 m)
  let ?k = "oldestKeyLocked key m"
  show ?case
  proof (cases "b \<le> int (length m)")
    case False
    then show ?thesis by (subst (1 2) evict_loop.simps) simp
  next
    case True
    with 1(4) obtain j e m' where m: "m = (j, e) # m'" by (cases m) auto
    with 1(2,3) have "j \<noteq> key" "c_access e < MaxInt64" by auto
    then have "\<not> least_of key m MaxInt64" by (simp add: m least_of_Cons)
    with oldest_loop_cases [of key m "[]" MaxInt64 ?k]
    obtain f where f: "(?k, f) \<in> set m" by (auto simp: oldestKeyLocked_def)
    with 1(2) have "?k \<noteq> []" by auto
    have less: "length (AList.delete ?k m) < length m"
    proof -
      have "?k \<in> fst ` set m" using f by force
      moreover have "m \<noteq> []" using m by simp
      ultimately show ?thesis using 1(5) by (simp add: length_delete)
    qed
    have sub: "set (AList.delete ?k m) \<subseteq> set m" by (rule set_delete)
    have rest: "\<forall>(j, e) \<in> set (AList.delete ?k m). j \<noteq> [] \<and> c_access e < MaxInt64"
        "key \<notin> fst ` set (AList.delete ?k m)" "distinct (map fst (AList.delete ?k m))"
      using 1(2,3) sub 1(5) by (blast, blast, simp add: distinct_delete)
    have "int (length (evict_loop b False key (AList.delete ?k m))) < b \<and>
        set (evict_loop b False key (AList.delete ?k m)) \<subseteq> set (AList.delete ?k m)"
      using 1(1) less rest 1(4) by blast
    moreover have "evict_loop b False key m = evict_loop b False key (AList.delete ?k m)"
      using True less \<open>?k \<noteq> []\<close> by (subst evict_loop.simps) (simp add: Let_def)
    ultimately show ?thesis using sub by auto
  qed
qed

lemma enforce_room:
  assumes "within_budget b m" "0 < b" "distinct (map fst m)" "k \<noteq> []" "c_access e < MaxInt64"
  shows "within_budget b (AList.update k e (enforceBudgetLocked b k now m))"
proof -
  let ?m = "enforceBudgetLocked b k now m"
  have sub: "set ?m \<subseteq> set m" and len: "if k \<in> fst ` set m then length ?m \<le> length m else int (length ?m) < b"
  proof -
    have "set ?m \<subseteq> set m \<and> (if k \<in> fst ` set m then length ?m \<le> length m else int (length ?m) < b)"
    proof (cases "k \<in> fst ` set m")
      case True
      with assms(1) show ?thesis by (simp add: enforceBudgetLocked_def within_budget_def)
    next
      case False
      show ?thesis
      proof (cases "int (length m) < b")
        case True
        with False show ?thesis by (simp add: enforceBudgetLocked_def)
      next
        case full: False
        have d: "set (drop_expired now m) \<subseteq> set m" by (auto simp: drop_expired_def)
        have "int (length (evict_loop b False k (drop_expired now m))) < b \<and>
            set (evict_loop b False k (drop_expired now m)) \<subseteq> set (drop_expired now m)"
        proof (rule evict_loop_makes_room)
          show "\<forall>(j, e) \<in> set (drop_expired now m). j \<noteq> [] \<and> c_access e < MaxInt64"
            using assms(1) d by (auto simp: within_budget_def)
          show "k \<notin> fst ` set (drop_expired now m)" using False d by blast
        qed (use assms(2,3) in \<open>simp_all add: drop_expired_wf\<close>)
        with False full d show ?thesis by (auto simp: enforceBudgetLocked_def)
      qed
    qed
    then show "set ?m \<subseteq> set m" "if k \<in> fst ` set m then length ?m \<le> length m else int (length ?m) < b"
      by simp_all
  qed
  have mem: "\<forall>(j, f) \<in> set (AList.update k e ?m). j \<noteq> [] \<and> c_access f < MaxInt64"
    using set_update [of k e ?m] sub assms(1,4,5) by (fastforce simp: within_budget_def)
  have "int (length (AList.update k e ?m)) \<le> b"
  proof (cases "k \<in> fst ` set m")
    case True
    with assms(1) have "?m = m" by (simp add: enforceBudgetLocked_def within_budget_def)
    with True assms(1) show ?thesis by (simp add: length_update within_budget_def)
  next
    case False
    with len show ?thesis by (simp add: length_update)
  qed
  with mem show ?thesis by (simp add: within_budget_def)
qed

lemma within_budget_shrink: "within_budget b m \<Longrightarrow> set m' \<subseteq> set m \<Longrightarrow> length m' \<le> length m \<Longrightarrow> within_budget b m'"
  by (auto simp: within_budget_def)

lemma within_budget_filter: "within_budget b m \<Longrightarrow> within_budget b (filter P m)"
  by (rule within_budget_shrink) auto

lemma within_budget_delete: "within_budget b m \<Longrightarrow> within_budget b (AList.delete k m)"
  unfolding AList.delete_eq by (rule within_budget_filter)

lemma within_budget_touch:
  "within_budget b m \<Longrightarrow> map_of m k = Some e \<Longrightarrow> now < MaxInt64 \<Longrightarrow>
     within_budget b (AList.update k (e\<lparr>c_access := now\<rparr>) m)"
  using set_update [of k "e\<lparr>c_access := now\<rparr>" m]
  by (auto 0 3 simp: within_budget_def length_update dest!: map_of_SomeD intro: rev_image_eqI)

lemma cache_bounded_put:
  "cache_bounded c \<Longrightarrow> distinct (map fst s) \<Longrightarrow> within_budget (shardBudget c) s \<Longrightarrow>
     cache_bounded (put_shard k s c)"
  unfolding cache_bounded_def
  by (auto simp: cache_wf_put) (auto simp: put_shard_def dest!: set_update_subset_insert [THEN subsetD])

lemma cache_bounded_shard: "cache_bounded c \<Longrightarrow> within_budget (shardBudget c) (shard_of c k)"
  by (auto simp: cache_bounded_def cache_wf_def shard_of_def shardIndex_less)

lemma cache_bounded_map:
  "cache_bounded c \<Longrightarrow> (\<And>m. distinct (map fst m) \<Longrightarrow> distinct (map fst (f m))) \<Longrightarrow>
     (\<And>m. within_budget (shardBudget c) m \<Longrightarrow> within_budget (shardBudget c) (f m)) \<Longrightarrow>
     cache_bounded (c\<lparr>shards := map f (shards c)\<rparr>)"
  by (auto simp: cache_bounded_def cache_wf_map)

lemma cache_bounded_hits [simp]:
  "cache_bounded (c\<lparr>hits := h\<rparr>) = cache_bounded c" "cache_bounded (c\<lparr>misses := h\<rparr>) = cache_bounded c"
  by (simp_all add: cache_bounded_def)

lemma cache_bounded_wf: "cache_bounded c \<Longrightarrow> cache_wf c"
  by (simp add: cache_bounded_def)

lemma within_budget_Nil: "within_budget b m \<Longrightarrow> within_budget b []"
  by (simp add: within_budget_def)

lemma within_budget_drop: "within_budget b m \<Longrightarrow> within_budget b (drop_expired now m)"
  unfolding drop_expired_def by (rule within_budget_filter)

text \<open>The keys a server builds are not empty, and the clock is before the year 2262.\<close>

fun timely :: "'v cache_op \<Rightarrow> bool" where
  "timely (Op_get k now) = (now < MaxInt64)"
| "timely (Op_set k v ttl now) = (k \<noteq> [] \<and> now < MaxInt64)"
| "timely _ = True"

lemma cache_bounded_step:
  assumes "cache_bounded c" "timely op"
  shows "cache_bounded (cache_step op c)"
proof (cases op)
  case (Op_get k now)
  with assms cache_bounded_shard [OF assms(1), of k] show ?thesis
    by (auto simp: Get_def intro!: cache_bounded_put within_budget_touch distinct_update shard_of_wf
        simp: cache_bounded_def [of c] split: option.split)
next
  case (Op_set k v ttl now)
  have wf: "cache_wf c" "0 < shardBudget c" using assms(1) by (simp_all add: cache_bounded_def)
  with Op_set assms cache_bounded_shard [OF assms(1), of k] show ?thesis
    by (auto simp: SetEntry_eq budgeted_def intro!: cache_bounded_put enforce_room distinct_update
        enforce_wf shard_of_wf)
qed (use assms in \<open>auto simp: Delete_def InvalidateByPath_def Clear_def evictExpired_def
      intro!: cache_bounded_put cache_bounded_map within_budget_delete within_budget_filter distinct_delete
        distinct_filter_keys cache_bounded_shard drop_expired_wf shard_of_wf cache_bounded_wf within_budget_Nil within_budget_drop\<close>)

lemma shardBudget_step [simp]: "shardBudget (cache_step op c) = shardBudget c"
  by (cases op) (simp_all add: Get_def SetEntry_eq Delete_def InvalidateByPath_def Clear_def
      evictExpired_def split: option.split)

lemma shardBudget_New: "shardBudget (New n) = (if 0 < n then max 1 ((n + 15) div 16) else 0)"
  by (simp add: New_def numShards_def add.commute)

lemma cache_bounded_New:
  assumes "0 < n"
  shows "cache_bounded (New n)"
proof -
  have "0 < shardBudget (New n)" using assms by (simp add: shardBudget_New)
  moreover have "\<forall>m \<in> set (shards (New n)). m = []" by (simp add: New_def)
  ultimately show ?thesis using cache_wf_New [of n] by (auto simp: cache_bounded_def within_budget_def)
qed

lemma cache_run_bounded:
  fixes ops :: "'v cache_op list"
  assumes "0 < n"
  shows "list_all timely ops \<Longrightarrow>
    cache_bounded (cache_run ops (New n)) \<and>
    shardBudget (cache_run ops (New n)) = shardBudget (New n :: 'v cache)"
proof (induction ops rule: rev_induct)
  case Nil
  show ?case by (simp add: cache_run_def cache_bounded_New [OF assms])
next
  case (snoc op ops)
  then have "cache_bounded (cache_run ops (New n))" "timely op"
      "shardBudget (cache_run ops (New n)) = shardBudget (New n :: 'v cache)"
    by simp_all
  moreover have "cache_run (ops @ [op]) (New n) = cache_step op (cache_run ops (New n))"
    by (simp add: cache_run_def)
  ultimately show ?case by (simp add: cache_bounded_step)
qed

lemma sum_list_bound: "(\<And>m. m \<in> set ms \<Longrightarrow> int (length m) \<le> b) \<Longrightarrow> int (sum_list (map length ms)) \<le> int (length ms) * b"
proof (induction ms)
  case (Cons m ms)
  then have "int (length m) \<le> b" "int (sum_list (map length ms)) \<le> int (length ms) * b" by simp_all
  then show ?case by (simp add: algebra_simps)
qed simp

text \<open>A bounded cache stays bounded: after any sequence of operations no shard is above its
  share of the capacity, and the whole cache holds fewer than sixteen entries more than asked.\<close>

theorem cache_within_budget:
  fixes ops :: "'v cache_op list"
  assumes "0 < n" "list_all timely ops"
  shows "(\<forall>m \<in> set (shards (cache_run ops (New n))). int (length m) \<le> shardBudget (New n :: 'v cache))
    \<and> int (sum_list (map length (shards (cache_run ops (New n :: 'v cache))))) \<le> n + 15"
proof -
  let ?c = "cache_run ops (New n :: 'v cache)"
  from cache_run_bounded [OF assms] have b: "cache_bounded ?c" "shardBudget ?c = shardBudget (New n :: 'v cache)"
    by (blast, blast)
  then have each: "\<And>m. m \<in> set (shards ?c) \<Longrightarrow> int (length m) \<le> shardBudget (New n :: 'v cache)"
    by (auto simp: cache_bounded_def within_budget_def)
  have "length (shards ?c) = 16" using b(1) by (simp add: cache_bounded_def cache_wf_def numShards_def)
  with sum_list_bound [OF each, of "shards ?c"]
  have "int (sum_list (map length (shards ?c))) \<le> 16 * shardBudget (New n :: 'v cache)" by simp
  also have "\<dots> \<le> n + 15" using assms(1) by (simp add: New_def numShards_def)
  finally show ?thesis using each by blast
qed

theorem cache_within_budget_witness:
  "let ops = [Op_set ''A'' 1 0 5, Op_set ''Q'' 2 0 6, Op_get ''A'' 7, Op_set ''a'' 3 0 8] in
     (\<forall>m \<in> set (shards (cache_run ops (New 4))). int (length m) \<le> shardBudget (New 4 :: nat cache))
     \<and> int (sum_list (map length (shards (cache_run ops (New 4 :: nat cache))))) \<le> 4 + 15"
  using cache_within_budget [of 4 "[Op_set ''A'' 1 0 5, Op_set ''Q'' 2 0 6, Op_get ''A'' 7, Op_set ''a'' 3 0 8] :: nat cache_op list"]
  by (simp add: MaxInt64_def)

section \<open>Which entry goes\<close>

lemma evict_loop_once:
  assumes "within_budget b m" "distinct (map fst m)" "key \<notin> fst ` set m" "int (length m) = b" "0 < b"
  shows "\<exists>j e. map_of m j = Some e \<and> least_of key m (c_access e) \<and>
    evict_loop b False key m = AList.delete j m"
proof -
  let ?k = "oldestKeyLocked key m"
  from assms(4,5) obtain j e m' where m: "m = (j, e) # m'" by (cases m) auto
  with assms(1,3) have "j \<noteq> key" "c_access e < MaxInt64" by (auto simp: within_budget_def)
  then have "\<not> least_of key m MaxInt64" by (simp add: m least_of_Cons)
  with oldest_loop_cases [of key m "[]" MaxInt64 ?k]
  obtain f where f: "(?k, f) \<in> set m" "least_of key m (c_access f)" by (auto simp: oldestKeyLocked_def)
  with assms(1) have "?k \<noteq> []" by (auto simp: within_budget_def)
  moreover have len: "length (AList.delete ?k m) = length m - 1"
    using f(1) assms(2) by (force simp: length_delete)
  moreover have "evict_loop b False key (AList.delete ?k m) = AList.delete ?k m"
    using len assms(4,5) by (subst evict_loop.simps) (simp add: of_nat_diff)
  ultimately have "evict_loop b False key m = AList.delete ?k m"
    using assms(4,5) by (subst evict_loop.simps) (simp add: Let_def)
  moreover have "map_of m ?k = Some f" using f(1) assms(2) by simp
  ultimately show ?thesis using f(2) by blast
qed

text \<open>A Set of a new key into a full shard with nothing expired evicts exactly one entry, one
  whose last access is the oldest of that shard, and keeps every other.\<close>

theorem set_evicts_least_recently_used:
  assumes "cache_bounded c" "k \<notin> fst ` set (shard_of c k)" "int (length (shard_of c k)) = shardBudget c"
    "\<forall>(j, e) \<in> set (shard_of c k). now \<le> c_expires e"
  shows "\<exists>j e. (j, e) \<in> set (shard_of c k)
    \<and> (\<forall>(i, f) \<in> set (shard_of c k). c_access e \<le> c_access f)
    \<and> SetEntry k v ttl now c =
        put_shard k (AList.update k \<lparr>c_value = v, c_expires = now + (if ttl \<le> 0 then hour else ttl), c_access = now\<rparr>
          (AList.delete j (shard_of c k))) c"
proof -
  let ?m = "shard_of c k"
  have b: "within_budget (shardBudget c) ?m" "distinct (map fst ?m)" "0 < shardBudget c"
    using assms(1) by (simp_all add: cache_bounded_shard shard_of_wf cache_bounded_wf) (simp add: cache_bounded_def)
  have "drop_expired now ?m = ?m" using assms(4) by (auto simp: drop_expired_def intro!: filter_True)
  then have evict: "budgeted k now c = evict_loop (shardBudget c) False k ?m"
    using assms(2,3) b(3) by (auto simp: budgeted_def enforceBudgetLocked_def)
  from evict_loop_once [OF b(1,2) assms(2,3) b(3)] obtain j e where
    j: "map_of ?m j = Some e" "least_of k ?m (c_access e)" "budgeted k now c = AList.delete j ?m"
    using evict by auto
  have "(j, e) \<in> set ?m" using j(1) by (rule map_of_SomeD)
  moreover have "\<forall>(i, f) \<in> set ?m. c_access e \<le> c_access f"
    using j(2) assms(2) by (force simp: least_of_def)
  ultimately show ?thesis using j(3) by (auto simp: SetEntry_eq)
qed

theorem set_evicts_least_recently_used_witness:
  "let c = cache_run [Op_set ''A'' 1 0 5, Op_set ''Q'' 2 0 6, Op_get ''A'' 7] (New 32 :: nat cache) in
    \<exists>j e. (j, e) \<in> set (shard_of c ''a'')
    \<and> (\<forall>(i, f) \<in> set (shard_of c ''a''). c_access e \<le> c_access f)
    \<and> SetEntry ''a'' 3 0 8 c =
        put_shard ''a'' (AList.update ''a'' \<lparr>c_value = 3, c_expires = 8 + (if (0::int) \<le> 0 then hour else 0), c_access = 8\<rparr>
          (AList.delete j (shard_of c ''a''))) c"
proof -
  let ?c = "cache_run [Op_set ''A'' 1 0 5, Op_set ''Q'' 2 0 6, Op_get ''A'' 7] (New 32 :: nat cache)"
  have "cache_bounded ?c" by (rule cache_run_bounded [THEN conjunct1]) (simp_all add: MaxInt64_def)
  moreover have "''a'' \<notin> fst ` set (shard_of ?c ''a'')" "int (length (shard_of ?c ''a'')) = shardBudget ?c"
    "\<forall>(j, e) \<in> set (shard_of ?c ''a''). 8 \<le> c_expires e"
    by code_simp+
  ultimately show ?thesis
    unfolding Let_def by (rule set_evicts_least_recently_used)
qed

section \<open>Invalidation\<close>

lemma length_filter_split: "length m = length (filter P m) + length (filter (\<lambda>x. \<not> P x) m)"
  by (induction m) auto

lemma sum_length_split:
  "sum_list (map length ms) = sum_list (map (\<lambda>m. length (filter P m)) ms) + sum_list (map (\<lambda>m. length (filter (\<lambda>x. \<not> P x) m)) ms)"
proof (induction ms)
  case (Cons m ms)
  with length_filter_split [of m P] show ?case by simp
qed simp

text \<open>Invalidating a file removes every entry whose key mentions it and no other entry, and
  returns the number of entries it removed.\<close>

theorem invalidate_exact:
  assumes "cache_wf c" "InvalidateByPath uri c = (n, c')"
  shows "lookup c' k = (if contains k uri then None else lookup c k)
    \<and> sum_list (map length (shards c)) = n + sum_list (map length (shards c'))"
proof -
  have "lookup c' k = (if contains k uri then None else lookup c k)"
    using lookup_Invalidate [OF assms(1), of uri k] assms(2) by simp
  moreover have "sum_list (map length (shards c)) = n + sum_list (map length (shards c'))"
    using assms(2) sum_length_split [of "shards c" "\<lambda>(k, e). contains k uri"]
    by (auto simp: InvalidateByPath_def comp_def case_prod_unfold)
  ultimately show ?thesis by simp
qed

theorem invalidate_exact_witness:
  "let c = cache_run [Op_set ''hover:f.go'' 1 0 5, Op_set ''hover:g.go'' 2 0 6] (New 0 :: nat cache) in
     lookup (snd (InvalidateByPath ''f.go'' c)) ''hover:f.go'' =
       (if contains ''hover:f.go'' ''f.go'' then None else lookup c ''hover:f.go'')
     \<and> sum_list (map length (shards c)) =
       1 + sum_list (map length (shards (snd (InvalidateByPath ''f.go'' c))))"
proof -
  let ?c = "cache_run [Op_set ''hover:f.go'' 1 0 5, Op_set ''hover:g.go'' 2 0 6] (New 0 :: nat cache)"
  have "cache_wf ?c" using cache_run_ideal by blast
  moreover have "fst (InvalidateByPath ''f.go'' ?c) = 1" by code_simp
  then have "InvalidateByPath ''f.go'' ?c = (1, snd (InvalidateByPath ''f.go'' ?c))"
    by (simp add: prod_eq_iff)
  ultimately show ?thesis unfolding Let_def by (rule invalidate_exact)
qed

end
