(* ===== verification/Plumb_Diagnostics.thy ===== *)
theory Plumb_Diagnostics
  imports Plumb_Cache "HOL-Library.List_Lexorder"
begin

text \<open>
  The diagnostics a language server reported (\<open>internal/cache/invalidator.go\<close>,
  \<open>invalidator_pull.go\<close>): one snapshot per document from what the server pushed, one from what
  it answered when asked, their union, the identifiers of answers, and the waiters for the next
  push. The clock is an argument. A slice of Go that is \<open>nil\<close> is the empty list.
\<close>

section \<open>Diagnostics\<close>

text \<open>A code is a text, a whole number, or anything else as Go prints it.\<close>

datatype diag_code = No_code | Code_text string | Code_number int | Code_printed string

fun codeString :: "diag_code \<Rightarrow> string" where
  "codeString No_code = []"
| "codeString (Code_text s) = s"
| "codeString (Code_number n) = (if n < 0 then CHR ''-'' # itoa (nat (- n)) else itoa (nat n))"
| "codeString (Code_printed s) = s"

type_synonym diag_place = "(32 word \<times> 32 word) \<times> 32 word \<times> 32 word"

record diagnostic =
  d_range :: diag_place
  d_severity :: int
  d_code :: diag_code
  d_source :: string
  d_message :: string

type_synonym diag_key = "diag_place \<times> int \<times> string \<times> string \<times> string"

definition keyOf :: "diagnostic \<Rightarrow> diag_key" where
  "keyOf d = (d_range d, d_severity d, codeString (d_code d), d_source d, d_message d)"

text \<open>
  \<open>mergeDedup\<close>: the index of keys and the two slices it fills are one list of entries with the
  time of the snapshot each came from.
\<close>

fun add_diag :: "diagnostic \<Rightarrow> int \<Rightarrow> (diagnostic \<times> int) list \<Rightarrow> (diagnostic \<times> int) list" where
  "add_diag d t [] = [(d, t)]"
| "add_diag d t ((e, u) # r) =
     (if keyOf e = keyOf d then (if u < t then (d, t) # r else (e, u) # r)
      else (e, u) # add_diag d t r)"

definition mergeDedup :: "diagnostic list \<Rightarrow> diagnostic list \<Rightarrow> int \<Rightarrow> int \<Rightarrow> diagnostic list" where
  "mergeDedup push pull pushAt pullAt =
     map fst (fold (\<lambda>d. add_diag d pullAt) pull (fold (\<lambda>d. add_diag d pushAt) push []))"

section \<open>The store\<close>

record 'v invalidator =
  i_cache :: "'v cache"
  diags :: "string \<Rightarrow> diagnostic list option"
  diagTimes :: "string \<Rightarrow> int option"
  pullDiags :: "string \<Rightarrow> diagnostic list option"
  pullResultIDs :: "string \<Rightarrow> string option"
  pullTimes :: "string \<Rightarrow> int option"
  pullGen :: "64 word"
  waiting :: "string \<Rightarrow> nat list"
  signalled :: "nat \<Rightarrow> bool"

text \<open>A waiter's channel is a number; \<open>signalled\<close> says whether its buffer of one is full.\<close>

definition NewInvalidator :: "'v cache \<Rightarrow> 'v invalidator" where
  "NewInvalidator c =
     \<lparr>i_cache = c, diags = Map.empty, diagTimes = Map.empty, pullDiags = Map.empty, pullResultIDs = Map.empty,
      pullTimes = Map.empty, pullGen = 0, waiting = (\<lambda>_. []), signalled = (\<lambda>_. False)\<rparr>"

definition AnyURI :: string where
  "AnyURI = []"

definition wakeSubscribers :: "string \<Rightarrow> 'v invalidator \<Rightarrow> 'v invalidator" where
  "wakeSubscribers key iv =
     iv\<lparr>signalled := (\<lambda>ch. ch \<in> set (waiting iv key) \<or> signalled iv ch), waiting := (waiting iv)(key := [])\<rparr>"

definition publish_method :: string where
  "publish_method = ''textDocument/publishDiagnostics''"

text \<open>A notification with its decoded parameters, if they decode.\<close>

definition Handle :: "string \<Rightarrow> (string \<times> diagnostic list) option \<Rightarrow> int \<Rightarrow> 'v invalidator \<Rightarrow> 'v invalidator" where
  "Handle meth params now iv =
     (if meth \<noteq> publish_method then iv
      else
        (case params of
           None \<Rightarrow> iv
         | Some (uri, ds) \<Rightarrow>
             if uri = [] then iv
             else
               let iv1 = iv\<lparr>i_cache := snd (InvalidateByPath uri (i_cache iv)),
                              diags := (diags iv)(uri \<mapsto> ds), diagTimes := (diagTimes iv)(uri \<mapsto> now)\<rparr>;
                   iv2 = wakeSubscribers uri iv1
               in if uri \<noteq> AnyURI then wakeSubscribers AnyURI iv2 else iv2))"

definition tracked :: "'v invalidator \<Rightarrow> string \<Rightarrow> bool" where
  "tracked iv uri = (diags iv uri \<noteq> None \<or> pullDiags iv uri \<noteq> None)"

text \<open>A time missing from its map is the zero time.\<close>

definition merged :: "'v invalidator \<Rightarrow> string \<Rightarrow> diagnostic list option" where
  "merged iv uri =
     (case (diags iv uri, pullDiags iv uri) of
        (None, None) \<Rightarrow> None
      | (Some push, None) \<Rightarrow> Some push
      | (None, Some pull) \<Rightarrow> Some pull
      | (Some push, Some pull) \<Rightarrow>
          Some (mergeDedup push pull (case diagTimes iv uri of Some t \<Rightarrow> t | None \<Rightarrow> 0)
            (case pullTimes iv uri of Some t \<Rightarrow> t | None \<Rightarrow> 0)))"

definition AllDiagnostics :: "'v invalidator \<Rightarrow> string \<Rightarrow> diagnostic list option" where
  "AllDiagnostics iv = (\<lambda>uri. if tracked iv uri then merged iv uri else None)"

definition AllDiagnosticTimes :: "'v invalidator \<Rightarrow> string \<Rightarrow> int option" where
  "AllDiagnosticTimes iv =
     (\<lambda>uri. case pullTimes iv uri of
        None \<Rightarrow> diagTimes iv uri
      | Some v \<Rightarrow> (case diagTimes iv uri of None \<Rightarrow> Some v | Some cur \<Rightarrow> if cur < v then Some v else Some cur))"

definition DiagnosticSources :: "'v invalidator \<Rightarrow> string \<Rightarrow> string list" where
  "DiagnosticSources iv uri =
     (if diags iv uri \<noteq> None then [''lsp-push''] else []) @ (if pullDiags iv uri \<noteq> None then [''lsp-pull''] else [])"

section \<open>Pulling\<close>

definition recordPullFull :: "string \<Rightarrow> string \<Rightarrow> diagnostic list \<Rightarrow> int \<Rightarrow> 'v invalidator \<Rightarrow> 'v invalidator" where
  "recordPullFull uri resultID ds now iv =
     iv\<lparr>pullDiags := (pullDiags iv)(uri \<mapsto> ds), pullTimes := (pullTimes iv)(uri \<mapsto> now),
         pullResultIDs := (pullResultIDs iv)(uri := if resultID \<noteq> [] then Some resultID else None)\<rparr>"

definition RecordPullFull :: "string \<Rightarrow> string \<Rightarrow> diagnostic list \<Rightarrow> int \<Rightarrow> 'v invalidator \<Rightarrow> 'v invalidator" where
  "RecordPullFull uri resultID ds now iv = (if uri = [] then iv else recordPullFull uri resultID ds now iv)"

definition recordPullUnchanged :: "string \<Rightarrow> string \<Rightarrow> int \<Rightarrow> 'v invalidator \<Rightarrow> bool \<times> 'v invalidator" where
  "recordPullUnchanged uri resultID now iv =
     (if pullResultIDs iv uri \<noteq> Some resultID then (False, iv)
      else (True, iv\<lparr>pullTimes := (pullTimes iv)(uri \<mapsto> now)\<rparr>))"

definition RecordPullUnchanged :: "string \<Rightarrow> string \<Rightarrow> int \<Rightarrow> 'v invalidator \<Rightarrow> bool \<times> 'v invalidator" where
  "RecordPullUnchanged uri resultID now iv = (if uri = [] then (False, iv) else recordPullUnchanged uri resultID now iv)"

text \<open>
  A report; those of related documents are read no deeper than one level, so each is its kind,
  identifier and items, and the map of them is a list with the URIs distinct.
\<close>

record doc_report =
  r_kind :: string
  r_resultID :: string
  r_items :: "diagnostic list"

type_synonym pull_report = "doc_report \<times> (string \<times> doc_report) list"

type_synonym 'v recording = "'v invalidator \<times> string set \<times> string set"

definition record_report :: "int \<Rightarrow> string \<times> doc_report \<Rightarrow> 'v recording \<Rightarrow> 'v recording" where
  "record_report now p r =
     (case (p, r) of ((uri, rep), (iv, applied, unresolved)) \<Rightarrow>
        if uri = [] then r
        else if r_kind rep = ''full'' then
          (recordPullFull uri (r_resultID rep) (r_items rep) now iv, insert uri applied, unresolved)
        else if r_kind rep = ''unchanged'' then
          (case recordPullUnchanged uri (r_resultID rep) now iv of
             (True, iv') \<Rightarrow> (iv', insert uri applied, unresolved)
           | (False, iv') \<Rightarrow> (iv', applied, insert uri unresolved))
        else (iv, applied, insert uri unresolved))"

definition sortedPullURIs :: "string set \<Rightarrow> string list" where
  "sortedPullURIs us = sorted_list_of_set us"

definition droppedReportURIs :: "string \<Rightarrow> pull_report \<Rightarrow> string list" where
  "droppedReportURIs uri report = sortedPullURIs (set (filter (\<lambda>u. u \<noteq> []) (uri # map fst (snd report))))"

definition recordPullResult ::
  "string \<Rightarrow> pull_report \<Rightarrow> 64 word option \<Rightarrow> int \<Rightarrow> 'v invalidator \<Rightarrow> 'v invalidator \<times> string list \<times> string list" where
  "recordPullResult uri report gen now iv =
     (if gen \<noteq> None \<and> gen \<noteq> Some (pullGen iv) then (iv, [], droppedReportURIs uri report)
      else
        (case fold (record_report now) ((uri, fst report) # sort_key fst (snd report)) (iv, {}, {}) of
           (iv', applied, unresolved) \<Rightarrow> (iv', sortedPullURIs (applied - unresolved), sortedPullURIs unresolved)))"

definition RecordPullResult where
  "RecordPullResult uri report now iv = recordPullResult uri report None now iv"

definition RecordPullResultAt where
  "RecordPullResultAt uri report gen now iv = recordPullResult uri report (Some gen) now iv"

definition ClearPullState :: "'v invalidator \<Rightarrow> 'v invalidator" where
  "ClearPullState iv =
     iv\<lparr>pullDiags := Map.empty, pullResultIDs := Map.empty, pullTimes := Map.empty, pullGen := pullGen iv + 1\<rparr>"

section \<open>Waiters\<close>

text \<open>
  The three ways to wait share one shape: under the lock take a channel into the list of a URI
  (\<open>AnyURI\<close> for a push of any file), wait for it or for the context, read, and leave the list.
  A waiter that is parked keeps how many pushes its URI had when it registered.
\<close>

datatype wait_kind = Until_tracked | Next_push | Any_push

datatype wait_result = Served "diagnostic list option" | Expired "diagnostic list option" | No_uri

datatype waiter =
    Away
  | Parked wait_kind string nat nat
  | Unsubscribing string nat wait_result
  | Done wait_result

record 'v diag_world =
  w_store :: "'v invalidator"
  w_pc :: "nat \<Rightarrow> waiter"
  w_done :: "nat \<Rightarrow> bool"
  w_chan :: nat
  w_pushes :: "string \<Rightarrow> nat"

definition subscribe :: "string \<Rightarrow> nat \<Rightarrow> 'v invalidator \<Rightarrow> 'v invalidator" where
  "subscribe uri ch iv = iv\<lparr>waiting := (waiting iv)(uri := waiting iv uri @ [ch])\<rparr>"

definition unsubscribe :: "string \<Rightarrow> nat \<Rightarrow> 'v invalidator \<Rightarrow> 'v invalidator" where
  "unsubscribe uri ch iv = iv\<lparr>waiting := (waiting iv)(uri := remove1 ch (waiting iv uri))\<rparr>"

definition park :: "nat \<Rightarrow> wait_kind \<Rightarrow> string \<Rightarrow> 'v diag_world \<Rightarrow> 'v diag_world" where
  "park t k uri w =
     w\<lparr>w_store := subscribe uri (w_chan w) (w_store w),
       w_pc := (w_pc w)(t := Parked k uri (w_chan w) (w_pushes w uri)), w_chan := Suc (w_chan w)\<rparr>"

definition count_push :: "string \<Rightarrow> (string \<times> diagnostic list) option \<Rightarrow> (string \<Rightarrow> nat) \<Rightarrow> string \<Rightarrow> nat" where
  "count_push meth params n =
     (case params of
        Some (uri, ds) \<Rightarrow>
          if meth = publish_method \<and> uri \<noteq> [] then n(uri := Suc (n uri), AnyURI := Suc (n AnyURI)) else n
      | None \<Rightarrow> n)"

datatype diag_action =
    Push string "(string \<times> diagnostic list) option" int
  | Pull string pull_report "64 word option" int
  | Clear_pulls
  | Wait nat wait_kind string
  | Cancel_wait nat
  | Wake nat
  | Expire nat
  | Leave nat

fun diag_step :: "diag_action \<Rightarrow> 'v diag_world \<Rightarrow> 'v diag_world option" where
  "diag_step (Push meth params now) w =
     Some (w\<lparr>w_store := Handle meth params now (w_store w), w_pushes := count_push meth params (w_pushes w)\<rparr>)"
| "diag_step (Pull uri report gen now) w =
     Some (w\<lparr>w_store := fst (recordPullResult uri report gen now (w_store w))\<rparr>)"
| "diag_step Clear_pulls w = Some (w\<lparr>w_store := ClearPullState (w_store w)\<rparr>)"
| "diag_step (Wait t k uri) w =
     (if w_pc w t \<noteq> Away then None
      else
        (case k of
           Until_tracked \<Rightarrow>
             Some (if tracked (w_store w) uri
                   then w\<lparr>w_pc := (w_pc w)(t := Done (Served (merged (w_store w) uri)))\<rparr>
                   else park t k uri w)
         | Next_push \<Rightarrow>
             Some (if uri = AnyURI then w\<lparr>w_pc := (w_pc w)(t := Done No_uri)\<rparr> else park t k uri w)
         | Any_push \<Rightarrow> Some (park t k AnyURI w)))"
| "diag_step (Cancel_wait t) w = Some (w\<lparr>w_done := (w_done w)(t := True)\<rparr>)"
| "diag_step (Wake t) w =
     (case w_pc w t of
        Parked k uri ch n \<Rightarrow>
          if signalled (w_store w) ch then
            Some (w\<lparr>w_store := (w_store w)\<lparr>signalled := (signalled (w_store w))(ch := False)\<rparr>,
                    w_pc := (w_pc w)(t := Unsubscribing uri ch
                      (Served (if k = Any_push then None else merged (w_store w) uri)))\<rparr>)
          else None
      | _ \<Rightarrow> None)"
| "diag_step (Expire t) w =
     (case w_pc w t of
        Parked k uri ch n \<Rightarrow>
          if w_done w t then
            Some (w\<lparr>w_pc := (w_pc w)(t := Unsubscribing uri ch
                      (Expired (if k = Next_push then merged (w_store w) uri else None)))\<rparr>)
          else None
      | _ \<Rightarrow> None)"
| "diag_step (Leave t) w =
     (case w_pc w t of
        Unsubscribing uri ch r \<Rightarrow>
          Some (w\<lparr>w_store := unsubscribe uri ch (w_store w), w_pc := (w_pc w)(t := Done r)\<rparr>)
      | _ \<Rightarrow> None)"

definition diag_start :: "'v cache \<Rightarrow> 'v diag_world" where
  "diag_start c =
     \<lparr>w_store = NewInvalidator c, w_pc = (\<lambda>_. Away), w_done = (\<lambda>_. False), w_chan = 0, w_pushes = (\<lambda>_. 0)\<rparr>"

inductive diag_reach :: "'v diag_world \<Rightarrow> bool" where
  start: "diag_reach (diag_start c)"
| act: "diag_reach w \<Longrightarrow> diag_step a w = Some w' \<Longrightarrow> diag_reach w'"

fun diag_run :: "diag_action list \<Rightarrow> 'v diag_world \<Rightarrow> 'v diag_world option" where
  "diag_run [] w = Some w"
| "diag_run (a # as) w = (case diag_step a w of None \<Rightarrow> None | Some w' \<Rightarrow> diag_run as w')"

end
