(* ===== verification/Plumb_Diagnostics_Claims.thy ===== *)
theory Plumb_Diagnostics_Claims
  imports Plumb_Diagnostics
begin

text \<open>
  The union of the two snapshots against a reference, what a pull report leaves, answers to
  requests older than a restart of the server, and the waiters.
\<close>

section \<open>The union\<close>

abbreviation keys_of :: "(diagnostic \<times> int) list \<Rightarrow> diag_key list" where
  "keys_of r \<equiv> map (\<lambda>e. keyOf (fst e)) r"

lemma keys_add_diag: "keys_of (add_diag d t r) = keys_of r @ (if keyOf d \<in> set (keys_of r) then [] else [keyOf d])"
proof (induction r)
  case (Cons x r)
  then show ?case by (cases x) auto
qed simp

text \<open>The keys of a list in the order in which they first occur.\<close>

definition firsts :: "'a list \<Rightarrow> 'a list" where
  "firsts xs = rev (remdups (rev xs))"

lemma firsts_snoc: "firsts (xs @ [x]) = firsts xs @ (if x \<in> set xs then [] else [x])"
  by (auto simp: firsts_def)

lemma firsts_simps [simp]: "firsts [] = []" "set (firsts xs) = set xs" "distinct (firsts xs)"
  by (simp_all add: firsts_def)

lemma keys_fold_add:
  "keys_of r = firsts ks \<Longrightarrow> keys_of (fold (\<lambda>d. add_diag d t) ds r) = firsts (ks @ map keyOf ds)"
proof (induction ds arbitrary: r ks)
  case (Cons d ds)
  have "keys_of (add_diag d t r) = firsts (ks @ [keyOf d])"
    unfolding keys_add_diag Cons.prems firsts_snoc by simp
  from Cons.IH [OF this] show ?case by simp
qed simp

text \<open>The entry kept for a key: the first of the pulled ones if they are newer, else of all.\<close>

definition kept :: "diagnostic list \<Rightarrow> diagnostic list \<Rightarrow> int \<Rightarrow> int \<Rightarrow> diag_key \<Rightarrow> diagnostic option" where
  "kept push pull pushAt pullAt k =
     (if pushAt < pullAt then
        (case find (\<lambda>d. keyOf d = k) pull of Some d \<Rightarrow> Some d | None \<Rightarrow> find (\<lambda>d. keyOf d = k) push)
      else find (\<lambda>d. keyOf d = k) (push @ pull))"

definition entry_of :: "diag_key \<Rightarrow> (diagnostic \<times> int) list \<Rightarrow> (diagnostic \<times> int) option" where
  "entry_of k r = find (\<lambda>e. keyOf (fst e) = k) r"

lemma entry_of_Nil [simp]: "entry_of k [] = None"
  by (simp add: entry_of_def)

lemma entry_of_add:
  "entry_of k (add_diag d t r) =
     (if keyOf d = k then (case entry_of k r of None \<Rightarrow> Some (d, t) | Some (e, u) \<Rightarrow> if u < t then Some (d, t) else Some (e, u))
      else entry_of k r)"
  by (induction r) (auto simp: entry_of_def split: option.splits)

lemma entry_of_fold_same:
  "(case entry_of k r of Some (e, u) \<Rightarrow> \<not> u < t | None \<Rightarrow> False) \<Longrightarrow>
     entry_of k (fold (\<lambda>d. add_diag d t) ds r) = entry_of k r"
proof (induction ds arbitrary: r)
  case (Cons d ds)
  have "entry_of k (add_diag d t r) = entry_of k r"
    using Cons.prems by (auto simp: entry_of_add split: option.splits)
  then show ?case using Cons.IH [of "add_diag d t r"] Cons.prems by simp
qed simp

lemma entry_of_fold:
  "entry_of k (fold (\<lambda>d. add_diag d t) ds r) =
     (case entry_of k r of
        None \<Rightarrow> map_option (\<lambda>d. (d, t)) (find (\<lambda>d. keyOf d = k) ds)
      | Some (e, u) \<Rightarrow>
          if u < t then (case find (\<lambda>d. keyOf d = k) ds of Some d \<Rightarrow> Some (d, t) | None \<Rightarrow> Some (e, u)) else Some (e, u))"
proof (induction ds arbitrary: r)
  case (Cons d ds)
  show ?case
  proof (cases "keyOf d = k \<and> (case entry_of k r of Some (e, u) \<Rightarrow> u < t | None \<Rightarrow> True)")
    case True
    then have "entry_of k (add_diag d t r) = Some (d, t)" by (auto simp: entry_of_add split: option.splits)
    then show ?thesis
      using entry_of_fold_same [where k = k and r = "add_diag d t r" and t = t and ds = ds] True by (auto split: option.splits)
  next
    case False
    then have "entry_of k (add_diag d t r) = entry_of k r" by (auto simp: entry_of_add split: option.splits)
    then show ?thesis using Cons.IH [of "add_diag d t r"] False by (auto split: option.splits)
  qed
qed (simp split: option.splits)

lemma find_append_cases: "find P (xs @ ys) = (case find P xs of None \<Rightarrow> find P ys | Some x \<Rightarrow> Some x)"
  by (induction xs) auto

lemma entry_of_member: "distinct (keys_of r) \<Longrightarrow> e \<in> set r \<Longrightarrow> entry_of (keyOf (fst e)) r = Some e"
  by (induction r) (auto simp: entry_of_def)

text \<open>
  C32. The view of a document that was both pushed and pulled is the union of the two: its keys are
  those of the push and then those only the pull has, each once, and each is shown by the entry
  of the snapshot written later, the first there with that key.
\<close>

theorem diagnostics_union:
  assumes "diags iv uri = Some push" "pullDiags iv uri = Some pull" "diagTimes iv uri = Some t" "pullTimes iv uri = Some u"
  shows "\<exists>ds. merged iv uri = Some ds \<and> map keyOf ds = firsts (map keyOf push @ map keyOf pull) \<and>
    (\<forall>d \<in> set ds. kept push pull t u (keyOf d) = Some d)"
proof -
  let ?p = "fold (\<lambda>d. add_diag d t) push []"
  let ?r = "fold (\<lambda>d. add_diag d u) pull ?p"
  have keys: "keys_of ?r = firsts (map keyOf push @ map keyOf pull)"
    using keys_fold_add [of ?p "map keyOf push" u pull] keys_fold_add [of "[]" "[]" t push] by simp
  have entry: "map_option fst (entry_of k ?r) = kept push pull t u k" for k
    by (auto simp: entry_of_fold kept_def find_append_cases split: option.splits)
  have "kept push pull t u (keyOf (fst e)) = Some (fst e)" if e: "e \<in> set ?r" for e
    using entry [of "keyOf (fst e)"] entry_of_member [OF _ e] by (simp add: keys)
  moreover have "merged iv uri = Some (map fst ?r)" using assms by (simp add: merged_def mergeDedup_def)
  ultimately show ?thesis using keys by (auto simp: comp_def)
qed

section \<open>Pull reports\<close>

text \<open>Where the entries of a report stand that were recorded, one after the other.\<close>

definition covers :: "(string \<times> doc_report) list \<Rightarrow> string set" where
  "covers ps = fst ` set ps - {[]}"

definition accounted :: "(string \<times> doc_report) list \<Rightarrow> 'v recording \<Rightarrow> bool" where
  "accounted ps r =
     (case r of (iv, applied, unresolved) \<Rightarrow>
        applied \<union> unresolved = covers ps \<and> finite applied \<and> finite unresolved)"

lemma accounted_snoc:
  "accounted ps r \<Longrightarrow> accounted (ps @ [p]) (record_report now p r)"
  by (auto simp: accounted_def covers_def record_report_def recordPullUnchanged_def split: prod.splits if_splits)

lemma accounted_fold:
  "accounted ps r \<Longrightarrow> accounted (ps @ qs) (fold (record_report now) qs r)"
proof (induction qs arbitrary: ps r)
  case (Cons q qs)
  from Cons.IH [OF accounted_snoc [OF Cons.prems], of q now] show ?case by simp
qed simp

lemma other_uri_kept:
  "u \<notin> fst ` set ps \<Longrightarrow> fold (record_report now) ps r = (iv', a', n') \<Longrightarrow>
     pullDiags iv' u = pullDiags (fst r) u \<and> pullResultIDs iv' u = pullResultIDs (fst r) u \<and> (u \<in> n' \<longleftrightarrow> u \<in> snd (snd r))"
proof (induction ps arbitrary: r)
  case (Cons p ps)
  have "pullDiags (fst (record_report now p r)) u = pullDiags (fst r) u \<and>
      pullResultIDs (fst (record_report now p r)) u = pullResultIDs (fst r) u \<and>
      (u \<in> snd (snd (record_report now p r)) \<longleftrightarrow> u \<in> snd (snd r))"
    using Cons.prems by (auto simp: record_report_def recordPullFull_def recordPullUnchanged_def split: prod.splits if_splits)
  then show ?case using Cons by simp
qed simp

lemma set_dropped: "set (droppedReportURIs uri (rep, related)) = covers ((uri, rep) # related)"
proof -
  have "finite (set (filter (\<lambda>u. u \<noteq> []) (uri # map fst related)))" by (rule finite_set)
  then have "set (droppedReportURIs uri (rep, related)) = set (filter (\<lambda>u. u \<noteq> []) (uri # map fst related))"
    by (simp only: droppedReportURIs_def sortedPullURIs_def snd_conv set_sorted_list_of_set)
  then show ?thesis by (auto simp: covers_def)
qed

text \<open>What recording leaves of one URI that is named once.\<close>

definition entry_recorded :: "'v invalidator \<Rightarrow> 'v invalidator \<Rightarrow> bool \<Rightarrow> string \<Rightarrow> doc_report \<Rightarrow> bool" where
  "entry_recorded iv iv' applied u r =
     (if applied then
        pullDiags iv' u = (if r_kind r = ''full'' then Some (r_items r) else pullDiags iv u) \<and>
        (r_kind r \<noteq> ''full'' \<longrightarrow> r_kind r = ''unchanged'' \<and> pullResultIDs iv u = Some (r_resultID r))
      else pullDiags iv' u = pullDiags iv u \<and> pullResultIDs iv' u = pullResultIDs iv u)"

lemma entry_recorded_once:
  assumes "fold (record_report now) ps (iv, {}, {}) = (iv', a, n)" "a \<union> n = covers ps"
    and "distinct (map fst ps)" "(u, r) \<in> set ps"
  shows "entry_recorded iv iv' (u \<in> a - n) u r"
proof -
  obtain bs cs where ps: "ps = bs @ (u, r) # cs" using assms(4) by (meson split_list)
  have u: "u \<notin> fst ` set bs" "u \<notin> fst ` set cs" using assms(3) by (simp_all add: ps)
  obtain iv1 a1 n1 where b: "fold (record_report now) bs (iv, {}, {}) = (iv1, a1, n1)" by (metis prod_cases3)
  obtain iv2 a2 n2 where r: "record_report now (u, r) (iv1, a1, n1) = (iv2, a2, n2)" by (metis prod_cases3)
  have c: "fold (record_report now) cs (iv2, a2, n2) = (iv', a, n)" using assms(1) by (simp add: ps b r)
  have B: "pullDiags iv1 u = pullDiags iv u" "pullResultIDs iv1 u = pullResultIDs iv u" "u \<notin> n1"
    using other_uri_kept [OF u(1) b] by simp_all
  have C: "pullDiags iv' u = pullDiags iv2 u" "pullResultIDs iv' u = pullResultIDs iv2 u" "u \<in> n \<longleftrightarrow> u \<in> n2"
    using other_uri_kept [OF u(2) c] by simp_all
  have "u \<in> a - n \<longrightarrow> u \<noteq> []" "u \<noteq> [] \<longrightarrow> u \<in> a \<union> n"
    using assms(2,4) by (force simp: covers_def)+
  then show ?thesis
    using r B C
    by (auto simp: entry_recorded_def record_report_def recordPullFull_def recordPullUnchanged_def split: if_splits)
qed

text \<open>
  No file of a pull report goes unaccounted: every URI it covers, and no other, is returned as
  applied or as unresolved and not as both. Of a report that names each URI once, a full entry
  that is applied replaces the snapshot, an unchanged one is applied only under the identifier
  that is stored, and an entry that is not applied leaves snapshot and identifier as they were.
\<close>

theorem pull_report_accounted:
  assumes "recordPullResult uri (rep, related) gen now iv = (iv', applied, unresolved)"
    and "distinct (uri # map fst related)"
  shows "set applied \<union> set unresolved = covers ((uri, rep) # related) \<and> set applied \<inter> set unresolved = {} \<and>
    (\<forall>(u, r) \<in> set ((uri, rep) # related). entry_recorded iv iv' (u \<in> set applied) u r)"
proof (cases "gen \<noteq> None \<and> gen \<noteq> Some (pullGen iv)")
  case True
  then have "iv' = iv" "applied = []" "unresolved = droppedReportURIs uri (rep, related)"
    using assms(1) by (auto simp: recordPullResult_def)
  then show ?thesis by (simp only: set_dropped) (auto simp: entry_recorded_def)
next
  case False
  let ?ps = "(uri, rep) # sort_key fst related"
  obtain a n where run: "fold (record_report now) ?ps (iv, {}, {}) = (iv', a, n)"
      "applied = sortedPullURIs (a - n)" "unresolved = sortedPullURIs n"
    using assms(1) False by (auto simp: recordPullResult_def split: prod.splits)
  have cov: "a \<union> n = covers ?ps" "finite a" "finite n"
    using accounted_fold [of "[]" "(iv, {}, {})" ?ps now] run(1) by (auto simp: accounted_def covers_def)
  have sets: "set applied = a - n" "set unresolved = n" using run cov by (simp_all add: sortedPullURIs_def)
  have "distinct (map fst ?ps)" using assms(2) by (simp add: distinct_map)
  from entry_recorded_once [OF run(1) cov(1) this] show ?thesis
    using sets cov(1) by (auto simp: covers_def)
qed

section \<open>Generations\<close>

text \<open>What the store goes through after a pull was sent.\<close>

datatype store_op =
    Op_handle string "(string \<times> diagnostic list) option" int
  | Op_pull string pull_report "64 word option" int
  | Op_full string string "diagnostic list" int
  | Op_unchanged string string int
  | Op_clear

fun store_op_run :: "store_op \<Rightarrow> 'v invalidator \<Rightarrow> 'v invalidator" where
  "store_op_run (Op_handle meth ps now) iv = Handle meth ps now iv"
| "store_op_run (Op_pull uri rep gen now) iv = fst (recordPullResult uri rep gen now iv)"
| "store_op_run (Op_full uri i ds now) iv = RecordPullFull uri i ds now iv"
| "store_op_run (Op_unchanged uri i now) iv = snd (RecordPullUnchanged uri i now iv)"
| "store_op_run Op_clear iv = ClearPullState iv"

definition clears :: "store_op list \<Rightarrow> nat" where
  "clears ops = length (filter (\<lambda>op. op = Op_clear) ops)"

lemma record_report_gen: "pullGen (fst (fold (record_report now) ps r)) = pullGen (fst r)"
proof (induction ps arbitrary: r)
  case (Cons p ps)
  have "pullGen (fst (record_report now p r)) = pullGen (fst r)"
    by (auto simp: record_report_def recordPullFull_def recordPullUnchanged_def split: prod.splits if_splits)
  then show ?case using Cons by simp
qed simp

lemma recordPullResult_gen: "pullGen (fst (recordPullResult uri rep gen now iv)) = pullGen iv"
  using record_report_gen [of now "(uri, fst rep) # sort_key fst (snd rep)" "(iv, {}, {})"]
  by (auto simp: recordPullResult_def split: prod.splits)

lemma store_op_gen: "pullGen (store_op_run op iv) = (if op = Op_clear then pullGen iv + 1 else pullGen iv)"
  by (cases op)
    (auto simp: Handle_def wakeSubscribers_def Let_def recordPullResult_gen RecordPullFull_def recordPullFull_def
      RecordPullUnchanged_def recordPullUnchanged_def ClearPullState_def split: option.splits)

lemma store_ops_gen: "pullGen (fold store_op_run ops iv) = pullGen iv + of_nat (clears ops)"
  by (induction ops arbitrary: iv) (auto simp: clears_def store_op_gen algebra_simps)

text \<open>
  The snapshot of a file after a report of it, its identifier and its time, and whether it
  counts as applied: a full report replaces all three, an unchanged one renews the time if it
  names the identifier that is stored, and anything else leaves them.
\<close>

definition recorded_entry ::
  "int \<Rightarrow> 'v invalidator \<Rightarrow> string \<Rightarrow> doc_report \<Rightarrow> diagnostic list option \<times> string option \<times> int option \<times> bool" where
  "recorded_entry now iv u r =
     (if r_kind r = ''full'' then
        (Some (r_items r), (if r_resultID r = [] then None else Some (r_resultID r)), Some now, True)
      else if r_kind r = ''unchanged'' \<and> pullResultIDs iv u = Some (r_resultID r) then
        (pullDiags iv u, pullResultIDs iv u, Some now, True)
      else (pullDiags iv u, pullResultIDs iv u, pullTimes iv u, False))"

definition entry_now :: "'v recording \<Rightarrow> string \<Rightarrow> diagnostic list option \<times> string option \<times> int option \<times> bool \<times> bool" where
  "entry_now r u = (case r of (iv, a, n) \<Rightarrow> (pullDiags iv u, pullResultIDs iv u, pullTimes iv u, u \<in> a, u \<in> n))"

lemma entry_now_other: "u \<notin> fst ` set ps \<Longrightarrow> entry_now (fold (record_report now) ps r) u = entry_now r u"
proof (induction ps arbitrary: r)
  case (Cons p ps)
  have "entry_now (record_report now p r) u = entry_now r u"
    using Cons.prems
    by (auto simp: entry_now_def record_report_def recordPullFull_def recordPullUnchanged_def split: prod.splits if_splits)
  then show ?case using Cons by simp
qed simp

lemma entry_now_empty: "entry_now (fold (record_report now) ps r) [] = entry_now r []"
proof (induction ps arbitrary: r)
  case (Cons p ps)
  have "entry_now (record_report now p r) [] = entry_now r []"
    by (auto simp: entry_now_def record_report_def recordPullFull_def recordPullUnchanged_def split: prod.splits if_splits)
  then show ?case using Cons by simp
qed simp

lemma entry_now_this:
  assumes "entry_now r u = (pullDiags iv u, pullResultIDs iv u, pullTimes iv u, False, False)" "u \<noteq> []"
  shows "entry_now (record_report now (u, d) r) u =
    (case recorded_entry now iv u d of (ds, i, t, ok) \<Rightarrow> (ds, i, t, ok, \<not> ok))"
  using assms
  by (cases r) (auto simp: entry_now_def recorded_entry_def record_report_def recordPullFull_def recordPullUnchanged_def
      split: prod.splits if_splits)

lemma entry_now_fold:
  assumes "distinct (map fst ps)" "(u, d) \<in> set ps" "u \<noteq> []"
  shows "entry_now (fold (record_report now) ps (iv, {}, {})) u =
    (case recorded_entry now iv u d of (ds, i, t, ok) \<Rightarrow> (ds, i, t, ok, \<not> ok))"
proof -
  obtain bs cs where ps: "ps = bs @ (u, d) # cs" using assms(2) by (meson split_list)
  have u: "u \<notin> fst ` set bs" "u \<notin> fst ` set cs" using assms(1) by (simp_all add: ps)
  have "entry_now (fold (record_report now) bs (iv, {}, {})) u = (pullDiags iv u, pullResultIDs iv u, pullTimes iv u, False, False)"
    by (simp add: entry_now_other [OF u(1)]) (simp add: entry_now_def)
  from entry_now_this [OF this assms(3)] show ?thesis by (simp add: ps entry_now_other [OF u(2)])
qed

text \<open>
  C31. An answer from before a restart is dropped: a pull that captured the generation when it was
  sent and comes back after the state was cleared, whatever else happened and fewer than
  2^64 times, changes nothing, applies nothing and returns as unresolved, sorted, every file it
  covers, the one asked for and all related ones, and no other. One that was not overtaken by a
  clearing is recorded, file by file: a full report replaces the snapshot, its identifier and its
  time, an unchanged one under the stored identifier renews the time, both are returned as
  applied; anything else leaves the file as it was and is returned as unresolved; and a file the
  report does not name is as before.
\<close>

theorem stale_pull_dropped:
  assumes "clears ops < 2 ^ 64" "iv' = fold store_op_run ops iv" "distinct (uri # map fst related)"
    and "RecordPullResultAt uri (rep, related) (pullGen iv) now iv' = (iv2, applied, unresolved)"
  shows "if clears ops \<noteq> 0 then
      iv2 = iv' \<and> applied = [] \<and> sorted unresolved \<and> distinct unresolved \<and>
      set unresolved = insert uri (fst ` set related) - {[]}
    else
      (\<forall>(u, r) \<in> set ((uri, rep) # related). u \<noteq> [] \<longrightarrow>
         (pullDiags iv2 u, pullResultIDs iv2 u, pullTimes iv2 u, u \<in> set applied) = recorded_entry now iv' u r \<and>
         (u \<in> set unresolved \<longleftrightarrow> u \<notin> set applied)) \<and>
      (\<forall>u. u = [] \<or> u \<notin> insert uri (fst ` set related) \<longrightarrow>
         u \<notin> set applied \<and> u \<notin> set unresolved \<and> pullDiags iv2 u = pullDiags iv' u \<and>
         pullResultIDs iv2 u = pullResultIDs iv' u \<and> pullTimes iv2 u = pullTimes iv' u)"
proof -
  have "of_nat (clears ops) = (0 :: 64 word) \<longleftrightarrow> clears ops = 0"
    using assms(1) by (simp add: word_of_nat_eq_0_iff nat_dvd_not_less) (metis dvd_0_right nat_dvd_not_less gr0I)
  then have gen: "pullGen iv = pullGen iv' \<longleftrightarrow> clears ops = 0" by (simp add: assms(2) store_ops_gen)
  show ?thesis
  proof (cases "clears ops = 0")
    case False
    then have "iv2 = iv'" "applied = []" "unresolved = droppedReportURIs uri (rep, related)"
      using assms(4) gen by (auto simp: RecordPullResultAt_def recordPullResult_def)
    moreover have "sorted (droppedReportURIs uri (rep, related))" "distinct (droppedReportURIs uri (rep, related))"
      unfolding droppedReportURIs_def sortedPullURIs_def by (rule sorted_sorted_list_of_set distinct_sorted_list_of_set)+
    ultimately show ?thesis using False by (simp add: set_dropped covers_def)
  next
    case True
    let ?ps = "(uri, rep) # sort_key fst related"
    obtain a n where run: "fold (record_report now) ?ps (iv', {}, {}) = (iv2, a, n)"
        "applied = sortedPullURIs (a - n)" "unresolved = sortedPullURIs n"
      using assms(4) gen True by (auto simp: RecordPullResultAt_def recordPullResult_def split: prod.splits)
    have cov: "a \<union> n = covers ?ps" "finite a" "finite n"
      using accounted_fold [of "[]" "(iv', {}, {})" ?ps now] run(1) by (auto simp: accounted_def covers_def)
    have sets: "set applied = a - n" "set unresolved = n" using run cov by (simp_all add: sortedPullURIs_def)
    have d: "distinct (map fst ?ps)" using assms(3) by (simp add: distinct_map)
    have each: "(pullDiags iv2 u, pullResultIDs iv2 u, pullTimes iv2 u, u \<in> set applied) = recorded_entry now iv' u r \<and>
        (u \<in> set unresolved \<longleftrightarrow> u \<notin> set applied)" if "(u, r) \<in> set ((uri, rep) # related)" "u \<noteq> []" for u r
    proof -
      have "(u, r) \<in> set ?ps" using that(1) by simp
      from entry_now_fold [OF d this that(2), of now iv'] show ?thesis
        unfolding run(1) sets by (cases "recorded_entry now iv' u r") (auto simp: entry_now_def)
    qed
    have other: "u \<notin> set applied \<and> u \<notin> set unresolved \<and> pullDiags iv2 u = pullDiags iv' u \<and>
        pullResultIDs iv2 u = pullResultIDs iv' u \<and> pullTimes iv2 u = pullTimes iv' u"
      if "u = [] \<or> u \<notin> insert uri (fst ` set related)" for u
    proof -
      have "u \<noteq> [] \<Longrightarrow> u \<notin> fst ` set ?ps" using that by auto
      then have "entry_now (fold (record_report now) ?ps (iv', {}, {})) u = entry_now (iv', {}, {}) u"
        by (cases "u = []") (simp_all add: entry_now_empty entry_now_other del: fold.simps)
      then show ?thesis unfolding run(1) sets by (simp add: entry_now_def)
    qed
    show ?thesis using True each other by auto
  qed
qed

section \<open>Waiters\<close>

fun channel :: "waiter \<Rightarrow> (string \<times> nat) option" where
  "channel (Parked k uri ch n) = Some (uri, ch)"
| "channel (Unsubscribing uri ch r) = Some (uri, ch)"
| "channel _ = None"

definition chans_ok :: "'v diag_world \<Rightarrow> bool" where
  "chans_ok w =
     ((\<forall>t u ch. channel (w_pc w t) = Some (u, ch) \<longrightarrow> ch < w_chan w) \<and>
      (\<forall>t t' u u' ch. channel (w_pc w t) = Some (u, ch) \<longrightarrow> channel (w_pc w t') = Some (u', ch) \<longrightarrow> t = t') \<and>
      (\<forall>ch. signalled (w_store w) ch \<longrightarrow> ch < w_chan w))"

definition lists_ok :: "'v diag_world \<Rightarrow> bool" where
  "lists_ok w =
     (\<forall>u. distinct (waiting (w_store w) u) \<and>
       (\<forall>ch \<in> set (waiting (w_store w) u). \<exists>t. channel (w_pc w t) = Some (u, ch)))"

text \<open>A parked waiter is in the list and not signalled, or pushed for and out of the list.\<close>

definition parked_ok :: "'v diag_world \<Rightarrow> nat \<Rightarrow> bool" where
  "parked_ok w t =
     (\<forall>k u ch n. w_pc w t = Parked k u ch n \<longrightarrow>
       (if ch \<in> set (waiting (w_store w) u) then \<not> signalled (w_store w) ch \<and> w_pushes w u = n
        else signalled (w_store w) ch \<and> n < w_pushes w u))"

definition diag_ok :: "'v diag_world \<Rightarrow> bool" where
  "diag_ok w = (chans_ok w \<and> lists_ok w \<and> (\<forall>t. parked_ok w t))"

lemma listed:
  "lists_ok w \<Longrightarrow> ch \<in> set (waiting (w_store w) u) \<Longrightarrow> \<exists>t. channel (w_pc w t) = Some (u, ch)"
  by (simp add: lists_ok_def)

lemma own_channel:
  "chans_ok w \<Longrightarrow> channel (w_pc w t) = Some (u, ch) \<Longrightarrow> channel (w_pc w t') = Some (u', ch) \<Longrightarrow> t = t'"
  unfolding chans_ok_def by blast

lemma diag_ok_same:
  assumes "diag_ok w" "waiting (w_store w') = waiting (w_store w)" "signalled (w_store w') = signalled (w_store w)"
    and "w_pushes w' = w_pushes w" "w_pc w' = w_pc w" "w_chan w' = w_chan w"
  shows "diag_ok w'"
  using assms(1) unfolding diag_ok_def chans_ok_def lists_ok_def parked_ok_def assms(2-) .

lemma record_report_waiting:
  "waiting (fst (fold (record_report now) ps r)) = waiting (fst r) \<and>
   signalled (fst (fold (record_report now) ps r)) = signalled (fst r)"
proof (induction ps arbitrary: r)
  case (Cons p ps)
  have "waiting (fst (record_report now p r)) = waiting (fst r) \<and> signalled (fst (record_report now p r)) = signalled (fst r)"
    by (auto simp: record_report_def recordPullFull_def recordPullUnchanged_def split: prod.splits if_splits)
  then show ?case using Cons by simp
qed simp

lemma pull_waiting [simp]:
  "waiting (fst (recordPullResult uri rep gen now iv)) = waiting iv"
  "signalled (fst (recordPullResult uri rep gen now iv)) = signalled iv"
  using record_report_waiting [of now "(uri, fst rep) # sort_key fst (snd rep)" "(iv, {}, {})"]
  by (auto simp: recordPullResult_def split: prod.splits)

lemma clear_waiting [simp]: "waiting (ClearPullState iv) = waiting iv" "signalled (ClearPullState iv) = signalled iv"
  by (simp_all add: ClearPullState_def)

definition accepted :: "string \<Rightarrow> (string \<times> diagnostic list) option \<Rightarrow> string option" where
  "accepted meth params =
     (case params of Some (uri, ds) \<Rightarrow> if meth = publish_method \<and> uri \<noteq> [] then Some uri else None | None \<Rightarrow> None)"

lemma push_waiting:
  "waiting (Handle meth params now iv) u = (if accepted meth params = None \<or> u \<noteq> [] \<and> accepted meth params \<noteq> Some u then waiting iv u else [])"
  "signalled (Handle meth params now iv) ch =
     (signalled iv ch \<or> (\<exists>u. accepted meth params = Some u \<and> (ch \<in> set (waiting iv u) \<or> ch \<in> set (waiting iv []))))"
  "count_push meth params n u =
     (if accepted meth params = None \<or> u \<noteq> [] \<and> accepted meth params \<noteq> Some u then n u else Suc (n u))"
  by (auto simp: Handle_def accepted_def wakeSubscribers_def Let_def AnyURI_def count_push_def split: option.splits)

lemma diag_ok_push: 
  assumes "diag_ok w" "diag_step (Push meth params now) w = Some w'"
  shows "diag_ok w'"
proof (cases "accepted meth params")
  case None
  then have "waiting (w_store w') = waiting (w_store w)" "signalled (w_store w') = signalled (w_store w)"
      "w_pushes w' = w_pushes w" "w_pc w' = w_pc w" "w_chan w' = w_chan w"
    using assms(2) by (auto simp: push_waiting)
  from diag_ok_same [OF assms(1) this] show ?thesis .
next
  case (Some v)
  have w': "w_store w' = Handle meth params now (w_store w)" "w_pushes w' = count_push meth params (w_pushes w)"
      "w_pc w' = w_pc w" "w_chan w' = w_chan w"
    using assms(2) by auto
  have ok: "chans_ok w" "lists_ok w" "\<And>t. parked_ok w t" using assms(1) by (simp_all add: diag_ok_def)
  have member: "\<exists>t. channel (w_pc w t) = Some (u, ch)" if "ch \<in> set (waiting (w_store w) u)" for u ch
    using listed [OF ok(2) that] .
  have "chans_ok w'"
    using ok(1) member unfolding chans_ok_def w' push_waiting by blast
  moreover have "lists_ok w'"
    using ok(2) unfolding lists_ok_def w' push_waiting by auto
  moreover have "parked_ok w' t" for t
  proof (cases "w_pc w t")
    case (Parked k u ch n)
    have own: "u' = u" if u': "ch \<in> set (waiting (w_store w) u')" for u'
    proof -
      obtain t' where "channel (w_pc w t') = Some (u', ch)" using member [OF u'] by blast
      moreover from this have "t' = t" using ok(1) Parked unfolding chans_ok_def by (metis channel.simps(1))
      ultimately show ?thesis using Parked by simp
    qed
    have p: "if ch \<in> set (waiting (w_store w) u) then \<not> signalled (w_store w) ch \<and> w_pushes w u = n
        else signalled (w_store w) ch \<and> n < w_pushes w u"
      using ok(3) [of t] Parked by (simp only: parked_ok_def) blast
    show ?thesis
    proof (cases "u = [] \<or> u = v")
      case True
      then show ?thesis using p Some by (auto simp: parked_ok_def w' push_waiting Parked split: if_splits)
    next
      case False
      then have "ch \<notin> set (waiting (w_store w) v)" "ch \<notin> set (waiting (w_store w) [])" using own by blast+
      then show ?thesis using p Some False by (auto simp: parked_ok_def w' push_waiting Parked)
    qed
  qed (simp_all add: parked_ok_def w')
  ultimately show ?thesis by (simp add: diag_ok_def)
qed

lemma diag_ok_park:
  assumes "diag_ok w" "w_pc w t = Away"
  shows "diag_ok (park t k u w)"
proof -
  have ok: "chans_ok w" "lists_ok w" "\<And>s. parked_ok w s" using assms(1) by (simp_all add: diag_ok_def)
  have new: "channel (w_pc w s) \<noteq> Some (v, w_chan w)" for s v using ok(1) unfolding chans_ok_def by blast
  have fresh: "w_chan w \<notin> set (waiting (w_store w) v)" for v
    using ok(2) new unfolding lists_ok_def by blast
  have unsig: "\<not> signalled (w_store w) (w_chan w)" using ok(1) unfolding chans_ok_def by blast
  have "chans_ok (park t k u w)"
    using ok(1) new by (auto simp: chans_ok_def park_def subscribe_def less_Suc_eq)
  moreover have "lists_ok (park t k u w)"
  proof -
    have "\<exists>s. channel (((w_pc w)(t := Parked k u (w_chan w) n)) s) = Some (v, ch)" if c: "ch \<in> set (waiting (w_store w) v)" for v ch n
    proof -
      obtain s where "channel (w_pc w s) = Some (v, ch)" using listed [OF ok(2) c] by blast
      then show ?thesis using assms(2) by (intro exI [of _ s]) auto
    qed
    then show ?thesis
      using ok(2) fresh by (auto simp: lists_ok_def park_def subscribe_def)
  qed
  moreover have "parked_ok (park t k u w) s" for s
    using ok(3) [of s] fresh unsig new [of s] by (cases "w_pc w s") (auto simp: parked_ok_def park_def subscribe_def)
  ultimately show ?thesis by (simp add: diag_ok_def)
qed

lemma diag_ok_gone:
  assumes "diag_ok w" "w_pc w t = Away"
  shows "diag_ok (w\<lparr>w_pc := (w_pc w)(t := Done r)\<rparr>)"
proof -
  have "channel (if s = t then Done r else w_pc w s) = channel (w_pc w s)" for s using assms(2) by simp
  then show ?thesis
    using assms(1) by (auto simp: diag_ok_def chans_ok_def lists_ok_def parked_ok_def)
qed

text \<open>A waiter that stops waiting keeps its channel, whether or not it took a signal.\<close>

lemma diag_ok_unparked:
  assumes "diag_ok w" "w_pc w t = Parked k u ch n"
  shows "diag_ok (w\<lparr>w_pc := (w_pc w)(t := Unsubscribing u ch r)\<rparr>)"
    and "diag_ok (w\<lparr>w_store := (w_store w)\<lparr>signalled := (signalled (w_store w))(ch := False)\<rparr>,
                w_pc := (w_pc w)(t := Unsubscribing u ch r)\<rparr>)"
proof -
  have ch: "channel (if s = t then Unsubscribing u ch r else w_pc w s) = channel (w_pc w s)" for s using assms(2) by simp
  have ok: "chans_ok w" "lists_ok w" "\<And>s. parked_ok w s" using assms(1) by (simp_all add: diag_ok_def)
  have own: "w_pc w s \<noteq> Parked k' u' ch n'" if "s \<noteq> t" for s k' u' n'
    using own_channel [OF ok(1), of s u' ch t u] assms(2) that by auto
  show "diag_ok (w\<lparr>w_pc := (w_pc w)(t := Unsubscribing u ch r)\<rparr>)"
    using ok ch by (auto simp: diag_ok_def chans_ok_def lists_ok_def parked_ok_def)
  have "parked_ok (w\<lparr>w_store := (w_store w)\<lparr>signalled := (signalled (w_store w))(ch := False)\<rparr>,
                w_pc := (w_pc w)(t := Unsubscribing u ch r)\<rparr>) s" for s
    using ok(3) [of s] own [of s] by (cases "w_pc w s") (auto simp: parked_ok_def)
  then show "diag_ok (w\<lparr>w_store := (w_store w)\<lparr>signalled := (signalled (w_store w))(ch := False)\<rparr>,
                w_pc := (w_pc w)(t := Unsubscribing u ch r)\<rparr>)"
    using ok(1,2) ch unfolding diag_ok_def by (auto simp: chans_ok_def lists_ok_def)
qed

lemma diag_ok_leave:
  assumes "diag_ok w" "w_pc w t = Unsubscribing u ch r"
  shows "diag_ok (w\<lparr>w_store := unsubscribe u ch (w_store w), w_pc := (w_pc w)(t := Done r)\<rparr>)"
proof -
  have ok: "chans_ok w" "lists_ok w" "\<And>s. parked_ok w s" using assms(1) by (simp_all add: diag_ok_def)
  have own: "channel (w_pc w s) \<noteq> Some (v, ch)" if "s \<noteq> t" for s v
    using own_channel [OF ok(1), of s v ch t u] assms(2) that by auto
  have "\<exists>s. channel (if s = t then Done r else w_pc w s) = Some (v, c)"
    if c: "c \<in> set (waiting (w_store w) v)" "(v, c) \<noteq> (u, ch)" for v c
  proof -
    obtain s where s: "channel (w_pc w s) = Some (v, c)" using listed [OF ok(2) c(1)] by blast
    then have "s \<noteq> t" using assms(2) c(2) by auto
    then show ?thesis using s by auto
  qed
  then have "lists_ok (w\<lparr>w_store := unsubscribe u ch (w_store w), w_pc := (w_pc w)(t := Done r)\<rparr>)"
    using ok(2) by (auto simp: lists_ok_def unsubscribe_def)
  moreover have "parked_ok (w\<lparr>w_store := unsubscribe u ch (w_store w), w_pc := (w_pc w)(t := Done r)\<rparr>) s" for s
    using ok(2) ok(3) [of s] own [of s] by (cases "w_pc w s") (auto simp: parked_ok_def unsubscribe_def lists_ok_def)
  moreover have "chans_ok (w\<lparr>w_store := unsubscribe u ch (w_store w), w_pc := (w_pc w)(t := Done r)\<rparr>)"
    using ok(1) by (auto simp: chans_ok_def unsubscribe_def)
  ultimately show ?thesis by (simp add: diag_ok_def)
qed

lemma diag_ok_step:
  assumes "diag_ok w" "diag_step a w = Some w'"
  shows "diag_ok w'"
proof (cases a)
  case (Push meth params now)
  then show ?thesis using diag_ok_push assms by blast
next
  case (Wait t k u)
  then show ?thesis
    using assms diag_ok_park [OF assms(1)] diag_ok_gone [OF assms(1)]
    by (auto split: wait_kind.splits if_splits)
next
  case (Wake t)
  then show ?thesis using assms diag_ok_unparked(2) [OF assms(1)] by (auto split: waiter.splits if_splits)
next
  case (Expire t)
  then show ?thesis using assms diag_ok_unparked(1) [OF assms(1)] by (auto split: waiter.splits if_splits)
next
  case (Leave t)
  then show ?thesis using assms diag_ok_leave [OF assms(1)] by (auto split: waiter.splits)
qed (use assms in \<open>auto intro: diag_ok_same\<close>)

lemma diag_ok_reach: "diag_reach w \<Longrightarrow> diag_ok w"
proof (induction rule: diag_reach.induct)
  case (start c)
  show ?case by (simp add: diag_start_def diag_ok_def chans_ok_def lists_ok_def parked_ok_def NewInvalidator_def)
next
  case (act w a w')
  then show ?case by (blast intro: diag_ok_step)
qed

text \<open>
  C30. No wake-up is lost and none is early: a waiter can be woken exactly when its file, or any file
  for a waiter on any, was pushed after it registered, so what it reads is newer than the
  snapshot it waited to see replaced; and the lists of waiters hold nobody who has left: each
  channel in one is that of a waiter still there, so that a list nobody waits in is empty.
\<close>

theorem waiters_wake_exactly:
  assumes "diag_reach w"
  shows "(w_pc w t = Parked k u ch n \<longrightarrow> (diag_step (Wake t) w \<noteq> None \<longleftrightarrow> n < w_pushes w u)) \<and>
    ((\<forall>t. channel (w_pc w t) = None) \<longrightarrow> waiting (w_store w) u = []) \<and>
    (\<forall>c \<in> set (waiting (w_store w) u). \<exists>t. channel (w_pc w t) = Some (u, c))"
proof -
  have ok: "lists_ok w" "parked_ok w t" using diag_ok_reach [OF assms] by (simp_all add: diag_ok_def)
  have "w_pc w t = Parked k u ch n \<Longrightarrow> signalled (w_store w) ch \<longleftrightarrow> n < w_pushes w u"
    using ok(2) by (auto simp: parked_ok_def split: if_splits)
  moreover have "waiting (w_store w) u = []" if "\<forall>t. channel (w_pc w t) = None"
    using ok(1) that unfolding lists_ok_def by (metis last_in_set option.simps(3))
  moreover have "\<exists>t. channel (w_pc w t) = Some (u, c)" if "c \<in> set (waiting (w_store w) u)" for c
    by (rule listed [OF ok(1) that])
  ultimately show ?thesis by auto
qed

section \<open>Runs\<close>

definition diag_at :: "32 word \<Rightarrow> diag_code \<Rightarrow> string \<Rightarrow> diagnostic" where
  "diag_at l c m = \<lparr>d_range = ((l, 0), l, 5), d_severity = 1, d_code = c, d_source = ''go'', d_message = m\<rparr>"

definition full_report :: "string \<Rightarrow> diagnostic list \<Rightarrow> doc_report" where
  "full_report i ds = \<lparr>r_kind = ''full'', r_resultID = i, r_items = ds\<rparr>"

definition unchanged_report :: "string \<Rightarrow> doc_report" where
  "unchanged_report i = \<lparr>r_kind = ''unchanged'', r_resultID = i, r_items = []\<rparr>"

text \<open>A file pushed at time 1 and pulled at time 2, the code once a text and once a number.\<close>

definition both_ways :: "int invalidator" where
  "both_ways =
     RecordPullFull ''f'' ''r1'' [diag_at 3 No_code ''new'', diag_at 1 (Code_number 7) ''old''] 2
       (Handle publish_method (Some (''f'', [diag_at 1 (Code_text ''7'') ''old'', diag_at 2 No_code ''seen''])) 1
         (NewInvalidator (New 0)))"

lemmas both_ways_simps = both_ways_def RecordPullFull_def recordPullFull_def Handle_def wakeSubscribers_def
  NewInvalidator_def publish_method_def AnyURI_def Let_def

theorem diagnostics_union_witness:
  "\<exists>ds. merged both_ways ''f'' = Some ds \<and>
     map d_message ds = [''old'', ''seen'', ''new''] \<and> d_code (hd ds) = Code_number 7"
proof -
  let ?push = "[diag_at 1 (Code_text ''7'') ''old'', diag_at 2 No_code ''seen'']"
  let ?pull = "[diag_at 3 No_code ''new'', diag_at 1 (Code_number 7) ''old'']"
  have "diags both_ways ''f'' = Some ?push" "pullDiags both_ways ''f'' = Some ?pull"
      "diagTimes both_ways ''f'' = Some 1" "pullTimes both_ways ''f'' = Some 2"
    by (simp_all add: both_ways_simps)
  from diagnostics_union [OF this] obtain ds where ds:
      "merged both_ways ''f'' = Some ds" "map keyOf ds = firsts (map keyOf ?push @ map keyOf ?pull)"
      "\<forall>d \<in> set ds. kept ?push ?pull 1 2 (keyOf d) = Some d"
    by blast
  have keys: "firsts (map keyOf ?push @ map keyOf ?pull) =
      [keyOf (diag_at 1 (Code_number 7) ''old''), keyOf (diag_at 2 No_code ''seen''), keyOf (diag_at 3 No_code ''new'')]"
    by code_simp
  from ds(2) obtain a b c where abc: "ds = [a, b, c]" "keyOf a = keyOf (diag_at 1 (Code_number 7) ''old'')"
      "keyOf b = keyOf (diag_at 2 No_code ''seen'')" "keyOf c = keyOf (diag_at 3 No_code ''new'')"
    unfolding keys by (auto simp: map_eq_Cons_conv)
  have "kept ?push ?pull 1 2 (keyOf a) = Some (diag_at 1 (Code_number 7) ''old'')" unfolding abc by code_simp
  then have "a = diag_at 1 (Code_number 7) ''old''" using ds(3) abc(1) by simp
  moreover have "d_message b = ''seen''" "d_message c = ''new''" using abc by (simp_all add: keyOf_def diag_at_def)
  ultimately show ?thesis using ds(1) abc(1) by (simp add: diag_at_def)
qed

theorem pull_report_accounted_witness:
  "\<exists>iv' applied unresolved.
     recordPullResult ''f'' (unchanged_report ''r1'', [(''g'', full_report ''r2'' []), (''h'', unchanged_report ''r9'')]) None 3
       both_ways = (iv', applied, unresolved) \<and>
     set applied \<union> set unresolved = {''f'', ''g'', ''h''} \<and> set applied \<inter> set unresolved = {}"
proof -
  let ?rel = "[(''g'', full_report ''r2'' []), (''h'', unchanged_report ''r9'')]"
  obtain iv' a u where r: "recordPullResult ''f'' (unchanged_report ''r1'', ?rel) None 3 both_ways = (iv', a, u)"
    by (metis prod_cases3)
  have "set a \<union> set u = covers ((''f'', unchanged_report ''r1'') # ?rel) \<and> set a \<inter> set u = {}"
    using pull_report_accounted [OF r] by simp
  moreover have "covers ((''f'', unchanged_report ''r1'') # ?rel) = {''f'', ''g'', ''h''}" by (auto simp: covers_def)
  ultimately show ?thesis using r by blast
qed

text \<open>A report on two files, overtaken by a restart.\<close>

theorem stale_pull_dropped_witness:
  "RecordPullResultAt ''f'' (full_report ''r2'' [], [(''g'', full_report ''r3'' [])]) (pullGen both_ways) 9 (ClearPullState both_ways) =
     (ClearPullState both_ways, [], [''f'', ''g''])"
proof -
  let ?rel = "[(''g'', full_report ''r3'' [])]"
  obtain iv2 a u where r: "RecordPullResultAt ''f'' (full_report ''r2'' [], ?rel) (pullGen both_ways) 9 (ClearPullState both_ways) = (iv2, a, u)"
    by (metis prod_cases3)
  have c: "clears [Op_clear] < 2 ^ 64" "clears [Op_clear] \<noteq> 0" "ClearPullState both_ways = fold store_op_run [Op_clear] both_ways"
    "distinct (''f'' # map fst ?rel)" by (simp_all add: clears_def)
  have u: "iv2 = ClearPullState both_ways" "a = []" "sorted u" "distinct u" "set u = {''f'', ''g''}"
    using stale_pull_dropped [OF c(1,3,4) r] c(2) by auto
  have "sorted [''f'', ''g'']" by code_simp
  then have "u = [''f'', ''g'']" using u(3-5) by (intro sorted_distinct_set_unique) simp_all
  then show ?thesis using r u by simp
qed

text \<open>One waiter on a file, one on any; a push of another file wakes the second alone.\<close>

definition waiting_run :: "diag_action list" where
  "waiting_run = [Wait 0 Next_push ''f'', Wait 1 Any_push [], Push publish_method (Some (''g'', [])) 5]"

lemma diag_run_reach: "diag_run as w = Some w' \<Longrightarrow> diag_reach w \<Longrightarrow> diag_reach w'"
  by (induction as arbitrary: w) (auto split: option.splits intro: diag_reach.act)

theorem waiters_wake_exactly_witness:
  "\<exists>w. diag_run waiting_run (diag_start (New 0 :: int cache)) = Some w \<and>
     diag_step (Wake 0) w = None \<and> diag_step (Wake 1) w \<noteq> None"
proof -
  let ?run = "diag_run waiting_run (diag_start (New 0 :: int cache))"
  have run: "case ?run of
      Some w \<Rightarrow> w_pc w 0 = Parked Next_push ''f'' 0 0 \<and> w_pc w 1 = Parked Any_push [] 1 0 \<and>
        w_pushes w ''f'' = 0 \<and> w_pushes w [] = 1
    | None \<Rightarrow> False"
    by code_simp
  then obtain w where w: "?run = Some w" by (cases ?run) auto
  then have r: "diag_reach w" by (rule diag_run_reach) (rule diag_reach.start)
  show ?thesis
    using waiters_wake_exactly [OF r, of 0 Next_push "''f''" 0 0] waiters_wake_exactly [OF r, of 1 Any_push "[]" 1 0] run w
    by simp
qed

end
