(* ===== verification/Plumb_Diff.thy ===== *)
theory Plumb_Diff
  imports Plumb_Prelude
begin

text \<open>
  The package \<open>internal/textdiff\<close>, first half: the edit-script type and Myers' algorithm
  (\<open>textdiff.go\<close>, \<open>myers.go\<close>).

  The furthest-reaching array \<open>v\<close> and its snapshots are lists of integers that are read
  and written by index as the Go slices are, so every function below returns an
  \<open>option\<close> whose \<open>None\<close> is a run-time panic. The main facts are that \<open>Compute\<close> never
  panics and that the script it returns has the old lines as its old side and the new
  lines as its new side, for every pair of inputs: the greedy pass stops within
  \<open>n + m\<close> rounds (so the branch marked as unreachable in the source is), and the
  backtracking pass follows the choices of the forward pass.
\<close>

section \<open>Edit scripts\<close>

datatype edit_op = Equal | Delete | Insert

record diff_line =
  l_op :: edit_op
  l_text :: string
  l_noeol :: bool

type_synonym script = "diff_line list"

definition mk_line :: "edit_op \<Rightarrow> string \<Rightarrow> diff_line" where
  "mk_line p t = \<lparr>l_op = p, l_text = t, l_noeol = False\<rparr>"

lemma mk_line_sel [simp]:
  "l_op (mk_line p t) = p" "l_text (mk_line p t) = t" "l_noeol (mk_line p t) = False"
  by (simp_all add: mk_line_def)

text \<open>The lines a script has on its old and on its new side: what it promises to describe.\<close>

definition old_side :: "script \<Rightarrow> diff_line list" where
  "old_side s = filter (\<lambda>l. l_op l \<noteq> Insert) s"

definition new_side :: "script \<Rightarrow> diff_line list" where
  "new_side s = filter (\<lambda>l. l_op l \<noteq> Delete) s"

definition old_text :: "script \<Rightarrow> string list" where
  "old_text s = map l_text (old_side s)"

definition new_text :: "script \<Rightarrow> string list" where
  "new_text s = map l_text (new_side s)"

lemma side_simps [simp]:
  "old_text [] = []" "new_text [] = []"
  "old_text (s @ t) = old_text s @ old_text t"
  "new_text (s @ t) = new_text s @ new_text t"
  "old_text (l # s) = (if l_op l = Insert then old_text s else l_text l # old_text s)"
  "new_text (l # s) = (if l_op l = Delete then new_text s else l_text l # new_text s)"
  by (simp_all add: old_text_def new_text_def old_side_def new_side_def)

text \<open>\<open>Counts\<close>: how many lines a script inserts and deletes.\<close>

fun Counts :: "script \<Rightarrow> nat \<times> nat" where
  "Counts [] = (0, 0)"
| "Counts (l # s) =
     (case Counts s of (added, removed) \<Rightarrow>
        (case l_op l of
           Insert \<Rightarrow> (Suc added, removed)
         | Delete \<Rightarrow> (added, Suc removed)
         | Equal \<Rightarrow> (added, removed)))"

section \<open>Line splitting\<close>

definition SplitLines :: "string \<Rightarrow> string list" where
  "SplitLines s =
     (if s = [] then []
      else (let lines = split_on CHR ''\<newline>'' s
            in if last lines = [] then butlast lines else lines))"

definition splitKeepEOL :: "string \<Rightarrow> string list" where
  "splitKeepEOL s =
     (if s = [] then []
      else (let parts = split_after CHR ''\<newline>'' s
            in if last parts = [] then butlast parts else parts))"

section \<open>The forward pass\<close>

definition MaxMyersDistance :: int where
  "MaxMyersDistance = 1500"

definition wholeFileEditScript :: "string list \<Rightarrow> string list \<Rightarrow> script" where
  "wholeFileEditScript oldLines newLines =
     map (mk_line Delete) oldLines @ map (mk_line Insert) newLines"

text \<open>The innermost loop: extend along the diagonal while the lines agree.\<close>

function snake ::
  "string list \<Rightarrow> string list \<Rightarrow> int \<Rightarrow> int \<Rightarrow> int \<Rightarrow> int \<Rightarrow> (int \<times> int) option" where
  "snake oldLines newLines n m x y =
     (if x < n \<and> y < m then do {
        a \<leftarrow> aget oldLines x;
        b \<leftarrow> aget newLines y;
        if a = b then snake oldLines newLines n m (x + 1) (y + 1) else Some (x, y)
      } else Some (x, y))"
  by pat_completeness auto
termination
  by (relation "measure (\<lambda>(oldLines, newLines, n, m, x, y). nat (n - x))") auto

declare snake.simps [simp del]

text \<open>
  The test both passes make to choose between the two neighbouring diagonals; the Go
  condition is evaluated left to right, so the array is read only where neither
  \<open>k = -d\<close> nor \<open>k = d\<close>.
\<close>

definition goes_down :: "int list \<Rightarrow> int \<Rightarrow> int \<Rightarrow> int \<Rightarrow> bool option" where
  "goes_down v offset d k =
     (if k = - d then Some True
      else if k = d then Some False
      else do {
        a \<leftarrow> aget v (k - 1 + offset);
        b \<leftarrow> aget v (k + 1 + offset);
        Some (a < b)
      })"

text \<open>The loop over the diagonals \<open>k = -d, -d+2, \<dots>, d\<close> of round \<open>d\<close>.\<close>

function fwd_round ::
  "string list \<Rightarrow> string list \<Rightarrow> int \<Rightarrow> int \<Rightarrow> int \<Rightarrow> int \<Rightarrow> int \<Rightarrow> int list \<Rightarrow>
   (int list \<times> bool) option" where
  "fwd_round oldLines newLines n m offset d k v =
     (if k \<le> d then do {
        down \<leftarrow> goes_down v offset d k;
        x0 \<leftarrow> (if down then aget v (k + 1 + offset)
               else map_option (\<lambda>a. a + 1) (aget v (k - 1 + offset)));
        (x, y) \<leftarrow> snake oldLines newLines n m x0 (x0 - k);
        v' \<leftarrow> aset v (k + offset) x;
        if x = n \<and> y = m then Some (v', True)
        else fwd_round oldLines newLines n m offset d (k + 2) v'
      } else Some (v, False))"
  by pat_completeness auto
termination
  by (relation "measure (\<lambda>(oldLines, newLines, n, m, offset, d, k, v). nat (d + 2 - k))") auto

declare fwd_round.simps [simp del]

function fwd_loop ::
  "string list \<Rightarrow> string list \<Rightarrow> int \<Rightarrow> int \<Rightarrow> int \<Rightarrow> int \<Rightarrow> int \<Rightarrow> int list \<Rightarrow> int list list \<Rightarrow>
   (int list list \<times> int \<times> bool) option" where
  "fwd_loop oldLines newLines n m maxD offset d v trace =
     (if d \<le> maxD then do {
        (v', found) \<leftarrow> fwd_round oldLines newLines n m offset d (- d) v;
        if found then Some (trace @ [v], d, True)
        else fwd_loop oldLines newLines n m maxD offset (d + 1) v' (trace @ [v])
      } else Some (trace, 0, False))"
  by pat_completeness auto
termination
  by (relation "measure (\<lambda>(oldLines, newLines, n, m, maxD, offset, d, v, trace). nat (maxD + 1 - d))")
    auto

declare fwd_loop.simps [simp del]

definition myersForward ::
  "string list \<Rightarrow> string list \<Rightarrow> int \<Rightarrow> int \<Rightarrow> int \<Rightarrow> int \<Rightarrow>
   (int list list \<times> int \<times> bool) option" where
  "myersForward oldLines newLines n m maxD offset =
     fwd_loop oldLines newLines n m maxD offset 0 (replicate (nat (2 * maxD + 1)) 0) []"

section \<open>The backtracking pass\<close>

function back_snake ::
  "string list \<Rightarrow> string list \<Rightarrow> int \<Rightarrow> int \<Rightarrow> int \<Rightarrow> int \<Rightarrow> script \<Rightarrow>
   (int \<times> int \<times> script) option" where
  "back_snake oldLines newLines px py x y script =
     (if px < x \<and> py < y then do {
        a \<leftarrow> aget oldLines (x - 1);
        b \<leftarrow> aget newLines (y - 1);
        if a = b
        then back_snake oldLines newLines px py (x - 1) (y - 1) (script @ [mk_line Equal a])
        else Some (x, y, script)
      } else Some (x, y, script))"
  by pat_completeness auto
termination
  by (relation "measure (\<lambda>(oldLines, newLines, px, py, x, y, script). nat (x - px))") auto

declare back_snake.simps [simp del]

function back_loop ::
  "string list \<Rightarrow> string list \<Rightarrow> int list list \<Rightarrow> int \<Rightarrow> int \<Rightarrow> int \<Rightarrow> int \<Rightarrow> script \<Rightarrow>
   (int \<times> int \<times> script) option" where
  "back_loop oldLines newLines trace offset d x y script =
     (if 0 < d then do {
        vPrev \<leftarrow> aget trace d;
        let k = x - y;
        down \<leftarrow> goes_down vPrev offset d k;
        let prevK = (if down then k + 1 else k - 1);
        prevX \<leftarrow> aget vPrev (prevK + offset);
        let prevY = prevX - prevK;
        (if prevK = k + 1 then do {
           (x1, y1, s1) \<leftarrow> back_snake oldLines newLines prevX (prevY + 1) x y script;
           t \<leftarrow> aget newLines (y1 - 1);
           back_loop oldLines newLines trace offset (d - 1) prevX prevY (s1 @ [mk_line Insert t])
         } else do {
           (x1, y1, s1) \<leftarrow> back_snake oldLines newLines (prevX + 1) prevY x y script;
           t \<leftarrow> aget oldLines (x1 - 1);
           back_loop oldLines newLines trace offset (d - 1) prevX prevY (s1 @ [mk_line Delete t])
         })
      } else Some (x, y, script))"
  by pat_completeness auto
termination
  by (relation "measure (\<lambda>(oldLines, newLines, trace, offset, d, x, y, script). nat d)") auto

declare back_loop.simps [simp del]

text \<open>The common lines before the first edit.\<close>

function lead_in :: "string list \<Rightarrow> int \<Rightarrow> script \<Rightarrow> script option" where
  "lead_in oldLines x script =
     (if 0 < x then do {
        t \<leftarrow> aget oldLines (x - 1);
        lead_in oldLines (x - 1) (script @ [mk_line Equal t])
      } else Some script)"
  by pat_completeness auto
termination
  by (relation "measure (\<lambda>(oldLines, x, script). nat x)") auto

declare lead_in.simps [simp del]

definition myersBacktrack ::
  "string list \<Rightarrow> string list \<Rightarrow> int \<Rightarrow> int \<Rightarrow> int list list \<Rightarrow> int \<Rightarrow> int \<Rightarrow> script option" where
  "myersBacktrack oldLines newLines n m trace endD offset = do {
     (x, y, script) \<leftarrow> back_loop oldLines newLines trace offset endD n m [];
     script' \<leftarrow> lead_in oldLines x script;
     Some (rev script')
   }"

definition Compute :: "string list \<Rightarrow> string list \<Rightarrow> script option" where
  "Compute oldLines newLines =
     (let n = int (length oldLines); m = int (length newLines)
      in if n = 0 \<and> m = 0 then Some []
         else
           let bounded = (MaxMyersDistance < n + m);
               maxD = (if bounded then MaxMyersDistance else n + m);
               offset = maxD
           in do {
             (trace, endD, found) \<leftarrow> myersForward oldLines newLines n m maxD offset;
             if \<not> found then
               (if bounded then Some (wholeFileEditScript oldLines newLines) else Some [])
             else myersBacktrack oldLines newLines n m trace endD offset
           })"

text \<open>\<open>ComputeExact\<close> diffs two texts line by line, each line with its terminator.\<close>

definition exact_line :: "diff_line \<Rightarrow> diff_line" where
  "exact_line l =
     (case cut_suffix (l_text l) [CHR ''\<newline>''] of
        (text, hadEOL) \<Rightarrow> \<lparr>l_op = l_op l, l_text = text, l_noeol = \<not> hadEOL\<rparr>)"

definition ComputeExact :: "string \<Rightarrow> string \<Rightarrow> script option" where
  "ComputeExact pre post =
     map_option (map exact_line) (Compute (splitKeepEOL pre) (splitKeepEOL post))"

end
