(* ===== verification/Plumb_Diff_Correct.thy ===== *)
theory Plumb_Diff_Correct
  imports Plumb_Diff "HOL-Library.Sublist"
begin

text \<open>
  Correctness of \<open>Plumb_Diff\<close>. The furthest-reaching points of the greedy pass are
  characterised by a recursion over rounds and diagonals (\<open>reach\<close>), which the array of
  the code is shown to hold. Three facts about the recursion then carry the theorems: the
  points never leave the first quadrant, each round moves every diagonal one step
  further, and a point that overshoots one edge has a neighbour that touches it
  (\<open>overshoot_x\<close>), so the corner is met exactly and not jumped over.
\<close>

section \<open>Diagonals and furthest-reaching points\<close>

function slide :: "string list \<Rightarrow> string list \<Rightarrow> int \<Rightarrow> int \<Rightarrow> int" where
  "slide a b x y =
     (if 0 \<le> x \<and> 0 \<le> y \<and> x < int (length a) \<and> y < int (length b) \<and> a ! nat x = b ! nat y
      then slide a b (x + 1) (y + 1) else x)"
  by pat_completeness auto
termination
  by (relation "measure (\<lambda>(a, b, x, y). nat (int (length a) - x))") auto

declare slide.simps [simp del]

fun reach :: "string list \<Rightarrow> string list \<Rightarrow> nat \<Rightarrow> int \<Rightarrow> int" where
  "reach a b 0 k = slide a b 0 (- k)"
| "reach a b (Suc d) k =
     (let s = (if k = - int (Suc d) then reach a b d (k + 1)
               else if k = int (Suc d) then reach a b d (k - 1) + 1
               else max (reach a b d (k + 1)) (reach a b d (k - 1) + 1))
      in slide a b s (s - k))"

declare reach.simps [simp del]

definition reach_start :: "string list \<Rightarrow> string list \<Rightarrow> nat \<Rightarrow> int \<Rightarrow> int" where
  "reach_start a b d k =
     (case d of
        0 \<Rightarrow> 0
      | Suc e \<Rightarrow>
          if k = - int d then reach a b e (k + 1)
          else if k = int d then reach a b e (k - 1) + 1
          else max (reach a b e (k + 1)) (reach a b e (k - 1) + 1))"

lemma reach_eq: "reach a b d k = slide a b (reach_start a b d k) (reach_start a b d k - k)"
  by (cases d) (simp_all add: reach.simps reach_start_def Let_def)

text \<open>The diagonals that round \<open>d\<close> visits.\<close>

definition diag :: "nat \<Rightarrow> int \<Rightarrow> bool" where
  "diag d k \<longleftrightarrow> \<bar>k\<bar> \<le> int d \<and> even (int d - k)"

lemma diag_0 [simp]: "diag 0 k \<longleftrightarrow> k = 0"
  by (auto simp: diag_def)

lemma diag_Suc_cases:
  assumes "diag (Suc d) k"
  obtains (low) "k = - int (Suc d)" "diag d (k + 1)"
        | (high) "k = int (Suc d)" "diag d (k - 1)"
        | (mid) "k \<noteq> - int (Suc d)" "k \<noteq> int (Suc d)" "diag d (k + 1)" "diag d (k - 1)"
proof -
  have e: "even (int d - (k + 1))" "even (int d - (k - 1))"
    using assms by (auto simp: diag_def)
  consider "k = - int (Suc d)" | "k = int (Suc d)" | "k \<noteq> - int (Suc d)" "k \<noteq> int (Suc d)"
    by blast
  then show thesis
  proof cases
    case 1
    with e show ?thesis by (intro low) (auto simp: diag_def)
  next
    case 2
    with e show ?thesis by (intro high) (auto simp: diag_def)
  next
    case 3
    with assms have "\<bar>k + 1\<bar> \<le> int d" "\<bar>k - 1\<bar> \<le> int d"
      by (simp_all add: diag_def, presburger+)
    with e 3 show ?thesis by (intro mid) (auto simp: diag_def)
  qed
qed

lemma slide_ge: "x \<le> slide a b x y"
proof (induction a b x y rule: slide.induct)
  case (1 a b x y)
  then show ?case
    by (subst slide.simps) force
qed

lemma slide_bounds:
  "slide a b x y \<noteq> x \<Longrightarrow>
   0 \<le> x \<and> 0 \<le> y \<and> slide a b x y \<le> int (length a) \<and> slide a b x y - x + y \<le> int (length b)"
proof (induction a b x y rule: slide.induct)
  case (1 a b x y)
  let ?c = "0 \<le> x \<and> 0 \<le> y \<and> x < int (length a) \<and> y < int (length b) \<and> a ! nat x = b ! nat y"
  show ?case
  proof (cases ?c)
    case True
    then have eq: "slide a b x y = slide a b (x + 1) (y + 1)" by (subst slide.simps) simp
    show ?thesis
    proof (cases "slide a b (x + 1) (y + 1) = x + 1")
      case True
      with \<open>?c\<close> eq show ?thesis by auto
    next
      case False
      with 1 \<open>?c\<close> eq show ?thesis by auto
    qed
  next
    case False
    with 1 show ?thesis by (subst (asm) slide.simps) auto
  qed
qed

lemma slide_common:
  "x \<le> i \<Longrightarrow> i < slide a b x y \<Longrightarrow> a ! nat i = b ! nat (i - x + y)"
proof (induction a b x y rule: slide.induct)
  case (1 a b x y)
  let ?c = "0 \<le> x \<and> 0 \<le> y \<and> x < int (length a) \<and> y < int (length b) \<and> a ! nat x = b ! nat y"
  show ?case
  proof (cases ?c)
    case True
    then have eq: "slide a b x y = slide a b (x + 1) (y + 1)" by (subst slide.simps) simp
    show ?thesis
    proof (cases "i = x")
      case True
      with \<open>?c\<close> show ?thesis by simp
    next
      case False
      then have "x + 1 \<le> i" "i < slide a b (x + 1) (y + 1)" using 1 eq by auto
      with "1.IH" \<open>?c\<close> have "a ! nat i = b ! nat (i - (x + 1) + (y + 1))" by blast
      moreover have "i - (x + 1) + (y + 1) = i - x + y" by simp
      ultimately show ?thesis by (simp only:)
    qed
  next
    case False
    with 1 show ?thesis by (subst (asm) slide.simps) auto
  qed
qed

lemma snake_slide:
  assumes "0 \<le> x" "0 \<le> y"
  shows "snake a b (int (length a)) (int (length b)) x y =
           Some (slide a b x y, slide a b x y - x + y)"
  using assms
proof (induction a b x y rule: slide.induct)
  case (1 a b x y)
  let ?n = "int (length a)" and ?m = "int (length b)"
  show ?case
  proof (cases "x < ?n \<and> y < ?m \<and> a ! nat x = b ! nat y")
    case True
    then have "slide a b x y = slide a b (x + 1) (y + 1)" using 1 by (subst slide.simps) simp
    moreover have "snake a b ?n ?m (x + 1) (y + 1) =
        Some (slide a b (x + 1) (y + 1), slide a b (x + 1) (y + 1) - (x + 1) + (y + 1))"
      using 1 True by simp
    ultimately show ?thesis using 1 True by (subst snake.simps) (simp add: aget_def)
  next
    case False
    then have "slide a b x y = x" by (subst slide.simps) auto
    with "1.prems" False show ?thesis by (subst snake.simps) (auto simp: aget_def)
  qed
qed

section \<open>Where the points can be\<close>

lemma reach_quadrant: "diag d k \<Longrightarrow> 0 \<le> reach_start a b d k \<and> k \<le> reach_start a b d k"
proof (induction d arbitrary: k)
  case (Suc d)
  have up: "0 \<le> reach a b d j \<and> j \<le> reach a b d j" if "diag d j" for j
    using Suc.IH [OF that] slide_ge [of "reach_start a b d j" a b] reach_eq [of a b d j]
    by (metis order_trans)
  from Suc.prems show ?case
    by (cases rule: diag_Suc_cases) (use up in \<open>force simp: reach_start_def\<close>)+
qed (simp add: reach_start_def)

lemma reach_start_le: "reach_start a b d k \<le> reach a b d k"
  using slide_ge reach_eq by metis

lemma reach_pos: "diag d k \<Longrightarrow> 0 \<le> reach a b d k \<and> k \<le> reach a b d k"
  using reach_quadrant reach_start_le order_trans by blast

lemma reach_progress: "diag d k \<Longrightarrow> int d \<le> 2 * reach a b d k - k"
proof (induction d arbitrary: k)
  case 0
  then show ?case using reach_pos [of 0 k a b] by simp
next
  case (Suc d)
  have le: "2 * reach_start a b (Suc d) k - k \<le> 2 * reach a b (Suc d) k - k"
    using reach_start_le by simp
  from Suc.prems have "int (Suc d) \<le> 2 * reach_start a b (Suc d) k - k"
    by (cases rule: diag_Suc_cases) (use Suc.IH [of "k + 1"] Suc.IH [of "k - 1"] in \<open>auto simp: reach_start_def max_def\<close>)
  with le show ?case by simp
qed

lemma reach_le_length:
  "reach a b d k \<noteq> reach_start a b d k \<Longrightarrow>
   reach a b d k \<le> int (length a) \<and> reach a b d k - k \<le> int (length b)"
  using slide_bounds [of a b "reach_start a b d k" "reach_start a b d k - k"]
  by (auto simp: reach_eq [of a b d k])

lemma reach_step_up:
  assumes "diag d k"
  shows "reach a b d k \<le> reach a b (Suc d) (k - 1)" and "reach a b d k + 1 \<le> reach a b (Suc d) (k + 1)"
proof -
  have "\<bar>k\<bar> \<le> int d" using assms by (simp add: diag_def)
  then have "reach a b d k \<le> reach_start a b (Suc d) (k - 1)"
    and "reach a b d k + 1 \<le> reach_start a b (Suc d) (k + 1)"
    by (auto simp: reach_start_def)
  then show "reach a b d k \<le> reach a b (Suc d) (k - 1)" "reach a b d k + 1 \<le> reach a b (Suc d) (k + 1)"
    using reach_start_le order_trans by blast+
qed

text \<open>
  A point beyond the right edge has a neighbour two diagonals down that is at most one
  column behind: the greedy choice cannot jump over the corner.
\<close>

lemma overshoot_x:
  assumes "diag d k" "int (length a) < reach a b d k"
  shows "diag d (k - 2) \<and> reach a b d k \<le> reach a b d (k - 2) + 1"
  using assms
proof (induction d arbitrary: k)
  case 0
  then have "reach a b 0 k = reach_start a b 0 k" using reach_le_length by force
  with 0 show ?case by (simp add: reach_start_def)
next
  case (Suc d)
  let ?n = "int (length a)"
  have st: "reach a b (Suc d) k = reach_start a b (Suc d) k"
    using Suc.prems reach_le_length by force
  have down: "diag d (k - 1) \<and> reach a b (Suc d) k \<le> reach a b d (k - 1) + 1"
  proof (cases "k \<noteq> - int (Suc d) \<and> reach a b (Suc d) k = reach a b d (k - 1) + 1")
    case True
    with Suc.prems(1) show ?thesis by (auto elim: diag_Suc_cases)
  next
    case False
    from Suc.prems(1) have "diag d (k + 1) \<and> reach a b (Suc d) k = reach a b d (k + 1)"
      by (cases rule: diag_Suc_cases) (use st False in \<open>auto simp: reach_start_def split: if_splits\<close>)
    with Suc.IH [of "k + 1"] Suc.prems(2) show ?thesis by auto
  qed
  then have "diag (Suc d) (k - 2)" by (auto simp: diag_def)
  moreover have "reach a b d (k - 1) \<le> reach a b (Suc d) (k - 2)"
    using reach_step_up(1) [of d "k - 1" a b] down by simp
  ultimately show ?case using down by linarith
qed

text \<open>The mirror image, for points beyond the lower edge.\<close>

lemma overshoot_y:
  assumes "diag d k" "int (length b) < reach a b d k - k"
  shows "diag d (k + 2) \<and> reach a b d k - k \<le> reach a b d (k + 2) - (k + 2) + 1"
  using assms
proof (induction d arbitrary: k)
  case 0
  then have "reach a b 0 k = reach_start a b 0 k" using reach_le_length by force
  with 0 show ?case by (simp add: reach_start_def)
next
  case (Suc d)
  have st: "reach a b (Suc d) k = reach_start a b (Suc d) k"
    using Suc.prems reach_le_length by force
  have up: "diag d (k + 1) \<and> reach a b (Suc d) k \<le> reach a b d (k + 1)"
  proof (cases "k \<noteq> int (Suc d) \<and> reach a b (Suc d) k = reach a b d (k + 1)")
    case True
    with Suc.prems(1) show ?thesis by (auto elim: diag_Suc_cases)
  next
    case False
    from Suc.prems(1) have "diag d (k - 1) \<and> reach a b (Suc d) k = reach a b d (k - 1) + 1"
      by (cases rule: diag_Suc_cases) (use st False in \<open>auto simp: reach_start_def split: if_splits\<close>)
    moreover have "k - 1 + 2 = k + 1" by simp
    ultimately show ?thesis using Suc.IH [of "k - 1"] Suc.prems(2) by (simp only:) auto
  qed
  then have "diag (Suc d) (k + 2)" by (auto simp: diag_def)
  moreover have "reach a b d (k + 1) + 1 \<le> reach a b (Suc d) (k + 2)"
    using reach_step_up(2) [of d "k + 1" a b] up by (simp add: add.commute)
  ultimately show ?case using up by linarith
qed

definition met :: "string list \<Rightarrow> string list \<Rightarrow> nat \<Rightarrow> bool" where
  "met a b d \<longleftrightarrow>
     (\<exists>e k. e \<le> d \<and> diag e k \<and> reach a b e k = int (length a) \<and> reach a b e k - k = int (length b))"

lemma met_mono: "d \<le> e \<Longrightarrow> met a b d \<Longrightarrow> met a b e"
  unfolding met_def using order_trans by blast

lemma not_beyond_corner:
  assumes "\<not> met a b d" "diag d k"
  shows "reach a b d k < int (length a) \<or> reach a b d k - k < int (length b)"
  using assms
proof (induction d arbitrary: k)
  case 0
  show ?case
  proof (rule ccontr)
    assume c: "\<not> ?case"
    with 0 have "reach a b 0 k = reach_start a b 0 k"
      using reach_le_length [of a b 0 k] by (force simp: met_def)
    then have "reach a b 0 k = 0" by (simp add: reach_start_def)
    with 0 c show False by (force simp: met_def)
  qed
next
  case (Suc d)
  let ?n = "int (length a)" and ?m = "int (length b)" and ?x = "reach a b (Suc d) k"
  have nm: "\<not> met a b d" using Suc.prems(1) met_mono le_SucI by blast
  show ?case
  proof (rule ccontr)
    assume c: "\<not> ?case"
    have nc: "\<not> (?x = ?n \<and> ?x - k = ?m)"
      using Suc.prems by (auto simp: met_def)
    with c have st: "?x = reach_start a b (Suc d) k"
      using reach_le_length [of a b "Suc d" k] by force
    from Suc.prems(2) st
    consider (dn) "diag d (k + 1)" "?x = reach a b d (k + 1)"
           | (rt) "diag d (k - 1)" "?x = reach a b d (k - 1) + 1"
      by (cases rule: diag_Suc_cases) (auto simp: reach_start_def max_def split: if_splits)
    then show False
    proof cases
      case dn
      with Suc.IH [OF nm, of "k + 1"] c have "?x - k = ?m" by auto
      with nc c have "?n < reach a b d (k + 1)" using dn by auto
      from overshoot_x [OF dn(1) this]
      have "diag d (k - 1)" "?x \<le> reach a b d (k - 1) + 1" using dn by auto
      with Suc.IH [OF nm, of "k - 1"] \<open>?x - k = ?m\<close> nc c show False by auto
    next
      case rt
      with Suc.IH [OF nm, of "k - 1"] c have "?x = ?n" by auto
      with nc c have "?m < reach a b d (k - 1) - (k - 1)" using rt by auto
      from overshoot_y [OF rt(1) this]
      have "diag d (k + 1)" "?x - k \<le> reach a b d (k + 1) - (k + 1) + 1"
        using rt by (auto simp: add.commute [of 1 k])
      with Suc.IH [OF nm, of "k + 1"] \<open>?x = ?n\<close> nc c show False by auto
    qed
  qed
qed

text \<open>The corner is met within \<open>n + m\<close> rounds.\<close>

lemma met_bound: "met a b (length a + length b)"
proof (rule ccontr)
  let ?d = "length a + length b" and ?k = "int (length a) - int (length b)"
  assume "\<not> met a b ?d"
  moreover have k: "diag ?d ?k" by (auto simp: diag_def)
  ultimately have "reach a b ?d ?k < int (length a) \<or> reach a b ?d ?k - ?k < int (length b)"
    by (rule not_beyond_corner)
  moreover have "int ?d \<le> 2 * reach a b ?d ?k - ?k" by (rule reach_progress [OF k])
  ultimately show False by auto
qed

section \<open>The array holds the furthest-reaching points\<close>

definition corner :: "string list \<Rightarrow> string list \<Rightarrow> nat \<Rightarrow> int \<Rightarrow> bool" where
  "corner a b d k \<longleftrightarrow>
     diag d k \<and> reach a b d k = int (length a) \<and> reach a b d k - k = int (length b)"

lemma met_corner: "met a b d \<longleftrightarrow> (\<exists>e k. e \<le> d \<and> corner a b e k)"
  by (auto simp: met_def corner_def)

text \<open>What the array holds before round \<open>d\<close>.\<close>

definition ready :: "string list \<Rightarrow> string list \<Rightarrow> int \<Rightarrow> nat \<Rightarrow> int list \<Rightarrow> bool" where
  "ready a b off d v \<longleftrightarrow>
     int (length v) = 2 * off + 1 \<and>
     (case d of
        0 \<Rightarrow> aget v (1 + off) = Some 0
      | Suc e \<Rightarrow> \<forall>k. diag e k \<longrightarrow> aget v (k + off) = Some (reach a b e k))"

lemma ready_choice:
  assumes "ready a b off d v" "diag d k"
  obtains (down) "goes_down v off (int d) k = Some True"
      "aget v (k + 1 + off) = Some (reach_start a b d k)"
      "\<And>e. d = Suc e \<Longrightarrow> diag e (k + 1) \<and> reach_start a b d k = reach a b e (k + 1)"
    | (right) e where "goes_down v off (int d) k = Some False" "d = Suc e" "diag e (k - 1)"
      "aget v (k - 1 + off) = Some (reach a b e (k - 1))"
      "reach_start a b d k = reach a b e (k - 1) + 1"
proof (cases d)
  case 0
  with assms show ?thesis
    by (intro down) (auto simp: ready_def goes_down_def reach_start_def)
next
  case (Suc e)
  then have hold: "\<And>j. diag e j \<Longrightarrow> aget v (j + off) = Some (reach a b e j)"
    using assms(1) by (simp add: ready_def)
  from assms(2) [unfolded Suc] show ?thesis
  proof (cases rule: diag_Suc_cases)
    case low
    with Suc hold [of "k + 1"] show ?thesis
      by (intro down) (auto simp: goes_down_def reach_start_def)
  next
    case high
    with Suc hold [of "k - 1"] show ?thesis
      by (intro right [of e]) (auto simp: goes_down_def reach_start_def)
  next
    case mid
    then have rd: "goes_down v off (int d) k = Some (reach a b e (k - 1) < reach a b e (k + 1))"
      using Suc hold by (simp add: goes_down_def)
    show ?thesis
    proof (cases "reach a b e (k - 1) < reach a b e (k + 1)")
      case True
      with mid Suc hold rd show ?thesis
        by (intro down) (auto simp: reach_start_def)
    next
      case False
      with mid Suc hold rd show ?thesis
        by (intro right [of e]) (auto simp: reach_start_def)
    qed
  qed
qed

lemma ready_update:
  assumes "ready a b off d v" "diag d k" "aset v (k + off) x = Some v'"
  shows "ready a b off d v'"
proof (cases d)
  case 0
  with assms show ?thesis
    by (auto simp: ready_def aget_update [OF assms(3)] aset_length [OF assms(3)])
next
  case (Suc e)
  have "j \<noteq> k" if "diag e j" for j
    using that assms(2) Suc by (auto simp: diag_def)
  with assms(1) Suc show ?thesis
    by (auto simp: ready_def aget_update [OF assms(3)] aset_length [OF assms(3)])
qed

text \<open>One round: it never panics, and it either meets the corner or leaves the array ready.\<close>

lemma fwd_round_ok:
  assumes "ready a b off d v" "int d \<le> off" "even (int d - k)" "- int d \<le> k" "k \<le> int d + 2"
    and "\<And>j. diag d j \<Longrightarrow> j < k \<Longrightarrow> aget v (j + off) = Some (reach a b d j) \<and> \<not> corner a b d j"
  shows "\<exists>v' f. fwd_round a b (int (length a)) (int (length b)) off (int d) k v = Some (v', f) \<and>
           (if f then \<exists>j. corner a b d j
            else ready a b off (Suc d) v' \<and> (\<forall>j. \<not> corner a b d j))"
  using assms
proof (induction "nat (int d + 2 - k)" arbitrary: k v rule: less_induct)
  case less
  let ?n = "int (length a)" and ?m = "int (length b)"
  show ?case
  proof (cases "k \<le> int d")
    case False
    then have "j < k" if "diag d j" for j using that by (auto simp: diag_def)
    with less.prems(1,6) have "ready a b off (Suc d) v" "\<forall>j. \<not> corner a b d j"
      by (auto simp: ready_def corner_def)
    with False show ?thesis by (subst fwd_round.simps) (auto intro: exI [of _ False])
  next
    case True
    have k: "diag d k" using less.prems True by (auto simp: diag_def)
    let ?x = "reach a b d k"
    obtain down where dn: "goes_down v off (int d) k = Some down"
      and x0: "(if down then aget v (k + 1 + off)
                else map_option (\<lambda>a. a + 1) (aget v (k - 1 + off))) = Some (reach_start a b d k)"
      by (rule ready_choice [OF less.prems(1) k]) auto
    have sn: "snake a b ?n ?m (reach_start a b d k) (reach_start a b d k - k) = Some (?x, ?x - k)"
      using reach_quadrant [OF k, of a b] by (subst snake_slide) (auto simp: reach_eq)
    have "0 \<le> k + off" "k + off < int (length v)"
      using less.prems(1,2) k by (auto simp: ready_def diag_def)
    then obtain v' where v': "aset v (k + off) ?x = Some v'" by (simp add: aset_def)
    have step: "fwd_round a b ?n ?m off (int d) k v =
        (if corner a b d k then Some (v', True)
         else fwd_round a b ?n ?m off (int d) (k + 2) v')"
      using True dn x0 sn v' k by (subst fwd_round.simps) (auto simp: corner_def)
    show ?thesis
    proof (cases "corner a b d k")
      case True
      with step show ?thesis by auto
    next
      case nc: False
      have "\<exists>w f. fwd_round a b ?n ?m off (int d) (k + 2) v' = Some (w, f) \<and>
           (if f then \<exists>j. corner a b d j
            else ready a b off (Suc d) w \<and> (\<forall>j. \<not> corner a b d j))"
      proof (rule less.hyps)
        show "ready a b off d v'" by (rule ready_update [OF less.prems(1) k v'])
        fix j assume j: "diag d j" "j < k + 2"
        show "aget v' (j + off) = Some (reach a b d j) \<and> \<not> corner a b d j"
        proof (cases "j = k")
          case True
          with nc v' show ?thesis by (simp add: go_simps)
        next
          case False
          moreover have "j \<noteq> k + 1" using j(1) k by (auto simp: diag_def)
          ultimately have "j < k" using j(2) by linarith
          with less.prems(6) j(1) False v' show ?thesis by (simp add: go_simps)
        qed
      qed (use less.prems True in auto)
      with nc step show ?thesis by simp
    qed
  qed
qed

text \<open>The whole forward pass.\<close>

definition traced :: "string list \<Rightarrow> string list \<Rightarrow> int \<Rightarrow> int list list \<Rightarrow> bool" where
  "traced a b off trace \<longleftrightarrow> (\<forall>e < length trace. ready a b off e (trace ! e))"

lemma traced_snoc:
  "traced a b off trace \<Longrightarrow> ready a b off (length trace) v \<Longrightarrow> traced a b off (trace @ [v])"
  by (auto simp: traced_def nth_append less_Suc_eq)

lemma fwd_loop_ok:
  assumes "ready a b off d v" "traced a b off trace" "length trace = d" "maxD \<le> off"
    and "\<And>e j. e < d \<Longrightarrow> \<not> corner a b e j"
  shows "\<exists>trace' endD f.
     fwd_loop a b (int (length a)) (int (length b)) maxD off (int d) v trace = Some (trace', endD, f) \<and>
     (if f then \<exists>D k. endD = int D \<and> corner a b D k \<and> traced a b off trace' \<and> D < length trace' \<and>
            (\<forall>e < D. \<forall>j. \<not> corner a b e j)
      else \<forall>e j. int e \<le> maxD \<longrightarrow> \<not> corner a b e j)"
  using assms
proof (induction "nat (maxD + 1 - int d)" arbitrary: d v trace rule: less_induct)
  case less
  let ?n = "int (length a)" and ?m = "int (length b)"
  show ?case
  proof (cases "int d \<le> maxD")
    case False
    with less.prems(5) have "\<forall>e j. int e \<le> maxD \<longrightarrow> \<not> corner a b e j"
      by (metis linorder_not_less of_nat_less_iff order_less_le_trans not_le)
    with False show ?thesis by (subst fwd_loop.simps) (auto intro: exI [of _ False])
  next
    case True
    have "\<exists>v' f. fwd_round a b ?n ?m off (int d) (- int d) v = Some (v', f) \<and>
           (if f then \<exists>j. corner a b d j
            else ready a b off (Suc d) v' \<and> (\<forall>j. \<not> corner a b d j))"
      by (rule fwd_round_ok) (use less.prems True in \<open>auto simp: diag_def\<close>)
    then obtain v' f where r: "fwd_round a b ?n ?m off (int d) (- int d) v = Some (v', f)"
      and fr: "if f then \<exists>j. corner a b d j
            else ready a b off (Suc d) v' \<and> (\<forall>j. \<not> corner a b d j)" by blast
    have tr: "traced a b off (trace @ [v])" using less.prems traced_snoc by auto
    show ?thesis
    proof (cases f)
      case True
      with fr obtain j where "corner a b d j" by auto
      with True tr r less.prems(3,5) \<open>int d \<le> maxD\<close> show ?thesis
        by (subst fwd_loop.simps) auto
    next
      case False
      have "\<exists>trace' endD f.
         fwd_loop a b ?n ?m maxD off (int (Suc d)) v' (trace @ [v]) = Some (trace', endD, f) \<and>
         (if f then \<exists>D k. endD = int D \<and> corner a b D k \<and> traced a b off trace' \<and> D < length trace' \<and>
            (\<forall>e < D. \<forall>j. \<not> corner a b e j)
          else \<forall>e j. int e \<le> maxD \<longrightarrow> \<not> corner a b e j)"
      proof (rule less.hyps)
        show "\<And>e j. e < Suc d \<Longrightarrow> \<not> corner a b e j"
          using fr False less.prems(5) by (auto simp: less_Suc_eq)
      qed (use less.prems True False fr tr in auto)
      moreover have "fwd_loop a b ?n ?m maxD off (int d) v trace =
          fwd_loop a b ?n ?m maxD off (int (Suc d)) v' (trace @ [v])"
        using True False r by (subst fwd_loop.simps) (simp add: add.commute)
      ultimately show ?thesis by simp
    qed
  qed
qed

lemma myersForward_ok:
  assumes "0 < off"
  shows "\<exists>trace endD f.
     myersForward a b (int (length a)) (int (length b)) off off = Some (trace, endD, f) \<and>
     (if f then \<exists>D k. endD = int D \<and> corner a b D k \<and> traced a b off trace \<and> D < length trace \<and>
        (\<forall>e < D. \<forall>j. \<not> corner a b e j)
      else \<forall>e j. int e \<le> off \<longrightarrow> \<not> corner a b e j)"
proof -
  have "ready a b off 0 (replicate (nat (2 * off + 1)) 0)"
    using assms by (auto simp: ready_def aget_def nth_replicate)
  then show ?thesis
    using fwd_loop_ok [of a b off 0 "replicate (nat (2 * off + 1)) 0" "[]" off]
    by (simp add: myersForward_def traced_def)
qed

section \<open>The backtracking pass reproduces both sides\<close>

text \<open>What a reversed partial script describes: everything from position \<open>(x, y)\<close> on.\<close>

definition covers :: "string list \<Rightarrow> string list \<Rightarrow> int \<Rightarrow> int \<Rightarrow> script \<Rightarrow> bool" where
  "covers a b x y s \<longleftrightarrow>
     0 \<le> x \<and> x \<le> int (length a) \<and> 0 \<le> y \<and> y \<le> int (length b) \<and>
     old_text (rev s) = drop (nat x) a \<and> new_text (rev s) = drop (nat y) b"

lemma drop_step: "0 < x \<Longrightarrow> x \<le> int (length a) \<Longrightarrow>
    a ! nat (x - 1) # drop (nat x) a = drop (nat (x - 1)) a"
proof -
  assume x: "0 < x" "x \<le> int (length a)"
  then have "Suc (nat (x - 1)) = nat x" "nat (x - 1) < length a" by auto
  then show ?thesis by (metis Cons_nth_drop_Suc)
qed

lemma covers_equal:
  "covers a b x y s \<Longrightarrow> 0 < x \<Longrightarrow> 0 < y \<Longrightarrow> a ! nat (x - 1) = b ! nat (y - 1) \<Longrightarrow>
   covers a b (x - 1) (y - 1) (s @ [mk_line Equal (a ! nat (x - 1))])"
  using drop_step [of x a] drop_step [of y b] by (auto simp: covers_def)

lemma covers_insert:
  "covers a b x y s \<Longrightarrow> 0 < y \<Longrightarrow> covers a b x (y - 1) (s @ [mk_line Insert (b ! nat (y - 1))])"
  using drop_step [of y b] by (auto simp: covers_def)

lemma covers_delete:
  "covers a b x y s \<Longrightarrow> 0 < x \<Longrightarrow> covers a b (x - 1) y (s @ [mk_line Delete (a ! nat (x - 1))])"
  using drop_step [of x a] by (auto simp: covers_def)

lemma back_snake_ok:
  assumes "covers a b x y s" "0 \<le> px" "0 \<le> py" "px \<le> x" "x - px = y - py"
    and "\<And>i. px \<le> i \<Longrightarrow> i < x \<Longrightarrow> a ! nat i = b ! nat (i - px + py)"
  shows "\<exists>s'. back_snake a b px py x y s = Some (px, py, s') \<and> covers a b px py s'"
  using assms
proof (induction "nat (x - px)" arbitrary: x y s rule: less_induct)
  case less
  show ?case
  proof (cases "px < x")
    case False
    with less.prems show ?thesis by (subst back_snake.simps) auto
  next
    case True
    have xy: "0 < x" "0 < y" "py < y" using less.prems True by auto
    have "x - 1 - px + py = y - 1" using less.prems(5) by simp
    moreover have "a ! nat (x - 1) = b ! nat (x - 1 - px + py)"
      by (rule less.prems(6)) (use True in auto)
    ultimately have eq: "a ! nat (x - 1) = b ! nat (y - 1)" by (simp only:)
    let ?s = "s @ [mk_line Equal (a ! nat (x - 1))]"
    have "\<exists>s'. back_snake a b px py (x - 1) (y - 1) ?s = Some (px, py, s') \<and> covers a b px py s'"
      by (rule less.hyps) (use less.prems True covers_equal [OF less.prems(1) xy(1,2) eq] in auto)
    moreover have "back_snake a b px py x y s = back_snake a b px py (x - 1) (y - 1) ?s"
      using less.prems(1) True xy eq
      by (subst back_snake.simps) (auto simp: covers_def go_simps)
    ultimately show ?thesis by simp
  qed
qed

lemma reach_common:
  assumes "reach_start a b d k \<le> i" "i < reach a b d k"
  shows "a ! nat i = b ! nat (i - k)"
  using slide_common [of "reach_start a b d k" i a b "reach_start a b d k - k"] assms
  by (simp add: reach_eq)

lemma back_loop_ok:
  assumes "traced a b off trace" "d < length trace" "diag d k"
    and "covers a b (reach a b d k) (reach a b d k - k) s"
  shows "\<exists>x s'. back_loop a b trace off (int d) (reach a b d k) (reach a b d k - k) s = Some (x, x, s') \<and>
           covers a b x x s' \<and> (\<forall>i. 0 \<le> i \<and> i < x \<longrightarrow> a ! nat i = b ! nat i)"
  using assms
proof (induction d arbitrary: k s)
  case 0
  then have "k = 0" by simp
  with 0 show ?case
    using reach_common [of a b 0 0] by (subst back_loop.simps) (auto simp: reach_start_def)
next
  case (Suc e)
  let ?d = "Suc e" and ?x = "reach a b (Suc e) k"
  have rdy: "ready a b off ?d (trace ! ?d)" using Suc.prems by (simp add: traced_def)
  have tr: "aget trace (int ?d) = Some (trace ! ?d)"
    using Suc.prems(2) by (simp only: aget_nat if_True)
  have pos: "0 \<le> reach_start a b ?d k" "k \<le> reach_start a b ?d k"
    using reach_quadrant [OF Suc.prems(3)] by auto
  have le: "reach_start a b ?d k \<le> ?x" by (rule reach_start_le)
  have bs: "\<exists>s'. back_snake a b (reach_start a b ?d k) (reach_start a b ?d k - k) ?x (?x - k) s =
        Some (reach_start a b ?d k, reach_start a b ?d k - k, s') \<and>
        covers a b (reach_start a b ?d k) (reach_start a b ?d k - k) s'"
    using Suc.prems(4) pos le reach_common [of a b ?d k]
    by (intro back_snake_ok) auto
  then obtain s1 where s1: "back_snake a b (reach_start a b ?d k) (reach_start a b ?d k - k) ?x (?x - k) s =
        Some (reach_start a b ?d k, reach_start a b ?d k - k, s1)"
    and cv: "covers a b (reach_start a b ?d k) (reach_start a b ?d k - k) s1" by blast
  from rdy Suc.prems(3) show ?case
  proof (cases rule: ready_choice)
    case down
    let ?p = "reach a b e (k + 1)"
    have k1: "diag e (k + 1)" and st: "reach_start a b ?d k = ?p" using down(3) by auto
    have p: "0 < ?p - k" "?p - (k + 1) + 1 = ?p - k" "?p - (k + 1) = ?p - k - 1"
      using reach_pos [OF k1, of a b] by auto
    let ?s = "s1 @ [mk_line Insert (b ! nat (?p - k - 1))]"
    have cv': "covers a b ?p (?p - (k + 1)) ?s"
      using covers_insert [OF cv [unfolded st] p(1)] by (simp add: p(3))
    have "aget b (?p - k - 1) = Some (b ! nat (?p - k - 1))"
      using cv p(1) by (auto simp: covers_def st go_simps)
    then have "back_loop a b trace off (int ?d) ?x (?x - k) s =
        back_loop a b trace off (int e) ?p (?p - (k + 1)) ?s"
      using down tr s1 st p by (subst back_loop.simps) (simp add: Let_def)
    with Suc.IH [OF Suc.prems(1) _ k1 cv'] Suc.prems(2) show ?thesis by simp
  next
    case (right e')
    then have e: "e' = e" by simp
    let ?p = "reach a b e (k - 1)"
    have k1: "diag e (k - 1)" and st: "reach_start a b ?d k = ?p + 1"
      using right(3,5) by (simp_all only: e)
    have p: "0 < ?p + 1" "?p + 1 - k = ?p - (k - 1)" using reach_pos [OF k1, of a b] by auto
    let ?s = "s1 @ [mk_line Delete (a ! nat ?p)]"
    have cv': "covers a b ?p (?p - (k - 1)) ?s"
      using covers_delete [OF cv [unfolded st] p(1)] by (simp add: p(2))
    have "aget a ?p = Some (a ! nat ?p)"
      using cv p(1) by (auto simp: covers_def st go_simps)
    then have "back_loop a b trace off (int ?d) ?x (?x - k) s =
        back_loop a b trace off (int e) ?p (?p - (k - 1)) ?s"
      using right(1) right(4) [unfolded e] tr s1 st p by (subst back_loop.simps) (simp add: Let_def)
    with Suc.IH [OF Suc.prems(1) _ k1 cv'] Suc.prems(2) show ?thesis by simp
  qed
qed

lemma lead_in_ok:
  assumes "covers a b x x s" "\<And>i. 0 \<le> i \<Longrightarrow> i < x \<Longrightarrow> a ! nat i = b ! nat i"
  shows "\<exists>s'. lead_in a x s = Some s' \<and> covers a b 0 0 s'"
  using assms
proof (induction "nat x" arbitrary: x s rule: less_induct)
  case less
  show ?case
  proof (cases "0 < x")
    case False
    with less.prems have "x = 0" by (auto simp: covers_def)
    with less.prems show ?thesis by (subst lead_in.simps) auto
  next
    case True
    let ?s = "s @ [mk_line Equal (a ! nat (x - 1))]"
    have "\<exists>s'. lead_in a (x - 1) ?s = Some s' \<and> covers a b 0 0 s'"
      by (rule less.hyps) (use True less.prems covers_equal [OF less.prems(1) True True] in auto)
    moreover have "lead_in a x s = lead_in a (x - 1) ?s"
      using True less.prems(1) by (subst lead_in.simps) (auto simp: covers_def go_simps)
    ultimately show ?thesis by simp
  qed
qed

lemma myersBacktrack_ok:
  assumes "traced a b off trace" "D < length trace" "corner a b D k"
  shows "\<exists>s. myersBacktrack a b (int (length a)) (int (length b)) trace (int D) off = Some s \<and>
           old_text s = a \<and> new_text s = b"
proof -
  from assms(3) have c: "diag D k" "reach a b D k = int (length a)"
    "reach a b D k - k = int (length b)" by (auto simp: corner_def)
  have "covers a b (reach a b D k) (reach a b D k - k) []"
    using c by (simp add: covers_def)
  from back_loop_ok [OF assms(1,2) c(1) this] c
  obtain x s where bl: "back_loop a b trace off (int D) (int (length a)) (int (length b)) [] = Some (x, x, s)"
    and cv: "covers a b x x s" and eq: "\<forall>i. 0 \<le> i \<and> i < x \<longrightarrow> a ! nat i = b ! nat i" by auto
  from lead_in_ok [OF cv] eq obtain s' where "lead_in a x s = Some s'" "covers a b 0 0 s'" by blast
  with bl show ?thesis by (simp add: myersBacktrack_def covers_def)
qed

lemma wholeFile_sides:
  "old_text (wholeFileEditScript a b) = a" "new_text (wholeFileEditScript a b) = b"
proof -
  have "old_text (map (mk_line Delete) a) = a" "new_text (map (mk_line Delete) a) = []"
    by (induction a) simp_all
  moreover have "old_text (map (mk_line Insert) b) = []" "new_text (map (mk_line Insert) b) = b"
    by (induction b) simp_all
  ultimately show "old_text (wholeFileEditScript a b) = a" "new_text (wholeFileEditScript a b) = b"
    by (simp_all add: wholeFileEditScript_def)
qed

text \<open>How many lines of a script are edits, and that backtracking makes one per round.\<close>

definition edits :: "script \<Rightarrow> nat" where
  "edits s = length (filter (\<lambda>l. l_op l \<noteq> Equal) s)"

lemma edits_simps [simp]:
  "edits [] = 0" "edits (s @ t) = edits s + edits t" "edits (rev s) = edits s"
  "edits (l # s) = (if l_op l = Equal then edits s else Suc (edits s))"
  by (simp_all add: edits_def rev_filter [symmetric])

lemma edits_Counts: "edits s = fst (Counts s) + snd (Counts s)"
  by (induction s) (auto split: prod.splits edit_op.splits)

lemma back_snake_edits: "back_snake a b px py x y s = Some (x', y', s') \<Longrightarrow> edits s' = edits s"
proof (induction "nat (x - px)" arbitrary: x y s rule: less_induct)
  case less
  from less.prems show ?case
    by (subst (asm) back_snake.simps)
      (fastforce simp: bind_eq_Some_conv dest: less.hyps [rotated] split: if_splits)
qed

lemma back_loop_edits:
  "back_loop a b trace off d x y s = Some (x', y', s') \<Longrightarrow> edits s' = edits s + nat d"
proof (induction "nat d" arbitrary: d x y s rule: less_induct)
  case less
  show ?case
  proof (cases "0 < d")
    case False
    with less.prems show ?thesis by (subst (asm) back_loop.simps) simp
  next
    case True
    have ih: "edits s' = edits (s1 @ [l]) + nat (d - 1)"
      if "back_loop a b trace off (d - 1) px py (s1 @ [l]) = Some (x', y', s')" for px py s1 l
      using True by (intro less.hyps [OF _ that]) simp
    from less.prems True show ?thesis
      by (subst (asm) back_loop.simps)
        (auto simp: Let_def bind_eq_Some_conv split: if_splits dest!: back_snake_edits ih)
  qed
qed

lemma lead_in_edits: "lead_in a x s = Some s' \<Longrightarrow> edits s' = edits s"
proof (induction "nat x" arbitrary: x s rule: less_induct)
  case less
  from less.prems show ?case
    by (subst (asm) lead_in.simps)
      (fastforce simp: bind_eq_Some_conv dest: less.hyps [rotated] split: if_splits)
qed

lemma myersBacktrack_edits:
  "myersBacktrack a b n m trace (int D) off = Some s \<Longrightarrow> edits s = D"
  by (auto simp: myersBacktrack_def bind_eq_Some_conv dest!: back_loop_edits lead_in_edits)

text \<open>
  No script reaches further than the greedy pass: after \<open>e\<close> edits a script that stands on
  diagonal \<open>k\<close> stands at most at \<open>reach a b e k\<close>.
\<close>

lemma slide_stops:
  "0 \<le> x \<Longrightarrow> 0 \<le> y \<Longrightarrow> z = slide a b x y \<Longrightarrow>
   z < int (length a) \<Longrightarrow> z - x + y < int (length b) \<Longrightarrow> a ! nat z \<noteq> b ! nat (z - x + y)"
proof (induction a b x y rule: slide.induct)
  case (1 a b x y)
  let ?c = "0 \<le> x \<and> 0 \<le> y \<and> x < int (length a) \<and> y < int (length b) \<and> a ! nat x = b ! nat y"
  show ?case
  proof (cases ?c)
    case True
    then have "slide a b x y = slide a b (x + 1) (y + 1)" by (subst slide.simps) simp
    moreover have "z - (x + 1) + (y + 1) = z - x + y" by simp
    ultimately show ?thesis using "1.IH" [OF True] "1.prems" by (simp only:) simp
  next
    case False
    then have "slide a b x y = x" by (subst slide.simps) auto
    with False 1 show ?thesis by auto
  qed
qed

lemma reach_stops:
  assumes "diag d k" "reach a b d k < int (length a)" "reach a b d k - k < int (length b)"
  shows "a ! nat (reach a b d k) \<noteq> b ! nat (reach a b d k - k)"
  using slide_stops [of "reach_start a b d k" "reach_start a b d k - k" "reach a b d k" a b]
    reach_quadrant [OF assms(1), of a b] assms by (simp add: reach_eq)

definition pos_diag :: "script \<Rightarrow> int" where
  "pos_diag s = int (length (old_text s)) - int (length (new_text s))"

lemma script_reach:
  assumes "prefix (old_text s) a" "prefix (new_text s) b"
  shows "diag (edits s) (pos_diag s) \<and> int (length (old_text s)) \<le> reach a b (edits s) (pos_diag s)"
  using assms
proof (induction s rule: rev_induct)
  case Nil
  show ?case using reach_pos [of 0 0 a b] by (simp add: pos_diag_def)
next
  case (snoc l s)
  let ?k = "pos_diag s" and ?e = "edits s"
  have pre: "prefix (old_text s) a" "prefix (new_text s) b"
    using snoc.prems by (auto dest: append_prefixD split: if_splits)
  note ih = snoc.IH [OF pre]
  show ?case
  proof (cases "l_op l")
    case Equal
    let ?x = "length (old_text s)" and ?y = "length (new_text s)"
    have at: "?x < length a" "?y < length b" "a ! ?x = l_text l" "b ! ?y = l_text l"
      using snoc.prems Equal by (auto simp: prefix_def nth_append)
    have "int ?x \<noteq> reach a b ?e ?k"
    proof
      assume r: "int ?x = reach a b ?e ?k"
      then have y: "reach a b ?e ?k - ?k = int ?y" by (simp add: pos_diag_def)
      have "a ! nat (int ?x) \<noteq> b ! nat (int ?y)"
        using reach_stops [of ?e ?k a b] ih r y at by simp
      with at show False by simp
    qed
    with ih Equal show ?thesis by (simp add: pos_diag_def)
  next
    case Delete
    have "pos_diag (s @ [l]) = ?k + 1" using Delete by (simp add: pos_diag_def)
    with ih Delete reach_step_up(2) [of ?e ?k a b] show ?thesis
      by (auto simp: diag_def)
  next
    case Insert
    have "pos_diag (s @ [l]) = ?k - 1" using Insert by (simp add: pos_diag_def)
    with ih Insert reach_step_up(1) [of ?e ?k a b] show ?thesis
      by (auto simp: diag_def)
  qed
qed

lemma script_met: "old_text t = a \<Longrightarrow> new_text t = b \<Longrightarrow> met a b (edits t)"
  using script_reach [of t a b] not_beyond_corner [of a b "edits t" "pos_diag t"]
  by (auto simp: pos_diag_def)

text \<open>The forward pass of \<open>Compute\<close>, with the budget it runs under.\<close>

lemma Compute_cases:
  assumes "a \<noteq> [] \<or> b \<noteq> []"
  obtains (exact) trace D k off where
      "Compute a b = myersBacktrack a b (int (length a)) (int (length b)) trace (int D) off"
      "corner a b D k" "traced a b off trace" "D < length trace"
      "\<And>e j. e < D \<Longrightarrow> \<not> corner a b e j"
    | (coarse) "Compute a b = Some (wholeFileEditScript a b)"
      "\<And>e j. int e \<le> MaxMyersDistance \<Longrightarrow> \<not> corner a b e j"
proof -
  let ?N = "int (length a) + int (length b)"
  define bounded where "bounded = (MaxMyersDistance < ?N)"
  define off where "off = (if bounded then MaxMyersDistance else ?N)"
  have "0 < ?N" using assms by (cases a) (auto simp: neq_Nil_conv)
  then have "0 < off" by (auto simp: off_def MaxMyersDistance_def)
  from myersForward_ok [OF this, of a b] obtain trace endD f where
    fw: "myersForward a b (int (length a)) (int (length b)) off off = Some (trace, endD, f)"
    and fr: "if f then \<exists>D k. endD = int D \<and> corner a b D k \<and> traced a b off trace \<and> D < length trace \<and>
        (\<forall>e < D. \<forall>j. \<not> corner a b e j)
      else \<forall>e j. int e \<le> off \<longrightarrow> \<not> corner a b e j" by blast
  have ne: "(int (length a) = 0 \<and> int (length b) = 0) = False" using assms by simp
  have C: "Compute a b =
      (if \<not> f then if bounded then Some (wholeFileEditScript a b) else Some []
       else myersBacktrack a b (int (length a)) (int (length b)) trace endD off)"
    unfolding Compute_def Let_def bounded_def [symmetric] off_def [symmetric] ne by (simp add: fw)
  show thesis
  proof (cases f)
    case True
    with fr obtain D k where "endD = int D" "corner a b D k" "traced a b off trace" "D < length trace"
      "\<forall>e < D. \<forall>j. \<not> corner a b e j" by auto
    with C True show thesis by (intro exact) auto
  next
    case nf: False
    have bounded
    proof (rule ccontr)
      assume "\<not> bounded"
      moreover obtain e j where "e \<le> length a + length b" "corner a b e j"
        using met_bound met_corner by blast
      ultimately show False using nf fr by (auto simp: off_def)
    qed
    with nf C fr show thesis by (intro coarse) (auto simp: off_def)
  qed
qed

lemma Compute_sides: "\<exists>s. Compute a b = Some s \<and> old_text s = a \<and> new_text s = b"
proof (cases "a \<noteq> [] \<or> b \<noteq> []")
  case True
  then show ?thesis
  proof (cases rule: Compute_cases)
    case exact
    with myersBacktrack_ok show ?thesis by metis
  next
    case coarse
    with wholeFile_sides show ?thesis by simp
  qed
qed (simp add: Compute_def)

lemma Compute_minimal:
  assumes "Compute a b = Some s" "old_text t = a" "new_text t = b"
    and "int (edits t) \<le> MaxMyersDistance"
  shows "edits s \<le> edits t"
proof (cases "a \<noteq> [] \<or> b \<noteq> []")
  case True
  obtain e j where e: "e \<le> edits t" "corner a b e j"
    using script_met assms met_corner by blast
  from True show ?thesis
  proof (cases rule: Compute_cases)
    case (exact trace D k off)
    with assms(1) have "edits s = D" by (simp add: myersBacktrack_edits)
    with exact(5) e show ?thesis by (meson le_less_linear order_trans)
  next
    case coarse
    with e assms(4) show ?thesis by force
  qed
next
  case False
  with assms(1) show ?thesis by (simp add: Compute_def)
qed

section \<open>Properties\<close>

text \<open>C38. Compute in myers.go returns on every pair of line lists, with every index of its trace and of
  the two inputs in range, and the script it returns has the old lines as its old side and
  the new lines as its new side, the fallback past the distance bound included.\<close>

theorem Compute_total_faithful:
  "\<exists>s. Compute a b = Some s \<and> old_text s = a \<and> new_text s = b"
  by (rule Compute_sides)

text \<open>C36. When some script between the two sides has at most MaxMyersDistance changes, the script
  of Compute has no more changes than any such script: the bounded Myers search finds a
  shortest one.\<close>

theorem Compute_shortest:
  assumes "Compute a b = Some s" "old_text t = a" "new_text t = b"
    and "int (edits t) \<le> MaxMyersDistance"
  shows "fst (Counts s) + snd (Counts s) \<le> fst (Counts t) + snd (Counts t)"
  using Compute_minimal [OF assms] by (simp add: edits_Counts)

theorem Compute_shortest_witness:
  "fst (Counts [mk_line Delete ''a'', mk_line Equal ''b'', mk_line Insert ''c'']) +
   snd (Counts [mk_line Delete ''a'', mk_line Equal ''b'', mk_line Insert ''c''])
   \<le> fst (Counts [mk_line Delete ''a'', mk_line Delete ''b'', mk_line Insert ''b'', mk_line Insert ''c'']) +
     snd (Counts [mk_line Delete ''a'', mk_line Delete ''b'', mk_line Insert ''b'', mk_line Insert ''c''])"
proof (rule Compute_shortest [of "[''a'', ''b'']" "[''b'', ''c'']"])
  show "Compute [''a'', ''b''] [''b'', ''c''] =
      Some [mk_line Delete ''a'', mk_line Equal ''b'', mk_line Insert ''c'']"
    by code_simp
qed (code_simp+)

end
