(* ===== verification/Plumb_DirtyGuard.thy ===== *)
theory Plumb_DirtyGuard
  imports Plumb_Substrings
begin

text \<open>
  The dirty-file guard of the write tools (\<open>internal/tools/file_write_helpers.go\<close>): what git
  prints for \<open>status --porcelain\<close> in the directory of the file, a parameter, is parsed into the
  names of dirty files, and a write to one of them is refused. A file is given by its directory
  and its base name; \<open>None\<close> is a missing git or a failing call.
\<close>

definition trim_newlines :: "string \<Rightarrow> string" where
  "trim_newlines s = rev (dropWhile (\<lambda>c. c = CHR 0x0A) (rev s))"

definition dirty_name :: "bool \<Rightarrow> string \<Rightarrow> string option" where
  "dirty_name skipUntracked line =
     (if length line < 4 then None
      else if skipUntracked \<and> hd line = CHR ''?'' then None
      else Some (trim_space (case cut_str '' -> '' (drop 3 line) of Some (old, new) \<Rightarrow> new | None \<Rightarrow> drop 3 line)))"

definition dirtyBasenamesInDir :: "(string \<Rightarrow> string list \<Rightarrow> string option) \<Rightarrow> string \<Rightarrow> string list \<Rightarrow> bool \<Rightarrow> string list" where
  "dirtyBasenamesInDir git dir files skipUntracked =
     (case git dir files of
        None \<Rightarrow> []
      | Some out \<Rightarrow>
          if out = [] then []
          else List.map_filter (dirty_name skipUntracked) (split_on (CHR 0x0A) (trim_newlines out)))"

definition pathIsDirty :: "(string \<Rightarrow> string list \<Rightarrow> string option) \<Rightarrow> string \<Rightarrow> string \<Rightarrow> bool" where
  "pathIsDirty git dir base = (base \<in> set (dirtyBasenamesInDir git dir [base] False))"

definition pathIsDirtyIgnoringUntracked :: "(string \<Rightarrow> string list \<Rightarrow> string option) \<Rightarrow> string \<Rightarrow> string \<Rightarrow> bool" where
  "pathIsDirtyIgnoringUntracked git dir base = (base \<in> set (dirtyBasenamesInDir git dir [base] True))"

definition dirtyBlocksWrite ::
  "(string \<Rightarrow> string list \<Rightarrow> string option) \<Rightarrow> bool \<Rightarrow> (string \<Rightarrow> string \<Rightarrow> bool) \<Rightarrow> string \<Rightarrow> string \<Rightarrow> bool" where
  "dirtyBlocksWrite git blockDirty wrote dir base =
     (if \<not> blockDirty then False else if wrote dir base then False else pathIsDirty git dir base)"

definition dirtyBlocksMove ::
  "(string \<Rightarrow> string list \<Rightarrow> string option) \<Rightarrow> bool \<Rightarrow> (string \<Rightarrow> string \<Rightarrow> bool) \<Rightarrow> string \<Rightarrow> string \<Rightarrow> bool" where
  "dirtyBlocksMove git blockDirty wrote dir base =
     (if \<not> blockDirty then False else if wrote dir base then False else pathIsDirtyIgnoringUntracked git dir base)"

section \<open>Parsing git's output\<close>

text \<open>
  What git prints, as documented: for each change two status characters, a space and the path
  from the top of the working tree.
\<close>

definition printed :: "(char \<times> char \<times> string) list \<Rightarrow> string" where
  "printed changes = concat (map (\<lambda>(x, y, p). [x, y, CHR '' ''] @ p @ [CHR 0x0A]) changes)"

definition plain_path :: "string \<Rightarrow> bool" where
  "plain_path p = (p \<noteq> [] \<and> CHR 0x0A \<notin> set p \<and> \<not> contains p '' -> '' \<and> trim_space p = p)"

definition status_char :: "char \<Rightarrow> bool" where
  "status_char x = (x \<noteq> CHR 0x0A)"

lemma trim_one_newline:
  "s \<noteq> [] \<Longrightarrow> last s \<noteq> CHR 0x0A \<Longrightarrow> trim_newlines (s @ [CHR 0x0A]) = s"
  by (cases s rule: rev_cases) (simp_all add: trim_newlines_def)

lemma printed_lines:
  assumes "list_all (\<lambda>(x, y, p). status_char x \<and> status_char y \<and> plain_path p) changes" "changes \<noteq> []"
  shows "split_on (CHR 0x0A) (trim_newlines (printed changes)) = map (\<lambda>(x, y, p). [x, y, CHR '' ''] @ p) changes"
proof -
  define ls where "ls = map (\<lambda>(x, y, p). [x, y, CHR '' ''] @ p) changes"
  have fresh: "\<forall>l \<in> set ls. CHR 0x0A \<notin> set l \<and> l \<noteq> []"
    using assms(1) by (auto simp: ls_def list_all_iff status_char_def plain_path_def)
  have "printed changes = join_with [CHR 0x0A] ls @ [CHR 0x0A]" using assms(2)
    unfolding ls_def printed_def
  proof (induction changes)
    case (Cons c cs)
    then show ?case by (cases cs) (auto simp: split: prod.splits)
  qed simp
  moreover have "last (join_with [CHR 0x0A] ls) \<noteq> CHR 0x0A \<and> join_with [CHR 0x0A] ls \<noteq> []"
    if "ls \<noteq> []" "\<forall>l \<in> set ls. CHR 0x0A \<notin> set l \<and> l \<noteq> []" for ls :: "string list"
    using that
  proof (induction ls)
    case (Cons w ws)
    then show ?case by (cases ws) (auto dest: last_in_set)
  qed simp
  ultimately have "trim_newlines (printed changes) = join_with [CHR 0x0A] ls"
    using fresh assms(2) trim_one_newline [of "join_with [CHR 0x0A] ls"] by (simp add: ls_def)
  then show ?thesis using fresh assms(2) by (simp add: split_join ls_def)
qed

lemma dirty_name_printed:
  "plain_path p \<Longrightarrow> dirty_name skip (x # y # CHR '' '' # p) = (if skip \<and> x = CHR ''?'' then None else Some p)"
  by (cases p) (auto simp: dirty_name_def plain_path_def cut_str_None [THEN iffD2])

theorem dirty_names_exact:
  assumes "list_all (\<lambda>(x, y, p). status_char x \<and> status_char y \<and> plain_path p) changes"
    and "git dir files = Some (printed changes)"
  shows "set (dirtyBasenamesInDir git dir files skip) = {p. \<exists>x y. (x, y, p) \<in> set changes \<and> \<not> (skip \<and> x = CHR ''?'')}"
proof (cases "changes = []")
  case True
  then show ?thesis using assms(2) by (simp add: dirtyBasenamesInDir_def printed_def)
next
  case False
  have ne: "printed changes \<noteq> []" using False by (cases changes) (auto simp: printed_def)
  have "set (List.map_filter (dirty_name skip) (map (\<lambda>(x, y, p). [x, y, CHR '' ''] @ p) changes)) =
      {p. \<exists>x y. (x, y, p) \<in> set changes \<and> \<not> (skip \<and> x = CHR ''?'')}"
    using assms(1)
    by (induction changes) (fastforce simp: List.map_filter_simps dirty_name_printed split: option.split if_splits)+
  then show ?thesis
    using assms(2) ne printed_lines [OF assms(1) False] by (simp add: dirtyBasenamesInDir_def)
qed

section \<open>What the guard sees\<close>

lemma dirtyBlocksWrite_iff:
  assumes "list_all (\<lambda>(x, y, p). status_char x \<and> status_char y \<and> plain_path p) changes"
    and "git dir [base] = Some (printed changes)"
  shows "dirtyBlocksWrite git blockDirty wrote dir base \<longleftrightarrow>
     blockDirty \<and> \<not> wrote dir base \<and> (\<exists>x y. (x, y, base) \<in> set changes)"
  using dirty_names_exact [of changes git dir "[base]" False, OF assms] by (auto simp: dirtyBlocksWrite_def pathIsDirty_def)

lemma dirtyBlocksMove_iff:
  assumes "list_all (\<lambda>(x, y, p). status_char x \<and> status_char y \<and> plain_path p) changes"
    and "git dir [base] = Some (printed changes)"
  shows "dirtyBlocksMove git blockDirty wrote dir base \<longleftrightarrow>
     blockDirty \<and> \<not> wrote dir base \<and> (\<exists>x y. (x, y, base) \<in> set changes \<and> x \<noteq> CHR ''?'')"
  using dirty_names_exact [of changes git dir "[base]" True, OF assms] by (auto simp: dirtyBlocksMove_def pathIsDirtyIgnoringUntracked_def)

text \<open>
  The names git prints are relative to the top of the working tree, also when it is run below;
  the guard looks its base name up among them. For a file in a directory below the top, whose
  printed name has a slash, it finds nothing.
\<close>

theorem dirty_guard_blind_below_top:
  assumes "list_all (\<lambda>(x, y, p). status_char x \<and> status_char y \<and> plain_path p) changes"
    and "list_all (\<lambda>(x, y, p). has_prefix p (sub @ ''/'')) changes"
    and "git dir [base] = Some (printed changes)" "CHR ''/'' \<notin> set base"
  shows "\<not> dirtyBlocksWrite git blockDirty wrote dir base"
proof -
  have "(x, y, base) \<notin> set changes" for x y
    using assms(2,4) by (force simp: list_all_iff has_prefix_iff)
  then show ?thesis by (simp add: dirtyBlocksWrite_iff [of changes git dir base, OF assms(1,3)])
qed

text \<open>A modified file at the top is refused; the same file one directory down is written over.\<close>

lemma dirty_guard_demo:
  "dirtyBlocksWrite (\<lambda>_ _. Some (printed [(CHR '' '', CHR ''M'', ''f.go'')])) True (\<lambda>_ _. False) ''/r'' ''f.go''"
  "\<not> dirtyBlocksWrite (\<lambda>_ _. Some (printed [(CHR '' '', CHR ''M'', ''sub/f.go'')])) True (\<lambda>_ _. False) ''/r/sub'' ''f.go''"
  by code_simp+

end
