(* ===== verification/Plumb_RangeEdit.thy ===== *)
theory Plumb_RangeEdit
  imports Plumb_Diff
begin

text \<open>
  Line-range edits of edit_file: \<open>internal/tools/range_edit.go\<close>. Line numbers are integers,
  since negative ones and 0 have a meaning; offsets index the bytes of the file. An index or
  substr bound out of range would be a panic, \<open>None\<close>; the refusals are \<open>Inl\<close>.
\<close>

datatype range_error =
    Empty_file int
  | Start_out_of_range int nat
  | End_before_start int int

definition NL :: char where
  "NL = CHR ''\<newline>''"

definition CR :: char where
  "CR = CHR 0x0D"

definition lineOffsets :: "string \<Rightarrow> nat list" where
  "lineOffsets content =
     (if content = [] then []
      else 0 # map Suc (filter (\<lambda>i. content ! i = NL) [0..<length content - 1]))"

definition trailingLineEnding :: "string \<Rightarrow> string" where
  "trailingLineEnding s =
     (if has_suffix s [CR, NL] then [CR, NL] else if has_suffix s [NL] then [NL] else [])"

definition terminateLike :: "string \<Rightarrow> string \<Rightarrow> string" where
  "terminateLike newStr replaced =
     (if newStr = [] \<or> has_suffix newStr [NL] then newStr
      else newStr @ trailingLineEnding replaced)"

definition appendLines :: "string \<Rightarrow> string \<Rightarrow> string" where
  "appendLines content newStr =
     (if content = [] \<or> newStr = [] then content @ newStr
      else if trailingLineEnding content = [] then
        content @ (if contains content [CR, NL] then [CR, NL] else [NL]) @ newStr
      else content @ terminateLike newStr content)"

text \<open>The slice \<open>s[i:j]\<close>.\<close>

definition substr :: "string \<Rightarrow> nat \<Rightarrow> nat \<Rightarrow> string option" where
  "substr s i j = (if i \<le> j \<and> j \<le> length s then Some (drop i (take j s)) else None)"

definition range_end :: "int \<Rightarrow> int \<Rightarrow> nat \<Rightarrow> int" where
  "range_end startLine endLine totalLines =
     (let end1 = (if endLine = 0 then startLine else endLine);
          end2 = (if end1 < 0 then int totalLines else end1)
      in if end2 > int totalLines then int totalLines else end2)"

definition applyRangeEdit ::
  "string \<Rightarrow> int \<Rightarrow> int \<Rightarrow> string \<Rightarrow> (range_error + string) option" where
  "applyRangeEdit content startLine endLine newStr =
     (if startLine = -1 then Some (Inr (appendLines content newStr))
      else
        (let offsets = lineOffsets content; totalLines = length offsets in
         if totalLines = 0 then
           (if startLine = 1 then Some (Inr newStr) else Some (Inl (Empty_file startLine)))
         else if startLine < 1 \<or> startLine > int totalLines then
           Some (Inl (Start_out_of_range startLine totalLines))
         else
           (let e = range_end startLine endLine totalLines in
            if e < startLine then Some (Inl (End_before_start e startLine))
            else
              do {
                startOff \<leftarrow> aget offsets (startLine - 1);
                endOff \<leftarrow> (if e = int totalLines then Some (length content) else aget offsets e);
                before_part \<leftarrow> substr content 0 startOff;
                replaced \<leftarrow> substr content startOff endOff;
                after_part \<leftarrow> substr content endOff (length content);
                Some (Inr (before_part @ terminateLike newStr replaced @ after_part))
              })))"

end
