(* ===== verification/Plumb_EditFile.thy ===== *)
theory Plumb_EditFile
  imports Plumb_RangeEdit Plumb_Substrings "HOL-Library.Word"
begin

text \<open>
  The tool \<open>edit_file\<close> (\<open>internal/tools/edit_file*.go\<close>): the exactly-once match of an old
  text with its two forgivenesses (line endings, a pasted line-number gutter), the edit
  between two anchors, which is lowered to such a match, a batch of edits all or nothing and
  its partial variant, and the attempt that reads, edits and writes the file while other
  processes may change it, repeated up to three times.

  Messages are left out of the errors; a slice bound out of range is \<open>None\<close>.
\<close>

section \<open>Arguments\<close>

record str_edit =
  OldStr :: string
  NewStr :: string
  StartLine :: int
  EndLine :: int
  ReplaceAll :: bool

record edit_file_args =
  Edits :: "str_edit list"
  StartAnchor :: string
  EndAnchor :: string
  AnchorNew :: string
  IncludeAnchors :: bool

datatype mode_error = Both_modes | One_anchor | No_edit

definition anchorMode :: "edit_file_args \<Rightarrow> bool" where
  "anchorMode a = (StartAnchor a \<noteq> [] \<or> EndAnchor a \<noteq> [])"

definition validateMode :: "edit_file_args \<Rightarrow> mode_error option" where
  "validateMode a =
     (if anchorMode a then
        if Edits a \<noteq> [] then Some Both_modes
        else if StartAnchor a = [] \<or> EndAnchor a = [] then Some One_anchor
        else None
      else if Edits a = [] then Some No_edit
      else None)"

section \<open>Line endings and the gutter\<close>

definition matchLineEndings :: "string \<Rightarrow> string \<Rightarrow> string" where
  "matchLineEndings s ref =
     (if contains ref [CR, NL] \<and> \<not> contains s [CR, NL] then replace_all s [NL] [CR, NL]
      else if \<not> contains ref [CR, NL] \<and> contains s [CR, NL] then replace_all s [CR, NL] [NL]
      else s)"

text \<open>The number is a 64-bit \<open>int\<close>, which wraps around.\<close>

definition gutter_value :: "string \<Rightarrow> 64 word" where
  "gutter_value ds = foldl (\<lambda>n c. n * 10 + of_nat (of_char c - 48)) 0 ds"

definition parseGutterPrefix :: "string \<Rightarrow> (64 word \<times> string) option" where
  "parseGutterPrefix line =
     (let s = dropWhile (\<lambda>c. c = CHR '' '') line; ds = takeWhile is_digit s; r = dropWhile is_digit s
      in if ds = [] \<or> r = [] \<or> hd r \<noteq> CHR 0x09 then None else Some (gutter_value ds, tl r))"

fun strip_body :: "64 word option \<Rightarrow> string list \<Rightarrow> string list option" where
  "strip_body prev [] = Some []"
| "strip_body prev (l # ls) =
     (case parseGutterPrefix l of
        None \<Rightarrow> None
      | Some (n, rest) \<Rightarrow>
          if (case prev of None \<Rightarrow> False | Some p \<Rightarrow> n \<noteq> p + 1) then None
          else map_option ((#) rest) (strip_body (Some n) ls))"

definition stripLineGutter :: "string \<Rightarrow> string option" where
  "stripLineGutter s =
     (let lines = split_on NL s;
          body = (if 1 < length lines \<and> last lines = [] then butlast lines else lines)
      in if length body < 2 then None
         else map_option (\<lambda>ws. join_with [NL] (ws @ drop (length body) lines)) (strip_body None body))"

section \<open>One replacement\<close>

datatype str_error =
    Empty_old nat
  | Not_found nat
  | Ambiguous nat nat
  | Bad_range nat range_error

definition resolveStrMatch :: "string \<Rightarrow> str_edit \<Rightarrow> string \<times> string \<times> nat \<times> bool" where
  "resolveStrMatch content e =
     (let old = matchLineEndings (OldStr e) content; new = matchLineEndings (NewStr e) content;
          count = str_count content old
      in if 0 < count then (old, new, count, False)
         else case stripLineGutter old of
             None \<Rightarrow> (old, new, 0, False)
           | Some old' \<Rightarrow>
               (let c = str_count content old' in
                if c = 0 \<or> (\<not> ReplaceAll e \<and> c \<noteq> 1) then (old, new, 0, False)
                else (old', case stripLineGutter new of Some new' \<Rightarrow> new' | None \<Rightarrow> new, c, True)))"

definition applyStrEdit :: "string \<Rightarrow> str_edit \<Rightarrow> nat \<Rightarrow> str_error + string \<times> bool" where
  "applyStrEdit content e i =
     (if OldStr e = [] then Inl (Empty_old i)
      else case resolveStrMatch content e of
          (old, new, count, stripped) \<Rightarrow>
            if count = 0 then Inl (Not_found i)
            else if ReplaceAll e then Inr (replace_all content old new, stripped)
            else if 1 < count then Inl (Ambiguous i count)
            else Inr (replace_first content old new, stripped))"

section \<open>Anchors\<close>

datatype anchor_field = Start_anchor | End_anchor

datatype anchor_error =
    Anchor_missing anchor_field
  | Anchor_ambiguous anchor_field nat
  | Anchor_order

definition resolveAnchor :: "string \<Rightarrow> string \<Rightarrow> string \<times> nat \<times> bool" where
  "resolveAnchor content anchor =
     (let norm = matchLineEndings anchor content; c = str_count content norm
      in if 0 < c then (norm, c, False)
         else case stripLineGutter norm of
             None \<Rightarrow> (norm, 0, False)
           | Some stripped \<Rightarrow> (stripped, str_count content stripped, True))"

definition anchorMatchError :: "anchor_field \<Rightarrow> nat \<Rightarrow> anchor_error option" where
  "anchorMatchError field count =
     (if count = 0 then Some (Anchor_missing field)
      else if 1 < count then Some (Anchor_ambiguous field count)
      else None)"

definition startsWithNewline :: "string \<Rightarrow> bool" where
  "startsWithNewline s = (has_prefix s [NL] \<or> has_prefix s [CR, NL])"

definition endsWithNewline :: "string \<Rightarrow> bool" where
  "endsWithNewline s = has_suffix s [NL]"

definition hasBreakAt :: "string \<Rightarrow> string \<Rightarrow> bool" where
  "hasBreakAt l r = (endsWithNewline l \<or> startsWithNewline r)"

definition brokeStartSeam :: "string \<Rightarrow> string \<Rightarrow> string \<Rightarrow> string \<Rightarrow> bool" where
  "brokeStartSeam start stop interior newStr =
     (hasBreakAt start (interior @ stop) \<and> \<not> hasBreakAt start (newStr @ stop))"

definition brokeEndSeam :: "string \<Rightarrow> string \<Rightarrow> string \<Rightarrow> string \<Rightarrow> bool" where
  "brokeEndSeam start stop interior newStr =
     (hasBreakAt (start @ interior) stop \<and> \<not> hasBreakAt (start @ newStr) stop)"

text \<open>The seams that the note names.\<close>

definition seamJoinNote :: "edit_file_args \<Rightarrow> string \<Rightarrow> string \<Rightarrow> string \<Rightarrow> string \<Rightarrow> anchor_field list" where
  "seamJoinNote a start stop interior newStr =
     (if IncludeAnchors a then []
      else (if brokeStartSeam start stop interior newStr then [Start_anchor] else []) @
           (if brokeEndSeam start stop interior newStr then [End_anchor] else []))"

definition synthetic_edit :: "string \<Rightarrow> string \<Rightarrow> str_edit" where
  "synthetic_edit old new =
     \<lparr>OldStr = old, NewStr = new, StartLine = 0, EndLine = 0, ReplaceAll = False\<rparr>"

definition buildAnchorEdit ::
  "string \<Rightarrow> edit_file_args \<Rightarrow> (anchor_error + str_edit \<times> bool \<times> anchor_field list) option" where
  "buildAnchorEdit content a =
     (case resolveAnchor content (StartAnchor a) of (start, startCount, startStripped) \<Rightarrow>
      case anchorMatchError Start_anchor startCount of Some e \<Rightarrow> Some (Inl e) | None \<Rightarrow>
      case resolveAnchor content (EndAnchor a) of (stop, endCount, endStripped) \<Rightarrow>
      case anchorMatchError End_anchor endCount of Some e \<Rightarrow> Some (Inl e) | None \<Rightarrow>
      do {
        startIdx \<leftarrow> str_index content start;
        endIdx \<leftarrow> str_index content stop;
        if endIdx < startIdx + length start then Some (Inl Anchor_order)
        else do {
          fullSpan \<leftarrow> substr content startIdx (endIdx + length stop);
          interior \<leftarrow> substr content (startIdx + length start) endIdx;
          let newStr = matchLineEndings (AnchorNew a) content in
          Some (Inr (synthetic_edit fullSpan
                       (if IncludeAnchors a then newStr else start @ newStr @ stop),
                     startStripped \<or> endStripped,
                     seamJoinNote a start stop interior newStr))
        }
      })"

section \<open>A batch\<close>

text \<open>One edit of a batch, by line range or by match; the flag says that a gutter was stripped.\<close>

definition apply_edit :: "string \<Rightarrow> str_edit \<Rightarrow> nat \<Rightarrow> (str_error + string \<times> bool) option" where
  "apply_edit content e i =
     (if StartLine e \<noteq> 0 then
        map_option (\<lambda>r. case r of Inl err \<Rightarrow> Inl (Bad_range i err) | Inr s \<Rightarrow> Inr (s, False))
          (applyRangeEdit content (StartLine e) (EndLine e) (matchLineEndings (NewStr e) content))
      else Some (applyStrEdit content e i))"

text \<open>The loop of \<open>tryEdit\<close>: the first failure ends it. The notes are the edits that were stripped.\<close>

fun edit_loop :: "nat \<Rightarrow> str_edit list \<Rightarrow> string \<Rightarrow> nat list \<Rightarrow> (str_error + string \<times> nat list) option" where
  "edit_loop i [] content notes = Some (Inr (content, notes))"
| "edit_loop i (e # es) content notes =
     (case apply_edit content e i of
        None \<Rightarrow> None
      | Some (Inl err) \<Rightarrow> Some (Inl err)
      | Some (Inr (updated, stripped)) \<Rightarrow>
          edit_loop (i + 1) es updated (if stripped then notes @ [i] else notes))"

definition apply_edits :: "str_edit list \<Rightarrow> string \<Rightarrow> (str_error + string \<times> nat list) option" where
  "apply_edits es content = edit_loop 0 es content []"

text \<open>The loop of \<open>tryEditPartial\<close>: a failure is recorded and skipped.\<close>

fun partial_loop :: "nat \<Rightarrow> str_edit list \<Rightarrow> string \<Rightarrow> (str_error option list \<times> string) option" where
  "partial_loop i [] content = Some ([], content)"
| "partial_loop i (e # es) content =
     (case apply_edit content e i of
        None \<Rightarrow> None
      | Some (Inl err) \<Rightarrow> map_option (\<lambda>(rs, c). (Some err # rs, c)) (partial_loop (i + 1) es content)
      | Some (Inr (updated, stripped)) \<Rightarrow>
          map_option (\<lambda>(rs, c). (None # rs, c)) (partial_loop (i + 1) es updated))"

section \<open>The file under outside writers\<close>

record ef_file =
  ef_data :: string
  ef_mtime :: int
  ef_mode :: nat

text \<open>
  The other processes: before the \<open>n\<close>-th system call they turn the file into \<open>outside n\<close> of
  it. The \<open>n\<close>-th call fails when \<open>fails n\<close>, and runs at the time \<open>clock n\<close>.
\<close>

record ef_host =
  outside :: "nat \<Rightarrow> ef_file option \<Rightarrow> ef_file option"
  fails :: "nat \<Rightarrow> bool"
  clock :: "nat \<Rightarrow> int"

record ef_world =
  cur :: "ef_file option"
  tick :: nat

definition os_call :: "ef_host \<Rightarrow> ef_world \<Rightarrow> ef_world" where
  "os_call h w = \<lparr>cur = outside h (tick w) (cur w), tick = Suc (tick w)\<rparr>"

datatype retry_reason = Io_error | Changed_meanwhile | Write_refused | Written_over

datatype ef_result =
    Logic_file_missing
  | Logic str_error
  | Retry retry_reason
  | Wrote string string "nat list" int

text \<open>\<open>Wrote\<close>: the content read, the content written, the notes, and \<open>tempWrittenAt\<close>.\<close>

definition tryEdit :: "ef_host \<Rightarrow> str_edit list \<Rightarrow> ef_world \<Rightarrow> (ef_world \<times> ef_result) option" where
  "tryEdit h es w =
     (let w1 = os_call h w in
      if fails h (tick w) then Some (w1, Retry Io_error)
      else case cur w1 of None \<Rightarrow> Some (w1, Logic_file_missing) | Some f1 \<Rightarrow>
      let w2 = os_call h w1 in
      if fails h (tick w1) then Some (w2, Retry Io_error)
      else case cur w2 of None \<Rightarrow> Some (w2, Retry Io_error) | Some f2 \<Rightarrow>
      case apply_edits es (ef_data f2) of
        None \<Rightarrow> None
      | Some (Inl err) \<Rightarrow> Some (w2, Logic err)
      | Some (Inr (content, notes)) \<Rightarrow>
          let w3 = os_call h w2 in
          if \<not> fails h (tick w2) \<and> (case cur w3 of None \<Rightarrow> False | Some f3 \<Rightarrow> ef_mtime f3 \<noteq> ef_mtime f1)
          then Some (w3, Retry Changed_meanwhile)
          else
            let perm = (if ef_mode f1 = 0 then 420 else ef_mode f1); w4 = os_call h w3 in
            if fails h (tick w3) then Some (w4, Retry Write_refused)
            else
              Some (w4\<lparr>cur := Some \<lparr>ef_data = content, ef_mtime = clock h (tick w3),
                      ef_mode = (case cur w4 of Some f4 \<Rightarrow> ef_mode f4 | None \<Rightarrow> perm)\<rparr>\<rparr>,
                    Wrote (ef_data f2) content notes (clock h (tick w3))))"

definition concurrentWriteDetected :: "ef_host \<Rightarrow> ef_world \<Rightarrow> int \<Rightarrow> int \<Rightarrow> bool" where
  "concurrentWriteDetected h w tempWrittenAt skew =
     (\<not> fails h (tick w) \<and>
      (case cur (os_call h w) of
         None \<Rightarrow> False
       | Some f \<Rightarrow> tempWrittenAt + (if skew \<le> 0 then 100000000 else skew) < ef_mtime f))"

datatype edit_outcome =
    Edited nat string string "nat list"
  | Edit_missing
  | Edit_refused str_error
  | Gave_up retry_reason

definition maxEditRetries :: nat where
  "maxEditRetries = 3"

fun edit_retry ::
  "ef_host \<Rightarrow> int \<Rightarrow> str_edit list \<Rightarrow> nat \<Rightarrow> retry_reason \<Rightarrow> ef_world \<Rightarrow> (ef_world \<times> edit_outcome) option" where
  "edit_retry h skew es 0 lastErr w = Some (w, Gave_up lastErr)"
| "edit_retry h skew es (Suc n) lastErr w =
     (case tryEdit h es w of
        None \<Rightarrow> None
      | Some (w', Logic_file_missing) \<Rightarrow> Some (w', Edit_missing)
      | Some (w', Logic err) \<Rightarrow> Some (w', Edit_refused err)
      | Some (w', Retry r) \<Rightarrow> edit_retry h skew es n r w'
      | Some (w', Wrote original content notes tempWrittenAt) \<Rightarrow>
          if concurrentWriteDetected h w' tempWrittenAt skew
          then edit_retry h skew es n Written_over (os_call h w')
          else Some (os_call h w', Edited (maxEditRetries - n) original content notes))"

definition editFileApply ::
  "ef_host \<Rightarrow> int \<Rightarrow> str_edit list \<Rightarrow> ef_world \<Rightarrow> (ef_world \<times> edit_outcome) option" where
  "editFileApply h skew es w = edit_retry h skew es maxEditRetries Io_error w"

definition tryEditPartial ::
  "ef_host \<Rightarrow> str_edit list \<Rightarrow> ef_world \<Rightarrow> (ef_world \<times> ef_result \<times> str_error option list) option" where
  "tryEditPartial h es w =
     (let w1 = os_call h w in
      if fails h (tick w) then Some (w1, Retry Io_error, [])
      else case cur w1 of None \<Rightarrow> Some (w1, Logic_file_missing, []) | Some f1 \<Rightarrow>
      let w2 = os_call h w1 in
      if fails h (tick w1) then Some (w2, Retry Io_error, [])
      else case cur w2 of None \<Rightarrow> Some (w2, Retry Io_error, []) | Some f2 \<Rightarrow>
      case partial_loop 0 es (ef_data f2) of
        None \<Rightarrow> None
      | Some (rs, content) \<Rightarrow>
          if content = ef_data f2 then Some (w2, Wrote (ef_data f2) (ef_data f2) [] 0, rs)
          else
            let w3 = os_call h w2 in
            if \<not> fails h (tick w2) \<and> (case cur w3 of None \<Rightarrow> False | Some f3 \<Rightarrow> ef_mtime f3 \<noteq> ef_mtime f1)
            then Some (w3, Retry Changed_meanwhile, rs)
            else
              let perm = (if ef_mode f1 = 0 then 420 else ef_mode f1); w4 = os_call h w3 in
              if fails h (tick w3) then Some (w4, Retry Write_refused, rs)
              else
                Some (w4\<lparr>cur := Some \<lparr>ef_data = content, ef_mtime = clock h (tick w3),
                        ef_mode = (case cur w4 of Some f4 \<Rightarrow> ef_mode f4 | None \<Rightarrow> perm)\<rparr>\<rparr>,
                      Wrote (ef_data f2) content [] (clock h (tick w3)), rs))"

end
