(* ===== verification/Plumb_Unified.thy ===== *)
theory Plumb_Unified
  imports Plumb_Diff_Correct
begin

text \<open>
  The package \<open>internal/textdiff\<close>, second half: hunks, their rendering as a unified diff
  and the application of such a diff (\<open>unified.go\<close>).

  Indices into a script or into the lines of a diff are natural numbers that the loops
  keep in range. The number of context lines of \<open>Hunks\<close> is a natural number (the only
  caller passes the constant 3). An error of \<open>Apply\<close> is a value of the type
  \<open>apply_error\<close>, one constructor per error return, with the numbers its message quotes.
\<close>

section \<open>Hunks\<close>

record hunk =
  h_old_start :: int
  h_old_count :: int
  h_new_start :: int
  h_new_count :: int
  h_lines :: "diff_line list"

fun count_trailing :: "diff_line list \<Rightarrow> nat" where
  "count_trailing [] = 0"
| "count_trailing (l # ls) = (if l_op l = Equal then Suc (count_trailing ls) else 0)"

definition countTrailingCommon :: "diff_line list \<Rightarrow> nat" where
  "countTrailingCommon ls = count_trailing (rev ls)"

text \<open>The line counters of both sides and the hunk's counts, moved past one line.\<close>

definition add_line :: "diff_line \<Rightarrow> hunk \<times> int \<times> int \<Rightarrow> hunk \<times> int \<times> int" where
  "add_line dl = (\<lambda>(h, oldLine, newLine).
     let h = h\<lparr>h_lines := h_lines h @ [dl]\<rparr> in
     case l_op dl of
       Equal \<Rightarrow> (h\<lparr>h_old_count := h_old_count h + 1, h_new_count := h_new_count h + 1\<rparr>,
                 oldLine + 1, newLine + 1)
     | Delete \<Rightarrow> (h\<lparr>h_old_count := h_old_count h + 1\<rparr>, oldLine + 1, newLine)
     | Insert \<Rightarrow> (h\<lparr>h_new_count := h_new_count h + 1\<rparr>, oldLine, newLine + 1))"

function collectHunkBody ::
  "script \<Rightarrow> nat \<Rightarrow> nat \<Rightarrow> hunk \<times> int \<times> int \<Rightarrow> nat \<times> hunk \<times> int \<times> int" where
  "collectHunkBody script i ctx st =
     (if i < length script then
        let st' = add_line (script ! i) st; i' = i + 1 in
        if ctx \<le> countTrailingCommon (h_lines (fst st')) \<and>
           (length script \<le> i' \<or> l_op (script ! i') = Equal)
        then (i', st')
        else collectHunkBody script i' ctx st'
      else (i, st))"
  by pat_completeness auto
termination
  by (relation "measure (\<lambda>(script, i, ctx, st). length script - i)") auto

declare collectHunkBody.simps [simp del]

lemma collectHunkBody_mono: "i \<le> fst (collectHunkBody script i ctx st)"
proof (induction script i ctx st rule: collectHunkBody.induct)
  case (1 script i ctx st)
  then show ?case
    by (subst collectHunkBody.simps) (fastforce simp: Let_def)
qed

lemma collectHunkBody_progress:
  assumes "i < length script"
  shows "i < fst (collectHunkBody script i ctx st)"
  using assms collectHunkBody_mono [of "i + 1" script ctx "add_line (script ! i) st"]
  by (subst collectHunkBody.simps) (auto simp: Let_def)

function skip_common :: "script \<Rightarrow> nat \<Rightarrow> int \<Rightarrow> int \<Rightarrow> nat \<times> int \<times> int" where
  "skip_common script i oldLine newLine =
     (if i < length script \<and> l_op (script ! i) = Equal
      then skip_common script (i + 1) (oldLine + 1) (newLine + 1)
      else (i, oldLine, newLine))"
  by pat_completeness auto
termination
  by (relation "measure (\<lambda>(script, i, oldLine, newLine). length script - i)") auto

declare skip_common.simps [simp del]

lemma skip_common_mono: "i \<le> fst (skip_common script i oldLine newLine)"
proof (induction script i oldLine newLine rule: skip_common.induct)
  case (1 script i oldLine newLine)
  then show ?case by (subst skip_common.simps) force
qed

lemma skip_common_le: "skip_common script i oldLine newLine = (i', st) \<Longrightarrow> i \<le> i'"
  using skip_common_mono [of i script oldLine newLine] by simp

lemma collectHunkBody_less:
  "collectHunkBody script i ctx st = (i', st') \<Longrightarrow> i < length script \<Longrightarrow> i < i'"
  using collectHunkBody_progress [of i script ctx st] by simp

text \<open>The hunk that starts with the context lines \<open>ctxStart, \<dots>, i - 1\<close>.\<close>

definition open_hunk :: "script \<Rightarrow> nat \<Rightarrow> nat \<Rightarrow> int \<Rightarrow> int \<Rightarrow> hunk" where
  "open_hunk script ctxStart i oldLine newLine =
     (let ctxBack = int i - int ctxStart
      in \<lparr>h_old_start = oldLine - ctxBack, h_old_count = ctxBack,
          h_new_start = newLine - ctxBack, h_new_count = ctxBack,
          h_lines = take (i - ctxStart) (drop ctxStart script)\<rparr>)"

function hunks_loop :: "script \<Rightarrow> nat \<Rightarrow> nat \<Rightarrow> int \<Rightarrow> int \<Rightarrow> nat \<Rightarrow> hunk list" where
  "hunks_loop script ctx i oldLine newLine lastEnd =
     (if i < length script then
        (case skip_common script i oldLine newLine of (i1, oldLine1, newLine1) \<Rightarrow>
           if length script \<le> i1 then []
           else
             let ctxStart = max lastEnd (i1 - ctx) in
             (case collectHunkBody script i1 ctx
                     (open_hunk script ctxStart i1 oldLine1 newLine1, oldLine1, newLine1) of
                (i2, h, oldLine2, newLine2) \<Rightarrow>
                  h # hunks_loop script ctx i2 oldLine2 newLine2 i2))
      else [])"
  by pat_completeness auto
termination
  by (relation "measure (\<lambda>(script, ctx, i, oldLine, newLine, lastEnd). length script - i)")
    (auto simp: not_le dest!: skip_common_le [OF sym] collectHunkBody_less [OF sym])

declare hunks_loop.simps [simp del]

definition Hunks :: "script \<Rightarrow> nat \<Rightarrow> hunk list" where
  "Hunks script ctx = (if script = [] then [] else hunks_loop script ctx 0 1 1 0)"

section \<open>Rendering\<close>

definition NoEOLMarker :: string where
  "NoEOLMarker = CHR 0x5C # '' No newline at end of file''"

fun op_byte :: "edit_op \<Rightarrow> char" where
  "op_byte Equal = CHR '' ''"
| "op_byte Delete = CHR ''-''"
| "op_byte Insert = CHR ''+''"

text \<open>\<open>%d\<close>.\<close>

definition fmt_int :: "int \<Rightarrow> string" where
  "fmt_int n = (if n < 0 then CHR ''-'' # itoa (nat (- n)) else itoa (nat n))"

definition hunk_header :: "hunk \<Rightarrow> string" where
  "hunk_header h =
     ''@@ -'' @ fmt_int (h_old_start h) @ '','' @ fmt_int (h_old_count h) @
     '' +'' @ fmt_int (h_new_start h) @ '','' @ fmt_int (h_new_count h) @ '' @@''"

definition fmt_line :: "diff_line \<Rightarrow> string list" where
  "fmt_line l = (op_byte (l_op l) # l_text l) # (if l_noeol l then [NoEOLMarker] else [])"

definition FormatHunk :: "hunk \<Rightarrow> string list" where
  "FormatHunk h = hunk_header h # concat (map fmt_line (h_lines h))"

definition Render :: "script \<Rightarrow> string" where
  "Render s =
     join_with [CHR ''\<newline>''] (map (\<lambda>h. join_with [CHR ''\<newline>''] (FormatHunk h)) (Hunks s 3))"

definition Unified :: "string \<Rightarrow> string \<Rightarrow> string option" where
  "Unified pre post =
     (if pre = post then Some [] else map_option Render (ComputeExact pre post))"

section \<open>Application\<close>

datatype apply_error =
    Expected_header nat string
  | Hunk_outside nat int nat nat
  | Empty_line nat
  | Mismatch nat nat
  | Unknown_op nat char

text \<open>The regular expression \<open>^@@ -(\d+),(\d+) \+(\d+),(\d+) @@$\<close>; its first group.\<close>

definition eat :: "string \<Rightarrow> string \<Rightarrow> string option" where
  "eat p s = (if has_prefix s p then Some (drop (length p) s) else None)"

definition eat_digits :: "string \<Rightarrow> (string \<times> string) option" where
  "eat_digits s =
     (if takeWhile is_digit s = [] then None
      else Some (takeWhile is_digit s, dropWhile is_digit s))"

definition match_header :: "string \<Rightarrow> string option" where
  "match_header s = do {
     s1 \<leftarrow> eat ''@@ -'' s;
     (d1, s2) \<leftarrow> eat_digits s1;
     s3 \<leftarrow> eat '','' s2;
     (d2, s4) \<leftarrow> eat_digits s3;
     s5 \<leftarrow> eat '' +'' s4;
     (d3, s6) \<leftarrow> eat_digits s5;
     s7 \<leftarrow> eat '','' s6;
     (d4, s8) \<leftarrow> eat_digits s7;
     if s8 = '' @@'' then Some d1 else None
   }"

function applyHunkBody ::
  "string list \<Rightarrow> nat \<Rightarrow> string list \<Rightarrow> nat \<Rightarrow> string list \<Rightarrow>
   apply_error + nat \<times> nat \<times> string list" where
  "applyHunkBody lines i old pos out =
     (if i < length lines \<and> \<not> has_prefix (lines ! i) ''@@ '' then
        let l = lines ! i in
        if l = [] then Inl (Empty_line (i + 1))
        else
          let noeol = (i + 1 < length lines \<and> lines ! (i + 1) = NoEOLMarker);
              full = (if noeol then tl l else tl l @ [CHR ''\<newline>'']);
              i' = (if noeol then i + 1 else i)
          in
          if hd l = CHR '' '' \<or> hd l = CHR ''-'' then
            (if length old \<le> pos \<or> old ! pos \<noteq> full then Inl (Mismatch (i' + 1) (pos + 1))
             else applyHunkBody lines (i' + 1) old (pos + 1)
                    (if hd l = CHR '' '' then out @ [full] else out))
          else if hd l = CHR ''+'' then applyHunkBody lines (i' + 1) old pos (out @ [full])
          else Inl (Unknown_op (i' + 1) (hd l))
      else Inr (i, pos, out))"
  by pat_completeness auto
termination
  by (relation "measure (\<lambda>(lines, i, old, pos, out). length lines - i)") auto

declare applyHunkBody.simps [simp del]

lemma applyHunkBody_mono:
  "applyHunkBody lines i old pos out = Inr (i', pos', out') \<Longrightarrow> i \<le> i'"
proof (induction "length lines - i" arbitrary: i pos out rule: less_induct)
  case less
  show ?case
  proof (cases "i < length lines")
    case True
    have d: "length lines - Suc i < length lines - i" "length lines - Suc (Suc i) < length lines - i"
      using True by auto
    have step: "applyHunkBody lines (Suc i) old p ot = Inr (i', pos', out') \<Longrightarrow> i \<le> i'"
      "applyHunkBody lines (Suc (Suc i)) old p ot = Inr (i', pos', out') \<Longrightarrow> i \<le> i'" for p ot
      using less.hyps [OF d(1), of p ot] less.hyps [OF d(2), of p ot] by auto
    from less.prems show ?thesis
      by (subst (asm) applyHunkBody.simps) (auto simp: Let_def split: if_splits dest: step)
  next
    case False
    with less.prems show ?thesis by (subst (asm) applyHunkBody.simps) simp
  qed
qed

function apply_loop ::
  "string list \<Rightarrow> nat \<Rightarrow> string list \<Rightarrow> nat \<Rightarrow> string list \<Rightarrow> apply_error + nat \<times> string list" where
  "apply_loop lines i old pos out =
     (if i < length lines then
        (case match_header (lines ! i) of
           None \<Rightarrow> Inl (Expected_header (i + 1) (lines ! i))
         | Some ds \<Rightarrow>
             let oldStart = atoi_digits ds in
             if oldStart - 1 < int pos \<or> int (length old) < oldStart - 1
             then Inl (Hunk_outside (i + 1) oldStart (pos + 1) (length old + 1))
             else
               let start = nat (oldStart - 1) in
               (case applyHunkBody lines (i + 1) old start
                       (out @ take (start - pos) (drop pos old)) of
                  Inl e \<Rightarrow> Inl e
                | Inr (i', pos', out') \<Rightarrow> apply_loop lines i' old pos' out'))
      else Inr (pos, out))"
  by pat_completeness auto
termination
  by (relation "measure (\<lambda>(lines, i, old, pos, out). length lines - i)")
    (auto dest!: applyHunkBody_mono)

declare apply_loop.simps [simp del]

definition Apply :: "string \<Rightarrow> string \<Rightarrow> apply_error + string" where
  "Apply pre unified =
     (if unified = [] then Inr pre
      else
        let old = splitKeepEOL pre;
            lines = split_on CHR ''\<newline>'' unified
        in case apply_loop lines 0 old 0 [] of
             Inl e \<Rightarrow> Inl e
           | Inr (pos, out) \<Rightarrow> Inr (concat (out @ drop pos old)))"

end
