(* ===== verification/Plumb_Unified_Correct.thy ===== *)
theory Plumb_Unified_Correct
  imports Plumb_Unified
begin

text \<open>
  The round trip of the unified-diff renderer: applying the rendered diff of two texts to
  the first gives the second, byte for byte. The renderer relies on one law of the line
  differ, that its script has the two inputs as its two sides; the law is the locale
  \<open>line_differ\<close>, the round trip is proved in it, and \<open>Compute\<close> is the interpretation.
\<close>

section \<open>Exact lines\<close>

text \<open>The bytes of one line of a text, and what \<open>ComputeExact\<close> makes of a line with them.\<close>

definition full_text :: "diff_line \<Rightarrow> string" where
  "full_text l = l_text l @ (if l_noeol l then [] else [CHR ''\<newline>''])"

definition clean_line :: "diff_line \<Rightarrow> bool" where
  "clean_line l \<longleftrightarrow> CHR ''\<newline>'' \<notin> set (l_text l)"

text \<open>A line of a text: no newline but perhaps one at its end.\<close>

definition text_line :: "string \<Rightarrow> bool" where
  "text_line t \<longleftrightarrow> CHR ''\<newline>'' \<notin> set (butlast t)"

lemma exact_line_full: "full_text (exact_line l) = l_text l"
  by (auto simp: full_text_def exact_line_def cut_suffix_single split: if_splits prod.splits)
    (metis append_butlast_last_id)

lemma exact_line_op [simp]: "l_op (exact_line l) = l_op l"
  by (simp add: exact_line_def split: prod.splits)

lemma exact_line_clean: "text_line (l_text l) \<Longrightarrow> clean_line (exact_line l)"
  by (auto simp: clean_line_def exact_line_def text_line_def cut_suffix_single
      split: if_splits prod.splits dest: in_set_butlastD)
    (metis append_butlast_last_id in_set_conv_decomp list.distinct(1) set_ConsD append_self_conv2
      Un_iff empty_iff empty_set set_append)

lemma splitKeepEOL_concat: "concat (splitKeepEOL s) = s"
proof (cases "s = []")
  case False
  let ?p = "split_after CHR ''\<newline>'' s"
  have "concat ?p = s" by (rule concat_split_after)
  moreover have "?p = butlast ?p @ [last ?p]" by simp
  ultimately have "concat (butlast ?p) @ last ?p = s"
    by (metis concat.simps concat_append append_Nil2)
  with False show ?thesis
    by (auto simp: splitKeepEOL_def Let_def concat_split_after)
qed (simp add: splitKeepEOL_def)

lemma splitKeepEOL_lines: "t \<in> set (splitKeepEOL s) \<Longrightarrow> text_line t"
proof -
  let ?p = "split_after CHR ''\<newline>'' s"
  assume t: "t \<in> set (splitKeepEOL s)"
  then have "t \<in> set ?p"
    by (auto simp: splitKeepEOL_def Let_def split: if_splits dest: in_set_butlastD)
  then have "t \<in> set (butlast ?p) \<or> t = last ?p"
    by (metis append_butlast_last_id split_after_nonempty Un_iff set_append set_ConsD empty_iff empty_set)
  then show "text_line t"
    using split_after_butlast [of t "CHR ''\<newline>''" s] split_after_last [of "CHR ''\<newline>''" s]
    by (auto simp: text_line_def dest: in_set_butlastD)
qed

lemma splitKeepEOL_length: "length (splitKeepEOL s) \<le> length s"
proof -
  have "length ws \<le> length (concat ws)" if "[] \<notin> set ws" for ws :: "string list"
    using that
  proof (induction ws)
    case (Cons w ws)
    then have "1 \<le> length w" by (cases w) auto
    with Cons show ?case by auto
  qed simp
  moreover have "[] \<notin> set (splitKeepEOL s)"
  proof
    assume e: "[] \<in> set (splitKeepEOL s)"
    let ?p = "split_after CHR ''\<newline>'' s"
    have nb: "[] \<notin> set (butlast ?p)" using split_after_butlast [of "[]" _ s] by auto
    with e have "last ?p \<noteq> []" "[] \<in> set ?p"
      by (auto simp: splitKeepEOL_def Let_def split: if_splits)
    with nb show False
      by (metis append_butlast_last_id split_after_nonempty Un_iff set_append set_ConsD empty_iff empty_set)
  qed
  ultimately show ?thesis using splitKeepEOL_concat by metis
qed

lemma side_map [simp]:
  "old_side (map exact_line s) = map exact_line (old_side s)"
  "new_side (map exact_line s) = map exact_line (new_side s)"
  by (simp_all add: old_side_def new_side_def filter_map o_def)

lemma full_text_exact_map: "map full_text (map exact_line ls) = map l_text ls"
  by (simp add: exact_line_full)

section \<open>Hunks cover the edits of a script\<close>

lemma side_append [simp]:
  "old_side [] = []" "new_side [] = []"
  "old_side (s @ t) = old_side s @ old_side t" "new_side (s @ t) = new_side s @ new_side t"
  "old_side (l # s) = (if l_op l = Insert then old_side s else l # old_side s)"
  "new_side (l # s) = (if l_op l = Delete then new_side s else l # new_side s)"
  by (simp_all add: old_side_def new_side_def)

definition all_equal :: "script \<Rightarrow> bool" where
  "all_equal s \<longleftrightarrow> (\<forall>l \<in> set s. l_op l = Equal)"

lemma all_equal_sides: "all_equal s \<Longrightarrow> old_side s = s \<and> new_side s = s"
  by (auto simp: all_equal_def old_side_def new_side_def intro: filter_True)

text \<open>The slice \<open>script[i:j]\<close>.\<close>

definition slice :: "nat \<Rightarrow> nat \<Rightarrow> 'a list \<Rightarrow> 'a list" where
  "slice i j xs = take (j - i) (drop i xs)"

lemma slice_split: "i \<le> j \<Longrightarrow> j \<le> k \<Longrightarrow> slice i k xs = slice i j xs @ slice j k xs"
proof -
  assume "i \<le> j" "j \<le> k"
  then have "k - i = (j - i) + (k - j)" "j = (j - i) + i" by simp_all
  then show ?thesis by (metis slice_def take_add drop_drop)
qed

lemma slice_Suc: "i \<le> j \<Longrightarrow> j < length xs \<Longrightarrow> slice i (Suc j) xs = slice i j xs @ [xs ! j]"
  by (simp add: slice_def Suc_diff_le take_Suc_conv_app_nth)

lemma drop_slice: "i \<le> j \<Longrightarrow> drop i xs = slice i j xs @ drop j xs"
  by (simp add: slice_def) (metis append_take_drop_id drop_drop le_add_diff_inverse2)

lemma slice_ConsD:
  assumes "slice p (Suc (p + n)) xs = y # ys"
  shows "p < length xs \<and> xs ! p = y \<and> slice (Suc p) (Suc (p + n)) xs = ys"
proof -
  have "p < length xs" using assms by (cases "p < length xs") (auto simp: slice_def)
  then have "drop p xs = xs ! p # drop (Suc p) xs" by (simp add: Cons_nth_drop_Suc)
  with assms \<open>p < length xs\<close> show ?thesis by (auto simp: slice_def Suc_diff_le)
qed

lemma slice_middle: "slice (length xs) (length xs + length ys) (xs @ ys @ zs) = ys"
  by (simp add: slice_def)

lemma take_slice: "i \<le> j \<Longrightarrow> take j xs = take i xs @ slice i j xs"
  by (metis le_add_diff_inverse slice_def take_add)

lemma slice_empty [simp]: "slice i i xs = []"
  by (simp add: slice_def)

lemma skip_common_spec:
  assumes "skip_common s i a b = (i', a', b')" "i \<le> length s"
  shows "i \<le> i' \<and> i' \<le> length s \<and> all_equal (slice i i' s) \<and>
         a' = a + int (i' - i) \<and> b' = b + int (i' - i) \<and>
         (i' < length s \<longrightarrow> l_op (s ! i') \<noteq> Equal)"
  using assms
proof (induction s i a b rule: skip_common.induct)
  case (1 s i a b)
  show ?case
  proof (cases "i < length s \<and> l_op (s ! i) = Equal")
    case True
    with "1.prems" have "skip_common s (i + 1) (a + 1) (b + 1) = (i', a', b')"
      by (subst (asm) skip_common.simps) simp
    with "1.IH" True have ih: "i + 1 \<le> i'" "i' \<le> length s" "all_equal (slice (i + 1) i' s)"
      "a' = a + 1 + int (i' - (i + 1))" "b' = b + 1 + int (i' - (i + 1))"
      "i' < length s \<longrightarrow> l_op (s ! i') \<noteq> Equal" by auto
    have "slice i i' s = slice i (i + 1) s @ slice (i + 1) i' s"
      by (rule slice_split) (use ih in auto)
    also have "slice i (i + 1) s = [s ! i]" using slice_Suc [of i i s] True by simp
    finally have "all_equal (slice i i' s)" using ih(3) True by (simp add: all_equal_def)
    with ih show ?thesis by auto
  next
    case False
    with "1.prems" show ?thesis by (subst (asm) skip_common.simps) (auto simp: all_equal_def)
  qed
qed

lemma add_line_spec:
  "add_line dl (h, a, b) = (h', a', b') \<Longrightarrow>
   h_lines h' = h_lines h @ [dl] \<and> h_old_start h' = h_old_start h \<and>
   h_new_start h' = h_new_start h \<and>
   h_old_count h \<le> h_old_count h' \<and> h_new_count h \<le> h_new_count h' \<and>
   a' = a + int (length (old_side [dl])) \<and> b' = b + int (length (new_side [dl]))"
  by (cases "l_op dl") (auto simp: add_line_def Let_def)

lemma collectHunkBody_spec:
  assumes "collectHunkBody s i ctx (h, a, b) = (i', h', a', b')" "i \<le> length s"
  shows "i \<le> i' \<and> i' \<le> length s \<and> h_lines h' = h_lines h @ slice i i' s \<and>
         h_old_start h' = h_old_start h \<and> h_new_start h' = h_new_start h \<and>
         h_old_count h \<le> h_old_count h' \<and> h_new_count h \<le> h_new_count h' \<and>
         a' = a + int (length (old_side (slice i i' s))) \<and>
         b' = b + int (length (new_side (slice i i' s)))"
  using assms
proof (induction "length s - i" arbitrary: i h a b rule: less_induct)
  case less
  show ?case
  proof (cases "i < length s")
    case False
    with less.prems show ?thesis by (subst (asm) collectHunkBody.simps) auto
  next
    case True
    obtain h1 a1 b1 where st: "add_line (s ! i) (h, a, b) = (h1, a1, b1)"
      by (metis prod_cases3)
    note ad = add_line_spec [OF st]
    have one: "slice i (i + 1) s = [s ! i]" using slice_Suc [of i i s] True by simp
    let ?stop = "ctx \<le> countTrailingCommon (h_lines h1) \<and>
        (length s \<le> i + 1 \<or> l_op (s ! (i + 1)) = Equal)"
    have step: "collectHunkBody s i ctx (h, a, b) =
        (if ?stop then (i + 1, h1, a1, b1) else collectHunkBody s (i + 1) ctx (h1, a1, b1))"
      using True st by (subst collectHunkBody.simps) (auto simp: Let_def)
    show ?thesis
    proof (cases ?stop)
      case True
      with less.prems(1) step have "i' = i + 1" "h' = h1" "a' = a1" "b' = b1" by auto
      with ad one \<open>i < length s\<close> show ?thesis by simp
    next
      case False
      with less.prems(1) step
      have 2: "collectHunkBody s (i + 1) ctx (h1, a1, b1) = (i', h', a', b')" by auto
      from less.hyps [OF _ 2] True have ih: "i + 1 \<le> i'" "i' \<le> length s"
        "h_lines h' = h_lines h1 @ slice (i + 1) i' s" "h_old_start h' = h_old_start h1"
        "h_new_start h' = h_new_start h1"
        "h_old_count h1 \<le> h_old_count h'" "h_new_count h1 \<le> h_new_count h'"
        "a' = a1 + int (length (old_side (slice (i + 1) i' s)))"
        "b' = b1 + int (length (new_side (slice (i + 1) i' s)))" by auto
      have "slice i i' s = [s ! i] @ slice (i + 1) i' s"
        using slice_split [of i "i + 1" i' s] ih(1) one by simp
      with ih ad show ?thesis by auto
    qed
  qed
qed

section \<open>Lines of a rendered hunk\<close>

lemma op_byte_newline [simp]: "op_byte p \<noteq> CHR ''\<newline>''"
  by (cases p) auto

lemma NoEOLMarker_facts [simp]:
  "CHR ''\<newline>'' \<notin> set NoEOLMarker" "\<not> has_prefix NoEOLMarker ''@@ ''"
  by (simp_all add: NoEOLMarker_def has_prefix_def)

lemma fmt_line_facts:
  "x \<in> set (fmt_line l) \<Longrightarrow> clean_line l \<Longrightarrow> CHR ''\<newline>'' \<notin> set x \<and> \<not> has_prefix x ''@@ ''"
  by (cases "l_op l")
    (auto simp: fmt_line_def clean_line_def has_prefix_def NoEOLMarker_def split: if_splits)

lemma fmt_line_hd: "hd (fmt_line l) \<noteq> NoEOLMarker \<and> fmt_line l \<noteq> []"
  by (cases "l_op l") (auto simp: fmt_line_def NoEOLMarker_def)

lemma fmt_int_digits: "0 \<le> n \<Longrightarrow> fmt_int n = itoa (nat n)"
  by (simp add: fmt_int_def)

lemma itoa_newline: "CHR ''\<newline>'' \<notin> set (itoa n)"
  using itoa_digits [of n] by (auto simp: is_digit_def)

lemma fmt_int_newline: "CHR ''\<newline>'' \<notin> set (fmt_int n)"
  by (simp add: fmt_int_def itoa_newline)

lemma hunk_header_newline: "CHR ''\<newline>'' \<notin> set (hunk_header h)"
  by (simp add: hunk_header_def fmt_int_newline)

lemma hunk_header_prefix: "has_prefix (hunk_header h) ''@@ ''"
  by (simp add: hunk_header_def has_prefix_def)

lemma hunk_header_marker: "hunk_header h \<noteq> NoEOLMarker"
  by (simp add: hunk_header_def NoEOLMarker_def)

lemma eat_digits_itoa:
  "r = [] \<or> \<not> is_digit (hd r) \<Longrightarrow> eat_digits (itoa n @ r) = Some (itoa n, r)"
proof -
  assume r: "r = [] \<or> \<not> is_digit (hd r)"
  have d: "\<forall>c \<in> set (itoa n). is_digit c" by (rule itoa_digits)
  then have "takeWhile is_digit (itoa n @ r) = itoa n @ takeWhile is_digit r"
    "dropWhile is_digit (itoa n @ r) = dropWhile is_digit r"
    by (simp_all add: takeWhile_append2 dropWhile_append2)
  moreover have "takeWhile is_digit r = []" "dropWhile is_digit r = r"
    using r by (cases r; simp)+
  ultimately show ?thesis unfolding eat_digits_def by simp
qed

lemma match_header_hunk:
  assumes "0 \<le> h_old_start h" "0 \<le> h_old_count h" "0 \<le> h_new_start h" "0 \<le> h_new_count h"
  shows "match_header (hunk_header h) = Some (itoa (nat (h_old_start h)))"
proof -
  have d: "\<not> is_digit CHR '',''" "\<not> is_digit CHR '' ''" by (simp_all add: is_digit_def)
  show ?thesis
    unfolding match_header_def hunk_header_def
    using assms d
    by (simp add: fmt_int_digits eat_digits_itoa eat_def has_prefix_def)
qed

section \<open>Applying rendered hunks\<close>

text \<open>One hunk body, at its place among the lines of the diff.\<close>

lemma applyHunkBody_hunk:
  assumes "\<forall>l \<in> set ls. clean_line l"
    and "rest = [] \<or> has_prefix (hd rest) ''@@ '' \<and> hd rest \<noteq> NoEOLMarker"
    and "slice pos (pos + length (old_side ls)) old = map full_text (old_side ls)"
  shows "applyHunkBody (pre @ concat (map fmt_line ls) @ rest) (length pre) old pos out =
           Inr (length pre + length (concat (map fmt_line ls)), pos + length (old_side ls),
                out @ map full_text (new_side ls))"
  using assms
proof (induction ls arbitrary: pre pos out)
  case Nil
  then show ?case by (subst applyHunkBody.simps) (cases rest; auto)
next
  case (Cons l ls)
  let ?lines = "pre @ concat (map fmt_line (l # ls)) @ rest"
  let ?after = "concat (map fmt_line ls) @ rest"
  have next_line: "?after \<noteq> [] \<Longrightarrow> hd ?after \<noteq> NoEOLMarker"
    using Cons.prems(2) fmt_line_hd by (cases ls) (auto simp: hd_append)
  have cl: "clean_line l" using Cons.prems(1) by simp
  have here: "?lines ! length pre = op_byte (l_op l) # l_text l" by (simp add: fmt_line_def)
  have np: "\<not> has_prefix (op_byte (l_op l) # l_text l) ''@@ ''"
    using fmt_line_facts [of "op_byte (l_op l) # l_text l" l] cl by (simp add: fmt_line_def)
  have lt: "length pre < length ?lines" by (simp add: fmt_line_def)
  have mark: "length pre + 1 < length ?lines \<and> ?lines ! (length pre + 1) = NoEOLMarker \<longleftrightarrow> l_noeol l"
    using next_line by (cases ?after) (auto simp: fmt_line_def nth_append)
  have skip: "(if l_noeol l then length pre + 1 else length pre) + 1 = length (pre @ fmt_line l)"
    by (simp add: fmt_line_def)
  have body: "?lines = (pre @ fmt_line l) @ ?after" by simp
  show ?case
  proof (cases "l_op l = Insert")
    case True
    have "applyHunkBody ?lines (length pre) old pos out =
        applyHunkBody ?lines (length (pre @ fmt_line l)) old pos (out @ [full_text l])"
      using lt here np mark skip True
      by (subst applyHunkBody.simps) (simp add: Let_def full_text_def)
    also have "\<dots> = Inr (length (pre @ fmt_line l) + length (concat (map fmt_line ls)),
        pos + length (old_side ls), (out @ [full_text l]) @ map full_text (new_side ls))"
      unfolding body by (rule Cons.IH) (use Cons.prems True in auto)
    finally show ?thesis using True by (simp add: add.assoc)
  next
    case False
    from Cons.prems(3) False
    have old: "pos < length old" "old ! pos = full_text l"
      "slice (Suc pos) (Suc pos + length (old_side ls)) old = map full_text (old_side ls)"
      by (auto dest!: slice_ConsD)
    let ?out = "if l_op l = Equal then out @ [full_text l] else out"
    have "hd (op_byte (l_op l) # l_text l) = CHR '' '' \<longleftrightarrow> l_op l = Equal"
      "hd (op_byte (l_op l) # l_text l) = CHR ''-'' \<longleftrightarrow> l_op l = Delete"
      by (cases "l_op l"; simp)+
    then have "applyHunkBody ?lines (length pre) old pos out =
        applyHunkBody ?lines (length (pre @ fmt_line l)) old (pos + 1) ?out"
      using lt here np mark skip False old
      by (subst applyHunkBody.simps) (cases "l_op l"; simp add: Let_def full_text_def)
    also have "\<dots> = Inr (length (pre @ fmt_line l) + length (concat (map fmt_line ls)),
        pos + 1 + length (old_side ls), ?out @ map full_text (new_side ls))"
      unfolding body by (rule Cons.IH) (use Cons.prems old False in auto)
    finally show ?thesis using False by (cases "l_op l") (simp_all add: add.assoc)
  qed
qed

text \<open>The lines of a hunk list, and one turn of the loop over hunks.\<close>

lemma apply_loop_hunk:
  assumes "\<forall>l \<in> set (h_lines h). clean_line l"
    and rest: "rest = [] \<or> has_prefix (hd rest) ''@@ '' \<and> hd rest \<noteq> NoEOLMarker"
    and start: "h_old_start h = 1 + int start" "pos \<le> start" "start \<le> length old"
    and "0 \<le> h_old_count h" "0 \<le> h_new_start h" "0 \<le> h_new_count h"
    and "int (length old) < max_int"
    and "slice start (start + length (old_side (h_lines h))) old = map full_text (old_side (h_lines h))"
  shows "apply_loop (pre @ FormatHunk h @ rest) (length pre) old pos out =
           apply_loop ((pre @ FormatHunk h) @ rest) (length (pre @ FormatHunk h)) old
             (start + length (old_side (h_lines h)))
             (out @ slice pos start old @ map full_text (new_side (h_lines h)))"
proof -
  let ?body = "concat (map fmt_line (h_lines h))"
  let ?out = "out @ take (start - pos) (drop pos old)"
  have "match_header (hunk_header h) = Some (itoa (nat (h_old_start h)))"
    by (rule match_header_hunk) (use assms in auto)
  moreover have "atoi_digits (itoa (nat (h_old_start h))) = 1 + int start"
    using start assms(9) by (subst atoi_itoa) auto
  moreover have "applyHunkBody ((pre @ [hunk_header h]) @ ?body @ rest) (length (pre @ [hunk_header h]))
      old start ?out = Inr (length (pre @ [hunk_header h]) + length ?body,
        start + length (old_side (h_lines h)), ?out @ map full_text (new_side (h_lines h)))"
    by (rule applyHunkBody_hunk) (use assms in auto)
  ultimately show ?thesis
    using start
    by (subst apply_loop.simps) (simp add: FormatHunk_def Let_def slice_def)
qed

lemma hunks_head:
  "rest = concat (map FormatHunk hs) \<Longrightarrow>
   rest = [] \<or> has_prefix (hd rest) ''@@ '' \<and> hd rest \<noteq> NoEOLMarker"
  by (cases hs) (auto simp: FormatHunk_def hunk_header_prefix hunk_header_marker)

lemma apply_hunks:
  assumes "\<forall>l \<in> set s. clean_line l" "old = map full_text (old_side s)"
    and "int (length old) < max_int"
    and "lst \<le> i" "i \<le> length s" "all_equal (slice lst i s)"
    and "oldLine = 1 + int (length (old_side (take i s)))"
    and "newLine = 1 + int (length (new_side (take i s)))"
    and "pos = length (old_side (take lst s))"
  shows "\<exists>pos' out'.
     apply_loop (pre @ concat (map FormatHunk (hunks_loop s ctx i oldLine newLine lst)))
       (length pre) old pos out = Inr (pos', out') \<and>
     concat (out' @ drop pos' old) = concat out @ concat (map full_text (new_side (drop lst s)))"
  using assms
proof (induction "length s - i" arbitrary: i oldLine newLine lst pos pre out rule: less_induct)
  case less
  obtain i1 a1 b1 where sk: "skip_common s i oldLine newLine = (i1, a1, b1)" by (metis prod_cases3)
  note sp = skip_common_spec [OF sk less.prems(5)]
  have eq: "all_equal (slice lst i1 s)"
    using slice_split [of lst i i1 s] sp less.prems by (auto simp: all_equal_def)
  have drop_old: "drop pos old = map full_text (old_side (drop lst s))"
    using less.prems(2,9) by (metis append_take_drop_id append_eq_conv_conj drop_map side_append(3))
  have loop_end: "apply_loop (pre @ []) (length pre) old pos out = Inr (pos, out)"
    by (subst apply_loop.simps) simp
  show ?case
  proof (cases "i1 = length s")
    case True
    have "hunks_loop s ctx i oldLine newLine lst = []"
      using sk True by (subst hunks_loop.simps) auto
    moreover have "drop lst s = slice lst i1 s" using True sp less.prems drop_slice [of lst i1 s] by simp
    ultimately show ?thesis using loop_end drop_old eq all_equal_sides by auto
  next
    case False
    then have i1: "i1 < length s" using sp by simp
    define cs where "cs = max lst (i1 - ctx)"
    obtain i2 h a2 b2 where
      co: "collectHunkBody s i1 ctx (open_hunk s cs i1 a1 b1, a1, b1) = (i2, h, a2, b2)"
      by (metis prod_cases4)
    have cs: "lst \<le> cs" "cs \<le> i1" using sp less.prems(4) by (auto simp: cs_def)
    note cb = collectHunkBody_spec [OF co less_imp_le [OF i1]]
    have i2: "i1 < i2" using collectHunkBody_less [OF co i1] .
    have ctx_eq: "all_equal (slice lst cs s)" "all_equal (slice cs i1 s)"
      using eq slice_split [OF cs, of s] by (auto simp: all_equal_def)
    have hl: "h_lines h = slice cs i2 s"
      using cb slice_split [of cs i1 i2 s] cs i2 by (simp add: open_hunk_def Let_def slice_def)
    let ?start = "length (old_side (take cs s))"
    have old_i1: "length (old_side (take i1 s)) = ?start + (i1 - cs)"
      "length (new_side (take i1 s)) = length (new_side (take cs s)) + (i1 - cs)"
      using take_slice [OF cs(2), of s] all_equal_sides [OF ctx_eq(2)] sp cs
      by (auto simp: slice_def)
    have a1: "a1 = 1 + int (length (old_side (take i1 s)))"
      "b1 = 1 + int (length (new_side (take i1 s)))"
      using sp less.prems(7,8) take_slice [of i i1 s] all_equal_sides [of "slice i i1 s"]
      by (auto simp: slice_def)
    have starts: "h_old_start h = 1 + int ?start" "0 \<le> h_new_start h"
      "0 \<le> h_old_count h" "0 \<le> h_new_count h"
      using cb a1 old_i1 cs by (auto simp: open_hunk_def Let_def)
    have pos: "pos \<le> ?start" "?start \<le> length old"
      "slice pos ?start old = map full_text (old_side (slice lst cs s))"
      "slice ?start (?start + length (old_side (h_lines h))) old = map full_text (old_side (h_lines h))"
    proof -
      have t: "take cs s = take lst s @ slice lst cs s" by (rule take_slice [OF cs(1)])
      have "s = take cs s @ slice cs i2 s @ drop i2 s"
        by (metis append_take_drop_id cs(2) drop_slice i2 le_trans less_imp_le)
      then have o: "old = map full_text (old_side (take cs s)) @
          map full_text (old_side (slice cs i2 s)) @ map full_text (old_side (drop i2 s))"
        using less.prems(2) by (metis map_append side_append(3))
      show "slice ?start (?start + length (old_side (h_lines h))) old =
          map full_text (old_side (h_lines h))"
        unfolding hl o using slice_middle [of "map full_text (old_side (take cs s))"
            "map full_text (old_side (slice cs i2 s))"] by simp
      show "pos \<le> ?start" using t less.prems(9) by simp
      show "?start \<le> length old" using o by simp
      have "old = map full_text (old_side (take lst s)) @ map full_text (old_side (slice lst cs s)) @
          (map full_text (old_side (slice cs i2 s)) @ map full_text (old_side (drop i2 s)))"
        using o t by simp
      then show "slice pos ?start old = map full_text (old_side (slice lst cs s))"
        using slice_middle [of "map full_text (old_side (take lst s))"
            "map full_text (old_side (slice lst cs s))"] t less.prems(9) by simp
    qed
    let ?hs = "hunks_loop s ctx i2 a2 b2 i2"
    have hs: "hunks_loop s ctx i oldLine newLine lst = h # ?hs"
      using sk i1 co less.prems(5) sp by (subst hunks_loop.simps) (simp add: cs_def [symmetric])
    have clean: "\<forall>l \<in> set (h_lines h). clean_line l"
      unfolding hl slice_def using less.prems(1) by (meson in_set_dropD in_set_takeD)
    let ?pre = "pre @ FormatHunk h"
    let ?out = "out @ slice pos ?start old @ map full_text (new_side (h_lines h))"
    let ?pos = "?start + length (old_side (h_lines h))"
    have step: "apply_loop (pre @ FormatHunk h @ concat (map FormatHunk ?hs)) (length pre) old pos out =
        apply_loop (?pre @ concat (map FormatHunk ?hs)) (length ?pre) old ?pos ?out"
      by (rule apply_loop_hunk [OF clean hunks_head [OF refl] starts(1) pos(1,2) starts(3,2,4)
            less.prems(3) pos(4)])
    have "\<exists>pos' out'.
       apply_loop (?pre @ concat (map FormatHunk ?hs)) (length ?pre) old ?pos ?out = Inr (pos', out') \<and>
       concat (out' @ drop pos' old) = concat ?out @ concat (map full_text (new_side (drop i2 s)))"
    proof (rule less.hyps)
      have t2: "take i2 s = take cs s @ h_lines h" "take i2 s = take i1 s @ slice i1 i2 s"
        using take_slice [of cs i2 s] take_slice [of i1 i2 s] cs i2 hl by auto
      show "?pos = length (old_side (take i2 s))" using t2(1) by simp
      show "a2 = 1 + int (length (old_side (take i2 s)))" "b2 = 1 + int (length (new_side (take i2 s)))"
        using t2(2) cb a1 by simp_all
    qed (use less.prems i1 i2 sp cb in \<open>auto simp: all_equal_def\<close>)
    moreover have "new_side (drop lst s) = slice lst cs s @ new_side (h_lines h) @ new_side (drop i2 s)"
      using drop_slice [of lst cs s] drop_slice [of cs i2 s] cs i2 hl all_equal_sides [OF ctx_eq(1)] by simp
    moreover have "slice pos ?start old = map full_text (slice lst cs s)"
      using pos(3) all_equal_sides [OF ctx_eq(1)] by simp
    ultimately show ?thesis using hs step by simp
  qed
qed

section \<open>The round trip\<close>

lemma join_lines_append:
  "xss \<noteq> [] \<Longrightarrow> \<forall>xs \<in> set xss. xs \<noteq> [] \<Longrightarrow>
   join_with sep (map (join_with sep) xss) = join_with sep (concat xss)"
proof (induction xss)
  case (Cons xs xss)
  have app: "join_with sep (us @ vs) = join_with sep us @ sep @ join_with sep vs"
    if "us \<noteq> []" "vs \<noteq> []" for us vs :: "string list"
    using that by (induction us rule: induct_list012) (auto simp: join_with_Cons)
  show ?case
  proof (cases "xss = []")
    case False
    then have "concat xss \<noteq> []" using Cons.prems by (cases xss) auto
    with False Cons show ?thesis by (simp add: join_with_Cons app)
  qed simp
qed simp

lemma Render_lines:
  "Hunks s 3 \<noteq> [] \<Longrightarrow> Render s = join_with [CHR ''\<newline>''] (concat (map FormatHunk (Hunks s 3)))"
  using join_lines_append [of "map FormatHunk (Hunks s 3)"]
  by (auto simp: Render_def FormatHunk_def o_def)

lemma hunks_loop_lines:
  "i \<le> length s \<Longrightarrow> lst \<le> i \<Longrightarrow> h \<in> set (hunks_loop s ctx i a b lst) \<Longrightarrow> set (h_lines h) \<subseteq> set s"
proof (induction "length s - i" arbitrary: i a b lst rule: less_induct)
  case less
  obtain i1 a1 b1 where sk: "skip_common s i a b = (i1, a1, b1)" by (metis prod_cases3)
  note sp = skip_common_spec [OF sk less.prems(1)]
  have "i1 < length s"
  proof (rule ccontr)
    assume "\<not> i1 < length s"
    with sk have "hunks_loop s ctx i a b lst = []" by (subst hunks_loop.simps) auto
    with less.prems(3) show False by simp
  qed
  define cs where "cs = max lst (i1 - ctx)"
  obtain i2 h' a2 b2 where
    co: "collectHunkBody s i1 ctx (open_hunk s cs i1 a1 b1, a1, b1) = (i2, h', a2, b2)"
    by (metis prod_cases4)
  note cb = collectHunkBody_spec [OF co less_imp_le [OF \<open>i1 < length s\<close>]]
  have i2: "i1 < i2" using collectHunkBody_less [OF co \<open>i1 < length s\<close>] .
  have "hunks_loop s ctx i a b lst = h' # hunks_loop s ctx i2 a2 b2 i2"
    using sk co \<open>i1 < length s\<close> sp by (subst hunks_loop.simps) (simp add: cs_def [symmetric])
  with less.prems(3) have "h = h' \<or> h \<in> set (hunks_loop s ctx i2 a2 b2 i2)" by simp
  moreover have "set (h_lines h') \<subseteq> set s"
    using cb by (auto simp: open_hunk_def Let_def slice_def dest: in_set_dropD in_set_takeD)
  moreover have "h \<in> set (hunks_loop s ctx i2 a2 b2 i2) \<Longrightarrow> set (h_lines h) \<subseteq> set s"
    by (rule less.hyps) (use i2 sp cb \<open>i1 < length s\<close> in auto)
  ultimately show ?case by blast
qed

lemma FormatHunk_newline:
  "\<forall>l \<in> set (h_lines h). clean_line l \<Longrightarrow> x \<in> set (FormatHunk h) \<Longrightarrow> CHR ''\<newline>'' \<notin> set x"
  using fmt_line_facts hunk_header_newline by (auto simp: FormatHunk_def)

lemma Apply_Render:
  assumes clean: "\<forall>l \<in> set s. clean_line l"
    and old: "splitKeepEOL pre = map full_text (old_side s)"
    and len: "int (length pre) < max_int"
  shows "Apply pre (Render s) = Inr (concat (map full_text (new_side s)))"
proof (cases "Hunks s 3 = []")
  case True
  then have "Render s = []" by (simp add: Render_def)
  have lines: "\<exists>pos' out'. apply_loop [] 0 (splitKeepEOL pre) 0 [] = Inr (pos', out') \<and>
      concat (out' @ drop pos' (splitKeepEOL pre)) = concat (map full_text (new_side s))"
  proof (cases "s = []")
    case False
    with True have "hunks_loop s 3 0 1 1 0 = []" by (simp add: Hunks_def)
    with apply_hunks [of s "splitKeepEOL pre" 0 0 1 1 0 "[]" 3 "[]"] clean old len
      splitKeepEOL_length [of pre]
    show ?thesis by (auto simp: all_equal_def)
  next
    case True
    with old show ?thesis by (subst apply_loop.simps) simp
  qed
  then have "concat (splitKeepEOL pre) = concat (map full_text (new_side s))"
    by (subst (asm) apply_loop.simps) auto
  with \<open>Render s = []\<close> show ?thesis by (simp add: Apply_def splitKeepEOL_concat)
next
  case False
  let ?lines = "concat (map FormatHunk (Hunks s 3))"
  have hl: "Hunks s 3 = hunks_loop s 3 0 1 1 0" using False by (auto simp: Hunks_def)
  have "\<forall>x \<in> set ?lines. CHR ''\<newline>'' \<notin> set x"
    using FormatHunk_newline hunks_loop_lines [of 0 s 0 _ 3 1 1] clean hl by fastforce
  moreover have ne: "?lines \<noteq> []" using False by (cases "Hunks s 3") (auto simp: FormatHunk_def)
  ultimately have sp: "split_on CHR ''\<newline>'' (Render s) = ?lines"
    using Render_lines [OF False] split_join by simp
  moreover have "Render s \<noteq> []"
  proof
    assume "Render s = []"
    with sp have "?lines = [[]]" by simp
    with hunks_head [OF refl, of "Hunks s 3"] show False by (simp add: has_prefix_def)
  qed
  moreover have "\<exists>pos' out'. apply_loop ?lines 0 (splitKeepEOL pre) 0 [] = Inr (pos', out') \<and>
      concat (out' @ drop pos' (splitKeepEOL pre)) = concat (map full_text (new_side s))"
    using apply_hunks [of s "splitKeepEOL pre" 0 0 1 1 0 "[]" 3 "[]"] clean old len
      splitKeepEOL_length [of pre] hl by (auto simp: all_equal_def)
  ultimately show ?thesis by (auto simp: Apply_def Let_def)
qed

text \<open>What the renderer relies on: a line differ whose script has the two inputs as its sides.\<close>

locale line_differ =
  fixes diff :: "string list \<Rightarrow> string list \<Rightarrow> script option"
  assumes diff_sides: "\<exists>s. diff a b = Some s \<and> old_text s = a \<and> new_text s = b"
begin

definition exact_diff :: "string \<Rightarrow> string \<Rightarrow> script option" where
  "exact_diff pre post = map_option (map exact_line) (diff (splitKeepEOL pre) (splitKeepEOL post))"

lemma exact_diff_sides:
  "\<exists>s. exact_diff pre post = Some s \<and> (\<forall>l \<in> set s. clean_line l) \<and>
       map full_text (old_side s) = splitKeepEOL pre \<and> map full_text (new_side s) = splitKeepEOL post"
proof -
  obtain s where s: "diff (splitKeepEOL pre) (splitKeepEOL post) = Some s"
    "old_text s = splitKeepEOL pre" "new_text s = splitKeepEOL post"
    using diff_sides by blast
  have "text_line (l_text l)" if "l \<in> set s" for l
  proof -
    have "l \<in> set (old_side s) \<or> l \<in> set (new_side s)"
      using that by (cases "l_op l") (auto simp: old_side_def new_side_def)
    then have "l_text l \<in> set (splitKeepEOL pre) \<or> l_text l \<in> set (splitKeepEOL post)"
      unfolding s(2,3) [symmetric] old_text_def new_text_def by auto
    then show ?thesis using splitKeepEOL_lines by blast
  qed
  with s show ?thesis
    by (auto simp: exact_diff_def exact_line_clean full_text_exact_map old_text_def new_text_def
        simp del: map_map)
qed

lemma exact_roundtrip:
  assumes "int (length pre) < max_int"
  shows "\<exists>s. exact_diff pre post = Some s \<and> Apply pre (Render s) = Inr post"
proof -
  obtain s where s: "exact_diff pre post = Some s" "\<forall>l \<in> set s. clean_line l"
    "map full_text (old_side s) = splitKeepEOL pre" "map full_text (new_side s) = splitKeepEOL post"
    using exact_diff_sides by blast
  then have "Apply pre (Render s) = Inr (concat (splitKeepEOL post))"
    using Apply_Render [of s pre] assms by simp
  with s(1) show ?thesis by (simp add: splitKeepEOL_concat)
qed

end

interpretation myers: line_differ Compute
  by unfold_locales (rule Compute_sides)

lemma exact_diff_ComputeExact: "myers.exact_diff = ComputeExact"
  by (simp add: fun_eq_iff myers.exact_diff_def ComputeExact_def)

section \<open>Properties\<close>

text \<open>C1. Applying the unified diff of two texts to the first gives the second, byte for byte: a
  missing final newline, an empty side and the whole-file fallback included. The bound keeps
  every line number below 2^63, where strconv.Atoi reads a hunk header back.\<close>

theorem unified_roundtrip:
  assumes "int (length pre) < max_int"
  shows "\<exists>u. Unified pre post = Some u \<and> Apply pre u = Inr post"
proof (cases "pre = post")
  case True
  then show ?thesis by (simp add: Unified_def Apply_def)
next
  case False
  from myers.exact_roundtrip [OF assms, of post] show ?thesis
    using False by (auto simp: Unified_def exact_diff_ComputeExact)
qed

theorem unified_roundtrip_witness:
  "\<exists>u. Unified (''a'' @ [CHR 0x0A] @ ''b'') (''b'' @ [CHR 0x0A]) = Some u \<and>
       Apply (''a'' @ [CHR 0x0A] @ ''b'') u = Inr (''b'' @ [CHR 0x0A])"
  by (rule unified_roundtrip) (simp add: max_int_def)

end
