(* ===== verification/Plumb_RangeEdit_Correct.thy ===== *)
theory Plumb_RangeEdit_Correct
  imports Plumb_RangeEdit Plumb_Unified_Correct
begin

text \<open>
  A range edit in terms of lines. \<open>splitKeepEOL\<close> is the reference for what a line is; the
  byte offsets of \<open>lineOffsets\<close> are the starts of those lines, so the splice of bytes is a
  splice of whole lines.
\<close>

fun starts :: "string list \<Rightarrow> nat list" where
  "starts [] = []"
| "starts (w # ws) = 0 # map (\<lambda>k. length w + k) (starts ws)"

lemma length_starts [simp]: "length (starts ws) = length ws"
  by (induction ws) auto

lemma starts_nth: "i < length ws \<Longrightarrow> starts ws ! i = length (concat (take i ws))"
proof (induction ws arbitrary: i)
  case (Cons w ws)
  then show ?case by (cases i) auto
qed simp

lemma splitKeepEOL_Nil [simp]: "splitKeepEOL [] = []"
  by (simp add: splitKeepEOL_def)

lemma splitKeepEOL_Cons:
  "splitKeepEOL (x # xs) =
     (if x = NL then [x] # splitKeepEOL xs
      else (case splitKeepEOL xs of [] \<Rightarrow> [[x]] | w # ws \<Rightarrow> (x # w) # ws))"
proof (cases xs)
  case (Cons y ys)
  show ?thesis
  proof (cases "x = NL")
    case True
    with Cons show ?thesis
      by (simp add: splitKeepEOL_def NL_def Let_def del: split_after.simps(2))
        (simp add: split_after.simps)
  next
    case False
    obtain w ws where w: "split_after NL xs = w # ws"
      by (meson split_after_nonempty neq_Nil_conv)
    have "concat (split_after NL xs) = xs" by (rule concat_split_after)
    with w Cons have "ws = [] \<Longrightarrow> w \<noteq> []" by auto
    with False Cons w show ?thesis
      by (auto simp: splitKeepEOL_def Let_def NL_def [symmetric] split_after.simps(2) [of NL x xs, unfolded Cons])
  qed
qed (simp add: splitKeepEOL_def NL_def)

lemma lineOffsets_Cons:
  "lineOffsets (x # xs) =
     0 # map Suc (if x = NL then lineOffsets xs else drop 1 (lineOffsets xs))"
proof (cases xs)
  case (Cons y ys)
  have "[0..<length xs] = 0 # map Suc [0..<length xs - 1]"
    using Cons by (simp add: map_Suc_upt upt_conv_Cons del: upt_Suc)
  then show ?thesis
    using Cons by (simp add: lineOffsets_def filter_map o_def del: upt_Suc)
qed (simp add: lineOffsets_def)

lemma lineOffsets_starts: "lineOffsets s = starts (splitKeepEOL s)"
proof (induction s)
  case (Cons x xs)
  show ?case
    by (cases "splitKeepEOL xs") (auto simp: lineOffsets_Cons Cons splitKeepEOL_Cons)
qed (simp add: lineOffsets_def)

section \<open>Lists of lines\<close>

fun is_lines :: "string list \<Rightarrow> bool" where
  "is_lines [] = True"
| "is_lines [w] = (w \<noteq> [] \<and> NL \<notin> set (butlast w))"
| "is_lines (w # v # ws) = (w \<noteq> [] \<and> last w = NL \<and> NL \<notin> set (butlast w) \<and> is_lines (v # ws))"

lemma is_lines_split: "is_lines (splitKeepEOL s)"
proof (induction s)
  case (Cons x xs)
  show ?case
  proof (cases "splitKeepEOL xs")
    case Nil
    then show ?thesis by (simp add: splitKeepEOL_Cons)
  next
    case ws: (Cons w ws)
    with Cons show ?thesis
      by (cases ws) (auto simp: splitKeepEOL_Cons)
  qed
qed simp

lemma split_one_line: "w \<noteq> [] \<Longrightarrow> NL \<notin> set (butlast w) \<Longrightarrow> splitKeepEOL w = [w]"
  by (induction w) (auto simp: splitKeepEOL_Cons split: if_splits)

lemma splitKeepEOL_append:
  "s = [] \<or> last s = NL \<Longrightarrow> splitKeepEOL (s @ t) = splitKeepEOL s @ splitKeepEOL t"
proof (induction s)
  case (Cons x xs)
  show ?case
  proof (cases xs)
    case Nil
    with Cons.prems show ?thesis by (simp add: splitKeepEOL_Cons)
  next
    case xs: (Cons y ys)
    with Cons have "splitKeepEOL (xs @ t) = splitKeepEOL xs @ splitKeepEOL t" by simp
    moreover have "splitKeepEOL xs \<noteq> []" using xs by (auto simp: splitKeepEOL_Cons split: list.splits)
    ultimately show ?thesis by (auto simp: splitKeepEOL_Cons [of x] split: list.splits)
  qed
qed simp

lemma split_concat_lines: "is_lines ws \<Longrightarrow> splitKeepEOL (concat ws) = ws"
proof (induction ws rule: is_lines.induct)
  case (3 w v ws)
  then have "splitKeepEOL (w @ concat (v # ws)) = splitKeepEOL w @ splitKeepEOL (concat (v # ws))"
    by (intro splitKeepEOL_append) simp
  with 3 show ?case by (simp add: split_one_line)
qed (simp_all add: split_one_line)

lemma is_lines_Cons: "is_lines (w # ws) \<Longrightarrow> is_lines ws"
  by (cases ws) auto

lemma is_lines_drop: "is_lines ws \<Longrightarrow> is_lines (drop k ws)"
  by (induction ws arbitrary: k) (auto simp: drop_Cons' dest: is_lines_Cons)

lemma is_lines_take: "is_lines ws \<Longrightarrow> is_lines (take k ws)"
proof (induction ws arbitrary: k rule: is_lines.induct)
  case (3 w v ws)
  show ?case
  proof (cases k)
    case (Suc j)
    with 3 have "is_lines (take j (v # ws))" by simp
    with 3 Suc show ?thesis by (cases j) auto
  qed simp
qed (auto simp: take_Cons')

lemma is_lines_last: "is_lines ws \<Longrightarrow> k < length ws \<Longrightarrow> take k ws = [] \<or> last (concat (take k ws)) = NL"
proof (induction ws arbitrary: k rule: is_lines.induct)
  case (3 w v ws)
  show ?case
  proof (cases k)
    case (Suc j)
    with 3 have "take j (v # ws) = [] \<or> last (concat (take j (v # ws))) = NL" by simp
    moreover have "concat (take j (v # ws)) \<noteq> []" if "take j (v # ws) \<noteq> []"
      using that 3(2) by (cases j; cases ws) auto
    ultimately show ?thesis using Suc 3(2) by (auto simp: last_append)
  qed simp
qed auto

section \<open>The splice\<close>

lemma substr_lines:
  assumes "i \<le> j" "j \<le> length ws"
  shows "substr (concat ws) (length (concat (take i ws))) (length (concat (take j ws))) =
    Some (concat (drop i (take j ws)))"
proof -
  have "concat ws = concat (take i ws) @ concat (drop i (take j ws)) @ concat (drop j ws)"
    by (metis append_assoc append_take_drop_id assms(1) concat_append min.absorb1 take_take)
  moreover have "concat (take j ws) = concat (take i ws) @ concat (drop i (take j ws))"
    by (metis append_take_drop_id assms(1) concat_append min.absorb1 take_take)
  ultimately show ?thesis by (simp add: substr_def)
qed

definition range_lines :: "string \<Rightarrow> nat \<Rightarrow> nat \<Rightarrow> string \<Rightarrow> string list" where
  "range_lines content s e newStr =
     (let ls = splitKeepEOL content
      in take (s - 1) ls @
         splitKeepEOL (terminateLike newStr (concat (drop (s - 1) (take e ls)))) @ drop e ls)"

lemma applyRangeEdit_splice:
  assumes "content \<noteq> []" "1 \<le> startLine" "startLine \<le> int (length (splitKeepEOL content))"
    and "startLine \<le> e" "e = range_end startLine endLine (length (splitKeepEOL content))"
  shows "applyRangeEdit content startLine endLine newStr =
    Some (Inr (concat (take (nat startLine - 1) (splitKeepEOL content)) @
      terminateLike newStr (concat (drop (nat startLine - 1) (take (nat e) (splitKeepEOL content)))) @
      concat (drop (nat e) (splitKeepEOL content))))"
proof -
  let ?ls = "splitKeepEOL content"
  have e: "e \<le> int (length ?ls)" using assms(3,5) by (auto simp: range_end_def Let_def)
  have c: "concat ?ls = content" by (rule splitKeepEOL_concat)
  define s0 e0 where "s0 = nat (startLine - 1)" and "e0 = nat e"
  then have s0: "startLine = int s0 + 1" "nat startLine - 1 = s0" "s0 < length ?ls"
    and e0: "e = int e0" "s0 < e0" "e0 \<le> length ?ls"
    using assms(2-4) e by auto
  have so: "aget (lineOffsets content) (startLine - 1) = Some (length (concat (take s0 ?ls)))"
    using s0 by (simp add: lineOffsets_starts starts_nth)
  have eo: "(if e = int (length ?ls) then Some (length content) else aget (lineOffsets content) e) =
      Some (length (concat (take e0 ?ls)))"
    using e0 c by (auto simp: lineOffsets_starts starts_nth)
  have "substr content 0 (length (concat (take s0 ?ls))) = Some (concat (take s0 ?ls))"
    using substr_lines [of 0 s0 ?ls] s0 c by simp
  moreover have "substr content (length (concat (take s0 ?ls))) (length (concat (take e0 ?ls))) =
      Some (concat (drop s0 (take e0 ?ls)))"
    using substr_lines [of s0 e0 ?ls] e0 c by simp
  moreover have "substr content (length (concat (take e0 ?ls))) (length content) =
      Some (concat (drop e0 ?ls))"
    using substr_lines [of e0 "length ?ls" ?ls] e0 c by simp
  moreover have "length (lineOffsets content) = length ?ls" by (simp add: lineOffsets_starts)
  moreover have "startLine \<noteq> -1" "length ?ls \<noteq> 0" "\<not> (startLine < 1 \<or> int (length ?ls) < startLine)"
    "\<not> e < startLine" "nat e = e0"
    using assms(2-4) s0 e0 by auto
  ultimately show ?thesis
    unfolding applyRangeEdit_def Let_def assms(5) [symmetric]
    by (simp only: if_False assms(5) [symmetric] so eo s0(2) bind.bind_lunit Let_def simp_thms if_cancel
        option.simps bind_simps)
qed

lemma trailingLineEnding_NL:
  "s \<noteq> [] \<Longrightarrow> last s = NL \<Longrightarrow> trailingLineEnding s \<noteq> [] \<and> last (trailingLineEnding s) = NL"
  by (auto simp: trailingLineEnding_def has_suffix_single)

lemma terminateLike_NL:
  "s \<noteq> [] \<Longrightarrow> last s = NL \<Longrightarrow> terminateLike t s = [] \<or> last (terminateLike t s) = NL"
  using trailingLineEnding_NL [of s] by (auto simp: terminateLike_def has_suffix_single)

lemma splice_lines:
  assumes "is_lines ws" "i < j" "j \<le> length ws"
  shows "splitKeepEOL (concat (take i ws) @ terminateLike t (concat (drop i (take j ws))) @ concat (drop j ws)) =
    take i ws @ splitKeepEOL (terminateLike t (concat (drop i (take j ws)))) @ drop j ws"
proof -
  let ?m = "concat (drop i (take j ws))" and ?t = "terminateLike t (concat (drop i (take j ws)))"
  have rest: "splitKeepEOL (?t @ concat (drop j ws)) = splitKeepEOL ?t @ drop j ws"
  proof (cases "j = length ws")
    case False
    with assms have j: "take j ws \<noteq> []" "last (concat (take j ws)) = NL"
      using is_lines_last [OF assms(1), of j] by auto
    have split: "concat (take j ws) = concat (take i ws) @ ?m"
      by (metis append_take_drop_id assms(2) concat_append less_imp_le min.absorb1 take_take)
    have "?m \<noteq> []"
    proof -
      have "drop i (take j ws) = ws ! i # drop (Suc i) (take j ws)"
        using assms by (metis Cons_nth_drop_Suc length_take min.absorb2 nth_take)
      moreover have "ws ! i \<noteq> []"
        using assms
      proof -
        have "is_lines (drop i ws)" by (rule is_lines_drop [OF assms(1)])
        moreover have "drop i ws = ws ! i # drop (Suc i) ws"
          using assms by (simp add: Cons_nth_drop_Suc)
        ultimately show ?thesis by (cases "drop (Suc i) ws") auto
      qed
      ultimately show ?thesis by simp
    qed
    with split j have "last ?m = NL" by simp
    with \<open>?m \<noteq> []\<close> terminateLike_NL have "?t = [] \<or> last ?t = NL" by blast
    then have "splitKeepEOL (?t @ concat (drop j ws)) = splitKeepEOL ?t @ splitKeepEOL (concat (drop j ws))"
      by (rule splitKeepEOL_append)
    then show ?thesis by (simp add: split_concat_lines is_lines_drop assms(1))
  qed simp
  have "splitKeepEOL (concat (take i ws) @ ?t @ concat (drop j ws)) =
      splitKeepEOL (concat (take i ws)) @ splitKeepEOL (?t @ concat (drop j ws))"
  proof (rule splitKeepEOL_append)
    show "concat (take i ws) = [] \<or> last (concat (take i ws)) = NL"
      using is_lines_last [OF assms(1), of i] assms(2,3) by auto
  qed
  then show ?thesis by (simp add: rest split_concat_lines is_lines_take assms(1))
qed

lemma applyRangeEdit_cases:
  "\<exists>r. applyRangeEdit content startLine endLine newStr = Some r \<and>
     ((\<exists>e. r = Inl e) \<longleftrightarrow>
        startLine \<noteq> -1 \<and>
        (if content = [] then startLine \<noteq> 1
         else startLine < 1 \<or> int (length (splitKeepEOL content)) < startLine \<or>
           range_end startLine endLine (length (splitKeepEOL content)) < startLine))"
proof (cases "startLine = -1")
  case True
  then show ?thesis by (simp add: applyRangeEdit_def)
next
  case False
  let ?n = "length (splitKeepEOL content)"
  have n: "length (lineOffsets content) = ?n" by (simp add: lineOffsets_starts)
  have ne: "?n = 0 \<longleftrightarrow> content = []"
    using splitKeepEOL_concat [of content] by auto
  show ?thesis
  proof (cases "content \<noteq> [] \<and> 1 \<le> startLine \<and> startLine \<le> int ?n \<and> startLine \<le> range_end startLine endLine ?n")
    case True
    with applyRangeEdit_splice [of content startLine "range_end startLine endLine ?n" endLine newStr]
    show ?thesis by auto
  next
    case bad: False
    consider "content = []" | "content \<noteq> []" "startLine < 1 \<or> int ?n < startLine"
      | "content \<noteq> []" "\<not> (startLine < 1 \<or> int ?n < startLine)" "range_end startLine endLine ?n < startLine"
      using bad by linarith
    then show ?thesis
    proof cases
      case 1
      with False show ?thesis by (simp add: applyRangeEdit_def lineOffsets_def)
    next
      case 2
      with False n ne have "applyRangeEdit content startLine endLine newStr = Some (Inl (Start_out_of_range startLine ?n))"
        unfolding applyRangeEdit_def Let_def by (simp only: if_False if_True n)
      with False 2 show ?thesis by auto
    next
      case 3
      with False n ne have "applyRangeEdit content startLine endLine newStr =
          Some (Inl (End_before_start (range_end startLine endLine ?n) startLine))"
        unfolding applyRangeEdit_def Let_def by (simp only: if_False if_True n)
      with False 3 show ?thesis by auto
    qed
  qed
qed

section \<open>Properties\<close>

text \<open>A range edit never panics: every offset it looks up is in range. It refuses exactly the
  calls whose start is outside the file or whose end is before the start.\<close>

theorem range_edit_total:
  "\<exists>r. applyRangeEdit content startLine endLine newStr = Some r \<and>
     ((\<exists>e. r = Inl e) \<longleftrightarrow>
        startLine \<noteq> -1 \<and>
        (if content = [] then startLine \<noteq> 1
         else startLine < 1 \<or> int (length (splitKeepEOL content)) < startLine \<or>
           range_end startLine endLine (length (splitKeepEOL content)) < startLine))"
  by (rule applyRangeEdit_cases)

text \<open>An accepted range edit replaces exactly the lines of the range: the lines before and after
  it, as read_file numbers them, are the same lines in the result, and the replacement is not
  glued to the line that follows.\<close>

theorem range_edit_lines:
  assumes "content \<noteq> []" "1 \<le> startLine" "startLine \<le> int (length (splitKeepEOL content))"
    and "e = range_end startLine endLine (length (splitKeepEOL content))" "startLine \<le> e"
  shows "\<exists>r. applyRangeEdit content startLine endLine newStr = Some (Inr r) \<and>
    splitKeepEOL r = range_lines content (nat startLine) (nat e) newStr"
proof -
  have "e \<le> int (length (splitKeepEOL content))"
    using assms(3,4) by (auto simp: range_end_def Let_def)
  with assms have "splitKeepEOL (concat (take (nat startLine - 1) (splitKeepEOL content)) @
      terminateLike newStr (concat (drop (nat startLine - 1) (take (nat e) (splitKeepEOL content)))) @
      concat (drop (nat e) (splitKeepEOL content))) = range_lines content (nat startLine) (nat e) newStr"
    by (simp only: range_lines_def Let_def) (rule splice_lines [OF is_lines_split], auto)
  with applyRangeEdit_splice [OF assms(1-3,5,4)] show ?thesis by blast
qed

theorem range_edit_lines_witness:
  "\<exists>r. applyRangeEdit (''a'' @ [CR, NL] @ ''b'' @ [CR, NL] @ ''c'') 1 (-2 + 3) ''x'' = Some (Inr r) \<and>
     splitKeepEOL r = [''x'' @ [CR, NL], ''b'' @ [CR, NL], ''c'']"
proof -
  have ls: "splitKeepEOL (''a'' @ [CR, NL] @ ''b'' @ [CR, NL] @ ''c'') = [''a'' @ [CR, NL], ''b'' @ [CR, NL], ''c'']"
    by code_simp
  have "range_lines (''a'' @ [CR, NL] @ ''b'' @ [CR, NL] @ ''c'') (nat 1) (nat 1) ''x'' =
      [''x'' @ [CR, NL], ''b'' @ [CR, NL], ''c'']"
    by code_simp
  with range_edit_lines [of "''a'' @ [CR, NL] @ ''b'' @ [CR, NL] @ ''c''" 1 1 1 "''x''"] ls
  show ?thesis by (simp add: range_end_def)
qed

end
