(* ===== verification/Plumb_EditFile_Correct.thy ===== *)
theory Plumb_EditFile_Correct
  imports Plumb_EditFile Plumb_RangeEdit_Correct
begin

text \<open>
  Correctness of \<open>edit_file\<close>: an accepted match is the only one, up to overlap with itself;
  an anchor edit replaces exactly the text between its anchors; a batch is applied as a whole
  or not at all; and an edit never overwrites a version of the file it did not read, as long
  as nobody writes in the instant between the last check and the rename.
\<close>

section \<open>Line endings\<close>

lemma join_with_empty: "sep \<noteq> [] \<Longrightarrow> ws \<noteq> [] \<Longrightarrow> join_with sep ws = [] \<longleftrightarrow> ws = [[]]"
  by (cases ws rule: remdups_adj.cases) auto

lemma replace_all_empty:
  assumes "old \<noteq> []" "new \<noteq> []"
  shows "replace_all s old new = [] \<longleftrightarrow> s = []"
proof -
  obtain ws where "ws \<noteq> []" "s = join_with old ws" "replace_all s old new = join_with new ws"
    using replace_all_pieces [OF assms(1), of s new] by blast
  then show ?thesis using assms by (simp add: join_with_empty)
qed

lemma matchLineEndings_empty: "matchLineEndings s ref = [] \<longleftrightarrow> s = []"
  by (simp add: matchLineEndings_def replace_all_empty)

lemma contains_member: "contains s [CR, NL] \<Longrightarrow> CR \<in> set s \<and> NL \<in> set s"
  by (auto simp: contains_iff)

lemma matchLineEndings_lf: "CR \<notin> set s \<Longrightarrow> CR \<notin> set ref \<Longrightarrow> matchLineEndings s ref = s"
  by (auto simp: matchLineEndings_def dest: contains_member)

lemma matchLineEndings_crlf:
  "contains ref [CR, NL] \<Longrightarrow> contains s [CR, NL] \<or> NL \<notin> set s \<Longrightarrow> matchLineEndings s ref = s"
  by (auto simp: matchLineEndings_def replace_all_id contains_single)

lemma join_NL_member: "NL \<in> set (join_with [CR, NL] ws) \<Longrightarrow> \<forall>w \<in> set ws. NL \<notin> set w \<Longrightarrow> contains (join_with [CR, NL] ws) [CR, NL]"
proof (induction ws rule: remdups_adj.induct)
  case (3 v w ws)
  have "join_with [CR, NL] (v # w # ws) = v @ [CR, NL] @ join_with [CR, NL] (w # ws)" by simp
  then show ?case unfolding contains_iff by blast
qed auto

lemma matchLineEndings_crlf_NL:
  assumes "contains ref [CR, NL]" "NL \<in> set (matchLineEndings s ref)"
  shows "contains (matchLineEndings s ref) [CR, NL]"
proof (cases "contains s [CR, NL]")
  case True
  with assms(1) show ?thesis by (simp add: matchLineEndings_def)
next
  case False
  obtain ws where ws: "replace_all s [NL] [CR, NL] = join_with [CR, NL] ws" "list_all (\<lambda>w. \<not> contains w [NL]) ws"
    using replace_all_pieces [of "[NL]" s "[CR, NL]"] by auto
  with False assms have m: "matchLineEndings s ref = join_with [CR, NL] ws" by (simp add: matchLineEndings_def)
  with assms(2) ws(2) show ?thesis
    by (simp add: m join_NL_member list_all_iff contains_single)
qed

section \<open>The gutter\<close>

lemma strip_body_length: "strip_body prev ls = Some ws \<Longrightarrow> length ws = length ls"
  by (induction ls arbitrary: prev ws) (auto split: option.splits if_splits)

lemma stripLineGutter_nonempty:
  assumes "stripLineGutter s = Some t"
  shows "t \<noteq> []"
proof -
  let ?ls = "split_on NL s"
  let ?body = "if 1 < length ?ls \<and> last ?ls = [] then butlast ?ls else ?ls"
  from assms obtain ws where ws: "strip_body None ?body = Some ws" "\<not> length ?body < 2"
      "t = join_with [NL] (ws @ drop (length ?body) ?ls)"
    by (auto simp: stripLineGutter_def Let_def split: if_splits)
  then have "2 \<le> length ws" using strip_body_length [OF ws(1)] by linarith
  then have "ws @ drop (length ?body) ?ls \<noteq> []" "ws @ drop (length ?body) ?ls \<noteq> [[]]"
    by (auto simp: append_eq_Cons_conv)
  with ws(3) show ?thesis by (metis join_with_empty list.discI)
qed

section \<open>One match\<close>

lemma only_match:
  assumes "cut_str old s = Some (b, a)" "\<not> contains a old" "s = b' @ old @ a'"
  shows "length b \<le> length b' \<and> length b' < length b + length old"
proof
  show "length b \<le> length b'" by (rule cut_str_first [OF assms(1,3)])
  show "length b' < length b + length old"
  proof (rule ccontr)
    assume "\<not> ?thesis"
    then have "length (b @ old) \<le> length b'" by simp
    moreover have "(b @ old) @ a = b' @ old @ a'" using assms(1,3) by (simp add: cut_str_Some [symmetric])
    ultimately have "a = drop (length (b @ old)) b' @ old @ a'"
      by (metis append_eq_append_conv_if drop_eq_Nil append_eq_conv_conj drop_append)
    with assms(2) show False unfolding contains_iff by blast
  qed
qed

lemma str_count_once: "old \<noteq> [] \<Longrightarrow> \<not> 1 < str_count s old \<Longrightarrow> 0 < str_count s old \<Longrightarrow>
    \<exists>b a. cut_str old s = Some (b, a) \<and> \<not> contains a old"
  using str_count_1 [of old s] by simp

lemma resolveStrMatch_cases:
  assumes "resolveStrMatch content e = (old, new, count, stripped)" "0 < count" "OldStr e \<noteq> []"
  shows "old \<noteq> [] \<and> count = str_count content old \<and>
    (if stripped then
       stripLineGutter (matchLineEndings (OldStr e) content) = Some old \<and>
       \<not> contains content (matchLineEndings (OldStr e) content) \<and>
       new = (case stripLineGutter (matchLineEndings (NewStr e) content) of
                Some w \<Rightarrow> w | None \<Rightarrow> matchLineEndings (NewStr e) content)
     else old = matchLineEndings (OldStr e) content \<and> new = matchLineEndings (NewStr e) content)"
proof -
  have ne: "matchLineEndings (OldStr e) content \<noteq> []" using assms(3) by (simp add: matchLineEndings_empty)
  show ?thesis
  proof (cases "0 < str_count content (matchLineEndings (OldStr e) content)")
    case True
    with assms(1) ne show ?thesis by (auto simp: resolveStrMatch_def Let_def)
  next
    case False
    then have nc: "\<not> contains content (matchLineEndings (OldStr e) content)"
      using str_count_0 [OF ne] by simp
    show ?thesis
    proof (cases "stripLineGutter (matchLineEndings (OldStr e) content)")
      case None
      with False assms(1,2) show ?thesis by (simp add: resolveStrMatch_def Let_def)
    next
      case (Some w)
      with False assms(1,2) nc stripLineGutter_nonempty [OF Some] show ?thesis
        by (auto simp: resolveStrMatch_def Let_def split: if_splits)
    qed
  qed
qed

text \<open>An accepted edit without replace_all replaces one match of the old text (or, when that
  occurs nowhere, of the old text without its line-number gutter), and there is no other match
  that does not overlap it. Everything around the match is kept.\<close>

theorem str_edit_unique:
  assumes "applyStrEdit content e i = Inr (r, stripped)" "\<not> ReplaceAll e"
  shows "\<exists>old new b a. content = b @ old @ a \<and> r = b @ new @ a \<and> old \<noteq> []
    \<and> (\<forall>b' a'. content = b' @ old @ a' \<longrightarrow> length b \<le> length b' \<and> length b' < length b + length old)
    \<and> (if stripped then
         stripLineGutter (matchLineEndings (OldStr e) content) = Some old \<and>
         \<not> contains content (matchLineEndings (OldStr e) content)
       else old = matchLineEndings (OldStr e) content \<and> new = matchLineEndings (NewStr e) content)"
proof -
  obtain old new count st where m: "resolveStrMatch content e = (old, new, count, st)"
    by (metis prod_cases4)
  with assms have c: "OldStr e \<noteq> []" "0 < count" "\<not> 1 < count" "r = replace_first content old new" "st = stripped"
    by (auto simp: applyStrEdit_def split: if_splits)
  note f = resolveStrMatch_cases [OF m c(2,1)]
  then obtain b a where ba: "cut_str old content = Some (b, a)" "\<not> contains a old"
    using str_count_once [of old content] c(2,3) by auto
  have "if stripped then
       stripLineGutter (matchLineEndings (OldStr e) content) = Some old \<and>
       \<not> contains content (matchLineEndings (OldStr e) content)
     else old = matchLineEndings (OldStr e) content \<and> new = matchLineEndings (NewStr e) content"
    using f c(5) by (cases stripped) simp_all
  moreover have "old \<noteq> []" using f by blast
  moreover have "content = b @ old @ a" "r = b @ new @ a"
    using ba(1) c(4) by (simp_all add: cut_str_Some replace_first_def)
  moreover have "\<forall>b' a'. content = b' @ old @ a' \<longrightarrow> length b \<le> length b' \<and> length b' < length b + length old"
    using only_match [OF ba] by blast
  ultimately show ?thesis by (intro exI [of _ old] exI [of _ new] exI [of _ b] exI [of _ a] conjI)
qed

theorem str_edit_unique_witness:
  "\<exists>old new b a. ''f(x)'' = b @ old @ a \<and> ''g(x)'' = b @ new @ a \<and> old \<noteq> []
    \<and> (\<forall>b' a'. ''f(x)'' = b' @ old @ a' \<longrightarrow> length b \<le> length b' \<and> length b' < length b + length old)
    \<and> old = matchLineEndings ''f'' ''f(x)'' \<and> new = matchLineEndings ''g'' ''f(x)''"
proof -
  have "applyStrEdit ''f(x)'' (synthetic_edit ''f'' ''g'') 0 = Inr (''g(x)'', False)"
    "\<not> ReplaceAll (synthetic_edit ''f'' ''g'')"
    by code_simp+
  from str_edit_unique [OF this] show ?thesis by (simp add: synthetic_edit_def)
qed

text \<open>
  The old text may still match in two places that overlap, which the tool counts once: the
  first of them is replaced.
\<close>

lemma overlapping_match_accepted:
  "applyStrEdit ''}}}'' (synthetic_edit ''}}'' ''};'') 0 = Inr (''};}'', False)"
  by code_simp

section \<open>Anchors\<close>

lemma anchor_resolved:
  assumes "resolveAnchor content anchor = (t, c, stripped)" "anchorMatchError field c = None" "anchor \<noteq> []"
  shows "t \<noteq> [] \<and> (\<exists>b a. cut_str t content = Some (b, a) \<and> \<not> contains a t) \<and>
    (\<not> stripped \<longrightarrow> t = matchLineEndings anchor content)"
proof -
  have c: "c = 1" using assms(2) by (auto simp: anchorMatchError_def split: if_splits)
  have ne: "matchLineEndings anchor content \<noteq> []" using assms(3) by (simp add: matchLineEndings_empty)
  have "t \<noteq> [] \<and> c = str_count content t \<and> (\<not> stripped \<longrightarrow> t = matchLineEndings anchor content)"
    using assms(1) c ne by (auto simp: resolveAnchor_def Let_def dest: stripLineGutter_nonempty
        split: if_splits option.splits)
  with c str_count_1 [of t content] show ?thesis by simp
qed

text \<open>What an accepted pair of anchors says of the file.\<close>

definition anchored :: "string \<Rightarrow> string \<Rightarrow> string \<Rightarrow> string \<Rightarrow> string \<Rightarrow> string \<Rightarrow> bool" where
  "anchored content pre start interior stop post =
     (content = pre @ start @ interior @ stop @ post \<and> start \<noteq> [] \<and> stop \<noteq> [] \<and>
      cut_str start content = Some (pre, interior @ stop @ post) \<and>
      \<not> contains (interior @ stop @ post) start \<and>
      cut_str stop content = Some (pre @ start @ interior, post) \<and> \<not> contains post stop)"

lemma substr_span:
  "s = b @ w @ a \<Longrightarrow> substr s (length b) (length b + length w) = Some w"
  by (simp add: substr_def)

lemma anchored_cuts:
  assumes "cut_str start content = Some (b, a)" "\<not> contains a start" "start \<noteq> []"
    and "cut_str stop content = Some (b', a')" "\<not> contains a' stop" "stop \<noteq> []"
    and "length b + length start \<le> length b'"
  shows "\<exists>interior. b' = b @ start @ interior \<and> anchored content b start interior stop a'"
proof -
  have c: "content = (b @ start) @ a" "content = b' @ stop @ a'"
    using assms(1,4) by (simp_all add: cut_str_Some)
  define interior where "interior = drop (length (b @ start)) b'"
  from arg_cong [OF c(1), of "take (length (b @ start))"] c(2) assms(7)
  have "take (length (b @ start)) b' = b @ start" by simp
  then have b': "b' = (b @ start) @ interior" unfolding interior_def by (metis append_take_drop_id)
  with c have "a = interior @ stop @ a'" by simp
  with assms c(1) b' show ?thesis by (intro exI [of _ interior]) (simp add: anchored_def)
qed

lemma buildAnchorEdit_anchored:
  assumes "buildAnchorEdit content a = Some (Inr (e, stripped, seams))" "StartAnchor a \<noteq> []" "EndAnchor a \<noteq> []"
  shows "\<exists>pre start interior stop post. anchored content pre start interior stop post \<and>
    e = synthetic_edit (start @ interior @ stop)
          (if IncludeAnchors a then matchLineEndings (AnchorNew a) content
           else start @ matchLineEndings (AnchorNew a) content @ stop) \<and>
    (\<not> stripped \<longrightarrow> start = matchLineEndings (StartAnchor a) content \<and> stop = matchLineEndings (EndAnchor a) content)"
proof -
  obtain start n st where rs: "resolveAnchor content (StartAnchor a) = (start, n, st)" by (metis prod_cases3)
  obtain stop m en where re: "resolveAnchor content (EndAnchor a) = (stop, m, en)" by (metis prod_cases3)
  from assms(1) rs re have ok: "anchorMatchError Start_anchor n = None" "anchorMatchError End_anchor m = None"
    by (auto simp: buildAnchorEdit_def split: option.splits)
  from anchor_resolved [OF rs ok(1) assms(2)] obtain b x where
    s: "start \<noteq> []" "cut_str start content = Some (b, x)" "\<not> contains x start"
      "\<not> st \<longrightarrow> start = matchLineEndings (StartAnchor a) content" by blast
  from anchor_resolved [OF re ok(2) assms(3)] obtain b' x' where
    t: "stop \<noteq> []" "cut_str stop content = Some (b', x')" "\<not> contains x' stop"
      "\<not> en \<longrightarrow> stop = matchLineEndings (EndAnchor a) content" by blast
  have le: "length b + length start \<le> length b'"
    using assms(1) rs re ok s(2) t(2) by (auto simp: buildAnchorEdit_def str_index_def split: if_splits)
  from anchored_cuts [OF s(2,3,1) t(2,3,1) le] obtain interior where
    i: "b' = b @ start @ interior" "anchored content b start interior stop x'" by blast
  then have c: "content = b @ (start @ interior @ stop) @ x'" by (simp add: anchored_def)
  have "substr content (length b) (length b' + length stop) = Some (start @ interior @ stop)"
    using substr_span [OF c] i(1) by (simp add: add.assoc)
  then have "stripped = (st \<or> en)" "e = synthetic_edit (start @ interior @ stop)
      (if IncludeAnchors a then matchLineEndings (AnchorNew a) content
       else start @ matchLineEndings (AnchorNew a) content @ stop)"
    using assms(1) rs re ok s(2) t(2) le
    by (auto simp: buildAnchorEdit_def str_index_def Let_def bind_eq_Some_conv simp del: append_assoc)
  with i(2) s(4) t(4) show ?thesis by blast
qed

lemma anchored_span:
  assumes "anchored content pre start interior stop post"
  shows "cut_str (start @ interior @ stop) content = Some (pre, post)"
    "\<not> contains post (start @ interior @ stop)"
proof -
  have a: "cut_str start content = Some (pre, interior @ stop @ post)" "\<not> contains (interior @ stop @ post) start"
    "content = pre @ (start @ interior @ stop) @ post"
    using assms unfolding anchored_def by (blast, blast, simp)
  show "cut_str (start @ interior @ stop) content = Some (pre, post)"
  proof (rule cut_str_unique [OF a(3)])
    fix b' a' assume "content = b' @ (start @ interior @ stop) @ a'"
    then have "content = b' @ start @ (interior @ stop @ a')" by simp
    from cut_str_first [OF a(1) this] show "length pre \<le> length b'" .
  qed
  show "\<not> contains post (start @ interior @ stop)"
  proof
    assume "contains post (start @ interior @ stop)"
    then obtain u v where "post = u @ (start @ interior @ stop) @ v" unfolding contains_iff by blast
    then have "interior @ stop @ post = (interior @ stop @ u) @ start @ (interior @ stop @ v)" by simp
    with a(2) show False unfolding contains_iff by blast
  qed
qed

lemma apply_synthetic:
  assumes "cut_str span content = Some (pre, post)" "\<not> contains post span" "span \<noteq> []"
    and "matchLineEndings span content = span"
  shows "applyStrEdit content (synthetic_edit span new) i = Inr (pre @ matchLineEndings new content @ post, False)"
proof -
  have "str_count content span = 1" using assms(1,2) str_count_1 [OF assms(3), of content] by blast
  with assms show ?thesis
    by (simp add: applyStrEdit_def resolveStrMatch_def synthetic_edit_def replace_first_def)
qed

text \<open>
  A text whose lines all end the same way: without a carriage return, or with one before every
  line feed.
\<close>

definition lf_text :: "string \<Rightarrow> bool" where
  "lf_text s = (CR \<notin> set s)"

definition crlf_text :: "string \<Rightarrow> bool" where
  "crlf_text s = (contains s [CR, NL] \<and> (\<forall>b a. s = b @ NL # a \<longrightarrow> b \<noteq> [] \<and> last b = CR))"

lemma no_NL_crlf:
  assumes "contains ref [CR, NL]" "\<not> contains (matchLineEndings s ref) [CR, NL]"
  shows "NL \<notin> set (matchLineEndings s ref)"
  using assms matchLineEndings_crlf_NL by blast

lemma crlf_span:
  assumes "crlf_text content" "content = pre @ w @ post" "w \<noteq> []" "hd w \<noteq> NL"
  shows "contains w [CR, NL] \<or> NL \<notin> set w"
proof (rule disjCI)
  assume "\<not> NL \<notin> set w"
  then obtain b a where w: "w = b @ NL # a" by (meson split_list)
  then have b: "b \<noteq> []" using assms(3,4) by auto
  have "content = (pre @ b) @ NL # (a @ post)" using assms(2) w by simp
  then have "last (pre @ b) = CR" using assms(1) unfolding crlf_text_def by blast
  then have "b = butlast b @ [CR]" using b by (metis append_butlast_last_id last_appendR)
  then have "w = butlast b @ [CR, NL] @ a" using w by (metis append.assoc append_Cons append_Nil)
  then show "contains w [CR, NL]" unfolding contains_iff by blast
qed

lemma crlf_normal: "contains ref [CR, NL] \<Longrightarrow> matchLineEndings (matchLineEndings s ref) ref = matchLineEndings s ref"
  using matchLineEndings_crlf [of ref "matchLineEndings s ref"] matchLineEndings_crlf_NL [of ref s] by blast

lemma crlf_append:
  assumes "contains ref [CR, NL]"
    and "contains u [CR, NL] \<or> NL \<notin> set u" "contains v [CR, NL] \<or> NL \<notin> set v"
  shows "contains (u @ v) [CR, NL] \<or> NL \<notin> set (u @ v)"
  using assms unfolding contains_iff
  by (metis UnE append.assoc set_append)

text \<open>Between its anchors an edit replaces exactly the text between them, or the anchors and
  that text when they are included, and keeps the rest: the edit it is lowered to is always
  accepted and hits the span it was computed from. This holds in a file of uniform line
  endings, the new text written with those of the file.\<close>

theorem anchor_edit_exact:
  assumes "buildAnchorEdit content a = Some (Inr (e, stripped, seams))" "StartAnchor a \<noteq> []" "EndAnchor a \<noteq> []"
    and "lf_text content \<and> lf_text (AnchorNew a) \<or> crlf_text content \<and> \<not> stripped"
  shows "\<exists>pre start interior stop post. anchored content pre start interior stop post
    \<and> (\<not> stripped \<longrightarrow> start = matchLineEndings (StartAnchor a) content \<and> stop = matchLineEndings (EndAnchor a) content)
    \<and> apply_edits [e] content = Some (Inr (pre @
        (if IncludeAnchors a then matchLineEndings (AnchorNew a) content
         else start @ matchLineEndings (AnchorNew a) content @ stop) @ post, []))"
proof -
  let ?new = "matchLineEndings (AnchorNew a) content"
  from buildAnchorEdit_anchored [OF assms(1-3)] obtain pre start interior stop post where
    an: "anchored content pre start interior stop post" and
    e: "e = synthetic_edit (start @ interior @ stop) (if IncludeAnchors a then ?new else start @ ?new @ stop)" and
    norm: "\<not> stripped \<longrightarrow> start = matchLineEndings (StartAnchor a) content \<and> stop = matchLineEndings (EndAnchor a) content"
    by blast
  let ?repl = "if IncludeAnchors a then ?new else start @ ?new @ stop"
  have c: "content = pre @ (start @ interior @ stop) @ post" "start \<noteq> []" using an by (simp_all add: anchored_def)
  have "matchLineEndings (start @ interior @ stop) content = start @ interior @ stop \<and>
      matchLineEndings ?repl content = ?repl"
  proof (cases "lf_text content \<and> lf_text (AnchorNew a)")
    case True
    then have lf: "CR \<notin> set content" "CR \<notin> set ?new" by (simp_all add: lf_text_def matchLineEndings_lf)
    moreover have "CR \<notin> set (start @ interior @ stop)" using lf(1) c(1) by auto
    moreover from this lf(2) have "CR \<notin> set ?repl" by auto
    ultimately show ?thesis using matchLineEndings_lf [of _ content] by blast
  next
    case False
    with assms(4) have crlf: "crlf_text content" and ns: "\<not> stripped" by blast+
    then have ref: "contains content [CR, NL]" by (simp add: crlf_text_def)
    have ok: "contains start [CR, NL] \<or> NL \<notin> set start" "contains stop [CR, NL] \<or> NL \<notin> set stop"
      "contains ?new [CR, NL] \<or> NL \<notin> set ?new"
      using norm ns matchLineEndings_crlf_NL [OF ref] by blast+
    have "contains (start @ interior @ stop) [CR, NL] \<or> NL \<notin> set (start @ interior @ stop)"
    proof (cases "contains start [CR, NL]")
      case True
      then show ?thesis unfolding contains_iff by (metis append.assoc)
    next
      case False
      with ok(1) c(2) have "hd start \<noteq> NL" by (metis hd_in_set)
      then show ?thesis by (intro crlf_span [OF crlf c(1)]) (use c(2) in simp_all)
    qed
    moreover have "contains ?repl [CR, NL] \<or> NL \<notin> set ?repl"
      using ok crlf_append [OF ref ok(1) crlf_append [OF ref ok(3,2)]] by simp
    ultimately show ?thesis using matchLineEndings_crlf [OF ref] by blast
  qed
  then have "applyStrEdit content e 0 = Inr (pre @ ?repl @ post, False)"
    using apply_synthetic [OF anchored_span [OF an], of ?repl 0] c(2) e by simp
  then have "apply_edits [e] content = Some (Inr (pre @ ?repl @ post, []))"
    by (simp add: apply_edits_def apply_edit_def e synthetic_edit_def)
  with an norm show ?thesis by blast
qed

definition anchor_args :: "string \<Rightarrow> string \<Rightarrow> string \<Rightarrow> edit_file_args" where
  "anchor_args a b new =
     \<lparr>Edits = [], StartAnchor = a, EndAnchor = b, AnchorNew = new, IncludeAnchors = False\<rparr>"

theorem anchor_edit_exact_witness:
  "\<exists>pre start interior stop post. anchored ''if(a){b}'' pre start interior stop post
    \<and> apply_edits [synthetic_edit ''(a){'' ''(not a){''] ''if(a){b}'' =
        Some (Inr (pre @ (start @ matchLineEndings ''not a'' ''if(a){b}'' @ stop) @ post, []))"
proof -
  have "buildAnchorEdit ''if(a){b}'' (anchor_args ''('' ''){'' ''not a'') =
      Some (Inr (synthetic_edit ''(a){'' ''(not a){'', False, []))"
    by code_simp
  from anchor_edit_exact [OF this] show ?thesis
    unfolding anchor_args_def lf_text_def CR_def by simp blast
qed

section \<open>A batch of edits\<close>

lemma apply_edit_total: "apply_edit content e i \<noteq> None"
proof -
  obtain r where "applyRangeEdit content (StartLine e) (EndLine e) (matchLineEndings (NewStr e) content) = Some r"
    using applyRangeEdit_cases by blast
  then show ?thesis by (simp add: apply_edit_def)
qed

text \<open>What the all-or-nothing result says beside the list of failures of apply_partial.\<close>

definition agrees :: "(str_error + string \<times> nat list) option \<Rightarrow> str_error option list \<Rightarrow> string \<Rightarrow> bool" where
  "agrees r rs c =
     (case r of
        None \<Rightarrow> False
      | Some (Inr (c', ns)) \<Rightarrow> rs = replicate (length rs) None \<and> c' = c
      | Some (Inl err) \<Rightarrow> find (\<lambda>r. r \<noteq> None) rs = Some (Some err))"

lemma agrees_Cons: "agrees r rs c \<Longrightarrow> agrees r (None # rs) c"
  by (auto simp: agrees_def split: option.splits sum.splits)

lemma partial_loop_agrees:
  "\<exists>rs c. partial_loop i es content = Some (rs, c) \<and> length rs = length es \<and>
    agrees (edit_loop i es content acc) rs c"
proof (induction es arbitrary: i content acc)
  case (Cons e es)
  obtain r where r: "apply_edit content e i = Some r" using apply_edit_total by blast
  show ?case
  proof (cases r)
    case (Inl err)
    obtain rs c where "partial_loop (i + 1) es content = Some (rs, c)" "length rs = length es"
      using Cons.IH [of "i + 1" content] by blast
    with r Inl show ?thesis by (auto simp: agrees_def)
  next
    case (Inr p)
    obtain u st where p: "p = (u, st)" by fastforce
    obtain rs c where "partial_loop (i + 1) es u = Some (rs, c)" "length rs = length es"
      "agrees (edit_loop (i + 1) es u (if st then acc @ [i] else acc)) rs c"
      using Cons.IH [of "i + 1" u] by blast
    moreover have "edit_loop i (e # es) content acc = edit_loop (i + 1) es u (if st then acc @ [i] else acc)"
      using r Inr p by simp
    ultimately show ?thesis using r Inr p by (intro exI [of _ "None # rs"] exI [of _ c]) (simp add: agrees_Cons)
  qed
qed (simp add: agrees_def)

lemma apply_edits_total: "apply_edits es content \<noteq> None"
  using partial_loop_agrees [of 0 es content "[]"] by (auto simp: agrees_def apply_edits_def split: option.splits)

lemma partial_loop_total: "partial_loop i es content \<noteq> None"
  using partial_loop_agrees [of i es content "[]"] by blast

text \<open>A batch never panics, and its two modes agree: all-or-nothing refuses with the first
  failure that apply_partial reports, and accepts exactly when apply_partial reports none, with
  the same result.\<close>

theorem batch_modes_agree:
  "\<exists>rs c. partial_loop 0 es content = Some (rs, c) \<and> length rs = length es \<and>
    (case apply_edits es content of
       None \<Rightarrow> False
     | Some (Inr (c', stripped)) \<Rightarrow> rs = replicate (length rs) None \<and> c' = c
     | Some (Inl err) \<Rightarrow> find (\<lambda>r. r \<noteq> None) rs = Some (Some err))"
  using partial_loop_agrees [of 0 es content "[]"] by (simp add: agrees_def apply_edits_def)

section \<open>Outside writers\<close>

text \<open>
  Outside processes stamp what they write with the time: a file they touch before the \<open>n\<close>-th
  call has an mtime after the \<open>n\<close>-th and up to the next reading of the clock.
\<close>

definition stamped :: "ef_host \<Rightarrow> bool" where
  "stamped h =
     (mono (clock h) \<and>
      (\<forall>n x. outside h n x = x \<or> outside h n x = None \<or>
        (\<exists>g. outside h n x = Some g \<and> clock h n < ef_mtime g \<and> ef_mtime g \<le> clock h (Suc n))))"

definition past :: "ef_host \<Rightarrow> ef_world \<Rightarrow> bool" where
  "past h w = (\<forall>f. cur w = Some f \<longrightarrow> ef_mtime f \<le> clock h (tick w))"

lemma os_call_tick [simp]: "tick (os_call h w) = Suc (tick w)"
  by (simp add: os_call_def)

lemma os_call_past:
  assumes "stamped h" "past h w"
  shows "past h (os_call h w)"
proof -
  have "clock h (tick w) \<le> clock h (Suc (tick w))" using assms(1) by (simp add: stamped_def mono_def)
  moreover have "outside h (tick w) (cur w) = cur w \<or> outside h (tick w) (cur w) = None \<or>
      (\<exists>g. outside h (tick w) (cur w) = Some g \<and> ef_mtime g \<le> clock h (Suc (tick w)))"
    using assms(1) unfolding stamped_def by blast
  ultimately show ?thesis using assms(2) by (force simp: past_def os_call_def)
qed

text \<open>A file that still has an mtime of before is the file of before.\<close>

lemma os_call_same:
  assumes "stamped h" "cur (os_call h w) = Some g" "ef_mtime g \<le> clock h (tick w)"
  shows "cur w = Some g"
proof -
  have "outside h (tick w) (cur w) = cur w \<or> outside h (tick w) (cur w) = None \<or>
      (\<exists>g. outside h (tick w) (cur w) = Some g \<and> clock h (tick w) < ef_mtime g)"
    using assms(1) unfolding stamped_def by blast
  with assms(2,3) show ?thesis by (auto simp: os_call_def)
qed

lemma tryEdit_wrote:
  assumes "tryEdit h es w = Some (w', Wrote original content acc t)"
  shows "\<exists>f1 f2. cur (os_call h w) = Some f1 \<and> cur (os_call h (os_call h w)) = Some f2 \<and> original = ef_data f2 \<and>
    apply_edits es original = Some (Inr (content, acc)) \<and>
    (fails h (Suc (Suc (tick w))) \<or>
      (\<forall>f3. cur (os_call h (os_call h (os_call h w))) = Some f3 \<longrightarrow> ef_mtime f3 = ef_mtime f1)) \<and>
    (\<exists>f. cur w' = Some f \<and> ef_data f = content) \<and> tick w' = tick w + 4"
  using assms
  by (auto simp: tryEdit_def Let_def split: if_splits option.splits sum.splits)

text \<open>
  C37. What an attempt that writes goes over. Other processes may write between its calls as they
  like, as long as they stamp what they write with the time. If the last look at the file before
  the write succeeds, the file was at that look the version the attempt read and edited, or gone;
  so it replaces that version unless somebody wrote in the window between that look and the
  write, which nothing guards. The content written is the edit of the version read, in any case.
\<close>

theorem edit_no_lost_update:
  assumes "stamped h" "past h w" "tryEdit h es w = Some (w', Wrote original content acc t)"
    and "checked = os_call h (os_call h (os_call h w))"
  shows "(\<not> fails h (Suc (Suc (tick w))) \<longrightarrow>
      (\<forall>f. cur checked = Some f \<longrightarrow> ef_data f = original) \<and>
      (outside h (tick checked) (cur checked) = cur checked \<longrightarrow> (\<forall>f. cur (os_call h checked) = Some f \<longrightarrow> ef_data f = original)))
    \<and> (\<exists>f2. cur (os_call h (os_call h w)) = Some f2 \<and> ef_data f2 = original)
    \<and> apply_edits es original = Some (Inr (content, acc))
    \<and> (\<exists>f. cur w' = Some f \<and> ef_data f = content)"
proof -
  let ?w1 = "os_call h w" and ?w2 = "os_call h (os_call h w)"
  obtain f1 f2 where f: "cur ?w1 = Some f1" "cur ?w2 = Some f2" "original = ef_data f2"
    and e: "apply_edits es original = Some (Inr (content, acc))" "\<exists>f. cur w' = Some f \<and> ef_data f = content"
    and same: "\<not> fails h (Suc (Suc (tick w))) \<Longrightarrow> cur checked = Some f3 \<Longrightarrow> ef_mtime f3 = ef_mtime f1" for f3
    using tryEdit_wrote [OF assms(3)] unfolding assms(4) by auto
  have p: "ef_mtime f1 \<le> clock h (tick ?w1)"
    using os_call_past [OF assms(1,2)] f(1) by (simp add: past_def)
  also have "\<dots> \<le> clock h (tick ?w2)" using assms(1) by (simp add: stamped_def mono_def)
  finally have p2: "ef_mtime f1 \<le> clock h (tick ?w2)" .
  have seen: "ef_data f3 = original" if "\<not> fails h (Suc (Suc (tick w)))" "cur checked = Some f3" for f3
  proof -
    have "cur (os_call h ?w2) = Some f3" using that(2) assms(4) by simp
    from os_call_same [OF assms(1) this] same [OF that] p2 have "cur ?w2 = Some f3" by simp
    with f show ?thesis by simp
  qed
  have still: "cur (os_call h checked) = cur checked" if "outside h (tick checked) (cur checked) = cur checked"
    using that by (simp add: os_call_def)
  show ?thesis
  proof (intro conjI impI allI)
    show "ef_data f3 = original" if "\<not> fails h (Suc (Suc (tick w)))" "cur checked = Some f3" for f3 by (rule seen [OF that])
    show "ef_data f3 = original" if "\<not> fails h (Suc (Suc (tick w)))" "outside h (tick checked) (cur checked) = cur checked"
      "cur (os_call h checked) = Some f3" for f3
      using seen [OF that(1)] that(3) unfolding still [OF that(2)] .
    show "\<exists>f2. cur ?w2 = Some f2 \<and> ef_data f2 = original" using f by blast
  qed (rule e)+
qed

text \<open>A quiet host: nobody else writes, no call fails, and the clock ticks once per call.\<close>

definition quiet :: ef_host where
  "quiet = \<lparr>outside = \<lambda>n x. x, fails = \<lambda>n. False, clock = int\<rparr>"

definition one_file :: "string \<Rightarrow> ef_world" where
  "one_file s = \<lparr>cur = Some \<lparr>ef_data = s, ef_mtime = 0, ef_mode = 420\<rparr>, tick = 0\<rparr>"

lemma quiet_stamped: "stamped quiet"
  by (simp add: stamped_def quiet_def mono_def)

theorem edit_no_lost_update_witness:
  "\<exists>w' f. tryEdit quiet [synthetic_edit ''1'' ''2''] (one_file ''a=1'') = Some (w', Wrote ''a=1'' ''a=2'' [] 3) \<and>
     cur (os_call quiet (os_call quiet (os_call quiet (one_file ''a=1'')))) = Some f \<and> ef_data f = ''a=1''"
proof -
  have "map_option snd (tryEdit quiet [synthetic_edit ''1'' ''2''] (one_file ''a=1'')) = Some (Wrote ''a=1'' ''a=2'' [] 3)"
    by code_simp
  then obtain w' where w': "tryEdit quiet [synthetic_edit ''1'' ''2''] (one_file ''a=1'') = Some (w', Wrote ''a=1'' ''a=2'' [] 3)"
    by auto
  have "cur (os_call quiet (os_call quiet (os_call quiet (one_file ''a=1'')))) \<noteq> None"
    by (simp add: os_call_def quiet_def one_file_def)
  then obtain f where f: "cur (os_call quiet (os_call quiet (os_call quiet (one_file ''a=1'')))) = Some f" by blast
  have p: "past quiet (one_file ''a=1'')" "\<not> fails quiet (Suc (Suc (tick (one_file ''a=1''))))"
    by (simp_all add: past_def quiet_def one_file_def)
  have "ef_data f = ''a=1''" using edit_no_lost_update [OF quiet_stamped p(1) w' refl] p(2) f by blast
  with w' f show ?thesis by blast
qed

text \<open>
  The window: a write of another process between the last look and the write of the edit is gone,
  and the comparison of times after the write, which is to find out that a concurrent change was
  overwritten, does not see it. A last look that fails is passed over.
\<close>

definition late_host :: ef_host where
  "late_host = quiet\<lparr>outside := (\<lambda>n x. if n = 3 then map_option (\<lambda>f. f\<lparr>ef_data := ''a=1,b'', ef_mtime := 9\<rparr>) x else x)\<rparr>"

definition blind_host :: ef_host where
  "blind_host = quiet\<lparr>outside := (\<lambda>n x. if n = 2 then map_option (\<lambda>f. f\<lparr>ef_data := ''a=1,b'', ef_mtime := 9\<rparr>) x else x),
     fails := (\<lambda>n. n = 2)\<rparr>"

lemma late_update_lost:
  "map_option (\<lambda>(w, out). (map_option ef_data (cur w), out)) (editFileApply late_host 0 [synthetic_edit ''1'' ''2''] (one_file ''a=1'')) =
     Some (Some ''a=2'', Edited 1 ''a=1'' ''a=2'' [])"
  "map_option (\<lambda>(w, out). (map_option ef_data (cur w), out)) (editFileApply blind_host 0 [synthetic_edit ''1'' ''2''] (one_file ''a=1'')) =
     Some (Some ''a=2'', Edited 1 ''a=1'' ''a=2'' [])"
  by code_simp+

text \<open>
  An attempt that landed and is then written over by somebody else is repeated, on top of what
  that writer left: if it kept the edit, the edit is applied a second time.
\<close>

definition formatter_host :: ef_host where
  "formatter_host = quiet\<lparr>outside := (\<lambda>n x. if n = 4 then map_option (ef_mtime_update (\<lambda>_. 1000000000)) x else x)\<rparr>"

lemma retry_applies_twice:
  "map_option (\<lambda>(w, out). (map_option ef_data (cur w), out))
     (editFileApply formatter_host 0
        [\<lparr>OldStr = [], NewStr = ''b'', StartLine = -1, EndLine = 0, ReplaceAll = False\<rparr>] (one_file ''a'')) =
   Some (Some [CHR ''a'', NL, CHR ''b'', NL, CHR ''b''],
     Edited 2 [CHR ''a'', NL, CHR ''b''] [CHR ''a'', NL, CHR ''b'', NL, CHR ''b''] [])"
  by code_simp

end
