(* ===== verification/Plumb_Host.thy ===== *)
theory Plumb_Host
  imports Plumb_Prelude "HOL-Library.Word"
begin

unbundle bit_operations_syntax

text \<open>
  The operating system under the file writers: a file system with what processes see beside
  what stable storage holds, system calls that may fail, and a crash that may come before any
  of them. A call is one step; a program is a function of the host and the state of the
  system, and a crash ends it with the state it left.

  A path is the list of its components, absolute and cleaned; its directory is the list
  without the last one. The contents of files are of a type of their own, so that a client
  may keep structured files; \<open>empty\<close> is the content of a file just created. \<open>i_synced\<close> says
  that the content of an inode has reached stable storage.
\<close>

type_synonym path = "string list"

datatype io_error = Not_exist | Cross_device | Io

datatype 'a res = Done 'a | Fail io_error | Crashed

record 'c inode =
  i_data :: 'c
  i_synced :: bool
  i_mode :: "32 word"
  i_mtime :: int

record 'c os =
  inodes :: "nat \<Rightarrow> 'c inode"
  now_dir :: "path \<Rightarrow> nat option"
  saved_dir :: "path \<Rightarrow> nat option"
  now_dirs :: "path \<Rightarrow> bool"
  saved_dirs :: "path \<Rightarrow> bool"
  next_inode :: nat
  time :: int
  calls :: nat
  warnings :: nat
  cross_known :: "path list"

text \<open>
  The host: which calls fail and before which a crash comes, the device of a directory, the
  name the system picks for a temporary file, the order in which it lists the names of a
  directory, the process's umask, and the knob \<open>[edits] fsync\<close>.
\<close>

record 'c host =
  call_fails :: "nat \<Rightarrow> bool"
  crashes :: "nat \<Rightarrow> bool"
  device :: "path \<Rightarrow> nat"
  tmp_dir :: path
  temp_name :: "nat \<Rightarrow> string"
  dir_order :: "path \<Rightarrow> string list"
  umask :: "32 word"
  fsync_on :: bool
  empty :: 'c

type_synonym ('c, 'a) io = "'c host \<Rightarrow> 'c os \<Rightarrow> 'a res \<times> 'c os"

section \<open>Programs\<close>

definition return_io :: "'a \<Rightarrow> ('c, 'a) io" where
  "return_io a h s = (Done a, s)"

definition fail_io :: "io_error \<Rightarrow> ('c, 'a) io" where
  "fail_io e h s = (Fail e, s)"

definition bind_io :: "('c, 'a) io \<Rightarrow> ('a \<Rightarrow> ('c, 'b) io) \<Rightarrow> ('c, 'b) io" where
  "bind_io m k h s =
     (case m h s of
        (Done a, s') \<Rightarrow> k a h s'
      | (Fail e, s') \<Rightarrow> (Fail e, s')
      | (Crashed, s') \<Rightarrow> (Crashed, s'))"

definition handle :: "('c, 'a) io \<Rightarrow> (io_error \<Rightarrow> ('c, 'a) io) \<Rightarrow> ('c, 'a) io" where
  "handle m k h s = (case m h s of (Fail e, s') \<Rightarrow> k e h s' | r \<Rightarrow> r)"

definition best_effort :: "('c, 'a) io \<Rightarrow> ('c, unit) io" where
  "best_effort m = handle (bind_io m (\<lambda>_. return_io ())) (\<lambda>_. return_io ())"

text \<open>Run \<open>m\<close>; if it fails, clean up and fail with the error of \<open>m\<close>.\<close>

definition cleanup :: "('c, 'b) io \<Rightarrow> ('c, 'a) io \<Rightarrow> ('c, 'a) io" where
  "cleanup c m = handle m (\<lambda>e. bind_io (best_effort c) (\<lambda>_. fail_io e))"

text \<open>Run \<open>m\<close>, then clean up in either case, as a deferred call does.\<close>

definition finally_io :: "('c, 'b) io \<Rightarrow> ('c, 'a) io \<Rightarrow> ('c, 'a) io" where
  "finally_io c m =
     handle (bind_io m (\<lambda>a. bind_io (best_effort c) (\<lambda>_. return_io a)))
       (\<lambda>e. bind_io (best_effort c) (\<lambda>_. fail_io e))"

text \<open>\<open>err == nil\<close> and its value, or not.\<close>

definition attempt :: "('c, 'a) io \<Rightarrow> ('c, 'a option) io" where
  "attempt m = handle (bind_io m (\<lambda>a. return_io (Some a))) (\<lambda>_. return_io None)"

definition bump :: "'c os \<Rightarrow> 'c os" where
  "bump s = s\<lparr>calls := Suc (calls s), time := time s + 1\<rparr>"

definition syscall :: "('c host \<Rightarrow> 'c os \<Rightarrow> 'a res \<times> 'c os) \<Rightarrow> ('c, 'a) io" where
  "syscall f h s =
     (if crashes h (calls s) then (Crashed, s)
      else if call_fails h (calls s) then (Fail Io, bump s)
      else f h (bump s))"

section \<open>System calls\<close>

definition stat :: "path \<Rightarrow> ('c, 'c inode) io" where
  "stat p = syscall (\<lambda>h s. (case now_dir s p of None \<Rightarrow> Fail Not_exist | Some i \<Rightarrow> Done (inodes s i), s))"

definition stat_dir :: "path \<Rightarrow> ('c, unit) io" where
  "stat_dir d = syscall (\<lambda>h s. (if now_dirs s d then Done () else Fail Not_exist, s))"

definition new_file :: "path \<Rightarrow> 'c \<Rightarrow> 32 word \<Rightarrow> 'c os \<Rightarrow> 'c os" where
  "new_file p c m s =
     s\<lparr>inodes := (inodes s)(next_inode s := \<lparr>i_data = c, i_synced = False, i_mode = m, i_mtime = time s\<rparr>),
       now_dir := (now_dir s)(p := Some (next_inode s)), next_inode := Suc (next_inode s)\<rparr>"

text \<open>\<open>os.CreateTemp\<close>: a name not in use, mode 0600.\<close>

definition create_temp :: "path \<Rightarrow> ('c, path \<times> nat) io" where
  "create_temp d = syscall (\<lambda>h s.
     let p = d @ [temp_name h (next_inode s)] in
     if \<not> now_dirs s d then (Fail Not_exist, s)
     else if now_dir s p \<noteq> None then (Fail Io, s)
     else (Done (p, next_inode s), new_file p (empty h) 384 s))"

text \<open>\<open>os.OpenFile\<close> with \<open>O_CREATE|O_TRUNC\<close>: the mode is used, and masked, only for a new file.\<close>

definition open_trunc :: "path \<Rightarrow> 32 word \<Rightarrow> ('c, nat) io" where
  "open_trunc p m = syscall (\<lambda>h s.
     if \<not> now_dirs s (butlast p) then (Fail Not_exist, s)
     else case now_dir s p of
         None \<Rightarrow> (Done (next_inode s), new_file p (empty h) (m AND NOT (umask h)) s)
       | Some i \<Rightarrow> (Done i, s\<lparr>inodes := (inodes s)(i := (inodes s i)\<lparr>i_data := empty h, i_synced := False, i_mtime := time s\<rparr>)\<rparr>))"

definition on_inode :: "nat \<Rightarrow> ('c inode \<Rightarrow> 'c inode) \<Rightarrow> 'c os \<Rightarrow> 'c os" where
  "on_inode i f s = s\<lparr>inodes := (inodes s)(i := f (inodes s i))\<rparr>"

definition fchmod :: "nat \<Rightarrow> 32 word \<Rightarrow> ('c, unit) io" where
  "fchmod i m = syscall (\<lambda>h s. (Done (), on_inode i (\<lambda>n. n\<lparr>i_mode := m\<rparr>) s))"

definition chmod :: "path \<Rightarrow> 32 word \<Rightarrow> ('c, unit) io" where
  "chmod p m = syscall (\<lambda>h s.
     case now_dir s p of
       None \<Rightarrow> (Fail Not_exist, s)
     | Some i \<Rightarrow> (Done (), on_inode i (\<lambda>n. n\<lparr>i_mode := m\<rparr>) s))"

definition write_fd :: "nat \<Rightarrow> 'c \<Rightarrow> ('c, unit) io" where
  "write_fd i c = syscall (\<lambda>h s. (Done (), on_inode i (\<lambda>n. n\<lparr>i_data := c, i_synced := False, i_mtime := time s\<rparr>) s))"

definition fsync_fd :: "nat \<Rightarrow> ('c, unit) io" where
  "fsync_fd i = syscall (\<lambda>h s. (Done (), on_inode i (\<lambda>n. n\<lparr>i_synced := True\<rparr>) s))"

definition close_fd :: "nat \<Rightarrow> ('c, unit) io" where
  "close_fd i = syscall (\<lambda>h s. (Done (), s))"

definition read_file :: "path \<Rightarrow> ('c, 'c) io" where
  "read_file p = syscall (\<lambda>h s. (case now_dir s p of None \<Rightarrow> Fail Not_exist | Some i \<Rightarrow> Done (i_data (inodes s i)), s))"

definition remove :: "path \<Rightarrow> ('c, unit) io" where
  "remove p = syscall (\<lambda>h s. (case now_dir s p of None \<Rightarrow> (Fail Not_exist, s) | Some i \<Rightarrow> (Done (), s\<lparr>now_dir := (now_dir s)(p := None)\<rparr>)))"

definition rename :: "path \<Rightarrow> path \<Rightarrow> ('c, unit) io" where
  "rename p q = syscall (\<lambda>h s.
     case now_dir s p of
       None \<Rightarrow> (Fail Not_exist, s)
     | Some i \<Rightarrow>
         if \<not> now_dirs s (butlast q) then (Fail Not_exist, s)
         else if device h (butlast p) \<noteq> device h (butlast q) then (Fail Cross_device, s)
         else (Done (), s\<lparr>now_dir := (now_dir s)(p := None, q := Some i)\<rparr>))"

text \<open>\<open>fsync\<close> of a directory: the entries in it reach stable storage.\<close>

definition sync_dir :: "path \<Rightarrow> ('c, unit) io" where
  "sync_dir d = syscall (\<lambda>h s.
     if \<not> now_dirs s d then (Fail Not_exist, s)
     else (Done (), s\<lparr>saved_dir := (\<lambda>q. if q \<noteq> [] \<and> butlast q = d then now_dir s q else saved_dir s q),
                      saved_dirs := (\<lambda>q. if q \<noteq> [] \<and> butlast q = d then now_dirs s q else saved_dirs s q)\<rparr>))"

text \<open>\<open>os.MkdirAll\<close>.\<close>

definition mkdir_all :: "path \<Rightarrow> ('c, unit) io" where
  "mkdir_all d = syscall (\<lambda>h s. (Done (), s\<lparr>now_dirs := (\<lambda>q. now_dirs s q \<or> take (length q) d = q)\<rparr>))"

text \<open>
  The names in a directory, as the system lists them, and the removal of an empty directory,
  below which there is then nothing.
\<close>

definition read_names :: "path \<Rightarrow> ('c, string list) io" where
  "read_names d = syscall (\<lambda>h s.
     if \<not> now_dirs s d then (Fail Not_exist, s)
     else (Done (filter (\<lambda>n. now_dir s (d @ [n]) \<noteq> None \<or> now_dirs s (d @ [n])) (dir_order h d)), s))"

definition remove_dir :: "path \<Rightarrow> ('c, unit) io" where
  "remove_dir d = syscall (\<lambda>h s.
     if \<not> now_dirs s d then (Fail Not_exist, s)
     else if filter (\<lambda>n. now_dir s (d @ [n]) \<noteq> None \<or> now_dirs s (d @ [n])) (dir_order h d) \<noteq> [] then (Fail Io, s)
     else (Done (), s\<lparr>now_dirs := (\<lambda>q. now_dirs s q \<and> take (length d) q \<noteq> d)\<rparr>))"

text \<open>\<open>os.WriteFile\<close>: truncate, write, close; nothing is synced.\<close>

definition write_file :: "path \<Rightarrow> 'c \<Rightarrow> 32 word \<Rightarrow> ('c, unit) io" where
  "write_file p c m =
     bind_io (open_trunc p m) (\<lambda>i. bind_io (write_fd i c) (\<lambda>_. close_fd i))"

section \<open>What processes see\<close>

text \<open>The directories form a tree; a process reads at a path what the inode of its entry holds.\<close>

definition tree :: "'c os \<Rightarrow> bool" where
  "tree s = (now_dirs s [] \<and> (\<forall>d q. now_dirs s (d @ q) \<longrightarrow> now_dirs s d))"

definition reads :: "'c os \<Rightarrow> path \<Rightarrow> 'c option" where
  "reads s p = map_option (\<lambda>i. i_data (inodes s i)) (now_dir s p)"

lemma bump_simps [simp]:
  "inodes (bump s) = inodes s" "now_dir (bump s) = now_dir s" "saved_dir (bump s) = saved_dir s"
  "now_dirs (bump s) = now_dirs s" "saved_dirs (bump s) = saved_dirs s"
  "next_inode (bump s) = next_inode s" "warnings (bump s) = warnings s" "cross_known (bump s) = cross_known s"
  by (simp_all add: bump_def)

lemma take_prefixD: "take (length (a @ b)) d = a @ b \<Longrightarrow> take (length a) d = a"
  by (metis append_eq_conv_conj append_take_drop_id append.assoc)

lemma tree_mkdir:
  "tree s \<Longrightarrow> tree (s\<lparr>now_dirs := (\<lambda>q. now_dirs s q \<or> take (length q) d = q)\<rparr>)"
  unfolding tree_def by (auto dest: take_prefixD simp del: length_append)

lemma tree_prefix: "tree s \<Longrightarrow> now_dirs s d \<Longrightarrow> take (length q) d = q \<Longrightarrow> now_dirs s q"
  unfolding tree_def by (metis append_take_drop_id)

section \<open>Triples\<close>

text \<open>
  From \<open>P\<close>, a program that ends normally satisfies \<open>Q\<close>, one that fails \<open>F\<close>, and one that is
  interrupted by a crash \<open>C\<close>.
\<close>

definition triple ::
  "'c host \<Rightarrow> ('c os \<Rightarrow> bool) \<Rightarrow> ('c, 'a) io \<Rightarrow> ('a \<Rightarrow> 'c os \<Rightarrow> bool) \<Rightarrow> ('c os \<Rightarrow> bool) \<Rightarrow> ('c os \<Rightarrow> bool) \<Rightarrow> bool" where
  "triple h P m Q F C =
     (\<forall>s. P s \<longrightarrow> (case m h s of (Done a, s') \<Rightarrow> Q a s' | (Fail e, s') \<Rightarrow> F s' | (Crashed, s') \<Rightarrow> C s'))"

lemma triple_return: "(\<And>s. P s \<Longrightarrow> Q a s) \<Longrightarrow> triple h P (return_io a) Q F C"
  by (simp add: triple_def return_io_def)

lemma triple_fail: "(\<And>s. P s \<Longrightarrow> F s) \<Longrightarrow> triple h P (fail_io e) Q F C"
  by (simp add: triple_def fail_io_def)

lemma triple_bind:
  "triple h P m Q F C \<Longrightarrow> (\<And>a. triple h (Q a) (k a) R F C) \<Longrightarrow> triple h P (bind_io m k) R F C"
  unfolding triple_def bind_io_def
  by (fastforce split: prod.splits res.splits)

lemma triple_handle:
  "triple h P m Q F1 C \<Longrightarrow> (\<And>e. triple h F1 (k e) Q F C) \<Longrightarrow> triple h P (handle m k) Q F C"
  unfolding triple_def handle_def
  by (fastforce split: prod.splits res.splits)

lemma triple_weaken:
  "triple h P m Q F C \<Longrightarrow> (\<And>s. P' s \<Longrightarrow> P s) \<Longrightarrow> (\<And>a s. Q a s \<Longrightarrow> Q' a s) \<Longrightarrow> (\<And>s. F s \<Longrightarrow> F' s) \<Longrightarrow>
     (\<And>s. C s \<Longrightarrow> C' s) \<Longrightarrow> triple h P' m Q' F' C'"
  unfolding triple_def by (fastforce split: prod.splits res.splits)

lemma triple_if:
  "(b \<Longrightarrow> triple h P m Q F C) \<Longrightarrow> (\<not> b \<Longrightarrow> triple h P m' Q F C) \<Longrightarrow> triple h P (if b then m else m') Q F C"
  by simp

lemma triple_syscall:
  assumes "\<And>s. P s \<Longrightarrow> C s" "\<And>s. P s \<Longrightarrow> F (bump s)"
    and "\<And>s. P s \<Longrightarrow> (case f h (bump s) of (Done a, s') \<Rightarrow> Q a s' | (Fail e, s') \<Rightarrow> F s' | (Crashed, s') \<Rightarrow> C s')"
  shows "triple h P (syscall f) Q F C"
  using assms by (simp add: triple_def syscall_def)

lemma triple_best_effort:
  "triple h P m (\<lambda>_. Q) Q C \<Longrightarrow> triple h P (best_effort m) (\<lambda>_. Q) F C"
  unfolding best_effort_def
  by (rule triple_handle [OF triple_bind]) (auto intro: triple_return)

lemma triple_cleanup:
  assumes "triple h P m Q F1 C" "triple h F1 c (\<lambda>_. F) F C"
  shows "triple h P (cleanup c m) Q F C"
  unfolding cleanup_def
  by (rule triple_handle [OF assms(1)])
    (rule triple_bind [OF triple_best_effort [OF assms(2)]], rule triple_fail)

lemma triple_finally:
  assumes "triple h P m Q F1 C" "\<And>a. triple h (Q a) c (\<lambda>_. R a) (R a) C" "triple h F1 c (\<lambda>_. F) F C"
  shows "triple h P (finally_io c m) R F C"
  unfolding finally_io_def
proof (rule triple_handle [where ?F1.0 = F1])
  show "triple h P (bind_io m (\<lambda>a. bind_io (best_effort c) (\<lambda>_. return_io a))) R F1 C"
    by (rule triple_bind [OF assms(1)])
      (rule triple_bind [OF triple_best_effort [OF assms(2)]], rule triple_return)
  show "triple h F1 (bind_io (best_effort c) (\<lambda>_. fail_io e)) R F C" for e
    by (rule triple_bind [OF triple_best_effort [OF assms(3)]], rule triple_fail)
qed

lemma triple_attempt:
  "triple h P m (\<lambda>a. Q (Some a)) (Q None) C \<Longrightarrow> triple h P (attempt m) Q F C"
  unfolding attempt_def
  by (rule triple_handle [where ?F1.0 = "Q None"], rule triple_bind)
    (auto intro: triple_return)

lemma tripleD:
  "triple h P m Q F C \<Longrightarrow> P s \<Longrightarrow> m h s = (r, s') \<Longrightarrow>
     (case r of Done a \<Rightarrow> Q a s' | Fail e \<Rightarrow> F s' | Crashed \<Rightarrow> C s')"
  by (auto simp: triple_def split: res.splits)

end
