(* ===== verification/Plumb_SafeWrite.thy ===== *)
theory Plumb_SafeWrite
  imports Plumb_Host
begin

text \<open>
  The atomic writers: \<open>safeWrite\<close> and its cross-device fallback \<open>safeWriteSibling\<close>
  (\<open>internal/tools/file_write_helpers.go\<close>, \<open>file_write_fsync.go\<close>) and \<open>fsync.AtomicWrite\<close>
  (\<open>internal/fsync\<close>). Each stages the content in a temporary file, syncs it, renames it over
  the target and syncs the directory. The path is the one \<open>paths.Canonical\<close> returned.
\<close>

section \<open>Syncing\<close>

definition syncTempFile :: "nat \<Rightarrow> ('c, unit) io" where
  "syncTempFile i h = (if fsync_on h then fsync_fd i h else return_io () h)"

definition warn :: "('c, unit) io" where
  "warn h s = (Done (), s\<lparr>warnings := Suc (warnings s)\<rparr>)"

definition syncDirBestEffort :: "path \<Rightarrow> ('c, unit) io" where
  "syncDirBestEffort d h = (if fsync_on h then handle (sync_dir d) (\<lambda>_. warn) h else return_io () h)"

text \<open>The missing directories, shallowest first.\<close>

function missingAncestors :: "path \<Rightarrow> path list \<Rightarrow> ('c, path list) io" where
  "missingAncestors d missing =
     bind_io (attempt (stat_dir d)) (\<lambda>r.
       case r of
         Some _ \<Rightarrow> return_io missing
       | None \<Rightarrow>
           if d = [] then return_io (d # missing)
           else missingAncestors (butlast d) (d # missing))"
  by pat_completeness auto
termination
  by (relation "measure (\<lambda>(d, missing). length d)") auto

declare missingAncestors.simps [simp del]

fun sync_parents :: "path list \<Rightarrow> ('c, unit) io" where
  "sync_parents [] = return_io ()"
| "sync_parents (d # ds) = bind_io (syncDirBestEffort (butlast d)) (\<lambda>_. sync_parents ds)"

definition mkdirAllSynced :: "path \<Rightarrow> ('c, unit) io" where
  "mkdirAllSynced d =
     bind_io (missingAncestors d []) (\<lambda>created.
     bind_io (mkdir_all d) (\<lambda>_.
     sync_parents created))"

section \<open>Known devices\<close>

definition crossDeviceCacheCap :: nat where
  "crossDeviceCacheCap = 4096"

definition crossDeviceKnown :: "path \<Rightarrow> ('c, bool) io" where
  "crossDeviceKnown d h s = (Done (d \<in> set (cross_known s)), s)"

definition rememberCrossDevice :: "path \<Rightarrow> ('c, unit) io" where
  "rememberCrossDevice d h s =
     (Done (),
      s\<lparr>cross_known := List.insert d (if crossDeviceCacheCap \<le> length (cross_known s) then [] else cross_known s)\<rparr>)"

section \<open>The writers\<close>

text \<open>
  \<open>writeResult\<close>; the hash of the snapshot is that of the data given, which is not repeated.
\<close>

record write_result =
  modTimeBeforeWrite :: "int option"
  tempWrittenAt :: int
  written_mtime :: int

definition stagedSnapshot :: "path \<Rightarrow> ('c, int) io" where
  "stagedSnapshot staged = bind_io (stat staged) (\<lambda>n. return_io (i_mtime n))"

definition now :: "('c, int) io" where
  "now h s = (Done (time s), s)"

definition with_ext :: "path \<Rightarrow> string \<Rightarrow> path" where
  "with_ext p ext = butlast p @ [last p @ ext]"

definition safeWriteSibling :: "path \<Rightarrow> 'c \<Rightarrow> 32 word \<Rightarrow> int option \<Rightarrow> ('c, write_result) io" where
  "safeWriteSibling p data perm modTimeBefore =
     (let sibling = with_ext p ''.plumb.tmp'' in
      bind_io (open_trunc sibling perm) (\<lambda>f.
      cleanup (remove sibling) (
        bind_io (write_fd f data) (\<lambda>_.
        bind_io (syncTempFile f) (\<lambda>_.
        bind_io (close_fd f) (\<lambda>_.
        bind_io (stagedSnapshot sibling) (\<lambda>mt.
        bind_io now (\<lambda>t.
        bind_io (rename sibling p) (\<lambda>_.
        bind_io (syncDirBestEffort (butlast p)) (\<lambda>_.
        return_io \<lparr>modTimeBeforeWrite = modTimeBefore, tempWrittenAt = t, written_mtime = mt\<rparr>))))))))))"

text \<open>
  The staging in the temporary directory, up to and with the rename. The rename's outcome is
  kept apart, since a cross-device refusal is not the end of the write.
\<close>

datatype renamed = Renamed int int | Other_device

definition stage :: "path \<Rightarrow> 'c \<Rightarrow> 32 word \<Rightarrow> ('c, renamed) io" where
  "stage p data perm =
     bind_io (\<lambda>h. create_temp (tmp_dir h) h) (\<lambda>(tmp, f).
     cleanup (remove tmp) (
       bind_io (fchmod f perm) (\<lambda>_.
       bind_io (write_fd f data) (\<lambda>_.
       bind_io (syncTempFile f) (\<lambda>_.
       bind_io (close_fd f) (\<lambda>_.
       bind_io (stagedSnapshot tmp) (\<lambda>mt.
       bind_io now (\<lambda>t.
       handle (bind_io (rename tmp p) (\<lambda>_. return_io (Renamed t mt)))
         (\<lambda>e. if e = Cross_device then
                bind_io (rememberCrossDevice (butlast p)) (\<lambda>_.
                bind_io (best_effort (remove tmp)) (\<lambda>_.
                return_io Other_device))
              else fail_io e)))))))))"

definition safeWrite :: "path \<Rightarrow> 'c \<Rightarrow> 32 word \<Rightarrow> ('c, write_result) io" where
  "safeWrite p data perm0 =
     bind_io (attempt (stat p)) (\<lambda>info.
     let prior = map_option i_mtime info;
         perm = (case info of Some n \<Rightarrow> i_mode n | None \<Rightarrow> perm0)
     in
     bind_io (mkdirAllSynced (butlast p)) (\<lambda>_.
     bind_io (crossDeviceKnown (butlast p)) (\<lambda>known.
     if known then safeWriteSibling p data perm prior
     else
       bind_io (stage p data perm) (\<lambda>r.
       case r of
         Other_device \<Rightarrow> safeWriteSibling p data perm prior
       | Renamed t mt \<Rightarrow>
           bind_io (syncDirBestEffort (butlast p)) (\<lambda>_.
           return_io \<lparr>modTimeBeforeWrite = prior, tempWrittenAt = t, written_mtime = mt\<rparr>)))))"

text \<open>\<open>fsync.AtomicWrite\<close>: staged beside the target; the mode is set after the sync, and the
  staging file is removed by a deferred call, which finds nothing once the rename succeeded.\<close>

definition SyncFile :: "nat \<Rightarrow> ('c, unit) io" where
  "SyncFile i h = (if fsync_on h then fsync_fd i h else return_io () h)"

definition SyncDir :: "path \<Rightarrow> ('c, unit) io" where
  "SyncDir d h = (if fsync_on h then sync_dir d h else return_io () h)"

definition defaultMode :: "32 word" where
  "defaultMode = 384"

definition AtomicWrite :: "path \<Rightarrow> 'c \<Rightarrow> 32 word \<Rightarrow> ('c, unit) io" where
  "AtomicWrite p data optMode =
     bind_io (attempt (stat p)) (\<lambda>info.
     let mode = (case info of Some n \<Rightarrow> i_mode n | None \<Rightarrow> if optMode = 0 then defaultMode else optMode) in
     bind_io (create_temp (butlast p)) (\<lambda>(tmp, f).
     finally_io (remove tmp) (
       bind_io (write_fd f data) (\<lambda>_.
       bind_io (SyncFile f) (\<lambda>_.
       bind_io (close_fd f) (\<lambda>_.
       bind_io (chmod tmp mode) (\<lambda>_.
       bind_io (rename tmp p) (\<lambda>_.
       handle (SyncDir (butlast p)) (\<lambda>_. warn)))))))))"

end
