(* ===== verification/Plumb_SafeWrite_Correct.thy ===== *)
theory Plumb_SafeWrite_Correct
  imports Plumb_SafeWrite
begin

text \<open>
  The atomic writers under failing system calls and crashes: one contract, a locale, that all
  three satisfy, and what follows from it. A write is seen as a whole or not at all, by other
  processes at any time and after a crash; a failed one leaves no trace on the target; and
  one that was acknowledged, with its directories synced, survives a crash.
\<close>

section \<open>What a writer leaves alone\<close>

text \<open>An inode that no file outside the writer's scratch names uses.\<close>

definition own :: "path set \<Rightarrow> 'c os \<Rightarrow> nat \<Rightarrow> bool" where
  "own T s0 i = (\<forall>q. q \<notin> T \<longrightarrow> now_dir s0 q \<noteq> Some i \<and> saved_dir s0 q \<noteq> Some i)"

definition quiet_so_far :: "'c host \<Rightarrow> 'c os \<Rightarrow> 'c os \<Rightarrow> bool" where
  "quiet_so_far h s0 s = (fsync_on h \<and> warnings s = warnings s0)"

text \<open>
  Directories reach stable storage as they are; the flag \<open>D\<close> says that the
  writer has no directory of its own making left to sync.
\<close>

definition dirs_saved :: "'c os \<Rightarrow> bool" where
  "dirs_saved s = (\<forall>d. now_dirs s d \<longrightarrow> saved_dirs s d)"

definition undisturbed :: "'c host \<Rightarrow> path set \<Rightarrow> path set \<Rightarrow> bool \<Rightarrow> 'c os \<Rightarrow> 'c os \<Rightarrow> bool" where
  "undisturbed h X T D s0 s =
     (next_inode s0 \<le> next_inode s \<and> warnings s0 \<le> warnings s \<and>
      (\<forall>q. q \<notin> T \<union> X \<longrightarrow> now_dir s q = now_dir s0 q) \<and>
      (\<forall>q. q \<notin> T \<union> X \<longrightarrow> saved_dir s q = saved_dir s0 q \<or> saved_dir s q = now_dir s0 q) \<and>
      (\<forall>q i. q \<notin> T \<longrightarrow> now_dir s0 q = Some i \<or> saved_dir s0 q = Some i \<longrightarrow> inodes s i = inodes s0 i) \<and>
      (\<forall>t i. t \<in> T \<longrightarrow> now_dir s t = Some i \<longrightarrow> own T s0 i) \<and>
      (\<forall>d. now_dirs s0 d \<longrightarrow> now_dirs s d) \<and>
      (\<forall>d. now_dirs s0 d \<and> saved_dirs s0 d \<longrightarrow> saved_dirs s d) \<and>
      tree s \<and> (D \<and> quiet_so_far h s0 s \<and> dirs_saved s0 \<longrightarrow> dirs_saved s))"

abbreviation kept :: "'c host \<Rightarrow> path set \<Rightarrow> bool \<Rightarrow> 'c os \<Rightarrow> 'c os \<Rightarrow> bool" where
  "kept h T D \<equiv> undisturbed h {} T D"

text \<open>The file system as a writer finds it: inode numbers in use are below the next one, and a
  file left at a scratch name is no other file.\<close>

definition sane :: "path set \<Rightarrow> 'c os \<Rightarrow> bool" where
  "sane T s =
     (tree s \<and> (\<forall>q i. now_dir s q = Some i \<or> saved_dir s q = Some i \<longrightarrow> i < next_inode s) \<and>
      (\<forall>t i. t \<in> T \<longrightarrow> now_dir s t = Some i \<longrightarrow> own T s i))"

lemma kept_refl: "sane T s \<Longrightarrow> kept h T D s s"
  by (simp add: undisturbed_def sane_def)

lemma quiet_bump [simp]: "quiet_so_far h s0 (bump s) = quiet_so_far h s0 s"
  by (simp add: quiet_so_far_def)

lemma undisturbed_bump [simp]: "undisturbed h X T D s0 (bump s) = undisturbed h X T D s0 s"
  by (simp add: undisturbed_def tree_def dirs_saved_def)

lemma own_fresh: "sane T s0 \<Longrightarrow> next_inode s0 \<le> i \<Longrightarrow> own T s0 i"
  by (fastforce simp: own_def sane_def)

lemma undisturbed_new_file:
  assumes "undisturbed h X T D s0 s" "sane T s0" "t \<in> T"
  shows "undisturbed h X T D s0 (new_file t c m s)"
proof -
  have f: "own T s0 (next_inode s)" using assms(1) own_fresh [OF assms(2)] by (simp add: undisturbed_def)
  then have "\<forall>q i. q \<notin> T \<longrightarrow> now_dir s0 q = Some i \<or> saved_dir s0 q = Some i \<longrightarrow> i \<noteq> next_inode s"
    by (auto simp: own_def)
  with f assms(1,3) show ?thesis
    by (auto simp: undisturbed_def new_file_def quiet_so_far_def tree_def dirs_saved_def)
qed

lemma undisturbed_inode:
  assumes "undisturbed h X T D s0 s" "own T s0 i"
  shows "undisturbed h X T D s0 (s\<lparr>inodes := (inodes s)(i := n)\<rparr>)"
proof -
  have "\<forall>q j. q \<notin> T \<longrightarrow> now_dir s0 q = Some j \<or> saved_dir s0 q = Some j \<longrightarrow> j \<noteq> i"
    using assms(2) by (auto simp: own_def)
  with assms(1) show ?thesis by (auto simp: undisturbed_def quiet_so_far_def tree_def dirs_saved_def)
qed

lemma undisturbed_remove:
  "undisturbed h X T D s0 s \<Longrightarrow> t \<in> T \<Longrightarrow> undisturbed h X T D s0 (s\<lparr>now_dir := (now_dir s)(t := None)\<rparr>)"
  by (auto simp: undisturbed_def quiet_so_far_def tree_def dirs_saved_def)

lemma undisturbed_warn: "undisturbed h X T D s0 s \<Longrightarrow> undisturbed h X T D s0 (s\<lparr>warnings := Suc (warnings s)\<rparr>)"
  by (simp add: undisturbed_def quiet_so_far_def tree_def dirs_saved_def)

lemma undisturbed_cross: "undisturbed h X T D s0 (s\<lparr>cross_known := ds\<rparr>) = undisturbed h X T D s0 s"
  by (simp add: undisturbed_def quiet_so_far_def tree_def dirs_saved_def)

lemma undisturbed_sync:
  assumes "undisturbed h X T D s0 s"
  shows "undisturbed h X T D s0
    (s\<lparr>saved_dir := (\<lambda>q. if q \<noteq> [] \<and> butlast q = d then now_dir s q else saved_dir s q),
       saved_dirs := (\<lambda>q. if q \<noteq> [] \<and> butlast q = d then now_dirs s q else saved_dirs s q)\<rparr>)"
  using assms unfolding undisturbed_def quiet_so_far_def tree_def dirs_saved_def by auto

lemma undisturbed_mkdir:
  "undisturbed h X T D s0 s \<Longrightarrow>
     undisturbed h X T False s0 (s\<lparr>now_dirs := (\<lambda>q. now_dirs s q \<or> take (length q) d = q)\<rparr>)"
  using tree_mkdir [of s d] by (simp add: undisturbed_def quiet_so_far_def)

lemma undisturbed_rename:
  assumes "undisturbed h X T D s0 s" "t \<in> T" "p \<notin> T"
  shows "undisturbed h (insert p X) T D s0 (s\<lparr>now_dir := (now_dir s)(t := None, p := Some i)\<rparr>)"
  using assms by (auto simp: undisturbed_def quiet_so_far_def tree_def dirs_saved_def)

section \<open>Staging\<close>

definition staged :: "'c host \<Rightarrow> path set \<Rightarrow> bool \<Rightarrow> 'c os \<Rightarrow> path \<Rightarrow> nat \<Rightarrow> 'c \<Rightarrow> bool \<Rightarrow> 32 word \<Rightarrow> 'c os \<Rightarrow> bool" where
  "staged h T D s0 t i c syn m s =
     (kept h T D s0 s \<and> t \<in> T \<and> now_dir s t = Some i \<and> i_data (inodes s i) = c \<and>
      (syn \<longrightarrow> i_synced (inodes s i)) \<and> i_mode (inodes s i) = m)"

definition published :: "'c host \<Rightarrow> path set \<Rightarrow> bool \<Rightarrow> 'c os \<Rightarrow> path \<Rightarrow> nat \<Rightarrow> 'c \<Rightarrow> bool \<Rightarrow> 32 word \<Rightarrow> 'c os \<Rightarrow> bool" where
  "published h T D s0 p i c syn m s =
     (undisturbed h {p} T D s0 s \<and> now_dirs s (butlast p) \<and> now_dir s p = Some i \<and> i_data (inodes s i) = c \<and>
      (syn \<longrightarrow> i_synced (inodes s i)) \<and> i_mode (inodes s i) = m \<and>
      saved_dir s p \<in> {saved_dir s0 p, now_dir s0 p, Some i})"

lemma staged_kept: "staged h T D s0 t i c syn m s \<Longrightarrow> kept h T D s0 s"
  by (simp add: staged_def)

lemma staged_own: "staged h T D s0 t i c syn m s \<Longrightarrow> own T s0 i"
  by (auto simp: staged_def undisturbed_def)

lemma staged_bump [simp]: "staged h T D s0 t i c syn m (bump s) = staged h T D s0 t i c syn m s"
  by (simp add: staged_def)

lemma published_bump [simp]: "published h T D s0 p i c syn m (bump s) = published h T D s0 p i c syn m s"
  by (simp add: published_def)

lemma triple_stat:
  assumes "\<And>s. P (bump s) = P s"
  shows "triple h P (stat q) (\<lambda>n s. P s \<and> (\<exists>i. now_dir s q = Some i \<and> n = inodes s i)) P P"
  unfolding stat_def by (rule triple_syscall) (auto simp: assms split: option.split)

lemma triple_create_temp:
  assumes "sane T s0" "\<And>n. d @ [temp_name h n] \<in> T"
  shows "triple (h :: 'c host) (kept h T D s0) (create_temp d)
    (\<lambda>(t, i). staged h T D s0 t i (empty h) False 384) (kept h T D s0) (kept h T D s0)"
  unfolding create_temp_def
proof (rule triple_syscall)
  fix s :: "'c os"
  let ?t = "d @ [temp_name h (next_inode s)]"
  assume k: "kept h T D s0 s"
  then have "kept h T D s0 (new_file ?t (empty h) 384 (bump s))"
    by (intro undisturbed_new_file) (simp_all add: assms)
  with k assms(2) show "case (let p = d @ [temp_name h (next_inode (bump s))] in
      if \<not> now_dirs (bump s) d then (Fail Not_exist, bump s)
      else if now_dir (bump s) p \<noteq> None then (Fail Io, bump s)
      else (Done (p, next_inode (bump s)), new_file p (empty h) 384 (bump s))) of
    (Done a, s') \<Rightarrow> (case a of (t, i) \<Rightarrow> staged h T D s0 t i (empty h) False 384) s'
    | (Fail e, s') \<Rightarrow> kept h T D s0 s' | (Crashed, s') \<Rightarrow> kept h T D s0 s'"
    by (auto simp: Let_def staged_def new_file_def)
qed simp_all

lemma staged_on_inode:
  assumes "staged h T D s0 t i c syn m s"
    and "i_data (f (inodes s i)) = c'" "syn' \<longrightarrow> i_synced (f (inodes s i))" "i_mode (f (inodes s i)) = m'"
  shows "staged h T D s0 t i c' syn' m' (on_inode i f s)"
  using undisturbed_inode [OF staged_kept [OF assms(1)] staged_own [OF assms(1)]] assms
  by (simp add: staged_def on_inode_def)

lemma triple_on_inode:
  assumes "\<And>s. staged h T D s0 t i c syn m s \<Longrightarrow> staged h T D s0 t i c' syn' m' (on_inode i (f h s) s)"
  shows "triple h (staged h T D s0 t i c syn m) (syscall (\<lambda>h s. (Done (), on_inode i (f h s) s)))
    (\<lambda>_. staged h T D s0 t i c' syn' m') (kept h T D s0) (kept h T D s0)"
  by (rule triple_syscall) (auto simp: staged_kept intro: assms)

lemma triple_fchmod:
  "triple h (staged h T D s0 t i c syn m) (fchmod i m')
     (\<lambda>_. staged h T D s0 t i c syn m') (kept h T D s0) (kept h T D s0)"
  unfolding fchmod_def by (rule triple_on_inode) (rule staged_on_inode, auto simp: staged_def)

lemma triple_write:
  "triple h (staged h T D s0 t i c syn m) (write_fd i c')
     (\<lambda>_. staged h T D s0 t i c' False m) (kept h T D s0) (kept h T D s0)"
  unfolding write_fd_def by (rule triple_on_inode) (rule staged_on_inode, auto simp: staged_def)

lemma triple_fsync:
  "triple h (staged h T D s0 t i c syn m) (fsync_fd i)
     (\<lambda>_. staged h T D s0 t i c True m) (kept h T D s0) (kept h T D s0)"
  unfolding fsync_fd_def by (rule triple_on_inode) (rule staged_on_inode, auto simp: staged_def)

lemma triple_syncTempFile:
  "triple h (staged h T D s0 t i c False m) (syncTempFile i)
     (\<lambda>_. staged h T D s0 t i c (fsync_on h) m) (kept h T D s0) (kept h T D s0)"
proof (cases "fsync_on h")
  case True
  then show ?thesis using triple_fsync [of h T D s0 t i c False m] by (simp add: triple_def syncTempFile_def)
next
  case False
  then show ?thesis by (simp add: triple_def syncTempFile_def return_io_def)
qed

lemma triple_SyncFile:
  "triple h (staged h T D s0 t i c False m) (SyncFile i)
     (\<lambda>_. staged h T D s0 t i c (fsync_on h) m) (kept h T D s0) (kept h T D s0)"
  using triple_syncTempFile [of h T D s0 t i c m] by (simp add: triple_def SyncFile_def syncTempFile_def)

lemma triple_close:
  "triple h (staged h T D s0 t i c syn m) (close_fd j)
     (\<lambda>_. staged h T D s0 t i c syn m) (kept h T D s0) (kept h T D s0)"
  unfolding close_fd_def by (rule triple_syscall) (auto simp: staged_kept)

lemma triple_snapshot:
  "triple h (staged h T D s0 t i c syn m) (stagedSnapshot q)
     (\<lambda>_. staged h T D s0 t i c syn m) (kept h T D s0) (kept h T D s0)"
  unfolding stagedSnapshot_def
proof (rule triple_bind)
  show "triple h (staged h T D s0 t i c syn m) (stat q)
      (\<lambda>_. staged h T D s0 t i c syn m) (kept h T D s0) (kept h T D s0)"
    by (rule triple_weaken [OF triple_stat [of "staged h T D s0 t i c syn m"]]) (auto simp: staged_kept)
qed (rule triple_return)

lemma triple_now: "triple h P now (\<lambda>_. P) F C"
  by (simp add: triple_def now_def)

lemma triple_chmod:
  "triple h (staged h T D s0 t i c syn m) (chmod t m')
     (\<lambda>_. staged h T D s0 t i c syn m') (kept h T D s0) (kept h T D s0)"
  unfolding chmod_def
proof (rule triple_syscall)
  fix s assume st: "staged h T D s0 t i c syn m s"
  then have "now_dir (bump s) t = Some i" by (simp add: staged_def)
  moreover from st have "staged h T D s0 t i c syn m' (on_inode i (\<lambda>n. n\<lparr>i_mode := m'\<rparr>) (bump s))"
    by (intro staged_on_inode [of h T D s0 t i c syn m]) (auto simp: staged_def)
  ultimately show "case (case now_dir (bump s) t of None \<Rightarrow> (Fail Not_exist, bump s)
      | Some i \<Rightarrow> (Done (), on_inode i (\<lambda>n. n\<lparr>i_mode := m'\<rparr>) (bump s))) of
      (Done a, s') \<Rightarrow> staged h T D s0 t i c syn m' s' | (Fail e, s') \<Rightarrow> kept h T D s0 s'
      | (Crashed, s') \<Rightarrow> kept h T D s0 s'"
    by simp
qed (auto simp: staged_kept)

lemma triple_remove:
  "t \<in> T \<Longrightarrow> triple h (kept h T D s0) (remove t) (\<lambda>_. kept h T D s0) (kept h T D s0) (kept h T D s0)"
  unfolding remove_def
  using undisturbed_remove [of h "{}" T D s0 "bump _" t]
  by (intro triple_syscall) (auto split: option.split)

lemma triple_rename:
  assumes "p \<notin> T"
  shows "triple h (staged h T D s0 t i c syn m) (rename t p)
    (\<lambda>_. published h T D s0 p i c syn m) (kept h T D s0) (kept h T D s0)"
  unfolding rename_def
proof (rule triple_syscall)
  fix s assume st: "staged h T D s0 t i c syn m s"
  then have t: "now_dir s t = Some i" "t \<in> T" "kept h T D s0 s" by (simp_all add: staged_def)
  have "undisturbed h {p} T D s0 ((bump s)\<lparr>now_dir := (now_dir (bump s))(t := None, p := Some i)\<rparr>)"
    using undisturbed_rename [of h "{}" T D s0 "bump s" t p i] t assms by simp
  moreover have "saved_dir s p = saved_dir s0 p \<or> saved_dir s p = now_dir s0 p"
    using t(3) assms by (simp add: undisturbed_def)
  ultimately have "now_dirs s (butlast p) \<Longrightarrow>
      published h T D s0 p i c syn m ((bump s)\<lparr>now_dir := (now_dir (bump s))(t := None, p := Some i)\<rparr>)"
    using st by (auto simp: published_def staged_def)
  with t show "case (case now_dir (bump s) t of None \<Rightarrow> (Fail Not_exist, bump s)
      | Some i \<Rightarrow>
          if \<not> now_dirs (bump s) (butlast p) then (Fail Not_exist, bump s)
          else if device h (butlast t) \<noteq> device h (butlast p) then (Fail Cross_device, bump s)
          else (Done (), (bump s)\<lparr>now_dir := (now_dir (bump s))(t := None, p := Some i)\<rparr>)) of
      (Done a, s') \<Rightarrow> published h T D s0 p i c syn m s' | (Fail e, s') \<Rightarrow> kept h T D s0 s'
      | (Crashed, s') \<Rightarrow> kept h T D s0 s'"
    by simp
qed (auto simp: staged_kept)


section \<open>Syncing directories\<close>

lemma triple_warn:
  "(\<And>s. P s \<Longrightarrow> Q (s\<lparr>warnings := Suc (warnings s)\<rparr>)) \<Longrightarrow> triple h P warn (\<lambda>_. Q) F C"
  by (simp add: triple_def warn_def)

definition synced_to :: "path \<Rightarrow> 'c os \<Rightarrow> 'c os" where
  "synced_to d s = s\<lparr>saved_dir := (\<lambda>q. if q \<noteq> [] \<and> butlast q = d then now_dir s q else saved_dir s q),
                     saved_dirs := (\<lambda>q. if q \<noteq> [] \<and> butlast q = d then now_dirs s q else saved_dirs s q)\<rparr>"

text \<open>
  A directory sync whose refusal is only a warning. \<open>P\<close> is kept by syncs and warnings, \<open>Q\<close>
  holds after the sync, and after a warning.
\<close>

lemma triple_sync_or_warn:
  assumes "\<And>s. P s \<Longrightarrow> Q (synced_to d (bump s))"
    and "\<And>s. P s \<Longrightarrow> Q ((bump s)\<lparr>warnings := Suc (warnings s)\<rparr>)"
    and "\<And>s. P s \<Longrightarrow> \<not> fsync_on h \<Longrightarrow> Q s"
    and "\<And>s. P s \<Longrightarrow> C s" "\<And>s. P (bump s) = P s"
  shows "triple h P (\<lambda>h. if fsync_on h then handle (sync_dir d) (\<lambda>_. warn) h else return_io () h) (\<lambda>_. Q) F C"
proof (cases "fsync_on h")
  case True
  have "triple h P (sync_dir d) (\<lambda>_. Q) (\<lambda>s. Q (s\<lparr>warnings := Suc (warnings s)\<rparr>)) C"
    unfolding sync_dir_def using assms(1,2,4)
    by (intro triple_syscall) (auto simp: synced_to_def)
  then have "triple h P (handle (sync_dir d) (\<lambda>_. warn)) (\<lambda>_. Q) F C"
    by (rule triple_handle) (rule triple_warn)
  with True show ?thesis by (simp add: triple_def)
next
  case False
  with assms(3) show ?thesis by (simp add: triple_def return_io_def)
qed

definition acknowledged :: "'c host \<Rightarrow> path set \<Rightarrow> 'c os \<Rightarrow> path \<Rightarrow> nat \<Rightarrow> 'c \<Rightarrow> 32 word \<Rightarrow> 'c os \<Rightarrow> bool" where
  "acknowledged h T s0 p i c m s =
     (published h T True s0 p i c (fsync_on h) m s \<and>
      (quiet_so_far h s0 s \<longrightarrow> saved_dir s p = Some i))"

lemma published_synced:
  assumes "published h T D s0 p i c syn m s"
  shows "published h T D s0 p i c syn m (synced_to d s)"
  using undisturbed_sync [of h "{p}" T D s0 s d] assms
  by (simp add: published_def synced_to_def)

lemma published_warn:
  "published h T D s0 p i c syn m s \<Longrightarrow>
     published h T D s0 p i c syn m (s\<lparr>warnings := Suc (warnings s)\<rparr>)"
  using undisturbed_warn [of h "{p}" T D s0 s] by (simp add: published_def)

lemma published_not_quiet:
  "published h T D s0 p i c syn m s \<Longrightarrow> \<not> quiet_so_far h s0 (s\<lparr>warnings := Suc (warnings s)\<rparr>)"
  by (simp add: published_def undisturbed_def quiet_so_far_def)

lemma triple_publish:
  assumes "p \<noteq> []"
  shows "triple h (published h T True s0 p i c (fsync_on h) m) (syncDirBestEffort (butlast p))
    (\<lambda>_. acknowledged h T s0 p i c m) F (published h T True s0 p i c (fsync_on h) m)"
  unfolding syncDirBestEffort_def [abs_def]
proof (rule triple_sync_or_warn)
  fix s :: "'a os" assume pb: "published h T True s0 p i c (fsync_on h) m s"
  show "acknowledged h T s0 p i c m (synced_to (butlast p) (bump s))"
    using published_synced [of h T True s0 p i c "fsync_on h" m "bump s" "butlast p"] pb assms
    by (simp add: acknowledged_def synced_to_def) (simp add: published_def)
  show "acknowledged h T s0 p i c m ((bump s)\<lparr>warnings := Suc (warnings s)\<rparr>)"
    using published_warn [of h T True s0 p i c "fsync_on h" m "bump s"]
      published_not_quiet [of h T True s0 p i c "fsync_on h" m "bump s"] pb
    by (simp add: acknowledged_def)
qed (simp_all add: acknowledged_def quiet_so_far_def)

section \<open>Creating directories\<close>

lemma undisturbed_weaken: "undisturbed h X T D s0 s \<Longrightarrow> undisturbed h X T False s0 s"
  by (simp add: undisturbed_def)

definition unlisted :: "path \<Rightarrow> path list \<Rightarrow> path \<Rightarrow> 'c os \<Rightarrow> bool" where
  "unlisted d0 ds d s =
     (\<forall>q. take (length q) d0 = q \<and> \<not> now_dirs s q \<longrightarrow> q \<in> set ds \<or> take (length q) d = q \<and> d \<noteq> [])"

definition pending :: "'c host \<Rightarrow> path set \<Rightarrow> 'c os \<Rightarrow> path list \<Rightarrow> 'c os \<Rightarrow> bool" where
  "pending h T s0 ds s =
     (kept h T False s0 s \<and> tree s0 \<and>
      (quiet_so_far h s0 s \<and> dirs_saved s0 \<longrightarrow> (\<forall>q. now_dirs s q \<longrightarrow> saved_dirs s q \<or> q \<in> set ds)))"

lemma unlisted_bump [simp]: "unlisted d0 ds d (bump s) = unlisted d0 ds d s"
  by (simp add: unlisted_def)

lemma pending_bump [simp]: "pending h T s0 ds (bump s) = pending h T s0 ds s"
  by (simp add: pending_def)

lemma prefix_butlast:
  assumes "take (length q) d = q" "q \<noteq> d"
  shows "take (length q) (butlast d) = q"
proof -
  have "length q < length d" using assms by (metis not_less take_all)
  then have "length q \<le> length d - 1" by simp
  then show ?thesis using assms(1) by (simp add: butlast_conv_take)
qed

lemma unlisted_found:
  "kept h T True s0 s \<Longrightarrow> unlisted d0 ds d s \<Longrightarrow> now_dirs s d \<Longrightarrow> unlisted d0 ds [] s"
  unfolding unlisted_def undisturbed_def using tree_prefix by blast

lemma unlisted_up: "tree s \<Longrightarrow> unlisted d0 ds d s \<Longrightarrow> unlisted d0 (d # ds) (butlast d) s"
  unfolding unlisted_def
proof (intro allI impI)
  fix q
  assume l: "\<forall>q. take (length q) d0 = q \<and> \<not> now_dirs s q \<longrightarrow> q \<in> set ds \<or> take (length q) d = q \<and> d \<noteq> []"
    and q: "take (length q) d0 = q \<and> \<not> now_dirs s q" and t: "tree s"
  from l q have "q \<in> set ds \<or> q = d \<or> take (length q) (butlast d) = q" using prefix_butlast by blast
  moreover have "q \<noteq> []" using t q by (auto simp: tree_def)
  ultimately show "q \<in> set (d # ds) \<or> take (length q) (butlast d) = q \<and> butlast d \<noteq> []" by auto
qed

lemma unlisted_start: "tree s \<Longrightarrow> unlisted d [] d s"
  by (auto simp: unlisted_def tree_def)

lemma kept_tree: "undisturbed h X T D s0 s \<Longrightarrow> tree s"
  by (simp add: undisturbed_def)

lemma triple_stat_dir:
  "triple h (\<lambda>s. kept h T True s0 s \<and> unlisted d0 ds d s) (attempt (stat_dir d))
     (\<lambda>r s. kept h T True s0 s \<and> unlisted d0 ds d s \<and> (r \<noteq> None \<longrightarrow> now_dirs s d))
     (kept h T True s0) (kept h T True s0)"
  unfolding stat_dir_def
  by (rule triple_attempt, rule triple_syscall) auto

lemma triple_missingAncestors:
  "triple h (\<lambda>s. kept h T True s0 s \<and> unlisted d0 ds d s) (missingAncestors d ds)
     (\<lambda>r s. kept h T True s0 s \<and> unlisted d0 r [] s) (kept h T True s0) (kept h T True s0)"
proof (induction d ds rule: missingAncestors.induct)
  case (1 d ds)
  show ?case
  proof (subst missingAncestors.simps, rule triple_bind [OF triple_stat_dir])
    fix r :: "unit option"
    show "triple h (\<lambda>s. kept h T True s0 s \<and> unlisted d0 ds d s \<and> (r \<noteq> None \<longrightarrow> now_dirs s d))
       (case r of None \<Rightarrow> if d = [] then return_io (d # ds) else missingAncestors (butlast d) (d # ds)
        | Some _ \<Rightarrow> return_io ds)
       (\<lambda>r s. kept h T True s0 s \<and> unlisted d0 r [] s) (kept h T True s0) (kept h T True s0)"
    proof (cases r)
      case None
      show ?thesis
      proof (cases "d = []")
        case True
        then show ?thesis using unlisted_up [of _ d0 ds d]
          by (simp add: None) (rule triple_return, auto simp: undisturbed_def)
      next
        case False
        have "triple h (\<lambda>s. kept h T True s0 s \<and> unlisted d0 ds d s) (missingAncestors (butlast d) (d # ds))
            (\<lambda>r s. kept h T True s0 s \<and> unlisted d0 r [] s) (kept h T True s0) (kept h T True s0)"
          by (rule triple_weaken [OF 1 [OF False]]) (auto intro: unlisted_up simp: undisturbed_def)
        with False show ?thesis by (simp add: None)
      qed
    next
      case (Some u)
      then show ?thesis using unlisted_found [of h T s0 _ d0 ds d]
        by simp (rule triple_return, auto)
    qed
  qed
qed

lemma triple_mkdir_all:
  "triple h (\<lambda>s. (kept h T True s0 s \<and> tree s0) \<and> unlisted d ds [] s) (mkdir_all d)
     (\<lambda>_. pending h T s0 ds) (kept h T False s0) (kept h T False s0)"
  unfolding mkdir_all_def
proof (rule triple_syscall)
  fix s :: "'a os"
  assume k: "(kept h T True s0 s \<and> tree s0) \<and> unlisted d ds [] s"
  then have "kept h T False s0 ((bump s)\<lparr>now_dirs := (\<lambda>q. now_dirs (bump s) q \<or> take (length q) d = q)\<rparr>)"
    by (intro undisturbed_mkdir [where D = True]) simp
  moreover from k have "\<And>q. now_dirs s q \<or> take (length q) d = q \<Longrightarrow> dirs_saved s \<Longrightarrow> saved_dirs s q \<or> q \<in> set ds"
    unfolding unlisted_def dirs_saved_def by blast
  moreover from k have "quiet_so_far h s0 s \<and> dirs_saved s0 \<Longrightarrow> dirs_saved s" by (simp add: undisturbed_def)
  ultimately show "case (Done (), (bump s)\<lparr>now_dirs := (\<lambda>q. now_dirs (bump s) q \<or> take (length q) d = q)\<rparr>) of
      (Done a, s') \<Rightarrow> pending h T s0 ds s' | (Fail e, s') \<Rightarrow> kept h T False s0 s' | (Crashed, s') \<Rightarrow> kept h T False s0 s'"
    using k by (simp add: pending_def) (auto simp: quiet_so_far_def)
qed (auto intro: undisturbed_weaken)

lemma pending_synced:
  assumes "pending h T s0 (d # ds) s"
  shows "pending h T s0 ds (synced_to (butlast d) s)"
proof -
  let ?s = "synced_to (butlast d) s"
  from assms have k: "kept h T False s0 s" and t: "tree s0" by (simp_all add: pending_def)
  then have "kept h T False s0 ?s" using undisturbed_sync [of h "{}" T False s0 s "butlast d"]
    by (simp add: synced_to_def)
  moreover have "saved_dirs ?s q \<or> q \<in> set ds"
    if "quiet_so_far h s0 ?s" "dirs_saved s0" "now_dirs ?s q" for q
  proof (cases "q \<noteq> [] \<and> butlast q = butlast d")
    case True
    with that(3) show ?thesis by (simp add: synced_to_def)
  next
    case False
    have "saved_dirs s q \<or> q \<in> set (d # ds)"
      using assms that by (simp add: pending_def synced_to_def quiet_so_far_def)
    moreover have "saved_dirs s []" using k t that(2) by (simp add: undisturbed_def tree_def dirs_saved_def)
    ultimately show ?thesis using False by (auto simp: synced_to_def)
  qed
  ultimately show ?thesis using t by (simp add: pending_def)
qed

lemma pending_warn:
  assumes "pending h T s0 (d # ds) s"
  shows "pending h T s0 ds (s\<lparr>warnings := Suc (warnings s)\<rparr>)"
proof -
  have k: "kept h T False s0 s" using assms by (simp add: pending_def)
  then have "\<not> quiet_so_far h s0 (s\<lparr>warnings := Suc (warnings s)\<rparr>)"
    by (simp add: undisturbed_def quiet_so_far_def)
  with undisturbed_warn [OF k] assms show ?thesis by (simp add: pending_def)
qed

lemma triple_sync_parents:
  "triple h (pending h T s0 ds) (sync_parents ds) (\<lambda>_. pending h T s0 [])
     (kept h T False s0) (kept h T False s0)"
proof (induction ds)
  case Nil
  show ?case by simp (rule triple_return)
next
  case (Cons d ds)
  have "triple h (pending h T s0 (d # ds)) (syncDirBestEffort (butlast d))
      (\<lambda>_. pending h T s0 ds) (kept h T False s0) (kept h T False s0)"
    unfolding syncDirBestEffort_def [abs_def]
  proof (rule triple_sync_or_warn)
    fix s :: "'a os" assume p: "pending h T s0 (d # ds) s"
    show "pending h T s0 ds (synced_to (butlast d) (bump s))"
      using pending_synced [of h T s0 d ds "bump s"] p by simp
    show "pending h T s0 ds ((bump s)\<lparr>warnings := Suc (warnings s)\<rparr>)"
      using pending_warn [of h T s0 d ds "bump s"] p by simp
    show "kept h T False s0 s" using p by (simp add: pending_def)
  qed (simp_all add: pending_def quiet_so_far_def)
  then show ?case by simp (rule triple_bind, assumption, rule Cons.IH)
qed

lemma pending_Nil: "pending h T s0 [] s \<Longrightarrow> kept h T True s0 s"
  by (simp add: pending_def undisturbed_def dirs_saved_def)

lemma triple_mkdirAllSynced:
  assumes "tree s0"
  shows "triple h (kept h T True s0) (mkdirAllSynced d) (\<lambda>_. kept h T True s0)
    (kept h T False s0) (kept h T False s0)"
  unfolding mkdirAllSynced_def
proof (rule triple_bind)
  show "triple h (kept h T True s0) (missingAncestors d [])
      (\<lambda>ds s. (kept h T True s0 s \<and> tree s0) \<and> unlisted d ds [] s) (kept h T False s0) (kept h T False s0)"
    by (rule triple_weaken [OF triple_missingAncestors [of h T s0 d "[]" d]])
      (auto simp: assms intro: undisturbed_weaken unlisted_start kept_tree)
  show "triple h (\<lambda>s. (kept h T True s0 s \<and> tree s0) \<and> unlisted d ds [] s)
      (bind_io (mkdir_all d) (\<lambda>_. sync_parents ds)) (\<lambda>_. kept h T True s0)
      (kept h T False s0) (kept h T False s0)" for ds
    by (rule triple_bind [OF triple_mkdir_all], rule triple_weaken [OF triple_sync_parents])
      (auto intro: pending_Nil)
qed

section \<open>The writers\<close>

text \<open>The names a writer stages under.\<close>

definition temp_names :: "'c host \<Rightarrow> path \<Rightarrow> path set" where
  "temp_names h d = {d @ [temp_name h n] | n. True}"

definition stage_names :: "'c host \<Rightarrow> path \<Rightarrow> path set" where
  "stage_names h p = insert (with_ext p ''.plumb.tmp'') (temp_names h (tmp_dir h))"

definition written :: "'c host \<Rightarrow> path set \<Rightarrow> 'c os \<Rightarrow> path \<Rightarrow> 'c \<Rightarrow> 'c os \<Rightarrow> bool" where
  "written h T s0 p c s = (\<exists>i m. acknowledged h T s0 p i c m s)"

definition interrupted :: "'c host \<Rightarrow> path set \<Rightarrow> 'c os \<Rightarrow> path \<Rightarrow> 'c \<Rightarrow> 'c os \<Rightarrow> bool" where
  "interrupted h T s0 p c s =
     (kept h T False s0 s \<or> (\<exists>i m. published h T True s0 p i c (fsync_on h) m s))"

lemma interruptedI [intro]:
  "kept h T D s0 s \<Longrightarrow> interrupted h T s0 p c s"
  "published h T True s0 p i c (fsync_on h) m s \<Longrightarrow> interrupted h T s0 p c s"
  "acknowledged h T s0 p i c m s \<Longrightarrow> interrupted h T s0 p c s"
  by (cases D) (auto simp: interrupted_def acknowledged_def dest: undisturbed_weaken)

lemma triple_after:
  assumes "triple h P m Q F C" "\<And>s. F s \<Longrightarrow> F' s" "\<And>s. C s \<Longrightarrow> C' s"
  shows "triple h P m Q F' C'"
  by (rule triple_weaken [OF assms(1)]) (auto intro: assms(2,3))

text \<open>
  The steps that all writers share: fill the staged file, close it, and note its version.
\<close>

lemma triple_publish_result:
  assumes "p \<noteq> []"
  shows "triple h (published h T True s0 p i c (fsync_on h) m)
    (bind_io (syncDirBestEffort (butlast p)) (\<lambda>_. return_io r))
    (\<lambda>_. written h T s0 p c) (kept h T False s0) (interrupted h T s0 p c)"
proof (rule triple_bind)
  show "triple h (published h T True s0 p i c (fsync_on h) m) (syncDirBestEffort (butlast p))
      (\<lambda>_. acknowledged h T s0 p i c m) (kept h T False s0) (interrupted h T s0 p c)"
    by (rule triple_after [OF triple_publish [OF assms]]) auto
  show "triple h (acknowledged h T s0 p i c m) (return_io r)
      (\<lambda>_. written h T s0 p c) (kept h T False s0) (interrupted h T s0 p c)"
    by (rule triple_return) (auto simp: written_def)
qed

lemma triple_open_trunc:
  assumes "sane T s0" "t \<in> T"
  shows "triple (h :: 'c host) (kept h T D s0) (open_trunc t m)
    (\<lambda>i s. \<exists>m. staged h T D s0 t i (empty h) False m s) (kept h T D s0) (kept h T D s0)"
  unfolding open_trunc_def
proof (rule triple_syscall)
  fix s :: "'c os"
  let ?new = "new_file t (empty h) (m AND NOT (umask h)) (bump s)"
  let ?old = "\<lambda>i. (bump s)\<lparr>inodes := (inodes (bump s))(i := (inodes (bump s) i)\<lparr>i_data := empty h, i_synced := False, i_mtime := time (bump s)\<rparr>)\<rparr>"
  assume k: "kept h T D s0 s"
  then have "kept h T D s0 ?new" by (intro undisturbed_new_file) (simp_all add: assms)
  then have "\<exists>m'. staged h T D s0 t (next_inode s) (empty h) False m' ?new"
    using assms(2) by (simp add: staged_def new_file_def)
  moreover have "\<exists>m'. staged h T D s0 t i (empty h) False m' (?old i)" if "now_dir s t = Some i" for i
  proof -
    have "own T s0 i" using k assms(2) that by (simp add: undisturbed_def)
    then have "kept h T D s0 (?old i)" using k by (intro undisturbed_inode) simp_all
    with assms(2) that show ?thesis by (simp add: staged_def)
  qed
  ultimately show "case (if \<not> now_dirs (bump s) (butlast t) then (Fail Not_exist, bump s)
      else case now_dir (bump s) t of
          None \<Rightarrow> (Done (next_inode (bump s)), new_file t (empty h) (m AND NOT (umask h)) (bump s))
        | Some i \<Rightarrow> (Done i, ?old i)) of
      (Done i, s') \<Rightarrow> \<exists>m. staged h T D s0 t i (empty h) False m s'
    | (Fail e, s') \<Rightarrow> kept h T D s0 s' | (Crashed, s') \<Rightarrow> kept h T D s0 s'"
    using k by (auto split: option.split)
qed simp_all

lemma triple_exists:
  assumes "\<And>x. triple h (P x) m Q F C"
  shows "triple h (\<lambda>s. \<exists>x. P x s) m Q F C"
  unfolding triple_def
proof (intro allI impI)
  fix s assume "\<exists>x. P x s"
  then obtain x where "P x s" ..
  with assms [of x] show "case m h s of (Done a, s') \<Rightarrow> Q a s' | (Fail e, s') \<Rightarrow> F s' | (Crashed, s') \<Rightarrow> C s'"
    by (simp add: triple_def)
qed

lemma triple_pure: "(b \<Longrightarrow> triple h P m Q F C) \<Longrightarrow> triple h (\<lambda>s. b \<and> P s) m Q F C"
  unfolding triple_def by simp

text \<open>A step that leaves the target as it was if it fails or is interrupted.\<close>

lemma triple_step:
  assumes "triple h P m Q (kept h T True s0) (kept h T True s0)"
    and "\<And>a. triple h (Q a) (k a) R (kept h T False s0) (interrupted h T s0 p c)"
  shows "triple h P (bind_io m k) R (kept h T False s0) (interrupted h T s0 p c)"
  by (rule triple_bind [OF triple_after [OF assms(1)] assms(2)]) (auto intro: undisturbed_weaken)

lemma triple_remove_after:
  "t \<in> T \<Longrightarrow> triple h (kept h T False s0) (remove t) (\<lambda>_. kept h T False s0) (kept h T False s0) (interrupted h T s0 p c)"
  by (rule triple_after [OF triple_remove]) auto

lemma triple_safeWriteSibling:
  assumes "sane T s0" "p \<notin> T" "with_ext p ''.plumb.tmp'' \<in> T" "p \<noteq> []"
  shows "triple h (kept h T True s0) (safeWriteSibling p c perm b) (\<lambda>_. written h T s0 p c)
    (kept h T False s0) (interrupted h T s0 p c)"
  unfolding safeWriteSibling_def Let_def
  by (rule triple_step [OF triple_open_trunc [OF assms(1,3)]], rule triple_exists,
      rule triple_cleanup [OF _ triple_remove_after [OF assms(3)]],
      rule triple_step [OF triple_write], rule triple_step [OF triple_syncTempFile],
      rule triple_step [OF triple_close], rule triple_step [OF triple_snapshot],
      rule triple_bind [OF triple_now], rule triple_step [OF triple_rename [OF assms(2)]],
      rule triple_publish_result [OF assms(4)])

lemma triple_rememberCrossDevice:
  "triple h (kept h T D s0) (rememberCrossDevice d) (\<lambda>_. kept h T D s0) F C"
  by (simp add: triple_def rememberCrossDevice_def undisturbed_cross)

definition rename_outcome :: "'c host \<Rightarrow> path set \<Rightarrow> 'c os \<Rightarrow> path \<Rightarrow> 'c \<Rightarrow> renamed \<Rightarrow> 'c os \<Rightarrow> bool" where
  "rename_outcome h T s0 p c r s =
     (case r of
        Renamed t mt \<Rightarrow> \<exists>i m. published h T True s0 p i c (fsync_on h) m s
      | Other_device \<Rightarrow> kept h T True s0 s)"

lemma rename_outcome_simps [simp]:
  "rename_outcome h T s0 p c (Renamed t mt) = (\<lambda>s. \<exists>i m. published h T True s0 p i c (fsync_on h) m s)"
  "rename_outcome h T s0 p c Other_device = kept h T True s0"
  by (simp_all add: rename_outcome_def fun_eq_iff)

lemma triple_rename_or_other:
  assumes "p \<notin> T" "t \<in> T"
  shows "triple h (staged h T True s0 t i c (fsync_on h) m)
    (handle (bind_io (rename t p) (\<lambda>_. return_io (Renamed at mt)))
       (\<lambda>e. if e = Cross_device then
              bind_io (rememberCrossDevice d) (\<lambda>_.
              bind_io (best_effort (remove t)) (\<lambda>_. return_io Other_device))
            else fail_io e))
    (rename_outcome h T s0 p c) (kept h T False s0) (interrupted h T s0 p c)"
proof (rule triple_handle [where ?F1.0 = "kept h T True s0"])
  show "triple h (staged h T True s0 t i c (fsync_on h) m)
      (bind_io (rename t p) (\<lambda>_. return_io (Renamed at mt)))
      (rename_outcome h T s0 p c) (kept h T True s0) (interrupted h T s0 p c)"
    by (rule triple_bind, rule triple_after [OF triple_rename [OF assms(1)]], assumption, blast)
      (rule triple_return, auto)
  have "triple h (kept h T True s0) (best_effort (remove t)) (\<lambda>_. kept h T True s0)
      (kept h T False s0) (interrupted h T s0 p c)"
    by (rule triple_best_effort, rule triple_after [OF triple_remove [OF assms(2)]]) auto
  then show "triple h (kept h T True s0)
      (if e = Cross_device then
         bind_io (rememberCrossDevice d) (\<lambda>_. bind_io (best_effort (remove t)) (\<lambda>_. return_io Other_device))
       else fail_io e) (rename_outcome h T s0 p c) (kept h T False s0) (interrupted h T s0 p c)" for e
    by (intro triple_if triple_bind [OF triple_rememberCrossDevice] triple_fail)
      (auto intro!: triple_bind triple_return intro: undisturbed_weaken)
qed

lemma triple_create_temp_in:
  assumes "sane T s0" "temp_names h d \<subseteq> T"
  shows "triple h (kept h T D s0) (create_temp d)
    (\<lambda>(t, i). staged h T D s0 t i (empty h) False 384) (kept h T D s0) (kept h T D s0)"
  by (rule triple_create_temp) (use assms in \<open>auto simp: temp_names_def\<close>)

lemma triple_host: "triple h P (m h) Q F C \<Longrightarrow> triple h P (\<lambda>h. m h h) Q F C"
  by (simp add: triple_def)

lemma triple_stage:
  assumes "sane T s0" "p \<notin> T" "temp_names h (tmp_dir h) \<subseteq> T"
  shows "triple h (kept h T True s0) (stage p c perm) (rename_outcome h T s0 p c)
    (kept h T False s0) (interrupted h T s0 p c)"
  unfolding stage_def
proof (rule triple_step [where Q = "\<lambda>(t, i) s. t \<in> T \<and> staged h T True s0 t i (empty h) False 384 s"], goal_cases)
  case 1
  show ?case
    by (rule triple_host, rule triple_weaken [OF triple_create_temp_in [OF assms(1,3)]])
      (auto simp: staged_def)
next
  case (2 x)
  obtain t i where x: "x = (t, i)" by (cases x)
  show ?case unfolding x prod.case
  proof (rule triple_pure)
    assume t: "t \<in> T"
    show "triple h (staged h T True s0 t i (empty h) False 384)
      (cleanup (remove t)
         (bind_io (fchmod i perm) (\<lambda>_. bind_io (write_fd i c) (\<lambda>_. bind_io (syncTempFile i) (\<lambda>_.
          bind_io (close_fd i) (\<lambda>_. bind_io (stagedSnapshot t) (\<lambda>mt. bind_io now (\<lambda>at.
          handle (bind_io (rename t p) (\<lambda>_. return_io (Renamed at mt)))
            (\<lambda>e. if e = Cross_device then
                   bind_io (rememberCrossDevice (butlast p)) (\<lambda>_.
                   bind_io (best_effort (remove t)) (\<lambda>_. return_io Other_device))
                 else fail_io e)))))))))
      (rename_outcome h T s0 p c) (kept h T False s0) (interrupted h T s0 p c)"
      by (rule triple_cleanup [OF _ triple_remove_after [OF t]],
          rule triple_step [OF triple_fchmod], rule triple_step [OF triple_write],
          rule triple_step [OF triple_syncTempFile],
          rule triple_step [OF triple_close], rule triple_step [OF triple_snapshot],
          rule triple_bind [OF triple_now], rule triple_rename_or_other [OF assms(2) t])
  qed
qed

lemma triple_crossDeviceKnown: "triple h P (crossDeviceKnown d) (\<lambda>_. P) F C"
  by (simp add: triple_def crossDeviceKnown_def)

lemma triple_attempt_stat:
  "triple h (kept h T D s0) (attempt (stat p)) (\<lambda>_. kept h T D s0) (kept h T D s0) (kept h T D s0)"
  by (rule triple_attempt, rule triple_weaken [OF triple_stat [of "kept h T D s0"]]) auto

lemma triple_safeWrite:
  assumes "sane T s0" "p \<notin> T" "stage_names h p \<subseteq> T" "p \<noteq> []"
  shows "triple h (kept h T True s0) (safeWrite p c perm) (\<lambda>_. written h T s0 p c)
    (kept h T False s0) (interrupted h T s0 p c)"
proof -
  have t: "temp_names h (tmp_dir h) \<subseteq> T" "with_ext p ''.plumb.tmp'' \<in> T" "tree s0"
    using assms(1,3) by (auto simp: stage_names_def sane_def)
  note sib = triple_safeWriteSibling [OF assms(1,2) t(2) assms(4)]
  show ?thesis
    unfolding safeWrite_def Let_def
  proof (rule triple_step [OF triple_attempt_stat],
      rule triple_bind [OF triple_after [OF triple_mkdirAllSynced [OF t(3)]]], goal_cases)
    case (3 info u)
    show ?case
    proof (rule triple_bind [OF triple_crossDeviceKnown], rule triple_if [OF sib],
        rule triple_bind [OF triple_stage [OF assms(1,2) t(1)]], goal_cases)
      case (1 known r)
      show ?case
      proof (cases r)
        case (Renamed a mt)
        then show ?thesis
          by simp (intro triple_exists triple_publish_result [OF assms(4)])
      next
        case Other_device
        then show ?thesis using sib by simp
      qed
    qed
  qed (auto simp: interrupted_def)
qed

lemma written_remove:
  assumes "written h T s0 p c s" "t \<in> T" "p \<notin> T"
  shows "written h T s0 p c (s\<lparr>now_dir := (now_dir s)(t := None)\<rparr>)"
proof -
  obtain i m where a: "acknowledged h T s0 p i c m s" using assms(1) by (auto simp: written_def)
  have "p \<noteq> t" using assms(2,3) by auto
  moreover have "undisturbed h {p} T True s0 s" using a by (simp add: acknowledged_def published_def)
  ultimately have "acknowledged h T s0 p i c m (s\<lparr>now_dir := (now_dir s)(t := None)\<rparr>)"
    using a undisturbed_remove [of h "{p}" T True s0 s t] assms(2)
    by (simp add: acknowledged_def published_def quiet_so_far_def)
  then show ?thesis by (auto simp: written_def)
qed

lemma written_bump [simp]: "written h T s0 p c (bump s) = written h T s0 p c s"
  by (simp add: written_def acknowledged_def)

lemma triple_remove_written:
  assumes "t \<in> T" "p \<notin> T"
  shows "triple h (written h T s0 p c) (remove t) (\<lambda>_. written h T s0 p c)
    (written h T s0 p c) (interrupted h T s0 p c)"
  unfolding remove_def
proof (rule triple_syscall)
  fix s :: "'a os"
  assume w: "written h T s0 p c s"
  then show "interrupted h T s0 p c s" by (auto simp: written_def)
  show "case (case now_dir (bump s) t of None \<Rightarrow> (Fail Not_exist, bump s)
      | Some i \<Rightarrow> (Done (), (bump s)\<lparr>now_dir := (now_dir (bump s))(t := None)\<rparr>)) of
      (Done a, s') \<Rightarrow> written h T s0 p c s' | (Fail e, s') \<Rightarrow> written h T s0 p c s'
      | (Crashed, s') \<Rightarrow> interrupted h T s0 p c s'"
    using written_remove [of h T s0 p c "bump s" t] w assms by (auto split: option.split)
qed simp_all

lemma triple_SyncDir_or_warn:
  assumes "p \<noteq> []"
  shows "triple h (published h T True s0 p i c (fsync_on h) m) (handle (SyncDir (butlast p)) (\<lambda>_. warn))
    (\<lambda>_. written h T s0 p c) (kept h T False s0) (interrupted h T s0 p c)"
proof -
  have "handle (SyncDir d) (\<lambda>_. warn) h s = syncDirBestEffort d h s" for d and s :: "'a os"
    by (simp add: SyncDir_def syncDirBestEffort_def handle_def return_io_def)
  moreover have "triple h (published h T True s0 p i c (fsync_on h) m) (syncDirBestEffort (butlast p))
      (\<lambda>_. written h T s0 p c) (kept h T False s0) (interrupted h T s0 p c)"
    by (rule triple_weaken [OF triple_publish [OF assms]]) (auto simp: written_def)
  ultimately show ?thesis by (simp add: triple_def)
qed

lemma triple_AtomicWrite:
  assumes "sane T s0" "p \<notin> T" "temp_names h (butlast p) \<subseteq> T" "p \<noteq> []"
  shows "triple h (kept h T True s0) (AtomicWrite p c m) (\<lambda>_. written h T s0 p c)
    (kept h T False s0) (interrupted h T s0 p c)"
  unfolding AtomicWrite_def Let_def
proof (rule triple_step [OF triple_attempt_stat],
    rule triple_step [where Q = "\<lambda>(t, i) s. t \<in> T \<and> staged h T True s0 t i (empty h) False 384 s"], goal_cases)
  case 1
  show ?case
    by (rule triple_weaken [OF triple_create_temp_in [OF assms(1,3)]]) (auto simp: staged_def)
next
  case (2 info x)
  obtain t i where x: "x = (t, i)" by (cases x)
  show ?case unfolding x prod.case
    by (rule triple_pure,
        rule triple_finally [where Q = "\<lambda>_. written h T s0 p c" and ?F1.0 = "kept h T False s0",
          OF _ triple_remove_written [OF _ assms(2)] triple_remove_after],
        rule triple_step [OF triple_write], rule triple_step [OF triple_SyncFile],
        rule triple_step [OF triple_close], rule triple_step [OF triple_chmod],
        rule triple_step [OF triple_rename [OF assms(2)]], rule triple_SyncDir_or_warn [OF assms(4)],
        assumption+)
qed

section \<open>The contract and what follows\<close>

text \<open>
  What a process reads at a path now, and what may be found there after a crash: the entry
  that was saved or the present one, with the content of its inode, or anything if that was
  never synced; and nothing, if a directory above was not saved.
\<close>

definition entry_holds :: "'c os \<Rightarrow> nat option \<Rightarrow> 'c option \<Rightarrow> bool" where
  "entry_holds s e v =
     (case e of
        None \<Rightarrow> v = None
      | Some i \<Rightarrow> v \<noteq> None \<and> (i_synced (inodes s i) \<longrightarrow> v = Some (i_data (inodes s i))))"

definition above :: "path \<Rightarrow> path \<Rightarrow> bool" where
  "above d p = (take (length d) (butlast p) = d)"

definition survives :: "'c os \<Rightarrow> path \<Rightarrow> 'c option \<Rightarrow> bool" where
  "survives s p v =
     (entry_holds s (saved_dir s p) v \<or> entry_holds s (now_dir s p) v \<or>
      v = None \<and> (\<exists>d. above d p \<and> \<not> saved_dirs s d))"

text \<open>A file all of which has reached stable storage, or that is not there.\<close>

definition settled :: "'c os \<Rightarrow> path \<Rightarrow> bool" where
  "settled s p =
     (saved_dir s p = now_dir s p \<and>
      (\<forall>i. now_dir s p = Some i \<longrightarrow>
         i_synced (inodes s i) \<and> (\<forall>d. above d p \<longrightarrow> now_dirs s d \<and> saved_dirs s d)))"

lemma settled_survives: "settled s p \<Longrightarrow> survives s p v \<Longrightarrow> v = reads s p"
  by (cases "now_dir s p") (auto simp: settled_def survives_def entry_holds_def reads_def)

lemma kept_reads: "undisturbed h X T D s0 s \<Longrightarrow> q \<notin> T \<union> X \<Longrightarrow> reads s q = reads s0 q"
  by (cases "now_dir s0 q") (auto simp: undisturbed_def reads_def)

lemma published_reads: "published h T D s0 p i c syn m s \<Longrightarrow> reads s p = Some c"
  by (simp add: published_def reads_def)

lemma kept_settled:
  assumes "undisturbed h X T D s0 s" "settled s0 q" "q \<notin> T \<union> X"
  shows "settled s q"
proof -
  have "now_dir s q = now_dir s0 q" "saved_dir s q = now_dir s0 q"
    using assms by (auto simp: undisturbed_def settled_def)
  moreover have "inodes s i = inodes s0 i" if "now_dir s0 q = Some i" for i
    using assms that by (auto simp: undisturbed_def)
  moreover have "now_dirs s d \<and> saved_dirs s d" if "now_dirs s0 d \<and> saved_dirs s0 d" for d
    using assms(1) that by (simp add: undisturbed_def)
  ultimately show ?thesis using assms(2) by (simp add: settled_def)
qed

lemma kept_survives:
  "undisturbed h X T D s0 s \<Longrightarrow> settled s0 q \<Longrightarrow> q \<notin> T \<union> X \<Longrightarrow> survives s q v \<Longrightarrow> v = reads s0 q"
  using kept_settled settled_survives kept_reads by metis

lemma published_survives:
  assumes "published h T D s0 p i c True m s" "settled s0 p" "p \<notin> T" "survives s p v"
  shows "v = reads s0 p \<or> v = Some c"
proof -
  have u: "undisturbed h {p} T D s0 s" using assms(1) by (simp add: published_def)
  have old: "entry_holds s (now_dir s0 p) v \<Longrightarrow> v = reads s0 p"
  proof (cases "now_dir s0 p")
    case (Some j)
    assume e: "entry_holds s (now_dir s0 p) v"
    have "inodes s j = inodes s0 j" using u assms(3) Some by (auto simp: undisturbed_def)
    then show ?thesis using e assms(2) Some by (simp add: entry_holds_def settled_def reads_def)
  qed (simp add: entry_holds_def reads_def)
  have new: "entry_holds s (Some i) v \<Longrightarrow> v = Some c"
    using assms(1) by (simp add: entry_holds_def published_def)
  have "v = reads s0 p" if "v = None" "above d p" "\<not> saved_dirs s d" for d
  proof (cases "now_dir s0 p")
    case (Some j)
    then have "now_dirs s0 d \<and> saved_dirs s0 d" using assms(2) that(2) by (simp add: settled_def)
    then show ?thesis using u that(3) by (simp add: undisturbed_def)
  qed (use that in \<open>simp add: reads_def\<close>)
  with old new assms show ?thesis
    by (auto simp: survives_def published_def settled_def)
qed

lemma acknowledged_survives:
  assumes "acknowledged h T s0 p i c m s" "quiet_so_far h s0 s" "dirs_saved s0" "survives s p v"
  shows "v = Some c"
proof -
  have p: "published h T True s0 p i c True m s" and e: "saved_dir s p = Some i"
    using assms(1,2) by (simp_all add: acknowledged_def quiet_so_far_def)
  have "dirs_saved s" "tree s" using p assms(2,3) by (simp_all add: published_def undisturbed_def)
  moreover have "now_dirs s (butlast p)" using p by (simp add: published_def)
  ultimately have "saved_dirs s d" if "above d p" for d
    using that tree_prefix by (auto simp: above_def dirs_saved_def)
  then show ?thesis using assms(4) p e by (auto simp: survives_def entry_holds_def published_def)
qed

locale atomic_writer =
  fixes writer :: "path \<Rightarrow> 'c \<Rightarrow> ('c, 'a) io"
    and names :: "'c host \<Rightarrow> path \<Rightarrow> path set"
  assumes contract:
    "sane (names h p) s0 \<Longrightarrow> p \<notin> names h p \<Longrightarrow> p \<noteq> [] \<Longrightarrow>
       triple h (kept h (names h p) True s0) (writer p c) (\<lambda>_. written h (names h p) s0 p c)
         (kept h (names h p) False s0) (interrupted h (names h p) s0 p c)"
begin

text \<open>The state the write starts in, and a run from it.\<close>

definition run :: "'c host \<Rightarrow> path \<Rightarrow> 'c \<Rightarrow> 'c os \<Rightarrow> 'a res \<Rightarrow> 'c os \<Rightarrow> bool" where
  "run h p c s0 r s \<longleftrightarrow>
     sane (names h p) s0 \<and> p \<notin> names h p \<and> p \<noteq> [] \<and> writer p c h s0 = (r, s)"

lemma outcome:
  assumes "run h p c s0 r s"
  shows "case r of Done a \<Rightarrow> written h (names h p) s0 p c s | Fail e \<Rightarrow> kept h (names h p) False s0 s
    | Crashed \<Rightarrow> interrupted h (names h p) s0 p c s"
  using assms unfolding run_def by (intro tripleD [OF contract]) (auto intro: kept_refl)

lemma interrupted_always:
  assumes "run h p c s0 r s" shows "interrupted h (names h p) s0 p c s"
  using outcome [OF assms] by (auto simp: written_def split: res.splits)

lemma never_torn:
  assumes "run h p c s0 r s"
  shows "reads s p = reads s0 p \<or> reads s p = Some c"
    and "(\<exists>a. r = Done a) \<Longrightarrow> reads s p = Some c" and "(\<exists>e. r = Fail e) \<Longrightarrow> reads s p = reads s0 p"
proof -
  have p: "p \<notin> names h p \<union> {}" using assms by (simp add: run_def)
  show "reads s p = reads s0 p \<or> reads s p = Some c"
    using interrupted_always [OF assms] kept_reads [OF _ p] by (auto simp: interrupted_def dest: published_reads)
  show "(\<exists>a. r = Done a) \<Longrightarrow> reads s p = Some c"
    using outcome [OF assms] by (auto simp: written_def acknowledged_def dest: published_reads)
  show "(\<exists>e. r = Fail e) \<Longrightarrow> reads s p = reads s0 p"
    using outcome [OF assms] kept_reads [OF _ p] by auto
qed

lemma others_untouched:
  assumes "run h p c s0 r s" "q \<noteq> p" "q \<notin> names h p"
  shows "reads s q = reads s0 q" and "settled s0 q \<Longrightarrow> survives s q v \<Longrightarrow> v = reads s0 q"
  using interrupted_always [OF assms(1)] assms(2,3)
  by (auto simp: interrupted_def published_def kept_reads kept_survives)

lemma crash_atomic:
  assumes "run h p c s0 r s" "fsync_on h" "settled s0 p" "survives s p v"
  shows "v = reads s0 p \<or> v = Some c"
  using interrupted_always [OF assms(1)] assms
  by (auto simp: interrupted_def run_def dest: kept_survives published_survives)

lemma failed_survives:
  assumes "run h p c s0 (Fail e) s" "settled s0 p" "survives s p v"
  shows "v = reads s0 p"
  using outcome [OF assms(1)] assms by (auto simp: run_def dest: kept_survives)

lemma durable:
  assumes "run h p c s0 (Done a) s" "fsync_on h" "warnings s = warnings s0" "dirs_saved s0" "survives s p v"
  shows "v = Some c"
  using outcome [OF assms(1)] assms
  by (auto simp: written_def quiet_so_far_def dest: acknowledged_survives)

end

interpretation safe: atomic_writer "\<lambda>p c. safeWrite p c perm" stage_names for perm
  by unfold_locales (rule triple_safeWrite, auto)

interpretation sibling: atomic_writer "\<lambda>p c. safeWriteSibling p c perm b" stage_names for perm b
  by unfold_locales (rule triple_safeWriteSibling, auto simp: stage_names_def)

interpretation state_file: atomic_writer "\<lambda>p c. AtomicWrite p c m" "\<lambda>h p. temp_names h (butlast p)" for m
  by unfold_locales (rule triple_AtomicWrite, auto)

section \<open>On a host where nothing fails\<close>

text \<open>
  The abstract view of the files, content and mode, and the update a write means to be. On a
  host where no call fails the writers are that update; the fallback for another device is
  not, since the mode it opens the sibling with is masked.
\<close>

definition visible :: "'c os \<Rightarrow> path \<Rightarrow> ('c \<times> 32 word) option" where
  "visible s q =
     (case now_dir s q of None \<Rightarrow> None | Some i \<Rightarrow> Some (i_data (inodes s i), i_mode (inodes s i)))"

definition write_spec :: "path \<Rightarrow> 'c \<Rightarrow> 32 word \<Rightarrow> (path \<Rightarrow> ('c \<times> 32 word) option) \<Rightarrow> (path \<Rightarrow> ('c \<times> 32 word) option)" where
  "write_spec p c perm fs = fs(p \<mapsto> (c, case fs p of Some (_, m) \<Rightarrow> m | None \<Rightarrow> perm))"

definition healthy :: "'c host \<Rightarrow> bool" where
  "healthy h = (\<forall>n. \<not> call_fails h n \<and> \<not> crashes h n)"

definition room_for :: "'c os \<Rightarrow> path \<Rightarrow> path \<Rightarrow> bool" where
  "room_for s t p =
     (now_dirs s (butlast t) \<and> now_dirs s (butlast p) \<and> now_dir s t = None \<and> t \<noteq> p \<and>
      (\<forall>q i. now_dir s q = Some i \<longrightarrow> i < next_inode s))"

lemma syscall_healthy: "healthy h \<Longrightarrow> syscall f h s = f h (bump s)"
  by (simp add: healthy_def syscall_def)

lemmas io_defs = bind_io_def handle_def attempt_def cleanup_def finally_io_def best_effort_def
  return_io_def fail_io_def stat_def create_temp_def open_trunc_def fchmod_def chmod_def
  write_fd_def fsync_fd_def close_fd_def remove_def rename_def sync_dir_def on_inode_def
  new_file_def stagedSnapshot_def now_def syncTempFile_def syncDirBestEffort_def SyncFile_def
  SyncDir_def crossDeviceKnown_def warn_def Let_def

lemma room_fresh: "room_for s t p \<Longrightarrow> now_dir s q \<noteq> Some (next_inode s)"
  unfolding room_for_def by blast

lemma mkdir_nothing:
  assumes "healthy h" "now_dirs s d" "tree s"
  shows "mkdirAllSynced d h s = (Done (), bump (bump s))"
proof -
  have "missingAncestors d [] h s = (Done [], bump s)"
    using assms(1,2) by (subst missingAncestors.simps)
      (simp add: bind_io_def attempt_def handle_def stat_dir_def syscall_healthy return_io_def)
  moreover have "(\<lambda>q. now_dirs s q \<or> take (length q) d = q) = now_dirs s"
    using tree_prefix [OF assms(3,2)] by auto
  ultimately show ?thesis
    using assms(1) by (simp add: mkdirAllSynced_def bind_io_def mkdir_all_def syscall_healthy return_io_def)
qed

lemma AtomicWrite_visible:
  assumes "healthy h" "room_for s (butlast p @ [temp_name h (next_inode s)]) p"
  shows "\<exists>s'. AtomicWrite p c m h s = (Done (), s') \<and>
    visible s' = write_spec p c (if m = 0 then defaultMode else m) (visible s)"
  using assms(2) room_fresh [OF assms(2)]
  by (cases "now_dir s p"; cases "fsync_on h")
    (auto simp: AtomicWrite_def io_defs visible_def syscall_healthy [OF assms(1)] write_spec_def room_for_def fun_eq_iff split: option.split)

lemma safeWrite_visible:
  assumes "healthy h" "tree s" "room_for s (tmp_dir h @ [temp_name h (next_inode s)]) p"
    and "butlast p \<notin> set (cross_known s)" "device h (tmp_dir h) = device h (butlast p)"
  shows "\<exists>r s'. safeWrite p c perm h s = (Done r, s') \<and> visible s' = write_spec p c perm (visible s)"
proof -
  have "mkdirAllSynced (butlast p) h (bump s) = (Done (), bump (bump (bump s)))"
    using mkdir_nothing [of h "bump s" "butlast p"] assms(1-3) by (simp add: tree_def room_for_def)
  then show ?thesis
    using assms(3-5) room_fresh [OF assms(3)]
    by (cases "now_dir s p"; cases "fsync_on h")
      (auto simp: safeWrite_def stage_def io_defs visible_def syscall_healthy [OF assms(1)] write_spec_def room_for_def fun_eq_iff split: option.split)
qed

lemma safeWrite_sibling_visible:
  assumes "healthy h" "tree s" "room_for s (with_ext p ''.plumb.tmp'') p"
    and "butlast p \<in> set (cross_known s)"
  shows "\<exists>r s'. safeWrite p c perm h s = (Done r, s') \<and>
    visible s' = (visible s)(p \<mapsto> (c, (case visible s p of Some (_, m) \<Rightarrow> m | None \<Rightarrow> perm) AND NOT (umask h)))"
proof -
  have "mkdirAllSynced (butlast p) h (bump s) = (Done (), bump (bump (bump s)))"
    using mkdir_nothing [of h "bump s" "butlast p"] assms(1-3) by (simp add: tree_def room_for_def)
  then show ?thesis
    using assms(3-4) room_fresh [OF assms(3)]
    by (cases "now_dir s p"; cases "fsync_on h")
      (auto simp: safeWrite_def safeWriteSibling_def with_ext_def io_defs visible_def syscall_healthy [OF assms(1)] room_for_def fun_eq_iff split: option.split)
qed

end
