(* ===== verification/Plumb_View.thy ===== *)
theory Plumb_View
  imports Plumb_SafeWrite_Correct
begin

text \<open>
  The writers as a process that was killed and started again sees them: what they do to the
  contents at the paths, leaving aside the names under which they stage. A coarser logic than
  that of stable storage, for the programs that write many files.
\<close>

section \<open>Names and states\<close>

definition is_temp :: "'c host \<Rightarrow> path \<Rightarrow> bool" where
  "is_temp h q = (\<exists>d n. q = d @ [temp_name h n])"

definition junk :: "'c host \<Rightarrow> path set" where
  "junk h = {q. is_temp h q \<or> (q \<noteq> [] \<and> has_suffix (last q) ''.plumb.tmp'')}"

text \<open>The names of temporary files are new every time and tell themselves from siblings.\<close>

definition good_names :: "'c host \<Rightarrow> bool" where
  "good_names h = (inj (temp_name h) \<and> (\<forall>n. \<not> has_suffix (temp_name h n) ''.plumb.tmp''))"

text \<open>
  Inode numbers in use are below the next one, no two names are links to one inode, and the
  temporary names still to come are not in use.
\<close>

definition proper :: "'c host \<Rightarrow> 'c os \<Rightarrow> bool" where
  "proper h s =
     (tree s \<and> (\<forall>q i. now_dir s q = Some i \<longrightarrow> i < next_inode s) \<and>
      (\<forall>q q' i. now_dir s q = Some i \<longrightarrow> now_dir s q' = Some i \<longrightarrow> q = q') \<and>
      (\<forall>d n. next_inode s \<le> n \<longrightarrow> now_dir s (d @ [temp_name h n]) = None))"

definition sees :: "'c host \<Rightarrow> path set \<Rightarrow> (path \<Rightarrow> 'c option) \<Rightarrow> 'c os \<Rightarrow> bool" where
  "sees h E v s =
     (good_names h \<and> proper h s \<and> (\<forall>d \<in> E. now_dirs s d) \<and> (\<forall>q. q \<notin> junk h \<longrightarrow> reads s q = v q))"

definition opened :: "'c host \<Rightarrow> path set \<Rightarrow> (path \<Rightarrow> 'c option) \<Rightarrow> path \<Rightarrow> nat \<Rightarrow> 'c \<Rightarrow> 'c os \<Rightarrow> bool" where
  "opened h E v p i c s = (sees h E v s \<and> now_dir s p = Some i \<and> i_data (inodes s i) = c)"

definition either :: "'c host \<Rightarrow> path set \<Rightarrow> (path \<Rightarrow> 'c option) \<Rightarrow> path \<Rightarrow> 'c \<Rightarrow> 'c os \<Rightarrow> bool" where
  "either h E v p c s = (sees h E v s \<or> sees h E (v(p \<mapsto> c)) s)"

lemma eitherI [intro]: "sees h E v s \<Longrightarrow> either h E v p c s" "sees h E (v(p \<mapsto> c)) s \<Longrightarrow> either h E v p c s"
  by (simp_all add: either_def)

lemma sees_junk: "p \<in> junk h \<Longrightarrow> sees h E (v(p := x)) s = sees h E v s"
  by (auto simp: sees_def)

lemma opened_sees: "opened h E v p i c s \<Longrightarrow> sees h E v s"
  by (simp add: opened_def)

lemma proper_bump [simp]: "proper h (bump s) = proper h s"
  by (simp add: proper_def tree_def)

lemma reads_bump [simp]: "reads (bump s) = reads s"
  by (simp add: reads_def fun_eq_iff)

lemma sees_bump [simp]: "sees h E v (bump s) = sees h E v s"
  by (simp add: sees_def)

lemma opened_bump [simp]: "opened h E v p i c (bump s) = opened h E v p i c s"
  by (simp add: opened_def)

lemma sees_subset: "sees h E v s \<Longrightarrow> E' \<subseteq> E \<Longrightarrow> sees h E' v s"
  by (auto simp: sees_def)

section \<open>System calls\<close>

lemma properI:
  assumes "tree s" "\<And>q i. now_dir s q = Some i \<Longrightarrow> i < next_inode s"
    and "\<And>q q' i. now_dir s q = Some i \<Longrightarrow> now_dir s q' = Some i \<Longrightarrow> q = q'"
    and "\<And>d n. next_inode s \<le> n \<Longrightarrow> now_dir s (d @ [temp_name h n]) = None"
  shows "proper h s"
  unfolding proper_def by (intro conjI allI impI assms; assumption)

lemma proper_inj:
  assumes "proper h s" "now_dir s q = Some i" "now_dir s q' = Some i"
  shows "q = q'"
proof -
  have "\<forall>q q' i. now_dir s q = Some i \<longrightarrow> now_dir s q' = Some i \<longrightarrow> q = q'"
    using assms(1) unfolding proper_def by (elim conjE)
  with assms(2,3) show ?thesis by blast
qed

lemma proper_low:
  assumes "proper h s" "now_dir s q = Some i"
  shows "i < next_inode s"
proof -
  have "\<forall>q i. now_dir s q = Some i \<longrightarrow> i < next_inode s" using assms(1) unfolding proper_def by (elim conjE)
  with assms(2) show ?thesis by blast
qed

lemma reads_new_file:
  "(\<And>q i. now_dir s q = Some i \<Longrightarrow> i < next_inode s) \<Longrightarrow> reads (new_file p c m s) = (reads s)(p \<mapsto> c)"
  by (auto simp: reads_def new_file_def fun_eq_iff map_option_case split: option.split)

lemma proper_new_file:
  assumes "proper h s" "now_dir s p = None" "\<And>d n. p = d @ [temp_name h n] \<Longrightarrow> n \<le> next_inode s"
  shows "proper h (new_file p c m s)"
proof -
  let ?s = "new_file p c m s"
  have dir: "now_dir ?s = (now_dir s)(p \<mapsto> next_inode s)" "next_inode ?s = Suc (next_inode s)"
    by (simp_all add: new_file_def)
  have low: "now_dir s q = Some i \<Longrightarrow> i < next_inode s" for q i by (rule proper_low [OF assms(1)])
  have "tree ?s" using assms(1) by (simp add: proper_def new_file_def tree_def)
  moreover have "i < next_inode ?s" if "now_dir ?s q = Some i" for q i
    using that low [of q i] by (auto simp: dir split: if_splits)
  moreover have "q = q'" if "now_dir ?s q = Some i" "now_dir ?s q' = Some i" for q q' i
  proof -
    have "now_dir s q = Some i \<Longrightarrow> now_dir s q' = Some i \<Longrightarrow> q = q'" by (rule proper_inj [OF assms(1)])
    then show ?thesis using that low [of q i] low [of q' i] by (auto simp: dir split: if_splits)
  qed
  moreover have "now_dir ?s (d @ [temp_name h n]) = None" if "next_inode ?s \<le> n" for d n
  proof -
    have "d @ [temp_name h n] \<noteq> p" using assms(3) [of d n] that by (auto simp: dir)
    moreover have "now_dir s (d @ [temp_name h n]) = None"
      using assms(1) that Suc_leD unfolding proper_def dir by blast
    ultimately show ?thesis by (simp add: dir)
  qed
  ultimately show ?thesis by (simp add: proper_def)
qed

lemma sees_new_file:
  assumes "sees h E v s" "now_dir s p = None" "\<And>d n. p = d @ [temp_name h n] \<Longrightarrow> n \<le> next_inode s"
  shows "opened h E (v(p \<mapsto> c)) p (next_inode s) c (new_file p c m s)"
proof -
  have p: "proper h s" using assms(1) by (simp add: sees_def)
  then have r: "reads (new_file p c m s) = (reads s)(p \<mapsto> c)" by (intro reads_new_file) (simp add: proper_def)
  have "proper h (new_file p c m s)" by (rule proper_new_file [OF p assms(2,3)])
  moreover have "now_dirs (new_file p c m s) = now_dirs s" "now_dir (new_file p c m s) p = Some (next_inode s)"
    "i_data (inodes (new_file p c m s) (next_inode s)) = c" by (simp_all add: new_file_def)
  moreover have "good_names h" "\<forall>d \<in> E. now_dirs s d" "\<forall>q. q \<notin> junk h \<longrightarrow> reads s q = v q"
    using assms(1) by (simp_all add: sees_def)
  ultimately show ?thesis unfolding opened_def sees_def r by (metis fun_upd_apply)
qed

lemma reads_inode:
  assumes "proper h s" "now_dir s p = Some i"
  shows "reads (s\<lparr>inodes := (inodes s)(i := n)\<rparr>) = (reads s)(p \<mapsto> i_data n)"
proof -
  have "now_dir s q = Some i \<Longrightarrow> q = p" for q by (rule proper_inj [OF assms(1) _ assms(2)])
  then have u: "q \<noteq> p \<Longrightarrow> now_dir s q \<noteq> Some i" for q by blast
  show ?thesis
  proof
    fix q
    show "reads (s\<lparr>inodes := (inodes s)(i := n)\<rparr>) q = ((reads s)(p \<mapsto> i_data n)) q"
      using assms(2) u [of q] by (cases "now_dir s q"; cases "q = p") (simp_all add: reads_def)
  qed
qed

lemma proper_inode [simp]: "proper h (s\<lparr>inodes := f\<rparr>) = proper h s"
  by (simp add: proper_def tree_def)

lemma opened_inode:
  assumes "opened h E v p i c s"
  shows "opened h E (v(p \<mapsto> i_data n)) p i (i_data n) (s\<lparr>inodes := (inodes s)(i := n)\<rparr>)"
  using assms reads_inode [of h s p i n] by (simp add: opened_def sees_def)

lemma opened_same:
  assumes "opened h E v p i c s" "p \<notin> junk h \<Longrightarrow> v p = Some c"
    and "i_data n = c"
  shows "opened h E v p i c (s\<lparr>inodes := (inodes s)(i := n)\<rparr>)"
proof (cases "p \<in> junk h")
  case True
  then show ?thesis using opened_inode [OF assms(1), of n] assms(3) sees_junk [OF True] by (simp add: opened_def)
next
  case False
  then have "v(p \<mapsto> c) = v" using assms(2) by auto
  then show ?thesis using opened_inode [OF assms(1), of n] assms(3) by simp
qed

lemma vt_unchanged:
  assumes "\<And>s. P s \<Longrightarrow> P (bump s)" "\<And>s. snd (f h s) = s" "\<And>s. P s \<Longrightarrow> C s" "\<And>s. P s \<Longrightarrow> F s"
  shows "triple h P (syscall f) (\<lambda>_. P) F C"
proof (rule triple_syscall)
  fix s assume P: "P s"
  obtain r where "f h (bump s) = (r, bump s)" using assms(2) [of "bump s"] by (metis prod.collapse)
  then show "case f h (bump s) of (Done a, s') \<Rightarrow> P s' | (Fail e, s') \<Rightarrow> F s' | (Crashed, s') \<Rightarrow> C s'"
    using P assms(1) [OF P] assms(3,4) by (cases r) auto
qed (use assms in auto)

abbreviation unmoved :: "'c host \<Rightarrow> path set \<Rightarrow> (path \<Rightarrow> 'c option) \<Rightarrow> ('c, 'a) io \<Rightarrow> bool" where
  "unmoved h E v m \<equiv> triple h (sees h E v) m (\<lambda>_. sees h E v) (sees h E v) (sees h E v)"

lemma vt_stat: "unmoved h E v (stat p)"
  unfolding stat_def by (rule vt_unchanged) simp_all

lemma vt_stat_dir: "unmoved h E v (stat_dir d)"
  unfolding stat_dir_def by (rule vt_unchanged) simp_all

lemma vt_read_names: "unmoved h E v (read_names d)"
  unfolding read_names_def by (rule vt_unchanged) simp_all

lemma vt_staged_unchanged:
  assumes "\<And>s. snd (f h s) = s"
  shows "triple h (opened h E v p i c) (syscall f) (\<lambda>_. opened h E v p i c) (sees h E v) (sees h E v)"
  by (rule vt_unchanged) (simp_all add: assms opened_sees)

lemma vt_close:
  "triple h (opened h E v p i c) (close_fd j) (\<lambda>_. opened h E v p i c) (sees h E v) (sees h E v)"
  unfolding close_fd_def by (rule vt_staged_unchanged) simp

lemma vt_snapshot:
  "triple h (opened h E v p i c) (stagedSnapshot q) (\<lambda>_. opened h E v p i c) (sees h E v) (sees h E v)"
  unfolding stagedSnapshot_def stat_def
  by (rule triple_bind [OF vt_staged_unchanged]) (auto intro: triple_return)

lemma is_temp_junk: "d @ [temp_name h n] \<in> junk h"
  by (auto simp: junk_def is_temp_def)

lemma opened_junk: "p \<in> junk h \<Longrightarrow> opened h E (v(p := x)) p i c s = opened h E v p i c s"
  by (simp add: opened_def sees_junk)

lemma opened_junk_fun: "p \<in> junk h \<Longrightarrow> opened h E (v(p := x)) p i c = opened h E v p i c"
  by (rule ext) (rule opened_junk)

lemma vt_create_temp:
  "triple h (sees h E v) (create_temp d)
     (\<lambda>(t, i) s. t \<in> junk h \<and> opened h E v t i (empty h) s) (sees h E v) (sees h E v)"
  unfolding create_temp_def
proof (rule triple_syscall)
  fix s :: "'a os"
  let ?t = "d @ [temp_name h (next_inode s)]"
  assume s: "sees h E v s"
  have "opened h E v ?t (next_inode s) (empty h) (new_file ?t (empty h) 384 (bump s))" if "now_dir s ?t = None"
  proof -
    have "inj (temp_name h)" using s by (simp add: sees_def good_names_def)
    then have "opened h E (v(?t \<mapsto> empty h)) ?t (next_inode (bump s)) (empty h) (new_file ?t (empty h) 384 (bump s))"
      using s that by (intro sees_new_file) (auto dest: injD)
    then show ?thesis by (simp add: opened_junk is_temp_junk)
  qed
  then show "case (let p = d @ [temp_name h (next_inode (bump s))] in
      if \<not> now_dirs (bump s) d then (Fail Not_exist, bump s)
      else if now_dir (bump s) p \<noteq> None then (Fail Io, bump s)
      else (Done (p, next_inode (bump s)), new_file p (empty h) 384 (bump s))) of
      (Done a, s') \<Rightarrow> (case a of (t, i) \<Rightarrow> \<lambda>s. t \<in> junk h \<and> opened h E v t i (empty h) s) s'
    | (Fail e, s') \<Rightarrow> sees h E v s' | (Crashed, s') \<Rightarrow> sees h E v s'"
    using s by (auto simp: Let_def is_temp_junk)
qed simp_all

lemma vt_open_trunc:
  assumes "\<not> is_temp h p"
  shows "triple h (sees h E v) (open_trunc p m)
     (\<lambda>i. opened h E (v(p \<mapsto> empty h)) p i (empty h)) (sees h E v) (sees h E v)"
  unfolding open_trunc_def
proof (rule triple_syscall)
  fix s :: "'a os"
  assume s: "sees h E v s"
  have new: "opened h E (v(p \<mapsto> empty h)) p (next_inode (bump s)) (empty h) (new_file p (empty h) m' (bump s))"
    if "now_dir s p = None" for m'
    using s that assms by (intro sees_new_file) (auto simp: is_temp_def)
  have old: "opened h E (v(p \<mapsto> empty h)) p i (empty h)
      ((bump s)\<lparr>inodes := (inodes (bump s))(i := (inodes (bump s) i)\<lparr>i_data := empty h, i_synced := False, i_mtime := time (bump s)\<rparr>)\<rparr>)"
    if "now_dir s p = Some i" for i
    using opened_inode [of h E v p i "i_data (inodes s i)" "bump s" "(inodes (bump s) i)\<lparr>i_data := empty h, i_synced := False, i_mtime := time (bump s)\<rparr>"]
      s that by (simp add: opened_def)
  show "case (if \<not> now_dirs (bump s) (butlast p) then (Fail Not_exist, bump s)
      else case now_dir (bump s) p of
          None \<Rightarrow> (Done (next_inode (bump s)), new_file p (empty h) (m AND NOT (umask h)) (bump s))
        | Some i \<Rightarrow> (Done i, (bump s)\<lparr>inodes := (inodes (bump s))(i := (inodes (bump s) i)\<lparr>i_data := empty h, i_synced := False, i_mtime := time (bump s)\<rparr>)\<rparr>)) of
      (Done i, s') \<Rightarrow> opened h E (v(p \<mapsto> empty h)) p i (empty h) s'
    | (Fail e, s') \<Rightarrow> sees h E v s' | (Crashed, s') \<Rightarrow> sees h E v s'"
    using s new old by (auto split: option.split)
qed simp_all

lemma vt_write:
  "triple h (opened h E v p i c) (write_fd i c')
     (\<lambda>_. opened h E (v(p \<mapsto> c')) p i c') (sees h E v) (sees h E v)"
  unfolding write_fd_def
proof (rule triple_syscall)
  fix s :: "'a os"
  assume "opened h E v p i c s"
  then show "case (Done (), on_inode i (\<lambda>n. n\<lparr>i_data := c', i_synced := False, i_mtime := time (bump s)\<rparr>) (bump s)) of
      (Done a, s') \<Rightarrow> opened h E (v(p \<mapsto> c')) p i c' s' | (Fail e, s') \<Rightarrow> sees h E v s' | (Crashed, s') \<Rightarrow> sees h E v s'"
    using opened_inode [of h E v p i c "bump s" "(inodes (bump s) i)\<lparr>i_data := c', i_synced := False, i_mtime := time (bump s)\<rparr>"]
    by (simp add: on_inode_def)
qed (simp_all add: opened_sees)

lemma vt_write_staged:
  assumes "t \<in> junk h"
  shows "triple h (opened h E v t i c) (write_fd i c') (\<lambda>_. opened h E v t i c') (sees h E v) (sees h E v)"
  using vt_write [of h E v t i c c'] by (simp add: opened_junk_fun [OF assms])

lemma vt_attribute:
  assumes "t \<in> junk h" "\<And>n. i_data (g n) = i_data n"
  shows "triple h (opened h E v t i c) (syscall (\<lambda>h s. (Done (), on_inode i g s)))
     (\<lambda>_. opened h E v t i c) (sees h E v) (sees h E v)"
proof (rule triple_syscall)
  fix s :: "'a os"
  assume o: "opened h E v t i c s"
  then have "opened h E v t i c (on_inode i g (bump s))"
    using opened_same [of h E v t i c "bump s" "g (inodes (bump s) i)"] assms
    by (simp add: on_inode_def) (simp add: opened_def)
  then show "case (Done (), on_inode i g (bump s)) of
      (Done a, s') \<Rightarrow> opened h E v t i c s' | (Fail e, s') \<Rightarrow> sees h E v s' | (Crashed, s') \<Rightarrow> sees h E v s'"
    by simp
qed (simp_all add: opened_sees)

lemma vt_fchmod:
  "t \<in> junk h \<Longrightarrow> triple h (opened h E v t i c) (fchmod i m) (\<lambda>_. opened h E v t i c) (sees h E v) (sees h E v)"
  unfolding fchmod_def by (rule vt_attribute) simp_all

lemma vt_chmod:
  assumes "t \<in> junk h"
  shows "triple h (opened h E v t i c) (chmod t m) (\<lambda>_. opened h E v t i c) (sees h E v) (sees h E v)"
proof -
  have "chmod t m h s = fchmod i m h s" if "opened h E v t i c s" for s
    using that by (simp add: chmod_def fchmod_def syscall_def opened_def)
  then show ?thesis using vt_fchmod [OF assms, of E v i c m] by (simp add: triple_def)
qed

lemma vt_syncTempFile:
  assumes "t \<in> junk h"
  shows "triple h (opened h E v t i c) (syncTempFile i) (\<lambda>_. opened h E v t i c) (sees h E v) (sees h E v)"
proof (cases "fsync_on h")
  case True
  have "triple h (opened h E v t i c) (fsync_fd i) (\<lambda>_. opened h E v t i c) (sees h E v) (sees h E v)"
    unfolding fsync_fd_def by (rule vt_attribute [OF assms]) simp
  with True show ?thesis by (simp add: triple_def syncTempFile_def)
qed (simp add: triple_def syncTempFile_def return_io_def)

lemma vt_SyncFile:
  "t \<in> junk h \<Longrightarrow> triple h (opened h E v t i c) (SyncFile i) (\<lambda>_. opened h E v t i c) (sees h E v) (sees h E v)"
  using vt_syncTempFile [of t h E v i c] by (simp add: triple_def SyncFile_def syncTempFile_def)

lemma reads_remove: "reads (s\<lparr>now_dir := (now_dir s)(p := None)\<rparr>) = (reads s)(p := None)"
  by (auto simp: reads_def)

lemma proper_remove: "proper h s \<Longrightarrow> proper h (s\<lparr>now_dir := (now_dir s)(p := None)\<rparr>)"
  unfolding proper_def tree_def by auto

lemma sees_remove: "sees h E v s \<Longrightarrow> sees h E (v(p := None)) (s\<lparr>now_dir := (now_dir s)(p := None)\<rparr>)"
  by (simp add: sees_def reads_remove proper_remove)

lemma vt_remove:
  "triple h (sees h E v) (remove p) (\<lambda>_. sees h E (v(p := None))) (sees h E v) (sees h E v)"
  unfolding remove_def
proof (rule triple_syscall)
  fix s :: "'a os"
  assume "sees h E v s"
  then show "case (case now_dir (bump s) p of None \<Rightarrow> (Fail Not_exist, bump s)
      | Some i \<Rightarrow> (Done (), (bump s)\<lparr>now_dir := (now_dir (bump s))(p := None)\<rparr>)) of
      (Done a, s') \<Rightarrow> sees h E (v(p := None)) s' | (Fail e, s') \<Rightarrow> sees h E v s' | (Crashed, s') \<Rightarrow> sees h E v s'"
    using sees_remove [of h E v "bump s" p] by (auto split: option.split)
qed simp_all

lemma sees_junk_fun: "p \<in> junk h \<Longrightarrow> sees h E (v(p := x)) = sees h E v"
  by (rule ext) (rule sees_junk)

lemma vt_remove_junk: "t \<in> junk h \<Longrightarrow> unmoved h E v (remove t)"
  using vt_remove [of h E v t] by (simp add: sees_junk_fun)

lemma vt_remove_either:
  assumes "t \<in> junk h"
  shows "triple h (sees h E v) (remove t) (\<lambda>_. sees h E v) (sees h E v) (either h E v p c)"
  by (rule triple_after [OF vt_remove_junk [OF assms]]) auto

lemma sees_move:
  assumes "opened h E v t i c s" "t \<noteq> p" "p \<notin> junk h"
  shows "sees h E (v(t := None, p \<mapsto> c)) (s\<lparr>now_dir := (now_dir s)(t := None, p := Some i)\<rparr>)"
proof -
  let ?s = "s\<lparr>now_dir := (now_dir s)(t := None, p := Some i)\<rparr>"
  have s: "sees h E v s" "proper h s" "now_dir s t = Some i" "i_data (inodes s i) = c"
    using assms(1) by (simp_all add: opened_def sees_def)
  have r: "reads ?s = (reads s)(t := None, p \<mapsto> c)" using s(4) assms(2) by (auto simp: reads_def fun_eq_iff)
  have only: "now_dir s q = Some i \<Longrightarrow> q = t" for q by (rule proper_inj [OF s(2) _ s(3)])
  have "tree ?s" using s(2) by (simp add: proper_def tree_def)
  moreover have "j < next_inode ?s" if "now_dir ?s q = Some j" for q j
    using that proper_low [OF s(2), of q j] proper_low [OF s(2,3)] by (auto split: if_splits)
  moreover have "q = q'" if "now_dir ?s q = Some j" "now_dir ?s q' = Some j" for q q' j
    using that proper_inj [OF s(2), of q j q'] only by (auto split: if_splits)
  moreover have "now_dir ?s (d @ [temp_name h n]) = None" if "next_inode ?s \<le> n" for d n
  proof -
    have "d @ [temp_name h n] \<noteq> p" using assms(3) is_temp_junk [of d h n] by auto
    moreover have "now_dir s (d @ [temp_name h n]) = None" using s(2) that unfolding proper_def by simp
    ultimately show ?thesis by simp
  qed
  ultimately have "proper h ?s" by (rule properI)
  with s(1) show ?thesis by (auto simp: sees_def r)
qed

lemma sees_rename:
  assumes "opened h E v t i c s" "t \<in> junk h" "p \<notin> junk h"
  shows "sees h E (v(p \<mapsto> c)) (s\<lparr>now_dir := (now_dir s)(t := None, p := Some i)\<rparr>)"
proof -
  have "t \<noteq> p" using assms(2,3) by auto
  with sees_move [OF assms(1) this assms(3)] sees_junk [OF assms(2), of E "v(p \<mapsto> c)" None] show ?thesis
    by (simp add: fun_upd_twist)
qed

lemma vt_rename:
  assumes "t \<in> junk h" "p \<notin> junk h"
  shows "triple h (opened h E v t i c) (rename t p) (\<lambda>_. sees h E (v(p \<mapsto> c))) (sees h E v) (sees h E v)"
  unfolding rename_def
proof (rule triple_syscall)
  fix s :: "'a os"
  assume o: "opened h E v t i c s"
  then have "now_dir (bump s) t = Some i" "sees h E v (bump s)" by (simp_all add: opened_def)
  moreover have "sees h E (v(p \<mapsto> c)) ((bump s)\<lparr>now_dir := (now_dir (bump s))(t := None, p := Some i)\<rparr>)"
    by (rule sees_rename [OF _ assms]) (use o in simp)
  ultimately show "case (case now_dir (bump s) t of None \<Rightarrow> (Fail Not_exist, bump s)
      | Some i \<Rightarrow>
          if \<not> now_dirs (bump s) (butlast p) then (Fail Not_exist, bump s)
          else if device h (butlast t) \<noteq> device h (butlast p) then (Fail Cross_device, bump s)
          else (Done (), (bump s)\<lparr>now_dir := (now_dir (bump s))(t := None, p := Some i)\<rparr>)) of
      (Done a, s') \<Rightarrow> sees h E (v(p \<mapsto> c)) s' | (Fail e, s') \<Rightarrow> sees h E v s' | (Crashed, s') \<Rightarrow> sees h E v s'"
    by simp
qed (simp_all add: opened_sees)

lemma sees_dirs:
  "sees h E v s \<Longrightarrow> (\<And>d. now_dirs s d \<Longrightarrow> P d) \<Longrightarrow> tree (s\<lparr>now_dirs := P\<rparr>) \<Longrightarrow> sees h E v (s\<lparr>now_dirs := P\<rparr>)"
  by (simp add: sees_def proper_def reads_def fun_eq_iff)

text \<open>What a call that reads has seen, of a file that is no temporary one.\<close>

lemma sees_reads: "sees h E v s \<Longrightarrow> p \<notin> junk h \<Longrightarrow> reads s p = v p"
  by (simp add: sees_def)

lemma sees_gone: "sees h E v s \<Longrightarrow> p \<notin> junk h \<Longrightarrow> now_dir s p = None \<Longrightarrow> v p = None"
  using sees_reads [of h E v s p] by (simp add: reads_def)

lemma sees_there: "sees h E v s \<Longrightarrow> p \<notin> junk h \<Longrightarrow> now_dir s p = Some i \<Longrightarrow> v p = Some (i_data (inodes s i))"
  using sees_reads [of h E v s p] by (simp add: reads_def)

lemma vt_read_file:
  assumes "p \<notin> junk h"
  shows "triple h (sees h E v) (read_file p) (\<lambda>c s. v p = Some c \<and> sees h E v s) (sees h E v) (sees h E v)"
  using sees_gone [OF _ assms] sees_there [OF _ assms]
  by (auto simp: triple_def read_file_def syscall_def reads_def split: option.splits)

lemma vt_mkdir_all: "unmoved h E v (mkdir_all d)"
  unfolding mkdir_all_def
proof (rule triple_syscall)
  fix s :: "'a os"
  assume s: "sees h E v s"
  have "sees h E v ((bump s)\<lparr>now_dirs := (\<lambda>q. now_dirs (bump s) q \<or> take (length q) d = q)\<rparr>)"
    by (rule sees_dirs, use s in simp, blast, rule tree_mkdir)
      (use s in \<open>simp add: sees_def proper_def tree_def\<close>)
  then show "case (Done (), (bump s)\<lparr>now_dirs := (\<lambda>q. now_dirs (bump s) q \<or> take (length q) d = q)\<rparr>) of
      (Done a, s') \<Rightarrow> sees h E v s' | (Fail e, s') \<Rightarrow> sees h E v s' | (Crashed, s') \<Rightarrow> sees h E v s'"
    by simp
qed simp_all

lemma sees_saved [simp]:
  "sees h E v (s\<lparr>saved_dir := x, saved_dirs := y\<rparr>) = sees h E v s"
  "sees h E v (s\<lparr>warnings := n\<rparr>) = sees h E v s" "sees h E v (s\<lparr>cross_known := l\<rparr>) = sees h E v s"
  by (simp_all add: sees_def proper_def tree_def reads_def)

lemma sees_remove_dir:
  assumes "sees h E v s" "d \<noteq> []" "\<And>e. e \<in> E \<Longrightarrow> take (length d) e \<noteq> d"
  shows "sees h E v (s\<lparr>now_dirs := (\<lambda>q. now_dirs s q \<and> take (length d) q \<noteq> d)\<rparr>)"
proof -
  have "tree s" using assms(1) by (simp add: sees_def proper_def)
  moreover have "take (length d) (a @ b) \<noteq> d \<Longrightarrow> take (length d) a \<noteq> d" for a b by (auto simp: take_append)
  ultimately have "tree (s\<lparr>now_dirs := (\<lambda>q. now_dirs s q \<and> take (length d) q \<noteq> d)\<rparr>)"
    using assms(2) unfolding tree_def by auto
  then show ?thesis using assms(1,3) by (simp add: sees_def proper_def reads_def fun_eq_iff)
qed

lemma vt_remove_dir:
  assumes "d \<noteq> []" "\<And>e. e \<in> E \<Longrightarrow> take (length d) e \<noteq> d"
  shows "unmoved h E v (remove_dir d)"
  unfolding remove_dir_def
proof (rule triple_syscall)
  fix s :: "'a os"
  assume s: "sees h E v s"
  have "sees h E v ((bump s)\<lparr>now_dirs := (\<lambda>q. now_dirs (bump s) q \<and> take (length d) q \<noteq> d)\<rparr>)"
    by (rule sees_remove_dir) (use s assms in auto)
  then show "case (if \<not> now_dirs (bump s) d then (Fail Not_exist, bump s)
      else if filter (\<lambda>n. now_dir (bump s) (d @ [n]) \<noteq> None \<or> now_dirs (bump s) (d @ [n])) (dir_order h d) \<noteq> [] then (Fail Io, bump s)
      else (Done (), (bump s)\<lparr>now_dirs := (\<lambda>q. now_dirs (bump s) q \<and> take (length d) q \<noteq> d)\<rparr>)) of
      (Done a, s') \<Rightarrow> sees h E v s' | (Fail e, s') \<Rightarrow> sees h E v s' | (Crashed, s') \<Rightarrow> sees h E v s'"
    using s by (auto simp del: bump_simps split: if_splits)
qed simp_all

lemma vt_sync_dir: "unmoved h E v (sync_dir d)"
  unfolding sync_dir_def by (rule triple_syscall) (simp_all add: Let_def)

lemma vt_warn: "triple h (sees h E v) warn (\<lambda>_. sees h E v) F C"
  by (rule triple_warn) simp

lemma vt_sync_or_warn: "unmoved h E v (handle (sync_dir d) (\<lambda>_. warn))"
  by (rule triple_handle [OF vt_sync_dir vt_warn])

lemma vt_syncDirBestEffort: "unmoved h E v (syncDirBestEffort d)"
  using vt_sync_or_warn [of h E v d] by (simp add: triple_def syncDirBestEffort_def return_io_def)

lemma vt_rememberCrossDevice: "triple h (sees h E v) (rememberCrossDevice d) (\<lambda>_. sees h E v) F C"
  by (simp add: triple_def rememberCrossDevice_def)

lemma vt_missingAncestors: "unmoved h E v (missingAncestors d ds)"
proof (induction d ds rule: missingAncestors.induct)
  case (1 d ds)
  have "unmoved h E v (attempt (stat_dir d))"
    by (rule triple_attempt, rule triple_weaken [OF vt_stat_dir]) auto
  then show ?case
  proof (subst missingAncestors.simps, rule triple_bind)
    fix r :: "unit option"
    show "unmoved h E v (case r of None \<Rightarrow> if d = [] then return_io (d # ds) else missingAncestors (butlast d) (d # ds)
        | Some _ \<Rightarrow> return_io ds)"
      using 1 by (cases r) (auto intro: triple_return)
  qed
qed

section \<open>The writers\<close>

lemma vt_step:
  assumes "triple h P m Q (sees h E v) (sees h E v)"
    and "\<And>a. triple h (Q a) (k a) R (sees h E v) (either h E v p c)"
  shows "triple h P (bind_io m k) R (sees h E v) (either h E v p c)"
  by (rule triple_bind [OF triple_after [OF assms(1)] assms(2)]) auto

lemma vt_sync_sure:
  "triple h (sees h E v) (syncDirBestEffort d) (\<lambda>_. sees h E v) (\<lambda>_. False) (sees h E v)"
  unfolding syncDirBestEffort_def [abs_def]
  by (rule triple_sync_or_warn) (simp_all add: synced_to_def)

lemma vt_publish:
  "triple h (sees h E (v(p \<mapsto> c))) (bind_io (syncDirBestEffort d) (\<lambda>_. return_io r))
     (\<lambda>_. sees h E (v(p \<mapsto> c))) (sees h E v) (either h E v p c)"
proof (rule triple_bind)
  have "triple h (sees h E (v(p \<mapsto> c))) (syncDirBestEffort d) (\<lambda>_. sees h E (v(p \<mapsto> c)))
      (\<lambda>_. False) (sees h E (v(p \<mapsto> c)))"
    unfolding syncDirBestEffort_def [abs_def]
    by (rule triple_sync_or_warn) (simp_all add: synced_to_def)
  then show "triple h (sees h E (v(p \<mapsto> c))) (syncDirBestEffort d) (\<lambda>_. sees h E (v(p \<mapsto> c)))
      (sees h E v) (either h E v p c)"
    by (rule triple_after) auto
qed (rule triple_return)

lemma sibling_junk: "with_ext p ''.plumb.tmp'' \<in> junk h"
  by (auto simp: junk_def with_ext_def has_suffix_iff)

lemma sibling_not_temp: "good_names h \<Longrightarrow> \<not> is_temp h (with_ext p ''.plumb.tmp'')"
  by (auto simp: good_names_def is_temp_def with_ext_def) (metis has_suffix_iff)

lemma vt_safeWriteSibling:
  assumes "p \<notin> junk h" "good_names h"
  shows "triple h (sees h E v) (safeWriteSibling p c perm b) (\<lambda>_. sees h E (v(p \<mapsto> c)))
    (sees h E v) (either h E v p c)"
  unfolding safeWriteSibling_def Let_def
  by (rule vt_step [OF vt_open_trunc [OF sibling_not_temp [OF assms(2)]]],
      unfold opened_junk_fun [OF sibling_junk],
      rule triple_cleanup [OF _ vt_remove_either [OF sibling_junk]],
      rule vt_step [OF vt_write_staged [OF sibling_junk]], rule vt_step [OF vt_syncTempFile [OF sibling_junk]],
      rule vt_step [OF vt_close], rule vt_step [OF vt_snapshot],
      rule triple_bind [OF triple_now], rule vt_step [OF vt_rename [OF sibling_junk assms(1)]],
      rule vt_publish)

definition renamed_view :: "'c host \<Rightarrow> path set \<Rightarrow> (path \<Rightarrow> 'c option) \<Rightarrow> path \<Rightarrow> 'c \<Rightarrow> renamed \<Rightarrow> 'c os \<Rightarrow> bool" where
  "renamed_view h E v p c r = (case r of Renamed t mt \<Rightarrow> sees h E (v(p \<mapsto> c)) | Other_device \<Rightarrow> sees h E v)"

lemma vt_rename_or_other:
  assumes "p \<notin> junk h" "t \<in> junk h"
  shows "triple h (opened h E v t i c)
    (handle (bind_io (rename t p) (\<lambda>_. return_io (Renamed at mt)))
       (\<lambda>e. if e = Cross_device then
              bind_io (rememberCrossDevice d) (\<lambda>_.
              bind_io (best_effort (remove t)) (\<lambda>_. return_io Other_device))
            else fail_io e))
    (renamed_view h E v p c) (sees h E v) (either h E v p c)"
proof (rule triple_handle [where ?F1.0 = "sees h E v"])
  show "triple h (opened h E v t i c) (bind_io (rename t p) (\<lambda>_. return_io (Renamed at mt)))
      (renamed_view h E v p c) (sees h E v) (either h E v p c)"
    by (rule vt_step [OF vt_rename [OF assms(2,1)]], rule triple_return) (simp add: renamed_view_def)
  have "triple h (sees h E v) (best_effort (remove t)) (\<lambda>_. sees h E v) (sees h E v) (either h E v p c)"
    by (rule triple_best_effort, rule vt_remove_either [OF assms(2)])
  then show "triple h (sees h E v)
      (if e = Cross_device then
         bind_io (rememberCrossDevice d) (\<lambda>_. bind_io (best_effort (remove t)) (\<lambda>_. return_io Other_device))
       else fail_io e) (renamed_view h E v p c) (sees h E v) (either h E v p c)" for e
    by (intro triple_if triple_bind [OF vt_rememberCrossDevice] triple_fail)
      (auto intro!: triple_bind triple_return simp: renamed_view_def)
qed

lemma vt_stage:
  assumes "p \<notin> junk h"
  shows "triple h (sees h E v) (stage p c perm) (renamed_view h E v p c) (sees h E v) (either h E v p c)"
  unfolding stage_def
proof (rule vt_step [OF triple_host [OF vt_create_temp]], goal_cases)
  case (1 x)
  obtain t i where x: "x = (t, i)" by (cases x)
  show ?case unfolding x prod.case
  proof (rule triple_pure)
    assume t: "t \<in> junk h"
    show "triple h (opened h E v t i (empty h))
      (cleanup (remove t)
         (bind_io (fchmod i perm) (\<lambda>_. bind_io (write_fd i c) (\<lambda>_. bind_io (syncTempFile i) (\<lambda>_.
          bind_io (close_fd i) (\<lambda>_. bind_io (stagedSnapshot t) (\<lambda>mt. bind_io now (\<lambda>at.
          handle (bind_io (rename t p) (\<lambda>_. return_io (Renamed at mt)))
            (\<lambda>e. if e = Cross_device then
                   bind_io (rememberCrossDevice (butlast p)) (\<lambda>_.
                   bind_io (best_effort (remove t)) (\<lambda>_. return_io Other_device))
                 else fail_io e)))))))))
      (renamed_view h E v p c) (sees h E v) (either h E v p c)"
      by (rule triple_cleanup [OF _ vt_remove_either [OF t]],
          rule vt_step [OF vt_fchmod [OF t]], rule vt_step [OF vt_write_staged [OF t]],
          rule vt_step [OF vt_syncTempFile [OF t]], rule vt_step [OF vt_close], rule vt_step [OF vt_snapshot],
          rule triple_bind [OF triple_now], rule vt_rename_or_other [OF assms t])
  qed
qed

lemma vt_sync_parents: "unmoved h E v (sync_parents ds)"
  by (induction ds) (auto intro: triple_return triple_bind [OF vt_syncDirBestEffort])

lemma vt_mkdirAllSynced: "unmoved h E v (mkdirAllSynced d)"
  unfolding mkdirAllSynced_def
  by (rule triple_bind [OF vt_missingAncestors], rule triple_bind [OF vt_mkdir_all], rule vt_sync_parents)

lemma vt_attempt_stat: "unmoved h E v (attempt (stat p))"
  by (rule triple_attempt, rule vt_stat)

lemma vt_safeWrite:
  assumes "p \<notin> junk h" "good_names h"
  shows "triple h (sees h E v) (safeWrite p c perm) (\<lambda>_. sees h E (v(p \<mapsto> c))) (sees h E v) (either h E v p c)"
  unfolding safeWrite_def Let_def
proof (rule vt_step [OF vt_attempt_stat], rule vt_step [OF vt_mkdirAllSynced],
    rule triple_bind [OF triple_crossDeviceKnown], rule triple_if, rule vt_safeWriteSibling [OF assms],
    rule triple_bind [OF vt_stage [OF assms(1)]], goal_cases)
  case (1 info u known r)
  show ?case
    by (cases r) (simp_all add: renamed_view_def vt_publish vt_safeWriteSibling [OF assms])
qed

lemma vt_SyncDir_or_warn:
  "triple h (sees h E (v(p \<mapsto> c))) (handle (SyncDir d) (\<lambda>_. warn))
     (\<lambda>_. sees h E (v(p \<mapsto> c))) (sees h E v) (either h E v p c)"
proof -
  have "handle (SyncDir d) (\<lambda>_. warn) h s = syncDirBestEffort d h s" for s :: "'a os"
    by (simp add: SyncDir_def syncDirBestEffort_def handle_def return_io_def)
  moreover have "triple h (sees h E (v(p \<mapsto> c))) (syncDirBestEffort d) (\<lambda>_. sees h E (v(p \<mapsto> c)))
      (\<lambda>_. False) (sees h E (v(p \<mapsto> c)))"
    unfolding syncDirBestEffort_def [abs_def]
    by (rule triple_sync_or_warn) (simp_all add: synced_to_def)
  then have "triple h (sees h E (v(p \<mapsto> c))) (syncDirBestEffort d) (\<lambda>_. sees h E (v(p \<mapsto> c)))
      (sees h E v) (either h E v p c)"
    by (rule triple_after) auto
  ultimately show ?thesis by (simp add: triple_def)
qed

lemma vt_AtomicWrite:
  assumes "p \<notin> junk h"
  shows "triple h (sees h E v) (AtomicWrite p c m) (\<lambda>_. sees h E (v(p \<mapsto> c))) (sees h E v) (either h E v p c)"
  unfolding AtomicWrite_def Let_def
proof (rule vt_step [OF vt_attempt_stat], rule vt_step [OF vt_create_temp], goal_cases)
  case (1 info x)
  obtain t i where x: "x = (t, i)" by (cases x)
  show ?case unfolding x prod.case
  proof (rule triple_pure)
    assume t: "t \<in> junk h"
    let ?mode = "case info of None \<Rightarrow> if m = 0 then defaultMode else m | Some n \<Rightarrow> i_mode n"
    have done': "triple h (sees h E (v(p \<mapsto> c))) (remove t) (\<lambda>_. sees h E (v(p \<mapsto> c)))
        (sees h E (v(p \<mapsto> c))) (either h E v p c)"
      by (rule triple_after [OF vt_remove_junk [OF t]]) auto
    show "triple h (opened h E v t i (empty h))
        (finally_io (remove t)
           (bind_io (write_fd i c) (\<lambda>_. bind_io (SyncFile i) (\<lambda>_. bind_io (close_fd i) (\<lambda>_.
            bind_io (chmod t ?mode) (\<lambda>_. bind_io (rename t p) (\<lambda>_. handle (SyncDir (butlast p)) (\<lambda>_. warn))))))))
        (\<lambda>_. sees h E (v(p \<mapsto> c))) (sees h E v) (either h E v p c)"
      by (rule triple_finally [OF _ done' vt_remove_either [OF t]],
          rule vt_step [OF vt_write_staged [OF t]], rule vt_step [OF vt_SyncFile [OF t]],
          rule vt_step [OF vt_close], rule vt_step [OF vt_chmod [OF t]],
          rule vt_step [OF vt_rename [OF t assms]], rule vt_SyncDir_or_warn)
  qed
qed

text \<open>\<open>os.WriteFile\<close> is not atomic: a failure or a crash may leave any of three contents.\<close>

definition torn :: "'c host \<Rightarrow> path set \<Rightarrow> (path \<Rightarrow> 'c option) \<Rightarrow> path \<Rightarrow> 'c \<Rightarrow> 'c os \<Rightarrow> bool" where
  "torn h E v p c s = (\<exists>x. sees h E (v(p := x)) s)"

lemma tornI: "sees h E (v(p := x)) s \<Longrightarrow> torn h E v p c s" "sees h E v s \<Longrightarrow> torn h E v p c s"
  by (auto simp: torn_def intro: exI [of _ "v p"])

lemma vt_write_file:
  assumes "p \<notin> junk h"
  shows "triple h (sees h E v) (write_file p c m) (\<lambda>_. sees h E (v(p \<mapsto> c))) (torn h E v p c) (torn h E v p c)"
proof -
  have "\<not> is_temp h p" using assms by (simp add: junk_def)
  note steps = vt_open_trunc [OF this] vt_write [of h E "v(p \<mapsto> empty h)" p _ "empty h" c, simplified]
    vt_close [of h E "v(p \<mapsto> c)" p _ c]
  show ?thesis
    unfolding write_file_def
    by (rule triple_bind [OF triple_after [OF steps(1)]], erule tornI, erule tornI,
        rule triple_bind [OF triple_after [OF steps(2)]], erule tornI, erule tornI,
        rule triple_weaken [OF steps(3)])
      (auto intro: tornI simp: opened_sees)
qed

section \<open>Success\<close>

text \<open>
  A program ends the same way with and without crashes to come, unless it is interrupted; so
  where no call fails it is enough to look at a host without crashes.
\<close>

definition calm_host :: "'c host \<Rightarrow> 'c host" where
  "calm_host h = h\<lparr>crashes := (\<lambda>_. False)\<rparr>"

definition no_faults :: "'c host \<Rightarrow> bool" where
  "no_faults h = (\<forall>n. \<not> call_fails h n)"

definition steady :: "('c, 'a) io \<Rightarrow> bool" where
  "steady m = (\<forall>h s. fst (m h s) = Crashed \<or> m h s = m (calm_host h) s)"

lemma calm_host_simps [simp]:
  "call_fails (calm_host h) = call_fails h" "crashes (calm_host h) = (\<lambda>_. False)"
  "device (calm_host h) = device h" "tmp_dir (calm_host h) = tmp_dir h"
  "temp_name (calm_host h) = temp_name h" "dir_order (calm_host h) = dir_order h"
  "umask (calm_host h) = umask h" "fsync_on (calm_host h) = fsync_on h" "empty (calm_host h) = empty h"
  by (simp_all add: calm_host_def)

lemma calm_sees [simp]: "sees (calm_host h) = sees h" "junk (calm_host h) = junk h"
  by (simp_all add: fun_eq_iff sees_def good_names_def proper_def junk_def is_temp_def)

lemma healthy_calm: "no_faults h \<Longrightarrow> healthy (calm_host h)"
  by (simp add: healthy_def no_faults_def)

lemma steady_syscall: "(\<And>h s. f (calm_host h) s = f h s) \<Longrightarrow> steady (syscall f)"
  by (simp add: steady_def syscall_def)

lemma steady_pure: "(\<And>h s. m (calm_host h) s = m h s) \<Longrightarrow> steady m"
  by (simp add: steady_def)

lemma steady_bind:
  assumes "steady m" "\<And>a. steady (k a)"
  shows "steady (bind_io m k)"
  unfolding steady_def
proof (intro allI)
  fix h s
  obtain r s' where m: "m h s = (r, s')" by (cases "m h s")
  have "fst (m h s) = Crashed \<or> m h s = m (calm_host h) s" using assms(1) by (simp add: steady_def)
  then have c: "r = Crashed \<or> m (calm_host h) s = (r, s')" using m by auto
  have k: "fst (k a h s') = Crashed \<or> k a h s' = k a (calm_host h) s'" for a using assms(2) by (simp add: steady_def)
  show "fst ((bind_io m k) h s) = Crashed \<or> (bind_io m k) h s = (bind_io m k) (calm_host h) s"
    using c k m by (cases r) (auto simp: bind_io_def)
qed

lemma steady_handle:
  assumes "steady m" "\<And>a. steady (k a)"
  shows "steady (handle m k)"
  unfolding steady_def
proof (intro allI)
  fix h s
  obtain r s' where m: "m h s = (r, s')" by (cases "m h s")
  have "fst (m h s) = Crashed \<or> m h s = m (calm_host h) s" using assms(1) by (simp add: steady_def)
  then have c: "r = Crashed \<or> m (calm_host h) s = (r, s')" using m by auto
  have k: "fst (k a h s') = Crashed \<or> k a h s' = k a (calm_host h) s'" for a using assms(2) by (simp add: steady_def)
  show "fst ((handle m k) h s) = Crashed \<or> (handle m k) h s = (handle m k) (calm_host h) s"
    using c k m by (cases r) (auto simp: handle_def)
qed

lemma steady_return: "steady (return_io a)" "steady (fail_io e)"
  by (simp_all add: steady_def return_io_def fail_io_def)

lemma steady_best_effort: "steady m \<Longrightarrow> steady (best_effort m)"
  unfolding best_effort_def by (intro steady_handle steady_bind steady_return)

lemma steady_attempt: "steady m \<Longrightarrow> steady (attempt m)"
  unfolding attempt_def by (intro steady_handle steady_bind steady_return)

lemma steady_cleanup: "steady m \<Longrightarrow> steady c \<Longrightarrow> steady (cleanup c m)"
  unfolding cleanup_def by (intro steady_handle steady_bind steady_return steady_best_effort)

lemma steady_finally: "steady m \<Longrightarrow> steady c \<Longrightarrow> steady (finally_io c m)"
  unfolding finally_io_def by (intro steady_handle steady_bind steady_return steady_best_effort)

lemma steady_calls:
  "steady (stat p)" "steady (stat_dir p)" "steady (create_temp p)" "steady (open_trunc p m)"
  "steady (fchmod i m)" "steady (chmod p m)" "steady (write_fd i c)" "steady (fsync_fd i)" "steady (close_fd i)"
  "steady (read_file p)" "steady (remove p)" "steady (rename p q)" "steady (sync_dir p)" "steady (mkdir_all p)"
  "steady (read_names p)" "steady (remove_dir p)"
  unfolding stat_def stat_dir_def create_temp_def open_trunc_def fchmod_def chmod_def write_fd_def fsync_fd_def
    close_fd_def read_file_def remove_def rename_def sync_dir_def mkdir_all_def read_names_def remove_dir_def
  by (rule steady_syscall; simp add: Let_def split: option.split)+

lemma steady_state: "steady warn" "steady now" "steady (crossDeviceKnown p)" "steady (rememberCrossDevice p)"
  by (auto intro: steady_pure simp: warn_def now_def crossDeviceKnown_def rememberCrossDevice_def)

lemma steady_if: "steady a \<Longrightarrow> steady b \<Longrightarrow> steady (\<lambda>h. if fsync_on h then a h else b h)"
  by (simp add: steady_def)

lemmas steady_rules = steady_return steady_bind steady_handle steady_best_effort steady_attempt
  steady_cleanup steady_finally steady_calls steady_state

lemma steady_syncs:
  "steady (syncTempFile i)" "steady (SyncFile i)" "steady (SyncDir d)" "steady (syncDirBestEffort d)"
  unfolding syncTempFile_def [abs_def] SyncFile_def [abs_def] SyncDir_def [abs_def] syncDirBestEffort_def [abs_def]
  by (intro steady_if steady_rules)+

lemma steady_AtomicWrite: "steady (AtomicWrite p c m)"
  unfolding AtomicWrite_def Let_def
  by (intro steady_rules steady_syncs, clarify, intro steady_rules steady_syncs)

lemma steady_write_file: "steady (write_file p c m)"
  unfolding write_file_def by (intro steady_rules)

lemma no_failure:
  assumes "steady m" "\<exists>a s'. m (calm_host h) s = (Done a, s')"
  shows "fst (m h s) \<noteq> Fail e"
  using assms unfolding steady_def by (metis fst_conv res.distinct(1,5))

lemma triple_no_failure:
  assumes "triple h P m Q F C" "\<And>s e. P s \<Longrightarrow> fst (m h s) \<noteq> Fail e"
  shows "triple h P m Q (\<lambda>_. False) C"
  using assms unfolding triple_def by (fastforce split: prod.splits res.splits)

lemma AtomicWrite_succeeds:
  assumes "healthy h" "sees h E v s" "p \<notin> junk h" "butlast p \<in> E"
  shows "\<exists>s'. AtomicWrite p c m h s = (Done (), s')"
proof -
  let ?t = "butlast p @ [temp_name h (next_inode s)]"
  have "proper h s" "now_dirs s (butlast p)" using assms(2,4) by (simp_all add: sees_def)
  moreover have "?t \<noteq> p" using assms(3) is_temp_junk [of "butlast p" h "next_inode s"] by metis
  ultimately have "room_for s ?t p" unfolding room_for_def proper_def by simp
  then show ?thesis using AtomicWrite_visible [OF assms(1)] by blast
qed

lemma vt_AtomicWrite_sure:
  assumes "no_faults h" "p \<notin> junk h" "butlast p \<in> E"
  shows "triple h (sees h E v) (AtomicWrite p c m) (\<lambda>_. sees h E (v(p \<mapsto> c))) (\<lambda>_. False) (either h E v p c)"
proof (rule triple_no_failure [OF vt_AtomicWrite [OF assms(2)]])
  fix s e assume "sees h E v s"
  then have "\<exists>s'. AtomicWrite p c m (calm_host h) s = (Done (), s')"
    using AtomicWrite_succeeds [OF healthy_calm [OF assms(1)], of E v s p] assms(2,3) by simp
  then show "fst (AtomicWrite p c m h s) \<noteq> Fail e"
    by (intro no_failure [OF steady_AtomicWrite]) blast
qed

lemma write_file_succeeds:
  assumes "healthy h" "now_dirs s (butlast p)"
  shows "\<exists>s'. write_file p c m h s = (Done (), s')"
  using assms by (cases "now_dir s p") (simp_all add: write_file_def io_defs syscall_healthy [OF assms(1)])

lemma vt_write_file_sure:
  assumes "no_faults h" "p \<notin> junk h" "butlast p \<in> E"
  shows "triple h (sees h E v) (write_file p c m) (\<lambda>_. sees h E (v(p \<mapsto> c))) (\<lambda>_. False) (torn h E v p c)"
proof (rule triple_no_failure [OF vt_write_file [OF assms(2)]])
  fix s e assume "sees h E v s"
  then have "now_dirs s (butlast p)" using assms(3) by (simp add: sees_def)
  then have "\<exists>s'. write_file p c m (calm_host h) s = (Done (), s')"
    by (rule write_file_succeeds [OF healthy_calm [OF assms(1)]])
  then show "fst (write_file p c m h s) \<noteq> Fail e"
    by (intro no_failure [OF steady_write_file]) blast
qed

lemma with_ext_neq: "with_ext p ''.plumb.tmp'' \<noteq> p" if "p \<noteq> []"
proof
  assume "with_ext p ''.plumb.tmp'' = p"
  then have "last (with_ext p ''.plumb.tmp'') = last p" by simp
  then show False by (simp add: with_ext_def)
qed

lemma safeWriteSibling_succeeds:
  assumes "healthy h" "now_dirs s (butlast p)" "p \<noteq> []"
  shows "\<exists>r s'. safeWriteSibling p c perm b h s = (Done r, s')"
  using assms(2) with_ext_neq [OF assms(3)]
  by (cases "now_dir s (with_ext p ''.plumb.tmp'')"; cases "fsync_on h")
    (auto simp: safeWriteSibling_def io_defs syscall_healthy [OF assms(1)] with_ext_def)

lemma stage_succeeds:
  assumes "healthy h" "now_dirs s (butlast p)" "now_dirs s (tmp_dir h)"
    and "now_dir s (tmp_dir h @ [temp_name h (next_inode s)]) = None"
  shows "\<exists>r s'. stage p c perm h s = (Done r, s')"
  using assms(2-4)
  by (cases "fsync_on h"; cases "device h (tmp_dir h) = device h (butlast p)")
    (auto simp: stage_def io_defs rememberCrossDevice_def syscall_healthy [OF assms(1)])

lemma safeWrite_succeeds:
  assumes "healthy h" "sees h E v s" "p \<notin> junk h" "p \<noteq> []" "butlast p \<in> E" "tmp_dir h \<in> E"
  shows "\<exists>r s'. safeWrite p c perm h s = (Done r, s')"
proof -
  have st: "sees h E v (bump (bump (bump s)))" using assms(2) by simp
  have dirs: "now_dirs s (butlast p)" "now_dirs s (tmp_dir h)" "tree s" "proper h s" "good_names h"
    using assms(2,5,6) by (simp_all add: sees_def proper_def)
  define info where "info = map_option (inodes s) (now_dir s p)"
  have stat: "attempt (stat p) h s = (Done info, bump s)"
    unfolding info_def by (cases "now_dir s p") (simp_all add: io_defs syscall_healthy [OF assms(1)])
  have mk: "mkdirAllSynced (butlast p) h (bump s) = (Done (), bump (bump (bump s)))"
    using mkdir_nothing [of h "bump s" "butlast p"] assms(1) dirs by (simp add: tree_def)
  let ?s = "bump (bump (bump s))"
  define perm' where "perm' = (case info of None \<Rightarrow> perm | Some n \<Rightarrow> i_mode n)"
  define b where "b = map_option i_mtime info"
  have sib: "\<exists>r s'. safeWriteSibling p c perm' b h s1 = (Done r, s')" if "now_dirs s1 (butlast p)" for s1
    by (rule safeWriteSibling_succeeds [OF assms(1) that assms(4)])
  obtain r s1 where stg: "stage p c perm' h ?s = (Done r, s1)"
    using stage_succeeds [OF assms(1), of ?s p c perm'] dirs by (auto simp: proper_def)
  then have "renamed_view h E v p c r s1" using tripleD [OF vt_stage [OF assms(3)] st stg] by simp
  then have "now_dirs s1 (butlast p)" using assms(5) by (cases r) (auto simp: renamed_view_def sees_def)
  then obtain r2 s2 where sib1: "safeWriteSibling p c perm' b h s1 = (Done r2, s2)" using sib by blast
  obtain r3 s3 where sib2: "safeWriteSibling p c perm' b h ?s = (Done r3, s3)" using sib [of ?s] dirs by auto
  have pub: "\<exists>s'. syncDirBestEffort d h s1 = (Done (), s')" if "now_dirs s1 d" for d
    using that by (cases "fsync_on h") (auto simp: io_defs syscall_healthy [OF assms(1)])
  show ?thesis
    using stg sib1 sib2 pub [OF \<open>now_dirs s1 (butlast p)\<close>]
    by (cases r; cases "butlast p \<in> set (cross_known ?s)")
      (auto simp: safeWrite_def Let_def bind_io_def stat mk crossDeviceKnown_def return_io_def
        simp flip: perm'_def b_def)
qed

lemma steady_sync_parents: "steady (sync_parents ds)"
  by (induction ds) (simp_all add: steady_rules steady_syncs)

lemma steady_missingAncestors: "steady (missingAncestors d ds)"
proof (induction d ds rule: missingAncestors.induct)
  case (1 d ds)
  then show ?case
    by (subst missingAncestors.simps) (auto intro!: steady_rules split: option.split)
qed

lemma steady_snapshot: "steady (stagedSnapshot p)"
  unfolding stagedSnapshot_def by (intro steady_rules)

lemma steady_safeWriteSibling: "steady (safeWriteSibling p c perm b)"
  unfolding safeWriteSibling_def Let_def by (intro steady_rules steady_syncs steady_snapshot)

lemma steady_stage: "steady (stage p (c :: 'c) perm)"
proof -
  have "steady (\<lambda>h :: 'c host. create_temp (tmp_dir h) h)"
    unfolding steady_def
  proof (intro allI)
    fix h :: "'c host" and s :: "'c os"
    show "fst (create_temp (tmp_dir h) h s) = Crashed \<or>
        create_temp (tmp_dir h) h s = create_temp (tmp_dir (calm_host h)) (calm_host h) s"
      using steady_calls(3) [of "tmp_dir h"] unfolding steady_def calm_host_simps by blast
  qed
  then show ?thesis
    unfolding stage_def
    by (rule steady_bind, clarify) (auto intro!: steady_rules steady_syncs steady_snapshot)
qed

lemma steady_safeWrite: "steady (safeWrite p c perm)"
  unfolding safeWrite_def Let_def mkdirAllSynced_def
  by (auto intro!: steady_rules steady_syncs steady_safeWriteSibling steady_stage steady_missingAncestors steady_sync_parents
      split: renamed.split)

lemma vt_safeWrite_sure:
  assumes "no_faults h" "p \<notin> junk h" "good_names h" "p \<noteq> []" "butlast p \<in> E" "tmp_dir h \<in> E"
  shows "triple h (sees h E v) (safeWrite p c perm) (\<lambda>_. sees h E (v(p \<mapsto> c))) (\<lambda>_. False) (either h E v p c)"
proof (rule triple_no_failure [OF vt_safeWrite [OF assms(2,3)]])
  fix s e assume "sees h E v s"
  then have "\<exists>r s'. safeWrite p c perm (calm_host h) s = (Done r, s')"
    using safeWrite_succeeds [OF healthy_calm [OF assms(1)], of E v s p] assms(2,4-6) by simp
  then show "fst (safeWrite p c perm h s) \<noteq> Fail e"
    by (intro no_failure [OF steady_safeWrite]) blast
qed

end
