(* ===== verification/Plumb_TxLog.thy ===== *)
theory Plumb_TxLog
  imports Plumb_SafeWrite "HOL-Library.Char_ord" "HOL-Library.List_Lexorder"
begin

text \<open>
  The write-ahead log of \<open>transaction_apply\<close> (\<open>internal/tools/txlog\<close>): a directory per
  transaction with the content of each file before its write and a manifest of them, and the
  scan that rolls back the logs a daemon that died left behind.

  A manifest file is kept as the record its JSON stands for; anything else is text, which does
  not parse. Paths in a manifest are the strings it holds. What symbolic links and hard links
  would add is asked of the environment of the replay.
\<close>

section \<open>Data\<close>

record op_meta =
  op_n :: int
  op_path :: string
  op_perm :: "32 word"
  op_snapshotted :: bool

record tx_manifest =
  tx_id :: string
  tx_started :: "int option"
  tx_workspace :: path
  tx_call :: string
  tx_ops :: "op_meta list"

datatype tx_content = Text string | Manifest tx_manifest

text \<open>A log of no directory is the no-op log.\<close>

record tx_log =
  log_dir :: "path option"
  log_manifest :: tx_manifest
  log_n :: nat

type_synonym 'a tx_io = "(tx_content, 'a) io"

definition maxSnapSize :: nat where
  "maxSnapSize = 10485760"

definition no_manifest :: tx_manifest where
  "no_manifest = \<lparr>tx_id = [], tx_started = None, tx_workspace = [], tx_call = [], tx_ops = []\<rparr>"

definition no_log :: tx_log where
  "no_log = \<lparr>log_dir = None, log_manifest = no_manifest, log_n = 0\<rparr>"

definition Itoa :: "int \<Rightarrow> string" where
  "Itoa i = (if i < 0 then CHR ''-'' # itoa (nat (- i)) else itoa (nat i))"

definition newID :: "int \<Rightarrow> nat \<Rightarrow> string" where
  "newID nanos count = Itoa nanos @ ''-'' @ itoa count"

definition manifest_path :: "path \<Rightarrow> path" where
  "manifest_path d = d @ [''manifest.json'']"

definition snapshotPath :: "path \<Rightarrow> int \<Rightarrow> path" where
  "snapshotPath d n = d @ [Itoa n @ ''-before'']"

text \<open>\<open>filepath.Clean\<close> of a rooted path, and its components.\<close>

definition clean_step :: "string \<Rightarrow> string list \<Rightarrow> string list" where
  "clean_step c acc = (if c = [] \<or> c = ''.'' then acc else if c = ''..'' then tl acc else c # acc)"

definition path_of :: "string \<Rightarrow> path" where
  "path_of s = rev (fold clean_step (split_on (CHR ''/'') s) [])"

definition clean_rooted :: "string \<Rightarrow> string" where
  "clean_rooted s = CHR ''/'' # join_with ''/'' (path_of s)"

section \<open>Removing a directory tree\<close>

text \<open>\<open>os.RemoveAll\<close> of a directory of files: each name in the order the system lists them, then the directory.\<close>

fun remove_each :: "path \<Rightarrow> string list \<Rightarrow> ('c, bool) io" where
  "remove_each d [] = return_io True"
| "remove_each d (n # ns) =
     bind_io (attempt (remove (d @ [n]))) (\<lambda>r.
     bind_io (remove_each d ns) (\<lambda>ok. return_io (r \<noteq> None \<and> ok)))"

definition remove_all :: "path \<Rightarrow> ('c, unit) io" where
  "remove_all d =
     bind_io (read_names d) (\<lambda>ns.
     bind_io (remove_each d ns) (\<lambda>ok.
     if ok then remove_dir d else fail_io Io))"

section \<open>The log of a transaction\<close>

definition atomicWriteManifest :: "path \<Rightarrow> tx_manifest \<Rightarrow> unit tx_io" where
  "atomicWriteManifest p m = AtomicWrite p (Manifest m) 0"

definition writeManifest :: "path \<Rightarrow> tx_log \<Rightarrow> unit tx_io" where
  "writeManifest d l = atomicWriteManifest (manifest_path d) (log_manifest l)"

definition Begin :: "path option \<Rightarrow> string \<Rightarrow> nat \<Rightarrow> tx_log tx_io" where
  "Begin workspace callID count =
     (case workspace of
        None \<Rightarrow> return_io no_log
      | Some ws \<Rightarrow>
          bind_io (attempt (stat_dir (ws @ [''.plumb'']))) (\<lambda>r.
          if r = None then return_io no_log
          else
            bind_io now (\<lambda>t.
            let txID = newID t count; d = ws @ [''.plumb'', ''tx-log'', txID] in
            bind_io (mkdir_all d) (\<lambda>_.
            bind_io now (\<lambda>started.
            let l = \<lparr>log_dir = Some d,
                     log_manifest = \<lparr>tx_id = txID, tx_started = Some started, tx_workspace = ws, tx_call = callID, tx_ops = []\<rparr>,
                     log_n = 0\<rparr>
            in cleanup (remove_all d) (bind_io (writeManifest d l) (\<lambda>_. return_io l)))))))"

text \<open>\<open>Record\<close> returns the log and whether there was no error: the log changes in either case.\<close>

definition Record :: "tx_log \<Rightarrow> string \<Rightarrow> string \<Rightarrow> 32 word \<Rightarrow> (tx_log \<times> bool) tx_io" where
  "Record l p content perm =
     (case log_dir l of
        None \<Rightarrow> return_io (l, True)
      | Some d \<Rightarrow>
          let n = int (log_n l);
              l1 = l\<lparr>log_n := Suc (log_n l)\<rparr>;
              small = (length content \<le> maxSnapSize);
              l2 = l1\<lparr>log_manifest := (log_manifest l)\<lparr>tx_ops := tx_ops (log_manifest l) @
                        [\<lparr>op_n = n, op_path = p, op_perm = perm, op_snapshotted = small\<rparr>]\<rparr>\<rparr>;
              finish = bind_io (attempt (writeManifest d l2)) (\<lambda>r. return_io (l2, r \<noteq> None))
          in
          if small then
            bind_io (attempt (write_file (snapshotPath d n) (Text content) 384)) (\<lambda>r.
            if r = None then return_io (l1, False) else finish)
          else finish)"

definition Commit :: "tx_log \<Rightarrow> unit tx_io" where
  "Commit l = (case log_dir l of None \<Rightarrow> return_io () | Some d \<Rightarrow> best_effort (remove_all d))"

text \<open>The result says whether the file was restored, which is what the sink is told.\<close>

definition restoreOp :: "path \<Rightarrow> op_meta \<Rightarrow> 32 word \<Rightarrow> string \<Rightarrow> bool tx_io" where
  "restoreOp d op perm target =
     (if \<not> op_snapshotted op then return_io False
      else
        bind_io (attempt (read_file (snapshotPath d (op_n op)))) (\<lambda>r.
        case r of
          None \<Rightarrow> return_io False
        | Some content \<Rightarrow>
            bind_io (attempt (AtomicWrite (path_of target) content perm)) (\<lambda>w. return_io (w \<noteq> None))))"

section \<open>Replaying a log\<close>

text \<open>
  What the replay asks of the file system about links, and its boundary guard: the file a write
  to a path would modify, whether a snapshot is a symbolic link or has further hard links, and
  whether the log directory is the real one.
\<close>

record replay_env =
  replayTarget :: "string \<Rightarrow> string option"
  is_symlink :: "path \<Rightarrow> bool"
  multiply_linked :: "path \<Rightarrow> bool"
  real_log_dir :: "path \<Rightarrow> bool"
  path_guard :: "(string \<Rightarrow> bool) option"

fun rollback_ops :: "replay_env \<Rightarrow> path \<Rightarrow> op_meta list \<Rightarrow> unit tx_io" where
  "rollback_ops env d [] = return_io ()"
| "rollback_ops env d (op # ops) =
     bind_io (restoreOp d op (op_perm op) (case replayTarget env (op_path op) of Some t \<Rightarrow> t | None \<Rightarrow> op_path op)) (\<lambda>_.
     rollback_ops env d ops)"

definition Rollback :: "replay_env \<Rightarrow> tx_log \<Rightarrow> unit tx_io" where
  "Rollback env l =
     (case log_dir l of
        None \<Rightarrow> return_io ()
      | Some d \<Rightarrow>
          bind_io (rollback_ops env d (tx_ops (log_manifest l))) (\<lambda>_.
          best_effort (remove_all d)))"

definition admitReplayPath :: "replay_env \<Rightarrow> string \<Rightarrow> bool" where
  "admitReplayPath env p =
     (p \<noteq> [] \<and> has_prefix p ''/'' \<and> clean_rooted p = p \<and>
      (case path_guard env of None \<Rightarrow> False | Some g \<Rightarrow> g p))"

definition replayPerm :: "32 word" where
  "replayPerm = 384"

text \<open>The file one operation of an untrusted manifest may be restored to, if any.\<close>

definition replay_to :: "replay_env \<Rightarrow> path \<Rightarrow> op_meta \<Rightarrow> string option" where
  "replay_to env d op =
     (if \<not> admitReplayPath env (op_path op) then None
      else case replayTarget env (op_path op) of
          None \<Rightarrow> None
        | Some target \<Rightarrow>
            if target \<noteq> op_path op \<and> \<not> admitReplayPath env target then None
            else if is_symlink env (snapshotPath d (op_n op)) then None
            else if multiply_linked env (snapshotPath d (op_n op)) then None
            else Some target)"

fun replay_ops :: "replay_env \<Rightarrow> path \<Rightarrow> op_meta list \<Rightarrow> (string list) tx_io" where
  "replay_ops env d [] = return_io []"
| "replay_ops env d (op # ops) =
     (case replay_to env d op of
        None \<Rightarrow> replay_ops env d ops
      | Some target \<Rightarrow>
          bind_io (restoreOp d op replayPerm target) (\<lambda>r.
          bind_io (replay_ops env d ops) (\<lambda>rs. return_io (if r then target # rs else rs))))"

definition read_manifest :: "path \<Rightarrow> (tx_manifest option) tx_io" where
  "read_manifest d =
     bind_io (attempt (read_file (manifest_path d))) (\<lambda>r.
     return_io (case r of Some (Manifest m) \<Rightarrow> Some m | _ \<Rightarrow> None))"

definition replayOrphan :: "replay_env \<Rightarrow> path \<Rightarrow> (string list) tx_io" where
  "replayOrphan env d =
     bind_io (read_manifest d) (\<lambda>r. case r of None \<Rightarrow> return_io [] | Some m \<Rightarrow> replay_ops env d (tx_ops m))"

definition manifestStartedAt :: "path \<Rightarrow> (int option) tx_io" where
  "manifestStartedAt d =
     bind_io (read_manifest d) (\<lambda>r. return_io (case r of None \<Rightarrow> None | Some m \<Rightarrow> tx_started m))"

definition is_dir :: "path \<Rightarrow> bool tx_io" where
  "is_dir d h s = (Done (now_dirs s d), s)"

text \<open>The result is the list of the files restored.\<close>

fun scan_entries :: "replay_env \<Rightarrow> path \<Rightarrow> int \<Rightarrow> string list \<Rightarrow> (string list) tx_io" where
  "scan_entries env logDir cutoff [] = return_io []"
| "scan_entries env logDir cutoff (e # es) =
     bind_io (is_dir (logDir @ [e])) (\<lambda>dir.
     if \<not> dir then scan_entries env logDir cutoff es
     else
       bind_io (manifestStartedAt (logDir @ [e])) (\<lambda>started.
       if (case started of Some t \<Rightarrow> \<not> t < cutoff | None \<Rightarrow> False) then scan_entries env logDir cutoff es
       else
         bind_io (replayOrphan env (logDir @ [e])) (\<lambda>r.
         bind_io (best_effort (remove_all (logDir @ [e]))) (\<lambda>_.
         bind_io (scan_entries env logDir cutoff es) (\<lambda>rs. return_io (r @ rs))))))"

definition ScanRecording :: "replay_env \<Rightarrow> path option \<Rightarrow> int \<Rightarrow> (string list) tx_io" where
  "ScanRecording env workspace cutoff =
     (case workspace of
        None \<Rightarrow> return_io []
      | Some ws \<Rightarrow>
          let logDir = ws @ [''.plumb'', ''tx-log''] in
          bind_io (attempt (stat_dir logDir)) (\<lambda>r.
          if r = None then return_io []
          else if \<not> real_log_dir env logDir then return_io []
          else
            bind_io (attempt (read_names logDir)) (\<lambda>entries.
            case entries of
              None \<Rightarrow> return_io []
            | Some es \<Rightarrow> scan_entries env logDir cutoff (sort es))))"

end
