(* ===== verification/Plumb_TxLog_Correct.thy ===== *)
theory Plumb_TxLog_Correct
  imports Plumb_View Plumb_TxLog
begin

text \<open>
  Recovery from the log. What the files and the log hold is recoverable when every file of the
  transaction has its old content or a snapshot of it that the manifest names; every step of a
  transaction, and of a recovery, keeps that, and a recovery that runs to its end restores all.
\<close>

section \<open>Names\<close>

lemma Itoa_inj: "Itoa i = Itoa j \<Longrightarrow> i = j"
proof -
  have dig: "CHR ''-'' \<notin> set (itoa n)" for n
  proof
    assume "CHR ''-'' \<in> set (itoa n)"
    then have "is_digit (CHR ''-'')" using itoa_digits [of n] by (rule bspec [rotated])
    moreover have "\<not> is_digit (CHR ''-'')" by code_simp
    ultimately show False by blast
  qed
  have inj: "m = n" if "itoa m = itoa n" for m n
  proof -
    have "int m = int n" using that digits_val_itoa by metis
    then show ?thesis by simp
  qed
  assume eq: "Itoa i = Itoa j"
  show ?thesis
  proof (cases "i < 0"; cases "j < 0")
    assume "i < 0" "j < 0"
    then show ?thesis using eq inj [of "nat (- i)" "nat (- j)"] by (simp add: Itoa_def)
  next
    assume "i < 0" "\<not> j < 0"
    then have "CHR ''-'' \<in> set (itoa (nat j))" using eq [symmetric] by (simp add: Itoa_def)
    then show ?thesis using dig by blast
  next
    assume "\<not> i < 0" "j < 0"
    then have "CHR ''-'' \<in> set (itoa (nat i))" using eq by (simp add: Itoa_def)
    then show ?thesis using dig by blast
  next
    assume "\<not> i < 0" "\<not> j < 0"
    then show ?thesis using eq inj [of "nat i" "nat j"] by (simp add: Itoa_def)
  qed
qed

lemma snapshotPath_inj [simp]: "snapshotPath d i = snapshotPath d j \<longleftrightarrow> i = j"
  by (auto simp: snapshotPath_def dest: Itoa_inj)

lemma manifest_not_snapshot [simp]: "manifest_path d \<noteq> snapshotPath d n" "snapshotPath d n \<noteq> manifest_path d"
proof -
  have "last (Itoa n @ ''-before'') \<noteq> last ''manifest.json''" by (simp add: last_append)
  then show "manifest_path d \<noteq> snapshotPath d n" by (auto simp: manifest_path_def snapshotPath_def)
  then show "snapshotPath d n \<noteq> manifest_path d" by metis
qed

lemma butlast_log_names [simp]: "butlast (manifest_path d) = d" "butlast (snapshotPath d n) = d"
  by (simp_all add: manifest_path_def snapshotPath_def)

text \<open>The names of temporary files are not those of the log.\<close>

definition log_names :: "'c host \<Rightarrow> bool" where
  "log_names h = (\<forall>k. temp_name h k \<noteq> ''manifest.json'' \<and> \<not> has_suffix (temp_name h k) ''-before'')"

lemma log_not_junk:
  assumes "log_names h"
  shows "manifest_path d \<notin> junk h" "snapshotPath d n \<notin> junk h"
proof -
  have "\<not> has_suffix ''manifest.json'' ''.plumb.tmp''" by code_simp
  moreover have "\<not> has_suffix (Itoa n @ ''-before'') ''.plumb.tmp''"
    by (auto simp: has_suffix_iff append_eq_append_conv2 append_eq_Cons_conv Cons_eq_append_conv)
  ultimately show "manifest_path d \<notin> junk h" "snapshotPath d n \<notin> junk h"
    using assms unfolding log_names_def
    by (auto simp: junk_def is_temp_def manifest_path_def snapshotPath_def) (metis has_suffix_iff)+
qed

section \<open>Recoverable views\<close>

text \<open>The old content of a file is in the snapshot of an operation of the manifest.\<close>

definition secured :: "path \<Rightarrow> (path \<Rightarrow> tx_content option) \<Rightarrow> string \<Rightarrow> string \<Rightarrow> bool" where
  "secured d v p b =
     (\<exists>M op. v (manifest_path d) = Some (Manifest M) \<and> op \<in> set (tx_ops M) \<and> op_path op = p \<and>
        op_snapshotted op \<and> v (snapshotPath d (op_n op)) = Some (Text b))"

text \<open>Every snapshot there is for an operation of the manifest is the old content of its file.\<close>

definition snapshots_right :: "path \<Rightarrow> (string \<rightharpoonup> string) \<Rightarrow> op_meta list \<Rightarrow> (path \<Rightarrow> tx_content option) \<Rightarrow> bool" where
  "snapshots_right d B ops v =
     (\<forall>op c. op \<in> set ops \<longrightarrow> op_snapshotted op \<longrightarrow> v (snapshotPath d (op_n op)) = Some c \<longrightarrow>
        (\<exists>b. B (op_path op) = Some b \<and> c = Text b))"

text \<open>\<open>L\<close> is the directory of the logs, \<open>D\<close> the names of those that are still needed.\<close>

definition recoverable :: "path \<Rightarrow> string set \<Rightarrow> (string \<rightharpoonup> string) \<Rightarrow> (path \<Rightarrow> tx_content option) \<Rightarrow> bool" where
  "recoverable L D B v =
     ((\<forall>p b. B p = Some b \<longrightarrow> v (path_of p) = Some (Text b) \<or> (\<exists>e \<in> D. secured (L @ [e]) v p b)) \<and>
      (\<forall>e M. v (manifest_path (L @ [e])) = Some (Manifest M) \<longrightarrow> snapshots_right (L @ [e]) B (tx_ops M) v))"

definition all_old :: "(string \<rightharpoonup> string) \<Rightarrow> (path \<Rightarrow> tx_content option) \<Rightarrow> bool" where
  "all_old B v = (\<forall>p b. B p = Some b \<longrightarrow> v (path_of p) = Some (Text b))"

lemma recoverable_none: "recoverable L {} B v \<Longrightarrow> all_old B v"
  by (simp add: recoverable_def all_old_def)

lemma recoverable_right:
  "recoverable L D B v \<Longrightarrow> v (manifest_path (L @ [e])) = Some (Manifest M) \<Longrightarrow>
     snapshots_right (L @ [e]) B (tx_ops M) v"
  by (simp add: recoverable_def)

text \<open>
  The files of the transaction: different strings name different files, none of which is a
  staging name or lies below the directory of the logs.
\<close>

definition tx_files :: "'c host \<Rightarrow> path \<Rightarrow> (string \<rightharpoonup> string) \<Rightarrow> bool" where
  "tx_files h L B =
     (\<forall>p b. B p = Some b \<longrightarrow> path_of p \<notin> junk h \<and> path_of p \<noteq> [] \<and> take (length L) (path_of p) \<noteq> L \<and>
        (\<forall>q c. B q = Some c \<longrightarrow> path_of p = path_of q \<longrightarrow> p = q))"

lemma file_not_log:
  assumes "tx_files h L B" "B p = Some b"
  shows "path_of p \<noteq> manifest_path (L @ [e])" "path_of p \<noteq> snapshotPath (L @ [e]) n" "path_of p \<noteq> L @ [e, f]"
    "manifest_path (L @ [e]) \<noteq> path_of p" "snapshotPath (L @ [e]) n \<noteq> path_of p" "L @ [e, f] \<noteq> path_of p"
proof -
  have "take (length L) (path_of p) \<noteq> L" using assms unfolding tx_files_def by blast
  then have "path_of p \<noteq> L @ x" for x by auto
  then show "path_of p \<noteq> manifest_path (L @ [e])" "path_of p \<noteq> snapshotPath (L @ [e]) n" "path_of p \<noteq> L @ [e, f]"
    "manifest_path (L @ [e]) \<noteq> path_of p" "snapshotPath (L @ [e]) n \<noteq> path_of p" "L @ [e, f] \<noteq> path_of p"
    by (simp_all add: manifest_path_def snapshotPath_def) metis+
qed

lemma secured_file:
  assumes "tx_files h L B" "B p = Some b"
  shows "secured (L @ [e]) (v(path_of p := x)) q c = secured (L @ [e]) v q c"
  using file_not_log [OF assms] by (simp add: secured_def)

lemma snapshots_right_file:
  assumes "tx_files h L B" "B p = Some b"
  shows "snapshots_right (L @ [e]) B ops (v(path_of p := x)) = snapshots_right (L @ [e]) B ops v"
  using file_not_log [OF assms] by (simp add: snapshots_right_def)

lemma recoverable_file:
  assumes "tx_files h L B" "B p = Some b" "recoverable L D B v" "x = Some (Text b) \<or> (\<exists>e \<in> D. secured (L @ [e]) v p b)"
  shows "recoverable L D B (v(path_of p := x))"
  unfolding recoverable_def
proof (intro conjI allI impI)
  fix q c assume q: "B q = Some c"
  show "(v(path_of p := x)) (path_of q) = Some (Text c) \<or> (\<exists>e \<in> D. secured (L @ [e]) (v(path_of p := x)) q c)"
  proof (cases "path_of q = path_of p")
    case True
    then have "q = p" using assms(1,2) q unfolding tx_files_def by blast
    then show ?thesis using assms(2,4) q secured_file [OF assms(1,2)] by auto
  next
    case False
    then show ?thesis using assms(3) q secured_file [OF assms(1,2)] by (auto simp: recoverable_def)
  qed
next
  fix e M assume "(v(path_of p := x)) (manifest_path (L @ [e])) = Some (Manifest M)"
  then have "v (manifest_path (L @ [e])) = Some (Manifest M)" using file_not_log [OF assms(1,2)] by simp
  then show "snapshots_right (L @ [e]) B (tx_ops M) (v(path_of p := x))"
    using assms(3) snapshots_right_file [OF assms(1,2)] by (simp add: recoverable_def)
qed

lemma snapshotPath_log [simp]:
  "snapshotPath (L @ [e]) i = snapshotPath (L @ [f]) j \<longleftrightarrow> e = f \<and> i = j"
  "manifest_path (L @ [e]) = manifest_path (L @ [f]) \<longleftrightarrow> e = f"
  "manifest_path (L @ [e]) \<noteq> snapshotPath (L @ [f]) j" "snapshotPath (L @ [f]) j \<noteq> manifest_path (L @ [e])"
proof -
  have *: "snapshotPath (L @ [e]) i = snapshotPath (L @ [f]) j \<Longrightarrow> e = f" for i j by (simp add: snapshotPath_def)
  then show "snapshotPath (L @ [e]) i = snapshotPath (L @ [f]) j \<longleftrightarrow> e = f \<and> i = j"
    using snapshotPath_inj by metis
  show "manifest_path (L @ [e]) = manifest_path (L @ [f]) \<longleftrightarrow> e = f" by (auto simp: manifest_path_def)
  have "last (manifest_path (L @ [e])) \<noteq> last (snapshotPath (L @ [f]) j)"
    using manifest_not_snapshot [of "[]" j] by (simp add: manifest_path_def snapshotPath_def)
  then show "manifest_path (L @ [e]) \<noteq> snapshotPath (L @ [f]) j" "snapshotPath (L @ [f]) j \<noteq> manifest_path (L @ [e])"
    by metis+
qed

lemma recoverable_snapshot:
  assumes "tx_files h L B" "recoverable L D B v"
    and "\<And>M op. v (manifest_path (L @ [e])) = Some (Manifest M) \<Longrightarrow> op \<in> set (tx_ops M) \<Longrightarrow> op_n op \<noteq> n"
  shows "recoverable L D B (v(snapshotPath (L @ [e]) n := x))"
  unfolding recoverable_def
proof (intro conjI allI impI)
  fix q c assume q: "B q = Some c"
  have "secured (L @ [f]) (v(snapshotPath (L @ [e]) n := x)) q c" if s: "secured (L @ [f]) v q c" for f
  proof -
    obtain M op where m: "v (manifest_path (L @ [f])) = Some (Manifest M)" "op \<in> set (tx_ops M)" "op_path op = q"
      "op_snapshotted op" "v (snapshotPath (L @ [f]) (op_n op)) = Some (Text c)" using s unfolding secured_def by blast
    then have "f = e \<Longrightarrow> op_n op \<noteq> n" using assms(3) by blast
    then show ?thesis using m unfolding secured_def by (intro exI [of _ M] exI [of _ op]) auto
  qed
  then show "(v(snapshotPath (L @ [e]) n := x)) (path_of q) = Some (Text c) \<or>
      (\<exists>f \<in> D. secured (L @ [f]) (v(snapshotPath (L @ [e]) n := x)) q c)"
    using assms(2) q file_not_log(2) [OF assms(1) q] unfolding recoverable_def by (metis fun_upd_other)
next
  fix f M assume "(v(snapshotPath (L @ [e]) n := x)) (manifest_path (L @ [f])) = Some (Manifest M)"
  then have m: "v (manifest_path (L @ [f])) = Some (Manifest M)" by simp
  then show "snapshots_right (L @ [f]) B (tx_ops M) (v(snapshotPath (L @ [e]) n := x))"
    using assms(2) assms(3) [of M] by (auto simp: recoverable_def snapshots_right_def)
qed

lemma recoverable_manifest:
  assumes "tx_files h L B" "recoverable L D B v" "e \<in> D" "snapshots_right (L @ [e]) B (tx_ops M) v"
    and "\<And>p b. B p = Some b \<Longrightarrow> secured (L @ [e]) v p b \<Longrightarrow> v (path_of p) = Some (Text b) \<or>
       (\<exists>op \<in> set (tx_ops M). op_path op = p \<and> op_snapshotted op \<and> v (snapshotPath (L @ [e]) (op_n op)) = Some (Text b))"
  shows "recoverable L D B (v(manifest_path (L @ [e]) \<mapsto> Manifest M))"
  unfolding recoverable_def
proof (intro conjI allI impI)
  let ?v = "v(manifest_path (L @ [e]) \<mapsto> Manifest M)"
  fix q c assume q: "B q = Some c"
  have other: "f \<noteq> e \<Longrightarrow> secured (L @ [f]) v q c \<Longrightarrow> secured (L @ [f]) ?v q c" for f by (auto simp: secured_def)
  have this_one: "secured (L @ [e]) v q c \<Longrightarrow> ?v (path_of q) = Some (Text c) \<or> secured (L @ [e]) ?v q c"
    using assms(5) [OF q] file_not_log [OF assms(1) q] by (auto simp: secured_def)
  show "?v (path_of q) = Some (Text c) \<or> (\<exists>f \<in> D. secured (L @ [f]) ?v q c)"
    using assms(2) q other this_one file_not_log [OF assms(1) q] unfolding recoverable_def
    by (metis fun_upd_other)
next
  fix f M' assume "(v(manifest_path (L @ [e]) \<mapsto> Manifest M)) (manifest_path (L @ [f])) = Some (Manifest M')"
  then show "snapshots_right (L @ [f]) B (tx_ops M') (v(manifest_path (L @ [e]) \<mapsto> Manifest M))"
    using assms(2,4) by (auto simp: snapshots_right_def recoverable_def split: if_splits)
qed

lemma recoverable_drop:
  assumes "recoverable L D B v" "\<And>p b. B p = Some b \<Longrightarrow> secured (L @ [e]) v p b \<Longrightarrow> v (path_of p) = Some (Text b)"
  shows "recoverable L (D - {e}) B v"
  using assms unfolding recoverable_def by (metis Diff_iff singletonD)

lemma recoverable_remove:
  assumes "tx_files h L B" "recoverable L D B v" "e \<notin> D"
  shows "recoverable L D B (v(L @ [e, n] := None))"
  unfolding recoverable_def
proof (intro conjI allI impI)
  let ?v = "v(L @ [e, n] := None)"
  fix q c assume q: "B q = Some c"
  have "secured (L @ [f]) v q c \<Longrightarrow> secured (L @ [f]) ?v q c" if "f \<in> D" for f
    using that assms(3) by (auto simp: secured_def manifest_path_def snapshotPath_def)
  then show "?v (path_of q) = Some (Text c) \<or> (\<exists>f \<in> D. secured (L @ [f]) ?v q c)"
    using assms(2) q file_not_log(3) [OF assms(1) q] unfolding recoverable_def by (metis fun_upd_other)
next
  fix f M assume "(v(L @ [e, n] := None)) (manifest_path (L @ [f])) = Some (Manifest M)"
  then show "snapshots_right (L @ [f]) B (tx_ops M) (v(L @ [e, n] := None))"
    using assms(2) by (auto simp: recoverable_def snapshots_right_def split: if_splits)
qed

section \<open>Invariants of the view\<close>

definition holds :: "'c host \<Rightarrow> path set \<Rightarrow> ((path \<Rightarrow> 'c option) \<Rightarrow> bool) \<Rightarrow> 'c os \<Rightarrow> bool" where
  "holds h E Q s = (\<exists>v. sees h E v s \<and> Q v)"

lemma holdsI: "sees h E v s \<Longrightarrow> Q v \<Longrightarrow> holds h E Q s"
  by (auto simp: holds_def)

lemma holds_imp: "holds h E Q s \<Longrightarrow> (\<And>v. Q v \<Longrightarrow> Q' v) \<Longrightarrow> holds h E Q' s"
  by (auto simp: holds_def)

lemma triple_holds:
  assumes "\<And>v. Q v \<Longrightarrow> triple h (sees h E v) m R F C"
  shows "triple h (holds h E Q) m R F C"
proof -
  show ?thesis
    unfolding triple_def holds_def
  proof (intro allI impI, elim exE conjE)
    fix s v assume "sees h E v s" "Q v"
    then show "case m h s of (Done a, s') \<Rightarrow> R a s' | (Fail e, s') \<Rightarrow> F s' | (Crashed, s') \<Rightarrow> C s'"
      using assms [of v] by (simp add: triple_def)
  qed
qed

abbreviation keeps :: "'c host \<Rightarrow> path set \<Rightarrow> ((path \<Rightarrow> 'c option) \<Rightarrow> bool) \<Rightarrow> ('c, 'a) io \<Rightarrow> bool" where
  "keeps h E Q m \<equiv> triple h (holds h E Q) m (\<lambda>_. holds h E Q) (holds h E Q) (holds h E Q)"

lemma keeps_unmoved:
  assumes "\<And>v. unmoved h E v m"
  shows "keeps h E Q m"
proof (rule triple_holds)
  fix v assume "Q v"
  then show "triple h (sees h E v) m (\<lambda>_. holds h E Q) (holds h E Q) (holds h E Q)"
    by (intro triple_weaken [OF assms [of v]]) (auto intro: holdsI)
qed

lemma keeps_attempt: "keeps h E Q m \<Longrightarrow> keeps h E Q (attempt m)"
  by (rule triple_attempt)

lemma keeps_best_effort: "keeps h E Q m \<Longrightarrow> keeps h E Q (best_effort m)"
  by (rule triple_best_effort)

lemma keeps_bind: "keeps h E Q m \<Longrightarrow> (\<And>a. keeps h E Q (k a)) \<Longrightarrow> keeps h E Q (bind_io m k)"
  by (rule triple_bind)

lemma keeps_return: "keeps h E Q (return_io a)" "keeps h E Q (fail_io e)"
  by (auto intro: triple_return triple_fail)

lemma keeps_remove:
  assumes "\<And>v. Q v \<Longrightarrow> Q (v(q := None))"
  shows "keeps h E Q (remove q)"
  by (rule triple_holds, rule triple_weaken [OF vt_remove]) (auto intro: holdsI assms)

lemma keeps_remove_dir:
  assumes "d \<noteq> []" "\<And>e. e \<in> E \<Longrightarrow> take (length d) e \<noteq> d"
  shows "keeps h E Q (remove_dir d)"
  by (rule keeps_unmoved, rule vt_remove_dir [OF assms])

lemma keeps_remove_each:
  assumes "\<And>v n. Q v \<Longrightarrow> Q (v(d @ [n] := None))"
  shows "keeps h E Q (remove_each d ns)"
  by (induction ns) (auto intro!: keeps_return keeps_bind keeps_attempt keeps_remove assms)

lemma keeps_remove_all:
  assumes "\<And>v n. Q v \<Longrightarrow> Q (v(d @ [n] := None))" "d \<noteq> []" "\<And>e. e \<in> E \<Longrightarrow> take (length d) e \<noteq> d"
  shows "keeps h E Q (remove_all d)"
  unfolding remove_all_def
  by (rule keeps_bind [OF keeps_unmoved [OF vt_read_names]], rule keeps_bind [OF keeps_remove_each],
      rule assms(1), assumption, rule triple_if, rule keeps_remove_dir [OF assms(2,3)], assumption,
      rule keeps_return)

section \<open>Replaying\<close>

lemma keeps_restoreOp:
  assumes "log_names h"
    and "\<And>v c. Q v \<Longrightarrow> op_snapshotted op \<Longrightarrow> v (snapshotPath d (op_n op)) = Some c \<Longrightarrow>
      path_of t \<notin> junk h \<and> Q (v(path_of t \<mapsto> c))"
  shows "keeps h E Q (restoreOp d op perm t)"
proof (rule triple_holds)
  fix v assume Q: "Q v"
  show "triple h (sees h E v) (restoreOp d op perm t) (\<lambda>_. holds h E Q) (holds h E Q) (holds h E Q)"
    unfolding restoreOp_def
  proof (rule triple_if)
    show "triple h (sees h E v) (return_io False) (\<lambda>_. holds h E Q) (holds h E Q) (holds h E Q)"
      by (rule triple_return) (auto intro: holdsI Q)
    assume "\<not> \<not> op_snapshotted op"
    then have sn: "op_snapshotted op" by simp
    have rd: "triple h (sees h E v) (attempt (read_file (snapshotPath d (op_n op))))
        (\<lambda>r s. (\<forall>c. r = Some c \<longrightarrow> v (snapshotPath d (op_n op)) = Some c) \<and> sees h E v s) (holds h E Q) (holds h E Q)"
      by (rule triple_attempt, rule triple_weaken [OF vt_read_file [OF log_not_junk(2) [OF assms(1)]]])
        (auto intro: holdsI Q)
    show "triple h (sees h E v)
        (bind_io (attempt (read_file (snapshotPath d (op_n op))))
          (\<lambda>r. case r of None \<Rightarrow> return_io False
            | Some content \<Rightarrow> bind_io (attempt (AtomicWrite (path_of t) content perm)) (\<lambda>w. return_io (w \<noteq> None))))
        (\<lambda>_. holds h E Q) (holds h E Q) (holds h E Q)"
    proof (rule triple_bind [OF rd], rule triple_pure)
      fix r assume r: "\<forall>c. r = Some c \<longrightarrow> v (snapshotPath d (op_n op)) = Some c"
      show "triple h (sees h E v)
          (case r of None \<Rightarrow> return_io False
            | Some content \<Rightarrow> bind_io (attempt (AtomicWrite (path_of t) content perm)) (\<lambda>w. return_io (w \<noteq> None)))
          (\<lambda>_. holds h E Q) (holds h E Q) (holds h E Q)"
      proof (cases r)
        case None
        then show ?thesis by simp (rule triple_return, auto intro: holdsI Q)
      next
        case (Some c)
        then have c: "path_of t \<notin> junk h" "Q (v(path_of t \<mapsto> c))" using assms(2) [OF Q sn] r by auto
        have "triple h (sees h E v) (attempt (AtomicWrite (path_of t) c perm)) (\<lambda>_. holds h E Q) (holds h E Q) (holds h E Q)"
          by (rule triple_attempt, rule triple_weaken [OF vt_AtomicWrite [OF c(1)]])
            (auto intro: holdsI Q c simp: either_def)
        then show ?thesis by (simp add: Some) (rule triple_bind, assumption, rule triple_return)
      qed
    qed
  qed
qed

lemma keeps_replay_ops:
  assumes "log_names h"
    and "\<And>v op t c. Q v \<Longrightarrow> op \<in> set ops \<Longrightarrow> replay_to env d op = Some t \<Longrightarrow> op_snapshotted op \<Longrightarrow>
      v (snapshotPath d (op_n op)) = Some c \<Longrightarrow> path_of t \<notin> junk h \<and> Q (v(path_of t \<mapsto> c))"
  shows "keeps h E Q (replay_ops env d ops)"
  using assms(2)
proof (induction ops)
  case Nil
  then show ?case by (simp add: keeps_return)
next
  case (Cons op ops)
  have rest: "keeps h E Q (replay_ops env d ops)" by (rule Cons.IH, rule Cons.prems) simp_all
  show ?case
  proof (cases "replay_to env d op")
    case (Some t)
    have "keeps h E Q (restoreOp d op replayPerm t)"
    proof (rule keeps_restoreOp [OF assms(1)])
      fix v c assume "Q v" "op_snapshotted op" "v (snapshotPath d (op_n op)) = Some c"
      then show "path_of t \<notin> junk h \<and> Q (v(path_of t \<mapsto> c))"
        by (intro Cons.prems [of v op]) (simp_all add: Some)
    qed
    then show ?thesis by (simp add: Some keeps_bind rest keeps_return)
  qed (simp add: rest)
qed


section \<open>What a recovery needs\<close>

lemma triple_both:
  assumes "triple h P m Q F C" "triple h P' m Q' F' C'"
  shows "triple h (\<lambda>s. P s \<and> P' s) m (\<lambda>a s. Q a s \<and> Q' a s) (\<lambda>s. F s \<and> F' s) (\<lambda>s. C s \<and> C' s)"
  using assms unfolding triple_def by (fastforce split: prod.splits res.splits)

lemma vt_read_sure:
  assumes "no_faults h" "p \<notin> junk h"
  shows "triple h (sees h E v) (attempt (read_file p)) (\<lambda>r s. r = v p \<and> sees h E v s) F (sees h E v)"
  unfolding triple_def
proof (intro allI impI)
  fix s assume s: "sees h E v s"
  then have r: "map_option (\<lambda>i. i_data (inodes s i)) (now_dir s p) = v p" using assms(2) by (simp add: sees_def reads_def)
  show "case attempt (read_file p) h s of (Done r, s') \<Rightarrow> r = v p \<and> sees h E v s' | (Fail e, s') \<Rightarrow> F s'
    | (Crashed, s') \<Rightarrow> sees h E v s'"
    using s r assms(1)
    by (cases "now_dir s p") (auto simp: attempt_def handle_def bind_io_def return_io_def read_file_def syscall_def no_faults_def)
qed

text \<open>What a restored operation makes of a view.\<close>

definition restore_view :: "path \<Rightarrow> op_meta \<Rightarrow> string \<Rightarrow> (path \<Rightarrow> tx_content option) \<Rightarrow> path \<Rightarrow> tx_content option" where
  "restore_view d op t v =
     (if op_snapshotted op then case v (snapshotPath d (op_n op)) of None \<Rightarrow> v | Some c \<Rightarrow> v(path_of t \<mapsto> c) else v)"

lemma vt_restoreOp_sure:
  assumes "no_faults h" "log_names h" "path_of t \<notin> junk h" "butlast (path_of t) \<in> E"
  shows "triple h (sees h E v) (restoreOp d op perm t) (\<lambda>_. sees h E (restore_view d op t v)) (\<lambda>_. False)
    (\<lambda>s. sees h E v s \<or> sees h E (restore_view d op t v) s)"
  unfolding restoreOp_def
proof (rule triple_if)
  assume "\<not> op_snapshotted op"
  then show "triple h (sees h E v) (return_io False) (\<lambda>_. sees h E (restore_view d op t v)) (\<lambda>_. False)
    (\<lambda>s. sees h E v s \<or> sees h E (restore_view d op t v) s)"
    by (intro triple_return) (simp add: restore_view_def)
next
  assume sn: "\<not> \<not> op_snapshotted op"
  let ?C = "\<lambda>s. sees h E v s \<or> sees h E (restore_view d op t v) s"
  have rd: "triple h (sees h E v) (attempt (read_file (snapshotPath d (op_n op))))
      (\<lambda>r s. r = v (snapshotPath d (op_n op)) \<and> sees h E v s) (\<lambda>_. False) ?C"
    by (rule triple_weaken [OF vt_read_sure [where F = "\<lambda>_. False", OF assms(1) log_not_junk(2) [OF assms(2)]]]) auto
  show "triple h (sees h E v)
      (bind_io (attempt (read_file (snapshotPath d (op_n op))))
        (\<lambda>r. case r of None \<Rightarrow> return_io False
          | Some content \<Rightarrow> bind_io (attempt (AtomicWrite (path_of t) content perm)) (\<lambda>w. return_io (w \<noteq> None))))
      (\<lambda>_. sees h E (restore_view d op t v)) (\<lambda>_. False) ?C"
  proof (rule triple_bind [OF rd], rule triple_pure)
    fix r assume r: "r = v (snapshotPath d (op_n op))"
    show "triple h (sees h E v)
        (case r of None \<Rightarrow> return_io False
          | Some content \<Rightarrow> bind_io (attempt (AtomicWrite (path_of t) content perm)) (\<lambda>w. return_io (w \<noteq> None)))
        (\<lambda>_. sees h E (restore_view d op t v)) (\<lambda>_. False) ?C"
    proof (cases r)
      case None
      with r sn have "restore_view d op t v = v" by (simp add: restore_view_def)
      then show ?thesis by (simp add: None triple_return)
    next
      case (Some c)
      with r sn have rv: "restore_view d op t v = v(path_of t \<mapsto> c)" by (simp add: restore_view_def flip: r)
      have "triple h (sees h E v) (attempt (AtomicWrite (path_of t) c perm)) (\<lambda>_. sees h E (restore_view d op t v))
          (\<lambda>_. False) ?C"
        by (rule triple_attempt, rule triple_weaken [OF vt_AtomicWrite_sure [OF assms(1,3,4)]]) (auto simp: rv either_def)
      then show ?thesis by (simp add: Some) (rule triple_bind, assumption, rule triple_return)
    qed
  qed
qed

text \<open>The files of these operations have the content of their snapshots.\<close>

definition restored :: "path \<Rightarrow> (string \<rightharpoonup> string) \<Rightarrow> op_meta list \<Rightarrow> (path \<Rightarrow> tx_content option) \<Rightarrow> bool" where
  "restored d B ops v =
     (\<forall>op b. op \<in> set ops \<longrightarrow> B (op_path op) = Some b \<longrightarrow> op_snapshotted op \<longrightarrow>
        v (snapshotPath d (op_n op)) = Some (Text b) \<longrightarrow> v (path_of (op_path op)) = Some (Text b))"

lemma restored_file:
  assumes "tx_files h L B" "B p = Some b" "restored (L @ [e]) B ops v"
  shows "restored (L @ [e]) B ops (v(path_of p \<mapsto> Text b))"
  unfolding restored_def
proof (intro allI impI)
  fix op c
  assume o: "op \<in> set ops" "B (op_path op) = Some c" "op_snapshotted op"
    "(v(path_of p \<mapsto> Text b)) (snapshotPath (L @ [e]) (op_n op)) = Some (Text c)"
  then have "v (snapshotPath (L @ [e]) (op_n op)) = Some (Text c)" using file_not_log [OF assms(1,2)] by simp
  then have "v (path_of (op_path op)) = Some (Text c)" using o assms(3) unfolding restored_def by blast
  moreover have "b = c" if "path_of (op_path op) = path_of p"
  proof -
    have "op_path op = p" using assms(1,2) o(2) that unfolding tx_files_def by blast
    then show ?thesis using assms(2) o(2) by simp
  qed
  ultimately show "(v(path_of p \<mapsto> Text b)) (path_of (op_path op)) = Some (Text c)" by auto
qed


text \<open>The files of the transaction may be replayed to themselves, and their directories exist.\<close>

definition replayable :: "'c host \<Rightarrow> replay_env \<Rightarrow> path set \<Rightarrow> (string \<rightharpoonup> string) \<Rightarrow> bool" where
  "replayable h env E B =
     ((\<forall>p b d op. B p = Some b \<longrightarrow> op_path op = p \<longrightarrow> replay_to env d op = Some p) \<and>
      (\<forall>p b. B p = Some b \<longrightarrow> butlast (path_of p) \<in> E))"

lemma restore_step:
  assumes "no_faults h" "log_names h" "tx_files h L B" "replayable h env E B"
    and right: "\<And>v. Q v \<Longrightarrow> snapshots_right (L @ [e]) B [op] v"
    and stable: "\<And>v p b. Q v \<Longrightarrow> B p = Some b \<Longrightarrow> Q (v(path_of p \<mapsto> Text b))"
    and t: "\<And>b. B (op_path op) = Some b \<Longrightarrow> t = op_path op"
  shows "triple h (holds h E Q) (restoreOp (L @ [e]) op perm t)
    (\<lambda>_. holds h E (\<lambda>v. Q v \<and> restored (L @ [e]) B [op] v)) (\<lambda>_. False) (holds h E Q)"
proof (rule triple_holds)
  fix v assume Q: "Q v"
  let ?R = "\<lambda>_. holds h E (\<lambda>v. Q v \<and> restored (L @ [e]) B [op] v)"
  show "triple h (sees h E v) (restoreOp (L @ [e]) op perm t) ?R (\<lambda>_. False) (holds h E Q)"
  proof (cases "\<exists>b. B (op_path op) = Some b")
    case True
    then obtain b where b: "B (op_path op) = Some b" by blast
    then have t': "t = op_path op" by (rule t)
    have "path_of t \<notin> junk h" "butlast (path_of t) \<in> E"
      using b assms(3,4) unfolding t' tx_files_def replayable_def by blast+
    note tr = vt_restoreOp_sure [OF assms(1,2) this, of v "L @ [e]" op perm]
    have "Q (restore_view (L @ [e]) op t v) \<and> restored (L @ [e]) B [op] (restore_view (L @ [e]) op t v)"
    proof (cases "op_snapshotted op \<and> v (snapshotPath (L @ [e]) (op_n op)) \<noteq> None")
      case True
      then obtain c where c: "v (snapshotPath (L @ [e]) (op_n op)) = Some c" by blast
      then have "c = Text b" using right [OF Q] True b unfolding snapshots_right_def by fastforce
      then have "restore_view (L @ [e]) op t v = v(path_of (op_path op) \<mapsto> Text b)"
        using True c by (simp add: restore_view_def t')
      then show ?thesis using stable [OF Q b] b by (simp add: restored_def)
    next
      case False
      then have "restore_view (L @ [e]) op t v = v" by (auto simp: restore_view_def)
      then show ?thesis using Q False by (auto simp: restored_def)
    qed
    then show ?thesis using Q by (intro triple_weaken [OF tr]) (auto simp: holds_def)
  next
    case False
    then have "op_snapshotted op \<Longrightarrow> v (snapshotPath (L @ [e]) (op_n op)) = None"
      using right [OF Q] unfolding snapshots_right_def by fastforce
    then have none: "restoreOp (L @ [e]) op perm t h s = (Done False, bump s) \<or>
        restoreOp (L @ [e]) op perm t h s = (Done False, s) \<or>
        restoreOp (L @ [e]) op perm t h s = (Crashed, s)" if "sees h E v s" for s
    proof -
      have "reads s (snapshotPath (L @ [e]) (op_n op)) = v (snapshotPath (L @ [e]) (op_n op))"
        using that log_not_junk(2) [OF assms(2)] by (simp add: sees_def)
      then have "op_snapshotted op \<Longrightarrow> now_dir s (snapshotPath (L @ [e]) (op_n op)) = None"
        using \<open>op_snapshotted op \<Longrightarrow> _\<close> by (simp add: reads_def)
      then show ?thesis using assms(1)
        by (cases "op_snapshotted op"; cases "crashes h (calls s)")
          (simp_all add: restoreOp_def return_io_def bind_io_def attempt_def handle_def read_file_def syscall_def no_faults_def)
    qed
    have q: "restored (L @ [e]) B [op] v" using False by (auto simp: restored_def)
    show ?thesis unfolding triple_def
    proof (intro allI impI)
      fix s assume s: "sees h E v s"
      have "?R a s" "?R a (bump s)" "holds h E Q s" for a :: bool using s Q q by (auto intro!: holdsI)
      then show "case restoreOp (L @ [e]) op perm t h s of (Done a, s') \<Rightarrow> ?R a s' | (Fail e, s') \<Rightarrow> False
        | (Crashed, s') \<Rightarrow> holds h E Q s'"
        using none [OF s] by auto
    qed
  qed
qed

lemma replay_all:
  assumes "no_faults h" "log_names h" "tx_files h L B" "replayable h env E B"
    and "\<And>v. Q v \<Longrightarrow> snapshots_right (L @ [e]) B ops v"
    and "\<And>v p b. Q v \<Longrightarrow> B p = Some b \<Longrightarrow> Q (v(path_of p \<mapsto> Text b))"
  shows "triple h (holds h E Q) (replay_ops env (L @ [e]) ops)
    (\<lambda>_. holds h E (\<lambda>v. Q v \<and> restored (L @ [e]) B ops v)) (\<lambda>_. False) (holds h E Q)"
  using assms(5,6)
proof (induction ops arbitrary: Q)
  case Nil
  then show ?case by (auto intro!: triple_return simp: holds_def restored_def)
next
  case (Cons op ops)
  have right: "snapshots_right (L @ [e]) B [op] v" "snapshots_right (L @ [e]) B ops v" if "Q v" for v
    using Cons.prems(1) [OF that] by (simp_all add: snapshots_right_def)
  let ?Q = "\<lambda>v. Q v \<and> restored (L @ [e]) B [op] v"
  have ih: "triple h (holds h E ?Q) (replay_ops env (L @ [e]) ops)
      (\<lambda>_. holds h E (\<lambda>v. ?Q v \<and> restored (L @ [e]) B ops v)) (\<lambda>_. False) (holds h E ?Q)"
    by (rule Cons.IH) (use right Cons.prems(2) restored_file [OF assms(3)] in blast)+
  have both: "?Q v \<and> restored (L @ [e]) B ops v \<Longrightarrow> Q v \<and> restored (L @ [e]) B (op # ops) v" for v
    by (auto simp: restored_def)
  have rest: "triple h (holds h E ?Q) (replay_ops env (L @ [e]) ops)
      (\<lambda>_. holds h E (\<lambda>v. Q v \<and> restored (L @ [e]) B (op # ops) v)) (\<lambda>_. False) (holds h E Q)"
    using ih by (rule triple_weaken) (use both in \<open>auto simp: holds_def\<close>)
  show ?case
  proof (cases "replay_to env (L @ [e]) op")
    case None
    then have "B (op_path op) = None" using assms(4) unfolding replayable_def by (metis option.distinct(1) option.exhaust)
    then have "restored (L @ [e]) B [op] v" for v by (simp add: restored_def)
    then show ?thesis using rest by (simp add: None)
  next
    case (Some t)
    have "triple h (holds h E Q) (restoreOp (L @ [e]) op replayPerm t) (\<lambda>_. holds h E ?Q) (\<lambda>_. False) (holds h E Q)"
    proof (rule restore_step [where Q = Q, OF assms(1-4)])
      show "t = op_path op" if "B (op_path op) = Some b" for b
        using that Some assms(4) unfolding replayable_def by (metis option.inject)
    qed (erule right(1), erule (1) Cons.prems(2))
    then show ?thesis
      by (simp add: Some) (rule triple_bind, assumption, rule triple_bind [OF rest], rule triple_return)
  qed
qed


section \<open>A recovery\<close>

text \<open>The logs on disk were begun before \<open>cutoff\<close>.\<close>

definition old_logs :: "path \<Rightarrow> int \<Rightarrow> (path \<Rightarrow> tx_content option) \<Rightarrow> bool" where
  "old_logs L cutoff v =
     (\<forall>e M t. v (manifest_path (L @ [e])) = Some (Manifest M) \<longrightarrow> tx_started M = Some t \<longrightarrow> t < cutoff)"

lemma old_logs_file: "tx_files h L B \<Longrightarrow> B p = Some b \<Longrightarrow> old_logs L cutoff v \<Longrightarrow> old_logs L cutoff (v(path_of p := x))"
  using file_not_log [of h L B p b] by (simp add: old_logs_def)

lemma old_logs_remove: "old_logs L cutoff v \<Longrightarrow> old_logs L cutoff (v(q := None))"
  by (simp add: old_logs_def)

text \<open>The state from which a recovery starts: the logs still needed have their directories.\<close>

definition log_dirs :: "path set \<Rightarrow> path \<Rightarrow> string set \<Rightarrow> path set" where
  "log_dirs E L D = E \<union> (\<lambda>e. L @ [e]) ` D"

abbreviation needed :: "tx_content host \<Rightarrow> path set \<Rightarrow> path \<Rightarrow> (string \<rightharpoonup> string) \<Rightarrow> int \<Rightarrow> string set \<Rightarrow> tx_content os \<Rightarrow> bool" where
  "needed h E L B cutoff D \<equiv> holds h (log_dirs E L D) (\<lambda>v. recoverable L D B v \<and> old_logs L cutoff v)"

definition recovers_from :: "tx_content host \<Rightarrow> path set \<Rightarrow> path \<Rightarrow> (string \<rightharpoonup> string) \<Rightarrow> int \<Rightarrow> string set \<Rightarrow> tx_content os \<Rightarrow> bool" where
  "recovers_from h E L B cutoff X s = (\<exists>D \<subseteq> X. needed h E L B cutoff D s)"

lemma recovers_fromI: "needed h E L B cutoff D s \<Longrightarrow> D \<subseteq> X \<Longrightarrow> recovers_from h E L B cutoff X s"
  by (auto simp: recovers_from_def)

lemma recovers_from_mono: "recovers_from h E L B cutoff X s \<Longrightarrow> X \<subseteq> Y \<Longrightarrow> recovers_from h E L B cutoff Y s"
  unfolding recovers_from_def by blast

lemma triple_recovers:
  assumes "\<And>D v. D \<subseteq> X \<Longrightarrow> recoverable L D B v \<Longrightarrow> old_logs L cutoff v \<Longrightarrow>
    triple h (sees h (log_dirs E L D) v) m R F C"
  shows "triple h (recovers_from h E L B cutoff X) m R F C"
  unfolding triple_def recovers_from_def holds_def
proof (intro allI impI, elim exE conjE)
  fix s D v assume "D \<subseteq> X" "sees h (log_dirs E L D) v s" "recoverable L D B v" "old_logs L cutoff v"
  then show "case m h s of (Done a, s') \<Rightarrow> R a s' | (Fail e, s') \<Rightarrow> F s' | (Crashed, s') \<Rightarrow> C s'"
    using assms [of D v] by (simp add: triple_def)
qed

lemma read_manifest_sure:
  assumes "no_faults h" "log_names h"
  shows "triple h (sees h E v) (read_manifest d)
    (\<lambda>r s. r = (case v (manifest_path d) of Some (Manifest m) \<Rightarrow> Some m | _ \<Rightarrow> None) \<and> sees h E v s) F (sees h E v)"
  unfolding read_manifest_def
  by (rule triple_bind [OF vt_read_sure [OF assms(1) log_not_junk(1) [OF assms(2)]]], rule triple_return) auto

lemma sure_bind_pure:
  assumes "triple h P m (\<lambda>r s. r = a \<and> P s) F C" "triple h P (k a) R F C"
  shows "triple h P (bind_io m k) R F C"
  by (rule triple_bind [OF assms(1)], rule triple_pure) (use assms(2) in simp)

lemma triple_best_effort_sure: "triple h P m (\<lambda>_. Q) Q C \<Longrightarrow> triple h P (best_effort m) (\<lambda>_. Q) (\<lambda>_. False) C"
  by (rule triple_best_effort)

definition recovery_setting :: "tx_content host \<Rightarrow> replay_env \<Rightarrow> path set \<Rightarrow> path \<Rightarrow> (string \<rightharpoonup> string) \<Rightarrow> bool" where
  "recovery_setting h env E L B =
     (no_faults h \<and> log_names h \<and> tx_files h L B \<and> replayable h env E B \<and> real_log_dir env L \<and>
      (\<forall>q \<in> E. take (length L) q = L \<longrightarrow> q = L))"

lemma recover_entry:
  assumes set: "recovery_setting h env E L B"
    and v: "recoverable L D B v" "old_logs L cutoff v"
  shows "triple h (sees h (log_dirs E L D) v) (replayOrphan env (L @ [e]))
    (\<lambda>_. needed h E L B cutoff (D - {e})) (\<lambda>_. False) (needed h E L B cutoff D)"
proof -
  have h: "no_faults h" "log_names h" "tx_files h L B" "replayable h env E B"
    using set by (simp_all add: recovery_setting_def)
  let ?D = "log_dirs E L D"
  have h4: "replayable h env ?D B" using h(4) by (auto simp: replayable_def log_dirs_def)
  have C: "sees h ?D v s \<Longrightarrow> needed h E L B cutoff D s" for s using v by (auto intro: holdsI)
  have sub: "sees h ?D w s \<Longrightarrow> sees h (log_dirs E L (D - {e})) w s" for w s
    by (erule sees_subset) (auto simp: log_dirs_def)
  let ?r = "case v (manifest_path (L @ [e])) of Some (Manifest m) \<Rightarrow> Some m | _ \<Rightarrow> None"
  have rest: "triple h (sees h ?D v) (case ?r of None \<Rightarrow> return_io [] | Some m \<Rightarrow> replay_ops env (L @ [e]) (tx_ops m))
      (\<lambda>_. needed h E L B cutoff (D - {e})) (\<lambda>_. False) (needed h E L B cutoff D)"
  proof (cases ?r)
    case None
    have "recoverable L (D - {e}) B v"
      by (rule recoverable_drop [OF v(1)]) (use None in \<open>auto simp: secured_def\<close>)
    then show ?thesis unfolding None option.case
      using v by (intro triple_return holdsI [OF sub] conjI)
  next
    case (Some M)
    then have M: "v (manifest_path (L @ [e])) = Some (Manifest M)" by (simp split: option.splits tx_content.splits)
    let ?Q = "\<lambda>w. recoverable L D B w \<and> old_logs L cutoff w \<and> w (manifest_path (L @ [e])) = Some (Manifest M)"
    have replayed: "triple h (holds h ?D ?Q) (replay_ops env (L @ [e]) (tx_ops M))
        (\<lambda>_. holds h ?D (\<lambda>w. ?Q w \<and> restored (L @ [e]) B (tx_ops M) w)) (\<lambda>_. False) (holds h ?D ?Q)"
    proof (rule replay_all [OF h(1-3) h4])
      show "?Q w \<Longrightarrow> snapshots_right (L @ [e]) B (tx_ops M) w" for w using recoverable_right by blast
      show "?Q (w(path_of p \<mapsto> Text b))" if "?Q w" "B p = Some b" for w p b
        using that recoverable_file [OF h(3) that(2), of D w "Some (Text b)"] old_logs_file [OF h(3) that(2)]
          file_not_log(4) [OF h(3) that(2)] by simp
    qed
    have "recoverable L (D - {e}) B w" if "?Q w" "restored (L @ [e]) B (tx_ops M) w" for w
    proof (rule recoverable_drop)
      show "recoverable L D B w" using that by blast
      fix p b assume "B p = Some b" "secured (L @ [e]) w p b"
      then show "w (path_of p) = Some (Text b)" using that unfolding secured_def restored_def by fastforce
    qed
    then have "needed h E L B cutoff (D - {e}) s"
      if "holds h ?D (\<lambda>w. ?Q w \<and> restored (L @ [e]) B (tx_ops M) w) s" for s
      using that unfolding holds_def by (blast intro: sub)
    note done' = this
    show ?thesis unfolding Some option.case
    proof (rule triple_weaken [OF replayed])
      show "sees h ?D v s \<Longrightarrow> holds h ?D ?Q s" for s using v M by (auto intro: holdsI)
      show "holds h ?D ?Q s \<Longrightarrow> needed h E L B cutoff D s" for s by (erule holds_imp) blast
    qed (erule done', assumption)
  qed
  have "triple h (sees h ?D v) (read_manifest (L @ [e])) (\<lambda>r s. r = ?r \<and> sees h ?D v s) (\<lambda>_. False)
      (needed h E L B cutoff D)"
    by (rule triple_weaken [OF read_manifest_sure [where F = "\<lambda>_. False", OF h(1,2)]]) (auto intro: C)
  then show ?thesis
    unfolding replayOrphan_def using rest by (rule sure_bind_pure)
qed

lemma recover_remove:
  assumes files: "tx_files h L B" and E: "\<forall>q \<in> E. take (length L) q = L \<longrightarrow> q = L" and D: "e \<notin> D"
    and P: "\<And>v q. P v \<Longrightarrow> P (v(q := None))"
  defines "Q \<equiv> holds h (log_dirs E L D) (\<lambda>v. recoverable L D B v \<and> P v)"
  shows "triple h Q (best_effort (remove_all (L @ [e]))) (\<lambda>_. Q) (\<lambda>_. False) Q"
  unfolding Q_def
proof (rule triple_best_effort_sure, rule keeps_remove_all)
  show "recoverable L D B (v((L @ [e]) @ [n] := None)) \<and> P (v((L @ [e]) @ [n] := None))"
    if "recoverable L D B v \<and> P v" for v n
    using that recoverable_remove [OF files _ D, of v n] P by simp
  show "L @ [e] \<noteq> []" by simp
  fix q assume q: "q \<in> log_dirs E L D"
  show "take (length (L @ [e])) q \<noteq> L @ [e]"
  proof
    assume t: "take (length (L @ [e])) q = L @ [e]"
    then have "take (length L) q = L" by (metis append_eq_conv_conj append_take_drop_id take_prefixD)
    then show False using q E t D by (auto simp: log_dirs_def)
  qed
qed


lemma vt_is_dir:
  "triple h (sees h E v) (is_dir d) (\<lambda>b s. (b \<longleftrightarrow> now_dirs s d) \<and> sees h E v s) F C"
  by (simp add: triple_def is_dir_def)

lemma recover_entries:
  assumes set: "recovery_setting h env E L B" and es: "set es \<subseteq> T"
  shows "triple h (recovers_from h E L B cutoff (set es)) (scan_entries env L cutoff es)
    (\<lambda>_. recovers_from h E L B cutoff {}) (\<lambda>_. False) (recovers_from h E L B cutoff T)"
  using es
proof (induction es)
  case Nil
  then show ?case by (auto intro: triple_return)
next
  case (Cons e es)
  let ?R = "recovers_from h E L B cutoff"
  have h: "no_faults h" "log_names h" using set by (simp_all add: recovery_setting_def)
  have ih: "triple h (?R (set es)) (scan_entries env L cutoff es) (\<lambda>_. ?R {}) (\<lambda>_. False) (?R T)"
    using Cons by simp
  show ?case
  proof (rule triple_recovers)
    fix D v assume D: "D \<subseteq> set (e # es)" and v: "recoverable L D B v" "old_logs L cutoff v"
    let ?P = "sees h (log_dirs E L D) v"
    have now: "?P s \<Longrightarrow> ?R T s" for s using v D Cons.prems by (auto intro!: recovers_fromI holdsI)
    have next_one: "needed h E L B cutoff (D - {e}) s \<Longrightarrow> ?R (set es) s" for s
      using D by (auto intro: recovers_fromI)
    have gone: "needed h E L B cutoff (D - {e}) s \<Longrightarrow> ?R T s" for s
      using D Cons.prems by (auto intro: recovers_fromI)
    have skip: "?R (set es) s" if "?P s" "\<not> now_dirs s (L @ [e])" for s
    proof -
      have "e \<notin> D" using that by (auto simp: sees_def log_dirs_def)
      then show ?thesis using that v D by (auto intro!: recovers_fromI holdsI)
    qed
    let ?started = "case v (manifest_path (L @ [e])) of Some (Manifest m) \<Rightarrow> tx_started m | _ \<Rightarrow> None"
    have old: "\<not> (case ?started of Some t \<Rightarrow> \<not> t < cutoff | None \<Rightarrow> False)"
      using v(2) by (auto simp: old_logs_def split: option.splits tx_content.splits)
    have "triple h ?P (manifestStartedAt (L @ [e])) (\<lambda>r s. r = ?started \<and> ?P s) (\<lambda>_. False) ?P"
      unfolding manifestStartedAt_def
      by (rule triple_bind [OF read_manifest_sure [OF h]], rule triple_return)
        (auto split: option.splits tx_content.splits)
    then have started: "triple h ?P (manifestStartedAt (L @ [e])) (\<lambda>r s. r = ?started \<and> ?P s) (\<lambda>_. False) (?R T)"
      by (rule triple_weaken) (auto intro: now)
    have orphan: "triple h ?P (replayOrphan env (L @ [e])) (\<lambda>_. needed h E L B cutoff (D - {e})) (\<lambda>_. False) (?R T)"
      by (rule triple_weaken [OF recover_entry [OF set v]])
        (use D Cons.prems in \<open>auto intro: recovers_fromI\<close>)
    have removal: "triple h (needed h E L B cutoff (D - {e})) (best_effort (remove_all (L @ [e])))
        (\<lambda>_. ?R (set es)) (\<lambda>_. False) (?R T)"
    proof (rule triple_weaken [OF recover_remove])
      show "tx_files h L B" "\<forall>q \<in> E. take (length L) q = L \<longrightarrow> q = L" using set by (simp_all add: recovery_setting_def)
    qed (auto intro: next_one gone old_logs_remove)
    have replay: "triple h ?P
        (bind_io (manifestStartedAt (L @ [e])) (\<lambda>started.
         if (case started of Some t \<Rightarrow> \<not> t < cutoff | None \<Rightarrow> False) then scan_entries env L cutoff es
         else bind_io (replayOrphan env (L @ [e])) (\<lambda>r.
              bind_io (best_effort (remove_all (L @ [e]))) (\<lambda>_.
              bind_io (scan_entries env L cutoff es) (\<lambda>rs. return_io (r @ rs))))))
        (\<lambda>_. ?R {}) (\<lambda>_. False) (?R T)"
    proof (rule triple_bind [OF started], goal_cases)
      case (1 r)
      show ?case
      proof (rule triple_pure)
        assume r: "r = ?started"
        show "triple h ?P
            (if (case r of Some t \<Rightarrow> \<not> t < cutoff | None \<Rightarrow> False) then scan_entries env L cutoff es
             else bind_io (replayOrphan env (L @ [e])) (\<lambda>r.
                  bind_io (best_effort (remove_all (L @ [e]))) (\<lambda>_.
                  bind_io (scan_entries env L cutoff es) (\<lambda>rs. return_io (r @ rs)))))
            (\<lambda>_. ?R {}) (\<lambda>_. False) (?R T)"
          unfolding r if_not_P [OF old]
          by (rule triple_bind [OF orphan], rule triple_bind [OF removal], rule triple_bind [OF ih], rule triple_return)
      qed
    qed
    show "triple h ?P (scan_entries env L cutoff (e # es)) (\<lambda>_. ?R {}) (\<lambda>_. False) (?R T)"
      unfolding scan_entries.simps
    proof (rule triple_bind [OF vt_is_dir], goal_cases)
      case (1 b)
      show ?case
      proof (cases b)
        case True
        then show ?thesis using replay by simp (erule triple_weaken, auto)
      next
        case False
        then show ?thesis using ih by simp (erule triple_weaken, auto intro: skip)
      qed
    qed
  qed
qed

text \<open>The listing of the log directory has the logs that are needed.\<close>

lemma recover_scan:
  assumes set: "recovery_setting h env E L B" and L: "L = ws @ [''.plumb'', ''tx-log'']"
  shows "triple h (recovers_from h E L B cutoff (set (dir_order h L))) (ScanRecording env (Some ws) cutoff)
    (\<lambda>_. recovers_from h E L B cutoff {}) (\<lambda>_. False) (recovers_from h E L B cutoff (set (dir_order h L)))"
proof (rule triple_recovers)
  let ?T = "set (dir_order h L)"
  let ?R = "recovers_from h E L B cutoff"
  fix D v assume D: "D \<subseteq> ?T" and v: "recoverable L D B v" "old_logs L cutoff v"
  let ?P = "sees h (log_dirs E L D) v"
  have h: "no_faults h" "real_log_dir env L" using set by (simp_all add: recovery_setting_def)
  have now: "?P s \<Longrightarrow> ?R ?T s" for s using v D by (auto intro!: recovers_fromI holdsI)
  have stat: "triple h ?P (attempt (stat_dir L)) (\<lambda>r s. (r = None \<longrightarrow> \<not> now_dirs s L) \<and> ?P s) (\<lambda>_. False) (?R ?T)"
    using h(1)
    by (auto intro: now simp: triple_def attempt_def handle_def bind_io_def return_io_def stat_dir_def syscall_def no_faults_def)
  have none: "?R {} s" if "?P s" "\<not> now_dirs s L" for s
  proof -
    have "tree s" using that(1) by (simp add: sees_def proper_def)
    then have "\<not> now_dirs s (L @ [e])" for e using that(2) by (auto simp: tree_def)
    then have "D = {}" using that(1) by (auto simp: sees_def log_dirs_def)
    then show ?thesis using that(1) v by (auto intro!: recovers_fromI holdsI)
  qed
  have names: "triple h ?P (attempt (read_names L))
      (\<lambda>r s. (case r of None \<Rightarrow> \<not> now_dirs s L | Some es \<Rightarrow> set es \<subseteq> ?T \<and> D \<subseteq> set es) \<and> ?P s) (\<lambda>_. False) (?R ?T)"
    unfolding triple_def
  proof (intro allI impI)
    fix s assume s: "?P s"
    then have "\<forall>e \<in> D. now_dirs s (L @ [e])" by (auto simp: sees_def log_dirs_def)
    then show "case attempt (read_names L) h s of
        (Done r, s') \<Rightarrow> (case r of None \<Rightarrow> \<not> now_dirs s' L | Some es \<Rightarrow> set es \<subseteq> ?T \<and> D \<subseteq> set es) \<and> ?P s'
      | (Fail e, s') \<Rightarrow> False | (Crashed, s') \<Rightarrow> ?R ?T s'"
      using s now [OF s] h(1) D
      by (auto simp: attempt_def handle_def bind_io_def return_io_def read_names_def syscall_def no_faults_def)
  qed
  show "triple h ?P (ScanRecording env (Some ws) cutoff) (\<lambda>_. ?R {}) (\<lambda>_. False) (?R ?T)"
    unfolding ScanRecording_def option.case Let_def L [symmetric]
  proof (rule triple_bind [OF stat], goal_cases)
    case (1 r)
    show ?case
    proof (cases r)
      case None
      then show ?thesis by simp (rule triple_return, auto intro: none)
    next
      case (Some u)
      have "triple h ?P (bind_io (attempt (read_names L))
          (\<lambda>entries. case entries of None \<Rightarrow> return_io [] | Some es \<Rightarrow> scan_entries env L cutoff (sort es)))
          (\<lambda>_. ?R {}) (\<lambda>_. False) (?R ?T)"
      proof (rule triple_bind [OF names], goal_cases)
        case (1 es)
        show ?case
        proof (cases es)
          case None
          then show ?thesis by simp (rule triple_return, auto intro: none)
        next
          case (Some es)
          show ?thesis unfolding Some option.case
          proof (rule triple_pure)
            assume "set es \<subseteq> ?T \<and> D \<subseteq> set es"
            then have "set (sort es) \<subseteq> ?T" "D \<subseteq> set (sort es)" by simp_all
            then show "triple h ?P (scan_entries env L cutoff (sort es)) (\<lambda>_. ?R {}) (\<lambda>_. False) (?R ?T)"
              using v by (intro triple_weaken [OF recover_entries [OF set]]) (auto intro!: recovers_fromI holdsI)
          qed
        qed
      qed
      then show ?thesis using Some h(2) by simp
    qed
  qed
qed

section \<open>Recovery ends\<close>

definition uninterrupted :: "('c, 'a) io \<Rightarrow> bool" where
  "uninterrupted m = (\<forall>h s. (\<forall>n. \<not> crashes h n) \<longrightarrow> fst (m h s) \<noteq> Crashed)"

lemma uninterrupted_syscall: "(\<And>h s. fst (f h s) \<noteq> Crashed) \<Longrightarrow> uninterrupted (syscall f)"
  by (simp add: uninterrupted_def syscall_def)

lemma uninterrupted_return: "uninterrupted (return_io a)" "uninterrupted (fail_io e)"
  by (simp_all add: uninterrupted_def return_io_def fail_io_def)

lemma uninterrupted_bind: "uninterrupted m \<Longrightarrow> (\<And>a. uninterrupted (k a)) \<Longrightarrow> uninterrupted (bind_io m k)"
  unfolding uninterrupted_def bind_io_def
  by (intro allI impI, rename_tac h s, case_tac "m h s", rename_tac r s', case_tac r) (auto, metis fst_conv)

lemma uninterrupted_handle: "uninterrupted m \<Longrightarrow> (\<And>e. uninterrupted (k e)) \<Longrightarrow> uninterrupted (handle m k)"
  unfolding uninterrupted_def handle_def
  by (intro allI impI, rename_tac h s, case_tac "m h s", rename_tac r s', case_tac r) (auto, metis fst_conv)

lemma uninterrupted_wrapped:
  "uninterrupted m \<Longrightarrow> uninterrupted (best_effort m)" "uninterrupted m \<Longrightarrow> uninterrupted (attempt m)"
  "uninterrupted m \<Longrightarrow> uninterrupted c \<Longrightarrow> uninterrupted (finally_io c m)"
  unfolding best_effort_def attempt_def finally_io_def
  by (intro uninterrupted_bind uninterrupted_handle uninterrupted_return; assumption)+

lemma uninterrupted_calls:
  "uninterrupted (stat p)" "uninterrupted (stat_dir p)" "uninterrupted (create_temp p)"
  "uninterrupted (chmod p m)" "uninterrupted (write_fd i c)" "uninterrupted (fsync_fd i)" "uninterrupted (close_fd i)"
  "uninterrupted (read_file p)" "uninterrupted (remove p)" "uninterrupted (rename p q)" "uninterrupted (sync_dir p)"
  "uninterrupted (read_names p)" "uninterrupted (remove_dir p)"
  unfolding stat_def stat_dir_def create_temp_def chmod_def write_fd_def fsync_fd_def
    close_fd_def read_file_def remove_def rename_def sync_dir_def read_names_def remove_dir_def
  by (rule uninterrupted_syscall; simp add: Let_def split: option.split)+

lemma uninterrupted_state: "uninterrupted warn" "uninterrupted now" "uninterrupted (is_dir d)"
  by (simp_all add: uninterrupted_def warn_def now_def is_dir_def)

lemmas uninterrupted_rules = uninterrupted_return uninterrupted_bind uninterrupted_handle uninterrupted_wrapped
  uninterrupted_calls uninterrupted_state

lemma uninterrupted_syncs: "uninterrupted (SyncFile i)" "uninterrupted (SyncDir d)"
  using uninterrupted_calls(6) [of i] uninterrupted_calls(11) [of d] uninterrupted_return(1) [of "()"]
  unfolding uninterrupted_def SyncFile_def SyncDir_def by (auto split: if_splits)

lemma uninterrupted_AtomicWrite: "uninterrupted (AtomicWrite p c m)"
  unfolding AtomicWrite_def Let_def
  by (intro uninterrupted_rules uninterrupted_syncs, clarify, intro uninterrupted_rules uninterrupted_syncs)

lemma uninterrupted_remove_all: "uninterrupted (remove_all d)"
proof -
  have "uninterrupted (remove_each d ns)" for ns by (induction ns) (auto intro!: uninterrupted_rules)
  then show ?thesis unfolding remove_all_def by (auto intro!: uninterrupted_rules)
qed

lemma uninterrupted_restoreOp: "uninterrupted (restoreOp d op perm t)"
  unfolding restoreOp_def
  by (auto intro!: uninterrupted_rules uninterrupted_AtomicWrite split: option.split)

lemma uninterrupted_replay_ops: "uninterrupted (replay_ops env d ops)"
  by (induction ops) (auto intro!: uninterrupted_rules uninterrupted_restoreOp split: option.split)

lemma uninterrupted_read_manifest: "uninterrupted (read_manifest d)"
  unfolding read_manifest_def by (intro uninterrupted_rules)

lemma uninterrupted_scan: "uninterrupted (scan_entries env L cutoff es)"
  by (induction es)
    (auto intro!: uninterrupted_rules uninterrupted_remove_all uninterrupted_replay_ops uninterrupted_read_manifest
      simp: manifestStartedAt_def replayOrphan_def split: option.split)

end
