(* ===== verification/Plumb_Faults.thy ===== *)
theory Plumb_Faults
  imports Plumb_TxLog_Correct
begin

text \<open>
  Programs on a host where calls fail: which of its faults a run can depend on, programs that
  pass over the failures of their calls, and where a run that ended came from.
\<close>

section \<open>Where a fault can come from\<close>

text \<open>
  A program depends on the faults of its own calls only: without any between its first and its
  last call it runs as on a host without faults.
\<close>

definition faultless :: "'c host \<Rightarrow> 'c host" where
  "faultless h = h\<lparr>call_fails := (\<lambda>_. False)\<rparr>"

definition local_faults :: "('c, 'a) io \<Rightarrow> bool" where
  "local_faults m =
     (\<forall>h s. calls s \<le> calls (snd (m h s)) \<and>
        ((\<forall>n. calls s \<le> n \<longrightarrow> n < calls (snd (m h s)) \<longrightarrow> \<not> call_fails h n) \<longrightarrow> m h s = m (faultless h) s))"

lemma faultless_simps [simp]:
  "call_fails (faultless h) = (\<lambda>_. False)" "crashes (faultless h) = crashes h"
  "device (faultless h) = device h" "tmp_dir (faultless h) = tmp_dir h"
  "temp_name (faultless h) = temp_name h" "dir_order (faultless h) = dir_order h"
  "umask (faultless h) = umask h" "fsync_on (faultless h) = fsync_on h" "empty (faultless h) = empty h"
  by (simp_all add: faultless_def)

lemma faultless_sees [simp]:
  "sees (faultless h) = sees h" "junk (faultless h) = junk h" "holds (faultless h) = holds h"
  "good_names (faultless h) = good_names h" "log_names (faultless h) = log_names h"
  "tx_files (faultless h) = tx_files h" "replayable (faultless h) = replayable h" "no_faults (faultless h)"
  by (simp_all add: fun_eq_iff holds_def sees_def good_names_def proper_def junk_def is_temp_def log_names_def tx_files_def
      replayable_def no_faults_def)

lemma local_run:
  assumes "local_faults m" "m h s = (r, s')" "\<And>n. calls s \<le> n \<Longrightarrow> n < calls s' \<Longrightarrow> \<not> call_fails h n"
  shows "m (faultless h) s = (r, s')"
  using assms unfolding local_faults_def by (metis snd_conv)

lemma local_calls: "local_faults m \<Longrightarrow> m h s = (r, s') \<Longrightarrow> calls s \<le> calls s'"
  unfolding local_faults_def by (metis snd_conv)

lemma local_syscall:
  assumes "\<And>h s. f (faultless h) s = f h s" "\<And>h s. calls (snd (f h s)) = calls s"
  shows "local_faults (syscall f)"
  using assms by (auto simp: local_faults_def syscall_def bump_def)

lemma local_pure:
  assumes "\<And>h s. m (faultless h) s = m h s" "\<And>h s. calls (snd (m h s)) = calls s"
  shows "local_faults m"
  using assms by (simp add: local_faults_def)

lemma local_after:
  assumes m: "local_faults m" "m h s = (r, s1)" and k: "local_faults k" "k h s1 = (r2, s2)"
  shows "calls s \<le> calls s2"
    and "(\<And>n. calls s \<le> n \<Longrightarrow> n < calls s2 \<Longrightarrow> \<not> call_fails h n) \<Longrightarrow> m (faultless h) s = (r, s1) \<and> k (faultless h) s1 = (r2, s2)"
proof -
  have le: "calls s \<le> calls s1" "calls s1 \<le> calls s2" using local_calls [OF m] local_calls [OF k] by simp_all
  then show "calls s \<le> calls s2" by simp
  assume "\<And>n. calls s \<le> n \<Longrightarrow> n < calls s2 \<Longrightarrow> \<not> call_fails h n"
  then show "m (faultless h) s = (r, s1) \<and> k (faultless h) s1 = (r2, s2)"
    using local_run [OF m] local_run [OF k] le by (meson le_trans less_le_trans)
qed

lemma local_bind:
  assumes "local_faults m" "\<And>a. local_faults (k a)"
  shows "local_faults (bind_io m k)"
  unfolding local_faults_def
proof (intro allI)
  fix h s
  obtain r s1 where m: "m h s = (r, s1)" by (cases "m h s")
  show "calls s \<le> calls (snd (bind_io m k h s)) \<and>
      ((\<forall>n. calls s \<le> n \<longrightarrow> n < calls (snd (bind_io m k h s)) \<longrightarrow> \<not> call_fails h n) \<longrightarrow> bind_io m k h s = bind_io m k (faultless h) s)"
  proof (cases r)
    case (Done a)
    obtain r2 s2 where ka: "k a h s1 = (r2, s2)" by (cases "k a h s1")
    have b: "bind_io m k h s = (r2, s2)" using m Done ka by (simp add: bind_io_def)
    show ?thesis
      unfolding b snd_conv
      using local_after [OF assms(1) m assms(2) ka] Done by (auto simp: bind_io_def)
  qed (use local_calls [OF assms(1) m] local_run [OF assms(1) m] m in \<open>auto simp: bind_io_def\<close>)
qed

lemma local_handle:
  assumes "local_faults m" "\<And>a. local_faults (k a)"
  shows "local_faults (handle m k)"
  unfolding local_faults_def
proof (intro allI)
  fix h s
  obtain r s1 where m: "m h s = (r, s1)" by (cases "m h s")
  show "calls s \<le> calls (snd (handle m k h s)) \<and>
      ((\<forall>n. calls s \<le> n \<longrightarrow> n < calls (snd (handle m k h s)) \<longrightarrow> \<not> call_fails h n) \<longrightarrow> handle m k h s = handle m k (faultless h) s)"
  proof (cases r)
    case (Fail e)
    obtain r2 s2 where ke: "k e h s1 = (r2, s2)" by (cases "k e h s1")
    have b: "handle m k h s = (r2, s2)" using m Fail ke by (simp add: handle_def)
    show ?thesis
      unfolding b snd_conv
      using local_after [OF assms(1) m assms(2) ke] Fail by (auto simp: handle_def)
  qed (use local_calls [OF assms(1) m] local_run [OF assms(1) m] m in \<open>auto simp: handle_def\<close>)
qed

lemma local_return: "local_faults (return_io a)" "local_faults (fail_io e)"
  by (simp_all add: local_faults_def return_io_def fail_io_def)

lemma local_best_effort: "local_faults m \<Longrightarrow> local_faults (best_effort m)"
  unfolding best_effort_def by (intro local_handle local_bind local_return)

lemma local_attempt: "local_faults m \<Longrightarrow> local_faults (attempt m)"
  unfolding attempt_def by (intro local_handle local_bind local_return)

lemma local_cleanup: "local_faults m \<Longrightarrow> local_faults c \<Longrightarrow> local_faults (cleanup c m)"
  unfolding cleanup_def by (intro local_handle local_bind local_return local_best_effort)

lemma local_finally: "local_faults m \<Longrightarrow> local_faults c \<Longrightarrow> local_faults (finally_io c m)"
  unfolding finally_io_def by (intro local_handle local_bind local_return local_best_effort)

lemma local_system_calls:
  "local_faults (stat p)" "local_faults (stat_dir p)" "local_faults (create_temp p)" "local_faults (open_trunc p m)"
  "local_faults (fchmod i m)" "local_faults (chmod p m)" "local_faults (write_fd i c)" "local_faults (fsync_fd i)" "local_faults (close_fd i)"
  "local_faults (read_file p)" "local_faults (remove p)" "local_faults (rename p q)" "local_faults (sync_dir p)" "local_faults (mkdir_all p)"
  "local_faults (read_names p)" "local_faults (remove_dir p)"
  unfolding stat_def stat_dir_def create_temp_def open_trunc_def fchmod_def chmod_def write_fd_def fsync_fd_def
    close_fd_def read_file_def remove_def rename_def sync_dir_def mkdir_all_def read_names_def remove_dir_def
  by (rule local_syscall; simp add: Let_def new_file_def on_inode_def split: option.split)+

lemma local_state: "local_faults warn" "local_faults now" "local_faults (crossDeviceKnown p)" "local_faults (rememberCrossDevice p)"
  by (auto intro: local_pure simp: warn_def now_def crossDeviceKnown_def rememberCrossDevice_def)

lemma local_if: "local_faults a \<Longrightarrow> local_faults b \<Longrightarrow> local_faults (\<lambda>h. if fsync_on h then a h else b h)"
  by (simp add: local_faults_def)

lemmas local_rules = local_return local_bind local_handle local_best_effort local_attempt
  local_cleanup local_finally local_system_calls local_state

lemma local_syncs:
  "local_faults (syncTempFile i)" "local_faults (SyncFile i)" "local_faults (SyncDir d)" "local_faults (syncDirBestEffort d)"
  unfolding syncTempFile_def [abs_def] SyncFile_def [abs_def] SyncDir_def [abs_def] syncDirBestEffort_def [abs_def]
  by (intro local_if local_rules)+

lemma local_AtomicWrite: "local_faults (AtomicWrite p c m)"
  unfolding AtomicWrite_def Let_def
  by (intro local_rules local_syncs, clarify, intro local_rules local_syncs)

lemma local_sync_parents: "local_faults (sync_parents ds)"
  by (induction ds) (simp_all add: local_rules local_syncs)

lemma local_missingAncestors: "local_faults (missingAncestors d ds)"
proof (induction d ds rule: missingAncestors.induct)
  case (1 d ds)
  then show ?case
    by (subst missingAncestors.simps) (auto intro!: local_rules split: option.split)
qed

lemma local_snapshot: "local_faults (stagedSnapshot p)"
  unfolding stagedSnapshot_def by (intro local_rules)

lemma local_safeWriteSibling: "local_faults (safeWriteSibling p c perm b)"
  unfolding safeWriteSibling_def Let_def by (intro local_rules local_syncs local_snapshot)

lemma local_stage: "local_faults (stage p (c :: 'c) perm)"
proof -
  have "local_faults (\<lambda>h :: 'c host. create_temp (tmp_dir h) h)"
    using local_system_calls(3) unfolding local_faults_def faultless_simps by blast
  then show ?thesis
    unfolding stage_def
    by (rule local_bind, clarify) (auto intro!: local_rules local_syncs local_snapshot)
qed

lemma local_safeWrite: "local_faults (safeWrite p c perm)"
  unfolding safeWrite_def Let_def mkdirAllSynced_def
  by (auto intro!: local_rules local_syncs local_safeWriteSibling local_stage local_missingAncestors local_sync_parents
      split: renamed.split)

lemma local_remove_all: "local_faults (remove_all d)"
proof -
  have "local_faults (remove_each d ns)" for ns by (induction ns) (simp_all add: local_rules)
  then show ?thesis unfolding remove_all_def by (auto intro!: local_rules)
qed

section \<open>Runs\<close>

text \<open>Programs that pass over the failures of their calls.\<close>

definition never_fails :: "('c, 'a) io \<Rightarrow> bool" where
  "never_fails m = (\<forall>h s e. fst (m h s) \<noteq> Fail e)"

lemma never_fails_bind:
  assumes "never_fails m" "\<And>a. never_fails (k a)"
  shows "never_fails (bind_io m k)"
  unfolding never_fails_def
proof (intro allI)
  fix h s e
  obtain r s' where m: "m h s = (r, s')" by (cases "m h s")
  have "fst (m h s) \<noteq> Fail e'" for e' using assms(1) by (simp add: never_fails_def)
  moreover have "fst (k a h s') \<noteq> Fail e" for a using assms(2) by (simp add: never_fails_def)
  ultimately show "fst (bind_io m k h s) \<noteq> Fail e" using m by (cases r) (auto simp: bind_io_def)
qed

lemma never_fails_rules:
  "never_fails (return_io a)" "never_fails (attempt m)" "never_fails (best_effort m)"
  by (auto simp: never_fails_def return_io_def attempt_def best_effort_def handle_def bind_io_def split: prod.splits res.splits)

lemma triple_never_fails:
  assumes "never_fails m" "triple h P m Q F C"
  shows "triple h P m Q F' C"
  unfolding triple_def
proof (intro allI impI)
  fix s assume "P s"
  obtain r s' where m: "m h s = (r, s')" by (cases "m h s")
  have "r \<noteq> Fail e" for e using assms(1) m unfolding never_fails_def by (metis fst_conv)
  then show "case m h s of (Done a, s') \<Rightarrow> Q a s' | (Fail e, s') \<Rightarrow> F' s' | (Crashed, s') \<Rightarrow> C s'"
    using tripleD [OF assms(2) \<open>P s\<close> m] m by (cases r) auto
qed

text \<open>What a program that ended came from.\<close>

lemma triple_origin:
  assumes "triple h P m Q F C"
  shows "triple h P m (\<lambda>r s'. Q r s' \<and> (\<exists>s. P s \<and> m h s = (Done r, s'))) F C"
  unfolding triple_def
proof (intro allI impI)
  fix s assume "P s"
  obtain r s' where m: "m h s = (r, s')" by (cases "m h s")
  show "case m h s of (Done r, s') \<Rightarrow> Q r s' \<and> (\<exists>s. P s \<and> m h s = (Done r, s')) | (Fail e, s') \<Rightarrow> F s' | (Crashed, s') \<Rightarrow> C s'"
    using tripleD [OF assms \<open>P s\<close> m] \<open>P s\<close> m by (cases r) auto
qed

lemma triple_from: "(\<And>s0. P s0 \<Longrightarrow> triple h (\<lambda>s. s = s0) m Q F C) \<Longrightarrow> triple h P m Q F C"
  by (simp add: triple_def)

end
