(* ===== verification/Plumb_Stores.thy ===== *)
theory Plumb_Stores
  imports Plumb_Keyed_Store
begin

text \<open>
  What a session remembers of the files it touched: the undo snapshots
  (\<open>internal/tools/undo_store.go\<close>), what was read (\<open>read_tracker.go\<close>), what was written
  (\<open>write_tracker.go\<close>), and the guards that compare these with the disk
  (\<open>write_guards.go\<close>).

  \<open>key\<close> is the identity key of a path, \<open>sha\<close> the content hash, \<open>parse_time\<close> the parser of
  \<open>expected_mtime\<close>. The disk maps a key to a file's modification time and content. A time is a
  number of nanoseconds since the zero \<open>time.Time\<close>.
\<close>

record disk_file =
  d_mtime :: int
  d_content :: string

type_synonym disk = "string \<Rightarrow> disk_file option"

definition unix_epoch :: int where
  "unix_epoch = 62135596800 * 1000000000"

definition UnixNano :: "int \<Rightarrow> int" where
  "UnixNano t = t - unix_epoch"

section \<open>Undo snapshots\<close>

record undo_snapshot =
  u_before :: string
  u_existedBefore :: bool
  u_afterSHA :: string
  u_tool :: string
  u_seq :: "64 word"

record undo_store =
  u_snaps :: "(string \<times> undo_snapshot) list"
  u_next :: "64 word"

definition maxUndoEntries :: nat where
  "maxUndoEntries = 64"

definition NewUndoStore :: undo_store where
  "NewUndoStore = \<lparr>u_snaps = [], u_next = 0\<rparr>"

definition evictOldest :: "(string \<times> undo_snapshot) list \<Rightarrow> (string \<times> undo_snapshot) list" where
  "evictOldest m = (case least_key u_seq m None of None \<Rightarrow> m | Some k \<Rightarrow> AList.delete k m)"

definition undo_record ::
  "(string \<Rightarrow> string) \<Rightarrow> string \<Rightarrow> undo_snapshot \<Rightarrow> undo_store \<Rightarrow> undo_store" where
  "undo_record key path snap u =
     (let k = key path;
          n = u_next u + 1;
          m = (if k \<notin> fst ` set (u_snaps u) \<and> maxUndoEntries \<le> length (u_snaps u)
               then evictOldest (u_snaps u) else u_snaps u)
      in u\<lparr>u_snaps := AList.update k (snap\<lparr>u_seq := n\<rparr>) m, u_next := n\<rparr>)"

definition undo_peek :: "(string \<Rightarrow> string) \<Rightarrow> undo_store \<Rightarrow> string \<Rightarrow> undo_snapshot option" where
  "undo_peek key u path = map_of (u_snaps u) (key path)"

definition undo_take ::
  "(string \<Rightarrow> string) \<Rightarrow> string \<Rightarrow> undo_store \<Rightarrow> undo_snapshot option \<times> undo_store" where
  "undo_take key path u =
     (case map_of (u_snaps u) (key path) of
        None \<Rightarrow> (None, u)
      | Some s \<Rightarrow> (Some s, u\<lparr>u_snaps := AList.delete (key path) (u_snaps u)\<rparr>))"

definition undo_reset :: "undo_store \<Rightarrow> undo_store" where
  "undo_reset u = u\<lparr>u_snaps := []\<rparr>"

section \<open>Reads\<close>

record read_entry =
  rd_mtime :: int
  rd_sha :: string

record read_record =
  rr_path :: string
  rr_mtime :: int
  rr_sha :: string

text \<open>\<open>rt_sink\<close> is what the persist sink received, None while none is installed.\<close>

record read_tracker =
  rt_entries :: "(string \<times> read_entry) list"
  rt_sink :: "read_record list option"

definition NewReadTracker :: read_tracker where
  "NewReadTracker = \<lparr>rt_entries = [], rt_sink = None\<rparr>"

definition read_record_at ::
  "(string \<Rightarrow> string) \<Rightarrow> string \<Rightarrow> read_entry \<Rightarrow> read_tracker \<Rightarrow> read_tracker" where
  "read_record_at key path e r =
     r\<lparr>rt_entries := AList.update (key path) e (rt_entries r),
       rt_sink := map_option (\<lambda>l. l @ [\<lparr>rr_path = key path, rr_mtime = rd_mtime e, rr_sha = rd_sha e\<rparr>]) (rt_sink r)\<rparr>"

definition recorded :: "(string \<Rightarrow> string) \<Rightarrow> read_tracker \<Rightarrow> string \<Rightarrow> read_entry option" where
  "recorded key r path = map_of (rt_entries r) (key path)"

definition read_mtime :: "(string \<Rightarrow> string) \<Rightarrow> read_tracker \<Rightarrow> string \<Rightarrow> int" where
  "read_mtime key r path = (case recorded key r path of None \<Rightarrow> 0 | Some e \<Rightarrow> rd_mtime e)"

definition read_reset :: "read_tracker \<Rightarrow> read_tracker" where
  "read_reset r = r\<lparr>rt_entries := []\<rparr>"

definition read_records :: "read_tracker \<Rightarrow> read_record list" where
  "read_records r = map (\<lambda>(k, e). \<lparr>rr_path = k, rr_mtime = rd_mtime e, rr_sha = rd_sha e\<rparr>) (rt_entries r)"

record hydrated_read =
  hy_entry :: read_entry
  hy_canonical :: bool

definition hydrateOutranks :: "hydrated_read \<Rightarrow> hydrated_read \<Rightarrow> bool" where
  "hydrateOutranks c prev =
     (if hy_canonical c \<noteq> hy_canonical prev then hy_canonical c
      else rd_mtime (hy_entry prev) < rd_mtime (hy_entry c))"

definition hydrated :: "(string \<Rightarrow> string) \<Rightarrow> read_record \<Rightarrow> hydrated_read" where
  "hydrated key rec =
     \<lparr>hy_entry = \<lparr>rd_mtime = rr_mtime rec, rd_sha = rr_sha rec\<rparr>, hy_canonical = (rr_path rec = key (rr_path rec))\<rparr>"

definition hydrate_one ::
  "(string \<Rightarrow> string) \<Rightarrow> (string \<times> hydrated_read) list \<Rightarrow> read_record \<Rightarrow> (string \<times> hydrated_read) list" where
  "hydrate_one key loaded rec =
     (let k = key (rr_path rec); c = hydrated key rec in
      case map_of loaded k of
        Some prev \<Rightarrow> if hydrateOutranks c prev then AList.update k c loaded else loaded
      | None \<Rightarrow> AList.update k c loaded)"

definition Hydrate :: "(string \<Rightarrow> string) \<Rightarrow> read_record list \<Rightarrow> read_tracker \<Rightarrow> read_tracker" where
  "Hydrate key records r =
     (let loaded = foldl (hydrate_one key) [] records
      in r\<lparr>rt_entries := foldl (\<lambda>m (k, h). AList.update k (hy_entry h) m) (rt_entries r) loaded\<rparr>)"

section \<open>Writes\<close>

record write_tracker =
  wt_written :: "(string \<times> int) list"

definition NewWriteTracker :: write_tracker where
  "NewWriteTracker = \<lparr>wt_written = []\<rparr>"

definition record_ns :: "(string \<Rightarrow> string) \<Rightarrow> string \<Rightarrow> int \<Rightarrow> write_tracker \<Rightarrow> write_tracker" where
  "record_ns key path ns w = w\<lparr>wt_written := AList.update (key path) ns (wt_written w)\<rparr>"

definition recordAt :: "(string \<Rightarrow> string) \<Rightarrow> string \<Rightarrow> int \<Rightarrow> write_tracker \<Rightarrow> write_tracker" where
  "recordAt key path mtime w = record_ns key path (if mtime = 0 then 0 else UnixNano mtime) w"

definition write_record ::
  "(string \<Rightarrow> string) \<Rightarrow> disk \<Rightarrow> string \<Rightarrow> write_tracker \<Rightarrow> write_tracker" where
  "write_record key d path w =
     recordAt key path (case d (key path) of None \<Rightarrow> 0 | Some f \<Rightarrow> d_mtime f) w"

definition WroteMtime :: "(string \<Rightarrow> string) \<Rightarrow> write_tracker \<Rightarrow> string \<Rightarrow> int option" where
  "WroteMtime key w path = map_of (wt_written w) (key path)"

definition Wrote :: "(string \<Rightarrow> string) \<Rightarrow> write_tracker \<Rightarrow> string \<Rightarrow> bool" where
  "Wrote key w path = (WroteMtime key w path \<noteq> None)"

definition write_reset :: "write_tracker \<Rightarrow> write_tracker" where
  "write_reset w = w\<lparr>wt_written := []\<rparr>"

definition statMtime :: "disk \<Rightarrow> string \<Rightarrow> int" where
  "statMtime d k = (case d k of None \<Rightarrow> 0 | Some f \<Rightarrow> UnixNano (d_mtime f))"

text \<open>\<open>within\<close> is \<open>dirWithinRoot\<close> of the key and the root's key.\<close>

definition unchangedUnder ::
  "(string \<Rightarrow> string \<Rightarrow> bool) \<Rightarrow> (string \<Rightarrow> string) \<Rightarrow> disk \<Rightarrow> string \<Rightarrow> write_tracker \<Rightarrow> (string \<times> int) list" where
  "unchangedUnder within key d root w =
     filter (\<lambda>(k, recorded). statMtime d k = recorded)
       (filter (\<lambda>(k, _). within k (key root)) (wt_written w))"

definition changedSince :: "disk \<Rightarrow> (string \<times> int) list \<Rightarrow> (string \<times> int) list" where
  "changedSince d pre =
     map (\<lambda>(k, _). (k, statMtime d k)) (filter (\<lambda>(k, was). statMtime d k \<noteq> was) pre)"

definition rerecord_one ::
  "(string \<times> int) list \<Rightarrow> write_tracker \<Rightarrow> string \<times> int \<Rightarrow> write_tracker" where
  "rerecord_one pre w kn =
     (case kn of (k, n) \<Rightarrow>
        (case map_of (wt_written w) k of
           Some r \<Rightarrow>
             (if r = (case map_of pre k of Some b \<Rightarrow> b | None \<Rightarrow> 0)
              then w\<lparr>wt_written := AList.update k n (wt_written w)\<rparr> else w)
         | None \<Rightarrow> w))"

definition rerecord :: "(string \<times> int) list \<Rightarrow> (string \<times> int) list \<Rightarrow> write_tracker \<Rightarrow> write_tracker" where
  "rerecord pre now w = foldl (rerecord_one pre) w now"

section \<open>The guards\<close>

datatype guard_error =
    Stat_failed string
  | Bad_expected_mtime string
  | Modified_mtime string
  | Modified_same_mtime string
  | Modified_content string

definition changedAtSameMtime ::
  "(string \<Rightarrow> string) \<Rightarrow> (string \<Rightarrow> string) \<Rightarrow> disk \<Rightarrow> read_tracker \<Rightarrow> string \<Rightarrow> int \<Rightarrow> bool" where
  "changedAtSameMtime key sha d reads path want =
     (case recorded key reads path of
        None \<Rightarrow> False
      | Some e \<Rightarrow>
          (if rd_sha e = [] \<or> rd_mtime e \<noteq> want then False
           else (case d (key path) of None \<Rightarrow> False | Some f \<Rightarrow> sha (d_content f) \<noteq> rd_sha e)))"

definition changedSinceSessionRead ::
  "(string \<Rightarrow> string) \<Rightarrow> (string \<Rightarrow> string) \<Rightarrow> disk \<Rightarrow> read_tracker \<Rightarrow> string \<Rightarrow> bool" where
  "changedSinceSessionRead key sha d reads path =
     (case recorded key reads path of
        None \<Rightarrow> False
      | Some e \<Rightarrow>
          (case d (key path) of
             None \<Rightarrow> False
           | Some f \<Rightarrow>
               (if rd_mtime e < d_mtime f then True
                else if rd_sha e = [] then False
                else sha (d_content f) \<noteq> rd_sha e)))"

definition verifyExpectedVersion ::
  "(string \<Rightarrow> string) \<Rightarrow> (string \<Rightarrow> string) \<Rightarrow> (string \<Rightarrow> int option) \<Rightarrow> disk \<Rightarrow> string \<Rightarrow> string \<Rightarrow> string \<Rightarrow>
     read_tracker \<Rightarrow> guard_error option" where
  "verifyExpectedVersion key sha parse_time d path expectedMtime expectedSha reads =
     (if expectedMtime = [] \<and> expectedSha = [] then None
      else
        (case d (key path) of
           None \<Rightarrow> Some (Stat_failed path)
         | Some f \<Rightarrow>
             (let by_sha = (if expectedSha \<noteq> [] \<and> sha (d_content f) \<noteq> expectedSha
                            then Some (Modified_content path) else None)
              in
              if expectedMtime = [] then by_sha
              else
                (case parse_time expectedMtime of
                   None \<Rightarrow> Some (Bad_expected_mtime expectedMtime)
                 | Some want \<Rightarrow>
                     (if d_mtime f \<noteq> want then Some (Modified_mtime path)
                      else if expectedSha = [] \<and> changedAtSameMtime key sha d reads path want
                      then Some (Modified_same_mtime path)
                      else by_sha)))))"

end
