(* ===== verification/Plumb_FileTools.thy ===== *)
theory Plumb_FileTools
  imports Plumb_SafeWrite Plumb_DirtyGuard Plumb_Stores Plumb_Boundary
begin

text \<open>
  The tools that write, copy, move, delete and restore whole files (\<open>write_file.go\<close>,
  \<open>copy_file.go\<close>, \<open>rename_file.go\<close>, \<open>delete_file.go\<close>, \<open>undo_edit.go\<close>,
  \<open>fail_on_new_errors.go\<close> of \<open>internal/tools\<close>), from the admission of a call to what it records of
  its effect. A call runs under the locks of its files; it is a program over the host of
  \<open>Plumb_Host\<close>, whose \<open>Fail\<close> is the error of a system call, and returns a refusal or a reply and
  the state of the session. Reads that feed only the reply or the history, notifications and the
  texts are left out. The file of a path is the one its components name: there are no links.
\<close>

definition file_of :: "string \<Rightarrow> path" where
  "file_of s = clean_comps True (split_on (CHR ''/'') s)"

section \<open>The session and its environment\<close>

record session =
  se_reads :: read_tracker
  se_writes :: write_tracker
  se_undo :: "undo_store option"

text \<open>
  What a call is given: the identity key of a path, its canonical form, the case folding of
  names, SHA-256, the parser of times, \<open>resolvePath\<close> and \<open>checkBoundary\<close> of its connection,
  whether its pin is contested, the status of git with the knob of the dirty guard, the answers
  of the limiter, whether diffs are shown, and whether the language server reports new errors
  for a file and its content before and after.
\<close>

record tool_env =
  te_key :: "string \<Rightarrow> string"
  te_canonical :: "string \<Rightarrow> string"
  te_fold :: "string \<Rightarrow> string"
  te_sha :: "string \<Rightarrow> string"
  te_parse_time :: "string \<Rightarrow> int option"
  te_resolve :: "string \<Rightarrow> boundary_error + string"
  te_check :: "string \<Rightarrow> boundary_error option"
  te_contested :: bool
  te_git :: "string \<Rightarrow> string list \<Rightarrow> string option"
  te_blockDirty :: bool
  te_allow :: "nat \<Rightarrow> bool"
  te_showDiff :: bool
  te_newErrors :: "string \<Rightarrow> string \<Rightarrow> string \<Rightarrow> bool"

datatype tool_error =
    Rate_limited
  | Bad_arguments
  | Contested_pin
  | Outside boundary_error
  | Same_path
  | Is_directory string
  | Not_found string
  | Has_uncommitted string
  | Guarded guard_error
  | Changed_since_read string
  | No_parent string
  | Already_exists string
  | Hard_links string string
  | Too_large string
  | No_snapshot string
  | Nothing_to_undo string
  | No_longer_exists string
  | Diverged string
  | Unreadable string
  | Remove_failed string
  | Restore_failed string
  | Not_rolled_back tool_error
  | Rolled_back string
  | Stopped "string list"

type_synonym 'a tool = "session \<Rightarrow> (string, (tool_error + 'a) \<times> session) io"

definition refuse :: "tool_error \<Rightarrow> 'a tool" where
  "refuse e se = return_io (Inl e, se)"

definition admit_path :: "tool_env \<Rightarrow> string \<Rightarrow> tool_error + string" where
  "admit_path env p =
     (case te_resolve env p of
        Inl e \<Rightarrow> Inl (Outside e)
      | Inr q \<Rightarrow> (case te_check env q of Some e \<Rightarrow> Inl (Outside e) | None \<Rightarrow> Inr q))"

section \<open>System calls on entries\<close>

text \<open>\<open>os.Stat\<close> of any entry, \<open>None\<close> for a directory; and the inode that tells \<open>os.SameFile\<close>.\<close>

definition stat_entry :: "path \<Rightarrow> ('c, 'c inode option) io" where
  "stat_entry p = syscall (\<lambda>h s.
     (case now_dir s p of
        Some i \<Rightarrow> Done (Some (inodes s i))
      | None \<Rightarrow> if now_dirs s p then Done None else Fail Not_exist, s))"

definition lstat_inode :: "path \<Rightarrow> ('c, nat) io" where
  "lstat_inode p = syscall (\<lambda>h s. (case now_dir s p of None \<Rightarrow> Fail Not_exist | Some i \<Rightarrow> Done i, s))"

text \<open>\<open>os.IsNotExist\<close> of the error of a call.\<close>

definition is_not_exist :: "('c, 'a) io \<Rightarrow> ('c, bool) io" where
  "is_not_exist m = handle (bind_io m (\<lambda>_. return_io False)) (\<lambda>e. return_io (e = Not_exist))"

definition outcome :: "('c, 'a) io \<Rightarrow> ('c, io_error + 'a) io" where
  "outcome m = handle (bind_io m (\<lambda>a. return_io (Inr a))) (\<lambda>e. return_io (Inl e))"

section \<open>What a call records\<close>

definition recordWritten :: "tool_env \<Rightarrow> string \<Rightarrow> (int \<times> string) option \<Rightarrow> session \<Rightarrow> session" where
  "recordWritten env path v se =
     (let (mtime, sha) = (case v of Some w \<Rightarrow> w | None \<Rightarrow> (0, [])) in
      se\<lparr>se_writes := recordAt (te_key env) path mtime (se_writes se),
         se_reads := (if mtime \<noteq> 0
                      then read_record_at (te_key env) path \<lparr>rd_mtime = mtime, rd_sha = sha\<rparr> (se_reads se)
                      else se_reads se)\<rparr>)"

definition maxUndoSnapshotBytes :: int where
  "maxUndoSnapshotBytes = 1048576"

definition recordUndo :: "tool_env \<Rightarrow> string \<Rightarrow> string \<Rightarrow> string \<Rightarrow> bool \<Rightarrow> string \<Rightarrow> session \<Rightarrow> session" where
  "recordUndo env path before after existedBefore tool se =
     (case se_undo se of
        None \<Rightarrow> se
      | Some u \<Rightarrow>
          if maxUndoSnapshotBytes < int (length before) then se
          else se\<lparr>se_undo := Some (undo_record (te_key env) path
                 \<lparr>u_before = before, u_existedBefore = existedBefore, u_afterSHA = te_sha env after,
                  u_tool = tool, u_seq = 0\<rparr> u)\<rparr>)"

definition takeUndo :: "tool_env \<Rightarrow> string \<Rightarrow> session \<Rightarrow> session" where
  "takeUndo env path se = se\<lparr>se_undo := map_option (\<lambda>u. snd (undo_take (te_key env) path u)) (se_undo se)\<rparr>"

section \<open>Guards\<close>

definition blocks_write :: "tool_env \<Rightarrow> session \<Rightarrow> string \<Rightarrow> bool" where
  "blocks_write env se path =
     dirtyBlocksWrite (te_git env) (te_blockDirty env) (\<lambda>_ _. Wrote (te_key env) (se_writes se) path)
       (path_dir path) (path_base path)"

definition blocks_move :: "tool_env \<Rightarrow> session \<Rightarrow> string \<Rightarrow> bool" where
  "blocks_move env se path =
     dirtyBlocksMove (te_git env) (te_blockDirty env) (\<lambda>_ _. Wrote (te_key env) (se_writes se) path)
       (path_dir path) (path_base path)"

definition fileSHA256 :: "tool_env \<Rightarrow> string \<Rightarrow> (string, string option) io" where
  "fileSHA256 env path = attempt (bind_io (read_file (file_of path)) (\<lambda>c. return_io (te_sha env c)))"

text \<open>The guards of \<open>write_guards.go\<close> as the system calls they make.\<close>

definition same_mtime_changed :: "tool_env \<Rightarrow> read_tracker \<Rightarrow> string \<Rightarrow> int \<Rightarrow> (string, bool) io" where
  "same_mtime_changed env rt path want =
     (case recorded (te_key env) rt path of
        None \<Rightarrow> return_io False
      | Some e \<Rightarrow>
          if rd_sha e = [] \<or> rd_mtime e \<noteq> want then return_io False
          else bind_io (fileSHA256 env path) (\<lambda>c.
               return_io (case c of None \<Rightarrow> False | Some cur \<Rightarrow> cur \<noteq> rd_sha e)))"

definition check_version ::
  "tool_env \<Rightarrow> string \<Rightarrow> string \<Rightarrow> string \<Rightarrow> read_tracker \<Rightarrow> (string, guard_error option) io" where
  "check_version env path expectedMtime expectedSha rt =
     (if expectedMtime = [] \<and> expectedSha = [] then return_io None
      else
        bind_io (attempt (stat (file_of path))) (\<lambda>info.
        case info of
          None \<Rightarrow> return_io (Some (Stat_failed path))
        | Some n \<Rightarrow>
            bind_io
              (if expectedMtime = [] then return_io None
               else (case te_parse_time env expectedMtime of
                       None \<Rightarrow> return_io (Some (Bad_expected_mtime expectedMtime))
                     | Some want \<Rightarrow>
                         if i_mtime n \<noteq> want then return_io (Some (Modified_mtime path))
                         else if expectedSha = [] then
                           bind_io (same_mtime_changed env rt path want) (\<lambda>b.
                           return_io (if b then Some (Modified_same_mtime path) else None))
                         else return_io None))
              (\<lambda>bad. case bad of
                 Some e \<Rightarrow> return_io (Some e)
               | None \<Rightarrow>
                   if expectedSha = [] then return_io None
                   else bind_io (fileSHA256 env path) (\<lambda>c.
                        return_io (case c of
                            None \<Rightarrow> Some (Stat_failed path)
                          | Some cur \<Rightarrow> if cur = expectedSha then None else Some (Modified_content path))))))"

definition since_read_changed :: "tool_env \<Rightarrow> read_tracker \<Rightarrow> string \<Rightarrow> (string, bool) io" where
  "since_read_changed env rt path =
     (case recorded (te_key env) rt path of
        None \<Rightarrow> return_io False
      | Some e \<Rightarrow>
          bind_io (attempt (stat (file_of path))) (\<lambda>info.
          case info of
            None \<Rightarrow> return_io False
          | Some n \<Rightarrow>
              if rd_mtime e < i_mtime n then return_io True
              else if rd_sha e = [] then return_io False
              else bind_io (fileSHA256 env path) (\<lambda>c.
                   return_io (case c of None \<Rightarrow> False | Some cur \<Rightarrow> cur \<noteq> rd_sha e))))"

section \<open>\<open>write_file\<close>\<close>

record write_args =
  wa_path :: string
  wa_content :: string
  wa_createDirs :: bool
  wa_dirtyOk :: bool
  wa_failOnNewErrors :: bool
  wa_expectedMtime :: string
  wa_expectedSha :: string
  wa_overwriteChanged :: bool

definition failOnNewErrorsPrecheck :: "string \<Rightarrow> (string, tool_error option) io" where
  "failOnNewErrorsPrecheck path =
     bind_io (attempt (stat_entry (file_of path))) (\<lambda>info.
     return_io (case info of
         Some (Some n) \<Rightarrow> if maxUndoSnapshotBytes < int (length (i_data n)) then Some (Too_large path) else None
       | _ \<Rightarrow> None))"

text \<open>A guard refuses, or the next one is asked.\<close>

definition or_else :: "(string, tool_error option) io \<Rightarrow> (string, tool_error option) io \<Rightarrow> (string, tool_error option) io" where
  "or_else g k = bind_io g (\<lambda>r. case r of Some e \<Rightarrow> return_io (Some e) | None \<Rightarrow> k)"

definition writeFilePreconditions :: "tool_env \<Rightarrow> session \<Rightarrow> string \<Rightarrow> write_args \<Rightarrow> (string, tool_error option) io" where
  "writeFilePreconditions env se path a =
     or_else (bind_io (attempt (stat_entry (file_of path))) (\<lambda>info.
              return_io (if info = Some None then Some (Is_directory path) else None)))
     (or_else (if wa_failOnNewErrors a then failOnNewErrorsPrecheck path else return_io None)
     (or_else (return_io (if \<not> wa_dirtyOk a \<and> blocks_write env se path then Some (Has_uncommitted path) else None))
     (or_else (bind_io (check_version env path (wa_expectedMtime a) (wa_expectedSha a) (se_reads se)) (\<lambda>g.
               return_io (map_option Guarded g)))
     (or_else (if wa_expectedMtime a = [] \<and> wa_expectedSha a = [] \<and> \<not> wa_overwriteChanged a then
                 bind_io (since_read_changed env (se_reads se) path) (\<lambda>b.
                 return_io (if b then Some (Changed_since_read path) else None))
               else return_io None)
     (if \<not> wa_createDirs a then
        bind_io (attempt (stat_entry (file_of (path_dir path)))) (\<lambda>info.
        return_io (if info = None then Some (No_parent path) else None))
      else return_io None)))))"

text \<open>The content before the write, and whether it can be restored.\<close>

definition writeFileCapture :: "tool_env \<Rightarrow> session \<Rightarrow> string \<Rightarrow> bool \<Rightarrow> bool \<Rightarrow> (string, string \<times> bool) io" where
  "writeFileCapture env se path isNew wantRollback =
     (let wantUndo = (se_undo se \<noteq> None \<or> wantRollback) in
      if isNew then return_io ([], wantUndo)
      else if \<not> te_showDiff env \<and> \<not> wantUndo then return_io ([], False)
      else bind_io (attempt (read_file (file_of path))) (\<lambda>r.
           return_io (case r of
               None \<Rightarrow> ([], False)
             | Some b \<Rightarrow> if wantUndo \<and> int (length b) \<le> maxUndoSnapshotBytes then (b, True) else ([], False))))"

definition default_perm :: "32 word" where
  "default_perm = 420"

definition perm_or_default :: "string inode option \<Rightarrow> 32 word" where
  "perm_or_default info = (case info of Some n \<Rightarrow> if i_mode n \<noteq> 0 then i_mode n else default_perm | None \<Rightarrow> default_perm)"

definition written_version :: "tool_env \<Rightarrow> string \<Rightarrow> write_result \<Rightarrow> (int \<times> string) option" where
  "written_version env data res = Some (written_mtime res, te_sha env data)"

definition revertWrite :: "tool_env \<Rightarrow> string \<Rightarrow> string \<Rightarrow> bool \<Rightarrow> string \<Rightarrow> session \<Rightarrow> (string, tool_error option \<times> session) io" where
  "revertWrite env path before existedBefore wrote se =
     bind_io (outcome (read_file (file_of path))) (\<lambda>cur.
     case cur of
       Inl e \<Rightarrow> return_io (if e = Not_exist \<and> \<not> existedBefore then None else Some (Unreadable path), se)
     | Inr c \<Rightarrow>
         if te_sha env c \<noteq> te_sha env wrote then return_io (Some (Diverged path), se)
         else if \<not> existedBefore then
           bind_io (outcome (remove (file_of path))) (\<lambda>r.
           return_io (case r of
               Inr _ \<Rightarrow> None
             | Inl e \<Rightarrow> if e = Not_exist then None else Some (Remove_failed path), se))
         else
           bind_io (attempt (stat (file_of path))) (\<lambda>info.
           bind_io (attempt (safeWrite (file_of path) before (perm_or_default info))) (\<lambda>w.
           return_io (case w of
               None \<Rightarrow> (Some (Restore_failed path), se)
             | Some res \<Rightarrow> (None, recordWritten env path (written_version env before res) se)))))"

definition rollbackNewErrors :: "tool_env \<Rightarrow> string \<Rightarrow> string \<Rightarrow> bool \<Rightarrow> string \<Rightarrow> 'a tool" where
  "rollbackNewErrors env path before existedBefore wrote se =
     bind_io (revertWrite env path before existedBefore wrote se) (\<lambda>(r, se').
     return_io (case r of
         Some e \<Rightarrow> (Inl (Not_rolled_back e), se')
       | None \<Rightarrow> (Inl (Rolled_back path), takeUndo env path se')))"

definition writeFile :: "tool_env \<Rightarrow> write_args \<Rightarrow> unit tool" where
  "writeFile env a se =
     (if \<not> te_allow env 0 then refuse Rate_limited se
      else if wa_path a = [] then refuse Bad_arguments se
      else
        (case admit_path env (wa_path a) of
           Inl e \<Rightarrow> refuse e se
         | Inr path \<Rightarrow>
             bind_io (writeFilePreconditions env se path a) (\<lambda>g.
             case g of
               Some e \<Rightarrow> refuse e se
             | None \<Rightarrow>
                 bind_io (is_not_exist (stat_entry (file_of path))) (\<lambda>isNew.
                 bind_io (writeFileCapture env se path isNew (wa_failOnNewErrors a)) (\<lambda>(before, undoOK).
                 if wa_failOnNewErrors a \<and> \<not> isNew \<and> \<not> undoOK then refuse (No_snapshot path) se
                 else
                   bind_io (safeWrite (file_of path) (wa_content a) default_perm) (\<lambda>res.
                   let se1 = recordWritten env path (written_version env (wa_content a) res) se;
                       se2 = (if undoOK then recordUndo env path before (wa_content a) (\<not> isNew) ''write_file'' se1 else se1)
                   in
                   if wa_failOnNewErrors a \<and> te_newErrors env path before (wa_content a)
                   then rollbackNewErrors env path before (\<not> isNew) (wa_content a) se2
                   else return_io (Inr (), se2)))))))"

section \<open>\<open>undo_edit\<close>\<close>

definition checkUndoSafe :: "tool_env \<Rightarrow> string \<Rightarrow> undo_snapshot \<Rightarrow> bool \<Rightarrow> (string, tool_error option) io" where
  "checkUndoSafe env path snap force =
     (if force then return_io None
      else bind_io (outcome (read_file (file_of path))) (\<lambda>r.
           return_io (case r of
               Inl e \<Rightarrow> Some (if e = Not_exist then No_longer_exists path else Unreadable path)
             | Inr c \<Rightarrow> if te_sha env c \<noteq> u_afterSHA snap then Some (Diverged path) else None)))"

definition applyUndo :: "tool_env \<Rightarrow> string \<Rightarrow> undo_snapshot \<Rightarrow> unit tool" where
  "applyUndo env path snap se =
     (if \<not> u_existedBefore snap then
        bind_io (outcome (remove (file_of path))) (\<lambda>r.
        case r of
          Inl e \<Rightarrow> if e = Not_exist then return_io (Inr (), se) else refuse (Remove_failed path) se
        | Inr _ \<Rightarrow> return_io (Inr (), se))
      else
        bind_io (attempt (stat (file_of path))) (\<lambda>info.
        bind_io (safeWrite (file_of path) (u_before snap) (perm_or_default info)) (\<lambda>res.
        return_io (Inr (), recordWritten env path (written_version env (u_before snap) res) se))))"

definition undoEdit :: "tool_env \<Rightarrow> string \<Rightarrow> bool \<Rightarrow> unit tool" where
  "undoEdit env p force se =
     (if p = [] then refuse Bad_arguments se
      else if te_contested env then refuse Contested_pin se
      else
        (case admit_path env p of
           Inl e \<Rightarrow> refuse e se
         | Inr path \<Rightarrow>
             (case se_undo se of
                None \<Rightarrow> refuse (Nothing_to_undo path) se
              | Some u \<Rightarrow>
                  (case undo_peek (te_key env) u path of
                     None \<Rightarrow> refuse (Nothing_to_undo path) se
                   | Some snap \<Rightarrow>
                       bind_io (checkUndoSafe env path snap force) (\<lambda>g.
                       case g of
                         Some e \<Rightarrow> refuse e se
                       | None \<Rightarrow>
                           bind_io (applyUndo env path snap se) (\<lambda>(r, se').
                           case r of
                             Inl e \<Rightarrow> return_io (Inl e, se')
                           | Inr _ \<Rightarrow> return_io (Inr (), takeUndo env path se')))))))"

section \<open>\<open>copy_file\<close> and \<open>rename_file\<close>\<close>

record move_args =
  ma_from :: string
  ma_to :: string
  ma_overwrite :: bool
  ma_dirtyOk :: bool

definition parse_move :: "move_args \<Rightarrow> tool_error option" where
  "parse_move a =
     (if ma_from a = [] \<or> ma_to a = [] then Some Bad_arguments
      else if uriToPath (ma_from a) False = uriToPath (ma_to a) False then Some Same_path
      else None)"

text \<open>Both paths resolved, told apart by \<open>same\<close>, and admitted.\<close>

definition resolve_pair :: "tool_env \<Rightarrow> (string \<Rightarrow> string) \<Rightarrow> move_args \<Rightarrow> tool_error + string \<times> string" where
  "resolve_pair env same a =
     (case te_resolve env (ma_from a) of
        Inl e \<Rightarrow> Inl (Outside e)
      | Inr from_path \<Rightarrow>
          (case te_resolve env (ma_to a) of
             Inl e \<Rightarrow> Inl (Outside e)
           | Inr to_path \<Rightarrow>
               if same from_path = same to_path then Inl Same_path
               else
                 (case te_check env from_path of
                    Some e \<Rightarrow> Inl (Outside e)
                  | None \<Rightarrow>
                      (case te_check env to_path of
                         Some e \<Rightarrow> Inl (Outside e)
                       | None \<Rightarrow> Inr (from_path, to_path)))))"

definition move_source :: "tool_env \<Rightarrow> session \<Rightarrow> string \<Rightarrow> string \<Rightarrow> move_args \<Rightarrow> (string, tool_error + string inode) io" where
  "move_source env se from_path to_path a =
     bind_io (attempt (stat_entry (file_of from_path))) (\<lambda>info.
     case info of
       None \<Rightarrow> return_io (Inl (Not_found from_path))
     | Some None \<Rightarrow> return_io (Inl (Is_directory from_path))
     | Some (Some n) \<Rightarrow>
         if \<not> ma_dirtyOk a \<and> blocks_move env se from_path then return_io (Inl (Has_uncommitted from_path))
         else if ma_overwrite a then return_io (Inr n)
         else
           bind_io (attempt (stat_entry (file_of to_path))) (\<lambda>t.
           return_io (if t \<noteq> None then Inl (Already_exists to_path) else Inr n)))"

definition copyFile :: "tool_env \<Rightarrow> move_args \<Rightarrow> unit tool" where
  "copyFile env a se =
     (if \<not> te_allow env 0 then refuse Rate_limited se
      else
        (case parse_move a of
           Some e \<Rightarrow> refuse e se
         | None \<Rightarrow>
             (case resolve_pair env (te_key env) a of
                Inl e \<Rightarrow> refuse e se
              | Inr (from_path, to_path) \<Rightarrow>
                  bind_io (move_source env se from_path to_path a) (\<lambda>r.
                  case r of
                    Inl e \<Rightarrow> refuse e se
                  | Inr n \<Rightarrow>
                      bind_io (mkdir_all (file_of (path_dir to_path))) (\<lambda>_.
                      bind_io (read_file (file_of from_path)) (\<lambda>data.
                      bind_io (safeWrite (file_of to_path) data (i_mode n)) (\<lambda>res.
                      return_io (Inr (), recordWritten env to_path (written_version env data res) se))))))))"

text \<open>\<open>readSnapshot\<close> of the source; the version is unknown where it fails.\<close>

definition source_version :: "tool_env \<Rightarrow> string \<Rightarrow> (string, (int \<times> string) option) io" where
  "source_version env path =
     attempt (bind_io (stat (file_of path)) (\<lambda>n.
              bind_io (read_file (file_of path)) (\<lambda>c. return_io (i_mtime n, te_sha env c))))"

definition sameFileEntry :: "string \<Rightarrow> string \<Rightarrow> (string, bool) io" where
  "sameFileEntry from_path to_path =
     bind_io (attempt (lstat_inode (file_of from_path))) (\<lambda>f.
     if f = None then return_io False
     else bind_io (attempt (lstat_inode (file_of to_path))) (\<lambda>t. return_io (t = f)))"

definition renameFile :: "tool_env \<Rightarrow> move_args \<Rightarrow> unit tool" where
  "renameFile env a se =
     (if \<not> te_allow env 0 then refuse Rate_limited se
      else
        (case parse_move a of
           Some e \<Rightarrow> refuse e se
         | None \<Rightarrow>
             (case resolve_pair env (te_canonical env) a of
                Inl e \<Rightarrow> refuse e se
              | Inr (from_path, to_path) \<Rightarrow>
                  bind_io (move_source env se from_path to_path a) (\<lambda>r.
                  case r of
                    Inl e \<Rightarrow> refuse e se
                  | Inr _ \<Rightarrow>
                      bind_io (mkdirAllSynced (file_of (path_dir to_path))) (\<lambda>_.
                      bind_io (sameFileEntry from_path to_path) (\<lambda>same.
                      if same \<and> te_fold env from_path \<noteq> te_fold env to_path then refuse (Hard_links from_path to_path) se
                      else
                        bind_io (source_version env from_path) (\<lambda>moved.
                        bind_io (rename (file_of from_path) (file_of to_path)) (\<lambda>_.
                        bind_io (syncDirBestEffort (file_of (path_dir from_path))) (\<lambda>_.
                        bind_io (if path_dir to_path \<noteq> path_dir from_path
                                 then syncDirBestEffort (file_of (path_dir to_path)) else return_io ()) (\<lambda>_.
                        return_io (Inr (), recordWritten env to_path moved se)))))))))))"

section \<open>\<open>delete_file\<close>\<close>

record delete_args =
  da_path :: string
  da_paths :: "string list"
  da_dirtyOk :: bool
  da_allowDir :: bool

record delete_target =
  dt_path :: string
  dt_isDir :: bool

definition maxDeletePaths :: nat where
  "maxDeletePaths = 100"

definition deleteRequestedPaths :: "delete_args \<Rightarrow> string list option" where
  "deleteRequestedPaths a =
     (if da_path a \<noteq> [] \<and> da_paths a \<noteq> [] then None
      else if da_path a \<noteq> [] then Some [da_path a]
      else if da_paths a = [] then None
      else if maxDeletePaths < length (da_paths a) then None
      else Some (da_paths a))"

fun resolve_deletes :: "tool_env \<Rightarrow> string list \<Rightarrow> string list \<Rightarrow> tool_error + string list" where
  "resolve_deletes env seen [] = Inr []"
| "resolve_deletes env seen (p # ps) =
     (if p = [] then Inl Bad_arguments
      else
        (case admit_path env p of
           Inl e \<Rightarrow> Inl e
         | Inr path \<Rightarrow>
             if te_key env path \<in> set seen then resolve_deletes env seen ps
             else (case resolve_deletes env (te_key env path # seen) ps of
                     Inl e \<Rightarrow> Inl e
                   | Inr out \<Rightarrow> Inr (path # out))))"

definition resolveDeletePaths :: "tool_env \<Rightarrow> string list \<Rightarrow> tool_error + string list" where
  "resolveDeletePaths env requested = resolve_deletes env [] requested"

fun classify_each :: "tool_env \<Rightarrow> session \<Rightarrow> delete_args \<Rightarrow> string list \<Rightarrow> (string, tool_error + delete_target list) io" where
  "classify_each env se a [] = return_io (Inr [])"
| "classify_each env se a (path # ps) =
     bind_io (attempt (stat_entry (file_of path))) (\<lambda>info.
     case info of
       None \<Rightarrow> return_io (Inl (Not_found path))
     | Some i \<Rightarrow>
         let isDir = (i = None) in
         if isDir \<and> \<not> da_allowDir a then return_io (Inl (Is_directory path))
         else if \<not> isDir \<and> \<not> da_dirtyOk a \<and> blocks_write env se path then return_io (Inl (Has_uncommitted path))
         else
           bind_io (classify_each env se a ps) (\<lambda>r.
           return_io (case r of Inl e \<Rightarrow> Inl e | Inr ts \<Rightarrow> Inr (\<lparr>dt_path = path, dt_isDir = isDir\<rparr> # ts))))"

text \<open>The stable sort: files in the order given, then directories, the deepest first.\<close>

definition delete_order :: "delete_target list \<Rightarrow> delete_target list" where
  "delete_order ts =
     filter (\<lambda>t. \<not> dt_isDir t) ts @
     sort_key (\<lambda>t. - int (length (filter (\<lambda>c. c = CHR ''/'') (dt_path t)))) (filter dt_isDir ts)"

definition classifyDeleteTargets ::
  "tool_env \<Rightarrow> session \<Rightarrow> delete_args \<Rightarrow> string list \<Rightarrow> (string, tool_error + delete_target list) io" where
  "classifyDeleteTargets env se a ps =
     bind_io (classify_each env se a ps) (\<lambda>r.
     return_io (case r of Inl e \<Rightarrow> Inl e | Inr ts \<Rightarrow> Inr (delete_order ts)))"

definition removeTarget :: "delete_target \<Rightarrow> (string, unit) io" where
  "removeTarget t =
     bind_io (if dt_isDir t then remove_dir (file_of (dt_path t)) else remove (file_of (dt_path t))) (\<lambda>_.
     syncDirBestEffort (file_of (path_dir (dt_path t))))"

fun remove_targets :: "string list \<Rightarrow> delete_target list \<Rightarrow> (string, tool_error + string list) io" where
  "remove_targets removed [] = return_io (Inr removed)"
| "remove_targets removed (t # ts) =
     bind_io (attempt (removeTarget t)) (\<lambda>r.
     if r = None then return_io (Inl (Stopped removed))
     else remove_targets (removed @ [dt_path t]) ts)"

definition deleteFile :: "tool_env \<Rightarrow> delete_args \<Rightarrow> string list tool" where
  "deleteFile env a se =
     (case deleteRequestedPaths a of
        None \<Rightarrow> refuse Bad_arguments se
      | Some requested \<Rightarrow>
          if \<not> list_all (te_allow env) [0..<length requested] then refuse Rate_limited se
          else
            (case resolveDeletePaths env requested of
               Inl e \<Rightarrow> refuse e se
             | Inr resolved \<Rightarrow>
                 bind_io (classifyDeleteTargets env se a resolved) (\<lambda>r.
                 case r of
                   Inl e \<Rightarrow> refuse e se
                 | Inr targets \<Rightarrow>
                     bind_io (remove_targets [] targets) (\<lambda>r. return_io (r, se)))))"

end
