(* ===== verification/Plumb_FileTools_Correct.thy ===== *)
theory Plumb_FileTools_Correct
  imports Plumb_FileTools Plumb_View
begin

text \<open>
  What the file tools leave of the contents of files, in the logic of \<open>Plumb_View\<close>: on every
  branch, whichever calls fail and wherever a crash comes.
\<close>

section \<open>Calls that look\<close>

lemma vt_stat_entry: "unmoved h E v (stat_entry p)"
  unfolding stat_entry_def by (rule vt_unchanged) simp_all

lemma vt_lstat_inode: "unmoved h E v (lstat_inode p)"
  unfolding lstat_inode_def by (rule vt_unchanged) simp_all

lemma vt_read_any: "unmoved h E v (read_file p)"
  unfolding read_file_def by (rule vt_unchanged) simp_all

lemma vt_attempt: "unmoved h E v m \<Longrightarrow> unmoved h E v (attempt m)"
  by (rule triple_attempt)

lemma vt_bind: "unmoved h E v m \<Longrightarrow> (\<And>a. unmoved h E v (k a)) \<Longrightarrow> unmoved h E v (bind_io m k)"
  by (rule triple_bind)

lemma vt_return: "unmoved h E v (return_io a)"
  by (rule triple_return)

lemma vt_or_else: "unmoved h E v g \<Longrightarrow> unmoved h E v k \<Longrightarrow> unmoved h E v (or_else g k)"
  unfolding or_else_def by (rule vt_bind) (auto intro: vt_return split: option.split)

lemmas vt_looks = vt_bind vt_return vt_attempt vt_stat_entry vt_stat vt_lstat_inode vt_read_any

lemma vt_fileSHA256: "unmoved h E v (fileSHA256 env p)"
  unfolding fileSHA256_def by (intro vt_looks)

lemma vt_same_mtime: "unmoved h E v (same_mtime_changed env rt p w)"
  unfolding same_mtime_changed_def
  by (auto intro!: vt_looks vt_fileSHA256 split: option.split)

lemma vt_check_version: "unmoved h E v (check_version env p m c rt)"
  unfolding check_version_def
  by (auto intro!: vt_looks vt_fileSHA256 vt_same_mtime split: option.split)

lemma vt_since_read: "unmoved h E v (since_read_changed env rt p)"
  unfolding since_read_changed_def
  by (auto intro!: vt_looks vt_fileSHA256 split: option.split)

lemma vt_precheck: "unmoved h E v (failOnNewErrorsPrecheck p)"
  unfolding failOnNewErrorsPrecheck_def by (intro vt_looks)

lemma vt_preconditions: "unmoved h E v (writeFilePreconditions env se p a)"
  unfolding writeFilePreconditions_def
  by (auto intro!: vt_or_else vt_looks vt_precheck vt_check_version vt_since_read)

lemma vt_is_new:
  assumes "p \<notin> junk h"
  shows "triple h (sees h E v) (is_not_exist (stat_entry p)) (\<lambda>b s. (b \<longrightarrow> v p = None) \<and> sees h E v s) (sees h E v) (sees h E v)"
  using sees_gone [OF _ assms] sees_there [OF _ assms]
  by (auto simp: triple_def is_not_exist_def handle_def bind_io_def return_io_def stat_entry_def syscall_def reads_def
      split: option.splits)

definition told :: "('a \<Rightarrow> bool) \<Rightarrow> bool \<Rightarrow> io_error + 'a \<Rightarrow> bool" where
  "told P gone r = (case r of Inr a \<Rightarrow> P a | Inl e \<Rightarrow> e = Not_exist \<longrightarrow> gone)"

lemma vt_outcome_read:
  assumes "p \<notin> junk h"
  shows "triple h (sees h E v) (outcome (read_file p))
    (\<lambda>r s. told (\<lambda>c. v p = Some c) (v p = None) r \<and> sees h E v s) (\<lambda>_. False) (sees h E v)"
  using sees_gone [OF _ assms] sees_there [OF _ assms]
  by (auto simp: triple_def outcome_def handle_def bind_io_def return_io_def read_file_def syscall_def reads_def told_def
      split: option.splits)

lemma vt_outcome_remove:
  assumes "p \<notin> junk h"
  shows "triple h (sees h E v) (outcome (remove p))
    (\<lambda>r s. case r of Inr _ \<Rightarrow> sees h E (v(p := None)) s
       | Inl e \<Rightarrow> (e = Not_exist \<longrightarrow> v p = None) \<and> sees h E v s) (\<lambda>_. False) (sees h E v)"
  using sees_gone [OF _ assms] sees_remove [of h E v "bump _" p]
  by (auto simp: triple_def outcome_def handle_def bind_io_def return_io_def remove_def syscall_def reads_def
      split: option.splits)

section \<open>\<open>write_file\<close>\<close>

lemma vt_capture:
  assumes "p = file_of path" "p \<notin> junk h"
  shows "triple h (\<lambda>s. (isNew \<longrightarrow> v p = None) \<and> sees h E v s) (writeFileCapture env se path isNew want)
    (\<lambda>(before, ok) s. (ok \<or> isNew \<longrightarrow> v p = (if isNew then None else Some before)) \<and> sees h E v s) (sees h E v) (sees h E v)"
proof (rule triple_pure)
  assume new: "isNew \<longrightarrow> v p = None"
  have read: "triple h (sees h E v) (attempt (read_file p)) (\<lambda>r s. (\<forall>b. r = Some b \<longrightarrow> v p = Some b) \<and> sees h E v s)
      (sees h E v) (sees h E v)"
    by (rule triple_attempt, rule triple_weaken [OF vt_read_file [OF assms(2)]]) auto
  show "triple h (sees h E v) (writeFileCapture env se path isNew want)
      (\<lambda>(before, ok) s. (ok \<or> isNew \<longrightarrow> v p = (if isNew then None else Some before)) \<and> sees h E v s) (sees h E v) (sees h E v)"
    unfolding writeFileCapture_def Let_def assms(1) [symmetric]
    by (intro triple_if triple_return triple_bind [OF read]) (auto simp: new split: option.split)
qed

text \<open>
  The revert of a write that put \<open>c\<close> over what was before: it restores that, or says that the
  file still has \<open>c\<close>.
\<close>

lemma vt_revert:
  assumes "p = file_of path" "p \<notin> junk h" "good_names h" "v p = (if existed then Some before else None)"
  shows "triple h (sees h E (v(p \<mapsto> c))) (revertWrite env path before existed wrote se)
    (\<lambda>(r, se'). if r = None then sees h E v else sees h E (v(p \<mapsto> c))) (\<lambda>_. False) (either h E v p c)"
proof -
  let ?w = "v(p \<mapsto> c)"
  have undone: "?w(p := v p) = v" by auto
  have rm: "triple h (sees h E ?w) (outcome (remove p))
      (\<lambda>r. if (\<exists>u. r = Inr u) \<or> r = Inl Not_exist then sees h E v else sees h E ?w) (\<lambda>_. False) (either h E v p c)" if "\<not> existed"
  proof -
    have "?w(p := None) = v" using assms(4) that undone by simp
    then show ?thesis
      by (intro triple_weaken [OF vt_outcome_remove [OF assms(2), of E ?w]]) (auto split: sum.splits)
  qed
  have sw: "triple h (sees h E ?w) (attempt (safeWrite p before m))
      (\<lambda>r. if r = None then sees h E ?w else sees h E v) (\<lambda>_. False) (either h E v p c)" if existed for m
  proof (rule triple_attempt, rule triple_weaken [OF vt_safeWrite [OF assms(2,3), where v = ?w]])
    have v: "?w(p \<mapsto> before) = v" using assms(4) that undone by simp
    then show "sees h E (?w(p \<mapsto> before)) s \<Longrightarrow> (if Some a = None then sees h E ?w else sees h E v) s" for a :: write_result and s by simp
    show "either h E ?w p before s \<Longrightarrow> either h E v p c s" for s using v by (auto simp: either_def)
  qed auto
  have st: "triple h (sees h E ?w) (attempt (stat p)) (\<lambda>_. sees h E ?w) (\<lambda>_. False) (either h E v p c)"
    by (rule triple_attempt, rule triple_weaken [OF vt_stat]) auto
  have rd: "triple h (sees h E ?w) (outcome (read_file p))
      (\<lambda>r s. r \<noteq> Inl Not_exist \<and> sees h E ?w s) (\<lambda>_. False) (either h E v p c)"
    by (rule triple_weaken [OF vt_outcome_read [OF assms(2)]]) (auto simp: told_def)
  show ?thesis
    unfolding revertWrite_def assms(1) [symmetric]
  proof (rule triple_bind [OF rd], rule triple_pure, goal_cases)
    case (1 cur)
    show ?case
    proof (cases cur)
      case (Inl e)
      with 1 show ?thesis by (auto intro: triple_return)
    next
      case (Inr x)
      show ?thesis
        unfolding Inr sum.case
      proof (intro triple_if triple_return)
        assume "\<not> existed"
        show "triple h (sees h E ?w) (bind_io (outcome (remove p))
            (\<lambda>r. return_io (case r of Inl e \<Rightarrow> if e = Not_exist then None else Some (Remove_failed path) | Inr _ \<Rightarrow> None, se)))
          (\<lambda>(r, se'). if r = None then sees h E v else sees h E ?w) (\<lambda>_. False) (either h E v p c)"
          by (rule triple_bind [OF rm [OF \<open>\<not> existed\<close>]], rule triple_return) (auto split: sum.splits if_splits)
      next
        assume "\<not> \<not> existed"
        then have ex: existed by simp
        show "triple h (sees h E ?w)
          (bind_io (attempt (stat p)) (\<lambda>info. bind_io (attempt (safeWrite p before (perm_or_default info)))
            (\<lambda>w. return_io (case w of None \<Rightarrow> (Some (Restore_failed path), se)
               | Some res \<Rightarrow> (None, recordWritten env path (written_version env before res) se)))))
          (\<lambda>(r, se'). if r = None then sees h E v else sees h E ?w) (\<lambda>_. False) (either h E v p c)"
          by (rule triple_bind [OF st], rule triple_bind [OF sw [OF ex]], rule triple_return) (auto split: option.splits)
      qed auto
    qed
  qed
qed

definition armed :: "tool_env \<Rightarrow> string \<Rightarrow> (path \<Rightarrow> string option) \<Rightarrow> string \<Rightarrow> session \<Rightarrow> session \<Rightarrow> bool" where
  "armed env path v c se se' =
     (\<exists>w before existed ok.
        (ok \<longrightarrow> v (file_of path) = (if existed then Some before else None)) \<and>
        se' = (if ok then recordUndo env path before c existed ''write_file'' (recordWritten env path w se)
               else recordWritten env path w se))"

definition write_ends ::
  "string host \<Rightarrow> path set \<Rightarrow> (path \<Rightarrow> string option) \<Rightarrow> tool_env \<Rightarrow> string \<Rightarrow> string \<Rightarrow> session \<Rightarrow>
     (tool_error + unit) \<times> session \<Rightarrow> string os \<Rightarrow> bool" where
  "write_ends h E v env path c se x s =
     (case x of
        (Inr _, se') \<Rightarrow> armed env path v c se se' \<and> sees h E (v(file_of path \<mapsto> c)) s
      | (Inl e, _) \<Rightarrow> sees h E v s \<or> (\<exists>d. e = Not_rolled_back d) \<and> sees h E (v(file_of path \<mapsto> c)) s)"

lemma vt_refuse: "triple h (sees h E v) (refuse e se) (write_ends h E v env path c se0) F C"
  unfolding refuse_def by (rule triple_return) (simp add: write_ends_def)

lemma vt_rollback:
  assumes "p = file_of path" "p \<notin> junk h" "good_names h" "v p = (if existed then Some before else None)"
  shows "triple h (sees h E (v(p \<mapsto> c))) (rollbackNewErrors env path before existed wrote se)
    (write_ends h E v env path c se0) (\<lambda>_. False) (either h E v p c)"
  unfolding rollbackNewErrors_def
  by (rule triple_bind [OF vt_revert [of p path h v existed before, OF assms]], clarify, rule triple_return)
    (auto simp: write_ends_def assms(1) [symmetric] split: option.splits if_splits)

lemma vt_writeFile_body:
  assumes "p = file_of path" "p \<notin> junk h" "good_names h"
  shows "triple h (sees h E v)
    (bind_io (is_not_exist (stat_entry p)) (\<lambda>isNew.
     bind_io (writeFileCapture env se path isNew want) (\<lambda>(before, undoOK).
     if want \<and> \<not> isNew \<and> \<not> undoOK then refuse (No_snapshot path) se
     else
       bind_io (safeWrite p c default_perm) (\<lambda>res.
       let se1 = recordWritten env path (written_version env c res) se;
           se2 = (if undoOK then recordUndo env path before c (\<not> isNew) ''write_file'' se1 else se1)
       in
       if want \<and> te_newErrors env path before c
       then rollbackNewErrors env path before (\<not> isNew) c se2
       else return_io (Inr (), se2)))))
    (write_ends h E v env path c se) (sees h E v) (either h E v p c)"
proof (rule vt_step [OF vt_is_new [OF assms(2)]], rule vt_step [OF vt_capture [OF assms(1,2)]], goal_cases)
  case (1 isNew x)
  obtain before ok where x: "x = (before, ok)" by (cases x)
  show ?case
    unfolding x prod.case
  proof (rule triple_pure, rule triple_if, rule vt_refuse, rule triple_bind [OF vt_safeWrite [OF assms(2,3)]])
    fix res
    assume ok: "ok \<or> isNew \<longrightarrow> v p = (if isNew then None else Some before)" and go: "\<not> (want \<and> \<not> isNew \<and> \<not> ok)"
    have new: "v p = (if \<not> isNew then Some before else None)" if want
      using ok go that by auto
    show "triple h (sees h E (v(p \<mapsto> c)))
       (let se1 = recordWritten env path (written_version env c res) se;
            se2 = (if ok then recordUndo env path before c (\<not> isNew) ''write_file'' se1 else se1)
        in if want \<and> te_newErrors env path before c then rollbackNewErrors env path before (\<not> isNew) c se2
           else return_io (Inr (), se2))
       (write_ends h E v env path c se) (sees h E v) (either h E v p c)"
      unfolding Let_def
    proof (rule triple_if)
      assume "want \<and> te_newErrors env path before c"
      then show "triple h (sees h E (v(p \<mapsto> c)))
         (rollbackNewErrors env path before (\<not> isNew) c
           (if ok then recordUndo env path before c (\<not> isNew) ''write_file'' (recordWritten env path (written_version env c res) se)
            else recordWritten env path (written_version env c res) se))
         (write_ends h E v env path c se) (sees h E v) (either h E v p c)"
        by (intro triple_weaken [OF vt_rollback [of p path h v "\<not> isNew" before, OF assms new]]) auto
    next
      have "armed env path v c se (if ok then recordUndo env path before c (\<not> isNew) ''write_file''
              (recordWritten env path (written_version env c res) se) else recordWritten env path (written_version env c res) se)"
        unfolding armed_def
        by (rule exI [of _ "written_version env c res"], rule exI [of _ before], rule exI [of _ "\<not> isNew"], rule exI [of _ ok])
          (use ok assms(1) in auto)
      then show "triple h (sees h E (v(p \<mapsto> c)))
         (return_io (Inr (), if ok then recordUndo env path before c (\<not> isNew) ''write_file''
              (recordWritten env path (written_version env c res) se) else recordWritten env path (written_version env c res) se))
         (write_ends h E v env path c se) (sees h E v) (either h E v p c)"
        by (intro triple_return) (simp add: write_ends_def assms(1))
    qed
  qed
qed

lemma vt_writeFile:
  assumes "admit_path env (wa_path a) = Inr path" "file_of path \<notin> junk h" "good_names h"
  shows "triple h (sees h E v) (writeFile env a se) (write_ends h E v env path (wa_content a) se)
    (sees h E v) (either h E v (file_of path) (wa_content a))"
  unfolding writeFile_def assms(1) sum.case
proof (intro triple_if vt_refuse, rule vt_step [OF vt_preconditions], goal_cases)
  case (1 g)
  show ?case
    by (cases g) (simp_all add: vt_refuse vt_writeFile_body [OF refl assms(2,3)])
qed

section \<open>\<open>undo_edit\<close>\<close>

definition undone :: "undo_snapshot \<Rightarrow> string option" where
  "undone snap = (if u_existedBefore snap then Some (u_before snap) else None)"

definition either_way :: "string host \<Rightarrow> path set \<Rightarrow> (path \<Rightarrow> string option) \<Rightarrow> path \<Rightarrow> string option \<Rightarrow> string os \<Rightarrow> bool" where
  "either_way h E v p x s = (sees h E v s \<or> sees h E (v(p := x)) s)"

lemma se_undo_written [simp]: "se_undo (recordWritten env path w se) = se_undo se"
  by (simp add: recordWritten_def Let_def split: option.split prod.split)

lemma vt_check_undo:
  assumes "p = file_of path" "p \<notin> junk h"
  shows "triple h (sees h E v) (checkUndoSafe env path snap force)
    (\<lambda>g s. (g = None \<and> \<not> force \<longrightarrow> (\<exists>c. v p = Some c \<and> te_sha env c = u_afterSHA snap)) \<and> sees h E v s)
    (\<lambda>_. False) (sees h E v)"
  unfolding checkUndoSafe_def assms(1) [symmetric]
  by (intro triple_if triple_return triple_bind [OF vt_outcome_read [OF assms(2)]])
    (auto simp: told_def split: sum.splits if_splits)

lemma vt_apply_undo:
  assumes "p = file_of path" "p \<notin> junk h" "good_names h"
  shows "triple h (sees h E v) (applyUndo env path snap se)
    (\<lambda>(r, se') s. se_undo se' = se_undo se \<and>
       (case r of Inr _ \<Rightarrow> sees h E (v(p := undone snap)) s | Inl _ \<Rightarrow> se' = se \<and> sees h E v s))
    (sees h E v) (either_way h E v p (undone snap))"
  unfolding applyUndo_def assms(1) [symmetric]
proof (rule triple_if)
  assume new: "\<not> u_existedBefore snap"
  have rm: "triple h (sees h E v) (outcome (remove p))
    (\<lambda>r s. case r of Inr _ \<Rightarrow> sees h E (v(p := None)) s | Inl e \<Rightarrow> (e = Not_exist \<longrightarrow> v p = None) \<and> sees h E v s)
    (sees h E v) (either_way h E v p (undone snap))"
    by (rule triple_weaken [OF vt_outcome_remove [OF assms(2)]]) (auto simp: either_way_def)
  show "triple h (sees h E v)
    (bind_io (outcome (remove p)) (\<lambda>r. case r of
        Inl e \<Rightarrow> if e = Not_exist then return_io (Inr (), se) else refuse (Remove_failed path) se
      | Inr _ \<Rightarrow> return_io (Inr (), se)))
    (\<lambda>(r, se') s. se_undo se' = se_undo se \<and>
       (case r of Inr _ \<Rightarrow> sees h E (v(p := undone snap)) s | Inl _ \<Rightarrow> se' = se \<and> sees h E v s))
    (sees h E v) (either_way h E v p (undone snap))"
  proof (rule triple_bind [OF rm], goal_cases)
    case (1 r)
    show ?case
    proof (cases r)
      case (Inl e)
      have "v(p := None) = v" if "v p = None" using that by auto
      then show ?thesis using new Inl
        by (auto intro!: triple_return simp: refuse_def undone_def)
    next
      case (Inr u)
      then show ?thesis using new by (auto intro!: triple_return simp: undone_def)
    qed
  qed
next
  assume "\<not> \<not> u_existedBefore snap"
  then have old: "u_existedBefore snap" "undone snap = Some (u_before snap)" by (simp_all add: undone_def)
  have st: "triple h (sees h E v) (attempt (stat p)) (\<lambda>_. sees h E v) (sees h E v) (either_way h E v p (undone snap))"
    by (rule triple_weaken [OF vt_attempt_stat]) (auto simp: either_way_def)
  have sw: "triple h (sees h E v) (safeWrite p (u_before snap) m) (\<lambda>_. sees h E (v(p := undone snap)))
      (sees h E v) (either_way h E v p (undone snap))" for m
    by (rule triple_weaken [OF vt_safeWrite [OF assms(2,3)]]) (auto simp: either_way_def either_def old)
  show "triple h (sees h E v)
    (bind_io (attempt (stat p)) (\<lambda>info. bind_io (safeWrite p (u_before snap) (perm_or_default info))
      (\<lambda>res. return_io (Inr (), recordWritten env path (written_version env (u_before snap) res) se))))
    (\<lambda>(r, se') s. se_undo se' = se_undo se \<and>
       (case r of Inr _ \<Rightarrow> sees h E (v(p := undone snap)) s | Inl _ \<Rightarrow> se' = se \<and> sees h E v s))
    (sees h E v) (either_way h E v p (undone snap))"
    by (rule triple_bind [OF st], rule triple_bind [OF sw], rule triple_return) simp
qed

definition undo_ends ::
  "string host \<Rightarrow> path set \<Rightarrow> (path \<Rightarrow> string option) \<Rightarrow> tool_env \<Rightarrow> bool \<Rightarrow> string \<Rightarrow> undo_snapshot \<Rightarrow> session \<Rightarrow>
     (tool_error + unit) \<times> session \<Rightarrow> string os \<Rightarrow> bool" where
  "undo_ends h E v env force path snap se x s =
     (case x of
        (Inr _, se') \<Rightarrow>
          (force \<or> (\<exists>c. v (file_of path) = Some c \<and> te_sha env c = u_afterSHA snap)) \<and>
          se_undo se' = map_option (\<lambda>u. snd (undo_take (te_key env) path u)) (se_undo se) \<and>
          sees h E (v(file_of path := undone snap)) s
      | (Inl _, se') \<Rightarrow> se' = se \<and> sees h E v s)"

lemma vt_undoEdit:
  assumes "q \<noteq> []" "\<not> te_contested env" "admit_path env q = Inr path" "se_undo se = Some u"
    and "undo_peek (te_key env) u path = Some snap" "file_of path \<notin> junk h" "good_names h"
  shows "triple h (sees h E v) (undoEdit env q force se) (undo_ends h E v env force path snap se)
    (sees h E v) (either_way h E v (file_of path) (undone snap))"
proof -
  have check: "triple h (sees h E v) (checkUndoSafe env path snap force)
    (\<lambda>g s. (g = None \<and> \<not> force \<longrightarrow> (\<exists>c. v (file_of path) = Some c \<and> te_sha env c = u_afterSHA snap)) \<and> sees h E v s)
    (sees h E v) (either_way h E v (file_of path) (undone snap))"
    by (rule triple_weaken [OF vt_check_undo [OF refl assms(6)]]) (auto simp: either_way_def)
  show ?thesis
    unfolding undoEdit_def using assms(1-5)
  proof (simp, intro triple_bind [OF check] triple_pure, goal_cases)
    case (1 g)
    note safe = 1
    show ?case
    proof (cases g)
      case (Some e)
      then show ?thesis by (auto intro!: triple_return simp: refuse_def undo_ends_def)
    next
      case None
      show ?thesis
        unfolding None option.case
      proof (rule triple_bind [OF vt_apply_undo [OF refl assms(6,7)]], goal_cases)
        case (1 x)
        obtain r se' where x: "x = (r, se')" by (cases x)
        show ?case
          using safe None unfolding x prod.case
          by (cases r) (auto intro!: triple_return simp: undo_ends_def takeUndo_def)
      qed
    qed
  qed
qed

text \<open>Where no call fails, the undo of what was written is not refused.\<close>

lemma vt_check_undo_sure:
  assumes "no_faults h" "p = file_of path" "p \<notin> junk h" "v p = Some c" "te_sha env c = u_afterSHA snap"
  shows "triple h (sees h E v) (checkUndoSafe env path snap force) (\<lambda>g s. g = None \<and> sees h E v s) (\<lambda>_. False) (sees h E v)"
  using assms(1,4,5)
  by (auto simp: triple_def checkUndoSafe_def assms(2) [symmetric] outcome_def handle_def bind_io_def return_io_def
      read_file_def syscall_def no_faults_def split: option.splits
      dest: sees_there [OF _ assms(3)] sees_gone [OF _ assms(3)])

lemma vt_apply_undo_sure:
  assumes "no_faults h" "p = file_of path" "p \<notin> junk h" "good_names h" "p \<noteq> []" "butlast p \<in> E" "tmp_dir h \<in> E" "v p = Some c"
  shows "triple h (sees h E v) (applyUndo env path snap se)
    (\<lambda>(r, se') s. r = Inr () \<and> se_undo se' = se_undo se \<and> sees h E (v(p := undone snap)) s)
    (\<lambda>_. False) (either_way h E v p (undone snap))"
  unfolding applyUndo_def assms(2) [symmetric]
proof (rule triple_if)
  assume new: "\<not> u_existedBefore snap"
  have rm: "triple h (sees h E v) (outcome (remove p)) (\<lambda>r s. r = Inr () \<and> sees h E (v(p := None)) s)
    (\<lambda>_. False) (either_way h E v p (undone snap))"
    using assms(1,8) sees_remove [of h E v "bump _" p]
    by (auto simp: triple_def outcome_def handle_def bind_io_def return_io_def remove_def syscall_def no_faults_def
        either_way_def split: option.splits dest: sees_gone [OF _ assms(3)])
  show "triple h (sees h E v)
    (bind_io (outcome (remove p)) (\<lambda>r. case r of
        Inl e \<Rightarrow> if e = Not_exist then return_io (Inr (), se) else refuse (Remove_failed path) se
      | Inr _ \<Rightarrow> return_io (Inr (), se)))
    (\<lambda>(r, se') s. r = Inr () \<and> se_undo se' = se_undo se \<and> sees h E (v(p := undone snap)) s)
    (\<lambda>_. False) (either_way h E v p (undone snap))"
    by (rule triple_bind [OF rm], rule triple_pure) (auto intro!: triple_return simp: undone_def new)
next
  assume "\<not> \<not> u_existedBefore snap"
  then have old: "undone snap = Some (u_before snap)" by (simp add: undone_def)
  have st: "triple h (sees h E v) (attempt (stat p)) (\<lambda>_. sees h E v) (\<lambda>_. False) (either_way h E v p (undone snap))"
    by (rule triple_attempt, rule triple_weaken [OF vt_stat]) (auto simp: either_way_def)
  have sw: "triple h (sees h E v) (safeWrite p (u_before snap) m) (\<lambda>_. sees h E (v(p := undone snap)))
      (\<lambda>_. False) (either_way h E v p (undone snap))" for m
    by (rule triple_weaken [OF vt_safeWrite_sure [OF assms(1,3-7)]]) (auto simp: either_way_def either_def old)
  show "triple h (sees h E v)
    (bind_io (attempt (stat p)) (\<lambda>info. bind_io (safeWrite p (u_before snap) (perm_or_default info))
      (\<lambda>res. return_io (Inr (), recordWritten env path (written_version env (u_before snap) res) se))))
    (\<lambda>(r, se') s. r = Inr () \<and> se_undo se' = se_undo se \<and> sees h E (v(p := undone snap)) s)
    (\<lambda>_. False) (either_way h E v p (undone snap))"
    by (rule triple_bind [OF st], rule triple_bind [OF sw], rule triple_return) simp
qed

lemma vt_undoEdit_sure:
  assumes "q \<noteq> []" "\<not> te_contested env" "admit_path env q = Inr path" "se_undo se = Some u"
    and "undo_peek (te_key env) u path = Some snap" "file_of path \<notin> junk h" "good_names h"
    and "no_faults h" "file_of path \<noteq> []" "butlast (file_of path) \<in> E" "tmp_dir h \<in> E"
    and "v (file_of path) = Some c" "te_sha env c = u_afterSHA snap"
  shows "triple h (sees h E v) (undoEdit env q force se)
    (\<lambda>(r, se') s. r = Inr () \<and> se_undo se' = Some (snd (undo_take (te_key env) path u)) \<and>
       sees h E (v(file_of path := undone snap)) s)
    (\<lambda>_. False) (either_way h E v (file_of path) (undone snap))"
proof -
  have check: "triple h (sees h E v) (checkUndoSafe env path snap force) (\<lambda>g s. g = None \<and> sees h E v s)
    (\<lambda>_. False) (either_way h E v (file_of path) (undone snap))"
    by (rule triple_weaken [OF vt_check_undo_sure [of h "file_of path" path v c, OF assms(8) refl assms(6,12,13)]]) (auto simp: either_way_def)
  show ?thesis
    unfolding undoEdit_def using assms(1-5)
  proof (simp, intro triple_bind [OF check] triple_pure, simp, goal_cases)
    case 1
    show ?case
    proof (rule triple_bind [OF vt_apply_undo_sure [of h "file_of path" path E v c, OF assms(8) refl assms(6,7,9-12)]], goal_cases)
      case (1 x)
      obtain r se' where x: "x = (r, se')" by (cases x)
      show ?case
        unfolding x prod.case using assms(4)
        by (intro triple_pure) (auto intro!: triple_return simp: takeUndo_def)
    qed
  qed
qed

lemma undo_peek_record: "undo_peek key (undo_record key path snap u) path = Some (snap\<lparr>u_seq := u_next u + 1\<rparr>)"
  by (simp add: undo_peek_def undo_record_def Let_def update_conv')

lemma undo_peek_take: "undo_peek key (snd (undo_take key path u)) path = None"
  by (auto simp: undo_peek_def undo_take_def delete_conv' split: option.split)

section \<open>What a write is let over\<close>

definition permits :: "string host \<Rightarrow> path set \<Rightarrow> (path \<Rightarrow> string option) \<Rightarrow> (string, 'a option) io \<Rightarrow> bool \<Rightarrow> bool" where
  "permits h E v g A = triple h (sees h E v) g (\<lambda>r s. (r = None \<longrightarrow> A) \<and> sees h E v s) (sees h E v) (sees h E v)"

lemma permits_trivial: "unmoved h E v g \<Longrightarrow> permits h E v g True"
  unfolding permits_def by (erule triple_weaken) auto

lemma permits_or_else: "permits h E v g A \<Longrightarrow> permits h E v k B \<Longrightarrow> permits h E v (or_else g k) (A \<and> B)"
  unfolding permits_def or_else_def
  by (erule triple_bind, rule triple_pure) (auto intro: triple_return triple_weaken split: option.split)

lemma permits_weaken: "permits h E v g A \<Longrightarrow> (A \<Longrightarrow> B) \<Longrightarrow> permits h E v g B"
  unfolding permits_def by (erule triple_weaken) auto

lemma permits_return: "(x = None \<Longrightarrow> A) \<Longrightarrow> permits h E v (return_io x) A"
  unfolding permits_def by (rule triple_return) auto

lemma vt_sha:
  assumes "p = file_of path" "p \<notin> junk h"
  shows "triple h (sees h E v) (fileSHA256 env path)
    (\<lambda>r s. (r = None \<longrightarrow> no_faults h \<longrightarrow> v p = None) \<and> (\<forall>x. r = Some x \<longrightarrow> (\<exists>c. v p = Some c \<and> te_sha env c = x)) \<and> sees h E v s)
    (sees h E v) (sees h E v)"
  by (auto simp: triple_def fileSHA256_def assms(1) [symmetric] attempt_def handle_def bind_io_def return_io_def
      read_file_def syscall_def no_faults_def split: option.splits
      dest: sees_there [OF _ assms(2)] sees_gone [OF _ assms(2)])

lemma permits_sha:
  assumes "file_of path \<notin> junk h" "x \<noteq> []"
  shows "permits h E v (bind_io (check_version env path m x rt) (\<lambda>g. return_io (map_option Guarded g)))
    (\<exists>c. v (file_of path) = Some c \<and> te_sha env c = x)"
proof -
  have sha: "triple h (sees h E v)
      (bind_io (fileSHA256 env path) (\<lambda>c. return_io (case c of
          None \<Rightarrow> Some (Stat_failed path)
        | Some cur \<Rightarrow> if cur = x then None else Some (Modified_content path))))
      (\<lambda>r s. (r = None \<longrightarrow> (\<exists>c. v (file_of path) = Some c \<and> te_sha env c = x)) \<and> sees h E v s) (sees h E v) (sees h E v)"
    by (rule triple_bind [OF vt_sha [OF refl assms(1)]], rule triple_return) (auto split: option.splits)
  have keep: "triple h (sees h E v) (return_io (Some e)) (\<lambda>r s. (r = None \<longrightarrow> Q) \<and> sees h E v s) (sees h E v) (sees h E v)" for Q and e :: guard_error
    by (rule triple_return) simp
  let ?Q = "\<lambda>r s. (r = None \<longrightarrow> (\<exists>c. v (file_of path) = Some c \<and> te_sha env c = x)) \<and> sees h E v s"
  have found: "triple h (sees h E v) (bind_io g (\<lambda>bad. case bad of
                 Some e \<Rightarrow> return_io (Some e)
               | None \<Rightarrow> if x = [] then return_io None
                   else bind_io (fileSHA256 env path) (\<lambda>c.
                        return_io (case c of
                            None \<Rightarrow> Some (Stat_failed path)
                          | Some cur \<Rightarrow> if cur = x then None else Some (Modified_content path))))) ?Q (sees h E v) (sees h E v)"
    if "unmoved h E v g" for g
  proof (rule triple_bind [OF that], goal_cases)
    case (1 bad)
    show ?case using sha assms(2) by (cases bad) (simp_all add: keep)
  qed
  have "triple h (sees h E v) (check_version env path m x rt) ?Q (sees h E v) (sees h E v)"
    unfolding check_version_def
  proof (rule triple_if, simp add: assms(2), rule triple_bind [OF vt_attempt_stat], goal_cases)
    case (1 info)
    show ?case
    proof (cases info)
      case (Some n)
      show ?thesis unfolding Some option.case
        by (rule found) (auto intro!: vt_looks vt_same_mtime split: option.split)
    qed (simp add: keep)
  qed
  then show ?thesis
    unfolding permits_def by (rule triple_bind) (rule triple_return, auto)
qed

text \<open>What the session knows the file to hold, by its hash, when it wrote down one.\<close>

definition known_version :: "tool_env \<Rightarrow> session \<Rightarrow> string \<Rightarrow> string option \<Rightarrow> bool" where
  "known_version env se path c =
     (case recorded (te_key env) (se_reads se) path of
        None \<Rightarrow> True
      | Some e \<Rightarrow> rd_sha e = [] \<or> c = None \<or> map_option (te_sha env) c = Some (rd_sha e))"

lemma permits_known:
  assumes "file_of path \<notin> junk h" "no_faults h"
  shows "permits h E v
    (bind_io (since_read_changed env (se_reads se) path) (\<lambda>b. return_io (if b then Some (Changed_since_read path) else None)))
    (known_version env se path (v (file_of path)))"
proof (cases "recorded (te_key env) (se_reads se) path")
  case None
  then show ?thesis
    unfolding permits_def since_read_changed_def None option.case
    by (intro triple_bind [OF vt_return] triple_return) (simp add: known_version_def None)
next
  case (Some e)
  let ?p = "file_of path" and ?K = "known_version env se path (v (file_of path))"
  have st: "triple h (sees h E v) (attempt (stat ?p)) (\<lambda>r s. (r = None \<longrightarrow> v ?p = None) \<and> sees h E v s) (sees h E v) (sees h E v)"
    using assms(2)
    by (auto simp: triple_def attempt_def handle_def bind_io_def return_io_def stat_def syscall_def no_faults_def
        split: option.splits dest: sees_gone [OF _ assms(1)])
  have sha: "triple h (sees h E v)
      (bind_io (fileSHA256 env path) (\<lambda>c. return_io (case c of None \<Rightarrow> False | Some cur \<Rightarrow> cur \<noteq> rd_sha e)))
      (\<lambda>b s. (\<not> b \<longrightarrow> ?K) \<and> sees h E v s) (sees h E v) (sees h E v)"
    by (rule triple_bind [OF vt_sha [OF refl assms(1)]], rule triple_return)
      (use assms(2) Some in \<open>auto simp: known_version_def split: option.splits\<close>)
  have "triple h (sees h E v) (since_read_changed env (se_reads se) path)
      (\<lambda>b s. (\<not> b \<longrightarrow> ?K) \<and> sees h E v s) (sees h E v) (sees h E v)"
    unfolding since_read_changed_def Some option.case
  proof (rule triple_bind [OF st], rule triple_pure, goal_cases)
    case (1 info)
    then show ?case
      using sha Some by (cases info) (auto intro!: triple_return simp: known_version_def)
  qed
  then show ?thesis
    unfolding permits_def by (rule triple_bind) (rule triple_return, auto)
qed

definition cleared_to_write :: "string host \<Rightarrow> tool_env \<Rightarrow> session \<Rightarrow> string \<Rightarrow> write_args \<Rightarrow> string option \<Rightarrow> bool" where
  "cleared_to_write h env se path a c =
     ((wa_dirtyOk a \<or> \<not> blocks_write env se path) \<and>
      (wa_expectedSha a \<noteq> [] \<longrightarrow> map_option (te_sha env) c = Some (wa_expectedSha a)) \<and>
      (no_faults h \<and> wa_expectedMtime a = [] \<and> wa_expectedSha a = [] \<and> \<not> wa_overwriteChanged a \<longrightarrow>
         known_version env se path c))"

lemma permits_preconditions:
  assumes "file_of path \<notin> junk h"
  shows "permits h E v (writeFilePreconditions env se path a) (cleared_to_write h env se path a (v (file_of path)))"
proof -
  let ?D = "wa_dirtyOk a \<or> \<not> blocks_write env se path"
  let ?S = "wa_expectedSha a \<noteq> [] \<longrightarrow> (\<exists>c. v (file_of path) = Some c \<and> te_sha env c = wa_expectedSha a)"
  let ?g = "wa_expectedMtime a = [] \<and> wa_expectedSha a = [] \<and> \<not> wa_overwriteChanged a"
  let ?K = "no_faults h \<and> ?g \<longrightarrow> known_version env se path (v (file_of path))"
  have 1: "permits h E v (return_io (if \<not> wa_dirtyOk a \<and> blocks_write env se path then Some (Has_uncommitted path) else None)) ?D"
    by (rule permits_return) (auto split: if_splits)
  have 2: "permits h E v (bind_io (check_version env path (wa_expectedMtime a) (wa_expectedSha a) (se_reads se)) (\<lambda>g. return_io (map_option Guarded g))) ?S"
  proof (cases "wa_expectedSha a = []")
    case True
    show ?thesis by (rule permits_weaken [OF permits_trivial]) (auto intro: vt_looks vt_check_version simp: True)
  qed (use permits_sha [OF assms] in \<open>auto intro: permits_weaken\<close>)
  have 3: "permits h E v (if ?g then
         bind_io (since_read_changed env (se_reads se) path) (\<lambda>b. return_io (if b then Some (Changed_since_read path) else None))
       else return_io None) ?K"
  proof (cases "?g \<and> no_faults h")
    case True
    then show ?thesis using permits_known [OF assms, of E v env se] by (auto intro: permits_weaken)
  next
    case False
    then show ?thesis by (intro permits_weaken [OF permits_trivial]) (auto intro: vt_looks vt_since_read)
  qed
  have rest: "permits h E v (if \<not> wa_createDirs a then
        bind_io (attempt (stat_entry (file_of (path_dir path)))) (\<lambda>info.
        return_io (if info = None then Some (No_parent path) else None))
      else return_io None) True"
    by (rule permits_trivial) (auto intro: vt_looks)
  have first: "permits h E v (bind_io (attempt (stat_entry (file_of path))) (\<lambda>info.
              return_io (if info = Some None then Some (Is_directory path) else None))) True"
    "permits h E v (if wa_failOnNewErrors a then failOnNewErrorsPrecheck path else return_io None) True"
    by (rule permits_trivial, auto intro: vt_looks vt_precheck)+
  show ?thesis
    unfolding writeFilePreconditions_def
    by (rule permits_weaken [OF permits_or_else [OF first(1) permits_or_else [OF first(2) permits_or_else [OF 1
        permits_or_else [OF 2 permits_or_else [OF 3 rest]]]]]])
      (auto simp: cleared_to_write_def)
qed


lemma vt_writeFile_cleared:
  assumes "admit_path env (wa_path a) = Inr path" "file_of path \<notin> junk h" "good_names h"
  shows "triple h (sees h E v) (writeFile env a se)
    (\<lambda>(r, se') s. r = Inr () \<longrightarrow> cleared_to_write h env se path a (v (file_of path))) (\<lambda>_. True) (\<lambda>_. True)"
  unfolding writeFile_def assms(1) sum.case
proof (intro triple_if, goal_cases)
  case 3
  have "triple h (sees h E v) (writeFilePreconditions env se path a)
     (\<lambda>r s. (r = None \<longrightarrow> cleared_to_write h env se path a (v (file_of path))) \<and> sees h E v s) (\<lambda>_. True) (\<lambda>_. True)"
    by (rule triple_weaken [OF permits_preconditions [OF assms(2), unfolded permits_def]]) auto
  then show ?case
  proof (rule triple_bind, intro triple_pure, goal_cases)
    case (1 g)
    then show ?case
      by (cases g) (auto intro: triple_return triple_weaken [OF vt_writeFile_body [OF refl assms(2,3)]] simp: refuse_def)
  qed
qed (auto intro: triple_return simp: refuse_def)

end
