(* ===== verification/Plumb_FileMoves_Correct.thy ===== *)
theory Plumb_FileMoves_Correct
  imports Plumb_FileTools_Correct "HOL-Library.Sublist" "HOL-Library.Multiset"
begin

text \<open>
  What copying, moving and deleting files leaves of their contents, and in which order a batch
  of deletions runs.
\<close>

section \<open>\<open>copy_file\<close> and \<open>rename_file\<close>\<close>

definition moved_to :: "string host \<Rightarrow> path set \<Rightarrow> (path \<Rightarrow> string option) \<Rightarrow> path \<Rightarrow> path \<Rightarrow> string os \<Rightarrow> bool" where
  "moved_to h E v p q s = (v p \<noteq> None \<and> sees h E (v(p := None, q := v p)) s)"

lemma vt_move:
  assumes "p \<notin> junk h" "q \<notin> junk h" "p \<noteq> q"
  shows "triple h (sees h E v) (rename p q) (\<lambda>_. moved_to h E v p q) (sees h E v) (sees h E v)"
  unfolding rename_def
proof (rule triple_syscall)
  fix s :: "string os"
  assume s: "sees h E v s"
  have "moved_to h E v p q ((bump s)\<lparr>now_dir := (now_dir (bump s))(p := None, q := Some i)\<rparr>)" if "now_dir s p = Some i" for i
  proof -
    let ?c = "i_data (inodes s i)"
    have "opened h E v p i ?c (bump s)" using s that by (simp add: opened_def)
    from sees_move [OF this assms(3,2)] sees_there [OF s assms(1) that] show ?thesis by (auto simp: moved_to_def)
  qed
  then show "case (case now_dir (bump s) p of None \<Rightarrow> (Fail Not_exist, bump s)
      | Some i \<Rightarrow>
          if \<not> now_dirs (bump s) (butlast q) then (Fail Not_exist, bump s)
          else if device h (butlast p) \<noteq> device h (butlast q) then (Fail Cross_device, bump s)
          else (Done (), (bump s)\<lparr>now_dir := (now_dir (bump s))(p := None, q := Some i)\<rparr>)) of
      (Done a, s') \<Rightarrow> moved_to h E v p q s' | (Fail e, s') \<Rightarrow> sees h E v s' | (Crashed, s') \<Rightarrow> sees h E v s'"
    using s by (auto split: option.split)
qed simp_all

lemma vt_sync_moved:
  "triple h (moved_to h E v p q) (syncDirBestEffort d) (\<lambda>_. moved_to h E v p q) (\<lambda>_. False) (moved_to h E v p q)"
  unfolding moved_to_def
  by (rule triple_pure, rule triple_weaken [OF vt_sync_sure]) auto

lemma vt_move_source:
  assumes "file_of to_path \<notin> junk h"
  shows "triple h (sees h E v) (move_source env se from_path to_path a)
    (\<lambda>r s. ((\<exists>n. r = Inr n) \<longrightarrow> (ma_dirtyOk a \<or> \<not> blocks_move env se from_path) \<and>
        (ma_overwrite a \<or> \<not> no_faults h \<or> v (file_of to_path) = None)) \<and> sees h E v s) (sees h E v) (sees h E v)"
proof -
  let ?q = "file_of to_path"
  have absent: "triple h (sees h E v) (attempt (stat_entry ?q))
      (\<lambda>t s. (t = None \<longrightarrow> no_faults h \<longrightarrow> v ?q = None) \<and> sees h E v s) (sees h E v) (sees h E v)"
    by (auto simp: triple_def attempt_def handle_def bind_io_def return_io_def stat_entry_def syscall_def no_faults_def
        split: option.splits dest: sees_gone [OF _ assms])
  show ?thesis
    unfolding move_source_def
  proof (rule triple_bind [OF vt_attempt [OF vt_stat_entry]], goal_cases)
    case (1 info)
    show ?case
      by (auto intro!: triple_return triple_bind [OF absent] split: option.split)
  qed
qed

definition move_ends ::
  "string host \<Rightarrow> path set \<Rightarrow> (path \<Rightarrow> string option) \<Rightarrow> tool_env \<Rightarrow> move_args \<Rightarrow> string \<Rightarrow> string \<Rightarrow> session \<Rightarrow>
     (string os \<Rightarrow> bool) \<Rightarrow> (tool_error + unit) \<times> session \<Rightarrow> string os \<Rightarrow> bool" where
  "move_ends h E v env a from_path to_path se P x s =
     (case x of
        (Inr _, _) \<Rightarrow>
          (ma_dirtyOk a \<or> \<not> blocks_move env se from_path) \<and>
          (ma_overwrite a \<or> \<not> no_faults h \<or> v (file_of to_path) = None) \<and> P s
      | (Inl _, se') \<Rightarrow> se' = se \<and> sees h E v s)"

lemma vt_move_refused: "triple h (sees h E v) (refuse e se) (move_ends h E v env a f t se P) F C"
  unfolding refuse_def by (rule triple_return) (simp add: move_ends_def)

lemma vt_sameFileEntry: "unmoved h E v (sameFileEntry f t)"
  unfolding sameFileEntry_def by (auto intro!: vt_looks)

lemma vt_source_version: "unmoved h E v (source_version env f)"
  unfolding source_version_def by (intro vt_looks)

lemma vt_then:
  assumes "triple h P m Q (sees h E v) (sees h E v)" "\<And>s. sees h E v s \<Longrightarrow> C s"
    and "\<And>a. triple h (Q a) (k a) R (sees h E v) C"
  shows "triple h P (bind_io m k) R (sees h E v) C"
  by (rule triple_bind [OF triple_after [OF assms(1)] assms(3)]) (auto intro: assms(2))

text \<open>The rename and what follows it.\<close>

lemma vt_rename_tail:
  assumes "file_of f \<notin> junk h" "file_of t \<notin> junk h" "file_of f \<noteq> file_of t"
    and "ma_dirtyOk a \<or> \<not> blocks_move env se f" "ma_overwrite a \<or> \<not> no_faults h \<or> v (file_of t) = None"
  shows "triple h (sees h E v)
    (bind_io (rename (file_of f) (file_of t)) (\<lambda>_.
     bind_io (syncDirBestEffort (file_of (path_dir f))) (\<lambda>_.
     bind_io (if path_dir t \<noteq> path_dir f then syncDirBestEffort (file_of (path_dir t)) else return_io ()) (\<lambda>_.
     return_io (Inr (), recordWritten env t w se)))))
    (move_ends h E v env a f t se (moved_to h E v (file_of f) (file_of t)))
    (sees h E v) (\<lambda>s. sees h E v s \<or> moved_to h E v (file_of f) (file_of t) s)"
proof -
  let ?M = "moved_to h E v (file_of f) (file_of t)" and ?C = "\<lambda>s. sees h E v s \<or> moved_to h E v (file_of f) (file_of t) s"
  have sync: "triple h ?M (syncDirBestEffort d) (\<lambda>_. ?M) (sees h E v) ?C" for d
    by (rule triple_weaken [OF vt_sync_moved]) auto
  show ?thesis
  proof (rule vt_then [OF vt_move [OF assms(1-3)]], simp, rule triple_bind [OF sync], rule triple_bind)
    show "triple h ?M (if path_dir t \<noteq> path_dir f then syncDirBestEffort (file_of (path_dir t)) else return_io ())
       (\<lambda>_. ?M) (sees h E v) ?C"
      by (auto intro: sync triple_return)
    show "triple h ?M (return_io (Inr (), recordWritten env t w se)) (move_ends h E v env a f t se ?M) (sees h E v) ?C"
      using assms(4,5) by (intro triple_return) (simp add: move_ends_def)
  qed
qed

lemma vt_renameFile:
  assumes "parse_move a = None" "resolve_pair env (te_canonical env) a = Inr (f, t)"
    and "file_of f \<notin> junk h" "file_of t \<notin> junk h" "file_of f \<noteq> file_of t"
  shows "triple h (sees h E v) (renameFile env a se)
    (move_ends h E v env a f t se (moved_to h E v (file_of f) (file_of t)))
    (sees h E v) (\<lambda>s. sees h E v s \<or> moved_to h E v (file_of f) (file_of t) s)"
  unfolding renameFile_def assms(1,2) option.case sum.case prod.case
proof (intro triple_if vt_move_refused, rule vt_then [OF vt_move_source [OF assms(4)]], simp, rule triple_pure, goal_cases)
  case (1 r)
  note safe = 1
  show ?case
  proof (cases r)
    case (Inr n)
    show ?thesis
      unfolding Inr sum.case
    proof (rule vt_then [OF vt_mkdirAllSynced], simp, rule vt_then [OF vt_sameFileEntry], simp,
        intro triple_if vt_move_refused, rule vt_then [OF vt_source_version], simp)
      show "triple h (sees h E v)
        (bind_io (rename (file_of f) (file_of t)) (\<lambda>_.
         bind_io (syncDirBestEffort (file_of (path_dir f))) (\<lambda>_.
         bind_io (if path_dir t \<noteq> path_dir f then syncDirBestEffort (file_of (path_dir t)) else return_io ()) (\<lambda>_.
         return_io (Inr (), recordWritten env t w se)))))
        (move_ends h E v env a f t se (moved_to h E v (file_of f) (file_of t)))
        (sees h E v) (\<lambda>s. sees h E v s \<or> moved_to h E v (file_of f) (file_of t) s)" for w
        by (rule vt_rename_tail [OF assms(3-5)]) (use safe Inr in auto)
    qed
  qed (simp add: vt_move_refused)
qed

lemma vt_copyFile:
  assumes "parse_move a = None" "resolve_pair env (te_key env) a = Inr (f, t)"
    and "file_of f \<notin> junk h" "file_of t \<notin> junk h" "good_names h"
  shows "triple h (sees h E v) (copyFile env a se)
    (move_ends h E v env a f t se (\<lambda>s. v (file_of f) \<noteq> None \<and> sees h E (v(file_of t := v (file_of f))) s))
    (sees h E v) (\<lambda>s. sees h E v s \<or> v (file_of f) \<noteq> None \<and> sees h E (v(file_of t := v (file_of f))) s)"
  unfolding copyFile_def assms(1,2) option.case sum.case prod.case
proof (intro triple_if vt_move_refused, rule vt_then [OF vt_move_source [OF assms(4)]], simp, rule triple_pure, goal_cases)
  case (1 r)
  note safe = 1
  show ?case
  proof (cases r)
    case (Inr n)
    show ?thesis
      unfolding Inr sum.case
    proof (rule vt_then [OF vt_mkdir_all], simp, rule vt_then [OF vt_read_file [OF assms(3)]], simp, rule triple_pure, goal_cases)
      case (1 u c)
      have "triple h (sees h E v) (safeWrite (file_of t) c (i_mode n)) (\<lambda>_. sees h E (v(file_of t := v (file_of f))))
         (sees h E v) (\<lambda>s. sees h E v s \<or> v (file_of f) \<noteq> None \<and> sees h E (v(file_of t := v (file_of f))) s)"
        by (rule triple_weaken [OF vt_safeWrite [OF assms(4,5)]]) (auto simp: 1 either_def)
      then show ?case
        by (rule triple_bind) (use safe Inr 1 in \<open>auto intro!: triple_return simp: move_ends_def\<close>)
    qed
  qed (simp add: vt_move_refused)
qed

section \<open>\<open>delete_file\<close>\<close>

text \<open>The contents after some targets are gone.\<close>

fun cleared :: "delete_target list \<Rightarrow> (path \<Rightarrow> string option) \<Rightarrow> path \<Rightarrow> string option" where
  "cleared [] v = v"
| "cleared (t # ts) v = cleared ts (if dt_isDir t then v else v(file_of (dt_path t) := None))"

lemma vt_classify_each: "unmoved h E v (classify_each env se a ps)"
proof (induction ps)
  case (Cons path ps)
  then show ?case
    by (auto simp: Let_def intro!: vt_looks split: option.split)
qed (simp add: vt_return)

definition removable :: "tool_env \<Rightarrow> session \<Rightarrow> delete_args \<Rightarrow> delete_target \<Rightarrow> bool" where
  "removable env se a t =
     (if dt_isDir t then da_allowDir a else da_dirtyOk a \<or> \<not> blocks_write env se (dt_path t))"

lemma vt_classified:
  "triple h (sees h E v) (classify_each env se a ps)
     (\<lambda>r s. (\<forall>ts. r = Inr ts \<longrightarrow> map dt_path ts = ps \<and> list_all (removable env se a) ts) \<and> sees h E v s)
     (sees h E v) (sees h E v)"
proof (induction ps)
  case Nil
  show ?case by (auto intro: triple_return)
next
  case (Cons path ps)
  show ?case
    unfolding classify_each.simps
  proof (rule triple_bind [OF vt_attempt [OF vt_stat_entry]], goal_cases)
    case (1 info)
    show ?case
    proof (cases info)
      case (Some i)
      show ?thesis
        unfolding Some option.case Let_def
      proof (intro triple_if, goal_cases)
        case 3
        then have "removable env se a \<lparr>dt_path = path, dt_isDir = (i = None)\<rparr>" by (auto simp: removable_def)
        then show ?case
          by (intro triple_bind [OF Cons.IH] triple_return) (auto split: sum.splits)
      qed (auto intro: triple_return)
    qed (auto intro: triple_return)
  qed
qed

lemma vt_removeTarget:
  assumes "file_of (dt_path t) \<noteq> []"
  shows "triple h (sees h {} v) (attempt (removeTarget t))
    (\<lambda>r. if r = None then sees h {} v else sees h {} (cleared [t] v)) (\<lambda>_. False)
    (\<lambda>s. sees h {} v s \<or> sees h {} (cleared [t] v) s)"
proof (rule triple_attempt, unfold removeTarget_def, rule triple_bind)
  show "triple h (sees h {} v) (if dt_isDir t then remove_dir (file_of (dt_path t)) else remove (file_of (dt_path t)))
     (\<lambda>_. sees h {} (cleared [t] v)) (if (None :: unit option) = None then sees h {} v else sees h {} (cleared [t] v))
     (\<lambda>s. sees h {} v s \<or> sees h {} (cleared [t] v) s)"
    using assms by (auto intro: triple_weaken [OF vt_remove_dir] triple_weaken [OF vt_remove])
  show "triple h (sees h {} (cleared [t] v)) (syncDirBestEffort (file_of (path_dir (dt_path t))))
     (\<lambda>a. if Some a = None then sees h {} v else sees h {} (cleared [t] v))
     (if (None :: unit option) = None then sees h {} v else sees h {} (cleared [t] v))
     (\<lambda>s. sees h {} v s \<or> sees h {} (cleared [t] v) s)"
    by (rule triple_weaken [OF vt_sync_sure]) auto
qed

text \<open>The contents after the first of the targets are gone, in their order.\<close>

definition part_cleared :: "string host \<Rightarrow> delete_target list \<Rightarrow> (path \<Rightarrow> string option) \<Rightarrow> delete_target list \<Rightarrow> string os \<Rightarrow> bool" where
  "part_cleared h ts v ds s = (prefix ds ts \<and> sees h {} (cleared ds v) s)"

lemma part_cleared_Cons: "part_cleared h ts (cleared [t] v) ds s \<Longrightarrow> part_cleared h (t # ts) v (t # ds) s"
  by (simp add: part_cleared_def)

lemma vt_remove_targets:
  assumes "\<forall>t \<in> set ts. file_of (dt_path t) \<noteq> []"
  shows "triple h (sees h {} v) (remove_targets done ts)
    (\<lambda>r s. case r of
        Inr l \<Rightarrow> l = done @ map dt_path ts \<and> sees h {} (cleared ts v) s
      | Inl e \<Rightarrow> \<exists>ds. ds \<noteq> ts \<and> e = Stopped (done @ map dt_path ds) \<and> part_cleared h ts v ds s)
    (\<lambda>_. False) (\<lambda>s. \<exists>ds. part_cleared h ts v ds s)"
  using assms
proof (induction ts arbitrary: v "done")
  case Nil
  show ?case by (auto intro: triple_return)
next
  case (Cons t ts)
  have first: "triple h (sees h {} v) (attempt (removeTarget t))
    (\<lambda>r. if r = None then sees h {} v else sees h {} (cleared [t] v)) (\<lambda>_. False) (\<lambda>s. \<exists>ds. part_cleared h (t # ts) v ds s)"
  proof (rule triple_weaken [OF vt_removeTarget])
    fix s assume "sees h {} v s \<or> sees h {} (cleared [t] v) s"
    then have "part_cleared h (t # ts) v [] s \<or> part_cleared h (t # ts) v [t] s" by (simp add: part_cleared_def)
    then show "\<exists>ds. part_cleared h (t # ts) v ds s" by blast
  qed (use Cons.prems in auto)
  show ?case
    unfolding remove_targets.simps
  proof (rule triple_bind [OF first], rule triple_if, goal_cases)
    case (1 r)
    then show ?case
      by (intro triple_return) (auto simp: part_cleared_def intro!: exI [of _ "[]"])
  next
    case (2 r)
    have "triple h (sees h {} (cleared [t] v)) (remove_targets (done @ [dt_path t]) ts)
      (\<lambda>r s. case r of
          Inr l \<Rightarrow> l = (done @ [dt_path t]) @ map dt_path ts \<and> sees h {} (cleared ts (cleared [t] v)) s
        | Inl e \<Rightarrow> \<exists>ds. ds \<noteq> ts \<and> e = Stopped ((done @ [dt_path t]) @ map dt_path ds) \<and> part_cleared h ts (cleared [t] v) ds s)
      (\<lambda>_. False) (\<lambda>s. \<exists>ds. part_cleared h ts (cleared [t] v) ds s)"
      by (rule Cons.IH) (use Cons.prems in simp)
    then show ?case
    proof (rule triple_weaken, goal_cases)
      case (2 r s)
      show ?case
      proof (cases r)
        case (Inl e)
        with 2 obtain ds where "ds \<noteq> ts" "e = Stopped ((done @ [dt_path t]) @ map dt_path ds)" "part_cleared h ts (cleared [t] v) ds s"
          by auto
        then show ?thesis
          unfolding Inl sum.case by (intro exI [of _ "t # ds"]) (auto intro: part_cleared_Cons)
      qed (use 2 in simp)
    qed (use 2 in \<open>auto simp del: cleared.simps dest: part_cleared_Cons\<close>)
  qed
qed

text \<open>
  A batch: the paths asked for, each removable, the files before the directories, and these
  with the deepest first.
\<close>

definition path_depth :: "string \<Rightarrow> int" where
  "path_depth p = int (length (filter (\<lambda>c. c = CHR ''/'') p))"

definition delete_batch :: "tool_env \<Rightarrow> session \<Rightarrow> delete_args \<Rightarrow> string list \<Rightarrow> delete_target list \<Rightarrow> bool" where
  "delete_batch env se a ps ts =
     (mset (map dt_path ts) = mset ps \<and> (\<forall>t \<in> set ts. removable env se a t) \<and>
      sorted_wrt (\<lambda>t u. dt_isDir t \<longrightarrow> dt_isDir u \<and> path_depth (dt_path u) \<le> path_depth (dt_path t)) ts)"

lemma delete_order_batch:
  assumes "map dt_path ts = ps" "list_all (removable env se a) ts"
  shows "delete_batch env se a ps (delete_order ts)"
proof -
  let ?k = "\<lambda>t. - path_depth (dt_path t)"
  let ?ds = "sort_key ?k (filter dt_isDir ts)"
  have order: "delete_order ts = filter (\<lambda>t. \<not> dt_isDir t) ts @ ?ds"
    by (simp add: delete_order_def path_depth_def)
  have "mset (delete_order ts) = mset ts"
    unfolding order by (simp add: add.commute)
  then have m: "mset (map dt_path (delete_order ts)) = mset ps" "set (delete_order ts) = set ts"
    using assms(1) by (metis mset_map) (metis \<open>mset (delete_order ts) = mset ts\<close> set_mset_mset)
  have "sorted_wrt (\<lambda>t u. ?k t \<le> ?k u) ?ds"
    using sorted_sort_key [of ?k "filter dt_isDir ts"] by (simp add: sorted_map)
  then have ds: "sorted_wrt (\<lambda>t u. dt_isDir t \<longrightarrow> dt_isDir u \<and> path_depth (dt_path u) \<le> path_depth (dt_path t)) ?ds"
    by (rule sorted_wrt_mono_rel [rotated]) auto
  have fs: "sorted_wrt (\<lambda>t u. dt_isDir t \<longrightarrow> dt_isDir u \<and> path_depth (dt_path u) \<le> path_depth (dt_path t)) (filter (\<lambda>t. \<not> dt_isDir t) ts)"
    by (induction ts) auto
  show ?thesis
    unfolding delete_batch_def
    using m assms(2) ds fs by (auto simp: order sorted_wrt_append list_all_iff)
qed

lemma vt_classify:
  "triple h (sees h E v) (classifyDeleteTargets env se a ps)
     (\<lambda>r s. (\<forall>ts. r = Inr ts \<longrightarrow> delete_batch env se a ps ts) \<and> sees h E v s) (sees h E v) (sees h E v)"
  unfolding classifyDeleteTargets_def
  by (intro triple_bind [OF vt_classified] triple_return) (auto split: sum.splits dest: delete_order_batch)

definition stopped_after ::
  "string host \<Rightarrow> tool_env \<Rightarrow> session \<Rightarrow> delete_args \<Rightarrow> string list \<Rightarrow> (path \<Rightarrow> string option) \<Rightarrow>
     delete_target list \<Rightarrow> delete_target list \<Rightarrow> string os \<Rightarrow> bool" where
  "stopped_after h env se a ps v ts ds s = (delete_batch env se a ps ts \<and> part_cleared h ts v ds s)"

definition delete_ends ::
  "string host \<Rightarrow> tool_env \<Rightarrow> session \<Rightarrow> delete_args \<Rightarrow> string list \<Rightarrow> (path \<Rightarrow> string option) \<Rightarrow>
     (tool_error + string list) \<times> session \<Rightarrow> string os \<Rightarrow> bool" where
  "delete_ends h env se a ps v x s =
     (case fst x of
        Inr l \<Rightarrow> \<exists>ts. l = map dt_path ts \<and> stopped_after h env se a ps v ts ts s
      | Inl e \<Rightarrow> sees h {} v s \<or>
          (\<exists>ts ds. ds \<noteq> ts \<and> e = Stopped (map dt_path ds) \<and> stopped_after h env se a ps v ts ds s))"

lemma vt_deleteFile:
  assumes "deleteRequestedPaths a = Some requested" "resolveDeletePaths env requested = Inr ps"
    and "\<forall>p \<in> set ps. file_of p \<noteq> []"
  shows "triple h (sees h {} v) (deleteFile env a se) (delete_ends h env se a ps v)
    (sees h {} v) (\<lambda>s. sees h {} v s \<or> (\<exists>ts ds. stopped_after h env se a ps v ts ds s))"
  unfolding deleteFile_def assms(1,2) option.case sum.case
proof (intro triple_if, goal_cases)
  case 2
  show ?case
  proof (rule vt_then [OF vt_classify], simp, rule triple_pure, goal_cases)
    case (1 r)
    note batch = 1
    show ?case
    proof (cases r)
      case (Inr ts)
      with batch have b: "delete_batch env se a ps ts" by simp
      then have "set (map dt_path ts) = set ps" unfolding delete_batch_def by (metis mset_eq_setD)
      then have nonempty: "\<forall>t \<in> set ts. file_of (dt_path t) \<noteq> []" using assms(3) by auto
      show ?thesis
        unfolding Inr sum.case
      proof (rule triple_bind [OF triple_after [OF vt_remove_targets [OF nonempty]]], goal_cases)
        case (3 l)
        show ?case
          by (rule triple_return)
            (use b in \<open>fastforce simp: delete_ends_def stopped_after_def part_cleared_def split: sum.splits\<close>)
      qed (use b in \<open>auto simp: stopped_after_def\<close>)
    qed (auto intro!: triple_return simp: refuse_def delete_ends_def)
  qed
qed (auto intro!: triple_return simp: refuse_def delete_ends_def)

end
