(* ===== verification/Plumb_FileTools_Claims.thy ===== *)
theory Plumb_FileTools_Claims
  imports Plumb_FileMoves_Correct
begin

text \<open>
  The claims on the tools that write, undo, copy, move and delete whole files, a small host on
  which they are run, and two behaviours that differ from what the tools are documented to do.
\<close>

section \<open>The claims on writing and undoing\<close>

text \<open>
  C18. write_file is all or nothing: it returns with the new content in place, and any refusal or
  error leaves every file as it was, a write taken back for the errors it introduced included,
  unless the reply says that it could not be taken back. A crash leaves the old or the new content.
\<close>

theorem write_file_all_or_nothing:
  assumes "sees h E v s" "admit_path env (wa_path a) = Inr path" "file_of path \<notin> junk h"
    and "writeFile env a se h s = (r, s')"
  shows "case r of
      Done (Inr _, _) \<Rightarrow> sees h E (v(file_of path \<mapsto> wa_content a)) s'
    | Done (Inl e, _) \<Rightarrow> sees h E v s' \<or> (\<exists>d. e = Not_rolled_back d) \<and> sees h E (v(file_of path \<mapsto> wa_content a)) s'
    | Fail _ \<Rightarrow> sees h E v s'
    | Crashed \<Rightarrow> sees h E v s' \<or> sees h E (v(file_of path \<mapsto> wa_content a)) s'"
proof -
  have "good_names h" using assms(1) by (simp add: sees_def)
  from tripleD [OF vt_writeFile [OF assms(2,3) this] assms(1,4)] show ?thesis
    by (auto simp: write_ends_def either_def split: res.splits sum.splits prod.splits)
qed


text \<open>
  undo_edit takes back its own write only: without force it changes a file only if the file
  holds what the recorded write put there, by its hash, and then puts back what the snapshot
  says; a refusal or an error changes nothing.
\<close>

theorem undo_reverts_own_write:
  assumes "sees h E v s" "q \<noteq> []" "\<not> te_contested env" "admit_path env q = Inr path" "file_of path \<notin> junk h"
    and "se_undo se = Some u" "undo_peek (te_key env) u path = Some snap"
    and "undoEdit env q False se h s = (r, s')"
  shows "case r of
      Done (Inr _, _) \<Rightarrow> (\<exists>c. v (file_of path) = Some c \<and> te_sha env c = u_afterSHA snap) \<and> sees h E (v(file_of path := undone snap)) s'
    | Done (Inl _, se') \<Rightarrow> se' = se \<and> sees h E v s'
    | Fail _ \<Rightarrow> sees h E v s'
    | Crashed \<Rightarrow> sees h E v s' \<or> sees h E (v(file_of path := undone snap)) s'"
proof -
  have "good_names h" using assms(1) by (simp add: sees_def)
  from tripleD [OF vt_undoEdit [OF assms(2-4,6,7,5) this] assms(1,8)] show ?thesis
    by (auto simp: undo_ends_def either_way_def split: res.splits sum.splits prod.splits)
qed

section \<open>The claims on moving and deleting\<close>

text \<open>
  C20. What a \<open>write_file\<close> that succeeds went over. If the caller gave a hash, the file had it. If
  no version was given and the override was not asked for, and the session has a hash recorded
  from its own reading or writing of the file, then the file had that hash or was gone, on a host
  where no call fails; a file the session never read is not second-guessed. If the write was
  not marked as allowed over changes, the blocking is on and the session did not itself write the
  file, then git, asked in the directory of the file, did not name it as changed; git names files
  from the top of the repository, so below the top that is no proof that there are no changes.
\<close>

theorem write_over_known_version:
  assumes "sees h E v s" "admit_path env (wa_path a) = Inr path" "file_of path \<notin> junk h"
    and "writeFile env a se h s = (Done (Inr (), se'), s')"
  shows "(wa_expectedSha a \<noteq> [] \<longrightarrow> map_option (te_sha env) (v (file_of path)) = Some (wa_expectedSha a)) \<and>
    (no_faults h \<and> wa_expectedMtime a = [] \<and> wa_expectedSha a = [] \<and> \<not> wa_overwriteChanged a \<longrightarrow>
      (\<forall>e c. recorded (te_key env) (se_reads se) path = Some e \<longrightarrow> rd_sha e \<noteq> [] \<longrightarrow> v (file_of path) = Some c \<longrightarrow>
         te_sha env c = rd_sha e)) \<and>
    (\<not> wa_dirtyOk a \<and> te_blockDirty env \<and> \<not> Wrote (te_key env) (se_writes se) path \<longrightarrow>
      (\<forall>changes. list_all (\<lambda>(x, y, p). status_char x \<and> status_char y \<and> plain_path p) changes \<longrightarrow>
         te_git env (path_dir path) [path_base path] = Some (printed changes) \<longrightarrow>
         (\<forall>x y. (x, y, path_base path) \<notin> set changes)))"
proof -
  have "good_names h" using assms(1) by (simp add: sees_def)
  from tripleD [OF vt_writeFile_cleared [OF assms(2,3) this] assms(1,4)]
  have c: "cleared_to_write h env se path a (v (file_of path))" by simp
  have "\<forall>x y. (x, y, path_base path) \<notin> set changes"
    if "\<not> wa_dirtyOk a" "te_blockDirty env" "\<not> Wrote (te_key env) (se_writes se) path"
      and "list_all (\<lambda>(x, y, p). status_char x \<and> status_char y \<and> plain_path p) changes"
      "te_git env (path_dir path) [path_base path] = Some (printed changes)" for changes
    using c that(1-3)
      dirtyBlocksWrite_iff [where git = "te_git env" and dir = "path_dir path" and base = "path_base path", OF that(4,5)]
    by (auto simp: cleared_to_write_def blocks_write_def)
  then show ?thesis using c by (auto simp: cleared_to_write_def known_version_def)
qed

text \<open>
  rename_file moves exactly one file: on success the destination has the content the source
  had, the source is gone and nothing else changed, and the destination was absent unless
  overwriting was asked for; a refusal or an error changes nothing, and a crash leaves the one
  state or the other, never the file in neither place.
\<close>

theorem rename_file_moves_one:
  assumes "sees h E v s" "no_faults h" "parse_move a = None" "resolve_pair env (te_canonical env) a = Inr (f, t)"
    and "file_of f \<notin> junk h" "file_of t \<notin> junk h" "file_of f \<noteq> file_of t"
    and "renameFile env a se h s = (r, s')"
  shows "case r of
      Done (Inr _, _) \<Rightarrow> (ma_dirtyOk a \<or> \<not> blocks_move env se f) \<and> (ma_overwrite a \<or> v (file_of t) = None) \<and>
        moved_to h E v (file_of f) (file_of t) s'
    | Done (Inl _, se') \<Rightarrow> se' = se \<and> sees h E v s'
    | Fail _ \<Rightarrow> sees h E v s'
    | Crashed \<Rightarrow> sees h E v s' \<or> moved_to h E v (file_of f) (file_of t) s'"
  using tripleD [OF vt_renameFile [OF assms(3-7)] assms(1,8)] assms(2)
  by (auto simp: move_ends_def split: res.splits sum.splits prod.splits)

text \<open>
  delete_file checks the whole batch before it removes anything: a refusal or an error
  leaves every file as it was; otherwise the targets, each one removable, go in order, files
  first and then the directories from the deepest up, and what is gone when it stops, or crashes,
  is exactly a beginning of that order, which the reply of a stopped batch lists.
\<close>

theorem delete_file_checks_first:
  assumes "sees h {} v s" "deleteRequestedPaths a = Some requested" "resolveDeletePaths env requested = Inr ps"
    and "\<forall>p \<in> set ps. file_of p \<noteq> []"
    and "deleteFile env a se h s = (r, s')"
  shows "case r of
      Done (Inr l, _) \<Rightarrow> \<exists>ts. l = map dt_path ts \<and> delete_batch env se a ps ts \<and> sees h {} (cleared ts v) s'
    | Done (Inl e, _) \<Rightarrow> sees h {} v s' \<or>
        (\<exists>ts ds. delete_batch env se a ps ts \<and> strict_prefix ds ts \<and> e = Stopped (map dt_path ds) \<and> sees h {} (cleared ds v) s')
    | Fail _ \<Rightarrow> sees h {} v s'
    | Crashed \<Rightarrow> sees h {} v s' \<or>
        (\<exists>ts ds. delete_batch env se a ps ts \<and> prefix ds ts \<and> sees h {} (cleared ds v) s')"
  using tripleD [OF vt_deleteFile [OF assms(2-4)] assms(1,5)]
  by (auto simp: delete_ends_def stopped_after_def part_cleared_def strict_prefix_def split: res.splits sum.splits) blast

section \<open>A small host\<close>

definition ft_host :: "string host" where
  "ft_host =
     \<lparr>call_fails = (\<lambda>_. False), crashes = (\<lambda>_. False), device = (\<lambda>_. 0), tmp_dir = [''t''],
      temp_name = (\<lambda>k. replicate (Suc k) (CHR ''t'')), dir_order = (\<lambda>_. []), umask = 18, fsync_on = True, empty = []\<rparr>"

definition ft_os :: "string os" where
  "ft_os =
     \<lparr>inodes = (\<lambda>i. \<lparr>i_data = (if i = 0 then ''x'' else ''y''), i_synced = True, i_mode = 420, i_mtime = 5\<rparr>),
      now_dir = [[''w'', ''a''] \<mapsto> 0, [''w'', ''b''] \<mapsto> 1], saved_dir = [[''w'', ''a''] \<mapsto> 0, [''w'', ''b''] \<mapsto> 1],
      now_dirs = (\<lambda>d. d \<in> set [[], [''w''], [''t'']]), saved_dirs = (\<lambda>d. d \<in> set [[], [''w''], [''t'']]),
      next_inode = 2, time = 7, calls = 0, warnings = 0, cross_known = []\<rparr>"

text \<open>Git says that \<open>b\<close> has uncommitted changes.\<close>

definition ft_env :: tool_env where
  "ft_env =
     \<lparr>te_key = id, te_canonical = id, te_fold = id, te_sha = id, te_parse_time = (\<lambda>_. None), te_resolve = Inr,
      te_check = (\<lambda>_. None), te_contested = False,
      te_git = (\<lambda>d args. Some (if last args = ''b'' then '' M b'' else [])),
      te_blockDirty = True, te_allow = (\<lambda>_. True), te_showDiff = False, te_newErrors = (\<lambda>_ _ _. False)\<rparr>"

definition ft_session :: session where
  "ft_session = \<lparr>se_reads = NewReadTracker, se_writes = NewWriteTracker, se_undo = Some NewUndoStore\<rparr>"

definition ft_write :: "string \<Rightarrow> string \<Rightarrow> bool \<Rightarrow> write_args" where
  "ft_write sha c check =
     \<lparr>wa_path = ''/w/a'', wa_content = c, wa_createDirs = False, wa_dirtyOk = False, wa_failOnNewErrors = check,
      wa_expectedMtime = [], wa_expectedSha = sha, wa_overwriteChanged = False\<rparr>"

definition ft_E :: "path set" where
  "ft_E = {[''w''], [''t'']}"

lemma ft_names: "good_names ft_host"
proof -
  have n: "temp_name ft_host n = replicate (Suc n) (CHR ''t'')" for n by (simp add: ft_host_def)
  have "inj (\<lambda>n. replicate (Suc n) (CHR ''t''))" by (rule injI) (metis length_replicate nat.inject)
  moreover have "temp_name ft_host = (\<lambda>n. replicate (Suc n) (CHR ''t''))" by (simp add: ft_host_def)
  ultimately have "inj (temp_name ft_host)" by simp
  moreover have "\<not> has_suffix (temp_name ft_host n) ''.plumb.tmp''" for n
  proof
    assume "has_suffix (temp_name ft_host n) ''.plumb.tmp''"
    then have "last (temp_name ft_host n) = CHR ''p''" by (auto simp: has_suffix_iff)
    then show False by (simp add: n last_replicate del: replicate_Suc)
  qed
  ultimately show ?thesis by (auto simp: good_names_def)
qed

lemma ft_not_junk:
  "[''w'', ''a''] \<notin> junk ft_host" "[''w'', ''b''] \<notin> junk ft_host" "[''w'', ''c''] \<notin> junk ft_host"
proof -
  have "\<not> has_suffix ''a'' ''.plumb.tmp''" "\<not> has_suffix ''b'' ''.plumb.tmp''" "\<not> has_suffix ''c'' ''.plumb.tmp''" by code_simp+
  then show "[''w'', ''a''] \<notin> junk ft_host" "[''w'', ''b''] \<notin> junk ft_host" "[''w'', ''c''] \<notin> junk ft_host"
    by (auto simp: junk_def is_temp_def ft_host_def Cons_eq_append_conv)
qed

lemma ft_paths: "file_of ''/w/a'' = [''w'', ''a'']" "file_of ''/w/b'' = [''w'', ''b'']" "file_of ''/w/c'' = [''w'', ''c'']"
  by code_simp+

lemma ft_entries: "now_dir ft_os q = Some i \<longleftrightarrow> q = [''w'', ''a''] \<and> i = 0 \<or> q = [''w'', ''b''] \<and> i = 1"
  by (auto simp: ft_os_def)

lemma ft_sees: "sees ft_host ft_E (reads ft_os) ft_os"
proof -
  have "tree ft_os" by (auto simp: tree_def ft_os_def append_eq_Cons_conv)
  moreover have "now_dir ft_os (d @ [temp_name ft_host n]) = None" for d n
    by (auto simp: ft_os_def ft_host_def append_eq_Cons_conv Cons_eq_append_conv)
  moreover have "next_inode ft_os = 2" by (simp add: ft_os_def)
  ultimately have "proper ft_host ft_os" by (intro properI) (auto simp: ft_entries)
  then show ?thesis using ft_names by (auto simp: sees_def ft_E_def ft_os_def)
qed

lemma ft_no_faults: "no_faults ft_host"
  by (simp add: no_faults_def ft_host_def)

lemma ft_reads: "reads ft_os [''w'', ''a''] = Some ''x''" "reads ft_os [''w'', ''b''] = Some ''y''" "reads ft_os [''w'', ''c''] = None"
  by (simp_all add: reads_def ft_os_def)

lemma ft_admit: "admit_path ft_env q = Inr q"
  by (simp add: admit_path_def ft_env_def)

lemma ended:
  assumes "case r of Done (Inr (u :: unit), se) \<Rightarrow> P se | _ \<Rightarrow> False"
  obtains se where "r = Done (Inr (), se)" "P se"
proof (cases r)
  case (Done x)
  obtain y se where "x = (y, se)" by (cases x)
  then show ?thesis using assms Done that by (cases y) auto
qed (use assms in simp_all)

lemma refused:
  assumes "case r of Done (Inl e, _) \<Rightarrow> e = d | _ \<Rightarrow> False"
  obtains se where "r = Done (Inl d, se)"
proof (cases r)
  case (Done x)
  obtain y se where "x = (y, se)" by (cases x)
  then show ?thesis using assms Done that by (cases y) auto
qed (use assms in simp_all)

section \<open>The claims on that host\<close>

theorem write_file_all_or_nothing_witness:
  "\<exists>se s. writeFile ft_env (ft_write [] ''z'' False) ft_session ft_host ft_os = (Done (Inr (), se), s) \<and>
     reads s [''w'', ''a''] = Some ''z'' \<and> reads s [''w'', ''b''] = Some ''y''"
proof -
  let ?run = "writeFile ft_env (ft_write [] ''z'' False) ft_session ft_host ft_os"
  obtain r s where run: "?run = (r, s)" by (cases ?run)
  have "case fst ?run of Done (Inr _, _) \<Rightarrow> True | _ \<Rightarrow> False" by code_simp
  then obtain se where r: "r = Done (Inr (), se)" unfolding run fst_conv by (rule ended)
  have "sees ft_host ft_E ((reads ft_os)([''w'', ''a''] \<mapsto> ''z'')) s"
    using write_file_all_or_nothing [OF ft_sees ft_admit _ run] by (simp add: r ft_write_def ft_paths ft_not_junk)
  then show ?thesis using run r by (simp add: sees_reads ft_not_junk ft_reads)
qed

text \<open>The equations a run on that host is evaluated with.\<close>

lemma ft_host_simps:
  "call_fails ft_host = (\<lambda>_. False)" "crashes ft_host = (\<lambda>n. False)" "device ft_host = (\<lambda>_. 0)"
  "tmp_dir ft_host = [''t'']" "temp_name ft_host = (\<lambda>k. replicate (Suc k) (CHR ''t''))"
  "dir_order ft_host = (\<lambda>_. [])" "umask ft_host = 18" "fsync_on ft_host" "empty ft_host = []"
  by (simp_all add: ft_host_def)

lemma ft_env_simps:
  "te_key ft_env = id" "te_canonical ft_env = id" "te_fold ft_env = id" "te_sha ft_env = id" "te_resolve ft_env = Inr"
  "te_check ft_env = (\<lambda>_. None)" "\<not> te_contested ft_env" "te_allow ft_env = (\<lambda>_. True)" "\<not> te_showDiff ft_env"
  "te_newErrors ft_env = (\<lambda>_ _ _. False)"
  by (simp_all add: ft_env_def)

lemma ft_clean: "\<not> blocks_write ft_env ft_session ''/w/a''" by code_simp

lemma ft_dir: "path_dir ''/w/a'' = ''/w''" "file_of ''/w'' = [''w'']" by code_simp+

lemmas ft_eval = writeFile_def undoEdit_def ft_write_def writeFilePreconditions_def or_else_def failOnNewErrorsPrecheck_def
  check_version_def since_read_changed_def writeFileCapture_def stat_entry_def is_not_exist_def outcome_def
  safeWrite_def stage_def mkdirAllSynced_def missingAncestors.simps [of "[''w'']"] sync_parents.simps rememberCrossDevice_def
  mkdir_all_def stat_dir_def read_file_def
  io_defs syscall_def bump_def reads_def ft_os_def ft_session_def ft_paths ft_admit ft_env_simps ft_host_simps ft_dir
  maxUndoSnapshotBytes_def written_version_def recordUndo_def recordWritten_def undo_record_def undo_peek_def checkUndoSafe_def applyUndo_def
  NewUndoStore_def NewReadTracker_def NewWriteTracker_def recorded_def recordAt_def read_record_at_def perm_or_default_def default_perm_def
  takeUndo_def undo_take_def fileSHA256_def ft_clean [unfolded ft_session_def NewUndoStore_def NewReadTracker_def NewWriteTracker_def]


definition ft_armed :: session where
  "ft_armed = ft_session\<lparr>se_undo := Some (undo_record id ''/w/a''
     \<lparr>u_before = ''v'', u_existedBefore = True, u_afterSHA = ''w'', u_tool = ''write_file'', u_seq = 0\<rparr> NewUndoStore)\<rparr>"

theorem undo_reverts_own_write_witness:
  "\<exists>s. undoEdit ft_env ''/w/a'' False ft_armed ft_host ft_os = (Done (Inl (Diverged ''/w/a''), ft_armed), s) \<and>
     reads s [''w'', ''a''] = Some ''x''"
proof -
  let ?run = "undoEdit ft_env ''/w/a'' False ft_armed ft_host ft_os"
  obtain r s where run: "?run = (r, s)" by (cases ?run)
  have "case fst ?run of Done (Inl e, _) \<Rightarrow> e = Diverged ''/w/a'' | _ \<Rightarrow> False" by code_simp
  then obtain se where r: "r = Done (Inl (Diverged ''/w/a''), se)" unfolding run fst_conv by (rule refused)
  have u: "se_undo ft_armed = Some (undo_record id ''/w/a''
     \<lparr>u_before = ''v'', u_existedBefore = True, u_afterSHA = ''w'', u_tool = ''write_file'', u_seq = 0\<rparr> NewUndoStore)"
    by (simp add: ft_armed_def)
  have "se = ft_armed \<and> sees ft_host ft_E (reads ft_os) s"
    using undo_reverts_own_write [OF ft_sees _ _ ft_admit _ u _ run] undo_peek_record [of id]
    by (simp add: r ft_paths ft_not_junk ft_env_def)
  then show ?thesis using run r by (auto simp: sees_reads ft_not_junk ft_reads)
qed

text \<open>A session that has read the file writes it with no version given; git names another file.\<close>

definition ft_reader :: session where
  "ft_reader = ft_session\<lparr>se_reads := read_record_at id ''/w/a'' \<lparr>rd_mtime = 5, rd_sha = ''x''\<rparr> NewReadTracker\<rparr>"

definition ft_env_b :: tool_env where
  "ft_env_b = ft_env\<lparr>te_git := (\<lambda>d args. Some (printed [(CHR '' '', CHR ''M'', ''b'')]))\<rparr>"

theorem write_over_known_version_witness:
  "\<exists>se s. writeFile ft_env_b (ft_write [] ''z'' False) ft_reader ft_host ft_os = (Done (Inr (), se), s) \<and>
     recorded id (se_reads ft_reader) ''/w/a'' = Some \<lparr>rd_mtime = 5, rd_sha = ''x''\<rparr> \<and>
     reads ft_os [''w'', ''a''] = Some ''x'' \<and> te_sha ft_env_b ''x'' = ''x'' \<and>
     (CHR '' '', CHR ''M'', ''a'') \<notin> set [(CHR '' '', CHR ''M'', ''b'')]"
proof -
  let ?w = "ft_write [] ''z'' False" and ?ch = "[(CHR '' '', CHR ''M'', ''b'')]"
  let ?run = "writeFile ft_env_b ?w ft_reader ft_host ft_os"
  obtain r s where run: "?run = (r, s)" by (cases ?run)
  have "case fst ?run of Done (Inr _, _) \<Rightarrow> True | _ \<Rightarrow> False" by code_simp
  then obtain se where r: "r = Done (Inr (), se)" unfolding run fst_conv by (rule ended)
  have path: "wa_path ?w = ''/w/a''" by (simp add: ft_write_def)
  have admit: "admit_path ft_env_b (wa_path ?w) = Inr ''/w/a''" by (simp add: ft_admit path ft_env_b_def admit_path_def ft_env_def)
  have c: "recorded (te_key ft_env_b) (se_reads ft_reader) ''/w/a'' = Some \<lparr>rd_mtime = 5, rd_sha = ''x''\<rparr>"
    "rd_sha \<lparr>rd_mtime = 5, rd_sha = ''x''\<rparr> = ''x''" "te_key ft_env_b = id"
    by (simp_all add: ft_env_b_def ft_env_def ft_reader_def recorded_def read_record_at_def NewReadTracker_def)
  have g: "te_blockDirty ft_env_b" "\<not> Wrote (te_key ft_env_b) (se_writes ft_reader) ''/w/a''"
    "te_git ft_env_b (path_dir ''/w/a'') [path_base ''/w/a''] = Some (printed ?ch)" "path_base ''/w/a'' = ''a''"
    "list_all (\<lambda>(x, y, p). status_char x \<and> status_char y \<and> plain_path p) ?ch" by code_simp+
  have j: "file_of ''/w/a'' \<notin> junk ft_host" by (simp add: ft_paths ft_not_junk)
  note all = write_over_known_version [OF ft_sees admit j run [unfolded r]]
  have "te_sha ft_env_b ''x'' = ''x''"
    using conjunct1 [OF conjunct2 [OF all]] c ft_no_faults by (simp add: ft_write_def ft_paths ft_reads)
  moreover have "(CHR '' '', CHR ''M'', ''a'') \<notin> set ?ch"
    using conjunct2 [OF conjunct2 [OF all]] g unfolding ft_write_def by simp
  ultimately show ?thesis using run r c by (auto simp: ft_reads)
qed

definition ft_move :: "string \<Rightarrow> bool \<Rightarrow> move_args" where
  "ft_move to_path over = \<lparr>ma_from = ''/w/a'', ma_to = to_path, ma_overwrite = over, ma_dirtyOk = False\<rparr>"

theorem rename_file_moves_one_witness:
  "\<exists>se s. renameFile ft_env (ft_move ''/w/c'' False) ft_session ft_host ft_os = (Done (Inr (), se), s) \<and>
     reads s [''w'', ''a''] = None \<and> reads s [''w'', ''b''] = Some ''y'' \<and> reads s [''w'', ''c''] = Some ''x''"
proof -
  let ?m = "ft_move ''/w/c'' False"
  let ?run = "renameFile ft_env ?m ft_session ft_host ft_os"
  obtain r s where run: "?run = (r, s)" by (cases ?run)
  have "case fst ?run of Done (Inr _, _) \<Rightarrow> True | _ \<Rightarrow> False" by code_simp
  then obtain se where r: "r = Done (Inr (), se)" unfolding run fst_conv by (rule ended)
  have args: "parse_move ?m = None" "resolve_pair ft_env (te_canonical ft_env) ?m = Inr (''/w/a'', ''/w/c'')" by code_simp+
  have "moved_to ft_host ft_E (reads ft_os) [''w'', ''a''] [''w'', ''c''] s"
    using rename_file_moves_one [OF ft_sees ft_no_faults args _ _ _ run] by (simp add: r ft_paths ft_not_junk)
  then show ?thesis using run r by (auto simp: moved_to_def sees_reads ft_not_junk ft_reads)
qed

definition ft_delete :: delete_args where
  "ft_delete = \<lparr>da_path = [], da_paths = [''/w/a'', ''/w/b''], da_dirtyOk = False, da_allowDir = False\<rparr>"

theorem delete_file_checks_first_witness:
  "\<exists>se s. deleteFile ft_env ft_delete ft_session ft_host ft_os = (Done (Inl (Has_uncommitted ''/w/b''), se), s) \<and>
     reads s [''w'', ''a''] = Some ''x''"
proof -
  let ?run = "deleteFile ft_env ft_delete ft_session ft_host ft_os"
  obtain r s where run: "?run = (r, s)" by (cases ?run)
  have "case fst ?run of Done (Inl e, _) \<Rightarrow> e = Has_uncommitted ''/w/b'' | _ \<Rightarrow> False" by code_simp
  then obtain se where r: "r = Done (Inl (Has_uncommitted ''/w/b''), se)" unfolding run fst_conv by (rule refused)
  have args: "deleteRequestedPaths ft_delete = Some [''/w/a'', ''/w/b'']"
    "resolveDeletePaths ft_env [''/w/a'', ''/w/b''] = Inr [''/w/a'', ''/w/b'']" by code_simp+
  have "sees ft_host {} (reads ft_os) s"
    using delete_file_checks_first [OF sees_subset [OF ft_sees] args _ run] by (simp add: r ft_paths)
  then show ?thesis using run r by (auto simp: sees_reads ft_not_junk ft_reads)
qed

section \<open>Two divergences\<close>

text \<open>
  With \<open>overwrite\<close> the destination of a copy or a move is written over with no question to the
  guard: the dirty-file guard is asked about the source only, and the uncommitted changes of the
  destination are lost, which \<open>write_file\<close> refuses on the same file.
\<close>

lemma overwrite_discards_dirty:
  "blocks_write ft_env ft_session ''/w/b'' \<and> blocks_move ft_env ft_session ''/w/b''"
  "case copyFile ft_env (ft_move ''/w/b'' True) ft_session ft_host ft_os of
     (Done (Inr _, _), s) \<Rightarrow> reads s [''w'', ''b''] = Some ''x'' | _ \<Rightarrow> False"
  "case renameFile ft_env (ft_move ''/w/b'' True) ft_session ft_host ft_os of
     (Done (Inr _, _), s) \<Rightarrow> reads s [''w'', ''b''] = Some ''x'' | _ \<Rightarrow> False"
  by code_simp+

text \<open>
  Paths of a batch with one identity key count as one, and the key follows links: with a link and
  the file it leads to, only the first is removed, and the reply does not say so.
\<close>

lemma delete_alias_dropped:
  "resolveDeletePaths (ft_env\<lparr>te_key := \<lambda>p. if p = ''/w/b'' then ''/w/a'' else p\<rparr>) [''/w/a'', ''/w/b''] = Inr [''/w/a'']"
  by code_simp

end
