(* ===== verification/Plumb_Git_Options.thy ===== *)
theory Plumb_Git_Options
  imports Plumb_Prelude
begin

text \<open>
  The option scanner of the git tool (\<open>internal/tools/git_options.go\<close>): how a git
  subcommand's arguments are read the way git's own option parser reads them.

  A callback of \<open>scan\<close> is a function of the option and of the state its Go closure
  captures; it returns the new state and whether the scan goes on. A Go \<open>rune\<close> here is a
  byte: the option letters of every grammar are ASCII, so a byte of a longer rune matches
  none of them, as the rune itself would not. The letter 0 of a long option is the byte 0.
\<close>

record git_option_grammar =
  valueLong :: "string list"
  valueShort :: string
  optionalShort :: string

record git_option =
  o_long :: string
  o_short :: char

definition NUL :: char where
  "NUL = CHR 0x00"

definition long_option :: "string \<Rightarrow> git_option" where
  "long_option n = \<lparr>o_long = n, o_short = NUL\<rparr>"

definition short_option :: "char \<Rightarrow> git_option" where
  "short_option c = \<lparr>o_long = [], o_short = c\<rparr>"

definition isEndOfOptions :: "string \<Rightarrow> bool" where
  "isEndOfOptions a = (a = ''--'' \<or> a = ''--end-of-options'')"

definition isLongPrefix :: "string \<Rightarrow> string \<Rightarrow> nat \<Rightarrow> bool" where
  "isLongPrefix name full minLen = (minLen \<le> length name \<and> has_prefix full name)"

text \<open>\<open>gitOption.is\<close>.\<close>

definition option_is :: "git_option \<Rightarrow> string \<Rightarrow> string list \<Rightarrow> bool" where
  "option_is p shorts longs =
     (if o_short p \<noteq> NUL then o_short p \<in> set shorts
      else list_ex (\<lambda>l. isLongPrefix (o_long p) l 1) longs)"

type_synonym 's option_fn = "git_option \<Rightarrow> 's \<Rightarrow> 's \<times> bool"

text \<open>The result is the new state, whether the next argument is consumed, and whether to go on.\<close>

definition scanLong ::
  "git_option_grammar \<Rightarrow> string \<Rightarrow> 's option_fn \<Rightarrow> 's \<Rightarrow> 's \<times> bool \<times> bool" where
  "scanLong g name fn s =
     (case cut_at CHR ''='' name of (name', _, joined) \<Rightarrow>
        (case fn (long_option name') s of (s', continue) \<Rightarrow>
           if \<not> continue then (s', False, False)
           else if joined then (s', False, True)
           else (s', list_ex (\<lambda>v. isLongPrefix name' v 1) (valueLong g), True)))"

fun scanShorts ::
  "git_option_grammar \<Rightarrow> string \<Rightarrow> 's option_fn \<Rightarrow> 's \<Rightarrow> 's \<times> bool \<times> bool" where
  "scanShorts g [] fn s = (s, False, True)"
| "scanShorts g (c # cs) fn s =
     (case fn (short_option c) s of (s', continue) \<Rightarrow>
        if \<not> continue then (s', False, False)
        else if c \<in> set (valueShort g) then (s', cs = [], True)
        else if c \<in> set (optionalShort g) then (s', False, True)
        else scanShorts g cs fn s')"

text \<open>How one argument that is not an end-of-options marker is read.\<close>

definition scan_arg ::
  "git_option_grammar \<Rightarrow> string \<Rightarrow> 's option_fn \<Rightarrow> 's \<Rightarrow> 's \<times> bool \<times> bool" where
  "scan_arg g a fn s =
     (if has_prefix a ''--'' then scanLong g (drop 2 a) fn s
      else if 1 < length a \<and> hd a = CHR ''-'' then scanShorts g (drop 1 a) fn s
      else (s, False, True))"

function scan ::
  "git_option_grammar \<Rightarrow> string list \<Rightarrow> bool \<Rightarrow> 's option_fn \<Rightarrow> 's \<Rightarrow> 's" where
  "scan g [] untilDashDash fn s = s"
| "scan g (a # as) untilDashDash fn s =
     (if isEndOfOptions a then (if untilDashDash then s else scan g as untilDashDash fn s)
      else
        (case scan_arg g a fn s of (s', consumesNext, go_on) \<Rightarrow>
           if \<not> go_on then s'
           else scan g (if consumesNext then drop 1 as else as) untilDashDash fn s'))"
  by pat_completeness auto
termination
  by (relation "measure (\<lambda>(g, args, u, fn, s). length args)") auto

definition has_option :: "git_option_grammar \<Rightarrow> string list \<Rightarrow> string \<Rightarrow> string list \<Rightarrow> bool" where
  "has_option g args shorts longs =
     scan g args False (\<lambda>p found. let f = option_is p shorts longs in (f, \<not> f)) False"

definition count_option :: "git_option_grammar \<Rightarrow> string list \<Rightarrow> string \<Rightarrow> string list \<Rightarrow> nat" where
  "count_option g args shorts longs =
     scan g args False (\<lambda>p n. (if option_is p shorts longs then Suc n else n, True)) 0"

function positionals :: "git_option_grammar \<Rightarrow> string list \<Rightarrow> string list" where
  "positionals g [] = []"
| "positionals g (a # as) =
     (if isEndOfOptions a then as
      else
        let consumesNext = fst (snd (scan_arg g a (\<lambda>p s. (s, True)) ()));
            rest = positionals g (if consumesNext then drop 1 as else as)
        in if has_prefix a ''--'' \<or> (1 < length a \<and> hd a = CHR ''-'') then rest else a # rest)"
  by pat_completeness auto
termination
  by (relation "measure (\<lambda>(g, args). length args)") auto

record git_opt_name =
  n_short :: char
  n_long :: string

definition opt_name :: "char \<Rightarrow> string \<Rightarrow> git_opt_name" where
  "opt_name c l = \<lparr>n_short = c, n_long = l\<rparr>"

text \<open>The map \<open>on\<close> of \<open>final\<close>: which long names are on, off or not mentioned.\<close>

definition final_step :: "git_opt_name list \<Rightarrow> (string \<Rightarrow> bool option) option_fn" where
  "final_step opts p on =
     (case find (\<lambda>n. option_is p [n_short n] [n_long n]) opts of
        Some n \<Rightarrow> (on(n_long n := Some True), True)
      | None \<Rightarrow>
          (if has_prefix (o_long p) ''no-'' then
             (foldl (\<lambda>m n. if isLongPrefix (drop 3 (o_long p)) (n_long n) 1
                           then m(n_long n := Some False) else m) on opts, True)
           else (on, True)))"

definition final_option ::
  "git_option_grammar \<Rightarrow> string list \<Rightarrow> bool \<Rightarrow> git_opt_name list \<Rightarrow> bool" where
  "final_option g args untilDashDash opts =
     (let on = scan g args untilDashDash (final_step opts) (\<lambda>_. None)
      in list_ex (\<lambda>n. on (n_long n) = Some True) opts)"

section \<open>The grammars\<close>

definition mk_grammar :: "string list \<Rightarrow> string \<Rightarrow> string \<Rightarrow> git_option_grammar" where
  "mk_grammar vl vs os = \<lparr>valueLong = vl, valueShort = vs, optionalShort = os\<rparr>"

definition switchGrammar :: git_option_grammar where
  "switchGrammar = mk_grammar [''create'', ''force-create'', ''conflict'', ''orphan''] ''cC'' []"

definition restoreGrammar :: git_option_grammar where
  "restoreGrammar =
     mk_grammar [''source'', ''conflict'', ''unified'', ''inter-hunk-context'', ''pathspec-from-file''] ''sU'' []"

definition checkoutGrammar :: git_option_grammar where
  "checkoutGrammar =
     mk_grammar [''conflict'', ''orphan'', ''unified'', ''inter-hunk-context'', ''pathspec-from-file''] ''bBU'' []"

definition branchGrammar :: git_option_grammar where
  "branchGrammar =
     mk_grammar [''set-upstream-to'', ''contains'', ''no-contains'', ''merged'', ''no-merged'',
                 ''sort'', ''points-at'', ''format''] ''u'' []"

definition tagGrammar :: git_option_grammar where
  "tagGrammar =
     mk_grammar [''message'', ''file'', ''trailer'', ''cleanup'', ''local-user'', ''contains'', ''no-contains'',
                 ''merged'', ''no-merged'', ''sort'', ''points-at'', ''format''] ''mFu'' ''n''"

definition mergeGrammar :: git_option_grammar where
  "mergeGrammar =
     mk_grammar [''cleanup'', ''strategy'', ''strategy-option'', ''message'', ''file'', ''into-name''] ''msXF'' ''S''"

definition worktreeGrammar :: git_option_grammar where
  "worktreeGrammar = mk_grammar [''reason'', ''expire'', ''orphan''] ''bB'' []"

lemmas grammar_defs =
  switchGrammar_def restoreGrammar_def checkoutGrammar_def branchGrammar_def tagGrammar_def
  mergeGrammar_def worktreeGrammar_def mk_grammar_def

section \<open>The options of a call, as a list\<close>

text \<open>
  The reference the scanner is compared with: the options of a call in the order git reads
  them, with no callback. \<open>run_options\<close> feeds them to a callback until it stops.
\<close>

fun short_options :: "git_option_grammar \<Rightarrow> string \<Rightarrow> git_option list" where
  "short_options g [] = []"
| "short_options g (c # cs) =
     short_option c #
       (if c \<in> set (valueShort g) \<or> c \<in> set (optionalShort g) then [] else short_options g cs)"

fun short_consumes :: "git_option_grammar \<Rightarrow> string \<Rightarrow> bool" where
  "short_consumes g [] = False"
| "short_consumes g (c # cs) =
     (if c \<in> set (valueShort g) then cs = []
      else if c \<in> set (optionalShort g) then False
      else short_consumes g cs)"

definition is_long :: "string \<Rightarrow> bool" where
  "is_long a = has_prefix a ''--''"

definition is_short :: "string \<Rightarrow> bool" where
  "is_short a = (\<not> is_long a \<and> 1 < length a \<and> hd a = CHR ''-'')"

definition long_name :: "string \<Rightarrow> string" where
  "long_name a = fst (cut_at CHR ''='' (drop 2 a))"

definition long_joined :: "string \<Rightarrow> bool" where
  "long_joined a = snd (snd (cut_at CHR ''='' (drop 2 a)))"

definition arg_options :: "git_option_grammar \<Rightarrow> string \<Rightarrow> git_option list" where
  "arg_options g a =
     (if is_long a then [long_option (long_name a)]
      else if is_short a then short_options g (drop 1 a)
      else [])"

definition arg_consumes :: "git_option_grammar \<Rightarrow> string \<Rightarrow> bool" where
  "arg_consumes g a =
     (if is_long a then \<not> long_joined a \<and> list_ex (\<lambda>v. isLongPrefix (long_name a) v 1) (valueLong g)
      else if is_short a then short_consumes g (drop 1 a)
      else False)"

function call_options :: "git_option_grammar \<Rightarrow> string list \<Rightarrow> bool \<Rightarrow> git_option list" where
  "call_options g [] u = []"
| "call_options g (a # as) u =
     (if isEndOfOptions a then (if u then [] else call_options g as u)
      else arg_options g a @ call_options g (if arg_consumes g a then drop 1 as else as) u)"
  by pat_completeness auto
termination
  by (relation "measure (\<lambda>(g, args, u). length args)") auto

fun run_options :: "'s option_fn \<Rightarrow> git_option list \<Rightarrow> 's \<Rightarrow> 's \<times> bool" where
  "run_options fn [] s = (s, True)"
| "run_options fn (p # ps) s =
     (case fn p s of (s', continue) \<Rightarrow> if continue then run_options fn ps s' else (s', False))"

lemma run_options_append:
  "run_options fn (ps @ qs) s =
     (case run_options fn ps s of (s', continue) \<Rightarrow>
        if continue then run_options fn qs s' else (s', False))"
  by (induction ps arbitrary: s) (auto split: prod.splits)

lemma scanShorts_options:
  "scanShorts g cs fn s =
     (case run_options fn (short_options g cs) s of (s', continue) \<Rightarrow>
        (s', continue \<and> short_consumes g cs, continue))"
  by (induction cs arbitrary: s) (auto split: prod.splits)

lemma scan_arg_options:
  "scan_arg g a fn s =
     (case run_options fn (arg_options g a) s of (s', continue) \<Rightarrow>
        (s', continue \<and> arg_consumes g a, continue))"
  by (auto simp: scan_arg_def scanLong_def scanShorts_options arg_options_def arg_consumes_def
      is_long_def is_short_def long_name_def long_joined_def split: prod.splits)

lemma scan_call_options: "scan g args u fn s = fst (run_options fn (call_options g args u) s)"
proof (induction g args u fn s rule: scan.induct)
  case (2 g a as u fn s)
  show ?case
  proof (cases "isEndOfOptions a")
    case True
    with 2 show ?thesis by simp
  next
    case False
    obtain s' c where r: "run_options fn (arg_options g a) s = (s', c)" by (metis prod.exhaust)
    then have sa: "scan_arg g a fn s = (s', c \<and> arg_consumes g a, c)"
      by (simp add: scan_arg_options)
    show ?thesis
    proof (cases c)
      case True
      with 2(2) [OF False sa [symmetric] refl] False r sa show ?thesis
        by (simp add: run_options_append)
    next
      case stop: False
      with False r sa show ?thesis by (simp add: run_options_append)
    qed
  qed
qed simp

lemma has_option_iff:
  "has_option g args shorts longs \<longleftrightarrow>
     (\<exists>p \<in> set (call_options g args False). option_is p shorts longs)"
proof -
  have "fst (run_options (\<lambda>p found. let f = option_is p shorts longs in (f, \<not> f)) ps False) \<longleftrightarrow>
      (\<exists>p \<in> set ps. option_is p shorts longs)" for ps
    by (induction ps) (auto simp: Let_def)
  then show ?thesis by (simp add: has_option_def scan_call_options)
qed

lemma count_option_eq:
  "count_option g args shorts longs =
     length (filter (\<lambda>p. option_is p shorts longs) (call_options g args False))"
proof -
  have "fst (run_options (\<lambda>p n. (if option_is p shorts longs then Suc n else n, True)) ps k) =
      k + length (filter (\<lambda>p. option_is p shorts longs) ps)" for ps k
    by (induction ps arbitrary: k) auto
  then show ?thesis by (simp add: count_option_def scan_call_options)
qed

lemma count_pos_has: "0 < count_option g args shorts longs \<longleftrightarrow> has_option g args shorts longs"
  by (auto simp: count_option_eq has_option_iff filter_empty_conv)

text \<open>Stopping at an end-of-options marker only loses options.\<close>

lemma call_options_until: "set (call_options g args True) \<subseteq> set (call_options g args False)"
  by (induction g args True rule: call_options.induct) auto

lemma final_option_has:
  assumes "final_option g args u opts"
  shows "\<exists>n \<in> set opts. \<exists>p \<in> set (call_options g args u). option_is p [n_short n] [n_long n]"
proof -
  have off: "foldl (\<lambda>m n. if q n then m(n_long n := Some False) else m) m ns l = Some True \<Longrightarrow>
      m l = Some True" for q m l and ns :: "git_opt_name list"
  proof (induction ns arbitrary: m)
    case (Cons n ns)
    then show ?case by (cases "q n"; cases "l = n_long n") fastforce+
  qed simp
  have step: "fst (final_step opts p on) l = Some True \<Longrightarrow>
      on l = Some True \<or> (\<exists>n \<in> set opts. option_is p [n_short n] [n_long n])" for p on l
    by (auto simp: final_step_def find_Some_iff split: option.splits if_splits dest!: off)
  have go: "snd (final_step opts p on)" for p on
    by (auto simp: final_step_def split: option.splits)
  have "on l = Some True \<or> (\<exists>n \<in> set opts. \<exists>p \<in> set ps. option_is p [n_short n] [n_long n])"
    if "fst (run_options (final_step opts) ps on) l = Some True" for ps on l
    using that
  proof (induction ps arbitrary: on)
    case (Cons p ps)
    have "fst (run_options (final_step opts) ps (fst (final_step opts p on))) l = Some True"
      using Cons.prems go [of p on] by (simp split: prod.splits)
    from Cons.IH [OF this] step [of p on l] show ?case by auto
  qed simp
  with assms show ?thesis
    by (fastforce simp: final_option_def Let_def scan_call_options list_ex_iff)
qed

text \<open>
  Abbreviations and bundles. \<open>at_option g pre\<close> says that the argument after \<open>pre\<close> is read
  as an option and not as the value of the option before it.
\<close>

function at_option :: "git_option_grammar \<Rightarrow> string list \<Rightarrow> bool" where
  "at_option g [] = True"
| "at_option g (a # as) =
     (if \<not> isEndOfOptions a \<and> arg_consumes g a then as \<noteq> [] \<and> at_option g (drop 1 as)
      else at_option g as)"
  by pat_completeness auto
termination
  by (relation "measure (\<lambda>(g, args). length args)") auto

lemma call_options_at:
  "at_option g pre \<Longrightarrow> call_options g (pre @ rest) False = call_options g pre False @ call_options g rest False"
proof (induction g pre rule: at_option.induct)
  case (2 g a as)
  show ?case
  proof (cases "\<not> isEndOfOptions a \<and> arg_consumes g a")
    case True
    with "2.prems" have "as \<noteq> []" "at_option g (drop 1 as)" by auto
    with "2.IH"(1) True show ?thesis by (cases as) auto
  next
    case False
    with 2 show ?thesis by (cases "isEndOfOptions a") auto
  qed
qed simp

lemma long_option_is:
  "option_is (long_option p) shorts longs \<longleftrightarrow> (\<exists>l \<in> set longs. isLongPrefix p l 1)"
  by (auto simp: option_is_def long_option_def list_ex_iff)

lemma short_option_is:
  "c \<noteq> NUL \<Longrightarrow> option_is (short_option c) shorts longs \<longleftrightarrow> c \<in> set shorts"
  by (simp add: option_is_def short_option_def)

text \<open>Every non-empty prefix of a long option, with or without a joined value, counts as it.\<close>

lemma has_option_abbreviation:
  assumes "at_option g pre" "p \<noteq> []" "has_prefix l p" "l \<in> set longs"
    and "CHR ''='' \<notin> set p" "tok = ''--'' @ p \<or> tok = ''--'' @ p @ CHR ''='' # v"
    and "tok \<noteq> ''--end-of-options''"
  shows "has_option g (pre @ tok # rest) shorts longs"
proof -
  have cut: "cut_at CHR ''='' (q @ CHR ''='' # w) = (q, w, True)" if "CHR ''='' \<notin> set q" for q w
    using that by (induction q) auto
  have cut': "fst (cut_at CHR ''='' q) = q" if "CHR ''='' \<notin> set q" for q
    using that by (induction q) (auto split: prod.splits)
  have "is_long tok" "long_name tok = p" "\<not> isEndOfOptions tok"
    using assms(2,5,6,7) cut cut' by (auto simp: is_long_def has_prefix_def long_name_def isEndOfOptions_def)
  then have "long_option p \<in> set (call_options g (tok # rest) False)"
    by (simp add: arg_options_def)
  then have "long_option p \<in> set (call_options g (pre @ tok # rest) False)"
    using call_options_at [OF assms(1)] by simp
  moreover have "option_is (long_option p) shorts longs"
    using assms(2,3,4) by (auto simp: long_option_is isLongPrefix_def Suc_le_eq)
  ultimately show ?thesis unfolding has_option_iff by blast
qed

text \<open>A short option counts anywhere in a bundle of flags that take no value.\<close>

lemma has_option_bundle:
  assumes "at_option g pre" "c \<in> set shorts" "c \<noteq> NUL"
    and "\<forall>d \<in> set bs. d \<notin> set (valueShort g) \<and> d \<notin> set (optionalShort g)"
    and "hd (bs @ [c]) \<noteq> CHR ''-''"
  shows "has_option g (pre @ (CHR ''-'' # bs @ c # cs) # rest) shorts longs"
proof -
  let ?tok = "CHR ''-'' # bs @ c # cs"
  have "short_option c \<in> set (short_options g (bs @ c # cs))"
    using assms(4) by (induction bs) auto
  moreover have "is_short ?tok" "\<not> is_long ?tok" "\<not> isEndOfOptions ?tok"
    using assms(5) by (cases bs; auto simp: is_short_def is_long_def has_prefix_def isEndOfOptions_def)+
  ultimately have "short_option c \<in> set (call_options g (?tok # rest) False)"
    by (simp add: arg_options_def)
  then have "short_option c \<in> set (call_options g (pre @ ?tok # rest) False)"
    using call_options_at [OF assms(1)] by simp
  moreover have "option_is (short_option c) shorts longs"
    using assms(2,3) by (simp add: short_option_is)
  ultimately show ?thesis unfolding has_option_iff by blast
qed

end
