(* ===== verification/Plumb_Git.thy ===== *)
theory Plumb_Git
  imports Plumb_Git_Options
begin

text \<open>
  Tier classification of the git tool: \<open>internal/tools/git_classify.go\<close> (the arms of
  \<open>classifyGit\<close> and the checks before them), \<open>git_merge.go\<close> (merge's refused flags),
  \<open>git_read_args.go\<close> (options that are refused on a read verb) and \<open>git_ref_reset.go\<close>
  (lowering a destructive call that only creates a ref).

  An error is a constructor of \<open>git_error\<close> with the values its message is formatted from;
  the wording of the messages is not modelled. What git itself answers about a ref is the
  parameter \<open>ref_probe\<close> of \<open>refineRefReset\<close>.
\<close>

section \<open>Tiers and errors\<close>

datatype git_tier = TierReject | TierRead | TierWrite | TierDestructive | TierNetwork

record read_refusal =
  r_shorts :: string
  r_longs :: "string list"
  r_exact :: "string list"

datatype git_error =
    GlobalFlag string
  | DuplicatedVerb string
  | MergeNoVerify | MergeEditor | MergeFile | MergeContinue
  | ReadRefused string string
  | StashSubCommand string
  | RmNotPermitted
  | WorktreeSubVerb
  | NotPermitted string
  | PolicyDisabled git_tier
  | ConfirmRequired git_tier
  | UnknownTier
  | AdHocURL string
  | ForceProtected string
  | ForceNoDestination
  | SubcommandRequired
  | AmendNotCommit string
  | CleanCloneNotMergeTree string
  | WindowQualifiesNothing | WindowStart | WindowEnd | WindowSwapped int int
  | WindowNotRead string
  | CommitMessageRequired
  | AddPathsRequired

section \<open>Checks that precede tiering\<close>

definition dangerousGitGlobalFlags :: "string list" where
  "dangerousGitGlobalFlags =
     [''-c'', ''-C'', ''--exec-path'', ''--git-dir'', ''--work-tree'', ''--namespace'',
      ''--upload-pack'', ''--receive-pack'']"

definition flag_name :: "string \<Rightarrow> string" where
  "flag_name a = fst (cut_at CHR ''='' a)"

fun checkGitGlobalFlags :: "string list \<Rightarrow> git_error option" where
  "checkGitGlobalFlags [] = None"
| "checkGitGlobalFlags (a # as) =
     (if flag_name a \<in> set dangerousGitGlobalFlags then Some (GlobalFlag a)
      else checkGitGlobalFlags as)"

definition gitRemoteLeadingSubcommands :: "string list" where
  "gitRemoteLeadingSubcommands = [''push'', ''fetch'', ''pull'']"

definition rejectDuplicatedLeadingSubcommand :: "string \<Rightarrow> string list \<Rightarrow> git_error option" where
  "rejectDuplicatedLeadingSubcommand sub args =
     (if args = [] \<or> hd args \<noteq> sub \<or> sub \<notin> set gitRemoteLeadingSubcommands then None
      else Some (DuplicatedVerb sub))"

definition switch_create_arg :: "string \<Rightarrow> string" where
  "switch_create_arg a =
     (if a = ''-c'' then ''--create'' else if a = ''-C'' then ''--force-create'' else a)"

text \<open>The second result stands for the note, which is not empty exactly when it acted.\<close>

definition normaliseSwitchCreate :: "string \<Rightarrow> string list \<Rightarrow> string list \<times> bool" where
  "normaliseSwitchCreate sub args =
     (if sub \<noteq> ''switch'' then (args, False)
      else if \<not> list_ex (\<lambda>a. a = ''-c'' \<or> a = ''-C'') args then (args, False)
      else (map switch_create_arg args, True))"

fun merge_check :: "git_error option option_fn" where
  "merge_check p err =
     (let err' =
        (if option_is p [] [''no-verify''] then Some MergeNoVerify
         else if option_is p ''e'' [''edit''] then Some MergeEditor
         else if option_is p ''F'' [''file''] then Some MergeFile
         else if option_is p [] [''continue''] then Some MergeContinue
         else err)
      in (err', err' = None))"

definition checkMergeArgs :: "string list \<Rightarrow> git_error option" where
  "checkMergeArgs args = scan mergeGrammar args False merge_check None"

section \<open>Options refused on a read verb\<close>

definition diffFamilyGrammar :: git_option_grammar where
  "diffFamilyGrammar = mk_grammar [] ''SGlnLUO'' ''MCB''"

definition readArgGrammars :: "string \<Rightarrow> git_option_grammar" where
  "readArgGrammars sub =
     (if sub = ''grep'' then
        mk_grammar [''after-context'', ''before-context'', ''context'', ''max-count'', ''max-depth'', ''threads'']
          ''efABCm'' ''O''
      else if sub = ''blame'' then mk_grammar [] ''LS'' ''CM''
      else if sub \<in> {''diff'', ''log'', ''show'', ''stash''} then diffFamilyGrammar
      else if sub = ''ls-files'' then mk_grammar [] ''xX'' []
      else mk_grammar [] [] [])"

definition refusal :: "string \<Rightarrow> string list \<Rightarrow> string list \<Rightarrow> read_refusal" where
  "refusal s l e = \<lparr>r_shorts = s, r_longs = l, r_exact = e\<rparr>"

definition orderFile :: read_refusal where
  "orderFile = refusal ''O'' [] []"

definition readRefusals :: "string \<Rightarrow> read_refusal list" where
  "readRefusals sub =
     (let output = refusal [] [''output''] [] in
      if sub = ''diff'' then [output, refusal [] [''no-index''] [], orderFile]
      else if sub = ''log'' then [output, orderFile]
      else if sub = ''show'' then [output, orderFile]
      else if sub = ''shortlog'' then [output]
      else if sub = ''stash'' then [output, orderFile]
      else if sub = ''blame'' then
        [output, refusal [] [''contents''] [], refusal ''S'' [''ignore-revs-file''] [''ignore-rev'']]
      else if sub = ''ls-files'' then [refusal ''X'' [''exclude-from''] []]
      else if sub = ''grep'' then
        [refusal ''O'' [''open-files-in-pager''] [], refusal [] [''no-index''] [], refusal ''f'' [] []]
      else [])"

definition refuses :: "read_refusal \<Rightarrow> git_option \<Rightarrow> bool" where
  "refuses r p =
     (option_is p (r_shorts r) (r_longs r) \<and> (o_long p = [] \<or> o_long p \<notin> set (r_exact r)))"

definition refusedIn :: "git_option_grammar \<Rightarrow> string list \<Rightarrow> read_refusal \<Rightarrow> bool" where
  "refusedIn g args r = scan g args False (\<lambda>p found. (refuses r p, \<not> refuses r p)) False"

definition readRefusalName :: "read_refusal \<Rightarrow> string" where
  "readRefusalName r =
     join_with ''/'' (map (\<lambda>c. [CHR ''-'', c]) (r_shorts r) @ map (\<lambda>l. ''--'' @ l) (r_longs r))"

definition checkReadArgs :: "string \<Rightarrow> string list \<Rightarrow> git_error option" where
  "checkReadArgs sub args =
     (case find (refusedIn (readArgGrammars sub) args) (readRefusals sub) of
        None \<Rightarrow> None
      | Some r \<Rightarrow> Some (ReadRefused sub (readRefusalName r)))"

definition readArgsNamePaths :: "string list \<Rightarrow> bool" where
  "readArgsNamePaths args =
     list_ex (\<lambda>a. \<not> has_prefix a ''-'' \<or> isEndOfOptions a \<or> (has_prefix a ''--'' \<and> contains a ''='')) args"

section \<open>The arms of classifyGit\<close>

definition classifySwitch :: "string list \<Rightarrow> git_tier" where
  "classifySwitch args =
     (if has_option switchGrammar args ''fC'' [''force'', ''discard-changes'', ''force-create'']
      then TierDestructive else TierWrite)"

definition classifyRestore :: "string list \<Rightarrow> git_tier" where
  "classifyRestore args =
     (if final_option restoreGrammar args True [opt_name CHR ''S'' ''staged'']
        \<and> \<not> has_option restoreGrammar args ''W'' [''worktree'']
      then TierWrite else TierDestructive)"

definition branchListMode :: "git_opt_name list" where
  "branchListMode =
     [opt_name CHR ''l'' ''list'', opt_name CHR ''a'' ''all'', opt_name CHR ''r'' ''remotes'',
      opt_name NUL ''show-current'', opt_name NUL ''contains'', opt_name NUL ''no-contains'',
      opt_name NUL ''merged'', opt_name NUL ''no-merged'', opt_name NUL ''points-at'']"

fun hasNonFlagArg :: "string list \<Rightarrow> bool" where
  "hasNonFlagArg [] = False"
| "hasNonFlagArg (a # as) =
     (if isEndOfOptions a then as \<noteq> []
      else if a \<noteq> [] \<and> \<not> has_prefix a ''-'' then True
      else hasNonFlagArg as)"

definition classifyBranch :: "string list \<Rightarrow> git_tier" where
  "classifyBranch args =
     (if has_option branchGrammar args ''dDfMC'' [''delete'', ''force''] then TierDestructive
      else if has_option branchGrammar args ''mu''
        [''move'', ''copy'', ''set-upstream-to'', ''unset-upstream'', ''edit-description''] then TierWrite
      else if final_option branchGrammar args True branchListMode then TierRead
      else if hasNonFlagArg args then TierWrite
      else TierRead)"

definition tagListMode :: "git_opt_name list" where
  "tagListMode =
     [opt_name CHR ''l'' ''list'', opt_name CHR ''n'' [], opt_name NUL ''contains'', opt_name NUL ''merged'']"

definition classifyTag :: "string list \<Rightarrow> git_tier" where
  "classifyTag args =
     (if has_option tagGrammar args ''df'' [''delete'', ''force''] then TierDestructive
      else if final_option tagGrammar args True tagListMode then TierRead
      else if hasNonFlagArg args then TierWrite
      else TierRead)"

fun classifyStash :: "string list \<Rightarrow> git_tier" where
  "classifyStash [] = TierWrite"
| "classifyStash (a # _) =
     (if a \<in> {''list'', ''show''} then TierRead
      else if a \<in> {''push'', ''save'', ''pop'', ''apply'', ''create'', ''store''} then TierWrite
      else if a \<in> {''drop'', ''clear''} then TierDestructive
      else TierReject)"

definition classifyCheckout :: "string list \<Rightarrow> git_tier" where
  "classifyCheckout args =
     (if args \<noteq> [] \<and> hd args = ''-b'' \<and> \<not> has_option checkoutGrammar args ''fB'' [''force'']
      then TierWrite else TierDestructive)"

fun classifyWorktree :: "string list \<Rightarrow> git_tier" where
  "classifyWorktree [] = TierReject"
| "classifyWorktree (a # as) =
     (if a = ''list'' then TierRead
      else if a = ''add'' then
        (if has_option worktreeGrammar (a # as) ''Bf'' [''force-create'', ''force'']
         then TierDestructive else TierWrite)
      else if a \<in> {''remove'', ''lock'', ''unlock''} then TierWrite
      else if a \<in> {''move'', ''prune'', ''repair''} then TierDestructive
      else TierReject)"

definition classifyMerge :: "string list \<Rightarrow> git_tier" where
  "classifyMerge args =
     (if has_option mergeGrammar args [] [''abort'', ''quit'', ''continue''] then TierDestructive
      else TierWrite)"

definition classifyGit :: "string \<Rightarrow> string list \<Rightarrow> git_tier" where
  "classifyGit sub args =
     (if sub \<in> {''diff'', ''log'', ''show'', ''blame'', ''status'', ''shortlog'', ''check-ignore'',
                ''merge-tree'', ''check-attr'', ''cherry'', ''ls-files'', ''grep''} then TierRead
      else if sub \<in> {''add'', ''commit'', ''mv''} then TierWrite
      else if sub = ''switch'' then classifySwitch args
      else if sub = ''restore'' then classifyRestore args
      else if sub = ''branch'' then classifyBranch args
      else if sub = ''tag'' then classifyTag args
      else if sub = ''stash'' then classifyStash args
      else if sub = ''checkout'' then classifyCheckout args
      else if sub = ''worktree'' then classifyWorktree args
      else if sub = ''merge'' then classifyMerge args
      else if sub \<in> {''reset'', ''clean'', ''rebase'', ''revert'', ''cherry-pick''} then TierDestructive
      else if sub \<in> {''push'', ''fetch'', ''pull''} then TierNetwork
      else TierReject)"

definition reject_error :: "string \<Rightarrow> string list \<Rightarrow> git_error" where
  "reject_error sub args =
     (if sub = ''stash'' \<and> args \<noteq> [] then StashSubCommand (hd args)
      else if sub = ''rm'' then RmNotPermitted
      else if sub = ''worktree'' then WorktreeSubVerb
      else NotPermitted sub)"

definition classifyGitCall :: "string \<Rightarrow> string list \<Rightarrow> git_error + git_tier" where
  "classifyGitCall sub args =
     (case checkGitGlobalFlags args of Some e \<Rightarrow> Inl e | None \<Rightarrow>
      case rejectDuplicatedLeadingSubcommand sub args of Some e \<Rightarrow> Inl e | None \<Rightarrow>
      case (if sub = ''merge'' then checkMergeArgs args else None) of Some e \<Rightarrow> Inl e | None \<Rightarrow>
      (let tier = classifyGit sub args in
       case (if tier = TierRead then checkReadArgs sub args else None) of Some e \<Rightarrow> Inl e | None \<Rightarrow>
       if tier \<noteq> TierReject then Inr tier else Inl (reject_error sub args)))"

section \<open>Lowering a call that creates a ref\<close>

definition branchRefPrefix :: string where
  "branchRefPrefix = ''refs/heads/''"

definition tagRefPrefix :: string where
  "tagRefPrefix = ''refs/tags/''"

definition plainRefByte :: "char \<Rightarrow> bool" where
  "plainRefByte c =
     (char_in CHR ''a'' CHR ''z'' c \<or> char_in CHR ''A'' CHR ''Z'' c \<or> char_in CHR ''0'' CHR ''9'' c \<or>
      c = CHR ''.'' \<or> c = CHR ''_'' \<or> c = CHR ''-'' \<or> c = CHR ''/'')"

definition plain_name :: "string \<Rightarrow> bool" where
  "plain_name name =
     (name \<noteq> [] \<and> hd name \<noteq> CHR ''-'' \<and> \<not> contains name ''..'' \<and>
      \<not> has_suffix name ''.lock'' \<and> \<not> has_suffix name ''/'' \<and> list_all plainRefByte name)"

definition plainRefName :: "string \<Rightarrow> bool" where
  "plainRefName r =
     (if has_prefix r branchRefPrefix then plain_name (drop (length branchRefPrefix) r)
      else if has_prefix r tagRefPrefix then plain_name (drop (length tagRefPrefix) r)
      else False)"

definition is_force_create :: "string \<Rightarrow> bool" where
  "is_force_create a =
     (a = ''-C'' \<or>
      has_prefix a ''--'' \<and> isLongPrefix (fst (cut_at CHR ''='' (drop 2 a))) ''force-create'' (length ''force-''))"

text \<open>The index and the name that the loop of \<open>switchResetForm\<close> ends with; None is its early return.\<close>

fun switch_reset_at ::
  "nat \<Rightarrow> string list \<Rightarrow> (nat \<times> string) option \<Rightarrow> (nat \<times> string) option option" where
  "switch_reset_at i [] found = Some found"
| "switch_reset_at i (a # as) found =
     (if \<not> is_force_create a then switch_reset_at (Suc i) as found
      else if found \<noteq> None then None
      else
        (let (_, v, joined) = cut_at CHR ''='' (drop 2 a);
             name = (if has_prefix a ''--'' \<and> joined then v else if as \<noteq> [] then hd as else [])
         in switch_reset_at (Suc i) as (Some (i, name))))"

definition switchResetForm :: "string list \<Rightarrow> (string list \<times> string) option" where
  "switchResetForm args =
     (case switch_reset_at 0 args None of
        Some (Some (at, name)) \<Rightarrow>
          (if name = [] \<or> count_option switchGrammar args ''cC'' [''create'', ''force-create''] \<noteq> 1 then None
           else
             (let (_, v, joined) = cut_at CHR ''='' (args ! at)
              in Some (args[at := if joined then ''--create='' @ v else ''--create''], branchRefPrefix @ name)))
      | _ \<Rightarrow> None)"

definition checkoutResetForm :: "string list \<Rightarrow> (string list \<times> string) option" where
  "checkoutResetForm args =
     (if length args < 2 \<or> hd args \<noteq> ''-B'' \<or> count_option checkoutGrammar args ''bB'' [] \<noteq> 1 then None
      else Some (''-b'' # drop 1 args, branchRefPrefix @ args ! 1))"

definition is_tag_force :: "string \<Rightarrow> bool" where
  "is_tag_force a =
     (a = ''-f'' \<or> has_prefix a ''--'' \<and> isLongPrefix (drop 2 a) ''force'' (length ''for''))"

fun force_flag_at :: "nat \<Rightarrow> string list \<Rightarrow> nat option \<Rightarrow> nat option option" where
  "force_flag_at i [] at = Some at"
| "force_flag_at i (a # as) at =
     (if \<not> is_tag_force a then force_flag_at (Suc i) as at
      else if at \<noteq> None then None
      else force_flag_at (Suc i) as (Some i))"

definition forceFlagAt :: "string list \<Rightarrow> nat option" where
  "forceFlagAt args =
     (case force_flag_at 0 args None of
        Some (Some at) \<Rightarrow> (if count_option tagGrammar args ''f'' [''force''] = 1 then Some at else None)
      | _ \<Rightarrow> None)"

definition tagResetForm :: "string list \<Rightarrow> (string list \<times> string) option" where
  "tagResetForm args =
     (case forceFlagAt args of
        None \<Rightarrow> None
      | Some at \<Rightarrow>
          (let neutral = take at args @ drop (Suc at) args in
           case positionals tagGrammar neutral of
             [] \<Rightarrow> None
           | name # _ \<Rightarrow> Some (neutral, tagRefPrefix @ name)))"

definition refResetForm :: "string \<Rightarrow> string list \<Rightarrow> (string list \<times> string) option" where
  "refResetForm sub args =
     (case (if sub = ''switch'' then switchResetForm args
            else if sub = ''checkout'' then checkoutResetForm args
            else if sub = ''tag'' then tagResetForm args
            else None) of
        None \<Rightarrow> None
      | Some (neutral, r) \<Rightarrow> if plainRefName r then Some (neutral, r) else None)"

text \<open>What git answers about a ref; \<open>probe_exists\<close> is None when git could not say.\<close>

record ref_probe =
  probe_plainName :: "string \<Rightarrow> bool"
  probe_exists :: "string \<Rightarrow> bool option"

definition refineRefReset ::
  "string \<Rightarrow> string list \<Rightarrow> git_tier \<Rightarrow> ref_probe option \<Rightarrow> git_tier" where
  "refineRefReset sub args tier probe =
     (case probe of
        None \<Rightarrow> tier
      | Some pr \<Rightarrow>
          (if tier \<noteq> TierDestructive then tier
           else
             (case refResetForm sub args of
                None \<Rightarrow> tier
              | Some (neutral, r) \<Rightarrow>
                  (if classifyGit sub neutral \<noteq> TierWrite \<or> \<not> probe_plainName pr r then tier
                   else if probe_exists pr r = Some False then TierWrite
                   else tier))))"

definition refineTier ::
  "string \<Rightarrow> string list \<Rightarrow> git_tier \<Rightarrow> ref_probe option \<Rightarrow> git_tier" where
  "refineTier sub args tier probe =
     (if tier \<noteq> TierDestructive then tier
      else if refResetForm sub args = None then tier
      else refineRefReset sub args tier probe)"

text \<open>The answers of git commands, as \<open>cmd.Output\<close> returns them: the bytes printed, or the exit failure.\<close>

datatype git_output = Git_Out string | Git_Failed string "nat option"

definition gitReadsRefPlainly :: "(string list \<Rightarrow> git_output) \<Rightarrow> string \<Rightarrow> bool" where
  "gitReadsRefPlainly run r =
     (if has_prefix r branchRefPrefix then
        (let name = drop (length branchRefPrefix) r in
         if has_prefix name ''-'' then False
         else
           (case run [''check-ref-format'', ''--branch'', name] of
              Git_Out out \<Rightarrow> trim_suffix out [CHR 0x0A] = name
            | Git_Failed _ _ \<Rightarrow> False))
      else
        (case run [''check-ref-format'', r] of Git_Out _ \<Rightarrow> True | Git_Failed _ _ \<Rightarrow> False))"

definition gitRefExists :: "(string list \<Rightarrow> git_output) \<Rightarrow> string \<Rightarrow> bool option" where
  "gitRefExists run r =
     (case run [''rev-parse'', ''--verify'', ''--quiet'', r] of
        Git_Out _ \<Rightarrow> Some True
      | Git_Failed out code \<Rightarrow> if code = Some 1 \<and> out = [] then Some False else None)"

definition git_probe :: "(string list \<Rightarrow> git_output) \<Rightarrow> ref_probe" where
  "git_probe run = \<lparr>probe_plainName = gitReadsRefPlainly run, probe_exists = gitRefExists run\<rparr>"

end
