(* ===== verification/Plumb_Git_Policy.thy ===== *)
theory Plumb_Git_Policy
  imports Plumb_Git
begin

text \<open>
  The gate of the git tool: the policy of a connection and the push protection
  (\<open>internal/tools/git_policy.go\<close>), the argument vector that is run (\<open>git_exec.go\<close>), the
  checks of the output window (\<open>git_window.go\<close>) and the sequence of decisions that
  \<open>Git.Execute\<close> (\<open>git.go\<close>) makes before it touches the repository.
\<close>

section \<open>Policy\<close>

record git_policy =
  AllowWrites :: bool
  AllowDestructive :: bool
  AllowPush :: bool
  ProtectedBranches :: "string list"

definition default_policy :: git_policy where
  "default_policy =
     \<lparr>AllowWrites = True, AllowDestructive = False, AllowPush = False, ProtectedBranches = []\<rparr>"

definition resolvePolicy :: "git_policy option \<Rightarrow> git_policy" where
  "resolvePolicy p = (case p of None \<Rightarrow> default_policy | Some q \<Rightarrow> q)"

fun gateGit :: "git_tier \<Rightarrow> git_policy \<Rightarrow> bool \<Rightarrow> git_error option" where
  "gateGit TierRead p confirm = None"
| "gateGit TierWrite p confirm = (if \<not> AllowWrites p then Some (PolicyDisabled TierWrite) else None)"
| "gateGit TierDestructive p confirm =
     (if \<not> AllowDestructive p then Some (PolicyDisabled TierDestructive)
      else if \<not> confirm then Some (ConfirmRequired TierDestructive)
      else None)"
| "gateGit TierNetwork p confirm =
     (if \<not> AllowPush p then Some (PolicyDisabled TierNetwork)
      else if \<not> confirm then Some (ConfirmRequired TierNetwork)
      else None)"
| "gateGit TierReject p confirm = Some UnknownTier"

section \<open>Push protection\<close>

definition index_byte :: "char \<Rightarrow> string \<Rightarrow> nat option" where
  "index_byte c s = (if c \<in> set s then Some (length (takeWhile (\<lambda>x. x \<noteq> c) s)) else None)"

definition looksLikeGitURL :: "string \<Rightarrow> bool" where
  "looksLikeGitURL s =
     (contains s ''://'' \<or> contains s ''::'' \<or>
      (case (index_byte CHR ''@'' s, index_byte CHR '':'' s) of
         (Some at, Some colon) \<Rightarrow> at < colon
       | _ \<Rightarrow> False))"

definition hasForceFlag :: "string list \<Rightarrow> bool" where
  "hasForceFlag args = list_ex (\<lambda>a. a = ''-f'' \<or> has_prefix a ''--force'') args"

definition hasForceRefspec :: "string list \<Rightarrow> bool" where
  "hasForceRefspec args = list_ex (\<lambda>a. \<not> has_prefix a ''-'' \<and> has_prefix a ''+'') args"

definition trim_prefix :: "string \<Rightarrow> string \<Rightarrow> string" where
  "trim_prefix s p = (if has_prefix s p then drop (length p) s else s)"

definition isProtectedBranch :: "string \<Rightarrow> string list \<Rightarrow> bool" where
  "isProtectedBranch arg protected =
     (\<not> has_prefix arg ''-'' \<and>
      list_ex (\<lambda>part. trim_prefix (trim_prefix part ''+'') ''refs/heads/'' \<in> set protected)
        (split_on CHR '':'' arg))"

definition pushValueFlags :: "string list" where
  "pushValueFlags = [''-o'', ''--push-option'', ''--repo'', ''--receive-pack'', ''--exec'']"

fun pushPositionals :: "string list \<Rightarrow> string list" where
  "pushPositionals [] = []"
| "pushPositionals [a] = (if \<not> has_prefix a ''-'' then [a] else [])"
| "pushPositionals (a # b # as) =
     (if \<not> has_prefix a ''-'' then a # pushPositionals (b # as)
      else if a \<in> set pushValueFlags then pushPositionals as
      else pushPositionals (b # as))"

definition forcePushTargetsCurrentBranch :: "string list \<Rightarrow> bool" where
  "forcePushTargetsCurrentBranch args =
     (let refspecs = drop 1 (pushPositionals args)
      in refspecs = [] \<or> list_ex (\<lambda>r. r = ''HEAD'' \<or> r = ''+HEAD'') refspecs)"

definition checkPushProtection ::
  "string \<Rightarrow> string list \<Rightarrow> git_policy \<Rightarrow> git_tier \<Rightarrow> git_error option" where
  "checkPushProtection sub args p tier =
     (if tier \<noteq> TierNetwork then None
      else if list_ex looksLikeGitURL args then Some (AdHocURL sub)
      else if sub \<noteq> ''push'' then None
      else if \<not> hasForceFlag args \<and> \<not> hasForceRefspec args then None
      else
        (case find (\<lambda>a. isProtectedBranch a (ProtectedBranches p)) args of
           Some a \<Rightarrow> Some (ForceProtected a)
         | None \<Rightarrow>
             (if ProtectedBranches p \<noteq> [] \<and> forcePushTargetsCurrentBranch args
              then Some ForceNoDestination else None)))"

section \<open>The call\<close>

record git_args =
  g_subcommand :: string
  g_args :: "string list"
  g_files :: "string list"
  g_message :: string
  g_confirm :: bool
  g_amend :: bool
  g_clean_clone :: bool
  g_start_line :: "int option"
  g_end_line :: "int option"
  g_pattern :: string
  g_use_regex :: bool
  g_case_sensitive :: "bool option"

definition validate :: "git_args \<Rightarrow> git_error option" where
  "validate a =
     (if trim_space (g_subcommand a) = [] then Some SubcommandRequired
      else if g_amend a \<and> g_subcommand a \<noteq> ''commit'' then Some (AmendNotCommit (g_subcommand a))
      else if g_clean_clone a \<and> g_subcommand a \<noteq> ''merge-tree'' then Some (CleanCloneNotMergeTree (g_subcommand a))
      else None)"

definition wanted :: "git_args \<Rightarrow> bool" where
  "wanted a = (g_start_line a \<noteq> None \<or> g_end_line a \<noteq> None \<or> g_pattern a \<noteq> [])"

definition windowGitArgs :: "git_args \<Rightarrow> git_error option" where
  "windowGitArgs a =
     (if \<not> wanted a then
        (if g_use_regex a \<or> g_case_sensitive a \<noteq> None then Some WindowQualifiesNothing else None)
      else
        (case g_start_line a of
           Some s \<Rightarrow>
             (if s < 1 then Some WindowStart
              else
                (case g_end_line a of
                   Some e \<Rightarrow>
                     (if e < 1 then Some WindowEnd
                      else if e < s then Some (WindowSwapped e s)
                      else None)
                 | None \<Rightarrow> None))
         | None \<Rightarrow>
             (case g_end_line a of
                Some e \<Rightarrow> (if e < 1 then Some WindowEnd else None)
              | None \<Rightarrow> None)))"

text \<open>
  \<open>Git.Execute\<close> up to the rate limiter: the call with its arguments normalised and its
  tier, or the refusal.
\<close>

definition admit ::
  "git_policy option \<Rightarrow> ref_probe option \<Rightarrow> git_args \<Rightarrow> git_error + git_args \<times> git_tier" where
  "admit policy probe a0 =
     (case validate a0 of Some e \<Rightarrow> Inl e | None \<Rightarrow>
      (let sub = g_subcommand a0;
           a = a0\<lparr>g_args := fst (normaliseSwitchCreate sub (g_args a0))\<rparr>
       in
       case classifyGitCall sub (g_args a) of Inl e \<Rightarrow> Inl e | Inr tier0 \<Rightarrow>
       (let tier = refineTier sub (g_args a) tier0 probe in
        case windowGitArgs a of Some e \<Rightarrow> Inl e | None \<Rightarrow>
        if wanted a \<and> tier \<noteq> TierRead then Inl (WindowNotRead sub)
        else
          (let p = resolvePolicy policy in
           case gateGit tier p (g_confirm a) of Some e \<Rightarrow> Inl e | None \<Rightarrow>
           case checkPushProtection sub (g_args a) p tier of Some e \<Rightarrow> Inl e | None \<Rightarrow>
           Inr (a, tier)))))"

section \<open>The argument vector\<close>

definition buildGitArgv :: "git_args \<Rightarrow> string \<Rightarrow> git_error + string list" where
  "buildGitArgv a trailer =
     (if g_subcommand a = ''commit'' then
        (let message = trim_space (g_message a) in
         if message = [] \<and> \<not> g_amend a then Inl CommitMessageRequired
         else Inr
           ([''commit'']
            @ (if g_amend a then [''--amend''] else [])
            @ (if message = [] then [''--no-edit''] else [''-m'', g_message a])
            @ (if trailer \<noteq> [] then [''--trailer'', trailer] else [])
            @ (if g_files a \<noteq> [] then ''--'' # g_files a else [])))
      else if g_subcommand a = ''add'' then
        (if g_files a = [] then Inl AddPathsRequired else Inr ([''add'', ''-A'', ''--''] @ g_files a))
      else Inr (g_subcommand a # g_args a))"

definition gitNoOptionalLocks :: string where
  "gitNoOptionalLocks = ''--no-optional-locks''"

definition gitArgvForTier :: "string list \<Rightarrow> git_tier \<Rightarrow> string list" where
  "gitArgvForTier argv tier = (if tier = TierRead then gitNoOptionalLocks # argv else argv)"

end
