(* ===== verification/Plumb_Git_Correct.thy ===== *)
theory Plumb_Git_Correct
  imports Plumb_Git_Policy
begin

text \<open>
  What the classification and the gate of the git tool guarantee. The specification is
  \<open>call_values\<close>: the options of a call with the value git gives each of them, in the order
  git reads them. The lemmas relate the tiers, the refusals and the ref that
  \<open>refineRefReset\<close> probes to that list.
\<close>

section \<open>Options with their values\<close>

fun short_values ::
  "git_option_grammar \<Rightarrow> string \<Rightarrow> string option \<Rightarrow> (git_option \<times> string option) list" where
  "short_values g [] nxt = []"
| "short_values g (c # cs) nxt =
     (if c \<in> set (valueShort g) then [(short_option c, if cs = [] then nxt else Some cs)]
      else if c \<in> set (optionalShort g) then [(short_option c, if cs = [] then None else Some cs)]
      else (short_option c, None) # short_values g cs nxt)"

definition long_value :: "git_option_grammar \<Rightarrow> string \<Rightarrow> string option \<Rightarrow> string option" where
  "long_value g a nxt =
     (if long_joined a then Some (fst (snd (cut_at CHR ''='' (drop 2 a))))
      else if arg_consumes g a then nxt else None)"

definition arg_values ::
  "git_option_grammar \<Rightarrow> string \<Rightarrow> string option \<Rightarrow> (git_option \<times> string option) list" where
  "arg_values g a nxt =
     (if is_long a then [(long_option (long_name a), long_value g a nxt)]
      else if is_short a then short_values g (drop 1 a) nxt
      else [])"

definition head_of :: "'a list \<Rightarrow> 'a option" where
  "head_of xs = (case xs of [] \<Rightarrow> None | x # _ \<Rightarrow> Some x)"

lemma head_of_simps [simp]: "head_of [] = None" "head_of (x # xs) = Some x"
  by (simp_all add: head_of_def)

lemma head_of_append [simp]: "xs \<noteq> [] \<Longrightarrow> head_of (xs @ ys) = head_of xs"
  by (cases xs) auto

function call_values :: "git_option_grammar \<Rightarrow> string list \<Rightarrow> (git_option \<times> string option) list" where
  "call_values g [] = []"
| "call_values g (a # as) =
     (if isEndOfOptions a then call_values g as
      else arg_values g a (head_of as) @ call_values g (if arg_consumes g a then drop 1 as else as))"
  by pat_completeness auto
termination
  by (relation "measure (\<lambda>(g, args). length args)") auto

lemma short_values_options: "map fst (short_values g cs nxt) = short_options g cs"
  by (induction cs) auto

lemma call_values_options: "map fst (call_values g args) = call_options g args False"
  by (induction g args rule: call_values.induct)
    (auto simp: arg_values_def arg_options_def short_values_options)

lemma short_values_next: "\<not> short_consumes g cs \<Longrightarrow> short_values g cs n = short_values g cs m"
  by (induction cs) (auto split: if_splits)

lemma arg_values_next: "\<not> arg_consumes g a \<Longrightarrow> arg_values g a n = arg_values g a m"
  by (auto simp: arg_values_def long_value_def arg_consumes_def split: if_splits intro: short_values_next)

lemma call_values_at:
  "at_option g pre \<Longrightarrow> call_values g (pre @ rest) = call_values g pre @ call_values g rest"
proof (induction g pre rule: at_option.induct)
  case (2 g a as)
  show ?case
  proof (cases "\<not> isEndOfOptions a \<and> arg_consumes g a")
    case True
    with "2.prems" have "as \<noteq> []" "at_option g (drop 1 as)" by auto
    with "2.IH"(1) True show ?thesis by (cases as) auto
  next
    case False
    have "arg_values g a (head_of (as @ rest)) = arg_values g a (head_of as)" if "\<not> arg_consumes g a"
      using that by (rule arg_values_next)
    with False 2 show ?thesis by (cases "isEndOfOptions a") auto
  qed
qed simp

text \<open>An argument that is read as a value can be replaced without changing the options.\<close>

lemma call_options_value:
  "\<not> at_option g pre \<Longrightarrow> call_options g (pre @ a # rest) False = call_options g (pre @ b # rest) False"
proof (induction g pre rule: at_option.induct)
  case (2 g c as)
  show ?case
  proof (cases "\<not> isEndOfOptions c \<and> arg_consumes g c")
    case True
    then show ?thesis
      using "2.IH"(1) "2.prems" by (cases as) auto
  next
    case False
    with 2 show ?thesis by (cases "isEndOfOptions c") auto
  qed
qed simp

lemma count_one:
  assumes "count_option g args shorts longs = 1"
    and "(p, v) \<in> set (call_values g args)" "option_is p shorts longs"
  shows "filter (\<lambda>(q, _). option_is q shorts longs) (call_values g args) = [(p, v)]"
proof -
  let ?f = "filter (\<lambda>(q, _). option_is q shorts longs) (call_values g args)"
  have "length ?f = length (filter (\<lambda>q. option_is q shorts longs) (map fst (call_values g args)))"
    by (simp add: filter_map o_def case_prod_unfold)
  with assms(1) have "length ?f = 1"
    by (simp add: count_option_eq call_values_options)
  moreover have "(p, v) \<in> set ?f" using assms(2,3) by auto
  ultimately show ?thesis
    by (metis (no_types, lifting) One_nat_def empty_iff empty_set length_0_conv length_Suc_conv set_ConsD)
qed

section \<open>Lowering\<close>

lemma switch_reset_at_found:
  "switch_reset_at i xs (Some q) = Some f \<Longrightarrow> f = Some q"
  by (induction i xs "Some q" rule: switch_reset_at.induct) (auto split: if_splits)

definition taken_name :: "string \<Rightarrow> string list \<Rightarrow> string" where
  "taken_name a rest =
     (if has_prefix a ''--'' \<and> long_joined a then fst (snd (cut_at CHR ''='' (drop 2 a)))
      else if rest \<noteq> [] then hd rest else [])"

lemma switch_reset_at_Cons:
  "is_force_create a \<Longrightarrow> switch_reset_at i (a # as) None = switch_reset_at (Suc i) as (Some (i, taken_name a as))"
  by (simp add: taken_name_def long_joined_def Let_def split: prod.splits)

lemma switch_reset_at_split:
  assumes "switch_reset_at i xs None = Some (Some (at, name))"
  shows "\<exists>pre a rest. xs = pre @ a # rest \<and> at = i + length pre \<and> is_force_create a \<and>
           name = taken_name a rest"
  using assms
proof (induction xs arbitrary: i)
  case (Cons a as)
  show ?case
  proof (cases "is_force_create a")
    case True
    with Cons.prems have "(at, name) = (i, taken_name a as)"
      using switch_reset_at_found by (metis option.inject switch_reset_at_Cons)
    with True show ?thesis by (intro exI [of _ "[]"] exI [of _ a] exI [of _ as]) auto
  next
    case False
    with Cons.prems have "switch_reset_at (Suc i) as None = Some (Some (at, name))" by simp
    from Cons.IH [OF this] obtain pre b rest where
      "as = pre @ b # rest" "at = Suc i + length pre" "is_force_create b" "name = taken_name b rest"
      by blast
    then show ?thesis by (intro exI [of _ "a # pre"] exI [of _ b] exI [of _ rest]) auto
  qed
qed simp

lemma force_create_token:
  assumes "is_force_create a"
  shows "\<not> isEndOfOptions a"
    and "\<exists>p. arg_values switchGrammar a nxt =
           [(p, if has_prefix a ''--'' \<and> long_joined a then Some (fst (snd (cut_at CHR ''='' (drop 2 a)))) else nxt)]
           \<and> option_is p ''cC'' [''create'', ''force-create'']"
proof -
  show e: "\<not> isEndOfOptions a"
    using assms
    by (auto simp: is_force_create_def isEndOfOptions_def isLongPrefix_def has_prefix_def)
  show "\<exists>p. arg_values switchGrammar a nxt =
           [(p, if has_prefix a ''--'' \<and> long_joined a then Some (fst (snd (cut_at CHR ''='' (drop 2 a)))) else nxt)]
           \<and> option_is p ''cC'' [''create'', ''force-create'']"
  proof (cases "a = ''-C''")
    case True
    then show ?thesis
      by (auto simp: arg_values_def is_long_def is_short_def has_prefix_def grammar_defs
          option_is_def short_option_def NUL_def)
  next
    case False
    with assms have l: "has_prefix a ''--''" "isLongPrefix (long_name a) ''force-create'' 6"
      by (auto simp: is_force_create_def long_name_def eval_nat_numeral)
    then have "arg_consumes switchGrammar a \<longleftrightarrow> \<not> long_joined a"
      by (auto simp: arg_consumes_def is_long_def grammar_defs isLongPrefix_def)
    with l show ?thesis
      by (auto simp: arg_values_def is_long_def long_value_def long_option_is isLongPrefix_def)
  qed
qed

lemma switch_lowered:
  assumes "classifySwitch args = TierDestructive"
    and "switchResetForm args = Some (neutral, r)" "classifySwitch neutral = TierWrite"
  obtains p name where "r = branchRefPrefix @ name"
    and "filter (\<lambda>(q, _). option_is q ''cC'' [''create'', ''force-create'']) (call_values switchGrammar args)
         = [(p, Some name)]"
proof -
  from assms(2) obtain at name where at: "switch_reset_at 0 args None = Some (Some (at, name))"
    and ne: "name \<noteq> []" and c1: "count_option switchGrammar args ''cC'' [''create'', ''force-create''] = 1"
    and r: "r = branchRefPrefix @ name" and "\<exists>b. neutral = args[at := b]"
    by (auto simp: switchResetForm_def split: option.splits prod.splits if_splits)
  then obtain b where "neutral = args[at := b]" by blast
  from switch_reset_at_split [OF at] obtain pre a rest where args: "args = pre @ a # rest"
    and len: "at = length pre" and fc: "is_force_create a" and name: "name = taken_name a rest"
    by auto
  from \<open>neutral = args[at := b]\<close> have neutral: "neutral = pre @ b # rest" by (simp add: args len)
  have "at_option switchGrammar pre"
  proof (rule ccontr)
    assume "\<not> at_option switchGrammar pre"
    from call_options_value [OF this, of a rest b] have
      "has_option switchGrammar args s l = has_option switchGrammar neutral s l" for s l
      by (simp add: args neutral has_option_iff)
    with assms(1,3) show False by (auto simp: classifySwitch_def split: if_splits)
  qed
  from call_values_at [OF this, of "a # rest"] force_create_token(2) [OF fc, of "head_of rest"] force_create_token(1) [OF fc]
  obtain p where cv: "call_values switchGrammar args = call_values switchGrammar pre @
        (p, if has_prefix a ''--'' \<and> long_joined a
            then Some (fst (snd (cut_at CHR ''='' (drop 2 a)))) else head_of rest) #
        call_values switchGrammar (if arg_consumes switchGrammar a then drop 1 rest else rest)"
    and p: "option_is p ''cC'' [''create'', ''force-create'']"
    by (auto simp: args)
  from cv have "(p, if has_prefix a ''--'' \<and> long_joined a
        then Some (fst (snd (cut_at CHR ''='' (drop 2 a)))) else head_of rest) \<in> set (call_values switchGrammar args)"
    by simp
  moreover have "head_of rest = Some name" if "\<not> (has_prefix a ''--'' \<and> long_joined a)"
    using name ne that by (cases rest) (simp_all only: taken_name_def, auto)
  moreover have "name = fst (snd (cut_at CHR ''='' (drop 2 a)))" if "has_prefix a ''--'' \<and> long_joined a"
    using name that by (simp add: taken_name_def)
  ultimately have "(p, Some name) \<in> set (call_values switchGrammar args)"
    by (cases "has_prefix a ''--'' \<and> long_joined a") simp_all
  from that [OF r count_one [OF c1 this p]] show thesis .
qed

lemma checkout_lowered:
  assumes "checkoutResetForm args = Some (neutral, r)"
  obtains name where "r = branchRefPrefix @ name"
    and "filter (\<lambda>(q, _). option_is q ''bB'' []) (call_values checkoutGrammar args)
         = [(short_option CHR ''B'', Some name)]"
proof -
  from assms obtain name rest where args: "args = ''-B'' # name # rest"
    and c1: "count_option checkoutGrammar args ''bB'' [] = 1" and r: "r = branchRefPrefix @ name"
    by (cases args; cases "tl args") (auto simp: checkoutResetForm_def split: if_splits)
  have "(short_option CHR ''B'', Some name) \<in> set (call_values checkoutGrammar args)"
    by (simp add: args isEndOfOptions_def arg_values_def is_long_def is_short_def has_prefix_def
        grammar_defs)
  from that [OF r count_one [OF c1 this]] show thesis
    by (simp add: option_is_def short_option_def NUL_def)
qed

lemma force_flag_at_found: "force_flag_at i xs (Some k) = Some f \<Longrightarrow> f = Some k"
  by (induction i xs "Some k" rule: force_flag_at.induct) (auto split: if_splits)

lemma force_flag_at_split:
  assumes "force_flag_at i xs None = Some (Some at)"
  shows "\<exists>pre a rest. xs = pre @ a # rest \<and> at = i + length pre \<and> is_tag_force a"
  using assms
proof (induction xs arbitrary: i)
  case (Cons a as)
  show ?case
  proof (cases "is_tag_force a")
    case True
    with Cons.prems have "at = i" by (auto dest: force_flag_at_found)
    with True show ?thesis by (intro exI [of _ "[]"] exI [of _ a] exI [of _ as]) auto
  next
    case False
    with Cons.prems have "force_flag_at (Suc i) as None = Some (Some at)" by simp
    from Cons.IH [OF this] obtain pre b rest where
      "as = pre @ b # rest" "at = Suc i + length pre" "is_tag_force b" by blast
    then show ?thesis by (intro exI [of _ "a # pre"] exI [of _ b] exI [of _ rest]) auto
  qed
qed simp

text \<open>
  \<open>--for\<close> is left out: the grammar also reads it as the value option \<open>--format\<close>, as git
  does not, which refuses the call because the abbreviation is ambiguous.
\<close>

lemma tag_force_token:
  assumes "a \<in> {''-f'', ''--forc'', ''--force''}"
  shows "\<not> isEndOfOptions a" "\<not> arg_consumes tagGrammar a" "is_long a \<or> is_short a"
proof -
  have "\<not> arg_consumes tagGrammar ''-f''" "\<not> arg_consumes tagGrammar ''--forc''"
    "\<not> arg_consumes tagGrammar ''--force''"
    by code_simp+
  with assms show "\<not> arg_consumes tagGrammar a" by auto
  from assms show "\<not> isEndOfOptions a" "is_long a \<or> is_short a"
    by (auto simp: isEndOfOptions_def is_long_def is_short_def has_prefix_def)
qed

lemma scan_arg_consumes:
  "fst (snd (scan_arg g a (\<lambda>p s. ((), True)) ())) = arg_consumes g a"
proof -
  have "run_options (\<lambda>p s. ((), True)) ps s = (s, True)" for ps :: "git_option list" and s :: unit
    by (induction ps) auto
  then show ?thesis by (simp add: scan_arg_options)
qed

lemma arg_consumes_option: "arg_consumes g a \<Longrightarrow> is_long a \<or> is_short a"
  by (auto simp: arg_consumes_def split: if_splits)

lemma positionals_Cons:
  "positionals g (a # as) =
     (if isEndOfOptions a then as
      else if is_long a \<or> is_short a then positionals g (if arg_consumes g a then drop 1 as else as)
      else a # positionals g as)"
  by (simp add: scan_arg_consumes Let_def) (auto simp: is_long_def is_short_def arg_consumes_def)

lemma positionals_drop_flag:
  assumes "at_option g pre" "\<forall>x \<in> set pre. \<not> isEndOfOptions x"
    and "\<not> isEndOfOptions a" "\<not> arg_consumes g a" "is_long a \<or> is_short a"
  shows "positionals g (pre @ a # rest) = positionals g (pre @ rest)"
  using assms
proof (induction g pre rule: at_option.induct)
  case (2 g c as)
  have ne: "\<not> isEndOfOptions c" using "2.prems"(2) by simp
  show ?case
  proof (cases "arg_consumes g c")
    case True
    with ne "2.prems"(1) obtain d ds where as: "as = d # ds" and at: "at_option g ds"
      by (cases as) auto
    with True ne have "positionals g (drop 1 as @ a # rest) = positionals g (drop 1 as @ rest)"
      using "2.IH"(1) "2.prems" by auto
    with True ne as arg_consumes_option [OF True] show ?thesis
      by (simp add: positionals_Cons [of g c] del: positionals.simps)
  next
    case False
    with ne have "positionals g (as @ a # rest) = positionals g (as @ rest)"
      using "2.IH"(2) "2.prems" by auto
    with False ne show ?thesis by (simp add: positionals_Cons del: positionals.simps)
  qed
qed (simp add: positionals_Cons del: positionals.simps)

text \<open>A positional is counted by \<open>hasNonFlagArg\<close>, unless it is empty or a lone dash.\<close>

lemma positional_non_flag:
  assumes "x \<in> set (positionals g args)" "x \<noteq> []" "x \<noteq> ''-''"
  shows "hasNonFlagArg args"
  using assms(1)
proof (induction args rule: length_induct)
  case (1 args)
  show ?case
  proof (cases args)
    case (Cons a as)
    show ?thesis
    proof (cases "isEndOfOptions a \<or> (a \<noteq> [] \<and> \<not> has_prefix a ''-'')")
      case True
      with 1 Cons show ?thesis by (cases as) (auto simp: positionals_Cons simp del: positionals.simps)
    next
      case False
      have "x \<noteq> a" if "\<not> (is_long a \<or> is_short a)"
      proof
        assume "x = a"
        with False assms(2) have "has_prefix a ''-''" by simp
        then obtain t where "a = CHR ''-'' # t" by (auto simp: has_prefix_iff)
        with that \<open>x = a\<close> assms(3) show False by (cases t) (auto simp: is_short_def)
      qed
      moreover have skip: "hasNonFlagArg (drop 1 as) \<Longrightarrow> hasNonFlagArg as"
        by (cases as) (auto split: if_splits)
      ultimately have "hasNonFlagArg as"
        using 1 False Cons
        by (auto simp: positionals_Cons simp del: positionals.simps split: if_splits)
      with False Cons show ?thesis by simp
    qed
  qed (use 1 in simp)
qed

lemma tag_lowered:
  assumes "tagResetForm args = Some (neutral, r)" "forceFlagAt args = Some at"
    and "at_option tagGrammar (take at args)" "\<forall>x \<in> set (take at args). \<not> isEndOfOptions x"
    and "args ! at \<in> {''-f'', ''--forc'', ''--force''}"
  obtains name rest where "r = tagRefPrefix @ name" "positionals tagGrammar args = name # rest"
    and "count_option tagGrammar args ''f'' [''force''] = 1"
proof -
  from assms(2) have c1: "count_option tagGrammar args ''f'' [''force''] = 1"
    and "force_flag_at 0 args None = Some (Some at)"
    by (auto simp: forceFlagAt_def split: option.splits if_splits)
  from force_flag_at_split [OF this(2)] have at: "at < length args" by auto
  from assms(1,2) obtain name rest where r: "r = tagRefPrefix @ name"
    and "positionals tagGrammar (take at args @ drop (Suc at) args) = name # rest"
    by (auto simp: tagResetForm_def Let_def split: list.splits)
  moreover have "positionals tagGrammar (take at args @ args ! at # drop (Suc at) args) =
      positionals tagGrammar (take at args @ drop (Suc at) args)"
    by (rule positionals_drop_flag [OF assms(3,4) tag_force_token [OF assms(5)]])
  ultimately have "positionals tagGrammar args = name # rest"
    using at by (simp add: id_take_nth_drop [symmetric])
  from that [OF r this c1] show thesis .
qed

lemma refResetForm_cases:
  assumes "refResetForm sub args = Some (neutral, r)"
  obtains "sub = ''switch''" "switchResetForm args = Some (neutral, r)" "plainRefName r"
  | "sub = ''checkout''" "checkoutResetForm args = Some (neutral, r)" "plainRefName r"
  | "sub = ''tag''" "tagResetForm args = Some (neutral, r)" "plainRefName r"
  using assms by (auto simp: refResetForm_def split: option.splits if_splits)

lemma refineTier_lowered:
  assumes "refineTier sub args tier probe \<noteq> tier"
  obtains pr neutral r where "tier = TierDestructive" "probe = Some pr"
    and "refineTier sub args tier probe = TierWrite"
    and "refResetForm sub args = Some (neutral, r)" "plainRefName r"
    and "classifyGit sub neutral = TierWrite" "probe_plainName pr r" "probe_exists pr r = Some False"
  using assms
  by (auto simp: refineTier_def refineRefReset_def elim: refResetForm_cases
      split: option.splits if_splits)

section \<open>Refusals\<close>

lemma checkMergeArgs_None:
  "checkMergeArgs args = None \<longleftrightarrow>
     \<not> has_option mergeGrammar args ''eF'' [''no-verify'', ''edit'', ''file'', ''continue'']"
proof -
  have "fst (run_options merge_check ps None) = None \<longleftrightarrow>
      (\<forall>p \<in> set ps. \<not> option_is p ''eF'' [''no-verify'', ''edit'', ''file'', ''continue''])" for ps
  proof (induction ps)
    case (Cons p ps)
    have one: "option_is p ''eF'' [''no-verify'', ''edit'', ''file'', ''continue''] \<longleftrightarrow>
        option_is p [] [''no-verify''] \<or> option_is p ''e'' [''edit''] \<or> option_is p ''F'' [''file''] \<or>
        option_is p [] [''continue'']"
      by (auto simp: option_is_def)
    with Cons show ?case by (auto simp: Let_def split: prod.splits)
  qed simp
  then show ?thesis by (simp add: checkMergeArgs_def scan_call_options has_option_iff)
qed

lemma refusedIn_iff:
  "refusedIn g args r \<longleftrightarrow> (\<exists>p \<in> set (call_options g args False). refuses r p)"
proof -
  have "fst (run_options (\<lambda>p found. (refuses r p, \<not> refuses r p)) ps False) \<longleftrightarrow> (\<exists>p \<in> set ps. refuses r p)"
    for ps by (induction ps) auto
  then show ?thesis by (simp add: refusedIn_def scan_call_options)
qed

lemma checkReadArgs_None:
  "checkReadArgs sub args = None \<longleftrightarrow>
     (\<forall>r \<in> set (readRefusals sub). \<forall>p \<in> set (call_options (readArgGrammars sub) args False). \<not> refuses r p)"
proof (cases "find (refusedIn (readArgGrammars sub) args) (readRefusals sub)")
  case None
  then have "\<forall>r \<in> set (readRefusals sub). \<not> refusedIn (readArgGrammars sub) args r"
    by (simp add: find_None_iff)
  with None show ?thesis by (simp add: checkReadArgs_def refusedIn_iff)
next
  case (Some r)
  then have "r \<in> set (readRefusals sub)" "refusedIn (readArgGrammars sub) args r"
    by (auto simp: find_Some_iff)
  with Some show ?thesis by (auto simp: checkReadArgs_def refusedIn_iff)
qed

lemma checkGitGlobalFlags_None:
  "checkGitGlobalFlags args = None \<longleftrightarrow> (\<forall>a \<in> set args. flag_name a \<notin> set dangerousGitGlobalFlags)"
  by (induction args) auto

lemma classifyGitCall_Inr:
  assumes "classifyGitCall sub args = Inr tier"
  shows "tier = classifyGit sub args" "tier \<noteq> TierReject" "checkGitGlobalFlags args = None"
    and "rejectDuplicatedLeadingSubcommand sub args = None"
    and "sub = ''merge'' \<Longrightarrow> checkMergeArgs args = None"
    and "tier = TierRead \<Longrightarrow> checkReadArgs sub args = None"
  using assms by (auto simp: classifyGitCall_def Let_def split: option.splits if_splits)

section \<open>The gate\<close>

lemma gateGit_None:
  "gateGit tier p confirm = None \<longleftrightarrow>
     (case tier of
        TierRead \<Rightarrow> True
      | TierWrite \<Rightarrow> AllowWrites p
      | TierDestructive \<Rightarrow> AllowDestructive p \<and> confirm
      | TierNetwork \<Rightarrow> AllowPush p \<and> confirm
      | TierReject \<Rightarrow> False)"
  by (cases tier) auto

lemma admit_Inr:
  assumes "admit policy probe a = Inr (a', tier)"
  obtains tier0 where
    "a' = a\<lparr>g_args := fst (normaliseSwitchCreate (g_subcommand a) (g_args a))\<rparr>"
    "validate a = None"
    "classifyGitCall (g_subcommand a) (g_args a') = Inr tier0"
    "tier = refineTier (g_subcommand a) (g_args a') tier0 probe"
    "gateGit tier (resolvePolicy policy) (g_confirm a) = None"
    "checkPushProtection (g_subcommand a) (g_args a') (resolvePolicy policy) tier = None"
    "wanted a \<Longrightarrow> tier = TierRead"
  using assms
  by (auto simp: admit_def Let_def wanted_def split: option.splits sum.splits if_splits)

lemma checkPushProtection_push:
  assumes "checkPushProtection ''push'' args p TierNetwork = None"
    and "hasForceFlag args \<or> hasForceRefspec args" "arg \<in> set args"
  shows "\<not> isProtectedBranch arg (ProtectedBranches p)"
  using assms by (auto simp: checkPushProtection_def find_None_iff split: if_splits option.splits)

section \<open>Properties\<close>

text \<open>The callback scanner of git_options.go (scan, with scanLong and scanShorts) visits
  exactly the options of the call in git's order and stops where the callback says.\<close>

theorem scan_is_run_options:
  "scan g args u fn s = fst (run_options fn (call_options g args u) s)"
  by (rule scan_call_options)

text \<open>A call that is let through at the read tier carries none of the options refused on
  its verb, however git lets them be spelled: as an abbreviation, in a bundle or with a value.\<close>

theorem read_tier_refuses:
  assumes "classifyGitCall sub args = Inr TierRead" "r \<in> set (readRefusals sub)"
    and "p \<in> set (call_options (readArgGrammars sub) args False)"
  shows "\<not> refuses r p"
  using classifyGitCall_Inr(6) [OF assms(1)] assms(2,3) by (simp add: checkReadArgs_None)

theorem read_tier_refuses_witness:
  "\<not> refuses orderFile (short_option CHR ''p'')"
proof (rule read_tier_refuses [of "''diff''" "[''-p'', ''HEAD'']"])
  show "classifyGitCall ''diff'' [''-p'', ''HEAD''] = Inr TierRead" by code_simp
  show "orderFile \<in> set (readRefusals ''diff'')" by (simp add: readRefusals_def Let_def)
  show "short_option CHR ''p'' \<in>
      set (call_options (readArgGrammars ''diff'') [''-p'', ''HEAD''] False)"
    by code_simp
qed

text \<open>merge's refused options cannot be hidden: any abbreviation of --no-verify, --edit, --file
  or --continue, with or without a joined value, at any place where git reads an option,
  makes the call a refusal.\<close>

theorem merge_refuses_abbreviation:
  assumes "at_option mergeGrammar pre" "p \<noteq> []" "has_prefix l p"
    and "l \<in> {''no-verify'', ''edit'', ''file'', ''continue''}" "CHR ''='' \<notin> set p"
    and "tok = ''--'' @ p \<or> tok = ''--'' @ p @ CHR ''='' # v"
  shows "\<exists>e. classifyGitCall ''merge'' (pre @ tok # rest) = Inl e"
proof -
  have "tok \<noteq> ''--end-of-options''"
  proof
    assume "tok = ''--end-of-options''"
    then have "CHR ''='' \<notin> set tok" by simp
    with assms(6) have "tok = ''--'' @ p" by auto
    with \<open>tok = ''--end-of-options''\<close> have "p = ''end-of-options''" by simp
    with assms(3,4) show False by (auto simp: has_prefix_def)
  qed
  with assms(1-6) have "has_option mergeGrammar (pre @ tok # rest) ''eF''
      [''no-verify'', ''edit'', ''file'', ''continue'']"
    by (intro has_option_abbreviation [of mergeGrammar pre p l]) auto
  then have "checkMergeArgs (pre @ tok # rest) \<noteq> None" by (simp add: checkMergeArgs_None)
  then show ?thesis
    by (cases "classifyGitCall ''merge'' (pre @ tok # rest)") (auto dest: classifyGitCall_Inr(5))
qed

theorem merge_refuses_abbreviation_witness:
  "\<exists>e. classifyGitCall ''merge'' ([''--message'', ''-m''] @ ''--no-ver'' # [''topic'']) = Inl e"
  by (rule merge_refuses_abbreviation [of _ "''no-ver''" "''no-verify''" _ "[]"])
    (code_simp | simp)+

text \<open>A forced or deleting flag of git branch makes the call destructive wherever it stands in
  a bundle of flags.\<close>

theorem branch_bundle_destructive:
  assumes "at_option branchGrammar pre" "c \<in> set ''dDfMC''"
    and "CHR ''u'' \<notin> set bs" "hd (bs @ [c]) \<noteq> CHR ''-''"
  shows "classifyGit ''branch'' (pre @ (CHR ''-'' # bs @ c # cs) # rest) = TierDestructive"
proof -
  have "has_option branchGrammar (pre @ (CHR ''-'' # bs @ c # cs) # rest) ''dDfMC'' [''delete'', ''force'']"
  proof (rule has_option_bundle [OF assms(1,2)])
    show "c \<noteq> NUL" using assms(2) by (auto simp: NUL_def)
    show "\<forall>d \<in> set bs. d \<notin> set (valueShort branchGrammar) \<and> d \<notin> set (optionalShort branchGrammar)"
      using assms(3) by (auto simp: grammar_defs)
  qed (use assms(4) in simp)
  then show ?thesis by (simp add: classifyGit_def classifyBranch_def)
qed

theorem branch_bundle_destructive_witness:
  "classifyGit ''branch'' ([''--sort'', ''-x''] @ (CHR ''-'' # ''q'' @ CHR ''C'' # []) # [''main'', ''side''])
     = TierDestructive"
  by (rule branch_bundle_destructive) (code_simp | simp)+

text \<open>A git branch call that runs at the read tier without a list option has no positional
  argument that git could take for a branch name to create.\<close>

theorem branch_read_creates_nothing:
  assumes "classifyGit ''branch'' args = TierRead"
    and "\<not> final_option branchGrammar args True branchListMode"
    and "x \<in> set (positionals branchGrammar args)"
  shows "x = [] \<or> x = ''-''"
  using assms positional_non_flag [of x branchGrammar args]
  by (auto simp: classifyGit_def classifyBranch_def split: if_splits)

theorem branch_read_creates_nothing_witness:
  "([]::string) = [] \<or> ([]::string) = ''-''"
  by (rule branch_read_creates_nothing [of "[''-v'', [], ''--sort'']"]) code_simp+

text \<open>C34. A destructive call is lowered to a write only when git says that the ref it names does
  not exist, the name is a plain one and the call without its reset flag is an ordinary
  write. For switch and checkout that ref is the one git resets: among the options git reads,
  the create and reset options occur once, with exactly that name as the value.\<close>

theorem lowered_creates_ref:
  assumes "classifyGitCall sub args = Inr TierDestructive"
    and "refineTier sub args TierDestructive (Some pr) = TierWrite"
  shows "\<exists>neutral r. refResetForm sub args = Some (neutral, r) \<and> plainRefName r \<and>
           classifyGit sub neutral = TierWrite \<and> probe_plainName pr r \<and> probe_exists pr r = Some False \<and>
           (sub = ''switch'' \<longrightarrow> (\<exists>p name. r = branchRefPrefix @ name \<and>
              filter (\<lambda>(q, _). option_is q ''cC'' [''create'', ''force-create'']) (call_values switchGrammar args)
              = [(p, Some name)])) \<and>
           (sub = ''checkout'' \<longrightarrow> (\<exists>name. r = branchRefPrefix @ name \<and>
              filter (\<lambda>(q, _). option_is q ''bB'' []) (call_values checkoutGrammar args)
              = [(short_option CHR ''B'', Some name)]))"
proof -
  from assms(2) have "refineTier sub args TierDestructive (Some pr) \<noteq> TierDestructive" by simp
  from refineTier_lowered [OF this] obtain neutral r where
    *: "refResetForm sub args = Some (neutral, r)" "plainRefName r" "classifyGit sub neutral = TierWrite"
      "probe_plainName pr r" "probe_exists pr r = Some False"
    by (metis option.inject)
  have "\<exists>p name. r = branchRefPrefix @ name \<and>
      filter (\<lambda>(q, _). option_is q ''cC'' [''create'', ''force-create'']) (call_values switchGrammar args)
      = [(p, Some name)]" if "sub = ''switch''"
  proof -
    have d: "classifySwitch args = TierDestructive" "classifySwitch neutral = TierWrite"
      using classifyGitCall_Inr(1) [OF assms(1)] *(3) that by (auto simp: classifyGit_def)
    from *(1) that have "switchResetForm args = Some (neutral, r)"
      by (auto elim: refResetForm_cases)
    from switch_lowered [OF d(1) this d(2)] show ?thesis by metis
  qed
  moreover have "\<exists>name. r = branchRefPrefix @ name \<and>
      filter (\<lambda>(q, _). option_is q ''bB'' []) (call_values checkoutGrammar args)
      = [(short_option CHR ''B'', Some name)]" if "sub = ''checkout''"
  proof -
    from *(1) that have "checkoutResetForm args = Some (neutral, r)"
      by (auto elim: refResetForm_cases)
    from checkout_lowered [OF this] show ?thesis by metis
  qed
  ultimately show ?thesis using * by blast
qed

definition new_refs_probe :: ref_probe where
  "new_refs_probe = \<lparr>probe_plainName = \<lambda>_. True, probe_exists = \<lambda>r. Some (r = ''refs/tags/y'')\<rparr>"

theorem lowered_creates_ref_witness:
  "\<exists>neutral r. refResetForm ''checkout'' [''-B'', ''fresh''] = Some (neutral, r) \<and> plainRefName r"
  using lowered_creates_ref [of "''checkout''" "[''-B'', ''fresh'']" new_refs_probe]
proof -
  have "classifyGitCall ''checkout'' [''-B'', ''fresh''] = Inr TierDestructive" by code_simp
  moreover have "refineTier ''checkout'' [''-B'', ''fresh''] TierDestructive (Some new_refs_probe) = TierWrite"
    by code_simp
  ultimately show ?thesis using lowered_creates_ref by blast
qed

text \<open>The same does not hold for git tag: in this call the message of -m is the token -f, the
  real force flag is in the bundle -fm, and removing the wrong token shifts the values. The
  probe is asked about x, which does not exist, while git replaces the tag y, which does; the
  call runs at the write tier.\<close>

theorem tag_lowered_for_other_ref:
  "classifyGitCall ''tag'' [''-m'', ''-f'', ''-fm'', ''x'', ''y''] = Inr TierDestructive \<and>
   refineTier ''tag'' [''-m'', ''-f'', ''-fm'', ''x'', ''y''] TierDestructive (Some new_refs_probe) = TierWrite \<and>
   has_option tagGrammar [''-m'', ''-f'', ''-fm'', ''x'', ''y''] ''f'' [''force''] \<and>
   positionals tagGrammar [''-m'', ''-f'', ''-fm'', ''x'', ''y''] = [''y''] \<and>
   probe_exists new_refs_probe (tagRefPrefix @ ''y'') = Some True"
  by (intro conjI; code_simp)

text \<open>C39. Every call that Execute admits was permitted: its tier is the classified one or a write it
  was lowered to, the policy of the connection opens that tier, the destructive and network
  tiers were confirmed, and no argument names a global git flag.\<close>

theorem admit_permitted:
  assumes "admit policy probe a = Inr (a', tier)"
  shows "(tier = classifyGit (g_subcommand a) (g_args a') \<or>
          classifyGit (g_subcommand a) (g_args a') = TierDestructive \<and> tier = TierWrite) \<and>
         (case tier of
            TierReject \<Rightarrow> False
          | TierRead \<Rightarrow> True
          | TierWrite \<Rightarrow> AllowWrites (resolvePolicy policy)
          | TierDestructive \<Rightarrow> AllowDestructive (resolvePolicy policy) \<and> g_confirm a
          | TierNetwork \<Rightarrow> AllowPush (resolvePolicy policy) \<and> g_confirm a) \<and>
         (\<forall>x \<in> set (g_args a'). flag_name x \<notin> set dangerousGitGlobalFlags)"
proof -
  from admit_Inr [OF assms] obtain tier0 where
    c: "classifyGitCall (g_subcommand a) (g_args a') = Inr tier0"
    and t: "tier = refineTier (g_subcommand a) (g_args a') tier0 probe"
    and g: "gateGit tier (resolvePolicy policy) (g_confirm a) = None"
    by metis
  have "\<forall>x \<in> set (g_args a'). flag_name x \<notin> set dangerousGitGlobalFlags"
    using classifyGitCall_Inr(3) [OF c] by (simp add: checkGitGlobalFlags_None)
  moreover have "tier = classifyGit (g_subcommand a) (g_args a') \<or>
      classifyGit (g_subcommand a) (g_args a') = TierDestructive \<and> tier = TierWrite"
    using classifyGitCall_Inr(1) [OF c] t refineTier_lowered by metis
  ultimately show ?thesis using g unfolding gateGit_None by blast
qed

definition call :: "string \<Rightarrow> string list \<Rightarrow> git_args" where
  "call sub args =
     \<lparr>g_subcommand = sub, g_args = args, g_files = [], g_message = [], g_confirm = True, g_amend = False,
      g_clean_clone = False, g_start_line = None, g_end_line = None, g_pattern = [], g_use_regex = False,
      g_case_sensitive = None\<rparr>"

definition open_policy :: git_policy where
  "open_policy =
     \<lparr>AllowWrites = True, AllowDestructive = True, AllowPush = True, ProtectedBranches = [''main'']\<rparr>"

theorem admit_permitted_witness:
  "admit None (Some new_refs_probe) (call ''switch'' [''-C'', ''fresh'']) =
     Inr (call ''switch'' [''--force-create'', ''fresh''], TierWrite) \<and>
   AllowWrites (resolvePolicy None)"
proof
  show a: "admit None (Some new_refs_probe) (call ''switch'' [''-C'', ''fresh'']) =
      Inr (call ''switch'' [''--force-create'', ''fresh''], TierWrite)"
    by code_simp
  from admit_permitted [OF a] show "AllowWrites (resolvePolicy None)" by simp
qed

text \<open>An admitted force push, by a -f or --force token or by a + refspec, has no argument with
  a part that spells a protected branch, names its destination when a branch is protected,
  and addresses no ad-hoc URL.\<close>

theorem force_push_protected:
  assumes "admit policy probe a = Inr (a', TierNetwork)" "g_subcommand a = ''push''"
    and "hasForceFlag (g_args a') \<or> hasForceRefspec (g_args a')"
  shows "(\<forall>x \<in> set (g_args a'). \<not> looksLikeGitURL x \<and>
            \<not> isProtectedBranch x (ProtectedBranches (resolvePolicy policy))) \<and>
         (ProtectedBranches (resolvePolicy policy) = [] \<or> \<not> forcePushTargetsCurrentBranch (g_args a'))"
proof -
  from admit_Inr [OF assms(1)] assms(2)
  have "checkPushProtection ''push'' (g_args a') (resolvePolicy policy) TierNetwork = None" by metis
  with assms(3) show ?thesis
    by (auto simp: checkPushProtection_def find_None_iff list_ex_iff split: if_splits option.splits)
qed

theorem force_push_protected_witness:
  "\<not> forcePushTargetsCurrentBranch [''-f'', ''-o'', ''ci.skip'', ''origin'', ''topic'']"
proof -
  have "admit (Some open_policy) None (call ''push'' [''-f'', ''-o'', ''ci.skip'', ''origin'', ''topic'']) =
      Inr (call ''push'' [''-f'', ''-o'', ''ci.skip'', ''origin'', ''topic''], TierNetwork)"
    by code_simp
  from force_push_protected [OF this] show ?thesis
    by (simp add: call_def open_policy_def resolvePolicy_def hasForceFlag_def)
qed

text \<open>The token check of a force push is weaker than git's reading: a bundled -uf, a refspec
  that names the branch as heads/main, a wildcard refspec and the matching refspec all pass
  with the branch main protected.\<close>

lemma force_push_gaps:
  "list_all (\<lambda>args. admit (Some open_policy) None (call ''push'' args) = Inr (call ''push'' args, TierNetwork))
     [[''-uf'', ''origin'', ''main''], [''origin'', ''+HEAD:heads/main''],
      [''origin'', ''+refs/heads/*:refs/heads/*''], [''origin'', ''+:'']]"
  unfolding list.pred_inject by (intro conjI TrueI; code_simp)

end
