(* ===== verification/Plumb_Hub.thy ===== *)
theory Plumb_Hub
  imports Plumb_Filepath
begin

text \<open>
  The hub that shares one watcher of the operating system among the consumers of a directory
  (\<open>internal/fswatch/hub.go\<close>), as a machine that takes one critical section or channel operation
  at a time: callers of \<open>Subscribe\<close>, of \<open>Close\<close>, and one fan-out for each watcher. What a
  regular expression matches and what the operating system reports are parameters of the actions.
\<close>

type_synonym hub_key = "string \<times> string"

datatype open_state = Unready | Ready | Open_error

text \<open>An OS watcher with its subscriptions; \<open>sw_closed\<close> once \<open>Close\<close> was called on the watcher.\<close>

record shared_watch =
  sw_key :: hub_key
  sw_open :: open_state
  sw_subs :: "nat list"
  sw_failed :: bool
  sw_closed :: bool

text \<open>
  A subscription is live, has left and is the one to close the watcher, or is over. Beside its
  channels are kept the events offered to it and those its consumer received, since the consumer
  was last told to reconcile.
\<close>

datatype sub_state = Live | Closing_watcher | Over

record subscription =
  sb_sw :: nat
  sb_exclude :: "string \<Rightarrow> bool"
  sb_state :: sub_state
  sb_events :: "string list"
  sb_lost :: bool
  sb_failed :: bool
  sb_offered :: "string list"
  sb_got :: "string list"

text \<open>
  Where a caller of \<open>Subscribe\<close> is: at the top of the loop, opening the watcher it put in the map,
  reporting that this failed, waiting for a watcher to be ready, joining it, closing it as an
  orphan, or back.
\<close>

datatype subscriber_pc =
    Away
  | Looking hub_key "string \<Rightarrow> bool"
  | Opening hub_key "string \<Rightarrow> bool" nat
  | Reporting hub_key "string \<Rightarrow> bool" nat
  | Waiting hub_key "string \<Rightarrow> bool" nat
  | Joining hub_key "string \<Rightarrow> bool" nat
  | Orphaning hub_key "string \<Rightarrow> bool" nat
  | Refused
  | Subscribed nat

record hub =
  watches :: "hub_key \<Rightarrow> nat option"
  shareds :: "nat \<Rightarrow> shared_watch"
  next_shared :: nat
  subs :: "nat \<Rightarrow> subscription"
  next_sub :: nat
  callers :: "nat \<Rightarrow> subscriber_pc"

definition eventBuffer :: nat where
  "eventBuffer = 4096"

definition new_shared :: "hub_key \<Rightarrow> shared_watch" where
  "new_shared k = \<lparr>sw_key = k, sw_open = Unready, sw_subs = [], sw_failed = False, sw_closed = False\<rparr>"

definition new_sub :: "nat \<Rightarrow> (string \<Rightarrow> bool) \<Rightarrow> bool \<Rightarrow> subscription" where
  "new_sub n ex failed =
     \<lparr>sb_sw = n, sb_exclude = ex, sb_state = Live, sb_events = [], sb_lost = False, sb_failed = failed,
      sb_offered = [], sb_got = []\<rparr>"

definition NewHub :: hub where
  "NewHub =
     \<lparr>watches = Map.empty, shareds = (\<lambda>_. new_shared ([], [])), next_shared = 0,
      subs = (\<lambda>_. (new_sub 0 (\<lambda>_. False) False)\<lparr>sb_state := Over\<rparr>), next_sub = 0, callers = (\<lambda>_. Away)\<rparr>"

definition hasFailed :: "shared_watch \<Rightarrow> bool" where
  "hasFailed sw = (sw_open sw \<noteq> Unready \<and> sw_failed sw)"

definition go_to :: "nat \<Rightarrow> subscriber_pc \<Rightarrow> hub \<Rightarrow> hub" where
  "go_to t c h = h\<lparr>callers := (callers h)(t := c)\<rparr>"

definition on_shared :: "nat \<Rightarrow> (shared_watch \<Rightarrow> shared_watch) \<Rightarrow> hub \<Rightarrow> hub" where
  "on_shared n f h = h\<lparr>shareds := (shareds h)(n := f (shareds h n))\<rparr>"

definition on_sub :: "nat \<Rightarrow> (subscription \<Rightarrow> subscription) \<Rightarrow> hub \<Rightarrow> hub" where
  "on_sub i f h = h\<lparr>subs := (subs h)(i := f (subs h i))\<rparr>"

text \<open>The first part of the loop of \<open>Subscribe\<close>, under the mutex of the hub.\<close>

definition lookup_watch :: "nat \<Rightarrow> hub_key \<Rightarrow> (string \<Rightarrow> bool) \<Rightarrow> hub \<Rightarrow> hub" where
  "lookup_watch t k ex h =
     (case watches h k of
        Some n \<Rightarrow> if hasFailed (shareds h n) then
            go_to t (Opening k ex (next_shared h))
              (h\<lparr>watches := (watches h)(k \<mapsto> next_shared h), shareds := (shareds h)(next_shared h := new_shared k),
                 next_shared := Suc (next_shared h)\<rparr>)
          else go_to t (Waiting k ex n) h
      | None \<Rightarrow>
          go_to t (Opening k ex (next_shared h))
            (h\<lparr>watches := (watches h)(k \<mapsto> next_shared h), shareds := (shareds h)(next_shared h := new_shared k),
               next_shared := Suc (next_shared h)\<rparr>))"

definition join_watch :: "nat \<Rightarrow> hub_key \<Rightarrow> (string \<Rightarrow> bool) \<Rightarrow> nat \<Rightarrow> hub \<Rightarrow> hub" where
  "join_watch t k ex n h =
     (if watches h k \<noteq> Some n then
        (if sw_subs (shareds h n) = [] then go_to t (Orphaning k ex n) h else go_to t (Looking k ex) h)
      else
        go_to t (Subscribed (next_sub h))
          (on_shared n (\<lambda>sw. sw\<lparr>sw_subs := next_sub h # sw_subs sw\<rparr>)
            (h\<lparr>subs := (subs h)(next_sub h := new_sub n ex (sw_failed (shareds h n))), next_sub := Suc (next_sub h)\<rparr>)))"

text \<open>\<open>Close\<close> of a live subscription, under both mutexes.\<close>

definition leave_watch :: "nat \<Rightarrow> hub \<Rightarrow> hub" where
  "leave_watch i h =
     (let n = sb_sw (subs h i);
          rest = removeAll i (sw_subs (shareds h n));
          h' = on_shared n (\<lambda>sw. sw\<lparr>sw_subs := rest\<rparr>) h;
          k = sw_key (shareds h n)
      in
      if rest \<noteq> [] then on_sub i (\<lambda>s. s\<lparr>sb_state := Over\<rparr>) h'
      else
        on_sub i (\<lambda>s. s\<lparr>sb_state := Closing_watcher\<rparr>)
          (if watches h k = Some n then h'\<lparr>watches := (watches h)(k := None)\<rparr> else h'))"

definition signalLost :: "subscription \<Rightarrow> subscription" where
  "signalLost s = s\<lparr>sb_lost := True\<rparr>"

definition deliver :: "string \<Rightarrow> subscription \<Rightarrow> subscription" where
  "deliver path s =
     (if sb_exclude s path \<or> sb_exclude s (path_base path) then s
      else
        let s' = s\<lparr>sb_offered := sb_offered s @ [path]\<rparr> in
        if length (sb_events s) < eventBuffer then s'\<lparr>sb_events := sb_events s @ [path]\<rparr>
        else signalLost s')"

text \<open>\<open>each\<close>: under the mutex of the watcher, every subscription it has.\<close>

definition each_sub :: "nat \<Rightarrow> (subscription \<Rightarrow> subscription) \<Rightarrow> hub \<Rightarrow> hub" where
  "each_sub n f h = h\<lparr>subs := (\<lambda>i. if i \<in> set (sw_subs (shareds h n)) then f (subs h i) else subs h i)\<rparr>"

datatype hub_action =
    Subscribe nat string string "(string \<Rightarrow> bool) option"
  | Lookup nat
  | Open_returns nat
  | Open_fails nat
  | Report_failure nat
  | Wake nat
  | Join nat
  | Close_orphan nat
  | Close nat
  | Close_last nat
  | Os_event nat string
  | Os_lost nat
  | Os_failed nat
  | Fan_failed nat
  | Take_event nat
  | Take_lost nat

definition fans_out :: "hub \<Rightarrow> nat \<Rightarrow> bool" where
  "fans_out h n = (n < next_shared h \<and> sw_open (shareds h n) = Ready \<and> \<not> sw_closed (shareds h n))"

text \<open>One action, where it can be taken; \<open>None\<close> for an exclusion is one that does not compile.\<close>

fun hub_step :: "hub_action \<Rightarrow> hub \<Rightarrow> hub option" where
  "hub_step (Subscribe t root opts re) h =
     (case callers h t of
        Away \<Rightarrow>
          (case re of
             None \<Rightarrow> Some (go_to t Refused h)
           | Some ex \<Rightarrow> Some (go_to t (Looking (Clean root, opts) ex) h))
      | _ \<Rightarrow> None)"
| "hub_step (Lookup t) h =
     (case callers h t of Looking k ex \<Rightarrow> Some (lookup_watch t k ex h) | _ \<Rightarrow> None)"
| "hub_step (Open_returns t) h =
     (case callers h t of
        Opening k ex n \<Rightarrow> Some (go_to t (Waiting k ex n) (on_shared n (\<lambda>sw. sw\<lparr>sw_open := Ready\<rparr>) h))
      | _ \<Rightarrow> None)"
| "hub_step (Open_fails t) h =
     (case callers h t of
        Opening k ex n \<Rightarrow> Some (go_to t (Reporting k ex n) (h\<lparr>watches := (watches h)(k := None)\<rparr>))
      | _ \<Rightarrow> None)"
| "hub_step (Report_failure t) h =
     (case callers h t of
        Reporting k ex n \<Rightarrow> Some (go_to t (Waiting k ex n) (on_shared n (\<lambda>sw. sw\<lparr>sw_open := Open_error\<rparr>) h))
      | _ \<Rightarrow> None)"
| "hub_step (Wake t) h =
     (case callers h t of
        Waiting k ex n \<Rightarrow>
          (case sw_open (shareds h n) of
             Unready \<Rightarrow> None
           | Open_error \<Rightarrow> Some (go_to t Refused h)
           | Ready \<Rightarrow> Some (go_to t (Joining k ex n) h))
      | _ \<Rightarrow> None)"
| "hub_step (Join t) h =
     (case callers h t of Joining k ex n \<Rightarrow> Some (join_watch t k ex n h) | _ \<Rightarrow> None)"
| "hub_step (Close_orphan t) h =
     (case callers h t of
        Orphaning k ex n \<Rightarrow> Some (go_to t (Looking k ex) (on_shared n (\<lambda>sw. sw\<lparr>sw_closed := True\<rparr>) h))
      | _ \<Rightarrow> None)"
| "hub_step (Close i) h =
     (if i < next_sub h \<and> sb_state (subs h i) = Live then Some (leave_watch i h) else None)"
| "hub_step (Close_last i) h =
     (if i < next_sub h \<and> sb_state (subs h i) = Closing_watcher
      then Some (on_sub i (\<lambda>s. s\<lparr>sb_state := Over\<rparr>) (on_shared (sb_sw (subs h i)) (\<lambda>sw. sw\<lparr>sw_closed := True\<rparr>) h))
      else None)"
| "hub_step (Os_event n path) h = (if fans_out h n then Some (each_sub n (deliver path) h) else None)"
| "hub_step (Os_lost n) h = (if fans_out h n then Some (each_sub n signalLost h) else None)"
| "hub_step (Os_failed n) h =
     (if fans_out h n then Some (on_shared n (\<lambda>sw. sw\<lparr>sw_failed := True\<rparr>) h) else None)"
| "hub_step (Fan_failed n) h =
     (if fans_out h n \<and> sw_failed (shareds h n) then Some (each_sub n (\<lambda>s. s\<lparr>sb_failed := True\<rparr>) h) else None)"
| "hub_step (Take_event i) h =
     (case sb_events (subs h i) of
        p # ps \<Rightarrow> Some (on_sub i (\<lambda>s. s\<lparr>sb_events := ps, sb_got := sb_got s @ [p]\<rparr>) h)
      | [] \<Rightarrow> None)"
| "hub_step (Take_lost i) h =
     (if sb_lost (subs h i) then Some (on_sub i (\<lambda>s. s\<lparr>sb_lost := False, sb_offered := sb_events s, sb_got := []\<rparr>) h) else None)"

inductive hub_reach :: "hub \<Rightarrow> bool" where
  start: "hub_reach NewHub"
| act: "hub_reach h \<Longrightarrow> hub_step a h = Some h' \<Longrightarrow> hub_reach h'"

fun hub_run :: "hub_action list \<Rightarrow> hub \<Rightarrow> hub option" where
  "hub_run [] h = Some h"
| "hub_run (a # as) h = (case hub_step a h of None \<Rightarrow> None | Some h' \<Rightarrow> hub_run as h')"

end
