(* ===== verification/Plumb_Hub_Correct.thy ===== *)
theory Plumb_Hub_Correct
  imports Plumb_Hub
begin

text \<open>
  The invariants of the hub: what its map, watchers, subscriptions and callers hold together, for
  every interleaving.
\<close>

abbreviation watch_of :: "hub \<Rightarrow> nat \<Rightarrow> shared_watch" where
  "watch_of h n \<equiv> shareds h n"

fun opens :: "subscriber_pc \<Rightarrow> nat option" where
  "opens (Opening k ex n) = Some n"
| "opens (Reporting k ex n) = Some n"
| "opens _ = None"

fun minds :: "subscriber_pc \<Rightarrow> nat option" where
  "minds (Waiting k ex n) = Some n"
| "minds (Joining k ex n) = Some n"
| "minds (Orphaning k ex n) = Some n"
| "minds _ = None"

text \<open>In the map under its key.\<close>

definition mapped :: "hub \<Rightarrow> nat \<Rightarrow> bool" where
  "mapped h n = (watches h (sw_key (watch_of h n)) = Some n)"

fun caller_ok :: "hub \<Rightarrow> subscriber_pc \<Rightarrow> bool" where
  "caller_ok h (Opening k ex n) =
     (n < next_shared h \<and> sw_key (watch_of h n) = k \<and> sw_open (watch_of h n) = Unready \<and> mapped h n)"
| "caller_ok h (Reporting k ex n) =
     (n < next_shared h \<and> sw_key (watch_of h n) = k \<and> sw_open (watch_of h n) = Unready \<and> \<not> mapped h n)"
| "caller_ok h (Waiting k ex n) = (n < next_shared h \<and> sw_key (watch_of h n) = k)"
| "caller_ok h (Joining k ex n) = (n < next_shared h \<and> sw_key (watch_of h n) = k \<and> sw_open (watch_of h n) = Ready)"
| "caller_ok h (Orphaning k ex n) =
     (n < next_shared h \<and> sw_key (watch_of h n) = k \<and> sw_open (watch_of h n) = Ready \<and>
      \<not> mapped h n \<and> sw_subs (watch_of h n) = [])"
| "caller_ok h c = True"

definition shared_ok :: "hub \<Rightarrow> nat \<Rightarrow> bool" where
  "shared_ok h n =
     ((sw_open (watch_of h n) \<noteq> Ready \<longrightarrow> sw_subs (watch_of h n) = [] \<and> \<not> sw_failed (watch_of h n) \<and> \<not> sw_closed (watch_of h n)) \<and>
      (sw_open (watch_of h n) = Open_error \<longrightarrow> \<not> mapped h n) \<and>
      (sw_closed (watch_of h n) \<longrightarrow> sw_subs (watch_of h n) = [] \<and> \<not> mapped h n) \<and>
      (sw_subs (watch_of h n) \<noteq> [] \<longrightarrow> \<not> sw_failed (watch_of h n) \<longrightarrow> mapped h n) \<and>
      distinct (sw_subs (watch_of h n)))"

definition sub_ok :: "hub \<Rightarrow> nat \<Rightarrow> bool" where
  "sub_ok h i =
     (case sb_state (subs h i) of
        Live \<Rightarrow> sb_sw (subs h i) < next_shared h \<and> i \<in> set (sw_subs (watch_of h (sb_sw (subs h i))))
      | Closing_watcher \<Rightarrow>
          sb_sw (subs h i) < next_shared h \<and> sw_subs (watch_of h (sb_sw (subs h i))) = [] \<and>
          \<not> mapped h (sb_sw (subs h i)) \<and> sw_open (watch_of h (sb_sw (subs h i))) = Ready
      | Over \<Rightarrow> True)"

definition hub_ok :: "hub \<Rightarrow> bool" where
  "hub_ok h =
     ((\<forall>k n. watches h k = Some n \<longrightarrow> n < next_shared h \<and> sw_key (watch_of h n) = k) \<and>
      (\<forall>n. shared_ok h n) \<and>
      (\<forall>n \<ge> next_shared h. sw_open (watch_of h n) = Unready) \<and>
      (\<forall>i \<ge> next_sub h. sb_state (subs h i) = Over) \<and>
      (\<forall>i. sub_ok h i) \<and>
      (\<forall>n i. i \<in> set (sw_subs (watch_of h n)) \<longrightarrow> sb_state (subs h i) = Live \<and> sb_sw (subs h i) = n) \<and>
      (\<forall>t. caller_ok h (callers h t)) \<and>
      (\<forall>t u n. opens (callers h t) = Some n \<longrightarrow> opens (callers h u) = Some n \<longrightarrow> t = u))"

definition minded :: "hub \<Rightarrow> nat \<Rightarrow> bool" where
  "minded h n = ((\<exists>t. minds (callers h t) = Some n) \<or> (\<exists>i. sb_state (subs h i) = Closing_watcher \<and> sb_sw (subs h i) = n))"

definition no_leak :: "hub \<Rightarrow> bool" where
  "no_leak h =
     (\<forall>n. sw_open (watch_of h n) = Ready \<longrightarrow> \<not> sw_closed (watch_of h n) \<longrightarrow> sw_subs (watch_of h n) = [] \<longrightarrow> minded h n)"

lemma hub_field_simps [simp]:
  "watches (go_to t c h) = watches h" "shareds (go_to t c h) = shareds h" "next_shared (go_to t c h) = next_shared h"
  "subs (go_to t c h) = subs h" "next_sub (go_to t c h) = next_sub h" "callers (go_to t c h) = (callers h)(t := c)"
  "watches (on_shared n f h) = watches h" "shareds (on_shared n f h) = (shareds h)(n := f (shareds h n))"
  "next_shared (on_shared n f h) = next_shared h" "subs (on_shared n f h) = subs h" "next_sub (on_shared n f h) = next_sub h"
  "callers (on_shared n f h) = callers h"
  "watches (on_sub i g h) = watches h" "shareds (on_sub i g h) = shareds h" "next_shared (on_sub i g h) = next_shared h"
  "subs (on_sub i g h) = (subs h)(i := g (subs h i))" "next_sub (on_sub i g h) = next_sub h" "callers (on_sub i g h) = callers h"
  "watches (each_sub n g h) = watches h" "shareds (each_sub n g h) = shareds h" "next_shared (each_sub n g h) = next_shared h"
  "next_sub (each_sub n g h) = next_sub h" "callers (each_sub n g h) = callers h"
  "subs (each_sub n g h) = (\<lambda>i. if i \<in> set (sw_subs (shareds h n)) then g (subs h i) else subs h i)"
  by (simp_all add: go_to_def on_shared_def on_sub_def each_sub_def)

text \<open>The predicates look at the map, the watchers and the subscriptions only.\<close>

lemma same_mapped: "watches h' = watches h \<Longrightarrow> sw_key (watch_of h' n) = sw_key (watch_of h n) \<Longrightarrow> mapped h' n = mapped h n"
  by (simp add: mapped_def)

lemma caller_ok_go [simp]: "caller_ok (go_to t c h) d = caller_ok h d"
  by (cases d) (simp_all add: mapped_def)

lemma shared_ok_go [simp]: "shared_ok (go_to t c h) n = shared_ok h n"
  by (simp add: shared_ok_def mapped_def)

lemma sub_ok_go [simp]: "sub_ok (go_to t c h) i = sub_ok h i"
  by (simp add: sub_ok_def mapped_def split: sub_state.split)

section \<open>A step at a time\<close>

lemma hub_okD:
  assumes "hub_ok h"
  shows "\<And>k n. watches h k = Some n \<Longrightarrow> n < next_shared h \<and> sw_key (watch_of h n) = k"
    and "\<And>n. shared_ok h n"
    and "\<And>n. next_shared h \<le> n \<Longrightarrow> sw_open (watch_of h n) = Unready"
    and "\<And>i. next_sub h \<le> i \<Longrightarrow> sb_state (subs h i) = Over"
    and "\<And>i. sub_ok h i"
    and "\<And>n i. i \<in> set (sw_subs (watch_of h n)) \<Longrightarrow> sb_state (subs h i) = Live \<and> sb_sw (subs h i) = n"
    and "\<And>t. caller_ok h (callers h t)"
    and "\<And>t u n. opens (callers h t) = Some n \<Longrightarrow> opens (callers h u) = Some n \<Longrightarrow> t = u"
  using assms unfolding hub_ok_def by blast+

lemma hub_okI:
  assumes "\<And>k n. watches h k = Some n \<Longrightarrow> n < next_shared h \<and> sw_key (watch_of h n) = k"
    and "\<And>n. shared_ok h n"
    and "\<And>n. next_shared h \<le> n \<Longrightarrow> sw_open (watch_of h n) = Unready"
    and "\<And>i. next_sub h \<le> i \<Longrightarrow> sb_state (subs h i) = Over"
    and "\<And>i. sub_ok h i"
    and "\<And>n i. i \<in> set (sw_subs (watch_of h n)) \<Longrightarrow> sb_state (subs h i) = Live \<and> sb_sw (subs h i) = n"
    and "\<And>t. caller_ok h (callers h t)"
    and "\<And>t u n. opens (callers h t) = Some n \<Longrightarrow> opens (callers h u) = Some n \<Longrightarrow> t = u"
  shows "hub_ok h"
  unfolding hub_ok_def using assms by blast

text \<open>A caller moves on and nothing else changes.\<close>

lemma hub_ok_go:
  assumes "hub_ok h" "caller_ok h c" "opens c = None \<or> opens c = opens (callers h t)"
  shows "hub_ok (go_to t c h)"
proof (rule hub_okI)
  have o: "opens (callers (go_to t c h) u) = Some n \<Longrightarrow> opens (callers h u) = Some n" for u n
    using assms(3) by (auto split: if_splits)
  show "\<And>w u n. opens (callers (go_to t c h) w) = Some n \<Longrightarrow> opens (callers (go_to t c h) u) = Some n \<Longrightarrow> w = u"
    by (rule hub_okD(8) [OF assms(1) o o])
qed (use hub_okD [OF assms(1)] assms(2) in auto)

text \<open>Only the channels of subscriptions change.\<close>

lemma hub_ok_subs:
  assumes "hub_ok h" "watches h' = watches h" "shareds h' = shareds h" "next_shared h' = next_shared h"
    and "next_sub h' = next_sub h" "callers h' = callers h"
    and "\<And>i. sb_state (subs h' i) = sb_state (subs h i) \<and> sb_sw (subs h' i) = sb_sw (subs h i)"
  shows "hub_ok h'"
proof -
  have m: "mapped h' n = mapped h n" for n by (simp add: mapped_def assms(2,3))
  have "caller_ok h' c = caller_ok h c" for c by (cases c) (simp_all add: m assms(3,4))
  moreover have "shared_ok h' n = shared_ok h n" for n by (simp add: shared_ok_def m assms(3))
  moreover have "sub_ok h' i = sub_ok h i" for i by (simp add: sub_ok_def m assms(3,4,7) split: sub_state.split)
  ultimately show ?thesis using assms by (simp add: hub_ok_def)
qed

text \<open>
  One watcher changes, under the same key, with the map and the other watchers as they were. What
  is said of the others stays.
\<close>

lemma other_shared:
  assumes "watches h' = watches h" "next_shared h' = next_shared h" "shareds h' = (shareds h)(n := sw)" "sw_key sw = sw_key (watch_of h n)"
  shows "mapped h' m = mapped h m" and "m \<noteq> n \<Longrightarrow> shared_ok h' m = shared_ok h m"
    and "m \<noteq> n \<Longrightarrow> opens c = Some m \<or> minds c = Some m \<Longrightarrow> caller_ok h' c = caller_ok h c"
    and "sb_sw (subs h' i) \<noteq> n \<Longrightarrow> subs h' i = subs h i \<Longrightarrow> sub_ok h' i = sub_ok h i"
proof -
  have m: "mapped h' m = mapped h m" for m by (simp add: mapped_def assms)
  then show "mapped h' m = mapped h m" .
  show "m \<noteq> n \<Longrightarrow> shared_ok h' m = shared_ok h m" by (simp add: shared_ok_def m assms(3))
  show "m \<noteq> n \<Longrightarrow> opens c = Some m \<or> minds c = Some m \<Longrightarrow> caller_ok h' c = caller_ok h c"
    by (cases c) (auto simp: m assms(2,3))
  show "sb_sw (subs h' i) \<noteq> n \<Longrightarrow> subs h' i = subs h i \<Longrightarrow> sub_ok h' i = sub_ok h i"
    by (simp add: sub_ok_def m assms(2,3) split: sub_state.split)
qed

lemma caller_ok_none: "opens c = None \<Longrightarrow> minds c = None \<Longrightarrow> caller_ok h c"
  by (cases c) simp_all

lemma hub_ok_shared:
  assumes "hub_ok h" "watches h' = watches h" "next_shared h' = next_shared h" "shareds h' = (shareds h)(n := sw)"
    and "sw_key sw = sw_key (watch_of h n)" "subs h' = subs h" "next_sub h' = next_sub h" "n < next_shared h"
    and "sw_subs sw = sw_subs (watch_of h n)" "shared_ok h' n"
    and "\<And>t. opens (callers h' t) = Some n \<or> minds (callers h' t) = Some n \<Longrightarrow> caller_ok h' (callers h' t)"
    and "\<And>t. callers h' t = callers h t \<or> opens (callers h' t) = None \<and> (minds (callers h' t) = None \<or> minds (callers h' t) = Some n)"
    and "sw_open (watch_of h n) = Ready \<longrightarrow> sw_open sw = Ready"
  shows "hub_ok h'"
proof (rule hub_okI)
  note other = other_shared [OF assms(2,3,4,5)]
  show "\<And>k m. watches h' k = Some m \<Longrightarrow> m < next_shared h' \<and> sw_key (watch_of h' m) = k"
    using hub_okD(1) [OF assms(1)] assms(2-5) by auto
  show "shared_ok h' m" for m using other(2) [of m] hub_okD(2) [OF assms(1), of m] assms(10) by (cases "m = n") auto
  show "next_shared h' \<le> m \<Longrightarrow> sw_open (watch_of h' m) = Unready" for m
    using hub_okD(3) [OF assms(1), of m] assms(3,4,8) by auto
  show "next_sub h' \<le> i \<Longrightarrow> sb_state (subs h' i) = Over" for i using hub_okD(4) [OF assms(1)] assms(6,7) by simp
  show "sub_ok h' i" for i
    using hub_okD(5) [OF assms(1), of i] other(1) assms(3,4,6,9,13)
    by (auto simp: sub_ok_def split: sub_state.splits)
  show "i \<in> set (sw_subs (watch_of h' m)) \<Longrightarrow> sb_state (subs h' i) = Live \<and> sb_sw (subs h' i) = m" for m i
    using hub_okD(6) [OF assms(1), of i m] assms(4,6,9) by (cases "m = n") auto
  show "caller_ok h' (callers h' t)" for t
  proof (cases "opens (callers h' t) = Some n \<or> minds (callers h' t) = Some n")
    case False
    then consider "callers h' t = callers h t" | "opens (callers h' t) = None" "minds (callers h' t) = None"
      using assms(12) [of t] by auto
    then show ?thesis
    proof cases
      case 1
      show ?thesis
      proof (cases "opens (callers h t) = None \<and> minds (callers h t) = None")
        case True
        then show ?thesis using 1 caller_ok_none by simp
      next
        case False
        then obtain m where "opens (callers h t) = Some m \<or> minds (callers h t) = Some m" "m \<noteq> n"
          using 1 \<open>\<not> (opens (callers h' t) = Some n \<or> minds (callers h' t) = Some n)\<close> by auto
        then show ?thesis using other(3) [of m "callers h t"] hub_okD(7) [OF assms(1), of t] 1 by simp
      qed
    qed (rule caller_ok_none)
  qed (rule assms(11))
  show "opens (callers h' t) = Some m \<Longrightarrow> opens (callers h' u) = Some m \<Longrightarrow> t = u" for t u m
    using hub_okD(8) [OF assms(1), of t m u] assms(12) [of t] assms(12) [of u] by auto
qed

lemma caller_at: "hub_ok h \<Longrightarrow> callers h t = c \<Longrightarrow> caller_ok h c"
  using hub_okD(7) by blast

lemma Open_returns_ok:
  assumes "hub_ok h" "callers h t = Opening k ex n"
  shows "hub_ok (go_to t (Waiting k ex n) (on_shared n (\<lambda>sw. sw\<lparr>sw_open := Ready\<rparr>) h))"
proof -
  have c: "n < next_shared h" "sw_key (watch_of h n) = k" "sw_open (watch_of h n) = Unready" "mapped h n"
    using caller_at [OF assms] by simp_all
  show ?thesis
  proof (rule hub_ok_shared [OF assms(1), where n = n and sw = "(watch_of h n)\<lparr>sw_open := Ready\<rparr>"], goal_cases)
    case 9
    show ?case using hub_okD(2) [OF assms(1), of n] c by (simp add: shared_ok_def mapped_def)
  next
    case (10 u)
    show ?case
    proof (cases "u = t")
      case False
      then have "opens (callers h u) \<noteq> Some n" using hub_okD(8) [OF assms(1), of t n u] assms(2) by auto
      with 10 False have "minds (callers h u) = Some n" by simp
      then show ?thesis using False hub_okD(7) [OF assms(1), of u] c by (cases "callers h u") auto
    qed (simp add: c)
  qed (simp_all add: c)
qed

lemma Report_failure_ok:
  assumes "hub_ok h" "callers h t = Reporting k ex n"
  shows "hub_ok (go_to t (Waiting k ex n) (on_shared n (\<lambda>sw. sw\<lparr>sw_open := Open_error\<rparr>) h))"
proof -
  have c: "n < next_shared h" "sw_key (watch_of h n) = k" "sw_open (watch_of h n) = Unready" "\<not> mapped h n"
    using caller_at [OF assms] by simp_all
  show ?thesis
  proof (rule hub_ok_shared [OF assms(1), where n = n and sw = "(watch_of h n)\<lparr>sw_open := Open_error\<rparr>"], goal_cases)
    case 9
    show ?case using hub_okD(2) [OF assms(1), of n] c by (simp add: shared_ok_def mapped_def)
  next
    case (10 u)
    show ?case
    proof (cases "u = t")
      case False
      then have "opens (callers h u) \<noteq> Some n" using hub_okD(8) [OF assms(1), of t n u] assms(2) by auto
      with 10 False have "minds (callers h u) = Some n" by simp
      then show ?thesis using False hub_okD(7) [OF assms(1), of u] c by (cases "callers h u") auto
    qed (simp add: c)
  qed (simp_all add: c)
qed

text \<open>The watcher is closed, or fails: its callers, and the rest, are as they were.\<close>

lemma hub_ok_flag:
  assumes "hub_ok h" "n < next_shared h" "sw_open sw = sw_open (watch_of h n)" "sw_key sw = sw_key (watch_of h n)"
    and "sw_subs sw = sw_subs (watch_of h n)" "shared_ok (on_shared n (\<lambda>_. sw) h) n"
  shows "hub_ok (on_shared n (\<lambda>_. sw) h)"
proof (rule hub_ok_shared [OF assms(1), where n = n and sw = sw], goal_cases)
  case (10 u)
  then show ?case
    using hub_okD(7) [OF assms(1), of u] assms(3-5) by (cases "callers h u") (auto simp: mapped_def)
qed (use assms in simp_all)

lemma on_shared_eq: "on_shared n f h = on_shared n (\<lambda>_. f (watch_of h n)) h"
  by (simp add: on_shared_def)

lemma Close_orphan_ok:
  assumes "hub_ok h" "callers h t = Orphaning k ex n"
  shows "hub_ok (go_to t (Looking k ex) (on_shared n (\<lambda>sw. sw\<lparr>sw_closed := True\<rparr>) h))"
proof -
  have c: "n < next_shared h" "sw_open (watch_of h n) = Ready" "\<not> mapped h n" "sw_subs (watch_of h n) = []"
    using caller_at [OF assms] by simp_all
  have "hub_ok (on_shared n (\<lambda>sw. sw\<lparr>sw_closed := True\<rparr>) h)"
    unfolding on_shared_eq [of n "\<lambda>sw. sw\<lparr>sw_closed := True\<rparr>"]
    by (rule hub_ok_flag [OF assms(1) c(1)])
      (use hub_okD(2) [OF assms(1), of n] c in \<open>auto simp: shared_ok_def mapped_def\<close>)
  then show ?thesis by (rule hub_ok_go) simp_all
qed

lemma Os_failed_ok:
  assumes "hub_ok h" "fans_out h n"
  shows "hub_ok (on_shared n (\<lambda>sw. sw\<lparr>sw_failed := True\<rparr>) h)"
  unfolding on_shared_eq [of n "\<lambda>sw. sw\<lparr>sw_failed := True\<rparr>"]
  by (rule hub_ok_flag)
    (use assms hub_okD(2) [OF assms(1), of n] in \<open>auto simp: shared_ok_def mapped_def fans_out_def\<close>)

lemma sub_over_ok:
  assumes "hub_ok h" "sb_state (subs h i) \<noteq> Live"
  shows "hub_ok (on_sub i (\<lambda>s. s\<lparr>sb_state := Over\<rparr>) h)"
proof -
  let ?h = "on_sub i (\<lambda>s. s\<lparr>sb_state := Over\<rparr>) h"
  have m: "mapped ?h n = mapped h n" for n by (simp add: mapped_def)
  have "caller_ok ?h c = caller_ok h c" for c by (cases c) (simp_all add: m)
  moreover have "shared_ok ?h n = shared_ok h n" for n by (simp add: shared_ok_def m)
  moreover have "sub_ok ?h j" for j
    using hub_okD(5) [OF assms(1), of j] by (auto simp: sub_ok_def m split: sub_state.splits)
  ultimately show ?thesis
    using hub_okD [OF assms(1)] assms(2) by (intro hub_okI) auto
qed

lemma Close_last_ok:
  assumes "hub_ok h" "sb_state (subs h i) = Closing_watcher"
  shows "hub_ok (on_sub i (\<lambda>s. s\<lparr>sb_state := Over\<rparr>) (on_shared (sb_sw (subs h i)) (\<lambda>sw. sw\<lparr>sw_closed := True\<rparr>) h))"
proof -
  let ?n = "sb_sw (subs h i)"
  have c: "?n < next_shared h" "sw_subs (watch_of h ?n) = []" "\<not> mapped h ?n" "sw_open (watch_of h ?n) = Ready"
    using hub_okD(5) [OF assms(1), of i] assms(2) by (simp_all add: sub_ok_def)
  have "hub_ok (on_shared ?n (\<lambda>sw. sw\<lparr>sw_closed := True\<rparr>) h)"
    unfolding on_shared_eq [of ?n "\<lambda>sw. sw\<lparr>sw_closed := True\<rparr>"]
    by (rule hub_ok_flag [OF assms(1) c(1)])
      (use hub_okD(2) [OF assms(1), of ?n] c in \<open>auto simp: shared_ok_def mapped_def\<close>)
  then show ?thesis by (rule sub_over_ok) (simp add: assms(2))
qed

section \<open>Steps that change the map\<close>

lemma unmapped:
  assumes "mapped h n" "watches h' = (watches h)(sw_key (watch_of h n) := None)"
    and "sw_key (watch_of h' m) = sw_key (watch_of h m)"
  shows "mapped h' m \<longleftrightarrow> m \<noteq> n \<and> mapped h m"
  using assms by (auto simp: mapped_def)

lemma Open_fails_ok:
  assumes "hub_ok h" "callers h t = Opening k ex n"
  shows "hub_ok (go_to t (Reporting k ex n) (h\<lparr>watches := (watches h)(k := None)\<rparr>))"
proof -
  let ?h = "go_to t (Reporting k ex n) (h\<lparr>watches := (watches h)(k := None)\<rparr>)"
  have c: "n < next_shared h" "sw_key (watch_of h n) = k" "sw_open (watch_of h n) = Unready" "mapped h n"
    using caller_at [OF assms] by simp_all
  have m: "mapped ?h m \<longleftrightarrow> m \<noteq> n \<and> mapped h m" for m by (rule unmapped [OF c(4)]) (simp_all add: c)
  have n: "sw_subs (watch_of h n) = []" using hub_okD(2) [OF assms(1), of n] c(3) by (simp add: shared_ok_def)
  show ?thesis
  proof (rule hub_okI)
    show "shared_ok ?h i" for i using hub_okD(2) [OF assms(1), of i] n by (auto simp: shared_ok_def m)
    show "sub_ok ?h i" for i using hub_okD(5) [OF assms(1), of i] by (auto simp: sub_ok_def m split: sub_state.splits)
    show "caller_ok ?h (callers ?h u)" for u
    proof (cases "u = t")
      case False
      then have "opens (callers h u) \<noteq> Some n" using hub_okD(8) [OF assms(1), of t n u] assms(2) by auto
      then show ?thesis using False hub_okD(7) [OF assms(1), of u] by (cases "callers h u") (auto simp: m)
    qed (simp add: c m)
    show "opens (callers ?h u) = Some i \<Longrightarrow> opens (callers ?h w) = Some i \<Longrightarrow> u = w" for u w i
      using hub_okD(8) [OF assms(1), of u i w] assms(2) by (auto split: if_splits)
  qed (use hub_okD(1,3,4,6) [OF assms(1)] in \<open>auto split: if_splits\<close>)
qed

lemma new_watch_ok:
  assumes "hub_ok h" "\<And>n. watches h k = Some n \<Longrightarrow> sw_failed (watch_of h n)"
  shows "hub_ok (go_to t (Opening k ex (next_shared h))
           (h\<lparr>watches := (watches h)(k \<mapsto> next_shared h), shareds := (shareds h)(next_shared h := new_shared k),
              next_shared := Suc (next_shared h)\<rparr>))" (is "hub_ok ?h")
proof -
  let ?N = "next_shared h"
  have w: "watch_of ?h n = (if n = ?N then new_shared k else watch_of h n)" for n by simp
  have N: "mapped ?h ?N" by (simp add: mapped_def new_shared_def)
  have m: "mapped ?h n \<longleftrightarrow> mapped h n \<and> sw_key (watch_of h n) \<noteq> k" if "n \<noteq> ?N" for n
    using that by (auto simp: mapped_def)
  have ready: "sw_open (watch_of h n) = Ready" if "watches h k = Some n" for n
    using assms(2) [OF that] hub_okD(2) [OF assms(1), of n] by (auto simp: shared_ok_def)
  have open_key: "sw_key (watch_of h n) \<noteq> k" if "mapped h n" "sw_open (watch_of h n) = Unready" for n
    using ready [of n] that by (auto simp: mapped_def)
  have none: "sw_subs (watch_of h ?N) = []" using hub_okD(2,3) [OF assms(1), of ?N] by (simp add: shared_ok_def)
  have below: "caller_ok h c \<Longrightarrow> opens c = Some n \<or> minds c = Some n \<Longrightarrow> n < ?N" for c n by (cases c) auto
  show ?thesis
  proof (rule hub_okI)
    show "shared_ok ?h n" for n
    proof (cases "n = ?N")
      case False
      have "sw_key (watch_of h n) \<noteq> k \<or> sw_failed (watch_of h n)" if "mapped h n"
        using assms(2) [of n] that by (auto simp: mapped_def)
      then show ?thesis using False hub_okD(2) [OF assms(1), of n] by (auto simp: shared_ok_def m)
    qed (simp add: shared_ok_def new_shared_def)
    show "sub_ok ?h i" for i
      using hub_okD(5) [OF assms(1), of i] by (auto simp: sub_ok_def m split: sub_state.splits)
    show "caller_ok ?h (callers ?h u)" for u
    proof (cases "u = t")
      case False
      show ?thesis using False hub_okD(7) [OF assms(1), of u] open_key by (cases "callers h u") (auto simp: m)
    qed (simp add: N, simp add: new_shared_def)
    show "opens (callers ?h u) = Some i \<Longrightarrow> opens (callers ?h v) = Some i \<Longrightarrow> u = v" for u v i
      using hub_okD(8) [OF assms(1), of u i v] below [OF hub_okD(7) [OF assms(1), of u], of i] below [OF hub_okD(7) [OF assms(1), of v], of i]
      by (auto split: if_splits)
    show "i \<in> set (sw_subs (watch_of ?h n)) \<Longrightarrow> sb_state (subs ?h i) = Live \<and> sb_sw (subs ?h i) = n" for n i
      using hub_okD(6) [OF assms(1), of i n] by (auto simp: new_shared_def split: if_splits)
    show "watches ?h j = Some n \<Longrightarrow> n < next_shared ?h \<and> sw_key (watch_of ?h n) = j" for j n
      using hub_okD(1) [OF assms(1), of j n] by (auto simp: new_shared_def split: if_splits)
  qed (use hub_okD(3,4) [OF assms(1)] in auto)
qed

lemma lookup_ok:
  assumes "hub_ok h" "callers h t = Looking k ex"
  shows "hub_ok (lookup_watch t k ex h)"
proof (cases "watches h k")
  case None
  show ?thesis by (simp add: lookup_watch_def None) (rule new_watch_ok [OF assms(1)], simp add: None)
next
  case (Some n)
  show ?thesis
  proof (cases "hasFailed (watch_of h n)")
    case True
    then show ?thesis by (simp add: lookup_watch_def Some) (rule new_watch_ok [OF assms(1)], simp add: Some hasFailed_def)
  next
    case False
    have "caller_ok h (Waiting k ex n)" using hub_okD(1) [OF assms(1) Some] by simp
    then show ?thesis unfolding lookup_watch_def Some using False by (simp add: hub_ok_go [OF assms(1)])
  qed
qed

lemma join_ok:
  assumes "hub_ok h" "callers h t = Joining k ex n"
  shows "hub_ok (join_watch t k ex n h)"
proof -
  have c: "n < next_shared h" "sw_key (watch_of h n) = k" "sw_open (watch_of h n) = Ready"
    using caller_at [OF assms] by simp_all
  show ?thesis
  proof (cases "watches h k = Some n")
    case False
    then have "\<not> mapped h n" using c(2) by (simp add: mapped_def)
    then show ?thesis
      using False c by (simp add: join_watch_def hub_ok_go [OF assms(1)])
  next
    case True
    let ?i = "next_sub h"
    let ?h = "join_watch t k ex n h"
    have h: "?h = go_to t (Subscribed ?i) (on_shared n (\<lambda>sw. sw\<lparr>sw_subs := ?i # sw_subs sw\<rparr>)
        (h\<lparr>subs := (subs h)(?i := new_sub n ex (sw_failed (watch_of h n))), next_sub := Suc ?i\<rparr>))"
      using True by (simp add: join_watch_def)
    have on: "mapped h n" using True c(2) by (simp add: mapped_def)
    have m: "mapped ?h j = mapped h j" for j by (simp add: h mapped_def)
    have f: "callers ?h = (callers h)(t := Subscribed ?i)" "next_shared ?h = next_shared h"
      "shareds ?h = (shareds h)(n := (watch_of h n)\<lparr>sw_subs := ?i # sw_subs (watch_of h n)\<rparr>)"
      by (simp_all add: h)
    have fresh: "?i \<notin> set (sw_subs (watch_of h j))" for j
      using hub_okD(6) [OF assms(1), of ?i j] hub_okD(4) [OF assms(1), of ?i] by auto
    have S: "shared_ok h n" by (rule hub_okD(2) [OF assms(1)])
    show ?thesis
    proof (rule hub_okI)
      show "shared_ok ?h j" for j
        using S hub_okD(2) [OF assms(1), of j] on c(3) fresh [of n] unfolding shared_ok_def m by (auto simp: h)
      show "sub_ok ?h i" for i
        using hub_okD(5) [OF assms(1), of i] on c(1) unfolding sub_ok_def m
        by (auto simp: h new_sub_def split: sub_state.splits)
      show "caller_ok ?h (callers ?h u)" for u
      proof (cases "u = t")
        case False
        then show ?thesis
          using hub_okD(7) [OF assms(1), of u] on c(3) by (cases "callers h u") (auto simp: m f)
      qed (simp add: f)
      show "i \<in> set (sw_subs (watch_of ?h j)) \<Longrightarrow> sb_state (subs ?h i) = Live \<and> sb_sw (subs ?h i) = j" for i j
        using hub_okD(6) [OF assms(1), of i j] fresh [of j] by (auto simp: h new_sub_def split: if_splits)
      show "opens (callers ?h u) = Some j \<Longrightarrow> opens (callers ?h v) = Some j \<Longrightarrow> u = v" for u v j
        using hub_okD(8) [OF assms(1), of u j v] by (auto simp: h split: if_splits)
      show "next_shared ?h \<le> j \<Longrightarrow> sw_open (watch_of ?h j) = Unready" for j
        using hub_okD(3) [OF assms(1), of j] by (auto simp: h)
      show "next_sub ?h \<le> i \<Longrightarrow> sb_state (subs ?h i) = Over" for i
        using hub_okD(4) [OF assms(1), of i] by (simp add: h)
      show "watches ?h j = Some i \<Longrightarrow> i < next_shared ?h \<and> sw_key (watch_of ?h i) = j" for i j
        using hub_okD(1) [OF assms(1), of j i] by (auto simp: h)
    qed
  qed
qed

lemma leave_ok:
  assumes "hub_ok h" "sb_state (subs h i) = Live"
  shows "hub_ok (leave_watch i h)"
proof -
  let ?h = "leave_watch i h"
  let ?n = "sb_sw (subs h i)"
  let ?rest = "removeAll i (sw_subs (watch_of h ?n))"
  have live: "?n < next_shared h" "i \<in> set (sw_subs (watch_of h ?n))"
    using hub_okD(5) [OF assms(1), of i] assms(2) by (simp_all add: sub_ok_def)
  have S: "shared_ok h ?n" by (rule hub_okD(2) [OF assms(1)])
  have ne: "sw_subs (watch_of h ?n) \<noteq> []" using live(2) by auto
  have ready: "sw_open (watch_of h ?n) = Ready" "\<not> sw_closed (watch_of h ?n)"
    using S ne by (auto simp: shared_ok_def)
  have f: "callers ?h = callers h" "next_shared ?h = next_shared h" "next_sub ?h = next_sub h"
    "shareds ?h = (shareds h)(?n := (watch_of h ?n)\<lparr>sw_subs := ?rest\<rparr>)"
    "subs ?h = (subs h)(i := (subs h i)\<lparr>sb_state := if ?rest = [] then Closing_watcher else Over\<rparr>)"
    by (simp_all add: leave_watch_def Let_def)
  have w: "watches ?h = (if ?rest = [] \<and> mapped h ?n then (watches h)(sw_key (watch_of h ?n) := None) else watches h)"
    by (simp add: leave_watch_def Let_def mapped_def)
  have m: "mapped ?h j \<longleftrightarrow> mapped h j \<and> \<not> (?rest = [] \<and> j = ?n)" for j
  proof -
    have "sw_key (watch_of ?h j) = sw_key (watch_of h j)" by (simp add: f(4))
    then show ?thesis by (auto simp: mapped_def w)
  qed
  have other: "sb_sw (subs h j) = ?n \<Longrightarrow> sb_state (subs h j) = Live \<Longrightarrow> j \<noteq> i \<Longrightarrow> j \<in> set ?rest" for j
    using hub_okD(5) [OF assms(1), of j] by (simp add: sub_ok_def)
  have sole: "sb_sw (subs h j) = ?n \<Longrightarrow> sb_state (subs h j) \<noteq> Closing_watcher" for j
    using hub_okD(5) [OF assms(1), of j] ne by (auto simp: sub_ok_def)
  show ?thesis
  proof (rule hub_okI)
    show "shared_ok ?h j" for j
    proof (cases "j = ?n")
      case True
      have "distinct ?rest" using S by (simp add: shared_ok_def distinct_removeAll)
      then show ?thesis using True S ready ne by (auto simp: shared_ok_def m f)
    next
      case False
      then show ?thesis using hub_okD(2) [OF assms(1), of j] by (auto simp: shared_ok_def m f)
    qed
    show "sub_ok ?h j" for j
    proof (cases "j = i")
      case True
      then show ?thesis using live ready by (auto simp: sub_ok_def m f)
    next
      case False
      then show ?thesis
        using hub_okD(5) [OF assms(1), of j] other [of j] sole [of j]
        by (auto simp: sub_ok_def m f split: sub_state.splits)
    qed
    show "caller_ok ?h (callers ?h u)" for u
      using hub_okD(7) [OF assms(1), of u] ready ne by (cases "callers h u") (auto simp: m f)
    show "j \<in> set (sw_subs (watch_of ?h k)) \<Longrightarrow> sb_state (subs ?h j) = Live \<and> sb_sw (subs ?h j) = k" for j k
      using hub_okD(6) [OF assms(1), of j k] by (auto simp: f split: if_splits)
    show "opens (callers ?h u) = Some j \<Longrightarrow> opens (callers ?h v) = Some j \<Longrightarrow> u = v" for u v j
      using hub_okD(8) [OF assms(1), of u j v] by (simp add: f)
    show "next_shared ?h \<le> j \<Longrightarrow> sw_open (watch_of ?h j) = Unready" for j
      using hub_okD(3) [OF assms(1), of j] by (auto simp: f)
    show "next_sub ?h \<le> j \<Longrightarrow> sb_state (subs ?h j) = Over" for j
      using hub_okD(4) [OF assms(1), of j] hub_okD(4) [OF assms(1), of i] assms(2) by (auto simp: f)
    show "watches ?h j = Some k \<Longrightarrow> k < next_shared ?h \<and> sw_key (watch_of ?h k) = j" for j k
      using hub_okD(1) [OF assms(1), of j k] by (auto simp: f w split: if_splits)
  qed
qed

lemma channel_simps [simp]:
  "sb_state (deliver p s) = sb_state s" "sb_sw (deliver p s) = sb_sw s"
  "sb_state (signalLost s) = sb_state s" "sb_sw (signalLost s) = sb_sw s"
  by (simp_all add: deliver_def signalLost_def Let_def)

lemma hub_ok_step:
  assumes "hub_ok h" "hub_step a h = Some h'"
  shows "hub_ok h'"
proof (cases a)
  case (Subscribe t root opts re)
  then show ?thesis using assms(2) by (auto intro: hub_ok_go [OF assms(1)] split: if_splits option.splits subscriber_pc.splits)
next
  case (Lookup t)
  then show ?thesis using assms(2) by (auto intro: lookup_ok [OF assms(1)] split: subscriber_pc.splits)
next
  case (Open_returns t)
  then show ?thesis using assms(2) by (auto intro: Open_returns_ok [OF assms(1)] split: subscriber_pc.splits)
next
  case (Open_fails t)
  then show ?thesis using assms(2) by (auto intro: Open_fails_ok [OF assms(1)] split: subscriber_pc.splits)
next
  case (Report_failure t)
  then show ?thesis using assms(2) by (auto intro: Report_failure_ok [OF assms(1)] split: subscriber_pc.splits)
next
  case (Wake t)
  then show ?thesis
    using assms(2) hub_okD(7) [OF assms(1), of t]
    by (auto intro!: hub_ok_go [OF assms(1)] split: subscriber_pc.splits open_state.splits)
next
  case (Join t)
  then show ?thesis using assms(2) by (auto intro: join_ok [OF assms(1)] split: subscriber_pc.splits)
next
  case (Close_orphan t)
  then show ?thesis using assms(2) by (auto intro: Close_orphan_ok [OF assms(1)] split: subscriber_pc.splits)
next
  case (Close i)
  then show ?thesis using assms(2) by (auto intro: leave_ok [OF assms(1)] split: if_splits)
next
  case (Close_last i)
  then show ?thesis using assms(2) by (auto intro: Close_last_ok [OF assms(1)] split: if_splits)
next
  case (Os_failed n)
  then show ?thesis using assms(2) by (auto intro: Os_failed_ok [OF assms(1)] split: if_splits)
qed (use assms(2) in \<open>auto intro!: hub_ok_subs [OF assms(1)] split: if_splits list.splits\<close>)

section \<open>No watcher is forgotten\<close>

lemma mindedI: "minds (callers h t) = Some n \<Longrightarrow> minded h n" "sb_state (subs h i) = Closing_watcher \<Longrightarrow> sb_sw (subs h i) = n \<Longrightarrow> minded h n"
  by (auto simp: minded_def)

text \<open>Where the callers and closers that mind the watchers stay, and the watchers too.\<close>

lemma minded_mono:
  assumes "minded h n" "\<And>t. minds (callers h t) = Some n \<Longrightarrow> minded h' n"
    and "\<And>i. sb_state (subs h i) = Closing_watcher \<Longrightarrow> sb_sw (subs h i) = n \<Longrightarrow> minded h' n"
  shows "minded h' n"
  using assms unfolding minded_def by blast

definition idle_watch :: "hub \<Rightarrow> nat \<Rightarrow> bool" where
  "idle_watch h n = (sw_open (watch_of h n) = Ready \<and> \<not> sw_closed (watch_of h n) \<and> sw_subs (watch_of h n) = [])"

lemma no_leakD: "no_leak h \<Longrightarrow> idle_watch h n \<Longrightarrow> minded h n"
  by (simp add: no_leak_def idle_watch_def)

lemma no_leakI: "(\<And>n. idle_watch h n \<Longrightarrow> minded h n) \<Longrightarrow> no_leak h"
  by (simp add: no_leak_def idle_watch_def)

text \<open>One caller moves, and the watchers that become or stay idle are minded.\<close>

lemma no_leak_move:
  assumes "no_leak h" "callers h' = (callers h)(t := c)" "subs h' = subs h"
    and "\<And>n. idle_watch h' n \<Longrightarrow> idle_watch h n \<or> minds c = Some n"
    and "\<And>n. minds (callers h t) = Some n \<Longrightarrow> idle_watch h' n \<Longrightarrow> minds c = Some n"
  shows "no_leak h'"
proof (rule no_leakI)
  fix n assume i: "idle_watch h' n"
  have t: "minded h' n" if "minds c = Some n" using that assms(2) by (intro mindedI(1) [of _ t]) simp
  show "minded h' n"
  proof (cases "minds c = Some n")
    case False
    then have "minded h n" using assms(1,4) i no_leakD by blast
    then show ?thesis
    proof (rule minded_mono)
      fix u assume u: "minds (callers h u) = Some n"
      then have "u \<noteq> t" using assms(5) [of n] i False by auto
      then show "minded h' n" using u assms(2) by (intro mindedI(1) [of _ u]) simp
    qed (auto simp: assms(3) intro: mindedI(2))
  qed (rule t)
qed

lemma no_leak_same:
  assumes "no_leak h" "callers h' = callers h" "\<And>n. idle_watch h' n \<Longrightarrow> idle_watch h n"
    and "\<And>i. sb_state (subs h' i) = sb_state (subs h i) \<and> sb_sw (subs h' i) = sb_sw (subs h i)"
  shows "no_leak h'"
proof (rule no_leakI)
  fix n assume "idle_watch h' n"
  then have "minded h n" using assms(1,3) no_leakD by blast
  then show "minded h' n" by (simp add: minded_def assms(2,4))
qed

lemma no_leak_leave:
  assumes "no_leak h" "hub_ok h" "sb_state (subs h i) = Live"
  shows "no_leak (leave_watch i h)"
proof (rule no_leakI)
  let ?h = "leave_watch i h" and ?n = "sb_sw (subs h i)"
  let ?rest = "removeAll i (sw_subs (watch_of h ?n))"
  have f: "callers ?h = callers h" "shareds ?h = (shareds h)(?n := (watch_of h ?n)\<lparr>sw_subs := ?rest\<rparr>)"
    "subs ?h = (subs h)(i := (subs h i)\<lparr>sb_state := if ?rest = [] then Closing_watcher else Over\<rparr>)"
    by (simp_all add: leave_watch_def Let_def)
  fix n assume idle: "idle_watch ?h n"
  show "minded ?h n"
  proof (cases "n = ?n")
    case True
    then have "?rest = []" using idle by (simp add: idle_watch_def f)
    then show ?thesis using True by (intro mindedI(2) [of _ i]) (simp_all add: f)
  next
    case False
    then have "minded h n" using idle by (intro no_leakD [OF assms(1)]) (simp add: idle_watch_def f)
    then show ?thesis
    proof (rule minded_mono)
      fix j assume "sb_state (subs h j) = Closing_watcher" "sb_sw (subs h j) = n"
      then show "minded ?h n" using False assms(3) by (intro mindedI(2) [of _ j]) (auto simp: f)
    qed (auto simp: f intro: mindedI(1))
  qed
qed

lemma no_leak_close_last:
  assumes "no_leak h" "sb_state (subs h i) = Closing_watcher"
  shows "no_leak (on_sub i (\<lambda>s. s\<lparr>sb_state := Over\<rparr>) (on_shared (sb_sw (subs h i)) (\<lambda>sw. sw\<lparr>sw_closed := True\<rparr>) h))" (is "no_leak ?h")
proof (rule no_leakI)
  fix n assume idle: "idle_watch ?h n"
  then have "n \<noteq> sb_sw (subs h i)" by (auto simp: idle_watch_def)
  moreover from this have "minded h n" using idle by (intro no_leakD [OF assms(1)]) (simp add: idle_watch_def)
  ultimately show "minded ?h n"
    by (elim minded_mono) (auto intro: mindedI(1), auto intro!: mindedI(2))
qed

lemma no_leak_join:
  assumes "no_leak h" "callers h t = Joining k ex n" "hub_ok h"
  shows "no_leak (join_watch t k ex n h)"
proof (cases "watches h k = Some n")
  case True
  show ?thesis
  proof (rule no_leakI)
    let ?h = "join_watch t k ex n h"
    fix m assume idle: "idle_watch ?h m"
    then have m: "m \<noteq> n" "idle_watch h m" using True by (auto simp: idle_watch_def join_watch_def split: if_splits)
    have "minded h m" by (rule no_leakD [OF assms(1) m(2)])
    then show "minded ?h m"
    proof (rule minded_mono)
      fix u assume "minds (callers h u) = Some m"
      then show "minded ?h m" using assms(2) m(1) True by (intro mindedI(1) [of _ u]) (auto simp: join_watch_def)
    next
      fix j assume j: "sb_state (subs h j) = Closing_watcher" "sb_sw (subs h j) = m"
      have "j \<noteq> next_sub h" using hub_okD(4) [OF assms(3), of j] j(1) by auto
      then show "minded ?h m" using j True by (intro mindedI(2) [of _ j]) (auto simp: join_watch_def)
    qed
  qed
next
  case False
  then show ?thesis
    by (auto simp: join_watch_def idle_watch_def assms(2) intro!: no_leak_move [OF assms(1), where t = t])
qed

lemma no_leak_step:
  assumes "no_leak h" "hub_ok h" "hub_step a h = Some h'"
  shows "no_leak h'"
proof (cases a)
  case (Subscribe t root opts re)
  then show ?thesis
    using assms(3) by (auto simp: idle_watch_def intro!: no_leak_move [OF assms(1), where t = t] split: if_splits option.splits subscriber_pc.splits)
next
  case (Lookup t)
  then obtain k ex where c: "callers h t = Looking k ex" "h' = lookup_watch t k ex h" using assms(3) by (auto split: subscriber_pc.splits)
  then show ?thesis
    by (auto simp: lookup_watch_def idle_watch_def new_shared_def intro!: no_leak_move [OF assms(1), where t = t] split: option.splits if_splits)
next
  case (Open_returns t)
  then show ?thesis
    using assms(3) by (auto simp: idle_watch_def intro!: no_leak_move [OF assms(1), where t = t] split: subscriber_pc.splits if_splits)
next
  case (Open_fails t)
  then show ?thesis
    using assms(3) by (auto simp: idle_watch_def intro!: no_leak_move [OF assms(1), where t = t] split: subscriber_pc.splits if_splits)
next
  case (Report_failure t)
  then show ?thesis
    using assms(3) by (auto simp: idle_watch_def intro!: no_leak_move [OF assms(1), where t = t] split: subscriber_pc.splits if_splits)
next
  case (Wake t)
  then show ?thesis
    using assms(3) by (auto simp: idle_watch_def intro!: no_leak_move [OF assms(1), where t = t] split: subscriber_pc.splits open_state.splits)
next
  case (Join t)
  then show ?thesis using assms(3) by (auto intro: no_leak_join [OF assms(1) _ assms(2)] split: subscriber_pc.splits)
next
  case (Close_orphan t)
  then show ?thesis
    using assms(3) by (auto simp: idle_watch_def intro!: no_leak_move [OF assms(1), where t = t] split: subscriber_pc.splits if_splits)
next
  case (Close i)
  then show ?thesis using assms(3) by (auto intro: no_leak_leave [OF assms(1,2)] split: if_splits)
next
  case (Close_last i)
  then show ?thesis using assms(3) by (auto intro: no_leak_close_last [OF assms(1)] split: if_splits)
qed (use assms(3) in \<open>auto simp: idle_watch_def intro!: no_leak_same [OF assms(1)] split: if_splits list.splits\<close>)

end
