(* ===== verification/Plumb_Hub_Claims.thy ===== *)
theory Plumb_Hub_Claims
  imports Plumb_Hub_Correct
begin

text \<open>The claims on the hub, and runs that witness them.\<close>

lemma hub_ok_new: "hub_ok NewHub"
  by (rule hub_okI) (simp_all add: NewHub_def shared_ok_def new_shared_def sub_ok_def new_sub_def)

lemma no_leak_new: "no_leak NewHub"
  by (simp add: no_leak_def NewHub_def new_shared_def)

lemma hub_reach_ok: "hub_reach h \<Longrightarrow> hub_ok h \<and> no_leak h"
  by (induction rule: hub_reach.induct) (auto intro: hub_ok_new no_leak_new hub_ok_step no_leak_step)

text \<open>
  C25. Consumers of one directory share one watcher: every live subscription has a watcher that is
  open, and two live subscriptions for the same root and options have the same one, unless one of
  them has failed, whatever calls of Subscribe and Close, failed openings and failures interleave.
\<close>

theorem hub_shares_open_watcher:
  assumes "hub_reach h" "sb_state (subs h i) = Live" "sb_state (subs h j) = Live"
    and "sw_key (shareds h (sb_sw (subs h i))) = sw_key (shareds h (sb_sw (subs h j)))"
  shows "sw_open (shareds h (sb_sw (subs h i))) = Ready \<and> \<not> sw_closed (shareds h (sb_sw (subs h i))) \<and>
    (sb_sw (subs h i) = sb_sw (subs h j) \<or> sw_failed (shareds h (sb_sw (subs h i))) \<or> sw_failed (shareds h (sb_sw (subs h j))))"
proof -
  have ok: "hub_ok h" using hub_reach_ok [OF assms(1)] by simp
  have i: "sw_subs (shareds h (sb_sw (subs h i))) \<noteq> []" using hub_okD(5) [OF ok, of i] assms(2) by (auto simp: sub_ok_def)
  have j: "sw_subs (shareds h (sb_sw (subs h j))) \<noteq> []" using hub_okD(5) [OF ok, of j] assms(3) by (auto simp: sub_ok_def)
  show ?thesis
    using hub_okD(2) [OF ok, of "sb_sw (subs h i)"] hub_okD(2) [OF ok, of "sb_sw (subs h j)"] i j assms(4)
    by (auto simp: shared_ok_def mapped_def)
qed

text \<open>
  No watcher is forgotten: whenever no caller is inside Subscribe and no Close is about to
  close a watcher, a watcher that was opened and not closed has a live subscription, so when
  everybody has left the operating system watches nothing for the hub.
\<close>

theorem hub_forgets_no_watcher:
  assumes "hub_reach h" "\<And>t. opens (callers h t) = None \<and> minds (callers h t) = None"
    and "\<And>i. sb_state (subs h i) \<noteq> Closing_watcher"
    and "sw_open (shareds h n) = Ready" "\<not> sw_closed (shareds h n)"
  shows "\<exists>i. sb_state (subs h i) = Live \<and> sb_sw (subs h i) = n"
proof -
  have ok: "hub_ok h" "no_leak h" using hub_reach_ok [OF assms(1)] by simp_all
  have "\<not> minded h n" using assms(2,3) by (simp add: minded_def)
  then have "sw_subs (shareds h n) \<noteq> []" using no_leakD [OF ok(2), of n] assms(4,5) by (auto simp: idle_watch_def)
  then obtain i where "i \<in> set (sw_subs (shareds h n))" by (cases "sw_subs (shareds h n)") auto
  then show ?thesis using hub_okD(6) [OF ok(1)] by blast
qed

definition told_all :: "subscription \<Rightarrow> bool" where
  "told_all s = ((sb_lost s \<or> sb_got s @ sb_events s = sb_offered s) \<and> length (sb_events s) \<le> eventBuffer)"

lemma told_all_channel:
  "told_all s \<Longrightarrow> told_all (deliver p s)" "told_all s \<Longrightarrow> told_all (signalLost s)"
  "told_all (s\<lparr>sb_state := x\<rparr>) = told_all s" "told_all (s\<lparr>sb_failed := y\<rparr>) = told_all s"
  "told_all (new_sub n ex f)"
  by (auto simp: told_all_def deliver_def signalLost_def Let_def new_sub_def)

lemma told_all_step:
  assumes "\<And>i. told_all (subs h i)" "hub_step a h = Some h'"
  shows "told_all (subs h' i)"
proof (cases a)
  case (Lookup t)
  then show ?thesis
    using assms by (auto simp: lookup_watch_def split: subscriber_pc.splits option.splits if_splits)
next
  case (Join t)
  then show ?thesis using assms by (auto simp: join_watch_def told_all_channel split: subscriber_pc.splits if_splits)
next
  case (Close j)
  then show ?thesis using assms by (auto simp: leave_watch_def Let_def told_all_channel split: if_splits)
next
  case (Take_event j)
  then show ?thesis
    using assms(1) [of i] assms(1) [of j] assms(2) by (auto simp: told_all_def split: list.splits)
next
  case (Take_lost j)
  then show ?thesis using assms(1) [of i] assms(1) [of j] assms(2) by (auto simp: told_all_def split: if_splits)
qed (use assms in \<open>auto simp: told_all_channel split: subscriber_pc.splits open_state.splits option.splits if_splits\<close>)

text \<open>
  C26. No change is lost in silence: since its consumer was last told to reconcile, what a
  subscription received and has queued is exactly the events its watcher reported and its exclusion
  lets through, in order, or it is told again; a full buffer, of bounded size, never holds up the others.
\<close>

theorem hub_no_silent_loss:
  assumes "hub_reach h"
  shows "(sb_lost (subs h i) \<or> sb_got (subs h i) @ sb_events (subs h i) = sb_offered (subs h i)) \<and>
    length (sb_events (subs h i)) \<le> eventBuffer"
proof -
  have "told_all (subs h i)" for i
    using assms
  proof (induction arbitrary: i rule: hub_reach.induct)
    case start
    show ?case by (simp add: NewHub_def told_all_channel)
  next
    case (act h a h')
    then show ?case by (auto intro: told_all_step)
  qed
  then show ?thesis by (simp add: told_all_def)
qed

section \<open>Runs\<close>

lemma hub_run_reach: "hub_run as h = Some h' \<Longrightarrow> hub_reach h \<Longrightarrow> hub_reach h'"
  by (induction as arbitrary: h) (auto split: option.splits intro: hub_reach.act)

definition shared_run :: "hub_action list" where
  "shared_run =
     [Subscribe 0 ''/w/'' ''o'' (Some (\<lambda>_. False)), Lookup 0, Subscribe 1 ''/w'' ''o'' (Some (\<lambda>p. p = ''x'')), Lookup 1,
      Open_returns 0, Wake 1, Join 1, Wake 0, Join 0, Os_event 0 ''x'', Os_event 0 ''y'', Take_event 0]"

theorem hub_shares_open_watcher_witness:
  "\<exists>h. hub_run shared_run NewHub = Some h \<and> sw_open (shareds h (sb_sw (subs h 0))) = Ready \<and>
     sb_sw (subs h 0) = sb_sw (subs h 1)"
proof -
  have run: "case hub_run shared_run NewHub of
      Some h \<Rightarrow> sb_state (subs h 0) = Live \<and> sb_state (subs h 1) = Live \<and>
        sw_key (shareds h (sb_sw (subs h 0))) = sw_key (shareds h (sb_sw (subs h 1))) \<and>
        \<not> sw_failed (shareds h (sb_sw (subs h 0))) \<and> \<not> sw_failed (shareds h (sb_sw (subs h 1)))
    | None \<Rightarrow> False"
    by code_simp
  then obtain h where h: "hub_run shared_run NewHub = Some h" by (cases "hub_run shared_run NewHub") auto
  then have "hub_reach h" by (rule hub_run_reach) (rule hub_reach.start)
  from hub_shares_open_watcher [OF this, of 0 1] show ?thesis using run h by auto
qed

theorem hub_no_silent_loss_witness:
  "\<exists>h. hub_run shared_run NewHub = Some h \<and> sb_got (subs h 0) @ sb_events (subs h 0) = sb_offered (subs h 0) \<and>
     sb_offered (subs h 0) = [''y''] \<and> \<not> sb_lost (subs h 0)"
proof -
  have run: "case hub_run shared_run NewHub of
      Some h \<Rightarrow> sb_offered (subs h 0) = [''y''] \<and> \<not> sb_lost (subs h 0) | None \<Rightarrow> False"
    by code_simp
  then obtain h where h: "hub_run shared_run NewHub = Some h" by (cases "hub_run shared_run NewHub") auto
  then have "hub_reach h" by (rule hub_run_reach) (rule hub_reach.start)
  from hub_no_silent_loss [OF this, of 0] show ?thesis using run h by simp
qed

fun caller_of :: "hub_action \<Rightarrow> nat option" where
  "caller_of (Subscribe t root opts re) = Some t"
| "caller_of (Lookup t) = Some t"
| "caller_of (Open_returns t) = Some t"
| "caller_of (Open_fails t) = Some t"
| "caller_of (Report_failure t) = Some t"
| "caller_of (Wake t) = Some t"
| "caller_of (Join t) = Some t"
| "caller_of (Close_orphan t) = Some t"
| "caller_of _ = None"

lemma other_caller: "hub_step a h = Some h' \<Longrightarrow> caller_of a \<noteq> Some t \<Longrightarrow> callers h' t = callers h t"
  by (cases a) (auto simp: lookup_watch_def join_watch_def leave_watch_def Let_def
      split: if_splits option.splits subscriber_pc.splits open_state.splits list.splits)

lemma other_callers: "hub_run as h = Some h' \<Longrightarrow> Some t \<notin> caller_of ` set as \<Longrightarrow> callers h' t = callers h t"
proof (induction as arbitrary: h)
  case (Cons a as)
  then obtain h1 where "hub_step a h = Some h1" "hub_run as h1 = Some h'" by (auto split: option.splits)
  with Cons other_caller [of a h h1 t] show ?case by auto
qed simp

text \<open>The second consumer leaves; the first, alone, keeps the watcher.\<close>

definition alone_run :: "hub_action list" where
  "alone_run = shared_run @ [Close 0]"

theorem hub_forgets_no_watcher_witness:
  "\<exists>h. hub_run alone_run NewHub = Some h \<and> sw_open (shareds h 0) = Ready \<and> \<not> sw_closed (shareds h 0) \<and>
     (\<exists>i. sb_state (subs h i) = Live \<and> sb_sw (subs h i) = 0)"
proof -
  have run: "case hub_run alone_run NewHub of
      Some h \<Rightarrow> opens (callers h 0) = None \<and> opens (callers h 1) = None \<and> minds (callers h 0) = None \<and> minds (callers h 1) = None \<and>
        sb_state (subs h 0) \<noteq> Closing_watcher \<and> sb_state (subs h 1) \<noteq> Closing_watcher \<and> next_sub h = 2 \<and>
        sw_open (shareds h 0) = Ready \<and> \<not> sw_closed (shareds h 0)
    | None \<Rightarrow> False"
    by code_simp
  then obtain h where h: "hub_run alone_run NewHub = Some h" by (cases "hub_run alone_run NewHub") auto
  then have r: "hub_reach h" by (rule hub_run_reach) (rule hub_reach.start)
  have t: "opens (callers h t) = None \<and> minds (callers h t) = None" for t
  proof (cases "t < 2")
    case True
    then show ?thesis using run h by (auto simp: less_2_cases_iff)
  next
    case False
    have "caller_of ` set alone_run \<subseteq> {None, Some 0, Some 1}" by (simp add: alone_run_def shared_run_def)
    then have "Some t \<notin> caller_of ` set alone_run" using False by auto
    from other_callers [OF h this] show ?thesis by (simp add: NewHub_def)
  qed
  have s: "sb_state (subs h i) \<noteq> Closing_watcher" for i
  proof (cases "i < 2")
    case True
    then show ?thesis using run h by (auto simp: less_2_cases_iff)
  next
    case False
    have "hub_ok h" using hub_reach_ok [OF r] by simp
    from hub_okD(4) [OF this, of i] show ?thesis using False run h by simp
  qed
  have "sw_open (shareds h 0) = Ready" "\<not> sw_closed (shareds h 0)" using run h by simp_all
  with hub_forgets_no_watcher [OF r t s this] h show ?thesis by blast
qed

end
