(* ===== verification/Plumb_Ignore.thy ===== *)
theory Plumb_Ignore
  imports Plumb_Glob
begin

text \<open>
  Ignore files (\<open>internal/ignore/ignore.go\<close>): the lines of \<open>.gitignore\<close> and \<open>.ignore\<close>, the
  stack of rules a walk carries down, and its verdict on an entry. Reading a file is the
  parameter \<open>read_text\<close>, which is \<open>None\<close> where \<open>os.Open\<close> fails.
\<close>

record ignore_pattern =
  ip_negate :: bool
  ip_dirOnly :: bool
  ip_rooted :: bool
  ip_hasSlash :: bool
  ip_glob :: string

definition trim_right :: "string \<Rightarrow> string \<Rightarrow> string" where
  "trim_right s cutset = rev (dropWhile (\<lambda>c. c \<in> set cutset) (rev s))"

definition parseLine :: "string \<Rightarrow> ignore_pattern option" where
  "parseLine raw =
     (let line = trim_right raw [CHR '' '', CHR 0x09] in
      if line = [] \<or> has_prefix line ''#'' then None
      else
        (let negate = has_prefix line ''!''; line = (if negate then drop 1 line else line);
             dirOnly = has_suffix line ''/''; line = (if dirOnly then trim_suffix line ''/'' else line);
             rooted = has_prefix line ''/''; line = (if rooted then drop 1 line else line) in
         Some \<lparr>ip_negate = negate, ip_dirOnly = dirOnly, ip_rooted = rooted,
               ip_hasSlash = (CHR ''/'' \<in> set line), ip_glob = line\<rparr>))"

definition matchesPath :: "ignore_pattern \<Rightarrow> string \<Rightarrow> bool \<Rightarrow> bool" where
  "matchesPath p relPath isDir =
     (if ip_dirOnly p \<and> \<not> isDir then False
      else if \<not> ip_hasSlash p \<and> \<not> ip_rooted p then DoubleStarMatch (ip_glob p) (path_base relPath)
      else DoubleStarMatch (ip_glob p) relPath)"

record ignore_set =
  set_dir :: string
  set_patterns :: "ignore_pattern list"

type_synonym stack = "ignore_set list"

text \<open>
  \<open>bufio.Scanner\<close> over lines: a line end may be preceded by a carriage return, nothing comes
  after the last line end, and a line that does not fit the buffer ends the scan.
\<close>

definition max_line :: int where
  "max_line = 65536"

definition drop_cr :: "string \<Rightarrow> string" where
  "drop_cr l = (if l \<noteq> [] \<and> last l = CHR 0x0D then butlast l else l)"

definition scan_text :: "string \<Rightarrow> string list" where
  "scan_text s =
     (let ls = split_on (CHR 0x0A) s; ls = (if last ls = [] then butlast ls else ls) in
      map drop_cr (takeWhile (\<lambda>l. int (length l) < max_line) ls))"

definition load_patterns :: "(string \<Rightarrow> string option) \<Rightarrow> string \<Rightarrow> ignore_pattern list" where
  "load_patterns read_text dir =
     concat (map (\<lambda>name. case read_text (Join dir name) of
                           None \<Rightarrow> []
                         | Some s \<Rightarrow> List.map_filter parseLine (scan_text s))
               [''.gitignore'', ''.ignore''])"

definition Load :: "(string \<Rightarrow> string option) \<Rightarrow> stack \<Rightarrow> string \<Rightarrow> stack" where
  "Load read_text st dir =
     (let patterns = load_patterns read_text dir in
      if patterns = [] then st else st @ [\<lparr>set_dir = dir, set_patterns = patterns\<rparr>])"

definition outside_rel :: "string \<Rightarrow> bool" where
  "outside_rel rel = (rel = ''.'' \<or> rel = ''..'' \<or> has_prefix rel ''../'')"

fun decide_patterns :: "ignore_pattern list \<Rightarrow> string \<Rightarrow> bool \<Rightarrow> bool \<times> bool \<Rightarrow> bool \<times> bool" where
  "decide_patterns [] rel isDir acc = acc"
| "decide_patterns (p # ps) rel isDir acc =
     decide_patterns ps rel isDir (if matchesPath p rel isDir then (\<not> ip_negate p, True) else acc)"

fun decide_loop :: "stack \<Rightarrow> string \<Rightarrow> bool \<Rightarrow> bool \<times> bool \<Rightarrow> bool \<times> bool" where
  "decide_loop [] absPath isDir acc = acc"
| "decide_loop (s # st) absPath isDir acc =
     decide_loop st absPath isDir
       (case Rel (set_dir s) absPath of
          None \<Rightarrow> acc
        | Some rel \<Rightarrow> if outside_rel rel then acc else decide_patterns (set_patterns s) rel isDir acc)"

text \<open>The verdict of the last rule that matches, and whether any did.\<close>

definition decide :: "stack \<Rightarrow> string \<Rightarrow> bool \<Rightarrow> bool \<times> bool" where
  "decide st absPath isDir = decide_loop st absPath isDir (False, False)"

fun join_each :: "string \<Rightarrow> string list \<Rightarrow> string list" where
  "join_each cur [] = []"
| "join_each cur (p # ps) = Join cur p # join_each (Join cur p) ps"

definition ancestorDirs :: "string \<Rightarrow> string \<Rightarrow> string list" where
  "ancestorDirs root absPath =
     (case Rel root absPath of
        None \<Rightarrow> []
      | Some rel \<Rightarrow>
          if outside_rel rel then []
          else (let parts = split_on (CHR ''/'') rel in
                if length parts < 2 then [] else join_each root (butlast parts)))"

definition IsIgnored :: "stack \<Rightarrow> string \<Rightarrow> bool \<Rightarrow> bool" where
  "IsIgnored st absPath isDir =
     (let (ignored, matched) = decide st absPath isDir in
      if ignored then True
      else if \<not> matched then False
      else list_ex (\<lambda>anc. fst (decide st anc True)) (ancestorDirs (set_dir (hd st)) absPath))"

end
