(* ===== verification/Plumb_Walk.thy ===== *)
theory Plumb_Walk
  imports Plumb_Ignore Plumb_Boundary
begin

text \<open>
  The walks that honour ignore files: the one of the tools (\<open>tools/walk.go\<close>), over a callback
  with a state; the resync of the index (\<open>topology/indexer_resync.go\<close>), which prunes in the same
  way; and the watcher (\<open>topology/watcher.go\<close>), which decides on single paths with a cache of
  stacks. A directory is the list of its entries in the order \<open>os.ReadDir\<close> returns them.
\<close>

datatype tree = Regular | Symlink | Directory "(string \<times> tree) list"

fun is_directory :: "tree \<Rightarrow> bool" where
  "is_directory (Directory es) = True"
| "is_directory _ = False"

section \<open>The walk of the tools\<close>

datatype fn_answer = Continue | SkipDir | Stop

record walk_options =
  wo_root :: string
  wo_maxDepth :: nat
  wo_includeHidden :: bool
  wo_respectIgnore :: bool
  wo_boundary :: "(string \<Rightarrow> bool) option"

text \<open>
  What the walk is given beside its options: how files are read, the file system that links are
  resolved in, whether the context is cancelled, and the callbacks.
\<close>

record 's walk_env =
  we_read :: "string \<Rightarrow> string option"
  we_files :: file_system
  we_cancelled :: "'s \<Rightarrow> bool"
  we_fn :: "string \<Rightarrow> bool \<Rightarrow> nat \<Rightarrow> 's \<Rightarrow> fn_answer \<times> 's"
  we_withheld :: "string \<Rightarrow> 's \<Rightarrow> 's"

definition gitDirName :: string where
  "gitDirName = ''.git''"

definition isHidden :: "string \<Rightarrow> bool" where
  "isHidden name = has_prefix name ''.''"

definition escapesBoundary :: "file_system \<Rightarrow> walk_options \<Rightarrow> string \<Rightarrow> tree \<Rightarrow> bool" where
  "escapesBoundary fs opts absPath t =
     (t = Symlink \<and>
      (case wo_boundary opts of
         Some allowed \<Rightarrow> \<not> allowed absPath
       | None \<Rightarrow> \<not> PathWithinWorkspace fs (wo_root opts) absPath))"

definition shouldVisitEntry :: "string \<Rightarrow> string \<Rightarrow> bool \<Rightarrow> walk_options \<Rightarrow> stack \<Rightarrow> bool" where
  "shouldVisitEntry name absPath isDir opts st =
     (if isDir \<and> name = gitDirName then False
      else if \<not> wo_includeHidden opts \<and> isHidden name then False
      else if wo_respectIgnore opts \<and> IsIgnored st absPath isDir then False
      else True)"

definition pastDepthLimit :: "walk_options \<Rightarrow> nat \<Rightarrow> bool" where
  "pastDepthLimit opts depth = (0 < wo_maxDepth opts \<and> wo_maxDepth opts \<le> depth)"

text \<open>
  The result of a walk says whether an error ended it, and the state it left. \<open>descend\<close> is the
  walk of the entry itself.
\<close>

definition walkSubdir :: "'s walk_env \<Rightarrow> walk_options \<Rightarrow> (string \<Rightarrow> nat \<Rightarrow> stack \<Rightarrow> 's \<Rightarrow> bool \<times> 's) \<Rightarrow>
    string \<Rightarrow> nat \<Rightarrow> stack \<Rightarrow> 's \<Rightarrow> bool \<times> 's" where
  "walkSubdir env opts descend absPath depth st s =
     (if pastDepthLimit opts depth then (False, s)
      else
        (case we_fn env absPath True depth s of
           (a, s1) \<Rightarrow>
             if a = SkipDir then (False, s1)
             else if pastDepthLimit opts (depth + 1) then (False, s1)
             else descend absPath (depth + 1) st s1))"

definition walk_entry :: "'s walk_env \<Rightarrow> walk_options \<Rightarrow> (string \<Rightarrow> nat \<Rightarrow> stack \<Rightarrow> 's \<Rightarrow> bool \<times> 's) \<Rightarrow>
    string \<Rightarrow> nat \<Rightarrow> stack \<Rightarrow> string \<Rightarrow> tree \<Rightarrow> 's \<Rightarrow> bool \<times> 's" where
  "walk_entry env opts descend dir depth st name t s =
     (let absPath = Join dir name in
      if \<not> shouldVisitEntry name absPath (is_directory t) opts st then (False, s)
      else if escapesBoundary (we_files env) opts absPath t then (False, we_withheld env absPath s)
      else if is_directory t then walkSubdir env opts descend absPath depth st s
      else (case we_fn env absPath False depth s of (a, s1) \<Rightarrow> (a \<noteq> Continue, s1)))"

fun walkDir :: "'s walk_env \<Rightarrow> walk_options \<Rightarrow> tree \<Rightarrow> string \<Rightarrow> nat \<Rightarrow> stack \<Rightarrow> 's \<Rightarrow> bool \<times> 's"
  and walk_entries :: "'s walk_env \<Rightarrow> walk_options \<Rightarrow> (string \<times> tree) list \<Rightarrow> string \<Rightarrow> nat \<Rightarrow> stack \<Rightarrow> 's \<Rightarrow> bool \<times> 's"
where
  "walkDir env opts (Directory es) dir depth st s =
     (if we_cancelled env s then (True, s)
      else walk_entries env opts es dir depth
             (if 0 < depth \<and> wo_respectIgnore opts then Load (we_read env) st dir else st) s)"
| "walkDir env opts Regular dir depth st s = (we_cancelled env s, s)"
| "walkDir env opts Symlink dir depth st s = (we_cancelled env s, s)"
| "walk_entries env opts [] dir depth st s = (False, s)"
| "walk_entries env opts ((name, t) # es) dir depth st s =
     (if we_cancelled env s then (True, s)
      else
        (case walk_entry env opts (walkDir env opts t) dir depth st name t s of
           (ended, s1) \<Rightarrow> if ended then (True, s1) else walk_entries env opts es dir depth st s1))"

definition walk :: "'s walk_env \<Rightarrow> walk_options \<Rightarrow> tree \<Rightarrow> 's \<Rightarrow> bool \<times> 's" where
  "walk env opts t s =
     walkDir env opts t (wo_root opts) 0 (if wo_respectIgnore opts then Load (we_read env) [] (wo_root opts) else []) s"

end
