(* ===== verification/Plumb_Watch.thy ===== *)
theory Plumb_Watch
  imports Plumb_Walk "HOL-Library.AList"
begin

text \<open>
  Which files the code index holds: the resync (\<open>topology/indexer_resync.go\<close>) walks the tree and
  prunes, the watcher (\<open>topology/watcher.go\<close>) rules on the path of each event, with a cache of
  the rules in force in every directory. What is then done with a file, and the pacing of the
  resync, are not modelled.
\<close>

definition shouldSkipDir :: "string \<Rightarrow> bool" where
  "shouldSkipDir name =
     ((1 < length name \<and> hd name = CHR ''.'') \<or>
      name \<in> set [''vendor'', ''node_modules'', ''testdata'', ''dist'', ''build'', ''__pycache__''])"

definition shouldSkipPath :: "string \<Rightarrow> bool" where
  "shouldSkipPath rel =
     (if rel = [] \<or> rel = ''.'' \<or> has_prefix rel ''..'' then True
      else list_ex (\<lambda>part. part \<noteq> [] \<and> shouldSkipDir part) (split_on (CHR ''/'') rel))"

section \<open>The resync\<close>

text \<open>What the indexer is given: its exclude patterns, and which directories are linked worktrees it leaves out.\<close>

record indexer =
  ix_read :: "string \<Rightarrow> string option"
  ix_exclude :: "string list"
  ix_worktrees :: bool
  ix_linked :: "string \<Rightarrow> string \<Rightarrow> bool"

text \<open>The directories below the root: the rules in force inside, or \<open>None\<close> for \<open>fs.SkipDir\<close>.\<close>

definition resyncEnterDir :: "indexer \<Rightarrow> string \<Rightarrow> string \<Rightarrow> string \<Rightarrow> stack \<Rightarrow> stack option" where
  "resyncEnterDir ix root path name parent =
     (if shouldSkipDir name then None
      else
        (case Rel root path of
           None \<Rightarrow> None
         | Some rel \<Rightarrow>
             if matchesExcludePattern (ix_exclude ix) rel then None
             else if IsIgnored parent path True then None
             else if \<not> ix_worktrees ix \<and> ix_linked ix root path then None
             else Some (Load (ix_read ix) parent path)))"

definition resyncSkipsFile :: "indexer \<Rightarrow> string \<Rightarrow> string \<Rightarrow> stack \<Rightarrow> bool" where
  "resyncSkipsFile ix path rel st = (matchesExcludePattern (ix_exclude ix) rel \<or> IsIgnored st path False)"

fun resync_dir :: "indexer \<Rightarrow> string \<Rightarrow> tree \<Rightarrow> string \<Rightarrow> stack \<Rightarrow> string list"
  and resync_entries :: "indexer \<Rightarrow> string \<Rightarrow> (string \<times> tree) list \<Rightarrow> string \<Rightarrow> stack \<Rightarrow> string list"
where
  "resync_dir ix root (Directory es) dir st = resync_entries ix root es dir st"
| "resync_dir ix root Regular dir st = []"
| "resync_dir ix root Symlink dir st = []"
| "resync_entries ix root [] dir st = []"
| "resync_entries ix root ((name, t) # es) dir st =
     (let path = Join dir name in
      (if is_directory t then
         (case resyncEnterDir ix root path name st of
            None \<Rightarrow> []
          | Some st' \<Rightarrow> resync_dir ix root t path st')
       else
         (case Rel root path of
            None \<Rightarrow> []
          | Some rel \<Rightarrow> if resyncSkipsFile ix path rel st then [] else [rel]))
      @ resync_entries ix root es dir st)"

text \<open>The files that are present, relative to the root.\<close>

definition processResync :: "indexer \<Rightarrow> string \<Rightarrow> tree \<Rightarrow> string list" where
  "processResync ix workspace t =
     (let root = Clean workspace in resync_dir ix root t root (Load (ix_read ix) [] root))"

section \<open>The watcher\<close>

record fs_watcher =
  fw_workspace :: string
  fw_exclude :: "string list"
  fw_cache :: "(string \<times> stack) list"

definition watcherIgnoreCacheMax :: int where
  "watcherIgnoreCacheMax = 4096"

definition isIgnoreFileName :: "string \<Rightarrow> bool" where
  "isIgnoreFileName base = (base = ''.gitignore'' \<or> base = ''.ignore'')"

definition storeStack :: "string \<Rightarrow> stack \<Rightarrow> (string \<times> stack) list \<Rightarrow> (string \<times> stack) list" where
  "storeStack dir st cache =
     AList.update dir st (if watcherIgnoreCacheMax \<le> int (length cache) then [] else cache)"

fun stack_loop :: "(string \<Rightarrow> string option) \<Rightarrow> string \<Rightarrow> string list \<Rightarrow> stack \<Rightarrow> (string \<times> stack) list \<Rightarrow>
    stack \<times> (string \<times> stack) list" where
  "stack_loop read_text cur [] st cache = (st, cache)"
| "stack_loop read_text cur (part # parts) st cache =
     (let cur = Join cur part in
      case map_of cache cur of
        Some cached \<Rightarrow> stack_loop read_text cur parts cached cache
      | None \<Rightarrow>
          (let st = Load read_text st cur in
           stack_loop read_text cur parts st (storeStack cur st cache)))"

definition stackFor :: "(string \<Rightarrow> string option) \<Rightarrow> string \<Rightarrow> string \<Rightarrow> (string \<times> stack) list \<Rightarrow>
    stack \<times> (string \<times> stack) list" where
  "stackFor read_text workspace dir cache =
     (case map_of cache dir of
        Some st \<Rightarrow> (st, cache)
      | None \<Rightarrow>
          (case Rel workspace dir of
             None \<Rightarrow> ([], cache)
           | Some rel \<Rightarrow>
               if rel = ''..'' \<or> has_prefix rel ''../'' then ([], cache)
               else
                 (let (st, cache) =
                        (case map_of cache workspace of
                           Some st \<Rightarrow> (st, cache)
                         | None \<Rightarrow> (let st = Load read_text [] workspace in (st, storeStack workspace st cache)))
                  in if rel = ''.'' then (st, cache)
                     else stack_loop read_text workspace (split_on (CHR ''/'') rel) st cache)))"

text \<open>\<open>lstat\<close> says whether the path is a directory, and is \<open>None\<close> where it is gone.\<close>

fun ignored_loop :: "(string \<Rightarrow> string option) \<Rightarrow> (string \<Rightarrow> bool option) \<Rightarrow> string \<Rightarrow> string \<Rightarrow> string list \<Rightarrow>
    (string \<times> stack) list \<Rightarrow> bool \<times> (string \<times> stack) list" where
  "ignored_loop read_text lstat workspace dir [] cache = (False, cache)"
| "ignored_loop read_text lstat workspace dir (part # parts) cache =
     (let child = Join dir part;
          isDir = (parts \<noteq> [] \<or> lstat child = Some True);
          (st, cache) = stackFor read_text workspace dir cache in
      if IsIgnored st child isDir then (True, cache)
      else ignored_loop read_text lstat workspace child parts cache)"

definition ignoredPath :: "(string \<Rightarrow> string option) \<Rightarrow> (string \<Rightarrow> bool option) \<Rightarrow> string \<Rightarrow> string \<Rightarrow>
    (string \<times> stack) list \<Rightarrow> bool \<times> (string \<times> stack) list" where
  "ignoredPath read_text lstat workspace absPath cache =
     (case Rel workspace absPath of
        None \<Rightarrow> (False, cache)
      | Some rel \<Rightarrow>
          if outside_rel rel then (False, cache)
          else ignored_loop read_text lstat workspace workspace (split_on (CHR ''/'') rel) cache)"

datatype index_action = No_action | Full_resync | Enqueue string

definition handle_event :: "(string \<Rightarrow> string option) \<Rightarrow> (string \<Rightarrow> bool option) \<Rightarrow> fs_watcher \<Rightarrow> string \<Rightarrow>
    index_action \<times> fs_watcher" where
  "handle_event read_text lstat fw path =
     (case Rel (fw_workspace fw) path of
        None \<Rightarrow> (No_action, fw)
      | Some rel \<Rightarrow>
          if isIgnoreFileName (path_base rel) then
            (let dir = path_dir rel in
             if dir = ''.'' \<or> \<not> shouldSkipPath dir then (Full_resync, fw\<lparr>fw_cache := []\<rparr>) else (No_action, fw))
          else if shouldSkipPath rel then (No_action, fw)
          else if matchesExcludePattern (fw_exclude fw) rel then (No_action, fw)
          else
            (let (ignored, cache) = ignoredPath read_text lstat (fw_workspace fw) path (fw_cache fw) in
             (if ignored then No_action else Enqueue rel, fw\<lparr>fw_cache := cache\<rparr>)))"

end
