(* ===== verification/Plumb_Ignore_Correct.thy ===== *)
theory Plumb_Ignore_Correct
  imports Plumb_Watch Plumb_Boundary_Correct
begin

text \<open>
  Ignore rules in a walk. \<open>excluded\<close> is the meaning: the last rule that matches, of the ignore
  files of the directories above the entry, outermost first. A walk that prunes asks for
  entries whose ancestors are not excluded, and there the verdict of the stack is that one.
\<close>

section \<open>Relative paths of rooted ones\<close>

lemma Rel_show:
  assumes "plains a" "plains b"
  shows "Rel (show_path a) (show_path b) = (if a = b then Some ''.'' else map_option (join_with ''/'') (rel_elements a b))"
proof (cases "a = b")
  case True
  then show ?thesis using assms by (simp add: Rel_def)
next
  case False
  then have "show_path a \<noteq> show_path b" "show_path a \<noteq> ''.''" using assms by (simp_all add: show_path_inject) (simp add: show_path_def)
  with False assms show ?thesis by (simp add: Rel_def Let_def)
qed

lemma Rel_below: "plains a \<Longrightarrow> plains b \<Longrightarrow> b \<noteq> [] \<Longrightarrow> Rel (show_path a) (show_path (a @ b)) = Some (join_with ''/'' b)"
  by (simp add: Rel_show rel_elements_prefix)

lemma join_plain_inside: "plains b \<Longrightarrow> b \<noteq> [] \<Longrightarrow> \<not> outside_rel (join_with ''/'' b)"
proof -
  assume b: "plains b" "b \<noteq> []"
  then obtain c us where c: "b = c # us" "plain c" by (cases b) auto
  have "join_with ''/'' (c # us) \<noteq> ''.''"
    using c(2) by (cases us; cases c; cases "tl c") (auto simp: plain_def)
  with c join_down [of c us] show ?thesis by (simp add: outside_rel_def)
qed

lemma strict_prefix_append: "strict_prefix a b \<longleftrightarrow> (\<exists>c. c \<noteq> [] \<and> b = a @ c)"
  by (auto simp: strict_prefix_def prefix_def)

lemma rel_case:
  assumes "plains a" "plains b"
  shows "(case Rel (show_path a) (show_path b) of None \<Rightarrow> acc | Some rel \<Rightarrow> if outside_rel rel then acc else f rel) =
    (if strict_prefix a b then f (join_with ''/'' (drop (length a) b)) else acc)"
proof (cases "strict_prefix a b")
  case True
  then obtain c where c: "c \<noteq> []" "b = a @ c" by (auto simp: strict_prefix_append)
  with assms join_plain_inside [of c] show ?thesis by (simp add: Rel_below True [unfolded c(2)])
next
  case False
  show ?thesis
  proof (cases "a = b")
    case True
    with assms False show ?thesis by (simp add: Rel_show outside_rel_def)
  next
    case ne: False
    with False have np: "\<not> prefix a b" by (simp add: strict_prefix_def)
    have "''..'' \<notin> set a" using assms(1) by (auto simp: list_all_iff plain_def)
    from rel_elements_up [OF this np] obtain us where "rel_elements a b = Some (''..'' # us)" ..
    then show ?thesis using assms ne False join_up [of us] by (simp add: Rel_show outside_rel_def del: join_with.simps)
  qed
qed

section \<open>The rules in force\<close>

fun stack_below :: "(string \<Rightarrow> string option) \<Rightarrow> string list \<Rightarrow> string list \<Rightarrow> stack \<Rightarrow> stack" where
  "stack_below rd cur [] st = st"
| "stack_below rd cur (c # cs) st = stack_below rd (cur @ [c]) cs (Load rd st (show_path (cur @ [c])))"

definition stack_at :: "(string \<Rightarrow> string option) \<Rightarrow> string list \<Rightarrow> string list \<Rightarrow> stack" where
  "stack_at rd r d = stack_below rd r d (Load rd [] (show_path r))"

definition excluded :: "(string \<Rightarrow> string option) \<Rightarrow> string list \<Rightarrow> string list \<Rightarrow> bool \<Rightarrow> bool" where
  "excluded rd r p isDir = fst (decide (stack_at rd r (butlast p)) (show_path (r @ p)) isDir)"

lemma stack_below_snoc: "stack_below rd cur (cs @ [c]) st = Load rd (stack_below rd cur cs st) (show_path (cur @ cs @ [c]))"
  by (induction cs arbitrary: cur st) auto

lemma stack_at_Nil [simp]: "stack_at rd r [] = Load rd [] (show_path r)"
  by (simp add: stack_at_def)

lemma stack_at_snoc: "stack_at rd r (d @ [c]) = Load rd (stack_at rd r d) (show_path (r @ d @ [c]))"
  by (simp add: stack_at_def stack_below_snoc)

lemma Load_dirs: "s \<in> set (Load rd st dir) \<Longrightarrow> s \<in> set st \<or> set_dir s = dir"
  by (auto simp: Load_def Let_def split: if_splits)

lemma stack_at_dirs: "s \<in> set (stack_at rd r d) \<Longrightarrow> \<exists>e. prefix e d \<and> set_dir s = show_path (r @ e)"
proof (induction d rule: rev_induct)
  case Nil
  then have "set_dir s = show_path r" using Load_dirs [of s rd "[]"] by simp
  then show ?case by (intro exI [of _ "[]"]) simp
next
  case (snoc c d)
  from snoc.prems consider "s \<in> set (stack_at rd r d)" | "set_dir s = show_path (r @ d @ [c])"
    by (auto simp: stack_at_snoc dest: Load_dirs)
  then show ?case
  proof cases
    case 1
    then obtain e where "prefix e d" "set_dir s = show_path (r @ e)" using snoc.IH by blast
    then show ?thesis by (intro exI [of _ e]) (simp add: prefix_prefix)
  next
    case 2
    then show ?thesis by (intro exI [of _ "d @ [c]"]) simp
  qed
qed

lemma decide_loop_append: "decide_loop (st @ st') p isDir acc = decide_loop st' p isDir (decide_loop st p isDir acc)"
  by (induction st arbitrary: acc) auto

lemma decide_Load:
  assumes "plains d" "plains p" "\<not> strict_prefix d p"
  shows "decide (Load rd st (show_path d)) (show_path p) isDir = decide st (show_path p) isDir"
  using rel_case [OF assms(1,2)] assms(3) by (auto simp: decide_def Load_def Let_def decide_loop_append)

text \<open>Ignore files of the entry itself or further down have no say on an entry.\<close>

lemma decide_deeper:
  assumes "plains r" "plains d" "plains q" "prefix (butlast q) d"
  shows "decide (stack_at rd r d) (show_path (r @ q)) isDir = decide (stack_at rd r (butlast q)) (show_path (r @ q)) isDir"
  using assms(2,4)
proof (induction d rule: rev_induct)
  case (snoc c d)
  show ?case
  proof (cases "butlast q = d @ [c]")
    case False
    with snoc.prems have pre: "prefix (butlast q) d" by (auto simp: prefix_snoc)
    then have "length (butlast q) \<le> length d" by (rule prefix_length_le)
    then have "\<not> strict_prefix (r @ d @ [c]) (r @ q)" by (auto simp: strict_prefix_append)
    with snoc pre assms show ?thesis by (simp add: stack_at_snoc decide_Load)
  qed simp
qed simp

lemma excluded_deeper:
  "plains r \<Longrightarrow> plains d \<Longrightarrow> plains q \<Longrightarrow> prefix (butlast q) d \<Longrightarrow>
   fst (decide (stack_at rd r d) (show_path (r @ q)) isDir) = excluded rd r q isDir"
  by (simp add: excluded_def decide_deeper)

lemma join_each_plain:
  "plains cur \<Longrightarrow> plains ps \<Longrightarrow> x \<in> set (join_each (show_path cur) ps) \<Longrightarrow>
   \<exists>as bs. as \<noteq> [] \<and> ps = as @ bs \<and> x = show_path (cur @ as)"
proof (induction ps arbitrary: cur)
  case (Cons p ps)
  then consider "x = show_path (cur @ [p])" | "x \<in> set (join_each (show_path (cur @ [p])) ps)"
    by (auto simp: Join_show)
  then show ?case
  proof cases
    case 1
    then show ?thesis by (intro exI [of _ "[p]"] exI [of _ ps]) simp
  next
    case 2
    with Cons.IH [of "cur @ [p]"] Cons.prems obtain as bs where "as \<noteq> []" "ps = as @ bs" "x = show_path ((cur @ [p]) @ as)" by auto
    then show ?thesis by (intro exI [of _ "p # as"] exI [of _ bs]) simp
  qed
qed simp

lemma ancestorDirs_plain:
  assumes "plains a" "plains b" "x \<in> set (ancestorDirs (show_path a) (show_path (a @ b)))"
  shows "\<exists>e f. e \<noteq> [] \<and> f \<noteq> [] \<and> b = e @ f \<and> x = show_path (a @ e)"
proof -
  have "b \<noteq> []"
  proof
    assume "b = []"
    with assms show False by (simp add: ancestorDirs_def Rel_show outside_rel_def)
  qed
  then have "Rel (show_path a) (show_path (a @ b)) = Some (join_with ''/'' b)" "\<not> outside_rel (join_with ''/'' b)"
    using assms by (simp_all add: Rel_below join_plain_inside)
  moreover have "split_on (CHR ''/'') (join_with ''/'' b) = b" using assms(2) \<open>b \<noteq> []\<close> by (rule split_join_plain)
  ultimately have "x \<in> set (join_each (show_path a) (butlast b))"
    using assms(3) by (auto simp: ancestorDirs_def Let_def split: if_splits)
  moreover have "plains (butlast b)" using assms(2) by (auto simp: list_all_iff dest: in_set_butlastD)
  ultimately obtain e f where e: "e \<noteq> []" "butlast b = e @ f" "x = show_path (a @ e)"
    using join_each_plain [OF assms(1)] by blast
  with \<open>b \<noteq> []\<close> have "b = e @ f @ [last b]" by (metis append.assoc append_butlast_last_id)
  with e show ?thesis by (intro exI [of _ e] exI [of _ "f @ [last b]"]) simp
qed

text \<open>In a walk that prunes, the scan of the ancestors finds nothing: the verdict is the meaning.\<close>

lemma IsIgnored_pruned:
  assumes "plains r" "plains p" "p \<noteq> []"
    and above: "\<And>q. q \<noteq> [] \<Longrightarrow> strict_prefix q p \<Longrightarrow> \<not> excluded rd r q True"
  shows "IsIgnored (stack_at rd r (butlast p)) (show_path (r @ p)) isDir = excluded rd r p isDir"
proof -
  let ?st = "stack_at rd r (butlast p)"
  have plb: "plains (butlast p)" using assms(2) by (auto simp: list_all_iff dest: in_set_butlastD)
  have none: "\<not> list_ex (\<lambda>anc. fst (decide ?st anc True)) (ancestorDirs (set_dir (hd ?st)) (show_path (r @ p)))" if "?st \<noteq> []"
  proof -
    have "hd ?st \<in> set ?st" using that by simp
    from stack_at_dirs [OF this] obtain d where d: "prefix d (butlast p)" "set_dir (hd ?st) = show_path (r @ d)"
      by blast
    then obtain f where f: "p = d @ f" using prefixeq_butlast [of p] by (metis prefixE append.assoc)
    have pl: "plains (r @ d)" "plains f" using assms(1,2) f by auto
    show ?thesis
      unfolding list_ex_iff d(2)
    proof (intro notI, elim bexE)
      fix x
      assume "x \<in> set (ancestorDirs (show_path (r @ d)) (show_path (r @ p)))" and x: "fst (decide ?st x True)"
      then obtain e g where e: "e \<noteq> []" "g \<noteq> []" "f = e @ g" "x = show_path ((r @ d) @ e)"
        using ancestorDirs_plain [OF pl, of x] f by (metis append.assoc)
      have sp: "strict_prefix (d @ e) p" using e f by (simp add: strict_prefix_append)
      have "prefix (butlast (d @ e)) (butlast p)"
        using e f by (simp add: butlast_append) (meson prefixeq_butlast prefix_prefix)
      moreover have "plains (d @ e)" using assms(2) e f by auto
      ultimately have "excluded rd r (d @ e) True"
        using excluded_deeper [OF assms(1) plb, of "d @ e" rd True] x e by simp
      with above [OF _ sp] e show False by simp
    qed
  qed
  have "snd (decide ?st (show_path (r @ p)) isDir) \<Longrightarrow> ?st \<noteq> []" by (auto simp: decide_def)
  with none show ?thesis
    unfolding IsIgnored_def excluded_def by (cases "decide ?st (show_path (r @ p)) isDir") auto
qed

section \<open>What the walk of the tools visits\<close>

fun tree_paths :: "string list \<Rightarrow> tree \<Rightarrow> (string list \<times> tree) list"
  and entry_paths :: "string list \<Rightarrow> (string \<times> tree) list \<Rightarrow> (string list \<times> tree) list"
where
  "tree_paths d (Directory es) = entry_paths d es"
| "tree_paths d Regular = []"
| "tree_paths d Symlink = []"
| "entry_paths d [] = []"
| "entry_paths d ((name, t) # es) = (d @ [name], t) # tree_paths (d @ [name]) t @ entry_paths d es"

fun tree_plain :: "tree \<Rightarrow> bool"
  and entries_plain :: "(string \<times> tree) list \<Rightarrow> bool"
where
  "tree_plain (Directory es) = entries_plain es"
| "tree_plain Regular = True"
| "tree_plain Symlink = True"
| "entries_plain [] = True"
| "entries_plain ((name, t) # es) = (plain name \<and> tree_plain t \<and> entries_plain es)"

text \<open>
  The meaning of a walk: an entry passes if its name and the rules let it, and is reached if
  all its ancestors pass and it is not too deep.
\<close>

definition passes :: "walk_options \<Rightarrow> (string \<Rightarrow> string option) \<Rightarrow> string list \<Rightarrow> string list \<Rightarrow> bool \<Rightarrow> bool" where
  "passes opts rd r p isDir =
     (\<not> (isDir \<and> last p = gitDirName) \<and> (wo_includeHidden opts \<or> \<not> isHidden (last p)) \<and>
      (wo_respectIgnore opts \<longrightarrow> \<not> excluded rd r p isDir))"

definition reached :: "walk_options \<Rightarrow> (string \<Rightarrow> string option) \<Rightarrow> string list \<Rightarrow> string list \<Rightarrow> bool" where
  "reached opts rd r p =
     ((wo_maxDepth opts = 0 \<or> length p \<le> wo_maxDepth opts) \<and>
      (\<forall>k < length p. 0 < k \<longrightarrow> passes opts rd r (take k p) True))"

definition visible :: "walk_options \<Rightarrow> (string \<Rightarrow> string option) \<Rightarrow> file_system \<Rightarrow> string list \<Rightarrow> string list \<times> tree \<Rightarrow> bool" where
  "visible opts rd fs r =
     (\<lambda>(p, t). reached opts rd r p \<and> passes opts rd r p (is_directory t) \<and> \<not> escapesBoundary fs opts (show_path (r @ p)) t)"

definition withheld :: "walk_options \<Rightarrow> (string \<Rightarrow> string option) \<Rightarrow> file_system \<Rightarrow> string list \<Rightarrow> string list \<times> tree \<Rightarrow> bool" where
  "withheld opts rd fs r =
     (\<lambda>(p, t). reached opts rd r p \<and> passes opts rd r p (is_directory t) \<and> escapesBoundary fs opts (show_path (r @ p)) t)"

text \<open>A walk that goes on everywhere and records what it visits and what it withholds.\<close>

definition recorder :: "(string \<Rightarrow> string option) \<Rightarrow> file_system \<Rightarrow> (string list \<times> string list) walk_env" where
  "recorder rd fs =
     \<lparr>we_read = rd, we_files = fs, we_cancelled = (\<lambda>_. False),
      we_fn = (\<lambda>p isDir depth (vs, ws). (Continue, (vs @ [p], ws))),
      we_withheld = (\<lambda>p (vs, ws). (vs, ws @ [p]))\<rparr>"

definition in_force :: "walk_options \<Rightarrow> (string \<Rightarrow> string option) \<Rightarrow> string list \<Rightarrow> string list \<Rightarrow> stack" where
  "in_force opts rd r d = (if wo_respectIgnore opts then stack_at rd r d else [])"

lemma strict_prefix_take: "strict_prefix q p \<longleftrightarrow> (\<exists>k < length p. q = take k p)"
  by (metis append_eq_conv_conj prefix_def prefix_length_less strict_prefix_def take_is_prefix length_take min.absorb4 nat_neq_iff)

lemma reached_above:
  assumes "reached opts rd r p" "wo_respectIgnore opts" "q \<noteq> []" "strict_prefix q p"
  shows "\<not> excluded rd r q True"
proof -
  from assms(4) obtain k where k: "k < length p" "q = take k p" by (auto simp: strict_prefix_take)
  with assms have "passes opts rd r q True" by (cases k) (auto simp: reached_def)
  with assms(2) show ?thesis by (simp add: passes_def)
qed

lemma visit_entry:
  assumes "plains r" "plains d" "plain name" "reached opts rd r (d @ [name])"
  shows "shouldVisitEntry name (show_path (r @ d @ [name])) isDir opts (in_force opts rd r d) = passes opts rd r (d @ [name]) isDir"
proof -
  have "IsIgnored (stack_at rd r d) (show_path (r @ d @ [name])) isDir = excluded rd r (d @ [name]) isDir" if "wo_respectIgnore opts"
    using IsIgnored_pruned [of r "d @ [name]" rd isDir] reached_above [OF assms(4) that] assms by simp
  then show ?thesis by (auto simp: shouldVisitEntry_def passes_def in_force_def)
qed

definition all_pass :: "walk_options \<Rightarrow> (string \<Rightarrow> string option) \<Rightarrow> string list \<Rightarrow> string list \<Rightarrow> bool" where
  "all_pass opts rd r d = (\<forall>k. 0 < k \<and> k \<le> length d \<longrightarrow> passes opts rd r (take k d) True)"

lemma all_pass_Nil [simp]: "all_pass opts rd r []"
  by (simp add: all_pass_def)

lemma all_pass_snoc: "all_pass opts rd r (d @ [c]) \<longleftrightarrow> all_pass opts rd r d \<and> passes opts rd r (d @ [c]) True"
  by (auto simp: all_pass_def le_Suc_eq)

lemma reached_snoc:
  "reached opts rd r (d @ [name]) \<longleftrightarrow> (wo_maxDepth opts = 0 \<or> length d < wo_maxDepth opts) \<and> all_pass opts rd r d"
  by (auto simp: reached_def all_pass_def less_Suc_eq_le)

lemma paths_below:
  "(p, u) \<in> set (tree_paths d t) \<Longrightarrow> strict_prefix d p"
  "(p, u) \<in> set (entry_paths d es) \<Longrightarrow> strict_prefix d p"
proof (induction d t and d es rule: tree_paths_entry_paths.induct)
  case (5 d name t es)
  then show ?case by (auto simp: strict_prefix_append)
qed auto

lemma not_reached:
  assumes "(p, u) \<in> set (tree_paths d t)" "\<not> all_pass opts rd r d \<or> (wo_maxDepth opts \<noteq> 0 \<and> wo_maxDepth opts \<le> length d)"
  shows "\<not> reached opts rd r p"
proof -
  from paths_below(1) [OF assms(1)] obtain c where c: "c \<noteq> []" "p = d @ c" by (auto simp: strict_prefix_append)
  then have len: "length d < length p" by (cases c) auto
  from assms(2) show ?thesis
  proof
    assume "\<not> all_pass opts rd r d"
    then obtain k where "0 < k" "k \<le> length d" "\<not> passes opts rd r (take k d) True" by (auto simp: all_pass_def)
    moreover from this len have "k < length p" by simp
    moreover have "take k p = take k d" using c calculation(2) by simp
    ultimately show ?thesis by (auto simp: reached_def)
  qed (use len in \<open>auto simp: reached_def\<close>)
qed

lemma not_reached_filter:
  assumes "\<not> all_pass opts rd r d \<or> (wo_maxDepth opts \<noteq> 0 \<and> wo_maxDepth opts \<le> length d)"
  shows "filter (visible opts rd fs r) (tree_paths d t) = []" "filter (withheld opts rd fs r) (tree_paths d t) = []"
  using not_reached [OF _ assms] by (auto simp: visible_def withheld_def filter_empty_conv)

abbreviation shown :: "string list \<Rightarrow> (string list \<times> tree) list \<Rightarrow> string list" where
  "shown r \<equiv> map (\<lambda>(p, t). show_path (r @ p))"

definition recorded_walk :: "walk_options \<Rightarrow> (string \<Rightarrow> string option) \<Rightarrow> file_system \<Rightarrow> string list \<Rightarrow>
    (string list \<times> tree) list \<Rightarrow> string list \<times> string list \<Rightarrow> bool \<times> string list \<times> string list" where
  "recorded_walk opts rd fs r ps s =
     (False, fst s @ shown r (filter (visible opts rd fs r) ps), snd s @ shown r (filter (withheld opts rd fs r) ps))"

lemma recorded_walk_Nil: "filter (visible opts rd fs r) ps = [] \<Longrightarrow> filter (withheld opts rd fs r) ps = [] \<Longrightarrow>
  recorded_walk opts rd fs r ps s = (False, s)"
  by (simp add: recorded_walk_def)

lemma recorded_walk_append:
  "recorded_walk opts rd fs r (ps @ qs) s = recorded_walk opts rd fs r qs (snd (recorded_walk opts rd fs r ps s))"
  by (simp add: recorded_walk_def)

lemma walk_entry_recorded:
  assumes "plains r" "plains d" "plain name" "all_pass opts rd r d" "wo_maxDepth opts = 0 \<or> length d < wo_maxDepth opts"
    and sub: "\<And>s. is_directory t \<Longrightarrow> all_pass opts rd r (d @ [name]) \<Longrightarrow>
      wo_maxDepth opts = 0 \<or> length (d @ [name]) < wo_maxDepth opts \<Longrightarrow>
      descend (show_path (r @ d @ [name])) (length (d @ [name])) (in_force opts rd r d) s =
        recorded_walk opts rd fs r (tree_paths (d @ [name]) t) s"
  shows "walk_entry (recorder rd fs) opts descend (show_path (r @ d)) (length d) (in_force opts rd r d) name t s =
    recorded_walk opts rd fs r ((d @ [name], t) # tree_paths (d @ [name]) t) s"
proof -
  let ?p = "d @ [name]"
  have reached: "reached opts rd r ?p" using assms(4,5) by (simp add: reached_snoc)
  have join: "Join (show_path (r @ d)) name = show_path (r @ ?p)" using assms(1-3) by (simp add: Join_show)
  note vis = visit_entry [OF assms(1-3) reached]
  have leaf: "\<not> is_directory t \<Longrightarrow> tree_paths ?p t = []" by (cases t) auto
  have esc: "escapesBoundary fs opts q t \<Longrightarrow> \<not> is_directory t" for q by (auto simp: escapesBoundary_def)
  consider "\<not> passes opts rd r ?p (is_directory t)"
    | "passes opts rd r ?p (is_directory t)" "escapesBoundary fs opts (show_path (r @ ?p)) t"
    | "passes opts rd r ?p (is_directory t)" "\<not> escapesBoundary fs opts (show_path (r @ ?p)) t" "\<not> is_directory t"
    | "passes opts rd r ?p True" "\<not> escapesBoundary fs opts (show_path (r @ ?p)) t" "is_directory t"
    by (cases "is_directory t") auto
  then show ?thesis
  proof cases
    case 1
    have "filter (visible opts rd fs r) (tree_paths ?p t) = [] \<and> filter (withheld opts rd fs r) (tree_paths ?p t) = []"
    proof (cases "is_directory t")
      case True
      with 1 have "\<not> all_pass opts rd r ?p" by (simp add: all_pass_snoc)
      then show ?thesis by (simp add: not_reached_filter)
    qed (simp add: leaf)
    with 1 vis join show ?thesis
      by (subst recorded_walk_Nil) (auto simp: visible_def withheld_def walk_entry_def)
  next
    case 2
    with vis join reached leaf [OF esc [OF 2(2)]] show ?thesis
      by (cases s) (simp add: walk_entry_def recorder_def recorded_walk_def visible_def withheld_def)
  next
    case 3
    with vis join reached leaf [OF 3(3)] show ?thesis
      by (cases s) (simp add: walk_entry_def recorder_def recorded_walk_def visible_def withheld_def)
  next
    case 4
    have np: "\<not> pastDepthLimit opts (length d)" using assms(5) by (auto simp: pastDepthLimit_def)
    have ap: "all_pass opts rd r ?p" using assms(4) 4(1) by (simp add: all_pass_snoc)
    obtain vs ws where s: "s = (vs, ws)" by fastforce
    have here: "recorded_walk opts rd fs r [(?p, t)] s = (False, vs @ [show_path (r @ ?p)], ws)"
      using 4 reached s by (simp add: recorded_walk_def visible_def withheld_def)
    have step: "walk_entry (recorder rd fs) opts descend (show_path (r @ d)) (length d) (in_force opts rd r d) name t s =
        (if pastDepthLimit opts (length d + 1) then (False, vs @ [show_path (r @ ?p)], ws)
         else descend (show_path (r @ ?p)) (length d + 1) (in_force opts rd r d) (vs @ [show_path (r @ ?p)], ws))"
      using 4 vis join np s by (simp add: walk_entry_def walkSubdir_def recorder_def Let_def)
    show ?thesis
    proof (cases "pastDepthLimit opts (length d + 1)")
      case True
      then have "\<not> all_pass opts rd r ?p \<or> (wo_maxDepth opts \<noteq> 0 \<and> wo_maxDepth opts \<le> length ?p)"
        by (auto simp: pastDepthLimit_def)
      note none = not_reached_filter [OF this]
      have "recorded_walk opts rd fs r ((?p, t) # tree_paths ?p t) s = recorded_walk opts rd fs r [(?p, t)] s"
        by (simp add: recorded_walk_def none)
      with step True here show ?thesis by simp
    next
      case False
      then have "wo_maxDepth opts = 0 \<or> length ?p < wo_maxDepth opts" by (auto simp: pastDepthLimit_def)
      with step False sub [OF 4(3) ap this] recorded_walk_append [of opts rd fs r "[(?p, t)]" "tree_paths ?p t" s] here
      show ?thesis by simp
    qed
  qed
qed

lemma recorder_simps: "we_cancelled (recorder rd fs) s = False" "we_read (recorder rd fs) = rd"
  by (simp_all add: recorder_def)

lemma walk_recorded:
  "plains r \<Longrightarrow> plains d \<Longrightarrow> tree_plain t \<Longrightarrow> all_pass opts rd r d \<Longrightarrow> wo_maxDepth opts = 0 \<or> length d < wo_maxDepth opts \<Longrightarrow>
   is_directory t \<Longrightarrow>
   walkDir (recorder rd fs) opts t (show_path (r @ d)) (length d) (in_force opts rd r (butlast d)) s =
     recorded_walk opts rd fs r (tree_paths d t) s"
  "plains r \<Longrightarrow> plains d \<Longrightarrow> entries_plain es \<Longrightarrow> all_pass opts rd r d \<Longrightarrow> wo_maxDepth opts = 0 \<or> length d < wo_maxDepth opts \<Longrightarrow>
   walk_entries (recorder rd fs) opts es (show_path (r @ d)) (length d) (in_force opts rd r d) s =
     recorded_walk opts rd fs r (entry_paths d es) s"
proof (induction d t and d es arbitrary: s and s rule: tree_paths_entry_paths.induct)
  case (1 d es)
  have "(if 0 < length d \<and> wo_respectIgnore opts then Load rd (in_force opts rd r (butlast d)) (show_path (r @ d))
      else in_force opts rd r (butlast d)) = in_force opts rd r d"
    by (cases d rule: rev_cases) (auto simp: in_force_def stack_at_snoc)
  then have "walkDir (recorder rd fs) opts (Directory es) (show_path (r @ d)) (length d) (in_force opts rd r (butlast d)) s =
      walk_entries (recorder rd fs) opts es (show_path (r @ d)) (length d) (in_force opts rd r d) s"
    unfolding walkDir.simps by (simp only: recorder_simps if_False)
  with 1 show ?case by simp
next
  case (4 d)
  then show ?case by (simp add: recorded_walk_def)
next
  case (5 d name t es)
  have e: "walk_entry (recorder rd fs) opts (walkDir (recorder rd fs) opts t) (show_path (r @ d)) (length d) (in_force opts rd r d) name t s =
      recorded_walk opts rd fs r ((d @ [name], t) # tree_paths (d @ [name]) t) s"
  proof (rule walk_entry_recorded)
    fix s
    assume "is_directory t" "all_pass opts rd r (d @ [name])" "wo_maxDepth opts = 0 \<or> length (d @ [name]) < wo_maxDepth opts"
    then show "walkDir (recorder rd fs) opts t (show_path (r @ d @ [name])) (length (d @ [name])) (in_force opts rd r d) s =
        recorded_walk opts rd fs r (tree_paths (d @ [name]) t) s"
      using "5.IH"(1) [of s] "5.prems" by simp
  qed (use "5.prems" in auto)
  have "walk_entries (recorder rd fs) opts ((name, t) # es) (show_path (r @ d)) (length d) (in_force opts rd r d) s =
      walk_entries (recorder rd fs) opts es (show_path (r @ d)) (length d) (in_force opts rd r d)
        (snd (recorded_walk opts rd fs r ((d @ [name], t) # tree_paths (d @ [name]) t) s))"
    by (simp add: recorder_simps e) (simp add: recorded_walk_def)
  also have "\<dots> = recorded_walk opts rd fs r (entry_paths d ((name, t) # es)) s"
    using "5.IH"(2) "5.prems" recorded_walk_append [of opts rd fs r "(d @ [name], t) # tree_paths (d @ [name]) t" "entry_paths d es" s]
    by simp
  finally show ?case .
qed simp_all

text \<open>
  C15. The walk of the tools visits, in order, exactly the entries that the ignore rules, the
  hidden-file policy and the depth leave, whose directories are left too, and that are no link
  out of the boundary; the links it withholds are the others of these entries.
\<close>

theorem walk_visits_visible:
  assumes "plains r" "tree_plain (Directory es)" "wo_root opts = show_path r"
  shows "walk (recorder rd fs) opts (Directory es) ([], []) =
    (False, shown r (filter (visible opts rd fs r) (entry_paths [] es)),
       shown r (filter (withheld opts rd fs r) (entry_paths [] es)))"
proof -
  have "wo_maxDepth opts = 0 \<or> length ([] :: string list) < wo_maxDepth opts" by auto
  from walk_recorded(1) [of r "[]" "Directory es" opts rd fs "([], [])", OF assms(1) _ assms(2) _ this]
  have "walkDir (recorder rd fs) opts (Directory es) (show_path r) 0 (in_force opts rd r []) ([], []) =
      recorded_walk opts rd fs r (entry_paths [] es) ([], [])" by simp
  then show ?thesis
    using assms(3) by (simp add: walk_def recorder_simps in_force_def recorded_walk_def del: walkDir.simps split: if_splits)
qed

definition demo_text :: "string \<Rightarrow> string option" where
  "demo_text p =
     (if p = ''/w/.gitignore'' then Some (''build/'' @ [CHR 0x0A] @ ''*.log'' @ [CHR 0x0D, CHR 0x0A])
      else if p = ''/w/src/.ignore'' then Some ''!keep.log''
      else None)"

definition demo_tree :: "(string \<times> tree) list" where
  "demo_tree =
     [(''.git'', Directory [(''HEAD'', Regular)]), (''.gitignore'', Regular), (''a.log'', Regular),
      (''build'', Directory [(''x.go'', Regular)]), (''out'', Symlink),
      (''src'', Directory [(''keep.log'', Regular), (''m.go'', Regular), (''o.log'', Regular)])]"

definition demo_options :: walk_options where
  "demo_options =
     \<lparr>wo_root = ''/w'', wo_maxDepth = 0, wo_includeHidden = True, wo_respectIgnore = True,
      wo_boundary = Some (\<lambda>p. p \<noteq> ''/w/out'')\<rparr>"

theorem walk_visits_visible_witness:
  "walk (recorder demo_text (\<lambda>_. None)) demo_options (Directory demo_tree) ([], []) =
    (False, shown [''w''] (filter (visible demo_options demo_text (\<lambda>_. None) [''w'']) (entry_paths [] demo_tree)),
       shown [''w''] (filter (withheld demo_options demo_text (\<lambda>_. None) [''w'']) (entry_paths [] demo_tree))) \<and>
   excluded demo_text [''w''] [''build''] True \<and> excluded demo_text [''w''] [''src'', ''o.log''] False \<and>
   \<not> excluded demo_text [''w''] [''src'', ''keep.log''] False"
proof (intro conjI)
  show "walk (recorder demo_text (\<lambda>_. None)) demo_options (Directory demo_tree) ([], []) =
    (False, shown [''w''] (filter (visible demo_options demo_text (\<lambda>_. None) [''w'']) (entry_paths [] demo_tree)),
       shown [''w''] (filter (withheld demo_options demo_text (\<lambda>_. None) [''w'']) (entry_paths [] demo_tree)))"
    by (rule walk_visits_visible) code_simp+
qed code_simp+

section \<open>What the index holds\<close>

definition kept_dir :: "indexer \<Rightarrow> string list \<Rightarrow> string list \<Rightarrow> bool" where
  "kept_dir ix r p =
     (\<not> shouldSkipDir (last p) \<and> \<not> matchesExcludePattern (ix_exclude ix) (join_with ''/'' p) \<and>
      \<not> excluded (ix_read ix) r p True \<and> (ix_worktrees ix \<or> \<not> ix_linked ix (show_path r) (show_path (r @ p))))"

definition above_kept :: "indexer \<Rightarrow> string list \<Rightarrow> string list \<Rightarrow> bool" where
  "above_kept ix r d = (\<forall>k. 0 < k \<and> k \<le> length d \<longrightarrow> kept_dir ix r (take k d))"

definition indexed :: "indexer \<Rightarrow> string list \<Rightarrow> string list \<Rightarrow> bool" where
  "indexed ix r p =
     (above_kept ix r (butlast p) \<and> \<not> matchesExcludePattern (ix_exclude ix) (join_with ''/'' p) \<and>
      \<not> excluded (ix_read ix) r p False)"

lemma above_kept_Nil [simp]: "above_kept ix r []"
  by (simp add: above_kept_def)

lemma above_kept_snoc: "above_kept ix r (d @ [c]) \<longleftrightarrow> above_kept ix r d \<and> kept_dir ix r (d @ [c])"
  by (auto simp: above_kept_def le_Suc_eq)

lemma above_kept_excluded:
  assumes "above_kept ix r d" "q \<noteq> []" "strict_prefix q (d @ [c])"
  shows "\<not> excluded (ix_read ix) r q True"
proof -
  from assms(3) obtain k where "k \<le> length d" "q = take k d" by (auto simp: strict_prefix_take less_Suc_eq_le)
  with assms(1,2) have "kept_dir ix r q" by (cases k) (auto simp: above_kept_def)
  then show ?thesis by (simp add: kept_dir_def)
qed

lemma above_not_kept: "(p, u) \<in> set (tree_paths d t) \<Longrightarrow> \<not> above_kept ix r d \<Longrightarrow> \<not> indexed ix r p"
proof -
  assume a: "(p, u) \<in> set (tree_paths d t)" "\<not> above_kept ix r d"
  from paths_below(1) [OF a(1)] obtain c where c: "c \<noteq> []" "p = d @ c" by (auto simp: strict_prefix_append)
  then have b: "butlast p = d @ butlast c" by (simp add: butlast_append)
  from a(2) obtain k where k: "0 < k" "k \<le> length d" "\<not> kept_dir ix r (take k d)" by (auto simp: above_kept_def)
  then have "k \<le> length (butlast p)" "take k (butlast p) = take k d" using b by simp_all
  with k show ?thesis by (auto simp: indexed_def above_kept_def)
qed

definition index_files :: "indexer \<Rightarrow> string list \<Rightarrow> (string list \<times> tree) list \<Rightarrow> string list" where
  "index_files ix r ps = map (\<lambda>(p, t). join_with ''/'' p) (filter (\<lambda>(p, t). \<not> is_directory t \<and> indexed ix r p) ps)"

lemma index_files_simps [simp]:
  "index_files ix r [] = []"
  "index_files ix r ((p, t) # ps) =
     (if \<not> is_directory t \<and> indexed ix r p then [join_with ''/'' p] else []) @ index_files ix r ps"
  "index_files ix r (ps @ qs) = index_files ix r ps @ index_files ix r qs"
  by (simp_all add: index_files_def)

lemma resync_indexed:
  "plains r \<Longrightarrow> plains d \<Longrightarrow> tree_plain t \<Longrightarrow> above_kept ix r d \<Longrightarrow>
   resync_dir ix (show_path r) t (show_path (r @ d)) (stack_at (ix_read ix) r d) = index_files ix r (tree_paths d t)"
  "plains r \<Longrightarrow> plains d \<Longrightarrow> entries_plain es \<Longrightarrow> above_kept ix r d \<Longrightarrow>
   resync_entries ix (show_path r) es (show_path (r @ d)) (stack_at (ix_read ix) r d) = index_files ix r (entry_paths d es)"
proof (induction d t and d es rule: tree_paths_entry_paths.induct)
  case (5 d name t es)
  let ?p = "d @ [name]" and ?st = "stack_at (ix_read ix) r d"
  have pl: "plains ?p" "plain name" using "5.prems" by auto
  have join: "Join (show_path (r @ d)) name = show_path (r @ ?p)" using "5.prems" by (simp add: Join_show)
  have rel: "Rel (show_path r) (show_path (r @ ?p)) = Some (join_with ''/'' ?p)"
    using "5.prems"(1) pl(1) by (intro Rel_below) auto
  have ign: "IsIgnored ?st (show_path (r @ ?p)) isDir = excluded (ix_read ix) r ?p isDir" for isDir
    using IsIgnored_pruned [of r ?p "ix_read ix" isDir] above_kept_excluded [OF "5.prems"(4)] "5.prems"(1) pl(1) by simp
  have rest: "resync_entries ix (show_path r) es (show_path (r @ d)) ?st = index_files ix r (entry_paths d es)"
    using "5.IH"(2) "5.prems" by simp
  have here: "(if is_directory t then
         (case resyncEnterDir ix (show_path r) (show_path (r @ ?p)) name ?st of
            None \<Rightarrow> []
          | Some st' \<Rightarrow> resync_dir ix (show_path r) t (show_path (r @ ?p)) st')
       else
         (case Rel (show_path r) (show_path (r @ ?p)) of
            None \<Rightarrow> []
          | Some rel \<Rightarrow> if resyncSkipsFile ix (show_path (r @ ?p)) rel ?st then [] else [rel]))
     = index_files ix r ((?p, t) # tree_paths ?p t)"
  proof (cases "is_directory t")
    case False
    then have "tree_paths ?p t = []" by (cases t) auto
    with False rel ign "5.prems"(4) show ?thesis by (simp add: resyncSkipsFile_def indexed_def)
  next
    case dir: True
    have enter: "resyncEnterDir ix (show_path r) (show_path (r @ ?p)) name ?st =
        (if kept_dir ix r ?p then Some (stack_at (ix_read ix) r ?p) else None)"
      by (simp add: resyncEnterDir_def rel ign kept_dir_def stack_at_snoc)
    show ?thesis
    proof (cases "kept_dir ix r ?p")
      case True
      then have "above_kept ix r ?p" using "5.prems"(4) by (simp add: above_kept_snoc)
      with dir True enter "5.IH"(1) "5.prems" show ?thesis by simp
    next
      case False
      then have "\<not> above_kept ix r ?p" by (simp add: above_kept_snoc)
      then have "index_files ix r (tree_paths ?p t) = []"
        using above_not_kept [of _ _ ?p t ix r] by (auto simp: index_files_def filter_empty_conv)
      with dir False enter show ?thesis by simp
    qed
  qed
  show ?case using here rest join by (simp add: Let_def)
qed simp_all

lemma processResync_indexed:
  assumes "plains r" "entries_plain es"
  shows "processResync ix (show_path r) (Directory es) = index_files ix r (entry_paths [] es)"
  using resync_indexed(1) [of r "[]" "Directory es" ix] assms by (simp add: processResync_def Let_def del: resync_dir.simps)

end
