(* ===== verification/Plumb_TextEdits.thy ===== *)
theory Plumb_TextEdits
  imports Plumb_Paths "HOL-Library.Word" "HOL-Library.List_Lexorder"
begin

text \<open>
  Applying a language server's edits: \<open>internal/tools/edit_apply.go\<close>.

  Positions are pairs of 32-bit words, and the counters of the position scan wrap as the
  code's \<open>uint32\<close> do. \<open>sort.Slice\<close> is modelled as the insertion sort it is for up to twelve
  elements. The file system is a map from identity keys to content and mode; each write
  may fail, as the oracle \<open>ok\<close> says for the n-th write, and a failed write leaves its target
  as it was, since a file is only ever replaced by a rename.
\<close>

section \<open>Positions\<close>

record position =
  p_line :: "32 word"
  p_char :: "32 word"

record text_edit =
  e_start :: position
  e_end :: position
  e_new :: string

definition mk_pos :: "32 word \<Rightarrow> 32 word \<Rightarrow> position" where
  "mk_pos l c = \<lparr>p_line = l, p_char = c\<rparr>"

definition mk_edit :: "position \<Rightarrow> position \<Rightarrow> string \<Rightarrow> text_edit" where
  "mk_edit s e t = \<lparr>e_start = s, e_end = e, e_new = t\<rparr>"

datatype edit_error =
    Start_out_of_range position
  | End_out_of_range position
  | Start_after_end
  | No_such_file string
  | Named_twice string
  | Two_paths string string

fun offset_scan :: "position \<Rightarrow> 32 word \<Rightarrow> 32 word \<Rightarrow> nat \<Rightarrow> string \<Rightarrow> nat option" where
  "offset_scan pos l c i [] = (if l = p_line pos \<and> c = p_char pos then Some i else None)"
| "offset_scan pos l c i (b # bs) =
     (if l = p_line pos \<and> c = p_char pos then Some i
      else if b = CHR ''\<newline>'' then offset_scan pos (l + 1) 0 (Suc i) bs
      else offset_scan pos l (c + 1) (Suc i) bs)"

definition offsetForPosition :: "string \<Rightarrow> position \<Rightarrow> nat option" where
  "offsetForPosition data pos =
     (if p_line pos = 0 \<and> p_char pos = 0 then Some 0 else offset_scan pos 0 0 0 data)"

definition maxEndOvershootLines :: "32 word" where
  "maxEndOvershootLines = 2"

fun line_count :: "string \<Rightarrow> 32 word" where
  "line_count [] = 0"
| "line_count (b # bs) = (if b = CHR ''\<newline>'' then 1 + line_count bs else line_count bs)"

definition endOffsetForPosition :: "string \<Rightarrow> position \<Rightarrow> nat option" where
  "endOffsetForPosition data pos =
     (case offsetForPosition data pos of
        Some off \<Rightarrow> Some off
      | None \<Rightarrow>
          (let n = line_count data in
           if p_line pos < n \<or> maxEndOvershootLines < p_line pos - n then None
           else Some (length data)))"

section \<open>One file\<close>

definition edit_less :: "text_edit \<Rightarrow> text_edit \<Rightarrow> bool" where
  "edit_less x y =
     (let a = e_start x; b = e_start y in
      if p_line a \<noteq> p_line b then p_line b < p_line a else p_char b < p_char a)"

fun ins_edit :: "text_edit \<Rightarrow> text_edit list \<Rightarrow> text_edit list" where
  "ins_edit x [] = [x]"
| "ins_edit x (y # ys) = (if edit_less x y then x # y # ys else y # ins_edit x ys)"

definition sort_edits :: "text_edit list \<Rightarrow> text_edit list" where
  "sort_edits es = foldl (\<lambda>acc x. ins_edit x acc) [] es"

fun apply_sorted :: "string \<Rightarrow> text_edit list \<Rightarrow> edit_error + string" where
  "apply_sorted data [] = Inr data"
| "apply_sorted data (e # es) =
     (case offsetForPosition data (e_start e) of
        None \<Rightarrow> Inl (Start_out_of_range (e_start e))
      | Some s \<Rightarrow>
          (case endOffsetForPosition data (e_end e) of
             None \<Rightarrow> Inl (End_out_of_range (e_end e))
           | Some t \<Rightarrow>
               if t < s then Inl Start_after_end
               else apply_sorted (take s data @ e_new e @ drop t data) es))"

definition applyTextEdits :: "string \<Rightarrow> text_edit list \<Rightarrow> edit_error + string" where
  "applyTextEdits data edits = apply_sorted data (sort_edits edits)"

section \<open>The targets of a workspace edit\<close>

record workspace_edit =
  w_changes :: "(string \<times> text_edit list) list"
  w_documents :: "(string \<times> text_edit list) list"

definition workspaceEditEntries :: "workspace_edit \<Rightarrow> (string \<times> text_edit list) list" where
  "workspaceEditEntries we = sort_key fst (w_changes we) @ w_documents we"

record edit_target =
  t_path :: string
  t_edits :: "text_edit list"

definition index_of_key :: "(string \<Rightarrow> string) \<Rightarrow> string \<Rightarrow> edit_target list \<Rightarrow> nat option" where
  "index_of_key key k ts = find (\<lambda>i. key (t_path (ts ! i)) = k) [0..<length ts]"

fun collect_targets ::
  "(string \<Rightarrow> string) \<Rightarrow> bool \<Rightarrow> (string \<times> text_edit list) list \<Rightarrow> edit_target list \<Rightarrow>
     edit_error + edit_target list" where
  "collect_targets key windows [] acc = Inr acc"
| "collect_targets key windows ((uri, edits) # es) acc =
     (let p = uriToPath uri windows in
      case index_of_key key (key p) acc of
        None \<Rightarrow> collect_targets key windows es (acc @ [\<lparr>t_path = p, t_edits = edits\<rparr>])
      | Some i \<Rightarrow>
          (let old = acc ! i in
           if t_path old \<noteq> p then Inl (Two_paths (t_path old) p)
           else if edits = [] then collect_targets key windows es acc
           else if t_edits old = [] then
             collect_targets key windows es (acc[i := old\<lparr>t_edits := edits\<rparr>])
           else Inl (Named_twice p)))"

definition workspaceEditTargets ::
  "(string \<Rightarrow> string) \<Rightarrow> bool \<Rightarrow> workspace_edit \<Rightarrow> edit_error + edit_target list" where
  "workspaceEditTargets key windows we =
     (case collect_targets key windows (workspaceEditEntries we) [] of
        Inl e \<Rightarrow> Inl e
      | Inr ts \<Rightarrow> Inr (sort_key t_path ts))"

text \<open>The keys whose locks \<open>lockPaths\<close> takes, in the order it takes them.\<close>

definition lockPaths :: "(string \<Rightarrow> string) \<Rightarrow> string list \<Rightarrow> string list" where
  "lockPaths key paths = sort (remdups (map key paths))"

section \<open>Preparing, writing and rolling back\<close>

record file_entry =
  f_data :: string
  f_mode :: nat

datatype history_op = Op_update | Op_revert

record history_change =
  h_op :: history_op
  h_path :: string
  h_before :: string
  h_after :: string

record world =
  files :: "string \<Rightarrow> file_entry option"
  writes :: nat
  history :: "history_change list"

record edit_plan =
  pl_path :: string
  pl_before :: string
  pl_after :: string
  pl_mode :: nat

definition prepareTextEditsLocked ::
  "(string \<Rightarrow> string) \<Rightarrow> world \<Rightarrow> edit_target \<Rightarrow> edit_error + edit_plan" where
  "prepareTextEditsLocked key w tgt =
     (case files w (key (t_path tgt)) of
        None \<Rightarrow> Inl (No_such_file (t_path tgt))
      | Some f \<Rightarrow>
          (case applyTextEdits (f_data f) (t_edits tgt) of
             Inl e \<Rightarrow> Inl e
           | Inr a \<Rightarrow>
               Inr \<lparr>pl_path = t_path tgt, pl_before = f_data f, pl_after = a,
                    pl_mode = (if f_mode f = 0 then 420 else f_mode f)\<rparr>))"

fun prepare_all ::
  "(string \<Rightarrow> string) \<Rightarrow> world \<Rightarrow> edit_target list \<Rightarrow> edit_error + edit_plan list" where
  "prepare_all key w [] = Inr []"
| "prepare_all key w (t # ts) =
     (case prepareTextEditsLocked key w t of
        Inl e \<Rightarrow> Inl e
      | Inr p \<Rightarrow>
          (case prepare_all key w ts of Inl e \<Rightarrow> Inl e | Inr ps \<Rightarrow> Inr (p # ps)))"

text \<open>\<open>safeWrite\<close> as far as its callers see it: the mode of an existing file is kept.\<close>

definition safeWrite_view ::
  "(nat \<Rightarrow> bool) \<Rightarrow> (string \<Rightarrow> string) \<Rightarrow> string \<Rightarrow> string \<Rightarrow> nat \<Rightarrow> world \<Rightarrow> world \<times> bool" where
  "safeWrite_view ok key path data perm w =
     (let w' = w\<lparr>writes := Suc (writes w)\<rparr> in
      if ok (writes w) then
        (let m = (case files w (key path) of Some f \<Rightarrow> f_mode f | None \<Rightarrow> perm)
         in (w'\<lparr>files := (files w)(key path := Some \<lparr>f_data = data, f_mode = m\<rparr>)\<rparr>, True))
      else (w', False))"

definition recordHistory :: "history_op \<Rightarrow> string \<Rightarrow> string \<Rightarrow> string \<Rightarrow> world \<Rightarrow> world" where
  "recordHistory op p b a w =
     w\<lparr>history := history w @ [\<lparr>h_op = op, h_path = p, h_before = b, h_after = a\<rparr>]\<rparr>"

text \<open>
  The modified plans are kept most recent first, the order in which \<open>rollbackWorkspaceEdit\<close>
  walks them. The second result says whether every restore succeeded.
\<close>

fun rollback ::
  "(nat \<Rightarrow> bool) \<Rightarrow> (string \<Rightarrow> string) \<Rightarrow> edit_plan list \<Rightarrow> world \<Rightarrow> world \<times> bool" where
  "rollback ok key [] w = (w, True)"
| "rollback ok key (p # ps) w =
     (case safeWrite_view ok key (pl_path p) (pl_before p) (pl_mode p) w of (w1, good) \<Rightarrow>
        (let w2 = (if good then recordHistory Op_revert (pl_path p) (pl_after p) (pl_before p) w1 else w1)
         in case rollback ok key ps w2 of (w3, rest) \<Rightarrow> (w3, good \<and> rest)))"

datatype apply_outcome =
    Nothing_to_do
  | Refused edit_error
  | Applied "string list"
  | Write_failed "string list"
  | Rollback_failed "string list"

fun write_all ::
  "(nat \<Rightarrow> bool) \<Rightarrow> (string \<Rightarrow> string) \<Rightarrow> edit_plan list \<Rightarrow> edit_plan list \<Rightarrow> world \<Rightarrow>
     world \<times> apply_outcome" where
  "write_all ok key [] done_rev w = (w, Applied (rev (map pl_path done_rev)))"
| "write_all ok key (p # ps) done_rev w =
     (case safeWrite_view ok key (pl_path p) (pl_after p) (pl_mode p) w of (w1, good) \<Rightarrow>
        if good then
          write_all ok key ps (p # done_rev)
            (recordHistory Op_update (pl_path p) (pl_before p) (pl_after p) w1)
        else
          (case rollback ok key done_rev w1 of (w2, restored) \<Rightarrow>
             (w2, if restored then Write_failed (rev (map pl_path done_rev))
                  else Rollback_failed (rev (map pl_path done_rev)))))"

definition applyWorkspaceEdit ::
  "(nat \<Rightarrow> bool) \<Rightarrow> (string \<Rightarrow> string) \<Rightarrow> bool \<Rightarrow> workspace_edit option \<Rightarrow> world \<Rightarrow>
     world \<times> apply_outcome" where
  "applyWorkspaceEdit ok key windows we w =
     (case we of
        None \<Rightarrow> (w, Nothing_to_do)
      | Some e \<Rightarrow>
          (case workspaceEditTargets key windows e of
             Inl err \<Rightarrow> (w, Refused err)
           | Inr ts \<Rightarrow>
               (case prepare_all key w ts of
                  Inl err \<Rightarrow> (w, Refused err)
                | Inr ps \<Rightarrow> write_all ok key ps [] w)))"

end
