(* ===== verification/Plumb_PathLocks.thy ===== *)
theory Plumb_PathLocks
  imports Plumb_TextEdits "HOL-Library.List_Lexorder" "HOL-Library.Char_ord"
begin

text \<open>
  The per-path write locks of \<open>internal/tools/file_write_helpers.go\<close> as a transition system:
  any number of threads that take the locks of their files in the order of \<open>lockPaths\<close> (the
  order \<open>txCanonicalPaths\<close> uses too), work, and release them in any order, beside the sweep
  that deletes idle entries. Each atomic operation of \<open>lockPath\<close>, of the release function and
  of \<open>sweepPathLocks\<close> is a step.
\<close>

datatype agent = Thread nat | Sweeper

text \<open>
  The next operation of a thread: \<open>time.Now\<close> for the first key of the list, \<open>LoadOrStore\<close>, the
  stamp, \<open>Lock\<close>; then the work, and for each lock held the stamp and \<open>Unlock\<close>.
\<close>

datatype thread_pc =
    Idle
  | Acquiring "string list"
  | Timed string "string list" int
  | Got string nat "string list" int
  | Wanting string nat "string list"
  | Working
  | Releasing
  | Unlocking string nat

text \<open>
  The next operation of the sweep: nothing, the next pair of \<open>Range\<close>, \<open>TryLock\<close>, the second
  check, \<open>Delete\<close>, \<open>Unlock\<close>. The time is the one the sweep was started with.
\<close>

datatype sweep_pc =
    Resting
  | Ranging int
  | Trying int string nat
  | Rechecking int string nat
  | Deleting int string nat
  | Leaving int string nat

text \<open>
  \<open>pathLocks\<close> is \<open>table\<close>, entries are numbered as they are made, and \<open>entry_key\<close> is the key an
  entry was made for.
\<close>

record lock_state =
  table :: "string \<Rightarrow> nat option"
  entry_key :: "nat \<Rightarrow> string"
  stamp :: "nat \<Rightarrow> int"
  owner :: "nat \<Rightarrow> agent option"
  next_entry :: nat
  clock :: int
  pc :: "nat \<Rightarrow> thread_pc"
  held :: "nat \<Rightarrow> (string \<times> nat) list"
  sweeper :: sweep_pc

definition pathLockIdleExpiry :: int where
  "pathLockIdleExpiry = 3600 * 10 ^ 9"

definition idle_at :: "lock_state \<Rightarrow> int \<Rightarrow> nat \<Rightarrow> bool" where
  "idle_at s now e = (\<not> now - stamp s e < pathLockIdleExpiry)"

definition goto :: "nat \<Rightarrow> thread_pc \<Rightarrow> lock_state \<Rightarrow> lock_state" where
  "goto t c s = s\<lparr>pc := (pc s)(t := c)\<rparr>"

text \<open>\<open>LoadOrStore\<close>, with a new entry stamped \<open>now\<close>; the entry returned is \<open>loaded\<close>.\<close>

definition load_or_store :: "string \<Rightarrow> int \<Rightarrow> lock_state \<Rightarrow> lock_state" where
  "load_or_store k now s =
     (case table s k of
        Some e \<Rightarrow> s
      | None \<Rightarrow> s\<lparr>table := (table s)(k := Some (next_entry s)), entry_key := (entry_key s)(next_entry s := k),
                  stamp := (stamp s)(next_entry s := now), owner := (owner s)(next_entry s := None),
                  next_entry := Suc (next_entry s)\<rparr>)"

definition loaded :: "string \<Rightarrow> lock_state \<Rightarrow> nat" where
  "loaded k s = (case table s k of Some e \<Rightarrow> e | None \<Rightarrow> next_entry s)"

text \<open>A thread holds the entry \<open>e\<close> it loaded, and has not locked it yet.\<close>

definition between :: "lock_state \<Rightarrow> nat \<Rightarrow> bool" where
  "between s e = (\<exists>t k ks n. pc s t = Got k e ks n \<or> pc s t = Wanting k e ks)"

text \<open>
  The steps. With \<open>calm\<close>, the sweep deletes no entry that a thread holds between its
  \<open>LoadOrStore\<close> and its \<open>Lock\<close>; the code does not wait for that.
\<close>

inductive pl_step :: "(string \<Rightarrow> string) \<Rightarrow> bool \<Rightarrow> lock_state \<Rightarrow> lock_state \<Rightarrow> bool" for key and calm where
  tick: "0 \<le> d \<Longrightarrow> pl_step key calm s (s\<lparr>clock := clock s + d\<rparr>)"
| begin_write: "pc s t = Idle \<Longrightarrow> pl_step key calm s (goto t (Acquiring (lockPaths key paths)) s)"
| read_time: "pc s t = Acquiring (k # ks) \<Longrightarrow> pl_step key calm s (goto t (Timed k ks (clock s)) s)"
| load_entry: "pc s t = Timed k ks now \<Longrightarrow>
    pl_step key calm s (goto t (Got k (loaded k s) ks now) (load_or_store k now s))"
| stamp_entry: "pc s t = Got k e ks now \<Longrightarrow>
    pl_step key calm s (goto t (Wanting k e ks) (s\<lparr>stamp := (stamp s)(e := now)\<rparr>))"
| take_lock: "pc s t = Wanting k e ks \<Longrightarrow> owner s e = None \<Longrightarrow>
    pl_step key calm s (goto t (Acquiring ks)
      (s\<lparr>owner := (owner s)(e := Some (Thread t)), held := (held s)(t := (k, e) # held s t)\<rparr>))"
| all_locked: "pc s t = Acquiring [] \<Longrightarrow> pl_step key calm s (goto t Working s)"
| work_done: "pc s t = Working \<Longrightarrow> pl_step key calm s (goto t Releasing s)"
| release_stamp: "pc s t = Releasing \<Longrightarrow> (k, e) \<in> set (held s t) \<Longrightarrow>
    pl_step key calm s (goto t (Unlocking k e) (s\<lparr>stamp := (stamp s)(e := clock s)\<rparr>))"
| release_lock: "pc s t = Unlocking k e \<Longrightarrow>
    pl_step key calm s (goto t Releasing
      (s\<lparr>owner := (owner s)(e := None), held := (held s)(t := removeAll (k, e) (held s t))\<rparr>))"
| released: "pc s t = Releasing \<Longrightarrow> held s t = [] \<Longrightarrow> pl_step key calm s (goto t Idle s)"
| sweep_begin: "sweeper s = Resting \<Longrightarrow> pl_step key calm s (s\<lparr>sweeper := Ranging (clock s)\<rparr>)"
| sweep_check: "sweeper s = Ranging now \<Longrightarrow> table s k = Some e \<Longrightarrow> idle_at s now e \<Longrightarrow>
    pl_step key calm s (s\<lparr>sweeper := Trying now k e\<rparr>)"
| sweep_skip: "sweeper s = Trying now k e \<Longrightarrow> owner s e \<noteq> None \<Longrightarrow>
    pl_step key calm s (s\<lparr>sweeper := Ranging now\<rparr>)"
| sweep_lock: "sweeper s = Trying now k e \<Longrightarrow> owner s e = None \<Longrightarrow>
    pl_step key calm s (s\<lparr>sweeper := Rechecking now k e, owner := (owner s)(e := Some Sweeper)\<rparr>)"
| sweep_recheck: "sweeper s = Rechecking now k e \<Longrightarrow>
    pl_step key calm s (s\<lparr>sweeper := if idle_at s now e then Deleting now k e else Leaving now k e\<rparr>)"
| sweep_delete: "sweeper s = Deleting now k e \<Longrightarrow> (calm \<Longrightarrow> \<not> between s e) \<Longrightarrow>
    pl_step key calm s (s\<lparr>sweeper := Leaving now k e, table := (table s)(k := None)\<rparr>)"
| sweep_unlock: "sweeper s = Leaving now k e \<Longrightarrow>
    pl_step key calm s (s\<lparr>sweeper := Ranging now, owner := (owner s)(e := None)\<rparr>)"
| sweep_end: "sweeper s = Ranging now \<Longrightarrow> pl_step key calm s (s\<lparr>sweeper := Resting\<rparr>)"

definition pl_init :: "int \<Rightarrow> lock_state" where
  "pl_init now =
     \<lparr>table = Map.empty, entry_key = (\<lambda>_. []), stamp = (\<lambda>_. 0), owner = (\<lambda>_. None), next_entry = 0,
      clock = now, pc = (\<lambda>_. Idle), held = (\<lambda>_. []), sweeper = Resting\<rparr>"

inductive pl_reach :: "(string \<Rightarrow> string) \<Rightarrow> bool \<Rightarrow> lock_state \<Rightarrow> bool" for key and calm where
  start: "pl_reach key calm (pl_init now)"
| step: "pl_reach key calm s \<Longrightarrow> pl_step key calm s s' \<Longrightarrow> pl_reach key calm s'"

inductive_cases pl_stepE: "pl_step key calm s s'"

text \<open>A thread is in the critical section of a key: it has the lock of an entry for it.\<close>

definition holds :: "lock_state \<Rightarrow> nat \<Rightarrow> string \<Rightarrow> bool" where
  "holds s t k = (\<exists>e. (k, e) \<in> set (held s t))"

end
