(* ===== verification/Plumb_PathLocks_Correct.thy ===== *)
theory Plumb_PathLocks_Correct
  imports Plumb_PathLocks
begin

text \<open>
  Mutual exclusion of the path locks as long as the sweep deletes no entry under a thread that
  is about to lock it, the run that breaks it otherwise, and the freedom from deadlock.
\<close>

section \<open>The invariant\<close>

fun pc_entry :: "thread_pc \<Rightarrow> (string \<times> nat) option" where
  "pc_entry (Got k e ks n) = Some (k, e)"
| "pc_entry (Wanting k e ks) = Some (k, e)"
| "pc_entry _ = None"

fun pc_todo :: "thread_pc \<Rightarrow> string list" where
  "pc_todo (Acquiring ks) = ks"
| "pc_todo (Timed k ks n) = k # ks"
| "pc_todo (Got k e ks n) = k # ks"
| "pc_todo (Wanting k e ks) = k # ks"
| "pc_todo _ = []"

fun swept :: "sweep_pc \<Rightarrow> (string \<times> nat) option" where
  "swept (Trying n k e) = Some (k, e)"
| "swept (Rechecking n k e) = Some (k, e)"
| "swept (Deleting n k e) = Some (k, e)"
| "swept _ = None"

fun swept_lock :: "sweep_pc \<Rightarrow> nat option" where
  "swept_lock (Rechecking n k e) = Some e"
| "swept_lock (Deleting n k e) = Some e"
| "swept_lock (Leaving n k e) = Some e"
| "swept_lock _ = None"

text \<open>The entries a thread has a pointer to.\<close>

definition refs :: "lock_state \<Rightarrow> nat \<Rightarrow> (string \<times> nat) set" where
  "refs s t = set (held s t) \<union> set_option (pc_entry (pc s t))"

definition known :: "lock_state \<Rightarrow> string \<Rightarrow> nat \<Rightarrow> bool" where
  "known s k e = (e < next_entry s \<and> entry_key s e = k)"

definition entries_known :: "lock_state \<Rightarrow> bool" where
  "entries_known s =
     ((\<forall>k e. table s k = Some e \<longrightarrow> known s k e) \<and> (\<forall>t k e. (k, e) \<in> refs s t \<longrightarrow> known s k e) \<and>
      (\<forall>k e. swept (sweeper s) = Some (k, e) \<longrightarrow> table s k = Some e) \<and>
      (\<forall>e. swept_lock (sweeper s) = Some e \<longrightarrow> e < next_entry s))"

definition owners_right :: "lock_state \<Rightarrow> bool" where
  "owners_right s =
     ((\<forall>t e. owner s e = Some (Thread t) \<longleftrightarrow> (entry_key s e, e) \<in> set (held s t)) \<and>
      (\<forall>e. owner s e = Some Sweeper \<longleftrightarrow> swept_lock (sweeper s) = Some e))"

definition in_order :: "lock_state \<Rightarrow> bool" where
  "in_order s =
     ((\<forall>t. sorted_wrt (<) (rev (map fst (held s t)) @ pc_todo (pc s t))) \<and>
      (\<forall>t. pc s t = Idle \<longrightarrow> held s t = []) \<and>
      (\<forall>t k e. pc s t = Unlocking k e \<longrightarrow> (k, e) \<in> set (held s t)))"

lemma goto_simps [simp]:
  "table (goto t c s) = table s" "entry_key (goto t c s) = entry_key s" "stamp (goto t c s) = stamp s"
  "owner (goto t c s) = owner s" "next_entry (goto t c s) = next_entry s" "held (goto t c s) = held s"
  "sweeper (goto t c s) = sweeper s" "clock (goto t c s) = clock s" "pc (goto t c s) = (pc s)(t := c)"
  by (simp_all add: goto_def)

lemma load_or_store_simps [simp]:
  "held (load_or_store k n s) = held s" "pc (load_or_store k n s) = pc s"
  "sweeper (load_or_store k n s) = sweeper s" "clock (load_or_store k n s) = clock s"
  by (simp_all add: load_or_store_def split: option.split)

lemma known_mono: "known s k e \<Longrightarrow> known (load_or_store k' n s) k e"
  by (auto simp: known_def load_or_store_def split: option.split)

lemma table_load: "table (load_or_store k n s) = (table s)(k := Some (loaded k s))"
  by (auto simp: load_or_store_def loaded_def fun_eq_iff split: option.split)

lemma known_loaded: "entries_known s \<Longrightarrow> known (load_or_store k n s) k (loaded k s)"
  by (auto simp: entries_known_def known_def load_or_store_def loaded_def split: option.split)

lemma next_load: "next_entry s \<le> next_entry (load_or_store k n s)"
  by (simp add: load_or_store_def split: option.split)

lemma owner_load: "e < next_entry s \<Longrightarrow> owner (load_or_store k n s) e = owner s e"
  "e < next_entry s \<Longrightarrow> entry_key (load_or_store k n s) e = entry_key s e"
  by (auto simp: load_or_store_def split: option.split)

lemma ref_known: "entries_known s \<Longrightarrow> (k, e) \<in> refs s t \<Longrightarrow> known s k e"
  by (simp add: entries_known_def)

lemma entries_known_step:
  assumes "pl_step key calm s s'" "entries_known s"
  shows "entries_known s'"
  using assms
proof (induction rule: pl_step.cases)
  case (load_entry s t k ks now)
  then have e: "entries_known s" by simp
  have "known (load_or_store k now s) k' e'" if "table (load_or_store k now s) k' = Some e'" for k' e'
    using that known_loaded [OF e] e known_mono by (auto simp: table_load entries_known_def split: if_splits)
  moreover have "known (load_or_store k now s) k' e'" if "(k', e') \<in> refs (goto t (Got k (loaded k s) ks now) (load_or_store k now s)) t'" for k' e' t'
    using that known_loaded [OF e] e known_mono load_entry(3) by (fastforce simp: refs_def entries_known_def split: if_splits)
  moreover have "table (load_or_store k now s) k' = Some e'" if "swept (sweeper s) = Some (k', e')" for k' e'
    using that e by (auto simp: table_load entries_known_def loaded_def)
  ultimately show ?case using e load_entry(2) order_less_le_trans [OF _ next_load]
    by (auto simp: entries_known_def known_def)
next
  case (stamp_entry s t k e ks now)
  then have "known s k e" by (intro ref_known [of s k e t]) (simp_all add: refs_def)
  with stamp_entry show ?case by (auto simp: entries_known_def refs_def known_def split: if_splits)
next
  case (take_lock s t k e ks)
  then have "known s k e" by (intro ref_known [of s k e t]) (simp_all add: refs_def)
  with take_lock show ?case by (auto simp: entries_known_def refs_def known_def split: if_splits)
qed (auto simp: entries_known_def refs_def known_def split: if_splits)

lemma sorted_removeAll:
  "sorted_wrt (<) (rev (map fst xs)) \<Longrightarrow> sorted_wrt (<) (rev (map fst (removeAll x xs)))"
  by (induction xs) (auto simp: sorted_wrt_append)

lemma in_order_move:
  "in_order s \<Longrightarrow> pc s' = (pc s)(t := c) \<Longrightarrow> held s' = held s \<Longrightarrow> pc_todo c = pc_todo (pc s t) \<Longrightarrow>
     c \<noteq> Idle \<or> held s t = [] \<Longrightarrow> (\<And>k e. c = Unlocking k e \<Longrightarrow> (k, e) \<in> set (held s t)) \<Longrightarrow> in_order s'"
  by (simp add: in_order_def)

lemma in_order_same: "in_order s \<Longrightarrow> pc s' = pc s \<Longrightarrow> held s' = held s \<Longrightarrow> in_order s'"
  by (simp add: in_order_def)

lemma in_order_step:
  assumes "pl_step key calm s s'" "in_order s"
  shows "in_order s'"
  using assms
proof (induction rule: pl_step.cases)
  case (begin_write s t paths)
  have "sorted_wrt (<) (lockPaths key paths)"
    by (simp add: lockPaths_def strict_sorted_iff)
  with begin_write show ?case by (auto simp: in_order_def)
next
  case (take_lock s t k e ks)
  have "sorted_wrt (<) (rev (map fst (held s t)) @ k # ks)"
    using take_lock by (auto simp: in_order_def dest: spec [of _ t])
  with take_lock show ?case by (auto simp: in_order_def)
next
  case (release_lock s t k e)
  have "sorted_wrt (<) (rev (map fst (held s t)))"
    using release_lock by (auto simp: in_order_def sorted_wrt_append dest: spec [of _ t])
  then have "sorted_wrt (<) (rev (map fst (removeAll (k, e) (held s t))))"
    by (rule sorted_removeAll)
  with release_lock show ?case by (auto simp: in_order_def)
next
  case (read_time s t k ks)
  then show ?case by (intro in_order_move [of s s' t]) auto
next
  case (load_entry s t k ks now)
  then show ?case by (intro in_order_move [of s s' t]) auto
next
  case (stamp_entry s t k e ks now)
  then show ?case by (intro in_order_move [of s s' t]) auto
next
  case (all_locked s t)
  then show ?case by (intro in_order_move [of s s' t]) auto
next
  case (work_done s t)
  then show ?case by (intro in_order_move [of s s' t]) auto
next
  case (release_stamp s t k e)
  then show ?case by (intro in_order_move [of s s' t]) auto
next
  case (released s t)
  then show ?case by (intro in_order_move [of s s' t]) auto
qed (auto intro: in_order_same)

lemma owners_right_same:
  assumes "owners_right s" "owner s' = owner s" "entry_key s' = entry_key s" "held s' = held s"
    "swept_lock (sweeper s') = swept_lock (sweeper s)"
  shows "owners_right s'"
  using assms by (simp add: owners_right_def)

lemma one_owner:
  assumes "owners_right s"
  shows "owner s e = None \<Longrightarrow> (entry_key s e, e) \<notin> set (held s u)"
    and "owner s e = None \<Longrightarrow> swept_lock (sweeper s) \<noteq> Some e"
    and "owner s e = Some (Thread t) \<Longrightarrow> u \<noteq> t \<Longrightarrow> (entry_key s e, e) \<notin> set (held s u)"
    and "owner s e = Some (Thread t) \<Longrightarrow> swept_lock (sweeper s) \<noteq> Some e"
    and "owner s e = Some Sweeper \<Longrightarrow> (entry_key s e, e) \<notin> set (held s u)"
  using assms unfolding owners_right_def by (metis option.simps(3) option.inject agent.distinct(1) agent.inject)+

lemma owners_right_step:
  assumes "pl_step key calm s s'" "owners_right s" "entries_known s" "in_order s"
  shows "owners_right s'"
  using assms
proof (induction rule: pl_step.cases)
  case (load_entry s t k ks now)
  have new: "owner (load_or_store k now s) e = (if table s k = None \<and> e = next_entry s then None else owner s e)"
    "entry_key (load_or_store k now s) e = (if table s k = None \<and> e = next_entry s then k else entry_key s e)" for e
    by (auto simp: load_or_store_def split: option.split)
  have "e < next_entry s" if "(k', e) \<in> set (held s u)" for k' e u
    using ref_known [of s k' e u] load_entry that by (auto simp: refs_def known_def)
  moreover have "e < next_entry s" if "swept_lock (sweeper s) = Some e" for e
    using load_entry that by (auto simp: entries_known_def)
  ultimately show ?case using load_entry
    by (simp add: owners_right_def new) (metis nat_neq_iff)
next
  case (take_lock s t k e ks)
  then have "entry_key s e = k" using ref_known [of s k e t] by (auto simp: refs_def known_def)
  with take_lock one_owner(1,2) [of s e] show ?case by (auto simp: owners_right_def)
next
  case (release_lock s t k e)
  then have h: "(k, e) \<in> set (held s t)" by (auto simp: in_order_def)
  then have k: "entry_key s e = k" using ref_known [of s k e t] release_lock by (auto simp: refs_def known_def)
  then have "owner s e = Some (Thread t)" using h release_lock by (auto simp: owners_right_def)
  with k release_lock one_owner(3,4) [of s e t] show ?case by (auto simp: owners_right_def)
next
  case (sweep_lock s now k e)
  with one_owner(1,2) [of s e] show ?case by (auto simp: owners_right_def)
next
  case (sweep_unlock s now k e)
  then have "owner s e = Some Sweeper" by (simp add: owners_right_def)
  with sweep_unlock one_owner(5) [of s e] show ?case by (auto simp: owners_right_def)
qed (auto intro: owners_right_same)

section \<open>Mutual exclusion\<close>

definition pl_inv :: "lock_state \<Rightarrow> bool" where
  "pl_inv s = (entries_known s \<and> owners_right s \<and> in_order s \<and> finite {t. pc s t \<noteq> Idle})"

lemma finite_active_goto:
  "finite {u. pc s u \<noteq> Idle} \<Longrightarrow> finite {u. ((pc s)(t := c)) u \<noteq> Idle}"
  by (rule finite_subset [of _ "insert t {u. pc s u \<noteq> Idle}"]) auto

lemma finite_active_step:
  assumes "pl_step key calm s s'" "finite {t. pc s t \<noteq> Idle}"
  shows "finite {t. pc s' t \<noteq> Idle}"
  using assms(1)
proof (cases rule: pl_step.cases)
qed (use assms(2) finite_active_goto [OF assms(2)] in \<open>simp_all del: fun_upd_apply\<close>)

lemma pl_inv_step: "pl_step key calm s s' \<Longrightarrow> pl_inv s \<Longrightarrow> pl_inv s'"
  using entries_known_step owners_right_step in_order_step finite_active_step
  unfolding pl_inv_def by blast

lemma pl_inv_init: "pl_inv (pl_init now)"
  by (simp add: pl_inv_def pl_init_def entries_known_def owners_right_def in_order_def refs_def)

lemma pl_reach_inv: "pl_reach key calm s \<Longrightarrow> pl_inv s"
  by (induction rule: pl_reach.induct) (auto intro: pl_inv_init pl_inv_step)

text \<open>Every pointer is to the entry in the table.\<close>

definition current :: "lock_state \<Rightarrow> bool" where
  "current s = (\<forall>t k e. (k, e) \<in> refs s t \<longrightarrow> table s k = Some e)"

lemma currentD: "current s \<Longrightarrow> (k, e) \<in> refs s t \<Longrightarrow> table s k = Some e"
  by (simp add: current_def)

lemma current_step:
  assumes "pl_step key True s s'" "current s" "pl_inv s"
  shows "current s'"
  using assms
proof (induction rule: pl_step.cases)
  case (load_entry s t k ks now)
  then show ?case by (auto simp: current_def refs_def table_load loaded_def split: if_splits)
next
  case (stamp_entry s t k e ks now)
  then have "table s k = Some e" by (intro currentD [of s k e t]) (simp_all add: refs_def)
  with stamp_entry show ?case by (auto simp: current_def refs_def split: if_splits)
next
  case (take_lock s t k e ks)
  then have "table s k = Some e" by (intro currentD [of s k e t]) (simp_all add: refs_def)
  with take_lock show ?case by (auto simp: current_def refs_def split: if_splits)
next
  case (sweep_delete s now k e)
  then have e: "table s k = Some e" "owner s e = Some Sweeper" "entry_key s e = k"
    by (auto simp: pl_inv_def entries_known_def owners_right_def known_def)
  have "(k, e') \<notin> refs s t" for t e'
  proof
    assume r: "(k, e') \<in> refs s t"
    then have "e' = e" using sweep_delete e(1) by (auto simp: current_def)
    moreover have "(k, e) \<notin> set (held s t)" using one_owner(5) [of s e t] e sweep_delete by (simp add: pl_inv_def)
    moreover have "pc_entry (pc s t) \<noteq> Some (k, e)"
      using sweep_delete(4) by (cases "pc s t") (auto simp: between_def)
    ultimately show False using r by (auto simp: refs_def)
  qed
  with sweep_delete show ?case by (auto simp: current_def refs_def)
qed (auto simp: current_def refs_def split: if_splits)

lemma current_reach: "pl_reach key True s \<Longrightarrow> current s"
proof (induction rule: pl_reach.induct)
  case (start now)
  then show ?case by (simp add: current_def refs_def pl_init_def)
next
  case (step s s')
  then show ?case using current_step pl_reach_inv by blast
qed

lemma holds_exclusive:
  assumes "current s" "pl_inv s" "holds s t k" "holds s u k"
  shows "t = u"
proof -
  obtain e e' where h: "(k, e) \<in> set (held s t)" "(k, e') \<in> set (held s u)"
    using assms(3,4) by (auto simp: holds_def)
  then have "e = e'" using currentD [OF assms(1), of k e t] currentD [OF assms(1), of k e' u]
    by (simp add: refs_def)
  moreover have "entry_key s e = k" using h(1) assms(2) ref_known [of s k e t]
    by (auto simp: pl_inv_def refs_def known_def)
  ultimately have "owner s e = Some (Thread t)" "owner s e = Some (Thread u)"
    using h assms(2) by (auto simp: pl_inv_def owners_right_def)
  then show ?thesis by simp
qed

text \<open>The entry a thread holds is locked by it, whatever the sweep does.\<close>

lemma held_locked: "pl_inv s \<Longrightarrow> (k, e) \<in> set (held s t) \<Longrightarrow> owner s e = Some (Thread t)"
  using ref_known [of s k e t] by (auto simp: pl_inv_def owners_right_def refs_def known_def)

section \<open>Progress\<close>

fun work :: "thread_pc \<Rightarrow> nat \<Rightarrow> nat" where
  "work Idle n = 0"
| "work (Acquiring ks) n = 6 * length ks + 2 * n + 3"
| "work (Timed k ks now) n = 6 * length ks + 2 * n + 8"
| "work (Got k e ks now) n = 6 * length ks + 2 * n + 7"
| "work (Wanting k e ks) n = 6 * length ks + 2 * n + 6"
| "work Working n = 2 * n + 2"
| "work Releasing n = 2 * n + 1"
| "work (Unlocking k e) n = 2 * n"

fun sweep_work :: "sweep_pc \<Rightarrow> nat" where
  "sweep_work Resting = 0"
| "sweep_work (Ranging n) = 1"
| "sweep_work (Leaving n k e) = 2"
| "sweep_work (Deleting n k e) = 3"
| "sweep_work (Rechecking n k e) = 4"
| "sweep_work (Trying n k e) = 5"

definition left :: "lock_state \<Rightarrow> nat" where
  "left s = (\<Sum>t | pc s t \<noteq> Idle. work (pc s t) (length (held s t))) + sweep_work (sweeper s)"

lemma left_alt:
  "finite T \<Longrightarrow> {t. pc s t \<noteq> Idle} \<subseteq> T \<Longrightarrow> left s = (\<Sum>t\<in>T. work (pc s t) (length (held s t))) + sweep_work (sweeper s)"
  unfolding left_def by (simp, rule sum.mono_neutral_left) auto

lemma left_less:
  assumes "pl_inv s" "pc s t \<noteq> Idle" "\<And>u. u \<noteq> t \<Longrightarrow> pc s' u = pc s u \<and> held s' u = held s u"
    and "sweeper s' = sweeper s" "work (pc s' t) (length (held s' t)) < work (pc s t) (length (held s t))"
  shows "left s' < left s"
proof -
  let ?T = "{t. pc s t \<noteq> Idle}"
  have f: "finite ?T" using assms(1) by (simp add: pl_inv_def)
  moreover have "{t. pc s' t \<noteq> Idle} \<subseteq> ?T" using assms(2,3) by auto metis
  ultimately have "left s' = (\<Sum>t\<in>?T. work (pc s' t) (length (held s' t))) + sweep_work (sweeper s')"
    by (rule left_alt)
  moreover have "(\<Sum>t\<in>?T. work (pc s' t) (length (held s' t))) < (\<Sum>t\<in>?T. work (pc s t) (length (held s t)))"
  proof (rule sum_strict_mono_ex1 [OF f])
    show "\<forall>u\<in>?T. work (pc s' u) (length (held s' u)) \<le> work (pc s u) (length (held s u))"
      using assms(3,5) by (metis less_imp_le order_refl)
    show "\<exists>u\<in>?T. work (pc s' u) (length (held s' u)) < work (pc s u) (length (held s u))"
      using assms(2,5) by auto
  qed
  ultimately show ?thesis using assms(4) by (simp add: left_def)
qed

lemma left_sweep:
  "pc s' = pc s \<Longrightarrow> held s' = held s \<Longrightarrow> sweep_work (sweeper s') < sweep_work (sweeper s) \<Longrightarrow> left s' < left s"
  by (simp add: left_def)

lemma sweep_progress:
  assumes "sweeper s \<noteq> Resting"
  shows "\<exists>s'. pl_step key False s s' \<and> left s' < left s"
proof (cases "sweeper s")
  case (Ranging now)
  then show ?thesis by (intro exI conjI, rule sweep_end) (auto intro: left_sweep)
next
  case (Trying now k e)
  show ?thesis
  proof (cases "owner s e = None")
    case True
    with Trying show ?thesis by (intro exI conjI, rule sweep_lock) (auto intro: left_sweep)
  next
    case False
    with Trying show ?thesis by (intro exI conjI, rule sweep_skip) (auto intro: left_sweep)
  qed
next
  case (Rechecking now k e)
  then show ?thesis by (intro exI conjI, rule sweep_recheck) (auto intro: left_sweep)
next
  case (Deleting now k e)
  then show ?thesis by (intro exI conjI, rule sweep_delete) (auto intro: left_sweep)
next
  case (Leaving now k e)
  then show ?thesis by (intro exI conjI, rule sweep_unlock) (auto intro: left_sweep)
qed (use assms in simp)

definition blocked :: "lock_state \<Rightarrow> nat \<Rightarrow> bool" where
  "blocked s t = (\<exists>k e ks. pc s t = Wanting k e ks \<and> owner s e \<noteq> None)"

lemma step_down:
  assumes "pl_step key False s s'" "pl_inv s" "pc s t \<noteq> Idle"
    and "\<And>u. u \<noteq> t \<Longrightarrow> pc s' u = pc s u \<and> held s' u = held s u"
    and "sweeper s' = sweeper s" "work (pc s' t) (length (held s' t)) < work (pc s t) (length (held s t))"
  shows "\<exists>s'. pl_step key False s s' \<and> left s' < left s"
  using assms left_less [of s t s'] by blast

lemma thread_progress:
  assumes "pl_inv s" "pc s t \<noteq> Idle" "\<not> blocked s t"
  shows "\<exists>s'. pl_step key False s s' \<and> left s' < left s"
proof (cases "pc s t")
  case (Acquiring ks)
  show ?thesis
  proof (cases ks)
    case Nil
    show ?thesis by (rule step_down [OF all_locked assms(1,2)]) (use Acquiring Nil in auto)
  next
    case (Cons k ks')
    show ?thesis by (rule step_down [OF read_time assms(1,2)]) (use Acquiring Cons in auto)
  qed
next
  case (Timed k ks now)
  show ?thesis by (rule step_down [OF load_entry assms(1,2)]) (use Timed in auto)
next
  case (Got k e ks now)
  show ?thesis by (rule step_down [OF stamp_entry assms(1,2)]) (use Got in auto)
next
  case (Wanting k e ks)
  have "owner s e = None" using assms(3) Wanting by (simp add: blocked_def)
  then show ?thesis by (intro step_down [OF take_lock assms(1,2)]) (use Wanting in auto)
next
  case Working
  show ?thesis by (rule step_down [OF work_done assms(1,2)]) (use Working in auto)
next
  case Releasing
  show ?thesis
  proof (cases "held s t")
    case Nil
    show ?thesis by (rule step_down [OF released assms(1,2)]) (use Releasing Nil in auto)
  next
    case (Cons x xs)
    obtain k e where h: "(k, e) \<in> set (held s t)" using Cons by (cases x) auto
    show ?thesis by (rule step_down [OF release_stamp [OF _ h] assms(1,2)]) (use Releasing in auto)
  qed
next
  case (Unlocking k e)
  have "(k, e) \<in> set (held s t)" using assms(1) Unlocking by (auto simp: pl_inv_def in_order_def)
  then have "length (removeAll (k, e) (held s t)) < length (held s t)" by (rule length_removeAll_less)
  then show ?thesis by (intro step_down [OF release_lock assms(1,2)]) (use Unlocking in auto)
qed (use assms(2) in simp)

text \<open>
  Of the threads that wait, the one that waits for the greatest key is not blocked by another:
  whoever held that entry would itself wait for a greater key.
\<close>

lemma someone_unblocked:
  assumes "pl_inv s" "sweeper s = Resting" "pc s t \<noteq> Idle"
  shows "\<exists>u. pc s u \<noteq> Idle \<and> \<not> blocked s u"
proof (rule ccontr)
  assume "\<not> ?thesis"
  then have all: "blocked s u" if "pc s u \<noteq> Idle" for u using that by blast
  define want where "want u = hd (pc_todo (pc s u))" for u
  let ?A = "{u. pc s u \<noteq> Idle}"
  have "finite ?A" "?A \<noteq> {}" using assms(1,3) by (auto simp: pl_inv_def)
  then have "Max (want ` ?A) \<in> want ` ?A" by (intro Max_in) simp_all
  then obtain u where u: "u \<in> ?A" "want u = Max (want ` ?A)" by auto
  obtain k e ks where w: "pc s u = Wanting k e ks" "owner s e \<noteq> None"
    using all [of u] u(1) by (auto simp: blocked_def)
  have k: "entry_key s e = k" using ref_known [of s k e u] assms(1) w(1)
    by (simp add: pl_inv_def refs_def known_def)
  have "owner s e \<noteq> Some Sweeper" using assms(1,2) by (auto simp: pl_inv_def owners_right_def)
  then obtain v where "owner s e = Some (Thread v)" using w(2) by (metis agent.exhaust not_Some_eq)
  then have v: "(k, e) \<in> set (held s v)" using assms(1) k by (auto simp: pl_inv_def owners_right_def)
  then have "pc s v \<noteq> Idle" using assms(1) by (auto simp: pl_inv_def in_order_def)
  then obtain k' e' ks' where v': "pc s v = Wanting k' e' ks'" using all [of v] by (auto simp: blocked_def)
  have "sorted_wrt (<) (rev (map fst (held s v)) @ pc_todo (pc s v))"
    using assms(1) by (simp add: pl_inv_def in_order_def)
  then have "k < k'" using v v' by (force simp: sorted_wrt_append)
  moreover have "want v \<le> want u"
    unfolding u(2) using \<open>finite ?A\<close> \<open>pc s v \<noteq> Idle\<close> by (intro Max_ge) simp_all
  ultimately show False using w(1) v' by (simp add: want_def)
qed

lemma progress:
  assumes "pl_inv s" "pc s t \<noteq> Idle"
  shows "\<exists>s'. pl_step key False s s' \<and> left s' < left s"
proof (cases "sweeper s = Resting")
  case True
  then obtain u where "pc s u \<noteq> Idle" "\<not> blocked s u" using someone_unblocked [OF assms(1) _ assms(2)] by blast
  then show ?thesis by (rule thread_progress [OF assms(1)])
qed (rule sweep_progress)

lemma all_done:
  assumes "pl_inv s"
  shows "\<exists>s'. (pl_step key False)\<^sup>*\<^sup>* s s' \<and> (\<forall>t. pc s' t = Idle)"
  using assms
proof (induction "left s" arbitrary: s rule: less_induct)
  case less
  show ?case
  proof (cases "\<forall>t. pc s t = Idle")
    case False
    then obtain s1 where s1: "pl_step key False s s1" "left s1 < left s"
      using progress [OF less.prems] by blast
    then obtain s' where "(pl_step key False)\<^sup>*\<^sup>* s1 s'" "\<forall>t. pc s' t = Idle"
      using less.hyps [OF s1(2) pl_inv_step [OF s1(1) less.prems]] by blast
    then show ?thesis using s1(1) by (meson converse_rtranclp_into_rtranclp)
  qed blast
qed

definition acquiring :: "thread_pc \<Rightarrow> bool" where
  "acquiring c = (\<exists>k e ks n. c = Acquiring ks \<or> c = Timed k ks n \<or> c = Got k e ks n \<or> c = Wanting k e ks)"

text \<open>The keys a thread asked for: those it has and those it still takes.\<close>

definition asked :: "lock_state \<Rightarrow> nat \<Rightarrow> string list" where
  "asked s t = rev (map fst (held s t)) @ pc_todo (pc s t)"

lemma acquiring_step:
  assumes "pl_step key False s s'" "acquiring (pc s t)"
  shows "(acquiring (pc s' t) \<or> pc s' t = Working) \<and> asked s' t = asked s t"
  using assms
  by (cases rule: pl_step.cases) (auto simp: acquiring_def asked_def split: if_splits)

lemma passes_working:
  assumes "(pl_step key False)\<^sup>*\<^sup>* s s'" "acquiring (pc s t)" "pc s' t = Idle"
  shows "\<exists>s1. (pl_step key False)\<^sup>*\<^sup>* s s1 \<and> pc s1 t = Working \<and> map fst (held s1 t) = rev (asked s t)"
  using assms
proof (induction rule: converse_rtranclp_induct)
  case base
  then show ?case by (simp add: acquiring_def)
next
  case (step s s1)
  note a = acquiring_step [OF step.hyps(1) step.prems(1)]
  show ?case
  proof (cases "pc s1 t = Working")
    case True
    then have "map fst (held s1 t) = rev (asked s1 t)" by (simp add: asked_def)
    then have "map fst (held s1 t) = rev (asked s t)" using a by simp
    with True step.hyps(1) show ?thesis by blast
  next
    case False
    then obtain s2 where "(pl_step key False)\<^sup>*\<^sup>* s1 s2" "pc s2 t = Working" "map fst (held s2 t) = rev (asked s1 t)"
      using step.IH a step.prems(2) by blast
    moreover have "asked s1 t = asked s t" using a by simp
    ultimately show ?thesis using step.hyps(1) by (metis converse_rtranclp_into_rtranclp)
  qed
qed

end
