(* ===== verification/Plumb_PathLocks_Claims.thy ===== *)
theory Plumb_PathLocks_Claims
  imports Plumb_PathLocks_Correct
begin

text \<open>
  The properties of the path locks, and runs of the system as lists of moves, executed by a
  step function that the transition system allows.
\<close>

datatype move = Tick int | Begin nat "string list" | Go nat | Sweep string

definition go :: "nat \<Rightarrow> lock_state \<Rightarrow> lock_state option" where
  "go t s =
     (case pc s t of
        Idle \<Rightarrow> None
      | Acquiring [] \<Rightarrow> Some (goto t Working s)
      | Acquiring (k # ks) \<Rightarrow> Some (goto t (Timed k ks (clock s)) s)
      | Timed k ks now \<Rightarrow> Some (goto t (Got k (loaded k s) ks now) (load_or_store k now s))
      | Got k e ks now \<Rightarrow> Some (goto t (Wanting k e ks) (s\<lparr>stamp := (stamp s)(e := now)\<rparr>))
      | Wanting k e ks \<Rightarrow>
          if owner s e = None then
            Some (goto t (Acquiring ks)
              (s\<lparr>owner := (owner s)(e := Some (Thread t)), held := (held s)(t := (k, e) # held s t)\<rparr>))
          else None
      | Working \<Rightarrow> Some (goto t Releasing s)
      | Releasing \<Rightarrow>
          (case held s t of
             [] \<Rightarrow> Some (goto t Idle s)
           | (k, e) # _ \<Rightarrow> Some (goto t (Unlocking k e) (s\<lparr>stamp := (stamp s)(e := clock s)\<rparr>)))
      | Unlocking k e \<Rightarrow>
          Some (goto t Releasing
            (s\<lparr>owner := (owner s)(e := None), held := (held s)(t := removeAll (k, e) (held s t))\<rparr>)))"

definition sweep_go :: "bool \<Rightarrow> string \<Rightarrow> lock_state \<Rightarrow> lock_state option" where
  "sweep_go calm k0 s =
     (case sweeper s of
        Resting \<Rightarrow> Some (s\<lparr>sweeper := Ranging (clock s)\<rparr>)
      | Ranging now \<Rightarrow>
          (case table s k0 of
             Some e \<Rightarrow> if idle_at s now e then Some (s\<lparr>sweeper := Trying now k0 e\<rparr>) else None
           | None \<Rightarrow> None)
      | Trying now k e \<Rightarrow>
          if owner s e = None then Some (s\<lparr>sweeper := Rechecking now k e, owner := (owner s)(e := Some Sweeper)\<rparr>)
          else Some (s\<lparr>sweeper := Ranging now\<rparr>)
      | Rechecking now k e \<Rightarrow> Some (s\<lparr>sweeper := if idle_at s now e then Deleting now k e else Leaving now k e\<rparr>)
      | Deleting now k e \<Rightarrow> if calm then None else Some (s\<lparr>sweeper := Leaving now k e, table := (table s)(k := None)\<rparr>)
      | Leaving now k e \<Rightarrow> Some (s\<lparr>sweeper := Ranging now, owner := (owner s)(e := None)\<rparr>))"

fun apply_move :: "(string \<Rightarrow> string) \<Rightarrow> bool \<Rightarrow> move \<Rightarrow> lock_state \<Rightarrow> lock_state option" where
  "apply_move key calm (Tick d) s = (if 0 \<le> d then Some (s\<lparr>clock := clock s + d\<rparr>) else None)"
| "apply_move key calm (Begin t paths) s =
     (if pc s t = Idle then Some (goto t (Acquiring (lockPaths key paths)) s) else None)"
| "apply_move key calm (Go t) s = go t s"
| "apply_move key calm (Sweep k) s = sweep_go calm k s"

fun play :: "(string \<Rightarrow> string) \<Rightarrow> bool \<Rightarrow> move list \<Rightarrow> lock_state \<Rightarrow> lock_state option" where
  "play key calm [] s = Some s"
| "play key calm (m # ms) s = (case apply_move key calm m s of Some s' \<Rightarrow> play key calm ms s' | None \<Rightarrow> None)"

lemma go_step: "go t s = Some s' \<Longrightarrow> pl_step key calm s s'"
  unfolding go_def
  by (auto intro: pl_step.intros(3-11) split: thread_pc.splits list.splits if_splits prod.splits)

lemma sweep_go_step: "sweep_go calm k s = Some s' \<Longrightarrow> pl_step key calm s s'"
  unfolding sweep_go_def
  by (auto intro: pl_step.intros(12-19) dest: sweep_recheck [where key = key and calm = calm] split: sweep_pc.splits option.splits if_splits)

lemma apply_move_step: "apply_move key calm m s = Some s' \<Longrightarrow> pl_step key calm s s'"
  by (cases m) (auto intro: pl_step.intros go_step sweep_go_step split: if_splits)

lemma play_reach: "play key calm ms s = Some s' \<Longrightarrow> pl_reach key calm s \<Longrightarrow> pl_reach key calm s'"
  by (induction ms arbitrary: s) (auto dest: apply_move_step intro: pl_reach.step split: option.splits)

lemma played: "play key calm ms (pl_init now) = Some s \<Longrightarrow> pl_reach key calm s"
  using play_reach pl_reach.start by blast

text \<open>
  C33. Two threads never hold the lock of one key at the same time, as long as the sweep
  deletes no entry that a thread has loaded and not locked yet.
\<close>

theorem path_locks_exclude:
  assumes "pl_reach key True s" "holds s t k" "holds s u k"
  shows "t = u"
  using holds_exclusive current_reach pl_reach_inv assms by blast

definition one_writer :: "move list" where
  "one_writer = Begin 1 [''b'', ''a''] # Begin 2 [''a''] # replicate 9 (Go 1) @ replicate 3 (Go 2)"

theorem path_locks_exclude_witness:
  "\<exists>s. pl_reach id True s \<and> holds s 1 ''a'' \<and> holds s 1 ''b'' \<and> pc s 2 = Wanting ''a'' 0 [] \<and>
     (\<forall>u. holds s u ''a'' \<longrightarrow> 1 = u)"
proof -
  have "map_option (\<lambda>s. (held s 1, pc s 2)) (play id True one_writer (pl_init 0)) =
      Some ([(''b'', 1), (''a'', 0)], Wanting ''a'' 0 [])"
    by code_simp
  then obtain s where s: "play id True one_writer (pl_init 0) = Some s" "held s 1 = [(''b'', 1), (''a'', 0)]"
    "pc s 2 = Wanting ''a'' 0 []"
    by auto
  then have h: "holds s 1 ''a''" "holds s 1 ''b''" by (auto simp: holds_def)
  have "\<forall>u. holds s u ''a'' \<longrightarrow> 1 = u"
    using path_locks_exclude [OF played [OF s(1)] h(1)] by blast
  then show ?thesis using played [OF s(1)] h s(3) by blast
qed

text \<open>
  The sweep of the code does delete under a thread. Thread 1 has loaded an entry an hour old
  when the sweep finds it idle, locks it, finds it idle again and deletes it; the stamp that
  should have protected it comes after. Thread 2 makes a new entry for the key, and both write.
\<close>

definition sweep_race :: "move list" where
  "sweep_race =
     Begin 1 [''a''] # replicate 9 (Go 1) @ [Tick pathLockIdleExpiry, Begin 1 [''a''], Go 1, Go 1] @
     replicate 6 (Sweep ''a'') @ [Go 1, Go 1, Begin 2 [''a'']] @ replicate 4 (Go 2)"

lemma sweep_breaks_exclusion: "\<exists>s. pl_reach id False s \<and> holds s 1 ''a'' \<and> holds s 2 ''a''"
proof -
  have "map_option (\<lambda>s. (held s 1, held s 2)) (play id False sweep_race (pl_init 0)) = Some ([(''a'', 0)], [(''a'', 1)])"
    by code_simp
  then obtain s where "play id False sweep_race (pl_init 0) = Some s" "held s 1 = [(''a'', 0)]" "held s 2 = [(''a'', 1)]"
    by auto
  then show ?thesis using played [of id False sweep_race 0 s] by (force simp: holds_def)
qed

text \<open>
  No deadlock, whatever files the threads write and whatever the sweep does: from every
  reachable state a thread that waits for a lock can be brought to hold the locks of all the
  files it asked for.
\<close>

theorem path_locks_progress:
  assumes "pl_reach key False s" "acquiring (pc s t)"
  shows "\<exists>s'. (pl_step key False)\<^sup>*\<^sup>* s s' \<and> pc s' t = Working \<and> map fst (held s' t) = rev (asked s t)"
proof -
  obtain s2 where "(pl_step key False)\<^sup>*\<^sup>* s s2" "\<forall>t. pc s2 t = Idle"
    using all_done [OF pl_reach_inv [OF assms(1)]] by blast
  then show ?thesis using passes_working [OF _ assms(2)] by blast
qed

theorem path_locks_progress_witness:
  "\<exists>s s'. pl_reach id False s \<and> blocked s 2 \<and> (pl_step id False)\<^sup>*\<^sup>* s s' \<and> pc s' 2 = Working \<and> holds s' 2 ''a''"
proof -
  have "map_option (\<lambda>s. (held s 2, pc s 2, owner s 0)) (play id False one_writer (pl_init 0)) =
      Some ([], Wanting ''a'' 0 [], Some (Thread 1))"
    by code_simp
  then obtain s where s: "play id False one_writer (pl_init 0) = Some s" "held s 2 = []"
    "pc s 2 = Wanting ''a'' 0 []" "owner s 0 = Some (Thread 1)"
    by auto
  then have a: "acquiring (pc s 2)" "asked s 2 = [''a'']" "blocked s 2" by (simp_all add: acquiring_def asked_def blocked_def)
  obtain s' where s': "(pl_step id False)\<^sup>*\<^sup>* s s'" "pc s' 2 = Working" "map fst (held s' 2) = rev (asked s 2)"
    using path_locks_progress [OF played [OF s(1)] a(1)] by blast
  then have "''a'' \<in> set (map fst (held s' 2))" using a(2) by simp
  then have "holds s' 2 ''a''" by (auto simp: holds_def)
  then show ?thesis using s' a(3) played [OF s(1)] by blast
qed

end
