(* ===== verification/Plumb_Pool.thy ===== *)
theory Plumb_Pool
  imports Plumb_Prelude
begin

text \<open>
  The pool of language servers (\<open>internal/cli/pool.go\<close>, \<open>pool_start.go\<close>, \<open>pool_lease.go\<close>,
  \<open>pool_lifecycle.go\<close>, \<open>pool_hibernate.go\<close>, \<open>pool_budget.go\<close>, \<open>proxy.go\<close>) as a machine that takes
  one action at a time: sessions that pin a server, calls that lease it, admission under a cap,
  hibernation, idle teardown, and the supervisors that start processes. A section under the mutex
  of the pool is one action, except where it does what calls can see without the mutex: reading,
  clearing and checking a proxy are actions of their own, taken by the holder of the mutex.

  Clients of a server, one for each process that finished its handshake, are numbered. What is
  kept for the statements alone is said to be so.
\<close>

type_synonym pool_key = "string \<times> string"

datatype lifecycle = Pool_active | Pool_hibernating | Pool_hibernated | Pool_starting | Pool_waking

definition is_running :: "lifecycle \<Rightarrow> bool" where
  "is_running s = (s = Pool_active \<or> s = Pool_starting \<or> s = Pool_waking)"

text \<open>
  An entry with its proxy (\<open>pe_client\<close>, \<open>pe_inflight\<close>, \<open>pe_held\<close>, \<open>pe_used\<close>), its grace timer, the
  callbacks of that timer and the notices of idleness on their way to the mutex, and its
  supervisor: whether its loop runs, the client whose handshake is under way, whether none was
  completed since it was started, and whether that first start failed. For the
  statements: whether the process is being stopped to save its memory, and the number below which
  clients were stopped so.
\<close>

record pool_entry =
  pe_key :: pool_key
  pe_max :: int
  pe_state :: lifecycle
  pe_refs :: nat
  pe_held :: bool
  pe_inflight :: nat
  pe_client :: "nat option"
  pe_used :: int
  pe_timer :: bool
  pe_fired :: nat
  pe_notices :: nat
  pe_up :: bool
  pe_boot :: "nat option"
  pe_first :: bool
  pe_failed :: bool
  pe_doomed :: bool
  pe_floor :: nat

text \<open>
  What a call does: it is acquiring a server, has counted itself and not read the client, counted itself in vain, holds a
  lease without a client, runs on a client, or has returned the last lease and looks whether a
  session holds the entry.
\<close>

datatype pool_call =
    Outside
  | Acquiring
  | Counted nat
  | Releasing nat
  | Leased nat
  | Running nat nat
  | Ended nat

text \<open>What the holder of the mutex is about: a start or a wake being admitted, or a teardown.\<close>

datatype pool_goal =
    To_start nat pool_key int bool bool
  | To_wake nat nat bool bool
  | To_hibernate
  | To_reap

datatype pool_task =
    Free
  | Admitting pool_goal
  | Finishing pool_goal
  | Peeked nat "nat option" pool_goal
  | Cleared nat "nat option" pool_goal

record pool =
  pool_map :: "pool_key \<Rightarrow> nat option"
  pool_entries :: "nat \<Rightarrow> pool_entry"
  next_entry :: nat
  next_client :: nat
  pool_calls :: "nat \<Rightarrow> pool_call"
  pool_task :: pool_task
  published_late :: "nat \<Rightarrow> bool"

definition new_entry :: "pool_key \<Rightarrow> int \<Rightarrow> int \<Rightarrow> nat \<Rightarrow> pool_entry" where
  "new_entry k m now fl =
     \<lparr>pe_key = k, pe_max = m, pe_state = Pool_starting, pe_refs = 0, pe_held = False, pe_inflight = 0, pe_client = None,
      pe_used = now, pe_timer = False, pe_fired = 0, pe_notices = 0, pe_up = True, pe_boot = None, pe_first = True,
      pe_failed = False, pe_doomed = False, pe_floor = fl\<rparr>"

definition newWorkspacePool :: pool where
  "newWorkspacePool =
     \<lparr>pool_map = Map.empty, pool_entries = (\<lambda>_. (new_entry ([], []) 0 0 0)\<lparr>pe_up := False\<rparr>), next_entry = 0, next_client = 0,
      pool_calls = (\<lambda>_. Outside), pool_task = Free, published_late = (\<lambda>_. False)\<rparr>"

definition on_entry :: "nat \<Rightarrow> (pool_entry \<Rightarrow> pool_entry) \<Rightarrow> pool \<Rightarrow> pool" where
  "on_entry n f s = s\<lparr>pool_entries := (pool_entries s)(n := f (pool_entries s n))\<rparr>"

definition set_pool_call :: "nat \<Rightarrow> pool_call \<Rightarrow> pool \<Rightarrow> pool" where
  "set_pool_call t c s = s\<lparr>pool_calls := (pool_calls s)(t := c)\<rparr>"

definition is_mapped :: "pool \<Rightarrow> nat \<Rightarrow> bool" where
  "is_mapped s n = (pool_map s (pe_key (pool_entries s n)) = Some n)"

section \<open>Leases\<close>

definition pinLocked :: "pool_entry \<Rightarrow> pool_entry" where
  "pinLocked e = e\<lparr>pe_refs := Suc (pe_refs e), pe_held := True, pe_timer := False\<rparr>"

definition leaseLocked :: "bool \<Rightarrow> bool \<Rightarrow> pool_entry \<Rightarrow> pool_entry" where
  "leaseLocked pin call e =
     (let e1 = (if pin then pinLocked e else e) in
      if call then e1\<lparr>pe_inflight := Suc (pe_inflight e1), pe_timer := False\<rparr> else e1)"

definition unleaseLocked :: "pool_entry \<Rightarrow> pool_entry" where
  "unleaseLocked e =
     (if pe_refs e = 0 then e
      else if 0 < pe_refs e - 1 then e\<lparr>pe_refs := pe_refs e - 1\<rparr>
      else e\<lparr>pe_refs := pe_refs e - 1, pe_held := False, pe_timer := True\<rparr>)"

section \<open>Admission\<close>

text \<open>The entries of a language whose process is up, in the order they were made.\<close>

definition running_of :: "pool \<Rightarrow> string \<Rightarrow> nat option \<Rightarrow> nat list" where
  "running_of s language exclude =
     filter (\<lambda>n. is_mapped s n \<and> snd (pe_key (pool_entries s n)) = language \<and> Some n \<noteq> exclude \<and>
       is_running (pe_state (pool_entries s n))) [0..<next_entry s]"

definition victimBefore :: "pool_entry \<Rightarrow> pool_entry \<Rightarrow> bool" where
  "victimBefore a b =
     (if (pe_refs a = 0) \<noteq> (pe_refs b = 0) then pe_refs a = 0 else pe_used a < pe_used b)"

fun victim_loop :: "pool \<Rightarrow> nat list \<Rightarrow> nat option \<Rightarrow> nat option" where
  "victim_loop s [] v = v"
| "victim_loop s (n # ns) v =
     (if 0 < pe_inflight (pool_entries s n) then victim_loop s ns v
      else
        (case v of
           None \<Rightarrow> victim_loop s ns (Some n)
         | Some b \<Rightarrow>
             victim_loop s ns (if victimBefore (pool_entries s n) (pool_entries s b) then Some n else Some b)))"

definition overBudgetVictim :: "pool \<Rightarrow> string \<Rightarrow> int \<Rightarrow> nat option \<Rightarrow> nat option" where
  "overBudgetVictim s language maxRunning exclude =
     (if maxRunning \<le> 0 \<or> int (length (running_of s language exclude)) < maxRunning then None
      else victim_loop s (running_of s language exclude) None)"

definition victim_for :: "pool \<Rightarrow> pool_goal \<Rightarrow> nat option" where
  "victim_for s g =
     (case g of
        To_start t k m pin call \<Rightarrow> overBudgetVictim s (snd k) m None
      | To_wake t n pin call \<Rightarrow>
          overBudgetVictim s (snd (pe_key (pool_entries s n))) (pe_max (pool_entries s n)) (Some n)
      | _ \<Rightarrow> None)"

text \<open>A lease just taken, as the caller sees it.\<close>

definition leased_call :: "nat \<Rightarrow> nat \<Rightarrow> bool \<Rightarrow> pool \<Rightarrow> pool" where
  "leased_call t n call s = set_pool_call t (if call then Leased n else Outside) s"

text \<open>The end of an admission: the new entry, or the hibernated one woken, with its leases.\<close>

definition finish_admission :: "int \<Rightarrow> pool_goal \<Rightarrow> pool \<Rightarrow> pool" where
  "finish_admission now g s =
     (case g of
        To_start t k m pin call \<Rightarrow>
          let n = next_entry s in
          leased_call t n call
            (s\<lparr>pool_map := (pool_map s)(k \<mapsto> n), next_entry := Suc n, pool_task := Free,
               pool_entries := (pool_entries s)(n := leaseLocked pin call (new_entry k m now (next_client s)))\<rparr>)
      | To_wake t n pin call \<Rightarrow>
          leased_call t n call
            (on_entry n (\<lambda>e. leaseLocked pin call
                (e\<lparr>pe_state := Pool_waking, pe_used := now, pe_up := True, pe_first := True, pe_doomed := False,
                    pe_floor := next_client s\<rparr>))
              (s\<lparr>pool_task := Free\<rparr>))
      | _ \<Rightarrow> s\<lparr>pool_task := Free\<rparr>)"

section \<open>The machine\<close>

datatype pool_action =
    Acquire nat pool_key int bool bool
  | Admit
  | Finish int
  | Wake_fails
  | Clear_proxy
  | Check_calls
  | Borrow nat
  | Unborrow nat
  | Release pool_key
  | Begin nat nat
  | Read_client nat int
  | Use_client nat
  | End nat int
  | Look_held nat
  | Schedule_reap nat
  | Timer_fires nat
  | Reap nat
  | Trim nat
  | Hibernate nat
  | Stopped nat
  | Spawn nat
  | Publish nat
  | Mark_active nat
  | Boot_fails nat
  | Remove_failed nat
  | Supervisor_ends nat

definition is_doomed_now :: "pool \<Rightarrow> nat \<Rightarrow> bool" where
  "is_doomed_now s n =
     (pe_doomed (pool_entries s n) \<or>
      (case pool_task s of Peeked m c g \<Rightarrow> m = n | Cleared m c g \<Rightarrow> m = n | _ \<Rightarrow> False))"

text \<open>
  The operations, each where it can be taken. \<open>admitLocked\<close> looks for a victim and reads its client,
  or goes on to the start; \<open>clear_proxy\<close> and \<open>beginHibernateLocked\<close> are the rest of the teardown, of
  \<open>reapEntry\<close> too. A server that exits by itself is started again by \<open>spawn_server\<close>. When the
  janitor hibernates and trims is left open, so the clocks it goes by do not matter.
\<close>

definition startOrReuse :: "nat \<Rightarrow> pool_key \<Rightarrow> int \<Rightarrow> bool \<Rightarrow> bool \<Rightarrow> pool \<Rightarrow> pool option" where
  [simp]: "startOrReuse t k m pin call s =
     (if pool_task s \<noteq> Free \<or> pool_calls s t \<noteq> Outside \<or> \<not> (pin \<or> call) then None
      else
        (case pool_map s k of
           None \<Rightarrow> Some (set_pool_call t Acquiring (s\<lparr>pool_task := Admitting (To_start t k m pin call)\<rparr>))
         | Some n \<Rightarrow>
             if pe_state (pool_entries s n) = Pool_hibernated then Some (set_pool_call t Acquiring (s\<lparr>pool_task := Admitting (To_wake t n pin call)\<rparr>))
             else Some (leased_call t n call (on_entry n (leaseLocked pin call) s))))"

definition admitLocked :: "pool \<Rightarrow> pool option" where
  [simp]: "admitLocked s =
     (case pool_task s of
        Admitting g \<Rightarrow>
          (case victim_for s g of
             Some v \<Rightarrow> Some (s\<lparr>pool_task := Peeked v (pe_client (pool_entries s v)) g\<rparr>)
           | None \<Rightarrow> Some (s\<lparr>pool_task := Finishing g\<rparr>))
      | _ \<Rightarrow> None)"

definition finish_start :: "int \<Rightarrow> pool \<Rightarrow> pool option" where
  [simp]: "finish_start now s =
     (case pool_task s of Finishing g \<Rightarrow> Some (finish_admission now g s) | _ \<Rightarrow> None)"

definition wake_fails :: "pool \<Rightarrow> pool option" where
  [simp]: "wake_fails s =
     (case pool_task s of
        Finishing (To_wake t n pin call) \<Rightarrow> Some (set_pool_call t Outside (s\<lparr>pool_task := Free\<rparr>))
      | _ \<Rightarrow> None)"

definition clear_proxy :: "pool \<Rightarrow> pool option" where
  [simp]: "clear_proxy s =
     (case pool_task s of
        Peeked v c g \<Rightarrow> Some (on_entry v (\<lambda>e. e\<lparr>pe_client := None\<rparr>) (s\<lparr>pool_task := Cleared v c g\<rparr>))
      | _ \<Rightarrow> None)"

definition beginHibernateLocked :: "pool \<Rightarrow> pool option" where
  [simp]: "beginHibernateLocked s =
     (case pool_task s of
        Cleared v c g \<Rightarrow>
          if 0 < pe_inflight (pool_entries s v) then
            let s' = on_entry v (\<lambda>e. e\<lparr>pe_client := c\<rparr>) s in
            Some (case g of
                To_hibernate \<Rightarrow> s'\<lparr>pool_task := Free\<rparr>
              | To_reap \<Rightarrow> s'\<lparr>pool_task := Free\<rparr>
              | _ \<Rightarrow> s'\<lparr>pool_task := Finishing g\<rparr>)
          else
            Some (case g of
                To_reap \<Rightarrow> on_entry v (\<lambda>e. e\<lparr>pe_doomed := True\<rparr>)
                  (s\<lparr>pool_map := (pool_map s)(pe_key (pool_entries s v) := None), pool_task := Free\<rparr>)
              | To_hibernate \<Rightarrow> on_entry v (\<lambda>e. e\<lparr>pe_state := Pool_hibernating, pe_doomed := True\<rparr>) (s\<lparr>pool_task := Free\<rparr>)
              | _ \<Rightarrow> on_entry v (\<lambda>e. e\<lparr>pe_state := Pool_hibernating, pe_doomed := True\<rparr>) (s\<lparr>pool_task := Admitting g\<rparr>))
      | _ \<Rightarrow> None)"

definition borrow :: "nat \<Rightarrow> pool \<Rightarrow> pool option" where
  [simp]: "borrow n s =
     (if pool_task s = Free \<and> n < next_entry s \<and> is_mapped s n then Some (on_entry n pinLocked s) else None)"

definition unborrow :: "nat \<Rightarrow> pool \<Rightarrow> pool option" where
  [simp]: "unborrow n s =
     (if pool_task s = Free \<and> n < next_entry s \<and> is_mapped s n then Some (on_entry n unleaseLocked s) else None)"

definition release_pin :: "pool_key \<Rightarrow> pool \<Rightarrow> pool option" where
  [simp]: "release_pin k s =
     (if pool_task s \<noteq> Free then None
      else (case pool_map s k of None \<Rightarrow> Some s | Some n \<Rightarrow> Some (on_entry n unleaseLocked s)))"

definition begin_call :: "nat \<Rightarrow> nat \<Rightarrow> pool \<Rightarrow> pool option" where
  [simp]: "begin_call t n s =
     (if pool_calls s t = Outside \<and> n < next_entry s then
        Some (set_pool_call t (Counted n) (on_entry n (\<lambda>e. e\<lparr>pe_inflight := Suc (pe_inflight e)\<rparr>) s))
      else None)"

definition read_client :: "nat \<Rightarrow> int \<Rightarrow> pool \<Rightarrow> pool option" where
  [simp]: "read_client t now s =
     (case pool_calls s t of
        Counted n \<Rightarrow>
          (case pe_client (pool_entries s n) of
             None \<Rightarrow> Some (set_pool_call t (Releasing n) s)
           | Some c \<Rightarrow> Some (set_pool_call t (Running n c) (on_entry n (\<lambda>e. e\<lparr>pe_used := now\<rparr>) s)))
      | _ \<Rightarrow> None)"

definition use_client :: "nat \<Rightarrow> pool \<Rightarrow> pool option" where
  [simp]: "use_client t s =
     (case pool_calls s t of
        Leased n \<Rightarrow>
          (case pe_client (pool_entries s n) of None \<Rightarrow> None | Some c \<Rightarrow> Some (set_pool_call t (Running n c) s))
      | _ \<Rightarrow> None)"

definition end_call :: "nat \<Rightarrow> int \<Rightarrow> pool \<Rightarrow> pool option" where
  [simp]: "end_call t now s =
     (case (case pool_calls s t of Releasing n \<Rightarrow> Some (n, False) | Leased n \<Rightarrow> Some (n, True) | Running n c \<Rightarrow> Some (n, True) | _ \<Rightarrow> None) of
        Some (n, touched) \<Rightarrow>
          Some (set_pool_call t (if pe_inflight (pool_entries s n) = 1 then Ended n else Outside)
            (on_entry n (\<lambda>e. e\<lparr>pe_used := (if touched then now else pe_used e), pe_inflight := pe_inflight e - 1\<rparr>) s))
      | None \<Rightarrow> None)"

definition look_held :: "nat \<Rightarrow> pool \<Rightarrow> pool option" where
  [simp]: "look_held t s =
     (case pool_calls s t of
        Ended n \<Rightarrow>
          Some (set_pool_call t Outside
            (if pe_held (pool_entries s n) then s else on_entry n (\<lambda>e. e\<lparr>pe_notices := Suc (pe_notices e)\<rparr>) s))
      | _ \<Rightarrow> None)"

definition scheduleIdleReap :: "nat \<Rightarrow> pool \<Rightarrow> pool option" where
  [simp]: "scheduleIdleReap n s =
     (if pool_task s = Free \<and> n < next_entry s \<and> 0 < pe_notices (pool_entries s n) then
        Some (on_entry n (\<lambda>e. e\<lparr>pe_notices := pe_notices e - 1,
                pe_timer := (if is_mapped s n \<and> pe_refs e = 0 \<and> pe_inflight e = 0 then True else pe_timer e)\<rparr>) s)
      else None)"

definition timer_fires :: "nat \<Rightarrow> pool \<Rightarrow> pool option" where
  [simp]: "timer_fires n s =
     (if n < next_entry s \<and> pe_timer (pool_entries s n) then
        Some (on_entry n (\<lambda>e. e\<lparr>pe_timer := False, pe_fired := Suc (pe_fired e)\<rparr>) s)
      else None)"

definition reapEntry :: "nat \<Rightarrow> pool \<Rightarrow> pool option" where
  [simp]: "reapEntry n s =
     (if pool_task s = Free \<and> n < next_entry s \<and> 0 < pe_fired (pool_entries s n) then
        let s' = on_entry n (\<lambda>e. e\<lparr>pe_fired := pe_fired e - 1\<rparr>) s in
        Some (if is_mapped s n \<and> pe_refs (pool_entries s n) = 0
              then s'\<lparr>pool_task := Peeked n (pe_client (pool_entries s n)) To_reap\<rparr> else s')
      else None)"

definition trimLongHibernated :: "nat \<Rightarrow> pool \<Rightarrow> pool option" where
  [simp]: "trimLongHibernated n s =
     (if pool_task s = Free \<and> n < next_entry s \<and> is_mapped s n \<and> pe_state (pool_entries s n) = Pool_hibernated \<and>
        pe_refs (pool_entries s n) = 0
      then Some (on_entry n (\<lambda>e. e\<lparr>pe_fired := Suc (pe_fired e)\<rparr>) s) else None)"

definition hibernateEntry :: "nat \<Rightarrow> pool \<Rightarrow> pool option" where
  [simp]: "hibernateEntry n s =
     (if pool_task s = Free \<and> n < next_entry s \<and> is_running (pe_state (pool_entries s n))
      then Some (s\<lparr>pool_task := Peeked n (pe_client (pool_entries s n)) To_hibernate\<rparr>) else None)"

definition finishHibernate :: "nat \<Rightarrow> pool \<Rightarrow> pool option" where
  [simp]: "finishHibernate n s =
     (if pool_task s = Free \<and> n < next_entry s \<and> pe_state (pool_entries s n) = Pool_hibernating
      then Some (on_entry n (\<lambda>e. e\<lparr>pe_state := Pool_hibernated, pe_up := False, pe_boot := None\<rparr>) s) else None)"

definition spawn_server :: "nat \<Rightarrow> pool \<Rightarrow> pool option" where
  [simp]: "spawn_server n s =
     (if n < next_entry s \<and> pe_up (pool_entries s n) \<and> pe_boot (pool_entries s n) = None
      then Some (on_entry n (\<lambda>e. e\<lparr>pe_boot := Some (next_client s)\<rparr>) (s\<lparr>next_client := Suc (next_client s)\<rparr>)) else None)"

definition poolOnStart :: "nat \<Rightarrow> pool \<Rightarrow> pool option" where
  [simp]: "poolOnStart n s =
     (case pe_boot (pool_entries s n) of
        Some c \<Rightarrow>
          if n < next_entry s \<and> pe_up (pool_entries s n) then
            Some (on_entry n (\<lambda>e. e\<lparr>pe_client := Some c, pe_boot := None, pe_first := False\<rparr>)
              (s\<lparr>published_late := (published_late s)(c := published_late s c \<or> is_doomed_now s n)\<rparr>))
          else None
      | None \<Rightarrow> None)"

definition markActive :: "nat \<Rightarrow> pool \<Rightarrow> pool option" where
  [simp]: "markActive n s =
     (if pool_task s = Free \<and> n < next_entry s \<and> \<not> pe_first (pool_entries s n) then
        Some (on_entry n (\<lambda>e. if pe_state e = Pool_starting \<or> pe_state e = Pool_waking then e\<lparr>pe_state := Pool_active\<rparr> else e) s)
      else None)"

definition retryAfterStartFailure :: "nat \<Rightarrow> pool \<Rightarrow> pool option" where
  [simp]: "retryAfterStartFailure n s =
     (if n < next_entry s \<and> pe_up (pool_entries s n) then
        Some (on_entry n (\<lambda>e. if pe_first e then e\<lparr>pe_boot := None, pe_up := False, pe_failed := True\<rparr> else e\<lparr>pe_boot := None\<rparr>) s)
      else None)"

definition removeFailed :: "nat \<Rightarrow> pool \<Rightarrow> pool option" where
  [simp]: "removeFailed n s =
     (if pool_task s = Free \<and> n < next_entry s \<and> pe_failed (pool_entries s n) then
        Some (on_entry n (\<lambda>e. e\<lparr>pe_failed := False, pe_up := False, pe_boot := None\<rparr>)
          (if is_mapped s n then s\<lparr>pool_map := (pool_map s)(pe_key (pool_entries s n) := None)\<rparr> else s))
      else None)"

definition supervisor_ends :: "nat \<Rightarrow> pool \<Rightarrow> pool option" where
  [simp]: "supervisor_ends n s =
     (if n < next_entry s \<and> \<not> is_mapped s n then Some (on_entry n (\<lambda>e. e\<lparr>pe_up := False, pe_boot := None\<rparr>) s) else None)"

text \<open>One action.\<close>

fun pool_step :: "pool_action \<Rightarrow> pool \<Rightarrow> pool option" where
  "pool_step (Acquire t k m pin call) s = startOrReuse t k m pin call s"
| "pool_step Admit s = admitLocked s"
| "pool_step (Finish now) s = finish_start now s"
| "pool_step Wake_fails s = wake_fails s"
| "pool_step Clear_proxy s = clear_proxy s"
| "pool_step Check_calls s = beginHibernateLocked s"
| "pool_step (Borrow n) s = borrow n s"
| "pool_step (Unborrow n) s = unborrow n s"
| "pool_step (Release k) s = release_pin k s"
| "pool_step (Begin t n) s = begin_call t n s"
| "pool_step (Read_client t now) s = read_client t now s"
| "pool_step (Use_client t) s = use_client t s"
| "pool_step (End t now) s = end_call t now s"
| "pool_step (Look_held t) s = look_held t s"
| "pool_step (Schedule_reap n) s = scheduleIdleReap n s"
| "pool_step (Timer_fires n) s = timer_fires n s"
| "pool_step (Reap n) s = reapEntry n s"
| "pool_step (Trim n) s = trimLongHibernated n s"
| "pool_step (Hibernate n) s = hibernateEntry n s"
| "pool_step (Stopped n) s = finishHibernate n s"
| "pool_step (Spawn n) s = spawn_server n s"
| "pool_step (Publish n) s = poolOnStart n s"
| "pool_step (Mark_active n) s = markActive n s"
| "pool_step (Boot_fails n) s = retryAfterStartFailure n s"
| "pool_step (Remove_failed n) s = removeFailed n s"
| "pool_step (Supervisor_ends n) s = supervisor_ends n s"

inductive pool_reach :: "pool \<Rightarrow> bool" where
  start: "pool_reach newWorkspacePool"
| act: "pool_reach s \<Longrightarrow> pool_step a s = Some s' \<Longrightarrow> pool_reach s'"

fun pool_run :: "pool_action list \<Rightarrow> pool \<Rightarrow> pool option" where
  "pool_run [] s = Some s"
| "pool_run (a # as) s = (case pool_step a s of None \<Rightarrow> None | Some s' \<Rightarrow> pool_run as s')"

end
