(* ===== verification/Plumb_Pool_Correct.thy ===== *)
theory Plumb_Pool_Correct
  imports Plumb_Pool
begin

text \<open>
  The invariants of the pool: every lease is counted, an entry that nothing leases is on its way
  to being reaped, and what is known of the clients of an entry that is put away.
\<close>

lemmas pool_defs = on_entry_def set_pool_call_def leased_call_def finish_admission_def Let_def is_mapped_def

lemmas pool_splits = if_splits option.splits pool_call.splits pool_task.splits pool_goal.splits

lemma pool_simps [simp]:
  "pool_calls (on_entry n f s) = pool_calls s"
  "pool_task (on_entry n f s) = pool_task s"
  "pool_map (on_entry n f s) = pool_map s"
  "next_entry (on_entry n f s) = next_entry s"
  "next_client (on_entry n f s) = next_client s"
  "published_late (on_entry n f s) = published_late s"
  "pool_entries (on_entry n f s) = (pool_entries s)(n := f (pool_entries s n))"
  "pool_entries (set_pool_call t c s) = pool_entries s"
  "pool_task (set_pool_call t c s) = pool_task s"
  "pool_map (set_pool_call t c s) = pool_map s"
  "next_entry (set_pool_call t c s) = next_entry s"
  "next_client (set_pool_call t c s) = next_client s"
  "published_late (set_pool_call t c s) = published_late s"
  "pool_calls (set_pool_call t c s) = (pool_calls s)(t := c)"
  by (simp_all add: on_entry_def set_pool_call_def)

lemma entry_simps [simp]:
  "pe_key (leaseLocked p c e) = pe_key e" "pe_key (pinLocked e) = pe_key e" "pe_key (unleaseLocked e) = pe_key e"
  "pe_state (leaseLocked p c e) = pe_state e" "pe_state (pinLocked e) = pe_state e" "pe_state (unleaseLocked e) = pe_state e"
  "pe_client (leaseLocked p c e) = pe_client e" "pe_client (pinLocked e) = pe_client e" "pe_client (unleaseLocked e) = pe_client e"
  "pe_boot (leaseLocked p c e) = pe_boot e" "pe_boot (pinLocked e) = pe_boot e" "pe_boot (unleaseLocked e) = pe_boot e"
  "pe_up (leaseLocked p c e) = pe_up e" "pe_up (pinLocked e) = pe_up e" "pe_up (unleaseLocked e) = pe_up e"
  "pe_doomed (leaseLocked p c e) = pe_doomed e" "pe_doomed (pinLocked e) = pe_doomed e" "pe_doomed (unleaseLocked e) = pe_doomed e"
  "pe_floor (leaseLocked p c e) = pe_floor e" "pe_floor (pinLocked e) = pe_floor e" "pe_floor (unleaseLocked e) = pe_floor e"
  "pe_fired (leaseLocked p c e) = pe_fired e" "pe_fired (pinLocked e) = pe_fired e" "pe_fired (unleaseLocked e) = pe_fired e"
  "pe_notices (leaseLocked p c e) = pe_notices e" "pe_notices (pinLocked e) = pe_notices e" "pe_notices (unleaseLocked e) = pe_notices e"
  "pe_inflight (leaseLocked p c e) = (if c then Suc (pe_inflight e) else pe_inflight e)"
  "pe_inflight (pinLocked e) = pe_inflight e" "pe_inflight (unleaseLocked e) = pe_inflight e"
  "pe_refs (leaseLocked p c e) = (if p then Suc (pe_refs e) else pe_refs e)"
  "pe_refs (pinLocked e) = Suc (pe_refs e)" "pe_refs (unleaseLocked e) = pe_refs e - 1"
  "pe_held (leaseLocked p c e) = (p \<or> pe_held e)" "pe_held (pinLocked e)"
  "pe_held (unleaseLocked e) = (if pe_refs e = 1 then False else pe_held e)"
  "pe_timer (leaseLocked p c e) = (if p \<or> c then False else pe_timer e)"
  "pe_timer (unleaseLocked e) = (pe_refs e = 1 \<or> pe_timer e)"
  by (auto simp: leaseLocked_def pinLocked_def unleaseLocked_def Let_def)

lemma new_entry_simps [simp]:
  "pe_key (new_entry k m now fl) = k" "pe_state (new_entry k m now fl) = Pool_starting" "pe_refs (new_entry k m now fl) = 0"
  "pe_inflight (new_entry k m now fl) = 0" "pe_client (new_entry k m now fl) = None" "\<not> pe_held (new_entry k m now fl)"
  "pe_boot (new_entry k m now fl) = None" "\<not> pe_doomed (new_entry k m now fl)" "pe_floor (new_entry k m now fl) = fl"
  "\<not> pe_timer (new_entry k m now fl)" "pe_fired (new_entry k m now fl) = 0" "pe_notices (new_entry k m now fl) = 0"
  by (simp_all add: new_entry_def)

section \<open>Leases are counted\<close>

fun lessee :: "pool_call \<Rightarrow> nat option" where
  "lessee (Counted n) = Some n"
| "lessee (Releasing n) = Some n"
| "lessee (Leased n) = Some n"
| "lessee (Running n c) = Some n"
| "lessee _ = None"

definition lessees :: "(nat \<Rightarrow> pool_call) \<Rightarrow> nat \<Rightarrow> nat set" where
  "lessees f n = {t. lessee (f t) = Some n}"

lemma lessees_upd [simp]:
  "lessees (f(t := c)) n = (if lessee c = Some n then insert t (lessees f n) else lessees f n - {t})"
  by (auto simp: lessees_def)

lemma lessees_iff [simp]: "t \<in> lessees f n \<longleftrightarrow> lessee (f t) = Some n"
  by (simp add: lessees_def)

fun goal_of :: "pool_task \<Rightarrow> pool_goal option" where
  "goal_of Free = None"
| "goal_of (Admitting g) = Some g"
| "goal_of (Finishing g) = Some g"
| "goal_of (Peeked v c g) = Some g"
| "goal_of (Cleared v c g) = Some g"

fun acquirer :: "pool_goal \<Rightarrow> nat option" where
  "acquirer (To_start t k m p c) = Some t"
| "acquirer (To_wake t n p c) = Some t"
| "acquirer _ = None"

definition counts_ok :: "pool \<Rightarrow> nat \<Rightarrow> bool" where
  "counts_ok s n = (finite (lessees (pool_calls s) n) \<and> pe_inflight (pool_entries s n) = card (lessees (pool_calls s) n))"

definition acquirer_ok :: "pool \<Rightarrow> bool" where
  "acquirer_ok s =
     (case goal_of (pool_task s) of None \<Rightarrow> True
      | Some g \<Rightarrow> (case acquirer g of None \<Rightarrow> True | Some t \<Rightarrow> pool_calls s t = Acquiring))"

lemma acquirer_ok_step: "acquirer_ok s \<Longrightarrow> pool_step a s = Some s' \<Longrightarrow> acquirer_ok s'"
  by (cases a) (auto simp: acquirer_ok_def pool_defs split: pool_splits)

text \<open>Only entries that were made are mapped, leased or worked on.\<close>

fun goal_entry :: "pool_goal \<Rightarrow> nat option" where
  "goal_entry (To_wake t n p c) = Some n"
| "goal_entry _ = None"

fun task_entry :: "pool_task \<Rightarrow> nat option" where
  "task_entry (Peeked v c g) = Some v"
| "task_entry (Cleared v c g) = Some v"
| "task_entry _ = None"

definition pool_wf :: "pool \<Rightarrow> bool" where
  "pool_wf s =
     ((\<forall>k n. pool_map s k = Some n \<longrightarrow> n < next_entry s \<and> pe_key (pool_entries s n) = k) \<and>
      (\<forall>t n. lessee (pool_calls s t) = Some n \<longrightarrow> n < next_entry s) \<and>
      (\<forall>g n. goal_of (pool_task s) = Some g \<longrightarrow> goal_entry g = Some n \<longrightarrow> n < next_entry s) \<and>
      (\<forall>n. task_entry (pool_task s) = Some n \<longrightarrow> n < next_entry s))"

lemma pool_wfD:
  assumes "pool_wf s"
  shows "pool_map s k = Some n \<Longrightarrow> n < next_entry s" "pool_map s k = Some n \<Longrightarrow> pe_key (pool_entries s n) = k"
    and "pool_calls s t = Counted n \<Longrightarrow> n < next_entry s" "pool_calls s t = Releasing n \<Longrightarrow> n < next_entry s"
    and "pool_calls s t = Leased n \<Longrightarrow> n < next_entry s" "pool_calls s t = Running n c \<Longrightarrow> n < next_entry s"
    and "goal_of (pool_task s) = Some (To_wake t n p q) \<Longrightarrow> n < next_entry s"
    and "task_entry (pool_task s) = Some n \<Longrightarrow> n < next_entry s"
    and "lessee (pool_calls s t) = Some n \<Longrightarrow> n < next_entry s"
proof -
  note w = assms [unfolded pool_wf_def]
  show "pool_map s k = Some n \<Longrightarrow> n < next_entry s" "pool_map s k = Some n \<Longrightarrow> pe_key (pool_entries s n) = k"
    using w by blast+
  have l: "lessee (pool_calls s t) = Some n \<Longrightarrow> n < next_entry s" for t n using w by blast
  then show "lessee (pool_calls s t) = Some n \<Longrightarrow> n < next_entry s" .
  show "pool_calls s t = Counted n \<Longrightarrow> n < next_entry s" "pool_calls s t = Releasing n \<Longrightarrow> n < next_entry s"
    "pool_calls s t = Leased n \<Longrightarrow> n < next_entry s" "pool_calls s t = Running n c \<Longrightarrow> n < next_entry s"
    using l [of t n] by simp_all
  show "goal_of (pool_task s) = Some (To_wake t n p q) \<Longrightarrow> n < next_entry s" using w by fastforce
  show "task_entry (pool_task s) = Some n \<Longrightarrow> n < next_entry s" using w by blast
qed

lemma victim_loop_in: "victim_loop s ns v = Some n \<Longrightarrow> n \<in> set ns \<or> v = Some n"
  by (induction ns arbitrary: v) (auto split: if_splits option.splits)

lemma victim_running:
  assumes "victim_for s g = Some v"
  shows "v < next_entry s" "is_mapped s v" "is_running (pe_state (pool_entries s v))"
  using assms
  by (auto simp: victim_for_def overBudgetVictim_def running_of_def split: pool_goal.splits if_splits dest!: victim_loop_in)

text \<open>What a step does to each part of the pool.\<close>

lemma next_after: "pool_step a s = Some s' \<Longrightarrow> next_entry s \<le> next_entry s'"
  by (cases a) (auto simp: pool_defs split: pool_splits)

lemma key_after: "pool_step a s = Some s' \<Longrightarrow> n < next_entry s \<Longrightarrow> pe_key (pool_entries s' n) = pe_key (pool_entries s n)"
  by (cases a) (auto simp: pool_defs split: pool_splits)

lemma map_after:
  "pool_step a s = Some s' \<Longrightarrow> pool_map s' k = Some n \<Longrightarrow>
     pool_map s k = Some n \<or> n = next_entry s \<and> next_entry s' = Suc n \<and> pe_key (pool_entries s' n) = k"
  by (cases a) (auto simp: pool_defs split: pool_splits)

lemma lessee_after:
  "pool_step a s = Some s' \<Longrightarrow> lessee (pool_calls s' t) = Some n \<Longrightarrow>
     lessee (pool_calls s t) = Some n \<or> n < next_entry s \<or> n \<in> ran (pool_map s) \<or>
     n = next_entry s \<and> next_entry s' = Suc n \<or> (\<exists>g. goal_of (pool_task s) = Some g \<and> goal_entry g = Some n)"
  by (cases a) (auto simp: pool_defs intro: ranI split: pool_splits)

lemma goal_after:
  "pool_step a s = Some s' \<Longrightarrow> goal_of (pool_task s') = Some g \<Longrightarrow> goal_entry g = Some n \<Longrightarrow>
     goal_of (pool_task s) = Some g \<or> n \<in> ran (pool_map s)"
  by (cases a, auto simp: pool_defs split: pool_splits, (blast intro: ranI)+)

lemma task_after:
  "pool_step a s = Some s' \<Longrightarrow> task_entry (pool_task s') = Some n \<Longrightarrow> task_entry (pool_task s) = Some n \<or> n < next_entry s"
  by (cases a) (auto simp: pool_defs dest: victim_running split: pool_splits)

lemma pool_wf_step:
  assumes "pool_wf s" "pool_step a s = Some s'"
  shows "pool_wf s'"
  unfolding pool_wf_def
proof (intro conjI allI impI)
  note up = next_after [OF assms(2)] and w = pool_wfD [OF assms(1)]
  have entry: "goal_of (pool_task s) = Some g \<Longrightarrow> goal_entry g = Some n \<Longrightarrow> n < next_entry s" for g n
    using w(7) by (cases g) auto
  have mapped: "n \<in> ran (pool_map s) \<Longrightarrow> n < next_entry s" for n using w(1) by (auto simp: ran_def)
  show "n < next_entry s'" if "pool_map s' k = Some n" for k n
    using map_after [OF assms(2) that] w(1) up by fastforce
  show "pe_key (pool_entries s' n) = k" if "pool_map s' k = Some n" for k n
    using map_after [OF assms(2) that] w(1,2) key_after [OF assms(2)] by metis
  show "n < next_entry s'" if "lessee (pool_calls s' t) = Some n" for t n
    using lessee_after [OF assms(2) that] w(9) entry mapped up by fastforce
  show "n < next_entry s'" if "goal_of (pool_task s') = Some g" "goal_entry g = Some n" for g n
    using goal_after [OF assms(2) that] that(2) mapped entry up by fastforce
  show "n < next_entry s'" if "task_entry (pool_task s') = Some n" for n
    using task_after [OF assms(2) that] w(8) up by fastforce
qed

lemma counts_ok_call:
  assumes "counts_ok s n" "pool_calls s' = (pool_calls s)(t := c)"
    and "pe_inflight (pool_entries s' n) + (if lessee (pool_calls s t) = Some n then 1 else 0) =
      pe_inflight (pool_entries s n) + (if lessee c = Some n then 1 else 0)"
  shows "counts_ok s' n"
proof -
  have fin: "finite (lessees (pool_calls s) n)" and card: "pe_inflight (pool_entries s n) = card (lessees (pool_calls s) n)"
    using assms(1) by (simp_all add: counts_ok_def)
  have "0 < card (lessees (pool_calls s) n)" if "lessee (pool_calls s t) = Some n"
    using fin that by (auto simp: card_gt_0_iff lessees_def)
  then show ?thesis
    using fin card assms(2,3) by (auto simp: counts_ok_def card_insert_if card_Diff_singleton_if split: if_splits)
qed

lemma counts_ok_same:
  "counts_ok s n \<Longrightarrow> pool_calls s' = pool_calls s \<Longrightarrow> pe_inflight (pool_entries s' n) = pe_inflight (pool_entries s n) \<Longrightarrow>
     counts_ok s' n"
  by (simp add: counts_ok_def)

definition leases_ok :: "pool \<Rightarrow> bool" where
  "leases_ok s = (pool_wf s \<and> acquirer_ok s \<and> (\<forall>n. counts_ok s n))"

lemma acquirer_okD:
  "acquirer_ok s \<Longrightarrow> pool_task s = Finishing (To_start t k m p c) \<Longrightarrow> pool_calls s t = Acquiring"
  "acquirer_ok s \<Longrightarrow> pool_task s = Finishing (To_wake t n p c) \<Longrightarrow> pool_calls s t = Acquiring"
  by (simp_all add: acquirer_ok_def)

lemma no_lessees_yet:
  assumes "leases_ok s"
  shows "pe_inflight (pool_entries s (next_entry s)) = 0"
proof -
  have "lessees (pool_calls s) (next_entry s) = {}"
    using assms pool_wfD(9) [of s _ "next_entry s"] by (auto simp: leases_ok_def lessees_def)
  then show ?thesis using assms by (simp add: leases_ok_def counts_ok_def)
qed

text \<open>The thread whose call a step moves, if it moves one.\<close>

fun mover :: "pool_action \<Rightarrow> pool \<Rightarrow> nat option" where
  "mover (Acquire t k m pin call) s = Some t"
| "mover (Finish now) s = (case goal_of (pool_task s) of Some g \<Rightarrow> acquirer g | None \<Rightarrow> None)"
| "mover Wake_fails s = (case goal_of (pool_task s) of Some g \<Rightarrow> acquirer g | None \<Rightarrow> None)"
| "mover (Begin t n) s = Some t"
| "mover (Read_client t now) s = Some t"
| "mover (Use_client t) s = Some t"
| "mover (End t now) s = Some t"
| "mover (Look_held t) s = Some t"
| "mover _ s = None"

lemma unmoved:
  "pool_step a s = Some s' \<Longrightarrow> mover a s = None \<Longrightarrow>
     pool_calls s' = pool_calls s \<and> pe_inflight (pool_entries s' n) = pe_inflight (pool_entries s n)"
  by (cases a) (auto simp: pool_defs split: pool_splits)

lemma moved:
  assumes "leases_ok s" "pool_step a s = Some s'" "mover a s = Some t"
  shows "pool_calls s' = (pool_calls s)(t := pool_calls s' t) \<and>
    pe_inflight (pool_entries s' n) + (if lessee (pool_calls s t) = Some n then 1 else 0) =
      pe_inflight (pool_entries s n) + (if lessee (pool_calls s' t) = Some n then 1 else 0)"
proof -
  have pos: "0 < pe_inflight (pool_entries s n)" if "lessee (pool_calls s t) = Some n" for n
  proof -
    have "counts_ok s n" using assms(1) by (simp add: leases_ok_def)
    then show ?thesis using that by (auto simp: counts_ok_def card_gt_0_iff lessees_def)
  qed
  have acq: "acquirer_ok s" using assms(1) by (simp add: leases_ok_def)
  show ?thesis
    using assms(2,3) pos no_lessees_yet [OF assms(1)] acquirer_okD [OF acq]
    by (cases a) (auto simp: pool_defs split: pool_splits)
qed

lemma leases_ok_step:
  assumes "leases_ok s" "pool_step a s = Some s'"
  shows "leases_ok s'"
proof -
  have "counts_ok s' n" for n
  proof (cases "mover a s")
    case None
    then show ?thesis
      using unmoved [OF assms(2)] counts_ok_same [of s n s'] assms(1) by (simp add: leases_ok_def)
  next
    case (Some t)
    then show ?thesis
      using moved [OF assms Some, of n] counts_ok_call [of s n s' t] assms(1) by (auto simp: leases_ok_def)
  qed
  then show ?thesis
    using assms pool_wf_step acquirer_ok_step unfolding leases_ok_def by blast
qed

section \<open>Nothing idle is forgotten\<close>

definition held_ok :: "pool \<Rightarrow> bool" where
  "held_ok s = (\<forall>n. pe_held (pool_entries s n) \<longleftrightarrow> 0 < pe_refs (pool_entries s n))"

lemma held_ok_step: "held_ok s \<Longrightarrow> pool_step a s = Some s' \<Longrightarrow> held_ok s'"
  unfolding held_ok_def by (cases a) (auto simp: pool_defs split: pool_splits)

fun is_reaped :: "pool_task \<Rightarrow> nat \<Rightarrow> bool" where
  "is_reaped (Peeked v c g) n = (v = n \<and> g = To_reap)"
| "is_reaped (Cleared v c g) n = (v = n \<and> g = To_reap)"
| "is_reaped _ n = False"

definition watched :: "pool \<Rightarrow> nat \<Rightarrow> bool" where
  "watched s n =
     (pe_timer (pool_entries s n) \<or> 0 < pe_fired (pool_entries s n) \<or> 0 < pe_notices (pool_entries s n) \<or>
      is_reaped (pool_task s) n \<or> (\<exists>t. pool_calls s t = Ended n))"

definition unleased :: "pool \<Rightarrow> nat \<Rightarrow> bool" where
  "unleased s n = (is_mapped s n \<and> pe_refs (pool_entries s n) = 0 \<and> pe_inflight (pool_entries s n) = 0)"

lemma ended_after: "pool_step a s = Some s' \<Longrightarrow> acquirer_ok s \<Longrightarrow> pool_calls s t = Ended n \<Longrightarrow> pool_calls s' t = Ended n \<or> a = Look_held t"
  by (cases a) (auto simp: pool_defs acquirer_ok_def split: pool_splits)

text \<open>How an entry comes to be unleased, and what becomes of each reason to look at it again.\<close>

lemma refs_after:
  "pool_step a s = Some s' \<Longrightarrow> n < next_entry s \<Longrightarrow> pe_refs (pool_entries s' n) = 0 \<Longrightarrow>
     pe_refs (pool_entries s n) = 0 \<or> pe_timer (pool_entries s' n)"
  by (cases a) (auto simp: pool_defs split: pool_splits)

lemma inflight_after:
  "pool_step a s = Some s' \<Longrightarrow> n < next_entry s \<Longrightarrow> pe_inflight (pool_entries s' n) = 0 \<Longrightarrow>
     pe_inflight (pool_entries s n) = 0 \<or> (\<exists>t. pool_calls s' t = Ended n)"
  by (cases a) (auto simp: pool_defs split: pool_splits)

definition asks_lease :: "pool_task \<Rightarrow> bool" where
  "asks_lease k = (case goal_of k of Some (To_start t key m p c) \<Rightarrow> p \<or> c | Some (To_wake t n p c) \<Rightarrow> p \<or> c | _ \<Rightarrow> True)"

lemma asks_lease_step: "asks_lease (pool_task s) \<Longrightarrow> pool_step a s = Some s' \<Longrightarrow> asks_lease (pool_task s')"
  by (cases a) (auto simp: asks_lease_def pool_defs split: pool_splits)

lemma new_leased:
  "pool_step a s = Some s' \<Longrightarrow> asks_lease (pool_task s) \<Longrightarrow> next_entry s' = Suc (next_entry s) \<Longrightarrow> n = next_entry s \<Longrightarrow>
     0 < pe_refs (pool_entries s' n) \<or> 0 < pe_inflight (pool_entries s' n)"
  by (cases a) (auto simp: asks_lease_def pool_defs split: pool_splits)

lemma timer_after:
  "pool_step a s = Some s' \<Longrightarrow> n < next_entry s \<Longrightarrow> pe_timer (pool_entries s n) \<Longrightarrow>
     pe_timer (pool_entries s' n) \<or> 0 < pe_fired (pool_entries s' n) \<or>
     0 < pe_refs (pool_entries s' n) \<or> 0 < pe_inflight (pool_entries s' n)"
  by (cases a) (auto simp: pool_defs split: pool_splits)

lemma fired_after:
  "pool_step a s = Some s' \<Longrightarrow> n < next_entry s \<Longrightarrow> 0 < pe_fired (pool_entries s n) \<Longrightarrow>
     0 < pe_fired (pool_entries s' n) \<or> is_reaped (pool_task s') n \<or> 0 < pe_refs (pool_entries s n) \<or> \<not> is_mapped s n"
  by (cases a) (auto simp: pool_defs split: pool_splits)

lemma notices_after:
  "pool_step a s = Some s' \<Longrightarrow> n < next_entry s \<Longrightarrow> 0 < pe_notices (pool_entries s n) \<Longrightarrow>
     0 < pe_notices (pool_entries s' n) \<or> pe_timer (pool_entries s' n) \<or> \<not> unleased s n"
  by (cases a) (auto simp: pool_defs unleased_def split: pool_splits)

lemma reaped_after:
  "pool_step a s = Some s' \<Longrightarrow> is_reaped (pool_task s) n \<Longrightarrow>
     is_reaped (pool_task s') n \<or> 0 < pe_inflight (pool_entries s n) \<or> \<not> is_mapped s' n"
  by (cases a) (auto simp: pool_defs split: pool_splits)

lemma looked_after:
  "pool_step (Look_held t) s = Some s' \<Longrightarrow> pool_calls s t = Ended n \<Longrightarrow>
     0 < pe_notices (pool_entries s' n) \<or> pe_held (pool_entries s n)"
  by (auto simp: pool_defs split: pool_splits)

lemma unleased_after:
  assumes "pool_step a s = Some s'" "leases_ok s" "asks_lease (pool_task s)" "unleased s' n"
  shows "n < next_entry s \<and> (unleased s n \<or> pe_timer (pool_entries s' n) \<or> (\<exists>t. pool_calls s' t = Ended n))"
proof -
  have wf: "pool_wf s" using assms(2) by (simp add: leases_ok_def)
  have u: "is_mapped s' n" "pe_refs (pool_entries s' n) = 0" "pe_inflight (pool_entries s' n) = 0"
    using assms(4) by (simp_all add: unleased_def)
  have known: "n < next_entry s \<and> is_mapped s n"
    using map_after [OF assms(1)] u new_leased [OF assms(1,3)] key_after [OF assms(1)] pool_wfD(1,2) [OF wf]
    unfolding is_mapped_def by (metis less_numeral_extra(3))
  then show ?thesis
    using refs_after [OF assms(1), of n] inflight_after [OF assms(1), of n] u by (auto simp: unleased_def)
qed

lemma watched_after:
  assumes "pool_step a s = Some s'" "leases_ok s" "held_ok s" "n < next_entry s" "unleased s n" "unleased s' n" "watched s n"
  shows "watched s' n"
proof -
  have u: "is_mapped s' n" "pe_refs (pool_entries s' n) = 0" "pe_inflight (pool_entries s' n) = 0" "is_mapped s n"
      "pe_refs (pool_entries s n) = 0" "pe_inflight (pool_entries s n) = 0"
    using assms(5,6) by (simp_all add: unleased_def)
  from assms(7) consider "pe_timer (pool_entries s n)" | "0 < pe_fired (pool_entries s n)" | "0 < pe_notices (pool_entries s n)"
    | "is_reaped (pool_task s) n" | t where "pool_calls s t = Ended n"
    by (auto simp: watched_def)
  then show ?thesis
  proof cases
    case 1
    from timer_after [OF assms(1,4) this] u show ?thesis by (auto simp: watched_def)
  next
    case 2
    from fired_after [OF assms(1,4) this] u show ?thesis by (auto simp: watched_def)
  next
    case 3
    from notices_after [OF assms(1,4) this] assms(5) show ?thesis by (auto simp: watched_def)
  next
    case 4
    from reaped_after [OF assms(1) this] u show ?thesis by (auto simp: watched_def)
  next
    case (5 t)
    have "acquirer_ok s" using assms(2) by (simp add: leases_ok_def)
    from ended_after [OF assms(1) this 5] show ?thesis
    proof
      assume "a = Look_held t"
      then show ?thesis
        using looked_after [of t s s' n] assms(1,3) 5 u(5) by (auto simp: watched_def held_ok_def)
    qed (auto simp: watched_def)
  qed
qed

definition pool_ok :: "pool \<Rightarrow> bool" where
  "pool_ok s = (leases_ok s \<and> held_ok s \<and> asks_lease (pool_task s) \<and> (\<forall>n. unleased s n \<longrightarrow> watched s n))"

lemma pool_ok_step:
  assumes "pool_ok s" "pool_step a s = Some s'"
  shows "pool_ok s'"
proof -
  have ok: "leases_ok s" "held_ok s" "asks_lease (pool_task s)" "\<And>n. unleased s n \<Longrightarrow> watched s n"
    using assms(1) by (simp_all add: pool_ok_def)
  have "watched s' n" if "unleased s' n" for n
    using unleased_after [OF assms(2) ok(1,3) that] watched_after [OF assms(2) ok(1,2) _ _ that] ok(4)
    by (auto simp: watched_def)
  then show ?thesis
    using leases_ok_step [OF ok(1) assms(2)] held_ok_step [OF ok(2) assms(2)] asks_lease_step [OF ok(3) assms(2)]
    by (simp add: pool_ok_def)
qed

section \<open>No call runs on a server that is put away\<close>

definition sup_ok :: "pool \<Rightarrow> bool" where
  "sup_ok s =
     (\<forall>n. (pe_state (pool_entries s n) = Pool_hibernating \<longrightarrow> pe_doomed (pool_entries s n)) \<and>
       (pe_state (pool_entries s n) = Pool_hibernated \<longrightarrow> pe_doomed (pool_entries s n) \<and> \<not> pe_up (pool_entries s n)) \<and>
       (\<not> pe_up (pool_entries s n) \<longrightarrow> pe_boot (pool_entries s n) = None))"

definition wakes_hibernated :: "pool \<Rightarrow> bool" where
  "wakes_hibernated s =
     (\<forall>g n. goal_of (pool_task s) = Some g \<longrightarrow> goal_entry g = Some n \<longrightarrow>
        pe_state (pool_entries s n) = Pool_hibernated \<and> task_entry (pool_task s) \<noteq> Some n)"

definition boots_ok :: "pool \<Rightarrow> bool" where
  "boots_ok s =
     (\<forall>n < next_entry s. pe_floor (pool_entries s n) \<le> next_client s \<and>
       (\<forall>c. pe_boot (pool_entries s n) = Some c \<longrightarrow> pe_floor (pool_entries s n) \<le> c \<and> c < next_client s))"

lemma sup_okD:
  assumes "sup_ok s"
  shows "pe_state (pool_entries s n) = Pool_hibernating \<Longrightarrow> pe_doomed (pool_entries s n)"
    "pe_state (pool_entries s n) = Pool_hibernated \<Longrightarrow> pe_doomed (pool_entries s n)"
    "pe_state (pool_entries s n) = Pool_hibernated \<Longrightarrow> \<not> pe_up (pool_entries s n)"
    "\<not> pe_up (pool_entries s n) \<Longrightarrow> pe_boot (pool_entries s n) = None"
  using assms by (auto simp: sup_ok_def)

lemma sup_ok_step: "sup_ok s \<Longrightarrow> pool_step a s = Some s' \<Longrightarrow> sup_ok s'"
  unfolding sup_ok_def
  by (cases a) (auto simp: pool_defs new_entry_def split: pool_splits)

lemma goal_after_kept:
  "pool_step a s = Some s' \<Longrightarrow> goal_of (pool_task s') = Some g \<Longrightarrow> goal_entry g = Some n \<Longrightarrow> goal_of (pool_task s) = Some g \<Longrightarrow>
     n < next_entry s \<Longrightarrow> task_entry (pool_task s) \<noteq> Some n \<Longrightarrow> pe_state (pool_entries s' n) = pe_state (pool_entries s n)"
  by (cases a) (auto simp: pool_defs split: pool_splits)

lemma goal_after_new:
  "pool_step a s = Some s' \<Longrightarrow> goal_of (pool_task s') = Some g \<Longrightarrow> goal_entry g = Some n \<Longrightarrow>
     goal_of (pool_task s) = Some g \<or> pe_state (pool_entries s' n) = Pool_hibernated \<and> task_entry (pool_task s') = None"
  by (cases a) (auto simp: pool_defs split: pool_splits)

lemma task_entry_after:
  "pool_step a s = Some s' \<Longrightarrow> goal_of (pool_task s) = Some g \<Longrightarrow> task_entry (pool_task s') = Some v \<Longrightarrow>
     task_entry (pool_task s) = Some v \<or> is_running (pe_state (pool_entries s v))"
  by (cases a) (auto simp: pool_defs dest: victim_running split: pool_splits)

lemma wakes_hibernated_step:
  assumes "wakes_hibernated s" "pool_wf s" "pool_step a s = Some s'"
  shows "wakes_hibernated s'"
  unfolding wakes_hibernated_def
proof (intro allI impI)
  fix g n assume g: "goal_of (pool_task s') = Some g" "goal_entry g = Some n"
  from goal_after_new [OF assms(3) g] show "pe_state (pool_entries s' n) = Pool_hibernated \<and> task_entry (pool_task s') \<noteq> Some n"
  proof
    assume old: "goal_of (pool_task s) = Some g"
    then have n: "pe_state (pool_entries s n) = Pool_hibernated" "task_entry (pool_task s) \<noteq> Some n" "n < next_entry s"
      using assms(1) g(2) pool_wfD(7) [OF assms(2)] by (auto simp: wakes_hibernated_def elim: goal_entry.elims)
    show ?thesis
      using goal_after_kept [OF assms(3) g old n(3,2)] task_entry_after [OF assms(3) old, of n] n
      by (auto simp: is_running_def)
  qed simp
qed

lemma boots_ok_step:
  assumes "boots_ok s" "sup_ok s" "wakes_hibernated s" "pool_step a s = Some s'"
  shows "boots_ok s'"
proof -
  have b: "n < next_entry s \<Longrightarrow> pe_floor (pool_entries s n) \<le> next_client s"
      "n < next_entry s \<Longrightarrow> pe_boot (pool_entries s n) = Some c \<Longrightarrow> pe_floor (pool_entries s n) \<le> c \<and> c < next_client s" for n c
    using assms(1) by (auto simp: boots_ok_def)
  have w: "pool_task s = Finishing (To_wake t n p q) \<Longrightarrow> pe_boot (pool_entries s n) = None" for t n p q
    using assms(3) sup_okD(3,4) [OF assms(2), of n] by (auto simp: wakes_hibernated_def)
  show ?thesis
    using assms(4) b w unfolding boots_ok_def
    by (cases a) (auto simp: pool_defs less_Suc_eq le_SucI split: pool_splits)
qed

section \<open>Clients\<close>

text \<open>A client of an entry, as long as its server is not put away or it was published late.\<close>

definition is_safe :: "pool \<Rightarrow> nat \<Rightarrow> nat \<Rightarrow> bool" where
  "is_safe s n c = (pe_doomed (pool_entries s n) \<or> c < pe_floor (pool_entries s n) \<longrightarrow> published_late s c)"

fun held_client :: "pool_task \<Rightarrow> (nat \<times> nat) option" where
  "held_client (Peeked v (Some c) g) = Some (v, c)"
| "held_client (Cleared v (Some c) g) = Some (v, c)"
| "held_client _ = None"

lemma late_after: "pool_step a s = Some s' \<Longrightarrow> published_late s c \<Longrightarrow> published_late s' c"
  by (cases a) (auto simp: pool_defs split: pool_splits)

lemma client_after:
  "pool_step a s = Some s' \<Longrightarrow> n < next_entry s \<Longrightarrow> pe_client (pool_entries s' n) = Some c \<Longrightarrow>
     pe_client (pool_entries s n) = Some c \<or> held_client (pool_task s) = Some (n, c) \<or>
     a = Publish n \<and> pe_boot (pool_entries s n) = Some c"
  by (cases a) (auto simp: pool_defs split: pool_splits)

lemma held_client_after:
  "pool_step a s = Some s' \<Longrightarrow> held_client (pool_task s') = Some (n, c) \<Longrightarrow>
     held_client (pool_task s) = Some (n, c) \<or> pe_client (pool_entries s n) = Some c"
  by (cases a) (auto simp: pool_defs split: pool_splits elim: held_client.elims)

lemma running_after:
  "pool_step a s = Some s' \<Longrightarrow> pool_calls s' t = Running n c \<Longrightarrow>
     pool_calls s t = Running n c \<or> pe_client (pool_entries s n) = Some c \<and> lessee (pool_calls s t) = Some n"
  by (cases a) (auto simp: pool_defs split: pool_splits)

lemma doomed_after:
  "pool_step a s = Some s' \<Longrightarrow> n < next_entry s \<Longrightarrow> pe_doomed (pool_entries s' n) \<Longrightarrow>
     pe_doomed (pool_entries s n) \<or> a = Check_calls \<and> pe_inflight (pool_entries s n) = 0 \<and> (\<exists>c g. pool_task s = Cleared n c g)"
  by (cases a) (auto simp: pool_defs split: pool_splits)

lemma floor_after:
  "pool_step a s = Some s' \<Longrightarrow> n < next_entry s \<Longrightarrow>
     pe_floor (pool_entries s' n) = pe_floor (pool_entries s n) \<or> (\<exists>g. goal_of (pool_task s) = Some g \<and> goal_entry g = Some n)"
  by (cases a) (auto simp: pool_defs split: pool_splits)

lemma cleared_after:
  "pool_step a s = Some s' \<Longrightarrow> pool_task s' = Cleared n c0 g \<Longrightarrow> pe_client (pool_entries s' n) = Some c \<Longrightarrow>
     pool_task s = Cleared n c0 g \<and> pe_client (pool_entries s n) = Some c \<or> published_late s' c"
  by (cases a) (auto simp: pool_defs is_doomed_now_def split: pool_splits)

lemma publish_safe:
  "pool_step (Publish n) s = Some s' \<Longrightarrow> boots_ok s \<Longrightarrow> pe_boot (pool_entries s n) = Some c \<Longrightarrow> is_safe s' n c"
  by (auto simp: is_safe_def is_doomed_now_def boots_ok_def split: if_splits)

lemma safe_after:
  assumes "is_safe s n c" "n < next_entry s" "sup_ok s" "wakes_hibernated s" "pool_step a s = Some s'"
  shows "is_safe s' n c \<or> a = Check_calls \<and> pe_inflight (pool_entries s n) = 0 \<and> (\<exists>c g. pool_task s = Cleared n c g)"
proof -
  have woken: "pe_doomed (pool_entries s n)" if "goal_of (pool_task s) = Some g" "goal_entry g = Some n" for g
    using assms(4) that sup_okD(2) [OF assms(3)] by (auto simp: wakes_hibernated_def)
  show ?thesis
    using assms(1) doomed_after [OF assms(5,2)] floor_after [OF assms(5,2)] woken late_after [OF assms(5)]
    unfolding is_safe_def by metis
qed

definition clients_ok :: "pool \<Rightarrow> bool" where
  "clients_ok s =
     ((\<forall>n c. n < next_entry s \<longrightarrow> pe_client (pool_entries s n) = Some c \<longrightarrow> is_safe s n c) \<and>
      (\<forall>t n c. pool_calls s t = Running n c \<longrightarrow> is_safe s n c) \<and>
      (\<forall>n c. held_client (pool_task s) = Some (n, c) \<longrightarrow> is_safe s n c) \<and>
      (\<forall>n c0 c g. pool_task s = Cleared n c0 g \<longrightarrow> pe_client (pool_entries s n) = Some c \<longrightarrow> published_late s c))"

lemma clients_okD:
  assumes "clients_ok s"
  shows "n < next_entry s \<Longrightarrow> pe_client (pool_entries s n) = Some c \<Longrightarrow> is_safe s n c"
    "pool_calls s t = Running n c \<Longrightarrow> is_safe s n c"
    "held_client (pool_task s) = Some (n, c) \<Longrightarrow> is_safe s n c"
    "pool_task s = Cleared n c0 g \<Longrightarrow> pe_client (pool_entries s n) = Some c \<Longrightarrow> published_late s c"
  using assms unfolding clients_ok_def by blast+

lemma held_entry: "held_client k = Some (n, c) \<Longrightarrow> task_entry k = Some n"
  by (cases "(k)" rule: held_client.cases) auto

lemma check_frees: "pool_step Check_calls s = Some s' \<Longrightarrow> held_client (pool_task s') = None"
  by (auto simp: pool_defs split: pool_splits)

lemma check_client:
  "pool_step Check_calls s = Some s' \<Longrightarrow> pool_task s = Cleared n c0 g \<Longrightarrow> pe_inflight (pool_entries s n) = 0 \<Longrightarrow>
     pe_client (pool_entries s' n) = pe_client (pool_entries s n) \<and> pool_calls s' = pool_calls s \<and> published_late s' = published_late s"
  by (auto simp: pool_defs split: pool_splits)

lemma no_running:
  assumes "leases_ok s" "pe_inflight (pool_entries s n) = 0"
  shows "pool_calls s t \<noteq> Running n c"
proof
  assume "pool_calls s t = Running n c"
  then have "t \<in> lessees (pool_calls s) n" by simp
  moreover have "lessees (pool_calls s) n = {}" using assms by (auto simp: leases_ok_def counts_ok_def)
  ultimately show False by simp
qed

lemma clients_ok_step:
  assumes "clients_ok s" "leases_ok s" "sup_ok s" "wakes_hibernated s" "boots_ok s" "pool_step a s = Some s'"
  shows "clients_ok s'"
proof -
  note ok = clients_okD [OF assms(1)] and wf = pool_wfD [OF assms(2) [unfolded leases_ok_def, THEN conjunct1]]
  have safe: "is_safe s' n c \<or> a = Check_calls \<and> pe_inflight (pool_entries s n) = 0 \<and> (\<exists>c g. pool_task s = Cleared n c g)"
    if "is_safe s n c" "n < next_entry s" for n c
    using safe_after [OF that assms(3,4,6)] .
  have held: "n < next_entry s" if "held_client (pool_task s) = Some (n, c)" for n c
    using wf(8) held_entry [OF that] .
  have client: "is_safe s' n c" if n: "n < next_entry s" "pe_client (pool_entries s' n) = Some c" for n c
  proof -
    from client_after [OF assms(6) n] consider "a = Publish n" "pe_boot (pool_entries s n) = Some c" | "is_safe s n c"
      using ok(1) [OF n(1)] ok(3) by blast
    then show ?thesis
    proof cases
      case 1
      then show ?thesis using publish_safe [of n s s' c] assms(5,6) by simp
    next
      case 2
      from safe [OF 2 n(1)] show ?thesis
      proof
        assume e: "a = Check_calls \<and> pe_inflight (pool_entries s n) = 0 \<and> (\<exists>c g. pool_task s = Cleared n c g)"
        then have "pe_client (pool_entries s n) = Some c" "published_late s' = published_late s"
          using check_client assms(6) n(2) by (metis, metis)
        then show ?thesis using e ok(4) by (auto simp: is_safe_def)
      qed
    qed
  qed
  have new: "pe_client (pool_entries s' n) = None" if "n < next_entry s'" "\<not> n < next_entry s" for n
    using assms(6) that by (cases a) (auto simp: pool_defs less_Suc_eq split: pool_splits)
  have running: "is_safe s' n c" if r: "pool_calls s' t = Running n c" for t n c
  proof (cases "a = Check_calls \<and> pe_inflight (pool_entries s n) = 0 \<and> (\<exists>c g. pool_task s = Cleared n c g)")
    case True
    then show ?thesis using check_client assms(6) r no_running [OF assms(2)] by metis
  next
    case False
    have "is_safe s n c \<and> n < next_entry s"
      using running_after [OF assms(6) r] ok(1,2) wf(6,9) by metis
    then show ?thesis using safe False by blast
  qed
  have task: "is_safe s' n c" if h: "held_client (pool_task s') = Some (n, c)" for n c
  proof -
    have n: "n < next_entry s" using task_after [OF assms(6) held_entry [OF h]] wf(8) by blast
    then have "is_safe s n c" using held_client_after [OF assms(6) h] ok(1,3) by blast
    then show ?thesis using safe n check_frees assms(6) h by (metis option.distinct(1))
  qed
  have cleared: "published_late s' c" if "pool_task s' = Cleared n c0 g" "pe_client (pool_entries s' n) = Some c" for n c0 g c
    using cleared_after [OF assms(6) that] ok(4) late_after [OF assms(6)] by blast
  show ?thesis
    unfolding clients_ok_def using client new running task cleared by (metis option.distinct(1))
qed

definition pool_good :: "pool \<Rightarrow> bool" where
  "pool_good s = (pool_ok s \<and> sup_ok s \<and> wakes_hibernated s \<and> boots_ok s \<and> clients_ok s)"

lemma pool_good_new: "pool_good newWorkspacePool"
  by (simp add: pool_good_def pool_ok_def leases_ok_def pool_wf_def acquirer_ok_def counts_ok_def held_ok_def asks_lease_def
      unleased_def is_mapped_def sup_ok_def wakes_hibernated_def boots_ok_def clients_ok_def newWorkspacePool_def
      lessees_def new_entry_def)

lemma pool_good_reach: "pool_reach s \<Longrightarrow> pool_good s"
proof (induction rule: pool_reach.induct)
  case start
  show ?case by (rule pool_good_new)
next
  case (act s a s')
  then have g: "pool_ok s" "sup_ok s" "wakes_hibernated s" "boots_ok s" "clients_ok s" by (simp_all add: pool_good_def)
  then have "leases_ok s" by (simp add: pool_ok_def)
  moreover from this have "pool_wf s" by (simp add: leases_ok_def)
  ultimately show ?case
    using g pool_ok_step sup_ok_step wakes_hibernated_step boots_ok_step clients_ok_step act(2)
    unfolding pool_good_def by metis
qed

end
