(* ===== verification/Plumb_Pool_Claims.thy ===== *)
theory Plumb_Pool_Claims
  imports Plumb_Pool_Correct
begin

text \<open>
  What the pool promises its sessions and calls, runs that witness it, and three runs in which
  the steps under the mutex interleave badly with what is done without it.
\<close>

section \<open>The claims\<close>

text \<open>
  C27. A call keeps its server: whatever sessions, calls, admissions, timers, crashes and restarts
  interleave, a call that runs on a client is counted on its entry, and the server of that client
  is not being stopped, and was not, to save memory or because it was idle, unless its handshake
  ended while its entry was being put away.
\<close>

theorem pool_call_keeps_server:
  assumes "pool_reach s" "pool_calls s t = Running n c"
  shows "0 < pe_inflight (pool_entries s n) \<and>
    (pe_doomed (pool_entries s n) \<or> c < pe_floor (pool_entries s n) \<longrightarrow> published_late s c)"
proof -
  have "pool_good s" by (rule pool_good_reach [OF assms(1)])
  then have "leases_ok s" "clients_ok s" by (simp_all add: pool_good_def pool_ok_def)
  then show ?thesis
    using no_running [of s n t c] clients_okD(2) [of s t n c] assms(2) by (auto simp: is_safe_def)
qed

fun pool_background :: "pool_action \<Rightarrow> bool" where
  "pool_background (Look_held t) = True"
| "pool_background (Schedule_reap n) = True"
| "pool_background (Timer_fires n) = True"
| "pool_background (Reap n) = True"
| "pool_background Clear_proxy = True"
| "pool_background Check_calls = True"
| "pool_background _ = False"

definition can_be_reaped :: "pool \<Rightarrow> nat \<Rightarrow> nat \<Rightarrow> bool" where
  "can_be_reaped s n k =
     (\<exists>as s'. pool_run as s = Some s' \<and> length as \<le> k \<and> list_all pool_background as \<and> \<not> is_mapped s' n)"

lemma can_be_reaped_step:
  "pool_step a s = Some s' \<Longrightarrow> pool_background a \<Longrightarrow> can_be_reaped s' n k \<Longrightarrow> can_be_reaped s n (Suc k)"
  unfolding can_be_reaped_def
proof (elim exE conjE)
  fix as s'' assume "pool_step a s = Some s'" "pool_background a" "pool_run as s' = Some s''" "length as \<le> k"
    "list_all pool_background as" "\<not> is_mapped s'' n"
  then show "\<exists>as s'. pool_run as s = Some s' \<and> length as \<le> Suc k \<and> list_all pool_background as \<and> \<not> is_mapped s' n"
    by (intro exI [of _ "a # as"] exI [of _ s'']) simp
qed

definition idle_entry :: "pool \<Rightarrow> nat \<Rightarrow> bool" where
  "idle_entry s n = (pool_task s = Free \<and> n < next_entry s \<and> unleased s n)"

lemmas reap_simps = idle_entry_def unleased_def is_mapped_def can_be_reaped_def

lemma reaped_if_fired:
  assumes "idle_entry s n" "0 < pe_fired (pool_entries s n)"
  shows "can_be_reaped s n 3"
  unfolding can_be_reaped_def
  by (rule exI [of _ "[Reap n, Clear_proxy, Check_calls]"]) (use assms in \<open>simp add: reap_simps Let_def\<close>)

lemma reaped_if_timed:
  assumes "idle_entry s n" "pe_timer (pool_entries s n)"
  shows "can_be_reaped s n 4"
proof -
  obtain s' where s': "pool_step (Timer_fires n) s = Some s'" "idle_entry s' n" "0 < pe_fired (pool_entries s' n)"
    using assms by (simp add: reap_simps)
  show ?thesis
    using can_be_reaped_step [OF s'(1) _ reaped_if_fired [OF s'(2,3)]] by simp
qed

lemma reaped_if_noticed:
  assumes "idle_entry s n" "0 < pe_notices (pool_entries s n)"
  shows "can_be_reaped s n 5"
proof -
  obtain s' where s': "pool_step (Schedule_reap n) s = Some s'" "idle_entry s' n" "pe_timer (pool_entries s' n)"
    using assms by (simp add: reap_simps)
  show ?thesis
    using can_be_reaped_step [OF s'(1) _ reaped_if_timed [OF s'(2,3)]] by simp
qed

lemma reaped_if_ended:
  assumes "idle_entry s n" "pool_calls s t = Ended n" "held_ok s"
  shows "can_be_reaped s n 6"
proof -
  obtain s' where s': "pool_step (Look_held t) s = Some s'" "idle_entry s' n" "0 < pe_notices (pool_entries s' n)"
    using assms by (simp add: reap_simps held_ok_def)
  show ?thesis
    using can_be_reaped_step [OF s'(1) _ reaped_if_noticed [OF s'(2,3)]] by simp
qed

lemma can_be_reaped_mono: "can_be_reaped s n k \<Longrightarrow> k \<le> m \<Longrightarrow> can_be_reaped s n m"
  unfolding can_be_reaped_def by (meson le_trans)

text \<open>
  C28. Nothing idle is forgotten: an entry that no session pins or borrows and no call leases can
  always be removed by what is already on its way, a timer that runs, a callback or a notice,
  in at most six steps of the pool's own, so no server is kept for nobody.
\<close>

theorem pool_idle_reaped:
  assumes "pool_reach s" "pool_task s = Free" "is_mapped s n" "pe_refs (pool_entries s n) = 0"
    and "\<And>t. lessee (pool_calls s t) \<noteq> Some n"
  shows "\<exists>as s'. pool_run as s = Some s' \<and> length as \<le> 6 \<and> list_all pool_background as \<and> \<not> is_mapped s' n"
proof -
  have ok: "pool_ok s" using pool_good_reach [OF assms(1)] by (simp add: pool_good_def)
  then have l: "leases_ok s" "held_ok s" by (simp_all add: pool_ok_def)
  have "lessees (pool_calls s) n = {}" using assms(5) by (auto simp: lessees_def)
  then have u: "unleased s n" using l(1) assms(3,4) by (simp add: unleased_def leases_ok_def counts_ok_def)
  have "n < next_entry s" using l(1) assms(3) pool_wfD(1) [of s] unfolding leases_ok_def is_mapped_def by blast
  then have i: "idle_entry s n" using u assms(2) by (simp add: idle_entry_def)
  have "watched s n" using ok u by (simp add: pool_ok_def)
  then consider "pe_timer (pool_entries s n)" | "0 < pe_fired (pool_entries s n)" | "0 < pe_notices (pool_entries s n)"
    | t where "pool_calls s t = Ended n"
    using assms(2) by (auto simp: watched_def)
  then have "can_be_reaped s n 6"
  proof cases
    case 1
    from reaped_if_timed [OF i this] show ?thesis by (rule can_be_reaped_mono) simp
  next
    case 2
    from reaped_if_fired [OF i this] show ?thesis by (rule can_be_reaped_mono) simp
  next
    case 3
    from reaped_if_noticed [OF i this] show ?thesis by (rule can_be_reaped_mono) simp
  next
    case (4 t)
    from reaped_if_ended [OF i this l(2)] show ?thesis .
  qed
  then show ?thesis by (simp add: can_be_reaped_def)
qed

text \<open>The order of \<open>victimBefore\<close> and what the loop over the running entries keeps.\<close>

definition evict_le :: "pool_entry \<Rightarrow> pool_entry \<Rightarrow> bool" where
  "evict_le a b = (pe_refs a = 0 \<and> pe_refs b \<noteq> 0 \<or> (pe_refs a = 0) = (pe_refs b = 0) \<and> pe_used a \<le> pe_used b)"

lemma victimBefore_le: "victimBefore a b \<longleftrightarrow> \<not> evict_le b a"
  by (auto simp: victimBefore_def evict_le_def)

lemma evict_le_trans: "evict_le a b \<Longrightarrow> evict_le b c \<Longrightarrow> evict_le a c"
  by (auto simp: evict_le_def)

lemma evict_le_refl [simp]: "evict_le a a"
  by (simp add: evict_le_def)

definition is_idle :: "pool \<Rightarrow> nat \<Rightarrow> bool" where
  "is_idle s n = (pe_inflight (pool_entries s n) = 0)"

lemma victim_loop_spec:
  assumes "\<forall>v. acc = Some v \<longrightarrow> is_idle s v"
  shows "case victim_loop s ns acc of
      None \<Rightarrow> acc = None \<and> (\<forall>n \<in> set ns. \<not> is_idle s n)
    | Some v \<Rightarrow> is_idle s v \<and> (v \<in> set ns \<or> acc = Some v) \<and>
        (\<forall>n. n \<in> set ns \<and> is_idle s n \<or> acc = Some n \<longrightarrow> evict_le (pool_entries s v) (pool_entries s n))"
  using assms
proof (induction ns arbitrary: acc)
  case Nil
  then show ?case by (auto split: option.splits)
next
  case (Cons m ns)
  define acc' where "acc' =
    (if 0 < pe_inflight (pool_entries s m) then acc
     else (case acc of None \<Rightarrow> Some m
       | Some b \<Rightarrow> if victimBefore (pool_entries s m) (pool_entries s b) then Some m else Some b))"
  have loop: "victim_loop s (m # ns) acc = victim_loop s ns acc'" by (simp add: acc'_def split: option.split)
  have idle: "\<forall>v. acc' = Some v \<longrightarrow> is_idle s v" using Cons.prems by (auto simp: acc'_def is_idle_def split: option.splits if_splits)
  have best: "acc' = Some v \<Longrightarrow> n = m \<and> is_idle s n \<or> acc = Some n \<Longrightarrow> evict_le (pool_entries s v) (pool_entries s n)" for v n
    using evict_le_refl by (auto simp: acc'_def is_idle_def victimBefore_le split: option.splits if_splits) (auto simp: evict_le_def)
  have none: "acc' = None \<longleftrightarrow> acc = None \<and> \<not> is_idle s m" by (auto simp: acc'_def is_idle_def split: option.splits)
  have from': "acc' = Some v \<Longrightarrow> v = m \<or> acc = Some v" for v by (auto simp: acc'_def split: option.splits if_splits)
  show ?case
  proof (cases "victim_loop s ns acc'")
    case None
    then show ?thesis using Cons.IH [OF idle] none unfolding loop by auto
  next
    case (Some v)
    have IH: "is_idle s v" "v \<in> set ns \<or> acc' = Some v"
        "\<And>n. n \<in> set ns \<and> is_idle s n \<or> acc' = Some n \<Longrightarrow> evict_le (pool_entries s v) (pool_entries s n)"
      using Cons.IH [OF idle] Some by auto
    have "evict_le (pool_entries s v) (pool_entries s n)" if n: "n = m \<and> is_idle s n \<or> acc = Some n" for n
    proof -
      have "acc' \<noteq> None" using n none by auto
      then obtain w where w: "acc' = Some w" by blast
      then have "evict_le (pool_entries s v) (pool_entries s w)" using IH(3) by blast
      then show ?thesis using best [OF w n] evict_le_trans by blast
    qed
    then show ?thesis using IH Some from' unfolding loop by auto
  qed
qed

text \<open>
  C29. Eviction takes the right server: at the cap of a language the victim is a running server of
  that language other than the one being woken, no call runs on it, and of those it is one that
  no session holds if there is one, and the least recently used among them; there is no victim
  exactly when there is room or every server of the language has a call in progress.
\<close>

theorem pool_victim_right:
  "case overBudgetVictim s language m exclude of
     Some v \<Rightarrow> v \<in> set (running_of s language exclude) \<and> is_idle s v \<and> m \<le> int (length (running_of s language exclude)) \<and>
       (\<forall>n \<in> set (running_of s language exclude). is_idle s n \<longrightarrow> evict_le (pool_entries s v) (pool_entries s n))
   | None \<Rightarrow> m \<le> 0 \<or> int (length (running_of s language exclude)) < m \<or>
       (\<forall>n \<in> set (running_of s language exclude). \<not> is_idle s n)"
  using victim_loop_spec [of None s "running_of s language exclude"]
  by (auto simp: overBudgetVictim_def split: option.splits)

section \<open>Runs\<close>

lemma pool_run_reach: "pool_run as s = Some s' \<Longrightarrow> pool_reach s \<Longrightarrow> pool_reach s'"
  by (induction as arbitrary: s) (auto split: option.splits intro: pool_reach.act)

definition go_at :: "string \<Rightarrow> pool_key" where
  "go_at root = (root, ''go'')"

text \<open>A session pins a server under a cap of one; the handshake ends.\<close>

definition started_run :: "pool_action list" where
  "started_run = [Acquire 0 (go_at ''/a'') 1 True False, Admit, Finish 10, Spawn 0, Publish 0, Mark_active 0]"

definition called_run :: "pool_action list" where
  "called_run = started_run @ [Begin 1 0, Read_client 1 20]"

theorem pool_call_keeps_server_witness:
  "\<exists>s. pool_run called_run newWorkspacePool = Some s \<and> pool_calls s 1 = Running 0 0 \<and> \<not> published_late s 0 \<and>
     0 < pe_inflight (pool_entries s 0) \<and> \<not> pe_doomed (pool_entries s 0)"
proof -
  have run: "case pool_run called_run newWorkspacePool of
      Some s \<Rightarrow> pool_calls s 1 = Running 0 0 \<and> \<not> published_late s 0 | None \<Rightarrow> False"
    by code_simp
  then obtain s where s: "pool_run called_run newWorkspacePool = Some s" by (cases "pool_run called_run newWorkspacePool") auto
  then have "pool_reach s" by (rule pool_run_reach) (rule pool_reach.start)
  from pool_call_keeps_server [OF this, of 1 0 0] show ?thesis using run s by simp
qed

text \<open>The session leaves while the call runs; the call ends.\<close>

definition left_run :: "pool_action list" where
  "left_run = called_run @ [Release (go_at ''/a''), Timer_fires 0, Reap 0, Clear_proxy, Check_calls, End 1 30]"

fun pool_caller :: "pool_action \<Rightarrow> nat option" where
  "pool_caller (Acquire t k m pin call) = Some t"
| "pool_caller (Begin t n) = Some t"
| "pool_caller _ = None"

lemma other_outside:
  "pool_step a s = Some s' \<Longrightarrow> acquirer_ok s \<Longrightarrow> pool_calls s t = Outside \<Longrightarrow> pool_caller a \<noteq> Some t \<Longrightarrow> pool_calls s' t = Outside"
  by (cases a) (auto simp: pool_defs acquirer_ok_def split: pool_splits)

lemma others_outside:
  "pool_run as s = Some s' \<Longrightarrow> acquirer_ok s \<Longrightarrow> pool_calls s t = Outside \<Longrightarrow> Some t \<notin> pool_caller ` set as \<Longrightarrow>
     pool_calls s' t = Outside"
proof (induction as arbitrary: s)
  case (Cons a as)
  then obtain s1 where s1: "pool_step a s = Some s1" "pool_run as s1 = Some s'" by (auto split: option.splits)
  then show ?case
    using Cons.IH [OF s1(2)] acquirer_ok_step [OF Cons.prems(2) s1(1)] other_outside [OF s1(1) Cons.prems(2,3)] Cons.prems(4)
    by auto
qed simp

theorem pool_idle_reaped_witness:
  "\<exists>s as s'. pool_run left_run newWorkspacePool = Some s \<and> is_mapped s 0 \<and>
     pool_run as s = Some s' \<and> length as \<le> 6 \<and> \<not> is_mapped s' 0"
proof -
  have run: "case pool_run left_run newWorkspacePool of
      Some s \<Rightarrow> pool_task s = Free \<and> is_mapped s 0 \<and> pe_refs (pool_entries s 0) = 0 \<and>
        lessee (pool_calls s 0) = None \<and> lessee (pool_calls s 1) = None
    | None \<Rightarrow> False"
    by code_simp
  then obtain s where s: "pool_run left_run newWorkspacePool = Some s" by (cases "pool_run left_run newWorkspacePool") auto
  then have r: "pool_reach s" by (rule pool_run_reach) (rule pool_reach.start)
  have "lessee (pool_calls s t) \<noteq> Some 0" for t
  proof (cases "t < 2")
    case True
    then show ?thesis using run s by (auto simp: less_2_cases_iff)
  next
    case False
    have "pool_caller ` set left_run \<subseteq> {None, Some 0, Some 1}"
      by (simp add: left_run_def called_run_def started_run_def)
    then have "Some t \<notin> pool_caller ` set left_run" using False by auto
    moreover have "acquirer_ok newWorkspacePool" "pool_calls newWorkspacePool t = Outside"
      by (simp_all add: acquirer_ok_def newWorkspacePool_def)
    ultimately show ?thesis using others_outside [OF s] by simp
  qed
  then show ?thesis using pool_idle_reaped [OF r, of 0] run s by fastforce
qed

text \<open>Three servers of a language at a cap of two: one is called, one pinned, one only warm.\<close>

definition crowded_run :: "pool_action list" where
  "crowded_run = called_run @
     [Acquire 2 (go_at ''/b'') 3 True False, Admit, Finish 40, Acquire 3 (go_at ''/c'') 3 False True, Admit, Finish 50, End 3 60]"

theorem pool_victim_right_witness:
  "\<exists>s. pool_run crowded_run newWorkspacePool = Some s \<and>
     (case overBudgetVictim s ''go'' 2 None of
        Some v \<Rightarrow> is_idle s v \<and> evict_le (pool_entries s v) (pool_entries s 1) \<and> v \<in> {0, 1, 2}
      | None \<Rightarrow> False)"
proof -
  have run: "case pool_run crowded_run newWorkspacePool of
      Some s \<Rightarrow> running_of s ''go'' None = [0, 1, 2] \<and> is_idle s 1 | None \<Rightarrow> False"
    by code_simp
  then obtain s where s: "pool_run crowded_run newWorkspacePool = Some s" by (cases "pool_run crowded_run newWorkspacePool") auto
  show ?thesis
    using pool_victim_right [where s = s and language = "''go''" and m = 2 and exclude = None] run s by (cases "overBudgetVictim s ''go'' 2 None") auto
qed

section \<open>Three ways it goes wrong\<close>

text \<open>
  A pinned server that is still starting is evicted; its handshake ends between the clearing of
  the proxy and the stop of its supervisor. The hibernated entry then shows the client of a dead
  server, and the sessions that hold it call that, since they only wake an entry that shows none.
\<close>

definition late_run :: "pool_action list" where
  "late_run =
     [Acquire 0 (go_at ''/a'') 1 True False, Admit, Finish 10, Spawn 0,
      Acquire 1 (go_at ''/b'') 1 True False, Admit, Clear_proxy, Check_calls, Publish 0, Admit, Finish 20, Stopped 0,
      Begin 2 0, Read_client 2 30]"

lemma dead_client_called:
  "case pool_run late_run newWorkspacePool of
     None \<Rightarrow> False
   | Some s \<Rightarrow> pool_calls s 2 = Running 0 0 \<and> pe_state (pool_entries s 0) = Pool_hibernated \<and> \<not> pe_up (pool_entries s 0) \<and>
       0 < pe_refs (pool_entries s 0)"
  by code_simp

text \<open>
  The timer of an entry has fired when a call leases it while its server starts; the handshake
  ends between the read and the clearing of the proxy, and the teardown, standing down for the
  call, puts back what it read: nothing. The server runs and is active, and no call ever sees it.
\<close>

definition lost_client_run :: "pool_action list" where
  "lost_client_run =
     [Acquire 0 (go_at ''/a'') 0 True False, Admit, Finish 10, Spawn 0, Release (go_at ''/a''), Timer_fires 0,
      Reap 0, Begin 1 0, Publish 0, Clear_proxy, Check_calls, Mark_active 0, Read_client 1 20, End 1 30, Begin 2 0, Read_client 2 40]"

lemma client_lost:
  "case pool_run lost_client_run newWorkspacePool of
     None \<Rightarrow> False
   | Some s \<Rightarrow> pe_state (pool_entries s 0) = Pool_active \<and> pe_up (pool_entries s 0) \<and> pe_boot (pool_entries s 0) = None \<and>
       is_mapped s 0 \<and> pe_client (pool_entries s 0) = None \<and> pool_calls s 2 = Releasing 0"
  by code_simp

text \<open>
  Admission stops at the first victim that took a call since it was chosen, though another server
  is idle: with a cap of two a third server runs beside one that nobody uses.
\<close>

definition gives_up_run :: "pool_action list" where
  "gives_up_run =
     [Acquire 0 (go_at ''/a'') 2 True False, Admit, Finish 10, Spawn 0, Publish 0, Mark_active 0,
      Acquire 1 (go_at ''/b'') 2 True False, Admit, Finish 20, Spawn 1, Publish 1, Mark_active 1,
      Acquire 2 (go_at ''/c'') 2 True False, Admit, Begin 3 0, Read_client 3 30, Clear_proxy, Check_calls, Finish 40]"

lemma admission_gives_up:
  "case pool_run gives_up_run newWorkspacePool of
     None \<Rightarrow> False
   | Some s \<Rightarrow> running_of s ''go'' None = [0, 1, 2] \<and> pe_max (pool_entries s 2) = 2 \<and> is_idle s 1"
  by code_simp

end
