(* ===== verification/Plumb_Prune_Correct.thy ===== *)
theory Plumb_Prune_Correct
  imports Plumb_Braces_Correct
begin

text \<open>
  What the literal prefix of a glob says of the paths the glob matches, so that a directory that
  is not compatible with the prefix holds none of them.
\<close>

section \<open>Patterns that begin with plain text\<close>

definition plain_text :: "string \<Rightarrow> bool" where
  "plain_text q = (\<forall>c \<in> set q. \<not> glob_meta c \<and> c \<noteq> backslash)"

lemma plain_text_simps [simp]:
  "plain_text []" "plain_text (c # q) \<longleftrightarrow> c \<notin> set ''*?[{}'' \<and> c \<noteq> backslash \<and> plain_text q"
  "plain_text (q @ q') \<longleftrightarrow> plain_text q \<and> plain_text q'"
  by (auto simp: plain_text_def glob_meta_def)

lemma parse_plain: "plain_text q \<Longrightarrow> parse_glob (q @ r) = map_option ((@) (map Lit q)) (parse_glob r)"
  by (induction q; cases "parse_glob r") auto

lemma match_plain: "glob_match (map Lit q @ ts) s \<longleftrightarrow> (\<exists>s'. s = q @ s' \<and> glob_match ts s')"
proof (induction q arbitrary: s)
  case (Cons c q)
  then show ?case by (cases s) auto
qed simp

lemma Match_plain: "plain_text q \<Longrightarrow> Match (q @ r) s \<Longrightarrow> \<exists>s'. s = q @ s'"
  by (auto simp: Match_def parse_plain match_plain split: option.splits)

lemma Match_literal: "plain_text q \<Longrightarrow> Match q s \<longleftrightarrow> s = q"
  using parse_plain [of q "[]"] match_plain [of q "[]" s] by (auto simp: Match_def)

lemma contains_plain: "plain_text q \<Longrightarrow> contains (q @ r) ''**'' \<longleftrightarrow> contains r ''**''"
  by (induction q) (auto simp: has_prefix_stars)

lemma cut_stars_plain: "plain_text q \<Longrightarrow> cut_str ''**/'' (q @ r) = map_option (\<lambda>(b, a). (q @ b, a)) (cut_str ''**/'' r)"
proof (induction q)
  case Nil
  show ?case by (cases "cut_str ''**/'' r") auto
next
  case (Cons c q)
  then show ?case by (cases "cut_str ''**/'' r") (auto simp: has_prefix_def)
qed

lemma trim_stars_plain: "plain_text q \<Longrightarrow> \<exists>r'. trim_suffix (q @ r) ''**'' = q @ r'"
proof (cases "has_suffix (q @ r) ''**''")
  case False
  then show ?thesis by (simp add: trim_suffix_def)
next
  case True
  assume q: "plain_text q"
  then have last: "q \<noteq> [] \<Longrightarrow> last q \<noteq> CHR ''*''" by (cases q rule: rev_cases) auto
  consider "r = []" | x where "r = [x]" | v x y where "r = v @ [x, y]"
    by (cases r rule: rev_cases) (auto, metis append.assoc append_Cons append_Nil rev_exhaust)
  then show ?thesis
  proof cases
    case 1
    with True last show ?thesis by (cases q rule: rev_cases) (auto simp: has_suffix_def)
  next
    case (2 x)
    with True last show ?thesis by (cases q rule: rev_cases) (auto simp: has_suffix_def)
  next
    case (3 v x y)
    with True show ?thesis by (auto simp: has_suffix_def trim_suffix_def)
  qed
qed

lemma trim_slash_plain: "b \<noteq> [] \<Longrightarrow> trim_suffix (q @ b) ''/'' = q @ trim_suffix b ''/''"
  by (cases b rule: rev_cases) (auto simp: trim_suffix_def has_suffix_def)

lemma hd_split: "CHR ''/'' \<notin> set (hd (split_on (CHR ''/'') s))"
  by (rule split_on_no_sep [of _ _ s]) simp

lemma first_component: "after_slashes s = rest # rs \<Longrightarrow> s = hd (split_on (CHR ''/'') s) @ ''/'' @ rest"
  by (induction s) (auto split: if_splits list.splits)

lemma double_star_plain:
  assumes "plain_text q" "DoubleStarMatch (q @ ''/'' @ r) name"
  shows "\<exists>s. name = q @ ''/'' @ s"
proof -
  let ?q = "q @ ''/''"
  have q: "plain_text ?q" using assms(1) by (simp add: backslash_def)
  have slash: "s = ?q @ s' \<Longrightarrow> CHR ''/'' \<in> set s" for s s' by simp
  note D = assms(2) [unfolded append_assoc [symmetric]]
  have "\<exists>s. name = ?q @ s"
  proof (cases "contains (?q @ r) ''**''")
    case False
    with D have "Match (?q @ r) name" by (subst (asm) DoubleStarMatch.simps) simp
    then show ?thesis by (rule Match_plain [OF q])
  next
    case stars: True
    show ?thesis
    proof (cases "cut_str ''**/'' r")
      case None
      with D stars have "has_prefix name (trim_suffix (?q @ r) ''**'')"
        by (subst (asm) DoubleStarMatch.simps) (simp only: cut_stars_plain [OF q], simp)
      with trim_stars_plain [OF q, of r] show ?thesis by (auto simp: has_prefix_iff)
    next
      case (Some ba)
      obtain b a where ba: "ba = (b, a)" by fastforce
      let ?g = "trim_suffix (?q @ b) ''/''"
      have g: "(b = [] \<and> ?g = q) \<or> (\<exists>b'. ?g = ?q @ b')"
        using trim_suffix_append [of q "''/''"] trim_slash_plain [of b ?q] by (cases "b = []") auto
      from D stars have cases_: "has_prefix name (?g @ ''/'') \<or>
          (Match ?g (hd (split_on (CHR ''/'') name)) \<and> after_slashes name \<noteq> [])"
        by (subst (asm) DoubleStarMatch.simps)
          (simp only: cut_stars_plain [OF q] Some ba, auto simp: Let_def split: if_splits list.splits)
      from g show ?thesis
      proof (elim disjE conjE exE)
        assume g: "b = []" "?g = q"
        from cases_ show ?thesis
        proof
          assume "Match ?g (hd (split_on (CHR ''/'') name)) \<and> after_slashes name \<noteq> []"
          then obtain rest rs where "hd (split_on (CHR ''/'') name) = q" "after_slashes name = rest # rs"
            using g Match_literal [OF assms(1)] by (cases "after_slashes name") auto
          with first_component [of name rest rs] show ?thesis by auto
        qed (use g in \<open>auto simp: has_prefix_iff\<close>)
      next
        fix b'
        assume g: "?g = ?q @ b'"
        have "\<not> Match ?g (hd (split_on (CHR ''/'') name))"
          unfolding g using Match_plain [OF q, of b'] slash hd_split [of name] by blast
        with cases_ g show ?thesis by (auto simp: has_prefix_iff)
      qed
    qed
  qed
  then show ?thesis by simp
qed

section \<open>The alternatives of a pattern that begins with plain text\<close>

lemma find_group_plain: "plain_text q \<Longrightarrow> find_group i None 0 (q @ r) = find_group (i + length q) None 0 r"
  by (induction q arbitrary: i) (auto simp: backslash_def)

lemma add_alternatives_members: "add_alternatives pat out xs = Inr l \<Longrightarrow> set l = set out \<union> set xs"
  by (induction pat out xs rule: add_alternatives.induct) (auto split: if_splits)

lemma each_alternative_members:
  "each_alternative pat tails expand out alts = Inr l \<Longrightarrow> x \<in> set l \<Longrightarrow>
     x \<in> set out \<or> (\<exists>alt \<in> set alts. \<exists>heads h t. expand alt = Inr heads \<and> h \<in> set heads \<and> x = h @ t)"
proof (induction alts arbitrary: out)
  case (Cons alt alts)
  then obtain heads out' where step: "expand alt = Inr heads"
    "add_alternatives pat out [h @ t. h \<leftarrow> heads, t \<leftarrow> tails] = Inr out'"
    "each_alternative pat tails expand out' alts = Inr l"
    by (auto split: sum.splits)
  from Cons.IH [OF step(3) Cons.prems(2)] add_alternatives_members [OF step(2)] step(1) show ?case by auto
qed simp

lemma expand_plain:
  "plain_text q \<Longrightarrow> expandBracesDepth (q @ r) d = Inr alts \<Longrightarrow> x \<in> set alts \<Longrightarrow> \<exists>r'. x = q @ r'"
proof (induction "length (q @ r)" arbitrary: r d alts x rule: less_induct)
  case less
  show ?case
  proof (cases "findBraceGroup (q @ r)")
    case None
    with less.prems show ?thesis by (subst (asm) expandBracesDepth.simps) (auto split: if_splits)
  next
    case (Some be)
    obtain b e where be: "be = (b, e)" by fastforce
    with Some less.prems(1) have b: "length q \<le> b" "b < e" "e < length (q @ r)"
      using find_group_bounds [of "length q" None 0 r b e] by (auto simp: findBraceGroup_def find_group_plain)
    define v where "v = take (b - length q) r"
    have pre: "take b (q @ r) = q @ v" using b by (simp add: v_def)
    let ?inner = "take (e - (b + 1)) (drop (b + 1) (q @ r))"
    have shorter: "length (q @ v @ alt) < length (q @ r)" if "alt \<in> set (splitTopLevelCommas ?inner)" for alt
      using splitTopLevelCommas_shorter [OF that] b by (simp add: v_def) linarith
    show ?thesis
    proof (cases "length (splitTopLevelCommas ?inner) < 2")
      case True
      with Some be less.prems(2,3) pre show ?thesis
        by (subst (asm) expandBracesDepth.simps) (auto simp: Let_def split: if_splits sum.splits)
    next
      case False
      with Some be less.prems(2) pre obtain tails where
        "each_alternative (q @ r) tails (\<lambda>alt. expandBracesDepth ((q @ v) @ alt) (d + 1)) []
           (splitTopLevelCommas ?inner) = Inr alts"
        by (subst (asm) expandBracesDepth.simps) (auto simp: Let_def split: if_splits sum.splits)
      from each_alternative_members [OF this less.prems(3)] obtain alt heads h t where
        h: "alt \<in> set (splitTopLevelCommas ?inner)" "expandBracesDepth (q @ v @ alt) (d + 1) = Inr heads" "h \<in> set heads" "x = h @ t"
        by auto
      from less.hyps [OF shorter [OF h(1)] less.prems(1) h(2,3)] h(4) show ?thesis by auto
    qed
  qed
qed

lemma expandBraces_plain:
  "plain_text q \<Longrightarrow> expandBraces (q @ r) = Inr alts \<Longrightarrow> x \<in> set alts \<Longrightarrow> \<exists>r'. x = q @ r'"
  using expand_plain by (auto simp: expandBraces_def split: if_splits)

lemma match_alternatives_True: "match_alternatives alts path = Some True \<Longrightarrow> \<exists>alt \<in> set alts. doubleStarMatchOne alt path = Some True"
  by (induction alts) (auto split: option.splits bool.splits)

text \<open>The file filter of the search tools, at a path relative to the root.\<close>

definition glob_accepts :: "string \<Rightarrow> string \<Rightarrow> bool" where
  "glob_accepts glob rel = (Match glob (last_component rel) \<or> doubleStarMatchFile glob rel = Some True)"

lemma last_component_no_slash: "CHR ''/'' \<notin> set (last_component rel)"
  unfolding last_component_def by (rule split_on_no_sep [of _ _ rel]) simp

lemma base_not_matched:
  assumes "plain_text q"
  shows "\<not> Match (q @ ''/'' @ r) (last_component rel)"
  using assms Match_plain [of "q @ ''/''" r "last_component rel"] last_component_no_slash [of rel]
  by (auto simp: backslash_def)

lemma accepts_plain:
  assumes "plain_text q" "glob_accepts (q @ ''/'' @ r) rel"
  shows "\<exists>s. rel = q @ ''/'' @ s"
proof -
  from assms base_not_matched [OF assms(1)] obtain alts where
    alts: "expandBraces ((q @ ''/'') @ r) = Inr alts" "match_alternatives alts rel = Some True"
    by (auto simp: glob_accepts_def doubleStarMatchFile_def split: sum.splits)
  from match_alternatives_True [OF alts(2)] obtain alt where
    alt: "alt \<in> set alts" "doubleStarMatchOne alt rel = Some True" by blast
  from expandBraces_plain [OF _ alts(1) alt(1)] assms(1) obtain r' where "alt = q @ ''/'' @ r'"
    by (auto simp: backslash_def)
  with alt(2) base_not_matched [OF assms(1)] have "DoubleStarMatch (q @ ''/'' @ r') rel"
    by (auto simp: doubleStarMatchOne_def split: if_splits)
  then show ?thesis by (rule double_star_plain [OF assms(1)])
qed

lemma accepts_literal: "plain_text q \<Longrightarrow> CHR ''/'' \<in> set q \<Longrightarrow> glob_accepts q rel \<Longrightarrow> rel = q"
proof -
  assume q: "plain_text q" "CHR ''/'' \<in> set q" "glob_accepts q rel"
  have "last_component rel \<noteq> q" using last_component_no_slash [of rel] q(2) by auto
  moreover have "expandBraces q = Inr [q]"
    using q(1) by (simp add: expandBraces_def list_all_iff plain_text_def glob_meta_def)
  moreover have "\<not> contains q ''**''" using contains_plain [OF q(1), of "[]"] by simp
  ultimately show "rel = q"
    using q(3) Match_literal [OF q(1)]
    by (auto simp: glob_accepts_def doubleStarMatchFile_def doubleStarMatchOne_def DoubleStarMatch.simps [of q]
        split: if_splits option.splits bool.splits)
qed

section \<open>The literal prefix\<close>

lemma literal_prefix_cases:
  assumes "backslash \<notin> set glob" "CHR ''/'' \<in> set glob" "globLiteralPrefix glob \<noteq> []"
  shows "(plain_text glob \<and> globLiteralPrefix glob = glob) \<or>
    (\<exists>r. plain_text (globLiteralPrefix glob) \<and> glob = globLiteralPrefix glob @ ''/'' @ r)"
proof -
  let ?ps = "split_on (CHR ''/'') glob"
  let ?lits = "takeWhile (list_all (\<lambda>c. \<not> glob_meta c)) ?ps"
  let ?rest = "dropWhile (list_all (\<lambda>c. \<not> glob_meta c)) ?ps"
  have g: "glob \<noteq> []" using assms(2) by auto
  then have P: "globLiteralPrefix glob = join_with ''/'' ?lits" by (simp add: globLiteralPrefix_def)
  have glob: "glob = join_with ''/'' (?lits @ ?rest)" by (simp add: go_simps)
  have chars: "set (join_with ''/'' ws) \<subseteq> \<Union> (set ` set ws) \<union> {CHR ''/''}" for ws
    by (induction "''/''" ws rule: join_with.induct) auto
  have "\<not> glob_meta c" if "c \<in> set (join_with ''/'' ?lits)" for c
    using chars [of ?lits] that by (fastforce simp: list_all_iff glob_meta_def dest: set_takeWhileD)
  moreover have "backslash \<notin> set (join_with ''/'' ?lits)"
  proof -
    have "lits @ rest = ws \<Longrightarrow> set (join_with ''/'' lits) \<subseteq> set (join_with ''/'' ws)" for lits rest ws :: "string list"
      by (cases "rest = []"; cases "lits = []") (auto simp: join_append lead_join)
    from this [of ?lits ?rest, OF refl] have "set (join_with ''/'' ?lits) \<subseteq> set glob" using glob by metis
    with assms(1) show ?thesis by blast
  qed
  ultimately have plain: "plain_text (globLiteralPrefix glob)" unfolding P plain_text_def by metis
  show ?thesis
  proof (cases "?rest = []")
    case True
    with glob P plain show ?thesis by simp
  next
    case False
    from assms(3) P have "?lits \<noteq> []" by auto
    with False glob have "glob = join_with ''/'' ?lits @ ''/'' @ join_with ''/'' ?rest"
      by (metis append_assoc join_append lead_join)
    with P plain show ?thesis by metis
  qed
qed

lemma prefixes_comparable: "a @ x = b @ y \<Longrightarrow> has_prefix a b \<or> has_prefix b a"
  by (auto simp: has_prefix_iff append_eq_append_conv2)

lemma accepted_below_prefix:
  assumes "backslash \<notin> set glob" "CHR ''/'' \<in> set glob" "globLiteralPrefix glob \<noteq> []"
    "glob_accepts glob (d @ ''/'' @ x)"
  shows "dirCompatibleWithPrefix d (globLiteralPrefix glob)"
proof -
  let ?P = "globLiteralPrefix glob"
  have "\<exists>s. d @ ''/'' @ x = ?P @ s \<and> (s = [] \<or> hd s = CHR ''/'')"
    using literal_prefix_cases [OF assms(1-3)]
  proof (elim disjE exE conjE)
    assume "plain_text glob" "?P = glob"
    with accepts_literal [OF _ assms(2,4)] show ?thesis by auto
  next
    fix r
    assume "plain_text ?P" "glob = ?P @ ''/'' @ r"
    with accepts_plain [of ?P r] assms(4) show ?thesis by (metis append_Cons list.sel(1))
  qed
  then obtain s where s: "d @ ''/'' @ x = ?P @ s" "s = [] \<or> hd s = CHR ''/''" by blast
  have "has_prefix (d @ ''/'') (?P @ ''/'') \<or> has_prefix (?P @ ''/'') (d @ ''/'')"
  proof (cases s)
    case Nil
    with s(1) have "?P @ ''/'' = (d @ ''/'') @ x @ ''/''" by simp
    then show ?thesis by (metis has_prefix_iff)
  next
    case (Cons c s')
    with s have "(d @ ''/'') @ x = (?P @ ''/'') @ s'" by simp
    then show ?thesis by (rule prefixes_comparable)
  qed
  then show ?thesis by (auto simp: dirCompatibleWithPrefix_def)
qed

text \<open>
  A glob without a slash is its own literal prefix when it is plain, so every directory below the
  root is pruned, though the file filter accepts the name anywhere.
\<close>

theorem literal_glob_stays_at_root:
  "glob_accepts ''go.mod'' ''sub/go.mod'' \<and> globLiteralPrefix ''go.mod'' = ''go.mod'' \<and>
   \<not> dirCompatibleWithPrefix ''sub'' (globLiteralPrefix ''go.mod'')"
  by code_simp

end
