(* ===== verification/Plumb_RateLimiter.thy ===== *)
theory Plumb_RateLimiter
  imports Plumb_Prelude
begin

text \<open>
  The write-rate limiter (\<open>internal/tools/rate_limit.go\<close>): a sliding window per connection
  and a budget shared by the connections of a client.

  A limiter is a record, a time a number of nanoseconds on the monotonic clock. \<open>Allow\<close>
  takes the mutex of a limiter several times and holds none in between, so it is a stack of
  frames, one per nested call, and \<open>micro\<close> runs the next critical section of the
  innermost call. \<open>lim_step\<close> interleaves the critical sections of any number of calls with
  \<open>SetLimit\<close>, \<open>SetParent\<close> and the clock. The field \<open>granted_via\<close> is not in the code: it counts,
  for a parent, the operations whose callers recorded a slot after it.
\<close>

record limiter =
  stamps :: "int list"
  limit :: int
  window :: int
  parent :: "nat option"

definition NewRateLimiter :: "int \<Rightarrow> int \<Rightarrow> limiter" where
  "NewRateLimiter lim win = \<lparr>stamps = [], limit = lim, window = win, parent = None\<rparr>"

definition pruneLocked :: "int \<Rightarrow> limiter \<Rightarrow> limiter" where
  "pruneLocked t r = r\<lparr>stamps := dropWhile (\<lambda>u. u < t - window r) (stamps r)\<rparr>"

definition full :: "limiter \<Rightarrow> bool" where
  "full r = (limit r \<le> int (length (stamps r)))"

definition recordLocal :: "int \<Rightarrow> limiter \<Rightarrow> limiter \<times> bool" where
  "recordLocal t r =
     (if limit r \<le> 0 then (r, True)
      else
        (let r' = pruneLocked t r
         in if full r' then (r', False) else (r'\<lparr>stamps := stamps r' @ [t]\<rparr>, True)))"

definition release :: "limiter \<Rightarrow> limiter" where
  "release r = r\<lparr>stamps := butlast (stamps r)\<rparr>"

definition enabled :: "limiter \<Rightarrow> bool" where
  "enabled r = (0 < limit r)"

definition SetLimit :: "int \<Rightarrow> limiter \<Rightarrow> limiter" where
  "SetLimit n r = r\<lparr>limit := n\<rparr>"

definition SetParent :: "nat option \<Rightarrow> limiter \<Rightarrow> limiter" where
  "SetParent p r = r\<lparr>parent := p\<rparr>"

definition Snapshot :: "limiter \<Rightarrow> nat \<times> int \<times> int" where
  "Snapshot r = (length (stamps r), limit r, window r)"

section \<open>The critical sections of Allow\<close>

text \<open>
  Where a call is: before its first look at the local window, waiting for the parent's
  \<open>Allow\<close>, before \<open>recordLocal\<close> (with the parent that recorded a slot) or before the
  release of that parent.
\<close>

datatype stage = Check | Await nat | Record "nat option" | Release "nat option"

type_synonym frame = "nat \<times> stage"

datatype thread = Running "frame list" | Returned bool

record lim_state =
  lims :: "nat \<Rightarrow> limiter"
  clock :: int
  threads :: "thread list"
  granted_via :: "nat \<Rightarrow> nat"

definition put_lim :: "nat \<Rightarrow> limiter \<Rightarrow> lim_state \<Rightarrow> lim_state" where
  "put_lim l r s = s\<lparr>lims := (lims s)(l := r)\<rparr>"

definition settle :: "nat option \<Rightarrow> lim_state \<Rightarrow> lim_state" where
  "settle q s =
     (case q of None \<Rightarrow> s | Some p \<Rightarrow> s\<lparr>granted_via := (granted_via s)(p := Suc (granted_via s p))\<rparr>)"

text \<open>What an \<open>Allow\<close> that answers \<open>b\<close> leaves of its callers.\<close>

fun return_to :: "bool \<Rightarrow> frame list \<Rightarrow> thread" where
  "return_to b [] = Returned b"
| "return_to b ((l, Await p) # fs) =
     (if b then Running ((l, Record (Some p)) # fs) else return_to False fs)"
| "return_to b fs = Running fs"

fun micro :: "lim_state \<Rightarrow> frame list \<Rightarrow> lim_state \<times> thread" where
  "micro s [] = (s, Running [])"
| "micro s ((l, Check) # fs) =
     (let r = lims s l in
      if limit r \<le> 0 then (s, Running ((l, Record None) # fs))
      else
        (let r' = pruneLocked (clock s) r; s' = put_lim l r' s in
         if full r' then (s', return_to False fs)
         else
           (case parent r' of
              None \<Rightarrow> (s', Running ((l, Record None) # fs))
            | Some p \<Rightarrow> (s', Running ((p, Check) # (l, Await p) # fs)))))"
| "micro s ((l, Await p) # fs) = (s, Running ((l, Await p) # fs))"
| "micro s ((l, Record q) # fs) =
     (case recordLocal (clock s) (lims s l) of (r, ok) \<Rightarrow>
        if ok then (settle q (put_lim l r s), return_to True fs)
        else (put_lim l r s, Running ((l, Release q) # fs)))"
| "micro s ((l, Release q) # fs) =
     (case q of
        None \<Rightarrow> (s, return_to False fs)
      | Some p \<Rightarrow> (put_lim p (release (lims s p)) s, return_to False fs))"

definition put_thread :: "nat \<Rightarrow> lim_state \<times> thread \<Rightarrow> lim_state" where
  "put_thread t sv = (case sv of (s, v) \<Rightarrow> s\<lparr>threads := (threads s)[t := v]\<rparr>)"

text \<open>
  One step. \<open>budget\<close> says which limiters are shared budgets: a connection's limiter is only
  ever given a budget as its parent, and a budget no parent (\<open>conn_config.go\<close>). Limits are
  positive: a limiter that is switched off records nothing.
\<close>

inductive lim_step :: "(nat \<Rightarrow> bool) \<Rightarrow> lim_state \<Rightarrow> lim_state \<Rightarrow> bool" for budget where
  start: "t < length (threads s) \<Longrightarrow> threads s ! t = Returned b \<Longrightarrow> \<not> budget l \<Longrightarrow>
    lim_step budget s (put_thread t (s, Running [(l, Check)]))"
| go: "t < length (threads s) \<Longrightarrow> threads s ! t = Running fs \<Longrightarrow>
    lim_step budget s (put_thread t (micro s fs))"
| tick: "0 \<le> d \<Longrightarrow> lim_step budget s (s\<lparr>clock := clock s + d\<rparr>)"
| set_limit: "0 < n \<Longrightarrow> lim_step budget s (put_lim l (SetLimit n (lims s l)) s)"
| set_parent: "\<not> budget l \<Longrightarrow> (case p of None \<Rightarrow> True | Some b \<Rightarrow> budget b) \<Longrightarrow>
    lim_step budget s (put_lim l (SetParent p (lims s l)) s)"

definition lim_init :: "nat \<Rightarrow> int \<Rightarrow> int \<Rightarrow> lim_state" where
  "lim_init n lim win =
     \<lparr>lims = \<lambda>_. NewRateLimiter lim win, clock = 0, threads = replicate n (Returned True),
      granted_via = \<lambda>_. 0\<rparr>"

section \<open>An uncontended call\<close>

fun run_thread :: "nat \<Rightarrow> lim_state \<Rightarrow> thread \<Rightarrow> (lim_state \<times> bool) option" where
  "run_thread n s (Returned b) = Some (s, b)"
| "run_thread 0 s (Running fs) = None"
| "run_thread (Suc n) s (Running fs) = (case micro s fs of (s', v) \<Rightarrow> run_thread n s' v)"

text \<open>
  \<open>Allow\<close> with nobody interfering: six critical sections are enough for a connection and
  its budget.
\<close>

definition Allow :: "nat \<Rightarrow> lim_state \<Rightarrow> (lim_state \<times> bool) option" where
  "Allow l s = run_thread 6 s (Running [(l, Check)])"

definition refund :: "nat \<Rightarrow> lim_state \<Rightarrow> lim_state" where
  "refund l s =
     (if \<not> enabled (lims s l) then s
      else
        (let s' = put_lim l (release (lims s l)) s in
         case parent (lims s' l) of
           None \<Rightarrow> s'
         | Some p \<Rightarrow> if enabled (lims s' p) then put_lim p (release (lims s' p)) s' else s'))"

section \<open>The window as a log of grants\<close>

fun decisions :: "limiter \<Rightarrow> int list \<Rightarrow> bool list" where
  "decisions r [] = []"
| "decisions r (t # ts) = (case recordLocal t r of (r', ok) \<Rightarrow> ok # decisions r' ts)"

text \<open>The reference: a request is granted when fewer than the limit were granted in its window.\<close>

definition in_window :: "int \<Rightarrow> int \<Rightarrow> int list \<Rightarrow> int list" where
  "in_window win t log = filter (\<lambda>u. t - win \<le> u \<and> u \<le> t) log"

fun spec_decisions :: "int \<Rightarrow> int \<Rightarrow> int list \<Rightarrow> int list \<Rightarrow> bool list" where
  "spec_decisions lim win log [] = []"
| "spec_decisions lim win log (t # ts) =
     (let ok = int (length (in_window win t log)) < lim
      in ok # spec_decisions lim win (if ok then log @ [t] else log) ts)"

definition grants :: "limiter \<Rightarrow> int list \<Rightarrow> int list" where
  "grants r ts = map fst (filter snd (zip ts (decisions r ts)))"

end
