(* ===== verification/Plumb_RateLimiter_Correct.thy ===== *)
theory Plumb_RateLimiter_Correct
  imports Plumb_RateLimiter
begin

text \<open>
  What the limiter guarantees. One limiter alone decides exactly as the log of its grants
  says (\<open>decisions_spec\<close>) and so never grants more than its limit in any window. Under every
  interleaving of calls, \<open>lim_inv\<close> bounds the slots a shared budget counts by the operations
  that were granted and the calls still in flight: a refused operation leaves nothing behind.
\<close>

section \<open>One limiter\<close>

lemma dropWhile_sorted:
  "sorted xs \<Longrightarrow> dropWhile (\<lambda>u. u < c) xs = filter (\<lambda>u. c \<le> u) (xs :: int list)"
  by (induction xs) (auto simp: filter_id_conv intro!: sym [OF filter_True])

lemma recordLocal_window:
  assumes "sorted log" "\<forall>u \<in> set log. u \<le> t" "stamps r = filter (\<lambda>u. c \<le> u) log" "c \<le> t - window r"
    and "0 < limit r"
  shows "recordLocal t r =
    (if int (length (in_window (window r) t log)) < limit r
     then (r\<lparr>stamps := in_window (window r) t log @ [t]\<rparr>, True)
     else (r\<lparr>stamps := in_window (window r) t log\<rparr>, False))"
proof -
  have "stamps (pruneLocked t r) = filter (\<lambda>u. t - window r \<le> u) (stamps r)"
    using assms(1) by (simp add: pruneLocked_def assms(3) dropWhile_sorted sorted_wrt_filter)
  also have "\<dots> = in_window (window r) t log"
    using assms(2,4) by (auto simp: assms(3) in_window_def intro!: filter_cong)
  finally show ?thesis
    using assms(5) by (auto simp: recordLocal_def Let_def full_def pruneLocked_def)
qed

lemma decisions_log:
  assumes "sorted log" "sorted ts" "\<forall>u \<in> set log. \<forall>t \<in> set ts. u \<le> t"
    and "stamps r = filter (\<lambda>u. c \<le> u) log" "\<forall>t \<in> set ts. c \<le> t - window r"
    and "0 < limit r" "0 \<le> window r"
  shows "decisions r ts = spec_decisions (limit r) (window r) log ts"
  using assms
proof (induction ts arbitrary: r log c)
  case (Cons t ts)
  let ?w = "in_window (window r) t log"
  note rec = recordLocal_window [of log t r c]
  have w: "?w = filter (\<lambda>u. t - window r \<le> u) log"
    using Cons.prems(3) by (auto simp: in_window_def intro!: filter_cong)
  show ?case
  proof (cases "int (length ?w) < limit r")
    case True
    have "decisions (r\<lparr>stamps := ?w @ [t]\<rparr>) ts = spec_decisions (limit r) (window r) (log @ [t]) ts"
      using Cons.IH [of "log @ [t]" "r\<lparr>stamps := ?w @ [t]\<rparr>" "t - window r"] Cons.prems
      by (auto simp: w sorted_append)
    with rec Cons.prems True show ?thesis by auto
  next
    case False
    have "decisions (r\<lparr>stamps := ?w\<rparr>) ts = spec_decisions (limit r) (window r) log ts"
      using Cons.IH [of log "r\<lparr>stamps := ?w\<rparr>" "t - window r"] Cons.prems by (auto simp: w)
    with rec Cons.prems False show ?thesis by auto
  qed
qed simp

definition window_bounded :: "int \<Rightarrow> int \<Rightarrow> int list \<Rightarrow> bool" where
  "window_bounded lim win log = (\<forall>x. int (length (filter (\<lambda>u. x \<le> u \<and> u \<le> x + win) log)) \<le> lim)"

lemma window_bounded_snoc:
  assumes "window_bounded lim win log" "\<forall>u \<in> set log. u \<le> t" "int (length (in_window win t log)) < lim"
  shows "window_bounded lim win (log @ [t])"
  unfolding window_bounded_def
proof
  fix x
  let ?f = "filter (\<lambda>u. x \<le> u \<and> u \<le> x + win)"
  show "int (length (?f (log @ [t]))) \<le> lim"
  proof (cases "x \<le> t \<and> t \<le> x + win")
    case True
    then have "?f log = filter (\<lambda>u. x \<le> u \<and> u \<le> x + win) (in_window win t log)"
      using assms(2) by (auto simp: in_window_def intro!: filter_cong)
    then have "length (?f log) \<le> length (in_window win t log)" by simp
    with True assms(3) show ?thesis by simp
  next
    case False
    with assms(1) show ?thesis by (auto simp: window_bounded_def)
  qed
qed

lemma spec_decisions_bounded:
  assumes "sorted ts" "window_bounded lim win log" "\<forall>u \<in> set log. \<forall>t \<in> set ts. u \<le> t"
  shows "window_bounded lim win (log @ map fst (filter snd (zip ts (spec_decisions lim win log ts))))"
  using assms
proof (induction ts arbitrary: log)
  case (Cons t ts)
  show ?case
  proof (cases "int (length (in_window win t log)) < lim")
    case True
    with Cons.IH [of "log @ [t]"] Cons.prems window_bounded_snoc [of lim win log t]
    show ?thesis by (auto simp: Let_def)
  next
    case False
    with Cons.IH [of log] Cons.prems show ?thesis by (auto simp: Let_def)
  qed
qed simp

section \<open>Every interleaving\<close>

text \<open>The frames of a call whose parent \<open>p\<close> has a slot that the call has not settled yet.\<close>

fun holds :: "nat \<Rightarrow> thread \<Rightarrow> nat" where
  "holds p (Returned b) = 0"
| "holds p (Running fs) =
     length (filter (\<lambda>f. snd f = Record (Some p) \<or> snd f = Release (Some p)) fs)"

definition held :: "nat \<Rightarrow> thread list \<Rightarrow> nat" where
  "held p vs = sum_list (map (holds p) vs)"

lemma held_update:
  "t < length vs \<Longrightarrow> held p (vs[t := v]) + holds p (vs ! t) = held p vs + holds p v"
proof (induction vs arbitrary: t)
  case (Cons w ws)
  then show ?case by (cases t) (auto simp: held_def)
qed simp

lemma held_get: "t < length vs \<Longrightarrow> holds p (vs ! t) \<le> held p vs"
  by (induction vs arbitrary: t) (auto simp: held_def nth_Cons' less_Suc_eq_0_disj trans_le_add2)

text \<open>The stacks that occur: a call on a connection, and in it at most one call on a budget.\<close>

inductive well_formed :: "(nat \<Rightarrow> bool) \<Rightarrow> thread \<Rightarrow> bool" for budget where
  "well_formed budget (Returned b)"
| "\<not> budget l \<Longrightarrow> well_formed budget (Running [(l, Check)])"
| "\<not> budget l \<Longrightarrow> (case q of None \<Rightarrow> True | Some p \<Rightarrow> budget p) \<Longrightarrow>
     well_formed budget (Running [(l, Record q)])"
| "\<not> budget l \<Longrightarrow> (case q of None \<Rightarrow> True | Some p \<Rightarrow> budget p) \<Longrightarrow>
     well_formed budget (Running [(l, Release q)])"
| "\<not> budget l \<Longrightarrow> budget p \<Longrightarrow> st \<in> {Check, Record None, Release None} \<Longrightarrow>
     well_formed budget (Running [(p, st), (l, Await p)])"

inductive_cases well_formedE: "well_formed budget (Running fs)"

definition lim_inv :: "(nat \<Rightarrow> bool) \<Rightarrow> lim_state \<Rightarrow> bool" where
  "lim_inv budget s =
     ((\<forall>v \<in> set (threads s). well_formed budget v) \<and>
      (\<forall>l. case parent (lims s l) of None \<Rightarrow> True | Some p \<Rightarrow> budget p \<and> \<not> budget l) \<and>
      (\<forall>p. budget p \<longrightarrow> length (stamps (lims s p)) \<le> granted_via s p + held p (threads s)))"

text \<open>What one critical section does to the parts of the state that the invariant reads.\<close>

definition section_ok :: "(nat \<Rightarrow> bool) \<Rightarrow> lim_state \<Rightarrow> frame list \<Rightarrow> lim_state \<times> thread \<Rightarrow> bool" where
  "section_ok budget s fs r =
     (threads (fst r) = threads s \<and> well_formed budget (snd r) \<and>
      (\<forall>l. parent (lims (fst r) l) = parent (lims s l)) \<and>
      (\<forall>p. budget p \<longrightarrow>
         (length (stamps (lims (fst r) p)) = 0 \<or>
          length (stamps (lims (fst r) p)) + holds p (Running fs) + granted_via s p
            \<le> length (stamps (lims s p)) + holds p (snd r) + granted_via (fst r) p)))"

lemma prune_simps [simp]:
  "parent (pruneLocked t r) = parent r" "limit (pruneLocked t r) = limit r"
  "window (pruneLocked t r) = window r"
  "length (stamps (pruneLocked t r)) \<le> length (stamps r)"
  by (auto simp: pruneLocked_def length_dropWhile_le)

lemma prune_le: "int (length (stamps (pruneLocked t r))) \<le> int (length (stamps r))"
  by simp

lemma recordLocal_simps:
  "parent (fst (recordLocal t r)) = parent r" "limit (fst (recordLocal t r)) = limit r"
  "snd (recordLocal t r) \<Longrightarrow> length (stamps (fst (recordLocal t r))) \<le> Suc (length (stamps r))"
  "\<not> snd (recordLocal t r) \<Longrightarrow> length (stamps (fst (recordLocal t r))) \<le> length (stamps r)"
  using prune_simps(4) [of t r] by (auto simp: recordLocal_def Let_def)

lemma release_simps [simp]:
  "parent (release r) = parent r" "limit (release r) = limit r"
  "length (stamps (release r)) = length (stamps r) - 1"
  by (simp_all add: release_def)

lemma put_lim_simps [simp]:
  "threads (put_lim l r s) = threads s" "granted_via (put_lim l r s) = granted_via s"
  "clock (put_lim l r s) = clock s" "lims (put_lim l r s) = (lims s)(l := r)"
  by (simp_all add: put_lim_def)

lemma settle_simps [simp]:
  "threads (settle q s) = threads s" "lims (settle q s) = lims s" "clock (settle q s) = clock s"
  "granted_via (settle q s) p = granted_via s p + (if q = Some p then 1 else 0)"
  by (auto simp: settle_def split: option.splits)

lemma butlast_short: "\<not> Suc (length xs - Suc 0) \<le> length xs \<Longrightarrow> butlast xs = []"
  by (cases xs) auto

lemma micro_ok:
  assumes "well_formed budget (Running fs)"
    and "\<forall>l. case parent (lims s l) of None \<Rightarrow> True | Some p \<Rightarrow> budget p \<and> \<not> budget l"
  shows "section_ok budget s fs (micro s fs)"
  using assms(1)
proof (rule well_formedE)
  fix l assume "\<not> budget l" "fs = [(l, Check)]"
  with assms(2) show ?thesis
    by (auto simp: section_ok_def Let_def well_formed.simps split: option.splits)
next
  fix l q assume 2: "\<not> budget l" "case q of None \<Rightarrow> True | Some p \<Rightarrow> budget p" "fs = [(l, Record q)]"
  obtain r ok where r: "recordLocal (clock s) (lims s l) = (r, ok)" by fastforce
  with recordLocal_simps(1) [of "clock s" "lims s l"] have "parent r = parent (lims s l)" by simp
  with 2 r show ?thesis
    by (cases ok) (auto simp: section_ok_def well_formed.simps split: option.splits)
next
  fix l q assume "\<not> budget l" "case q of None \<Rightarrow> True | Some p \<Rightarrow> budget p" "fs = [(l, Release q)]"
  then show ?thesis
    by (auto simp: section_ok_def well_formed.simps split: option.splits)
      (simp add: release_def butlast_short)
next
  fix l p st assume 4: "\<not> budget l" "budget p" "st = Check \<or> st = Record None \<or> st = Release None" "fs = [(p, st), (l, Await p)]"
  obtain r ok where r: "recordLocal (clock s) (lims s p) = (r, ok)" by fastforce
  with recordLocal_simps [where t = "clock s" and r = "lims s p"]
  have "parent r = parent (lims s p)" "length (stamps r) \<le> (if ok then Suc else id) (length (stamps (lims s p)))"
    by auto
  moreover have "parent (lims s p) = None"
    using assms(2) [THEN spec, of p] 4(2) by (cases "parent (lims s p)") auto
  ultimately have par: "parent r = parent (lims s p)" "parent (lims s p) = None"
    "parent (lims s p) = None" "length (stamps r) \<le> (if ok then Suc else id) (length (stamps (lims s p)))"
    by auto
  consider "st = Check" | "st = Record None" | "st = Release None" using 4(3) by auto
  then show ?thesis
  proof cases
    case 1
    have "micro s fs \<in>
        {(s, Running [(p, Record None), (l, Await p)]), (put_lim p (pruneLocked (clock s) (lims s p)) s, Returned False),
         (put_lim p (pruneLocked (clock s) (lims s p)) s, Running [(p, Record None), (l, Await p)])}"
      using 4(4) 1 par(3) by (simp add: Let_def)
    with 4(1,2,4) 1 show ?thesis
      by (auto simp: section_ok_def well_formed.simps)
  next
    case 2
    have "micro s fs = (if ok then (put_lim p r s, Running [(l, Record (Some p))])
        else (put_lim p r s, Running [(p, Release None), (l, Await p)]))"
      using 4(4) 2 r by (simp add: settle_def)
    with 4(1,2,4) 2 par show ?thesis
      by (cases ok) (simp_all add: section_ok_def well_formed.simps)
  next
    case 3
    with 4(1,4) show ?thesis by (auto simp: section_ok_def well_formed.simps)
  qed
qed

lemma put_thread_simps [simp]:
  "lims (put_thread t (s, v)) = lims s" "granted_via (put_thread t (s, v)) = granted_via s"
  "threads (put_thread t (s, v)) = (threads s)[t := v]" "clock (put_thread t (s, v)) = clock s"
  by (simp_all add: put_thread_def)

lemma lim_inv_init: "lim_inv budget (lim_init n lim win)"
  by (auto simp: lim_inv_def lim_init_def NewRateLimiter_def well_formed.simps)

lemma lim_inv_step:
  assumes "lim_step budget s s'" "lim_inv budget s"
  shows "lim_inv budget s'"
  using assms
proof cases
  case (start t b l)
  from held_update [OF start(2), of _ "Running [(l, Check)]"] start(3)
  have "held p ((threads s)[t := Running [(l, Check)]]) = held p (threads s)" for p by simp
  with start assms(2) show ?thesis
    by (auto simp: lim_inv_def well_formed.simps dest!: set_update_subset_insert [THEN subsetD])
next
  case (go t fs)
  obtain s1 v where m: "micro s fs = (s1, v)" by fastforce
  from go(2,3) assms(2) have wf: "well_formed budget (Running fs)"
    by (metis lim_inv_def nth_mem)
  from assms(2) have pars: "\<forall>l. case parent (lims s l) of None \<Rightarrow> True | Some p \<Rightarrow> budget p \<and> \<not> budget l"
    by (simp add: lim_inv_def)
  from micro_ok [OF wf pars] m have ok: "threads s1 = threads s" "well_formed budget v"
    "\<forall>l. parent (lims s1 l) = parent (lims s l)"
    "\<And>p. budget p \<Longrightarrow> length (stamps (lims s1 p)) = 0 \<or>
        length (stamps (lims s1 p)) + holds p (Running fs) + granted_via s p
          \<le> length (stamps (lims s p)) + holds p v + granted_via s1 p"
    by (auto simp: section_ok_def)
  have "length (stamps (lims s1 p)) \<le> granted_via s1 p + held p ((threads s)[t := v])" if "budget p" for p
    using ok(4) [OF that] held_update [OF go(2), of p v] go(3) assms(2) that
    by (fastforce simp: lim_inv_def)
  with go m ok(1-3) pars assms(2) show ?thesis
    by (auto simp: lim_inv_def dest!: set_update_subset_insert [THEN subsetD])
next
  case (set_limit n l)
  with assms(2) show ?thesis by (auto simp: lim_inv_def SetLimit_def)
next
  case (set_parent l p)
  with assms(2) show ?thesis by (auto simp: lim_inv_def SetParent_def split: option.splits)
qed (auto simp: lim_inv_def)

lemma lim_inv_reachable:
  "(lim_step budget)\<^sup>*\<^sup>* s s' \<Longrightarrow> lim_inv budget s \<Longrightarrow> lim_inv budget s'"
  by (induction rule: rtranclp_induct) (auto intro: lim_inv_step)

text \<open>Limits that stay below a bound keep every list of stamps below it.\<close>

definition limits_below :: "int \<Rightarrow> lim_state \<Rightarrow> bool" where
  "limits_below b s = (\<forall>l. limit (lims s l) \<le> b)"

definition stamps_below :: "int \<Rightarrow> lim_state \<Rightarrow> bool" where
  "stamps_below b s = (\<forall>l. int (length (stamps (lims s l))) \<le> b)"

lemma recordLocal_below:
  assumes "limit r \<le> b" "int (length (stamps r)) \<le> b"
  shows "int (length (stamps (fst (recordLocal t r)))) \<le> b"
  using assms order_trans [OF prune_le assms(2)] by (auto simp: recordLocal_def Let_def full_def)

lemma micro_below:
  assumes "limits_below b s" "stamps_below b s"
  shows "stamps_below b (fst (micro s fs))"
proof (cases fs)
  case (Cons f gs)
  obtain l st where f: "f = (l, st)" by fastforce
  have prune: "int (length (stamps (pruneLocked (clock s) (lims s l)))) \<le> b" for l
    using assms(2) order_trans [OF prune_le] by (simp add: stamps_below_def)
  have rec: "int (length (stamps (fst (recordLocal (clock s) (lims s l))))) \<le> b" for l
    using assms by (intro recordLocal_below) (auto simp: limits_below_def stamps_below_def)
  have rel: "int (length (stamps (release (lims s l)))) \<le> b" for l
    using assms(2) [unfolded stamps_below_def, THEN spec, of l] by simp
  show ?thesis
  proof (cases st)
    case Check
    with Cons f prune assms(2) show ?thesis
      by (auto simp: stamps_below_def Let_def split: option.splits)
  next
    case (Record q)
    with Cons f rec [of l] assms(2) show ?thesis
      by (cases "recordLocal (clock s) (lims s l)") (auto simp: stamps_below_def)
  next
    case (Release q)
    with Cons f rel assms(2) show ?thesis
      by (cases q) (auto simp: stamps_below_def simp del: release_simps(3))
  qed (use Cons f assms in \<open>auto simp: stamps_below_def\<close>)
qed (use assms in simp)

lemma lim_step_below:
  assumes "lim_step budget s s'" "limits_below b s" "stamps_below b s"
  shows "stamps_below b s'"
  using assms
proof cases
  case (go t fs)
  from micro_below [OF assms(2,3), of fs] go show ?thesis
    by (cases "micro s fs") (simp add: stamps_below_def)
qed (auto simp: stamps_below_def SetLimit_def SetParent_def)

lemma stamps_below_reachable:
  assumes "(\<lambda>s s'. lim_step budget s s' \<and> limits_below b s')\<^sup>*\<^sup>* s s'"
    and "limits_below b s" "stamps_below b s"
  shows "limits_below b s' \<and> stamps_below b s'"
  using assms by (induction rule: rtranclp_induct) (auto intro: lim_step_below)

section \<open>Schedules\<close>

text \<open>A schedule names the steps, so that a run can be evaluated.\<close>

datatype lim_action = Start nat nat | Go nat | Tick int | Set_Limit nat int | Set_Parent nat "nat option"

fun perform :: "(nat \<Rightarrow> bool) \<Rightarrow> lim_action \<Rightarrow> lim_state \<Rightarrow> lim_state option" where
  "perform budget (Start t l) s =
     (if t < length (threads s) \<and> \<not> budget l then
        (case threads s ! t of
           Returned _ \<Rightarrow> Some (put_thread t (s, Running [(l, Check)]))
         | _ \<Rightarrow> None)
      else None)"
| "perform budget (Go t) s =
     (if t < length (threads s) then
        (case threads s ! t of Running fs \<Rightarrow> Some (put_thread t (micro s fs)) | _ \<Rightarrow> None)
      else None)"
| "perform budget (Tick d) s = (if 0 \<le> d then Some (s\<lparr>clock := clock s + d\<rparr>) else None)"
| "perform budget (Set_Limit l n) s = (if 0 < n then Some (put_lim l (SetLimit n (lims s l)) s) else None)"
| "perform budget (Set_Parent l p) s =
     (if \<not> budget l \<and> (case p of None \<Rightarrow> True | Some b \<Rightarrow> budget b)
      then Some (put_lim l (SetParent p (lims s l)) s) else None)"

fun schedule :: "(nat \<Rightarrow> bool) \<Rightarrow> lim_action list \<Rightarrow> lim_state \<Rightarrow> lim_state option" where
  "schedule budget [] s = Some s"
| "schedule budget (a # as) s =
     (case perform budget a s of None \<Rightarrow> None | Some s' \<Rightarrow> schedule budget as s')"

lemma perform_step: "perform budget a s = Some s' \<Longrightarrow> lim_step budget s s'"
  by (cases a) (auto split: if_splits thread.splits option.splits intro: lim_step.intros)

lemma schedule_steps: "schedule budget as s = Some s' \<Longrightarrow> (lim_step budget)\<^sup>*\<^sup>* s s'"
  by (induction as arbitrary: s)
    (auto split: option.splits intro: converse_rtranclp_into_rtranclp perform_step)

text \<open>
  A run with two connections (1 and 2) and the budget 0, whose limit is 2 in 60 units.
  \<open>contention\<close>: two calls on connection 1, whose own limit is 1, both pass the parent; at time
  10 one of them is granted, and the other is refused and releases. \<open>later\<close>: connection 2 asks
  twice at time 61.
\<close>

definition budget_0 :: "nat \<Rightarrow> bool" where
  "budget_0 l = (l = 0)"

definition both_pass :: "lim_action list" where
  "both_pass = [Set_Parent 1 (Some 0), Set_Parent 2 (Some 0), Set_Limit 1 1,
                Start 0 1, Start 1 1, Go 0, Go 0, Go 0, Go 1, Tick 10, Go 1, Go 1]"

definition contention :: "lim_action list" where
  "contention = [Go 1, Go 0, Go 0]"

definition later :: "lim_action list" where
  "later = [Tick 51, Start 0 2, Go 0, Go 0, Go 0, Go 0, Start 1 2, Go 1, Go 1, Go 1, Go 1]"

fun idle :: "thread \<Rightarrow> bool" where
  "idle (Returned b) = True"
| "idle (Running fs) = False"

lemma prune_idem: "pruneLocked t (pruneLocked t r) = pruneLocked t r"
  by (simp add: pruneLocked_def dropWhile_idem)

section \<open>Properties\<close>

text \<open>One limiter alone grants a request exactly when fewer than its limit were granted in the
  window that ends at the request: the pruned list of stamps of rate_limit.go decides as the
  complete log of its grants would.\<close>

theorem limiter_decides_by_log:
  assumes "0 < lim" "0 \<le> win" "sorted ts"
  shows "decisions (NewRateLimiter lim win) ts = spec_decisions lim win [] ts"
proof (cases ts)
  case (Cons t us)
  have "decisions (NewRateLimiter lim win) ts =
      spec_decisions (limit (NewRateLimiter lim win)) (window (NewRateLimiter lim win)) [] ts"
    by (rule decisions_log [of _ _ _ "t - win"]) (use assms Cons in \<open>auto simp: NewRateLimiter_def\<close>)
  then show ?thesis by (simp add: NewRateLimiter_def)
qed simp

theorem limiter_decides_by_log_witness:
  "decisions (NewRateLimiter 2 60) [0, 10, 20, 61, 65] = [True, True, False, True, False]"
  using limiter_decides_by_log [of 2 60 "[0, 10, 20, 61, 65]"]
  by (simp add: in_window_def Let_def)

text \<open>No window of the limiter's length, wherever it starts, holds more grants than the limit.\<close>

theorem limiter_sliding_window:
  assumes "0 < lim" "0 \<le> win" "sorted ts"
  shows "int (length (filter (\<lambda>u. x \<le> u \<and> u \<le> x + win) (grants (NewRateLimiter lim win) ts))) \<le> lim"
proof -
  have "decisions (NewRateLimiter lim win) ts = spec_decisions lim win [] ts"
  proof (cases ts)
    case (Cons t us)
    have "decisions (NewRateLimiter lim win) ts =
        spec_decisions (limit (NewRateLimiter lim win)) (window (NewRateLimiter lim win)) [] ts"
      by (rule decisions_log [of _ _ _ "t - win"]) (use assms Cons in \<open>auto simp: NewRateLimiter_def\<close>)
    then show ?thesis by (simp add: NewRateLimiter_def)
  qed simp
  moreover have "window_bounded lim win ([] @ map fst (filter snd (zip ts (spec_decisions lim win [] ts))))"
    using assms by (intro spec_decisions_bounded) (auto simp: window_bounded_def)
  ultimately show ?thesis by (simp add: grants_def window_bounded_def)
qed

theorem limiter_sliding_window_witness:
  "int (length (filter (\<lambda>u. 5 \<le> u \<and> u \<le> 65) (grants (NewRateLimiter 2 60) [0, 10, 20, 61, 65]))) \<le> 2"
  using limiter_sliding_window [of 2 60 "[0, 10, 20, 61, 65]" 5] by simp

text \<open>C35. A refused operation leaves no slot in the shared budget: under every interleaving of the
  critical sections of Allow on any number of connections with the clock, SetLimit and
  SetParent, once no call is in flight a budget holds at most one slot per operation that was
  granted through it.\<close>

theorem budget_counts_only_grants:
  assumes "(lim_step budget)\<^sup>*\<^sup>* (lim_init n lim win) s" "budget p"
    and "\<forall>v \<in> set (threads s). idle v"
  shows "length (stamps (lims s p)) \<le> granted_via s p"
proof -
  have "holds p v = 0" if "idle v" for v using that by (cases v) auto
  with assms(3) have "held p (threads s) = 0" by (auto simp: held_def)
  with lim_inv_reachable [OF assms(1) lim_inv_init] assms(2) show ?thesis
    by (auto simp: lim_inv_def)
qed

theorem budget_counts_only_grants_witness:
  "\<exists>s. schedule budget_0 (both_pass @ contention) (lim_init 2 2 60) = Some s \<and>
       threads s = [Returned False, Returned True] \<and> length (stamps (lims s 0)) \<le> 1"
proof -
  obtain s where s: "schedule budget_0 (both_pass @ contention) (lim_init 2 2 60) = Some s"
    and t: "threads s = [Returned False, Returned True]" and g: "granted_via s 0 = 1"
  proof -
    have "map_option (\<lambda>s. (threads s, granted_via s 0))
        (schedule budget_0 (both_pass @ contention) (lim_init 2 2 60)) =
        Some ([Returned False, Returned True], 1)"
      by code_simp
    with that show thesis by auto
  qed
  from budget_counts_only_grants [OF schedule_steps [OF s], of 0] t g
  have "length (stamps (lims s 0)) \<le> 1" by (simp add: budget_0_def)
  with s t show ?thesis by blast
qed

text \<open>
  The cap holds under every interleaving: while no limit is above b, no limiter, of a
  connection or shared, ever holds more than b stamps.\<close>

theorem cap_under_contention:
  assumes "(\<lambda>s s'. lim_step budget s s' \<and> limits_below b s')\<^sup>*\<^sup>* (lim_init n lim win) s"
    and "lim \<le> b" "0 \<le> b"
  shows "int (length (stamps (lims s l))) \<le> b"
proof -
  have "limits_below b (lim_init n lim win)" "stamps_below b (lim_init n lim win)"
    using assms(2,3) by (auto simp: limits_below_def stamps_below_def lim_init_def NewRateLimiter_def)
  with stamps_below_reachable [OF assms(1)] show ?thesis by (auto simp: stamps_below_def)
qed

theorem cap_under_contention_witness:
  "int (length (stamps (lims (lim_init 2 2 60) 0))) \<le> 2"
  by (rule cap_under_contention [of budget_0 2 2 2 60]) simp_all

text \<open>What release gives back is the newest stamp, not the one of the refused operation, so a
  budget can later be too generous: in this run three operations are granted through a budget
  of two within its window of 60.\<close>

lemma release_drops_newest:
  "\<exists>s1 s2. schedule budget_0 both_pass (lim_init 2 2 60) = Some s1 \<and>
     schedule budget_0 (contention @ later) s1 = Some s2 \<and>
     limit (lims s1 0) = 2 \<and> limit (lims s2 0) = 2 \<and> clock s2 - clock s1 < window (lims s2 0) \<and>
     granted_via s1 0 = 0 \<and> granted_via s2 0 = 3"
proof -
  have "map_option (\<lambda>s. (limit (lims s 0), clock s, granted_via s 0))
      (schedule budget_0 both_pass (lim_init 2 2 60)) = Some (2, 10, 0)"
    by code_simp
  moreover have "map_option (\<lambda>s. (limit (lims s 0), clock s, window (lims s 0), granted_via s 0))
      (Option.bind (schedule budget_0 both_pass (lim_init 2 2 60)) (schedule budget_0 (contention @ later)))
      = Some (2, 61, 60, 3)"
    by code_simp
  ultimately show ?thesis by (auto simp: bind_eq_Some_conv)
qed

text \<open>refund undoes a granted, uncontended Allow on a connection with a budget: what is left is
  the two windows with only the expired stamps pruned.\<close>

theorem refund_undoes_allow:
  assumes "0 < limit (lims s l)" "parent (lims s l) = Some p" "l \<noteq> p"
    and "0 < limit (lims s p)" "parent (lims s p) = None" "Allow l s = Some (s', True)"
  shows "lims (refund l s') = (lims s)(l := pruneLocked (clock s) (lims s l), p := pruneLocked (clock s) (lims s p))"
proof -
  let ?l = "pruneLocked (clock s) (lims s l)" and ?p = "pruneLocked (clock s) (lims s p)"
  have nf: "\<not> full ?l" "\<not> full ?p"
    using assms by (auto simp: Allow_def eval_nat_numeral Let_def split: if_splits)
  have "s' = settle (Some p) (put_lim l (?l\<lparr>stamps := stamps ?l @ [clock s]\<rparr>)
      (put_lim p (?p\<lparr>stamps := stamps ?p @ [clock s]\<rparr>) (put_lim p ?p (put_lim l ?l s))))"
    using assms nf by (simp add: Allow_def eval_nat_numeral Let_def recordLocal_def prune_idem settle_def)
  with assms show ?thesis
    by (simp add: refund_def enabled_def release_def Let_def fun_eq_iff)
qed

theorem refund_undoes_allow_witness:
  "\<exists>s s'. schedule budget_0 [Set_Parent 1 (Some 0)] (lim_init 0 2 60) = Some s \<and> Allow 1 s = Some (s', True) \<and>
     stamps (lims s' 0) = [0] \<and> stamps (lims (refund 1 s') 0) = []"
proof -
  let ?s = "put_lim 1 (SetParent (Some 0) (NewRateLimiter 2 60)) (lim_init 0 2 60)"
  have "map_option (\<lambda>(s', b). (b, stamps (lims s' 0))) (Allow 1 ?s) = Some (True, [0])" by code_simp
  then obtain s' where a: "Allow 1 ?s = Some (s', True)" "stamps (lims s' 0) = [0]" by auto
  have "lims (refund 1 s') = (lims ?s)(1 := pruneLocked (clock ?s) (lims ?s 1), 0 := pruneLocked (clock ?s) (lims ?s 0))"
    by (rule refund_undoes_allow [OF _ _ _ _ _ a(1)])
      (simp_all add: SetParent_def NewRateLimiter_def lim_init_def)
  then have "stamps (lims (refund 1 s') 0) = []"
    by (simp add: pruneLocked_def lim_init_def NewRateLimiter_def)
  moreover have "schedule budget_0 [Set_Parent 1 (Some 0)] (lim_init 0 2 60) = Some ?s"
    by (simp add: budget_0_def lim_init_def)
  ultimately show ?thesis using a by blast
qed

end
