(* ===== verification/Plumb_Transaction.thy ===== *)
theory Plumb_Transaction
  imports Plumb_TxLog Plumb_EditFile Plumb_DirtyGuard
begin

text \<open>
  \<open>transaction_apply\<close> (\<open>internal/tools/transaction.go\<close>, \<open>transaction_diag.go\<close>): the order of the
  paths, the dirty check, the validation of every operation in memory, the writes under the
  durable log with the rollback of the written files, and the gate on new errors with its
  verified rollback. The locks are those of the path locks; the file of a path is the one
  \<open>paths.Canonical\<close> returns for it, here the path itself.
\<close>

section \<open>Data\<close>

record tx_operation =
  tx_path :: string
  tx_edits :: "(string \<times> string) list"
  tx_expected_mtime :: "int option"
  tx_expected_sha :: string

record tx_prepared =
  tp_path :: string
  tp_before :: string
  tp_after :: string
  tp_mtime :: int
  tp_perm :: "32 word"

datatype tx_error =
    No_operations
  | Too_many_operations nat
  | Outside_boundary string
  | Path_twice string
  | Dirty_files "string list"
  | Stat_failed nat
  | Mtime_moved nat
  | Same_mtime_other_content nat
  | Sha_differs nat
  | Read_failed nat
  | Old_empty nat nat
  | Old_not_found nat nat
  | Old_ambiguous nat nat nat
  | Rolled_back string "string list"
  | New_errors "string list" "string list"

section \<open>Before the writes\<close>

definition check_operations :: "tx_operation list \<Rightarrow> tx_error option" where
  "check_operations ops =
     (if ops = [] then Some No_operations
      else if 50 < length ops then Some (Too_many_operations (length ops)) else None)"

fun canonical_scan ::
  "(string \<Rightarrow> string) \<Rightarrow> (string \<Rightarrow> bool) \<Rightarrow> string list \<Rightarrow> string list \<Rightarrow> tx_error + string list" where
  "canonical_scan key boundary seen [] = Inr []"
| "canonical_scan key boundary seen (p # ps) =
     (if \<not> boundary p then Inl (Outside_boundary p)
      else if key p \<in> set seen then Inl (Path_twice p)
      else case canonical_scan key boundary (key p # seen) ps of Inl e \<Rightarrow> Inl e | Inr qs \<Rightarrow> Inr (p # qs))"

definition txCanonicalPaths ::
  "(string \<Rightarrow> string) \<Rightarrow> (string \<Rightarrow> bool) \<Rightarrow> tx_operation list \<Rightarrow> tx_error + string list" where
  "txCanonicalPaths key boundary ops =
     (case canonical_scan key boundary [] (map tx_path ops) of
        Inl e \<Rightarrow> Inl e | Inr ps \<Rightarrow> Inr (sort_key key ps))"

text \<open>A path is split into its directory and its base name by the two functions given.\<close>

definition txDirtyCheck ::
  "(string \<Rightarrow> string list \<Rightarrow> string option) \<Rightarrow> (string \<Rightarrow> string) \<Rightarrow> (string \<Rightarrow> string) \<Rightarrow> (string \<Rightarrow> bool) \<Rightarrow>
     string list \<Rightarrow> bool \<Rightarrow> bool \<Rightarrow> tx_error option" where
  "txDirtyCheck git dir base wrote paths dirtyOk blockDirty =
     (if dirtyOk \<or> \<not> blockDirty then None
      else
        let batch = (\<lambda>d. map base (filter (\<lambda>q. dir q = d) paths));
            dirty = filter (\<lambda>p. base p \<in> set (dirtyBasenamesInDir git (dir p) (batch (dir p)) False) \<and> \<not> wrote p) paths
        in if dirty = [] then None else Some (Dirty_files (sort dirty)))"

fun tx_apply_edits :: "nat \<Rightarrow> nat \<Rightarrow> (string \<times> string) list \<Rightarrow> string \<Rightarrow> tx_error + string" where
  "tx_apply_edits i j [] content = Inr content"
| "tx_apply_edits i j ((old, new) # es) content =
     (if old = [] then Inl (Old_empty i j)
      else
        let oldStr = matchLineEndings old content;
            newStr = matchLineEndings new content;
            count = str_count content oldStr
        in
        if count = 0 then Inl (Old_not_found i j)
        else if count = 1 then tx_apply_edits i (Suc j) es (replace_first content oldStr newStr)
        else Inl (Old_ambiguous i j count))"

text \<open>The text of a file; \<open>sha\<close> is the hash function, \<open>other\<close> the answer of \<open>changedAtSameMtime\<close>.\<close>

definition file_text :: "tx_content \<Rightarrow> string" where
  "file_text c = (case c of Text s \<Rightarrow> s | Manifest m \<Rightarrow> [])"

definition txValidateOp ::
  "(string \<Rightarrow> string) \<Rightarrow> (string \<Rightarrow> int \<Rightarrow> bool) \<Rightarrow> nat \<Rightarrow> tx_operation \<Rightarrow> (tx_error + tx_prepared) tx_io" where
  "txValidateOp sha other i op =
     (let p = path_of (tx_path op) in
      bind_io (attempt (stat p)) (\<lambda>info.
      case info of
        None \<Rightarrow> return_io (Inl (Stat_failed i))
      | Some n \<Rightarrow>
          if (case tx_expected_mtime op of Some want \<Rightarrow> i_mtime n \<noteq> want | None \<Rightarrow> False) then
            return_io (Inl (Mtime_moved i))
          else if (case tx_expected_mtime op of Some want \<Rightarrow> tx_expected_sha op = [] \<and> other (tx_path op) want | None \<Rightarrow> False) then
            return_io (Inl (Same_mtime_other_content i))
          else
            bind_io (if tx_expected_sha op = [] then return_io None
                     else bind_io (attempt (read_file p)) (\<lambda>r.
                          return_io (case r of
                              None \<Rightarrow> Some (Read_failed i)
                            | Some c \<Rightarrow> if sha (file_text c) \<noteq> tx_expected_sha op then Some (Sha_differs i) else None)))
              (\<lambda>bad. case bad of Some e \<Rightarrow> return_io (Inl e)
              | None \<Rightarrow>
                  bind_io (attempt (read_file p)) (\<lambda>r.
                  case r of
                    None \<Rightarrow> return_io (Inl (Read_failed i))
                  | Some c \<Rightarrow>
                      return_io
                        (case tx_apply_edits i 0 (tx_edits op) (file_text c) of
                           Inl e \<Rightarrow> Inl e
                         | Inr after \<Rightarrow>
                             Inr \<lparr>tp_path = tx_path op, tp_before = file_text c, tp_after = after,
                                  tp_mtime = i_mtime n, tp_perm = i_mode n\<rparr>)))))"

fun txPhase1Validate ::
  "(string \<Rightarrow> string) \<Rightarrow> (string \<Rightarrow> int \<Rightarrow> bool) \<Rightarrow> nat \<Rightarrow> tx_operation list \<Rightarrow> (tx_error + tx_prepared list) tx_io" where
  "txPhase1Validate sha other i [] = return_io (Inr [])"
| "txPhase1Validate sha other i (op # ops) =
     bind_io (txValidateOp sha other i op) (\<lambda>r.
     case r of
       Inl e \<Rightarrow> return_io (Inl e)
     | Inr p \<Rightarrow>
         bind_io (txPhase1Validate sha other (Suc i) ops) (\<lambda>rs.
         return_io (case rs of Inl e \<Rightarrow> Inl e | Inr ps \<Rightarrow> Inr (p # ps))))"

section \<open>The writes\<close>

text \<open>\<open>rollback\<close> returns the paths it restored.\<close>

fun rollback_written :: "tx_prepared list \<Rightarrow> (string list) tx_io" where
  "rollback_written [] = return_io []"
| "rollback_written (p # ps) =
     bind_io (attempt (safeWrite (path_of (tp_path p)) (Text (tp_before p)) (tp_perm p))) (\<lambda>r.
     bind_io (rollback_written ps) (\<lambda>rs. return_io (if r = None then rs else tp_path p # rs)))"

text \<open>A failure of the transaction after some writes: restore them, then replay the log.\<close>

definition give_up :: "replay_env \<Rightarrow> tx_log \<Rightarrow> tx_prepared list \<Rightarrow> string \<Rightarrow> (tx_error + tx_prepared list \<times> tx_log) tx_io" where
  "give_up env log written p =
     bind_io (rollback_written written) (\<lambda>restored.
     bind_io (Rollback env log) (\<lambda>_. return_io (Inl (Rolled_back p restored))))"

fun write_ops ::
  "replay_env \<Rightarrow> tx_log \<Rightarrow> tx_prepared list \<Rightarrow> tx_prepared list \<Rightarrow> (tx_error + tx_prepared list \<times> tx_log) tx_io" where
  "write_ops env log written [] = return_io (Inr (written, log))"
| "write_ops env log written (p # ps) =
     bind_io (attempt (stat (path_of (tp_path p)))) (\<lambda>info.
     if (case info of Some n \<Rightarrow> i_mtime n \<noteq> tp_mtime p | None \<Rightarrow> False) then give_up env log written (tp_path p)
     else
       bind_io (Record log (tp_path p) (tp_before p) (tp_perm p)) (\<lambda>(log', ok).
       bind_io (attempt (safeWrite (path_of (tp_path p)) (Text (tp_after p)) (tp_perm p))) (\<lambda>r.
       if r = None then give_up env log' written (tp_path p)
       else write_ops env log' (written @ [p]) ps)))"

definition txPhase2Write ::
  "replay_env \<Rightarrow> path option \<Rightarrow> string \<Rightarrow> nat \<Rightarrow> tx_prepared list \<Rightarrow> (tx_error + tx_prepared list \<times> tx_log) tx_io" where
  "txPhase2Write env workspace callID count prepared =
     bind_io (attempt (Begin workspace callID count)) (\<lambda>l.
     write_ops env (case l of Some log \<Rightarrow> log | None \<Rightarrow> no_log) [] prepared)"

section \<open>The gate on new errors\<close>

text \<open>\<open>rollbackVerified\<close>: only a file that still has what the transaction wrote is restored.\<close>

fun rollbackVerified :: "(string \<Rightarrow> string) \<Rightarrow> tx_prepared list \<Rightarrow> (string list \<times> string list) tx_io" where
  "rollbackVerified sha [] = return_io ([], [])"
| "rollbackVerified sha (p # ps) =
     bind_io (attempt (read_file (path_of (tp_path p)))) (\<lambda>c.
     bind_io (if (case c of Some x \<Rightarrow> sha (file_text x) = sha (tp_after p) | None \<Rightarrow> False) then
                attempt (safeWrite (path_of (tp_path p)) (Text (tp_before p)) (tp_perm p))
              else return_io None) (\<lambda>r.
     bind_io (rollbackVerified sha ps) (\<lambda>(restored, skipped).
     return_io (if r = None then (restored, tp_path p # skipped) else (tp_path p # restored, skipped)))))"

definition transaction_apply ::
  "(string \<Rightarrow> string) \<Rightarrow> replay_env \<Rightarrow> path option \<Rightarrow> string \<Rightarrow> nat \<Rightarrow> bool \<Rightarrow> (tx_prepared list \<Rightarrow> bool) \<Rightarrow> tx_prepared list \<Rightarrow>
     (tx_error + tx_prepared list) tx_io" where
  "transaction_apply sha env workspace callID count failOnNewErrors newErrors prepared =
     bind_io (txPhase2Write env workspace callID count prepared) (\<lambda>r.
     case r of
       Inl e \<Rightarrow> return_io (Inl e)
     | Inr (written, log) \<Rightarrow>
         if \<not> failOnNewErrors then bind_io (Commit log) (\<lambda>_. return_io (Inr written))
         else if newErrors written then
           bind_io (rollbackVerified sha written) (\<lambda>(restored, skipped).
           bind_io (Commit log) (\<lambda>_. return_io (Inl (New_errors restored skipped))))
         else bind_io (Commit log) (\<lambda>_. return_io (Inr written)))"

end
