(* ===== verification/Plumb_Transaction_Correct.thy ===== *)
theory Plumb_Transaction_Correct
  imports Plumb_Transaction Plumb_TxLog_Correct
begin

text \<open>
  The writes of a transaction under its log: at every moment each file has its old content or
  a snapshot in the log; a transaction that gives up leaves all old, one that ends all new.
\<close>

section \<open>The invariant of the writes\<close>

text \<open>Recoverable, from logs begun before \<open>k\<close>.\<close>

definition covered :: "path \<Rightarrow> string set \<Rightarrow> (string \<rightharpoonup> string) \<Rightarrow> int \<Rightarrow> (path \<Rightarrow> tx_content option) \<Rightarrow> bool" where
  "covered L D B k v = (recoverable L D B v \<and> old_logs L k v)"

lemma covered_right:
  "covered L D B k v \<Longrightarrow> v (manifest_path (L @ [e])) = Some (Manifest M) \<Longrightarrow> snapshots_right (L @ [e]) B (tx_ops M) v"
  unfolding covered_def using recoverable_right by blast

lemma covered_none: "covered L {} B k v \<Longrightarrow> all_old B v"
  unfolding covered_def using recoverable_none by blast

lemma covered_file:
  assumes "tx_files h L B" "B p = Some b" "covered L D B k v" "x = Some (Text b) \<or> (\<exists>e \<in> D. secured (L @ [e]) v p b)"
  shows "covered L D B k (v(path_of p := x))"
  using assms recoverable_file [OF assms(1,2)] old_logs_file [OF assms(1,2)] by (simp add: covered_def)

lemma covered_snapshot:
  assumes "tx_files h L B" "covered L D B k v"
    and "\<And>M op. v (manifest_path (L @ [e])) = Some (Manifest M) \<Longrightarrow> op \<in> set (tx_ops M) \<Longrightarrow> op_n op \<noteq> n"
  shows "covered L D B k (v(snapshotPath (L @ [e]) n := x))"
  using assms recoverable_snapshot [OF assms(1) _ assms(3)] by (simp add: covered_def old_logs_def)

lemma covered_manifest:
  assumes "tx_files h L B" "covered L D B k v" "e \<in> D" "\<exists>t < k. tx_started M = Some t" "snapshots_right (L @ [e]) B (tx_ops M) v"
    and "\<And>p b. B p = Some b \<Longrightarrow> secured (L @ [e]) v p b \<Longrightarrow> v (path_of p) = Some (Text b) \<or>
       (\<exists>op \<in> set (tx_ops M). op_path op = p \<and> op_snapshotted op \<and> v (snapshotPath (L @ [e]) (op_n op)) = Some (Text b))"
  shows "covered L D B k (v(manifest_path (L @ [e]) \<mapsto> Manifest M))"
  using recoverable_manifest [OF assms(1) _ assms(3,5,6)] assms(2,4) by (auto simp: covered_def old_logs_def)

definition tx_inv :: "path \<Rightarrow> string \<Rightarrow> (string \<rightharpoonup> string) \<Rightarrow> int \<Rightarrow> tx_log \<Rightarrow> tx_prepared list \<Rightarrow> (path \<Rightarrow> tx_content option) \<Rightarrow> bool" where
  "tx_inv L e B k l wr v =
     (log_dir l = Some (L @ [e]) \<and>
      v (manifest_path (L @ [e])) = Some (Manifest (log_manifest l)) \<and>
      (\<forall>op \<in> set (tx_ops (log_manifest l)). op_n op < int (log_n l)) \<and>
      (\<exists>t < k. tx_started (log_manifest l) = Some t) \<and>
      covered L {e} B k v \<and>
      (\<forall>p b. B p = Some b \<longrightarrow> p \<notin> tp_path ` set wr \<longrightarrow> v (path_of p) = Some (Text b)) \<and>
      (\<forall>q \<in> set wr. B (tp_path q) = Some (tp_before q) \<and> v (path_of (tp_path q)) = Some (Text (tp_after q))))"

text \<open>A write below the log directory does not touch the files.\<close>

lemma tx_inv_files:
  assumes "tx_files h L B" "tx_inv L e B k l wr v"
    and "\<And>p b. B p = Some b \<Longrightarrow> v' (path_of p) = v (path_of p)"
    and "log_dir l' = log_dir l" "v' (manifest_path (L @ [e])) = Some (Manifest (log_manifest l'))"
    and "\<forall>op \<in> set (tx_ops (log_manifest l')). op_n op < int (log_n l')"
    and "tx_started (log_manifest l') = tx_started (log_manifest l)" "covered L {e} B k v'"
  shows "tx_inv L e B k l' wr v'"
  using assms unfolding tx_inv_def by metis

definition meta_of :: "tx_log \<Rightarrow> string \<Rightarrow> 32 word \<Rightarrow> op_meta" where
  "meta_of l p perm = \<lparr>op_n = int (log_n l), op_path = p, op_perm = perm, op_snapshotted = True\<rparr>"

definition recorded :: "tx_log \<Rightarrow> string \<Rightarrow> 32 word \<Rightarrow> tx_log" where
  "recorded l p perm =
     l\<lparr>log_n := Suc (log_n l),
       log_manifest := (log_manifest l)\<lparr>tx_ops := tx_ops (log_manifest l) @ [meta_of l p perm]\<rparr>\<rparr>"

lemma Record_small:
  assumes "log_dir l = Some d" "length b \<le> maxSnapSize"
  shows "Record l p b perm =
    bind_io (attempt (write_file (snapshotPath d (int (log_n l))) (Text b) 384)) (\<lambda>r.
    if r = None then return_io (l\<lparr>log_n := Suc (log_n l)\<rparr>, False)
    else bind_io (attempt (writeManifest d (recorded l p perm))) (\<lambda>r. return_io (recorded l p perm, r \<noteq> None)))"
  using assms unfolding recorded_def meta_of_def by (simp add: Record_def Let_def cong: if_cong)

lemma recorded_snapshot:
  assumes "tx_files h L B" "tx_inv L e B k l wr v" "B p = Some b"
  shows "covered L {e} B k (v(snapshotPath (L @ [e]) (int (log_n l)) := x))"
proof (rule covered_snapshot [OF assms(1)])
  show "covered L {e} B k v" using assms(2) by (simp add: tx_inv_def)
  fix M op assume "v (manifest_path (L @ [e])) = Some (Manifest M)" "op \<in> set (tx_ops M)"
  then show "op_n op \<noteq> int (log_n l)" using assms(2) by (auto simp: tx_inv_def)
qed

lemma recorded_manifest:
  fixes perm :: "32 word"
  assumes "tx_files h L B" "tx_inv L e B k l wr v" "B p = Some b"
  defines "v1 \<equiv> v(snapshotPath (L @ [e]) (int (log_n l)) \<mapsto> Text b)"
  defines "v2 \<equiv> v1(manifest_path (L @ [e]) \<mapsto> Manifest (log_manifest (recorded l p perm)))"
  shows "tx_inv L e B k (recorded l p perm) wr v2 \<and> secured (L @ [e]) v2 p b"
proof
  let ?ops = "tx_ops (log_manifest (recorded l p perm))"
  have v: "log_dir l = Some (L @ [e])" "v (manifest_path (L @ [e])) = Some (Manifest (log_manifest l))"
    "\<forall>op \<in> set (tx_ops (log_manifest l)). op_n op < int (log_n l)"
    using assms(2) by (simp_all add: tx_inv_def)
  have ops: "?ops = tx_ops (log_manifest l) @ [meta_of l p perm]" by (simp add: recorded_def)
  have v1: "covered L {e} B k v1" unfolding v1_def by (rule recorded_snapshot [OF assms(1-3)])
  have m1: "v1 (manifest_path (L @ [e])) = Some (Manifest (log_manifest l))" by (simp add: v1_def v(2))
  have new: "v1 (snapshotPath (L @ [e]) (op_n (meta_of l p perm))) = Some (Text b)"
    by (simp add: v1_def meta_of_def)
  have v2: "covered L {e} B k v2"
    unfolding v2_def
  proof (rule covered_manifest [OF assms(1) v1])
    show "\<exists>t < k. tx_started (log_manifest (recorded l p perm)) = Some t"
      using assms(2) by (simp add: recorded_def tx_inv_def)
    show "snapshots_right (L @ [e]) B ?ops v1"
      using covered_right [OF v1 m1] new assms(3) unfolding snapshots_right_def ops
      by (auto simp: meta_of_def)
    fix q c assume "B q = Some c" "secured (L @ [e]) v1 q c"
    then show "v1 (path_of q) = Some (Text c) \<or>
        (\<exists>op \<in> set ?ops. op_path op = q \<and> op_snapshotted op \<and> v1 (snapshotPath (L @ [e]) (op_n op)) = Some (Text c))"
      using m1 by (auto simp: secured_def ops)
  qed simp
  show "secured (L @ [e]) v2 p b"
    unfolding secured_def
    by (intro exI [of _ "log_manifest (recorded l p perm)"] exI [of _ "meta_of l p perm"])
      (use new in \<open>simp add: v2_def ops meta_of_def\<close>)
  show "tx_inv L e B k (recorded l p perm) wr v2"
  proof (rule tx_inv_files [OF assms(1,2) _ _ _ _ _ v2])
    show "v2 (path_of q) = v (path_of q)" if "B q = Some c" for q c
      using file_not_log [OF assms(1) that] by (simp add: v2_def v1_def)
    show "\<forall>op \<in> set ?ops. op_n op < int (log_n (recorded l p perm))"
      using v(3) by (auto simp: ops recorded_def meta_of_def)
  qed (simp_all add: recorded_def v2_def)
qed

section \<open>A transaction without faults\<close>

definition tx_setting :: "tx_content host \<Rightarrow> path set \<Rightarrow> path \<Rightarrow> (string \<rightharpoonup> string) \<Rightarrow> bool" where
  "tx_setting h E L B =
     (no_faults h \<and> good_names h \<and> log_names h \<and> tx_files h L B \<and> tmp_dir h \<in> E \<and>
      (\<forall>p b. B p = Some b \<longrightarrow> butlast (path_of p) \<in> E \<and> length b \<le> maxSnapSize) \<and>
      (\<forall>q \<in> E. take (length L) q = L \<longrightarrow> q = L))"

abbreviation kept_safe :: "tx_content host \<Rightarrow> path set \<Rightarrow> path \<Rightarrow> string \<Rightarrow> (string \<rightharpoonup> string) \<Rightarrow> int \<Rightarrow> tx_content os \<Rightarrow> bool" where
  "kept_safe h E L e B k \<equiv> holds h (log_dirs E L {e}) (covered L {e} B k)"

lemma triple_attempt_sure:
  assumes "triple h P m (\<lambda>_. Q) (\<lambda>_. False) C"
  shows "triple h P (attempt m) (\<lambda>r s. r \<noteq> None \<and> Q s) (\<lambda>_. False) C"
  by (rule triple_attempt, rule triple_weaken [OF assms]) auto

lemma Record_sure:
  assumes set: "tx_setting h E L B" and inv: "tx_inv L e B k l wr v" and b: "B p = Some b"
  shows "triple h (sees h (log_dirs E L {e}) v) (Record l p b perm)
    (\<lambda>(l', _). holds h (log_dirs E L {e}) (\<lambda>v. tx_inv L e B k l' wr v \<and> secured (L @ [e]) v p b))
    (\<lambda>_. False) (kept_safe h E L e B k)"
proof -
  let ?E = "log_dirs E L {e}"
  let ?s = "snapshotPath (L @ [e]) (int (log_n l))"
  have h: "no_faults h" "log_names h" "tx_files h L B" "length b \<le> maxSnapSize"
    using set b by (simp_all add: tx_setting_def)
  have E: "L @ [e] \<in> ?E" by (simp add: log_dirs_def)
  have dir: "log_dir l = Some (L @ [e])" using inv by (simp add: tx_inv_def)
  let ?v1 = "v(?s \<mapsto> Text b)"
  let ?v2 = "?v1(manifest_path (L @ [e]) \<mapsto> Manifest (log_manifest (recorded l p perm)))"
  have two: "tx_inv L e B k (recorded l p perm) wr ?v2" "secured (L @ [e]) ?v2 p b"
    using recorded_manifest [OF h(3) inv b] by blast+
  have safe: "kept_safe h E L e B k s" if "sees h ?E (v(?s := x)) s" for x s
    using that recorded_snapshot [OF h(3) inv b] by (rule holdsI)
  have safe2: "kept_safe h E L e B k s" if "sees h ?E ?v2 s" for s
    using that two(1) by (intro holdsI [of h ?E ?v2]) (simp_all add: tx_inv_def)
  have safe0: "kept_safe h E L e B k s" if "sees h ?E v s" for s
    using that inv unfolding tx_inv_def by (blast intro: holdsI)
  have snap: "triple h (sees h ?E v) (attempt (write_file ?s (Text b) 384))
      (\<lambda>r s. r \<noteq> None \<and> sees h ?E ?v1 s) (\<lambda>_. False) (kept_safe h E L e B k)"
    by (rule triple_attempt_sure, rule triple_weaken [OF vt_write_file_sure [OF h(1) log_not_junk(2) [OF h(2)]]])
      (auto simp: E torn_def intro: safe)
  have man: "triple h (sees h ?E ?v1) (attempt (writeManifest (L @ [e]) (recorded l p perm)))
      (\<lambda>r s. r \<noteq> None \<and> sees h ?E ?v2 s) (\<lambda>_. False) (kept_safe h E L e B k)"
    unfolding writeManifest_def atomicWriteManifest_def
    by (rule triple_attempt_sure, rule triple_weaken [OF vt_AtomicWrite_sure [OF h(1) log_not_junk(1) [OF h(2)]]])
      (auto simp: E either_def intro: safe safe2)
  show ?thesis
    unfolding Record_small [OF dir h(4)]
  proof (rule triple_bind [OF snap], rule triple_pure)
    fix r :: "unit option" assume "r \<noteq> None"
    then show "triple h (sees h ?E ?v1)
        (if r = None then return_io (l\<lparr>log_n := Suc (log_n l)\<rparr>, False)
         else bind_io (attempt (writeManifest (L @ [e]) (recorded l p perm))) (\<lambda>r. return_io (recorded l p perm, r \<noteq> None)))
        (\<lambda>(l', _). holds h ?E (\<lambda>v. tx_inv L e B k l' wr v \<and> secured (L @ [e]) v p b)) (\<lambda>_. False)
        (kept_safe h E L e B k)"
      by simp (rule triple_bind [OF man], rule triple_return, auto intro!: holdsI two)
  qed
qed


text \<open>What a crash leaves: the logs still needed have all that is not old in the files.\<close>

definition tx_interrupted :: "tx_content host \<Rightarrow> path set \<Rightarrow> path \<Rightarrow> string \<Rightarrow> (string \<rightharpoonup> string) \<Rightarrow> int \<Rightarrow> tx_content os \<Rightarrow> bool" where
  "tx_interrupted h E L e B k s = (\<exists>D \<subseteq> {e}. holds h (log_dirs E L D) (covered L D B k) s)"

lemma tx_interruptedI: "holds h (log_dirs E L D) (covered L D B k) s \<Longrightarrow> D \<subseteq> {e} \<Longrightarrow> tx_interrupted h E L e B k s"
  by (auto simp: tx_interrupted_def)

text \<open>All files but those of \<open>ps\<close> are old.\<close>

definition rest_old :: "path \<Rightarrow> string \<Rightarrow> (string \<rightharpoonup> string) \<Rightarrow> int \<Rightarrow> tx_manifest \<Rightarrow> tx_prepared list \<Rightarrow> (path \<Rightarrow> tx_content option) \<Rightarrow> bool" where
  "rest_old L e B k M ps v =
     (covered L {e} B k v \<and> v (manifest_path (L @ [e])) = Some (Manifest M) \<and>
      (\<forall>p b. B p = Some b \<longrightarrow> p \<notin> tp_path ` set ps \<longrightarrow> v (path_of p) = Some (Text b)))"

lemma rest_old_none: "rest_old L e B k M [] v \<Longrightarrow> covered L {} B k v"
  by (auto simp: rest_old_def covered_def recoverable_def)

lemma rest_old_step:
  assumes "tx_files h L B" "rest_old L e B k M (p # ps) v" "B (tp_path p) = Some b"
  shows "rest_old L e B k M ps (v(path_of (tp_path p) \<mapsto> Text b))"
  unfolding rest_old_def
proof (intro conjI allI impI)
  let ?v = "v(path_of (tp_path p) \<mapsto> Text b)"
  show "covered L {e} B k ?v"
    using assms(2) by (intro covered_file [OF assms(1,3)]) (auto simp: rest_old_def)
  show "?v (manifest_path (L @ [e])) = Some (Manifest M)"
    using assms(2) file_not_log [OF assms(1,3)] by (simp add: rest_old_def)
  fix q c assume q: "B q = Some c" "q \<notin> tp_path ` set ps"
  show "?v (path_of q) = Some (Text c)"
  proof (cases "q = tp_path p")
    case True
    then show ?thesis using q(1) assms(3) by simp
  next
    case False
    then have "path_of q \<noteq> path_of (tp_path p)" using assms(1,3) q(1) unfolding tx_files_def by blast
    then show ?thesis using assms(2) q False by (simp add: rest_old_def)
  qed
qed

lemma rest_old_file:
  assumes "tx_files h L B" "rest_old L e B k M [] v" "B p = Some b"
  shows "rest_old L e B k M [] (v(path_of p \<mapsto> Text b))"
  using rest_old_step [of h L B e k M "\<lparr>tp_path = p, tp_before = b, tp_after = b, tp_mtime = 0, tp_perm = 0\<rparr>" "[]" v b] assms
  by (auto simp: rest_old_def)

lemma rollback_written_sure:
  assumes set: "tx_setting h E L B" and ps: "\<forall>p \<in> set ps. B (tp_path p) = Some (tp_before p)"
  shows "triple h (holds h (log_dirs E L {e}) (rest_old L e B k M ps)) (rollback_written ps)
    (\<lambda>_. holds h (log_dirs E L {e}) (rest_old L e B k M [])) (\<lambda>_. False) (tx_interrupted h E L e B k)"
  using ps
proof (induction ps)
  case Nil
  then show ?case by (auto intro: triple_return)
next
  case (Cons p ps)
  let ?E = "log_dirs E L {e}"
  have h: "no_faults h" "good_names h" "tx_files h L B" "tmp_dir h \<in> ?E" using set by (auto simp: tx_setting_def log_dirs_def)
  have b: "B (tp_path p) = Some (tp_before p)" using Cons.prems by simp
  then have f: "path_of (tp_path p) \<notin> junk h" "path_of (tp_path p) \<noteq> []" "butlast (path_of (tp_path p)) \<in> ?E"
    using h(3) set unfolding tx_files_def tx_setting_def log_dirs_def by blast+
  have w: "triple h (holds h ?E (rest_old L e B k M (p # ps)))
      (attempt (safeWrite (path_of (tp_path p)) (Text (tp_before p)) (tp_perm p)))
      (\<lambda>r s. r \<noteq> None \<and> holds h ?E (rest_old L e B k M ps) s) (\<lambda>_. False) (tx_interrupted h E L e B k)"
  proof (rule triple_holds)
    fix v assume v: "rest_old L e B k M (p # ps) v"
    let ?v = "v(path_of (tp_path p) \<mapsto> Text (tp_before p))"
    have v': "rest_old L e B k M ps ?v" by (rule rest_old_step [OF h(3) v b])
    have "covered L {e} B k v" "covered L {e} B k ?v" using v v' by (simp_all add: rest_old_def)
    then have c: "sees h ?E v s \<Longrightarrow> tx_interrupted h E L e B k s" "sees h ?E ?v s \<Longrightarrow> tx_interrupted h E L e B k s" for s
      by (auto intro: tx_interruptedI holdsI)
    show "triple h (sees h ?E v) (attempt (safeWrite (path_of (tp_path p)) (Text (tp_before p)) (tp_perm p)))
        (\<lambda>r s. r \<noteq> None \<and> holds h ?E (rest_old L e B k M ps) s) (\<lambda>_. False) (tx_interrupted h E L e B k)"
      by (rule triple_attempt, rule triple_weaken [OF vt_safeWrite_sure [OF h(1) f(1) h(2) f(2,3) h(4)]])
        (auto intro: holdsI v' c simp: either_def)
  qed
  have ih: "triple h (holds h ?E (rest_old L e B k M ps)) (rollback_written ps)
      (\<lambda>_. holds h ?E (rest_old L e B k M [])) (\<lambda>_. False) (tx_interrupted h E L e B k)"
    using Cons by simp
  show ?case
    unfolding rollback_written.simps
    by (rule triple_bind [OF w], rule triple_pure, rule triple_bind [OF ih], rule triple_return)
qed

lemma rollback_ops_sure:
  assumes set: "tx_setting h E L B" and env: "replayable h env E B"
    and ops: "set ops \<subseteq> set (tx_ops M)"
  shows "triple h (holds h (log_dirs E L {e}) (rest_old L e B k M [])) (rollback_ops env (L @ [e]) ops)
    (\<lambda>_. holds h (log_dirs E L {e}) (rest_old L e B k M [])) (\<lambda>_. False) (tx_interrupted h E L e B k)"
  using ops
proof (induction ops)
  case Nil
  then show ?case by (auto intro: triple_return)
next
  case (Cons op ops)
  let ?E = "log_dirs E L {e}" and ?Q = "rest_old L e B k M []"
  let ?t = "case replayTarget env (op_path op) of Some t \<Rightarrow> t | None \<Rightarrow> op_path op"
  have h: "no_faults h" "log_names h" "tx_files h L B" using set by (simp_all add: tx_setting_def)
  have env': "replayable h env ?E B" using env by (auto simp: replayable_def log_dirs_def)
  have right: "snapshots_right (L @ [e]) B [op] v" if "?Q v" for v
  proof -
    have "covered L {e} B k v" "v (manifest_path (L @ [e])) = Some (Manifest M)" using that by (simp_all add: rest_old_def)
    then have "snapshots_right (L @ [e]) B (tx_ops M) v" by (rule covered_right)
    then show ?thesis using Cons.prems by (auto simp: snapshots_right_def)
  qed
  have target: "?t = op_path op" if "B (op_path op) = Some b" for b
  proof -
    have "replay_to env [] op = Some (op_path op)" using that env unfolding replayable_def by blast
    then show ?thesis by (auto simp: replay_to_def split: if_splits option.splits)
  qed
  have step: "triple h (holds h ?E ?Q) (restoreOp (L @ [e]) op (op_perm op) ?t)
      (\<lambda>_. holds h ?E (\<lambda>v. ?Q v \<and> restored (L @ [e]) B [op] v)) (\<lambda>_. False) (holds h ?E ?Q)"
    by (rule restore_step [where Q = ?Q, OF h env']) (erule right, erule (1) rest_old_file [OF h(3)], erule target)
  then have "triple h (holds h ?E ?Q) (restoreOp (L @ [e]) op (op_perm op) ?t)
      (\<lambda>_. holds h ?E ?Q) (\<lambda>_. False) (tx_interrupted h E L e B k)"
    by (rule triple_weaken) (auto simp: holds_def rest_old_def intro!: tx_interruptedI)
  then show ?case
    unfolding rollback_ops.simps using Cons by (auto intro: triple_bind)
qed

lemma give_up_sure:
  assumes set: "tx_setting h E L B" and env: "replayable h env E B"
    and inv: "\<And>v. Q v \<Longrightarrow> rest_old L e B k (log_manifest l) wr v" and dir: "log_dir l = Some (L @ [e])"
    and wr: "\<forall>p \<in> set wr. B (tp_path p) = Some (tp_before p)"
  shows "triple h (holds h (log_dirs E L {e}) Q) (give_up env l wr p)
    (\<lambda>r s. (\<exists>x. r = Inl x) \<and> holds h E (covered L {} B k) s) (\<lambda>_. False) (tx_interrupted h E L e B k)"
proof -
  have first: "triple h (holds h (log_dirs E L {e}) Q) (rollback_written wr)
      (\<lambda>_. holds h (log_dirs E L {e}) (rest_old L e B k (log_manifest l) [])) (\<lambda>_. False) (tx_interrupted h E L e B k)"
    by (rule triple_weaken [OF rollback_written_sure [OF set wr, of e k "log_manifest l"]]) (auto simp: holds_def intro: inv)
  have files: "tx_files h L B" and E: "\<forall>q \<in> E. take (length L) q = L \<longrightarrow> q = L" using set by (simp_all add: tx_setting_def)
  have cov: "covered L {} B k = (\<lambda>v. recoverable L {} B v \<and> old_logs L k v)" by (simp add: fun_eq_iff covered_def)
  let ?N = "holds h (log_dirs E L {}) (covered L {} B k)"
  have base: "triple h ?N (best_effort (remove_all (L @ [e]))) (\<lambda>_. ?N) (\<lambda>_. False) ?N"
    unfolding cov by (rule recover_remove [OF files E]) (auto intro: old_logs_remove)
  have last: "triple h (holds h (log_dirs E L {e}) (rest_old L e B k (log_manifest l) [])) (best_effort (remove_all (L @ [e])))
      (\<lambda>_. holds h E (covered L {} B k)) (\<lambda>_. False) (tx_interrupted h E L e B k)"
  proof (rule triple_weaken [OF base])
    fix s assume "holds h (log_dirs E L {e}) (rest_old L e B k (log_manifest l) []) s"
    then show "?N s" unfolding holds_def by (auto simp: log_dirs_def intro: rest_old_none elim!: sees_subset)
  next
    fix s assume "?N s"
    then show "holds h E (covered L {} B k) s" by (simp add: log_dirs_def)
  next
    fix s assume "?N s"
    then show "tx_interrupted h E L e B k s" by (simp add: tx_interruptedI)
  qed simp_all
  have "triple h (holds h (log_dirs E L {e}) (rest_old L e B k (log_manifest l) [])) (Rollback env l)
      (\<lambda>_. holds h E (covered L {} B k)) (\<lambda>_. False) (tx_interrupted h E L e B k)"
    unfolding Rollback_def dir option.case
    by (rule triple_bind [OF rollback_ops_sure [OF set env subset_refl]], rule last)
  then show ?thesis
    unfolding give_up_def by (rule triple_bind [OF first triple_bind]) (rule triple_return, simp)
qed


lemma tx_inv_write:
  assumes "tx_files h L B" "tx_inv L e B k l wr v" "secured (L @ [e]) v (tp_path p) (tp_before p)"
    and "B (tp_path p) = Some (tp_before p)" "tp_path p \<notin> tp_path ` set wr"
  shows "tx_inv L e B k l (wr @ [p]) (v(path_of (tp_path p) \<mapsto> Text (tp_after p)))"
proof -
  let ?v = "v(path_of (tp_path p) \<mapsto> Text (tp_after p))"
  have other: "path_of q \<noteq> path_of (tp_path p)" if "B q = Some c" "q \<noteq> tp_path p" for q c
    using assms(1,4) that unfolding tx_files_def by blast
  have "covered L {e} B k ?v"
    using assms(2,3) by (intro covered_file [OF assms(1,4)]) (auto simp: tx_inv_def)
  moreover have "?v (manifest_path (L @ [e])) = v (manifest_path (L @ [e]))"
    using file_not_log [OF assms(1,4)] by simp
  moreover have "?v (path_of q) = Some (Text c)" if "B q = Some c" "q \<notin> tp_path ` set (wr @ [p])" for q c
    using assms(2) that other [OF that(1)] by (auto simp: tx_inv_def)
  moreover have "B (tp_path q) = Some (tp_before q) \<and> ?v (path_of (tp_path q)) = Some (Text (tp_after q))"
    if "q \<in> set (wr @ [p])" for q
  proof (cases "q = p")
    case False
    then have "q \<in> set wr" using that by simp
    then have q: "B (tp_path q) = Some (tp_before q) \<and> v (path_of (tp_path q)) = Some (Text (tp_after q))"
      "tp_path q \<noteq> tp_path p"
      using assms(2,5) by (simp_all add: tx_inv_def) (metis imageI)
    then show ?thesis using other by auto
  qed (use assms(4) in simp)
  ultimately show ?thesis using assms(2) unfolding tx_inv_def by simp
qed

lemma tx_inv_rest_old: "tx_inv L e B k l wr v \<Longrightarrow> rest_old L e B k (log_manifest l) wr v"
  by (simp add: tx_inv_def rest_old_def)

definition all_written :: "tx_content host \<Rightarrow> path set \<Rightarrow> path \<Rightarrow> string \<Rightarrow> (string \<rightharpoonup> string) \<Rightarrow> int \<Rightarrow> tx_prepared list \<Rightarrow>
    tx_error + tx_prepared list \<times> tx_log \<Rightarrow> tx_content os \<Rightarrow> bool" where
  "all_written h E L e B k ps r s =
     (case r of
        Inl x \<Rightarrow> holds h E (covered L {} B k) s
      | Inr (w, l) \<Rightarrow> w = ps \<and> holds h (log_dirs E L {e}) (tx_inv L e B k l ps) s)"

lemma write_ops_sure:
  assumes set: "tx_setting h E L B" and env: "replayable h env E B"
    and ps: "\<forall>p \<in> set ps. B (tp_path p) = Some (tp_before p)" "distinct (map tp_path (wr @ ps))"
  shows "triple h (holds h (log_dirs E L {e}) (tx_inv L e B k l wr)) (write_ops env l wr ps)
    (all_written h E L e B k (wr @ ps)) (\<lambda>_. False) (tx_interrupted h E L e B k)"
  using ps
proof (induction ps arbitrary: l wr)
  case Nil
  then show ?case by (auto intro!: triple_return simp: all_written_def)
next
  case (Cons p ps)
  let ?E = "log_dirs E L {e}"
  have h: "no_faults h" "good_names h" "tx_files h L B" "tmp_dir h \<in> ?E" using set by (auto simp: tx_setting_def log_dirs_def)
  have b: "B (tp_path p) = Some (tp_before p)" and new: "tp_path p \<notin> tp_path ` set wr" using Cons.prems by auto
  then have f: "path_of (tp_path p) \<notin> junk h" "path_of (tp_path p) \<noteq> []" "butlast (path_of (tp_path p)) \<in> ?E"
    using h(3) set unfolding tx_files_def tx_setting_def log_dirs_def by blast+
  have safe: "tx_interrupted h E L e B k s" if "sees h ?E v s" "tx_inv L e B k l' w v" for s v l' w
    using that by (intro tx_interruptedI [of h E L "{e}"] holdsI [OF that(1)]) (simp_all add: tx_inv_def)
  have stat: "triple h (holds h ?E (tx_inv L e B k l wr)) (attempt (stat (path_of (tp_path p))))
      (\<lambda>_. holds h ?E (tx_inv L e B k l wr)) (\<lambda>_. False) (tx_interrupted h E L e B k)"
    by (rule triple_attempt, rule triple_weaken [OF keeps_unmoved [where Q = "tx_inv L e B k l wr", OF vt_stat]])
      (auto simp: holds_def intro: safe)
  have recd: "triple h (holds h ?E (tx_inv L e B k l wr)) (Record l (tp_path p) (tp_before p) (tp_perm p))
      (\<lambda>(l', _). holds h ?E (\<lambda>v. tx_inv L e B k l' wr v \<and> secured (L @ [e]) v (tp_path p) (tp_before p)))
      (\<lambda>_. False) (tx_interrupted h E L e B k)"
    by (rule triple_holds, rule triple_weaken [OF Record_sure [OF set _ b]]) (auto intro: tx_interruptedI)
  have wrt: "triple h (holds h ?E (\<lambda>v. tx_inv L e B k l' wr v \<and> secured (L @ [e]) v (tp_path p) (tp_before p)))
      (attempt (safeWrite (path_of (tp_path p)) (Text (tp_after p)) (tp_perm p)))
      (\<lambda>r s. r \<noteq> None \<and> holds h ?E (tx_inv L e B k l' (wr @ [p])) s) (\<lambda>_. False) (tx_interrupted h E L e B k)" for l'
  proof (rule triple_holds)
    fix v assume "tx_inv L e B k l' wr v \<and> secured (L @ [e]) v (tp_path p) (tp_before p)"
    then have v: "tx_inv L e B k l' wr v" "secured (L @ [e]) v (tp_path p) (tp_before p)" by blast+
    let ?v = "v(path_of (tp_path p) \<mapsto> Text (tp_after p))"
    have v': "tx_inv L e B k l' (wr @ [p]) ?v" by (rule tx_inv_write [OF h(3) v b new])
    show "triple h (sees h ?E v) (attempt (safeWrite (path_of (tp_path p)) (Text (tp_after p)) (tp_perm p)))
        (\<lambda>r s. r \<noteq> None \<and> holds h ?E (tx_inv L e B k l' (wr @ [p])) s) (\<lambda>_. False) (tx_interrupted h E L e B k)"
      by (rule triple_attempt, rule triple_weaken [OF vt_safeWrite_sure [OF h(1) f(1) h(2) f(2,3) h(4)]])
        (auto intro: holdsI v' safe [OF _ v(1)] safe [OF _ v'] simp: either_def)
  qed
  have ih: "triple h (holds h ?E (tx_inv L e B k l' (wr @ [p]))) (write_ops env l' (wr @ [p]) ps)
      (all_written h E L e B k (wr @ p # ps)) (\<lambda>_. False) (tx_interrupted h E L e B k)" for l'
    using Cons.IH [of "wr @ [p]" l'] Cons.prems by simp
  have quit: "triple h (holds h ?E (tx_inv L e B k l wr)) (give_up env l wr (tp_path p))
      (all_written h E L e B k (wr @ p # ps)) (\<lambda>_. False) (tx_interrupted h E L e B k)"
  proof (rule triple_holds)
    fix v assume v: "tx_inv L e B k l wr v"
    then have dir: "log_dir l = Some (L @ [e])" and w: "\<forall>q \<in> set wr. B (tp_path q) = Some (tp_before q)"
      by (simp_all add: tx_inv_def)
    show "triple h (sees h ?E v) (give_up env l wr (tp_path p)) (all_written h E L e B k (wr @ p # ps)) (\<lambda>_. False)
        (tx_interrupted h E L e B k)"
      by (rule triple_weaken [OF give_up_sure [where Q = "\<lambda>w. w = v", OF set env _ dir w]])
        (auto simp: holds_def all_written_def tx_inv_rest_old [OF v])
  qed
  show ?case
    unfolding write_ops.simps
  proof (rule triple_bind [OF stat], rule triple_if, rule quit, rule triple_bind [OF recd], goal_cases)
    case (1 info x)
    obtain l' ok where x: "x = (l', ok)" by (cases x)
    show ?case
      unfolding x prod.case
    proof (rule triple_bind [OF wrt], rule triple_pure)
      fix r :: "write_result option" assume "r \<noteq> None"
      then show "triple h (holds h ?E (tx_inv L e B k l' (wr @ [p])))
          (if r = None then give_up env l' wr (tp_path p) else write_ops env l' (wr @ [p]) ps)
          (all_written h E L e B k (wr @ p # ps)) (\<lambda>_. False) (tx_interrupted h E L e B k)"
        using ih by (subst if_not_P)
    qed
  qed
qed


section \<open>The start of the log\<close>

text \<open>Before the transaction the files are old and there is no log.\<close>

definition fresh_logs :: "path \<Rightarrow> (path \<Rightarrow> tx_content option) \<Rightarrow> bool" where
  "fresh_logs L v = (\<forall>e M. v (manifest_path (L @ [e])) \<noteq> Some (Manifest M))"

lemma fresh_covered: "all_old B v \<Longrightarrow> fresh_logs L v \<Longrightarrow> covered L D B k v"
  by (simp add: covered_def recoverable_def all_old_def fresh_logs_def old_logs_def)

definition new_log :: "path \<Rightarrow> string \<Rightarrow> path \<Rightarrow> int \<Rightarrow> string \<Rightarrow> tx_log" where
  "new_log L e ws t callID =
     \<lparr>log_dir = Some (L @ [e]),
      log_manifest = \<lparr>tx_id = e, tx_started = Some t, tx_workspace = ws, tx_call = callID, tx_ops = []\<rparr>,
      log_n = 0\<rparr>"

lemma manifest_first:
  fixes e callID :: string and ws :: path and t :: int
  assumes files: "tx_files h L B" and v: "all_old B v" "fresh_logs L v" and t: "t < k"
  defines "v' \<equiv> v(manifest_path (L @ [e]) \<mapsto> Manifest (log_manifest (new_log L e ws t callID)))"
  shows "tx_inv L e B k (new_log L e ws t callID) [] v'"
proof -
  have same: "v' (path_of p) = v (path_of p)" if "B p = Some b" for p b
    using file_not_log [OF files that] by (simp add: v'_def)
  have "covered L {e} B k v'"
    unfolding v'_def
    by (rule covered_manifest [OF files fresh_covered [OF v]])
      (use v(1) t in \<open>simp_all add: snapshots_right_def new_log_def all_old_def\<close>)
  then show ?thesis using v(1) same t by (auto simp: tx_inv_def new_log_def v'_def all_old_def)
qed

text \<open>The calls before the first write of the log, and the clock.\<close>

definition sees_at :: "'c host \<Rightarrow> path set \<Rightarrow> (path \<Rightarrow> 'c option) \<Rightarrow> int \<Rightarrow> 'c os \<Rightarrow> bool" where
  "sees_at h E v t s = (sees h E v s \<and> time s = t)"

lemma time_bump: "time (bump s) = time s + 1"
  by (simp add: bump_def)

lemma vt_mkdir_new:
  assumes "no_faults h"
  shows "triple h (sees_at h E v t) (mkdir_all d) (\<lambda>_. sees_at h (insert d E) v (t + 1)) (\<lambda>_. False) (sees h E v)"
  unfolding triple_def
proof (intro allI impI)
  fix s assume s: "sees_at h E v t s"
  show "case mkdir_all d h s of (Done a, s') \<Rightarrow> sees_at h (insert d E) v (t + 1) s' | (Fail e, s') \<Rightarrow> False
    | (Crashed, s') \<Rightarrow> sees h E v s'"
  proof (cases "crashes h (calls s)")
    case True
    then show ?thesis using s by (simp add: mkdir_all_def syscall_def sees_at_def)
  next
    case False
    then have m: "mkdir_all d h s = (Done (), (bump s)\<lparr>now_dirs := (\<lambda>q. now_dirs s q \<or> take (length q) d = q)\<rparr>)"
      using assms by (simp add: mkdir_all_def syscall_def no_faults_def)
    have "sees h E v ((bump s)\<lparr>now_dirs := (\<lambda>q. now_dirs s q \<or> take (length q) d = q)\<rparr>)"
      using tripleD [OF vt_mkdir_all _ m] s by (simp add: sees_at_def)
    then show ?thesis using s by (simp add: m sees_def sees_at_def time_bump)
  qed
qed

lemma vt_now: "triple h (sees_at h E v t) now (\<lambda>t' s. t' = t \<and> sees_at h E v t s) F C"
  by (simp add: triple_def now_def sees_at_def)

lemma vt_stat_dir_sure:
  assumes "no_faults h" "d \<in> E"
  shows "triple h (sees_at h E v t) (stat_dir d) (\<lambda>_. sees_at h E v (t + 1)) (\<lambda>_. False) (sees h E v)"
  using assms
  by (auto simp: triple_def stat_dir_def syscall_def no_faults_def sees_at_def time_bump)
    (auto simp: sees_def)

text \<open>The name and the time of the log of a transaction that starts at \<open>t\<close>.\<close>

abbreviation first_log :: "path \<Rightarrow> path \<Rightarrow> int \<Rightarrow> nat \<Rightarrow> string \<Rightarrow> tx_log" where
  "first_log L ws t count callID \<equiv> new_log L (newID (t + 1) count) ws (t + 2) callID"

lemma Begin_sure:
  fixes t :: int and count :: nat
  assumes set: "tx_setting h E L B" and ws: "L = ws @ [''.plumb'', ''tx-log'']" "ws @ [''.plumb''] \<in> E"
    and v: "all_old B v" "fresh_logs L v" and k: "t + 2 < k"
  defines "e \<equiv> newID (t + 1) count"
  shows "triple h (sees_at h E v t) (Begin (Some ws) callID count)
    (\<lambda>l s. l = first_log L ws t count callID \<and> holds h (log_dirs E L {e}) (tx_inv L e B k l []) s)
    (\<lambda>_. False) (tx_interrupted h E L e B k)"
proof -
  have h: "no_faults h" "log_names h" "tx_files h L B" using set by (simp_all add: tx_setting_def)
  let ?l = "first_log L ws t count callID" and ?E = "insert (L @ [e]) E"
  let ?v = "v(manifest_path (L @ [e]) \<mapsto> Manifest (log_manifest ?l))"
  let ?Q = "\<lambda>l s. l = ?l \<and> holds h (log_dirs E L {e}) (tx_inv L e B k l []) s"
  have E: "?E = log_dirs E L {e}" by (simp add: log_dirs_def)
  have inv: "tx_inv L e B k ?l [] ?v" unfolding e_def by (rule manifest_first [OF h(3) v k])
  have none: "sees h E v s \<Longrightarrow> tx_interrupted h E L e B k s" for s
    by (rule tx_interruptedI [of h E L "{}"]) (simp_all add: log_dirs_def holds_def exI [of _ v] fresh_covered [OF v])
  have crash: "tx_interrupted h E L e B k s" if "either h ?E v (manifest_path (L @ [e])) (Manifest (log_manifest ?l)) s" for s
    using that unfolding either_def
  proof
    assume "sees h ?E v s"
    then show ?thesis by (auto intro: none sees_subset)
  next
    assume "sees h ?E ?v s"
    then show ?thesis
      unfolding E by (intro tx_interruptedI [of h E L "{e}"] holdsI [where v = ?v]) (use inv in \<open>simp_all add: tx_inv_def\<close>)
  qed
  have man: "triple h (sees h ?E v) (bind_io (writeManifest (L @ [e]) ?l) (\<lambda>_. return_io ?l))
      ?Q (\<lambda>_. False) (tx_interrupted h E L e B k)"
  proof (rule triple_bind)
    show "triple h (sees h ?E v) (writeManifest (L @ [e]) ?l) (\<lambda>_. sees h ?E ?v) (\<lambda>_. False) (tx_interrupted h E L e B k)"
      unfolding writeManifest_def atomicWriteManifest_def
      by (rule triple_weaken [OF vt_AtomicWrite_sure [OF h(1) log_not_junk(1) [OF h(2)]]]) (auto intro: crash)
    show "triple h (sees h ?E ?v) (return_io ?l) ?Q (\<lambda>_. False) (tx_interrupted h E L e B k)"
      by (rule triple_return) (use inv in \<open>auto simp: E intro: holdsI\<close>)
  qed
  have start: "triple h (sees_at h ?E v (t + 2))
      (cleanup (remove_all (L @ [e])) (bind_io (writeManifest (L @ [e]) ?l) (\<lambda>_. return_io ?l)))
      ?Q (\<lambda>_. False) (tx_interrupted h E L e B k)"
    by (rule triple_cleanup [where ?F1.0 = "\<lambda>_. False"], rule triple_weaken [OF man])
      (simp_all add: sees_at_def triple_def)
  have mk: "triple h (sees_at h E v (t + 1)) (mkdir_all (L @ [e])) (\<lambda>_. sees_at h ?E v (t + 2)) (\<lambda>_. False)
      (tx_interrupted h E L e B k)"
    by (rule triple_weaken [OF vt_mkdir_new [OF h(1)]]) (auto intro: none simp: add.assoc)
  have stat: "triple h (sees_at h E v t) (attempt (stat_dir (ws @ [''.plumb''])))
      (\<lambda>r s. r \<noteq> None \<and> sees_at h E v (t + 1) s) (\<lambda>_. False) (tx_interrupted h E L e B k)"
    by (rule triple_attempt_sure, rule triple_weaken [OF vt_stat_dir_sure [OF h(1) ws(2)]]) (auto intro: none)
  have dir: "ws @ [''.plumb'', ''tx-log'', e] = L @ [e]" by (simp add: ws(1))
  show ?thesis
    unfolding Begin_def option.case
  proof (rule triple_bind [OF stat], rule triple_pure, subst if_not_P, assumption,
      rule triple_bind [OF vt_now], rule triple_pure)
    fix r :: "unit option" and t' assume t': "t' = t + 1"
    show "triple h (sees_at h E v (t + 1))
        (let txID = newID t' count; d = ws @ [''.plumb'', ''tx-log'', txID] in
         bind_io (mkdir_all d) (\<lambda>_.
         bind_io now (\<lambda>started.
         let l = \<lparr>log_dir = Some d,
                  log_manifest = \<lparr>tx_id = txID, tx_started = Some started, tx_workspace = ws, tx_call = callID, tx_ops = []\<rparr>,
                  log_n = 0\<rparr>
         in cleanup (remove_all d) (bind_io (writeManifest d l) (\<lambda>_. return_io l)))))
        ?Q (\<lambda>_. False) (tx_interrupted h E L e B k)"
      unfolding t' Let_def e_def [symmetric] dir
      by (rule triple_bind [OF mk], rule triple_bind [OF vt_now], rule triple_pure)
        (use start in \<open>simp add: new_log_def flip: e_def\<close>)
  qed
qed

section \<open>The whole transaction\<close>

text \<open>The old and the new content of the files.\<close>

definition olds :: "tx_prepared list \<Rightarrow> string \<rightharpoonup> string" where
  "olds ps = map_of (map (\<lambda>p. (tp_path p, tp_before p)) ps)"

definition holds_before :: "tx_prepared list \<Rightarrow> (path \<Rightarrow> tx_content option) \<Rightarrow> bool" where
  "holds_before ps v = (\<forall>p \<in> set ps. v (path_of (tp_path p)) = Some (Text (tp_before p)))"

definition holds_after :: "tx_prepared list \<Rightarrow> (path \<Rightarrow> tx_content option) \<Rightarrow> bool" where
  "holds_after ps v = (\<forall>p \<in> set ps. v (path_of (tp_path p)) = Some (Text (tp_after p)))"

definition tx_logs :: "path \<Rightarrow> path" where
  "tx_logs ws = ws @ [''.plumb'', ''tx-log'']"

lemma olds_mem: "distinct (map tp_path ps) \<Longrightarrow> p \<in> set ps \<Longrightarrow> olds ps (tp_path p) = Some (tp_before p)"
  unfolding olds_def by (intro map_of_is_SomeI) (auto simp: comp_def)

lemma old_before: "distinct (map tp_path ps) \<Longrightarrow> all_old (olds ps) v \<longleftrightarrow> holds_before ps v"
  unfolding all_old_def holds_before_def by (auto simp: olds_mem) (auto simp: olds_def dest!: map_of_SomeD)

text \<open>
  What a transaction starts from: a host on which no call fails, the files with the content the
  validation read, a workspace with its \<open>.plumb\<close> directory and no log of another transaction.
\<close>

definition tx_ready :: "tx_content host \<Rightarrow> replay_env \<Rightarrow> path set \<Rightarrow> path \<Rightarrow> tx_prepared list \<Rightarrow> tx_content os \<Rightarrow> bool" where
  "tx_ready h env E ws ps s =
     (tx_setting h E (tx_logs ws) (olds ps) \<and> replayable h env E (olds ps) \<and> real_log_dir env (tx_logs ws) \<and>
      ws @ [''.plumb''] \<in> E \<and> distinct (map tp_path ps) \<and> sees h E (reads s) s \<and>
      holds_before ps (reads s) \<and> fresh_logs (tx_logs ws) (reads s))"

lemma phase2_sure:
  fixes count :: nat
  assumes "tx_ready h env E ws ps s" "time s + 2 < k"
  defines "L \<equiv> tx_logs ws" and "e \<equiv> newID (time s + 1) count"
  shows "case txPhase2Write env (Some ws) callID count ps h s of
      (Done r, s') \<Rightarrow> all_written h E L e (olds ps) k ps r s'
    | (Fail e, s') \<Rightarrow> False
    | (Crashed, s') \<Rightarrow> tx_interrupted h E L e (olds ps) k s'"
proof -
  have set: "tx_setting h E L (olds ps)" and env: "replayable h env E (olds ps)"
    and ws: "L = ws @ [''.plumb'', ''tx-log'']" "ws @ [''.plumb''] \<in> E" and d: "distinct (map tp_path ps)"
    and s: "sees h E (reads s) s" and v: "all_old (olds ps) (reads s)" "fresh_logs L (reads s)"
    using assms by (simp_all add: tx_ready_def tx_logs_def old_before)
  let ?l = "first_log L ws (time s) count callID"
  have b: "triple h (sees_at h E (reads s) (time s)) (attempt (Begin (Some ws) callID count))
      (\<lambda>r s. r = Some ?l \<and> holds h (log_dirs E L {e}) (tx_inv L e (olds ps) k ?l []) s)
      (\<lambda>_. False) (tx_interrupted h E L e (olds ps) k)"
    unfolding e_def
    by (rule triple_attempt, rule triple_weaken [OF Begin_sure [OF set ws v assms(2), where callID = callID and count = count]]) auto
  have w: "triple h (holds h (log_dirs E L {e}) (tx_inv L e (olds ps) k ?l []))
      (write_ops env ?l [] ps) (all_written h E L e (olds ps) k ([] @ ps)) (\<lambda>_. False) (tx_interrupted h E L e (olds ps) k)"
    by (rule write_ops_sure [OF set env]) (auto simp: olds_mem [OF d] d)
  have "triple h (sees_at h E (reads s) (time s)) (txPhase2Write env (Some ws) callID count ps)
      (all_written h E L e (olds ps) k ps) (\<lambda>_. False) (tx_interrupted h E L e (olds ps) k)"
    unfolding txPhase2Write_def
    by (rule triple_bind [OF b], rule triple_pure) (use w in simp)
  then show ?thesis using s by (simp add: triple_def sees_at_def)
qed

end
