(* ===== verification/Plumb_Transaction_Faults.thy ===== *)
theory Plumb_Transaction_Faults
  imports Plumb_Transaction_Correct Plumb_Faults
begin

text \<open>
  A transaction on a host where calls fail. Whatever fails, each file is whole, with its old or
  its new content, and the lists an error carries are true of the files; what is not taken back
  was left by a call that failed in the rollback.
\<close>

section \<open>The faults of the rollbacks\<close>

lemma local_rollback_written: "local_faults (rollback_written ps)"
  by (induction ps) (simp_all add: local_rules local_safeWrite)

lemma local_rollback_ops: "local_faults (rollback_ops env d ops)"
  by (induction ops) (auto simp: restoreOp_def intro!: local_rules local_AtomicWrite split: option.split)

lemma local_give_up: "local_faults (give_up env l wr p)"
  unfolding give_up_def Rollback_def
  by (auto intro!: local_rules local_rollback_written local_rollback_ops local_remove_all split: option.split)

lemma local_rollbackVerified: "local_faults (rollbackVerified sha ps)"
  by (induction ps) (auto intro!: local_rules local_safeWrite split: prod.split)


section \<open>The files and the log in memory\<close>

text \<open>
  Where a transaction runs: its files are told apart by their paths, have their directories and
  lie outside that of the logs. Nothing is asked of the calls, the sizes or the log.
\<close>

definition tx_place :: "tx_content host \<Rightarrow> replay_env \<Rightarrow> path set \<Rightarrow> path \<Rightarrow> tx_prepared list \<Rightarrow> bool" where
  "tx_place h env E ws ps =
     (good_names h \<and> log_names h \<and> tx_files h (tx_logs ws) (olds ps) \<and> tmp_dir h \<in> E \<and>
      replayable h env E (olds ps) \<and> distinct (map tp_path ps) \<and>
      (\<forall>q \<in> E. take (length (tx_logs ws)) q = tx_logs ws \<longrightarrow> q = tx_logs ws))"

text \<open>The files of \<open>W\<close> are new, the others old.\<close>

definition new_files :: "tx_prepared list \<Rightarrow> tx_prepared set \<Rightarrow> (path \<Rightarrow> tx_content option) \<Rightarrow> bool" where
  "new_files ps W v =
     (\<forall>p \<in> set ps. v (path_of (tp_path p)) = Some (Text (if p \<in> W then tp_after p else tp_before p)))"

text \<open>Every snapshot the log in memory counts on is there and is the old content of its file.\<close>

definition log_right :: "path \<Rightarrow> tx_prepared list \<Rightarrow> tx_log \<Rightarrow> (path \<Rightarrow> tx_content option) \<Rightarrow> bool" where
  "log_right L ps l v =
     (\<forall>d. log_dir l = Some d \<longrightarrow> (\<exists>e. d = L @ [e]) \<and>
        (\<forall>op \<in> set (tx_ops (log_manifest l)). op_n op < int (log_n l) \<and>
           (\<exists>p \<in> set ps. op_path op = tp_path p \<and>
              (op_snapshotted op \<longrightarrow> v (snapshotPath d (op_n op)) = Some (Text (tp_before p))))))"

text \<open>Each file is whole; those that may be new are in \<open>W\<close>.\<close>

definition whole :: "tx_content host \<Rightarrow> path set \<Rightarrow> tx_prepared list \<Rightarrow> tx_prepared set \<Rightarrow> tx_content os \<Rightarrow> bool" where
  "whole h E ps W = holds h E (\<lambda>v. \<exists>W' \<subseteq> W. new_files ps W' v)"

definition writing :: "tx_content host \<Rightarrow> path set \<Rightarrow> path \<Rightarrow> tx_prepared list \<Rightarrow> tx_prepared set \<Rightarrow> tx_log \<Rightarrow> tx_content os \<Rightarrow> bool" where
  "writing h E L ps W l = holds h E (\<lambda>v. new_files ps W v \<and> log_right L ps l v)"

lemma wholeI: "sees h E v s \<Longrightarrow> new_files ps W' v \<Longrightarrow> W' \<subseteq> W \<Longrightarrow> whole h E ps W s"
  by (auto simp: whole_def holds_def)

lemma writingI: "sees h E v s \<Longrightarrow> new_files ps W v \<Longrightarrow> log_right L ps l v \<Longrightarrow> writing h E L ps W l s"
  by (auto simp: writing_def holds_def)

lemma writing_whole: "writing h E L ps W l s \<Longrightarrow> W \<subseteq> W' \<Longrightarrow> whole h E ps W' s"
  by (auto simp: writing_def whole_def holds_def)

lemma whole_mono: "whole h E ps W s \<Longrightarrow> W \<subseteq> W' \<Longrightarrow> whole h E ps W' s"
  by (auto simp: whole_def holds_def)

lemma place_file:
  assumes "tx_place h env E ws ps" "p \<in> set ps"
  shows "path_of (tp_path p) \<notin> junk h" "path_of (tp_path p) \<noteq> []" "butlast (path_of (tp_path p)) \<in> E"
    and "path_of (tp_path p) \<noteq> tx_logs ws @ [e, n]" "path_of (tp_path p) \<noteq> snapshotPath (tx_logs ws @ [e]) i"
    and "path_of (tp_path p) \<noteq> manifest_path (tx_logs ws @ [e])"
    and "q \<in> set ps \<Longrightarrow> path_of (tp_path q) = path_of (tp_path p) \<Longrightarrow> q = p"
proof -
  have b: "olds ps (tp_path p) = Some (tp_before p)" if "p \<in> set ps" for p
    using assms(1) that by (simp add: tx_place_def olds_mem)
  have f: "tx_files h (tx_logs ws) (olds ps)" "replayable h env E (olds ps)" using assms(1) by (simp_all add: tx_place_def)
  show "path_of (tp_path p) \<notin> junk h" "path_of (tp_path p) \<noteq> []" using f(1) b [OF assms(2)] unfolding tx_files_def by blast+
  show "butlast (path_of (tp_path p)) \<in> E" using f(2) b [OF assms(2)] unfolding replayable_def by blast
  show "path_of (tp_path p) \<noteq> tx_logs ws @ [e, n]" "path_of (tp_path p) \<noteq> snapshotPath (tx_logs ws @ [e]) i"
    "path_of (tp_path p) \<noteq> manifest_path (tx_logs ws @ [e])"
    using file_not_log [OF f(1) b [OF assms(2)]] by blast+
  assume q: "q \<in> set ps" "path_of (tp_path q) = path_of (tp_path p)"
  then have "tp_path q = tp_path p" using f(1) b [OF assms(2)] b [OF q(1)] unfolding tx_files_def by blast
  moreover have "inj_on tp_path (set ps)" using assms(1) by (simp add: tx_place_def distinct_map)
  ultimately show "q = p" using q(1) assms(2) by (blast dest: inj_onD)
qed

lemma new_files_write:
  assumes "tx_place h env E ws ps" "p \<in> set ps" "new_files ps W v"
  shows "new_files ps (insert p W) (v(path_of (tp_path p) \<mapsto> Text (tp_after p)))"
    and "new_files ps (W - {p}) (v(path_of (tp_path p) \<mapsto> Text (tp_before p)))"
  using assms(3) place_file(7) [OF assms(1,2)] by (auto simp: new_files_def)

lemma new_files_log:
  assumes "tx_place h env E ws ps" "new_files ps W v"
  shows "new_files ps W (v(tx_logs ws @ [e, n] := x))" "new_files ps W (v(snapshotPath (tx_logs ws @ [e]) i := x))"
    "new_files ps W (v(manifest_path (tx_logs ws @ [e]) := x))"
  using assms(2) place_file(4-6) [OF assms(1)] by (simp_all add: new_files_def)

lemma log_right_file:
  assumes "tx_place h env E ws ps" "p \<in> set ps" "log_right (tx_logs ws) ps l v"
  shows "log_right (tx_logs ws) ps l (v(path_of (tp_path p) := x))"
  using assms(3) place_file(5) [OF assms(1,2)] unfolding log_right_def by (metis fun_upd_other)

section \<open>The steps of the writes\<close>

lemma write_step:
  assumes pl: "tx_place h env E ws ps" and p: "p \<in> set ps"
  shows "triple h (writing h E (tx_logs ws) ps W l) (attempt (safeWrite (path_of (tp_path p)) (Text (tp_after p)) perm))
      (\<lambda>r. writing h E (tx_logs ws) ps (if r = None then W else insert p W) l) F (whole h E ps UNIV)"
    and "triple h (writing h E (tx_logs ws) ps W l) (attempt (safeWrite (path_of (tp_path p)) (Text (tp_before p)) perm))
      (\<lambda>r. writing h E (tx_logs ws) ps (if r = None then W else W - {p}) l) F (whole h E ps UNIV)"
proof -
  have g: "good_names h" using pl by (simp add: tx_place_def)
  have any: "triple h (writing h E (tx_logs ws) ps W l) (attempt (safeWrite (path_of (tp_path p)) (Text c) perm))
      (\<lambda>r. writing h E (tx_logs ws) ps (if r = None then W else W') l) F (whole h E ps UNIV)"
    if new: "\<And>v. new_files ps W v \<Longrightarrow> new_files ps W' (v(path_of (tp_path p) \<mapsto> Text c))" for c W'
    unfolding writing_def [of h E "tx_logs ws" ps W l]
  proof (rule triple_holds, elim conjE)
    fix v assume v: "new_files ps W v" "log_right (tx_logs ws) ps l v"
    have v': "log_right (tx_logs ws) ps l (v(path_of (tp_path p) \<mapsto> Text c))" by (rule log_right_file [OF pl p v(2)])
    show "triple h (sees h E v) (attempt (safeWrite (path_of (tp_path p)) (Text c) perm))
        (\<lambda>r. writing h E (tx_logs ws) ps (if r = None then W else W') l) F (whole h E ps UNIV)"
      by (rule triple_attempt, rule triple_weaken [OF vt_safeWrite [OF place_file(1) [OF pl p] g]])
        (auto simp: either_def intro: writingI wholeI new [OF v(1)] v v')
  qed
  show "triple h (writing h E (tx_logs ws) ps W l) (attempt (safeWrite (path_of (tp_path p)) (Text (tp_after p)) perm))
      (\<lambda>r. writing h E (tx_logs ws) ps (if r = None then W else insert p W) l) F (whole h E ps UNIV)"
    by (rule any) (rule new_files_write(1) [OF pl p])
  show "triple h (writing h E (tx_logs ws) ps W l) (attempt (safeWrite (path_of (tp_path p)) (Text (tp_before p)) perm))
      (\<lambda>r. writing h E (tx_logs ws) ps (if r = None then W else W - {p}) l) F (whole h E ps UNIV)"
    by (rule any) (rule new_files_write(2) [OF pl p])
qed

text \<open>A snapshot that is not written is one the log in memory does not count on.\<close>

lemma record_step:
  assumes pl: "tx_place h env E ws ps" and p: "p \<in> set ps"
  shows "triple h (writing h E (tx_logs ws) ps W l) (Record l (tp_path p) (tp_before p) perm)
    (\<lambda>(l', ok). writing h E (tx_logs ws) ps W l') F (whole h E ps UNIV)"
proof (cases "log_dir l")
  case None
  then show ?thesis by (simp add: Record_def) (rule triple_return, simp)
next
  case (Some d)
  show ?thesis
    unfolding writing_def [of h E "tx_logs ws" ps W l]
  proof (rule triple_holds, elim conjE)
    fix v assume v: "new_files ps W v" "log_right (tx_logs ws) ps l v"
    have ln: "log_names h" using pl by (simp add: tx_place_def)
    obtain e where d: "d = tx_logs ws @ [e]" using v(2) Some by (auto simp: log_right_def)
    let ?n = "int (log_n l)" and ?small = "length (tp_before p) \<le> maxSnapSize"
    let ?l1 = "l\<lparr>log_n := Suc (log_n l)\<rparr>"
    let ?op = "\<lparr>op_n = ?n, op_path = tp_path p, op_perm = perm, op_snapshotted = ?small\<rparr>"
    let ?l2 = "?l1\<lparr>log_manifest := (log_manifest l)\<lparr>tx_ops := tx_ops (log_manifest l) @ [?op]\<rparr>\<rparr>"
    have old: "log_right (tx_logs ws) ps ?l1 (v(snapshotPath d ?n := x))" for x
      using v(2) Some by (fastforce simp: log_right_def)
    have both: "log_right (tx_logs ws) ps ?l2 w \<and> log_right (tx_logs ws) ps ?l2 (w(manifest_path d \<mapsto> m))"
      if "log_right (tx_logs ws) ps ?l1 w" "?small \<Longrightarrow> w (snapshotPath d ?n) = Some (Text (tp_before p))" for w m
      using that p Some by (fastforce simp: log_right_def)
    have finish: "triple h (\<lambda>s. sees h E w s) (bind_io (attempt (writeManifest d ?l2)) (\<lambda>r. return_io (?l2, r \<noteq> None)))
        (\<lambda>(l', ok). writing h E (tx_logs ws) ps W l') F (whole h E ps UNIV)"
      if w: "new_files ps W w" "log_right (tx_logs ws) ps ?l1 w" "?small \<Longrightarrow> w (snapshotPath d ?n) = Some (Text (tp_before p))" for w
    proof (rule triple_bind [where Q = "\<lambda>_. writing h E (tx_logs ws) ps W ?l2"])
      have m: "new_files ps W (w(manifest_path d \<mapsto> m))" for m using new_files_log(3) [OF pl w(1)] by (simp add: d)
      show "triple h (sees h E w) (attempt (writeManifest d ?l2)) (\<lambda>_. writing h E (tx_logs ws) ps W ?l2) F (whole h E ps UNIV)"
        unfolding writeManifest_def atomicWriteManifest_def
        by (rule triple_attempt, rule triple_weaken [OF vt_AtomicWrite [OF log_not_junk(1) [OF ln]]])
          (use both [OF w(2,3)] w(1) m in \<open>auto simp: either_def intro: writingI wholeI\<close>)
    qed (rule triple_return, simp)
    have snap: "triple h (sees h E v) (attempt (write_file (snapshotPath d ?n) (Text (tp_before p)) 384))
        (\<lambda>r s. if r = None then writing h E (tx_logs ws) ps W ?l1 s else sees h E (v(snapshotPath d ?n \<mapsto> Text (tp_before p))) s)
        F (whole h E ps UNIV)"
      by (rule triple_attempt, rule triple_weaken [OF vt_write_file [OF log_not_junk(2) [OF ln]]])
        (use new_files_log(2) [OF pl v(1)] old in \<open>auto simp: torn_def d intro: writingI wholeI\<close>)
    show "triple h (sees h E v) (Record l (tp_path p) (tp_before p) perm)
        (\<lambda>(l', ok). writing h E (tx_logs ws) ps W l') F (whole h E ps UNIV)"
    proof (cases ?small)
      case True
      have "triple h (sees h E v)
          (bind_io (attempt (write_file (snapshotPath d ?n) (Text (tp_before p)) 384)) (\<lambda>r.
            if r = None then return_io (?l1, False)
            else bind_io (attempt (writeManifest d ?l2)) (\<lambda>r. return_io (?l2, r \<noteq> None))))
          (\<lambda>(l', ok). writing h E (tx_logs ws) ps W l') F (whole h E ps UNIV)"
      proof (rule triple_bind [OF snap], rule triple_if, goal_cases)
        case (2 r)
        then show ?case
          using finish [OF _ old, of "Some (Text (tp_before p))"] new_files_log(2) [OF pl v(1)] by (simp add: d)
      qed (rule triple_return, simp)
      then show ?thesis using True Some by (simp add: Record_def Let_def cong: if_cong)
    next
      case False
      have "log_right (tx_logs ws) ps ?l1 v" using old [of "v (snapshotPath d ?n)"] by simp
      then show ?thesis using finish [OF v(1)] False Some by (simp add: Record_def Let_def)
    qed
  qed
qed


section \<open>Giving up\<close>

lemma rollback_written_step:
  assumes pl: "tx_place h env E ws ps" and wr: "set wr \<subseteq> set ps"
  shows "triple h (writing h E (tx_logs ws) ps W l) (rollback_written wr)
    (\<lambda>rs s. set rs \<subseteq> tp_path ` set wr \<and> writing h E (tx_logs ws) ps (W - {p \<in> set wr. tp_path p \<in> set rs}) l s)
    F (whole h E ps UNIV)"
  using wr
proof (induction wr arbitrary: W)
  case Nil
  then show ?case by (auto intro: triple_return)
next
  case (Cons p wr)
  have p: "p \<in> set ps" "set wr \<subseteq> set ps" using Cons.prems by auto
  have inj: "tp_path q = tp_path p \<Longrightarrow> q \<in> set wr \<Longrightarrow> q = p" for q
    using pl p by (auto simp: tx_place_def distinct_map dest: inj_onD)
  let ?R = "\<lambda>W rs s. set rs \<subseteq> tp_path ` set wr \<and> writing h E (tx_logs ws) ps (W - {q \<in> set wr. tp_path q \<in> set rs}) l s"
  let ?Q = "\<lambda>rs s. set rs \<subseteq> tp_path ` set (p # wr) \<and>
    writing h E (tx_logs ws) ps (W - {q \<in> set (p # wr). tp_path q \<in> set rs}) l s"
  have ih: "triple h (writing h E (tx_logs ws) ps W l) (rollback_written wr) (?R W) F (whole h E ps UNIV)" for W
    by (rule Cons.IH [OF p(2)])
  show ?case
    unfolding rollback_written.simps
  proof (rule triple_bind [OF write_step(2) [OF pl p(1)]])
    fix r :: "write_result option"
    have drop_p: "W - {p} - {q \<in> set wr. tp_path q \<in> set rs} = W - {q \<in> set (p # wr). tp_path q \<in> set (tp_path p # rs)}" for rs
      using inj by auto
    show "triple h (writing h E (tx_logs ws) ps (if r = None then W else W - {p}) l)
        (bind_io (rollback_written wr) (\<lambda>rs. return_io (if r = None then rs else tp_path p # rs))) ?Q F (whole h E ps UNIV)"
    proof (cases r)
      case None
      have keep: "{q \<in> set wr. tp_path q \<in> set rs} = {q \<in> set (p # wr). tp_path q \<in> set rs}"
        if "set rs \<subseteq> tp_path ` set wr" for rs
        using that inj by fastforce
      show ?thesis
        unfolding None if_True
      proof (simp only: refl if_True, rule triple_bind [OF ih], rule triple_return, elim conjE)
        fix rs s assume rs: "set rs \<subseteq> tp_path ` set wr"
          and s: "writing h E (tx_logs ws) ps (W - {q \<in> set wr. tp_path q \<in> set rs}) l s"
        show "?Q rs s" using rs s unfolding keep [OF rs] by auto
      qed
    next
      case (Some x)
      show ?thesis
        by (simp add: Some) (rule triple_bind [OF ih], rule triple_return, use drop_p in auto)
    qed
  qed
qed


lemma rollback_ops_step:
  assumes pl: "tx_place h env E ws ps"
    and ops: "\<forall>op \<in> set ops. \<exists>p \<in> set ps. op_path op = tp_path p"
    and Q: "\<And>v p. Q v \<Longrightarrow> p \<in> set ps \<Longrightarrow> Q (v(path_of (tp_path p) \<mapsto> Text (tp_before p)))"
    and right: "\<And>v op p. Q v \<Longrightarrow> op \<in> set ops \<Longrightarrow> op_snapshotted op \<Longrightarrow> p \<in> set ps \<Longrightarrow> op_path op = tp_path p \<Longrightarrow>
      v (snapshotPath d (op_n op)) = Some (Text (tp_before p))"
  shows "keeps h E Q (rollback_ops env d ops)"
  using ops right
proof (induction ops)
  case Nil
  then show ?case by (simp add: keeps_return)
next
  case (Cons op ops)
  obtain p where p: "p \<in> set ps" "op_path op = tp_path p" using Cons.prems(1) by auto
  have "olds ps (tp_path p) = Some (tp_before p)" using pl p(1) by (simp add: tx_place_def olds_mem)
  then have "replay_to env [] op = Some (tp_path p)" using pl p(2) unfolding tx_place_def replayable_def by blast
  then have t: "replayTarget env (op_path op) = Some (tp_path p)"
    by (auto simp: replay_to_def split: if_splits option.splits)
  have "keeps h E Q (restoreOp d op (op_perm op) (tp_path p))"
  proof (rule keeps_restoreOp)
    show "log_names h" using pl by (simp add: tx_place_def)
    fix v c assume v: "Q v" "op_snapshotted op" "v (snapshotPath d (op_n op)) = Some c"
    have "v (snapshotPath d (op_n op)) = Some (Text (tp_before p))" by (rule Cons.prems(2) [OF v(1) _ v(2) p]) simp
    then show "path_of (tp_path p) \<notin> junk h \<and> Q (v(path_of (tp_path p) \<mapsto> c))"
      using place_file(1) [OF pl p(1)] Q [OF v(1) p(1)] v(3) by simp
  qed
  moreover have "keeps h E Q (rollback_ops env d ops)"
    by (rule Cons.IH) (use Cons.prems in \<open>auto\<close>)
  ultimately show ?case by (simp add: t keeps_bind)
qed

lemma log_removed:
  assumes pl: "tx_place h env E ws ps" and Q: "\<And>v n. Q v \<Longrightarrow> Q (v(tx_logs ws @ [e, n] := None))"
  shows "keeps h E Q (remove_all (tx_logs ws @ [e]))"
proof (rule keeps_remove_all)
  show "Q (v((tx_logs ws @ [e]) @ [n] := None))" if "Q v" for v n using Q [OF that] by simp
  fix q assume "q \<in> E"
  show "take (length (tx_logs ws @ [e])) q \<noteq> tx_logs ws @ [e]"
  proof
    assume t: "take (length (tx_logs ws @ [e])) q = tx_logs ws @ [e]"
    then have "take (length (tx_logs ws)) q = tx_logs ws" by (rule take_prefixD)
    then have "q = tx_logs ws" using pl \<open>q \<in> E\<close> by (simp add: tx_place_def)
    then show False using t by simp
  qed
qed simp

lemma rollback_ops_never_fails: "never_fails (rollback_ops env d ops)"
  by (induction ops) (auto simp: restoreOp_def intro!: never_fails_rules never_fails_bind split: option.split)

text \<open>The replay of the log, whatever of it fails, makes no file new.\<close>

lemma log_replayed:
  assumes pl: "tx_place h env E ws ps"
  shows "triple h (writing h E (tx_logs ws) ps W l) (Rollback env l) (\<lambda>_. whole h E ps W) (\<lambda>_. False) (whole h E ps UNIV)"
proof (cases "log_dir l")
  case None
  then show ?thesis by (simp add: Rollback_def) (rule triple_return, erule writing_whole, rule subset_refl)
next
  case (Some d)
  show ?thesis
    unfolding writing_def
  proof (rule triple_holds, elim conjE)
    fix v assume v: "new_files ps W v" "log_right (tx_logs ws) ps l v"
    obtain e where d: "d = tx_logs ws @ [e]" using v(2) Some by (auto simp: log_right_def)
    let ?W = "\<lambda>v. \<exists>W' \<subseteq> W. new_files ps W' v" and ?Q = "\<lambda>v. (\<exists>W' \<subseteq> W. new_files ps W' v) \<and> log_right (tx_logs ws) ps l v"
    have weak: "holds h E ?W s \<Longrightarrow> whole h E ps W' s" if "W \<subseteq> W'" for s W'
      using that by (auto simp: whole_def holds_def)
    have restores: "?Q (w(path_of (tp_path p) \<mapsto> Text (tp_before p)))"
      if w: "W' \<subseteq> W" "new_files ps W' w" "log_right (tx_logs ws) ps l w" and p: "p \<in> set ps" for w p W'
    proof (intro conjI exI [of _ "W' - {p}"])
      show "W' - {p} \<subseteq> W" using w(1) by auto
    qed (rule new_files_write(2) [OF pl p w(2)], rule log_right_file [OF pl p w(3)])
    have "keeps h E ?Q (rollback_ops env d (tx_ops (log_manifest l)))"
    proof (rule rollback_ops_step [OF pl])
      show "?Q (w(path_of (tp_path p) \<mapsto> Text (tp_before p)))" if w: "?Q w" and p: "p \<in> set ps" for w p
        using w by (elim conjE exE) (rule restores [OF _ _ _ p])
      show "\<forall>op \<in> set (tx_ops (log_manifest l)). \<exists>p \<in> set ps. op_path op = tp_path p"
        using v(2) Some by (auto simp: log_right_def)
      fix w op p
      assume w: "?Q w" and op: "op \<in> set (tx_ops (log_manifest l))" "op_snapshotted op" "p \<in> set ps" "op_path op = tp_path p"
      then obtain q where q: "q \<in> set ps" "op_path op = tp_path q" "w (snapshotPath d (op_n op)) = Some (Text (tp_before q))"
        using Some by (auto simp: log_right_def)
      then have "q = p" using pl op by (auto simp: tx_place_def distinct_map dest: inj_onD)
      then show "w (snapshotPath d (op_n op)) = Some (Text (tp_before p))" using q by simp
    qed
    then have ops: "triple h (sees h E v) (rollback_ops env d (tx_ops (log_manifest l))) (\<lambda>_. holds h E ?W) (holds h E ?W) (whole h E ps UNIV)"
      by (rule triple_weaken) (use v weak [OF subset_UNIV] in \<open>auto simp: holds_def\<close>)
    have gone: "keeps h E ?W (remove_all d)"
      unfolding d by (rule log_removed [OF pl]) (use new_files_log(1) [OF pl] in blast)
    show "triple h (sees h E v) (Rollback env l) (\<lambda>_. whole h E ps W) (\<lambda>_. False) (whole h E ps UNIV)"
      unfolding Rollback_def Some option.case
      by (rule triple_bind [OF triple_never_fails [OF rollback_ops_never_fails ops]],
          rule triple_best_effort, rule triple_weaken [OF gone])
        (assumption | (rule weak [OF subset_refl], assumption) | (rule weak [OF subset_UNIV], assumption))+
  qed
qed


lemma give_up_step:
  assumes pl: "tx_place h env E ws ps" and wr: "set wr \<subseteq> set ps"
  shows "triple h (writing h E (tx_logs ws) ps (set wr) l) (give_up env l wr q)
    (\<lambda>r s. \<exists>rs. r = Inl (Rolled_back q rs) \<and> set rs \<subseteq> tp_path ` set wr \<and>
       whole h E ps {p \<in> set wr. tp_path p \<notin> set rs} s) (\<lambda>_. False) (whole h E ps UNIV)"
proof -
  have gone: "set wr - {p \<in> set wr. tp_path p \<in> set rs} = {p \<in> set wr. tp_path p \<notin> set rs}" for rs by auto
  show ?thesis
    unfolding give_up_def
    by (rule triple_bind [OF rollback_written_step [OF pl wr]], rule triple_pure, rule triple_bind [OF log_replayed [OF pl]])
      (rule triple_return, simp add: gone)
qed

text \<open>Where none of its calls fails, all written files are taken back.\<close>

lemma safeWrite_sure_step:
  assumes pl: "tx_place h env E ws ps" and p: "p \<in> set ps" and h: "no_faults h"
  shows "triple h (writing h E (tx_logs ws) ps W l) (attempt (safeWrite (path_of (tp_path p)) (Text (tp_before p)) perm))
      (\<lambda>r s. r \<noteq> None \<and> writing h E (tx_logs ws) ps (W - {p}) l s) (\<lambda>_. False) (\<lambda>_. True)"
proof -
  have "triple h (writing h E (tx_logs ws) ps W l) (safeWrite (path_of (tp_path p)) (Text (tp_before p)) perm) (\<lambda>_ _. True) (\<lambda>_. False) (\<lambda>_. True)"
    unfolding writing_def
    by (rule triple_holds, rule triple_weaken [OF vt_safeWrite_sure [OF h]])
      (use place_file(1-3) [OF pl p] pl in \<open>auto simp: tx_place_def\<close>)
  then have "triple h (writing h E (tx_logs ws) ps W l) (attempt (safeWrite (path_of (tp_path p)) (Text (tp_before p)) perm))
      (\<lambda>r _. r \<noteq> None) (\<lambda>_. False) (\<lambda>_. True)"
    by (intro triple_attempt) (auto elim: triple_weaken)
  from triple_both [OF this write_step(2) [OF pl p, of W l perm "\<lambda>_. False"]] show ?thesis
    by (rule triple_weaken) auto
qed

lemma rollback_written_sure_step:
  assumes pl: "tx_place h env E ws ps" and wr: "set wr \<subseteq> set ps" and h: "no_faults h"
  shows "triple h (writing h E (tx_logs ws) ps W l) (rollback_written wr)
    (\<lambda>rs s. writing h E (tx_logs ws) ps (W - set wr) l s) (\<lambda>_. False) (\<lambda>_. True)"
  using wr
proof (induction wr arbitrary: W)
  case Nil
  then show ?case by (auto intro: triple_return)
next
  case (Cons p wr)
  have p: "p \<in> set ps" "set wr \<subseteq> set ps" using Cons.prems by auto
  have eq: "W - {p} - set wr = W - set (p # wr)" by auto
  show ?case
    unfolding rollback_written.simps
    by (rule triple_bind [OF safeWrite_sure_step [OF pl p(1) h]], rule triple_pure, rule triple_bind [OF Cons.IH [OF p(2)]])
      (rule triple_return, simp only: eq)
qed

lemma give_up_sure_step:
  assumes pl: "tx_place h env E ws ps" and wr: "set wr \<subseteq> set ps" and h: "no_faults h"
  shows "triple h (writing h E (tx_logs ws) ps (set wr) l) (give_up env l wr q) (\<lambda>_. whole h E ps {}) (\<lambda>_. False) (\<lambda>_. True)"
  unfolding give_up_def
  by (rule triple_bind [OF rollback_written_sure_step [OF pl wr h]],
      rule triple_bind [where Q = "\<lambda>_. whole h E ps {}"], rule triple_weaken [OF log_replayed [OF pl, where W = "{}"]])
    (auto intro: triple_return)

text \<open>
  So a file is left new only by a call of the rollback that failed.
\<close>

lemma give_up_faults:
  assumes pl: "tx_place h env E ws ps" and wr: "set wr \<subseteq> set ps"
    and s: "writing h E (tx_logs ws) ps (set wr) l s" and run: "give_up env l wr q h s = (Done r, s')"
    and quiet: "\<And>n. calls s \<le> n \<Longrightarrow> n < calls s' \<Longrightarrow> \<not> call_fails h n"
  shows "whole h E ps {} s'"
proof -
  have pl': "tx_place (faultless h) env E ws ps" using pl by (simp add: tx_place_def)
  have "give_up env l wr q (faultless h) s = (Done r, s')" by (rule local_run [OF local_give_up run quiet])
  from tripleD [OF give_up_sure_step [OF pl' wr] _ this] show ?thesis
    using s by (simp add: writing_def whole_def)
qed


section \<open>The writes\<close>

text \<open>
  The state of the files when the writes end: all written, or given up at a file, from a state
  in which those before it were new and all others old.
\<close>

definition writes_end ::
  "tx_content host \<Rightarrow> replay_env \<Rightarrow> path set \<Rightarrow> path \<Rightarrow> tx_prepared list \<Rightarrow> tx_error + tx_prepared list \<times> tx_log \<Rightarrow> tx_content os \<Rightarrow> bool" where
  "writes_end h env E L ps r s' =
     (case r of
        Inr (w, l) \<Rightarrow> w = ps \<and> writing h E L ps (set ps) l s'
      | Inl x \<Rightarrow> \<exists>wr p rest l s rs. ps = wr @ p # rest \<and> x = Rolled_back (tp_path p) rs \<and>
          give_up env l wr (tp_path p) h s = (Done r, s') \<and> writing h E L ps (set wr) l s \<and>
          set rs \<subseteq> tp_path ` set wr \<and> whole h E ps {q \<in> set wr. tp_path q \<notin> set rs} s')"

lemma write_ops_step:
  assumes pl: "tx_place h env E ws ps" and split: "ps = wr @ qs"
  shows "triple h (writing h E (tx_logs ws) ps (set wr) l) (write_ops env l wr qs)
    (writes_end h env E (tx_logs ws) ps) (\<lambda>_. False) (whole h E ps UNIV)"
  using split
proof (induction qs arbitrary: l wr)
  case Nil
  then show ?case by (auto intro!: triple_return simp: writes_end_def)
next
  case (Cons p qs)
  have p: "p \<in> set ps" and wr: "set wr \<subseteq> set ps" and eq: "ps = (wr @ [p]) @ qs" and ins: "insert p (set wr) = set (wr @ [p])"
    using Cons.prems by auto
  have stat: "triple h (writing h E (tx_logs ws) ps (set wr) l) (attempt (stat (path_of (tp_path p))))
      (\<lambda>_. writing h E (tx_logs ws) ps (set wr) l) (\<lambda>_. False) (whole h E ps UNIV)"
    unfolding writing_def
    by (rule triple_attempt, rule triple_weaken [OF keeps_unmoved
        [where Q = "\<lambda>v. new_files ps (set wr) v \<and> log_right (tx_logs ws) ps l v", OF vt_stat]])
      (auto simp: whole_def holds_def)
  have quit: "triple h (writing h E (tx_logs ws) ps (set wr) l') (give_up env l' wr (tp_path p))
      (writes_end h env E (tx_logs ws) ps) (\<lambda>_. False) (whole h E ps UNIV)" for l'
  proof (rule triple_weaken [OF triple_origin [OF give_up_step [OF pl wr]]], assumption, elim conjE exE)
    fix r s' rs s assume r: "r = Inl (Rolled_back (tp_path p) rs)" "set rs \<subseteq> tp_path ` set wr"
      "whole h E ps {q \<in> set wr. tp_path q \<notin> set rs} s'" "writing h E (tx_logs ws) ps (set wr) l' s"
      "give_up env l' wr (tp_path p) h s = (Done r, s')"
    then show "writes_end h env E (tx_logs ws) ps r s'" using Cons.prems unfolding writes_end_def by auto
  qed
  have next_one: "triple h (writing h E (tx_logs ws) ps (insert p (set wr)) l') (write_ops env l' (wr @ [p]) qs)
      (writes_end h env E (tx_logs ws) ps) (\<lambda>_. False) (whole h E ps UNIV)" for l'
    unfolding ins by (rule Cons.IH [OF eq])
  show ?case
    unfolding write_ops.simps
  proof (rule triple_bind [OF stat], rule triple_if, rule quit, rule triple_bind [OF record_step [OF pl p]], goal_cases)
    case (1 info x)
    obtain l' ok where x: "x = (l', ok)" by (cases x)
    show ?case
      unfolding x prod.case
    proof (rule triple_bind [OF write_step(1) [OF pl p]])
      fix r :: "write_result option"
      show "triple h (writing h E (tx_logs ws) ps (if r = None then set wr else insert p (set wr)) l')
          (if r = None then give_up env l' wr (tp_path p) else write_ops env l' (wr @ [p]) qs)
          (writes_end h env E (tx_logs ws) ps) (\<lambda>_. False) (whole h E ps UNIV)"
        using quit next_one by simp
    qed
  qed
qed

text \<open>A log that cannot be begun is the one that records nothing.\<close>

lemma begin_step:
  assumes pl: "tx_place h env E ws ps"
  shows "triple h (holds h E (new_files ps {})) (attempt (Begin (Some ws) callID count))
    (\<lambda>r. writing h E (tx_logs ws) ps {} (case r of Some log \<Rightarrow> log | None \<Rightarrow> no_log)) (\<lambda>_. False) (whole h E ps UNIV)"
proof -
  let ?P = "holds h E (new_files ps {})"
  let ?Q = "\<lambda>log s. writing h E (tx_logs ws) ps {} log s"
  have none: "writing h E (tx_logs ws) ps {} no_log s" if "?P s" for s
    using that by (auto simp: writing_def holds_def log_right_def no_log_def)
  have w: "whole h E ps UNIV s" if "?P s" for s using that by (auto simp: whole_def holds_def)
  have empty_log: "?Q l s" if "?P s" "log_dir l = Some (tx_logs ws @ [e])" "tx_ops (log_manifest l) = []" for l e s
    using that by (auto simp: writing_def holds_def log_right_def)
  have ln: "log_names h" using pl by (simp add: tx_place_def)
  have keep: "triple h ?P m (\<lambda>_. ?P) ?P (whole h E ps UNIV)" if "keeps h E (new_files ps {}) m" for m :: "'b tx_io"
    by (rule triple_weaken [OF that]) (auto intro: w)
  have man: "keeps h E (new_files ps {}) (writeManifest (tx_logs ws @ [e]) l)" for e l
    unfolding writeManifest_def atomicWriteManifest_def
    by (rule triple_holds, rule triple_weaken [OF vt_AtomicWrite [OF log_not_junk(1) [OF ln]]])
      (auto simp: either_def intro: holdsI new_files_log [OF pl])
  have gone: "keeps h E (new_files ps {}) (remove_all (tx_logs ws @ [e]))" for e
    by (rule log_removed [OF pl]) (rule new_files_log(1) [OF pl])
  have dir: "ws @ [''.plumb'', ''tx-log'', e] = tx_logs ws @ [e]" for e by (simp add: tx_logs_def)
  have now: "triple h ?P now (\<lambda>_. ?P) ?P (whole h E ps UNIV)" by (simp add: triple_def now_def)
  have "triple h ?P (Begin (Some ws) callID count) ?Q ?P (whole h E ps UNIV)"
    unfolding Begin_def option.case
  proof (rule triple_bind [OF keep [OF keeps_attempt [OF keeps_unmoved [OF vt_stat_dir]]]], rule triple_if)
    show "triple h ?P (return_io no_log) ?Q ?P (whole h E ps UNIV)" by (rule triple_return, rule none)
    show "triple h ?P
        (bind_io now (\<lambda>t. let txID = newID t count; d = ws @ [''.plumb'', ''tx-log'', txID] in
         bind_io (mkdir_all d) (\<lambda>_. bind_io now (\<lambda>started.
         let l = \<lparr>log_dir = Some d,
                  log_manifest = \<lparr>tx_id = txID, tx_started = Some started, tx_workspace = ws, tx_call = callID, tx_ops = []\<rparr>,
                  log_n = 0\<rparr>
         in cleanup (remove_all d) (bind_io (writeManifest d l) (\<lambda>_. return_io l))))))
        ?Q ?P (whole h E ps UNIV)"
      unfolding Let_def dir
      by (rule triple_bind [OF now], rule triple_bind [OF keep [OF keeps_unmoved [OF vt_mkdir_all]]], rule triple_bind [OF now],
          rule triple_cleanup [OF triple_bind [OF keep [OF man]] keep [OF gone]])
        (rule triple_return, erule empty_log, simp_all)
  qed
  then show ?thesis
    by (intro triple_attempt, elim triple_weaken) (auto intro: none)
qed


lemma phase2_step:
  assumes pl: "tx_place h env E ws ps"
  shows "triple h (holds h E (new_files ps {})) (txPhase2Write env (Some ws) callID count ps)
    (writes_end h env E (tx_logs ws) ps) (\<lambda>_. False) (whole h E ps UNIV)"
  unfolding txPhase2Write_def
  by (rule triple_bind [OF begin_step [OF pl]], rule write_ops_step [OF pl, of "[]" ps, simplified])

section \<open>The gate on new errors\<close>

definition gate_end ::
  "tx_content host \<Rightarrow> path set \<Rightarrow> tx_prepared list \<Rightarrow> tx_prepared set \<Rightarrow> tx_prepared list \<Rightarrow> string list \<times> string list \<Rightarrow> tx_content os \<Rightarrow> bool" where
  "gate_end h E ps W qs r s =
     (case r of (undone, skipped) \<Rightarrow>
        set undone \<union> set skipped = tp_path ` set qs \<and> set undone \<inter> set skipped = {} \<and>
        holds h E (new_files ps (W - {p \<in> set qs. tp_path p \<in> set undone})) s)"

lemma read_step:
  assumes pl: "tx_place h env E ws ps" and p: "p \<in> set ps" "p \<in> W"
  shows "triple h (holds h E (new_files ps W)) (attempt (read_file (path_of (tp_path p))))
    (\<lambda>r s. (\<forall>c. r = Some c \<longrightarrow> c = Text (tp_after p)) \<and> holds h E (new_files ps W) s) F (whole h E ps UNIV)"
  by (rule triple_holds, rule triple_attempt, rule triple_weaken [OF vt_read_file [OF place_file(1) [OF pl p(1)]]])
    (use p in \<open>auto simp: new_files_def intro: holdsI wholeI\<close>)

lemma restore_one:
  assumes pl: "tx_place h env E ws ps" and p: "p \<in> set ps"
  shows "triple h (holds h E (new_files ps W)) (attempt (safeWrite (path_of (tp_path p)) (Text (tp_before p)) perm))
      (\<lambda>r. holds h E (new_files ps (if r = None then W else W - {p}))) F (whole h E ps UNIV)"
proof -
  have eq: "writing h E (tx_logs ws) ps W no_log = holds h E (new_files ps W)" for W
    by (simp add: writing_def log_right_def no_log_def fun_eq_iff holds_def)
  show ?thesis using write_step(2) [OF pl p, of W no_log perm F] unfolding eq .
qed

lemma gate_step:
  assumes pl: "tx_place h env E ws ps" and qs: "set qs \<subseteq> set ps" "distinct (map tp_path qs)" "set qs \<subseteq> W"
  shows "triple h (holds h E (new_files ps W)) (rollbackVerified sha qs) (gate_end h E ps W qs) (\<lambda>_. False) (whole h E ps UNIV)"
  using qs
proof (induction qs arbitrary: W)
  case Nil
  then show ?case by (auto intro!: triple_return simp: gate_end_def)
next
  case (Cons p qs)
  have p: "p \<in> set ps" "p \<in> W" "set qs \<subseteq> set ps" "distinct (map tp_path qs)" "set qs \<subseteq> W" "tp_path p \<notin> tp_path ` set qs" "p \<notin> set qs"
    using Cons.prems by auto
  have try_it: "triple h (holds h E (new_files ps W))
      (if b then attempt (safeWrite (path_of (tp_path p)) (Text (tp_before p)) (tp_perm p)) else return_io None)
      (\<lambda>r. holds h E (new_files ps (if r = None then W else W - {p}))) (\<lambda>_. False) (whole h E ps UNIV)" for b
    by (rule triple_if, rule restore_one [OF pl p(1)], rule triple_return, simp)
  show ?case
    unfolding rollbackVerified.simps
  proof (rule triple_bind [OF read_step [OF pl p(1,2)]], rule triple_pure, rule triple_bind [OF try_it])
    fix r :: "write_result option"
    let ?W = "if r = None then W else W - {p}"
    have sub: "set qs \<subseteq> ?W" using p by auto
    have step: "gate_end h E ps W (p # qs) (if r = None then (undone, tp_path p # skipped) else (tp_path p # undone, skipped)) s"
      if "gate_end h E ps ?W qs (undone, skipped) s" for undone skipped s
    proof -
      have g: "set undone \<union> set skipped = tp_path ` set qs" "set undone \<inter> set skipped = {}"
        "holds h E (new_files ps (?W - {q \<in> set qs. tp_path q \<in> set undone})) s"
        using that by (simp_all add: gate_end_def)
      have n: "tp_path p \<notin> set undone" "tp_path p \<notin> set skipped" using g(1) p(6) by auto
      have none: "{q \<in> set (p # qs). tp_path q \<in> set undone} = {q \<in> set qs. tp_path q \<in> set undone}" using n by auto
      have some: "W - {q \<in> set (p # qs). tp_path q \<in> set (tp_path p # undone)} = W - {p} - {q \<in> set qs. tp_path q \<in> set undone}"
        using p(6) by (auto simp: image_iff)
      show ?thesis
      proof (cases r)
        case None
        then show ?thesis using g n unfolding gate_end_def if_P [OF None] prod.case none by auto
      next
        case (Some x)
        then have "r \<noteq> None" by simp
        then show ?thesis using g n unfolding gate_end_def if_not_P [OF \<open>r \<noteq> None\<close>] prod.case some by auto
      qed
    qed
    show "triple h (holds h E (new_files ps ?W))
        (bind_io (rollbackVerified sha qs) (\<lambda>(undone, skipped).
          return_io (if r = None then (undone, tp_path p # skipped) else (tp_path p # undone, skipped))))
        (gate_end h E ps W (p # qs)) (\<lambda>_. False) (whole h E ps UNIV)"
    proof (rule triple_bind [OF Cons.IH [OF p(3,4) sub]], goal_cases)
      case (1 a)
      obtain undone skipped where a: "a = (undone, skipped)" by (cases a)
      show ?case unfolding a prod.case by (rule triple_return, erule step)
    qed
  qed
qed

lemma gate_sure_step:
  assumes pl: "tx_place h env E ws ps" and qs: "set qs \<subseteq> set ps" "distinct (map tp_path qs)" "set qs \<subseteq> W" and h: "no_faults h"
  shows "triple h (holds h E (new_files ps W)) (rollbackVerified sha qs) (\<lambda>(undone, skipped) s. skipped = []) (\<lambda>_. False) (\<lambda>_. True)"
  using qs
proof (induction qs arbitrary: W)
  case Nil
  then show ?case by (auto intro!: triple_return)
next
  case (Cons p qs)
  have p: "p \<in> set ps" "p \<in> W" "set qs \<subseteq> set ps" "distinct (map tp_path qs)" "set qs \<subseteq> W - {p}"
    using Cons.prems by auto
  note f = place_file(1-3) [OF pl p(1)]
  have g: "good_names h" "tmp_dir h \<in> E" using pl by (simp_all add: tx_place_def)
  have rd: "triple h (holds h E (new_files ps W)) (attempt (read_file (path_of (tp_path p))))
      (\<lambda>r s. r = Some (Text (tp_after p)) \<and> holds h E (new_files ps W) s) (\<lambda>_. False) (\<lambda>_. True)"
    by (rule triple_holds, rule triple_weaken [OF vt_read_sure [OF h f(1)]])
      (use p in \<open>auto simp: new_files_def intro: holdsI\<close>)
  have wrt: "triple h (holds h E (new_files ps W)) (attempt (safeWrite (path_of (tp_path p)) (Text (tp_before p)) (tp_perm p)))
      (\<lambda>r s. r \<noteq> None \<and> holds h E (new_files ps (W - {p})) s) (\<lambda>_. False) (\<lambda>_. True)"
    by (rule triple_holds, rule triple_attempt, rule triple_weaken [OF vt_safeWrite_sure [OF h f(1) g(1) f(2,3) g(2)]])
      (auto intro: holdsI new_files_write(2) [OF pl p(1)])
  show ?case
    unfolding rollbackVerified.simps
    by (rule triple_bind [OF rd], rule triple_pure, simp add: file_text_def, rule triple_bind [OF wrt], rule triple_pure,
        rule triple_bind [OF Cons.IH [OF p(3-5)]])
      (auto intro: triple_return)
qed


section \<open>The whole transaction\<close>

definition log_at :: "path \<Rightarrow> tx_log \<Rightarrow> bool" where
  "log_at L l = (\<forall>d. log_dir l = Some d \<longrightarrow> (\<exists>e. d = L @ [e]))"

text \<open>The removal of the log leaves the files as they are.\<close>

lemma commit_step:
  assumes pl: "tx_place h env E ws ps" and l: "log_at (tx_logs ws) l"
  shows "triple h (holds h E (new_files ps W)) (Commit l) (\<lambda>_. holds h E (new_files ps W)) (\<lambda>_. False) (whole h E ps UNIV)"
proof (cases "log_dir l")
  case None
  then show ?thesis by (simp add: Commit_def) (rule triple_return)
next
  case (Some d)
  then obtain e where d: "d = tx_logs ws @ [e]" using l by (auto simp: log_at_def)
  have "keeps h E (new_files ps W) (remove_all d)"
    unfolding d by (rule log_removed [OF pl]) (rule new_files_log(1) [OF pl])
  then have "keeps h E (new_files ps W) (best_effort (remove_all d))" by (rule keeps_best_effort)
  then have "triple h (holds h E (new_files ps W)) (best_effort (remove_all d)) (\<lambda>_. holds h E (new_files ps W))
      (holds h E (new_files ps W)) (whole h E ps UNIV)"
    by (rule triple_weaken) (auto simp: whole_def holds_def)
  then show ?thesis
    unfolding Commit_def Some option.case by (rule triple_never_fails [OF never_fails_rules(3)])
qed

lemma new_files_reads:
  assumes pl: "tx_place h env E ws ps"
  shows "holds h E (new_files ps W) s \<Longrightarrow> x \<in> set ps \<Longrightarrow>
      reads s (path_of (tp_path x)) = Some (Text (if x \<in> W then tp_after x else tp_before x))"
    and "whole h E ps W s \<Longrightarrow> x \<in> set ps \<Longrightarrow> reads s (path_of (tp_path x)) = Some (Text (tp_before x)) \<or>
      x \<in> W \<and> reads s (path_of (tp_path x)) = Some (Text (tp_after x))"
proof -
  have at: "reads s (path_of (tp_path x)) = Some (Text (if x \<in> W then tp_after x else tp_before x))"
    if "sees h E v s" "new_files ps W v" "x \<in> set ps" for v W
    using that place_file(1) [OF pl that(3)] unfolding sees_def new_files_def by metis
  then show "holds h E (new_files ps W) s \<Longrightarrow> x \<in> set ps \<Longrightarrow>
      reads s (path_of (tp_path x)) = Some (Text (if x \<in> W then tp_after x else tp_before x))"
    by (auto simp: holds_def)
  assume w: "whole h E ps W s" and x: "x \<in> set ps"
  then obtain v W' where "sees h E v s" "W' \<subseteq> W" "new_files ps W' v" by (auto simp: whole_def holds_def)
  with at [of v W'] x show "reads s (path_of (tp_path x)) = Some (Text (tp_before x)) \<or>
      x \<in> W \<and> reads s (path_of (tp_path x)) = Some (Text (tp_after x))" by (cases "x \<in> W'") auto
qed

text \<open>
  The transaction gave up at \<open>q\<close>: from the state in which it did, in which exactly the files
  before \<open>q\<close> were new, the rollback ran to the end. A file is old again, or was left new, not
  listed as restored, by a call of that rollback that failed.
\<close>

definition taken_back ::
  "tx_content host \<Rightarrow> replay_env \<Rightarrow> tx_prepared list \<Rightarrow> string \<Rightarrow> string list \<Rightarrow> tx_content os \<Rightarrow> bool" where
  "taken_back h env ps q undone s1 =
     (\<exists>wr p rest log s.
        ps = wr @ p # rest \<and> q = tp_path p \<and>
        (\<forall>x \<in> set ps. reads s (path_of (tp_path x)) = Some (Text (if x \<in> set wr then tp_after x else tp_before x))) \<and>
        give_up env log wr q h s = (Done (Inl (Rolled_back q undone)), s1) \<and>
        set undone \<subseteq> tp_path ` set wr \<and>
        (\<forall>x \<in> set ps. reads s1 (path_of (tp_path x)) = Some (Text (tp_before x)) \<or>
           x \<in> set wr \<and> tp_path x \<notin> set undone \<and> reads s1 (path_of (tp_path x)) = Some (Text (tp_after x)) \<and>
           (\<exists>n. calls s \<le> n \<and> n < calls s1 \<and> call_fails h n)))"

text \<open>
  The gate refused the new errors: every file is listed as restored and is old, or as skipped,
  and is new because of a call of the verified rollback that failed.
\<close>

definition gated ::
  "tx_content host \<Rightarrow> (string \<Rightarrow> string) \<Rightarrow> tx_prepared list \<Rightarrow> string list \<Rightarrow> string list \<Rightarrow> tx_content os \<Rightarrow> bool" where
  "gated h sha ps undone skipped s1 =
     (\<exists>s s2.
        (\<forall>x \<in> set ps. reads s (path_of (tp_path x)) = Some (Text (tp_after x))) \<and>
        rollbackVerified sha ps h s = (Done (undone, skipped), s2) \<and>
        set undone \<union> set skipped = tp_path ` set ps \<and> set undone \<inter> set skipped = {} \<and>
        (\<forall>x \<in> set ps.
           if tp_path x \<in> set undone then reads s1 (path_of (tp_path x)) = Some (Text (tp_before x))
           else reads s1 (path_of (tp_path x)) = Some (Text (tp_after x)) \<and>
             (\<exists>n. calls s \<le> n \<and> n < calls s2 \<and> call_fails h n)))"

lemma taken_backI:
  assumes pl: "tx_place h env E ws ps" and "writes_end h env E (tx_logs ws) ps (Inl x) s1"
  shows "\<exists>q undone. x = Rolled_back q undone \<and> taken_back h env ps q undone s1"
proof -
  obtain wr p rest l s rs where w: "ps = wr @ p # rest" "x = Rolled_back (tp_path p) rs"
    "give_up env l wr (tp_path p) h s = (Done (Inl x), s1)" "writing h E (tx_logs ws) ps (set wr) l s"
    "set rs \<subseteq> tp_path ` set wr" "whole h E ps {q \<in> set wr. tp_path q \<notin> set rs} s1"
    using assms(2) unfolding writes_end_def sum.case by blast
  have wr: "set wr \<subseteq> set ps" using w(1) by auto
  have s: "reads s (path_of (tp_path y)) = Some (Text (if y \<in> set wr then tp_after y else tp_before y))" if "y \<in> set ps" for y
    using w(4) that by (intro new_files_reads(1) [OF pl]) (auto simp: writing_def holds_def)
  have old: "reads s1 (path_of (tp_path y)) = Some (Text (tp_before y)) \<or>
      y \<in> set wr \<and> tp_path y \<notin> set rs \<and> reads s1 (path_of (tp_path y)) = Some (Text (tp_after y)) \<and>
      (\<exists>n. calls s \<le> n \<and> n < calls s1 \<and> call_fails h n)" if y: "y \<in> set ps" for y
  proof (cases "\<exists>n. calls s \<le> n \<and> n < calls s1 \<and> call_fails h n")
    case True
    then show ?thesis using new_files_reads(2) [OF pl w(6) y] by blast
  next
    case False
    have "whole h E ps {} s1" by (rule give_up_faults [OF pl wr w(4,3)]) (use False in blast)
    then show ?thesis using new_files_reads(2) [OF pl _ y] by blast
  qed
  have "taken_back h env ps (tp_path p) rs s1"
    unfolding taken_back_def
    by (rule exI [of _ wr], rule exI [of _ p], rule exI [of _ rest], rule exI [of _ l], rule exI [of _ s])
      (use w(1,3,5) s old in \<open>simp add: w(2)\<close>)
  then show ?thesis using w(2) by blast
qed

lemma gatedI:
  assumes pl: "tx_place h env E ws ps" and s: "holds h E (new_files ps (set ps)) s"
    and run: "rollbackVerified sha ps h s = (Done (undone, skipped), s2)"
    and g: "gate_end h E ps (set ps) ps (undone, skipped) s2"
    and s1: "holds h E (new_files ps (set ps - {p \<in> set ps. tp_path p \<in> set undone})) s1"
  shows "gated h sha ps undone skipped s1"
proof -
  have d: "distinct (map tp_path ps)" and pl': "tx_place (faultless h) env E ws ps" using pl by (simp_all add: tx_place_def)
  have e: "set undone \<union> set skipped = tp_path ` set ps" "set undone \<inter> set skipped = {}"
    using g by (simp_all add: gate_end_def)
  note now = new_files_reads(1) [OF pl s1]
  have fault: "\<exists>n. calls s \<le> n \<and> n < calls s2 \<and> call_fails h n" if "skipped \<noteq> []"
  proof (rule ccontr)
    assume "\<not> ?thesis"
    then have "rollbackVerified sha ps (faultless h) s = (Done (undone, skipped), s2)"
      by (intro local_run [OF local_rollbackVerified run]) blast
    from tripleD [OF gate_sure_step [OF pl' subset_refl d subset_refl faultless_sees(8)] _ this] s that show False by simp
  qed
  have each: "if tp_path x \<in> set undone then reads s1 (path_of (tp_path x)) = Some (Text (tp_before x))
      else reads s1 (path_of (tp_path x)) = Some (Text (tp_after x)) \<and> (\<exists>n. calls s \<le> n \<and> n < calls s2 \<and> call_fails h n)"
    if x: "x \<in> set ps" for x
  proof (cases "tp_path x \<in> set undone")
    case False
    then have "tp_path x \<in> set skipped" using e(1) x by blast
    then have "skipped \<noteq> []" by auto
    then show ?thesis using now [OF x] fault False x by simp
  qed (use now [OF x] x in simp)
  have "reads s (path_of (tp_path x)) = Some (Text (tp_after x))" if "x \<in> set ps" for x
    using new_files_reads(1) [OF pl s that] that by simp
  then show ?thesis
    unfolding gated_def by (intro exI [of _ s] exI [of _ s2] conjI run e(1,2)) (use each in blast)+
qed

lemma apply_step:
  assumes pl: "tx_place h env E ws ps"
  shows "triple h (holds h E (new_files ps {}))
    (transaction_apply sha env (Some ws) callID count failOnNewErrors newErrors ps)
    (\<lambda>r s1. case r of
        Inr w \<Rightarrow> w = ps \<and> holds h E (new_files ps (set ps)) s1
      | Inl x \<Rightarrow> (\<exists>q undone. x = Rolled_back q undone \<and> taken_back h env ps q undone s1) \<or>
          (\<exists>undone skipped. x = New_errors undone skipped \<and> failOnNewErrors \<and> newErrors ps \<and> gated h sha ps undone skipped s1))
    (\<lambda>_. False) (whole h E ps UNIV)"
proof -
  let ?Q = "\<lambda>r s1. case r of
        Inr w \<Rightarrow> w = ps \<and> holds h E (new_files ps (set ps)) s1
      | Inl x \<Rightarrow> (\<exists>q undone. x = Rolled_back q undone \<and> taken_back h env ps q undone s1) \<or>
          (\<exists>undone skipped. x = New_errors undone skipped \<and> failOnNewErrors \<and> newErrors ps \<and> gated h sha ps undone skipped s1)"
  have d: "distinct (map tp_path ps)" using pl by (simp add: tx_place_def)
  have fin: "triple h (holds h E (new_files ps (set ps))) (bind_io (Commit l) (\<lambda>_. return_io (Inr ps))) ?Q (\<lambda>_. False) (whole h E ps UNIV)"
    if "log_at (tx_logs ws) l" for l
    by (rule triple_bind [OF commit_step [OF pl that]], rule triple_return) simp
  have gate: "triple h (holds h E (new_files ps (set ps)))
      (bind_io (rollbackVerified sha ps) (\<lambda>(undone, skipped). bind_io (Commit l) (\<lambda>_. return_io (Inl (New_errors undone skipped)))))
      ?Q (\<lambda>_. False) (whole h E ps UNIV)" if on: "failOnNewErrors" "newErrors ps" and l: "log_at (tx_logs ws) l" for l
  proof (rule triple_bind [OF triple_origin [OF gate_step [OF pl subset_refl d subset_refl]]], goal_cases)
    case (1 a)
    obtain undone skipped where a: "a = (undone, skipped)" by (cases a)
    show ?case
      unfolding a prod.case
    proof (rule triple_from, elim conjE exE)
      fix s2 s assume g: "gate_end h E ps (set ps) ps (undone, skipped) s2" and s: "holds h E (new_files ps (set ps)) s"
        and run: "rollbackVerified sha ps h s = (Done (undone, skipped), s2)"
      let ?W = "set ps - {p \<in> set ps. tp_path p \<in> set undone}"
      show "triple h (\<lambda>s. s = s2) (bind_io (Commit l) (\<lambda>_. return_io (Inl (New_errors undone skipped)))) ?Q (\<lambda>_. False) (whole h E ps UNIV)"
      proof (rule triple_bind [where Q = "\<lambda>_. holds h E (new_files ps ?W)"])
        show "triple h (\<lambda>s. s = s2) (Commit l) (\<lambda>_. holds h E (new_files ps ?W)) (\<lambda>_. False) (whole h E ps UNIV)"
          by (rule triple_weaken [OF commit_step [OF pl l, of ?W]]) (use g in \<open>simp_all add: gate_end_def\<close>)
        show "triple h (holds h E (new_files ps ?W)) (return_io (Inl (New_errors undone skipped))) ?Q (\<lambda>_. False) (whole h E ps UNIV)"
          by (rule triple_return) (use on gatedI [OF pl s run g] in simp)
      qed
    qed
  qed
  show ?thesis
    unfolding transaction_apply_def
  proof (rule triple_bind [OF phase2_step [OF pl]], goal_cases)
    case (1 a)
    show ?case
    proof (cases a)
      case (Inl x)
      show ?thesis unfolding Inl sum.case by (rule triple_return) (auto dest: taken_backI [OF pl])
    next
      case (Inr y)
      obtain w l where y: "y = (w, l)" by (cases y)
      show ?thesis
      proof (rule triple_from)
        fix s0 assume "writes_end h env E (tx_logs ws) ps a s0"
        then have w: "w = ps" and s0: "holds h E (new_files ps (set ps)) s0" and l: "log_at (tx_logs ws) l"
          by (auto simp: Inr y writes_end_def writing_def holds_def log_right_def log_at_def)
        have "triple h (holds h E (new_files ps (set ps)))
            (if \<not> failOnNewErrors then bind_io (Commit l) (\<lambda>_. return_io (Inr ps))
             else if newErrors ps then
               bind_io (rollbackVerified sha ps) (\<lambda>(undone, skipped). bind_io (Commit l) (\<lambda>_. return_io (Inl (New_errors undone skipped))))
             else bind_io (Commit l) (\<lambda>_. return_io (Inr ps))) ?Q (\<lambda>_. False) (whole h E ps UNIV)"
          using fin [OF l] gate [OF _ _ l] by simp
        then show "triple h (\<lambda>s. s = s0)
            (case a of Inl e \<Rightarrow> return_io (Inl e)
             | Inr (w, log) \<Rightarrow>
                 if \<not> failOnNewErrors then bind_io (Commit log) (\<lambda>_. return_io (Inr w))
                 else if newErrors w then
                   bind_io (rollbackVerified sha w) (\<lambda>(undone, skipped).
                   bind_io (Commit log) (\<lambda>_. return_io (Inl (New_errors undone skipped))))
                 else bind_io (Commit log) (\<lambda>_. return_io (Inr w))) ?Q (\<lambda>_. False) (whole h E ps UNIV)"
          unfolding Inr y w sum.case prod.case by (rule triple_weaken) (simp_all add: s0)
      qed
    qed
  qed
qed

end
