(* ===== verification/Plumb_Transaction_Demo.thy ===== *)
theory Plumb_Transaction_Demo
  imports Plumb_Transaction_Faults
begin

text \<open>
  A small host on which the transaction is run: a workspace with two files and a \<open>.plumb\<close>
  directory, and a chosen call before which a crash comes. The runs are evaluated by the
  simplifier from the equations of the system calls.
\<close>

section \<open>A small host\<close>

definition tx_demo_host :: "nat option \<Rightarrow> tx_content host" where
  "tx_demo_host crash =
     \<lparr>call_fails = (\<lambda>_. False), crashes = (\<lambda>n. crash = Some n), device = (\<lambda>_. 0), tmp_dir = [''t''],
      temp_name = (\<lambda>k. replicate (Suc k) (CHR ''t'')),
      dir_order = (\<lambda>_. [''1-1'', ''0-before'', ''1-before'', ''manifest.json'']), umask = 18, fsync_on = True, empty = Text []\<rparr>"

definition tx_demo_os :: "tx_content os" where
  "tx_demo_os =
     \<lparr>inodes = (\<lambda>i. \<lparr>i_data = Text (if i = 0 then ''x'' else ''y''), i_synced = True, i_mode = 420, i_mtime = 0\<rparr>),
      now_dir = [[''w'', ''a''] \<mapsto> 0, [''w'', ''b''] \<mapsto> 1], saved_dir = [[''w'', ''a''] \<mapsto> 0, [''w'', ''b''] \<mapsto> 1],
      now_dirs = (\<lambda>d. d \<in> set [[], [''w''], [''w'', ''.plumb''], [''t'']]), saved_dirs = (\<lambda>d. d \<in> set [[], [''w''], [''w'', ''.plumb''], [''t'']]),
      next_inode = 2, time = 0, calls = 0, warnings = 0, cross_known = []\<rparr>"

definition tx_demo_ops :: "tx_prepared list" where
  "tx_demo_ops =
     [\<lparr>tp_path = ''/w/a'', tp_before = ''x'', tp_after = ''X'', tp_mtime = 0, tp_perm = 420\<rparr>,
      \<lparr>tp_path = ''/w/b'', tp_before = ''y'', tp_after = ''Y'', tp_mtime = 0, tp_perm = 420\<rparr>]"

definition tx_demo_env :: replay_env where
  "tx_demo_env = \<lparr>replayTarget = Some, is_symlink = (\<lambda>_. False), multiply_linked = (\<lambda>_. False),
     real_log_dir = (\<lambda>_. True), path_guard = Some (\<lambda>p. p = ''/w/a'' \<or> p = ''/w/b'')\<rparr>"


definition tx_demo_E :: "path set" where "tx_demo_E = {[''w''], [''w'', ''.plumb''], [''t'']}"

lemma tx_demo_names: "good_names (tx_demo_host k)" "log_names (tx_demo_host k)"
proof -
  have n: "temp_name (tx_demo_host k) n = replicate (Suc n) (CHR ''t'')" for n by (simp add: tx_demo_host_def)
  have l: "last (replicate (Suc n) (CHR ''t'')) = CHR ''t''" for n by (simp add: last_replicate)
  have suf: "last xs = last ys" if "has_suffix xs ys" "ys \<noteq> []" for xs ys :: string
    using that by (auto simp: has_suffix_iff)
  have "inj (\<lambda>n. replicate (Suc n) (CHR ''t''))" by (rule injI) (metis length_replicate nat.inject)
  moreover have "temp_name (tx_demo_host k) = (\<lambda>n. replicate (Suc n) (CHR ''t''))" by (simp add: tx_demo_host_def)
  ultimately have "inj (temp_name (tx_demo_host k))" by simp
  then show "good_names (tx_demo_host k)"
    using suf [of "replicate (Suc _) (CHR ''t'')" "''.plumb.tmp''"] l by (auto simp: good_names_def n simp del: replicate_Suc)
  show "log_names (tx_demo_host k)"
    unfolding log_names_def n
  proof (intro allI conjI notI)
    fix n assume "replicate (Suc n) (CHR ''t'') = ''manifest.json''"
    then have "last (replicate (Suc n) (CHR ''t'')) = last ''manifest.json''" by (rule arg_cong)
    then show False unfolding l by simp
  next
    fix n assume "has_suffix (replicate (Suc n) (CHR ''t'')) ''-before''"
    from suf [OF this] show False unfolding l by simp
  qed
qed

lemma tx_demo_olds: "olds tx_demo_ops = [''/w/a'' \<mapsto> ''x'', ''/w/b'' \<mapsto> ''y'']"
  by (auto simp: olds_def tx_demo_ops_def fun_eq_iff)

lemma tx_demo_paths: "path_of ''/w/a'' = [''w'', ''a'']" "path_of ''/w/b'' = [''w'', ''b'']"
  by code_simp+

lemma tx_demo_not_junk: "[''w'', ''a''] \<notin> junk (tx_demo_host k)" "[''w'', ''b''] \<notin> junk (tx_demo_host k)"
  "[''e''] \<notin> junk (tx_demo_host k)"
proof -
  have "\<not> has_suffix ''e'' ''.plumb.tmp''" "\<not> has_suffix ''a'' ''.plumb.tmp''" "\<not> has_suffix ''b'' ''.plumb.tmp''" by code_simp+
  then show "[''w'', ''a''] \<notin> junk (tx_demo_host k)" "[''w'', ''b''] \<notin> junk (tx_demo_host k)" "[''e''] \<notin> junk (tx_demo_host k)"
    by (auto simp: junk_def is_temp_def tx_demo_host_def Cons_eq_append_conv)
qed

lemma tx_demo_files: "tx_files (tx_demo_host k) (tx_logs [''w'']) (olds tx_demo_ops)"
  by (auto simp: tx_files_def tx_demo_olds tx_demo_paths tx_demo_not_junk tx_logs_def split: if_splits)

lemma tx_demo_setting: "tx_setting (tx_demo_host k) tx_demo_E (tx_logs [''w'']) (olds tx_demo_ops)"
  unfolding tx_setting_def
  by (intro conjI tx_demo_names tx_demo_files)
    (auto simp: no_faults_def tx_demo_host_def tx_demo_E_def tx_demo_olds tx_demo_paths maxSnapSize_def tx_logs_def split: if_splits)

lemma tx_demo_replay: "replayable (tx_demo_host k) tx_demo_env tx_demo_E (olds tx_demo_ops)"
proof -
  have "admitReplayPath tx_demo_env ''/w/a''" "admitReplayPath tx_demo_env ''/w/b''" by code_simp+
  then show ?thesis
    by (auto simp: replayable_def replay_to_def tx_demo_olds tx_demo_paths tx_demo_E_def split: if_splits)
      (simp_all add: tx_demo_env_def)
qed

lemma tx_demo_entries: "now_dir tx_demo_os q = Some i \<longleftrightarrow> q = [''w'', ''a''] \<and> i = 0 \<or> q = [''w'', ''b''] \<and> i = 1"
  by (auto simp: tx_demo_os_def)

lemma tx_demo_sees: "sees (tx_demo_host k) tx_demo_E (reads tx_demo_os) tx_demo_os"
proof -
  have "tree tx_demo_os" by (auto simp: tree_def tx_demo_os_def append_eq_Cons_conv)
  moreover have "now_dir tx_demo_os (d @ [temp_name (tx_demo_host k) n]) = None" for d n
    by (auto simp: tx_demo_os_def tx_demo_host_def append_eq_Cons_conv Cons_eq_append_conv)
  moreover have "next_inode tx_demo_os = 2" by (simp add: tx_demo_os_def)
  ultimately have "proper (tx_demo_host k) tx_demo_os"
    by (intro properI) (auto simp: tx_demo_entries)
  then show ?thesis using tx_demo_names by (auto simp: sees_def tx_demo_E_def tx_demo_os_def)
qed

lemma tx_demo_ready: "tx_ready (tx_demo_host k) tx_demo_env tx_demo_E [''w''] tx_demo_ops tx_demo_os"
  unfolding tx_ready_def
proof (intro conjI tx_demo_setting tx_demo_replay tx_demo_sees)
  show "holds_before tx_demo_ops (reads tx_demo_os)" by code_simp
  show "fresh_logs (tx_logs [''w'']) (reads tx_demo_os)"
    by (auto simp: fresh_logs_def reads_def tx_demo_entries tx_logs_def manifest_path_def)
qed (simp_all add: tx_demo_env_def tx_demo_E_def tx_demo_ops_def)




lemma tx_demo_id: "newID 1 1 = ''1-1''" "newID 1 (Suc 0) = ''1-1''" "Itoa 0 = ''0''" "Itoa 1 = ''1''"
  by code_simp+

lemma tx_demo_host_simps [simp]:
  "call_fails (tx_demo_host k) = (\<lambda>_. False)" "crashes (tx_demo_host k) = (\<lambda>n. k = Some n)" "device (tx_demo_host k) = (\<lambda>_. 0)"
  "tmp_dir (tx_demo_host k) = [''t'']" "temp_name (tx_demo_host k) = (\<lambda>k. replicate (Suc k) (CHR ''t''))"
  "dir_order (tx_demo_host k) = (\<lambda>_. [''1-1'', ''0-before'', ''1-before'', ''manifest.json''])" "umask (tx_demo_host k) = 18" "fsync_on (tx_demo_host k)" "empty (tx_demo_host k) = Text []"
  by (simp_all add: tx_demo_host_def)

lemma tx_demo_target: "replayTarget tx_demo_env = Some"
  by (simp add: tx_demo_env_def)

lemmas tx_demo_eval = tx_demo_target give_up_def Rollback_def transaction_apply_def txPhase2Write_def Begin_def Record_def Commit_def writeManifest_def atomicWriteManifest_def AtomicWrite_def
  safeWrite_def stage_def mkdirAllSynced_def missingAncestors.simps [of "[''w'']"] sync_parents.simps rememberCrossDevice_def
  mkdir_all_def stat_dir_def read_file_def read_names_def remove_dir_def write_file_def
  ScanRecording_def replayOrphan_def read_manifest_def manifestStartedAt_def is_dir_def restoreOp_def
  remove_all_def remove_each.simps
  io_defs syscall_def bump_def reads_def tx_demo_os_def tx_demo_ops_def tx_demo_paths tx_demo_id maxSnapSize_def
  manifest_path_def snapshotPath_def

lemma tx_demo_real: "real_log_dir tx_demo_env d"
  by (simp add: tx_demo_env_def)

text \<open>The host on which the log cannot be begun and one call fails later.\<close>

definition tx_demo_failing :: "nat \<Rightarrow> tx_content host" where
  "tx_demo_failing k = (tx_demo_host None)\<lparr>call_fails := (\<lambda>n. n = 0 \<or> n = k)\<rparr>"

lemma tx_demo_failing_simps [simp]:
  "call_fails (tx_demo_failing k) = (\<lambda>n. n = 0 \<or> n = k)" "crashes (tx_demo_failing k) = (\<lambda>n. False)" "device (tx_demo_failing k) = (\<lambda>_. 0)"
  "tmp_dir (tx_demo_failing k) = [''t'']" "temp_name (tx_demo_failing k) = (\<lambda>k. replicate (Suc k) (CHR ''t''))"
  "dir_order (tx_demo_failing k) = (\<lambda>_. [''1-1'', ''0-before'', ''1-before'', ''manifest.json''])" "umask (tx_demo_failing k) = 18"
  "fsync_on (tx_demo_failing k)" "empty (tx_demo_failing k) = Text []"
  by (simp_all add: tx_demo_failing_def)

lemma tx_demo_place:
  "tx_place (tx_demo_failing k) tx_demo_env tx_demo_E [''w''] tx_demo_ops"
  "sees (tx_demo_failing k) tx_demo_E (reads tx_demo_os) tx_demo_os" "holds_before tx_demo_ops (reads tx_demo_os)"
proof -
  have eq: "faultless (tx_demo_failing k) = faultless (tx_demo_host None)" by (simp add: tx_demo_failing_def faultless_def)
  have r: "tx_ready (tx_demo_host None) tx_demo_env tx_demo_E [''w''] tx_demo_ops tx_demo_os" by (rule tx_demo_ready)
  then have "tx_place (faultless (tx_demo_host None)) tx_demo_env tx_demo_E [''w''] tx_demo_ops"
    by (simp add: tx_ready_def tx_setting_def tx_place_def)
  then show "tx_place (tx_demo_failing k) tx_demo_env tx_demo_E [''w''] tx_demo_ops"
    unfolding eq [symmetric] by (simp add: tx_place_def)
  have "sees (faultless (tx_demo_host None)) tx_demo_E (reads tx_demo_os) tx_demo_os" using r by (simp add: tx_ready_def)
  then show "sees (tx_demo_failing k) tx_demo_E (reads tx_demo_os) tx_demo_os" unfolding eq [symmetric] by simp
  show "holds_before tx_demo_ops (reads tx_demo_os)" using r by (simp add: tx_ready_def)
qed

end
