(* ===== verification/Plumb_Recovery_Claims.thy ===== *)
theory Plumb_Recovery_Claims
  imports Plumb_Transaction_Demo
begin

text \<open>
  What a recovery may write, whatever the log it finds: the manifest in a workspace may have been
  put there by anyone, and every call may fail or be the last before a crash.
\<close>

section \<open>The answer\<close>

lemma replay_to_admitted: "replay_to env d op = Some t \<Longrightarrow> admitReplayPath env t"
  by (auto simp: replay_to_def split: if_splits option.splits)

definition answers :: "('c, 'a) io \<Rightarrow> ('a \<Rightarrow> bool) \<Rightarrow> bool" where
  "answers m R = (\<forall>h s a s'. m h s = (Done a, s') \<longrightarrow> R a)"

lemma answers_bind: "answers m R \<Longrightarrow> (\<And>a. R a \<Longrightarrow> answers (k a) R') \<Longrightarrow> answers (bind_io m k) R'"
  unfolding answers_def bind_io_def by (auto split: prod.splits res.splits) blast

lemma answers_any: "answers m (\<lambda>_. True)"
  by (simp add: answers_def)

lemma answers_after: "(\<And>a. answers (k a) R) \<Longrightarrow> answers (bind_io m k) R"
  by (rule answers_bind [OF answers_any])

lemma answers_return: "R a \<Longrightarrow> answers (return_io a) R"
  by (simp add: answers_def return_io_def)

abbreviation admitted :: "replay_env \<Rightarrow> string list \<Rightarrow> bool" where
  "admitted env ts \<equiv> \<forall>t \<in> set ts. admitReplayPath env t"

lemma replay_ops_admitted: "answers (replay_ops env d ops) (admitted env)"
proof (induction ops)
  case (Cons op ops)
  show ?case
  proof (cases "replay_to env d op")
    case (Some t)
    then have t: "admitReplayPath env t" by (rule replay_to_admitted)
    show ?thesis
      unfolding replay_ops.simps Some option.case
      by (rule answers_after, rule answers_bind [OF Cons], rule answers_return) (use t in auto)
  qed (use Cons in simp)
qed (auto intro: answers_return)

lemma replayOrphan_admitted: "answers (replayOrphan env d) (admitted env)"
  unfolding replayOrphan_def
  by (rule answers_after) (auto intro: answers_return replay_ops_admitted split: option.split)

lemma scan_entries_admitted: "answers (scan_entries env L cutoff es) (admitted env)"
proof (induction es)
  case (Cons e es)
  have "answers (bind_io (replayOrphan env (L @ [e])) (\<lambda>r.
      bind_io (best_effort (remove_all (L @ [e]))) (\<lambda>_.
      bind_io (scan_entries env L cutoff es) (\<lambda>rs. return_io (r @ rs))))) (admitted env)"
    by (rule answers_bind [OF replayOrphan_admitted], rule answers_after, rule answers_bind [OF Cons],
        rule answers_return) auto
  then show ?case by (auto intro!: answers_after Cons)
qed (auto intro: answers_return)

lemma ScanRecording_admitted: "answers (ScanRecording env ws cutoff) (admitted env)"
  unfolding ScanRecording_def
  by (auto intro!: answers_after answers_return scan_entries_admitted simp: Let_def split: option.split)

section \<open>The files\<close>

text \<open>Only admitted files and the files in the logs differ from \<open>v0\<close>.\<close>

definition confined :: "replay_env \<Rightarrow> path \<Rightarrow> (path \<Rightarrow> tx_content option) \<Rightarrow> (path \<Rightarrow> tx_content option) \<Rightarrow> bool" where
  "confined env L v0 v =
     (\<forall>q. v q = v0 q \<or> (\<exists>t. admitReplayPath env t \<and> q = path_of t) \<or> (\<exists>e n. q = L @ [e, n]))"

lemma confined_file: "confined env L v0 v \<Longrightarrow> admitReplayPath env t \<Longrightarrow> confined env L v0 (v(path_of t := x))"
  by (auto simp: confined_def)

lemma confined_log: "confined env L v0 v \<Longrightarrow> confined env L v0 (v(L @ [e, n] := x))"
  by (auto simp: confined_def)

definition targets_plain :: "'c host \<Rightarrow> replay_env \<Rightarrow> bool" where
  "targets_plain h env = (\<forall>t. admitReplayPath env t \<longrightarrow> path_of t \<notin> junk h)"

lemma keeps_is_dir: "keeps h E Q (is_dir d)"
  by (simp add: triple_def is_dir_def)

lemma keeps_read_manifest: "log_names h \<Longrightarrow> keeps h E Q (read_manifest d)"
proof -
  assume "log_names h"
  then have "manifest_path d \<notin> junk h" by (rule log_not_junk)
  then have "keeps h E Q (read_file (manifest_path d))"
    by (intro keeps_unmoved triple_weaken [OF vt_read_file]) auto
  then show ?thesis
    unfolding read_manifest_def by (intro keeps_bind keeps_attempt keeps_return)
qed

lemma confined_scan_entries:
  assumes "log_names h" "targets_plain h env"
  shows "keeps h {} (confined env L v0) (scan_entries env L cutoff es)"
proof (induction es)
  case Nil
  then show ?case by (simp add: keeps_return)
next
  case (Cons e es)
  have ops: "keeps h {} (confined env L v0) (replay_ops env (L @ [e]) ops)" for ops
    by (rule keeps_replay_ops [OF assms(1)])
      (use assms(2) in \<open>auto simp: targets_plain_def dest: replay_to_admitted intro: confined_file\<close>)
  have orphan: "keeps h {} (confined env L v0) (replayOrphan env (L @ [e]))"
    unfolding replayOrphan_def
    by (rule keeps_bind [OF keeps_read_manifest [OF assms(1)]]) (auto intro: keeps_return ops split: option.split)
  have gone: "keeps h {} (confined env L v0) (best_effort (remove_all (L @ [e])))"
    by (rule keeps_best_effort, rule keeps_remove_all) (auto intro: confined_log)
  have started: "keeps h {} (confined env L v0) (manifestStartedAt (L @ [e]))"
    unfolding manifestStartedAt_def by (rule keeps_bind [OF keeps_read_manifest [OF assms(1)] keeps_return(1)])
  have "keeps h {} (confined env L v0) (bind_io (replayOrphan env (L @ [e])) (\<lambda>r.
      bind_io (best_effort (remove_all (L @ [e]))) (\<lambda>_.
      bind_io (scan_entries env L cutoff es) (\<lambda>rs. return_io (r @ rs)))))"
    by (rule keeps_bind [OF orphan keeps_bind [OF gone keeps_bind [OF Cons keeps_return(1)]]])
  then show ?case
    unfolding scan_entries.simps
    by (intro keeps_bind [OF keeps_is_dir] keeps_bind [OF started] triple_if Cons)
qed

text \<open>
  C6. Whatever logs a scan finds, whatever calls fail and wherever it is cut short, it changes no
  file but those the boundary guard admits, by their clean absolute path, and the files inside
  the log directories; and every path it reports as restored is one that the guard admits.
\<close>

theorem scan_confined:
  assumes "good_names h" "log_names h" "proper h s" "targets_plain h env"
    and "ScanRecording env (Some ws) cutoff h s = (r, s1)"
  shows "(\<forall>q. q \<notin> junk h \<longrightarrow> reads s1 q = reads s q \<or> (\<exists>t. admitReplayPath env t \<and> q = path_of t) \<or>
            (\<exists>e n. q = ws @ [''.plumb'', ''tx-log'', e, n])) \<and>
         (\<forall>ts. r = Done ts \<longrightarrow> (\<forall>t \<in> set ts. admitReplayPath env t))"
proof
  let ?L = "ws @ [''.plumb'', ''tx-log'']"
  let ?K = "keeps h {} (confined env ?L (reads s))"
  have entries: "?K (scan_entries env ?L cutoff es)" for es
    by (rule confined_scan_entries [OF assms(2,4)])
  have "?K (case es of None \<Rightarrow> return_io [] | Some es \<Rightarrow> scan_entries env ?L cutoff (sort es))" for es
    by (cases es) (simp_all add: keeps_return entries)
  then have "?K (ScanRecording env (Some ws) cutoff)"
    unfolding ScanRecording_def option.case Let_def
    by (intro keeps_bind keeps_attempt keeps_unmoved [OF vt_stat_dir] keeps_unmoved [OF vt_read_names] triple_if keeps_return(1))
  moreover have "holds h {} (confined env ?L (reads s)) s"
    using assms(1,3) by (intro holdsI [where v = "reads s"]) (simp_all add: sees_def confined_def)
  ultimately have "holds h {} (confined env ?L (reads s)) s1"
    using tripleD [where h = h and s = s and s' = s1 and r = r and m = "ScanRecording env (Some ws) cutoff"] assms(5)
    by (cases r) auto
  then show "\<forall>q. q \<notin> junk h \<longrightarrow> reads s1 q = reads s q \<or> (\<exists>t. admitReplayPath env t \<and> q = path_of t) \<or>
      (\<exists>e n. q = ws @ [''.plumb'', ''tx-log'', e, n])"
    by (auto simp: holds_def sees_def confined_def)
  show "\<forall>ts. r = Done ts \<longrightarrow> (\<forall>t \<in> set ts. admitReplayPath env t)"
    using ScanRecording_admitted [of env "Some ws" cutoff] assms(5) unfolding answers_def by blast
qed

text \<open>A log someone put into the workspace, which would have \<open>/e\<close> overwritten.\<close>

definition tx_evil :: "tx_content os" where
  "tx_evil =
     \<lparr>inodes = (\<lambda>i. \<lparr>i_data = (if i = 2 then Text ''z'' else if i = 3 then
          Manifest (no_manifest\<lparr>tx_ops := [\<lparr>op_n = 0, op_path = ''/e'', op_perm = 420, op_snapshotted = True\<rparr>,
            \<lparr>op_n = 0, op_path = ''/w/a'', op_perm = 420, op_snapshotted = True\<rparr>]\<rparr>) else Text ''x''),
        i_synced = True, i_mode = 420, i_mtime = 0\<rparr>),
      now_dir = [[''w'', ''a''] \<mapsto> 0, [''e''] \<mapsto> 1, [''w'', ''.plumb'', ''tx-log'', ''1-1'', ''0-before''] \<mapsto> 2,
        [''w'', ''.plumb'', ''tx-log'', ''1-1'', ''manifest.json''] \<mapsto> 3],
      saved_dir = (\<lambda>_. None),
      now_dirs = (\<lambda>d. d \<in> set [[], [''w''], [''w'', ''.plumb''], [''w'', ''.plumb'', ''tx-log''], [''w'', ''.plumb'', ''tx-log'', ''1-1''], [''t'']]),
      saved_dirs = (\<lambda>_. True), next_inode = 4, time = 0, calls = 0, warnings = 0, cross_known = []\<rparr>"

lemma tx_evil_proper: "proper (tx_demo_host k) tx_evil"
proof (rule properI)
  show "tree tx_evil" by (auto simp: tree_def tx_evil_def append_eq_Cons_conv)
  show "now_dir tx_evil (d @ [temp_name (tx_demo_host k) n]) = None" for d n
    by (auto simp: tx_evil_def append_eq_Cons_conv Cons_eq_append_conv)
qed (auto simp: tx_evil_def split: if_splits)

lemma tx_demo_plain: "targets_plain (tx_demo_host k) tx_demo_env"
  using tx_demo_not_junk by (auto simp: targets_plain_def admitReplayPath_def tx_demo_env_def tx_demo_paths)

theorem scan_confined_witness:
  "\<exists>s. ScanRecording tx_demo_env (Some [''w'']) 100 (tx_demo_host (Some 1000)) tx_evil = (Done [''/w/a''], s) \<and>
     reads s [''w'', ''a''] = Some (Text ''z'') \<and> reads s [''e''] = Some (Text ''x'')"
proof -
  let ?h = "tx_demo_host (Some 1000)"
  let ?run = "ScanRecording tx_demo_env (Some [''w'']) 100 ?h tx_evil"
  obtain r s where run: "?run = (r, s)" by (cases ?run)
  have replay: "replay_to tx_demo_env d \<lparr>op_n = n, op_path = ''/w/a'', op_perm = m, op_snapshotted = True\<rparr> = Some ''/w/a''"
    "replay_to tx_demo_env d \<lparr>op_n = n, op_path = ''/e'', op_perm = m, op_snapshotted = True\<rparr> = None" for d n m
    using tx_demo_replay [of None]
    by (auto simp: replayable_def tx_demo_olds) (simp add: replay_to_def admitReplayPath_def tx_demo_env_def)
  have "case ?run of (r, s) \<Rightarrow> r = Done [''/w/a''] \<and> reads s [''w'', ''a''] = Some (Text ''z'')"
    by (simp add: tx_evil_def no_manifest_def tx_demo_eval replay tx_demo_real)
  then have c: "r = Done [''/w/a'']" "reads s [''w'', ''a''] = Some (Text ''z'')" unfolding run by simp_all
  have "[''e''] \<notin> junk ?h" using tx_demo_not_junk(3) .
  moreover have "path_of t \<noteq> [''e'']" if "admitReplayPath tx_demo_env t" for t
    using that by (auto simp: admitReplayPath_def tx_demo_env_def tx_demo_paths)
  moreover have "[''e''] \<noteq> [''w''] @ [''.plumb'', ''tx-log'', e, n]" for e n by simp
  ultimately have "reads s [''e''] = reads tx_evil [''e'']"
    using scan_confined [OF tx_demo_names tx_evil_proper tx_demo_plain run] by metis
  then have "reads s [''e''] = Some (Text ''x'')" by (simp add: reads_def tx_evil_def)
  with c run show ?thesis by blast
qed

end
