(* ===== verification/Plumb_Replace.thy ===== *)
theory Plumb_Replace
  imports Plumb_Braces Plumb_Walk Plumb_DirtyGuard "HOL-Library.List_Lexorder"
begin

text \<open>
  The tool that replaces text across a tree (\<open>internal/tools/find_replace.go\<close>): its arguments, the
  files it collects, the replacement of one file, and its workers as a machine that takes one step
  of one goroutine at a time. The regular expression engine, git, the answers of the rate limiter
  and the outcome of a write are parameters.
\<close>

section \<open>Arguments\<close>

datatype replace_error =
    Path_and_pattern_required
  | Not_admitted boundary_error
  | Invalid_regex string
  | Stat_failed string
  | Rate_limited
  | Uncommitted_changes string
  | Write_error string

record raw_replace_args =
  rw_path :: string
  rw_pattern :: string
  rw_replacement :: string
  rw_regex :: bool
  rw_glob :: string
  rw_case :: "bool option"
  rw_dry_run :: "bool option"
  rw_dirty_ok :: bool
  rw_max_files :: int
  rw_max_bytes :: int

record replace_args =
  ra_path :: string
  ra_pattern :: string
  ra_replacement :: string
  ra_regex :: bool
  ra_glob :: string
  ra_case :: bool
  ra_dry_run :: bool
  ra_dirty_ok :: bool
  ra_max_files :: int
  ra_max_bytes :: int

definition defaultMaxFileBytes :: int where
  "defaultMaxFileBytes = 50 * 1024 * 1024"

text \<open>\<open>allLower\<close> goes through the runes of the pattern; \<open>upper\<close> is the table of \<open>unicode.IsUpper\<close>.\<close>

function allLower :: "(nat \<Rightarrow> bool) \<Rightarrow> string \<Rightarrow> bool" where
  "allLower upper s =
     (if s = [] then True
      else (case decode_rune s of (r, n) \<Rightarrow> \<not> upper r \<and> allLower upper (drop (max 1 n) s)))"
  by pat_completeness auto
termination
  by (relation "measure (\<lambda>(u, s). length s)") (auto simp: length_greater_0_conv [symmetric] simp del: length_greater_0_conv)

declare allLower.simps [simp del]

definition parseFindReplaceArgs :: "raw_replace_args \<Rightarrow> replace_error + raw_replace_args" where
  "parseFindReplaceArgs a =
     (if rw_path a = [] \<or> rw_pattern a = [] then Inl Path_and_pattern_required else Inr a)"

definition applyFindReplaceDefaults :: "(nat \<Rightarrow> bool) \<Rightarrow> raw_replace_args \<Rightarrow> replace_args" where
  "applyFindReplaceDefaults upper a =
     \<lparr>ra_path = rw_path a, ra_pattern = rw_pattern a, ra_replacement = rw_replacement a,
      ra_regex = rw_regex a, ra_glob = rw_glob a,
      ra_case = (case rw_case a of None \<Rightarrow> \<not> allLower upper (rw_pattern a) | Some b \<Rightarrow> b),
      ra_dry_run = (case rw_dry_run a of None \<Rightarrow> True | Some b \<Rightarrow> b),
      ra_dirty_ok = rw_dirty_ok a,
      ra_max_files = (if rw_max_files a = 0 then 100 else rw_max_files a),
      ra_max_bytes = (if rw_max_bytes a = 0 then defaultMaxFileBytes else rw_max_bytes a)\<rparr>"

text \<open>
  A compiled regular expression: how often it matches, and the text with its matches replaced by
  a template and by a literal text. \<open>regexp.Compile\<close> is a parameter.
\<close>

record regex =
  rx_count :: "string \<Rightarrow> nat"
  rx_replace :: "string \<Rightarrow> string \<Rightarrow> string"
  rx_replace_literal :: "string \<Rightarrow> string \<Rightarrow> string"

definition quote_meta :: "string \<Rightarrow> string" where
  "quote_meta s = concat (map (\<lambda>c. if c \<in> set (CHR 0x5C # ''.+*?()|[]{}$'' @ [CHR 0x5E]) then [CHR 0x5C, c] else [c]) s)"

definition compileFindReplaceRegex :: "(string \<Rightarrow> regex option) \<Rightarrow> replace_args \<Rightarrow> replace_error + regex option" where
  "compileFindReplaceRegex compile a =
     (if ra_regex a then
        (case compile ((if ra_case a then [] else ''(?i)'') @ ra_pattern a) of
           None \<Rightarrow> Inl (Invalid_regex (ra_pattern a))
         | Some re \<Rightarrow> Inr (Some re))
      else if \<not> ra_case a then Inr (compile (''(?i)'' @ quote_meta (ra_pattern a)))
      else Inr None)"

section \<open>The files to look at\<close>

text \<open>The callback of the walk, with the files found so far.\<close>

definition rel_to :: "string \<Rightarrow> string \<Rightarrow> string" where
  "rel_to root path = (case Rel root path of None \<Rightarrow> [] | Some rel \<Rightarrow> rel)"

definition collect_entry :: "(string list \<Rightarrow> bool) \<Rightarrow> string \<Rightarrow> string \<Rightarrow> string \<Rightarrow> bool \<Rightarrow> nat \<Rightarrow> string list \<Rightarrow> fn_answer \<times> string list" where
  "collect_entry stopped root glob path isDir depth files =
     (if stopped files then (Stop, files)
      else if isDir then
        (if globLiteralPrefix glob \<noteq> [] \<and> path \<noteq> root \<and>
            \<not> dirCompatibleWithPrefix (rel_to root path) (globLiteralPrefix glob)
         then (SkipDir, files) else (Continue, files))
      else if glob \<noteq> [] \<and> \<not> Match glob (path_base path) \<and>
          doubleStarMatchFile glob (rel_to root path) \<noteq> Some True
      then (Continue, files)
      else (Continue, files @ [path]))"

definition collect_env :: "(string list \<Rightarrow> bool) \<Rightarrow> (string \<Rightarrow> string option) \<Rightarrow> file_system \<Rightarrow> string \<Rightarrow> string \<Rightarrow> string list walk_env" where
  "collect_env stopped rd fs root glob =
     \<lparr>we_read = rd, we_files = fs, we_cancelled = stopped, we_fn = collect_entry stopped root glob,
      we_withheld = (\<lambda>_ files. files)\<rparr>"

text \<open>What the path leads to is a parameter: nothing, a file or the tree below it.\<close>

definition findReplaceCollectFiles :: "(string list \<Rightarrow> bool) \<Rightarrow> (string \<Rightarrow> string option) \<Rightarrow> file_system \<Rightarrow>
    (string \<Rightarrow> bool) option \<Rightarrow> (string \<Rightarrow> tree option) \<Rightarrow> replace_args \<Rightarrow> replace_error + string list" where
  "findReplaceCollectFiles stopped rd fs guard stat a =
     (case stat (ra_path a) of
        None \<Rightarrow> Inl (Stat_failed (ra_path a))
      | Some (Directory es) \<Rightarrow>
          Inr (sort (snd (walk (collect_env stopped rd fs (ra_path a) (ra_glob a))
                 \<lparr>wo_root = ra_path a, wo_maxDepth = 0, wo_includeHidden = False, wo_respectIgnore = True,
                  wo_boundary = guard\<rparr> (Directory es) [])))
      | Some _ \<Rightarrow> Inr [ra_path a])"

section \<open>One file\<close>

definition applyFindReplace :: "string \<Rightarrow> replace_args \<Rightarrow> regex option \<Rightarrow> nat \<times> string" where
  "applyFindReplace data a re =
     (case re of
        Some r \<Rightarrow>
          (if rx_count r data = 0 then (0, [])
           else if ra_regex a then (rx_count r data, rx_replace r data (ra_replacement a))
           else (rx_count r data, rx_replace_literal r data (ra_replacement a)))
      | None \<Rightarrow>
          (if str_count data (ra_pattern a) = 0 then (0, [])
           else (str_count data (ra_pattern a), replace_all data (ra_pattern a) (ra_replacement a))))"

definition binarySniffBytes :: nat where
  "binarySniffBytes = 8000"

definition maxFindReplaceDiffBytes :: nat where
  "maxFindReplaceDiffBytes = 200 * 1024"

type_synonym text_disk = "string \<Rightarrow> string option"

definition findReplaceScanFile :: "text_disk \<Rightarrow> string \<Rightarrow> replace_args \<Rightarrow> regex option \<Rightarrow> bool \<Rightarrow> bool \<Rightarrow> nat \<times> string option \<times> string" where
  "findReplaceScanFile disk path a re wantDiff keepBefore =
     (case disk path of
        None \<Rightarrow> (0, None, [])
      | Some data \<Rightarrow>
          if ra_max_bytes a < int (length data) then (0, None, [])
          else if CHR 0x00 \<in> set (take binarySniffBytes data) then (0, None, [])
          else
            (case applyFindReplace data a re of
               (n, new) \<Rightarrow>
                 if n = 0 then (0, None, [])
                 else
                   (n, if keepBefore \<or> (wantDiff \<and> length data \<le> maxFindReplaceDiffBytes) then Some data else None,
                    new)))"

section \<open>The call up to its workers\<close>

definition find_replace_call :: "(nat \<Rightarrow> bool) \<Rightarrow> (string \<Rightarrow> regex option) \<Rightarrow> (string list \<Rightarrow> bool) \<Rightarrow> (string \<Rightarrow> string option) \<Rightarrow>
    file_system \<Rightarrow> (string \<Rightarrow> tree option) \<Rightarrow> path_policy option \<Rightarrow> (string \<Rightarrow> bool) option \<Rightarrow> string \<Rightarrow> bool \<Rightarrow>
    raw_replace_args \<Rightarrow> replace_error + replace_args \<times> regex option \<times> string list" where
  "find_replace_call upper compile stopped rd fs stat pol guard base contested raw =
     (case parseFindReplaceArgs raw of
        Inl e \<Rightarrow> Inl e
      | Inr raw' \<Rightarrow>
          (let a = applyFindReplaceDefaults upper raw' in
           case admit_write fs pol base contested (ra_path a) of
             Inl e \<Rightarrow> Inl (Not_admitted e)
           | Inr path \<Rightarrow>
               (let a = a\<lparr>ra_path := path\<rparr> in
                case compileFindReplaceRegex compile a of
                  Inl e \<Rightarrow> Inl e
                | Inr re \<Rightarrow>
                    (case findReplaceCollectFiles stopped rd fs guard stat a of
                       Inl e \<Rightarrow> Inl e
                     | Inr files \<Rightarrow> Inr (a, re, files)))))"

section \<open>The workers\<close>

record file_change =
  fc_path :: string
  fc_count :: nat
  fc_old :: "string option"
  fc_new :: string

text \<open>
  Where a worker is: waiting for a path, holding one it has not looked at, about to scan, to claim a
  slot of the budget, to write, to stop the run because the budget is used up, to give its slot back,
  to send a change or an error, or at its end.
\<close>

datatype worker =
    Idle
  | Got string
  | Scanning string
  | Claiming file_change
  | Writing string
  | Over_budget
  | Returning
  | Sending file_change
  | Failing replace_error
  | Gone

datatype result = Changed file_change | Failed replace_error

record run_config =
  cf_args :: replace_args
  cf_regex :: "regex option"
  cf_want_diff :: bool
  cf_git :: "string \<Rightarrow> string list \<Rightarrow> string option"
  cf_block_dirty :: bool
  cf_wrote :: "string \<Rightarrow> string \<Rightarrow> bool"

text \<open>
  The context of the workers is cancelled when the caller's is, or when a worker cancelled it.
  \<open>rp_log\<close> is what was written, with the text before and after; it is what history
  records.
\<close>

record replace_run =
  rp_disk :: text_disk
  rp_feed :: "string list"
  rp_feeding :: bool
  rp_workers :: "worker list"
  rp_claimed :: int
  rp_truncated :: bool
  rp_stopped :: bool
  rp_caller_gone :: bool
  rp_results :: "result list"
  rp_changes :: "file_change list"
  rp_errors :: "replace_error list"
  rp_total :: nat
  rp_log :: "(string \<times> string \<times> string) list"

definition worker_count :: "nat \<Rightarrow> string list \<Rightarrow> nat" where
  "worker_count cpus files = max 1 (min cpus (length files))"

definition start_run :: "nat \<Rightarrow> string list \<Rightarrow> text_disk \<Rightarrow> replace_run" where
  "start_run cpus files disk =
     \<lparr>rp_disk = disk, rp_feed = files, rp_feeding = True, rp_workers = replicate (worker_count cpus files) Idle,
      rp_claimed = 0, rp_truncated = False, rp_stopped = False, rp_caller_gone = False, rp_results = [], rp_changes = [],
      rp_errors = [], rp_total = 0, rp_log = []\<rparr>"

definition cancelled :: "replace_run \<Rightarrow> bool" where
  "cancelled s = (rp_stopped s \<or> rp_caller_gone s)"

definition goes :: "nat \<Rightarrow> worker \<Rightarrow> replace_run \<Rightarrow> replace_run" where
  "goes i w s = s\<lparr>rp_workers := (rp_workers s)[i := w]\<rparr>"

definition fails :: "nat \<Rightarrow> replace_error \<Rightarrow> replace_run \<Rightarrow> replace_run" where
  "fails i e s = goes i (Failing e) (s\<lparr>rp_stopped := True\<rparr>)"

definition worker_scan :: "run_config \<Rightarrow> nat \<Rightarrow> string \<Rightarrow> replace_run \<Rightarrow> replace_run" where
  "worker_scan cf i path s =
     (case findReplaceScanFile (rp_disk s) path (cf_args cf) (cf_regex cf) (cf_want_diff cf) False of
        (n, old, new) \<Rightarrow>
          if n = 0 then goes i Idle s
          else goes i (Claiming \<lparr>fc_path = path, fc_count = n,
                 fc_old = (if cf_want_diff cf then old else None), fc_new = (if cf_want_diff cf then new else [])\<rparr>) s)"

definition worker_claim :: "run_config \<Rightarrow> nat \<Rightarrow> file_change \<Rightarrow> replace_run \<Rightarrow> replace_run" where
  "worker_claim cf i fc s =
     (let s' = s\<lparr>rp_claimed := rp_claimed s + 1\<rparr> in
      if ra_max_files (cf_args cf) < rp_claimed s + 1 then
        goes i Over_budget s'
      else if ra_dry_run (cf_args cf) then goes i (Sending fc) s'
      else goes i (Writing (fc_path fc)) s')"

text \<open>git runs under the context of the workers: once that is cancelled it is killed and gives no answer.\<close>

definition dirty_refused :: "run_config \<Rightarrow> replace_run \<Rightarrow> string \<Rightarrow> bool" where
  "dirty_refused cf s path =
     (\<not> ra_dirty_ok (cf_args cf) \<and>
      dirtyBlocksWrite (if cancelled s then (\<lambda>_ _. None) else cf_git cf) (cf_block_dirty cf) (cf_wrote cf)
        (path_dir path) (path_base path))"

text \<open>
  \<open>findReplaceProcessFile\<close> under the lock of the file. \<open>allowed\<close> is the answer of the rate limiter
  and \<open>lands\<close> says that \<open>safeWrite\<close> succeeds.
\<close>

definition findReplaceProcessFile :: "run_config \<Rightarrow> nat \<Rightarrow> string \<Rightarrow> bool \<Rightarrow> bool \<Rightarrow> replace_run \<Rightarrow> replace_run" where
  "findReplaceProcessFile cf i path allowed lands s =
     (if \<not> allowed then fails i Rate_limited s
      else if dirty_refused cf s path then fails i (Uncommitted_changes path) s
      else
        (case findReplaceScanFile (rp_disk s) path (cf_args cf) (cf_regex cf) False True of
           (n, old, new) \<Rightarrow>
             if n = 0 then goes i Returning s
             else if \<not> lands then fails i (Write_error path) s
             else
               (let data = (case old of None \<Rightarrow> [] | Some d \<Rightarrow> d) in
                goes i (Sending \<lparr>fc_path = path, fc_count = n,
                    fc_old = (if cf_want_diff cf \<and> length data \<le> maxFindReplaceDiffBytes then old else None),
                    fc_new = (if cf_want_diff cf then new else [])\<rparr>)
                  (s\<lparr>rp_disk := (rp_disk s)(path \<mapsto> new), rp_log := rp_log s @ [(path, data, new)]\<rparr>))))"

datatype run_action =
    Hand_over nat
  | Stop_feeding
  | Look nat
  | Scan nat
  | Claim nat
  | Process nat bool bool
  | Truncate nat
  | Give_back nat
  | Send_result nat
  | Drop_result nat
  | Leave nat
  | Collect
  | Cancel_call
  | Outside string "string option"

definition at_worker :: "replace_run \<Rightarrow> nat \<Rightarrow> worker" where
  "at_worker s i = (if i < length (rp_workers s) then rp_workers s ! i else Gone)"

definition has_room :: "replace_run \<Rightarrow> bool" where
  "has_room s = (length (rp_results s) < length (rp_workers s))"

fun run_step :: "run_config \<Rightarrow> replace_run \<Rightarrow> run_action \<Rightarrow> replace_run option" where
  "run_step cf s (Hand_over i) =
     (case rp_feed s of
        [] \<Rightarrow> None
      | p # ps \<Rightarrow> if rp_feeding s \<and> at_worker s i = Idle then Some (goes i (Got p) (s\<lparr>rp_feed := ps\<rparr>)) else None)"
| "run_step cf s Stop_feeding =
     (if rp_feeding s \<and> (rp_feed s = [] \<or> cancelled s) then Some (s\<lparr>rp_feeding := False\<rparr>) else None)"
| "run_step cf s (Look i) =
     (case at_worker s i of
        Got p \<Rightarrow> Some (goes i (if cancelled s then Idle else Scanning p) s)
      | _ \<Rightarrow> None)"
| "run_step cf s (Scan i) =
     (case at_worker s i of Scanning p \<Rightarrow> Some (worker_scan cf i p s) | _ \<Rightarrow> None)"
| "run_step cf s (Claim i) =
     (case at_worker s i of Claiming fc \<Rightarrow> Some (worker_claim cf i fc s) | _ \<Rightarrow> None)"
| "run_step cf s (Process i allowed lands) =
     (case at_worker s i of Writing p \<Rightarrow> Some (findReplaceProcessFile cf i p allowed lands s) | _ \<Rightarrow> None)"
| "run_step cf s (Truncate i) =
     (case at_worker s i of
        Over_budget \<Rightarrow> Some (goes i Idle (s\<lparr>rp_truncated := True, rp_stopped := True\<rparr>))
      | _ \<Rightarrow> None)"
| "run_step cf s (Give_back i) =
     (case at_worker s i of Returning \<Rightarrow> Some (goes i Idle (s\<lparr>rp_claimed := rp_claimed s - 1\<rparr>)) | _ \<Rightarrow> None)"
| "run_step cf s (Send_result i) =
     (case at_worker s i of
        Sending fc \<Rightarrow> if has_room s then Some (goes i Idle (s\<lparr>rp_results := rp_results s @ [Changed fc]\<rparr>)) else None
      | Failing e \<Rightarrow> if has_room s then Some (goes i Idle (s\<lparr>rp_results := rp_results s @ [Failed e]\<rparr>)) else None
      | _ \<Rightarrow> None)"
| "run_step cf s (Drop_result i) =
     (case at_worker s i of
        Sending fc \<Rightarrow> if cancelled s then Some (goes i Idle s) else None
      | _ \<Rightarrow> None)"
| "run_step cf s (Leave i) =
     (if \<not> rp_feeding s \<and> at_worker s i = Idle then Some (goes i Gone s) else None)"
| "run_step cf s Collect =
     (case rp_results s of
        [] \<Rightarrow> None
      | Changed fc # rs \<Rightarrow>
          Some (s\<lparr>rp_results := rs, rp_changes := rp_changes s @ [fc], rp_total := rp_total s + fc_count fc\<rparr>)
      | Failed e # rs \<Rightarrow> Some (s\<lparr>rp_results := rs, rp_errors := rp_errors s @ [e]\<rparr>))"
| "run_step cf s Cancel_call = Some (s\<lparr>rp_caller_gone := True\<rparr>)"
| "run_step cf s (Outside p c) = Some (s\<lparr>rp_disk := (rp_disk s)(p := c)\<rparr>)"

text \<open>The loop over the results ends when all workers are gone and the channel is drained.\<close>

definition run_done :: "replace_run \<Rightarrow> bool" where
  "run_done s = (list_all (\<lambda>w. w = Gone) (rp_workers s) \<and> rp_results s = [])"

definition report :: "replace_run \<Rightarrow> file_change list \<times> replace_error list \<times> nat \<times> bool" where
  "report s = (sort_key fc_path (rp_changes s), rp_errors s, rp_total s, rp_truncated s)"

fun run_steps :: "run_config \<Rightarrow> replace_run \<Rightarrow> run_action list \<Rightarrow> replace_run option" where
  "run_steps cf s [] = Some s"
| "run_steps cf s (a # acts) = (case run_step cf s a of None \<Rightarrow> None | Some s' \<Rightarrow> run_steps cf s' acts)"

inductive running :: "run_config \<Rightarrow> nat \<Rightarrow> string list \<Rightarrow> replace_run \<Rightarrow> bool" for cf cpus files where
  run_start: "running cf cpus files (start_run cpus files disk)"
| run_goes: "running cf cpus files s \<Longrightarrow> run_step cf s a = Some s' \<Longrightarrow> running cf cpus files s'"

end
