(* ===== verification/Plumb_Replace_Correct.thy ===== *)
theory Plumb_Replace_Correct
  imports Plumb_Replace "HOL-Library.Multiset"
begin

text \<open>
  The invariants of a run of find_replace. Each worker has its part of a sum over all workers; a step
  changes one worker, so it changes the sum by the difference of two parts.
\<close>

section \<open>Sums over the workers\<close>

definition over_workers :: "(worker \<Rightarrow> 'a :: comm_monoid_add) \<Rightarrow> replace_run \<Rightarrow> 'a" where
  "over_workers f s = sum_list (map f (rp_workers s))"

lemma sum_list_update_one:
  fixes f :: "'b \<Rightarrow> 'a :: comm_monoid_add"
  shows "i < length ws \<Longrightarrow> sum_list (map f (ws[i := w])) + f (ws ! i) = sum_list (map f ws) + f w"
proof (induction ws arbitrary: i)
  case (Cons v ws)
  show ?case
  proof (cases i)
    case 0
    then show ?thesis by (simp add: ac_simps)
  next
    case (Suc j)
    with Cons.IH [of j] Cons.prems show ?thesis by (simp add: add.assoc)
  qed
qed simp

lemma at_worker_live: "at_worker s i = w \<Longrightarrow> w \<noteq> Gone \<Longrightarrow> i < length (rp_workers s) \<and> rp_workers s ! i = w"
  by (auto simp: at_worker_def split: if_splits)

lemma over_workers_goes:
  assumes "at_worker s i = w" "w \<noteq> Gone" "rp_workers s' = rp_workers s"
  shows "over_workers f (goes i v s') + f w = over_workers f s + f v"
  using sum_list_update_one [of i "rp_workers s" f v] at_worker_live [OF assms(1,2)] assms(3)
  by (simp add: over_workers_def goes_def)

lemma goes_fields [simp]:
  "rp_disk (goes i w s) = rp_disk s" "rp_feed (goes i w s) = rp_feed s" "rp_feeding (goes i w s) = rp_feeding s"
  "rp_claimed (goes i w s) = rp_claimed s" "rp_truncated (goes i w s) = rp_truncated s"
  "rp_stopped (goes i w s) = rp_stopped s" "rp_caller_gone (goes i w s) = rp_caller_gone s"
  "rp_results (goes i w s) = rp_results s" "rp_changes (goes i w s) = rp_changes s"
  "rp_errors (goes i w s) = rp_errors s" "rp_total (goes i w s) = rp_total s" "rp_log (goes i w s) = rp_log s"
  "length (rp_workers (goes i w s)) = length (rp_workers s)" "cancelled (goes i w s) = cancelled s"
  by (simp_all add: goes_def cancelled_def)

section \<open>What one worker does\<close>

text \<open>The text a file is replaced by, if it is to be replaced at all.\<close>

definition replaces :: "run_config \<Rightarrow> string \<Rightarrow> nat \<Rightarrow> string \<Rightarrow> bool" where
  "replaces cf data n new =
     (applyFindReplace data (cf_args cf) (cf_regex cf) = (n, new) \<and> n \<noteq> 0 \<and>
      int (length data) \<le> ra_max_bytes (cf_args cf) \<and> CHR 0x00 \<notin> set (take binarySniffBytes data))"

definition change_of :: "run_config \<Rightarrow> string \<times> string \<times> string \<Rightarrow> file_change" where
  "change_of cf = (\<lambda>(path, data, new).
     \<lparr>fc_path = path, fc_count = fst (applyFindReplace data (cf_args cf) (cf_regex cf)),
      fc_old = (if cf_want_diff cf \<and> length data \<le> maxFindReplaceDiffBytes then Some data else None),
      fc_new = (if cf_want_diff cf then new else [])\<rparr>)"

lemma scan_finds:
  assumes "findReplaceScanFile disk path (cf_args cf) (cf_regex cf) False True = (n, old, new)" "n \<noteq> 0"
  shows "\<exists>data. disk path = Some data \<and> old = Some data \<and> replaces cf data n new"
  using assms by (auto simp: findReplaceScanFile_def replaces_def split: option.splits if_splits prod.splits)

text \<open>The outcomes of processing a file, with the condition of a write.\<close>

lemma process_cases:
  obtains (fails) e where "findReplaceProcessFile cf i p allowed lands s = fails i e s"
  | (no_match) "findReplaceProcessFile cf i p allowed lands s = goes i Returning s"
  | (written) data n new where
      "findReplaceProcessFile cf i p allowed lands s =
         goes i (Sending (change_of cf (p, data, new)))
           (s\<lparr>rp_disk := (rp_disk s)(p \<mapsto> new), rp_log := rp_log s @ [(p, data, new)]\<rparr>)"
      "rp_disk s p = Some data" "replaces cf data n new" "allowed" "lands"
      "\<not> dirty_refused cf s p"
proof -
  obtain n old new where scan: "findReplaceScanFile (rp_disk s) p (cf_args cf) (cf_regex cf) False True = (n, old, new)"
    by (metis prod_cases3)
  consider "\<not> allowed" | "allowed" "dirty_refused cf s p" | "allowed" "\<not> dirty_refused cf s p" "n = 0"
    | "allowed" "\<not> dirty_refused cf s p" "n \<noteq> 0" "\<not> lands" | "allowed" "\<not> dirty_refused cf s p" "n \<noteq> 0" "lands" by blast
  then show ?thesis
  proof cases
    case 5
    from scan_finds [OF scan 5(3)] obtain data where
      data: "rp_disk s p = Some data" "old = Some data" "replaces cf data n new" by blast
    have "findReplaceProcessFile cf i p allowed lands s =
         goes i (Sending (change_of cf (p, data, new)))
           (s\<lparr>rp_disk := (rp_disk s)(p \<mapsto> new), rp_log := rp_log s @ [(p, data, new)]\<rparr>)"
      using 5 data by (simp add: findReplaceProcessFile_def scan change_of_def replaces_def Let_def)
    then show ?thesis using data 5 by (intro written) auto
  qed (auto simp: findReplaceProcessFile_def scan intro: fails no_match)
qed

lemma scan_cases:
  obtains (none) "worker_scan cf i p s = goes i Idle s"
  | (some) fc where "worker_scan cf i p s = goes i (Claiming fc) s" "fc_path fc = p"
proof -
  obtain n old new where
    "findReplaceScanFile (rp_disk s) p (cf_args cf) (cf_regex cf) (cf_want_diff cf) False = (n, old, new)"
    by (metis prod_cases3)
  then show ?thesis
    by (cases "n = 0") (auto simp: worker_scan_def intro: none some)
qed

lemma claim_cases:
  obtains (over) "worker_claim cf i fc s = goes i Over_budget (s\<lparr>rp_claimed := rp_claimed s + 1\<rparr>)"
      "ra_max_files (cf_args cf) < rp_claimed s + 1"
  | (preview) "worker_claim cf i fc s = goes i (Sending fc) (s\<lparr>rp_claimed := rp_claimed s + 1\<rparr>)"
      "rp_claimed s + 1 \<le> ra_max_files (cf_args cf)" "ra_dry_run (cf_args cf)"
  | (slot) "worker_claim cf i fc s = goes i (Writing (fc_path fc)) (s\<lparr>rp_claimed := rp_claimed s + 1\<rparr>)"
      "rp_claimed s + 1 \<le> ra_max_files (cf_args cf)" "\<not> ra_dry_run (cf_args cf)"
proof -
  consider "ra_max_files (cf_args cf) < rp_claimed s + 1" | "rp_claimed s + 1 \<le> ra_max_files (cf_args cf)" "ra_dry_run (cf_args cf)"
    | "rp_claimed s + 1 \<le> ra_max_files (cf_args cf)" "\<not> ra_dry_run (cf_args cf)" by linarith
  then show ?thesis by cases (auto simp: worker_claim_def intro: over preview slot)
qed

text \<open>Every step of a run, one case for what it does to the state.\<close>

lemma step_cases [consumes 1]:
  assumes "run_step cf s a = Some s'"
  obtains (hand_over) i p ps where "rp_feed s = p # ps" "rp_feeding s" "at_worker s i = Idle" "s' = goes i (Got p) (s\<lparr>rp_feed := ps\<rparr>)"
  | (stop_feeding) "rp_feeding s" "rp_feed s = [] \<or> cancelled s" "s' = s\<lparr>rp_feeding := False\<rparr>"
  | (skips) i p where "at_worker s i = Got p" "cancelled s" "s' = goes i Idle s"
  | (looks) i p where "at_worker s i = Got p" "\<not> cancelled s" "s' = goes i (Scanning p) s"
  | (unmatched) i p where "at_worker s i = Scanning p" "s' = goes i Idle s"
  | (found) i p fc where "at_worker s i = Scanning p" "s' = goes i (Claiming fc) s" "fc_path fc = p"
  | (over) i fc where "at_worker s i = Claiming fc" "s' = goes i Over_budget (s\<lparr>rp_claimed := rp_claimed s + 1\<rparr>)"
  | (preview) i fc where "at_worker s i = Claiming fc" "s' = goes i (Sending fc) (s\<lparr>rp_claimed := rp_claimed s + 1\<rparr>)"
      "rp_claimed s + 1 \<le> ra_max_files (cf_args cf)" "ra_dry_run (cf_args cf)"
  | (slot) i fc where "at_worker s i = Claiming fc" "s' = goes i (Writing (fc_path fc)) (s\<lparr>rp_claimed := rp_claimed s + 1\<rparr>)"
      "rp_claimed s + 1 \<le> ra_max_files (cf_args cf)" "\<not> ra_dry_run (cf_args cf)"
  | (fails) i p e where "at_worker s i = Writing p" "s' = goes i (Failing e) (s\<lparr>rp_stopped := True\<rparr>)"
  | (no_match) i p where "at_worker s i = Writing p" "s' = goes i Returning s"
  | (written) i p data n new where "at_worker s i = Writing p"
      "s' = goes i (Sending (change_of cf (p, data, new)))
           (s\<lparr>rp_disk := (rp_disk s)(p \<mapsto> new), rp_log := rp_log s @ [(p, data, new)]\<rparr>)"
      "rp_disk s p = Some data" "replaces cf data n new"
      "\<not> dirty_refused cf s p"
  | (truncates) i where "at_worker s i = Over_budget" "s' = goes i Idle (s\<lparr>rp_truncated := True, rp_stopped := True\<rparr>)"
  | (gives_back) i where "at_worker s i = Returning" "s' = goes i Idle (s\<lparr>rp_claimed := rp_claimed s - 1\<rparr>)"
  | (sends) i fc where "at_worker s i = Sending fc" "has_room s" "s' = goes i Idle (s\<lparr>rp_results := rp_results s @ [Changed fc]\<rparr>)"
  | (sends_error) i e where "at_worker s i = Failing e" "has_room s" "s' = goes i Idle (s\<lparr>rp_results := rp_results s @ [Failed e]\<rparr>)"
  | (drops) i fc where "at_worker s i = Sending fc" "cancelled s" "s' = goes i Idle s"
  | (leaves) i where "at_worker s i = Idle" "\<not> rp_feeding s" "s' = goes i Gone s"
  | (collects) fc rs where "rp_results s = Changed fc # rs"
      "s' = s\<lparr>rp_results := rs, rp_changes := rp_changes s @ [fc], rp_total := rp_total s + fc_count fc\<rparr>"
  | (collects_error) e rs where "rp_results s = Failed e # rs" "s' = s\<lparr>rp_results := rs, rp_errors := rp_errors s @ [e]\<rparr>"
  | (caller_cancels) "s' = s\<lparr>rp_caller_gone := True\<rparr>" "a = Cancel_call"
  | (outside) p c where "s' = s\<lparr>rp_disk := (rp_disk s)(p := c)\<rparr>" "a = Outside p c"
proof (cases a)
  case (Process i allowed lands)
  with assms obtain p where w: "at_worker s i = Writing p" "s' = findReplaceProcessFile cf i p allowed lands s"
    by (auto split: worker.splits)
  show ?thesis
    using w by (cases rule: process_cases [of cf i p allowed lands s]) (auto simp: fails_def intro: fails no_match written)
next
  case (Scan i)
  with assms obtain p where w: "at_worker s i = Scanning p" "s' = worker_scan cf i p s" by (auto split: worker.splits)
  from scan_cases [of cf i p s] w unmatched [of i p] found [of i p] show ?thesis by metis
next
  case (Claim i)
  with assms obtain fc where w: "at_worker s i = Claiming fc" "s' = worker_claim cf i fc s" by (auto split: worker.splits)
  from claim_cases [of cf i fc s] w over [of i fc] preview [of i fc] slot [of i fc] show ?thesis by metis
next
  case (Hand_over i)
  with assms show ?thesis by (auto split: worker.splits list.splits if_splits result.splits intro: hand_over)
next
  case Stop_feeding
  with assms show ?thesis by (auto split: worker.splits list.splits if_splits result.splits intro: stop_feeding)
next
  case (Look i)
  with assms show ?thesis by (auto split: worker.splits list.splits if_splits result.splits intro: skips [of i] looks [of i])
next
  case (Truncate i)
  with assms show ?thesis by (auto split: worker.splits list.splits if_splits result.splits intro: truncates [of i])
next
  case (Give_back i)
  with assms show ?thesis by (auto split: worker.splits list.splits if_splits result.splits intro: gives_back [of i])
next
  case (Drop_result i)
  with assms show ?thesis by (auto split: worker.splits list.splits if_splits result.splits intro: drops [of i])
next
  case (Leave i)
  with assms show ?thesis by (auto split: worker.splits list.splits if_splits result.splits intro: leaves [of i])
next
  case Collect
  with assms show ?thesis by (auto split: worker.splits list.splits if_splits result.splits intro: collects collects_error)
next
  case Cancel_call
  with assms show ?thesis by (auto split: worker.splits list.splits if_splits result.splits intro: caller_cancels)
next
  case (Outside p c)
  with assms show ?thesis by (auto split: worker.splits list.splits if_splits result.splits intro: outside [of p c])
next
  case (Send_result i)
  with assms consider fc where "at_worker s i = Sending fc" "has_room s" "s' = goes i Idle (s\<lparr>rp_results := rp_results s @ [Changed fc]\<rparr>)"
    | e where "at_worker s i = Failing e" "has_room s" "s' = goes i Idle (s\<lparr>rp_results := rp_results s @ [Failed e]\<rparr>)"
    by (auto split: worker.splits if_splits)
  then show ?thesis by cases (auto intro: sends sends_error)
qed

section \<open>Invariants\<close>

lemma over_workers_fields [simp]:
  "over_workers f (s\<lparr>rp_disk := x1\<rparr>) = over_workers f s" "over_workers f (s\<lparr>rp_feed := x2\<rparr>) = over_workers f s"
  "over_workers f (s\<lparr>rp_feeding := x3\<rparr>) = over_workers f s" "over_workers f (s\<lparr>rp_claimed := x4\<rparr>) = over_workers f s"
  "over_workers f (s\<lparr>rp_truncated := x5\<rparr>) = over_workers f s" "over_workers f (s\<lparr>rp_stopped := x6\<rparr>) = over_workers f s"
  "over_workers f (s\<lparr>rp_caller_gone := x7\<rparr>) = over_workers f s" "over_workers f (s\<lparr>rp_results := x8\<rparr>) = over_workers f s"
  "over_workers f (s\<lparr>rp_changes := x9\<rparr>) = over_workers f s" "over_workers f (s\<lparr>rp_errors := y1\<rparr>) = over_workers f s"
  "over_workers f (s\<lparr>rp_total := y2\<rparr>) = over_workers f s" "over_workers f (s\<lparr>rp_log := y3\<rparr>) = over_workers f s"
  by (simp_all add: over_workers_def)

lemma at_worker_fields [simp]:
  "at_worker (s\<lparr>rp_disk := x1\<rparr>) i = at_worker s i" "at_worker (s\<lparr>rp_feed := x2\<rparr>) i = at_worker s i"
  "at_worker (s\<lparr>rp_feeding := x3\<rparr>) i = at_worker s i" "at_worker (s\<lparr>rp_claimed := x4\<rparr>) i = at_worker s i"
  "at_worker (s\<lparr>rp_truncated := x5\<rparr>) i = at_worker s i" "at_worker (s\<lparr>rp_stopped := x6\<rparr>) i = at_worker s i"
  "at_worker (s\<lparr>rp_caller_gone := x7\<rparr>) i = at_worker s i" "at_worker (s\<lparr>rp_results := x8\<rparr>) i = at_worker s i"
  "at_worker (s\<lparr>rp_changes := x9\<rparr>) i = at_worker s i" "at_worker (s\<lparr>rp_errors := y1\<rparr>) i = at_worker s i"
  "at_worker (s\<lparr>rp_total := y2\<rparr>) i = at_worker s i" "at_worker (s\<lparr>rp_log := y3\<rparr>) i = at_worker s i"
  by (simp_all add: at_worker_def)

lemma over_workers_moves [simp]:
  fixes f :: "worker \<Rightarrow> int"
  assumes "at_worker s i \<noteq> Gone"
  shows "over_workers f (goes i v s) = over_workers f s + f v - f (at_worker s i)"
  using over_workers_goes [of s i "at_worker s i" s f v] assms by (simp add: algebra_simps)

lemma over_workers_nonneg:
  fixes f :: "worker \<Rightarrow> int"
  assumes "\<And>w. 0 \<le> f w"
  shows "0 \<le> over_workers f s"
  unfolding over_workers_def by (rule sum_list_nonneg) (use assms in auto)

lemma over_workers_part:
  fixes f :: "worker \<Rightarrow> int"
  assumes "\<And>w. 0 \<le> f w" "f Gone = 0" "at_worker s i \<noteq> Gone"
  shows "f (at_worker s i) \<le> over_workers f s"
  using over_workers_nonneg [of f "goes i Gone s"] assms by simp

text \<open>Slots of the budget in use, and previews on their way.\<close>

fun slots :: "worker \<Rightarrow> int" where
  "slots (Writing p) = 1"
| "slots Returning = 1"
| "slots _ = 0"

fun sending :: "worker \<Rightarrow> int" where
  "sending (Sending fc) = 1"
| "sending _ = 0"

fun changed :: "result \<Rightarrow> file_change list" where
  "changed (Changed fc) = [fc]"
| "changed (Failed e) = []"

fun failed :: "result \<Rightarrow> replace_error list" where
  "failed (Changed fc) = []"
| "failed (Failed e) = [e]"

definition in_use :: "replace_run \<Rightarrow> int" where
  "in_use s = over_workers slots s + int (length (rp_log s))"

definition displayed :: "replace_run \<Rightarrow> int" where
  "displayed s = over_workers sending s + int (length (concat (map changed (rp_results s)))) + int (length (rp_changes s))"

lemma slots_nonneg: "0 \<le> slots w"
  by (cases w) simp_all

lemma sending_nonneg: "0 \<le> sending w"
  by (cases w) simp_all

lemma start_workers: "f Idle = 0 \<Longrightarrow> over_workers f (start_run cpus files disk) = (0 :: int)"
  by (simp add: over_workers_def start_run_def sum_list_replicate)

lemma budget_step:
  assumes "run_step cf s a = Some s'" "in_use s \<le> rp_claimed s" "in_use s \<le> max 0 (ra_max_files (cf_args cf))"
  shows "in_use s' \<le> rp_claimed s' \<and> in_use s' \<le> max 0 (ra_max_files (cf_args cf))"
  using assms by (cases rule: step_cases) (auto simp: in_use_def)

lemma budget_kept: "running cf cpus files s \<Longrightarrow> in_use s \<le> rp_claimed s \<and> in_use s \<le> max 0 (ra_max_files (cf_args cf))"
proof (induction rule: running.induct)
  case (run_start disk)
  show ?case by (simp add: in_use_def start_workers) (simp add: start_run_def)
qed (use budget_step in blast)

lemma preview_step:
  assumes "run_step cf s a = Some s'" "ra_dry_run (cf_args cf)" "in_use s = 0"
    "displayed s \<le> rp_claimed s" "displayed s \<le> max 0 (ra_max_files (cf_args cf))"
  shows "in_use s' = 0 \<and> displayed s' \<le> rp_claimed s' \<and> displayed s' \<le> max 0 (ra_max_files (cf_args cf))"
proof -
  have "\<not> (\<exists>i. slots (at_worker s i) = 1)"
  proof
    assume "\<exists>i. slots (at_worker s i) = 1"
    then obtain i where i: "slots (at_worker s i) = 1" by blast
    then have "at_worker s i \<noteq> Gone" by auto
    from over_workers_part [of slots, OF slots_nonneg _ this] i assms(3) show False by (simp add: in_use_def)
  qed
  then have "at_worker s i \<noteq> Writing p \<and> at_worker s i \<noteq> Returning" for i p by (metis slots.simps(1,2))
  with assms show ?thesis by (cases rule: step_cases) (auto simp: in_use_def displayed_def)
qed

lemma preview_kept:
  "running cf cpus files s \<Longrightarrow> ra_dry_run (cf_args cf) \<Longrightarrow>
     in_use s = 0 \<and> displayed s \<le> rp_claimed s \<and> displayed s \<le> max 0 (ra_max_files (cf_args cf))"
proof (induction rule: running.induct)
  case (run_start disk)
  show ?case by (simp add: in_use_def displayed_def start_workers) (simp add: start_run_def)
qed (use preview_step in blast)

text \<open>Where a file of the list is: still to come, with a worker, or written.\<close>

fun held_path :: "string \<Rightarrow> worker \<Rightarrow> int" where
  "held_path x (Got p) = of_bool (p = x)"
| "held_path x (Scanning p) = of_bool (p = x)"
| "held_path x (Claiming fc) = of_bool (fc_path fc = x)"
| "held_path x (Writing p) = of_bool (p = x)"
| "held_path x _ = 0"

definition places :: "string \<Rightarrow> replace_run \<Rightarrow> int" where
  "places x s = int (count (mset (rp_feed s)) x) + over_workers (held_path x) s + int (count (mset (map fst (rp_log s))) x)"

lemma held_nonneg: "0 \<le> held_path x w"
  by (cases w) simp_all

lemma places_step:
  assumes "run_step cf s a = Some s'"
  shows "places x s' \<le> places x s"
  using assms by (cases rule: step_cases) (auto simp: places_def)

lemma places_kept: "running cf cpus files s \<Longrightarrow> places x s \<le> int (count (mset files) x)"
proof (induction rule: running.induct)
  case (run_start disk)
  show ?case by (simp add: places_def start_workers) (simp add: start_run_def)
next
  case (run_goes s a s')
  with places_step [of cf s a s' x] show ?case by simp
qed

lemma written_are_listed: "running cf cpus files s \<Longrightarrow> mset (map fst (rp_log s)) \<subseteq># mset files"
proof (rule mset_subset_eqI)
  fix x
  assume "running cf cpus files s"
  from places_kept [OF this, of x] over_workers_nonneg [of "held_path x" s] held_nonneg
  show "count (mset (map fst (rp_log s))) x \<le> count (mset files) x" by (simp add: places_def)
qed

text \<open>What was written and what of it is on its way to the report.\<close>

fun sent_change :: "file_change \<Rightarrow> worker \<Rightarrow> int" where
  "sent_change c (Sending fc) = of_bool (fc = c)"
| "sent_change c _ = 0"

definition told :: "file_change \<Rightarrow> replace_run \<Rightarrow> int" where
  "told c s = over_workers (sent_change c) s + int (count (mset (concat (map changed (rp_results s)))) c) +
     int (count (mset (rp_changes s)) c)"

definition done_changes :: "run_config \<Rightarrow> file_change \<Rightarrow> replace_run \<Rightarrow> int" where
  "done_changes cf c s = int (count (mset (map (change_of cf) (rp_log s))) c)"

lemma sent_nonneg: "0 \<le> sent_change c w"
  by (cases w) simp_all

lemma cancelled_stays:
  assumes "run_step cf s a = Some s'" "cancelled s"
  shows "cancelled s'"
  using assms by (cases rule: step_cases) (auto simp: cancelled_def)

lemma told_step:
  assumes "run_step cf s a = Some s'" "\<not> ra_dry_run (cf_args cf)"
  shows "told c s' - told c s \<le> done_changes cf c s' - done_changes cf c s \<and>
    (\<not> cancelled s' \<longrightarrow> told c s' - told c s = done_changes cf c s' - done_changes cf c s)"
  using assms by (cases rule: step_cases) (auto simp: told_def done_changes_def cancelled_def)

lemma told_kept:
  "running cf cpus files s \<Longrightarrow> \<not> ra_dry_run (cf_args cf) \<Longrightarrow>
     told c s \<le> done_changes cf c s \<and> (\<not> cancelled s \<longrightarrow> told c s = done_changes cf c s)"
proof (induction rule: running.induct)
  case (run_start disk)
  show ?case by (simp add: told_def done_changes_def start_workers) (simp add: start_run_def)
next
  case (run_goes s a s')
  with told_step [OF run_goes.hyps(2), of c] cancelled_stays [OF run_goes.hyps(2)] show ?case by auto
qed

lemma total_kept: "running cf cpus files s \<Longrightarrow> rp_total s = sum_list (map fc_count (rp_changes s))"
proof (induction rule: running.induct)
  case (run_goes s a s')
  from run_goes.hyps(2) run_goes.IH show ?case by (cases rule: step_cases) auto
qed (simp add: start_run_def)

text \<open>Errors on their way to the report; none is lost, and a worker stops the run for a reason.\<close>

fun failing :: "worker \<Rightarrow> int" where
  "failing (Failing e) = 1"
| "failing _ = 0"

definition errors_of :: "replace_run \<Rightarrow> int" where
  "errors_of s = over_workers failing s + int (length (concat (map failed (rp_results s)))) + int (length (rp_errors s))"

lemma failing_nonneg: "0 \<le> failing w"
  by (cases w) simp_all

lemma stopped_step:
  assumes "run_step cf s a = Some s'" "0 \<le> errors_of s" "rp_stopped s \<longrightarrow> rp_truncated s \<or> 0 < errors_of s"
  shows "rp_stopped s' \<longrightarrow> rp_truncated s' \<or> 0 < errors_of s'"
  using assms by (cases rule: step_cases) (auto simp: errors_of_def)

lemma errors_nonneg: "0 \<le> errors_of s"
  using over_workers_nonneg [of failing s] failing_nonneg by (simp add: errors_of_def)

lemma stopped_kept: "running cf cpus files s \<Longrightarrow> rp_stopped s \<longrightarrow> rp_truncated s \<or> 0 < errors_of s"
proof (induction rule: running.induct)
  case (run_goes s a s')
  from stopped_step [OF run_goes.hyps(2) errors_nonneg run_goes.IH] show ?case .
qed (simp add: start_run_def)

text \<open>What is known of every file that was written.\<close>

definition rightly_written :: "run_config \<Rightarrow> replace_run \<Rightarrow> string \<times> string \<times> string \<Rightarrow> bool" where
  "rightly_written cf s = (\<lambda>(p, data, new). (\<exists>n. replaces cf data n new) \<and>
     (ra_dirty_ok (cf_args cf) \<or> cancelled s \<or>
      \<not> dirtyBlocksWrite (cf_git cf) (cf_block_dirty cf) (cf_wrote cf) (path_dir p) (path_base p)))"

lemma rightly_mono: "run_step cf s a = Some s' \<Longrightarrow> rightly_written cf s e \<Longrightarrow> rightly_written cf s' e"
  using cancelled_stays by (fastforce simp: rightly_written_def split: prod.splits)

lemma log_step:
  assumes "run_step cf s a = Some s'"
  shows "rp_log s' = rp_log s \<or> (\<exists>e. rp_log s' = rp_log s @ [e] \<and> rightly_written cf s e)"
  using assms by (cases rule: step_cases) (auto simp: rightly_written_def dirty_refused_def)

lemma log_right: "running cf cpus files s \<Longrightarrow> \<forall>e \<in> set (rp_log s). rightly_written cf s e"
proof (induction rule: running.induct)
  case (run_goes s a s')
  with log_step [OF run_goes.hyps(2)] rightly_mono [OF run_goes.hyps(2)] show ?case by auto
qed (simp add: start_run_def)

lemma feed_kept: "running cf cpus files s \<Longrightarrow> rp_feeding s \<or> rp_feed s = [] \<or> cancelled s"
proof (induction rule: running.induct)
  case (run_goes s a s')
  from run_goes.hyps(2) run_goes.IH show ?case by (cases rule: step_cases) (auto simp: cancelled_def)
qed (simp add: start_run_def)

lemma workers_step:
  assumes "run_step cf s a = Some s'"
  shows "length (rp_workers s') = length (rp_workers s)"
  using assms by (cases rule: step_cases) auto

lemma workers_kept: "running cf cpus files s \<Longrightarrow> length (rp_workers s) = worker_count cpus files"
proof (induction rule: running.induct)
  case (run_goes s a s')
  with workers_step [OF run_goes.hyps(2)] show ?case by simp
qed (simp add: start_run_def)

lemma worker_count_pos: "0 < worker_count cpus files"
  by (simp add: worker_count_def)

text \<open>A worker is gone only when no more paths come.\<close>

lemma gone_step:
  assumes "run_step cf s a = Some s'" "Gone \<in> set (rp_workers s) \<longrightarrow> \<not> rp_feeding s"
  shows "Gone \<in> set (rp_workers s') \<longrightarrow> \<not> rp_feeding s'"
  using assms by (cases rule: step_cases) (auto simp: goes_def dest!: set_update_subset_insert [THEN subsetD])

lemma gone_kept: "running cf cpus files s \<Longrightarrow> Gone \<in> set (rp_workers s) \<Longrightarrow> \<not> rp_feeding s"
proof (induction rule: running.induct)
  case (run_start disk)
  then show ?case by (auto simp: start_run_def)
next
  case (run_goes s a s')
  with gone_step [OF run_goes.hyps(2)] show ?case by blast
qed

lemma done_not_feeding:
  assumes "running cf cpus files s" "run_done s"
  shows "\<not> rp_feeding s"
proof (rule gone_kept [OF assms(1)])
  have "rp_workers s \<noteq> []" using workers_kept [OF assms(1)] worker_count_pos [of cpus files] by auto
  with assms(2) show "Gone \<in> set (rp_workers s)" by (cases "rp_workers s") (auto simp: run_done_def)
qed

section \<open>Every run ends\<close>

text \<open>The steps of the program itself; the others are those of the caller and of other programs.\<close>

fun own_step :: "run_action \<Rightarrow> bool" where
  "own_step Cancel_call = False"
| "own_step (Outside p c) = False"
| "own_step _ = True"

text \<open>What is left to do, an upper bound for the steps to come.\<close>

fun steps_left :: "worker \<Rightarrow> int" where
  "steps_left (Got p) = 7"
| "steps_left (Scanning p) = 6"
| "steps_left (Claiming fc) = 5"
| "steps_left (Writing p) = 4"
| "steps_left Over_budget = 3"
| "steps_left Returning = 3"
| "steps_left (Sending fc) = 3"
| "steps_left (Failing e) = 3"
| "steps_left Idle = 1"
| "steps_left Gone = 0"

definition work :: "replace_run \<Rightarrow> int" where
  "work s = 8 * int (length (rp_feed s)) + over_workers steps_left s + int (length (rp_results s)) + of_bool (rp_feeding s)"

lemma work_step:
  assumes "run_step cf s a = Some s'"
  shows "work s' \<le> work s - of_bool (own_step a)"
  using assms by (cases rule: step_cases) (auto simp: work_def)

lemma work_nonneg: "0 \<le> work s"
proof -
  have "0 \<le> over_workers steps_left s" by (rule over_workers_nonneg) (metis (full_types) steps_left.simps worker.exhaust zero_le_numeral zero_le_one order_refl)
  then show ?thesis by (simp add: work_def)
qed

lemma work_start: "work (start_run cpus files disk) = 8 * int (length files) + int (worker_count cpus files) + 1"
  by (simp add: work_def over_workers_def start_run_def sum_list_replicate)

lemma run_steps_work: "run_steps cf s acts = Some s' \<Longrightarrow> int (length (filter own_step acts)) + work s' \<le> work s"
proof (induction acts arbitrary: s)
  case (Cons a acts)
  then obtain s1 where s1: "run_step cf s a = Some s1" "run_steps cf s1 acts = Some s'" by (auto split: option.splits)
  from Cons.IH [OF s1(2)] work_step [OF s1(1)] show ?case by (cases "own_step a") simp_all
qed simp

lemma some_step:
  assumes "running cf cpus files s" "\<not> run_done s"
  shows "\<exists>a s'. own_step a \<and> run_step cf s a = Some s'"
proof (cases "rp_results s")
  case (Cons r rs)
  then have "run_step cf s Collect \<noteq> None" by (auto split: result.splits)
  then show ?thesis by (metis own_step.simps option.exhaust)
next
  case Nil
  have room: "has_room s" using Nil workers_kept [OF assms(1)] worker_count_pos [of cpus files] by (simp add: has_room_def)
  from assms(2) Nil obtain i where i: "i < length (rp_workers s)" "rp_workers s ! i \<noteq> Gone"
    by (auto simp: run_done_def list_all_length)
  then have at: "at_worker s i = rp_workers s ! i" by (simp add: at_worker_def)
  show ?thesis
  proof (cases "rp_workers s ! i")
    case Idle
    show ?thesis
    proof (cases "rp_feeding s")
      case False
      with Idle at show ?thesis by (intro exI [of _ "Leave i"]) simp
    next
      case True
      show ?thesis
      proof (cases "rp_feed s")
        case feed: Nil
        with True show ?thesis by (intro exI [of _ Stop_feeding]) simp
      next
        case (Cons p ps)
        with True Idle at show ?thesis by (intro exI [of _ "Hand_over i"]) simp
      qed
    qed
  next
    case (Got p)
    with at show ?thesis by (intro exI [of _ "Look i"]) simp
  next
    case (Scanning p)
    with at show ?thesis by (intro exI [of _ "Scan i"]) simp
  next
    case (Claiming fc)
    with at show ?thesis by (intro exI [of _ "Claim i"]) simp
  next
    case (Writing p)
    with at show ?thesis by (intro exI [of _ "Process i True True"]) simp
  next
    case Over_budget
    with at show ?thesis by (intro exI [of _ "Truncate i"]) simp
  next
    case Returning
    with at show ?thesis by (intro exI [of _ "Give_back i"]) simp
  next
    case (Sending fc)
    with at room show ?thesis by (intro exI [of _ "Send_result i"]) simp
  next
    case (Failing e)
    with at room show ?thesis by (intro exI [of _ "Send_result i"]) simp
  qed (use i in simp)
qed

end
