(* ===== verification/Plumb_Replace_Claims.thy ===== *)
theory Plumb_Replace_Claims
  imports Plumb_Replace_Correct Plumb_Prune_Correct Plumb_Ignore_Correct
begin

text \<open>
  What find_replace promises: the files it looks at, the budget of files it may change, what its
  report says of what was written, and that it ends; with runs that show where a promise stops.
\<close>

section \<open>The files it looks at\<close>

lemma rel_to_below: "plains r \<Longrightarrow> plains p \<Longrightarrow> p \<noteq> [] \<Longrightarrow> rel_to (show_path r) (show_path (r @ p)) = join_with ''/'' p"
  by (simp add: rel_to_def Rel_below)

lemma collect_env_fields [simp]:
  "we_read (collect_env stop rd fs root glob) = rd" "we_files (collect_env stop rd fs root glob) = fs"
  "we_cancelled (collect_env stop rd fs root glob) = stop"
  "we_fn (collect_env stop rd fs root glob) = collect_entry stop root glob"
  "we_withheld (collect_env stop rd fs root glob) path s = s"
  by (simp_all add: collect_env_def)

abbreviation never :: "string list \<Rightarrow> bool" where
  "never \<equiv> \<lambda>_. False"

lemma collect_everything [simp]:
  "collect_entry never root [] path isDir depth files = (Continue, if isDir then files else files @ [path])"
  by (simp add: collect_entry_def globLiteralPrefix_def)

text \<open>Without a glob a walk appends paths below the directory it is in.\<close>

definition appends :: "string list \<Rightarrow> (string list \<Rightarrow> bool \<times> string list) \<Rightarrow> bool" where
  "appends p w = (\<exists>xs. (\<forall>x \<in> set xs. x \<noteq> [] \<and> plains x) \<and> (\<forall>s. w s = (False, s @ map (\<lambda>x. show_path (p @ x)) xs)))"

lemma appends_none: "(\<And>s. w s = (False, s)) \<Longrightarrow> appends p w"
  by (auto simp: appends_def intro!: exI [of _ "[]"])

lemma appends_one: "plain name \<Longrightarrow> (\<And>s. w s = (False, s @ [show_path (p @ [name])])) \<Longrightarrow> appends p w"
  by (auto simp: appends_def intro!: exI [of _ "[[name]]"])

lemma appends_below:
  assumes "plain name" "appends (p @ [name]) w"
  shows "appends p w"
proof -
  from assms(2) obtain xs where xs: "\<forall>x \<in> set xs. x \<noteq> [] \<and> plains x"
    "\<And>s. w s = (False, s @ map (\<lambda>x. show_path ((p @ [name]) @ x)) xs)"
    by (auto simp: appends_def)
  show ?thesis unfolding appends_def
    by (rule exI [of _ "map ((#) name) xs"]) (use xs assms(1) in \<open>auto simp: comp_def\<close>)
qed

lemma appends_then:
  assumes "appends p w" "appends p v" "\<And>s s'. w s = (False, s') \<Longrightarrow> u s = v s'"
  shows "appends p u"
proof -
  from assms(1,2) obtain xs ys where
    xs: "\<forall>x \<in> set xs. x \<noteq> [] \<and> plains x" "\<And>s. w s = (False, s @ map (\<lambda>x. show_path (p @ x)) xs)" and
    ys: "\<forall>x \<in> set ys. x \<noteq> [] \<and> plains x" "\<And>s. v s = (False, s @ map (\<lambda>x. show_path (p @ x)) ys)"
    by (auto simp: appends_def)
  show ?thesis unfolding appends_def
    by (rule exI [of _ "xs @ ys"]) (use xs ys assms(3) in auto)
qed

lemma walk_of_directory:
  "walkDir (collect_env never rd fs root glob) opts (Directory es) dir n st =
     walk_entries (collect_env never rd fs root glob) opts es dir n
       (if 0 < n \<and> wo_respectIgnore opts then Load rd st dir else st)"
  by (rule ext) simp

lemma collect_appends:
  "tree_plain t \<Longrightarrow> plains p \<Longrightarrow> appends p (walkDir (collect_env never rd fs root []) opts t (show_path p) n st)"
  "entries_plain es \<Longrightarrow> plains p \<Longrightarrow> appends p (walk_entries (collect_env never rd fs root []) opts es (show_path p) n st)"
proof (induction t and es arbitrary: p n st and p n st rule: tree_plain_entries_plain.induct)
  case (1 es)
  from "1.IH" "1.prems" show ?case by (simp only: walk_of_directory tree_plain.simps)
next
  case (5 name t es)
  let ?E = "collect_env never rd fs root []"
  have pl: "plain name" "plains (p @ [name])" using "5.prems" by auto
  then have join: "Join (show_path p) name = show_path (p @ [name])" using "5.prems" by (simp add: Join_show)
  have one: "appends p (walk_entry ?E opts (walkDir ?E opts t) (show_path p) n st name t)"
  proof (cases "shouldVisitEntry name (show_path (p @ [name])) (is_directory t) opts st \<and>
      \<not> escapesBoundary fs opts (show_path (p @ [name])) t")
    case False
    then show ?thesis by (intro appends_none) (auto simp: walk_entry_def Let_def join)
  next
    case True
    show ?thesis
    proof (cases "is_directory t")
      case dir: True
      show ?thesis
      proof (cases "pastDepthLimit opts n \<or> pastDepthLimit opts (n + 1)")
        case True': True
        with True dir show ?thesis by (intro appends_none) (auto simp: walk_entry_def walkSubdir_def Let_def join)
      next
        case False
        have "walk_entry ?E opts (walkDir ?E opts t) (show_path p) n st name t = walkDir ?E opts t (show_path (p @ [name])) (n + 1) st"
          using True dir False by (auto simp: walk_entry_def walkSubdir_def Let_def join fun_eq_iff)
        with "5.IH"(1) [of "p @ [name]" "n + 1" st] "5.prems" pl show ?thesis by (auto intro: appends_below)
      qed
    next
      case False
      with True show ?thesis by (intro appends_one [OF pl(1)]) (auto simp: walk_entry_def Let_def join)
    qed
  qed
  show ?case
    by (rule appends_then [OF one "5.IH"(2) [of p n st]]) (use "5.prems" in \<open>auto\<close>)
qed (auto intro: appends_none)

text \<open>With a glob whose prefix prunes, a walk finds those of these files that the glob accepts.\<close>

definition filters :: "(string \<Rightarrow> bool) \<Rightarrow> (string list \<Rightarrow> bool \<times> string list) \<Rightarrow> (string list \<Rightarrow> bool \<times> string list) \<Rightarrow> bool" where
  "filters ok w v = (\<exists>fs. (\<forall>s. v s = (False, s @ fs)) \<and> (\<forall>s. w s = (False, s @ filter ok fs)))"

lemma filters_same: "(\<And>s. w s = (False, s)) \<Longrightarrow> (\<And>s. v s = (False, s)) \<Longrightarrow> filters ok w v"
  by (auto simp: filters_def intro!: exI [of _ "[]"])

lemma filters_then:
  assumes "filters ok w v" "filters ok w' v'" "\<And>s s'. w s = (False, s') \<Longrightarrow> u s = w' s'" "\<And>s s'. v s = (False, s') \<Longrightarrow> x s = v' s'"
  shows "filters ok u x"
proof -
  from assms(1,2) obtain fs gs where
    fs: "\<And>s. v s = (False, s @ fs)" "\<And>s. w s = (False, s @ filter ok fs)" and
    gs: "\<And>s. v' s = (False, s @ gs)" "\<And>s. w' s = (False, s @ filter ok gs)"
    by (auto simp: filters_def)
  show ?thesis unfolding filters_def
    by (rule exI [of _ "fs @ gs"]) (use fs gs assms(3,4) in auto)
qed

lemma filters_pruned:
  assumes "appends p v" "\<And>s. w s = (False, s)" "\<And>x. x \<noteq> [] \<Longrightarrow> plains x \<Longrightarrow> \<not> ok (show_path (p @ x))"
  shows "filters ok w v"
proof -
  from assms(1) obtain xs where xs: "\<forall>x \<in> set xs. x \<noteq> [] \<and> plains x" "\<And>s. v s = (False, s @ map (\<lambda>x. show_path (p @ x)) xs)"
    by (auto simp: appends_def)
  show ?thesis unfolding filters_def
    by (rule exI [of _ "map (\<lambda>x. show_path (p @ x)) xs"]) (use xs assms(2,3) in auto)
qed

lemma pruned_has_none:
  assumes "plains r" "plains p" "p \<noteq> []" "backslash \<notin> set glob" "CHR ''/'' \<in> set glob" "globLiteralPrefix glob \<noteq> []"
    "\<not> dirCompatibleWithPrefix (rel_to (show_path r) (show_path (r @ p))) (globLiteralPrefix glob)" "x \<noteq> []" "plains x"
  shows "\<not> glob_accepts glob (rel_to (show_path r) (show_path (r @ p @ x)))"
proof
  assume ok: "glob_accepts glob (rel_to (show_path r) (show_path (r @ p @ x)))"
  have "join_with ''/'' (p @ x) = join_with ''/'' p @ ''/'' @ join_with ''/'' x"
    using assms(3,8) by (simp add: join_append lead_join)
  with ok rel_to_below [of r "p @ x"] assms have "glob_accepts glob (join_with ''/'' p @ ''/'' @ join_with ''/'' x)" by simp
  from accepted_below_prefix [OF assms(4-6) this] assms(7) rel_to_below [OF assms(1-3)] show False by simp
qed

lemma last_join: "plains p \<Longrightarrow> p \<noteq> [] \<Longrightarrow> last_component (join_with ''/'' p) = last p"
  by (simp add: last_component_def split_join_plain)

lemma base_show: "plains p \<Longrightarrow> p \<noteq> [] \<Longrightarrow> path_base (show_path p) = last p"
proof -
  assume p: "plains p" "p \<noteq> []"
  then have "filter (\<lambda>c. c \<noteq> []) p = p" by (auto simp: filter_id_conv plain_def list_all_iff)
  with p show "path_base (show_path p) = last p"
    by (auto simp: path_base_def show_path_def split_join_plain split: list.splits)
qed

lemma collect_filters:
  fixes glob r
  defines "ok \<equiv> \<lambda>path. glob_accepts glob (rel_to (show_path r) path)"
  assumes r: "plains r" and g: "backslash \<notin> set glob" "CHR ''/'' \<in> set glob"
  shows
  "tree_plain t \<Longrightarrow> plains d \<Longrightarrow>
     filters ok (walkDir (collect_env never rd fs (show_path r) glob) opts t (show_path (r @ d)) n st)
       (walkDir (collect_env never rd fs (show_path r) []) opts t (show_path (r @ d)) n st)"
  "entries_plain es \<Longrightarrow> plains d \<Longrightarrow>
     filters ok (walk_entries (collect_env never rd fs (show_path r) glob) opts es (show_path (r @ d)) n st)
       (walk_entries (collect_env never rd fs (show_path r) []) opts es (show_path (r @ d)) n st)"
proof (induction t and es arbitrary: d n st and d n st rule: tree_plain_entries_plain.induct)
  case (1 es)
  from "1.IH" "1.prems" show ?case by (simp only: walk_of_directory tree_plain.simps)
next
  case (5 name t es)
  let ?E = "collect_env never rd fs (show_path r) []" and ?G = "collect_env never rd fs (show_path r) glob"
  let ?p = "d @ [name]"
  have pl: "plain name" "plains ?p" using "5.prems" by auto
  then have join: "Join (show_path (r @ d)) name = show_path (r @ ?p)" using "5.prems" r by (simp add: Join_show)
  have one: "filters ok (walk_entry ?G opts (walkDir ?G opts t) (show_path (r @ d)) n st name t)
      (walk_entry ?E opts (walkDir ?E opts t) (show_path (r @ d)) n st name t)"
  proof (cases "shouldVisitEntry name (show_path (r @ ?p)) (is_directory t) opts st \<and>
      \<not> escapesBoundary fs opts (show_path (r @ ?p)) t")
    case False
    then show ?thesis by (intro filters_same) (auto simp: walk_entry_def Let_def join)
  next
    case True
    show ?thesis
    proof (cases "is_directory t")
      case dir: True
      let ?pruned = "globLiteralPrefix glob \<noteq> [] \<and> show_path (r @ ?p) \<noteq> show_path r \<and>
        \<not> dirCompatibleWithPrefix (rel_to (show_path r) (show_path (r @ ?p))) (globLiteralPrefix glob)"
      show ?thesis
      proof (cases "pastDepthLimit opts n \<or> pastDepthLimit opts (n + 1)")
        case deep: True
        with True dir show ?thesis
          by (intro filters_same) (auto simp: walk_entry_def walkSubdir_def Let_def join collect_entry_def)
      next
        case False
        have E: "walk_entry ?E opts (walkDir ?E opts t) (show_path (r @ d)) n st name t =
            walkDir ?E opts t (show_path (r @ ?p)) (n + 1) st"
          using True dir False by (auto simp: walk_entry_def walkSubdir_def Let_def join fun_eq_iff)
        show ?thesis
        proof (cases ?pruned)
          case pruned: True
          have "walk_entry ?G opts (walkDir ?G opts t) (show_path (r @ d)) n st name t s = (False, s)" for s
            using True dir False pruned by (simp add: walk_entry_def walkSubdir_def Let_def join collect_entry_def)
          moreover have "appends (r @ ?p) (walkDir ?E opts t (show_path (r @ ?p)) (n + 1) st)"
            by (rule collect_appends) (use "5.prems" pl r in auto)
          ultimately show ?thesis unfolding E
            by (intro filters_pruned) (use pruned_has_none [OF r pl(2) _ g] pruned in \<open>auto simp: ok_def\<close>)
        next
          case kept: False
          have "walk_entry ?G opts (walkDir ?G opts t) (show_path (r @ d)) n st name t =
              walkDir ?G opts t (show_path (r @ ?p)) (n + 1) st"
            using True dir False kept by (auto simp: walk_entry_def walkSubdir_def Let_def join fun_eq_iff collect_entry_def)
          with "5.IH"(1) [of ?p "n + 1" st] "5.prems" pl E show ?thesis by simp
        qed
      qed
    next
      case file_: False
      have base: "path_base (show_path (r @ ?p)) = last_component (rel_to (show_path r) (show_path (r @ ?p)))"
        using base_show [of "r @ ?p"] rel_to_below [OF r pl(2)] last_join [OF pl(2)] r pl(2) by simp
      have "glob \<noteq> []" using g(2) by auto
      then show ?thesis unfolding filters_def
        by (intro exI [of _ "[show_path (r @ ?p)]"])
           (use True file_ in \<open>auto simp: walk_entry_def Let_def join collect_entry_def base ok_def glob_accepts_def\<close>)
    qed
  qed
  show ?case
    by (rule filters_then [OF one "5.IH"(2) [of d n st]]) (use "5.prems" in \<open>auto\<close>)
qed (auto intro: filters_same)

text \<open>
  C11. With a glob that has a slash and no backslash, find_replace looks at exactly the files it
  would look at without a glob and that the glob accepts: pruning directories by the literal
  prefix of the glob loses none.
\<close>

theorem pruned_walk_complete:
  assumes "plains r" "tree_plain (Directory es)" "backslash \<notin> set glob" "CHR ''/'' \<in> set glob"
    "ra_path a = show_path r" "stat (show_path r) = Some (Directory es)"
  shows "findReplaceCollectFiles (\<lambda>_. False) rd fs guard stat (a\<lparr>ra_glob := glob\<rparr>) =
    map_sum id (filter (\<lambda>path. glob_accepts glob (rel_to (show_path r) path)))
      (findReplaceCollectFiles (\<lambda>_. False) rd fs guard stat (a\<lparr>ra_glob := []\<rparr>))"
proof -
  let ?opts = "\<lparr>wo_root = show_path r, wo_maxDepth = 0, wo_includeHidden = False, wo_respectIgnore = True, wo_boundary = guard\<rparr>"
  have "filters (\<lambda>path. glob_accepts glob (rel_to (show_path r) path))
      (walkDir (collect_env never rd fs (show_path r) glob) ?opts (Directory es) (show_path (r @ [])) 0 (Load rd [] (show_path r)))
      (walkDir (collect_env never rd fs (show_path r) []) ?opts (Directory es) (show_path (r @ [])) 0 (Load rd [] (show_path r)))"
    by (rule collect_filters) (use assms in auto)
  then obtain fs' where
    "snd (walk (collect_env never rd fs (show_path r) []) ?opts (Directory es) []) = fs'"
    "snd (walk (collect_env never rd fs (show_path r) glob) ?opts (Directory es) []) =
       filter (\<lambda>path. glob_accepts glob (rel_to (show_path r) path)) fs'"
    by (auto simp: filters_def walk_def)
  then show ?thesis using assms(5,6) by (simp add: findReplaceCollectFiles_def filter_sort)
qed

definition demo_args :: replace_args where
  "demo_args =
     \<lparr>ra_path = ''/w'', ra_pattern = ''x'', ra_replacement = ''yy'', ra_regex = False, ra_glob = [], ra_case = True,
      ra_dry_run = False, ra_dirty_ok = False, ra_max_files = 1, ra_max_bytes = 100\<rparr>"

definition demo_stat :: "string \<Rightarrow> tree option" where
  "demo_stat path = (if path = ''/w'' then Some (Directory demo_tree) else None)"

theorem pruned_walk_complete_witness:
  "findReplaceCollectFiles (\<lambda>_. False) demo_text (\<lambda>_. None) None demo_stat (demo_args\<lparr>ra_glob := ''src/*.{go,log}''\<rparr>) =
     map_sum id (filter (\<lambda>path. glob_accepts ''src/*.{go,log}'' (rel_to ''/w'' path)))
       (findReplaceCollectFiles (\<lambda>_. False) demo_text (\<lambda>_. None) None demo_stat (demo_args\<lparr>ra_glob := []\<rparr>)) \<and>
   findReplaceCollectFiles (\<lambda>_. False) demo_text (\<lambda>_. None) None demo_stat (demo_args\<lparr>ra_glob := ''src/*.{go,log}''\<rparr>) =
     Inr [''/w/src/keep.log'', ''/w/src/m.go'']"
proof (rule conjI)
  have "show_path [''w''] = ''/w''" by code_simp
  with pruned_walk_complete [of "[''w'']" demo_tree "''src/*.{go,log}''" demo_args demo_stat demo_text "\<lambda>_. None" None]
  show "findReplaceCollectFiles (\<lambda>_. False) demo_text (\<lambda>_. None) None demo_stat (demo_args\<lparr>ra_glob := ''src/*.{go,log}''\<rparr>) =
     map_sum id (filter (\<lambda>path. glob_accepts ''src/*.{go,log}'' (rel_to ''/w'' path)))
       (findReplaceCollectFiles (\<lambda>_. False) demo_text (\<lambda>_. None) None demo_stat (demo_args\<lparr>ra_glob := []\<rparr>))"
    by (simp add: demo_args_def demo_stat_def backslash_def demo_tree_def plain_def)
qed code_simp

section \<open>The budget\<close>

lemma mset_le_length: "mset xs \<subseteq># mset ys \<Longrightarrow> length xs \<le> length ys"
  using size_mset_mono by fastforce

lemma distinct_submset: "mset xs \<subseteq># mset ys \<Longrightarrow> distinct ys \<Longrightarrow> distinct xs"
proof (unfold distinct_count_atmost_1, rule allI)
  fix a
  assume le: "mset xs \<subseteq># mset ys" and one: "\<forall>a. count (mset ys) a = (if a \<in> set ys then 1 else 0)"
  from mset_subset_eq_count [OF le, of a] one [rule_format, of a] have "count (mset xs) a \<le> 1"
    by (cases "a \<in> set ys") (simp_all del: count_mset_0_iff)
  moreover have "1 \<le> count (mset xs) a" if "a \<in> set xs"
    using that by (metis One_nat_def Suc_leI count_greater_zero_iff set_mset_mset)
  ultimately show "count (mset xs) a = (if a \<in> set xs then 1 else 0)"
    by (metis count_mset_0_iff le_antisym)
qed

lemma changes_written:
  assumes "running cf cpus files s" "\<not> ra_dry_run (cf_args cf)"
  shows "mset (rp_changes s) \<subseteq># mset (map (change_of cf) (rp_log s))"
proof (rule mset_subset_eqI)
  fix c
  from told_kept [OF assms, of c] over_workers_nonneg [of "sent_change c" s] sent_nonneg
  show "count (mset (rp_changes s)) c \<le> count (mset (map (change_of cf) (rp_log s))) c"
    by (simp add: told_def done_changes_def)
qed

text \<open>
  C12. However its workers interleave, find_replace writes at most max_files files, each of them at
  most once and only files of its list, and reports at most max_files; a preview writes nothing.
\<close>

theorem replace_within_budget:
  assumes "running cf cpus files s" "distinct files"
  shows "int (length (rp_log s)) \<le> max 0 (ra_max_files (cf_args cf)) \<and>
    int (length (rp_changes s)) \<le> max 0 (ra_max_files (cf_args cf)) \<and>
    distinct (map fst (rp_log s)) \<and> set (map fst (rp_log s)) \<subseteq> set files \<and>
    (ra_dry_run (cf_args cf) \<longrightarrow> rp_log s = [])"
proof -
  from written_are_listed [OF assms(1)] assms(2) have "distinct (map fst (rp_log s))" "set (map fst (rp_log s)) \<subseteq> set files"
    by (rule distinct_submset) (metis written_are_listed [OF assms(1)] mset_subset_eqD set_mset_mset subsetI)
  moreover have log: "int (length (rp_log s)) \<le> max 0 (ra_max_files (cf_args cf))"
    using budget_kept [OF assms(1)] over_workers_nonneg [of slots s] slots_nonneg by (simp add: in_use_def)
  moreover have "ra_dry_run (cf_args cf) \<longrightarrow> rp_log s = []"
  proof
    assume "ra_dry_run (cf_args cf)"
    from preview_kept [OF assms(1) this] have "over_workers slots s + int (length (rp_log s)) = 0" by (simp add: in_use_def)
    with over_workers_nonneg [of slots s, OF slots_nonneg] have "\<not> 0 < int (length (rp_log s))" by linarith
    then show "rp_log s = []" by simp
  qed
  moreover have "int (length (rp_changes s)) \<le> max 0 (ra_max_files (cf_args cf))"
  proof (cases "ra_dry_run (cf_args cf)")
    case True
    with preview_kept [OF assms(1)] over_workers_nonneg [of sending s] sending_nonneg show ?thesis by (simp add: displayed_def)
  next
    case False
    from mset_le_length [OF changes_written [OF assms(1) False]] log show ?thesis by simp
  qed
  ultimately show ?thesis by blast
qed

definition demo_config :: run_config where
  "demo_config =
     \<lparr>cf_args = demo_args, cf_regex = None, cf_want_diff = False, cf_git = (\<lambda>_ _. None), cf_block_dirty = True,
      cf_wrote = (\<lambda>_ _. False)\<rparr>"

definition demo_files :: "string list" where
  "demo_files = [''/w/a'', ''/w/b'']"

definition demo_disk :: text_disk where
  "demo_disk = (\<lambda>p. if p \<in> {''/w/a'', ''/w/b''} then Some ''xox'' else None)"

definition write_first :: "run_action list" where
  "write_first =
     [Hand_over 0, Hand_over 1, Look 0, Look 1, Scan 0, Scan 1, Claim 0, Claim 1, Process 0 True True, Truncate 1]"

definition finish :: "run_action list" where
  "finish = [Stop_feeding, Leave 0, Leave 1]"

lemma run_steps_running: "running cf cpus files s \<Longrightarrow> run_steps cf s acts = Some s' \<Longrightarrow> running cf cpus files s'"
  by (induction acts arbitrary: s) (auto split: option.splits intro: run_goes)

lemma demo_run:
  assumes "map_option f (run_steps cf (start_run cpus files disk) acts) = Some x"
  obtains s where "run_steps cf (start_run cpus files disk) acts = Some s" "running cf cpus files s" "f s = x"
  using assms run_steps_running [OF run_start] by auto

theorem replace_within_budget_witness:
  "\<exists>s. run_steps demo_config (start_run 2 demo_files demo_disk) (write_first @ [Send_result 0, Collect] @ finish) = Some s \<and>
     int (length (rp_log s)) \<le> max 0 (ra_max_files demo_args) \<and> rp_log s = [(''/w/a'', ''xox'', ''yyoyy'')] \<and>
     rp_changes s = [\<lparr>fc_path = ''/w/a'', fc_count = 2, fc_old = None, fc_new = []\<rparr>] \<and> rp_truncated s"
proof -
  have "map_option (\<lambda>s. (rp_log s, rp_changes s, rp_truncated s))
      (run_steps demo_config (start_run 2 demo_files demo_disk) (write_first @ [Send_result 0, Collect] @ finish)) =
    Some ([(''/w/a'', ''xox'', ''yyoyy'')], [\<lparr>fc_path = ''/w/a'', fc_count = 2, fc_old = None, fc_new = []\<rparr>], True)"
    by code_simp
  then obtain s where s: "run_steps demo_config (start_run 2 demo_files demo_disk) (write_first @ [Send_result 0, Collect] @ finish) = Some s"
    "running demo_config 2 demo_files s"
    "(rp_log s, rp_changes s, rp_truncated s) =
       ([(''/w/a'', ''xox'', ''yyoyy'')], [\<lparr>fc_path = ''/w/a'', fc_count = 2, fc_old = None, fc_new = []\<rparr>], True)"
    by (rule demo_run)
  have "distinct demo_files" by code_simp
  with replace_within_budget [OF s(2)] s(1,3) show ?thesis by (auto simp: demo_config_def)
qed

section \<open>The report\<close>

lemma done_workers:
  assumes "run_done s" "f Gone = (0 :: int)"
  shows "over_workers f s = 0"
proof -
  from assms(1) have "map f (rp_workers s) = map (\<lambda>_. 0) (rp_workers s)"
    using assms(2) by (auto simp: run_done_def list_all_iff)
  then show ?thesis by (simp only: over_workers_def) (simp add: sum_list_0)
qed



text \<open>
  A worker that has written its file may find, at the moment it reports it, that another worker
  stopped the run for lack of budget; it may then drop its report. The file is changed, and the
  reply says that no file was.
\<close>

theorem written_but_not_reported:
  "map_option (\<lambda>s. (run_done s, rp_log s, rp_disk s ''/w/a'', report s))
     (run_steps demo_config (start_run 2 demo_files demo_disk) (write_first @ [Drop_result 0] @ finish)) =
   Some (True, [(''/w/a'', ''xox'', ''yyoyy'')], Some ''yyoyy'', [], [], 0, True)"
  by code_simp

text \<open>
  A slot that is given back too late: the first file stops matching after it got the only slot, the
  second has been refused by then. Nothing is written and the reply says that the budget is used up.
\<close>

theorem slot_given_back_late:
  "map_option (\<lambda>s. (run_done s, rp_log s, rp_claimed s, report s))
     (run_steps demo_config (start_run 2 demo_files demo_disk)
       ([Hand_over 0, Hand_over 1, Look 0, Look 1, Scan 0, Scan 1, Claim 0, Outside ''/w/a'' (Some ''o''), Process 0 True True,
         Claim 1, Truncate 1, Give_back 0] @ finish)) =
   Some (True, [], 1, [], [], 0, True)"
  by code_simp

text \<open>
  git runs under the context of the workers. When another worker has stopped the run, the question
  whether the file has uncommitted changes gets no answer, and the file is written over.
\<close>

definition dirty_config :: run_config where
  "dirty_config = demo_config\<lparr>cf_git := (\<lambda>_ _. Some ('' M a'' @ [CHR 0x0A]))\<rparr>"

theorem stopped_run_overwrites_dirty:
  "map_option (\<lambda>s. rp_errors s)
     (run_steps dirty_config (start_run 2 demo_files demo_disk)
       ([Hand_over 0, Look 0, Scan 0, Claim 0, Process 0 True True, Send_result 0, Collect])) =
     Some [Uncommitted_changes ''/w/a''] \<and>
   map_option (\<lambda>s. (run_done s, rp_log s, rp_errors s))
     (run_steps dirty_config (start_run 2 demo_files demo_disk)
       ([Hand_over 0, Hand_over 1, Look 0, Look 1, Scan 0, Scan 1, Claim 0, Claim 1, Truncate 1, Process 0 True True,
         Drop_result 0] @ finish)) =
     Some (True, [(''/w/a'', ''xox'', ''yyoyy'')], [])"
  by code_simp

section \<open>The end\<close>

text \<open>
  C14. A run of find_replace takes at most eight steps of its own for each file, one for each worker
  and one more, whatever is interleaved; and until it has ended one of them is always possible, so that it
  ends and no worker waits for ever.
\<close>

theorem replace_ends:
  assumes "run_steps cf (start_run cpus files disk) acts = Some s"
  shows "length (filter own_step acts) \<le> 8 * length files + worker_count cpus files + 1 \<and>
    (run_done s \<or> (\<exists>a s'. own_step a \<and> run_step cf s a = Some s'))"
proof
  show "length (filter own_step acts) \<le> 8 * length files + worker_count cpus files + 1"
    using run_steps_work [OF assms] work_nonneg [of s] work_start [of cpus files disk] by linarith
  show "run_done s \<or> (\<exists>a s'. own_step a \<and> run_step cf s a = Some s')"
    using some_step run_steps_running [OF run_start assms] by blast
qed

theorem replace_ends_witness:
  "\<exists>s. run_steps demo_config (start_run 2 demo_files demo_disk) write_first = Some s \<and> \<not> run_done s \<and>
     length (filter own_step write_first) \<le> 19 \<and> (\<exists>a s'. own_step a \<and> run_step demo_config s a = Some s')"
proof -
  have "map_option run_done (run_steps demo_config (start_run 2 demo_files demo_disk) write_first) = Some False"
    by code_simp
  then obtain s where s: "run_steps demo_config (start_run 2 demo_files demo_disk) write_first = Some s" "\<not> run_done s"
    by auto
  have "8 * length demo_files + worker_count 2 demo_files + 1 = 19" by code_simp
  with replace_ends [OF s(1)] s show ?thesis by auto
qed

end
