(* ===== verification/Plumb_Rpc.thy ===== *)
theory Plumb_Rpc
  imports Plumb_Prelude
begin

text \<open>
  The connection to a language server (\<open>internal/lsp/jsonrpc/conn.go\<close>): the framing of messages
  on a stream of bytes, and the goroutines of a connection as a machine that takes one action at a
  time. The encoding of one message as JSON is a parameter of the framing. Messages are records;
  an identifier, parameters and a result are raw JSON, and an absent one is empty.
\<close>

section \<open>Framing\<close>

abbreviation CR :: char where "CR \<equiv> CHR 0x0D"
abbreviation NL :: char where "NL \<equiv> CHR 0x0A"

record wire_message =
  wm_id :: string
  wm_method :: string
  wm_params :: string
  wm_result :: string
  wm_error :: "(int \<times> string) option"

text \<open>\<open>strconv.Atoi\<close> and \<open>strings.TrimRight\<close> with the cut set \<open>\r\n\<close>.\<close>

definition Atoi :: "string \<Rightarrow> int option" where
  "Atoi s =
     (let (neg, ds) = (case s of
          c # r \<Rightarrow> if c = CHR ''-'' then (True, r) else if c = CHR ''+'' then (False, r) else (False, s)
        | [] \<Rightarrow> (False, []))
      in
      if ds = [] \<or> \<not> list_all is_digit ds then None
      else
        let n = (if neg then - digits_val ds else digits_val ds) in
        if - max_int - 1 \<le> n \<and> n \<le> max_int then Some n else None)"

definition trim_eol :: "string \<Rightarrow> string" where
  "trim_eol s = rev (dropWhile (\<lambda>c. c = CR \<or> c = NL) (rev s))"

definition length_header :: string where
  "length_header = ''Content-Length: ''"

definition send_frame :: "string \<Rightarrow> string" where
  "send_frame data = length_header @ itoa (length data) @ [CR, NL, CR, NL] @ data"

datatype read_error =
    Header_ends
  | Bad_length
  | No_length
  | Makeslice_panics
  | Body_ends
  | Bad_body

lemma cut_at_shorter: "cut_at c s = (line, rest, True) \<Longrightarrow> length rest < length s"
  by (drule cut_at_found) simp

function read_headers :: "int \<Rightarrow> string \<Rightarrow> read_error + int \<times> string" where
  "read_headers len s =
     (case cut_at NL s of (line, rest, found) \<Rightarrow>
        if \<not> found then Inl Header_ends
        else
          let l = trim_eol line in
          if l = [] then Inr (len, rest)
          else if has_prefix l length_header then
            (case Atoi (drop (length length_header) l) of
               None \<Rightarrow> Inl Bad_length
             | Some n \<Rightarrow> read_headers n rest)
          else read_headers len rest)"
  by pat_completeness auto

termination
  by (relation "measure (\<lambda>(len, s). length s)") (auto dest: cut_at_shorter [OF sym])

declare read_headers.simps [simp del]

text \<open>The most bytes Go's \<open>make\<close> can be asked for on a 64-bit machine before it panics.\<close>

definition max_alloc :: int where
  "max_alloc = 2 ^ 48"

definition readMessage :: "(string \<Rightarrow> 'm option) \<Rightarrow> string \<Rightarrow> read_error + 'm \<times> string" where
  "readMessage dec s =
     (case read_headers (-1) s of
        Inl e \<Rightarrow> Inl e
      | Inr (n, rest) \<Rightarrow>
          if n < 0 then Inl No_length
          else if max_alloc < n then Inl Makeslice_panics
          else if int (length rest) < n then Inl Body_ends
          else (case dec (take (nat n) rest) of
                  None \<Rightarrow> Inl Bad_body
                | Some m \<Rightarrow> Inr (m, drop (nat n) rest)))"

lemma read_headers_shorter: "read_headers len s = Inr (n, rest) \<Longrightarrow> length rest < length s"
proof (induction len s rule: read_headers.induct)
  case (1 len s)
  obtain line more found where cut: "cut_at NL s = (line, more, found)" by (cases "cut_at NL s")
  show ?case
    using 1 cut cut_at_shorter [of NL s line more]
    by (fastforce simp: read_headers.simps [of len s] Let_def split: if_splits option.splits)
qed

lemma readMessage_shorter: "readMessage dec s = Inr (m, rest) \<Longrightarrow> length rest < length s"
  using read_headers_shorter [of "-1" s]
  by (fastforce simp: readMessage_def split: sum.splits if_splits option.splits)

text \<open>What the read loop takes off a stream, and the error it ends with.\<close>

function read_messages :: "(string \<Rightarrow> 'm option) \<Rightarrow> string \<Rightarrow> 'm list \<times> read_error" where
  "read_messages dec s =
     (case readMessage dec s of
        Inl e \<Rightarrow> ([], e)
      | Inr (m, rest) \<Rightarrow> (let (ms, e) = read_messages dec rest in (m # ms, e)))"
  by pat_completeness auto

termination
  by (relation "measure (\<lambda>(dec, s). length s)") (auto dest: readMessage_shorter)

declare read_messages.simps [simp del]

section \<open>Requests of the server\<close>

definition errCodeMethodNotFound :: int where
  "errCodeMethodNotFound = -32601"

definition errCodeInternal :: int where
  "errCodeInternal = -32603"

datatype handler_error = Method_not_found string | Other_error string

fun handlerErrCode :: "handler_error \<Rightarrow> int" where
  "handlerErrCode (Method_not_found m) = errCodeMethodNotFound"
| "handlerErrCode (Other_error e) = errCodeInternal"

fun handler_text :: "handler_error \<Rightarrow> string" where
  "handler_text (Method_not_found m) = ''method not found: '' @ m"
| "handler_text (Other_error e) = e"

text \<open>
  What a handler returns: an error, nothing, or a result, encoded unless that fails. The answer
  to a request under the handler that is set, if one is.
\<close>

type_synonym request_handler = "string \<Rightarrow> string \<Rightarrow> handler_error + (string + string) option"

definition null_json :: string where
  "null_json = ''null''"

definition server_response :: "request_handler option \<Rightarrow> wire_message \<Rightarrow> wire_message" where
  "server_response fn req =
     (let r = (case fn of None \<Rightarrow> Inl (Method_not_found (wm_method req)) | Some f \<Rightarrow> f (wm_method req) (wm_params req));
          resp = \<lparr>wm_id = wm_id req, wm_method = [], wm_params = [], wm_result = [], wm_error = None\<rparr>
      in
      case r of
        Inl e \<Rightarrow> resp\<lparr>wm_error := Some (handlerErrCode e, handler_text e)\<rparr>
      | Inr None \<Rightarrow> resp\<lparr>wm_result := null_json\<rparr>
      | Inr (Some (Inl bad)) \<Rightarrow> resp\<lparr>wm_error := Some (errCodeInternal, ''encoding result: '' @ bad)\<rparr>
      | Inr (Some (Inr enc)) \<Rightarrow> resp\<lparr>wm_result := enc\<rparr>)"

section \<open>The machine\<close>

datatype call_result =
    Ctx_done
  | Conn_closed
  | Send_failed
  | Write_stalled
  | Answered wire_message

text \<open>What \<open>Call\<close> makes of a response: its error, or its result if it has one to decode.\<close>

definition call_reply :: "wire_message \<Rightarrow> (int \<times> string) + string option" where
  "call_reply m =
     (case wm_error m of
        Some e \<Rightarrow> Inl e
      | None \<Rightarrow> Inr (if wm_result m \<noteq> [] \<and> wm_result m \<noteq> null_json then Some (wm_result m) else None))"

text \<open>
  Where a call is: its identifier taken, stored as pending, its request being written, waiting
  for the answer, telling the server that it is cancelled, returning.
\<close>

datatype call_pc =
    Uncalled
  | Numbered string string string
  | Stored string string string
  | Sending string nat
  | Awaiting string
  | Cancelling string nat
  | Leaving string call_result
  | Returned string call_result

text \<open>Where the read loop is: at its top, in a read, in one of the two sends of \<open>dispatch\<close>, over.\<close>

datatype reader_pc =
    Looping
  | Reading
  | Delivering wire_message nat
  | Queueing wire_message
  | Read_over

datatype write_state = Unwritten | In_flight wire_message | Written | Write_failed

text \<open>
  The connection with its goroutines, the stream the server has sent (\<open>inbox\<close>), what the read
  loop took off it (\<open>arrived\<close>), what was taken off the queue of notifications (\<open>delivered\<close>, with
  whether a handler was set to get it) and what was written. A frame that cannot be read ends the
  stream. Calls and writes are numbered; \<open>ctx_done\<close> says whose context is cancelled.
\<close>

record conn =
  next_id :: nat
  pending :: "string \<Rightarrow> nat option"
  calls :: "nat \<Rightarrow> call_pc"
  answers :: "nat \<Rightarrow> wire_message list"
  ctx_done :: "nat \<Rightarrow> bool"
  inbox :: "wire_message list"
  eof :: bool
  arrived :: "wire_message list"
  reader :: reader_pc
  notifyQ :: "wire_message list"
  onNotify :: bool
  delivered :: "(wire_message \<times> bool) list"
  notifier_over :: bool
  requests :: "wire_message list"
  onRequest :: "request_handler option"
  writes :: "nat \<Rightarrow> write_state"
  next_write :: nat
  sent :: "wire_message list"
  closed :: bool

definition NewConn :: conn where
  "NewConn =
     \<lparr>next_id = 0, pending = Map.empty, calls = (\<lambda>_. Uncalled), answers = (\<lambda>_. []), ctx_done = (\<lambda>_. False),
      inbox = [], eof = False, arrived = [], reader = Looping, notifyQ = [], onNotify = False, delivered = [],
      notifier_over = False, requests = [],
      onRequest = None, writes = (\<lambda>_. Unwritten), next_write = 0, sent = [], closed = False\<rparr>"

definition notifyQueueSize :: nat where
  "notifyQueueSize = 1024"

definition set_call :: "nat \<Rightarrow> call_pc \<Rightarrow> conn \<Rightarrow> conn" where
  "set_call t c s = s\<lparr>calls := (calls s)(t := c)\<rparr>"

text \<open>A goroutine of \<open>sendCtx\<close> that writes one message.\<close>

definition spawn_write :: "wire_message \<Rightarrow> conn \<Rightarrow> conn" where
  "spawn_write m s = s\<lparr>writes := (writes s)(next_write s := In_flight m), next_write := Suc (next_write s)\<rparr>"

definition sendCtx :: "wire_message \<Rightarrow> conn \<Rightarrow> conn" where
  [simp]: "sendCtx m s = (if closed s then s else spawn_write m s)"

definition request :: "string \<Rightarrow> string \<Rightarrow> string \<Rightarrow> wire_message" where
  "request i meth params = \<lparr>wm_id = i, wm_method = meth, wm_params = params, wm_result = [], wm_error = None\<rparr>"

definition cancelRequest :: "string \<Rightarrow> wire_message" where
  "cancelRequest i = request [] ''$/cancelRequest'' (''{\"id\":'' @ i @ ''}'')"

definition has_id :: "wire_message \<Rightarrow> bool" where
  "has_id m = (wm_id m \<noteq> [] \<and> wm_id m \<noteq> null_json)"

definition is_note :: "wire_message \<Rightarrow> bool" where
  "is_note m = (\<not> has_id m \<and> wm_method m \<noteq> [])"

definition dispatch :: "wire_message \<Rightarrow> conn \<Rightarrow> conn" where
  "dispatch m s =
     (if has_id m then
        (case pending s (wm_id m) of
           Some t \<Rightarrow> s\<lparr>reader := Delivering m t\<rparr>
         | None \<Rightarrow>
             if wm_method m \<noteq> [] then s\<lparr>reader := Looping, requests := requests s @ [m]\<rparr>
             else s\<lparr>reader := Looping\<rparr>)
      else if wm_method m = [] then s\<lparr>reader := Looping\<rparr>
      else s\<lparr>reader := Queueing m\<rparr>)"

text \<open>The next notification of the queue goes to the handler, if one is set.\<close>

definition notifyLoop :: "conn \<Rightarrow> conn option" where
  [simp]: "notifyLoop s =
     (case notifyQ s of
        m # ms \<Rightarrow>
          if notifier_over s then None else Some (s\<lparr>notifyQ := ms, delivered := delivered s @ [(m, onNotify s)]\<rparr>)
      | [] \<Rightarrow> None)"

text \<open>
  The actions: of the server, of the callers, of the read loop, of the goroutine that hands on
  notifications, of the goroutines of requests and writes.
\<close>

datatype conn_action =
    Server_sends wire_message
  | Server_ends
  | Cancel nat
  | Close_conn
  | Set_handler request_handler
  | Set_notifier
  | Notify string string
  | Call nat string string
  | Store nat
  | Send nat
  | Send_returns nat
  | Send_closed nat
  | Send_stalls nat
  | Wait_cancelled nat
  | Wait_closed nat
  | Wait_answered nat
  | Cancel_returns nat
  | Return_call nat
  | Loop_top
  | Read
  | Deliver
  | Deliver_abandoned
  | Enqueue
  | Enqueue_closed
  | Hand_on
  | Notifier_ends
  | Handle nat
  | Write_lands nat
  | Write_fails nat
  | Write_stalls nat

definition get_flight :: "write_state \<Rightarrow> wire_message option" where
  "get_flight w = (case w of In_flight m \<Rightarrow> Some m | _ \<Rightarrow> None)"

text \<open>One action, where it can be taken.\<close>

fun conn_step :: "conn_action \<Rightarrow> conn \<Rightarrow> conn option" where
  "conn_step (Server_sends m) s = (if eof s then None else Some (s\<lparr>inbox := inbox s @ [m]\<rparr>))"
| "conn_step Server_ends s = Some (s\<lparr>eof := True\<rparr>)"
| "conn_step (Cancel t) s = Some (s\<lparr>ctx_done := (ctx_done s)(t := True)\<rparr>)"
| "conn_step Close_conn s = Some (s\<lparr>closed := True\<rparr>)"
| "conn_step (Set_handler f) s = Some (s\<lparr>onRequest := Some f\<rparr>)"
| "conn_step Set_notifier s = Some (s\<lparr>onNotify := True\<rparr>)"
| "conn_step (Notify meth params) s =
     Some (sendCtx (request [] meth params) s)"
| "conn_step (Call t meth params) s =
     (if calls s t \<noteq> Uncalled then None
      else if ctx_done s t then Some (set_call t (Returned [] Ctx_done) s)
      else Some (set_call t (Numbered (itoa (Suc (next_id s))) meth params) (s\<lparr>next_id := Suc (next_id s)\<rparr>)))"
| "conn_step (Store t) s =
     (case calls s t of
        Numbered i meth params \<Rightarrow> Some (set_call t (Stored i meth params) (s\<lparr>pending := (pending s)(i \<mapsto> t)\<rparr>))
      | _ \<Rightarrow> None)"
| "conn_step (Send t) s =
     (case calls s t of
        Stored i meth params \<Rightarrow>
          Some (if closed s then set_call t (Leaving i Conn_closed) s
                else set_call t (Sending i (next_write s)) (spawn_write (request i meth params) s))
      | _ \<Rightarrow> None)"
| "conn_step (Send_returns t) s =
     (case calls s t of
        Sending i w \<Rightarrow>
          (case writes s w of
             Written \<Rightarrow> Some (set_call t (Awaiting i) s)
           | Write_failed \<Rightarrow> Some (set_call t (Leaving i Send_failed) s)
           | _ \<Rightarrow> None)
      | _ \<Rightarrow> None)"
| "conn_step (Send_closed t) s =
     (case calls s t of
        Sending i w \<Rightarrow> if closed s then Some (set_call t (Leaving i Conn_closed) s) else None
      | _ \<Rightarrow> None)"
| "conn_step (Send_stalls t) s =
     (case calls s t of
        Sending i w \<Rightarrow> Some (set_call t (Leaving i Write_stalled) (s\<lparr>closed := True\<rparr>))
      | _ \<Rightarrow> None)"
| "conn_step (Wait_cancelled t) s =
     (case calls s t of
        Awaiting i \<Rightarrow>
          if \<not> ctx_done s t then None
          else if closed s then Some (set_call t (Leaving i Ctx_done) s)
          else Some (set_call t (Cancelling i (next_write s)) (spawn_write (cancelRequest i) s))
      | _ \<Rightarrow> None)"
| "conn_step (Wait_closed t) s =
     (case calls s t of
        Awaiting i \<Rightarrow> if closed s then Some (set_call t (Leaving i Conn_closed) s) else None
      | _ \<Rightarrow> None)"
| "conn_step (Wait_answered t) s =
     (case calls s t of
        Awaiting i \<Rightarrow>
          (case answers s t of
             m # ms \<Rightarrow> Some (set_call t (Leaving i (Answered m)) (s\<lparr>answers := (answers s)(t := ms)\<rparr>))
           | [] \<Rightarrow> None)
      | _ \<Rightarrow> None)"
| "conn_step (Cancel_returns t) s =
     (case calls s t of
        Cancelling i w \<Rightarrow>
          if get_flight (writes s w) = None \<or> closed s then Some (set_call t (Leaving i Ctx_done) s) else None
      | _ \<Rightarrow> None)"
| "conn_step (Return_call t) s =
     (case calls s t of
        Leaving i r \<Rightarrow> Some (set_call t (Returned i r) (s\<lparr>pending := (pending s)(i := None)\<rparr>))
      | _ \<Rightarrow> None)"
| "conn_step Loop_top s =
     (if reader s = Looping then Some (s\<lparr>reader := if closed s then Read_over else Reading\<rparr>) else None)"
| "conn_step Read s =
     (if reader s \<noteq> Reading then None
      else
        (case inbox s of
           m # ms \<Rightarrow> Some (dispatch m (s\<lparr>inbox := ms, arrived := arrived s @ [m]\<rparr>))
         | [] \<Rightarrow> if eof s then Some (s\<lparr>closed := True, reader := Read_over\<rparr>) else None))"
| "conn_step Deliver s =
     (case reader s of
        Delivering m t \<Rightarrow>
          if answers s t = [] then Some (s\<lparr>answers := (answers s)(t := [m]), reader := Looping\<rparr>) else None
      | _ \<Rightarrow> None)"
| "conn_step Deliver_abandoned s =
     (case reader s of
        Delivering m t \<Rightarrow> if ctx_done s t \<or> closed s then Some (s\<lparr>reader := Looping\<rparr>) else None
      | _ \<Rightarrow> None)"
| "conn_step Enqueue s =
     (case reader s of
        Queueing m \<Rightarrow>
          if length (notifyQ s) < notifyQueueSize then Some (s\<lparr>notifyQ := notifyQ s @ [m], reader := Looping\<rparr>) else None
      | _ \<Rightarrow> None)"
| "conn_step Enqueue_closed s =
     (case reader s of
        Queueing m \<Rightarrow> if closed s then Some (s\<lparr>reader := Looping\<rparr>) else None
      | _ \<Rightarrow> None)"
| "conn_step Hand_on s = notifyLoop s"
| "conn_step Notifier_ends s = (if closed s then Some (s\<lparr>notifier_over := True\<rparr>) else None)"
| "conn_step (Handle k) s =
     (if k < length (requests s) then
        let s' = s\<lparr>requests := take k (requests s) @ drop (Suc k) (requests s)\<rparr> in
        Some (sendCtx (server_response (onRequest s) (requests s ! k)) s')
      else None)"
| "conn_step (Write_lands w) s =
     (case writes s w of
        In_flight m \<Rightarrow> Some (s\<lparr>writes := (writes s)(w := Written), sent := sent s @ [m]\<rparr>)
      | _ \<Rightarrow> None)"
| "conn_step (Write_fails w) s =
     (case writes s w of
        In_flight m \<Rightarrow> Some (s\<lparr>writes := (writes s)(w := Write_failed)\<rparr>)
      | _ \<Rightarrow> None)"
| "conn_step (Write_stalls w) s =
     (case writes s w of
        In_flight m \<Rightarrow> Some (s\<lparr>closed := True\<rparr>)
      | _ \<Rightarrow> None)"

inductive conn_reach :: "conn \<Rightarrow> bool" where
  new: "conn_reach NewConn"
| act: "conn_reach s \<Longrightarrow> conn_step a s = Some s' \<Longrightarrow> conn_reach s'"

fun conn_run :: "conn_action list \<Rightarrow> conn \<Rightarrow> conn option" where
  "conn_run [] s = Some s"
| "conn_run (a # as) s = (case conn_step a s of None \<Rightarrow> None | Some s' \<Rightarrow> conn_run as s')"

end
