(* ===== verification/Plumb_Rpc_Correct.thy ===== *)
theory Plumb_Rpc_Correct
  imports Plumb_Rpc "HOL-Library.Sublist"
begin

text \<open>
  The framing: a stream of frames is read back whole, and cut anywhere gives the messages whose
  frames it still holds. The machine: identifiers tell calls apart, an answer goes to the call it
  is for, notifications keep their order, and closing frees every call.
\<close>

section \<open>Framing\<close>

lemma cut_at_append: "c \<notin> set w \<Longrightarrow> cut_at c (w @ c # r) = (w, r, True)"
  by (induction w) auto

lemma cut_at_none: "c \<notin> set w \<Longrightarrow> cut_at c w = (w, [], False)"
  by (induction w) auto

lemma Atoi_itoa: "int n \<le> max_int \<Longrightarrow> Atoi (itoa n) = Some (int n)"
proof -
  assume n: "int n \<le> max_int"
  obtain c r where i: "itoa n = c # r" by (cases "itoa n") auto
  then have "is_digit c" using itoa_digits [of n] by simp
  then have "c \<noteq> CHR ''-''" "c \<noteq> CHR ''+''" by (auto simp: is_digit_def)
  then show ?thesis
    using i n itoa_digits [of n] digits_val_itoa [of n] by (auto simp: Atoi_def Let_def list_all_iff max_int_def)
qed

lemma digit_no_eol: "is_digit c \<Longrightarrow> c \<noteq> CR \<and> c \<noteq> NL"
  by (auto simp: is_digit_def)

definition header_line :: "nat \<Rightarrow> string" where
  "header_line n = length_header @ itoa n @ [CR]"

lemma header_no_NL: "NL \<notin> set (header_line n)"
proof -
  have "NL \<notin> set length_header" by code_simp
  then show ?thesis using itoa_digits [of n] digit_no_eol by (auto simp: header_line_def)
qed

lemma trim_header: "trim_eol (header_line n) = length_header @ itoa n"
proof -
  obtain ds d where i: "itoa n = ds @ [d]" by (cases "itoa n" rule: rev_cases) auto
  then have "d \<noteq> CR" "d \<noteq> NL" using itoa_digits [of n] digit_no_eol [of d] by auto
  then show ?thesis by (simp add: trim_eol_def header_line_def i)
qed

lemma frame_split: "send_frame data = header_line (length data) @ NL # [CR] @ NL # data"
  by (simp add: send_frame_def header_line_def)

lemma read_length:
  assumes "int n \<le> max_int"
  shows "read_headers len (header_line n @ NL # s) = read_headers (int n) s"
proof -
  have "length_header \<noteq> []" by (simp add: length_header_def)
  then show ?thesis
    using assms
    by (subst read_headers.simps)
      (simp add: cut_at_append [OF header_no_NL] trim_header has_prefix_append Atoi_itoa)
qed

lemma read_blank: "read_headers len ([CR] @ NL # s) = Inr (len, s)"
proof -
  have "cut_at NL ([CR] @ NL # s) = ([CR], s, True)" by (rule cut_at_append) simp
  then show ?thesis by (subst read_headers.simps) (simp add: trim_eol_def)
qed

lemma max_alloc_int: "n \<le> max_alloc \<Longrightarrow> n \<le> max_int"
  by (simp add: max_alloc_def max_int_def)

lemma readMessage_frame:
  assumes "int (length data) \<le> max_alloc" "dec data = Some m"
  shows "readMessage dec (send_frame data @ s) = Inr (m, s)"
proof -
  have "read_headers (-1) (send_frame data @ s) = Inr (int (length data), data @ s)"
    using read_length [OF max_alloc_int [OF assms(1)]] read_blank by (simp add: frame_split)
  then show ?thesis using assms by (simp add: readMessage_def)
qed

lemma read_headers_cut: "NL \<notin> set s \<Longrightarrow> read_headers len s = Inl Header_ends"
  by (subst read_headers.simps) (simp add: cut_at_none)

lemma readMessage_cut:
  assumes "int (length data) \<le> max_alloc" "n < length (send_frame data)"
  shows "\<exists>e. readMessage dec (take n (send_frame data)) = Inl e"
proof -
  let ?h = "header_line (length data)"
  have "length (send_frame data) = length ?h + 3 + length data" by (simp add: frame_split)
  with assms(2) have "n < length ?h + 3 + length data" by simp
  moreover consider "n \<le> length ?h" | "n = length ?h + 1" | "n = length ?h + 2" | "length ?h + 3 \<le> n" by linarith
  ultimately consider "n \<le> length ?h" | "n = length ?h + 1" | "n = length ?h + 2" | k where "n = length ?h + 3 + k" "k < length data"
    by (metis le_iff_add nat_add_left_cancel_less)
  then show ?thesis
  proof cases
    case 1
    have "NL \<notin> set (take n ?h)" using header_no_NL by (meson in_set_takeD)
    then have "read_headers (-1) (take n (send_frame data)) = Inl Header_ends"
      using 1 by (intro read_headers_cut) (simp add: frame_split)
    then show ?thesis by (simp add: readMessage_def)
  next
    case 2
    then have "take n (send_frame data) = ?h @ NL # []" by (simp add: frame_split)
    then show ?thesis
      using read_length [OF max_alloc_int [OF assms(1)], of "-1" "[]"] by (simp add: readMessage_def read_headers_cut)
  next
    case 3
    then have "take n (send_frame data) = ?h @ NL # [CR]" by (simp add: frame_split)
    then show ?thesis
      using read_length [OF max_alloc_int [OF assms(1)], of "-1" "[CR]"] by (simp add: readMessage_def read_headers_cut)
  next
    case (4 k)
    then have "take n (send_frame data) = ?h @ NL # [CR] @ NL # take k data"
      by (simp add: frame_split numeral_3_eq_3)
    then have "read_headers (-1) (take n (send_frame data)) = Inr (int (length data), take k data)"
      using read_length [OF max_alloc_int [OF assms(1)]] read_blank by simp
    then show ?thesis using 4 assms(1) by (auto simp: readMessage_def)
  qed
qed

text \<open>The messages whose frames lie whole in the first bytes of the stream.\<close>

fun whole_frames :: "('m \<Rightarrow> string) \<Rightarrow> nat \<Rightarrow> 'm list \<Rightarrow> 'm list" where
  "whole_frames enc n [] = []"
| "whole_frames enc n (m # ms) =
     (let k = length (send_frame (enc m)) in if k \<le> n then m # whole_frames enc (n - k) ms else [])"

definition stream_of :: "('m \<Rightarrow> string) \<Rightarrow> 'm list \<Rightarrow> string" where
  "stream_of enc ms = concat (map (\<lambda>m. send_frame (enc m)) ms)"

text \<open>
  C24. Frames can be cut anywhere: of a stream of messages each framed as \<open>send\<close> does, the read
  loop gives, from any first part of it, exactly the messages whose frames are whole in that part,
  in order and whatever bytes they are made of, and then an error; never a message that was not sent.
\<close>

theorem frames_cut_anywhere:
  assumes "\<And>m. m \<in> set ms \<Longrightarrow> dec (enc m) = Some m \<and> int (length (enc m)) \<le> max_alloc"
  shows "fst (read_messages dec (take n (stream_of enc ms))) = whole_frames enc n ms"
  using assms
proof (induction ms arbitrary: n)
  case Nil
  then show ?case
    by (subst read_messages.simps) (simp add: stream_of_def readMessage_def read_headers_cut)
next
  case (Cons m ms)
  let ?f = "send_frame (enc m)"
  have m: "dec (enc m) = Some m" "int (length (enc m)) \<le> max_alloc" using Cons.prems by auto
  have s: "stream_of enc (m # ms) = ?f @ stream_of enc ms" by (simp add: stream_of_def)
  show ?case
  proof (cases "length ?f \<le> n")
    case True
    then have "take n (stream_of enc (m # ms)) = ?f @ take (n - length ?f) (stream_of enc ms)" by (simp add: s)
    then have "readMessage dec (take n (stream_of enc (m # ms))) = Inr (m, take (n - length ?f) (stream_of enc ms))"
      by (simp add: readMessage_frame m)
    then show ?thesis
      using True Cons.IH [of "n - length ?f"] Cons.prems
      by (subst read_messages.simps) (simp add: Let_def split: prod.split, metis fst_conv)
  next
    case False
    then have "take n (stream_of enc (m # ms)) = take n ?f" by (simp add: s)
    with readMessage_cut [OF m(2), of n dec] False obtain e where "readMessage dec (take n (stream_of enc (m # ms))) = Inl e" by auto
    then show ?thesis using False by (subst read_messages.simps) (simp add: Let_def)
  qed
qed

section \<open>Identifiers\<close>

fun call_id :: "call_pc \<Rightarrow> string" where
  "call_id Uncalled = []"
| "call_id (Numbered i meth params) = i"
| "call_id (Stored i meth params) = i"
| "call_id (Sending i w) = i"
| "call_id (Awaiting i) = i"
| "call_id (Cancelling i w) = i"
| "call_id (Leaving i r) = i"
| "call_id (Returned i r) = i"

fun is_pending :: "call_pc \<Rightarrow> bool" where
  "is_pending (Stored i meth params) = True"
| "is_pending (Sending i w) = True"
| "is_pending (Awaiting i) = True"
| "is_pending (Cancelling i w) = True"
| "is_pending (Leaving i r) = True"
| "is_pending _ = False"

fun call_answer :: "call_pc \<Rightarrow> wire_message option" where
  "call_answer (Leaving i (Answered m)) = Some m"
| "call_answer (Returned i (Answered m)) = Some m"
| "call_answer _ = None"

lemma itoa_inj: "itoa m = itoa n \<Longrightarrow> m = n"
  by (metis digits_val_itoa nat_int)

text \<open>Every identifier was taken from the counter, by one call, and the table has the calls under way.\<close>

definition ids_ok :: "conn \<Rightarrow> bool" where
  "ids_ok s =
     ((\<forall>t. call_id (calls s t) \<noteq> [] \<longrightarrow> (\<exists>n \<le> next_id s. call_id (calls s t) = itoa n)) \<and>
      (\<forall>t u. call_id (calls s t) = call_id (calls s u) \<longrightarrow> call_id (calls s t) \<noteq> [] \<longrightarrow> t = u) \<and>
      (\<forall>i t. pending s i = Some t \<longleftrightarrow> i \<noteq> [] \<and> call_id (calls s t) = i \<and> is_pending (calls s t)))"

lemma ids_ok_taken:
  assumes "ids_ok s" "call_id (calls s t) \<noteq> []"
  shows "\<exists>n \<le> next_id s. call_id (calls s t) = itoa n"
proof -
  have "\<forall>t. call_id (calls s t) \<noteq> [] \<longrightarrow> (\<exists>n \<le> next_id s. call_id (calls s t) = itoa n)"
    using assms(1) unfolding ids_ok_def by (rule conjunct1)
  then show ?thesis using assms(2) by blast
qed

lemma ids_ok_unique:
  assumes "ids_ok s" "call_id (calls s t) = call_id (calls s u)" "call_id (calls s t) \<noteq> []"
  shows "t = u"
proof -
  have "\<forall>t u. call_id (calls s t) = call_id (calls s u) \<longrightarrow> call_id (calls s t) \<noteq> [] \<longrightarrow> t = u"
    using assms(1) unfolding ids_ok_def by (rule conjunct2 [THEN conjunct1])
  then show ?thesis using assms(2,3) by blast
qed

lemma ids_ok_pending:
  assumes "ids_ok s"
  shows "pending s i = Some t \<longleftrightarrow> i \<noteq> [] \<and> call_id (calls s t) = i \<and> is_pending (calls s t)"
proof -
  have "\<forall>i t. pending s i = Some t \<longleftrightarrow> i \<noteq> [] \<and> call_id (calls s t) = i \<and> is_pending (calls s t)"
    using assms unfolding ids_ok_def by (rule conjunct2 [THEN conjunct2])
  then show ?thesis by simp
qed

lemmas ids_okD = ids_ok_taken ids_ok_unique ids_ok_pending

text \<open>The state of one call changes.\<close>

lemma ids_ok_update:
  assumes "ids_ok s" "calls s' = (calls s)(t := c)" "next_id s \<le> next_id s'"
    and "call_id c \<noteq> [] \<Longrightarrow> \<exists>n \<le> next_id s'. call_id c = itoa n"
    and "\<And>u. u \<noteq> t \<Longrightarrow> call_id (calls s u) = call_id c \<Longrightarrow> call_id c = []"
    and "\<And>i. pending s' i = (if is_pending c \<and> i = call_id c \<and> i \<noteq> [] then Some t else if pending s i = Some t then None else pending s i)"
  shows "ids_ok s'"
  unfolding ids_ok_def
proof (intro conjI allI impI)
  fix u assume u: "call_id (calls s' u) \<noteq> []"
  show "\<exists>n \<le> next_id s'. call_id (calls s' u) = itoa n"
  proof (cases "u = t")
    case True
    then show ?thesis using u assms(2,4) by simp
  next
    case False
    then show ?thesis using u assms(2,3) ids_okD(1) [OF assms(1), of u] by (auto intro: le_trans)
  qed
next
  fix u w assume "call_id (calls s' u) = call_id (calls s' w)" "call_id (calls s' u) \<noteq> []"
  then show "u = w"
    using assms(2) assms(5) [of u] assms(5) [of w] ids_okD(2) [OF assms(1), of u w]
    by (cases "u = t"; cases "w = t") auto
next
  fix i u
  show "pending s' i = Some u \<longleftrightarrow> i \<noteq> [] \<and> call_id (calls s' u) = i \<and> is_pending (calls s' u)"
  proof (cases "u = t")
    case True
    then show ?thesis using assms(2) assms(6) [of i] ids_okD(3) [OF assms(1), of i t] by auto
  next
    case False
    have "\<not> (i = call_id c \<and> i \<noteq> [])" if "call_id (calls s u) = i" using assms(5) [OF False] that by auto
    then show ?thesis using False assms(2) assms(6) [of i] ids_okD(3) [OF assms(1), of i u] by auto
  qed
qed

lemma ids_ok_goes_on:
  assumes "ids_ok s" "call_id c = call_id (calls s t)" "is_pending c = is_pending (calls s t)"
    and "next_id s' = next_id s" "pending s' = pending s" "calls s' = (calls s)(t := c)"
  shows "ids_ok s'"
proof (rule ids_ok_update [OF assms(1,6)])
  show "pending s' i = (if is_pending c \<and> i = call_id c \<and> i \<noteq> [] then Some t else if pending s i = Some t then None else pending s i)" for i
    using assms(2,3,5) ids_okD(3) [OF assms(1), of i t] by auto
  show "call_id c = []" if "u \<noteq> t" "call_id (calls s u) = call_id c" for u
    using ids_okD(2) [OF assms(1), of u t] that assms(2) by auto
qed (use ids_okD(1) [OF assms(1), of t] assms(2,4) in auto)

lemma ids_ok_same: "ids_ok s \<Longrightarrow> next_id s' = next_id s \<Longrightarrow> pending s' = pending s \<Longrightarrow> calls s' = calls s \<Longrightarrow> ids_ok s'"
  by (simp add: ids_ok_def)

lemma ids_ok_new:
  assumes "ids_ok s" "calls s t = Uncalled"
  shows "ids_ok (set_call t (Numbered (itoa (Suc (next_id s))) meth params) (s\<lparr>next_id := Suc (next_id s)\<rparr>))"
proof (rule ids_ok_update [OF assms(1)])
  let ?c = "Numbered (itoa (Suc (next_id s))) meth params"
  show "call_id ?c = []" if "u \<noteq> t" "call_id (calls s u) = call_id ?c" for u
  proof -
    have "call_id (calls s u) \<noteq> []" using that(2) by simp
    then obtain n where "n \<le> next_id s" "call_id (calls s u) = itoa n" using ids_okD(1) [OF assms(1)] by blast
    with that(2) show ?thesis by (auto dest: itoa_inj)
  qed
  show "pending (set_call t ?c (s\<lparr>next_id := Suc (next_id s)\<rparr>)) i =
    (if is_pending ?c \<and> i = call_id ?c \<and> i \<noteq> [] then Some t else if pending s i = Some t then None else pending s i)" for i
    using ids_okD(3) [OF assms(1), of i t] assms(2) by (auto simp: set_call_def)
qed (auto simp: set_call_def)

lemma ids_ok_store:
  assumes "ids_ok s" "calls s t = Numbered i meth params" "i \<noteq> []"
  shows "ids_ok (set_call t (Stored i meth params) (s\<lparr>pending := (pending s)(i \<mapsto> t)\<rparr>))"
proof (rule ids_ok_update [OF assms(1)])
  let ?c = "Stored i meth params"
  show "call_id ?c = []" if "u \<noteq> t" "call_id (calls s u) = call_id ?c" for u
    using ids_okD(2) [OF assms(1), of u t] that assms(2) by auto
  show "pending (set_call t ?c (s\<lparr>pending := (pending s)(i \<mapsto> t)\<rparr>)) j =
    (if is_pending ?c \<and> j = call_id ?c \<and> j \<noteq> [] then Some t else if pending s j = Some t then None else pending s j)" for j
    using ids_okD(3) [OF assms(1), of j t] assms(2,3) by (auto simp: set_call_def)
qed (use ids_okD(1) [OF assms(1), of t] assms(2) in \<open>auto simp: set_call_def\<close>)

lemma ids_ok_return:
  assumes "ids_ok s" "calls s t = Leaving i r"
  shows "ids_ok (set_call t (Returned i r) (s\<lparr>pending := (pending s)(i := None)\<rparr>))"
proof (rule ids_ok_update [OF assms(1)])
  let ?c = "Returned i r"
  show "call_id ?c = []" if "u \<noteq> t" "call_id (calls s u) = call_id ?c" for u
    using ids_okD(2) [OF assms(1), of u t] that assms(2) by auto
  show "pending (set_call t ?c (s\<lparr>pending := (pending s)(i := None)\<rparr>)) j =
    (if is_pending ?c \<and> j = call_id ?c \<and> j \<noteq> [] then Some t else if pending s j = Some t then None else pending s j)" for j
    using ids_okD(3) [OF assms(1), of j t] ids_okD(3) [OF assms(1), of i] assms(2)
    by (cases "pending s i") (auto simp: set_call_def)
qed (use ids_okD(1) [OF assms(1), of t] assms(2) in \<open>auto simp: set_call_def\<close>)

section \<open>What an action does to the calls\<close>

lemmas conn_splits = call_pc.splits if_splits option.splits write_state.splits reader_pc.splits list.splits
lemmas conn_defs = set_call_def spawn_write_def dispatch_def Let_def

text \<open>An action other than these three leaves the table, and at most moves one call on.\<close>

definition goes_on :: "conn \<Rightarrow> conn \<Rightarrow> bool" where
  "goes_on s s' =
     (next_id s' = next_id s \<and> pending s' = pending s \<and>
      (calls s' = calls s \<or>
       (\<exists>t c. calls s' = (calls s)(t := c) \<and> call_id c = call_id (calls s t) \<and> is_pending c = is_pending (calls s t))))"

lemma goes_on_same: "next_id s' = next_id s \<Longrightarrow> pending s' = pending s \<Longrightarrow> calls s' = calls s \<Longrightarrow> goes_on s s'"
  by (simp add: goes_on_def)

lemma goes_on_one:
  "next_id s' = next_id s \<Longrightarrow> pending s' = pending s \<Longrightarrow> calls s' = (calls s)(t := c) \<Longrightarrow>
     call_id c = call_id (calls s t) \<Longrightarrow> is_pending c = is_pending (calls s t) \<Longrightarrow> goes_on s s'"
  unfolding goes_on_def by blast

lemma ids_ok_goes: "ids_ok s \<Longrightarrow> goes_on s s' \<Longrightarrow> ids_ok s'"
  unfolding goes_on_def by (auto intro: ids_ok_same ids_ok_goes_on)

fun plain_action :: "conn_action \<Rightarrow> bool" where
  "plain_action (Call t meth params) = False"
| "plain_action (Store t) = False"
| "plain_action (Return_call t) = False"
| "plain_action _ = True"

lemma plain_goes_on: "plain_action a \<Longrightarrow> conn_step a s = Some s' \<Longrightarrow> goes_on s s'"
  by (cases a) (auto simp: conn_defs intro: goes_on_same goes_on_one split: conn_splits)

fun numbered_ok :: "call_pc \<Rightarrow> bool" where
  "numbered_ok (Numbered i meth params) = (i \<noteq> [])"
| "numbered_ok _ = True"

lemma numbered_step:
  "(\<And>t. numbered_ok (calls s t)) \<Longrightarrow> conn_step a s = Some s' \<Longrightarrow> numbered_ok (calls s' t)"
  by (cases a) (auto simp: conn_defs split: conn_splits)

lemma ids_ok_step:
  assumes "ids_ok s" "\<And>t. numbered_ok (calls s t)" "conn_step a s = Some s'"
  shows "ids_ok s'"
proof (cases "plain_action a")
  case True
  then show ?thesis using ids_ok_goes [OF assms(1)] plain_goes_on assms(3) by blast
next
  case False
  then consider t meth params where "a = Call t meth params" | t where "a = Store t" | t where "a = Return_call t"
    by (cases a) auto
  then show ?thesis
  proof cases
    case (1 t meth params)
    have "ids_ok (set_call t (Returned [] Ctx_done) s)" if "calls s t = Uncalled"
      by (rule ids_ok_goes_on [OF assms(1), where t = t and c = "Returned [] Ctx_done"]) (simp_all add: set_call_def that)
    then show ?thesis using 1 assms(3) ids_ok_new [OF assms(1)] by (auto split: if_splits)
  next
    case (2 t)
    then show ?thesis using assms(2) [of t] assms(3) ids_ok_store [OF assms(1)] by (auto split: call_pc.splits)
  next
    case (3 t)
    then show ?thesis using assms(3) ids_ok_return [OF assms(1)] by (auto split: call_pc.splits)
  qed
qed

section \<open>Answers\<close>

lemma call_id_stays:
  "conn_step a s = Some s' \<Longrightarrow> call_id (calls s t) \<noteq> [] \<Longrightarrow> call_id (calls s' t) = call_id (calls s t)"
  by (cases a) (auto simp: conn_defs split: conn_splits)

lemma arrived_grows: "conn_step a s = Some s' \<Longrightarrow> arrived s' = arrived s \<or> (\<exists>m. a = Read \<and> arrived s' = arrived s @ [m])"
  by (cases a) (auto simp: conn_defs split: conn_splits)

text \<open>A message that arrived for a call.\<close>

definition meant_for :: "conn \<Rightarrow> nat \<Rightarrow> wire_message \<Rightarrow> bool" where
  "meant_for s t m = (has_id m \<and> wm_id m = call_id (calls s t) \<and> m \<in> set (arrived s))"

lemma meant_for_step: "meant_for s t m \<Longrightarrow> conn_step a s = Some s' \<Longrightarrow> meant_for s' t m"
  using call_id_stays [of a s s' t] arrived_grows [of a s s'] by (auto simp: meant_for_def has_id_def)

definition routed :: "conn \<Rightarrow> bool" where
  "routed s =
     ((\<forall>t. \<forall>m \<in> set (answers s t). meant_for s t m) \<and>
      (\<forall>m t. reader s = Delivering m t \<longrightarrow> meant_for s t m) \<and>
      (\<forall>t m. call_answer (calls s t) = Some m \<longrightarrow> meant_for s t m))"

lemma answers_step:
  "conn_step a s = Some s' \<Longrightarrow> m \<in> set (answers s' t) \<Longrightarrow> m \<in> set (answers s t) \<or> reader s = Delivering m t"
  by (cases a) (auto simp: conn_defs split: conn_splits)

lemma delivering_step:
  "conn_step a s = Some s' \<Longrightarrow> reader s' = Delivering m t \<Longrightarrow>
     reader s = Delivering m t \<or> has_id m \<and> pending s (wm_id m) = Some t \<and> arrived s' = arrived s @ [m] \<and> calls s' = calls s"
  by (cases a) (auto simp: conn_defs split: conn_splits)

lemma call_answer_Some:
  "call_answer c = Some m \<longleftrightarrow> (\<exists>i. c = Leaving i (Answered m) \<or> c = Returned i (Answered m))"
  by (cases c rule: call_answer.cases) auto

lemma call_answer_step:
  "conn_step a s = Some s' \<Longrightarrow> call_answer (calls s' t) = Some m \<Longrightarrow>
     call_answer (calls s t) = Some m \<or> m \<in> set (answers s t)"
  unfolding call_answer_Some
  by (cases a) (auto simp: conn_defs split: conn_splits)

lemma routed_step:
  assumes "routed s" "ids_ok s" "conn_step a s = Some s'"
  shows "routed s'"
  unfolding routed_def
proof (intro conjI allI ballI impI)
  fix t m assume "m \<in> set (answers s' t)"
  then have "meant_for s t m" using answers_step [OF assms(3)] assms(1) unfolding routed_def by blast
  then show "meant_for s' t m" using assms(3) by (rule meant_for_step)
next
  fix m t assume d: "reader s' = Delivering m t"
  show "meant_for s' t m"
  proof (cases "reader s = Delivering m t")
    case True
    then have "meant_for s t m" using assms(1) by (simp add: routed_def)
    then show ?thesis using assms(3) by (rule meant_for_step)
  next
    case False
    then have n: "has_id m" "pending s (wm_id m) = Some t" "arrived s' = arrived s @ [m]" "calls s' = calls s"
      using delivering_step [OF assms(3) d] by simp_all
    then show ?thesis using ids_ok_pending [OF assms(2), of "wm_id m" t] by (simp add: meant_for_def)
  qed
next
  fix t m assume "call_answer (calls s' t) = Some m"
  then have "meant_for s t m" using call_answer_step [OF assms(3)] assms(1) unfolding routed_def by blast
  then show "meant_for s' t m" using assms(3) by (rule meant_for_step)
qed

end
