(* ===== verification/Plumb_Rpc_Claims.thy ===== *)
theory Plumb_Rpc_Claims
  imports Plumb_Rpc_Correct
begin

text \<open>
  The invariants of the read loop and the queue of notifications, the claims on a connection, runs
  that witness them, and two runs that go wrong.
\<close>

section \<open>Order and counts\<close>

text \<open>
  The notifications that arrived are the ones handed on, the ones queued and the one in hand; when
  the connection closes, the one in hand may be dropped, and the read loop ends.
\<close>

definition noted :: "conn \<Rightarrow> wire_message list" where
  "noted s = map fst (delivered s) @ notifyQ s"

definition in_order :: "conn \<Rightarrow> bool" where
  "in_order s =
     (case reader s of
        Queueing m \<Rightarrow> filter is_note (arrived s) = noted s @ [m]
      | Reading \<Rightarrow> filter is_note (arrived s) = noted s
      | Delivering m t \<Rightarrow> filter is_note (arrived s) = noted s
      | _ \<Rightarrow> if closed s then prefix (noted s) (filter is_note (arrived s)) else filter is_note (arrived s) = noted s)"

text \<open>The actions of the read loop and of the one that hands notifications on, and the others.\<close>

fun reader_action :: "conn_action \<Rightarrow> bool" where
  "reader_action Loop_top = True"
| "reader_action Read = True"
| "reader_action Deliver = True"
| "reader_action Deliver_abandoned = True"
| "reader_action Enqueue = True"
| "reader_action Enqueue_closed = True"
| "reader_action Hand_on = True"
| "reader_action _ = False"

lemma other_action:
  "\<not> reader_action a \<Longrightarrow> conn_step a s = Some s' \<Longrightarrow>
     reader s' = reader s \<and> arrived s' = arrived s \<and> delivered s' = delivered s \<and> notifyQ s' = notifyQ s \<and>
     (closed s \<longrightarrow> closed s')"
  by (cases a) (auto simp: conn_defs split: conn_splits)

lemma notes_in_order_step:
  assumes "in_order s" "conn_step a s = Some s'"
  shows "in_order s'"
proof (cases "reader_action a")
  case False
  from other_action [OF this assms(2)] assms(1) show ?thesis
    by (cases "reader s") (auto simp: in_order_def noted_def split: if_splits)
next
  case True
  then consider "a = Loop_top" | "a = Read" | "a = Deliver" | "a = Deliver_abandoned" | "a = Enqueue" | "a = Enqueue_closed" | "a = Hand_on"
    by (cases a) auto
  then show ?thesis
  proof cases
    case 2
    then show ?thesis
      using assms by (auto simp: in_order_def noted_def dispatch_def is_note_def split: list.splits option.splits if_splits)
  next
    case 7
    then show ?thesis
      using assms by (cases "reader s") (auto simp: in_order_def noted_def split: list.splits if_splits)
  qed (use assms in \<open>auto simp: in_order_def noted_def split: reader_pc.splits if_splits\<close>)
qed

text \<open>The messages that arrived under an identifier, and those on their way to its call.\<close>

definition with_id :: "string \<Rightarrow> wire_message list \<Rightarrow> nat" where
  "with_id i ms = length (filter (\<lambda>m. has_id m \<and> wm_id m = i) ms)"

definition on_the_way :: "conn \<Rightarrow> nat \<Rightarrow> nat" where
  "on_the_way s t = length (answers s t) + (case reader s of Delivering m u \<Rightarrow> if u = t then 1 else 0 | _ \<Rightarrow> 0)"

definition counted :: "conn \<Rightarrow> bool" where
  "counted s = (\<forall>t. on_the_way s t \<le> with_id (call_id (calls s t)) (arrived s))"

lemma on_the_way_new:
  assumes "routed s" "call_id (calls s t) = []"
  shows "on_the_way s t = 0"
proof -
  have no: "\<not> meant_for s t m" for m using assms(2) by (auto simp: meant_for_def has_id_def)
  have "\<forall>m \<in> set (answers s t). meant_for s t m" using assms(1) by (simp add: routed_def)
  then have "answers s t = []" using no by (cases "answers s t") auto
  moreover have "reader s \<noteq> Delivering m t" for m using assms(1) no unfolding routed_def by blast
  ultimately show ?thesis by (auto simp: on_the_way_def split: reader_pc.splits)
qed

lemma answers_other:
  "\<not> reader_action a \<Longrightarrow> conn_step a s = Some s' \<Longrightarrow> length (answers s' t) \<le> length (answers s t)"
  by (cases a) (auto simp: conn_defs split: conn_splits)

lemma on_the_way_step:
  assumes "conn_step a s = Some s'"
  shows "on_the_way s' t \<le> on_the_way s t \<or>
    on_the_way s' t \<le> Suc (on_the_way s t) \<and> (\<exists>m. has_id m \<and> pending s (wm_id m) = Some t \<and> arrived s' = arrived s @ [m] \<and> calls s' = calls s)"
proof (cases "reader_action a")
  case False
  then show ?thesis using other_action [OF False assms] answers_other [OF False assms, of t] by (simp add: on_the_way_def)
next
  case True
  then consider "a = Loop_top" | "a = Read" | "a = Deliver" | "a = Deliver_abandoned" | "a = Enqueue" | "a = Enqueue_closed" | "a = Hand_on"
    by (cases a) auto
  then show ?thesis
  proof cases
    case 2
    then show ?thesis
      using assms by (auto simp: on_the_way_def dispatch_def split: list.splits option.splits if_splits)
  qed (use assms in \<open>auto simp: on_the_way_def split: reader_pc.splits list.splits if_splits\<close>)
qed

lemma with_id_grows: "arrived s' = arrived s \<or> (\<exists>m. arrived s' = arrived s @ [m]) \<Longrightarrow> with_id i (arrived s) \<le> with_id i (arrived s')"
  by (auto simp: with_id_def)

lemma counted_step:
  assumes "counted s" "routed s" "ids_ok s" "conn_step a s = Some s'"
  shows "counted s'"
  unfolding counted_def
proof
  fix t
  have grows: "with_id i (arrived s) \<le> with_id i (arrived s')" for i
    using arrived_grows [OF assms(4)] by (intro with_id_grows) blast
  have c: "on_the_way s t \<le> with_id (call_id (calls s t)) (arrived s)" using assms(1) by (simp add: counted_def)
  from on_the_way_step [OF assms(4), of t]
  show "on_the_way s' t \<le> with_id (call_id (calls s' t)) (arrived s')"
  proof (elim disjE conjE exE)
    assume le: "on_the_way s' t \<le> on_the_way s t"
    show ?thesis
    proof (cases "call_id (calls s t) = []")
      case True
      then show ?thesis using on_the_way_new [OF assms(2)] le by simp
    next
      case False
      then show ?thesis using call_id_stays [OF assms(4)] le c grows [of "call_id (calls s t)"] by simp
    qed
  next
    fix m assume m: "on_the_way s' t \<le> Suc (on_the_way s t)" "has_id m" "pending s (wm_id m) = Some t"
      "arrived s' = arrived s @ [m]" "calls s' = calls s"
    then have "wm_id m = call_id (calls s t)" using ids_ok_pending [OF assms(3)] by simp
    then show ?thesis using m c by (simp add: with_id_def)
  qed
qed

definition conn_ok :: "conn \<Rightarrow> bool" where
  "conn_ok s = (ids_ok s \<and> (\<forall>t. numbered_ok (calls s t)) \<and> routed s \<and> in_order s \<and> counted s)"

lemma conn_ok_reach: "conn_reach s \<Longrightarrow> conn_ok s"
proof (induction rule: conn_reach.induct)
  case new
  show ?case
    by (simp add: conn_ok_def NewConn_def ids_ok_def routed_def in_order_def noted_def counted_def on_the_way_def)
next
  case (act s a s')
  then show ?case
    unfolding conn_ok_def
    by (meson ids_ok_step numbered_step routed_step notes_in_order_step counted_step)
qed

section \<open>The claims\<close>

text \<open>
  C21. Notifications keep the order of the wire: however the goroutines interleave, what the handler
  was given and what is queued is a beginning of the notifications that arrived, in their order
  and each once; while the connection is open none is missing but the one in the hand of the read loop.
\<close>

theorem notifications_in_order:
  assumes "conn_reach s"
  shows "prefix (map fst (delivered s) @ notifyQ s) (filter is_note (arrived s)) \<and>
    (closed s \<or> (\<exists>m. reader s = Queueing m \<and> filter is_note (arrived s) = map fst (delivered s) @ notifyQ s @ [m]) \<or>
     filter is_note (arrived s) = map fst (delivered s) @ notifyQ s)"
  using conn_ok_reach [OF assms]
  by (auto simp: conn_ok_def in_order_def noted_def split: reader_pc.splits if_splits)

text \<open>
  C22. A call gets the answer that is meant for it: a message that a call returns arrived under the
  identifier of that call, which no other call ever had; and a server that uses each identifier
  at most once never makes the read loop wait for a caller.
\<close>

theorem calls_get_their_answer:
  assumes "conn_reach s"
  shows "(calls s t = Returned i (Answered m) \<longrightarrow>
      m \<in> set (arrived s) \<and> wm_id m = i \<and> i \<noteq> [] \<and> (\<forall>u. call_id (calls s u) = i \<longrightarrow> u = t)) \<and>
    (reader s = Delivering m t \<longrightarrow> with_id (wm_id m) (arrived s) \<le> 1 \<longrightarrow> conn_step Deliver s \<noteq> None)"
proof -
  have ok: "ids_ok s" "routed s" "counted s" using conn_ok_reach [OF assms] by (simp_all add: conn_ok_def)
  have "m \<in> set (arrived s) \<and> wm_id m = i \<and> i \<noteq> [] \<and> (\<forall>u. call_id (calls s u) = i \<longrightarrow> u = t)"
    if r: "calls s t = Returned i (Answered m)"
  proof -
    have "meant_for s t m" using ok(2) r unfolding routed_def by (metis call_answer.simps(2))
    then have m: "m \<in> set (arrived s)" "wm_id m = i" "i \<noteq> []" using r by (auto simp: meant_for_def has_id_def)
    moreover have "u = t" if "call_id (calls s u) = i" for u
      using ids_ok_unique [OF ok(1), of u t] that r m(3) by simp
    ultimately show ?thesis by blast
  qed
  moreover have "conn_step Deliver s \<noteq> None" if d: "reader s = Delivering m t" "with_id (wm_id m) (arrived s) \<le> 1"
  proof -
    have "meant_for s t m" using ok(2) d(1) by (simp add: routed_def)
    then have "wm_id m = call_id (calls s t)" by (simp add: meant_for_def)
    moreover have "on_the_way s t \<le> with_id (call_id (calls s t)) (arrived s)" using ok(3) by (simp add: counted_def)
    ultimately have "answers s t = []" using d by (cases "answers s t") (auto simp: on_the_way_def)
    then show ?thesis using d(1) by simp
  qed
  ultimately show ?thesis by blast
qed

fun own_action :: "nat \<Rightarrow> conn_action \<Rightarrow> bool" where
  "own_action t (Store u) = (u = t)"
| "own_action t (Send u) = (u = t)"
| "own_action t (Send_closed u) = (u = t)"
| "own_action t (Wait_closed u) = (u = t)"
| "own_action t (Cancel_returns u) = (u = t)"
| "own_action t (Return_call u) = (u = t)"
| "own_action t _ = False"

definition way_out :: "nat \<Rightarrow> call_pc \<Rightarrow> conn_action list" where
  "way_out t c =
     (case c of
        Numbered i meth params \<Rightarrow> [Store t, Send t, Return_call t]
      | Stored i meth params \<Rightarrow> [Send t, Return_call t]
      | Sending i w \<Rightarrow> [Send_closed t, Return_call t]
      | Awaiting i \<Rightarrow> [Wait_closed t, Return_call t]
      | Cancelling i w \<Rightarrow> [Cancel_returns t, Return_call t]
      | Leaving i r \<Rightarrow> [Return_call t]
      | _ \<Rightarrow> [])"

text \<open>
  C23. Closing frees every call: once the connection is closed, because the stream ended, a write
  stalled or the client was told to stop, every call under way comes back by at most three actions
  of its own, whatever the server, the writes and the other goroutines do not do, and leaves no
  entry in the table.
\<close>

theorem close_frees_calls:
  assumes "conn_reach s" "closed s" "calls s t \<noteq> Uncalled"
  shows "\<exists>s' i r. conn_run (way_out t (calls s t)) s = Some s' \<and> list_all (own_action t) (way_out t (calls s t)) \<and>
    length (way_out t (calls s t)) \<le> 3 \<and> calls s' t = Returned i r \<and> t \<notin> ran (pending s')"
proof -
  have ids: "ids_ok s" using conn_ok_reach [OF assms(1)] by (simp add: conn_ok_def)
  have p: "\<And>i. pending s i = Some t \<longleftrightarrow> i \<noteq> [] \<and> call_id (calls s t) = i \<and> is_pending (calls s t)"
    by (rule ids_ok_pending [OF ids])
  show ?thesis
    using assms(2,3) p
    by (cases "calls s t") (auto simp: way_out_def set_call_def ran_def)
qed

section \<open>Runs\<close>

lemma conn_run_reach: "conn_run as s = Some s' \<Longrightarrow> conn_reach s \<Longrightarrow> conn_reach s'"
  by (induction as arbitrary: s) (auto split: option.splits intro: conn_reach.act)

definition response :: "string \<Rightarrow> string \<Rightarrow> wire_message" where
  "response i r = \<lparr>wm_id = i, wm_method = [], wm_params = [], wm_result = r, wm_error = None\<rparr>"

definition call_sent :: "conn_action list" where
  "call_sent = [Set_notifier, Call 0 ''m'' ''{}'', Store 0, Send 0, Write_lands 0, Send_returns 0]"

definition answered_run :: "conn_action list" where
  "answered_run = call_sent @
     [Server_sends (request [] ''n'' ''1''), Server_sends (response ''1'' ''true''), Server_sends (request [] ''n'' ''2''),
      Loop_top, Read, Enqueue, Loop_top, Read, Deliver, Loop_top, Wait_answered 0, Read, Hand_on, Return_call 0]"

theorem notifications_in_order_witness:
  "\<exists>s. conn_run answered_run NewConn = Some s \<and> map fst (delivered s) = [request [] ''n'' ''1''] \<and>
     prefix (map fst (delivered s) @ notifyQ s) [request [] ''n'' ''1'', request [] ''n'' ''2'']"
proof -
  have run: "case conn_run answered_run NewConn of
      Some s \<Rightarrow> map fst (delivered s) = [request [] ''n'' ''1''] \<and>
        filter is_note (arrived s) = [request [] ''n'' ''1'', request [] ''n'' ''2'']
    | None \<Rightarrow> False"
    by code_simp
  then obtain s where s: "conn_run answered_run NewConn = Some s" by (cases "conn_run answered_run NewConn") auto
  then have "conn_reach s" by (rule conn_run_reach) (rule conn_reach.new)
  from notifications_in_order [OF this] show ?thesis using run s by simp
qed

theorem calls_get_their_answer_witness:
  "\<exists>s. conn_run answered_run NewConn = Some s \<and> calls s 0 = Returned ''1'' (Answered (response ''1'' ''true'')) \<and>
     response ''1'' ''true'' \<in> set (arrived s) \<and> (\<forall>u. call_id (calls s u) = ''1'' \<longrightarrow> u = 0)"
proof -
  have run: "case conn_run answered_run NewConn of
      Some s \<Rightarrow> calls s 0 = Returned ''1'' (Answered (response ''1'' ''true'')) | None \<Rightarrow> False"
    by code_simp
  then obtain s where s: "conn_run answered_run NewConn = Some s" by (cases "conn_run answered_run NewConn") auto
  then have "conn_reach s" by (rule conn_run_reach) (rule conn_reach.new)
  from calls_get_their_answer [OF this, of 0 "''1''" "response ''1'' ''true''"] show ?thesis using run s by simp
qed

theorem close_frees_calls_witness:
  "\<exists>s s' r. conn_run (call_sent @ [Server_ends, Loop_top, Read]) NewConn = Some s \<and>
     conn_run [Wait_closed 0, Return_call 0] s = Some s' \<and> calls s' 0 = Returned ''1'' r"
proof -
  let ?run = "conn_run (call_sent @ [Server_ends, Loop_top, Read]) NewConn"
  have run: "case ?run of Some s \<Rightarrow> closed s \<and> calls s 0 = Awaiting ''1'' | None \<Rightarrow> False" by code_simp
  then obtain s where s: "?run = Some s" by (cases ?run) auto
  have r: "conn_reach s" using s by (rule conn_run_reach) (rule conn_reach.new)
  have c: "closed s" "calls s 0 = Awaiting ''1''" using run s by simp_all
  then have "calls s 0 \<noteq> Uncalled" by simp
  from close_frees_calls [OF r c(1) this] obtain s' i q where
    w: "conn_run [Wait_closed 0, Return_call 0] s = Some s'" "calls s' 0 = Returned i q"
    by (auto simp: way_out_def c(2) simp del: conn_run.simps)
  then have "i = ''1''" using c by (auto simp: set_call_def)
  then show ?thesis using s w by blast
qed

definition hex_enc :: "string \<Rightarrow> string" where
  "hex_enc m = CHR ''m'' # m"

definition hex_dec :: "string \<Rightarrow> string option" where
  "hex_dec s = (case s of [] \<Rightarrow> None | c # m \<Rightarrow> if c = CHR ''m'' then Some m else None)"

theorem frames_cut_anywhere_witness:
  "fst (read_messages hex_dec (take 30 (stream_of hex_enc [''a'', [CR, NL, CR, NL], ''b'']))) = [''a'']"
proof -
  have "fst (read_messages hex_dec (take 30 (stream_of hex_enc [''a'', [CR, NL, CR, NL], ''b'']))) =
      whole_frames hex_enc 30 [''a'', [CR, NL, CR, NL], ''b'']"
    by (rule frames_cut_anywhere) (auto simp: hex_enc_def hex_dec_def max_alloc_def)
  also have "\<dots> = [''a'']" by code_simp
  finally show ?thesis .
qed

section \<open>Three ways it goes wrong\<close>

text \<open>
  Identifiers are per direction: the server numbers its requests as it likes. A request whose
  number is that of a pending call is taken for the answer to the call, which succeeds with no
  result; the request is never handled, and nothing is sent in answer to it.
\<close>

definition collision_run :: "conn_action list" where
  "collision_run = call_sent @
     [Set_handler (\<lambda>_ _. Inr (Some (Inr ''[]''))), Server_sends (request ''1'' ''workspace/configuration'' ''{}''),
      Loop_top, Read, Deliver, Wait_answered 0, Return_call 0, Loop_top]"

lemma request_taken_for_answer:
  "case conn_run collision_run NewConn of
     None \<Rightarrow> False
   | Some s \<Rightarrow>
       (case calls s 0 of Returned i (Answered m) \<Rightarrow> call_reply m = Inr None | _ \<Rightarrow> False) \<and>
       requests s = [] \<and> next_write s = 1 \<and> sent s = [request ''1'' ''m'' ''{}''] \<and> inbox s = []"
  by code_simp

text \<open>
  A server that answers one call three times stops the read loop: the second answer fills the
  buffer of the call that has returned, and the third waits for a reader that is gone, until the
  context of that call is cancelled or the connection closes.
\<close>

definition repeated_run :: "conn_action list" where
  "repeated_run = call_sent @
     replicate 3 (Server_sends (response ''1'' ''true'')) @
     [Loop_top, Read, Deliver, Wait_answered 0, Loop_top, Read, Deliver, Loop_top, Read, Return_call 0]"

lemma third_answer_blocks:
  "case conn_run repeated_run NewConn of
     None \<Rightarrow> False
   | Some s \<Rightarrow>
       (case calls s 0 of Returned i r \<Rightarrow> True | _ \<Rightarrow> False) \<and> \<not> closed s \<and>
       list_all (\<lambda>a. Option.is_none (conn_step a s)) [Loop_top, Read, Deliver, Deliver_abandoned, Enqueue, Enqueue_closed]"
  by code_simp

text \<open>A length no slice can have is not refused: \<open>make\<close> panics in the goroutine of the read loop.\<close>

lemma unbounded_length_panics:
  "readMessage hex_dec (length_header @ ''999999999999999999'' @ [CR, NL, CR, NL]) = Inl Makeslice_panics"
  by code_simp

end
