(* ===== verification/Plumb_SafeWrite_Claims.thy ===== *)
theory Plumb_SafeWrite_Claims
  imports Plumb_SafeWrite_Correct
begin

text \<open>
  The properties of the writers, as facts of the interpretations of their contract, and the
  small host on which they are tried: a root directory with \<open>f\<close> and \<open>other\<close> in it, a
  temporary directory, on a chosen device, and a chosen call before which a crash comes.
\<close>

definition demo_os :: "nat os" where
  "demo_os =
     \<lparr>inodes = (\<lambda>_. \<lparr>i_data = 1, i_synced = True, i_mode = 436, i_mtime = 0\<rparr>),
      now_dir = [[''f''] \<mapsto> 0, [''other''] \<mapsto> 1], saved_dir = [[''f''] \<mapsto> 0, [''other''] \<mapsto> 1],
      now_dirs = (\<lambda>d. d = [] \<or> d = [''tmp'']), saved_dirs = (\<lambda>d. d = [] \<or> d = [''tmp'']),
      next_inode = 2, time = 10, calls = 0, warnings = 0, cross_known = []\<rparr>"

definition demo_host :: "nat option \<Rightarrow> bool \<Rightarrow> nat host" where
  "demo_host crash far =
     \<lparr>call_fails = (\<lambda>_. False), crashes = (\<lambda>n. crash = Some n),
      device = (\<lambda>d. if far \<and> d = [''tmp''] then 1 else 0), tmp_dir = [''tmp''], temp_name = (\<lambda>_. ''t''), dir_order = (\<lambda>_. []),
      umask = 18, fsync_on = True, empty = 0\<rparr>"

lemma demo_dir: "now_dir demo_os q = Some i \<longleftrightarrow> q = [''f''] \<and> i = 0 \<or> q = [''other''] \<and> i = 1"
  "saved_dir demo_os = now_dir demo_os"
  by (auto simp: demo_os_def)

lemma demo_tree: "tree demo_os" "dirs_saved demo_os"
  by (auto simp: tree_def dirs_saved_def demo_os_def append_eq_Cons_conv)

lemma demo_sane: "[''f''] \<notin> T \<Longrightarrow> [''other''] \<notin> T \<Longrightarrow> sane T demo_os"
  by (auto simp: sane_def demo_tree demo_dir) (simp_all add: demo_os_def)

lemma demo_settled: "settled demo_os [''f'']" "settled demo_os [''other'']"
  by (auto simp: settled_def demo_dir above_def) (simp_all add: demo_os_def)

lemma demo_names:
  "stage_names (demo_host k far) [''f''] = {[''f.plumb.tmp''], [''tmp'', ''t'']}"
  "temp_names (demo_host k far) [] = {[''t'']}"
  by (auto simp: stage_names_def temp_names_def demo_host_def with_ext_def)

lemmas demo_start = demo_sane demo_names demo_settled demo_tree

lemma survives_entry:
  "saved_dir s p = Some i \<Longrightarrow> i_data (inodes s i) = c \<Longrightarrow> survives s p (Some c)"
  by (simp add: survives_def entry_holds_def)

text \<open>
  C3. With syncing on, and from a state in which the old content of the target has reached stable
  storage, a crash during \<open>safeWrite\<close>, wherever it comes and whichever calls failed before it,
  leaves the target with its old content or the new one, whole, in what stable storage may
  hold; the same is so of a write that ended.
\<close>

theorem safe_write_crash_atomic:
  assumes "sane (stage_names h p) s0" "p \<notin> stage_names h p" "p \<noteq> []"
    and "fsync_on h" "settled s0 p"
    and "safeWrite p c perm h s0 = (r, s)" "survives s p v"
  shows "v = reads s0 p \<or> v = Some c"
  by (rule safe.crash_atomic) (use assms in \<open>auto simp: safe.run_def\<close>)

theorem safe_write_crash_atomic_witness:
  "\<exists>s. safeWrite [''f''] 7 420 (demo_host (Some 10) False) demo_os = (Crashed, s) \<and>
     survives s [''f''] (Some 1) \<and> reads s [''f''] = Some 7 \<and> (Some (1::nat) = reads demo_os [''f''] \<or> Some (1::nat) = Some 7)"
proof -
  let ?h = "demo_host (Some 10) False"
  obtain r s where run: "safeWrite [''f''] 7 420 ?h demo_os = (r, s)" by (cases "safeWrite [''f''] 7 420 ?h demo_os")
  have "fst (safeWrite [''f''] 7 420 ?h demo_os) = Crashed \<and>
      (let s = snd (safeWrite [''f''] 7 420 ?h demo_os)
       in saved_dir s [''f''] = Some 0 \<and> i_data (inodes s 0) = 1 \<and> reads s [''f''] = Some 7)"
    by code_simp
  then have s: "r = Crashed" "survives s [''f''] (Some 1)" "reads s [''f''] = Some 7"
    by (simp_all add: run survives_entry)
  moreover have "Some (1::nat) = reads demo_os [''f''] \<or> Some (1::nat) = Some 7"
    by (rule safe_write_crash_atomic [OF _ _ _ _ _ run s(2)]) (simp_all add: demo_start, simp add: demo_host_def)
  ultimately show ?thesis using run by blast
qed

text \<open>
  C7. A write that \<open>safeWrite\<close> acknowledged with no warning about an unsynced directory, with
  syncing on, is what a crash right after it leaves, even where the write had to create the
  directories above the file.
\<close>

theorem acknowledged_write_survives:
  assumes "sane (stage_names h p) s0" "p \<notin> stage_names h p" "p \<noteq> []"
    and "fsync_on h" "dirs_saved s0"
    and "safeWrite p c perm h s0 = (Done r, s)" "warnings s = warnings s0" "survives s p v"
  shows "v = Some c"
  by (rule safe.durable) (use assms in \<open>auto simp: safe.run_def\<close>)

lemma demo_names_deep: "stage_names (demo_host k far) [''d'', ''g''] = {[''d'', ''g.plumb.tmp''], [''tmp'', ''t'']}"
  by (auto simp: stage_names_def temp_names_def demo_host_def with_ext_def)

theorem acknowledged_write_survives_witness:
  "\<exists>r s. safeWrite [''d'', ''g''] 7 420 (demo_host None False) demo_os = (Done r, s) \<and>
     \<not> survives s [''d'', ''g''] None \<and> survives s [''d'', ''g''] (Some (7::nat))"
proof -
  let ?h = "demo_host None False" and ?p = "[''d'', ''g'']"
  obtain q s where run: "safeWrite ?p 7 420 ?h demo_os = (q, s)" by (cases "safeWrite ?p 7 420 ?h demo_os")
  have "(case fst (safeWrite ?p 7 420 ?h demo_os) of Done r \<Rightarrow> True | Fail e \<Rightarrow> False | Crashed \<Rightarrow> False) \<and>
      (let s = snd (safeWrite ?p 7 420 ?h demo_os)
       in saved_dir s ?p = Some 2 \<and> i_data (inodes s 2) = 7 \<and> warnings s = warnings demo_os)"
    by code_simp
  then have s: "\<exists>r. q = Done r" "survives s ?p (Some 7)" "warnings s = warnings demo_os"
    by (simp_all add: run survives_entry split: res.splits)
  then obtain r where r: "q = Done r" by blast
  have "v = Some 7" if "survives s ?p v" for v
    by (rule acknowledged_write_survives [OF _ _ _ _ _ run [unfolded r] s(3) that])
      (simp_all add: demo_start demo_names_deep, simp add: demo_host_def)
  then have "\<not> survives s ?p None" by blast
  then show ?thesis using run r s(2) by blast
qed


lemma demo_room: "room_for demo_os [''tmp'', ''t''] [''f'']"
  by (auto simp: room_for_def demo_dir) (simp_all add: demo_os_def)


text \<open>
  What item 5 of the safety model at the top of the source file rules out: with the temporary
  directory on another device, the sibling is opened with the mode of the target, which the
  umask cuts down: a group-writable file stops being so when it is rewritten.
\<close>

lemma sibling_mode_masked:
  "visible (snd (safeWrite [''f''] 7 420 (demo_host None True) demo_os)) [''f''] = Some (7, 420)"
  "visible demo_os [''f''] = Some (1, 436)"
  by code_simp+

text \<open>
  \<open>fsync.AtomicWrite\<close> publishes all of the new content or, when it reports an error,
  nothing; a process never reads anything else at the target, also while the write is
  interrupted, and no other file but its staging name changes.
\<close>

theorem state_file_all_or_nothing:
  assumes "sane (temp_names h (butlast p)) s0" "p \<notin> temp_names h (butlast p)" "p \<noteq> []"
    and "AtomicWrite p c m h s0 = (r, s)"
  shows "(case r of Done u \<Rightarrow> reads s p = Some c | Fail e \<Rightarrow> reads s p = reads s0 p
      | Crashed \<Rightarrow> reads s p = reads s0 p \<or> reads s p = Some c) \<and>
    (\<forall>q. q \<noteq> p \<longrightarrow> q \<notin> temp_names h (butlast p) \<longrightarrow> reads s q = reads s0 q)"
proof -
  have run: "state_file.run m h p c s0 r s" using assms by (simp add: state_file.run_def)
  show ?thesis
    using state_file.never_torn [OF run] state_file.others_untouched [OF run] by (simp split: res.split)
qed

theorem state_file_all_or_nothing_witness:
  "\<exists>s. AtomicWrite [''f''] 7 420 (demo_host (Some 7) False) demo_os = (Crashed, s) \<and>
     (reads s [''f''] = reads demo_os [''f''] \<or> reads s [''f''] = Some 7) \<and>
     reads s [''other''] = Some (1::nat)"
proof -
  let ?h = "demo_host (Some 7) False"
  obtain r s where run: "AtomicWrite [''f''] 7 420 ?h demo_os = (r, s)" by (cases "AtomicWrite [''f''] 7 420 ?h demo_os")
  have "fst (AtomicWrite [''f''] 7 420 ?h demo_os) = Crashed" by code_simp
  then have r: "r = Crashed" by (simp add: run)
  have o: "reads demo_os [''other''] = Some 1" by code_simp
  have pre: "sane (temp_names ?h (butlast [''f''])) demo_os" "[''f''] \<notin> temp_names ?h (butlast [''f''])" "[''f''] \<noteq> []"
    by (simp_all add: demo_start)
  show ?thesis
    using state_file_all_or_nothing [OF pre run] run r o by (auto simp: demo_names)
qed

end
