(* ===== verification/Plumb_Stores_Correct.thy ===== *)
theory Plumb_Stores_Correct
  imports Plumb_Stores
begin

text \<open>
  The stores of \<open>Plumb_Stores\<close> meet the contracts of \<open>Plumb_Keyed_Store\<close>: the undo store is
  a lossy store, the read and write trackers are exact ones. The guards of write_guards.go
  rest on them: a change by someone else is noticed under every spelling of the file.
\<close>

definition same_key :: "(string \<Rightarrow> string) \<Rightarrow> string \<Rightarrow> string \<Rightarrow> bool" where
  "same_key key p q = (key p = key q)"

lemma equivp_same_key: "equivp (same_key key)"
  by (auto simp: same_key_def intro!: equivpI reflpI sympI transpI)

section \<open>Undo\<close>

type_synonym undo_content = "string \<times> bool \<times> string \<times> string"

definition undo_content :: "undo_snapshot \<Rightarrow> undo_content" where
  "undo_content s = (u_before s, u_existedBefore s, u_afterSHA s, u_tool s)"

definition snapshot_of :: "undo_content \<Rightarrow> undo_snapshot" where
  "snapshot_of c =
     (case c of (b, e, a, t) \<Rightarrow> \<lparr>u_before = b, u_existedBefore = e, u_afterSHA = a, u_tool = t, u_seq = 0\<rparr>)"

definition undo_ok :: "undo_store \<Rightarrow> bool" where
  "undo_ok u = (distinct (map fst (u_snaps u)) \<and> length (u_snaps u) \<le> maxUndoEntries)"

lemma evictOldest_props:
  assumes "distinct (map fst m)"
  shows "distinct (map fst (evictOldest m))" "m \<noteq> [] \<Longrightarrow> length (evictOldest m) < length m"
    "map_of (evictOldest m) k \<in> {None, map_of m k}"
proof -
  show "distinct (map fst (evictOldest m))"
    using assms by (cases "least_key u_seq m None") (simp_all add: evictOldest_def distinct_delete)
  show "map_of (evictOldest m) k \<in> {None, map_of m k}"
    by (cases "least_key u_seq m None") (simp_all add: evictOldest_def)
  assume "m \<noteq> []"
  then have "least_key u_seq m None \<noteq> None" unfolding least_key_None .
  then obtain k where k: "least_key u_seq m None = Some k" by blast
  from least_key_least [OF k] have "k \<in> fst ` set m" by force
  with assms k \<open>m \<noteq> []\<close> show "length (evictOldest m) < length m"
    by (simp add: evictOldest_def length_delete)
qed

lemma undo_ok_record:
  assumes "undo_ok u"
  shows "undo_ok (undo_record key p s u)"
proof -
  define m where "m = (if key p \<notin> fst ` set (u_snaps u) \<and> maxUndoEntries \<le> length (u_snaps u)
    then evictOldest (u_snaps u) else u_snaps u)"
  have d: "distinct (map fst (u_snaps u))" and l: "length (u_snaps u) \<le> maxUndoEntries"
    using assms by (auto simp: undo_ok_def)
  have "distinct (map fst m)" using d evictOldest_props(1) by (simp add: m_def)
  moreover have "length (AList.update (key p) x m) \<le> maxUndoEntries" for x
  proof (cases "key p \<notin> fst ` set (u_snaps u) \<and> maxUndoEntries \<le> length (u_snaps u)")
    case True
    then have "u_snaps u \<noteq> []" by (auto simp: maxUndoEntries_def)
    from evictOldest_props(2) [OF d this] True l show ?thesis by (simp add: m_def length_update)
  next
    case False
    with l show ?thesis by (auto simp: m_def length_update)
  qed
  ultimately show ?thesis
    by (simp add: undo_ok_def undo_record_def Let_def distinct_update m_def [symmetric])
qed

lemma undo_record_find:
  "map_of (u_snaps (undo_record key p s u)) (key p) = Some (s\<lparr>u_seq := u_next u + 1\<rparr>)"
  by (simp add: undo_record_def Let_def)

lemma undo_record_other:
  assumes "undo_ok u" "k \<noteq> key p"
  shows "map_of (u_snaps (undo_record key p s u)) k \<in> {None, map_of (u_snaps u) k}"
  using assms evictOldest_props(3) [of "u_snaps u" k]
  by (auto simp: undo_record_def Let_def undo_ok_def)

interpretation undo: lossy_store "same_key key"
    "\<lambda>u p. map_option undo_content (undo_peek key u p)"
    "\<lambda>p c. undo_record key p (snapshot_of c)" undo_ok
  for key
proof (unfold_locales, goal_cases)
  case 1
  show ?case by (rule equivp_same_key)
next
  case (2 s p v)
  then show ?case by (rule undo_ok_record)
next
  case (3 s p q)
  then show ?case by (simp add: undo_peek_def same_key_def)
next
  case (4 s p v)
  show ?case
    by (cases v) (simp add: undo_peek_def undo_record_find snapshot_of_def undo_content_def)
next
  case (5 s q p v)
  then have "map_of (u_snaps (undo_record key p (snapshot_of v) s)) (key q) \<in> {None, map_of (u_snaps s) (key q)}"
    by (intro undo_record_other) (auto simp: same_key_def)
  then show ?case by (auto simp: undo_peek_def)
qed

section \<open>Reads and writes\<close>

interpretation reads: exact_store "same_key key" "recorded key" "read_record_at key" "\<lambda>_. True"
  for key
  by unfold_locales
    (auto simp: equivp_same_key recorded_def read_record_at_def same_key_def)

interpretation wrote: exact_store "same_key key" "WroteMtime key" "record_ns key" "\<lambda>_. True"
  for key
  by unfold_locales
    (auto simp: equivp_same_key WroteMtime_def record_ns_def same_key_def)

section \<open>Hydration\<close>

lemma hydrate_one_at:
  "map_of (hydrate_one key m r) k =
     (if key (rr_path r) \<noteq> k then map_of m k
      else case map_of m k of
          None \<Rightarrow> Some (hydrated key r)
        | Some prev \<Rightarrow> Some (if hydrateOutranks (hydrated key r) prev then hydrated key r else prev))"
  by (auto simp: hydrate_one_def Let_def split: option.splits)

lemma hydrate_none:
  "map_of (foldl (hydrate_one key) [] rs) k = None \<longleftrightarrow> (\<forall>r \<in> set rs. key (rr_path r) \<noteq> k)"
  by (induction rs rule: rev_induct) (auto simp: hydrate_one_at split: option.splits)

lemma hydrate_winner:
  assumes "map_of (foldl (hydrate_one key) [] rs) k = Some h"
  shows "(\<exists>r \<in> set rs. key (rr_path r) = k \<and> h = hydrated key r) \<and>
    (\<forall>r \<in> set rs. key (rr_path r) = k \<longrightarrow> \<not> hydrateOutranks (hydrated key r) h)"
  using assms
proof (induction rs arbitrary: h rule: rev_induct)
  case (snoc r rs)
  let ?l = "foldl (hydrate_one key) [] rs"
  have irr: "\<not> hydrateOutranks x x" for x by (simp add: hydrateOutranks_def)
  have tr: "hydrateOutranks a b \<Longrightarrow> \<not> hydrateOutranks c b \<Longrightarrow> \<not> hydrateOutranks c a" for a b c
    by (auto simp: hydrateOutranks_def split: if_splits)
  show ?case
  proof (cases "key (rr_path r) = k")
    case False
    with snoc.prems have "map_of ?l k = Some h" by (simp add: hydrate_one_at)
    with snoc.IH False show ?thesis by auto
  next
    case True
    show ?thesis
    proof (cases "map_of ?l k")
      case None
      with True snoc.prems have h: "h = hydrated key r" by (simp add: hydrate_one_at)
      from None have "\<forall>r \<in> set rs. key (rr_path r) \<noteq> k" by (simp add: hydrate_none)
      with True h irr show ?thesis by auto
    next
      case (Some prev)
      with True snoc.prems have "h = (if hydrateOutranks (hydrated key r) prev then hydrated key r else prev)"
        by (simp add: hydrate_one_at)
      note prev = snoc.IH [OF Some]
      show ?thesis
      proof (cases "hydrateOutranks (hydrated key r) prev")
        case out: True
        then have "h = hydrated key r" using \<open>h = _\<close> by simp
        moreover have "\<not> hydrateOutranks (hydrated key x) (hydrated key r)"
          if "x \<in> set rs" "key (rr_path x) = k" for x
          using prev that tr [OF out] by blast
        ultimately show ?thesis using True irr by auto
      next
        case False
        then have "h = prev" using \<open>h = _\<close> by simp
        with prev False show ?thesis by auto
      qed
    qed
  qed
qed simp

lemma hydrate_one_distinct: "distinct (map fst m) \<Longrightarrow> distinct (map fst (hydrate_one key m r))"
  by (auto simp: hydrate_one_def Let_def distinct_update split: option.splits)

lemma hydrate_distinct: "distinct (map fst (foldl (hydrate_one key) [] rs))"
proof -
  have "distinct (map fst m) \<Longrightarrow> distinct (map fst (foldl (hydrate_one key) m rs))" for m
    by (induction rs arbitrary: m) (auto intro: hydrate_one_distinct)
  then show ?thesis by simp
qed

lemma load_all:
  "distinct (map fst l) \<Longrightarrow>
     map_of (foldl (\<lambda>m (k, h). AList.update k (hy_entry h) m) m l) k =
     (case map_of l k of Some h \<Rightarrow> Some (hy_entry h) | None \<Rightarrow> map_of m k)"
proof (induction l arbitrary: m)
  case (Cons x l)
  obtain j h where x: "x = (j, h)" by fastforce
  have "k = j \<Longrightarrow> map_of l k = None" using Cons.prems x by (simp add: map_of_eq_None_iff)
  with Cons x show ?case by (cases "k = j") (simp_all split: option.splits)
qed simp

lemma Hydrate_recorded:
  "recorded key (Hydrate key rs r) q =
     (case map_of (foldl (hydrate_one key) [] rs) (key q) of
        Some h \<Rightarrow> Some (hy_entry h) | None \<Rightarrow> recorded key r q)"
  by (simp add: Hydrate_def recorded_def load_all [OF hydrate_distinct] split: option.splits)

section \<open>Re-recording\<close>

lemma rerecord_one_at:
  "map_of (wt_written (rerecord_one pre w (j, m))) k =
     (case map_of (wt_written w) k of
        Some r \<Rightarrow> Some (if j = k \<and> r = (case map_of pre k of Some b \<Rightarrow> b | None \<Rightarrow> 0) then m else r)
      | None \<Rightarrow> None)"
  by (auto simp: rerecord_one_def split: option.splits)

lemma rerecord_keeps:
  assumes "k \<notin> fst ` set now"
  shows "map_of (wt_written (rerecord pre now w)) k = map_of (wt_written w) k"
  using assms unfolding rerecord_def
  by (induction now arbitrary: w)
    (auto simp: rerecord_one_def split: prod.splits option.splits)

lemma rerecord_value:
  assumes "distinct (map fst now)" "map_of (wt_written w) k = Some r" "map_of now k = Some n"
    and "map_of pre k = Some b"
  shows "map_of (wt_written (rerecord pre now w)) k = Some (if r = b then n else r)"
  using assms unfolding rerecord_def
proof (induction now arbitrary: w)
  case (Cons x now)
  obtain j m where x: "x = (j, m)" by fastforce
  show ?case
  proof (cases "j = k")
    case True
    with Cons.prems x have "k \<notin> fst ` set now" "m = n" by auto
    have "map_of (wt_written (rerecord pre now (rerecord_one pre w x))) k =
        map_of (wt_written (rerecord_one pre w x)) k"
      by (rule rerecord_keeps) fact
    with Cons.prems x True \<open>m = n\<close> show ?thesis by (simp add: rerecord_def rerecord_one_at)
  next
    case False
    with Cons.prems x have "map_of (wt_written (rerecord_one pre w x)) k = Some r"
      by (simp add: rerecord_one_at)
    with Cons False x show ?thesis by simp
  qed
qed simp

text \<open>A session's captures and reads, in order.\<close>

definition undo_captures ::
  "(string \<Rightarrow> string) \<Rightarrow> (string \<times> undo_content) list \<Rightarrow> undo_store \<Rightarrow> undo_store" where
  "undo_captures key ops u = foldl (\<lambda>u (p, c). undo_record key p (snapshot_of c) u) u ops"

definition read_all ::
  "(string \<Rightarrow> string) \<Rightarrow> (string \<times> read_entry) list \<Rightarrow> read_tracker \<Rightarrow> read_tracker" where
  "read_all key ops r = foldl (\<lambda>r (p, e). read_record_at key p e r) r ops"

lemma undo_captures_put_many: "undo_captures key ops u = undo.put_many key ops u"
  by (simp add: undo_captures_def undo.put_many_def)

lemma read_all_put_many: "read_all key ops r = reads.put_many key ops r"
  by (simp add: read_all_def reads.put_many_def)

section \<open>Properties\<close>

text \<open>The undo store answers for the right write: after any sequence of captured writes, under
  any spellings, what Peek finds for a path is the last snapshot taken for that file; an
  evicted file has no answer rather than a wrong one.\<close>

theorem undo_last_write:
  assumes "map_option undo_content (undo_peek key (undo_captures key ops NewUndoStore) q) = Some c"
  shows "last_for (same_key key) ops q = Some c"
  by (rule undo.find_put_many [OF _ _ assms [unfolded undo_captures_put_many]])
    (simp_all add: undo_ok_def NewUndoStore_def undo_peek_def)

theorem undo_last_write_witness:
  "last_for (same_key id) [(''/a'', (''1'', True, ''h'', ''edit'')), (''/a'', (''2'', True, ''h'', ''edit''))] ''/a''
     = Some (''2'', True, ''h'', ''edit'')"
  by (rule undo_last_write) code_simp

text \<open>The undo store stays within its cap of entries, whatever is captured, and a snapshot is
  taken at most once: after Take there is nothing left to undo for that file.\<close>

theorem undo_bounded_single_use:
  "length (u_snaps (undo_captures key ops NewUndoStore)) \<le> maxUndoEntries \<and>
   undo_peek key (snd (undo_take key q u)) q = None \<and>
   (key p \<noteq> key q \<longrightarrow> undo_peek key (snd (undo_take key q u)) p = undo_peek key u p)"
proof -
  have "undo_ok NewUndoStore" by (simp add: undo_ok_def NewUndoStore_def)
  from undo.ok_put_many [OF this] show ?thesis
    by (auto simp: undo_captures_put_many undo_ok_def undo_take_def undo_peek_def split: option.splits)
qed

theorem undo_bounded_single_use_witness:
  "undo_peek id (snd (undo_take id ''/a'' (undo_record id ''/a'' (snapshot_of (''1'', True, ''h'', ''edit'')) NewUndoStore))) ''/a'' = None"
  using undo_bounded_single_use [of id "[]" "''/a''"
      "undo_record id ''/a'' (snapshot_of (''1'', True, ''h'', ''edit'')) NewUndoStore" "''/a''"] by blast

text \<open>
  The read tracker is exact: after any sequence of reads it answers with the last one of the
  file, under every spelling, and with nothing for a file that was not read.\<close>

theorem reads_exact:
  "recorded key (read_all key ops NewReadTracker) q = last_for (same_key key) ops q"
  unfolding read_all_put_many by (rule reads.find_put_many_exact) (simp_all add: recorded_def NewReadTracker_def)

text \<open>A change by someone else is caught: when the session read a file, under any spelling, and
  the file on disk has a content with another hash, changedSinceSessionRead reports it, and a
  matching expected_mtime does not get past verifyExpectedVersion.\<close>

theorem peer_change_caught:
  assumes "key p = key q" "reads' = read_record_at key p \<lparr>rd_mtime = m, rd_sha = sha c\<rparr> reads"
    and "d (key q) = Some f" "sha (d_content f) \<noteq> sha c" "sha c \<noteq> []"
    and "token \<noteq> []" "parse_time token = Some m"
  shows "changedSinceSessionRead key sha d reads' q \<and>
    verifyExpectedVersion key sha parse_time d q token [] reads' \<noteq> None"
  using assms
  by (auto simp: changedSinceSessionRead_def verifyExpectedVersion_def changedAtSameMtime_def
      recorded_def read_record_at_def)

theorem peer_change_caught_witness:
  "changedSinceSessionRead (\<lambda>p. if p = ''/link'' then ''/f'' else p) id [''/f'' \<mapsto> \<lparr>d_mtime = 5, d_content = ''new''\<rparr>]
     (read_record_at (\<lambda>p. if p = ''/link'' then ''/f'' else p) ''/link'' \<lparr>rd_mtime = 5, rd_sha = id ''old''\<rparr> NewReadTracker)
     ''/f''"
  using peer_change_caught [of "\<lambda>p. if p = ''/link'' then ''/f'' else p" "''/link''" "''/f''" _ 5 id "''old''"
      NewReadTracker "[''/f'' \<mapsto> \<lparr>d_mtime = 5, d_content = ''new''\<rparr>]" "\<lparr>d_mtime = 5, d_content = ''new''\<rparr>" "''t''"
      "\<lambda>_. Some 5", OF _ refl]
  by simp

text \<open>A write that passes the version guard is a write over what the caller read: the file
  exists, its time is the expected one and its hash the expected one, where given; and with an
  expected time only, its hash is the one the session recorded at that time, if any.\<close>

theorem version_guard_sound:
  assumes "verifyExpectedVersion key sha parse_time d path expectedMtime expectedSha reads = None"
    and "expectedMtime \<noteq> [] \<or> expectedSha \<noteq> []"
  shows "\<exists>f. d (key path) = Some f \<and>
    (expectedSha \<noteq> [] \<longrightarrow> sha (d_content f) = expectedSha) \<and>
    (expectedMtime \<noteq> [] \<longrightarrow> parse_time expectedMtime = Some (d_mtime f)) \<and>
    (expectedMtime \<noteq> [] \<and> expectedSha = [] \<longrightarrow>
       (\<forall>e. recorded key reads path = Some e \<and> rd_sha e \<noteq> [] \<and> rd_mtime e = d_mtime f \<longrightarrow>
          sha (d_content f) = rd_sha e))"
  using assms
  by (auto simp: verifyExpectedVersion_def Let_def changedAtSameMtime_def split: option.splits if_splits)

theorem version_guard_sound_witness:
  "\<exists>f. [''/f'' \<mapsto> \<lparr>d_mtime = 5, d_content = ''x''\<rparr>] (id ''/f'') = Some f \<and> id (d_content f) = ''x''"
  using version_guard_sound [of id id "\<lambda>_. None" "[''/f'' \<mapsto> \<lparr>d_mtime = 5, d_content = ''x''\<rparr>]" "''/f''" "[]" "''x''"
      NewReadTracker]
  by (simp add: verifyExpectedVersion_def)

text \<open>
  Hydration does not depend on the order in which the store returns the rows, as long as any
  two rows of one file that neither outranks hold the same read.\<close>

theorem hydrate_order:
  assumes "set rs = set rs'"
    and "\<And>a b. a \<in> set rs \<Longrightarrow> b \<in> set rs \<Longrightarrow> key (rr_path a) = key (rr_path b) \<Longrightarrow>
      \<not> hydrateOutranks (hydrated key a) (hydrated key b) \<Longrightarrow>
      \<not> hydrateOutranks (hydrated key b) (hydrated key a) \<Longrightarrow> hy_entry (hydrated key a) = hy_entry (hydrated key b)"
  shows "recorded key (Hydrate key rs r) q = recorded key (Hydrate key rs' r) q"
proof (cases "map_of (foldl (hydrate_one key) [] rs) (key q)")
  case None
  then have "map_of (foldl (hydrate_one key) [] rs') (key q) = None"
    using assms(1) by (simp add: hydrate_none)
  with None show ?thesis by (simp add: Hydrate_recorded)
next
  case (Some h)
  then obtain h' where h': "map_of (foldl (hydrate_one key) [] rs') (key q) = Some h'"
    using assms(1) hydrate_none by (metis not_None_eq)
  from hydrate_winner [OF Some] hydrate_winner [OF h'] assms(1) obtain a b where
    "a \<in> set rs" "key (rr_path a) = key q" "h = hydrated key a"
    "b \<in> set rs" "key (rr_path b) = key q" "h' = hydrated key b"
    "\<not> hydrateOutranks h' h" "\<not> hydrateOutranks h h'"
    by metis
  with assms(2) [of a b] have "hy_entry h = hy_entry h'" by simp
  with Some h' show ?thesis by (simp add: Hydrate_recorded)
qed

definition row :: "string \<Rightarrow> int \<Rightarrow> string \<Rightarrow> read_record" where
  "row p m s = \<lparr>rr_path = p, rr_mtime = m, rr_sha = s\<rparr>"

definition link_key :: "string \<Rightarrow> string" where
  "link_key p = (if p \<in> {''/l'', ''/m''} then ''/f'' else p)"

theorem hydrate_order_witness:
  "recorded link_key (Hydrate link_key [row ''/l'' 9 ''old'', row ''/f'' 5 ''new''] NewReadTracker) ''/f'' =
   recorded link_key (Hydrate link_key [row ''/f'' 5 ''new'', row ''/l'' 9 ''old''] NewReadTracker) ''/f''"
  by (rule hydrate_order) (auto simp: row_def link_key_def hydrated_def hydrateOutranks_def)

text \<open>The proviso is needed: of two rows of one file under alias spellings with equal times and
  different hashes, the one the store returned first wins.\<close>

lemma hydrate_order_dependent:
  "recorded link_key (Hydrate link_key [row ''/l'' 5 ''one'', row ''/m'' 5 ''two''] NewReadTracker) ''/f'' \<noteq>
   recorded link_key (Hydrate link_key [row ''/m'' 5 ''two'', row ''/l'' 5 ''one''] NewReadTracker) ''/f''"
  by code_simp

text \<open>Re-recording after a git operation never launders a change made by someone else: a file
  that already differed from the record before the operation keeps its record, and so does one
  that another write of the session re-recorded in between.\<close>

theorem rerecord_no_laundering:
  assumes "map_of (wt_written w0) k = Some r" "distinct (map fst (wt_written w0))"
    and "map_of (wt_written w1) k = Some r1" "statMtime d0 k \<noteq> r \<or> r1 \<noteq> r"
  shows "map_of (wt_written (rerecord (unchangedUnder within key d0 root w0)
      (changedSince d1 (unchangedUnder within key d0 root w0)) w1)) k = Some r1"
proof -
  let ?pre = "unchangedUnder within key d0 root w0" and ?now = "changedSince d1 (unchangedUnder within key d0 root w0)"
  have dp: "distinct (map fst ?pre)"
    unfolding unchangedUnder_def by (intro distinct_filter_keys assms(2))
  have fst_now: "map fst ?now = map fst (filter (\<lambda>(k, was). statMtime d1 k \<noteq> was) ?pre)"
    by (auto simp: changedSince_def)
  then have dn: "distinct (map fst ?now)" using distinct_filter_keys [OF dp] by simp
  have pre: "map_of ?pre k = Some b \<Longrightarrow> b = r \<and> statMtime d0 k = r" for b
    using assms(1) by (auto dest!: map_of_SomeD simp: unchangedUnder_def map_of_eq_Some_iff [OF assms(2), symmetric]
        simp del: map_of_eq_Some_iff)
  show ?thesis
  proof (cases "k \<in> fst ` set ?now")
    case False
    with rerecord_keeps assms(3) show ?thesis by metis
  next
    case True
    then obtain n where n: "map_of ?now k = Some n"
      by (metis map_of_eq_None_iff not_None_eq)
    from arg_cong [OF fst_now, of set] True have "k \<in> fst ` set ?pre" by auto
    then obtain b where b: "map_of ?pre k = Some b" by (metis map_of_eq_None_iff not_None_eq)
    with pre assms(4) have "r1 \<noteq> b" by auto
    with rerecord_value [OF dn assms(3) n b] show ?thesis by simp
  qed
qed

theorem rerecord_no_laundering_witness:
  "map_of (wt_written (rerecord (unchangedUnder (\<lambda>_ _. True) id (\<lambda>_. None) ''/'' \<lparr>wt_written = [(''/f'', 7)]\<rparr>)
      (changedSince (\<lambda>_. None) (unchangedUnder (\<lambda>_ _. True) id (\<lambda>_. None) ''/'' \<lparr>wt_written = [(''/f'', 7)]\<rparr>))
      \<lparr>wt_written = [(''/f'', 7)]\<rparr>)) ''/f'' = Some 7"
  by (rule rerecord_no_laundering [of _ _ 7]) (simp_all add: statMtime_def)

end
