(* ===== verification/Plumb_TextEdits_Correct.thy ===== *)
theory Plumb_TextEdits_Correct
  imports Plumb_TextEdits
begin

text \<open>
  Two contracts of \<open>edit_apply.go\<close>. In one file: disjoint edits, applied one after the other to
  the changing buffer, give the text in which every range of the original was replaced at
  once. Over many files: a workspace edit is applied to all of its files or to none, as long
  as the writes of the rollback succeed.
\<close>

section \<open>Offsets\<close>

lemma offset_scan_range: "offset_scan pos l c i data = Some r \<Longrightarrow> i \<le> r \<and> r \<le> i + length data"
  by (induction data arbitrary: l c i) (fastforce split: if_splits)+

lemma offset_range: "offsetForPosition data pos = Some r \<Longrightarrow> r \<le> length data"
  by (auto simp: offsetForPosition_def split: if_splits dest: offset_scan_range)

lemma offset_scan_prefix:
  "offset_scan pos l c i data = Some (i + r) \<Longrightarrow> r \<le> k \<Longrightarrow> k \<le> length data \<Longrightarrow>
     offset_scan pos l c i (take k data @ z) = Some (i + r)"
proof (induction data arbitrary: l c i r k)
  case Nil
  then show ?case by (cases z) (auto split: if_splits)
next
  case (Cons b bs)
  show ?case
  proof (cases "l = p_line pos \<and> c = p_char pos")
    case True
    with Cons.prems show ?thesis by (cases k; cases z) (auto split: if_splits)
  next
    case False
    let ?l = "if b = CHR ''\<newline>'' then l + 1 else l" and ?c = "if b = CHR ''\<newline>'' then 0 else c + 1"
    from False Cons.prems have s: "offset_scan pos ?l ?c (Suc i) bs = Some (i + r)"
      by (auto split: if_splits)
    with offset_scan_range [OF s] obtain r' where r: "r = Suc r'" by (cases r) auto
    with Cons.prems obtain k' where k: "k = Suc k'" by (cases k) auto
    from Cons.IH [of ?l ?c "Suc i" r' k'] s r k Cons.prems
    have "offset_scan pos ?l ?c (Suc i) (take k' bs @ z) = Some (i + r)" by simp
    with False k show ?thesis by (auto split: if_splits)
  qed
qed

lemma offset_prefix:
  "offsetForPosition data pos = Some r \<Longrightarrow> r \<le> k \<Longrightarrow> k \<le> length data \<Longrightarrow>
     offsetForPosition (take k data @ z) pos = Some r"
  using offset_scan_prefix [of pos 0 0 0 data r k z]
  by (auto simp: offsetForPosition_def split: if_splits)

section \<open>One file\<close>

text \<open>
  The edits of a list that goes backwards through the text, with their offsets in the
  original; \<open>hi\<close> is where the previous edit began.
\<close>

fun placed :: "string \<Rightarrow> nat \<Rightarrow> text_edit list \<Rightarrow> (nat \<times> nat \<times> string) list option" where
  "placed data hi [] = Some []"
| "placed data hi (e # es) =
     (case (offsetForPosition data (e_start e), offsetForPosition data (e_end e)) of
        (Some s, Some t) \<Rightarrow>
          if s \<le> t \<and> t \<le> hi then map_option (\<lambda>ps. (s, t, e_new e) # ps) (placed data s es) else None
      | _ \<Rightarrow> None)"

text \<open>The original up to \<open>hi\<close> with every placed range replaced.\<close>

fun replace_all :: "string \<Rightarrow> nat \<Rightarrow> (nat \<times> nat \<times> string) list \<Rightarrow> string" where
  "replace_all data hi [] = take hi data"
| "replace_all data hi ((s, t, new) # ps) = replace_all data s ps @ new @ drop t (take hi data)"

lemma apply_sorted_placed:
  "placed data hi es = Some ps \<Longrightarrow> hi \<le> length data \<Longrightarrow>
     apply_sorted (take hi data @ z) es = Inr (replace_all data hi ps @ z)"
proof (induction es arbitrary: hi ps z)
  case (Cons e es)
  from Cons.prems(1) obtain s t qs where st: "offsetForPosition data (e_start e) = Some s"
    "offsetForPosition data (e_end e) = Some t" "s \<le> t" "t \<le> hi"
    and qs: "placed data s es = Some qs" and ps: "ps = (s, t, e_new e) # qs"
    by (auto split: option.splits if_splits)
  have o: "offsetForPosition (take hi data @ z) (e_start e) = Some s"
    "endOffsetForPosition (take hi data @ z) (e_end e) = Some t"
    using offset_prefix [OF st(1), of hi z] offset_prefix [OF st(2), of hi z] st Cons.prems(2)
    by (simp_all add: endOffsetForPosition_def)
  have cut: "take s (take hi data @ z) = take s data" "drop t (take hi data @ z) = drop t (take hi data) @ z"
    using st Cons.prems(2) by auto
  have "apply_sorted (take hi data @ z) (e # es) =
      apply_sorted (take s data @ (e_new e @ drop t (take hi data) @ z)) es"
    using o st(3) by (simp only: apply_sorted.simps option.case cut if_False not_less [symmetric] append_assoc)
  also have "\<dots> = Inr (replace_all data s qs @ (e_new e @ drop t (take hi data) @ z))"
    using Cons.IH [OF qs, of "e_new e @ drop t (take hi data) @ z"] st Cons.prems(2) by simp
  finally show ?case by (simp add: ps)
qed simp

lemma applyTextEdits_placed:
  "placed data (length data) (sort_edits es) = Some ps \<Longrightarrow>
     applyTextEdits data es = Inr (replace_all data (length data) ps)"
  using apply_sorted_placed [of data "length data" "sort_edits es" ps "[]"]
  by (simp add: applyTextEdits_def)

section \<open>The targets\<close>

lemma index_of_key_None:
  "index_of_key key k ts = None \<longleftrightarrow> k \<notin> set (map (\<lambda>t. key (t_path t)) ts)"
  by (force simp: index_of_key_def find_None_iff in_set_conv_nth)

lemma index_of_key_Some: "index_of_key key k ts = Some i \<Longrightarrow> i < length ts \<and> key (t_path (ts ! i)) = k"
  by (auto simp: index_of_key_def find_Some_iff)

lemma collect_targets_distinct:
  "collect_targets key windows es acc = Inr ts \<Longrightarrow> distinct (map (\<lambda>t. key (t_path t)) acc) \<Longrightarrow>
     distinct (map (\<lambda>t. key (t_path t)) ts)"
proof (induction key windows es acc rule: collect_targets.induct)
  case (2 key windows uri edits es acc)
  let ?p = "uriToPath uri windows"
  show ?case
  proof (cases "index_of_key key (key ?p) acc")
    case None
    with 2 show ?thesis by (simp add: Let_def index_of_key_None)
  next
    case (Some i)
    then have i: "i < length acc" using index_of_key_Some by blast
    have "map (\<lambda>t. key (t_path t)) (acc[i := (acc ! i)\<lparr>t_edits := edits\<rparr>]) =
        (map (\<lambda>t. key (t_path t)) acc)[i := map (\<lambda>t. key (t_path t)) acc ! i]"
      using i by (simp add: map_update)
    then have "map (\<lambda>t. key (t_path t)) (acc[i := (acc ! i)\<lparr>t_edits := edits\<rparr>]) =
        map (\<lambda>t. key (t_path t)) acc"
      by (simp only: list_update_id)
    with 2 Some show ?thesis by (auto simp: Let_def split: if_splits)
  qed
qed simp

lemma workspaceEditTargets_distinct:
  assumes "workspaceEditTargets key windows we = Inr ts"
  shows "distinct (map (\<lambda>t. key (t_path t)) ts)"
proof -
  from assms obtain us where us: "collect_targets key windows (workspaceEditEntries we) [] = Inr us"
    "ts = sort_key t_path us"
    by (auto simp: workspaceEditTargets_def split: sum.splits)
  from collect_targets_distinct [OF us(1)] have "distinct (map (\<lambda>t. key (t_path t)) us)" by simp
  then show ?thesis by (simp add: us(2) distinct_map inj_on_def)
qed

section \<open>All files or none\<close>

abbreviation plan_key :: "(string \<Rightarrow> string) \<Rightarrow> edit_plan \<Rightarrow> string" where
  "plan_key key p \<equiv> key (pl_path p)"

text \<open>The plan's file holds the content it was prepared from.\<close>

definition prepared :: "(string \<Rightarrow> string) \<Rightarrow> world \<Rightarrow> edit_plan \<Rightarrow> bool" where
  "prepared key w p = (\<exists>m. files w (plan_key key p) = Some \<lparr>f_data = pl_before p, f_mode = m\<rparr>)"

text \<open>\<open>w\<close> is \<open>w0\<close> with exactly the plans of \<open>ps\<close> written.\<close>

definition written :: "(string \<Rightarrow> string) \<Rightarrow> world \<Rightarrow> edit_plan list \<Rightarrow> world \<Rightarrow> bool" where
  "written key w0 ps w =
     (distinct (map (plan_key key) ps) \<and>
      (\<forall>p \<in> set ps. \<exists>m. files w0 (plan_key key p) = Some \<lparr>f_data = pl_before p, f_mode = m\<rparr> \<and>
                      files w (plan_key key p) = Some \<lparr>f_data = pl_after p, f_mode = m\<rparr>) \<and>
      (\<forall>k. k \<notin> plan_key key ` set ps \<longrightarrow> files w k = files w0 k))"

lemma recordHistory_simps [simp]:
  "files (recordHistory op p b a w) = files w" "writes (recordHistory op p b a w) = writes w"
  by (simp_all add: recordHistory_def)

lemma safeWrite_cases:
  assumes "safeWrite_view ok key path data perm w = (w', good)"
  shows "files w' = (if good then (files w)(key path := Some \<lparr>f_data = data,
           f_mode = (case files w (key path) of Some f \<Rightarrow> f_mode f | None \<Rightarrow> perm)\<rparr>) else files w)"
  using assms by (auto simp: safeWrite_view_def Let_def split: if_splits)

lemma rollback_restores:
  "rollback ok key ps w = (w', True) \<Longrightarrow> written key w0 ps w \<Longrightarrow> files w' = files w0"
proof (induction ps arbitrary: w)
  case (Cons p ps)
  obtain w1 where w1: "safeWrite_view ok key (pl_path p) (pl_before p) (pl_mode p) w = (w1, True)"
    and r: "rollback ok key ps (recordHistory Op_revert (pl_path p) (pl_after p) (pl_before p) w1) = (w', True)"
    using Cons.prems(1) by (auto simp: Let_def split: prod.splits if_splits)
  from Cons.prems(2) obtain m where m: "files w0 (plan_key key p) = Some \<lparr>f_data = pl_before p, f_mode = m\<rparr>"
    "files w (plan_key key p) = Some \<lparr>f_data = pl_after p, f_mode = m\<rparr>"
    by (auto simp: written_def)
  have "files w1 = (files w)(plan_key key p := files w0 (plan_key key p))"
    using safeWrite_cases [OF w1] m by simp
  with Cons.prems(2) have "written key w0 ps (recordHistory Op_revert (pl_path p) (pl_after p) (pl_before p) w1)"
    by (auto simp: written_def image_iff)
  from Cons.IH [OF r this] show ?case .
qed (auto simp: written_def)

lemma rollback_outside:
  "rollback ok key ps w = (w', b) \<Longrightarrow> k \<notin> plan_key key ` set ps \<Longrightarrow> files w' k = files w k"
proof (induction ps arbitrary: w b)
  case (Cons p ps)
  then show ?case
    by (fastforce simp: Let_def dest: safeWrite_cases split: prod.splits if_splits)
qed simp

definition write_ok :: "(string \<Rightarrow> string) \<Rightarrow> world \<Rightarrow> edit_plan list \<Rightarrow> world \<Rightarrow> apply_outcome \<Rightarrow> bool" where
  "write_ok key w0 ps w' out =
     (case out of
        Applied ms \<Rightarrow> ms = map pl_path ps \<and> written key w0 ps w'
      | Write_failed ms \<Rightarrow> files w' = files w0
      | Rollback_failed ms \<Rightarrow> (\<forall>k. k \<notin> plan_key key ` set ps \<longrightarrow> files w' k = files w0 k)
      | _ \<Rightarrow> False)"

lemma written_rev: "written key w0 (rev ps) w = written key w0 ps w"
  by (simp add: written_def rev_map [symmetric])

lemma write_all_ok:
  "write_all ok key ps dn w = (w', out) \<Longrightarrow> written key w0 dn w \<Longrightarrow>
     distinct (map (plan_key key) (dn @ ps)) \<Longrightarrow> \<forall>p \<in> set ps. prepared key w0 p \<Longrightarrow>
     write_ok key w0 (rev dn @ ps) w' out"
proof (induction ps arbitrary: dn w)
  case Nil
  then show ?case by (auto simp: write_ok_def written_rev rev_map)
next
  case (Cons p ps)
  obtain w1 good where w1: "safeWrite_view ok key (pl_path p) (pl_after p) (pl_mode p) w = (w1, good)"
    by fastforce
  note f1 = safeWrite_cases [OF w1]
  show ?case
  proof (cases good)
    case True
    let ?w2 = "recordHistory Op_update (pl_path p) (pl_before p) (pl_after p) w1"
    from Cons.prems(4) obtain m where m: "files w0 (plan_key key p) = Some \<lparr>f_data = pl_before p, f_mode = m\<rparr>"
      by (auto simp: prepared_def)
    have fresh: "plan_key key p \<notin> plan_key key ` set dn" using Cons.prems(3) by auto
    with Cons.prems(2) m have "files w (plan_key key p) = Some \<lparr>f_data = pl_before p, f_mode = m\<rparr>"
      by (simp add: written_def)
    with f1 True have "files ?w2 = (files w)(plan_key key p := Some \<lparr>f_data = pl_after p, f_mode = m\<rparr>)"
      by simp
    with Cons.prems(2,3) m fresh have "written key w0 (p # dn) ?w2"
      by (auto simp: written_def image_iff)
    moreover have "write_all ok key ps (p # dn) ?w2 = (w', out)"
      using Cons.prems(1) w1 True by simp
    moreover have "distinct (map (plan_key key) ((p # dn) @ ps))" using Cons.prems(3) by auto
    ultimately show ?thesis using Cons.IH [of "p # dn" ?w2] Cons.prems(4) by simp
  next
    case False
    obtain w2 b where r: "rollback ok key dn w1 = (w2, b)" by fastforce
    from f1 False Cons.prems(2) have wr: "written key w0 dn w1" by (simp add: written_def)
    have out: "w' = w2" "out = (if b then Write_failed (rev (map pl_path dn)) else Rollback_failed (rev (map pl_path dn)))"
      using Cons.prems(1) w1 False r by auto
    show ?thesis
    proof (cases b)
      case True
      with rollback_restores [of ok key dn w1 w2 w0] r wr out show ?thesis by (simp add: write_ok_def)
    next
      case False
      with rollback_outside [OF r] wr out show ?thesis
        by (auto simp: write_ok_def written_def)
    qed
  qed
qed

lemma prepare_one_ok:
  assumes "prepareTextEditsLocked key w t = Inr p"
  shows "pl_path p = t_path t \<and> prepared key w p \<and> applyTextEdits (pl_before p) (t_edits t) = Inr (pl_after p)"
proof -
  from assms obtain f a where f: "files w (key (t_path t)) = Some f" "applyTextEdits (f_data f) (t_edits t) = Inr a"
    and p: "pl_path p = t_path t" "pl_before p = f_data f" "pl_after p = a"
    by (auto simp: prepareTextEditsLocked_def split: option.splits sum.splits)
  have "f = \<lparr>f_data = f_data f, f_mode = f_mode f\<rparr>" by simp
  with f p show ?thesis unfolding prepared_def by metis
qed

lemma prepare_all_ok:
  "prepare_all key w ts = Inr ps \<Longrightarrow>
     list_all2 (\<lambda>t p. pl_path p = t_path t \<and> prepared key w p \<and>
       applyTextEdits (pl_before p) (t_edits t) = Inr (pl_after p)) ts ps"
  by (induction ts arbitrary: ps) (auto dest: prepare_one_ok split: sum.splits)

section \<open>Properties\<close>

text \<open>Edits whose ranges are disjoint in the file, given in any order that applyTextEdits sorts
  backwards, produce the text in which every range of the original is replaced at once:
  resolving each position against the already edited buffer makes no difference.\<close>

theorem text_edits_simultaneous:
  assumes "placed data (length data) (sort_edits es) = Some ps"
  shows "applyTextEdits data es = Inr (replace_all data (length data) ps)"
  by (rule applyTextEdits_placed [OF assms])

theorem text_edits_simultaneous_witness:
  "applyTextEdits (''foo bar'')
     [mk_edit (mk_pos 0 0) (mk_pos 0 3) ''longer'', mk_edit (mk_pos 0 4) (mk_pos 0 7) ''x''] =
   Inr ''longer x''"
proof -
  have "placed ''foo bar'' (length ''foo bar'')
      (sort_edits [mk_edit (mk_pos 0 0) (mk_pos 0 3) ''longer'', mk_edit (mk_pos 0 4) (mk_pos 0 7) ''x'']) =
      Some [(4, 7, ''x''), (0, 3, ''longer'')]"
    by code_simp
  from text_edits_simultaneous [OF this] show ?thesis by simp
qed

text \<open>Two insertions at one position land in the reverse of the order in which the server listed
  them; the protocol gives them the order of the list.\<close>

lemma same_position_reversed:
  "applyTextEdits ''x'' [mk_edit (mk_pos 0 0) (mk_pos 0 0) ''A'', mk_edit (mk_pos 0 0) (mk_pos 0 0) ''B''] =
   Inr ''BAx''"
  by code_simp

lemma prepared_plans:
  assumes "workspaceEditTargets key windows we = Inr ts" "prepare_all key w ts = Inr ps"
    and "write_all ok key ps [] w = (w', out)"
  shows "map pl_path ps = map t_path ts" "plan_key key ` set ps = key ` t_path ` set ts"
    "write_ok key w ps w' out"
proof -
  note rel = prepare_all_ok [OF assms(2)]
  then have len: "length ts = length ps" by (rule list_all2_lengthD)
  have nth: "pl_path (ps ! i) = t_path (ts ! i)" "prepared key w (ps ! i)" if "i < length ps" for i
    using list_all2_nthD2 [OF rel that] by auto
  show paths: "map pl_path ps = map t_path ts"
    by (rule nth_equalityI) (simp_all add: len nth)
  have keys: "map (plan_key key) ps = map (\<lambda>t. key (t_path t)) ts"
    by (rule nth_equalityI) (simp_all add: len nth)
  from arg_cong [OF keys, of set] show "plan_key key ` set ps = key ` t_path ` set ts"
    by (simp add: image_image)
  have "distinct (map (plan_key key) ([] @ ps))"
    using workspaceEditTargets_distinct [OF assms(1)] keys by simp
  moreover have "\<forall>p \<in> set ps. prepared key w p"
    using nth(2) by (metis in_set_conv_nth)
  moreover have "written key w [] w" by (simp add: written_def)
  ultimately show "write_ok key w ps w' out"
    using write_all_ok [OF assms(3)] by simp
qed

lemma written_target:
  assumes "prepare_all key w ts = Inr ps" "written key w ps w'" "t \<in> set ts"
  shows "\<exists>f a. files w (key (t_path t)) = Some f \<and> applyTextEdits (f_data f) (t_edits t) = Inr a \<and>
      files w' (key (t_path t)) = Some (f\<lparr>f_data := a\<rparr>)"
proof -
  note rel = prepare_all_ok [OF assms(1)]
  from assms(3) obtain i where i: "i < length ts" "t = ts ! i" by (metis in_set_conv_nth)
  then have "ps ! i \<in> set ps" using list_all2_lengthD [OF rel] by simp
  with list_all2_nthD [OF rel i(1)] i(2) obtain p where
    p: "p \<in> set ps" "pl_path p = t_path t" "applyTextEdits (pl_before p) (t_edits t) = Inr (pl_after p)"
    by metis
  with assms(2) obtain m where "files w (key (t_path t)) = Some \<lparr>f_data = pl_before p, f_mode = m\<rparr>"
    "files w' (key (t_path t)) = Some \<lparr>f_data = pl_after p, f_mode = m\<rparr>"
    unfolding written_def by metis
  with p(3) show ?thesis by auto
qed

text \<open>C2. A workspace edit is applied to all of its files or to none. When it is applied, each target
  holds its edited content and every other file is as before; when a write fails and the
  rollback's writes succeed, every file is as before; when it is refused, nothing was written.
  Two spellings of one file (one key) never become two targets.\<close>

theorem workspace_edit_all_or_nothing:
  assumes "applyWorkspaceEdit ok key windows (Some we) w = (w', out)"
  shows "case out of
      Nothing_to_do \<Rightarrow> False
    | Refused e \<Rightarrow> w' = w
    | Write_failed ms \<Rightarrow> files w' = files w
    | Applied ms \<Rightarrow> (\<exists>ts. workspaceEditTargets key windows we = Inr ts \<and> ms = map t_path ts \<and>
        distinct (map (\<lambda>t. key (t_path t)) ts) \<and>
        (\<forall>t \<in> set ts. \<exists>f a. files w (key (t_path t)) = Some f \<and>
           applyTextEdits (f_data f) (t_edits t) = Inr a \<and> files w' (key (t_path t)) = Some (f\<lparr>f_data := a\<rparr>)) \<and>
        (\<forall>k. k \<notin> key ` t_path ` set ts \<longrightarrow> files w' k = files w k))
    | Rollback_failed ms \<Rightarrow> (\<exists>ts. workspaceEditTargets key windows we = Inr ts \<and>
        (\<forall>k. k \<notin> key ` t_path ` set ts \<longrightarrow> files w' k = files w k))"
proof (cases "workspaceEditTargets key windows we")
  case (Inl e)
  with assms show ?thesis by (auto simp: applyWorkspaceEdit_def)
next
  case ts: (Inr ts)
  show ?thesis
  proof (cases "prepare_all key w ts")
    case (Inl e)
    with ts assms show ?thesis by (auto simp: applyWorkspaceEdit_def)
  next
    case ps: (Inr ps)
    from assms ts ps have run: "write_all ok key ps [] w = (w', out)"
      by (simp add: applyWorkspaceEdit_def)
    note plans = prepared_plans [OF ts ps run]
    show ?thesis
    proof (cases out)
      case (Applied ms)
      with plans have w: "written key w ps w'" "ms = map t_path ts" by (auto simp: write_ok_def)
      with Applied ts plans(2) workspaceEditTargets_distinct [OF ts] written_target [OF ps w(1)]
      show ?thesis by (auto simp: written_def)
    qed (use plans(2,3) ts in \<open>auto simp: write_ok_def\<close>)
  qed
qed

definition two_files :: world where
  "two_files = \<lparr>files = [''/a'' \<mapsto> \<lparr>f_data = ''one'', f_mode = 420\<rparr>, ''/b'' \<mapsto> \<lparr>f_data = ''two'', f_mode = 384\<rparr>],
     writes = 0, history = []\<rparr>"

definition two_edits :: workspace_edit where
  "two_edits = \<lparr>w_changes = [(''file:///b'', [mk_edit (mk_pos 0 0) (mk_pos 0 3) ''2'']),
                            (''file:///a'', [mk_edit (mk_pos 0 0) (mk_pos 0 3) ''1''])],
     w_documents = []\<rparr>"

theorem workspace_edit_all_or_nothing_witness:
  "\<exists>w'. applyWorkspaceEdit (\<lambda>n. n \<noteq> 1) id False (Some two_edits) two_files = (w', Write_failed [''/a'']) \<and>
     files w' = files two_files \<and> writes w' = 3"
proof -
  have "(\<lambda>(w', out). (out, writes w')) (applyWorkspaceEdit (\<lambda>n. n \<noteq> 1) id False (Some two_edits) two_files) =
      (Write_failed [''/a''], 3)"
    by code_simp
  then obtain w' where w': "applyWorkspaceEdit (\<lambda>n. n \<noteq> 1) id False (Some two_edits) two_files = (w', Write_failed [''/a''])"
    "writes w' = 3"
    by (auto split: prod.splits)
  from workspace_edit_all_or_nothing [OF w'(1)] w' show ?thesis by auto
qed

end
