(* ===== verification/Plumb_Transaction_Claims.thy ===== *)
theory Plumb_Transaction_Claims
  imports Plumb_Transaction_Demo Plumb_Transaction_Faults
begin

text \<open>
  What \<open>transaction_apply\<close> and its log promise: all or nothing when the call returns, and all
  old again after a crash in the middle of the writes and a recovery, however often that is
  interrupted itself. Then two executions for which the promise is not kept.
\<close>

section \<open>When the call returns\<close>

text \<open>
  C4. A transaction that returns has written all of its files, or has taken back those it wrote:
  whatever calls of the host fail. On success every file has its new content. An error is one of
  two. Either a write was refused or failed, and then the files written before it are restored:
  each is old again, and one that is left new was not restored by a call of the rollback that
  failed, and is not in the list the error returns. Or the gate refused the new errors: each file
  is old and listed as restored, or new, listed as skipped, by a call that failed. A crash leaves
  each file whole, old or new.
\<close>

theorem transaction_all_or_nothing:
  assumes "tx_place h env E ws ps" "sees h E (reads s) s" "holds_before ps (reads s)"
    and "transaction_apply sha env (Some ws) callID count failOnNewErrors newErrors ps h s = (r, s1)"
  shows "case r of
      Done (Inr w) \<Rightarrow> w = ps \<and> holds_after ps (reads s1)
    | Done (Inl x) \<Rightarrow>
        (case x of
           Rolled_back q undone \<Rightarrow> taken_back h env ps q undone s1
         | New_errors undone skipped \<Rightarrow> failOnNewErrors \<and> newErrors ps \<and> gated h sha ps undone skipped s1
         | _ \<Rightarrow> False)
    | Fail e \<Rightarrow> False
    | Crashed \<Rightarrow> \<forall>p \<in> set ps. reads s1 (path_of (tp_path p)) \<in> {Some (Text (tp_before p)), Some (Text (tp_after p))}"
proof -
  have "holds h E (new_files ps {}) s"
    using assms(2,3) by (auto simp: holds_def new_files_def holds_before_def)
  note run = tripleD [OF apply_step [OF assms(1)] this assms(4)]
  show ?thesis
  proof (cases r)
    case (Done x)
    then show ?thesis
      using run new_files_reads(1) [OF assms(1), of "set ps" s1] by (cases x) (auto simp: holds_after_def)
  next
    case Crashed
    then show ?thesis using run new_files_reads(2) [OF assms(1), of UNIV s1] by auto
  qed (use run in simp)
qed

text \<open>Two faults: the log cannot be begun, and then the second file is not written; the first is restored.\<close>

theorem transaction_all_or_nothing_witness:
  "\<exists>s. transaction_apply id tx_demo_env (Some [''w'']) ''c'' 1 False (\<lambda>_. False) tx_demo_ops (tx_demo_failing 17) tx_demo_os =
       (Done (Inl (Rolled_back ''/w/b'' [''/w/a''])), s) \<and>
     taken_back (tx_demo_failing 17) tx_demo_env tx_demo_ops ''/w/b'' [''/w/a''] s \<and> holds_before tx_demo_ops (reads s)"
proof -
  let ?h = "tx_demo_failing 17"
  let ?run = "transaction_apply id tx_demo_env (Some [''w'']) ''c'' 1 False (\<lambda>_. False) tx_demo_ops ?h tx_demo_os"
  obtain r s where run: "?run = (r, s)" by (cases ?run)
  have "case ?run of (r, s) \<Rightarrow> r = Done (Inl (Rolled_back ''/w/b'' [''/w/a''])) \<and> holds_before tx_demo_ops (reads s)"
    by (simp add: tx_demo_eval holds_before_def no_log_def)
  then have r: "r = Done (Inl (Rolled_back ''/w/b'' [''/w/a'']))" "holds_before tx_demo_ops (reads s)" unfolding run by simp_all
  show ?thesis using transaction_all_or_nothing [OF tx_demo_place run] run r by simp
qed

section \<open>After a crash\<close>

text \<open>Recoveries of which each may be interrupted, and then one that is not.\<close>

fun recover_runs :: "tx_content host \<Rightarrow> replay_env \<Rightarrow> path \<Rightarrow> int \<Rightarrow> (nat \<Rightarrow> bool) list \<Rightarrow> tx_content os \<Rightarrow> tx_content os" where
  "recover_runs h env ws cutoff [] s = snd (ScanRecording env (Some ws) cutoff (calm_host h) s)"
| "recover_runs h env ws cutoff (c # cs) s =
     recover_runs h env ws cutoff cs (snd (ScanRecording env (Some ws) cutoff (h\<lparr>crashes := c\<rparr>) s))"

lemma crash_host_simps [simp]:
  "sees (h\<lparr>crashes := c\<rparr>) = sees h" "junk (h\<lparr>crashes := c\<rparr>) = junk h" "log_names (h\<lparr>crashes := c\<rparr>) = log_names h"
  "no_faults (h\<lparr>crashes := c\<rparr>) = no_faults h"
  by (simp_all add: fun_eq_iff sees_def junk_def is_temp_def good_names_def proper_def log_names_def no_faults_def)

lemma crash_host_recovers [simp]:
  "recovers_from (h\<lparr>crashes := c\<rparr>) = recovers_from h"
  "recovery_setting (h\<lparr>crashes := c\<rparr>) = recovery_setting h"
  by (simp_all add: fun_eq_iff recovers_from_def holds_def recovery_setting_def tx_files_def replayable_def)

lemma recover_once:
  assumes "recovery_setting h env E (tx_logs ws) B" "recovers_from h E (tx_logs ws) B cutoff (set (dir_order h (tx_logs ws))) s"
    and "ScanRecording env (Some ws) cutoff (h\<lparr>crashes := c\<rparr>) s = (r, s1)"
  shows "(r \<noteq> Crashed \<longrightarrow> recovers_from h E (tx_logs ws) B cutoff {} s1) \<and>
    recovers_from h E (tx_logs ws) B cutoff (set (dir_order h (tx_logs ws))) s1"
proof -
  have "triple (h\<lparr>crashes := c\<rparr>) (recovers_from h E (tx_logs ws) B cutoff (set (dir_order h (tx_logs ws)))) (ScanRecording env (Some ws) cutoff)
      (\<lambda>_. recovers_from h E (tx_logs ws) B cutoff {}) (\<lambda>_. False) (recovers_from h E (tx_logs ws) B cutoff (set (dir_order h (tx_logs ws))))"
    using recover_scan [of "h\<lparr>crashes := c\<rparr>" env E "tx_logs ws" B ws cutoff] assms(1) by (simp add: tx_logs_def)
  from tripleD [OF this assms(2,3)] show ?thesis by (cases r) (auto intro: recovers_from_mono)
qed

lemma ScanRecording_returns: "fst (ScanRecording env ws cutoff (calm_host h) s) \<noteq> Crashed"
proof -
  have "uninterrupted (ScanRecording env ws cutoff)"
    unfolding ScanRecording_def
    by (auto intro!: uninterrupted_rules uninterrupted_scan simp: Let_def split: option.split)
  then show ?thesis by (simp add: uninterrupted_def)
qed

lemma recover_all:
  assumes "recovery_setting h env E (tx_logs ws) B" "recovers_from h E (tx_logs ws) B cutoff (set (dir_order h (tx_logs ws))) s"
  shows "recovers_from h E (tx_logs ws) B cutoff {} (recover_runs h env ws cutoff cs s)"
  using assms(2)
proof (induction cs arbitrary: s)
  case Nil
  obtain r s1 where m: "ScanRecording env (Some ws) cutoff (calm_host h) s = (r, s1)" by (cases "ScanRecording env (Some ws) cutoff (calm_host h) s")
  then have "r \<noteq> Crashed" using ScanRecording_returns [of env "Some ws" cutoff h s] by simp
  then show ?case using recover_once [OF assms(1) Nil, of "\<lambda>_. False" r s1] m by (simp add: calm_host_def)
next
  case (Cons c cs)
  obtain r s1 where m: "ScanRecording env (Some ws) cutoff (h\<lparr>crashes := c\<rparr>) s = (r, s1)" by (cases "ScanRecording env (Some ws) cutoff (h\<lparr>crashes := c\<rparr>) s")
  show ?case using Cons.IH [OF conjunct2 [OF recover_once [OF assms(1) Cons.prems m]]] by (simp add: m)
qed




section \<open>Where the promise is not kept\<close>

text \<open>The state of the demo when all is written and the log is still there.\<close>

definition tx_demo_log :: tx_log where
  "tx_demo_log =
     \<lparr>log_dir = Some [''w'', ''.plumb'', ''tx-log'', ''1-1''],
      log_manifest = \<lparr>tx_id = ''1-1'', tx_started = Some 2, tx_workspace = [''w''], tx_call = ''c'',
        tx_ops = [\<lparr>op_n = 0, op_path = ''/w/a'', op_perm = 420, op_snapshotted = True\<rparr>,
                  \<lparr>op_n = 1, op_path = ''/w/b'', op_perm = 420, op_snapshotted = True\<rparr>]\<rparr>,
      log_n = 2\<rparr>"

definition tx_demo_written :: "tx_content os" where
  "tx_demo_written =
     \<lparr>inodes = (\<lambda>i. \<lparr>i_data = (if i = 0 then Text ''X'' else if i = 1 then Text ''Y'' else if i = 2 then Text ''x'' else if i = 3 then Text ''y''
          else Manifest (log_manifest tx_demo_log)), i_synced = True, i_mode = 420, i_mtime = 0\<rparr>),
      now_dir = [[''w'', ''a''] \<mapsto> 0, [''w'', ''b''] \<mapsto> 1, [''w'', ''.plumb'', ''tx-log'', ''1-1'', ''0-before''] \<mapsto> 2,
        [''w'', ''.plumb'', ''tx-log'', ''1-1'', ''1-before''] \<mapsto> 3, [''w'', ''.plumb'', ''tx-log'', ''1-1'', ''manifest.json''] \<mapsto> 4],
      saved_dir = (\<lambda>_. None),
      now_dirs = (\<lambda>d. d \<in> set [[], [''w''], [''w'', ''.plumb''], [''w'', ''.plumb'', ''tx-log''], [''w'', ''.plumb'', ''tx-log'', ''1-1''], [''t'']]),
      saved_dirs = (\<lambda>_. True), next_inode = 5, time = 0, calls = 0, warnings = 0, cross_known = []\<rparr>"

lemma commit_torn:
  "case Commit tx_demo_log (tx_demo_host (Some 2)) tx_demo_written of
     (r, s) \<Rightarrow> r = Crashed \<and> holds_after tx_demo_ops (reads s) \<and>
       (case ScanRecording tx_demo_env (Some [''w'']) 100 (tx_demo_host (Some 1000)) s of
          (r', s') \<Rightarrow> r' = Done [''/w/b''] \<and> reads s' [''w'', ''a''] = Some (Text ''X'') \<and> reads s' [''w'', ''b''] = Some (Text ''y''))"
proof -
  have replay: "replay_to tx_demo_env d \<lparr>op_n = n, op_path = ''/w/a'', op_perm = m, op_snapshotted = True\<rparr> = Some ''/w/a''"
    "replay_to tx_demo_env d \<lparr>op_n = n, op_path = ''/w/b'', op_perm = m, op_snapshotted = True\<rparr> = Some ''/w/b''" for d n m
    using tx_demo_replay [of None] by (auto simp: replayable_def tx_demo_olds)
  show ?thesis by (simp add: tx_demo_written_def tx_demo_log_def tx_demo_eval replay holds_after_def tx_demo_real)
qed

lemma snapshot_not_durable:
  "case txPhase2Write tx_demo_env (Some [''w'']) ''c'' 1 tx_demo_ops (tx_demo_host (Some 50)) tx_demo_os of
     (r, s) \<Rightarrow> r = Crashed \<and> survives s [''w'', ''a''] (Some (Text ''X'')) \<and>
       survives s [''w'', ''.plumb'', ''tx-log'', ''1-1'', ''0-before''] (Some (Text []))"
  by (simp add: tx_demo_eval survives_def entry_holds_def)

end
