(* ===== verification/Plumb_Watch_Claims.thy ===== *)
theory Plumb_Watch_Claims
  imports Plumb_Ignore_Correct Plumb_Glob_Correct
begin

text \<open>
  The watcher of the index against its resync. The cache of stacks holds what a walk would
  have built, so an event is decided as the walk decides; the two agree on every file but for
  the gaps shown at the end.
\<close>

section \<open>The cache of stacks\<close>

definition open_dir :: "string list \<Rightarrow> bool" where
  "open_dir d = (plains d \<and> \<not> list_ex shouldSkipDir d)"

lemma open_dir_simps [simp]:
  "open_dir []"
  "open_dir (d @ e) \<longleftrightarrow> open_dir d \<and> open_dir e"
  "open_dir (c # e) \<longleftrightarrow> plain c \<and> \<not> shouldSkipDir c \<and> open_dir e"
  by (auto simp: open_dir_def)

lemma open_dir_plains [simp]: "open_dir d \<Longrightarrow> plains d"
  by (simp add: open_dir_def)

definition cache_ok :: "(string \<Rightarrow> string option) \<Rightarrow> string list \<Rightarrow> (string \<times> stack) list \<Rightarrow> bool" where
  "cache_ok rd r cache =
     (int (length cache) \<le> watcherIgnoreCacheMax \<and>
      (\<forall>(dir, st) \<in> set cache. \<exists>d. open_dir d \<and> dir = show_path (r @ d) \<and> st = stack_at rd r d))"

lemma cache_ok_Nil [simp]: "cache_ok rd r []"
  by (simp add: cache_ok_def watcherIgnoreCacheMax_def)

lemma cache_ok_lookup:
  assumes "cache_ok rd r cache" "plains r" "open_dir d" "map_of cache (show_path (r @ d)) = Some st"
  shows "st = stack_at rd r d"
proof -
  from assms(4) have "(show_path (r @ d), st) \<in> set cache" by (rule map_of_SomeD)
  with assms(1) obtain e where "open_dir e" "show_path (r @ d) = show_path (r @ e)" "st = stack_at rd r e"
    unfolding cache_ok_def by fast
  with assms(2,3) show ?thesis by (simp add: show_path_inject)
qed

lemma length_update_le: "length (AList.update k v al) \<le> Suc (length al)"
  by (induction al) auto

lemma set_update_sub: "set (AList.update k v al) \<subseteq> insert (k, v) (set al)"
  by (induction al) auto

lemma cache_ok_store:
  assumes "cache_ok rd r cache" "open_dir d"
  shows "cache_ok rd r (storeStack (show_path (r @ d)) (stack_at rd r d) cache)"
proof -
  let ?c = "if watcherIgnoreCacheMax \<le> int (length cache) then [] else cache"
  have c: "cache_ok rd r ?c" "int (Suc (length ?c)) \<le> watcherIgnoreCacheMax"
    using assms(1) by (auto simp: cache_ok_def watcherIgnoreCacheMax_def)
  have "int (length (AList.update (show_path (r @ d)) (stack_at rd r d) ?c)) \<le> watcherIgnoreCacheMax"
    using length_update_le [of "show_path (r @ d)" "stack_at rd r d" ?c] c(2) by linarith
  moreover have "\<exists>e. open_dir e \<and> dir = show_path (r @ e) \<and> st = stack_at rd r e"
    if "(dir, st) \<in> set (AList.update (show_path (r @ d)) (stack_at rd r d) ?c)" for dir st
  proof -
    have "(dir, st) = (show_path (r @ d), stack_at rd r d) \<or> (dir, st) \<in> set ?c"
      using that set_update_sub [of "show_path (r @ d)" "stack_at rd r d" ?c] by blast
    with c(1) assms(2) show ?thesis unfolding cache_ok_def by blast
  qed
  ultimately show ?thesis unfolding cache_ok_def storeStack_def by blast
qed

lemma stack_loop_ok:
  "plains r \<Longrightarrow> open_dir d \<Longrightarrow> open_dir ps \<Longrightarrow> cache_ok rd r cache \<Longrightarrow>
   \<exists>cache'. stack_loop rd (show_path (r @ d)) ps (stack_at rd r d) cache = (stack_at rd r (d @ ps), cache') \<and> cache_ok rd r cache'"
proof (induction ps arbitrary: d cache)
  case (Cons p ps)
  have cur: "Join (show_path (r @ d)) p = show_path (r @ d @ [p])" using Cons.prems by (simp add: Join_show)
  show ?case
  proof (cases "map_of cache (show_path (r @ d @ [p]))")
    case None
    have "Load rd (stack_at rd r d) (show_path (r @ d @ [p])) = stack_at rd r (d @ [p])" by (simp add: stack_at_snoc)
    moreover have "cache_ok rd r (storeStack (show_path (r @ d @ [p])) (stack_at rd r (d @ [p])) cache)"
      using cache_ok_store [of rd r cache "d @ [p]"] Cons.prems by simp
    ultimately show ?thesis using Cons.IH [of "d @ [p]"] Cons.prems cur None by (simp add: Let_def)
  next
    case (Some st)
    then have "st = stack_at rd r (d @ [p])" using cache_ok_lookup [of rd r cache "d @ [p]" st] Cons.prems by simp
    with Cons.IH [of "d @ [p]" cache] Cons.prems cur Some show ?thesis by (simp add: Let_def)
  qed
qed simp

lemma stackFor_ok:
  assumes "plains r" "open_dir d" "cache_ok rd r cache"
  shows "\<exists>cache'. stackFor rd (show_path r) (show_path (r @ d)) cache = (stack_at rd r d, cache') \<and> cache_ok rd r cache'"
proof (cases "map_of cache (show_path (r @ d))")
  case (Some st)
  with cache_ok_lookup [OF assms(3,1,2)] assms(3) show ?thesis by (simp add: stackFor_def)
next
  case None
  obtain c where c: "(case map_of cache (show_path r) of
        Some st \<Rightarrow> (st, cache)
      | None \<Rightarrow> (let st = Load rd [] (show_path r) in (st, storeStack (show_path r) st cache))) = (stack_at rd r [], c)"
    "cache_ok rd r c"
  proof (cases "map_of cache (show_path r)")
    case None
    then show thesis using cache_ok_store [of rd r cache "[]"] assms(3) that by (simp add: Let_def)
  next
    case (Some st)
    then have "st = stack_at rd r []" using cache_ok_lookup [OF assms(3,1), of "[]" st] by simp
    with Some show thesis using assms(3) that by simp
  qed
  show ?thesis
  proof (cases "d = []")
    case True
    then have "Rel (show_path r) (show_path (r @ d)) = Some ''.''" using assms(1) by (simp add: Rel_show)
    moreover have "\<not> has_prefix ''.'' ''../''" by (simp add: has_prefix_def)
    ultimately show ?thesis using None c True by (simp add: stackFor_def)
  next
    case False
    have rel: "Rel (show_path r) (show_path (r @ d)) = Some (join_with ''/'' d)" using Rel_below [OF assms(1) _ False] assms by simp
    have "\<not> outside_rel (join_with ''/'' d)" using join_plain_inside [of d] assms(2) False by simp
    moreover have "split_on (CHR ''/'') (join_with ''/'' d) = d" using split_join_plain [of d] assms(2) False by simp
    moreover obtain c' where "stack_loop rd (show_path r) d (stack_at rd r []) c = (stack_at rd r d, c')" "cache_ok rd r c'"
      using stack_loop_ok [OF assms(1) _ assms(2) c(2), of "[]"] by auto
    ultimately show ?thesis using None c rel by (auto simp: stackFor_def outside_rel_def)
  qed
qed

section \<open>Deciding on one path\<close>

definition event_dir :: "(string \<Rightarrow> bool option) \<Rightarrow> string list \<Rightarrow> string list \<Rightarrow> nat \<Rightarrow> bool" where
  "event_dir lstat r p k = (k < length p \<or> lstat (show_path (r @ p)) = Some True)"

definition ignored_at :: "(string \<Rightarrow> string option) \<Rightarrow> (string \<Rightarrow> bool option) \<Rightarrow> string list \<Rightarrow> string list \<Rightarrow> nat \<Rightarrow> bool" where
  "ignored_at rd lstat r p k =
     IsIgnored (stack_at rd r (take (k - 1) p)) (show_path (r @ take k p)) (event_dir lstat r p k)"

lemma ignored_loop_ok:
  "plains r \<Longrightarrow> open_dir d \<Longrightarrow> open_dir (butlast ps) \<Longrightarrow> plains ps \<Longrightarrow> cache_ok rd r cache \<Longrightarrow>
   \<exists>cache'. ignored_loop rd lstat (show_path r) (show_path (r @ d)) ps cache =
       ((\<exists>k. length d < k \<and> k \<le> length (d @ ps) \<and> ignored_at rd lstat r (d @ ps) k), cache') \<and> cache_ok rd r cache'"
proof (induction ps arbitrary: d cache)
  case (Cons p ps)
  have cur: "Join (show_path (r @ d)) p = show_path (r @ d @ [p])" using Cons.prems by (simp add: Join_show)
  obtain c where c: "stackFor rd (show_path r) (show_path (r @ d)) cache = (stack_at rd r d, c)" "cache_ok rd r c"
    using stackFor_ok [of r d rd cache] Cons.prems by auto
  have here: "IsIgnored (stack_at rd r d) (show_path (r @ d @ [p])) (ps \<noteq> [] \<or> lstat (show_path (r @ d @ [p])) = Some True) \<longleftrightarrow>
      ignored_at rd lstat r (d @ p # ps) (Suc (length d))"
    by (auto simp: ignored_at_def event_dir_def)
  obtain c' where c': "ignored_loop rd lstat (show_path r) (show_path (r @ d @ [p])) ps c =
      ((\<exists>k. Suc (length d) < k \<and> k \<le> length (d @ p # ps) \<and> ignored_at rd lstat r (d @ p # ps) k), c')" "cache_ok rd r c'"
  proof (cases "ps = []")
    case True
    then show thesis using c(2) that [of c] by simp
  next
    case False
    with Cons.IH [of "d @ [p]" c] Cons.prems c(2) that show thesis by auto
  qed
  have ex: "(\<exists>k. length d < k \<and> k \<le> length (d @ p # ps) \<and> ignored_at rd lstat r (d @ p # ps) k) \<longleftrightarrow>
      ignored_at rd lstat r (d @ p # ps) (Suc (length d)) \<or>
      (\<exists>k. Suc (length d) < k \<and> k \<le> length (d @ p # ps) \<and> ignored_at rd lstat r (d @ p # ps) k)"
    (is "(\<exists>k. ?P k) \<longleftrightarrow> ?Q \<or> ?R")
  proof
    assume "\<exists>k. ?P k"
    then obtain k where "?P k" ..
    then show "?Q \<or> ?R" by (cases "k = Suc (length d)") auto
  next
    assume "?Q \<or> ?R"
    then show "\<exists>k. ?P k"
    proof
      assume ?R
      then obtain k where "Suc (length d) < k" "k \<le> length (d @ p # ps)" "ignored_at rd lstat r (d @ p # ps) k" by blast
      then show ?thesis by (intro exI [of _ k]) simp
    qed (auto intro: exI [of _ "Suc (length d)"])
  qed
  have loop: "ignored_loop rd lstat (show_path r) (show_path (r @ d)) (p # ps) cache =
      (if ignored_at rd lstat r (d @ p # ps) (Suc (length d)) then (True, c)
       else ignored_loop rd lstat (show_path r) (show_path (r @ d @ [p])) ps c)"
    using c(1) cur here by (simp add: Let_def)
  show ?case
  proof (cases "ignored_at rd lstat r (d @ p # ps) (Suc (length d))")
    case True
    with loop c(2) show ?thesis unfolding ex by (intro exI [of _ c]) simp
  next
    case False
    with loop c' show ?thesis unfolding ex by (intro exI [of _ c']) simp
  qed
qed simp

text \<open>The first component the watcher drops is the first that is excluded.\<close>

lemma ignored_first:
  assumes "plains r" "plains p"
  shows "(\<exists>k. 0 < k \<and> k \<le> length p \<and> ignored_at rd lstat r p k) \<longleftrightarrow>
    (\<exists>k. 0 < k \<and> k \<le> length p \<and> excluded rd r (take k p) (event_dir lstat r p k))"
proof -
  have same: "ignored_at rd lstat r p k = excluded rd r (take k p) (event_dir lstat r p k)"
    if k: "0 < k" "k \<le> length p" and first: "\<And>j. 0 < j \<Longrightarrow> j < k \<Longrightarrow> \<not> excluded rd r (take j p) (event_dir lstat r p j)" for k
  proof -
    have "\<not> excluded rd r q True" if q: "q \<noteq> []" "strict_prefix q (take k p)" for q
    proof -
      obtain j where "j < k" "q = take j p" using q(2) \<open>k \<le> length p\<close> by (auto simp: strict_prefix_take)
      with q(1) k(2) first [of j] show ?thesis by (cases j) (auto simp: event_dir_def)
    qed
    moreover have "plains (take k p)" using assms(2) by (auto simp: list_all_iff dest: in_set_takeD)
    moreover have "take k p \<noteq> []" using k by (cases p; cases k) auto
    ultimately have "IsIgnored (stack_at rd r (butlast (take k p))) (show_path (r @ take k p)) (event_dir lstat r p k) =
        excluded rd r (take k p) (event_dir lstat r p k)"
      using IsIgnored_pruned [OF assms(1)] by blast
    moreover have "butlast (take k p) = take (k - 1) p" using k(2) by (simp add: butlast_take)
    ultimately show ?thesis by (simp add: ignored_at_def)
  qed
  show ?thesis
  proof
    assume "\<exists>k. 0 < k \<and> k \<le> length p \<and> ignored_at rd lstat r p k"
    then obtain k where k: "0 < k" "k \<le> length p" "ignored_at rd lstat r p k" by blast
    show "\<exists>k. 0 < k \<and> k \<le> length p \<and> excluded rd r (take k p) (event_dir lstat r p k)"
    proof (rule ccontr)
      assume none: "\<nexists>k. 0 < k \<and> k \<le> length p \<and> excluded rd r (take k p) (event_dir lstat r p k)"
      have "\<not> excluded rd r (take j p) (event_dir lstat r p j)" if "0 < j" "j < k" for j
        using none that k(2) by (meson less_imp_le_nat le_trans)
      from same [OF k(1,2) this] k none show False by blast
    qed
  next
    assume "\<exists>k. 0 < k \<and> k \<le> length p \<and> excluded rd r (take k p) (event_dir lstat r p k)"
    then obtain k where k: "0 < k" "k \<le> length p" "excluded rd r (take k p) (event_dir lstat r p k)"
      and least: "\<forall>j < k. \<not> (0 < j \<and> j \<le> length p \<and> excluded rd r (take j p) (event_dir lstat r p j))"
      unfolding exists_least_iff [where P = "\<lambda>k. 0 < k \<and> k \<le> length p \<and> excluded rd r (take k p) (event_dir lstat r p k)"]
      by (elim exE conjE) assumption
    have "\<not> excluded rd r (take j p) (event_dir lstat r p j)" if j: "0 < j" "j < k" for j
    proof -
      have "j \<le> length p" using j(2) k(2) by linarith
      with least [rule_format, OF j(2)] j(1) show ?thesis by blast
    qed
    from same [OF k(1,2) this] k(3) have "ignored_at rd lstat r p k" by (rule iffD2)
    with k(1,2) show "\<exists>k. 0 < k \<and> k \<le> length p \<and> ignored_at rd lstat r p k" by (intro exI [of _ k] conjI)
  qed
qed

lemma ignoredPath_ok:
  assumes "plains r" "plains p" "p \<noteq> []" "cache_ok rd r cache" "open_dir (butlast p)"
  shows "\<exists>cache'. ignoredPath rd lstat (show_path r) (show_path (r @ p)) cache =
      ((\<exists>k. 0 < k \<and> k \<le> length p \<and> excluded rd r (take k p) (event_dir lstat r p k)), cache') \<and> cache_ok rd r cache'"
proof -
  have "Rel (show_path r) (show_path (r @ p)) = Some (join_with ''/'' p)" using Rel_below [OF assms(1)] assms by simp
  moreover have "\<not> outside_rel (join_with ''/'' p)" by (rule join_plain_inside [OF assms(2,3)])
  moreover have "split_on (CHR ''/'') (join_with ''/'' p) = p" by (rule split_join_plain [OF assms(2,3)])
  moreover obtain c where "ignored_loop rd lstat (show_path r) (show_path r) p cache =
      ((\<exists>k. 0 < k \<and> k \<le> length p \<and> ignored_at rd lstat r p k), c)" "cache_ok rd r c"
    using ignored_loop_ok [of r "[]" p rd cache lstat] assms by auto
  ultimately show ?thesis using ignored_first [OF assms(1,2), of rd lstat] by (auto simp: ignoredPath_def)
qed

section \<open>Events\<close>

lemma entry_paths_plain:
  "(p, u) \<in> set (tree_paths d t) \<Longrightarrow> plains d \<Longrightarrow> tree_plain t \<Longrightarrow> plains p"
  "(p, u) \<in> set (entry_paths d es) \<Longrightarrow> plains d \<Longrightarrow> entries_plain es \<Longrightarrow> plains p"
  by (induction d t and d es rule: tree_paths_entry_paths.induct) auto

lemma join_nonempty: "plains p \<Longrightarrow> p \<noteq> [] \<Longrightarrow> join_with ''/'' p \<noteq> []"
  by (cases p; cases "tl p") (auto simp: plain_def)

lemma path_base_join: "plains p \<Longrightarrow> p \<noteq> [] \<Longrightarrow> path_base (join_with ''/'' p) = last p"
proof -
  assume p: "plains p" "p \<noteq> []"
  then have f: "filter (\<lambda>c. c \<noteq> []) p = p" by (auto simp: filter_id_conv list_all_iff plain_def)
  have ne: "join_with ''/'' p \<noteq> []" using join_nonempty [OF p] .
  have "split_on (CHR ''/'') (join_with ''/'' p) = p" by (rule split_join_plain [OF p])
  with f ne p(2) show ?thesis by (auto simp: path_base_def split: list.split)
qed

lemma shouldSkipPath_join:
  assumes "plains p" "p \<noteq> []"
  shows "shouldSkipPath (join_with ''/'' p) = list_ex shouldSkipDir p"
proof -
  obtain c us where c: "p = c # us" "plain c" using assms by (cases p) auto
  have split: "split_on (CHR ''/'') (join_with ''/'' p) = p" by (rule split_join_plain [OF assms])
  have parts: "list_ex (\<lambda>part. part \<noteq> [] \<and> shouldSkipDir part) p = list_ex shouldSkipDir p"
    using assms(1) by (auto simp: list_ex_iff list_all_iff plain_def)
  have "\<not> outside_rel (join_with ''/'' p)" by (rule join_plain_inside [OF assms])
  moreover have "join_with ''/'' p \<noteq> []" using join_nonempty [OF assms] .
  moreover have "shouldSkipDir c" if dots: "has_prefix (join_with ''/'' p) ''..''"
  proof -
    obtain s where s: "join_with ''/'' p = c @ s" "s = [] \<or> hd s = CHR ''/''" using c(1) by (cases us) auto
    have "hd c = CHR ''.'' \<and> 1 < length c"
      using dots s c(2) by (cases c; cases "tl c"; cases s) (auto simp: has_prefix_def plain_def)
    then show ?thesis by (simp add: shouldSkipDir_def)
  qed
  ultimately show ?thesis using split parts c(1) by (auto simp: shouldSkipPath_def outside_rel_def)
qed

lemma not_skipped_open: "plains p \<Longrightarrow> \<not> list_ex shouldSkipDir p \<Longrightarrow> open_dir (butlast p)"
  by (auto simp: open_dir_def list_all_iff list_ex_iff dest: in_set_butlastD)

lemma path_dir_join:
  assumes "plains p" "p \<noteq> []"
  shows "path_dir (join_with ''/'' p) = (if butlast p = [] then ''.'' else join_with ''/'' (butlast p))"
proof -
  obtain q l where q: "p = q @ [l]" using assms(2) by (cases p rule: rev_cases) auto
  have l: "plain l" "plains q" using assms(1) q by auto
  have drop: "dropWhile (\<lambda>c. c \<noteq> CHR ''/'') (rev l) = []"
    unfolding dropWhile_eq_Nil_conv using l(1) by (auto simp: plain_def)
  show ?thesis
  proof (cases "q = []")
    case True
    then have "join_with ''/'' p = l" using q by simp
    then have "path_dir (join_with ''/'' p) = Clean []" unfolding path_dir_def by (simp only: drop rev.simps)
    also have "\<dots> = ''.''" by code_simp
    finally show ?thesis using True q by simp
  next
    case False
    have "join_with ''/'' p = join_with ''/'' q @ CHR ''/'' # l"
      using join_append [of "[l]" q] lead_join [OF False] q by simp
    moreover have "dropWhile (\<lambda>c. c \<noteq> CHR ''/'') (rev l @ CHR ''/'' # t) = CHR ''/'' # t" for t
      using l(1) by (subst dropWhile_append2) (auto simp: plain_def)
    ultimately have dir: "path_dir (join_with ''/'' p) = Clean (join_with ''/'' (q @ [[]]))"
      using join_append [of "[[]]" q] lead_join [OF False] by (simp add: path_dir_def)
    have "split_on (CHR ''/'') (join_with ''/'' (q @ [[]])) = q @ [[]]"
      by (rule split_join) (use l(2) in \<open>auto simp: list_all_iff plain_def\<close>)
    moreover have "clean_comps False (q @ [[]]) = q" using l(2) by (simp add: clean_comps_def fold_clean_plain clean_comp_def)
    moreover have "\<not> IsAbs (join_with ''/'' (q @ [[]]))"
      using l(2) False by (cases q; cases "hd q") (auto simp: IsAbs_def has_prefix_def join_Cons_slash plain_def)
    ultimately show ?thesis using dir q False by (simp add: Clean_def)
  qed
qed

lemma handle_event_cases:
  assumes "plains r" "plains p" "p \<noteq> []" "fw_workspace fw = show_path r"
  shows "handle_event rd lstat fw (show_path (r @ p)) =
    (if isIgnoreFileName (last p)
     then (if list_ex shouldSkipDir (butlast p) then (No_action, fw) else (Full_resync, fw\<lparr>fw_cache := []\<rparr>))
     else if list_ex shouldSkipDir p \<or> matchesExcludePattern (fw_exclude fw) (join_with ''/'' p) then (No_action, fw)
     else (case ignoredPath rd lstat (show_path r) (show_path (r @ p)) (fw_cache fw) of
             (ignored, cache) \<Rightarrow> (if ignored then No_action else Enqueue (join_with ''/'' p), fw\<lparr>fw_cache := cache\<rparr>)))"
proof -
  have rel: "Rel (show_path r) (show_path (r @ p)) = Some (join_with ''/'' p)" using Rel_below [OF assms(1)] assms by simp
  have "(path_dir (join_with ''/'' p) = ''.'' \<or> \<not> shouldSkipPath (path_dir (join_with ''/'' p))) \<longleftrightarrow>
      \<not> list_ex shouldSkipDir (butlast p)"
  proof (cases "butlast p = []")
    case False
    have pl: "plains (butlast p)" using assms(2) by (auto simp: list_all_iff dest: in_set_butlastD)
    have "join_with ''/'' (butlast p) \<noteq> ''.''" using join_plain_inside [OF pl False] by (auto simp: outside_rel_def)
    with shouldSkipPath_join [OF pl False] False show ?thesis by (simp add: path_dir_join [OF assms(2,3)])
  qed (simp add: path_dir_join [OF assms(2,3)])
  with rel show ?thesis
    using assms(4) path_base_join [OF assms(2,3)] shouldSkipPath_join [OF assms(2,3)]
    by (simp add: handle_event_def Let_def)
qed

lemma handle_event_decides:
  assumes "plains r" "plains p" "p \<noteq> []" "cache_ok rd r (fw_cache fw)" "fw_workspace fw = show_path r"
    and "\<not> isIgnoreFileName (last p)"
  shows "fst (handle_event rd lstat fw (show_path (r @ p))) =
    (if \<not> list_ex shouldSkipDir p \<and> \<not> matchesExcludePattern (fw_exclude fw) (join_with ''/'' p) \<and>
        (\<forall>k. 0 < k \<and> k \<le> length p \<longrightarrow> \<not> excluded rd r (take k p) (event_dir lstat r p k))
     then Enqueue (join_with ''/'' p) else No_action)"
proof (cases "list_ex shouldSkipDir p")
  case True
  with assms show ?thesis by (simp add: handle_event_cases)
next
  case False
  then obtain c where c: "ignoredPath rd lstat (show_path r) (show_path (r @ p)) (fw_cache fw) =
      ((\<exists>k. 0 < k \<and> k \<le> length p \<and> excluded rd r (take k p) (event_dir lstat r p k)), c)"
    using ignoredPath_ok [OF assms(1-4) not_skipped_open [OF assms(2)]] by blast
  have "handle_event rd lstat fw (show_path (r @ p)) =
      (if matchesExcludePattern (fw_exclude fw) (join_with ''/'' p) then (No_action, fw)
       else (if \<exists>k. 0 < k \<and> k \<le> length p \<and> excluded rd r (take k p) (event_dir lstat r p k) then No_action
             else Enqueue (join_with ''/'' p), fw\<lparr>fw_cache := c\<rparr>))"
    using False assms(6) by (simp add: handle_event_cases [OF assms(1-3,5)] c)
  with False show ?thesis by auto
qed

text \<open>A change of an ignore file leaves the rules of every directory that is not below its own.\<close>

lemma load_patterns_other:
  assumes "\<forall>q. q \<noteq> show_path (r @ p) \<longrightarrow> rd' q = rd q" "plains r" "plains p" "plains d" "p \<noteq> []" "d \<noteq> butlast p"
  shows "Load rd' st (show_path (r @ d)) = Load rd st (show_path (r @ d))"
proof -
  have "rd' (Join (show_path (r @ d)) name) = rd (Join (show_path (r @ d)) name)" if "plain name" for name
  proof -
    have "d @ [name] \<noteq> p" using assms(6) by auto
    then have "show_path (r @ d @ [name]) \<noteq> show_path (r @ p)" using assms that by (simp add: show_path_inject)
    then show ?thesis using assms(1,2,4) that by (simp add: Join_show)
  qed
  moreover have "plain ''.gitignore''" "plain ''.ignore''" by (simp_all add: plain_def)
  ultimately show ?thesis by (simp add: Load_def load_patterns_def)
qed

lemma stack_at_other:
  assumes "\<forall>q. q \<noteq> show_path (r @ p) \<longrightarrow> rd' q = rd q" "plains r" "plains p" "p \<noteq> []"
  shows "plains d \<Longrightarrow> \<not> prefix (butlast p) d \<Longrightarrow> stack_at rd' r d = stack_at rd r d"
proof (induction d rule: rev_induct)
  case Nil
  then show ?case using load_patterns_other [OF assms(1-3), of "[]"] assms(4) by auto
next
  case (snoc c d)
  then show ?case using load_patterns_other [OF assms(1-3), of "d @ [c]"] assms(4) by (auto simp: stack_at_snoc)
qed

lemma cache_ok_other:
  assumes "cache_ok rd r cache" "\<forall>q. q \<noteq> show_path (r @ p) \<longrightarrow> rd' q = rd q" "plains r" "plains p" "p \<noteq> []"
    and "list_ex shouldSkipDir (butlast p)"
  shows "cache_ok rd' r cache"
proof -
  have "stack_at rd' r d = stack_at rd r d" if "open_dir d" for d
  proof -
    have "\<not> prefix (butlast p) d" using that assms(6) by (auto simp: prefix_def open_dir_def)
    with stack_at_other [OF assms(2-5)] that show ?thesis by simp
  qed
  with assms(1) show ?thesis unfolding cache_ok_def by fastforce
qed

text \<open>A workspace to evaluate the two on.\<close>

definition demo_lstat :: "string \<Rightarrow> bool option" where
  "demo_lstat path = (if path \<in> set [''/w'', ''/w/build'', ''/w/src''] then Some True else Some False)"

definition demo_watcher :: fs_watcher where
  "demo_watcher = \<lparr>fw_workspace = ''/w'', fw_exclude = [''*_gen.go''], fw_cache = []\<rparr>"

definition demo_indexer :: indexer where
  "demo_indexer = \<lparr>ix_read = demo_text, ix_exclude = [''*_gen.go''], ix_worktrees = False, ix_linked = (\<lambda>_ path. path = ''/w/wt'')\<rparr>"

text \<open>
  C17. The cached rules stay well formed under every event: at most the maximum, and for each
  directory the rules a walk would carry into it now, whether the file of the event is an ignore
  file that has just changed or another one.
\<close>

theorem watcher_cache_sound:
  assumes "plains r" "plains p" "p \<noteq> []" "fw_workspace fw = show_path r"
    and "cache_ok rd r (fw_cache fw)"
    and "\<forall>q. q \<noteq> show_path (r @ p) \<longrightarrow> rd' q = rd q" "isIgnoreFileName (last p) \<or> rd' = rd"
  shows "cache_ok rd' r (fw_cache (snd (handle_event rd' lstat fw (show_path (r @ p)))))"
proof (cases "isIgnoreFileName (last p)")
  case True
  show ?thesis
  proof (cases "list_ex shouldSkipDir (butlast p)")
    case skip: True
    from cache_ok_other [OF assms(5,6,1-3) this] True skip show ?thesis by (simp add: handle_event_cases [OF assms(1-4)])
  qed (simp add: handle_event_cases [OF assms(1-4)] True)
next
  case other: False
  then have rd: "rd' = rd" using assms(7) by blast
  show ?thesis
  proof (cases "list_ex shouldSkipDir p")
    case False
    obtain b c where c: "ignoredPath rd lstat (show_path r) (show_path (r @ p)) (fw_cache fw) = (b, c)" "cache_ok rd r c"
      using ignoredPath_ok [OF assms(1-3,5) not_skipped_open [OF assms(2) False]] by blast
    with other False rd assms(5) show ?thesis by (simp add: handle_event_cases [OF assms(1-4)])
  qed (use other rd assms(5) in \<open>simp add: handle_event_cases [OF assms(1-4)]\<close>)
qed

theorem watcher_cache_sound_witness:
  "let fw = snd (handle_event demo_text demo_lstat demo_watcher (show_path ([''w''] @ [''src'', ''o.log''])));
       edited = demo_text(show_path ([''w''] @ [''src'', ''.ignore'']) := None);
       fw' = snd (handle_event edited demo_lstat fw (show_path ([''w''] @ [''src'', ''.ignore'']))) in
   length (fw_cache fw) = 2 \<and> cache_ok demo_text [''w''] (fw_cache fw) \<and> cache_ok edited [''w''] (fw_cache fw')"
proof -
  let ?fw = "snd (handle_event demo_text demo_lstat demo_watcher (show_path ([''w''] @ [''src'', ''o.log''])))"
  let ?edited = "demo_text(show_path ([''w''] @ [''src'', ''.ignore'']) := None)"
  let ?fw' = "snd (handle_event ?edited demo_lstat ?fw (show_path ([''w''] @ [''src'', ''.ignore''])))"
  have filled: "length (fw_cache ?fw) = 2" by code_simp
  have before: "cache_ok demo_text [''w''] (fw_cache ?fw)"
    by (rule watcher_cache_sound [where rd = demo_text]) (code_simp, code_simp, code_simp, code_simp, simp add: demo_watcher_def, simp, simp)
  have "cache_ok ?edited [''w''] (fw_cache ?fw')"
    by (rule watcher_cache_sound [OF _ _ _ _ before]) (code_simp, code_simp, code_simp, code_simp, simp, simp add: isIgnoreFileName_def)
  with filled before show ?thesis unfolding Let_def by blast
qed

text \<open>
  C16. Watcher and resync agree. An event over a file queues it exactly when the resync would index
  it, as long as the name of the file is not one directories are skipped by, no exclude pattern
  names one of its directories, and no directory above it is a linked worktree that is left out,
  about which the watcher is not told. An event over an ignore file asks for a resync, unless the
  file lies in a directory that both skip.
\<close>

theorem watcher_agrees_with_resync:
  assumes "plains r" "entries_plain es" "(p, t) \<in> set (entry_paths [] es)" "\<not> is_directory t"
    and "plains p" "lstat (show_path (r @ p)) \<noteq> Some True"
    and "\<forall>k. 0 < k \<and> k < length p \<longrightarrow> \<not> matchesExcludePattern (ix_exclude ix) (join_with ''/'' (take k p)) \<and>
       (ix_worktrees ix \<or> \<not> ix_linked ix (show_path r) (show_path (r @ take k p)))"
    and "cache_ok (ix_read ix) r (fw_cache fw)" "fw_workspace fw = show_path r" "fw_exclude fw = ix_exclude ix"
    and "isIgnoreFileName (last p) \<or> \<not> shouldSkipDir (last p)"
  shows "if isIgnoreFileName (last p) then
      fst (handle_event (ix_read ix) lstat fw (show_path (r @ p))) = Full_resync \<longleftrightarrow> \<not> list_ex shouldSkipDir (butlast p)
    else
      fst (handle_event (ix_read ix) lstat fw (show_path (r @ p))) = Enqueue (join_with ''/'' p) \<longleftrightarrow>
      join_with ''/'' p \<in> set (processResync ix (show_path r) (Directory es))"
proof (cases "isIgnoreFileName (last p)")
  case True
  have "p \<noteq> []" using paths_below(2) [OF assms(3)] by auto
  with True show ?thesis by (simp add: handle_event_cases [OF assms(1,5) _ assms(9)])
next
  case False
  have ne: "p \<noteq> []" using paths_below(2) [OF assms(3)] by auto
  let ?ex = "\<lambda>k. excluded (ix_read ix) r (take k p) (event_dir lstat r p k)"
  have skip: "list_ex shouldSkipDir p \<longleftrightarrow> (\<exists>k. 0 < k \<and> k < length p \<and> shouldSkipDir (last (take k p)))"
  proof -
    have "list_ex shouldSkipDir p \<longleftrightarrow> (\<exists>i < length p. shouldSkipDir (p ! i))" by (simp add: list_ex_length)
    also have "\<dots> \<longleftrightarrow> (\<exists>i. Suc i < length p \<and> shouldSkipDir (p ! i))"
      using assms(11) False ne by (metis Suc_lessD Suc_lessI diff_Suc_1 last_conv_nth)
    also have "\<dots> \<longleftrightarrow> (\<exists>k. 0 < k \<and> k < length p \<and> shouldSkipDir (last (take k p)))"
      by (metis Suc_lessD Suc_less_eq2 gr0_conv_Suc last_snoc take_Suc_conv_app_nth)
    finally show ?thesis .
  qed
  have kept: "kept_dir ix r (take k p) \<longleftrightarrow> \<not> shouldSkipDir (last (take k p)) \<and> \<not> ?ex k" if "0 < k" "k < length p" for k
    using assms(7) that by (auto simp: kept_dir_def event_dir_def)
  have whole: "?ex (length p) \<longleftrightarrow> excluded (ix_read ix) r p False" using assms(6) by (simp add: event_dir_def)
  have above: "above_kept ix r (butlast p) \<longleftrightarrow> (\<forall>k. 0 < k \<and> k < length p \<longrightarrow> kept_dir ix r (take k p))"
  proof -
    have "k \<le> length (butlast p) \<longleftrightarrow> k < length p" "k < length p \<Longrightarrow> take k (butlast p) = take k p" for k
      using ne by (cases p rule: rev_cases; auto)+
    then show ?thesis by (auto simp: above_kept_def)
  qed
  have "indexed ix r p \<longleftrightarrow> \<not> list_ex shouldSkipDir p \<and> \<not> matchesExcludePattern (ix_exclude ix) (join_with ''/'' p) \<and>
      (\<forall>k. 0 < k \<and> k \<le> length p \<longrightarrow> \<not> ?ex k)"
    unfolding indexed_def above skip whole [symmetric] using kept ne
    by (auto simp: le_less)
  moreover have "join_with ''/'' p \<in> set (processResync ix (show_path r) (Directory es)) \<longleftrightarrow> indexed ix r p"
  proof
    assume "join_with ''/'' p \<in> set (processResync ix (show_path r) (Directory es))"
    then obtain q u where q: "(q, u) \<in> set (entry_paths [] es)" "indexed ix r q" "join_with ''/'' q = join_with ''/'' p"
      using processResync_indexed [OF assms(1,2)] by (auto simp: index_files_def)
    have "q \<noteq> []" "plains q" using paths_below(2) [OF q(1)] entry_paths_plain(2) [OF q(1) _ assms(2)] by auto
    then have "q = p" using q(3) split_join_plain [of q] split_join_plain [OF assms(5) ne] by metis
    with q show "indexed ix r p" by simp
  next
    assume "indexed ix r p"
    with assms(3,4) show "join_with ''/'' p \<in> set (processResync ix (show_path r) (Directory es))"
      using processResync_indexed [OF assms(1,2)] by (force simp: index_files_def)
  qed
  ultimately show ?thesis
    using handle_event_decides [OF assms(1,5) ne assms(8,9) False, of lstat] assms(10) False by simp
qed

theorem watcher_agrees_with_resync_witness:
  "fst (handle_event demo_text demo_lstat demo_watcher (show_path ([''w''] @ [''src'', ''m.go'']))) = Enqueue ''src/m.go'' \<and>
   ''src/m.go'' \<in> set (processResync demo_indexer (show_path [''w'']) (Directory demo_tree)) \<and> \<not> ix_worktrees demo_indexer"
proof -
  have "if isIgnoreFileName (last [''src'', ''m.go'']) then
      fst (handle_event (ix_read demo_indexer) demo_lstat demo_watcher (show_path ([''w''] @ [''src'', ''m.go'']))) = Full_resync \<longleftrightarrow>
        \<not> list_ex shouldSkipDir (butlast [''src'', ''m.go''])
    else
      fst (handle_event (ix_read demo_indexer) demo_lstat demo_watcher (show_path ([''w''] @ [''src'', ''m.go'']))) =
        Enqueue (join_with ''/'' [''src'', ''m.go'']) \<longleftrightarrow>
      join_with ''/'' [''src'', ''m.go''] \<in> set (processResync demo_indexer (show_path [''w'']) (Directory demo_tree))"
  proof (rule watcher_agrees_with_resync [where t = Regular])
    show "\<forall>k. 0 < k \<and> k < length [''src'', ''m.go''] \<longrightarrow>
        \<not> matchesExcludePattern (ix_exclude demo_indexer) (join_with ''/'' (take k [''src'', ''m.go''])) \<and>
        (ix_worktrees demo_indexer \<or> \<not> ix_linked demo_indexer (show_path [''w'']) (show_path ([''w''] @ take k [''src'', ''m.go''])))"
    proof (intro allI impI)
      fix k assume "0 < k \<and> k < length [''src'', ''m.go'']"
      then have "k = 1" by simp
      moreover have "\<not> matchesExcludePattern (ix_exclude demo_indexer) (join_with ''/'' (take 1 [''src'', ''m.go''])) \<and>
        (ix_worktrees demo_indexer \<or> \<not> ix_linked demo_indexer (show_path [''w'']) (show_path ([''w''] @ take 1 [''src'', ''m.go''])))"
        by code_simp
      ultimately show "\<not> matchesExcludePattern (ix_exclude demo_indexer) (join_with ''/'' (take k [''src'', ''m.go''])) \<and>
        (ix_worktrees demo_indexer \<or> \<not> ix_linked demo_indexer (show_path [''w'']) (show_path ([''w''] @ take k [''src'', ''m.go''])))" by simp
    qed
    show "cache_ok (ix_read demo_indexer) [''w''] (fw_cache demo_watcher)" by (simp add: demo_watcher_def)
  qed code_simp+
  moreover have "\<not> isIgnoreFileName (last [''src'', ''m.go''])" by code_simp
  moreover have "''src/m.go'' \<in> set (processResync demo_indexer (show_path [''w'']) (Directory demo_tree))" by code_simp
  ultimately show ?thesis by (simp add: demo_indexer_def)
qed

section \<open>Where the two disagree\<close>

text \<open>
  An exclude pattern that names a directory prunes it in the resync; the watcher tries the
  pattern on the path of the file only, and queues what lies below.
\<close>

theorem excluded_directory_requeued:
  "let ix = demo_indexer\<lparr>ix_exclude := [''gen'']\<rparr>; fw = demo_watcher\<lparr>fw_exclude := [''gen'']\<rparr> in
   processResync ix ''/w'' (Directory [(''gen'', Directory [(''x.go'', Regular)])]) = [] \<and>
   fst (handle_event demo_text demo_lstat fw ''/w/gen/x.go'') = Enqueue ''gen/x.go''"
  by code_simp

text \<open>
  A file whose name starts with a dot is indexed by the resync; the watcher treats the name as
  it treats a directory's, and drops every event over the file.
\<close>

theorem dot_file_never_refreshed:
  "processResync demo_indexer ''/w'' (Directory [(''.eslintrc.js'', Regular)]) = [''.eslintrc.js''] \<and>
   fst (handle_event demo_text demo_lstat demo_watcher ''/w/.eslintrc.js'') = No_action"
  by code_simp

end
