(* ===== verification/Spec2Isabelle.thy ===== *)
theory Spec2Isabelle
  imports Plumb_Boundary
    Plumb_Boundary_Claims
    Plumb_Boundary_Correct
    Plumb_Braces
    Plumb_Braces_Correct
    Plumb_Cache
    Plumb_Cache_Correct
    Plumb_Diagnostics
    Plumb_Diagnostics_Claims
    Plumb_Diff
    Plumb_Diff_Correct
    Plumb_DirtyGuard
    Plumb_EditFile
    Plumb_EditFile_Correct
    Plumb_Faults
    Plumb_FileMoves_Correct
    Plumb_FileTools
    Plumb_FileTools_Claims
    Plumb_FileTools_Correct
    Plumb_Filepath
    Plumb_Git
    Plumb_Git_Correct
    Plumb_Git_Options
    Plumb_Git_Policy
    Plumb_Glob
    Plumb_Glob_Correct
    Plumb_Host
    Plumb_Hub
    Plumb_Hub_Claims
    Plumb_Hub_Correct
    Plumb_Ignore
    Plumb_Ignore_Correct
    Plumb_Keyed_Store
    Plumb_PathLocks
    Plumb_PathLocks_Claims
    Plumb_PathLocks_Correct
    Plumb_Paths
    Plumb_Pool
    Plumb_Pool_Claims
    Plumb_Pool_Correct
    Plumb_Prelude
    Plumb_Prune_Correct
    Plumb_RangeEdit
    Plumb_RangeEdit_Correct
    Plumb_RateLimiter
    Plumb_RateLimiter_Correct
    Plumb_Recovery_Claims
    Plumb_Replace
    Plumb_Replace_Claims
    Plumb_Replace_Correct
    Plumb_Rpc
    Plumb_Rpc_Claims
    Plumb_Rpc_Correct
    Plumb_SafeWrite
    Plumb_SafeWrite_Claims
    Plumb_SafeWrite_Correct
    Plumb_Stores
    Plumb_Stores_Correct
    Plumb_Substrings
    Plumb_TextEdits
    Plumb_TextEdits_Correct
    Plumb_Transaction
    Plumb_Transaction_Claims
    Plumb_Transaction_Correct
    Plumb_Transaction_Demo
    Plumb_Transaction_Faults
    Plumb_TxLog
    Plumb_TxLog_Correct
    Plumb_Unified
    Plumb_Unified_Correct
    Plumb_View
    Plumb_Walk
    Plumb_Watch
    Plumb_Watch_Claims
begin

text \<open>
  Plumb is a daemon that gives coding agents tools over a workspace: reading and editing files,
  running git, refactoring through language servers, undo. Its tools share one discipline. A call
  is admitted (boundary, rate limiter, policy, dirty files), takes the locks of its files, reads,
  computes the new texts in memory, writes each file atomically, and records what it did (undo,
  trackers, a log for transactions) so that it can be taken back and a crash can be repaired. The
  theories model that discipline; the source is under \<open>src/internal\<close>.

  \<^bold>\<open>Theories and sources.\<close> \<open>Plumb_Prelude\<close> has the byte-string operations of Go's standard
  library that the source uses, checked indexing, and the hints shared below.
  \<^item> \<open>Plumb_Diff\<close>, \<open>Plumb_Unified\<close>: \<open>textdiff/textdiff.go\<close>, \<open>myers.go\<close>, \<open>unified.go\<close>: the
    bounded Myers search with its trace and backtracking, hunks, rendering, applying. In
    \<open>Plumb_Diff_Correct\<close> and \<open>Plumb_Unified_Correct\<close>: totality, that the script
    is faithful and shortest, the round trip.
  \<^item> \<open>Plumb_Git_Options\<close>, \<open>Plumb_Git\<close>, \<open>Plumb_Git_Policy\<close>: \<open>tools/git_options.go\<close>, \<open>git_classify.go\<close>, \<open>git_merge.go\<close>,
    \<open>git_read_args.go\<close>, \<open>git_ref_reset.go\<close>, \<open>git_policy.go\<close>, \<open>git.go\<close>, \<open>git_window.go\<close>,
    \<open>git_exec.go\<close>: git's option grammar, the tier of a call, the gate. In \<open>Plumb_Git_Correct\<close>:
    the scanner against a reference parse, and what each tier excludes.
  \<^item> \<open>Plumb_RateLimiter\<close> (\<open>tools/rate_limit.go\<close>): limiters with parents, as the critical sections
    of concurrent calls; invariants over all interleavings in \<open>Plumb_RateLimiter_Correct\<close>.
  \<^item> \<open>Plumb_RangeEdit\<close>, \<open>Plumb_Paths\<close>, \<open>Plumb_TextEdits\<close> (\<open>tools/range_edit.go\<close>, \<open>edit_apply.go\<close>,
    \<open>paths/uri.go\<close>): line ranges, language-server edits, workspace edits with rollback.
  \<^item> \<open>Plumb_EditFile\<close> (\<open>tools/edit_file*.go\<close>): exact, anchored and partial edits, and the retry
    loop under writers outside the daemon; \<open>Plumb_Substrings\<close> has what matching rests on.
  \<^item> \<open>Plumb_Keyed_Store\<close>, \<open>Plumb_Stores\<close>, \<open>Plumb_Cache\<close> (\<open>tools/undo_store.go\<close>, \<open>read_tracker.go\<close>,
    \<open>write_tracker.go\<close>, \<open>write_guards.go\<close>, \<open>cache/cache.go\<close>).
  \<^item> \<open>Plumb_Host\<close>, \<open>Plumb_SafeWrite\<close> (\<open>tools/file_write_helpers.go\<close>, \<open>file_write_fsync.go\<close>,
    \<open>fsync\<close>): an operating system with a page cache, stable storage, failing calls and crashes,
    and the writers over it. \<open>Plumb_SafeWrite_Correct\<close> has the logic of stable storage and the
    contract of an atomic writer as a locale; \<open>Plumb_View\<close> the coarser logic of what processes
    see. \<open>Plumb_DirtyGuard\<close> and \<open>Plumb_PathLocks\<close> are the guard on uncommitted changes and the lock
    table with its sweep.
  \<^item> \<open>Plumb_TxLog\<close>, \<open>Plumb_Transaction\<close> (\<open>tools/txlog\<close>, \<open>transaction.go\<close>,
    \<open>transaction_diag.go\<close>): the write-ahead log, its recovery scan, and the transaction over it.
    \<open>Plumb_TxLog_Correct\<close>: what a recovery needs and that it restores; \<open>Plumb_Transaction_Correct\<close>:
    that every step of a transaction keeps it, where no call fails. \<open>Plumb_Faults\<close>: that a program
    depends on the faults of its own calls only; \<open>Plumb_Transaction_Faults\<close>: what a transaction
    leaves of its files when any calls fail, in the writes, the log or the rollback.
  \<^item> \<open>Plumb_Filepath\<close>, \<open>Plumb_Boundary\<close> (\<open>paths/canonical.go\<close>, \<open>tools/boundary.go\<close>,
    \<open>pathpolicy.go\<close>, \<open>write_deps.go\<close>): Go's lexical path functions and the walk of the kernel
    through directories and links, then canonical paths and the policy of allowed roots. In
    \<open>Plumb_Boundary_Correct\<close> and \<open>Plumb_Boundary_Claims\<close>: what is admitted lies inside, and where
    it does not.
  \<^item> \<open>Plumb_Glob\<close>, \<open>Plumb_Ignore\<close>, \<open>Plumb_Walk\<close>, \<open>Plumb_Watch\<close> (\<open>ignore\<close>, \<open>tools/walk.go\<close>,
    \<open>topology/exclude.go\<close>, \<open>indexer_resync.go\<close>, \<open>watcher.go\<close>): patterns, ignore files and the
    stack of rules, the walk of the tools, the resync of the index and its watcher. In
    \<open>Plumb_Glob_Correct\<close>, \<open>Plumb_Ignore_Correct\<close> and \<open>Plumb_Watch_Claims\<close>: the matcher against
    matching by components, the walks against the set of entries that no rule excludes, and the
    watcher against the resync.
  \<^item> \<open>Plumb_FileTools\<close> (\<open>tools/write_file.go\<close>, \<open>undo_edit.go\<close>, \<open>copy_file.go\<close>,
    \<open>rename_file.go\<close>, \<open>delete_file.go\<close>, \<open>fail_on_new_errors.go\<close>): the tools on whole files, each
    a program over the host that composes the boundary, the guards, the writers and the stores
    above. In \<open>Plumb_FileTools_Correct\<close>, \<open>Plumb_FileMoves_Correct\<close> and \<open>Plumb_FileTools_Claims\<close>:
    what each leaves of the contents of files on every branch, and what it was let over.
  \<^item> \<open>Plumb_Rpc\<close> (\<open>lsp/jsonrpc/conn.go\<close>): the frames of a connection to a language server, and its
    goroutines as a machine that takes one action at a time. In \<open>Plumb_Rpc_Correct\<close> and
    \<open>Plumb_Rpc_Claims\<close>: streams cut anywhere, identifiers, the order of notifications, closing.
  \<^item> \<open>Plumb_Braces\<close> (\<open>tools/glob_braces.go\<close>, the matcher in \<open>search_in_files_scan.go\<close>, the pruning in
    \<open>walk.go\<close>): globs with braces. \<open>Plumb_Braces_Correct\<close> has their meaning as a product over the
    structure of a pattern, \<open>Plumb_Prune_Correct\<close> what a literal prefix says of the matched paths.
  \<^item> \<open>Plumb_Replace\<close> (\<open>tools/find_replace.go\<close>): find_replace, from its arguments to its report, the
    workers as a machine of interleaved steps. \<open>Plumb_Replace_Correct\<close> has its invariants, as sums of
    a part of each worker, \<open>Plumb_Replace_Claims\<close> the files it looks at, its budget, report and end.
  \<^item> \<open>Plumb_Hub\<close> (\<open>fswatch/hub.go\<close>): the hub of shared watchers, one step per critical section,
    with its invariant in \<open>Plumb_Hub_Correct\<close> and what subscribers rely on in \<open>Plumb_Hub_Claims\<close>.
  \<^item> \<open>Plumb_Diagnostics\<close> (\<open>cache/invalidator.go\<close>, \<open>invalidator_pull.go\<close>): what servers reported of
    files, pushed and pulled, and the waiters; in \<open>Plumb_Diagnostics_Claims\<close> the union against a
    reference, generations, and the wake-ups over all interleavings.
  \<^item> \<open>Plumb_Pool\<close> (\<open>cli/pool*.go\<close>, \<open>proxy.go\<close>): the pool that starts, shares, hibernates and
    reaps language servers. \<open>Plumb_Pool_Correct\<close> has one lemma for what a step does to each part of
    the state, and the invariants made of them; \<open>Plumb_Pool_Claims\<close> what sessions and calls get.

  \<^bold>\<open>How state and effects are modelled.\<close> Structs are records, enumerations datatypes, and a Go
  error is a branch of a sum or an option. Strings are byte strings, as in Go. A program over the
  host (\<open>io\<close>) is a function from a host and a state to a result, which may be a failure or a
  crash; which calls fail and before which call a crash comes are functions of the host, so the
  theorems hold for all of them, unless they ask for a host on which no call fails. Concurrent components are inductive step relations, one step per
  critical section or atomic operation. Integers of a fixed width are words where the width
  matters (offsets of positions, the hash of the cache, file modes).

  \<^bold>\<open>Interfaces.\<close> Where operations share a contract it is a locale: the line differ, the keyed
  stores with their identity key, the option scanner, the locks, the atomic writer. Each is
  interpreted on the definitions of the component that provides it, and the properties use the
  facts of the interpretations.

  \<^bold>\<open>Termination and bounds.\<close> Loops are structural or have a measure: the snake by what is left of
  both sides, the hunk loop by the lines left, the walk to missing ancestors by the length of the
  path, the matcher of ** by the pattern. A walk of the kernel follows at most 40 links and that of
  \<open>EvalSymlinks\<close> 255, as they do. \<open>Allow\<close> takes six steps for a limiter with one parent and is given that fuel; that it is
  enough is proved. \<open>sort.Slice\<close> is an insertion sort, and nothing rests on the order of equal
  elements but where it is stated. The recovery of a crash is iterated over a list of crash
  schedules of any length.

  \<^bold>\<open>Parameters.\<close> The identity key of a path and its canonical form, SHA-256, the clock, the answers
  of git, what symbolic and hard links make of a path, whether new diagnostics appeared: they are
  arguments or fields of an environment.

  \<^bold>\<open>Not modelled.\<close> The command line, the terminal and web interfaces, the MCP transport and its
  JSON, the start of language servers and what is asked of each, the extractors and tables of the code index, configuration, the SQL
  stores of statistics, history and sessions, the watchers of the operating system and the launching of processes: they
  are input and output around the discipline above, or rest on libraries that are not in the
  repository. The host of the writers has no directory where a file is to be and no file where a
  directory is, and the directories that are removed hold files only. The texts of messages are
  reduced to the constructors of an error. File names are
  case-sensitive, and the file system does not change during one resolution of a path.
\<close>

end
